(* ===== verification/Roxal_Prelude.thy ===== *)
theory Roxal_Prelude
  imports Main "HOL-Library.Word" "HOL-Library.AList"
begin

text \<open>
  Shared vocabulary of the development: the fact collections the component proofs draw on,
  a sequencing operator for fallible code, bytes and the two byte orders the sources use,
  \<open>std::istream\<close> as a remaining-input record with its fail bit, and two interface locales.
  \<^item> \<open>framed\<close>: a writer and a reader that undo each other on one item, with a reader context;
    its client lemma is the round trip of a counted sequence.
  \<^item> \<open>machine\<close>: initial states, a step relation and an inductive invariant; its client lemma
    is that every reachable state satisfies the invariant.
\<close>

unbundle bit_operations_syntax

named_theorems codec_simps "unfolding rules for writers and readers"
named_theorems inv_intros "introduction rules for component invariants"

type_synonym byte = "8 word"
type_synonym u16 = "16 word"
type_synonym u32 = "32 word"
type_synonym u64 = "64 word"

section \<open>Fallible code\<close>

text \<open>
  A C++ function that may throw is a value of \<open>'e + 'a\<close>; \<open>seq_then\<close> runs the next statement
  only when the previous one returned.
\<close>

definition seq_then :: "('e + 'a) \<Rightarrow> ('a \<Rightarrow> 'e + 'b) \<Rightarrow> 'e + 'b" where
  "seq_then r f = (case r of Inl e \<Rightarrow> Inl e | Inr a \<Rightarrow> f a)"

lemma seq_then_simps [simp]:
  "seq_then (Inl e) f = Inl e" "seq_then (Inr a) f = f a"
  by (simp_all add: seq_then_def)

lemma seq_then_cong [fundef_cong]:
  assumes "r = r'" and "\<And>a. r' = Inr a \<Longrightarrow> f a = g a"
  shows "seq_then r f = seq_then r' g"
  using assms by (cases r') simp_all

lemma seq_then_eq_Inr:
  "seq_then r f = Inr b \<longleftrightarrow> (\<exists>a. r = Inr a \<and> f a = Inr b)"
  by (cases r) auto

lemma seq_then_eq_Inl:
  "seq_then r f = Inl e \<longleftrightarrow> r = Inl e \<or> (\<exists>a. r = Inr a \<and> f a = Inl e)"
  by (cases r) auto

section \<open>Byte orders\<close>

text \<open>
  \<open>out.write(reinterpret_cast<const char*>(&v), n)\<close> emits the object representation of \<open>v\<close>;
  the development is about little-endian hosts (x86-64, AArch64, wasm32), where that is the
  least significant byte first.
\<close>

fun le_bytes :: "nat \<Rightarrow> nat \<Rightarrow> byte list" where
  "le_bytes 0 v = []"
| "le_bytes (Suc n) v = word_of_nat (v mod 256) # le_bytes n (v div 256)"

fun le_nat :: "byte list \<Rightarrow> nat" where
  "le_nat [] = 0"
| "le_nat (b # bs) = unat b + 256 * le_nat bs"

lemma length_le_bytes [simp]: "length (le_bytes n v) = n"
  by (induction n arbitrary: v) auto

lemma unat_byte_of_nat [simp]: "unat (word_of_nat (v mod 256) :: byte) = v mod 256"
  by (simp add: unat_of_nat)

lemma le_nat_le_bytes: "le_nat (le_bytes n v) = v mod 256 ^ n"
proof (induction n arbitrary: v)
  case 0
  then show ?case by simp
next
  case (Suc n)
  have "v mod 256 ^ Suc n = v mod 256 + 256 * (v div 256 mod 256 ^ n)"
    by (simp add: mod_mult2_eq)
  then show ?case by (simp add: Suc.IH)
qed

lemma le_nat_le_bytes_id [simp]: "v < 256 ^ n \<Longrightarrow> le_nat (le_bytes n v) = v"
  by (simp add: le_nat_le_bytes)

lemma le_nat_bound: "le_nat bs < 256 ^ length bs"
proof (induction bs)
  case Nil
  then show ?case by simp
next
  case (Cons b bs)
  have "unat b < 256" using unsigned_less [of b] by simp
  with Cons show ?case by simp
qed

lemma le_bytes_le_nat [simp]: "le_bytes (length bs) (le_nat bs) = bs"
proof (induction bs)
  case Nil
  then show ?case by simp
next
  case (Cons b bs)
  have b: "unat b < 256" using unsigned_less [of b] by simp
  then have "(unat b + 256 * le_nat bs) div 256 = le_nat bs"
    and "(unat b + 256 * le_nat bs) mod 256 = unat b" by simp_all
  with Cons show ?case by simp
qed

lemma le_bytes_inj:
  assumes "le_bytes n v = le_bytes n w" "v < 256 ^ n" "w < 256 ^ n"
  shows "v = w"
  using assms le_nat_le_bytes_id by metis

definition be_bytes :: "nat \<Rightarrow> nat \<Rightarrow> byte list" where
  "be_bytes n v = rev (le_bytes n v)"

definition be_nat :: "byte list \<Rightarrow> nat" where
  "be_nat bs = le_nat (rev bs)"

lemma length_be_bytes [simp]: "length (be_bytes n v) = n"
  by (simp add: be_bytes_def)

lemma be_nat_be_bytes [simp]: "v < 256 ^ n \<Longrightarrow> be_nat (be_bytes n v) = v"
  by (simp add: be_nat_def be_bytes_def)

lemma word_of_unat_mod:
  fixes w :: "'a::len word"
  assumes "2 ^ LENGTH('a) \<le> (256::nat) ^ n"
  shows "word_of_nat (le_nat (le_bytes n (unat w))) = w"
proof -
  have "unat w < 2 ^ LENGTH('a)" by (rule unsigned_less)
  with assms have "unat w < 256 ^ n" by linarith
  then show ?thesis by simp
qed

lemma take_bit_small:
  fixes w :: "'a::len word"
  assumes "unat w < 2 ^ k"
  shows "take_bit k w = w"
  using assms by (simp only: word_unat_eq_iff unsigned_take_bit_eq take_bit_nat_eq_self)

section \<open>Input streams\<close>

text \<open>
  \<open>std::istream\<close> over a byte buffer: the unread bytes and the fail bit.  \<open>in.read(p, n)\<close> on a
  failed stream stores nothing; with fewer than \<open>n\<close> bytes left it stores what there is and
  sets the fail bit.
\<close>

record istream =
  unread :: "byte list"
  failbit :: bool

definition good_stream :: "byte list \<Rightarrow> istream" where
  "good_stream bs = \<lparr>unread = bs, failbit = False\<rparr>"

definition in_read :: "nat \<Rightarrow> istream \<Rightarrow> byte list \<times> istream" where
  "in_read n s =
     (if failbit s then ([], s)
      else (take n (unread s),
            s\<lparr>unread := drop n (unread s), failbit := length (unread s) < n\<rparr>))"

lemma good_stream_sel [simp]:
  "unread (good_stream bs) = bs" "failbit (good_stream bs) = False"
  by (simp_all add: good_stream_def)

lemma in_read_good [codec_simps]:
  "length xs = n \<Longrightarrow> in_read n (good_stream (xs @ rest)) = (xs, good_stream rest)"
  by (simp add: in_read_def good_stream_def)

lemma in_read_failbit_mono: "failbit s \<Longrightarrow> failbit (snd (in_read n s))"
  by (simp add: in_read_def)

lemma in_read_length: "length (fst (in_read n s)) \<le> n"
  by (simp add: in_read_def)

lemma in_read_unread_le: "length (unread (snd (in_read n s))) \<le> length (unread s)"
  by (simp add: in_read_def)

lemma in_read_ok:
  "\<not> failbit (snd (in_read n s)) \<Longrightarrow>
     length (fst (in_read n s)) = n \<and> unread s = fst (in_read n s) @ unread (snd (in_read n s))"
  by (simp add: in_read_def split: if_splits)

lemma in_read_extend:
  assumes "\<not> failbit (snd (in_read n (good_stream p)))"
  shows "\<exists>r. in_read n (good_stream p) = (take n p, good_stream r)
    \<and> (\<forall>q. in_read n (good_stream (p @ q)) = (take n p, good_stream (r @ q)))"
  using assms by (intro exI [of _ "drop n p"]) (auto simp: in_read_def good_stream_def)

text \<open>
  \<open>T v = 0; in.read(reinterpret_cast<char*>(&v), n)\<close> for an unsigned \<open>T\<close> of \<open>n\<close> bytes: a short
  read overwrites the low bytes only.
\<close>

definition read_le :: "nat \<Rightarrow> istream \<Rightarrow> nat \<times> istream" where
  "read_le n s = (case in_read n s of (bs, s') \<Rightarrow> (le_nat bs, s'))"

lemma read_le_good [codec_simps]:
  "v < 256 ^ n \<Longrightarrow> read_le n (good_stream (le_bytes n v @ rest)) = (v, good_stream rest)"
  by (simp add: read_le_def in_read_good)

lemma read_le_ok: "\<not> failbit (snd (read_le n s)) \<Longrightarrow> \<not> failbit s"
  by (auto simp: read_le_def in_read_def split: if_splits)

lemma read_le_extend:
  assumes "read_le n (good_stream p) = (v, s)" "\<not> failbit s"
  shows "\<exists>r. s = good_stream r \<and> (\<forall>q. read_le n (good_stream (p @ q)) = (v, good_stream (r @ q)))"
  using in_read_extend [of n p] assms by (auto simp: read_le_def split: prod.splits)

lemma good_stream_inject [simp]: "good_stream p = good_stream q \<longleftrightarrow> p = q"
  by (simp add: good_stream_def)

section \<open>Counted sequences over a framed item codec\<close>

text \<open>The loop \<open>for (i = 0; i < n; ++i) xs.push_back(read())\<close> with an exception leaving it.\<close>

fun read_n :: "nat \<Rightarrow> ('s \<Rightarrow> 'e + ('a \<times> 's)) \<Rightarrow> 's \<Rightarrow> 'e + ('a list \<times> 's)" where
  "read_n 0 rd s = Inr ([], s)"
| "read_n (Suc n) rd s =
     seq_then (rd s) (\<lambda>(x, s1). seq_then (read_n n rd s1) (\<lambda>(xs, s2). Inr (x # xs, s2)))"

lemma read_n_length: "read_n n rd s = Inr (xs, s') \<Longrightarrow> length xs = n"
  by (induction n arbitrary: s xs s') (auto simp: seq_then_eq_Inr)

lemma read_n_all:
  assumes "\<And>s x s'. rd s = Inr (x, s') \<Longrightarrow> P x" and "read_n n rd s = Inr (xs, s')"
  shows "list_all P xs"
  using assms(2)
  by (induction n arbitrary: s xs s') (auto simp: seq_then_eq_Inr dest: assms(1))

locale framed =
  fixes mk :: "'c \<Rightarrow> byte list \<Rightarrow> 's"
    and ok :: "'c \<Rightarrow> 'a \<Rightarrow> bool"
    and nxt :: "'c \<Rightarrow> 'a \<Rightarrow> 'c"
    and enc :: "'a \<Rightarrow> byte list"
    and dec :: "'s \<Rightarrow> 'e + ('a \<times> 's)"
  assumes item_roundtrip:
    "ok c x \<Longrightarrow> dec (mk c (enc x @ rest)) = Inr (x, mk (nxt c x) rest)"
begin

fun ok_seq :: "'c \<Rightarrow> 'a list \<Rightarrow> bool" where
  "ok_seq c [] = True"
| "ok_seq c (x # xs) = (ok c x \<and> ok_seq (nxt c x) xs)"

lemma seq_roundtrip:
  "ok_seq c xs \<Longrightarrow>
     read_n (length xs) dec (mk c (concat (map enc xs) @ rest)) = Inr (xs, mk (foldl nxt c xs) rest)"
  by (induction xs arbitrary: c) (auto simp: item_roundtrip)

lemma seq_injective:
  assumes "ok_seq c xs" "ok_seq c ys" "length xs = length ys"
    and "concat (map enc xs) = concat (map enc ys)"
  shows "xs = ys"
  using seq_roundtrip [OF assms(1), of "[]"] seq_roundtrip [OF assms(2), of "[]"] assms(3,4)
  by simp

end

text \<open>
  A strict item reader also does not look ahead: what it reads from a prefix it reads in the same
  way when more bytes follow.  Then no proper prefix of a written sequence can be read.
\<close>

locale framed_strict = framed mk ok nxt enc dec
  for mk :: "'c \<Rightarrow> byte list \<Rightarrow> 's" and ok nxt and enc :: "'a \<Rightarrow> byte list"
    and dec :: "'s \<Rightarrow> 'e + ('a \<times> 's)" +
  assumes mk_inject: "mk c p = mk c r \<Longrightarrow> p = r"
    and extend: "dec (mk c p) = Inr (x, s) \<Longrightarrow>
      \<exists>r. s = mk (nxt c x) r \<and> (\<forall>q. dec (mk c (p @ q)) = Inr (x, mk (nxt c x) (r @ q)))"
begin

lemma seq_extend:
  "read_n n dec (mk c p) = Inr (xs, s) \<Longrightarrow>
     \<exists>r. s = mk (foldl nxt c xs) r \<and> (\<forall>q. read_n n dec (mk c (p @ q)) = Inr (xs, mk (foldl nxt c xs) (r @ q)))"
proof (induction n arbitrary: c p xs)
  case 0
  then show ?case by auto
next
  case (Suc n)
  then obtain x s1 ys where x: "dec (mk c p) = Inr (x, s1)" and ys: "read_n n dec s1 = Inr (ys, s)"
    and xs: "xs = x # ys" by (auto simp: seq_then_eq_Inr)
  from extend [OF x] obtain r where r: "s1 = mk (nxt c x) r"
    and more: "\<forall>q. dec (mk c (p @ q)) = Inr (x, mk (nxt c x) (r @ q))" by blast
  from Suc.IH [OF ys [unfolded r]] more show ?case by (auto simp: xs)
qed

lemma seq_no_prefix:
  assumes "ok_seq c xs" "concat (map enc xs) = p @ q" "q \<noteq> []"
  shows "read_n (length xs) dec (mk c p) \<noteq> Inr (ys, s)"
proof
  assume "read_n (length xs) dec (mk c p) = Inr (ys, s)"
  from seq_extend [OF this] obtain r where
    "read_n (length xs) dec (mk c (p @ q)) = Inr (ys, mk (foldl nxt c ys) (r @ q))" by blast
  then show False
    using seq_roundtrip [OF assms(1), of "[]"] assms(2,3) by (auto dest: mk_inject)
qed

end

section \<open>Step machines\<close>

inductive reach_from :: "('s \<Rightarrow> bool) \<Rightarrow> ('s \<Rightarrow> 's \<Rightarrow> bool) \<Rightarrow> 's \<Rightarrow> bool"
  for ini :: "'s \<Rightarrow> bool" and step :: "'s \<Rightarrow> 's \<Rightarrow> bool" where
  reach_init: "ini s \<Longrightarrow> reach_from ini step s"
| reach_step: "reach_from ini step s \<Longrightarrow> step s t \<Longrightarrow> reach_from ini step t"

locale machine =
  fixes ini :: "'s \<Rightarrow> bool"
    and step :: "'s \<Rightarrow> 's \<Rightarrow> bool"
    and inv :: "'s \<Rightarrow> bool"
  assumes inv_init: "ini s \<Longrightarrow> inv s"
    and inv_step: "inv s \<Longrightarrow> step s t \<Longrightarrow> inv t"
begin

lemma reachable_inv: "reach_from ini step s \<Longrightarrow> inv s"
  by (induction rule: reach_from.induct) (auto intro: inv_init inv_step)

lemma stays_inv: "step\<^sup>*\<^sup>* s t \<Longrightarrow> inv s \<Longrightarrow> inv t"
  by (induction rule: rtranclp_induct) (auto intro: inv_step)

end

end
