(* ===== verification/Ordered_Map.thy ===== *)
theory Ordered_Map
  imports Roxal_Prelude
begin

text \<open>
  \<open>core/ordered_map.h\<close>: \<open>roxal::ordered_map<Key, T>\<close>, a hash table that also remembers the order
  in which its keys were inserted.  The compiler keeps the members of each type in one.
  The record \<open>omap\<close> has the two data members: \<open>m\<close>, the entries of the \<open>std::unordered_map\<close> in
  its own (unspecified) iteration order, and \<open>order\<close>, the key vector.  An iterator is its
  \<open>index\<close> into \<open>order\<close>.  \<open>omap_inv\<close> is the representation invariant, \<open>om_entries\<close> the
  abstraction to an association list in insertion order; the operations refine
  \<open>AList.update\<close> and \<open>AList.delete\<close> on it.
\<close>

record ('k, 'v) omap =
  m :: "('k \<times> 'v) list"
  order :: "'k list"

section \<open>The hash table underneath\<close>

text \<open>
  \<open>std::unordered_map\<close>: \<open>find\<close>, \<open>emplace\<close> (no effect on a present key), \<open>erase\<close> by key and the
  store through a reference to a present value.  A new entry's place in the iteration order
  is unspecified; the model puts it last.
\<close>

definition hm_find :: "('k \<times> 'v) list \<Rightarrow> 'k \<Rightarrow> 'v option" where
  "hm_find t k = map_of t k"

definition hm_emplace :: "'k \<Rightarrow> 'v \<Rightarrow> ('k \<times> 'v) list \<Rightarrow> ('k \<times> 'v) list \<times> bool" where
  "hm_emplace k v t = (case map_of t k of Some _ \<Rightarrow> (t, False) | None \<Rightarrow> (t @ [(k, v)], True))"

definition hm_erase :: "'k \<Rightarrow> ('k \<times> 'v) list \<Rightarrow> ('k \<times> 'v) list \<times> nat" where
  "hm_erase k t = (case map_of t k of None \<Rightarrow> (t, 0) | Some _ \<Rightarrow> (AList.delete k t, 1))"

section \<open>Operations\<close>

definition om_new :: "('k, 'v) omap" where
  "om_new = \<lparr>m = [], order = []\<rparr>"

text \<open>
  \<open>operator[]\<close>: \<open>try_emplace\<close> a default value, remember a new key, return a reference;
  \<open>om_store\<close> is the assignment \<open>map[key] = v\<close> through that reference.
\<close>

definition om_subscript :: "'v \<Rightarrow> 'k \<Rightarrow> ('k, 'v) omap \<Rightarrow> ('k, 'v) omap" where
  "om_subscript dflt k om =
     (let (t, added) = hm_emplace k dflt (m om)
      in \<lparr>m = t, order = (if added then order om @ [k] else order om)\<rparr>)"

definition om_store :: "'v \<Rightarrow> 'k \<Rightarrow> 'v \<Rightarrow> ('k, 'v) omap \<Rightarrow> ('k, 'v) omap" where
  "om_store dflt k v om =
     (let om' = om_subscript dflt k om in om'\<lparr>m := AList.update k v (m om')\<rparr>)"

datatype om_error = Out_Of_Range

definition om_at :: "'k \<Rightarrow> ('k, 'v) omap \<Rightarrow> om_error + 'v" where
  "om_at k om = (case hm_find (m om) k of None \<Rightarrow> Inl Out_Of_Range | Some v \<Rightarrow> Inr v)"

text \<open>\<open>std::find\<close> over the key vector; the vector's size when the key is not in it.\<close>

fun order_index :: "'k list \<Rightarrow> 'k \<Rightarrow> nat" where
  "order_index [] k = 0"
| "order_index (x # xs) k = (if x = k then 0 else Suc (order_index xs k))"

definition om_orderIndexOf :: "'k \<Rightarrow> ('k, 'v) omap \<Rightarrow> nat" where
  "om_orderIndexOf k om = order_index (order om) k"

definition om_end :: "('k, 'v) omap \<Rightarrow> nat" where
  "om_end om = length (order om)"

definition om_iteratorAtKey :: "'k \<Rightarrow> ('k, 'v) omap \<Rightarrow> nat" where
  "om_iteratorAtKey k om =
     (let index = om_orderIndexOf k om
      in if index \<ge> length (order om) then om_end om else index)"

definition om_insert :: "'k \<times> 'v \<Rightarrow> ('k, 'v) omap \<Rightarrow> ('k, 'v) omap \<times> nat \<times> bool" where
  "om_insert kv om =
     (let (t, added) = hm_emplace (fst kv) (snd kv) (m om)
      in if added
         then (let om' = \<lparr>m = t, order = order om @ [fst kv]\<rparr>
               in (om', length (order om') - 1, True))
         else (om, om_iteratorAtKey (fst kv) om, False))"

definition om_emplace :: "'k \<Rightarrow> 'v \<Rightarrow> ('k, 'v) omap \<Rightarrow> ('k, 'v) omap \<times> nat \<times> bool" where
  "om_emplace k v om =
     (let (t, added) = hm_emplace k v (m om)
      in if added
         then (let om' = \<lparr>m = t, order = order om @ [k]\<rparr>
               in (om', length (order om') - 1, True))
         else (om, om_iteratorAtKey k om, False))"

definition om_containsKey :: "'k \<Rightarrow> ('k, 'v) omap \<Rightarrow> bool" where
  "om_containsKey k om \<longleftrightarrow> hm_find (m om) k \<noteq> None"

definition om_lookup :: "'k \<Rightarrow> ('k, 'v) omap \<Rightarrow> 'v option" where
  "om_lookup k om = hm_find (m om) k"

text \<open>
  \<open>apply\<close>: the callback runs on each entry in insertion order; its effect on the outside world
  is \<open>'s\<close>, and an exception it throws (the boolean) is swallowed with its effects kept.
\<close>

fun om_apply_keys ::
  "(('k \<times> 'v) \<Rightarrow> 's \<Rightarrow> 's \<times> bool) \<Rightarrow> ('k \<times> 'v) list \<Rightarrow> 'k list \<Rightarrow> 's \<Rightarrow> 's" where
  "om_apply_keys f t [] s = s"
| "om_apply_keys f t (k # ks) s =
     (case hm_find t k of
        None \<Rightarrow> om_apply_keys f t ks s
      | Some v \<Rightarrow> om_apply_keys f t ks (fst (f (k, v) s)))"

definition om_apply ::
  "(('k \<times> 'v) \<Rightarrow> 's \<Rightarrow> 's \<times> bool) \<Rightarrow> ('k, 'v) omap \<Rightarrow> 's \<Rightarrow> 's" where
  "om_apply f om s = om_apply_keys f (m om) (order om) s"

definition om_erase :: "'k \<Rightarrow> ('k, 'v) omap \<Rightarrow> ('k, 'v) omap \<times> nat" where
  "om_erase k om =
     (let (t, erased) = hm_erase k (m om)
      in if erased = 0 then (om\<lparr>m := t\<rparr>, 0)
         else (\<lparr>m = t, order = remove1 k (order om)\<rparr>, erased))"

definition om_erase_and_apply ::
  "'k \<Rightarrow> ('v \<Rightarrow> 's \<Rightarrow> 's) \<Rightarrow> ('k, 'v) omap \<Rightarrow> 's \<Rightarrow> ('k, 'v) omap \<times> 's \<times> nat" where
  "om_erase_and_apply k f om s =
     (case hm_find (m om) k of
        None \<Rightarrow> (om, s, 0)
      | Some v \<Rightarrow> (\<lparr>m = fst (hm_erase k (m om)), order = remove1 k (order om)\<rparr>, f v s, 1))"

definition om_clear :: "('k, 'v) omap \<Rightarrow> ('k, 'v) omap" where
  "om_clear om = \<lparr>m = [], order = []\<rparr>"

definition om_size :: "('k, 'v) omap \<Rightarrow> nat" where
  "om_size om = length (m om)"

definition om_empty :: "('k, 'v) omap \<Rightarrow> bool" where
  "om_empty om \<longleftrightarrow> m om = []"

definition om_find :: "'k \<Rightarrow> ('k, 'v) omap \<Rightarrow> nat" where
  "om_find k om =
     (if hm_find (m om) k = None then om_end om
      else (let index = om_orderIndexOf k om
            in if index \<ge> length (order om) then om_end om else index))"

text \<open>
  \<open>*it\<close>: the key at the index is looked up in the table, which throws when it is missing.
  Dereferencing \<open>end()\<close> reads past the vector; the model reports it with the same error.
\<close>

definition om_deref :: "nat \<Rightarrow> ('k, 'v) omap \<Rightarrow> om_error + ('k \<times> 'v)" where
  "om_deref i om =
     (if i < length (order om) then
        (case hm_find (m om) (order om ! i) of
           None \<Rightarrow> Inl Out_Of_Range
         | Some v \<Rightarrow> Inr (order om ! i, v))
      else Inl Out_Of_Range)"

definition om_assign_map :: "('k \<times> 'v) list \<Rightarrow> ('k, 'v) omap \<Rightarrow> ('k, 'v) omap" where
  "om_assign_map rhs om = \<lparr>m = rhs, order = map fst rhs\<rparr>"

definition om_keys :: "('k, 'v) omap \<Rightarrow> 'k list" where
  "om_keys om = order om"

definition om_entries :: "('k, 'v) omap \<Rightarrow> ('k \<times> 'v) list" where
  "om_entries om =
     List.map_filter (\<lambda>k. map_option (Pair k) (hm_find (m om) k)) (order om)"

section \<open>Representation invariant\<close>

definition omap_inv :: "('k, 'v) omap \<Rightarrow> bool" where
  "omap_inv om \<longleftrightarrow> distinct (map fst (m om)) \<and> distinct (order om)
     \<and> set (order om) = fst ` set (m om)"

lemma omap_invI [inv_intros]:
  "distinct (map fst t) \<Longrightarrow> distinct ks \<Longrightarrow> set ks = fst ` set t \<Longrightarrow> omap_inv \<lparr>m = t, order = ks\<rparr>"
  by (simp add: omap_inv_def)

lemma omap_inv_order_dom: "omap_inv om \<Longrightarrow> k \<in> set (order om) \<longleftrightarrow> map_of (m om) k \<noteq> None"
  by (simp add: omap_inv_def map_of_eq_None_iff)

lemma map_of_Some_key: "map_of t k = Some v \<Longrightarrow> k \<in> fst ` set t"
  by (force dest: map_of_SomeD)

lemma dom_alist_delete: "fst ` set (AList.delete k t) = fst ` set t - {k}"
proof -
  have "set (map fst (AList.delete k t)) = set (removeAll k (map fst t))"
    by (simp only: delete_keys)
  then show ?thesis by simp
qed

lemma hm_emplace_cases:
  "hm_emplace k v t = (if k \<in> fst ` set t then (t, False) else (t @ [(k, v)], True))"
  by (auto simp: hm_emplace_def dest: map_of_Some_key weak_map_of_SomeI split: option.split)

lemma hm_erase_cases:
  "hm_erase k t = (if k \<in> fst ` set t then (AList.delete k t, 1) else (t, 0))"
  by (auto simp: hm_erase_def dest: map_of_Some_key weak_map_of_SomeI split: option.split)

lemmas om_table_cases = hm_emplace_cases hm_erase_cases

lemma om_new_inv [inv_intros]: "omap_inv om_new"
  by (simp add: omap_inv_def om_new_def)

lemma om_clear_inv [inv_intros]: "omap_inv (om_clear om)"
  by (simp add: omap_inv_def om_clear_def)

lemma om_subscript_inv: "omap_inv om \<Longrightarrow> omap_inv (om_subscript d k om)"
  by (auto simp: omap_inv_def om_subscript_def hm_emplace_cases)

lemma om_store_inv [inv_intros]: "omap_inv om \<Longrightarrow> omap_inv (om_store d k v om)"
  by (auto simp: omap_inv_def om_store_def om_subscript_def hm_emplace_cases
      distinct_update update_keys dom_update)

lemma om_insert_inv [inv_intros]: "omap_inv om \<Longrightarrow> omap_inv (fst (om_insert kv om))"
  by (auto simp: omap_inv_def om_insert_def hm_emplace_cases)

lemma om_emplace_insert: "om_emplace k v om = om_insert (k, v) om"
  by (simp only: om_emplace_def om_insert_def fst_conv snd_conv)

lemma om_erase_inv [inv_intros]: "omap_inv om \<Longrightarrow> omap_inv (fst (om_erase k om))"
  using distinct_delete [of "m om" k]
  by (auto simp: omap_inv_def om_erase_def hm_erase_cases dom_alist_delete simp del: delete_keys)

lemma om_erase_and_apply_erase:
  "fst (om_erase_and_apply k f om s) = fst (om_erase k om)
   \<and> snd (snd (om_erase_and_apply k f om s)) = snd (om_erase k om)"
  by (auto simp: om_erase_and_apply_def om_erase_def hm_erase_def hm_find_def split: option.split)

lemma om_assign_map_inv [inv_intros]: "distinct (map fst t) \<Longrightarrow> omap_inv (om_assign_map t om)"
  by (simp add: omap_inv_def om_assign_map_def)

section \<open>The abstraction: entries in insertion order\<close>

lemma om_entries_new: "om_entries om_new = []"
  by (simp add: om_entries_def om_new_def map_filter_simps)

lemma om_entries_conv:
  assumes "omap_inv om"
  shows "om_entries om = map (\<lambda>k. (k, the (map_of (m om) k))) (order om)"
proof -
  have "List.map_filter (\<lambda>k. map_option (Pair k) (map_of t k)) ks
        = map (\<lambda>k. (k, the (map_of t k))) ks"
    if "\<forall>k \<in> set ks. map_of t k \<noteq> None" for t :: "('a \<times> 'b) list" and ks
    using that by (induction ks) (auto simp: map_filter_simps)
  moreover have "\<forall>k \<in> set (order om). map_of (m om) k \<noteq> None"
    using omap_inv_order_dom [OF assms] by blast
  ultimately show ?thesis by (simp add: om_entries_def hm_find_def)
qed

lemma om_entries_keys: "omap_inv om \<Longrightarrow> map fst (om_entries om) = order om"
  by (simp add: om_entries_conv comp_def)

lemma map_of_lookup_list:
  "map_of (map (\<lambda>k. (k, f k)) ks) k = (if k \<in> set ks then Some (f k) else None)"
  by (induction ks) auto

lemma om_entries_map_of: "omap_inv om \<Longrightarrow> map_of (om_entries om) = map_of (m om)"
  by (rule ext) (auto simp: om_entries_conv map_of_lookup_list omap_inv_order_dom)

lemma update_on_keys:
  "distinct ks \<Longrightarrow>
     AList.update k v (map (\<lambda>x. (x, f x)) ks)
     = (if k \<in> set ks then map (\<lambda>x. (x, (f(k := v)) x)) ks
        else map (\<lambda>x. (x, f x)) ks @ [(k, v)])"
  by (induction ks) auto

lemma delete_on_keys:
  "AList.delete k (map (\<lambda>x. (x, f x)) ks) = map (\<lambda>x. (x, f x)) (filter (\<lambda>x. x \<noteq> k) ks)"
  by (induction ks) auto

lemma om_entries_insert_new:
  assumes "omap_inv om" "k \<notin> set (order om)"
  shows "om_entries \<lparr>m = m om @ [(k, v)], order = order om @ [k]\<rparr> = om_entries om @ [(k, v)]"
proof -
  from assms have "omap_inv \<lparr>m = m om @ [(k, v)], order = order om @ [k]\<rparr>"
    by (auto simp: omap_inv_def)
  moreover have "map_of (m om) k = None"
    using assms omap_inv_order_dom [of om k] by blast
  moreover have "map_of (m om) x \<noteq> None" if "x \<in> set (order om)" for x
    using that assms omap_inv_order_dom [of om x] by blast
  ultimately show ?thesis
    using assms by (fastforce simp: om_entries_conv map_add_def)
qed

lemma om_entries_insert:
  assumes "omap_inv om"
  shows "om_entries (fst (om_insert (k, v) om))
         = (if k \<in> set (order om) then om_entries om else om_entries om @ [(k, v)])"
  using assms om_entries_insert_new [OF assms]
  by (auto simp: om_insert_def hm_emplace_cases omap_inv_def)

lemma om_entries_update_present:
  assumes "omap_inv om" "k \<in> set (order om)"
  shows "om_entries (om\<lparr>m := AList.update k v (m om)\<rparr>) = AList.update k v (om_entries om)"
proof -
  from assms have "omap_inv (om\<lparr>m := AList.update k v (m om)\<rparr>)"
    by (auto simp: omap_inv_def distinct_update dom_update)
  with assms show ?thesis
    by (auto simp: om_entries_conv update_on_keys omap_inv_def update_conv')
qed

lemma om_entries_store:
  assumes "omap_inv om"
  shows "om_entries (om_store d k v om) = AList.update k v (om_entries om)"
proof (cases "k \<in> set (order om)")
  case True
  with assms have "om_subscript d k om = om"
    by (simp add: om_subscript_def hm_emplace_cases omap_inv_def)
  with om_entries_update_present [OF assms True] show ?thesis
    by (simp add: om_store_def)
next
  case False
  with assms have sub: "om_subscript d k om = \<lparr>m = m om @ [(k, d)], order = order om @ [k]\<rparr>"
    by (auto simp: om_subscript_def hm_emplace_cases omap_inv_def)
  have inv: "omap_inv (om_subscript d k om)" by (rule om_subscript_inv [OF assms])
  have "om_entries (om_store d k v om) = AList.update k v (om_entries (om_subscript d k om))"
    using om_entries_update_present [OF inv] sub by (simp add: om_store_def)
  also have "\<dots> = AList.update k v (om_entries om @ [(k, d)])"
    using om_entries_insert_new [OF assms False] sub by simp
  also have "\<dots> = AList.update k v (om_entries om)"
  proof -
    have "AList.update k v (xs @ [(k, d)]) = AList.update k v xs" if "k \<notin> fst ` set xs"
      for xs :: "('a \<times> 'b) list"
      using that by (induction xs) auto
    moreover have "k \<notin> fst ` set (om_entries om)"
      using False om_entries_keys [OF assms] by (metis list.set_map)
    ultimately show ?thesis by blast
  qed
  finally show ?thesis .
qed

lemma om_entries_erase:
  assumes "omap_inv om"
  shows "om_entries (fst (om_erase k om)) = AList.delete k (om_entries om)"
proof (cases "k \<in> set (order om)")
  case True
  with assms have er: "fst (om_erase k om) = \<lparr>m = AList.delete k (m om), order = remove1 k (order om)\<rparr>"
    by (simp add: om_erase_def hm_erase_cases omap_inv_def)
  have inv: "omap_inv (fst (om_erase k om))" by (rule om_erase_inv [OF assms])
  have "remove1 k (order om) = filter (\<lambda>x. x \<noteq> k) (order om)"
    using assms distinct_remove1_removeAll [of "order om" k]
    by (simp add: omap_inv_def removeAll_filter_not_eq eq_commute [of k])
  then show ?thesis
    using inv assms er by (auto simp: om_entries_conv delete_on_keys delete_conv')
next
  case False
  with assms have "fst (om_erase k om) = om"
    by (auto simp: om_erase_def hm_erase_cases omap_inv_def)
  moreover have "filter (\<lambda>x. x \<noteq> k) (order om) = order om"
    using False by (auto simp: filter_id_conv)
  ultimately show ?thesis
    using assms by (simp add: om_entries_conv delete_on_keys)
qed

section \<open>The interface its clients use\<close>

text \<open>
  What a client of an insertion-ordered dictionary relies on: the entries after a store or an
  erase, and that the invariant is kept.
\<close>

locale ordered_dict =
  fixes fresh :: "'d"
    and put :: "'k \<Rightarrow> 'v \<Rightarrow> 'd \<Rightarrow> 'd"
    and del :: "'k \<Rightarrow> 'd \<Rightarrow> 'd"
    and entries :: "'d \<Rightarrow> ('k \<times> 'v) list"
    and inv :: "'d \<Rightarrow> bool"
  assumes inv_fresh: "inv fresh"
    and inv_put: "inv d \<Longrightarrow> inv (put k v d)"
    and inv_del: "inv d \<Longrightarrow> inv (del k d)"
    and entries_fresh: "entries fresh = []"
    and entries_put: "inv d \<Longrightarrow> entries (put k v d) = AList.update k v (entries d)"
    and entries_del: "inv d \<Longrightarrow> entries (del k d) = AList.delete k (entries d)"
begin

lemma lookup_put: "inv d \<Longrightarrow> map_of (entries (put k v d)) = (map_of (entries d))(k \<mapsto> v)"
  by (simp add: entries_put update_conv')

lemma lookup_del: "inv d \<Longrightarrow> map_of (entries (del k d)) = (map_of (entries d))(k := None)"
  by (simp add: entries_del delete_conv')

lemma fold_put:
  "inv d \<Longrightarrow> inv (fold (\<lambda>(k, v). put k v) kvs d)
     \<and> entries (fold (\<lambda>(k, v). put k v) kvs d)
       = AList.updates (map fst kvs) (map snd kvs) (entries d)"
proof (induction kvs arbitrary: d)
  case Nil
  then show ?case by simp
next
  case (Cons kv kvs)
  then show ?case by (cases kv) (simp add: inv_put entries_put)
qed

text \<open>A value stored under an existing key keeps the key's position.\<close>

lemma put_present_keys:
  "inv d \<Longrightarrow> k \<in> fst ` set (entries d) \<Longrightarrow> map fst (entries (put k v d)) = map fst (entries d)"
  by (simp add: entries_put update_keys)

text \<open>Erasing and storing again moves the key to the end.\<close>

lemma del_put_moves_last:
  assumes "inv d"
  shows "entries (put k v (del k d)) = AList.delete k (entries d) @ [(k, v)]"
proof -
  have new: "AList.update k v xs = xs @ [(k, v)]" if "k \<notin> fst ` set xs" for xs
    using that by (induction xs) auto
  have "k \<notin> fst ` set (AList.delete k (entries d))"
    by (metis dom_alist_delete Diff_iff insertI1)
  with assms show ?thesis by (simp add: entries_put inv_del entries_del new)
qed

end

interpretation om: ordered_dict om_new "om_store dflt" "\<lambda>k om. fst (om_erase k om)" om_entries omap_inv
  for dflt
  by unfold_locales
    (simp_all add: om_new_inv om_store_inv om_erase_inv om_entries_store om_entries_erase
      om_entries_new)

section \<open>Iteration\<close>

lemma order_index_nth: "k \<in> set ks \<Longrightarrow> order_index ks k < length ks \<and> ks ! order_index ks k = k"
  by (induction ks) auto

lemma order_index_absent: "k \<notin> set ks \<Longrightarrow> order_index ks k = length ks"
  by (induction ks) auto

lemma om_deref_entries:
  assumes "omap_inv om" "i < om_end om"
  shows "om_deref i om = Inr (om_entries om ! i)"
proof -
  from assms have "order om ! i \<in> set (order om)" by (simp add: om_end_def)
  then obtain v where "map_of (m om) (order om ! i) = Some v"
    using omap_inv_order_dom [OF assms(1)] by blast
  with assms show ?thesis
    by (simp add: om_deref_def hm_find_def om_end_def om_entries_conv)
qed

lemma om_apply_keys_filter:
  "om_apply_keys f t ks s
   = fold (\<lambda>kv s. fst (f kv s)) (List.map_filter (\<lambda>k. map_option (Pair k) (hm_find t k)) ks) s"
  by (induction ks arbitrary: s) (auto simp: map_filter_simps split: option.split)

lemma om_apply_fold: "om_apply f om s = fold (\<lambda>kv s. fst (f kv s)) (om_entries om) s"
  by (simp add: om_apply_def om_entries_def om_apply_keys_filter)

lemma om_size_entries:
  assumes "omap_inv om"
  shows "om_size om = length (om_entries om)"
proof -
  from assms have "length (order om) = card (fst ` set (m om))"
    by (metis omap_inv_def distinct_card)
  also have "\<dots> = length (m om)"
    using assms by (metis omap_inv_def distinct_card length_map list.set_map)
  finally show ?thesis using assms by (simp add: om_size_def om_entries_conv)
qed

section \<open>Properties\<close>

text \<open>
  Storing through \<open>operator[]\<close> refines updating an association list in insertion order: a
  new key goes to the end with the given value (never the default), an existing key keeps its
  place, every other entry is untouched, and the representation invariant is kept.
\<close>

theorem ordered_map_store_refines:
  assumes "omap_inv om"
  shows "omap_inv (om_store d k v om)
    \<and> om_entries (om_store d k v om) = AList.update k v (om_entries om)
    \<and> om_lookup k (om_store d k v om) = Some v
    \<and> (\<forall>j. j \<noteq> k \<longrightarrow> om_lookup j (om_store d k v om) = om_lookup j om)"
proof -
  have inv: "omap_inv (om_store d k v om)" by (rule om.inv_put [OF assms])
  have "map_of (m (om_store d k v om)) = (map_of (m om))(k \<mapsto> v)"
    using om.lookup_put [OF assms] om_entries_map_of [OF inv] om_entries_map_of [OF assms] by simp
  with inv show ?thesis
    using om.entries_put [OF assms] by (simp add: om_lookup_def hm_find_def)
qed

theorem ordered_map_store_refines_witness:
  "om_entries (om_store 0 ''b'' (9::nat) \<lparr>m = [(''b'', 2), (''a'', 1)], order = [''a'', ''b'']\<rparr>)
   = [(''a'', 1), (''b'', 9)]"
  using ordered_map_store_refines
    [of "\<lparr>m = [(''b'', 2), (''a'', 1)], order = [''a'', ''b'']\<rparr>" 0 "''b''" "9::nat"]
  by (auto simp: omap_inv_def om_entries_def hm_find_def map_filter_simps)

text \<open>
  Erasing a key refines deletion from the association list, reports 1 exactly when the key
  was present, and a later store of the same key puts it at the end of the iteration order.
\<close>

theorem ordered_map_erase_refines:
  assumes "omap_inv om"
  shows "om_entries (fst (om_erase k om)) = AList.delete k (om_entries om)
    \<and> snd (om_erase k om) = (if om_containsKey k om then 1 else 0)
    \<and> om_entries (om_store d k v (fst (om_erase k om))) = AList.delete k (om_entries om) @ [(k, v)]"
proof -
  have "snd (om_erase k om) = (if om_containsKey k om then 1 else 0)"
    by (auto simp: om_erase_def hm_erase_def om_containsKey_def hm_find_def split: option.split)
  then show ?thesis
    using om.entries_del [OF assms] om.del_put_moves_last [OF assms] by simp
qed

theorem ordered_map_erase_refines_witness:
  "om_entries (fst (om_erase ''a'' \<lparr>m = [(''a'', 1::nat), (''b'', 2)], order = [''a'', ''b'']\<rparr>))
   = [(''b'', 2)]"
  using ordered_map_erase_refines
    [of "\<lparr>m = [(''a'', 1::nat), (''b'', 2)], order = [''a'', ''b'']\<rparr>" "''a''" 0 0]
  by (auto simp: omap_inv_def om_entries_def hm_find_def map_filter_simps)

text \<open>
  Iterating from \<open>begin()\<close> to \<open>end()\<close> never throws and yields the entries in insertion
  order; \<open>find\<close> of a present key is an iterator at that key, of an absent one \<open>end()\<close>; and
  \<open>apply\<close> folds over the same entries although callbacks may throw.
\<close>

theorem ordered_map_iteration:
  assumes "omap_inv om"
  shows "map (\<lambda>i. om_deref i om) [0..<om_end om] = map Inr (om_entries om)
    \<and> om_find k om \<le> om_end om
    \<and> (om_find k om = om_end om \<longleftrightarrow> \<not> om_containsKey k om)
    \<and> (om_containsKey k om \<longrightarrow> om_deref (om_find k om) om = Inr (k, the (om_lookup k om)))
    \<and> om_size om = om_end om
    \<and> om_apply f om s = fold (\<lambda>kv s. fst (f kv s)) (om_entries om) s"
proof -
  have len: "length (om_entries om) = om_end om"
    using assms by (simp add: om_entries_conv om_end_def)
  have all: "map (\<lambda>i. om_deref i om) [0..<om_end om] = map Inr (om_entries om)"
    by (rule nth_equalityI) (simp_all add: len om_deref_entries [OF assms])
  have fnd: "om_find k om = order_index (order om) k"
    using assms omap_inv_order_dom [OF assms, of k]
    by (auto simp: om_find_def om_orderIndexOf_def om_end_def hm_find_def
        dest: order_index_absent order_index_nth)
  have present: "om_containsKey k om \<longleftrightarrow> k \<in> set (order om)"
    using omap_inv_order_dom [OF assms] by (simp add: om_containsKey_def hm_find_def)
  show ?thesis
    using all fnd present len om_size_entries [OF assms] order_index_nth [of k "order om"]
      order_index_absent [of k "order om"]
    by (cases "k \<in> set (order om)")
      (auto simp: om_end_def om_deref_def hm_find_def om_lookup_def om_containsKey_def om_apply_fold)
qed

theorem ordered_map_iteration_witness:
  "om_deref 1 \<lparr>m = [(''b'', 2::nat), (''a'', 1)], order = [''a'', ''b'']\<rparr> = Inr (''b'', 2)"
proof -
  let ?om = "\<lparr>m = [(''b'', 2::nat), (''a'', 1)], order = [''a'', ''b'']\<rparr>"
  have inv: "omap_inv ?om" by (auto simp: omap_inv_def)
  have "map (\<lambda>i. om_deref i ?om) [0..<om_end ?om] = map Inr (om_entries ?om)"
    by (rule conjunct1 [OF ordered_map_iteration [OF inv, of undefined "\<lambda>_ s. (s, False)" "()"]])
  then show ?thesis
    by (simp add: om_end_def om_entries_def hm_find_def map_filter_simps)
qed

end
