(* ===== verification/Ustring.thy ===== *)
theory Ustring
  imports Roxal_Prelude
begin

text \<open>
  \<open>core/ustring.h\<close> with the builtin Unicode backend: strings are sequences of UTF-16 units.  Unit
  and code point access, sub-strings and searching, escapes, the code-point ordering, the name
  hash, and the UTF-8 codec used for source text, module caches and the compute protocol.  Indices
  are \<open>int32_t\<close>; the model assumes fewer than \<open>2 ^ 31\<close> units, as every \<open>int32_t length()\<close> does.
  Case mapping goes to a hook installed by the host and is not modelled.
\<close>

type_synonym ustring = "u16 list"
type_synonym code_point = u32

definition utf16_code_unit_count :: "code_point \<Rightarrow> nat" where
  "utf16_code_unit_count cp = (if cp > 0xffff then 2 else 1)"

section \<open>Units and code points\<close>

definition ulength :: "ustring \<Rightarrow> int" where
  "ulength s = int (length s)"

definition charAt :: "ustring \<Rightarrow> int \<Rightarrow> u16" where
  "charAt s index = (if index < 0 \<or> index \<ge> ulength s then 0 else s ! nat index)"

definition char32At :: "ustring \<Rightarrow> int \<Rightarrow> code_point" where
  "char32At s index =
     (let first = charAt s index in
      if first \<ge> 0xd800 \<and> first \<le> 0xdbff \<and> index + 1 < ulength s then
        (let second = charAt s (index + 1) in
         if second \<ge> 0xdc00 \<and> second \<le> 0xdfff then
           0x10000 + push_bit 10 (ucast first - 0xd800) + (ucast second - 0xdc00)
         else ucast first)
      else ucast first)"

definition setCharAt :: "ustring \<Rightarrow> int \<Rightarrow> u16 \<Rightarrow> ustring" where
  "setCharAt s index unit = (if index < 0 \<or> index \<ge> ulength s then s else s[nat index := unit])"

definition clampIndex :: "ustring \<Rightarrow> int \<Rightarrow> int" where
  "clampIndex s index = (if index \<le> 0 then 0 else if index \<ge> ulength s then ulength s else index)"

text \<open>\<open>value_.substr(begin, end - begin)\<close>: the count is a \<open>size_t\<close>, so a negative one means the rest.\<close>

definition tempSubString :: "ustring \<Rightarrow> int \<Rightarrow> int \<Rightarrow> ustring" where
  "tempSubString s start count =
     (let b = clampIndex s start; e = clampIndex s (start + (if count < 0 then 0 else count)) in
      if e < b then drop (nat b) s else take (nat (e - b)) (drop (nat b) s))"

definition tempSubString_from :: "ustring \<Rightarrow> int \<Rightarrow> ustring" where
  "tempSubString_from s start = tempSubString s start (ulength s - start)"

definition tempSubStringBetween :: "ustring \<Rightarrow> int \<Rightarrow> int \<Rightarrow> ustring" where
  "tempSubStringBetween s start limit = tempSubString s start (limit - start)"

text \<open>\<open>std::u16string::find\<close>, \<open>rfind\<close> and \<open>operator<\<close>.\<close>

fun find_units :: "ustring \<Rightarrow> ustring \<Rightarrow> int \<Rightarrow> int" where
  "find_units needle [] pos = (if needle = [] then pos else -1)"
| "find_units needle (u # us) pos =
     (if take (length needle) (u # us) = needle then pos else find_units needle us (pos + 1))"

definition indexOf :: "ustring \<Rightarrow> ustring \<Rightarrow> int" where
  "indexOf s needle = find_units needle s 0"

definition indexOf_from :: "ustring \<Rightarrow> ustring \<Rightarrow> int \<Rightarrow> int" where
  "indexOf_from s needle start0 =
     (let start = (if start0 < 0 then 0 else start0) in
      if start > ulength s then -1 else find_units needle (drop (nat start) s) start)"

definition indexOf_unit :: "ustring \<Rightarrow> u16 \<Rightarrow> int" where
  "indexOf_unit s needle = find_units [needle] s 0"

fun rfind_unit :: "u16 \<Rightarrow> ustring \<Rightarrow> int \<Rightarrow> int \<Rightarrow> int" where
  "rfind_unit needle [] pos best = best"
| "rfind_unit needle (u # us) pos best = rfind_unit needle us (pos + 1) (if u = needle then pos else best)"

definition lastIndexOf :: "ustring \<Rightarrow> u16 \<Rightarrow> int" where
  "lastIndexOf s needle = rfind_unit needle s 0 (-1)"

fun unit_less :: "ustring \<Rightarrow> ustring \<Rightarrow> bool" where
  "unit_less [] [] = False"
| "unit_less [] (v # vs) = True"
| "unit_less (u # us) [] = False"
| "unit_less (u # us) (v # vs) = (if u < v then True else if v < u then False else unit_less us vs)"

definition ucompare :: "ustring \<Rightarrow> int \<Rightarrow> int \<Rightarrow> ustring \<Rightarrow> int" where
  "ucompare s start count other =
     (let part = tempSubString s start count in
      if unit_less part other then -1 else if unit_less other part then 1 else 0)"

definition startsWith :: "ustring \<Rightarrow> ustring \<Rightarrow> bool" where
  "startsWith s pre \<longleftrightarrow> ulength s \<ge> ulength pre \<and> ucompare s 0 (ulength pre) pre = 0"

text \<open>The loop of \<open>compareCodePointOrder\<close> from the two indices.\<close>

function compare_from :: "ustring \<Rightarrow> ustring \<Rightarrow> nat \<Rightarrow> nat \<Rightarrow> int" where
  "compare_from s t i j =
     (if i < length s \<and> j < length t then
        (let lhs = char32At s (int i); rhs = char32At t (int j) in
         if lhs < rhs then -1
         else if lhs > rhs then 1
         else compare_from s t (i + utf16_code_unit_count lhs) (j + utf16_code_unit_count rhs))
      else if i < length s then 1 else if j < length t then -1 else 0)"
  by pat_completeness auto
termination
  by (relation "measure (\<lambda>(s, t, i, j). length s - i)") (auto simp: utf16_code_unit_count_def)

definition compareCodePointOrder :: "ustring \<Rightarrow> ustring \<Rightarrow> int" where
  "compareCodePointOrder s t = compare_from s t 0 0"

text \<open>\<open>hashCode\<close>: 37-based over the units in 32-bit arithmetic, 1 for the empty string.\<close>

definition ustring_hashCode :: "ustring \<Rightarrow> u32" where
  "ustring_hashCode s = (if s = [] then 1 else foldl (\<lambda>h unit. h * 37 + ucast unit) 0 s)"

definition ustring_of :: "string \<Rightarrow> ustring" where
  "ustring_of s = map (\<lambda>c. word_of_nat (of_char c)) s"

section \<open>UTF-8\<close>

text \<open>The push of a code point as one or two units, shared by the decoder and the escapes.\<close>

definition push_code_point :: "code_point \<Rightarrow> ustring" where
  "push_code_point cp =
     (if cp \<le> 0xffff then [ucast cp]
      else (let c = cp - 0x10000
            in [ucast (0xd800 + drop_bit 10 c), ucast (0xdc00 + (c AND 0x3ff))]))"

text \<open>
  One turn of the decoder's loop: the code point (U+FFFD for a malformed lead or sequence) and
  the number of bytes it takes.  \<open>rest\<close> is what follows the first byte.
\<close>

definition decode_one :: "byte \<Rightarrow> byte list \<Rightarrow> code_point \<times> nat" where
  "decode_one first rest =
     (if first < 0x80 then (ucast first, 1)
      else if first \<ge> 0xc2 \<and> first \<le> 0xdf \<and> length rest \<ge> 1 then
        (let b1 = rest ! 0 in
         if b1 AND 0xc0 = 0x80
         then (push_bit 6 (ucast first AND 0x1f) OR (ucast b1 AND 0x3f), 2)
         else (0xfffd, 1))
      else if first \<ge> 0xe0 \<and> first \<le> 0xef \<and> length rest \<ge> 2 then
        (let b1 = rest ! 0; b2 = rest ! 1 in
         if b1 AND 0xc0 = 0x80 \<and> b2 AND 0xc0 = 0x80
            \<and> \<not> (first = 0xe0 \<and> b1 < 0xa0) \<and> \<not> (first = 0xed \<and> b1 \<ge> 0xa0)
         then (push_bit 12 (ucast first AND 0x0f) OR push_bit 6 (ucast b1 AND 0x3f)
               OR (ucast b2 AND 0x3f), 3)
         else (0xfffd, 1))
      else if first \<ge> 0xf0 \<and> first \<le> 0xf4 \<and> length rest \<ge> 3 then
        (let b1 = rest ! 0; b2 = rest ! 1; b3 = rest ! 2 in
         if b1 AND 0xc0 = 0x80 \<and> b2 AND 0xc0 = 0x80 \<and> b3 AND 0xc0 = 0x80
            \<and> \<not> (first = 0xf0 \<and> b1 < 0x90) \<and> \<not> (first = 0xf4 \<and> b1 > 0x8f)
         then (push_bit 18 (ucast first AND 0x07) OR push_bit 12 (ucast b1 AND 0x3f)
               OR push_bit 6 (ucast b2 AND 0x3f) OR (ucast b3 AND 0x3f), 4)
         else (0xfffd, 1))
      else (0xfffd, 1))"

function decodeUTF8 :: "byte list \<Rightarrow> ustring" where
  "decodeUTF8 [] = []"
| "decodeUTF8 (first # rest) =
     (case decode_one first rest of
        (cp, width) \<Rightarrow> push_code_point cp @ decodeUTF8 (drop (width - 1) rest))"
  by pat_completeness auto
termination by (relation "measure length") auto

definition encode_code_point :: "code_point \<Rightarrow> byte list" where
  "encode_code_point cp =
     (if cp \<le> 0x7f then [ucast cp]
      else if cp \<le> 0x7ff then [ucast (0xc0 OR drop_bit 6 cp), ucast (0x80 OR (cp AND 0x3f))]
      else if cp \<le> 0xffff then
        [ucast (0xe0 OR drop_bit 12 cp), ucast (0x80 OR (drop_bit 6 cp AND 0x3f)),
         ucast (0x80 OR (cp AND 0x3f))]
      else
        [ucast (0xf0 OR drop_bit 18 cp), ucast (0x80 OR (drop_bit 12 cp AND 0x3f)),
         ucast (0x80 OR (drop_bit 6 cp AND 0x3f)), ucast (0x80 OR (cp AND 0x3f))])"

definition high_surrogate :: "u16 \<Rightarrow> bool" where
  "high_surrogate u \<longleftrightarrow> u \<ge> 0xd800 \<and> u \<le> 0xdbff"

definition low_surrogate :: "u16 \<Rightarrow> bool" where
  "low_surrogate u \<longleftrightarrow> u \<ge> 0xdc00 \<and> u \<le> 0xdfff"

fun encodeUTF8 :: "ustring \<Rightarrow> byte list" where
  "encodeUTF8 [] = []"
| "encodeUTF8 [u] =
     encode_code_point (if u \<ge> 0xd800 \<and> u \<le> 0xdfff then 0xfffd else ucast u)"
| "encodeUTF8 (u # v # us) =
     (if high_surrogate u \<and> low_surrogate v then
        encode_code_point (0x10000 + push_bit 10 (ucast u - 0xd800) + (ucast v - 0xdc00))
        @ encodeUTF8 us
      else encode_code_point (if u \<ge> 0xd800 \<and> u \<le> 0xdfff then 0xfffd else ucast u)
        @ encodeUTF8 (v # us))"

section \<open>Escapes\<close>

definition hexDigit :: "u16 \<Rightarrow> int" where
  "hexDigit unit =
     (if unit \<ge> 0x30 \<and> unit \<le> 0x39 then uint unit - 0x30
      else if unit \<ge> 0x61 \<and> unit \<le> 0x66 then uint unit - 0x61 + 10
      else if unit \<ge> 0x41 \<and> unit \<le> 0x46 then uint unit - 0x41 + 10
      else -1)"

fun hex_digits :: "nat \<Rightarrow> u32 \<Rightarrow> ustring \<Rightarrow> u32 option" where
  "hex_digits 0 cp src = Some cp"
| "hex_digits (Suc n) cp [] = None"
| "hex_digits (Suc n) cp (u # us) =
     (if hexDigit u < 0 then None
      else hex_digits n (push_bit 4 cp OR word_of_int (hexDigit u)) us)"

text \<open>\<open>appendEscapedCodePoint\<close> on the text after the marker: the units to append, or failure.\<close>

definition appendEscapedCodePoint :: "ustring \<Rightarrow> nat \<Rightarrow> ustring option" where
  "appendEscapedCodePoint src digits =
     (if length src < digits then None
      else (case hex_digits digits 0 src of
          None \<Rightarrow> None
        | Some cp \<Rightarrow>
            if cp > 0x10ffff \<or> (cp \<ge> 0xd800 \<and> cp \<le> 0xdfff) then None
            else Some (push_code_point cp)))"

text \<open>\<open>simple_escape\<close>: the single-unit cases of the switch.\<close>

definition simple_escape :: "u16 \<Rightarrow> u16 option" where
  "simple_escape = map_of
     [(0x61, 0x07), (0x62, 0x08), (0x65, 0x1b), (0x66, 0x0c), (0x6e, 0x0a), (0x72, 0x0d),
      (0x74, 0x09), (0x76, 0x0b), (0x5c, 0x5c), (0x27, 0x27), (0x22, 0x22)]"

text \<open>
  The switch on the unit after a backslash: the units it appends and the text left to read, or
  \<open>None\<close> for \<open>return {}\<close>.  A unit that is no escape is taken literally, as ICU does.
\<close>

definition escaped_text :: "ustring \<Rightarrow> nat \<Rightarrow> nat \<Rightarrow> (ustring \<times> ustring) option" where
  "escaped_text src digits used =
     (case appendEscapedCodePoint src digits of None \<Rightarrow> None | Some us \<Rightarrow> Some (us, drop used src))"

definition unescape_one :: "u16 \<Rightarrow> ustring \<Rightarrow> (ustring \<times> ustring) option" where
  "unescape_one escape src =
     (case simple_escape escape of
        Some c \<Rightarrow> Some ([c], src)
      | None \<Rightarrow>
          if escape = 0x75 then escaped_text src 4 4
          else if escape = 0x55 then escaped_text src 8 8
          else if escape = 0x78 then
            (if src \<noteq> [] \<and> hd src = 0x7b then
               (let body = tl src; digits = length (takeWhile (\<lambda>u. u \<noteq> 0x7d) body) in
                if digits \<ge> length body \<or> digits < 1 \<or> digits > 6 then None
                else escaped_text body digits (digits + 1))
             else escaped_text src 2 2)
          else Some ([escape], src))"

lemma unescape_one_shorter: "unescape_one escape src = Some (us, src') \<Longrightarrow> length src' \<le> length src"
  by (auto simp: unescape_one_def escaped_text_def Let_def split: option.splits if_splits)

function unescape_from :: "ustring \<Rightarrow> ustring \<Rightarrow> ustring" where
  "unescape_from [] result = result"
| "unescape_from (unit # rest) result =
     (if unit \<noteq> 0x5c then unescape_from rest (result @ [unit])
      else (case rest of
          [] \<Rightarrow> []
        | escape # src \<Rightarrow>
            (case unescape_one escape src of
               None \<Rightarrow> []
             | Some (us, src') \<Rightarrow> unescape_from src' (result @ us))))"
  by pat_completeness auto
termination
  by (relation "measure (\<lambda>(s, r). length s)") (auto dest!: unescape_one_shorter)

definition unescape :: "ustring \<Rightarrow> ustring" where
  "unescape s = unescape_from s []"

section \<open>Bits of the codec as arithmetic\<close>

lemma nat_push_or:
  fixes a w :: nat
  assumes "w < 2 ^ k"
  shows "push_bit k a OR w = a * 2 ^ k + w"
proof -
  have w: "take_bit k w = w" using assms by (simp add: take_bit_nat_eq_self)
  have "push_bit k a AND w = 0"
    by (subst w [symmetric]) (auto intro!: bit_eqI simp: bit_simps)
  then show ?thesis by (simp add: disjunctive_add_eq_or [symmetric] push_bit_eq_mult)
qed

lemma unat_push_or:
  fixes a w :: "'a::len word"
  assumes "unat w < 2 ^ k" "unat a * 2 ^ k < 2 ^ LENGTH('a)"
  shows "unat (push_bit k a OR w) = unat a * 2 ^ k + unat w"
proof -
  have "unat (push_bit k a) = push_bit k (unat a)"
    unfolding unsigned_push_bit_eq using assms(2)
    by (simp add: take_bit_nat_eq_self push_bit_eq_mult)
  then show ?thesis
    unfolding unsigned_or_eq using nat_push_or [OF assms(1)] by simp
qed

lemma unat_and_mask:
  fixes w :: "'a::len word"
  shows "unat (w AND mask k) = unat w mod 2 ^ k"
  unfolding take_bit_eq_mask [symmetric] unsigned_take_bit_eq by (rule take_bit_eq_mod)

lemma unat_lows:
  fixes w :: "'a::len word"
  shows "unat (w AND 0x3f) = unat w mod 64" "unat (w AND 0x1f) = unat w mod 32"
    "unat (w AND 0x0f) = unat w mod 16" "unat (w AND 0x07) = unat w mod 8"
    "unat (w AND 0x3ff) = unat w mod 1024"
  using unat_and_mask [of w 6] unat_and_mask [of w 5] unat_and_mask [of w 4]
    unat_and_mask [of w 3] unat_and_mask [of w 10]
  by (simp_all add: mask_eq_exp_minus_1)

lemma unat_tags:
  fixes w :: u32
  shows "unat w < 32 \<Longrightarrow> unat (0xc0 OR w) = 192 + unat w"
    "unat w < 16 \<Longrightarrow> unat (0xe0 OR w) = 224 + unat w"
    "unat w < 8 \<Longrightarrow> unat (0xf0 OR w) = 240 + unat w"
    "unat w < 64 \<Longrightarrow> unat (0x80 OR w) = 128 + unat w"
  using unat_push_or [of w 5 6] unat_push_or [of w 4 14] unat_push_or [of w 3 30]
    unat_push_or [of w 6 2]
  by (simp_all add: push_bit_eq_mult)

lemma unat_drop32: "unat (drop_bit k (w :: u32)) = unat w div 2 ^ k"
  unfolding unsigned_drop_bit_eq drop_bit_eq_div [symmetric]
proof -
  have "unat w < 2 ^ 32" using unsigned_less [of w, where ?'a = nat] by simp
  then show "drop_bit k (take_bit LENGTH(32) (unat w)) = drop_bit k (unat w)"
    by (simp add: take_bit_nat_eq_self del: take_bit_of_exp)
qed

lemma unat_ucast_small:
  "unat (w :: 'b::len word) < 2 ^ LENGTH('a) \<Longrightarrow> unat (ucast w :: 'a::len word) = unat w"
  by (simp add: unsigned_ucast_eq take_bit_nat_eq_self)


lemma top_bits: "(b :: byte) AND 0xc0 = push_bit 6 (drop_bit 6 b)"
proof (rule bit_eqI)
  fix n assume "possible_bit TYPE(byte) n"
  then have "n < 8" by simp
  then have "n \<in> {0, 1, 2, 3, 4, 5, 6, 7}" by auto
  then show "bit (b AND 0xc0) n = bit (push_bit 6 (drop_bit 6 b)) n"
    by (auto simp: bit_simps)
qed

lemma cont_iff: "(b :: byte) AND 0xc0 = 0x80 \<longleftrightarrow> unat b div 64 = 2"
proof -
  have b: "unat b < 256" using unsigned_less [of b, where ?'a = nat] by simp
  have "unat (b AND 0xc0) = unat b div 64 * 64"
    unfolding top_bits unsigned_push_bit_eq unsigned_drop_bit_eq
    using b by (simp add: take_bit_nat_eq_self drop_bit_eq_div push_bit_eq_mult)
  then show ?thesis by (simp add: word_unat_eq_iff)
qed

lemma unat_cont: "unat (ucast (0x80 OR ((w :: u32) AND 0x3f)) :: byte) = 128 + unat w mod 64"
  by (simp add: unat_ucast_small unat_tags unat_lows)


lemma unat_ucast_byte: "unat (ucast (b :: byte) :: u32) = unat b"
  using unsigned_less [of b, where ?'a = nat] by (simp add: unat_ucast_small)

lemma unat_decoded2:
  "unat (push_bit 6 (ucast (f :: byte) AND 0x1f :: u32) OR (ucast (b1 :: byte) AND 0x3f))
     = unat f mod 32 * 64 + unat b1 mod 64"
proof -
  have "unat f mod 32 < 32" by simp
  then show ?thesis
    using unat_push_or [of "ucast b1 AND 0x3f" 6 "ucast f AND 0x1f :: u32"]
    by (simp add: unat_lows unat_ucast_byte)
qed

lemma unat_decoded3:
  "unat (push_bit 12 (ucast (f :: byte) AND 0x0f :: u32) OR push_bit 6 (ucast (b1 :: byte) AND 0x3f)
       OR (ucast (b2 :: byte) AND 0x3f))
     = unat f mod 16 * 4096 + unat b1 mod 64 * 64 + unat b2 mod 64"
proof -
  let ?low = "push_bit 6 (ucast b1 AND 0x3f) OR (ucast b2 AND 0x3f) :: u32"
  have m: "unat f mod 16 < 16" "unat b1 mod 64 < 64" "unat b2 mod 64 < 64" by simp_all
  have low: "unat ?low = unat b1 mod 64 * 64 + unat b2 mod 64"
    using m unat_push_or [of "ucast b2 AND 0x3f" 6 "ucast b1 AND 0x3f :: u32"]
    by (simp add: unat_lows unat_ucast_byte)
  show ?thesis
    using m low unat_push_or [of ?low 12 "ucast f AND 0x0f :: u32"]
    by (simp add: unat_lows unat_ucast_byte)
qed

lemma unat_decoded4:
  "unat (push_bit 18 (ucast (f :: byte) AND 0x07 :: u32) OR push_bit 12 (ucast (b1 :: byte) AND 0x3f)
       OR push_bit 6 (ucast (b2 :: byte) AND 0x3f) OR (ucast (b3 :: byte) AND 0x3f))
     = unat f mod 8 * 262144 + unat b1 mod 64 * 4096 + unat b2 mod 64 * 64 + unat b3 mod 64"
proof -
  let ?low2 = "push_bit 6 (ucast b2 AND 0x3f) OR (ucast b3 AND 0x3f) :: u32"
  let ?low = "push_bit 12 (ucast b1 AND 0x3f) OR ?low2"
  have m: "unat f mod 8 < 8" "unat b1 mod 64 < 64" "unat b2 mod 64 < 64" "unat b3 mod 64 < 64"
    by simp_all
  have low2: "unat ?low2 = unat b2 mod 64 * 64 + unat b3 mod 64"
    using m unat_push_or [of "ucast b3 AND 0x3f" 6 "ucast b2 AND 0x3f :: u32"]
    by (simp add: unat_lows unat_ucast_byte)
  have low: "unat ?low = unat b1 mod 64 * 4096 + unat b2 mod 64 * 64 + unat b3 mod 64"
    using m low2 unat_push_or [of ?low2 12 "ucast b1 AND 0x3f :: u32"]
    by (simp add: unat_lows unat_ucast_byte)
  show ?thesis
    using m low unat_push_or [of ?low 18 "ucast f AND 0x07 :: u32"]
    by (simp add: unat_lows unat_ucast_byte)
qed

definition scalar_value :: "code_point \<Rightarrow> bool" where
  "scalar_value cp \<longleftrightarrow> cp \<le> 0x10ffff \<and> \<not> (cp \<ge> 0xd800 \<and> cp \<le> 0xdfff)"

lemmas word_cmp = word_le_nat_alt word_less_nat_alt word_unat_eq_iff

lemma tag_mods:
  "q < 32 \<Longrightarrow> (192 + q) mod 32 = (q :: nat)" "q < 16 \<Longrightarrow> (224 + q) mod 16 = q"
  "q < 8 \<Longrightarrow> (240 + q) mod 8 = q" "q < 64 \<Longrightarrow> (128 + q) mod 64 = q"
  "q < 64 \<Longrightarrow> (128 + q) div 64 = 2"
  by (simp_all only: mod_if [of "192 + q"]) (auto simp: mod_if div_if)

lemma split64: "(n :: nat) div 64 * 64 + n mod 64 = n"
  "n div 4096 * 4096 + n div 64 mod 64 * 64 + n mod 64 = n"
  "n div 262144 * 262144 + n div 4096 mod 64 * 4096 + n div 64 mod 64 * 64 + n mod 64 = n"
proof -
  have s: "m div 64 * 64 + m mod 64 = m" for m :: nat by simp
  have d: "n div 4096 = n div 64 div 64" "n div 262144 = n div 64 div 64 div 64"
    by (simp_all flip: div_mult2_eq)
  show "n div 64 * 64 + n mod 64 = n" by (rule s)
  show "n div 4096 * 4096 + n div 64 mod 64 * 64 + n mod 64 = n"
    unfolding d using s [of n] s [of "n div 64"] by linarith
  show "n div 262144 * 262144 + n div 4096 mod 64 * 4096 + n div 64 mod 64 * 64 + n mod 64 = n"
    unfolding d using s [of n] s [of "n div 64"] s [of "n div 64 div 64"] by linarith
qed

lemma decode_two:
  assumes f: "unat f = 192 + q" "2 \<le> q" "q < 32" and b1: "unat b1 = 128 + r" "r < 64"
    and cp: "unat cp = q * 64 + r"
  shows "decode_one f (b1 # rest) = (cp, 2)"
proof -
  have "push_bit 6 (ucast f AND 0x1f :: u32) OR (ucast b1 AND 0x3f) = cp"
    unfolding word_unat_eq_iff unat_decoded2 f b1 cp using f(3) b1(2) by (simp add: tag_mods)
  moreover have "b1 AND 0xc0 = 0x80" unfolding cont_iff b1 using b1(2) by (simp add: tag_mods)
  ultimately show ?thesis
    using f(2,3) by (simp add: decode_one_def word_cmp f(1))
qed


lemma decode_three:
  assumes f: "unat f = 224 + q" "q < 16" and b1: "unat b1 = 128 + r" "r < 64"
    and b2: "unat b2 = 128 + t" "t < 64" and cp: "unat cp = q * 4096 + r * 64 + t"
    and lo: "0x7ff < unat cp" and sur: "\<not> (0xd800 \<le> unat cp \<and> unat cp \<le> 0xdfff)"
  shows "decode_one f (b1 # b2 # rest) = (cp, 3)"
proof -
  have "push_bit 12 (ucast f AND 0x0f :: u32) OR push_bit 6 (ucast b1 AND 0x3f) OR (ucast b2 AND 0x3f) = cp"
    unfolding word_unat_eq_iff unat_decoded3 f b1 b2 cp using f(2) b1(2) b2(2) by (simp add: tag_mods)
  moreover have "b1 AND 0xc0 = 0x80" "b2 AND 0xc0 = 0x80"
    unfolding cont_iff b1 b2 using b1(2) b2(2) by (simp_all add: tag_mods)
  moreover have "q = 0 \<Longrightarrow> 32 \<le> r" using lo b2(2) cp by linarith
  moreover have "q = 13 \<Longrightarrow> r < 32" using sur cp b2(2) b1(2) by linarith
  ultimately show ?thesis
    using f(2) b1(2) by (auto simp: decode_one_def word_cmp f(1) b1(1))
qed

lemma decode_four:
  assumes f: "unat f = 240 + q" "q < 5" and b1: "unat b1 = 128 + r" "r < 64"
    and b2: "unat b2 = 128 + t" "t < 64" and b3: "unat b3 = 128 + u" "u < 64"
    and cp: "unat cp = q * 262144 + r * 4096 + t * 64 + u"
    and range: "0xffff < unat cp" "unat cp \<le> 0x10ffff"
  shows "decode_one f (b1 # b2 # b3 # rest) = (cp, 4)"
proof -
  have "push_bit 18 (ucast f AND 0x07 :: u32) OR push_bit 12 (ucast b1 AND 0x3f)
      OR push_bit 6 (ucast b2 AND 0x3f) OR (ucast b3 AND 0x3f) = cp"
    unfolding word_unat_eq_iff unat_decoded4 f b1 b2 b3 cp
    using f(2) b1(2) b2(2) b3(2) by (simp add: tag_mods)
  moreover have "b1 AND 0xc0 = 0x80" "b2 AND 0xc0 = 0x80" "b3 AND 0xc0 = 0x80"
    unfolding cont_iff b1 b2 b3 using b1(2) b2(2) b3(2) by (simp_all add: tag_mods)
  moreover have "q = 0 \<Longrightarrow> 16 \<le> r" using range cp b2(2) b3(2) by linarith
  moreover have "q = 4 \<Longrightarrow> r \<le> 15" using range cp by linarith
  ultimately show ?thesis
    using f(2) b1(2) by (auto simp: decode_one_def word_cmp f(1) b1(1))
qed

lemma decode_encode_one:
  assumes "scalar_value cp"
  shows "\<exists>b bs. encode_code_point cp = b # bs \<and> decode_one b (bs @ rest) = (cp, Suc (length bs))"
proof -
  define n where "n = unat cp"
  have n: "n \<le> 0x10ffff" "\<not> (0xd800 \<le> n \<and> n \<le> 0xdfff)"
    using assms by (simp_all add: scalar_value_def word_le_nat_alt n_def)
  have m: "n mod 64 < 64" "n div 64 mod 64 < 64" "n div 4096 mod 64 < 64" by simp_all
  have c: "unat (ucast (0x80 OR (cp AND 0x3f)) :: byte) = 128 + n mod 64"
    "unat (ucast (0x80 OR (drop_bit 6 cp AND 0x3f)) :: byte) = 128 + n div 64 mod 64"
    "unat (ucast (0x80 OR (drop_bit 12 cp AND 0x3f)) :: byte) = 128 + n div 4096 mod 64"
    by (simp_all only: unat_cont unat_drop32 n_def) simp_all
  consider "n \<le> 0x7f" | "0x7f < n" "n \<le> 0x7ff" | "0x7ff < n" "n \<le> 0xffff" | "0xffff < n"
    by linarith
  then show ?thesis
  proof cases
    case 1
    then have u: "unat (ucast cp :: byte) = n" by (simp add: unat_ucast_small n_def)
    have "ucast (ucast cp :: byte) = cp" by (rule word_unat_eq_iff [THEN iffD2]) (simp add: unat_ucast_byte u n_def)
    then have "decode_one (ucast cp) rest = (cp, 1)"
      using 1 by (simp add: decode_one_def word_less_nat_alt u)
    with 1 show ?thesis by (simp add: encode_code_point_def word_le_nat_alt n_def)
  next
    case 2
    have d: "unat (ucast (0xc0 OR drop_bit 6 cp) :: byte) = 192 + n div 64"
      using 2 by (simp add: unat_ucast_small unat_tags unat_drop32 n_def)
    have "2 \<le> n div 64" "n div 64 < 32" using 2 by simp_all
    from decode_two [OF d this c(1) m(1)] show ?thesis
      using 2 by (simp add: encode_code_point_def word_le_nat_alt n_def split64)
  next
    case 3
    have d: "unat (ucast (0xe0 OR drop_bit 12 cp) :: byte) = 224 + n div 4096"
      using 3 by (simp add: unat_ucast_small unat_tags unat_drop32 n_def)
    have "n div 4096 < 16" using 3 by simp
    from decode_three [OF d this c(2) m(2) c(1) m(1), of cp] show ?thesis
      using 3 n by (simp add: encode_code_point_def word_le_nat_alt n_def split64)
  next
    case 4
    have d: "unat (ucast (0xf0 OR drop_bit 18 cp) :: byte) = 240 + n div 262144"
      using n by (simp add: unat_ucast_small unat_tags unat_drop32 n_def)
    have "n div 262144 < 5" using n by simp
    from decode_four [OF d this c(3) m(3) c(2) m(2) c(1) m(1), of cp] show ?thesis
      using 4 n by (simp add: encode_code_point_def word_le_nat_alt n_def split64)
  qed
qed


lemma decodeUTF8_encode_one:
  "scalar_value cp \<Longrightarrow> decodeUTF8 (encode_code_point cp @ rest) = push_code_point cp @ decodeUTF8 rest"
  using decode_encode_one [of cp rest] by auto

section \<open>Well-formed strings\<close>

fun paired :: "ustring \<Rightarrow> bool" where
  "paired [] = True"
| "paired [u] = (\<not> high_surrogate u \<and> \<not> low_surrogate u)"
| "paired (u # v # us) =
     (if high_surrogate u \<and> low_surrogate v then paired us
      else \<not> high_surrogate u \<and> \<not> low_surrogate u \<and> paired (v # us))"

fun replace_unpaired :: "ustring \<Rightarrow> ustring" where
  "replace_unpaired [] = []"
| "replace_unpaired [u] = [if high_surrogate u \<or> low_surrogate u then 0xfffd else u]"
| "replace_unpaired (u # v # us) =
     (if high_surrogate u \<and> low_surrogate v then u # v # replace_unpaired us
      else (if high_surrogate u \<or> low_surrogate u then 0xfffd else u) # replace_unpaired (v # us))"

lemma surrogate_split: "u \<ge> 0xd800 \<and> u \<le> 0xdfff \<longleftrightarrow> high_surrogate u \<or> low_surrogate u"
  by (auto simp: high_surrogate_def low_surrogate_def word_le_nat_alt)

lemma not_both_surrogates: "high_surrogate u \<Longrightarrow> low_surrogate u \<Longrightarrow> False"
  by (auto simp: high_surrogate_def low_surrogate_def word_le_nat_alt)

lemma unat_ucast_unit: "unat (ucast (u :: u16) :: u32) = unat u"
  using unsigned_less [of u, where ?'a = nat] by (simp add: unat_ucast_small)

definition pair_value :: "u16 \<Rightarrow> u16 \<Rightarrow> code_point" where
  "pair_value u v = 0x10000 + push_bit 10 (ucast u - 0xd800) + (ucast v - 0xdc00)"

lemma unat_pair_value:
  assumes "high_surrogate u" "low_surrogate v"
  shows "unat (pair_value u v) = 0x10000 + (unat u - 0xd800) * 1024 + (unat v - 0xdc00)"
proof -
  have b: "0xd800 \<le> unat u" "unat u \<le> 0xdbff" "0xdc00 \<le> unat v" "unat v \<le> 0xdfff"
    using assms by (simp_all add: high_surrogate_def low_surrogate_def word_le_nat_alt)
  have u: "unat (ucast u - 0xd800 :: u32) = unat u - 0xd800"
    using b unat_sub [of "0xd800 :: u32" "ucast u"] by (simp add: word_le_nat_alt unat_ucast_unit)
  have v: "unat (ucast v - 0xdc00 :: u32) = unat v - 0xdc00"
    using b unat_sub [of "0xdc00 :: u32" "ucast v"] by (simp add: word_le_nat_alt unat_ucast_unit)
  have p: "unat (push_bit 10 (ucast u - 0xd800 :: u32)) = (unat u - 0xd800) * 1024"
    unfolding unsigned_push_bit_eq u using b by (simp add: take_bit_nat_eq_self push_bit_eq_mult)
  have add3: "unat (x + y + z) = unat x + unat y + unat z"
    if "unat x + unat y + unat z < 2 ^ 32" for x y z :: u32
    using that by (simp add: unat_word_ariths)
  show ?thesis
    unfolding pair_value_def using b by (subst add3) (simp_all add: p v)
qed


lemma push_pair:
  assumes "high_surrogate u" "low_surrogate v"
  shows "push_code_point (pair_value u v) = [u, v]" "scalar_value (pair_value u v)"
proof -
  have "0xd800 \<le> unat u" "unat u \<le> 0xdbff" "0xdc00 \<le> unat v" "unat v \<le> 0xdfff"
    using assms by (simp_all add: high_surrogate_def low_surrogate_def word_le_nat_alt)
  then obtain a d where ad: "unat u = 0xd800 + a" "a < 1024" "unat v = 0xdc00 + d" "d < 1024"
    by (auto simp: le_iff_add)
  let ?c = "pair_value u v - 0x10000"
  have cp: "unat (pair_value u v) = 0x10000 + a * 1024 + d"
    using unat_pair_value [OF assms] by (simp add: ad)
  have big: "\<not> pair_value u v \<le> 0xffff" by (simp add: word_le_nat_alt cp)
  have c: "unat ?c = a * 1024 + d"
    using unat_sub [of "0x10000 :: u32" "pair_value u v"] by (simp add: word_le_nat_alt cp)
  have hi: "unat (drop_bit 10 ?c) = a" and lo: "unat (?c AND 0x3ff) = d"
    using ad by (simp_all only: unat_drop32 unat_lows c) simp_all
  have "unat (0xd800 + drop_bit 10 ?c) = unat u" "unat (0xdc00 + (?c AND 0x3ff)) = unat v"
    using ad by (simp_all only: unat_word_ariths hi lo) simp_all
  then have "ucast (0xd800 + drop_bit 10 ?c) = u" "ucast (0xdc00 + (?c AND 0x3ff)) = v"
    using unsigned_less [of u, where ?'a = nat] unsigned_less [of v, where ?'a = nat]
    by (simp_all add: word_unat_eq_iff unat_ucast_small)
  then show "push_code_point (pair_value u v) = [u, v]"
    unfolding push_code_point_def Let_def using big by simp
  show "scalar_value (pair_value u v)"
    using ad by (simp add: scalar_value_def word_le_nat_alt cp)
qed

lemma single_scalar:
  assumes "\<not> high_surrogate u" "\<not> low_surrogate u"
  shows "scalar_value (ucast u)" "push_code_point (ucast u) = [u]"
proof -
  have b: "unat u < 2 ^ 16" using unsigned_less [of u, where ?'a = nat] by simp
  have "\<not> (0xd800 \<le> unat u \<and> unat u \<le> 0xdfff)"
    using assms by (auto simp: high_surrogate_def low_surrogate_def word_le_nat_alt)
  then show "scalar_value (ucast u)"
    using b by (simp add: scalar_value_def word_le_nat_alt unat_ucast_unit)
  have "ucast (ucast u :: u32) = u"
    using b by (simp add: word_unat_eq_iff unat_ucast_small unat_ucast_unit)
  then show "push_code_point (ucast u) = [u]"
    using b by (simp add: push_code_point_def word_le_nat_alt unat_ucast_unit)
qed

lemma fffd_scalar: "scalar_value 0xfffd" "push_code_point 0xfffd = [0xfffd]"
  by (simp_all add: scalar_value_def push_code_point_def)

lemma encode_unit:
  "decodeUTF8 (encode_code_point (if u \<ge> 0xd800 \<and> u \<le> 0xdfff then 0xfffd else ucast u) @ rest)
     = (if high_surrogate u \<or> low_surrogate u then 0xfffd else u) # decodeUTF8 rest"
  using decodeUTF8_encode_one [OF single_scalar(1), of u rest] decodeUTF8_encode_one [OF fffd_scalar(1)]
    single_scalar(2) [of u]
  by (simp add: surrogate_split fffd_scalar(2))

lemma decode_encode_replace: "decodeUTF8 (encodeUTF8 s) = replace_unpaired s"
proof (induction s rule: encodeUTF8.induct)
  case 1
  then show ?case by simp
next
  case (2 u)
  then show ?case using encode_unit [of u "[]"] by simp
next
  case (3 u v us)
  then show ?case
    using decodeUTF8_encode_one [OF push_pair(2), of u v] push_pair(1) [of u v] encode_unit [of u]
    by (simp add: pair_value_def [symmetric])
qed

lemma replace_unpaired_id: "paired s \<Longrightarrow> replace_unpaired s = s"
  by (induction s rule: replace_unpaired.induct) (auto split: if_splits)


lemma paired_Cons_plain:
  "\<not> high_surrogate u \<Longrightarrow> \<not> low_surrogate u \<Longrightarrow> paired (u # s) = paired s"
  by (cases s) auto

lemma paired_push:
  assumes "scalar_value cp"
  shows "paired (push_code_point cp @ s) = paired s"
proof (cases "cp \<le> 0xffff")
  case True
  then have u: "unat (ucast cp :: u16) = unat cp" by (simp add: unat_ucast_small word_le_nat_alt)
  then have "\<not> high_surrogate (ucast cp)" "\<not> low_surrogate (ucast cp)"
    using assms by (auto simp: high_surrogate_def low_surrogate_def scalar_value_def word_le_nat_alt)
  with True show ?thesis by (simp add: push_code_point_def paired_Cons_plain)
next
  case False
  let ?c = "cp - 0x10000"
  have cp: "0xffff < unat cp" "unat cp \<le> 0x10ffff"
    using False assms by (simp_all add: scalar_value_def word_le_nat_alt)
  then have c: "unat ?c = unat cp - 0x10000"
    using unat_sub [of "0x10000 :: u32" cp] by (simp add: word_le_nat_alt)
  have hi: "unat (drop_bit 10 ?c) < 1024" and lo: "unat (?c AND 0x3ff) < 1024"
    using cp by (simp_all only: unat_drop32 unat_lows c) simp_all
  have "unat (0xd800 + drop_bit 10 ?c) = 0xd800 + unat (drop_bit 10 ?c)"
    "unat (0xdc00 + (?c AND 0x3ff)) = 0xdc00 + unat (?c AND 0x3ff)"
    using hi lo by (simp_all only: unat_word_ariths) simp_all
  then have "high_surrogate (ucast (0xd800 + drop_bit 10 ?c))"
    "low_surrogate (ucast (0xdc00 + (?c AND 0x3ff)))"
    using hi lo by (simp_all add: high_surrogate_def low_surrogate_def word_le_nat_alt unat_ucast_small)
  then show ?thesis using False by (simp add: push_code_point_def Let_def)
qed

lemma scalar_value_nat:
  "scalar_value cp \<longleftrightarrow> unat cp \<le> 0x10ffff \<and> \<not> (0xd800 \<le> unat cp \<and> unat cp \<le> 0xdfff)"
  by (simp add: scalar_value_def word_le_nat_alt)

lemma scalar_two:
  "scalar_value (push_bit 6 (ucast (f :: byte) AND 0x1f) OR (ucast (b1 :: byte) AND 0x3f))"
proof -
  have "unat f mod 32 < 32" "unat b1 mod 64 < 64" by simp_all
  then show ?thesis unfolding scalar_value_nat unat_decoded2 by linarith
qed

lemma scalar_three:
  assumes "0xe0 \<le> f" "f \<le> 0xef" "(b1 :: byte) AND 0xc0 = 0x80" "\<not> (f = 0xed \<and> b1 \<ge> 0xa0)"
  shows "scalar_value (push_bit 12 (ucast (f :: byte) AND 0x0f) OR push_bit 6 (ucast b1 AND 0x3f)
       OR (ucast (b2 :: byte) AND 0x3f))"
proof -
  obtain q where q: "unat f = 224 + q" "q < 16"
    using assms(1,2) by (auto simp: word_le_nat_alt le_iff_add)
  obtain r where r: "unat b1 = 128 + r" "r < 64"
    using assms(3) by (metis cont_iff div_mult_mod_eq mod_less_divisor mult_2 numeral_Bit0 zero_less_numeral)
  have "q = 13 \<Longrightarrow> r < 32" using assms(4) by (auto simp: word_cmp q r)
  moreover have "unat b2 mod 64 < 64" by simp
  ultimately show ?thesis
    unfolding scalar_value_nat unat_decoded3 q(1) r(1) tag_mods(2) [OF q(2)] tag_mods(4) [OF r(2)]
    using q(2) r(2) by (cases "q \<le> 12"; cases "q = 13") linarith+
qed

lemma scalar_four:
  assumes "0xf0 \<le> f" "f \<le> 0xf4" "(b1 :: byte) AND 0xc0 = 0x80"
    "\<not> (f = 0xf0 \<and> b1 < 0x90)" "\<not> (f = 0xf4 \<and> b1 > 0x8f)"
  shows "scalar_value (push_bit 18 (ucast (f :: byte) AND 0x07) OR push_bit 12 (ucast b1 AND 0x3f)
       OR push_bit 6 (ucast (b2 :: byte) AND 0x3f) OR (ucast (b3 :: byte) AND 0x3f))"
proof -
  obtain q where q: "unat f = 240 + q" "q < 5"
    using assms(1,2) by (auto simp: word_le_nat_alt le_iff_add)
  obtain r where r: "unat b1 = 128 + r" "r < 64"
    using assms(3) by (metis cont_iff div_mult_mod_eq mod_less_divisor mult_2 numeral_Bit0 zero_less_numeral)
  have "q = 4 \<Longrightarrow> r < 16" "q = 0 \<Longrightarrow> 16 \<le> r" using assms(4,5) by (auto simp: word_cmp q r)
  moreover have "unat b2 mod 64 < 64" "unat b3 mod 64 < 64" by simp_all
  moreover have "(240 + q) mod 8 = q" using q(2) by (simp add: tag_mods)
  ultimately show ?thesis
    unfolding scalar_value_nat unat_decoded4 q(1) r(1) tag_mods(4) [OF r(2)]
    using q(2) r(2) by (cases "q = 0"; cases "q = 4") linarith+
qed

lemma decode_one_scalar: "scalar_value (fst (decode_one f rest))"
proof -
  have one: "scalar_value (ucast f)"
    using unsigned_less [of f, where ?'a = nat] by (simp add: scalar_value_nat unat_ucast_byte)
  show ?thesis
    unfolding decode_one_def Let_def
    by (simp only: fst_conv one fffd_scalar scalar_two simp_thms split: if_split)
      (blast intro: scalar_three scalar_four)
qed

lemma decodeUTF8_paired: "paired (decodeUTF8 bs)"
proof (induction bs rule: decodeUTF8.induct)
  case 1
  then show ?case by simp
next
  case (2 first rest)
  then show ?case
    using paired_push [OF decode_one_scalar [of first rest]]
    by (auto split: prod.split)
qed


section \<open>Code points in order\<close>

fun code_points :: "ustring \<Rightarrow> code_point list" where
  "code_points [] = []"
| "code_points [u] = [ucast u]"
| "code_points (u # v # us) =
     (if high_surrogate u \<and> low_surrogate v then pair_value u v # code_points us
      else ucast u # code_points (v # us))"

fun compare_lists :: "code_point list \<Rightarrow> code_point list \<Rightarrow> int" where
  "compare_lists [] [] = 0"
| "compare_lists [] (b # bs) = -1"
| "compare_lists (a # as) [] = 1"
| "compare_lists (a # as) (b # bs) = (if a < b then -1 else if a > b then 1 else compare_lists as bs)"

lemma char32At_drop:
  assumes "i < length s"
  shows "code_points (drop i s)
      = char32At s (int i) # code_points (drop (i + utf16_code_unit_count (char32At s (int i))) s)"
proof -
  have u: "charAt s (int i) = s ! i" using assms by (simp add: charAt_def ulength_def)
  have d: "drop i s = s ! i # drop (Suc i) s" using assms by (simp add: Cons_nth_drop_Suc)
  have one: "utf16_code_unit_count (ucast (x :: u16)) = 1" for x
    using unsigned_less [of x, where ?'a = nat]
    by (simp add: utf16_code_unit_count_def word_less_nat_alt unat_ucast_unit)
  show ?thesis
  proof (cases "Suc i < length s \<and> high_surrogate (s ! i) \<and> low_surrogate (s ! Suc i)")
    case True
    then have v: "charAt s (int i + 1) = s ! Suc i"
      by (simp add: charAt_def ulength_def nat_add_distrib)
    have c: "char32At s (int i) = pair_value (s ! i) (s ! Suc i)"
      using True by (simp add: char32At_def Let_def u v pair_value_def high_surrogate_def
          low_surrogate_def ulength_def)
    have d2: "drop (Suc i) s = s ! Suc i # drop (Suc (Suc i)) s"
      using True by (simp add: Cons_nth_drop_Suc)
    have "utf16_code_unit_count (pair_value (s ! i) (s ! Suc i)) = 2"
      using True by (simp add: utf16_code_unit_count_def word_less_nat_alt unat_pair_value)
    then show ?thesis unfolding c using True d d2 by simp
  next
    case False
    then have c: "char32At s (int i) = ucast (s ! i)"
      using assms
      by (auto simp: char32At_def Let_def u high_surrogate_def low_surrogate_def ulength_def charAt_def
          nat_add_distrib)
    have "code_points (s ! i # drop (Suc i) s) = ucast (s ! i) # code_points (drop (Suc i) s)"
      using False by (cases "Suc i < length s") (auto simp: Cons_nth_drop_Suc [symmetric])
    then show ?thesis unfolding c d [symmetric] one by simp
  qed
qed

lemma compare_from_lists:
  "compare_from s t i j = compare_lists (code_points (drop i s)) (code_points (drop j t))"
proof (induction s t i j rule: compare_from.induct)
  case (1 s t i j)
  note simps = compare_from.simps [of s t i j]
  consider "i < length s" "j < length t" | "i < length s" "length t \<le> j" | "length s \<le> i"
    by linarith
  then show ?case
  proof cases
    case 1
    then show ?thesis
      using "1.IH" [OF conjI [OF 1] refl refl] by (auto simp: simps char32At_drop [of i s] char32At_drop [of j t] Let_def del: compare_from.simps)
  next
    case 2
    then show ?thesis by (simp add: simps char32At_drop [of i s] del: compare_from.simps)
  next
    case 3
    then show ?thesis
      by (cases "j < length t") (simp_all add: simps char32At_drop [of j t] del: compare_from.simps)
  qed
qed

lemma push_unit: "push_code_point (ucast (u :: u16)) = [u]"
proof -
  have b: "unat u < 2 ^ 16" using unsigned_less [of u, where ?'a = nat] by simp
  have "ucast (ucast u :: u32) = u"
    using b by (simp add: word_unat_eq_iff unat_ucast_small unat_ucast_unit)
  then show ?thesis
    using b by (simp add: push_code_point_def word_le_nat_alt unat_ucast_unit)
qed

lemma code_points_units: "concat (map push_code_point (code_points s)) = s"
  by (induction s rule: code_points.induct) (auto simp: push_unit push_pair)

lemma code_points_inject: "code_points s = code_points t \<longleftrightarrow> s = t"
  using code_points_units by metis

lemma compare_lists_zero: "compare_lists as bs = 0 \<longleftrightarrow> as = bs"
  by (induction as bs rule: compare_lists.induct) auto

lemma compare_lists_swap: "compare_lists bs as = - compare_lists as bs"
  by (induction as bs rule: compare_lists.induct) auto

lemma compare_lists_trans:
  "compare_lists as bs < 0 \<Longrightarrow> compare_lists bs cs < 0 \<Longrightarrow> compare_lists as cs < 0"
proof (induction as bs arbitrary: cs rule: compare_lists.induct)
  case (4 a as b bs)
  then show ?case by (cases cs) (auto split: if_splits)
next
  case (2 b bs)
  then show ?case by (cases cs) auto
qed auto


section \<open>Escapes and well-formedness\<close>

definition plain :: "u16 \<Rightarrow> bool" where
  "plain u \<longleftrightarrow> \<not> high_surrogate u \<and> \<not> low_surrogate u"

lemma plain_small: "u < 0xd800 \<Longrightarrow> plain u"
  by (auto simp: plain_def high_surrogate_def low_surrogate_def word_le_nat_alt word_less_nat_alt)

lemma paired_append: "paired a \<Longrightarrow> paired (a @ b) = paired b"
  by (induction a rule: paired.induct) (auto simp: paired_Cons_plain split: if_splits)

lemma paired_plain_mid: "plain p \<Longrightarrow> paired (a @ p # b) \<longleftrightarrow> paired a \<and> paired b"
proof (induction a rule: paired.induct)
  case 1
  then show ?case by (simp add: plain_def paired_Cons_plain)
next
  case (2 u)
  then show ?case by (auto simp: plain_def paired_Cons_plain)
next
  case (3 u v us)
  then show ?case by auto
qed

lemma paired_drop_plain: "list_all plain a \<Longrightarrow> paired (a @ b) = paired b"
  by (induction a) (auto simp: plain_def paired_Cons_plain)

lemma hexDigit_plain: "\<not> hexDigit u < 0 \<Longrightarrow> plain u"
  by (rule plain_small) (auto simp: hexDigit_def word_le_nat_alt word_less_nat_alt split: if_splits)

lemma hex_digits_plain:
  "hex_digits n cp src = Some r \<Longrightarrow> n \<le> length src \<and> list_all plain (take n src)"
proof (induction n cp src rule: hex_digits.induct)
  case (3 n cp u us)
  then show ?case using hexDigit_plain [of u] by (auto split: if_splits)
qed auto

lemma escaped_paired:
  assumes "appendEscapedCodePoint src n = Some us" "paired src"
  shows "paired us" "paired (drop n src)"
proof -
  obtain cp where cp: "hex_digits n 0 src = Some cp" "scalar_value cp" "us = push_code_point cp"
    using assms(1) by (auto simp: appendEscapedCodePoint_def scalar_value_def split: if_splits option.splits)
  show "paired us" using paired_push [OF cp(2), of "[]"] cp(3) by simp
  show "paired (drop n src)"
    using hex_digits_plain [OF cp(1)] assms(2) paired_drop_plain [of "take n src" "drop n src"] by simp
qed

lemma simple_escape_plain: "simple_escape e = Some c \<Longrightarrow> plain c \<and> plain e"
  by (auto simp: simple_escape_def intro!: plain_small split: if_splits)

lemma escaped_text_paired:
  assumes "escaped_text src n m = Some (us, src')" "paired src"
    and "paired (drop n src) \<Longrightarrow> paired (drop m src)"
  shows "paired us \<and> paired src'"
  using assms escaped_paired [of src n] by (auto simp: escaped_text_def split: option.splits)

lemma drop_brace:
  assumes "n = length (takeWhile (\<lambda>u. u \<noteq> 0x7d) b)" "n < length b" "paired (drop n b)"
  shows "paired (drop (n + 1) b)"
proof -
  have "b ! n = 0x7d" using assms(1,2) nth_length_takeWhile [of "\<lambda>u. u \<noteq> 0x7d" b] by simp
  then have "drop n b = 0x7d # drop (Suc n) b" using assms(2) Cons_nth_drop_Suc by metis
  then show ?thesis
    using assms(3) plain_small [of "0x7d"] by (simp add: plain_def paired_Cons_plain)
qed

lemma unescape_one_paired:
  assumes "unescape_one escape src = Some (us, src')" "paired (escape # src)"
  shows "us = [escape] \<and> src' = src \<or> paired us \<and> paired src'"
proof -
  have src: "paired src" if "plain escape"
    using assms(2) that by (simp add: plain_def paired_Cons_plain)
  have brace: "paired (tl src)" if "src \<noteq> []" "hd src = 0x7b" "paired src"
    using that plain_small [of "0x7b"] by (cases src) (simp_all add: plain_def paired_Cons_plain)
  have plains: "plain 0x75" "plain 0x55" "plain 0x78" by (rule plain_small, simp)+
  show ?thesis
  proof (cases "simple_escape escape")
    case (Some c)
    then show ?thesis
      using assms(1) src simple_escape_plain [OF Some] by (auto simp: unescape_one_def plain_def)
  next
    case None
    let ?b = "tl src" and ?n = "length (takeWhile (\<lambda>u. u \<noteq> 0x7d) (tl src))"
    consider "us = [escape]" "src' = src" | "escape = 0x75" "escaped_text src 4 4 = Some (us, src')"
      | "escape = 0x55" "escaped_text src 8 8 = Some (us, src')"
      | "escape = 0x78" "escaped_text src 2 2 = Some (us, src')"
      | "escape = 0x78" "src \<noteq> []" "hd src = 0x7b" "?n < length ?b"
        "escaped_text ?b ?n (?n + 1) = Some (us, src')"
      using assms(1) None by (auto simp: unescape_one_def Let_def not_le split: if_splits)
    then show ?thesis
    proof cases
      case 5
      then have b: "paired ?b" using src brace plains by simp
      show ?thesis using escaped_text_paired [OF 5(5) b] drop_brace [OF refl 5(4)] by blast
    qed (use src plains escaped_text_paired in auto)
  qed
qed

lemma unescape_from_paired: "paired (result @ rest) \<Longrightarrow> paired (unescape_from rest result)"
proof (induction rest result rule: unescape_from.induct)
  case (1 result)
  then show ?case by simp
next
  case (2 unit rest result)
  show ?case
  proof (cases "unit = 0x5c \<and> rest \<noteq> []")
    case False
    with 2 show ?thesis by auto
  next
    case True
    then obtain escape src where rest: "unit = 0x5c" "rest = escape # src" by (cases rest) auto
    have res: "paired result" and tail: "paired (escape # src)"
      using "2.prems" paired_plain_mid [of unit result rest] plain_small [of unit] by (simp_all add: rest)
    show ?thesis
    proof (cases "unescape_one escape src")
      case None
      then show ?thesis by (simp add: rest)
    next
      case (Some p)
      obtain us src' where p: "p = (us, src')" by (cases p)
      have app: "paired ((result @ us) @ src')"
        using unescape_one_paired [OF Some [unfolded p] tail] res tail by (auto simp: paired_append)
      have "unescape_from (unit # rest) result = unescape_from src' (result @ us)"
        by (simp add: rest Some p)
      moreover have "paired (unescape_from src' (result @ us))"
        by (rule "2.IH"(2) [OF _ rest(2) Some p [symmetric] app]) (simp add: rest)
      ultimately show ?thesis by simp
    qed
  qed
qed

lemma unescape_from_plain: "0x5c \<notin> set s \<Longrightarrow> unescape_from s result = result @ s"
  by (induction s arbitrary: result) auto


section \<open>Properties\<close>

text \<open>
  Writing a string as UTF-8 and reading it back gives the string with every unpaired
  surrogate replaced by U+FFFD; a well-formed string comes back unchanged.  Reading any bytes at
  all, malformed or truncated, yields a well-formed string, so a second trip changes nothing.
\<close>

theorem utf8_roundtrip:
  "decodeUTF8 (encodeUTF8 s) = replace_unpaired s
   \<and> (paired s \<longrightarrow> decodeUTF8 (encodeUTF8 s) = s)
   \<and> paired (decodeUTF8 bs)
   \<and> decodeUTF8 (encodeUTF8 (decodeUTF8 bs)) = decodeUTF8 bs"
  by (simp add: decode_encode_replace replace_unpaired_id decodeUTF8_paired)

theorem utf8_roundtrip_witness:
  "decodeUTF8 (encodeUTF8 [0x41, 0xe9, 0xd83d, 0xde00]) = [0x41, 0xe9, 0xd83d, 0xde00]"
proof -
  have "paired [0x41, 0xe9, 0xd83d, 0xde00]"
    by (simp add: high_surrogate_def low_surrogate_def)
  then show ?thesis using utf8_roundtrip [of "[0x41, 0xe9, 0xd83d, 0xde00]"] by blast
qed

text \<open>
  \<open>compareCodePointOrder\<close> orders strings as their sequences of code points: it is the
  lexicographic comparison of those, 0 only for equal strings, antisymmetric and transitive.
\<close>

theorem compareCodePointOrder_linear:
  "compareCodePointOrder s t = compare_lists (code_points s) (code_points t)
   \<and> (compareCodePointOrder s t = 0) = (s = t)
   \<and> compareCodePointOrder t s = - compareCodePointOrder s t
   \<and> (compareCodePointOrder s t < 0 \<longrightarrow> compareCodePointOrder t u < 0
       \<longrightarrow> compareCodePointOrder s u < 0)"
proof -
  have c: "compareCodePointOrder a b = compare_lists (code_points a) (code_points b)" for a b
    by (simp add: compareCodePointOrder_def compare_from_lists del: compare_from.simps)
  show ?thesis
    unfolding c compare_lists_zero code_points_inject
    using compare_lists_swap compare_lists_trans by blast
qed

theorem compareCodePointOrder_linear_witness:
  "compareCodePointOrder [0x61] [0xd83d, 0xde00] < 0"
proof -
  have "compareCodePointOrder [0x61] [0xff21] < 0" "compareCodePointOrder [0xff21] [0xd83d, 0xde00] < 0"
    by (simp_all add: compareCodePointOrder_def char32At_def charAt_def ulength_def)
  then show ?thesis
    using compareCodePointOrder_linear [of "[0x61]" "[0xff21]" "[0xd83d, 0xde00]"] by blast
qed

text \<open>
  Resolving escapes leaves text without backslashes alone and never breaks a well-formed
  string: no escape can produce half of a surrogate pair.
\<close>

theorem unescape_wellformed:
  "(paired s \<longrightarrow> paired (unescape s)) \<and> (0x5c \<notin> set s \<longrightarrow> unescape s = s)"
  using unescape_from_paired [of "[]" s] unescape_from_plain [of s "[]"] by (simp add: unescape_def)

theorem unescape_wellformed_witness:
  "paired (unescape [0x5c, 0x75, 0x30, 0x30, 0x65, 0x39]) \<and> unescape [0x61, 0x62] = [0x61, 0x62]"
proof -
  have p: "paired [0x5c, 0x75, 0x30, 0x30, 0x65, 0x39]"
    by (simp add: high_surrogate_def low_surrogate_def)
  have n: "(0x5c :: u16) \<notin> set [0x61, 0x62]" by simp
  show ?thesis
    using unescape_wellformed [of "[0x5c, 0x75, 0x30, 0x30, 0x65, 0x39]"] p
      unescape_wellformed [of "[0x61, 0x62]"] n by blast
qed

end
