(* ===== verification/Builtin_Types.thy ===== *)
theory Builtin_Types
  imports Ustring
begin

text \<open>
  \<open>core/types.h\<close> and \<open>core/types.cpp\<close>: the builtin type enumeration, its names, the implicit
  conversion relation in strict and non-strict contexts, and the static \<open>Type\<close> trees that the
  type deducer attaches to the AST; with them the runtime type tags \<open>ValueType\<close> of
  \<open>compiler/Value.h\<close> and the map from one to the other in \<open>compiler/Value.cpp\<close>.
\<close>

section \<open>Builtin types\<close>

datatype builtin =
  BNil | BBool | BByte | BNumber | BInt | BReal | BDecimal | BString | BRange | BEnum
| BList | BDict | BVector | BMatrix | BSignal | BTensor | BOrient | BFunc | BObject | BActor
| BType | BEvent

definition builtin_all :: "builtin list" where
  "builtin_all = [BNil, BBool, BByte, BNumber, BInt, BReal, BDecimal, BString, BRange, BEnum,
     BList, BDict, BVector, BMatrix, BSignal, BTensor, BOrient, BFunc, BObject, BActor, BType, BEvent]"

text \<open>The table of names is indexed by the enumerator's value.\<close>

definition builtinTypeToString :: "string list" where
  "builtinTypeToString =
     [''nil'', ''bool'', ''byte'', ''number'', ''int'', ''real'', ''decimal'',
      ''string'', ''range'', ''enum'', ''list'', ''dict'', ''vector'', ''matrix'',
      ''signal'', ''tensor'', ''orient'', ''func'', ''object'', ''actor'', ''type'', ''event'']"

fun builtin_index :: "builtin \<Rightarrow> nat" where
  "builtin_index BNil = 0" | "builtin_index BBool = 1" | "builtin_index BByte = 2"
| "builtin_index BNumber = 3" | "builtin_index BInt = 4" | "builtin_index BReal = 5"
| "builtin_index BDecimal = 6" | "builtin_index BString = 7" | "builtin_index BRange = 8"
| "builtin_index BEnum = 9" | "builtin_index BList = 10" | "builtin_index BDict = 11"
| "builtin_index BVector = 12" | "builtin_index BMatrix = 13" | "builtin_index BSignal = 14"
| "builtin_index BTensor = 15" | "builtin_index BOrient = 16" | "builtin_index BFunc = 17"
| "builtin_index BObject = 18" | "builtin_index BActor = 19" | "builtin_index BType = 20"
| "builtin_index BEvent = 21"

datatype type_error = Unhandled_Alternative

text \<open>\<open>to_string\<close> on the integer behind the enumerator: out of the table it throws.\<close>

definition builtin_code_to_string :: "int \<Rightarrow> type_error + string" where
  "builtin_code_to_string t =
     (if t < 0 \<or> t \<ge> int (length builtinTypeToString) then Inl Unhandled_Alternative
      else Inr (builtinTypeToString ! nat t))"

definition builtin_to_string :: "builtin \<Rightarrow> type_error + string" where
  "builtin_to_string t = builtin_code_to_string (int (builtin_index t))"

fun scan_names :: "string list \<Rightarrow> nat \<Rightarrow> string \<Rightarrow> nat option" where
  "scan_names [] i name = None"
| "scan_names (n # ns) i name = (if n = name then Some i else scan_names ns (Suc i) name)"

definition builtinTypeFromName :: "string \<Rightarrow> builtin option" where
  "builtinTypeFromName name =
     map_option (\<lambda>i. builtin_all ! i) (scan_names builtinTypeToString 0 name)"

fun isNilAcceptableTargetBuiltinType :: "builtin \<Rightarrow> bool" where
  "isNilAcceptableTargetBuiltinType BString = True"
| "isNilAcceptableTargetBuiltinType BList = True"
| "isNilAcceptableTargetBuiltinType BDict = True"
| "isNilAcceptableTargetBuiltinType BObject = True"
| "isNilAcceptableTargetBuiltinType BActor = True"
| "isNilAcceptableTargetBuiltinType BSignal = True"
| "isNilAcceptableTargetBuiltinType BEvent = True"
| "isNilAcceptableTargetBuiltinType BFunc = True"
| "isNilAcceptableTargetBuiltinType BTensor = True"
| "isNilAcceptableTargetBuiltinType _ = False"

section \<open>Conversions\<close>

text \<open>\<open>conv_idx\<close> is the local \<open>idx\<close> of \<open>convertibleTo\<close>, \<open>None\<close> for its \<open>-1\<close>.\<close>

fun conv_idx :: "builtin \<Rightarrow> nat option" where
  "conv_idx BBool = Some 0"
| "conv_idx BByte = Some 1"
| "conv_idx BInt = Some 2"
| "conv_idx BReal = Some 3"
| "conv_idx BDecimal = Some 4"
| "conv_idx BString = Some 5"
| "conv_idx BEnum = Some 6"
| "conv_idx _ = None"

definition nonStrictTab :: "bool list list" where
  "nonStrictTab =
    [[True, True, True, True, True, True, False],
     [True, True, True, True, True, True, False],
     [True, True, True, True, True, True, False],
     [True, True, True, True, True, True, False],
     [True, True, True, True, True, True, False],
     [True, True, True, True, True, True, True],
     [False, False, True, False, False, True, True]]"

definition strictTab :: "bool list list" where
  "strictTab =
    [[True, True, True, True, True, True, False],
     [False, True, True, True, True, True, False],
     [False, False, True, True, True, True, False],
     [False, False, False, True, False, True, False],
     [False, False, False, False, True, True, False],
     [False, False, False, False, False, True, False],
     [False, False, True, False, False, True, True]]"

definition convertibleTo :: "builtin \<Rightarrow> builtin \<Rightarrow> bool \<Rightarrow> bool" where
  "convertibleTo from to strict =
     (if from = to then True
      else if from = BNil then isNilAcceptableTargetBuiltinType to
      else (case (conv_idx from, conv_idx to) of
        (Some fi, Some ti) \<Rightarrow> (if strict then strictTab ! fi ! ti else nonStrictTab ! fi ! ti)
      | _ \<Rightarrow>
        if to = BRange then \<not> strict
        else if to = BList \<and> from = BRange then \<not> strict
        else if to = BDict \<and> from = BObject then \<not> strict
        else if (from = BObject \<or> from = BActor) \<and> conv_idx to \<noteq> None then True
        else False))"

definition isAssignableFrom :: "builtin \<Rightarrow> builtin \<Rightarrow> bool" where
  "isAssignableFrom target source = (if target = source then True else False)"

section \<open>Runtime type tags\<close>

datatype value_type =
  VNil | VBool | VByte | VInt | VReal | VDecimal | VEnum | VType
| VString | VRange | VList | VDict | VVector | VMatrix | VSignal | VTensor | VOrient
| VObject | VActor | VModule | VEvent | VFunction | VClosure | VUpvalue | VQtObject | VJsValue
| VBoxed

fun value_type_code :: "value_type \<Rightarrow> nat" where
  "value_type_code VNil = 1" | "value_type_code VBool = 4" | "value_type_code VByte = 5"
| "value_type_code VInt = 6" | "value_type_code VReal = 7" | "value_type_code VDecimal = 8"
| "value_type_code VEnum = 9" | "value_type_code VType = 10" | "value_type_code VString = 11"
| "value_type_code VRange = 12" | "value_type_code VList = 13" | "value_type_code VDict = 14"
| "value_type_code VVector = 15" | "value_type_code VMatrix = 16" | "value_type_code VSignal = 17"
| "value_type_code VTensor = 18" | "value_type_code VOrient = 19" | "value_type_code VObject = 20"
| "value_type_code VActor = 21" | "value_type_code VModule = 22" | "value_type_code VEvent = 23"
| "value_type_code VFunction = 24" | "value_type_code VClosure = 25"
| "value_type_code VUpvalue = 26" | "value_type_code VQtObject = 27"
| "value_type_code VJsValue = 28" | "value_type_code VBoxed = 255"

fun isNilAcceptableTargetType :: "value_type \<Rightarrow> bool" where
  "isNilAcceptableTargetType VString = True"
| "isNilAcceptableTargetType VList = True"
| "isNilAcceptableTargetType VDict = True"
| "isNilAcceptableTargetType VObject = True"
| "isNilAcceptableTargetType VActor = True"
| "isNilAcceptableTargetType VSignal = True"
| "isNilAcceptableTargetType VEvent = True"
| "isNilAcceptableTargetType VFunction = True"
| "isNilAcceptableTargetType VClosure = True"
| "isNilAcceptableTargetType VTensor = True"
| "isNilAcceptableTargetType VModule = True"
| "isNilAcceptableTargetType VJsValue = True"
| "isNilAcceptableTargetType _ = False"

fun valueTypeToBuiltin :: "value_type \<Rightarrow> builtin" where
  "valueTypeToBuiltin VNil = BNil" | "valueTypeToBuiltin VBool = BBool"
| "valueTypeToBuiltin VByte = BByte" | "valueTypeToBuiltin VInt = BInt"
| "valueTypeToBuiltin VReal = BReal" | "valueTypeToBuiltin VDecimal = BDecimal"
| "valueTypeToBuiltin VString = BString" | "valueTypeToBuiltin VRange = BRange"
| "valueTypeToBuiltin VEnum = BEnum" | "valueTypeToBuiltin VList = BList"
| "valueTypeToBuiltin VDict = BDict" | "valueTypeToBuiltin VVector = BVector"
| "valueTypeToBuiltin VMatrix = BMatrix" | "valueTypeToBuiltin VSignal = BSignal"
| "valueTypeToBuiltin VEvent = BEvent" | "valueTypeToBuiltin VFunction = BFunc"
| "valueTypeToBuiltin VClosure = BFunc" | "valueTypeToBuiltin VUpvalue = BObject"
| "valueTypeToBuiltin VTensor = BTensor" | "valueTypeToBuiltin VOrient = BOrient"
| "valueTypeToBuiltin VObject = BObject" | "valueTypeToBuiltin VActor = BActor"
| "valueTypeToBuiltin VType = BType" | "valueTypeToBuiltin _ = BNil"

definition value_convertibleTo :: "value_type \<Rightarrow> value_type \<Rightarrow> bool \<Rightarrow> bool" where
  "value_convertibleTo from to strict =
     convertibleTo (valueTypeToBuiltin from) (valueTypeToBuiltin to) strict"

section \<open>Static type trees\<close>

text \<open>
  \<open>Type\<close>, \<open>FuncType\<close>, \<open>ParamType\<close>, \<open>ObjectType\<close> and \<open>MethodInfo\<close>.  A \<open>ptr<Type>\<close> that may be
  null is an option; \<open>std::optional<ptr<Type>>\<close> an option of that.  Property lists and enum
  labels, which the modelled routines never read, are left out.
\<close>

datatype rtype =
  RType (rt_builtin: builtin) (rt_isConst: bool) (rt_func: "func_type option")
        (rt_obj: "object_type option")
and func_type =
  FuncType (ft_isProc: bool) (ft_params: "param_type option list")
           (ft_returnTypes: "rtype option list")
and param_type =
  ParamType (pt_name: ustring) (pt_hash: u32) (pt_type: "rtype option option")
            (pt_hasDefault: bool) (pt_variadic: bool)
and object_type =
  ObjectType (ot_name: ustring) (ot_extends: "rtype option option")
             (ot_implements: "rtype option list") (ot_methods: "method_info list")
and method_info =
  MethodInfo (mi_name: ustring) (mi_funcType: "func_type option") (mi_modifiers: byte)

definition hasVariadic :: "func_type \<Rightarrow> bool" where
  "hasVariadic f \<longleftrightarrow>
     ft_params f \<noteq> [] \<and> (case last (ft_params f) of None \<Rightarrow> False | Some p \<Rightarrow> pt_variadic p)"

definition new_param :: "ustring \<Rightarrow> param_type" where
  "new_param n = ParamType n (ustring_hashCode n) None False False"

section \<open>Properties\<close>

lemma nth_numeral_Cons: "(x # xs) ! numeral k = xs ! pred_numeral k"
  by (simp add: numeral_eq_Suc)

lemmas table_eval = nth_numeral_Cons strictTab_def nonStrictTab_def

lemma length_builtin_tables: "length builtinTypeToString = 22" "length builtin_all = 22"
  by (simp_all add: builtinTypeToString_def builtin_all_def)

lemma distinct_builtin_tables: "distinct builtinTypeToString" "distinct builtin_all"
  by (simp_all add: builtinTypeToString_def builtin_all_def)

lemma builtin_index_bound: "builtin_index t < 22"
  by (cases t) simp_all

lemma builtin_all_nth: "builtin_all ! builtin_index t = t"
  by (cases t) (simp_all add: builtin_all_def nth_numeral_Cons)

lemma builtin_all_nth_eq: "i < 22 \<Longrightarrow> builtin_all ! i = t \<Longrightarrow> i = builtin_index t"
  using nth_eq_iff_index_eq [OF distinct_builtin_tables(2), of i "builtin_index t"]
    builtin_index_bound [of t] builtin_all_nth [of t]
  by (simp add: length_builtin_tables)

lemma scan_names_Some:
  "distinct ns \<Longrightarrow> scan_names ns k name = Some j \<longleftrightarrow> (\<exists>i < length ns. j = k + i \<and> ns ! i = name)"
proof (induction ns arbitrary: k)
  case Nil
  then show ?case by simp
next
  case (Cons n ns)
  then show ?case
    by (cases "n = name") (auto simp: less_Suc_eq_0_disj nth_eq_iff_index_eq)
qed

text \<open>
  Every conversion allowed in a strict context is allowed in a non-strict one, between
  any two builtin types and between any two runtime type tags.
\<close>

theorem strict_conversions_included:
  "(convertibleTo from to True \<longrightarrow> convertibleTo from to False)
   \<and> (value_convertibleTo vf vt True \<longrightarrow> value_convertibleTo vf vt False)"
proof -
  have tab: "strictTab ! fi ! ti \<longrightarrow> nonStrictTab ! fi ! ti"
    if "conv_idx a = Some fi" "conv_idx b = Some ti" for a b fi ti
    using that by (cases a; cases b) (auto simp: table_eval)
  have "convertibleTo a b True \<longrightarrow> convertibleTo a b False" for a b
    using tab [of a _ b] by (auto simp: convertibleTo_def split: option.splits)
  then show ?thesis by (simp add: value_convertibleTo_def)
qed

theorem strict_conversions_included_witness:
  "convertibleTo BEnum BInt False \<and> value_convertibleTo VByte VReal False"
proof -
  have "convertibleTo BEnum BInt True" "value_convertibleTo VByte VReal True"
    by (simp_all add: convertibleTo_def value_convertibleTo_def table_eval)
  then show ?thesis
    using strict_conversions_included [of BEnum BInt VByte VReal] by blast
qed

text \<open>
  The name table and its two readers agree: \<open>to_string\<close> of an enumerator never throws, and
  \<open>builtinTypeFromName\<close> finds a type exactly under the name \<open>to_string\<close> gives it.
\<close>

theorem builtin_names_roundtrip:
  "(builtinTypeFromName name = Some t) = (builtin_to_string t = Inr name)
   \<and> (\<exists>s. builtin_to_string t = Inr s \<and> builtinTypeFromName s = Some t)"
proof -
  have name: "builtin_to_string t = Inr (builtinTypeToString ! builtin_index t)"
    using builtin_index_bound [of t]
    by (simp add: builtin_to_string_def builtin_code_to_string_def length_builtin_tables)
  have "(builtinTypeFromName name = Some t) = (builtin_to_string t = Inr name)" for name
  proof -
    have "builtinTypeFromName name = Some t
        \<longleftrightarrow> (\<exists>i. scan_names builtinTypeToString 0 name = Some i \<and> builtin_all ! i = t)"
      by (simp add: builtinTypeFromName_def)
    also have "\<dots> \<longleftrightarrow> (\<exists>i < 22. builtinTypeToString ! i = name \<and> builtin_all ! i = t)"
      unfolding scan_names_Some [OF distinct_builtin_tables(1)] length_builtin_tables add_0
      by blast
    also have "\<dots> \<longleftrightarrow> builtinTypeToString ! builtin_index t = name"
    proof
      assume "\<exists>i < 22. builtinTypeToString ! i = name \<and> builtin_all ! i = t"
      then obtain i where i: "i < 22" "builtinTypeToString ! i = name" "builtin_all ! i = t" by blast
      from builtin_all_nth_eq [OF i(1,3)] i(2) show "builtinTypeToString ! builtin_index t = name"
        by (simp only:)
    next
      assume "builtinTypeToString ! builtin_index t = name"
      with builtin_index_bound builtin_all_nth
      show "\<exists>i < 22. builtinTypeToString ! i = name \<and> builtin_all ! i = t" by (intro exI conjI)
    qed
    finally show ?thesis by (simp add: name)
  qed
  then show ?thesis using name by simp
qed

text \<open>
  \<open>nil\<close> flows into a runtime type tag exactly when \<open>isNilAcceptableTargetType\<close> says so or
  the tag has no builtin counterpart (nil itself and the handle types mapped to it); the
  builtin-level predicate mirrors the tag-level one on every other tag.
\<close>

theorem nil_conversion_mirrors_tags:
  "value_convertibleTo VNil vt strict
     = (isNilAcceptableTargetType vt \<or> valueTypeToBuiltin vt = BNil \<or> vt = VUpvalue)
   \<and> (isNilAcceptableTargetBuiltinType (valueTypeToBuiltin vt)
      = (isNilAcceptableTargetType vt \<and> vt \<noteq> VModule \<and> vt \<noteq> VJsValue \<or> vt = VUpvalue))"
  by (cases vt) (simp_all add: value_convertibleTo_def convertibleTo_def)

text \<open>
  Module, Qt object and JavaScript handle values have no builtin counterpart and are mapped
  to nil, so the conversion test answers for them as it does for nil: it accepts a module value
  where a string, a list or a function is wanted, in strict mode too.
\<close>

theorem handles_convert_as_nil:
  assumes "vt \<in> {VModule, VQtObject, VJsValue}"
  shows "value_convertibleTo vt target strict = value_convertibleTo VNil target strict
    \<and> value_convertibleTo vt VString True"
  using assms by (auto simp: value_convertibleTo_def convertibleTo_def)

theorem handles_convert_as_nil_witness: "value_convertibleTo VModule VString True"
  by (rule conjunct2 [OF handles_convert_as_nil [of VModule VNil False]]) simp

end
