(* ===== verification/Value_Box.thy ===== *)
theory Value_Box
  imports Builtin_Types
begin

text \<open>
  The NaN-boxed \<open>Value\<close> of \<open>compiler/Value.h\<close> and \<open>compiler/Value.cpp\<close> as its 64-bit word: the
  constructors of the immediate types, the type predicates, the strict accessors, and the flag bits
  of object references.  A double is its IEEE bit pattern; an object or control-block pointer is
  its address.  Conversions that dereference objects (boxed primitives, strings, futures, signals)
  are not modelled.
\<close>

section \<open>Layout\<close>

definition QNAN :: u64 where "QNAN = 0x7ffc000000000000"
definition SignBit :: u64 where "SignBit = 0x8000000000000000"
definition WeakMask :: u64 where "WeakMask = push_bit 49 1"
definition ConstMask :: u64 where "ConstMask = push_bit 48 1"
definition TypeTagOffset :: nat where "TypeTagOffset = 46"
definition TypeTag :: u64 where "TypeTag = push_bit TypeTagOffset 0xf"

definition tag_of :: "value_type \<Rightarrow> u64" where
  "tag_of t = push_bit TypeTagOffset (word_of_nat (value_type_code t))"

definition TagNil :: u64 where "TagNil = tag_of VNil"
definition TagFalse :: u64 where "TagFalse = push_bit TypeTagOffset 2"
definition TagTrue :: u64 where "TagTrue = push_bit TypeTagOffset 3"
definition TagByte :: u64 where "TagByte = tag_of VByte"
definition TagInt :: u64 where "TagInt = tag_of VInt"
definition TagDecimal :: u64 where "TagDecimal = tag_of VDecimal"
definition TagEnum :: u64 where "TagEnum = tag_of VEnum"
definition TagType :: u64 where "TagType = tag_of VType"

section \<open>Constructors\<close>

definition nilVal :: u64 where "nilVal = QNAN OR TagNil"
definition boolVal :: "bool \<Rightarrow> u64" where
  "boolVal b = (if b then QNAN OR TagTrue else QNAN OR TagFalse)"
definition byteVal :: "byte \<Rightarrow> u64" where "byteVal b = QNAN OR TagByte OR ucast b"
definition int32Val :: "u32 \<Rightarrow> u64" where "int32Val i = QNAN OR TagInt OR ucast i"
definition realVal :: "u64 \<Rightarrow> u64" where "realVal bits = bits"
definition typeVal :: "value_type \<Rightarrow> u64" where
  "typeVal bt = QNAN OR TagType OR word_of_nat (value_type_code bt)"

text \<open>The label is promoted to \<open>int\<close> and sign-extended before the id is put above it.\<close>

definition enumVal :: "u16 \<Rightarrow> u16 \<Rightarrow> u64" where
  "enumVal labelVal enumTypeId =
     QNAN OR TagEnum OR (0xffffffff AND (scast labelVal OR push_bit 16 (ucast enumTypeId)))"

definition objRef :: "u64 \<Rightarrow> u64" where
  "objRef p = (if p = 0 then nilVal else SignBit OR QNAN OR p)"

text \<open>\<open>intVal\<close>: outside 32 bits the integer goes to a heap object, allocated by \<open>alloc\<close>.\<close>

definition fitsInInt32 :: "int \<Rightarrow> bool" where
  "fitsInInt32 v \<longleftrightarrow> v \<ge> -(2 ^ 31) \<and> v \<le> 2 ^ 31 - 1"

definition intVal :: "(int \<Rightarrow> u64) \<Rightarrow> int \<Rightarrow> u64" where
  "intVal alloc i = (if fitsInInt32 i then int32Val (word_of_int i) else objRef (alloc i))"

section \<open>Predicates\<close>

definition isNil :: "u64 \<Rightarrow> bool" where "isNil v \<longleftrightarrow> v = (QNAN OR TagNil)"
definition isBool :: "u64 \<Rightarrow> bool" where
  "isBool v \<longleftrightarrow> v AND SignBit = 0 \<and> (v OR push_bit TypeTagOffset 1) = (QNAN OR TagTrue)"
definition isByte :: "u64 \<Rightarrow> bool" where
  "isByte v \<longleftrightarrow> v AND (SignBit OR QNAN OR TypeTag) = (QNAN OR TagByte)"
definition isInt :: "u64 \<Rightarrow> bool" where
  "isInt v \<longleftrightarrow> v AND (SignBit OR QNAN OR TypeTag) = (QNAN OR TagInt)"
definition isReal :: "u64 \<Rightarrow> bool" where "isReal v \<longleftrightarrow> v AND QNAN \<noteq> QNAN"
definition isEnum :: "u64 \<Rightarrow> bool" where
  "isEnum v \<longleftrightarrow> v AND (SignBit OR QNAN OR TypeTag) = (QNAN OR TagEnum)"
definition isType :: "u64 \<Rightarrow> bool" where
  "isType v \<longleftrightarrow> v AND (SignBit OR QNAN OR TypeTag) = (QNAN OR TagType)"
definition isObj :: "u64 \<Rightarrow> bool" where
  "isObj v \<longleftrightarrow> v AND (QNAN OR SignBit) = (QNAN OR SignBit)"
definition isWeak :: "u64 \<Rightarrow> bool" where
  "isWeak v \<longleftrightarrow> v AND WeakMask \<noteq> 0 \<and> v AND (SignBit OR QNAN) = (SignBit OR QNAN)"
definition isConst :: "u64 \<Rightarrow> bool" where
  "isConst v \<longleftrightarrow> v AND ConstMask \<noteq> 0 \<and> v AND (SignBit OR QNAN) = (SignBit OR QNAN)"
definition isPrimitive :: "u64 \<Rightarrow> bool" where
  "isPrimitive v \<longleftrightarrow> isNil v \<or> isBool v \<or> isInt v \<or> isReal v \<or> isType v \<or> isByte v \<or> isEnum v"

text \<open>\<open>Value::type\<close>, the object case through the heap's \<open>valueType\<close> (0 for a collected object).\<close>

definition word_type :: "(u64 \<Rightarrow> nat) \<Rightarrow> u64 \<Rightarrow> nat" where
  "word_type valueType v =
     (if isObj v then valueType v
      else if isNil v then value_type_code VNil
      else if isBool v then value_type_code VBool
      else if isByte v then value_type_code VByte
      else if isInt v then value_type_code VInt
      else if isReal v then value_type_code VReal
      else unat (drop_bit TypeTagOffset (v AND TypeTag)))"

section \<open>Accessors\<close>

definition asBool_word :: "u64 \<Rightarrow> bool" where "asBool_word v \<longleftrightarrow> v = (QNAN OR TagTrue)"
definition asByte_word :: "u64 \<Rightarrow> byte" where "asByte_word v = ucast (v AND 0xff)"
definition asIntUnchecked :: "u64 \<Rightarrow> int" where
  "asIntUnchecked v = sint (ucast (v AND NOT (QNAN OR TypeTag)) :: u32)"
definition asEnum :: "u64 \<Rightarrow> u16" where
  "asEnum v = (if isEnum v then ucast (v AND 0xffff) else 0)"
definition enumTypeId :: "u64 \<Rightarrow> u16" where
  "enumTypeId v = ucast (drop_bit 16 (v AND 0xffff0000))"
definition asType_code :: "u64 \<Rightarrow> u64" where "asType_code v = v AND NOT (QNAN OR TypeTag)"
definition asControl :: "u64 \<Rightarrow> u64" where
  "asControl v = v AND NOT (SignBit OR QNAN OR WeakMask OR ConstMask)"

text \<open>
  The heap is read through functions: \<open>target\<close> gives a control block's object, \<open>control\<close> an object's
  control block, \<open>isSignal\<close> tells signal objects.
\<close>

definition asObj :: "(u64 \<Rightarrow> u64) \<Rightarrow> u64 \<Rightarrow> u64" where
  "asObj target v = (if isWeak v then target (asControl v) else asControl v)"

definition weakRef :: "(u64 \<Rightarrow> u64) \<Rightarrow> (u64 \<Rightarrow> u64) \<Rightarrow> u64 \<Rightarrow> u64" where
  "weakRef control target v =
     (if \<not> isObj v then v else SignBit OR QNAN OR WeakMask OR control (asObj target v))"
definition constRef :: "(u64 \<Rightarrow> bool) \<Rightarrow> u64 \<Rightarrow> u64" where
  "constRef isSignal v =
     (if \<not> isObj v then v else if isConst v then v else if isSignal v then v else v OR ConstMask)"
definition mutableRef :: "u64 \<Rightarrow> u64" where
  "mutableRef v = (if \<not> isObj v then v else if \<not> isConst v then v else v AND NOT ConstMask)"

section \<open>Bits of the layout\<close>

lemmas layout_defs = QNAN_def SignBit_def WeakMask_def ConstMask_def TypeTagOffset_def TypeTag_def
  tag_of_def TagNil_def TagFalse_def TagTrue_def TagByte_def TagInt_def TagEnum_def TagType_def

lemma qnan_bits: "QNAN = push_bit 50 (mask 13)"
  by (simp add: QNAN_def push_bit_eq_mult mask_eq_exp_minus_1)

lemma sign_bits: "SignBit = push_bit 63 1"
  by (simp add: SignBit_def push_bit_eq_mult)

lemma tag_bits: "TypeTag = push_bit 46 (mask 4)"
  by (simp add: TypeTag_def TypeTagOffset_def mask_eq_exp_minus_1 push_bit_eq_mult)

lemma header_bits: "SignBit OR QNAN OR TypeTag = push_bit 46 (mask 18)"
  by (simp add: layout_defs push_bit_eq_mult mask_eq_exp_minus_1)

lemma obj_bits: "QNAN OR SignBit = push_bit 50 (mask 14)" "SignBit OR QNAN = push_bit 50 (mask 14)"
  by (simp_all add: layout_defs push_bit_eq_mult mask_eq_exp_minus_1)

lemma and_high:
  fixes v :: u64
  assumes "k + n = 64"
  shows "v AND push_bit k (mask n) = push_bit k (drop_bit k v)"
proof (rule bit_eqI)
  fix i assume "possible_bit TYPE(u64) i"
  then have "i < 64" by simp
  then show "bit (v AND push_bit k (mask n)) i = bit (push_bit k (drop_bit k v)) i"
    using assms by (auto simp: bit_simps)
qed

lemma drop_header:
  assumes "unat (w :: u64) < 2 ^ 46"
  shows "drop_bit 46 (push_bit 46 h OR w) = take_bit 18 h" "take_bit 46 (push_bit 46 h OR w) = w"
proof -
  have w: "take_bit 46 w = w"
    using assms by (rule take_bit_small)
  show "drop_bit 46 (push_bit 46 h OR w) = take_bit 18 h"
    by (subst w [symmetric]) (auto intro!: bit_eqI simp: bit_simps)
  show "take_bit 46 (push_bit 46 h OR w) = w"
    by (subst (2) w [symmetric], subst w [symmetric]) (auto intro!: bit_eqI simp: bit_simps)
qed


text \<open>The top 18 bits decide the kind of a word; 17 of them are the sign and the quiet-NaN bits.\<close>

definition header :: "u64 \<Rightarrow> nat" where "header v = unat v div 2 ^ 46"

lemma unat_push:
  fixes a :: u64
  assumes "k \<le> 64" "unat a < 2 ^ (64 - k)"
  shows "unat (push_bit k a) = unat a * 2 ^ k"
proof -
  have "unat a * 2 ^ k < 2 ^ (64 - k) * 2 ^ k" using assms(2) by simp
  also have "\<dots> = 2 ^ 64" using assms(1) by (simp flip: power_add)
  finally have "unat a * 2 ^ k < 2 ^ 64" .
  then show ?thesis
    by (simp only: unsigned_push_bit_eq) (simp add: push_bit_eq_mult take_bit_nat_eq_self)
qed

lemma unat_drop:
  fixes v :: u64
  shows "unat (drop_bit k v) = unat v div 2 ^ k"
proof -
  have "unat v < 2 ^ 64" using unsigned_less [of v, where ?'a = nat] by simp
  then have "take_bit LENGTH(64) (unat v) = unat v" by (simp add: take_bit_nat_eq_self)
  then show ?thesis unfolding unsigned_drop_bit_eq by (simp only: drop_bit_eq_div)
qed

lemma push_drop_eq:
  fixes v :: u64
  assumes "k \<le> 64" "unat c < 2 ^ (64 - k)"
  shows "push_bit k (drop_bit k v) = push_bit k c \<longleftrightarrow> unat v div 2 ^ k = unat c"
proof -
  have "unat v < 2 ^ (64 - k) * 2 ^ k"
    using unsigned_less [of v, where ?'a = nat] assms(1) by (simp flip: power_add)
  then have "unat (drop_bit k v) < 2 ^ (64 - k)"
    unfolding unat_drop by (rule less_mult_imp_div_less)
  then show ?thesis
    using assms by (simp add: word_unat_eq_iff unat_push unat_drop)
qed

lemma header_field:
  "v AND (SignBit OR QNAN OR TypeTag) = push_bit 46 c \<longleftrightarrow> header v = unat c" if "unat c < 2 ^ 18"
  unfolding header_bits and_high [of 46 18, simplified] header_def
  using that by (subst push_drop_eq) simp_all

lemma tagged:
  "QNAN OR TagNil = push_bit 46 0x1fff1" "QNAN OR TagFalse = push_bit 46 0x1fff2"
  "QNAN OR TagTrue = push_bit 46 0x1fff3" "QNAN OR TagByte = push_bit 46 0x1fff5"
  "QNAN OR TagInt = push_bit 46 0x1fff6" "QNAN OR TagEnum = push_bit 46 0x1fff9"
  "QNAN OR TagType = push_bit 46 0x1fffa"
  by (simp_all add: layout_defs push_bit_eq_mult)

lemma kind_headers:
  "isByte v \<longleftrightarrow> header v = 0x1fff5" "isInt v \<longleftrightarrow> header v = 0x1fff6"
  "isEnum v \<longleftrightarrow> header v = 0x1fff9" "isType v \<longleftrightarrow> header v = 0x1fffa"
  unfolding isByte_def isInt_def isEnum_def isType_def tagged by (subst header_field; simp)+

lemma nil_header: "isNil v \<Longrightarrow> header v = 0x1fff1"
  unfolding isNil_def tagged by (simp add: header_def)

lemma flag_set: "bit (v :: u64) k \<Longrightarrow> v OR push_bit k 1 = v"
  by (auto intro!: bit_eqI simp: bit_simps)

lemma flag_clear: "\<not> bit (v :: u64) k \<Longrightarrow> (v OR push_bit k 1) AND NOT (push_bit k 1) = v"
  by (auto intro!: bit_eqI simp: bit_simps)

lemma bool_header: "isBool v \<longleftrightarrow> v = push_bit 46 0x1fff2 \<or> v = push_bit 46 0x1fff3"
proof
  assume "isBool v"
  then have o: "v OR push_bit 46 1 = push_bit 46 0x1fff3"
    by (simp add: isBool_def tagged TypeTagOffset_def)
  show "v = push_bit 46 0x1fff2 \<or> v = push_bit 46 0x1fff3"
  proof (cases "bit v 46")
    case True
    then have "v OR push_bit 46 1 = v" by (rule flag_set)
    with o show ?thesis by simp
  next
    case False
    then have "v = (v OR push_bit 46 1) AND NOT (push_bit 46 1)"
      by (rule flag_clear [symmetric])
    also have "\<dots> = push_bit 46 0x1fff2" unfolding o by (simp add: push_bit_eq_mult)
    finally show ?thesis by blast
  qed
next
  assume "v = push_bit 46 0x1fff2 \<or> v = push_bit 46 0x1fff3"
  then show "isBool v"
    by (auto simp: isBool_def tagged TypeTagOffset_def push_bit_eq_mult SignBit_def)
qed

lemma div_header: "unat (v :: u64) div 2 ^ 50 = header v div 16"
  by (simp add: header_def flip: div_mult2_eq)

lemma obj_header: "isObj v \<longleftrightarrow> header v div 16 = 0x3fff"
proof -
  have "unat (mask 14 :: u64) = 0x3fff" by (simp add: mask_eq_exp_minus_1)
  then show ?thesis
    unfolding isObj_def obj_bits and_high [of 50 14, simplified]
    by (subst push_drop_eq) (simp_all add: div_header [simplified])
qed

lemma real_header: "isReal v \<longleftrightarrow> header v div 16 mod 0x2000 \<noteq> 0x1fff"
proof -
  let ?h = "take_bit 13 (drop_bit 50 v)"
  have "v AND push_bit 50 (mask 13) = push_bit 50 ?h"
  proof (rule bit_eqI)
    fix i assume "possible_bit TYPE(u64) i"
    then have "i < 64" by simp
    then show "bit (v AND push_bit 50 (mask 13)) i = bit (push_bit 50 ?h) i"
      by (auto simp: bit_simps)
  qed
  moreover have h: "unat ?h = header v div 16 mod 0x2000"
    unfolding unsigned_take_bit_eq unat_drop div_header by (simp add: take_bit_eq_mod)
  moreover have "unat (mask 13 :: u64) = 0x1fff" by (simp add: mask_eq_exp_minus_1)
  moreover have "unat ?h < 2 ^ 14" unfolding h by simp
  ultimately show ?thesis
    unfolding isReal_def qnan_bits
    by (simp add: word_unat_eq_iff unat_push)
qed

lemma header_bound: "header v < 2 ^ 18"
  unfolding header_def using unsigned_less [of v, where ?'a = nat]
  by (intro less_mult_imp_div_less) simp


lemma header_tagged:
  assumes "unat w < 2 ^ 46" "unat h < 2 ^ 18"
  shows "header (push_bit 46 h OR w) = unat h"
proof -
  have "take_bit 18 h = h" using assms(2) by (rule take_bit_small)
  then have "drop_bit 46 (push_bit 46 h OR w) = h" using drop_header(1) [OF assms(1)] by simp
  then show ?thesis unfolding header_def by (metis unat_drop)
qed

lemma payload_tagged:
  fixes w h :: u64
  assumes "unat w < 2 ^ 46" "unat h < 2 ^ 17"
  shows "(push_bit 46 h OR w) AND NOT (QNAN OR TypeTag) = w"
proof -
  have w: "bit w i \<Longrightarrow> i < 46" for i
    using take_bit_small [OF assms(1)] by (metis bit_take_bit_iff)
  have h: "bit h i \<Longrightarrow> i < 17" for i
    using take_bit_small [OF assms(2)] by (metis bit_take_bit_iff)
  have m: "QNAN OR TypeTag = push_bit 46 (mask 17)"
    by (simp add: layout_defs mask_eq_exp_minus_1 push_bit_eq_mult)
  show ?thesis
    unfolding m
  proof (rule bit_eqI)
    fix i assume "possible_bit TYPE(u64) i"
    then have "i < 64" by simp
    then show "bit ((push_bit 46 h OR w) AND NOT (push_bit 46 (mask 17))) i = bit w i"
      using w [of i] h [of "i - 46"] by (auto simp: bit_simps)
  qed
qed

lemma low_and:
  fixes w h :: u64
  assumes "k \<le> 46"
  shows "(push_bit 46 h OR w) AND mask k = w AND mask k"
proof (rule bit_eqI)
  fix i assume "possible_bit TYPE(u64) i"
  then have "i < 64" by simp
  then show "bit ((push_bit 46 h OR w) AND mask k) i = bit (w AND mask k) i"
    using assms by (auto simp: bit_simps)
qed

lemma unat_up:
  "unat (ucast (b :: byte) :: u64) = unat b" "unat (ucast (i :: u32) :: u64) = unat i"
  "unat (ucast (s :: u16) :: u64) = unat s"
  using unsigned_less [of b, where ?'a = nat] unsigned_less [of i, where ?'a = nat]
    unsigned_less [of s, where ?'a = nat]
  by (simp_all add: unat_ucast_small)

lemma byteVal_box: "isByte (byteVal b)" "asByte_word (byteVal b) = b"
proof -
  have b: "unat b < 256" using unsigned_less [of b, where ?'a = nat] by simp
  have v: "byteVal b = push_bit 46 0x1fff5 OR ucast b"
    by (simp only: byteVal_def tagged or.assoc [symmetric])
  show "isByte (byteVal b)"
    unfolding kind_headers v using b by (subst header_tagged) (simp_all add: unat_up)
  have "(0xff :: u64) = mask 8" by (simp add: mask_eq_exp_minus_1)
  moreover have "ucast (ucast b AND mask 8 :: u64) = b"
    using b by (simp add: word_unat_eq_iff unat_ucast_small unat_and_mask unat_up)
  ultimately show "asByte_word (byteVal b) = b"
    unfolding asByte_word_def v by (simp only: low_and)
qed

lemma int32Val_box: "isInt (int32Val i)" "asIntUnchecked (int32Val i) = sint i"
proof -
  have i: "unat i < 2 ^ 32" using unsigned_less [of i, where ?'a = nat] by simp
  have v: "int32Val i = push_bit 46 0x1fff6 OR ucast i"
    by (simp only: int32Val_def tagged or.assoc [symmetric])
  show "isInt (int32Val i)"
    unfolding kind_headers v using i by (subst header_tagged) (simp_all add: unat_up)
  have "int32Val i AND NOT (QNAN OR TypeTag) = ucast i"
    unfolding v using i by (subst payload_tagged) (simp_all add: unat_up)
  moreover have "ucast (ucast i :: u64) = i"
    using i by (simp add: word_unat_eq_iff unat_ucast_small unat_up)
  ultimately show "asIntUnchecked (int32Val i) = sint i" by (simp add: asIntUnchecked_def)
qed

lemma typeVal_box: "isType (typeVal t)" "asType_code (typeVal t) = word_of_nat (value_type_code t)"
proof -
  have c: "value_type_code t < 256" by (cases t) simp_all
  then have c': "unat (word_of_nat (value_type_code t) :: u64) = value_type_code t"
    by (simp add: unat_of_nat)
  have v: "typeVal t = push_bit 46 0x1fffa OR word_of_nat (value_type_code t)"
    by (simp only: typeVal_def tagged or.assoc [symmetric])
  show "isType (typeVal t)"
    unfolding kind_headers v using c c' by (subst header_tagged) simp_all
  show "asType_code (typeVal t) = word_of_nat (value_type_code t)"
    unfolding asType_code_def v using c c' by (subst payload_tagged) simp_all
qed

lemma boolVal_box: "isBool (boolVal b)" "asBool_word (boolVal b) = b"
  by (auto simp: bool_header boolVal_def asBool_word_def tagged push_bit_eq_mult)


definition enum_payload :: "u16 \<Rightarrow> u16 \<Rightarrow> u64" where
  "enum_payload l t = mask 32 AND (scast l OR push_bit 16 (ucast t))"

lemma enumVal_tagged: "enumVal l t = push_bit 46 0x1fff9 OR enum_payload l t"
proof -
  have "(0xffffffff :: u64) = mask 32" by (simp add: mask_eq_exp_minus_1)
  then show ?thesis by (simp only: enumVal_def enum_payload_def tagged or.assoc [symmetric])
qed

lemma enum_payload_small: "unat (enum_payload l t) < 2 ^ 32"
  unfolding enum_payload_def by (subst and.commute) (simp only: unat_and_mask, simp)

lemma enum_payload_bits:
  "i < 16 \<Longrightarrow> bit (enum_payload l t) i \<longleftrightarrow> bit l i"
  "i < 16 \<Longrightarrow> bit (enum_payload l t) (i + 16) \<longleftrightarrow> bit l 15 \<or> bit t i"
  by (cases "i = 15"; auto simp: enum_payload_def bit_simps min_def)+

lemma u16_eqI: "(\<And>i. i < 16 \<Longrightarrow> bit a i = bit b i) \<Longrightarrow> a = (b :: u16)"
  by (rule bit_word_eqI) simp

lemma enumVal_box:
  "isEnum (enumVal l t)" "asEnum (enumVal l t) = l"
  "enumTypeId (enumVal l t) = (if sint l < 0 then 0xffff else t)"
proof -
  have p: "unat (enum_payload l t) < 2 ^ 46" using enum_payload_small [of l t] by simp
  show e: "isEnum (enumVal l t)"
    unfolding kind_headers enumVal_tagged using p by (subst header_tagged) simp_all
  have m: "(0xffff :: u64) = mask 16" "(0xffff0000 :: u64) = push_bit 16 (mask 16)"
    "(0xffff :: u16) = mask 16"
    by (simp_all add: mask_eq_exp_minus_1 push_bit_eq_mult)
  have "ucast (enum_payload l t AND mask 16) = l"
    by (rule u16_eqI) (simp add: bit_simps enum_payload_bits)
  then show "asEnum (enumVal l t) = l"
    using e by (simp only: asEnum_def if_True m enumVal_tagged low_and [of 16, simplified])
  have hi: "drop_bit 16 ((push_bit 46 h OR enum_payload l t) AND push_bit 16 (mask 16))
      = drop_bit 16 (enum_payload l t) AND mask 16" for h
    by (rule bit_eqI) (auto simp: bit_simps)
  have neg: "sint l < 0 \<longleftrightarrow> bit l 15" using bit_last_iff [of l] by simp
  have "ucast (drop_bit 16 (enum_payload l t) AND mask 16) = (if bit l 15 then mask 16 else t)"
    by (rule u16_eqI) (auto simp: bit_simps enum_payload_bits add.commute [of 16])
  then show "enumTypeId (enumVal l t) = (if sint l < 0 then 0xffff else t)"
    unfolding enumTypeId_def m enumVal_tagged hi neg by simp
qed

lemma ref_word:
  assumes "unat p < 2 ^ 48"
  shows "bit p i \<Longrightarrow> i < 48"
  using take_bit_small [OF assms] by (metis bit_take_bit_iff)

lemma ref_bits:
  "SignBit OR QNAN OR p = push_bit 50 (mask 14) OR p"
  "SignBit OR QNAN OR WeakMask OR ConstMask = push_bit 48 (mask 16)"
  by (simp_all only: obj_bits or.assoc [symmetric])
    (simp add: layout_defs push_bit_eq_mult mask_eq_exp_minus_1)

lemma flag_bit: "v AND push_bit k 1 \<noteq> 0 \<longleftrightarrow> bit v k" for v :: u64
  using bit_iff_and_push_bit_not_eq_0 [of v k] by simp


section \<open>References\<close>

lemma objRef_word:
  assumes "p \<noteq> 0" "unat p < 2 ^ 48"
  shows "isObj (objRef p)" "\<not> isWeak (objRef p)" "\<not> isConst (objRef p)" "asControl (objRef p) = p"
proof -
  have v: "objRef p = push_bit 50 (mask 14) OR p" using assms(1) by (simp add: objRef_def ref_bits(1))
  note p = ref_word [OF assms(2)]
  have "push_bit 50 (mask 14) AND (push_bit 50 (mask 14) OR p) = push_bit 50 (mask 14)"
    by (rule bit_eqI) (auto simp: bit_simps)
  then show o: "isObj (objRef p)" unfolding isObj_def obj_bits v by (simp add: and.commute)
  show "\<not> isWeak (objRef p)" "\<not> isConst (objRef p)"
    unfolding isWeak_def isConst_def WeakMask_def ConstMask_def flag_bit v
    using p [of 49] p [of 48] by (auto simp: bit_simps)
  show "asControl (objRef p) = p"
    unfolding asControl_def ref_bits(2) v
  proof (rule bit_eqI)
    fix i assume "possible_bit TYPE(u64) i"
    then have "i < 64" by simp
    then show "bit ((push_bit 50 (mask 14) OR p) AND NOT (push_bit 48 (mask 16))) i = bit p i"
      using p [of i] by (auto simp: bit_simps)
  qed
qed

lemma flag_masked:
  fixes v m :: u64
  assumes "\<not> bit m k"
  shows "(v OR push_bit k 1) AND m = v AND m" "(v AND NOT (push_bit k 1)) AND m = v AND m"
  using assms by (auto intro!: bit_eqI simp: bit_simps)

lemma flag_bits:
  fixes v :: u64
  assumes "k < 64"
  shows "bit (v OR push_bit k 1) i \<longleftrightarrow> bit v i \<or> i = k"
    "bit (v AND NOT (push_bit k 1)) i \<longleftrightarrow> bit v i \<and> i \<noteq> k"
  using assms by (auto simp: bit_simps dest: bit_imp_le_length)

lemma asControl_flags:
  "asControl (v OR ConstMask) = asControl v" "asControl (v AND NOT ConstMask) = asControl v"
proof -
  have m: "\<not> bit (NOT (push_bit 48 (mask 16)) :: u64) 48" by (simp add: bit_simps)
  show "asControl (v OR ConstMask) = asControl v" "asControl (v AND NOT ConstMask) = asControl v"
    unfolding asControl_def ref_bits(2) unfolding ConstMask_def by (simp_all only: flag_masked [OF m])
qed

lemma isObj_flags:
  "isObj (v OR ConstMask) = isObj v" "isObj (v AND NOT ConstMask) = isObj v"
proof -
  have m: "\<not> bit (push_bit 50 (mask 14) :: u64) 48" by (simp add: bit_simps)
  show "isObj (v OR ConstMask) = isObj v" "isObj (v AND NOT ConstMask) = isObj v"
    unfolding isObj_def obj_bits ConstMask_def by (simp_all only: flag_masked [OF m])
qed

lemma isConst_bit: "isConst v \<longleftrightarrow> bit v 48 \<and> isObj v"
  unfolding isConst_def ConstMask_def flag_bit isObj_def obj_bits ..

lemma isWeak_bit: "isWeak v \<longleftrightarrow> bit v 49 \<and> isObj v"
  unfolding isWeak_def WeakMask_def flag_bit isObj_def obj_bits ..

lemma const_bits:
  "bit (v OR ConstMask) 48" "\<not> bit (v AND NOT ConstMask) 48"
  "bit (v OR ConstMask) 49 = bit v 49" "bit (v AND NOT ConstMask) 49 = bit v 49"
  using flag_bits [of 48 v] by (simp_all only: ConstMask_def) simp_all

section \<open>Properties\<close>

text \<open>
  A word has at most one kind: the seven immediate predicates and the object predicate are
  pairwise exclusive on every 64-bit pattern, and only objects are weak or const.
\<close>

theorem value_kinds_exclusive:
  "length (filter (\<lambda>p. p v) [isNil, isBool, isByte, isInt, isReal, isEnum, isType, isObj]) \<le> 1
   \<and> (isWeak v \<longrightarrow> isObj v) \<and> (isConst v \<longrightarrow> isObj v) \<and> (isPrimitive v \<longrightarrow> \<not> isObj v)"
proof -
  have b: "isBool v \<Longrightarrow> header v = 0x1fff2 \<or> header v = 0x1fff3"
    by (auto simp: bool_header header_def push_bit_eq_mult)
  note n = nil_header [of v]
  have x: "(isNil v \<longrightarrow> \<not> isBool v) \<and> (isNil v \<or> isBool v \<longrightarrow>
      \<not> isByte v \<and> \<not> isInt v \<and> \<not> isReal v \<and> \<not> isEnum v \<and> \<not> isType v \<and> \<not> isObj v)"
    using b n by (auto simp: kind_headers real_header obj_header)
  have y: "(isReal v \<longrightarrow> \<not> isByte v \<and> \<not> isInt v \<and> \<not> isEnum v \<and> \<not> isType v \<and> \<not> isObj v)
      \<and> (isObj v \<longrightarrow> \<not> isByte v \<and> \<not> isInt v \<and> \<not> isEnum v \<and> \<not> isType v)"
    by (auto simp: kind_headers real_header obj_header)
  have z: "length (filter (\<lambda>p. p v) [isByte, isInt, isEnum, isType]) \<le> 1"
    by (auto simp: kind_headers)
  show ?thesis
    using x y z by (auto simp: isPrimitive_def isWeak_bit isConst_bit split: if_splits)
qed

theorem value_kinds_exclusive_witness: "\<not> isObj (intVal (\<lambda>_. 0) 7)"
proof -
  have "isPrimitive (intVal (\<lambda>_. 0) 7)"
    using int32Val_box(1) [of 7] by (simp add: isPrimitive_def intVal_def fitsInInt32_def)
  then show ?thesis using value_kinds_exclusive [of "intVal (\<lambda>_. 0) 7"] by blast
qed

text \<open>
  Boxing loses nothing: every immediate constructor builds a word of its own kind from which
  the accessor reads the original back, an integer that fits 32 bits included; and an enum word
  keeps its label.
\<close>

theorem value_immediates_roundtrip:
  "isNil nilVal \<and> isBool (boolVal b) \<and> asBool_word (boolVal b) = b
   \<and> isByte (byteVal y) \<and> asByte_word (byteVal y) = y
   \<and> (fitsInInt32 i \<longrightarrow> isInt (intVal alloc i) \<and> asIntUnchecked (intVal alloc i) = i)
   \<and> isType (typeVal t) \<and> asType_code (typeVal t) = word_of_nat (value_type_code t)
   \<and> isEnum (enumVal l e) \<and> asEnum (enumVal l e) = l"
proof -
  have "fitsInInt32 i \<Longrightarrow> sint (word_of_int i :: u32) = i"
    by (subst sint_sbintrunc') (simp add: fitsInInt32_def signed_take_bit_int_eq_self)
  then show ?thesis
    by (simp add: isNil_def nilVal_def boolVal_box byteVal_box intVal_def int32Val_box typeVal_box
        enumVal_box(1,2))
qed

theorem value_immediates_roundtrip_witness: "asIntUnchecked (intVal (\<lambda>_. 0) (-5)) = -5"
proof -
  have "fitsInInt32 (-5)" by (simp add: fitsInInt32_def)
  then show ?thesis
    using value_immediates_roundtrip [of True 0 "-5" "\<lambda>_. 0" VNil 0 0] by blast
qed

text \<open>
  The type id of an enum value survives boxing only for labels that are not negative; a
  negative label is sign-extended over it, so every such value reports type id \<open>0xffff\<close>.
\<close>

theorem negative_enum_label_loses_type:
  "enumTypeId (enumVal l t) = (if sint l < 0 then 0xffff else t)"
  by (rule enumVal_box(3))

text \<open>
  Reference flags are transparent: for a non-null 48-bit address the reference is an unflagged
  object whose pointer reads back; \<open>constRef\<close> (of anything but a signal) is const, points to the
  same object and keeps the weak flag, and \<open>mutableRef\<close> undoes it exactly.
\<close>

theorem reference_flags:
  assumes "p \<noteq> 0" "unat p < 2 ^ 48" "\<not> isSignal (objRef p)"
  shows "isObj (objRef p) \<and> asObj target (objRef p) = p \<and> \<not> isWeak (objRef p) \<and> \<not> isConst (objRef p)
    \<and> isConst (constRef isSignal (objRef p)) \<and> \<not> isWeak (constRef isSignal (objRef p))
    \<and> asObj target (constRef isSignal (objRef p)) = p
    \<and> mutableRef (constRef isSignal (objRef p)) = objRef p"
proof -
  note o = objRef_word [OF assms(1,2)]
  have c: "constRef isSignal (objRef p) = objRef p OR ConstMask"
    using o assms(3) by (simp add: constRef_def)
  have undo: "(objRef p OR ConstMask) AND NOT ConstMask = objRef p"
    unfolding ConstMask_def using o(1,3) by (intro flag_clear) (simp add: isConst_bit)
  show ?thesis
    using o undo by (simp add: c asObj_def isConst_bit isWeak_bit const_bits isObj_flags asControl_flags mutableRef_def)
qed

theorem reference_flags_witness: "mutableRef (constRef (\<lambda>_. False) (objRef 0x1000)) = objRef 0x1000"
  using reference_flags [of "0x1000" "\<lambda>_. False" "\<lambda>c. c"] by simp

end
