(* ===== verification/Value_Codec.thy ===== *)
theory Value_Codec
  imports Value_Box
begin

text \<open>
  \<open>writeValue\<close> and \<open>readValue\<close> of \<open>compiler/Value.cpp\<close> without a serialization context (the default
  argument), for the immediate values and for strings, ranges and lists, whose payloads are written
  by \<open>ObjString\<close>, \<open>ObjRange\<close> and \<open>ObjList\<close> in \<open>compiler/Object.cpp\<close>.  Without a context every object
  is written by value, so values are trees.  Kinds outside this set end in \<open>Outside_Model\<close>.
  A field read into an uninitialised variable from a stream that has run out is \<open>Indeterminate\<close>.
\<close>

section \<open>Values\<close>

datatype rvalue =
  Imm u64
| Str ustring
| Range rvalue rvalue rvalue bool
| Packed "byte list"
| Boxed "rvalue list"

datatype value_error =
  Unable_To_Read_Type | Unsupported_Type nat | Indeterminate | No_Type_Discriminator
| No_Builtin_Type_Tag | No_Module_Reference | Module_Reference_Outside_Cache | Nesting_Too_Deep
| Outside_Model nat

section \<open>Writing\<close>

text \<open>The object header \<open>writeObjWithRef\<close> puts first: flag 1 and id 0 when there is no context.\<close>

definition obj_ref_header :: "byte list" where
  "obj_ref_header = le_bytes 1 1 @ le_bytes 8 0"

definition write_immediate :: "u64 \<Rightarrow> value_error + byte list" where
  "write_immediate v =
     (let t = word_type (\<lambda>_. 0) v; head = le_bytes 1 t in
      if t = value_type_code VNil then Inr head
      else if t = value_type_code VBool then Inr (head @ le_bytes 1 (if asBool_word v then 1 else 0))
      else if t = value_type_code VByte then Inr (head @ le_bytes 1 (unat (asByte_word v)))
      else if t = value_type_code VInt then
        Inr (head @ le_bytes 4 (unat (word_of_int (asIntUnchecked v) :: u32)))
      else if t = value_type_code VReal then Inr (head @ le_bytes 8 (unat v))
      else if t = value_type_code VEnum then
        Inr (head @ le_bytes 2 (unat (asEnum v)) @ le_bytes 2 (unat (enumTypeId v)))
      else if t = value_type_code VType then
        Inr (head @ le_bytes 1 0 @ le_bytes 1 (unat (asType_code v) mod 256))
      else Inl (Unsupported_Type t))"

fun collect :: "('e + 'a) list \<Rightarrow> 'e + 'a list" where
  "collect [] = Inr []"
| "collect (r # rs) = seq_then r (\<lambda>x. seq_then (collect rs) (\<lambda>xs. Inr (x # xs)))"

text \<open>The payloads after the object header: \<open>ObjString::write\<close>, \<open>ObjRange::write\<close>, \<open>ObjList::write\<close>.\<close>

definition string_payload :: "ustring \<Rightarrow> byte list" where
  "string_payload s = (let ss = encodeUTF8 s in le_bytes 4 (length ss mod 2 ^ 32) @ ss)"

definition range_payload :: "byte list \<Rightarrow> byte list \<Rightarrow> byte list \<Rightarrow> bool \<Rightarrow> byte list" where
  "range_payload a b c closed = a @ b @ c @ le_bytes 1 (if closed then 1 else 0)"

definition packed_payload :: "byte list \<Rightarrow> byte list" where
  "packed_payload bytes =
     le_bytes 4 (unat (word_of_nat (length bytes) OR 0x80000000 :: u32)) @ bytes"

definition boxed_payload :: "nat \<Rightarrow> byte list list \<Rightarrow> byte list" where
  "boxed_payload len bss = le_bytes 4 (len mod 2 ^ 32) @ concat bss"

fun write_value :: "rvalue \<Rightarrow> value_error + byte list" where
  "write_value (Imm v) = write_immediate v"
| "write_value (Str s) =
     Inr (le_bytes 1 (value_type_code VString) @ obj_ref_header @ string_payload s)"
| "write_value (Range start stop step closed) =
     seq_then (write_value start) (\<lambda>a. seq_then (write_value stop) (\<lambda>b.
     seq_then (write_value step) (\<lambda>c.
       Inr (le_bytes 1 (value_type_code VRange) @ obj_ref_header @ range_payload a b c closed))))"
| "write_value (Packed bytes) =
     Inr (le_bytes 1 (value_type_code VList) @ obj_ref_header @ packed_payload bytes)"
| "write_value (Boxed elts) =
     seq_then (collect (map write_value elts)) (\<lambda>bss.
       Inr (le_bytes 1 (value_type_code VList) @ obj_ref_header @ boxed_payload (length elts) bss))"

section \<open>Reading\<close>

definition read_field :: "nat \<Rightarrow> istream \<Rightarrow> value_error + (nat \<times> istream)" where
  "read_field n s =
     (case in_read n s of (bs, s') \<Rightarrow> if failbit s' then Inl Indeterminate else Inr (le_nat bs, s'))"

text \<open>\<open>in.read\<close> into a buffer of \<open>n\<close> zero bytes, with nothing checked afterwards.\<close>

definition read_buffer :: "nat \<Rightarrow> istream \<Rightarrow> byte list \<times> istream" where
  "read_buffer n s =
     (if n = 0 then ([], s)
      else (case in_read n s of (bs, s') \<Rightarrow> (bs @ replicate (n - length bs) 0, s')))"

definition read_obj_ref :: "istream \<Rightarrow> value_error + (nat \<times> istream)" where
  "read_obj_ref s = seq_then (read_field 1 s) (\<lambda>(flag, s1). read_field 8 s1)"

definition is_byte_value :: "rvalue \<Rightarrow> bool" where
  "is_byte_value v = (case v of Imm w \<Rightarrow> isByte w | _ \<Rightarrow> False)"

definition byte_of_value :: "rvalue \<Rightarrow> byte" where
  "byte_of_value v = (case v of Imm w \<Rightarrow> asByte_word w | _ \<Rightarrow> 0)"

definition allBytes :: "rvalue list \<Rightarrow> bool" where
  "allBytes vs \<longleftrightarrow> list_all is_byte_value vs"

definition build_list :: "rvalue list \<Rightarrow> rvalue" where
  "build_list vs = (if allBytes vs then Packed (map byte_of_value vs) else Boxed vs)"

text \<open>\<open>ObjString::read\<close>, \<open>ObjRange::read\<close> and \<open>ObjList::read\<close>; \<open>rd\<close> reads an element.\<close>

definition read_string_payload :: "istream \<Rightarrow> value_error + (rvalue \<times> istream)" where
  "read_string_payload s = seq_then (read_field 4 s) (\<lambda>(len, s1).
     case read_buffer len s1 of (ss, s2) \<Rightarrow> Inr (Str (decodeUTF8 ss), s2))"

definition read_range_payload ::
  "(istream \<Rightarrow> value_error + (rvalue \<times> istream)) \<Rightarrow> istream \<Rightarrow> value_error + (rvalue \<times> istream)" where
  "read_range_payload rd s =
     seq_then (rd s) (\<lambda>(start, s1). seq_then (rd s1) (\<lambda>(stop, s2).
     seq_then (rd s2) (\<lambda>(step, s3). seq_then (read_field 1 s3) (\<lambda>(c, s4).
       Inr (Range start stop step (c \<noteq> 0), s4)))))"

definition read_list_payload ::
  "(istream \<Rightarrow> value_error + (rvalue \<times> istream)) \<Rightarrow> istream \<Rightarrow> value_error + (rvalue \<times> istream)" where
  "read_list_payload rd s =
     seq_then (read_field 4 s) (\<lambda>(raw, s1).
       if (word_of_nat raw :: u32) AND 0x80000000 \<noteq> 0 then
         (case read_buffer (unat ((word_of_nat raw :: u32) AND 0x7fffffff)) s1 of (pk, s2) \<Rightarrow>
            Inr (Packed pk, s2))
       else seq_then (read_n raw rd s1) (\<lambda>(tmp, s2). Inr (build_list tmp, s2)))"

text \<open>
  \<open>readValue\<close> after the type byte: \<open>rd\<close> is the recursive call, \<open>t\<close> the type.  The first argument of
  \<open>read_value\<close> bounds the nesting of ranges and lists.
\<close>

definition read_payload ::
  "(istream \<Rightarrow> value_error + (rvalue \<times> istream)) \<Rightarrow> nat \<Rightarrow> istream
   \<Rightarrow> value_error + (rvalue \<times> istream)" where
  "read_payload rd t s =
    (if t = value_type_code VNil then Inr (Imm nilVal, s)
    else if t = value_type_code VBool then
      seq_then (read_field 1 s) (\<lambda>(b, s2). Inr (Imm (boolVal (b \<noteq> 0)), s2))
    else if t = value_type_code VByte then
      seq_then (read_field 1 s) (\<lambda>(b, s2). Inr (Imm (byteVal (word_of_nat b)), s2))
    else if t = value_type_code VInt then
      seq_then (read_field 4 s) (\<lambda>(i, s2). Inr (Imm (int32Val (word_of_nat i)), s2))
    else if t = value_type_code VReal then
      seq_then (read_field 8 s) (\<lambda>(d, s2). Inr (Imm (realVal (word_of_nat d)), s2))
    else if t = value_type_code VEnum then
      seq_then (read_field 2 s) (\<lambda>(v, s2). seq_then (read_field 2 s2) (\<lambda>(i, s3).
        Inr (Imm (enumVal (word_of_nat v) (word_of_nat i)), s3)))
    else if t = value_type_code VType then
      (case in_read 1 s of (d, s2) \<Rightarrow>
       if failbit s2 then Inl No_Type_Discriminator
       else if le_nat d = 0 then
         (case in_read 1 s2 of (b, s3) \<Rightarrow>
          if failbit s3 then Inl No_Builtin_Type_Tag
          else Inr (Imm (QNAN OR TagType OR word_of_nat (le_nat b)), s3))
       else if le_nat d = 2 then
         (case in_read 4 s2 of (i, s3) \<Rightarrow>
          if failbit s3 then Inl No_Module_Reference else Inl Module_Reference_Outside_Cache)
       else Inl (Outside_Model t))
    else if t = value_type_code VString then
      seq_then (read_obj_ref s) (\<lambda>(i, s2). read_string_payload s2)
    else if t = value_type_code VRange then
      seq_then (read_obj_ref s) (\<lambda>(i, s2). read_range_payload rd s2)
    else if t = value_type_code VList then
      seq_then (read_obj_ref s) (\<lambda>(i, s2). read_list_payload rd s2)
    else if t \<in> set (map value_type_code [VDict, VVector, VMatrix, VSignal, VTensor, VOrient,
        VObject, VActor, VFunction, VClosure, VUpvalue, VBoxed]) then Inl (Outside_Model t)
    else Inl (Unsupported_Type t))"

fun read_value :: "nat \<Rightarrow> istream \<Rightarrow> value_error + (rvalue \<times> istream)" where
  "read_value 0 s = Inl Nesting_Too_Deep"
| "read_value (Suc n) s =
     (case in_read 1 s of (tb, s1) \<Rightarrow>
      if failbit s1 then Inl Unable_To_Read_Type else read_payload (read_value n) (le_nat tb) s1)"

section \<open>Kinds of words\<close>

lemma bool_word_header: "isBool v \<Longrightarrow> header v = 0x1fff2 \<or> header v = 0x1fff3"
  by (auto simp: bool_header header_def push_bit_eq_mult)

lemma tag_field: "unat (drop_bit TypeTagOffset (v AND TypeTag)) = header v mod 16"
proof -
  have "drop_bit 46 (v AND push_bit 46 (mask 4)) = take_bit 4 (drop_bit 46 v)"
    by (rule bit_eqI) (auto simp: bit_simps)
  moreover have "unat (take_bit 4 (drop_bit 46 v)) = header v mod 16"
    unfolding unsigned_take_bit_eq unat_drop header_def by (simp add: take_bit_eq_mod)
  ultimately show ?thesis by (simp add: TypeTagOffset_def tag_bits)
qed

lemma word_type_kinds:
  "isNil v \<Longrightarrow> word_type h v = 1" "isBool v \<Longrightarrow> word_type h v = 4"
  "isByte v \<Longrightarrow> word_type h v = 5" "isInt v \<Longrightarrow> word_type h v = 6"
  "isReal v \<Longrightarrow> word_type h v = 7" "isEnum v \<Longrightarrow> word_type h v = 9"
  "isType v \<Longrightarrow> word_type h v = 10"
  using nil_header [of v] bool_word_header [of v]
  by (auto simp: word_type_def tag_field kind_headers real_header obj_header simp del: drop_bit_and)

definition wf_immediate :: "u64 \<Rightarrow> bool" where
  "wf_immediate v \<longleftrightarrow>
     isNil v \<or> isBool v \<or> isReal v \<or> v = byteVal (asByte_word v)
     \<or> v = int32Val (word_of_int (asIntUnchecked v)) \<or> v = enumVal (asEnum v) (enumTypeId v)
     \<or> isType v \<and> v = (QNAN OR TagType OR word_of_nat (unat (asType_code v) mod 256))"

lemma read_field_good:
  "v < 256 ^ n \<Longrightarrow> read_field n (good_stream (le_bytes n v @ rest)) = Inr (v, good_stream rest)"
  by (simp add: read_field_def in_read_good)

lemma read_tag_good:
  "v < 256 \<Longrightarrow> in_read 1 (good_stream (le_bytes 1 v @ rest)) = (le_bytes 1 v, good_stream rest)"
  by (rule in_read_good) simp

lemma le_nat_tag: "v < 256 \<Longrightarrow> le_nat (le_bytes 1 v) = v"
  using le_nat_le_bytes_id [of v 1] by simp

lemmas read_good = read_tag_good le_nat_tag read_field_good

lemma unat_bounds:
  "unat (b :: byte) < 256" "unat (h :: u16) < 256 ^ 2" "unat (i :: u32) < 256 ^ 4"
  "unat (d :: u64) < 256 ^ 8"
  using unsigned_less [of b, where ?'a = nat] unsigned_less [of h, where ?'a = nat]
    unsigned_less [of i, where ?'a = nat] unsigned_less [of d, where ?'a = nat]
  by simp_all

lemma read_value_tag:
  assumes "t < 256"
  shows "read_value (Suc n) (good_stream (le_bytes 1 t @ r)) = read_payload (read_value n) t (good_stream r)"
  using assms by (simp add: read_tag_good le_nat_tag del: le_bytes.simps One_nat_def)

lemma read_payload_kinds:
  "read_payload rd (value_type_code VNil) s = Inr (Imm nilVal, s)"
  "read_payload rd (value_type_code VBool) s =
     seq_then (read_field 1 s) (\<lambda>(b, s2). Inr (Imm (boolVal (b \<noteq> 0)), s2))"
  "read_payload rd (value_type_code VByte) s =
     seq_then (read_field 1 s) (\<lambda>(b, s2). Inr (Imm (byteVal (word_of_nat b)), s2))"
  "read_payload rd (value_type_code VInt) s =
     seq_then (read_field 4 s) (\<lambda>(i, s2). Inr (Imm (int32Val (word_of_nat i)), s2))"
  "read_payload rd (value_type_code VReal) s =
     seq_then (read_field 8 s) (\<lambda>(d, s2). Inr (Imm (realVal (word_of_nat d)), s2))"
  "read_payload rd (value_type_code VEnum) s =
     seq_then (read_field 2 s) (\<lambda>(v, s2). seq_then (read_field 2 s2) (\<lambda>(i, s3).
        Inr (Imm (enumVal (word_of_nat v) (word_of_nat i)), s3)))"
  unfolding read_payload_def by simp_all

lemma write_immediate_kinds:
  "isNil v \<Longrightarrow> write_immediate v = Inr (le_bytes 1 (value_type_code VNil))"
  "isBool v \<Longrightarrow> write_immediate v
     = Inr (le_bytes 1 (value_type_code VBool) @ le_bytes 1 (if asBool_word v then 1 else 0))"
  "isByte v \<Longrightarrow> write_immediate v
     = Inr (le_bytes 1 (value_type_code VByte) @ le_bytes 1 (unat (asByte_word v)))"
  "isInt v \<Longrightarrow> write_immediate v = Inr (le_bytes 1 (value_type_code VInt)
     @ le_bytes 4 (unat (word_of_int (asIntUnchecked v) :: u32)))"
  "isReal v \<Longrightarrow> write_immediate v = Inr (le_bytes 1 (value_type_code VReal) @ le_bytes 8 (unat v))"
  "isEnum v \<Longrightarrow> write_immediate v = Inr (le_bytes 1 (value_type_code VEnum)
     @ le_bytes 2 (unat (asEnum v)) @ le_bytes 2 (unat (enumTypeId v)))"
  "isType v \<Longrightarrow> write_immediate v = Inr (le_bytes 1 (value_type_code VType)
     @ le_bytes 1 0 @ le_bytes 1 (unat (asType_code v) mod 256))"
  unfolding write_immediate_def Let_def
  by (simp_all only: word_type_kinds value_type_code.simps) simp_all


lemma word_back: "word_of_nat (unat w) = w"
  by (rule word_unat_eq_iff [THEN iffD2]) simp

lemma value_type_code_byte: "value_type_code t < 256"
  by (cases t) simp_all

lemma read_type_good:
  assumes "c < 256"
  shows "read_payload rd (value_type_code VType) (good_stream (le_bytes 1 0 @ le_bytes 1 c @ rest))
     = Inr (Imm (QNAN OR TagType OR word_of_nat c), good_stream rest)"
proof -
  have a: "in_read 1 (good_stream (le_bytes 1 0 @ le_bytes 1 c @ rest))
      = (le_bytes 1 0, good_stream (le_bytes 1 c @ rest))"
    by (rule read_tag_good) simp
  have b: "in_read 1 (good_stream (le_bytes 1 c @ rest)) = (le_bytes 1 c, good_stream rest)"
    using assms by (rule read_tag_good)
  have z: "le_nat (le_bytes 1 0) = 0" by (rule le_nat_tag) simp
  have c: "le_nat (le_bytes 1 c) = c" using assms by (rule le_nat_tag)
  have t: "value_type_code VType \<noteq> value_type_code v" if "v \<in> {VNil, VBool, VByte, VInt, VReal, VEnum}" for v
    using that by auto
  show ?thesis
    unfolding read_payload_def
    by (simp only: t insert_iff simp_thms if_False if_True a b z c prod.case good_stream_sel)
qed

definition reads_back :: "u64 \<Rightarrow> bool" where
  "reads_back v \<longleftrightarrow> (\<exists>bs. write_immediate v = Inr bs \<and>
    (\<forall>n rest. read_value (Suc n) (good_stream (bs @ rest)) = Inr (Imm v, good_stream rest)))"

lemma reads_backI:
  assumes "write_immediate v = Inr (le_bytes 1 (value_type_code t) @ p)"
    and "\<And>rd rest. read_payload rd (value_type_code t) (good_stream (p @ rest)) = Inr (Imm v, good_stream rest)"
  shows "reads_back v"
  unfolding reads_back_def
  by (intro exI conjI allI, rule assms(1))
    (simp only: append_assoc read_value_tag [OF value_type_code_byte] assms(2))

lemma enumVal_masked_id: "enumVal l (enumTypeId (enumVal l e)) = enumVal l e"
proof (cases "sint l < 0")
  case True
  have m: "(0xffff :: u16) = mask 16" by (simp add: mask_eq_exp_minus_1)
  have "enum_payload l (mask 16) = enum_payload l e"
  proof (rule bit_eqI)
    fix i assume "possible_bit TYPE(u64) i"
    then have "i < 64" by simp
    moreover have "bit l 15" using True bit_last_iff [of l] by simp
    ultimately show "bit (enum_payload l (mask 16)) i = bit (enum_payload l e) i"
      by (cases "i < 16") (auto simp: enum_payload_def bit_simps min_def)
  qed
  moreover have "enumTypeId (enumVal l e) = mask 16" unfolding m [symmetric] using True by (simp add: enumVal_box)
  ultimately show ?thesis by (simp only: enumVal_tagged)
qed (simp add: enumVal_box)

lemma immediate_roundtrip:
  assumes "wf_immediate v"
  shows "reads_back v"
proof -
  note payload = read_payload_kinds read_field_good append_assoc seq_then_simps prod.case
  consider "isNil v" | "isBool v" | "isReal v" | b where "v = byteVal b" | i where "v = int32Val i"
    | l e where "v = enumVal l e"
    | c where "isType v" "v = (QNAN OR TagType OR word_of_nat c)" "c = unat (asType_code v) mod 256"
    using assms unfolding wf_immediate_def by blast
  then show ?thesis
  proof cases
    case 1
    then have v: "v = nilVal" by (simp add: isNil_def nilVal_def)
    have w: "write_immediate v = Inr (le_bytes 1 (value_type_code VNil) @ [])"
      using write_immediate_kinds(1) [OF 1] by (simp only: append_Nil2)
    show ?thesis
      by (rule reads_backI [OF w]) (simp only: append_Nil payload v)
  next
    case 2
    then have b: "boolVal (asBool_word v) = v"
      by (auto simp: bool_header boolVal_def asBool_word_def tagged)
    show ?thesis
    proof (rule reads_backI [OF write_immediate_kinds(2) [OF 2]])
      fix rd rest
      show "read_payload rd (value_type_code VBool) (good_stream
          (le_bytes 1 (if asBool_word v then 1 else 0) @ rest)) = Inr (Imm v, good_stream rest)"
        using b by (cases "asBool_word v") (simp_all add: payload del: le_bytes.simps One_nat_def value_type_code.simps)
    qed
  next
    case 3
    show ?thesis
      by (rule reads_backI [OF write_immediate_kinds(5) [OF 3]])
        (simp add: payload unat_bounds(4) [of v, simplified] realVal_def del: value_type_code.simps)
  next
    case 4
    then have k: "isByte v" and a: "asByte_word v = b" by (simp_all add: byteVal_box)
    show ?thesis
      by (rule reads_backI [OF write_immediate_kinds(3) [OF k]])
        (use 4 unat_bounds(1) [of b] in \<open>simp add: payload byteVal_box del: le_bytes.simps One_nat_def value_type_code.simps\<close>)
  next
    case 5
    then have k: "isInt v" and a: "asIntUnchecked v = sint i" by (simp_all add: int32Val_box)
    show ?thesis
      by (rule reads_backI [OF write_immediate_kinds(4) [OF k]])
        (use 5 unat_bounds(3) [of i] in \<open>simp add: payload int32Val_box del: value_type_code.simps\<close>)
  next
    case 6
    then have k: "isEnum v" and a: "asEnum v = l" by (simp_all add: enumVal_box)
    have s: "enumVal l (enumTypeId v) = v" by (simp add: 6 enumVal_masked_id)
    have f: "read_field 2 (good_stream (le_bytes 2 (unat (h :: u16)) @ r)) = Inr (unat h, good_stream r)" for h r
      by (rule read_field_good [OF unat_bounds(2)])
    show ?thesis
      by (rule reads_backI [OF write_immediate_kinds(6) [OF k]])
        (simp only: read_payload_kinds append_assoc f seq_then_simps prod.case a word_back s)
  next
    case 7
    have c: "c < 256" by (subst 7(3)) simp
    show ?thesis
      by (rule reads_backI [OF write_immediate_kinds(7) [OF 7(1)]])
        (simp only: append_assoc 7(3) [symmetric] read_type_good [OF c] 7(2) [symmetric])
  qed
qed


section \<open>Trees\<close>

fun depth :: "rvalue \<Rightarrow> nat" where
  "depth (Imm v) = 0"
| "depth (Str s) = 0"
| "depth (Range a b c closed) = Suc (max (depth a) (max (depth b) (depth c)))"
| "depth (Packed bytes) = 0"
| "depth (Boxed vs) = Suc (foldr (\<lambda>v. max (depth v)) vs 0)"

fun wf_value :: "rvalue \<Rightarrow> bool" where
  "wf_value (Imm v) = wf_immediate v"
| "wf_value (Str s) = (paired s \<and> length (encodeUTF8 s) < 2 ^ 32)"
| "wf_value (Range a b c closed) = (wf_value a \<and> wf_value b \<and> wf_value c)"
| "wf_value (Packed bytes) = (length bytes < 2 ^ 31)"
| "wf_value (Boxed vs) = (length vs < 2 ^ 31 \<and> list_all wf_value vs)"

text \<open>A boxed list whose elements are all bytes comes back in the packed representation.\<close>

fun repack :: "rvalue \<Rightarrow> rvalue" where
  "repack (Range a b c closed) = Range (repack a) (repack b) (repack c) closed"
| "repack (Boxed vs) = build_list (map repack vs)"
| "repack v = v"

text \<open>A value with every packed list written out as the list of its byte values.\<close>

fun unpacked :: "rvalue \<Rightarrow> rvalue" where
  "unpacked (Range a b c closed) = Range (unpacked a) (unpacked b) (unpacked c) closed"
| "unpacked (Packed bytes) = Boxed (map (\<lambda>b. Imm (byteVal b)) bytes)"
| "unpacked (Boxed vs) = Boxed (map unpacked vs)"
| "unpacked v = v"

lemma repack_is_byte: "is_byte_value (repack v) \<Longrightarrow> repack v = v"
  by (cases v) (auto simp: is_byte_value_def build_list_def)

lemma byte_word:
  assumes "wf_immediate v" "isByte v"
  shows "byteVal (asByte_word v) = v"
proof -
  have h: "header v = 0x1fff5" using assms(2) by (simp add: kind_headers)
  have b: "isBool v \<Longrightarrow> header v = 0x1fff2 \<or> header v = 0x1fff3"
    by (auto simp: bool_header header_def push_bit_eq_mult)
  have "header (int32Val i) = 0x1fff6" "header (enumVal l e) = 0x1fff9" for i l e
    using int32Val_box(1) [of i] enumVal_box(1) [of l e] by (simp_all add: kind_headers)
  then have "v \<noteq> int32Val i" "v \<noteq> enumVal l e" for i l e using h by auto
  then show ?thesis
    using assms(1) h b nil_header [of v] by (auto simp: wf_immediate_def real_header kind_headers)
qed

lemma unpacked_byte: "wf_value v \<Longrightarrow> is_byte_value v \<Longrightarrow> Imm (byteVal (byte_of_value v)) = unpacked v"
  by (cases v) (auto simp: is_byte_value_def byte_of_value_def byte_word)

lemma unpacked_repack: "wf_value v \<Longrightarrow> unpacked (repack v) = unpacked v"
proof (induction v)
  case (Boxed vs)
  show ?case
  proof (cases "allBytes (map repack vs)")
    case True
    have "Imm (byteVal (byte_of_value (repack v))) = unpacked v" if "v \<in> set vs" for v
    proof -
      have b: "is_byte_value (repack v)" using True that by (simp add: allBytes_def list_all_iff)
      have "wf_value v" using Boxed.prems that by (simp add: list_all_iff)
      then show ?thesis using unpacked_byte b repack_is_byte [OF b] by simp
    qed
    then show ?thesis using True by (simp add: build_list_def)
  next
    case False
    then show ?thesis using Boxed by (simp add: build_list_def list_all_iff)
  qed
qed simp_all

definition decodes :: "rvalue \<Rightarrow> bool" where
  "decodes v \<longleftrightarrow> (\<exists>bs. write_value v = Inr bs \<and>
    (\<forall>n rest. depth v < n \<longrightarrow> read_value n (good_stream (bs @ rest)) = Inr (repack v, good_stream rest)))"

lemma read_obj_ref_good: "read_obj_ref (good_stream (obj_ref_header @ rest)) = Inr (0, good_stream rest)"
proof -
  have "read_field 1 (good_stream (le_bytes 1 1 @ r)) = Inr (1, good_stream r)"
    "read_field 8 (good_stream (le_bytes 8 0 @ r)) = Inr (0, good_stream r)" for r
    by (rule read_field_good, simp)+
  then show ?thesis
    unfolding read_obj_ref_def obj_ref_header_def append_assoc by (simp only: seq_then_simps prod.case)
qed

lemma read_buffer_good: "read_buffer (length bs) (good_stream (bs @ rest)) = (bs, good_stream rest)"
  by (auto simp: read_buffer_def in_read_good)

lemma read_objects:
  "read_payload rd (value_type_code VString) s =
     seq_then (read_obj_ref s) (\<lambda>(i, s2). seq_then (read_field 4 s2) (\<lambda>(len, s3).
        case read_buffer len s3 of (ss, s4) \<Rightarrow> Inr (Str (decodeUTF8 ss), s4)))"
  "read_payload rd (value_type_code VRange) s =
     seq_then (read_obj_ref s) (\<lambda>(i, s2).
      seq_then (rd s2) (\<lambda>(start, s3). seq_then (rd s3) (\<lambda>(stop, s4).
      seq_then (rd s4) (\<lambda>(step, s5). seq_then (read_field 1 s5) (\<lambda>(c, s6).
        Inr (Range start stop step (c \<noteq> 0), s6))))))"
  "read_payload rd (value_type_code VList) s =
     seq_then (read_obj_ref s) (\<lambda>(i, s2). seq_then (read_field 4 s2) (\<lambda>(raw, s3).
        if (word_of_nat raw :: u32) AND 0x80000000 \<noteq> 0 then
          (case read_buffer (unat ((word_of_nat raw :: u32) AND 0x7fffffff)) s3 of (pk, s4) \<Rightarrow>
             Inr (Packed pk, s4))
        else seq_then (read_n raw rd s3) (\<lambda>(tmp, s4). Inr (build_list tmp, s4))))"
  unfolding read_payload_def read_string_payload_def read_range_payload_def read_list_payload_def
  by simp_all

lemmas payload_defs = string_payload_def range_payload_def packed_payload_def boxed_payload_def

lemma marker_bits:
  assumes "n < 2 ^ 31"
  shows "(word_of_nat n :: u32) AND 0x80000000 = 0"
    "(word_of_nat n OR 0x80000000 :: u32) AND 0x80000000 \<noteq> 0"
    "unat ((word_of_nat n OR 0x80000000 :: u32) AND 0x7fffffff) = n"
proof -
  have u: "unat (word_of_nat n :: u32) = n" using assms by (simp add: unat_of_nat)
  have w: "\<not> bit (word_of_nat n :: u32) i" if "31 \<le> i" for i
    using take_bit_small [of "word_of_nat n :: u32" 31] assms u that
    by (metis bit_take_bit_iff not_le)
  have m: "(0x80000000 :: u32) = push_bit 31 1" "(0x7fffffff :: u32) = mask 31"
    by (simp_all add: mask_eq_exp_minus_1 push_bit_eq_mult)
  show "(word_of_nat n :: u32) AND 0x80000000 = 0"
    unfolding m using w bit_iff_and_push_bit_not_eq_0 [of "word_of_nat n :: u32" 31] by auto
  show "(word_of_nat n OR 0x80000000 :: u32) AND 0x80000000 \<noteq> 0"
    unfolding m using bit_iff_and_push_bit_not_eq_0 [of "word_of_nat n OR push_bit 31 1 :: u32" 31]
    by (simp add: bit_simps)
  have low: "(x OR push_bit k 1) AND mask k = x AND mask k" for x :: u32 and k
    by (rule bit_eqI) (auto simp: bit_simps)
  show "unat ((word_of_nat n OR 0x80000000 :: u32) AND 0x7fffffff) = n"
    unfolding m low unat_and_mask u using assms by simp
qed


lemma collect_values:
  assumes "\<And>v. v \<in> set vs \<Longrightarrow> decodes v"
  shows "\<exists>bss. collect (map write_value vs) = Inr bss \<and>
    (\<forall>n rest. foldr (\<lambda>v. max (depth v)) vs 0 < n \<longrightarrow>
       read_n (length vs) (read_value n) (good_stream (concat bss @ rest))
         = Inr (map repack vs, good_stream rest))"
  using assms
proof (induction vs)
  case Nil
  then show ?case by simp
next
  case (Cons v vs)
  from Cons.prems [of v] obtain bs where bs: "write_value v = Inr bs"
    "\<And>n rest. depth v < n \<Longrightarrow> read_value n (good_stream (bs @ rest)) = Inr (repack v, good_stream rest)"
    by (auto simp: decodes_def)
  from Cons obtain bss where bss: "collect (map write_value vs) = Inr bss"
    "\<And>n rest. foldr (\<lambda>v. max (depth v)) vs 0 < n \<Longrightarrow>
       read_n (length vs) (read_value n) (good_stream (concat bss @ rest)) = Inr (map repack vs, good_stream rest)"
    by auto
  show ?case by (rule exI [of _ "bs # bss"]) (simp add: bs bss)
qed

lemma value_roundtrip: "wf_value v \<Longrightarrow> decodes v"
proof (induction v)
  case (Imm w)
  then have "reads_back w" by (simp add: immediate_roundtrip)
  then obtain bs where bs: "write_immediate w = Inr bs"
    "\<And>n rest. read_value (Suc n) (good_stream (bs @ rest)) = Inr (Imm w, good_stream rest)"
    by (auto simp: reads_back_def)
  have "read_value n (good_stream (bs @ rest)) = Inr (Imm w, good_stream rest)" if "0 < n" for n rest
    using that bs(2) by (cases n) (simp_all del: read_value.simps(2))
  with bs(1) show ?case unfolding decodes_def by simp
next
  case (Str s)
  let ?ss = "encodeUTF8 s"
  have l: "length ?ss < 256 ^ 4" and p: "decodeUTF8 ?ss = s"
    using Str by (simp_all add: decode_encode_replace replace_unpaired_id)
  have "read_value n (good_stream (le_bytes 1 (value_type_code VString) @ obj_ref_header
           @ le_bytes 4 (length ?ss) @ ?ss @ rest)) = Inr (Str s, good_stream rest)" if "0 < n" for n rest
    using that
    by (cases n) (simp_all only: read_value_tag [OF value_type_code_byte] read_objects read_obj_ref_good
        seq_then_simps prod.case read_field_good [OF l] read_buffer_good p)
  moreover have "length ?ss mod 2 ^ 32 = length ?ss" using l by simp
  ultimately show ?case
    unfolding decodes_def by (simp add: payload_defs Let_def del: value_type_code.simps le_bytes.simps One_nat_def)
next
  case (Range a b c closed)
  then obtain x y z where w: "write_value a = Inr x" "write_value b = Inr y" "write_value c = Inr z"
    and r: "\<And>n rest. depth a < n \<Longrightarrow> read_value n (good_stream (x @ rest)) = Inr (repack a, good_stream rest)"
      "\<And>n rest. depth b < n \<Longrightarrow> read_value n (good_stream (y @ rest)) = Inr (repack b, good_stream rest)"
      "\<And>n rest. depth c < n \<Longrightarrow> read_value n (good_stream (z @ rest)) = Inr (repack c, good_stream rest)"
    by (auto simp: decodes_def)
  have f: "read_field 1 (good_stream (le_bytes 1 (if closed then 1 else 0) @ rest))
      = Inr (if closed then 1 else 0, good_stream rest)" for rest
    by (rule read_field_good) simp
  have "read_value n (good_stream (le_bytes 1 (value_type_code VRange) @ obj_ref_header @ x @ y @ z
           @ le_bytes 1 (if closed then 1 else 0) @ rest))
      = Inr (Range (repack a) (repack b) (repack c) closed, good_stream rest)"
    if "depth (Range a b c closed) < n" for n rest
    using that
    by (cases n) (simp_all add: read_value_tag [OF value_type_code_byte] read_objects read_obj_ref_good r f
        del: value_type_code.simps le_bytes.simps One_nat_def read_value.simps(2))
  then show ?case
    unfolding decodes_def by (simp add: payload_defs w del: value_type_code.simps le_bytes.simps One_nat_def depth.simps)
next
  case (Packed bytes)
  then have l: "length bytes < 2 ^ 31" by simp
  note m = marker_bits [OF l]
  let ?raw = "word_of_nat (length bytes) OR 0x80000000 :: u32"
  have raw: "word_of_nat (unat ?raw) = ?raw" by (rule word_back)
  have f: "read_field 4 (good_stream (le_bytes 4 (unat ?raw) @ r)) = Inr (unat ?raw, good_stream r)" for r
    by (rule read_field_good [OF unat_bounds(3)])
  have "read_value n (good_stream (le_bytes 1 (value_type_code VList) @ obj_ref_header
           @ le_bytes 4 (unat ?raw) @ bytes @ rest)) = Inr (Packed bytes, good_stream rest)" if "0 < n" for n rest
    using that m(2) raw
    by (cases n) (simp_all only: read_value_tag [OF value_type_code_byte] read_objects read_obj_ref_good
        seq_then_simps prod.case f m(3) read_buffer_good if_True simp_thms)
  then show ?case
    unfolding decodes_def by (simp add: payload_defs del: value_type_code.simps le_bytes.simps One_nat_def)
next
  case (Boxed vs)
  then have "\<And>v. v \<in> set vs \<Longrightarrow> decodes v" by (simp add: list_all_iff)
  from collect_values [OF this] obtain bss where bss: "collect (map write_value vs) = Inr bss"
    and r: "\<And>n rest. foldr (\<lambda>v. max (depth v)) vs 0 < n \<Longrightarrow>
       read_n (length vs) (read_value n) (good_stream (concat bss @ rest)) = Inr (map repack vs, good_stream rest)"
    by blast
  have l: "length vs < 2 ^ 31" using Boxed by simp
  have f: "read_field 4 (good_stream (le_bytes 4 (length vs) @ r)) = Inr (length vs, good_stream r)" for r
    by (rule read_field_good) (use l in simp)
  have "read_value n (good_stream (le_bytes 1 (value_type_code VList) @ obj_ref_header
           @ le_bytes 4 (length vs) @ concat bss @ rest)) = Inr (build_list (map repack vs), good_stream rest)"
    if "depth (Boxed vs) < n" for n rest
    using that r
    by (cases n) (simp_all add: read_value_tag [OF value_type_code_byte] read_objects read_obj_ref_good f
        marker_bits(1) [OF l] del: value_type_code.simps le_bytes.simps One_nat_def read_value.simps(2))
  moreover have "length vs mod 2 ^ 32 = length vs" using l by simp
  ultimately show ?case
    unfolding decodes_def by (simp add: payload_defs bss del: value_type_code.simps le_bytes.simps One_nat_def depth.simps)
qed


section \<open>Properties\<close>

text \<open>
  Every well-formed value tree (immediates, strings, ranges, lists) is written without error,
  and with nesting fuel above its depth the reader returns the same tree, all-byte lists in packed
  form, and leaves the bytes that follow.
\<close>

theorem value_codec_roundtrip:
  assumes "wf_value v" "depth v < n"
  shows "\<exists>bs. write_value v = Inr bs
    \<and> read_value n (good_stream (bs @ rest)) = Inr (repack v, good_stream rest)"
  using value_roundtrip [OF assms(1)] assms(2) by (auto simp: decodes_def)

theorem value_codec_roundtrip_witness:
  "\<exists>bs. write_value (Boxed [Imm nilVal, Str [0x68, 0x69], Boxed [Imm (byteVal 7)]]) = Inr bs
    \<and> read_value 3 (good_stream (bs @ [9]))
      = Inr (Boxed [Imm nilVal, Str [0x68, 0x69], Packed [7]], good_stream [9])"
proof -
  let ?v = "Boxed [Imm nilVal, Str [0x68, 0x69], Boxed [Imm (byteVal 7)]]"
  have wf: "wf_value ?v"
    by (simp add: wf_immediate_def byteVal_box isNil_def nilVal_def high_surrogate_def low_surrogate_def
        encode_code_point_def)
  have d: "depth ?v < 3" by simp
  have r: "repack ?v = Boxed [Imm nilVal, Str [0x68, 0x69], Packed [7]]"
    by (simp add: build_list_def allBytes_def is_byte_value_def byte_of_value_def byteVal_box)
  show ?thesis using value_codec_roundtrip [OF wf d, of "[9]"] unfolding r .
qed

text \<open>
  The reader does not check the payload of a real: eight bytes in the pattern of an object
  reference are accepted after the real tag and come back as a value that is an object pointing
  to an address chosen by the input.
\<close>

theorem read_real_forges_object:
  assumes "p \<noteq> 0" "unat p < 2 ^ 48"
  shows "\<exists>v. read_value (Suc n) (good_stream (le_bytes 1 (value_type_code VReal)
      @ le_bytes 8 (unat (objRef p)) @ rest)) = Inr (Imm v, good_stream rest)
    \<and> isObj v \<and> asObj target v = p"
proof (intro exI conjI)
  have "read_field 8 (good_stream (le_bytes 8 (unat (objRef p)) @ rest)) = Inr (unat (objRef p), good_stream rest)"
    by (rule read_field_good [OF unat_bounds(4)])
  then show "read_value (Suc n) (good_stream (le_bytes 1 (value_type_code VReal)
      @ le_bytes 8 (unat (objRef p)) @ rest)) = Inr (Imm (objRef p), good_stream rest)"
    by (simp only: read_value_tag [OF value_type_code_byte] read_payload_kinds seq_then_simps prod.case
        word_back realVal_def)
  show "isObj (objRef p)" "asObj target (objRef p) = p"
    using objRef_word [OF assms] by (simp_all add: asObj_def)
qed

theorem read_real_forges_object_witness:
  "\<exists>v. read_value 1 (good_stream (le_bytes 1 (value_type_code VReal)
      @ le_bytes 8 (unat (objRef 0xdead) ) @ [])) = Inr (Imm v, good_stream []) \<and> isObj v \<and> asObj id v = 0xdead"
  using read_real_forges_object [of "0xdead" 0 "[]" id] by simp

end
