(* ===== verification/Call_Spec.thy ===== *)
theory Call_Spec
  imports Builtin_Types
begin

text \<open>
  \<open>CallSpec\<close> of \<open>compiler/Chunk.h\<close> and \<open>compiler/Chunk.cpp\<close>: how a call instruction encodes its
  arguments after the opcode byte (\<open>toBytes\<close>, the decoding constructor), how the compiler
  builds it (\<open>RoxalCompiler::buildCallSpec\<close>), and how the VM matches the arguments against the
  callee's parameters (\<open>paramPositions\<close>).
\<close>

record arg_spec =
  positional :: bool
  paramNameHash :: u16

record call_spec =
  argCount :: u16
  allPositional :: bool
  args :: "arg_spec list"

datatype call_error =
  Code_Overrun
| Max_Call_Args_Exceeded
| Missing_Argument nat
| Too_Many_Arguments nat nat
| Too_Many_Positional nat
| Positional_After_Named
| Unknown_Parameter
| Func_Type_Missing
| Not_A_Function

section \<open>Encoding and decoding\<close>

text \<open>
  The decoding constructor walks a code iterator; running off the end of the code, undefined in
  C++, is \<open>Code_Overrun\<close>.  The two \<open>*ci++\<close> of the hash expression are unsequenced in the source;
  the model reads them left to right, the order \<open>toBytes\<close> relies on.
\<close>

definition read_arg_spec :: "byte list \<Rightarrow> call_error + (arg_spec \<times> byte list)" where
  "read_arg_spec ci =
     (case ci of
        [] \<Rightarrow> Inl Code_Overrun
      | b # ci1 \<Rightarrow>
          if b = 0 then Inr (\<lparr>positional = True, paramNameHash = 0\<rparr>, ci1)
          else (case ci1 of
              [] \<Rightarrow> Inl Code_Overrun
            | b2 # ci2 \<Rightarrow>
                Inr (\<lparr>positional = False, paramNameHash = push_bit 8 (ucast b) OR ucast b2\<rparr>, ci2)))"

definition callspec_decode :: "byte list \<Rightarrow> call_error + (call_spec \<times> byte list)" where
  "callspec_decode ci =
     (case ci of
        [] \<Rightarrow> Inl Code_Overrun
      | b # ci1 \<Rightarrow>
          (let allPos = (b AND 0x80 = 0); n = ucast (b AND 0x7f) :: u16
           in if allPos then Inr (\<lparr>argCount = n, allPositional = True, args = []\<rparr>, ci1)
              else seq_then (read_n (unat n) read_arg_spec ci1)
                (\<lambda>(as, rest). Inr (\<lparr>argCount = n, allPositional = False, args = as\<rparr>, rest))))"

definition arg_bytes :: "arg_spec \<Rightarrow> byte list" where
  "arg_bytes arg =
     (if positional arg then [0]
      else (let h = 0x8000 OR (paramNameHash arg AND 0x7fff)
            in [ucast (drop_bit 8 (h AND 0xff00)), ucast (h AND 0xff)]))"

definition callspec_toBytes :: "call_spec \<Rightarrow> call_error + byte list" where
  "callspec_toBytes cs =
     (if allPositional cs then
        (if argCount cs > 127 then Inl Max_Call_Args_Exceeded
         else Inr [0x7f AND ucast (argCount cs)])
      else Inr ((0x80 OR (0x7f AND ucast (argCount cs))) # concat (map arg_bytes (args cs))))"

definition callspec_namedArgs :: "call_spec \<Rightarrow> bool" where
  "callspec_namedArgs cs \<longleftrightarrow> list_ex (\<lambda>a. \<not> positional a) (args cs)"

text \<open>
  \<open>buildCallSpec\<close>: the call's arguments as their (possibly empty) names.  \<open>hashCode\<close> is the name
  hash of the string backend in use.
\<close>

definition build_arg_spec :: "(ustring \<Rightarrow> u32) \<Rightarrow> ustring \<Rightarrow> arg_spec" where
  "build_arg_spec hashCode name =
     (if name = [] then \<lparr>positional = True, paramNameHash = 0\<rparr>
      else \<lparr>positional = False, paramNameHash = 0x8000 OR (ucast (hashCode name AND 0x7fff))\<rparr>)"

definition buildCallSpec :: "(ustring \<Rightarrow> u32) \<Rightarrow> ustring list \<Rightarrow> call_error + call_spec" where
  "buildCallSpec hashCode names =
     (if length names > 127 then Inl Max_Call_Args_Exceeded
      else if list_all (\<lambda>n. n = []) names then
        Inr \<lparr>argCount = word_of_nat (length names), allPositional = True, args = []\<rparr>
      else Inr \<lparr>argCount = word_of_nat (length names), allPositional = False,
                args = map (build_arg_spec hashCode) names\<rparr>)"

section \<open>Matching arguments to parameters\<close>

text \<open>
  Positions are \<open>int8_t\<close>: the index of the argument for each parameter, \<open>-1\<close> when none is given,
  \<open>-2\<close> when a variadic parameter collects the rest.  \<open>int8\<close> is the narrowing conversion.
\<close>

definition int8 :: "nat \<Rightarrow> int" where
  "int8 n = sint (word_of_nat n :: byte)"

fun check_required :: "param_type option list \<Rightarrow> int list \<Rightarrow> nat \<Rightarrow> call_error option" where
  "check_required (p # ps) (pos # poss) i =
     (if pos = -1 then
        (case p of
           Some q \<Rightarrow>
             (if pt_variadic q then check_required ps poss (Suc i)
              else if \<not> pt_hasDefault q then Some (Missing_Argument i)
              else check_required ps poss (Suc i))
         | None \<Rightarrow> Some (Missing_Argument i))
      else check_required ps poss (Suc i))"
| "check_required _ _ i = None"

definition finish_positions ::
  "bool \<Rightarrow> param_type option list \<Rightarrow> int list \<Rightarrow> call_error + int list" where
  "finish_positions throwOnMissing ps poss =
     (if throwOnMissing then
        (case check_required ps poss 0 of None \<Rightarrow> Inr poss | Some e \<Rightarrow> Inl e)
      else Inr poss)"

definition regularParamCount :: "func_type \<Rightarrow> nat" where
  "regularParamCount f = (if hasVariadic f then length (ft_params f) - 1 else length (ft_params f))"

definition positions_allPositional ::
  "nat \<Rightarrow> func_type \<Rightarrow> bool \<Rightarrow> call_error + int list" where
  "positions_allPositional n f throwOnMissing =
     (let r = regularParamCount f in
      if \<not> hasVariadic f \<and> n > r then Inl (Too_Many_Arguments r n)
      else finish_positions throwOnMissing (ft_params f)
        (map int8 [0..<min n r] @ replicate (r - n) (-1)
         @ (if hasVariadic f then (if n > r then [-2] else [-1]) else [])))"

text \<open>\<open>paramIndex\<close>: the loop counter is an \<open>int8_t\<close>, so an index above 127 comes back negative.\<close>

fun paramIndex :: "param_type option list \<Rightarrow> nat \<Rightarrow> u16 \<Rightarrow> int" where
  "paramIndex [] i h = -1"
| "paramIndex (None # ps) i h = paramIndex ps (Suc i) h"
| "paramIndex (Some p # ps) i h =
     (if pt_variadic p then -1
      else if ucast (pt_hash p AND 0x7fff) = h AND 0x7fff then int8 i
      else paramIndex ps (Suc i) h)"

fun named_pass ::
  "param_type option list \<Rightarrow> arg_spec list \<Rightarrow> nat \<Rightarrow> int list \<Rightarrow> call_error + int list" where
  "named_pass ps [] ai poss = Inr poss"
| "named_pass ps (a # as) ai poss =
     (if positional a then named_pass ps as (Suc ai) poss
      else (let pindex = paramIndex ps 0 (paramNameHash a)
            in if pindex \<ge> 0 then named_pass ps as (Suc ai) (poss[nat pindex := int8 ai])
               else Inl Unknown_Parameter))"

fun next_unfilled :: "int list \<Rightarrow> nat \<Rightarrow> nat" where
  "next_unfilled [] n = n"
| "next_unfilled (p # ps) n = (if p = -1 then n else next_unfilled ps (Suc n))"

text \<open>
  The second pass over the arguments in call order: \<open>r\<close> regular parameters, the positions so
  far, the next unfilled parameter, whether a named argument was seen, the running index among
  positional arguments, and whether variadic arguments started.
\<close>

fun positional_pass ::
  "bool \<Rightarrow> nat \<Rightarrow> arg_spec list \<Rightarrow> nat \<Rightarrow> int list \<Rightarrow> nat \<Rightarrow> bool \<Rightarrow> nat \<Rightarrow> bool
   \<Rightarrow> call_error + (int list \<times> bool)" where
  "positional_pass hv r [] ai poss nxt seen k started = Inr (poss, started)"
| "positional_pass hv r (a # as) ai poss nxt seen k started =
     (if \<not> positional a then positional_pass hv r as (Suc ai) poss nxt True k started
      else if hv then
        (if seen then positional_pass hv r as (Suc ai) poss nxt seen (Suc k) True
         else if nxt < r then
           positional_pass hv r as (Suc ai) (poss[nxt := int8 ai]) (Suc nxt) seen (Suc k) started
         else positional_pass hv r as (Suc ai) poss nxt seen (Suc k) True)
      else if \<not> seen then
        (if k < r then positional_pass hv r as (Suc ai) (poss[k := int8 ai]) nxt seen (Suc k) started
         else Inl (Too_Many_Positional r))
      else Inl Positional_After_Named)"

definition positions_named ::
  "arg_spec list \<Rightarrow> func_type \<Rightarrow> bool \<Rightarrow> call_error + int list" where
  "positions_named as f throwOnMissing =
     (let ps = ft_params f; hv = hasVariadic f; r = regularParamCount f in
      seq_then (named_pass ps as 0 (replicate (length ps) (-1)))
        (\<lambda>poss1. seq_then (positional_pass hv r as 0 poss1 (next_unfilled (take r poss1) 0) False 0 False)
          (\<lambda>(poss2, started).
             finish_positions throwOnMissing ps
               (if hv \<and> started then poss2[length ps - 1 := -2] else poss2))))"

definition paramPositions :: "call_spec \<Rightarrow> rtype \<Rightarrow> bool \<Rightarrow> call_error + int list" where
  "paramPositions cs calleeType throwOnMissing =
     (if allPositional cs then
        (if rt_builtin calleeType = BFunc then
           (case rt_func calleeType of
              None \<Rightarrow> Inr []
            | Some f \<Rightarrow> positions_allPositional (unat (argCount cs)) f throwOnMissing)
         else Inl Not_A_Function)
      else
        (if rt_builtin calleeType = BFunc then
           (case rt_func calleeType of
              None \<Rightarrow> Inl Func_Type_Missing
            | Some f \<Rightarrow> positions_named (args cs) f throwOnMissing)
         else Inl Not_A_Function))"

section \<open>Lemmas on the encoding\<close>

definition wf_arg_spec :: "arg_spec \<Rightarrow> bool" where
  "wf_arg_spec a \<longleftrightarrow> (if positional a then paramNameHash a = 0 else bit (paramNameHash a) 15)"

lemma hash_mask_bits: "bit (0x8000 :: u16) n \<longleftrightarrow> n = 15" "bit (0x7fff :: u16) n \<longleftrightarrow> n < 15"
proof -
  have e: "(0x8000 :: u16) = push_bit 15 1" "(0x7fff :: u16) = mask 15"
    by (simp_all add: mask_eq_exp_minus_1)
  show "bit (0x8000 :: u16) n \<longleftrightarrow> n = 15" "bit (0x7fff :: u16) n \<longleftrightarrow> n < 15"
    unfolding e bit_push_bit_iff bit_mask_iff bit_1_iff by auto
qed

lemma byte_mask_bits: "bit (0xff :: u16) n \<longleftrightarrow> n < 8" "bit (0xff00 :: u16) n \<longleftrightarrow> 8 \<le> n \<and> n < 16"
proof -
  have e: "(0xff :: u16) = mask 8" "(0xff00 :: u16) = push_bit 8 (mask 8)"
    by (simp_all add: mask_eq_exp_minus_1)
  show "bit (0xff :: u16) n \<longleftrightarrow> n < 8" "bit (0xff00 :: u16) n \<longleftrightarrow> 8 \<le> n \<and> n < 16"
    unfolding e bit_push_bit_iff bit_mask_iff by auto
qed

lemmas hash_bits = hash_mask_bits byte_mask_bits bit_and_iff bit_or_iff bit_push_bit_iff
  bit_drop_bit_eq bit_ucast_iff o_apply

lemma hash_tagged: "bit h 15 \<Longrightarrow> 0x8000 OR (h AND 0x7fff) = (h :: u16)"
  by (rule bit_word_eqI) (auto simp: hash_bits simp del: bit_numeral_word_iff)

definition hash_hi :: "u16 \<Rightarrow> byte" where
  "hash_hi h = ucast (drop_bit 8 (h AND 0xff00))"

definition hash_lo :: "u16 \<Rightarrow> byte" where
  "hash_lo h = ucast (h AND 0xff)"

lemma bit_hash_hi: "bit (hash_hi h) n \<longleftrightarrow> n < 8 \<and> bit h (8 + n)"
  by (auto simp only: hash_hi_def hash_bits) (auto dest: bit_imp_le_length)

lemma bit_hash_lo: "bit (hash_lo h) n \<longleftrightarrow> n < 8 \<and> bit h n"
  by (auto simp only: hash_lo_def hash_bits) (auto dest: bit_imp_le_length)

lemma hash_split: "push_bit 8 (ucast (hash_hi h)) OR ucast (hash_lo h) = (h :: u16)"
  by (rule bit_word_eqI) (auto simp: bit_simps bit_hash_hi bit_hash_lo)

lemma hash_high_nonzero: "bit h 15 \<Longrightarrow> hash_hi h \<noteq> 0"
  using bit_hash_hi [of h 7] by auto

lemma arg_bytes_named:
  "\<not> positional a \<Longrightarrow> bit (paramNameHash a) 15 \<Longrightarrow>
     arg_bytes a = [hash_hi (paramNameHash a), hash_lo (paramNameHash a)]"
  by (simp only: arg_bytes_def hash_tagged Let_def hash_hi_def hash_lo_def if_False)

lemma build_arg_spec_wf: "wf_arg_spec (build_arg_spec hashCode n)"
  by (auto simp: wf_arg_spec_def build_arg_spec_def hash_bits)

interpretation argspecs: framed "\<lambda>_::nat. \<lambda>bs. bs" "\<lambda>_. wf_arg_spec" "\<lambda>c _. c" arg_bytes read_arg_spec
proof
  fix c :: nat and x rest
  assume wf: "wf_arg_spec x"
  show "read_arg_spec (arg_bytes x @ rest) = Inr (x, rest)"
  proof (cases "positional x")
    case True
    with wf show ?thesis by (simp add: wf_arg_spec_def read_arg_spec_def arg_bytes_def)
  next
    case False
    with wf have "bit (paramNameHash x) 15" by (simp add: wf_arg_spec_def)
    with False show ?thesis
      by (simp add: read_arg_spec_def arg_bytes_named hash_high_nonzero hash_split)
  qed
qed

lemma ok_seq_wf: "argspecs.ok_seq c as \<longleftrightarrow> list_all wf_arg_spec as"
  by (induction as arbitrary: c) auto

lemma flag_mask_bits: "bit (0x80 :: byte) n \<longleftrightarrow> n = 7" "bit (0x7f :: byte) n \<longleftrightarrow> n < 7"
proof -
  have e: "(0x80 :: byte) = push_bit 7 1" "(0x7f :: byte) = mask 7"
    by (simp_all add: mask_eq_exp_minus_1)
  show "bit (0x80 :: byte) n \<longleftrightarrow> n = 7" "bit (0x7f :: byte) n \<longleftrightarrow> n < 7"
    unfolding e bit_push_bit_iff bit_mask_iff bit_1_iff by auto
qed

lemma count_byte:
  assumes "k \<le> 127"
  shows "0x7f AND ucast ((word_of_nat k :: u16)) = (word_of_nat k :: byte)"
    and "unat (word_of_nat k :: u16) = k"
    and "ucast (word_of_nat k AND (0x7f :: byte)) = (word_of_nat k :: u16)"
    and "ucast ((0x80 OR word_of_nat k) AND (0x7f :: byte)) = (word_of_nat k :: u16)"
    and "(word_of_nat k :: byte) AND 0x80 = 0"
    and "(0x80 OR (word_of_nat k :: byte)) AND 0x80 \<noteq> 0"
proof -
  have low: "n < 7" if "bit k n" for n
  proof -
    from assms have "take_bit 7 k = k" by (simp add: take_bit_nat_eq_self)
    with that show ?thesis by (metis bit_take_bit_iff)
  qed
  note byte_bits = bit_simps flag_mask_bits
  show "unat (word_of_nat k :: u16) = k" using assms by (simp add: unat_of_nat)
  show "0x7f AND ucast ((word_of_nat k :: u16)) = (word_of_nat k :: byte)"
    by (rule bit_word_eqI) (auto simp: byte_bits simp del: bit_numeral_word_iff dest: low)
  show "ucast (word_of_nat k AND (0x7f :: byte)) = (word_of_nat k :: u16)"
    by (rule bit_word_eqI) (auto simp: byte_bits simp del: bit_numeral_word_iff dest: low)
  show "ucast ((0x80 OR word_of_nat k) AND (0x7f :: byte)) = (word_of_nat k :: u16)"
    by (rule bit_word_eqI) (auto simp: byte_bits simp del: bit_numeral_word_iff dest: low)
  show "(word_of_nat k :: byte) AND 0x80 = 0"
    by (rule bit_word_eqI) (auto simp: byte_bits simp del: bit_numeral_word_iff dest: low)
  have "bit ((0x80 OR (word_of_nat k :: byte)) AND 0x80) 7"
    by (simp add: byte_bits del: bit_numeral_word_iff)
  then show "(0x80 OR (word_of_nat k :: byte)) AND 0x80 \<noteq> 0" by (metis bit_0_eq bot_apply bot_bool_def)
qed

text \<open>Call specifications that \<open>buildCallSpec\<close> can return.\<close>

definition wf_callspec :: "call_spec \<Rightarrow> bool" where
  "wf_callspec cs \<longleftrightarrow> unat (argCount cs) \<le> 127
     \<and> (if allPositional cs then args cs = []
        else length (args cs) = unat (argCount cs) \<and> list_all wf_arg_spec (args cs))"

definition first_byte :: "call_spec \<Rightarrow> byte" where
  "first_byte cs = (if allPositional cs then ucast (argCount cs) else 0x80 OR ucast (argCount cs))"

lemma callspec_good:
  assumes wf: "wf_callspec cs"
  shows "callspec_toBytes cs = Inr (first_byte cs # concat (map arg_bytes (args cs)))"
    and "callspec_decode ((first_byte cs # concat (map arg_bytes (args cs))) @ rest) = Inr (cs, rest)"
proof -
  let ?k = "unat (argCount cs)"
  have len: "?k \<le> 127" using wf by (simp add: wf_callspec_def)
  have wb: "word_of_nat ?k = argCount cs" "(word_of_nat ?k :: byte) = ucast (argCount cs)" by simp_all
  note k = count_byte [OF len, unfolded wb]
  have n127: "\<not> argCount cs > (127 :: u16)" using len by (simp add: word_less_nat_alt)
  show "callspec_toBytes cs = Inr (first_byte cs # concat (map arg_bytes (args cs)))"
    using wf n127 k(1) by (auto simp: callspec_toBytes_def first_byte_def wf_callspec_def)
  show "callspec_decode ((first_byte cs # concat (map arg_bytes (args cs))) @ rest) = Inr (cs, rest)"
  proof (cases "allPositional cs")
    case True
    then show ?thesis
      using wf k(3,5) by (cases cs) (simp add: callspec_decode_def first_byte_def wf_callspec_def)
  next
    case False
    then have seq: "argspecs.ok_seq 0 (args cs)" and l: "length (args cs) = ?k"
      using wf by (simp_all add: wf_callspec_def ok_seq_wf)
    show ?thesis
      using False argspecs.seq_roundtrip [OF seq, of rest] k(4,6) l
      by (cases cs) (simp add: callspec_decode_def first_byte_def)
  qed
qed

lemma buildCallSpec_wf:
  assumes "buildCallSpec hashCode names = Inr cs"
  shows "wf_callspec cs" "unat (argCount cs) = length names"
    "map positional (args cs) = (if allPositional cs then [] else map (\<lambda>n. n = []) names)"
proof -
  have len: "length names \<le> 127" using assms by (simp add: buildCallSpec_def split: if_splits)
  note k = count_byte(2) [OF len]
  show "unat (argCount cs) = length names" using assms k by (auto simp: buildCallSpec_def split: if_splits)
  show "wf_callspec cs"
    using assms k by (auto simp: buildCallSpec_def wf_callspec_def list_all_iff build_arg_spec_wf split: if_splits)
  show "map positional (args cs) = (if allPositional cs then [] else map (\<lambda>n. n = []) names)"
    using assms by (auto simp: buildCallSpec_def build_arg_spec_def split: if_splits)
qed

section \<open>Lemmas on the position vectors\<close>

lemma int8_small [simp]: "n < 128 \<Longrightarrow> int8 n = int n"
  by (simp add: int8_def sint_uint signed_take_bit_int_eq_self unsigned_of_nat take_bit_nat_eq_self)

text \<open>\<open>pos_entries n poss\<close>: every entry is \<open>-1\<close> or the index of one of the first \<open>n\<close> arguments.\<close>

definition pos_entries :: "nat \<Rightarrow> int list \<Rightarrow> bool" where
  "pos_entries n poss \<longleftrightarrow> (\<forall>x \<in> set poss. x = -1 \<or> 0 \<le> x \<and> x < int n)"

lemma pos_entries_mono: "pos_entries n poss \<Longrightarrow> n \<le> n' \<Longrightarrow> pos_entries n' poss"
  by (fastforce simp: pos_entries_def)

lemma pos_entries_update:
  "pos_entries n poss \<Longrightarrow> ai < n \<Longrightarrow> n \<le> 127 \<Longrightarrow> pos_entries n (poss[i := int ai])"
  using set_update_subset_insert [of poss i "int ai"] by (auto simp: pos_entries_def)

lemma named_pass_entries:
  "named_pass ps as ai poss = Inr poss' \<Longrightarrow> pos_entries n poss \<Longrightarrow> ai + length as \<le> n \<Longrightarrow> n \<le> 127 \<Longrightarrow>
     length poss' = length poss \<and> pos_entries n poss'"
proof (induction ps as ai poss rule: named_pass.induct)
  case (1 ps ai poss)
  then show ?case by simp
next
  case (2 ps a as ai poss)
  then show ?case
    by (cases "positional a") (auto simp: Let_def pos_entries_update split: if_splits)
qed

lemma positional_pass_entries:
  "positional_pass hv r as ai poss nxt seen k started = Inr (poss', started') \<Longrightarrow>
     pos_entries n poss \<Longrightarrow> ai + length as \<le> n \<Longrightarrow> n \<le> 127 \<Longrightarrow>
     length poss' = length poss \<and> pos_entries n poss'"
proof (induction hv r as ai poss nxt seen k started arbitrary: poss' started'
    rule: positional_pass.induct)
  case (1 hv r ai poss nxt seen k started)
  then show ?case by simp
next
  case (2 hv r a as ai poss nxt seen k started)
  then show ?case
    by (auto simp: pos_entries_update split: if_splits)
qed

lemma finish_positions_Inr:
  "finish_positions thr ps poss = Inr poss' \<longleftrightarrow>
     poss' = poss \<and> (thr \<longrightarrow> check_required ps poss 0 = None)"
  by (auto simp: finish_positions_def split: option.splits)

lemma check_required_None:
  "check_required ps poss i = None \<Longrightarrow> j < length ps \<Longrightarrow> j < length poss \<Longrightarrow> poss ! j = -1 \<Longrightarrow>
     (\<exists>q. ps ! j = Some q \<and> (pt_variadic q \<or> pt_hasDefault q))"
proof (induction ps poss i arbitrary: j rule: check_required.induct)
  case (1 p ps pos poss i)
  show ?case
  proof (cases j)
    case 0
    with 1 show ?thesis by (auto split: option.splits if_splits)
  next
    case (Suc j')
    have "check_required ps poss (Suc i) = None"
      using "1.prems"(1) by (auto split: if_splits option.splits)
    with 1 Suc show ?thesis by (auto split: if_splits option.splits)
  qed
qed auto

definition positions_ok :: "func_type \<Rightarrow> nat \<Rightarrow> int list \<Rightarrow> bool" where
  "positions_ok f n poss \<longleftrightarrow> length poss = length (ft_params f) \<and>
     (\<forall>i < length poss. poss ! i = -1 \<or> 0 \<le> poss ! i \<and> poss ! i < int n
        \<or> poss ! i = -2 \<and> hasVariadic f \<and> i = length (ft_params f) - 1)"

lemma hasVariadic_pos: "hasVariadic f \<Longrightarrow> 0 < length (ft_params f)"
  by (auto simp: hasVariadic_def)

lemma positions_allPositional_ok:
  assumes "positions_allPositional n f thr = Inr poss" "n \<le> 127"
  shows "positions_ok f n poss"
proof -
  let ?r = "regularParamCount f"
  have poss: "poss = map int8 [0..<min n ?r] @ replicate (?r - n) (-1)
         @ (if hasVariadic f then (if n > ?r then [-2] else [-1]) else [])"
    using assms(1)
    by (auto simp: positions_allPositional_def Let_def finish_positions_Inr split: if_splits)
  have len: "length (map int8 [0..<min n ?r] @ replicate (?r - n) (-1)) = ?r" by simp
  have params: "length (ft_params f) = ?r + (if hasVariadic f then 1 else 0)"
    using hasVariadic_pos [of f] by (simp add: regularParamCount_def)
  show ?thesis
    unfolding positions_ok_def poss using params assms(2)
    by (auto simp: nth_append less_Suc_eq min_def)
qed

lemma pos_entries_nth:
  "pos_entries n poss \<Longrightarrow> i < length poss \<Longrightarrow> poss ! i = -1 \<or> 0 \<le> poss ! i \<and> poss ! i < int n"
  by (simp add: pos_entries_def)

lemma positions_named_ok:
  assumes "positions_named as f thr = Inr poss" "length as \<le> 127"
  shows "positions_ok f (length as) poss"
proof -
  let ?ps = "ft_params f"
  obtain poss1 poss2 started where
    1: "named_pass ?ps as 0 (replicate (length ?ps) (-1)) = Inr poss1"
    and 2: "positional_pass (hasVariadic f) (regularParamCount f) as 0 poss1
       (next_unfilled (take (regularParamCount f) poss1) 0) False 0 False = Inr (poss2, started)"
    and 3: "poss = (if hasVariadic f \<and> started then poss2[length ?ps - 1 := -2] else poss2)"
    using assms(1)
    by (auto simp: positions_named_def Let_def seq_then_eq_Inr finish_positions_Inr)
  have "length poss1 = length ?ps \<and> pos_entries (length as) poss1"
    using named_pass_entries [OF 1, of "length as"] assms(2) by (simp add: pos_entries_def)
  then have "length poss2 = length ?ps" "pos_entries (length as) poss2"
    using positional_pass_entries [OF 2, of "length as"] assms(2) by simp_all
  then show ?thesis
    unfolding positions_ok_def 3
    using pos_entries_nth [of "length as" poss2] by (auto simp: nth_list_update)
qed

lemma int8_le: "int8 n \<le> int n"
proof -
  have "int8 n = (int n + 128) mod 256 - 128"
    by (simp add: int8_def sint_uint unsigned_of_nat signed_take_bit_eq_take_bit_shift
        take_bit_eq_mod take_bit_nat_eq_self of_nat_mod mod_simps)
  moreover have "(int n + 128) mod 256 \<le> int n + 128" by (rule zmod_le_nonneg_dividend) simp
  ultimately show ?thesis by simp
qed

lemma paramIndex_bound: "0 \<le> paramIndex ps i h \<Longrightarrow> nat (paramIndex ps i h) < i + length ps"
proof (induction ps i h rule: paramIndex.induct)
  case (3 p ps i h)
  then show ?case using int8_le [of i] by (auto split: if_splits)
qed auto

abbreviation param_targets :: "param_type option list \<Rightarrow> arg_spec list \<Rightarrow> int list" where
  "param_targets ps as \<equiv> map (\<lambda>a. paramIndex ps 0 (paramNameHash a)) as"

lemma named_pass_targets:
  assumes "named_pass ps as ai poss = Inr poss'" "list_all (\<lambda>a. \<not> positional a) as"
  shows "list_all (\<lambda>t. 0 \<le> t) (param_targets ps as) \<and>
    (\<forall>j. int j \<notin> set (param_targets ps as) \<longrightarrow> poss' ! j = poss ! j)"
  using assms
proof (induction ps as ai poss rule: named_pass.induct)
  case (2 ps a as ai poss)
  then show ?case
    by (auto simp: Let_def nth_list_update split: if_splits)
qed simp

lemma named_pass_hits:
  assumes "named_pass ps as ai poss = Inr poss'" "list_all (\<lambda>a. \<not> positional a) as"
    "distinct (param_targets ps as)" "ai + length as \<le> 127" "length poss = length ps" "i < length as"
  shows "poss' ! nat (param_targets ps as ! i) = int (ai + i)"
  using assms
proof (induction ps as ai poss arbitrary: i rule: named_pass.induct)
  case (2 ps a as ai poss)
  let ?t = "paramIndex ps 0 (paramNameHash a)"
  have t: "0 \<le> ?t" "named_pass ps as (Suc ai) (poss[nat ?t := int ai]) = Inr poss'"
    using "2.prems" by (auto simp: Let_def split: if_splits)
  show ?case
  proof (cases i)
    case 0
    have "poss' ! nat ?t = poss[nat ?t := int ai] ! nat ?t"
      using named_pass_targets [OF t(2)] t(1) "2.prems"(2,3) by simp
    also have "\<dots> = int ai"
      using paramIndex_bound [of ps 0] t(1) "2.prems"(5) by simp
    finally show ?thesis using 0 by simp
  next
    case (Suc i')
    then show ?thesis
      using "2.IH"(2) [of ?t i'] "2.prems" t by simp
  qed
qed simp

lemma positional_pass_named:
  "list_all (\<lambda>a. \<not> positional a) as \<Longrightarrow>
     positional_pass hv r as ai poss nxt seen k started = Inr (poss, started)"
  by (induction as arbitrary: ai seen) auto

section \<open>Properties\<close>

text \<open>
  The bytes the compiler emits for a call decode to the same call specification and leave
  the following code untouched, with or without named arguments, for any name hash; the first
  byte carries the argument count.
\<close>

theorem callspec_roundtrip:
  assumes "buildCallSpec hashCode names = Inr cs"
  shows "\<exists>bs. callspec_toBytes cs = Inr bs \<and> callspec_decode (bs @ rest) = Inr (cs, rest)
    \<and> unat (argCount cs) = length names
    \<and> length bs = (if allPositional cs then 1
                   else 1 + sum_list (map (\<lambda>n. if n = [] then 1 else 2) names))"
proof -
  note wf = buildCallSpec_wf [OF assms]
  have "length (arg_bytes a) = (if positional a then 1 else 2)" for a by (simp add: arg_bytes_def Let_def)
  then have "length (concat (map arg_bytes (args cs))) = sum_list (map (\<lambda>p. if p then 1 else 2) (map positional (args cs)))"
    by (simp add: length_concat comp_def)
  then show ?thesis using callspec_good [OF wf(1)] wf(2,3) by (auto simp: comp_def)
qed

theorem callspec_roundtrip_witness:
  "callspec_decode [0x82, 0, 0x80, 97, 7] = Inr (\<lparr>argCount = 2, allPositional = False,
     args = [\<lparr>positional = True, paramNameHash = 0\<rparr>, \<lparr>positional = False, paramNameHash = 0x8061\<rparr>]\<rparr>, [7])"
proof -
  have b: "buildCallSpec ustring_hashCode [[], [97]] = Inr \<lparr>argCount = 2, allPositional = False,
     args = [\<lparr>positional = True, paramNameHash = 0\<rparr>, \<lparr>positional = False, paramNameHash = 0x8061\<rparr>]\<rparr>"
    by (simp add: buildCallSpec_def build_arg_spec_def ustring_hashCode_def)
  show ?thesis
    using callspec_roundtrip [OF b, of "[7]"] by (simp add: callspec_toBytes_def arg_bytes_def)
qed

text \<open>
  Whenever matching a call's arguments to the callee's parameters succeeds, the result has
  one entry per parameter, every entry is \<open>-1\<close>, the index of an argument of the call, or \<open>-2\<close>
  for the variadic last parameter; and when missing arguments are to be reported, a parameter
  left without an argument has a default or is variadic.
\<close>

theorem paramPositions_sound:
  assumes "paramPositions cs (RType BFunc c (Some f) ob) thr = Inr poss"
    and "unat (argCount cs) \<le> 127" and "\<not> allPositional cs \<longrightarrow> length (args cs) = unat (argCount cs)"
  shows "positions_ok f (unat (argCount cs)) poss
    \<and> (thr \<longrightarrow> (\<forall>i < length poss. poss ! i = -1 \<longrightarrow>
           (\<exists>q. ft_params f ! i = Some q \<and> (pt_variadic q \<or> pt_hasDefault q))))"
proof -
  have ok: "positions_ok f (unat (argCount cs)) poss"
    using assms positions_allPositional_ok positions_named_ok
    by (fastforce simp: paramPositions_def split: if_splits)
  moreover have "thr \<longrightarrow> check_required (ft_params f) poss 0 = None"
    using assms(1)
    by (auto simp: paramPositions_def positions_allPositional_def positions_named_def Let_def
        seq_then_eq_Inr finish_positions_Inr split: if_splits)
  ultimately show ?thesis
    using check_required_None [of "ft_params f" poss 0] by (auto simp: positions_ok_def)
qed

text \<open>
  An all-positional call passes argument \<open>i\<close> to parameter \<open>i\<close>: without a variadic parameter it
  is rejected exactly when there are too many arguments or a parameter without a default is left
  over, and otherwise the first parameters get the arguments in order.
\<close>

theorem positional_call_in_order:
  assumes "\<not> hasVariadic f" "n \<le> 127"
  shows "positions_allPositional n f True =
    (if n > length (ft_params f) then Inl (Too_Many_Arguments (length (ft_params f)) n)
     else (case check_required (ft_params f)
             (map int [0..<n] @ replicate (length (ft_params f) - n) (-1)) 0 of
        None \<Rightarrow> Inr (map int [0..<n] @ replicate (length (ft_params f) - n) (-1))
      | Some e \<Rightarrow> Inl e))"
proof -
  have m: "map int8 [0..<min n r] = map int [0..<min n r]" for r
    using assms(2) by (intro map_cong) auto
  show ?thesis
    unfolding positions_allPositional_def regularParamCount_def Let_def finish_positions_def m
    using assms(1) by (auto simp: min_def split: option.split)
qed

theorem positional_call_in_order_witness:
  "positions_allPositional 1 (FuncType False [Some (ParamType [97] 97 None False False),
      Some (ParamType [98] 98 None True False)] []) True = Inr [0, -1]"
proof -
  let ?f = "FuncType False [Some (ParamType [97] 97 None False False),
      Some (ParamType [98] 98 None True False)] []"
  have "\<not> hasVariadic ?f" by (simp add: hasVariadic_def)
  then show ?thesis using positional_call_in_order [of ?f 1] by simp
qed

theorem paramPositions_sound_witness:
  "positions_ok (FuncType False [Some (ParamType [97] 97 None False False),
      Some (ParamType [98] 98 None False True)] []) 3 [0, -2]"
proof -
  let ?f = "FuncType False [Some (ParamType [97] 97 None False False),
      Some (ParamType [98] 98 None False True)] []"
  have "paramPositions \<lparr>argCount = 3, allPositional = True, args = []\<rparr>
          (RType BFunc False (Some ?f) None) True = Inr [0, -2]"
    by (simp add: paramPositions_def positions_allPositional_def regularParamCount_def hasVariadic_def
        finish_positions_def)
  from paramPositions_sound [OF this] show ?thesis by simp
qed

text \<open>
  In a call that names every argument, with no parameter named twice, each argument reaches
  the parameter whose name it gives, whatever the order of the arguments.
\<close>

theorem named_arguments_reach_parameters:
  assumes "positions_named as f thr = Inr poss" "list_all (\<lambda>a. \<not> positional a) as"
    and "distinct (param_targets (ft_params f) as)" "length as \<le> 127" "i < length as"
  shows "0 \<le> param_targets (ft_params f) as ! i
    \<and> poss ! nat (param_targets (ft_params f) as ! i) = int i"
proof -
  from assms(1,2) have "named_pass (ft_params f) as 0 (replicate (length (ft_params f)) (-1)) = Inr poss"
    by (auto simp: positions_named_def Let_def seq_then_eq_Inr finish_positions_Inr positional_pass_named)
  from named_pass_hits [OF this assms(2,3)] named_pass_targets [OF this assms(2)] assms(4,5)
  show ?thesis by (auto simp: list_all_length)
qed

theorem named_arguments_reach_parameters_witness:
  "positions_named [\<lparr>positional = False, paramNameHash = 98\<rparr>, \<lparr>positional = False, paramNameHash = 97\<rparr>]
     (FuncType False [Some (ParamType [97] 97 None False False),
        Some (ParamType [98] 98 None False False)] []) True = Inr [1, 0]
   \<and> [1, 0 :: int] ! 1 = int 0"
proof -
  let ?f = "FuncType False [Some (ParamType [97] 97 None False False),
        Some (ParamType [98] 98 None False False)] []"
  let ?as = "[\<lparr>positional = False, paramNameHash = 98\<rparr>, \<lparr>positional = False, paramNameHash = 97\<rparr>]"
  have r: "positions_named ?as ?f True = Inr [1, 0]"
    by (simp add: positions_named_def hasVariadic_def regularParamCount_def finish_positions_def Let_def)
  have "[1, 0 :: int] ! nat (param_targets (ft_params ?f) ?as ! 0) = int 0"
    by (rule conjunct2 [OF named_arguments_reach_parameters [OF r]]) simp_all
  then show ?thesis using r by simp
qed

text \<open>
  A parameter given both by position and by name is not reported: in a call with one
  positional argument followed by an argument naming the first parameter, matching succeeds and
  the named argument appears nowhere in the result.
\<close>

theorem positional_overwrites_named:
  assumes "\<not> pt_variadic p" "h AND 0x7fff = ucast (pt_hash p AND 0x7fff)"
  shows "positions_named
      [\<lparr>positional = True, paramNameHash = 0\<rparr>, \<lparr>positional = False, paramNameHash = h\<rparr>]
      (FuncType pr [Some p] rts) True = Inr [0]"
  using assms
  by (simp add: positions_named_def hasVariadic_def regularParamCount_def finish_positions_def Let_def)

theorem positional_overwrites_named_witness:
  "positions_named
      [\<lparr>positional = True, paramNameHash = 0\<rparr>, \<lparr>positional = False, paramNameHash = 0x8061\<rparr>]
      (FuncType False [Some (ParamType [97] 97 None False False)] []) True = Inr [0]"
  by (rule positional_overwrites_named) simp_all

end
