(* ===== verification/Debug_Info.thy ===== *)
theory Debug_Info
  imports Ustring
begin

text \<open>
  \<open>compiler/debug/DebugInfo.h\<close> and \<open>DebugInfo.cpp\<close>: the per-chunk source-debugging metadata
  (statement boundaries, local live ranges, upvalue names), its statement lookup, and its bounds-
  checked serialized form, which is embedded in module caches and compute payloads.  Names are
  written as UTF-8 by the codec of \<open>Ustring\<close>.
\<close>

section \<open>Data\<close>

record stmt_entry =
  st_offset :: u32
  st_line :: u32
  st_column :: u32
  st_kind :: byte

record local_var =
  lv_name :: ustring
  lv_slot :: u16
  lv_startOffset :: u32
  lv_endOffset :: u32
  lv_flags :: byte
  lv_typeName :: ustring

record upvalue_info =
  uv_name :: ustring
  uv_index :: u16
  uv_isLocal :: byte

record debug_info =
  di_stmts :: "stmt_entry list"
  di_locals :: "local_var list"
  di_upvalues :: "upvalue_info list"

datatype debug_error =
  Malformed_String | Truncated_String
| Malformed_Stmt_Count | Malformed_Stmt | Malformed_Local_Count | Malformed_Local
| Malformed_Upvalue_Count | Malformed_Upvalue

definition FunctionEntry :: byte where "FunctionEntry = 1"
definition DebugLocalParam :: byte where "DebugLocalParam = push_bit 0 1"
definition DebugLocalCaptured :: byte where "DebugLocalCaptured = push_bit 1 1"
definition DebugLocalConst :: byte where "DebugLocalConst = push_bit 2 1"
definition DebugLocalTypeConst :: byte where "DebugLocalTypeConst = push_bit 3 1"
definition DebugLocalSynthetic :: byte where "DebugLocalSynthetic = push_bit 4 1"

definition MaxNameBytes :: u32 where "MaxNameBytes = push_bit 16 1"

section \<open>Statement lookup\<close>

text \<open>
  \<open>std::upper_bound\<close> by bisection, as the library specifies it on the partitioned prefix: the
  number of leading entries whose offset is not above \<open>off\<close>.
\<close>

fun upper_bound_loop :: "stmt_entry list \<Rightarrow> u32 \<Rightarrow> nat \<Rightarrow> nat \<Rightarrow> nat" where
  "upper_bound_loop es off first 0 = first"
| "upper_bound_loop es off first (Suc len) =
     (let half = Suc len div 2; mid = first + half in
      if off < st_offset (es ! mid) then upper_bound_loop es off first half
      else upper_bound_loop es off (mid + 1) (len - half))"

definition debugLocateStatement :: "debug_info \<Rightarrow> u32 \<Rightarrow> int" where
  "debugLocateStatement di off =
     (let it = upper_bound_loop (di_stmts di) off 0 (length (di_stmts di)) in
      if it = 0 then -1 else int it - 1)"

section \<open>Writing\<close>

definition write_u32 :: "u32 \<Rightarrow> byte list" where "write_u32 v = le_bytes 4 (unat v)"
definition write_u16 :: "u16 \<Rightarrow> byte list" where "write_u16 v = le_bytes 2 (unat v)"
definition write_u8 :: "byte \<Rightarrow> byte list" where "write_u8 v = le_bytes 1 (unat v)"

definition write_ustr :: "ustring \<Rightarrow> byte list" where
  "write_ustr us = (let s = encodeUTF8 us in write_u32 (word_of_nat (length s)) @ s)"

definition write_stmt :: "stmt_entry \<Rightarrow> byte list" where
  "write_stmt s = write_u32 (st_offset s) @ write_u32 (st_line s) @ write_u32 (st_column s)
     @ write_u8 (st_kind s)"

definition write_local :: "local_var \<Rightarrow> byte list" where
  "write_local l = write_ustr (lv_name l) @ write_u16 (lv_slot l) @ write_u32 (lv_startOffset l)
     @ write_u32 (lv_endOffset l) @ write_u8 (lv_flags l) @ write_ustr (lv_typeName l)"

definition write_upvalue :: "upvalue_info \<Rightarrow> byte list" where
  "write_upvalue u = write_ustr (uv_name u) @ write_u16 (uv_index u) @ write_u8 (uv_isLocal u)"

definition debug_serialize :: "debug_info \<Rightarrow> byte list" where
  "debug_serialize di =
     write_u32 (word_of_nat (length (di_stmts di))) @ concat (map write_stmt (di_stmts di))
     @ write_u32 (word_of_nat (length (di_locals di))) @ concat (map write_local (di_locals di))
     @ write_u32 (word_of_nat (length (di_upvalues di))) @ concat (map write_upvalue (di_upvalues di))"

section \<open>Reading\<close>

definition read_u32 :: "istream \<Rightarrow> u32 \<times> istream" where
  "read_u32 s = (case read_le 4 s of (v, s') \<Rightarrow> (word_of_nat v, s'))"
definition read_u16 :: "istream \<Rightarrow> u16 \<times> istream" where
  "read_u16 s = (case read_le 2 s of (v, s') \<Rightarrow> (word_of_nat v, s'))"
definition read_u8 :: "istream \<Rightarrow> byte \<times> istream" where
  "read_u8 s = (case read_le 1 s of (v, s') \<Rightarrow> (word_of_nat v, s'))"

definition read_ustr :: "istream \<Rightarrow> debug_error + (ustring \<times> istream)" where
  "read_ustr s =
     (case read_u32 s of (len, s1) \<Rightarrow>
       if failbit s1 \<or> len > MaxNameBytes then Inl Malformed_String
       else (case (if len \<noteq> 0 then in_read (unat len) s1 else ([], s1)) of (bs, s2) \<Rightarrow>
         if failbit s2 then Inl Truncated_String else Inr (decodeUTF8 bs, s2)))"

text \<open>The loop body over statement entries threads \<open>prevOffset\<close> beside the stream.\<close>

definition read_stmt ::
  "u32 \<Rightarrow> u32 \<times> istream \<Rightarrow> debug_error + (stmt_entry \<times> (u32 \<times> istream))" where
  "read_stmt codeSize = (\<lambda>(prevOffset, s).
     (case read_u32 s of (offset, s1) \<Rightarrow> case read_u32 s1 of (line, s2) \<Rightarrow>
      case read_u32 s2 of (column, s3) \<Rightarrow> case read_u8 s3 of (kind, s4) \<Rightarrow>
       if failbit s4 \<or> offset > codeSize \<or> kind > FunctionEntry
          \<or> sint line < 0 \<or> sint column < 0 \<or> offset < prevOffset
       then Inl Malformed_Stmt
       else Inr (\<lparr>st_offset = offset, st_line = line, st_column = column, st_kind = kind\<rparr>,
                 (offset, s4))))"

definition maxLocals :: u32 where "maxLocals = 512"
definition maxUpvalues :: u32 where "maxUpvalues = 256"

definition knownLocalFlags :: byte where
  "knownLocalFlags = DebugLocalParam OR DebugLocalCaptured OR DebugLocalConst
     OR DebugLocalTypeConst OR DebugLocalSynthetic"

definition read_local :: "u32 \<Rightarrow> istream \<Rightarrow> debug_error + (local_var \<times> istream)" where
  "read_local codeSize s =
     seq_then (read_ustr s) (\<lambda>(name, s1).
       case read_u16 s1 of (slot, s2) \<Rightarrow> case read_u32 s2 of (start, s3) \<Rightarrow>
       case read_u32 s3 of (fin, s4) \<Rightarrow> case read_u8 s4 of (flags, s5) \<Rightarrow>
       seq_then (read_ustr s5) (\<lambda>(typeName, s6).
         if failbit s6 \<or> ucast slot \<ge> maxLocals \<or> start > codeSize \<or> fin > codeSize
            \<or> start > fin \<or> flags AND NOT knownLocalFlags \<noteq> 0
         then Inl Malformed_Local
         else Inr (\<lparr>lv_name = name, lv_slot = slot, lv_startOffset = start, lv_endOffset = fin,
                     lv_flags = flags, lv_typeName = typeName\<rparr>, s6)))"

definition read_upvalue :: "istream \<Rightarrow> debug_error + (upvalue_info \<times> istream)" where
  "read_upvalue s =
     seq_then (read_ustr s) (\<lambda>(name, s1).
       case read_u16 s1 of (index, s2) \<Rightarrow> case read_u8 s2 of (isLocal, s3) \<Rightarrow>
       if failbit s3 \<or> ucast index \<ge> maxUpvalues \<or> isLocal > 1 then Inl Malformed_Upvalue
       else Inr (\<lparr>uv_name = name, uv_index = index, uv_isLocal = isLocal\<rparr>, s3))"

text \<open>A checked count: \<open>n = readU32(in); if (!in || n > bound) throw\<close>.\<close>

definition read_count :: "u32 \<Rightarrow> debug_error \<Rightarrow> istream \<Rightarrow> debug_error + (nat \<times> istream)" where
  "read_count bound err s =
     (case read_u32 s of (n, s') \<Rightarrow>
       if failbit s' \<or> n > bound then Inl err else Inr (unat n, s'))"

definition debug_deserialize :: "u32 \<Rightarrow> istream \<Rightarrow> debug_error + (debug_info \<times> istream)" where
  "debug_deserialize codeSize s =
     seq_then (read_count (codeSize + 16) Malformed_Stmt_Count s) (\<lambda>(stmtCount, s1).
     seq_then (read_n stmtCount (read_stmt codeSize) (0, s1)) (\<lambda>(stmts, (prevOffset, s2)).
     seq_then (read_count maxLocals Malformed_Local_Count s2) (\<lambda>(localCount, s3).
     seq_then (read_n localCount (read_local codeSize) s3) (\<lambda>(locals, s4).
     seq_then (read_count maxUpvalues Malformed_Upvalue_Count s4) (\<lambda>(upCount, s5).
     seq_then (read_n upCount read_upvalue s5) (\<lambda>(ups, s6).
       Inr (\<lparr>di_stmts = stmts, di_locals = locals, di_upvalues = ups\<rparr>, s6)))))))"


section \<open>Fields\<close>

lemmas write_defs = write_u32_def write_u16_def write_u8_def
lemmas read_defs = read_u32_def read_u16_def read_u8_def

lemma read_word_good [codec_simps]:
  "read_u32 (good_stream (write_u32 v @ rest)) = (v, good_stream rest)"
  "read_u16 (good_stream (write_u16 h @ rest)) = (h, good_stream rest)"
  "read_u8 (good_stream (write_u8 b @ rest)) = (b, good_stream rest)"
  using unsigned_less [of v, where ?'a = nat] unsigned_less [of h, where ?'a = nat]
    unsigned_less [of b, where ?'a = nat]
  by (simp_all add: read_defs write_defs read_le_good del: le_bytes.simps)

lemma read_word_ok:
  "\<not> failbit (snd (read_u32 s)) \<Longrightarrow> \<not> failbit s"
  "\<not> failbit (snd (read_u16 s)) \<Longrightarrow> \<not> failbit s"
  "\<not> failbit (snd (read_u8 s)) \<Longrightarrow> \<not> failbit s"
  using read_le_ok [of 4 s] read_le_ok [of 2 s] read_le_ok [of 1 s]
  by (simp_all add: read_defs split: prod.splits)

lemma read_word_extend:
  "read_u32 (good_stream p) = (v, s) \<Longrightarrow> \<not> failbit s \<Longrightarrow>
     \<exists>r. s = good_stream r \<and> (\<forall>q. read_u32 (good_stream (p @ q)) = (v, good_stream (r @ q)))"
  "read_u16 (good_stream p) = (h, s) \<Longrightarrow> \<not> failbit s \<Longrightarrow>
     \<exists>r. s = good_stream r \<and> (\<forall>q. read_u16 (good_stream (p @ q)) = (h, good_stream (r @ q)))"
  "read_u8 (good_stream p) = (b, s) \<Longrightarrow> \<not> failbit s \<Longrightarrow>
     \<exists>r. s = good_stream r \<and> (\<forall>q. read_u8 (good_stream (p @ q)) = (b, good_stream (r @ q)))"
  using read_le_extend [of 4 p _ s] read_le_extend [of 2 p _ s] read_le_extend [of 1 p _ s]
  by (fastforce simp: read_defs split: prod.splits)+

definition name_ok :: "ustring \<Rightarrow> bool" where
  "name_ok us \<longleftrightarrow> paired us \<and> length (encodeUTF8 us) \<le> 65536"

lemma read_ustr_good:
  assumes "name_ok us"
  shows "read_ustr (good_stream (write_ustr us @ rest)) = Inr (us, good_stream rest)"
proof -
  let ?s = "encodeUTF8 us"
  have l: "length ?s \<le> 65536" and p: "paired us" using assms by (simp_all add: name_ok_def)
  have u: "unat (word_of_nat (length ?s) :: u32) = length ?s"
    using l by (simp add: unat_of_nat)
  have big: "\<not> word_of_nat (length ?s) > MaxNameBytes"
    using l u by (simp add: MaxNameBytes_def word_less_nat_alt)
  have zero: "(word_of_nat (length ?s) :: u32) = 0 \<longleftrightarrow> ?s = []"
    unfolding word_unat_eq_iff u by simp
  have "read_u32 (good_stream (write_ustr us @ rest))
      = (word_of_nat (length ?s), good_stream (?s @ rest))"
    by (simp add: write_ustr_def Let_def read_word_good)
  moreover have "decodeUTF8 ?s = us" using p by (simp add: decode_encode_replace replace_unpaired_id)
  ultimately show ?thesis
    using big zero u by (auto simp: read_ustr_def in_read_good)
qed

lemma read_ustr_ok: "read_ustr s = Inr (us, s') \<Longrightarrow> \<not> failbit s \<and> \<not> failbit s'"
  using read_word_ok(1) [of s] by (auto simp: read_ustr_def split: prod.splits if_splits)

lemma read_ustr_extend:
  assumes "read_ustr (good_stream p) = Inr (us, s)"
  shows "\<exists>r. s = good_stream r \<and> (\<forall>q. read_ustr (good_stream (p @ q)) = Inr (us, good_stream (r @ q)))"
proof -
  obtain len s1 where len: "read_u32 (good_stream p) = (len, s1)" by fastforce
  then have f: "\<not> failbit s1" "\<not> len > MaxNameBytes"
    using assms by (auto simp: read_ustr_def split: if_splits)
  obtain p1 where p1: "s1 = good_stream p1"
    and more: "\<And>q. read_u32 (good_stream (p @ q)) = (len, good_stream (p1 @ q))"
    using read_word_extend(1) [OF len f(1)] by blast
  show ?thesis
  proof (cases "len = 0")
    case True
    then show ?thesis using assms f(2) by (auto simp: read_ustr_def len p1 more)
  next
    case False
    then show ?thesis
      using assms f(2) in_read_extend [of "unat len" p1]
      by (auto simp: read_ustr_def len p1 more split: prod.splits if_splits)
  qed
qed


section \<open>Entries\<close>

definition stmt_ok :: "u32 \<Rightarrow> u32 \<Rightarrow> stmt_entry \<Rightarrow> bool" where
  "stmt_ok codeSize prev e \<longleftrightarrow>
     st_offset e \<le> codeSize \<and> st_kind e \<le> FunctionEntry \<and> 0 \<le> sint (st_line e)
     \<and> 0 \<le> sint (st_column e) \<and> prev \<le> st_offset e"

definition local_ok :: "u32 \<Rightarrow> local_var \<Rightarrow> bool" where
  "local_ok codeSize l \<longleftrightarrow>
     ucast (lv_slot l) < maxLocals \<and> lv_startOffset l \<le> lv_endOffset l
     \<and> lv_endOffset l \<le> codeSize \<and> lv_flags l AND NOT knownLocalFlags = 0"

definition upvalue_ok :: "upvalue_info \<Rightarrow> bool" where
  "upvalue_ok u \<longleftrightarrow> ucast (uv_index u) < maxUpvalues \<and> uv_isLocal u \<le> 1"

lemma read_stmt_Inr:
  "read_stmt codeSize (prev, s) = Inr (e, s') \<longleftrightarrow>
     (\<exists>s1 s2 s3 s4. read_u32 s = (st_offset e, s1) \<and> read_u32 s1 = (st_line e, s2)
        \<and> read_u32 s2 = (st_column e, s3) \<and> read_u8 s3 = (st_kind e, s4) \<and> \<not> failbit s4
        \<and> stmt_ok codeSize prev e \<and> s' = (st_offset e, s4))"
  by (cases e) (auto simp: read_stmt_def stmt_ok_def split: prod.splits if_splits)

interpretation stmts: framed_strict
  "\<lambda>prev bs. (prev, good_stream bs)" "stmt_ok codeSize" "\<lambda>_. st_offset" write_stmt "read_stmt codeSize"
  for codeSize
proof unfold_locales
  fix prev x rest
  assume "stmt_ok codeSize prev x"
  then show "read_stmt codeSize (prev, good_stream (write_stmt x @ rest))
      = Inr (x, (st_offset x, good_stream rest))"
    by (simp add: read_stmt_Inr write_stmt_def read_word_good)
next
  fix prev p x s
  assume "read_stmt codeSize (prev, good_stream p) = Inr (x, s)"
  then obtain s1 s2 s3 s4 where r: "read_u32 (good_stream p) = (st_offset x, s1)"
    "read_u32 s1 = (st_line x, s2)" "read_u32 s2 = (st_column x, s3)" "read_u8 s3 = (st_kind x, s4)"
    and f: "\<not> failbit s4" and ok: "stmt_ok codeSize prev x" "s = (st_offset x, s4)"
    unfolding read_stmt_Inr by blast
  have f3: "\<not> failbit s3" using read_word_ok(3) [of s3] r f by simp
  then have f2: "\<not> failbit s2" using read_word_ok(1) [of s2] r by simp
  then have f1: "\<not> failbit s1" using read_word_ok(1) [of s1] r by simp
  from read_word_extend(1) [OF r(1) f1] obtain p1 where p1: "s1 = good_stream p1"
    "\<And>q. read_u32 (good_stream (p @ q)) = (st_offset x, good_stream (p1 @ q))" by blast
  from read_word_extend(1) [OF r(2) [unfolded p1] f2] obtain p2 where p2: "s2 = good_stream p2"
    "\<And>q. read_u32 (good_stream (p1 @ q)) = (st_line x, good_stream (p2 @ q))" by blast
  from read_word_extend(1) [OF r(3) [unfolded p2] f3] obtain p3 where p3: "s3 = good_stream p3"
    "\<And>q. read_u32 (good_stream (p2 @ q)) = (st_column x, good_stream (p3 @ q))" by blast
  from read_word_extend(3) [OF r(4) [unfolded p3] f] obtain p4 where p4: "s4 = good_stream p4"
    "\<And>q. read_u8 (good_stream (p3 @ q)) = (st_kind x, good_stream (p4 @ q))" by blast
  show "\<exists>r. s = (st_offset x, good_stream r)
      \<and> (\<forall>q. read_stmt codeSize (prev, good_stream (p @ q)) = Inr (x, (st_offset x, good_stream (r @ q))))"
    unfolding read_stmt_Inr using ok by (auto simp: p1 p2 p3 p4)
qed simp

lemma read_local_Inr:
  "read_local codeSize s = Inr (l, s') \<longleftrightarrow>
     (\<exists>s1 s2 s3 s4 s5. read_ustr s = Inr (lv_name l, s1) \<and> read_u16 s1 = (lv_slot l, s2)
        \<and> read_u32 s2 = (lv_startOffset l, s3) \<and> read_u32 s3 = (lv_endOffset l, s4)
        \<and> read_u8 s4 = (lv_flags l, s5) \<and> read_ustr s5 = Inr (lv_typeName l, s')
        \<and> \<not> failbit s' \<and> local_ok codeSize l)"
proof (cases "read_ustr s")
  case (Inl e)
  then show ?thesis by (simp add: read_local_def)
next
  case (Inr a)
  obtain name s1 where 1: "a = (name, s1)" by (cases a)
  obtain slot s2 where 2: "read_u16 s1 = (slot, s2)" by (cases "read_u16 s1")
  obtain start s3 where 3: "read_u32 s2 = (start, s3)" by (cases "read_u32 s2")
  obtain fin s4 where 4: "read_u32 s3 = (fin, s4)" by (cases "read_u32 s3")
  obtain flags s5 where 5: "read_u8 s4 = (flags, s5)" by (cases "read_u8 s4")
  have le: "start \<le> codeSize \<and> fin \<le> codeSize \<and> start \<le> fin \<longleftrightarrow> start \<le> fin \<and> fin \<le> codeSize"
    by auto
  show ?thesis
    unfolding read_local_def Inr seq_then_simps 1 prod.case 2 3 4 5
    by (cases l; cases "read_ustr s5") (auto simp: 2 3 4 5 local_ok_def not_le not_less split: if_splits)
qed

lemma read_upvalue_Inr:
  "read_upvalue s = Inr (u, s') \<longleftrightarrow>
     (\<exists>s1 s2. read_ustr s = Inr (uv_name u, s1) \<and> read_u16 s1 = (uv_index u, s2)
        \<and> read_u8 s2 = (uv_isLocal u, s') \<and> \<not> failbit s' \<and> upvalue_ok u)"
proof (cases "read_ustr s")
  case (Inl e)
  then show ?thesis by (simp add: read_upvalue_def)
next
  case (Inr a)
  obtain name s1 where 1: "a = (name, s1)" by (cases a)
  obtain index s2 where 2: "read_u16 s1 = (index, s2)" by (cases "read_u16 s1")
  obtain isLocal s3 where 3: "read_u8 s2 = (isLocal, s3)" by (cases "read_u8 s2")
  show ?thesis
    unfolding read_upvalue_def Inr seq_then_simps 1 prod.case 2 3
    by (cases u) (auto simp: 2 3 upvalue_ok_def not_le not_less split: if_splits)
qed


definition local_wf :: "u32 \<Rightarrow> local_var \<Rightarrow> bool" where
  "local_wf codeSize l \<longleftrightarrow> local_ok codeSize l \<and> name_ok (lv_name l) \<and> name_ok (lv_typeName l)"

definition upvalue_wf :: "upvalue_info \<Rightarrow> bool" where
  "upvalue_wf u \<longleftrightarrow> upvalue_ok u \<and> name_ok (uv_name u)"

interpretation locals: framed_strict
  "\<lambda>_ :: nat. good_stream" "\<lambda>_. local_wf codeSize" "\<lambda>c _. c" write_local "read_local codeSize"
  for codeSize
proof unfold_locales
  fix c :: nat and x rest
  assume "local_wf codeSize x"
  then show "read_local codeSize (good_stream (write_local x @ rest)) = Inr (x, good_stream rest)"
    by (auto simp: read_local_Inr write_local_def local_wf_def read_word_good read_ustr_good)
next
  fix c :: nat and p x s
  assume "read_local codeSize (good_stream p) = Inr (x, s)"
  then obtain s1 s2 s3 s4 s5 where r: "read_ustr (good_stream p) = Inr (lv_name x, s1)"
    "read_u16 s1 = (lv_slot x, s2)" "read_u32 s2 = (lv_startOffset x, s3)"
    "read_u32 s3 = (lv_endOffset x, s4)" "read_u8 s4 = (lv_flags x, s5)"
    "read_ustr s5 = Inr (lv_typeName x, s)" and f: "\<not> failbit s" and ok: "local_ok codeSize x"
    unfolding read_local_Inr by blast
  have f5: "\<not> failbit s5" using read_ustr_ok [OF r(6)] by simp
  then have f4: "\<not> failbit s4" using read_word_ok(3) [of s4] r by simp
  then have f3: "\<not> failbit s3" using read_word_ok(1) [of s3] r by simp
  then have f2: "\<not> failbit s2" using read_word_ok(1) [of s2] r by simp
  from read_ustr_extend [OF r(1)] obtain p1 where p1: "s1 = good_stream p1"
    "\<And>q. read_ustr (good_stream (p @ q)) = Inr (lv_name x, good_stream (p1 @ q))" by blast
  from read_word_extend(2) [OF r(2) [unfolded p1] f2] obtain p2 where p2: "s2 = good_stream p2"
    "\<And>q. read_u16 (good_stream (p1 @ q)) = (lv_slot x, good_stream (p2 @ q))" by blast
  from read_word_extend(1) [OF r(3) [unfolded p2] f3] obtain p3 where p3: "s3 = good_stream p3"
    "\<And>q. read_u32 (good_stream (p2 @ q)) = (lv_startOffset x, good_stream (p3 @ q))" by blast
  from read_word_extend(1) [OF r(4) [unfolded p3] f4] obtain p4 where p4: "s4 = good_stream p4"
    "\<And>q. read_u32 (good_stream (p3 @ q)) = (lv_endOffset x, good_stream (p4 @ q))" by blast
  from read_word_extend(3) [OF r(5) [unfolded p4] f5] obtain p5 where p5: "s5 = good_stream p5"
    "\<And>q. read_u8 (good_stream (p4 @ q)) = (lv_flags x, good_stream (p5 @ q))" by blast
  from read_ustr_extend [OF r(6) [unfolded p5]] obtain p6 where p6: "s = good_stream p6"
    "\<And>q. read_ustr (good_stream (p5 @ q)) = Inr (lv_typeName x, good_stream (p6 @ q))" by blast
  show "\<exists>r. s = good_stream r
      \<and> (\<forall>q. read_local codeSize (good_stream (p @ q)) = Inr (x, good_stream (r @ q)))"
    unfolding read_local_Inr using ok by (auto simp: p1 p2 p3 p4 p5 p6)
qed simp

interpretation upvalues: framed_strict
  "\<lambda>_ :: nat. good_stream" "\<lambda>_. upvalue_wf" "\<lambda>c _. c" write_upvalue read_upvalue
proof unfold_locales
  fix c :: nat and x rest
  assume "upvalue_wf x"
  then show "read_upvalue (good_stream (write_upvalue x @ rest)) = Inr (x, good_stream rest)"
    by (auto simp: read_upvalue_Inr write_upvalue_def upvalue_wf_def read_word_good read_ustr_good)
next
  fix c :: nat and p x s
  assume "read_upvalue (good_stream p) = Inr (x, s)"
  then obtain s1 s2 where r: "read_ustr (good_stream p) = Inr (uv_name x, s1)"
    "read_u16 s1 = (uv_index x, s2)" "read_u8 s2 = (uv_isLocal x, s)"
    and f: "\<not> failbit s" and ok: "upvalue_ok x"
    unfolding read_upvalue_Inr by blast
  have f2: "\<not> failbit s2" using read_word_ok(3) [of s2] r f by simp
  from read_ustr_extend [OF r(1)] obtain p1 where p1: "s1 = good_stream p1"
    "\<And>q. read_ustr (good_stream (p @ q)) = Inr (uv_name x, good_stream (p1 @ q))" by blast
  from read_word_extend(2) [OF r(2) [unfolded p1] f2] obtain p2 where p2: "s2 = good_stream p2"
    "\<And>q. read_u16 (good_stream (p1 @ q)) = (uv_index x, good_stream (p2 @ q))" by blast
  from read_word_extend(3) [OF r(3) [unfolded p2] f] obtain p3 where p3: "s = good_stream p3"
    "\<And>q. read_u8 (good_stream (p2 @ q)) = (uv_isLocal x, good_stream (p3 @ q))" by blast
  show "\<exists>r. s = good_stream r
      \<and> (\<forall>q. read_upvalue (good_stream (p @ q)) = Inr (x, good_stream (r @ q)))"
    unfolding read_upvalue_Inr using ok by (auto simp: p1 p2 p3)
qed simp


section \<open>Whole tables\<close>

text \<open>What the compiler's tables satisfy, and what the reader enforces on any input.\<close>

definition debug_valid :: "u32 \<Rightarrow> debug_info \<Rightarrow> bool" where
  "debug_valid codeSize di \<longleftrightarrow>
     length (di_stmts di) \<le> unat (codeSize + 16)
     \<and> list_all (stmt_ok codeSize 0) (di_stmts di) \<and> sorted (map st_offset (di_stmts di))
     \<and> length (di_locals di) \<le> 512 \<and> list_all (local_ok codeSize) (di_locals di)
     \<and> length (di_upvalues di) \<le> 256 \<and> list_all upvalue_ok (di_upvalues di)"

definition debug_names_ok :: "debug_info \<Rightarrow> bool" where
  "debug_names_ok di \<longleftrightarrow>
     list_all (\<lambda>l. name_ok (lv_name l) \<and> name_ok (lv_typeName l)) (di_locals di)
     \<and> list_all (\<lambda>u. name_ok (uv_name u)) (di_upvalues di)"

lemma stmts_ok_seq:
  "stmts.ok_seq codeSize prev es \<longleftrightarrow>
     list_all (stmt_ok codeSize prev) es \<and> sorted (map st_offset es)"
proof (induction es arbitrary: prev)
  case Nil
  then show ?case by simp
next
  case (Cons e es)
  have "list_all (stmt_ok codeSize (st_offset e)) es \<longleftrightarrow>
      list_all (stmt_ok codeSize prev) es \<and> (\<forall>x \<in> set es. st_offset e \<le> st_offset x)"
    if "prev \<le> st_offset e"
    using that by (auto simp: list_all_iff stmt_ok_def)
  moreover have "stmt_ok codeSize prev e \<Longrightarrow> prev \<le> st_offset e" by (simp add: stmt_ok_def)
  ultimately show ?case by (auto simp: Cons.IH)
qed

lemma locals_ok_seq: "locals.ok_seq codeSize (c :: nat) ls \<longleftrightarrow> list_all (local_wf codeSize) ls"
  by (induction ls) auto

lemma upvalues_ok_seq: "upvalues.ok_seq (c :: nat) us \<longleftrightarrow> list_all upvalue_wf us"
  by (induction us) auto

lemma foldl_const: "foldl (\<lambda>c _. c) c xs = c"
  by (induction xs) auto

lemma read_count_good:
  "n \<le> unat bound \<Longrightarrow>
     read_count bound err (good_stream (write_u32 (word_of_nat n) @ rest)) = Inr (n, good_stream rest)"
proof -
  assume n: "n \<le> unat bound"
  moreover have "unat bound < 2 ^ 32" using unsigned_less [of bound, where ?'a = nat] by simp
  ultimately have "unat (word_of_nat n :: u32) = n" by (simp add: unat_of_nat)
  with n show ?thesis by (simp add: read_count_def read_word_good word_less_nat_alt)
qed

lemma read_count_Inr:
  "read_count bound err s = Inr (n, s') \<Longrightarrow> n \<le> unat bound \<and> \<not> failbit s'"
  by (auto simp: read_count_def word_less_nat_alt split: prod.splits if_splits)

lemma read_count_extend:
  assumes "read_count bound err (good_stream p) = Inr (n, s)"
  shows "\<exists>r. s = good_stream r \<and>
    (\<forall>q. read_count bound err (good_stream (p @ q)) = Inr (n, good_stream (r @ q)))"
proof -
  obtain v s1 where v: "read_u32 (good_stream p) = (v, s1)" by fastforce
  then have "\<not> failbit s1" "\<not> bound < v" "s = s1" "n = unat v"
    using assms by (auto simp: read_count_def split: if_splits)
  with read_word_extend(1) [OF v] show ?thesis by (auto simp: read_count_def)
qed

lemmas debug_reader = debug_deserialize_def seq_then_eq_Inr

lemma debug_roundtrip_good:
  assumes "debug_valid codeSize di" "debug_names_ok di"
  shows "debug_deserialize codeSize (good_stream (debug_serialize di @ rest)) = Inr (di, good_stream rest)"
proof -
  note v = assms(1) [unfolded debug_valid_def]
  have s: "stmts.ok_seq codeSize 0 (di_stmts di)" using v by (simp add: stmts_ok_seq)
  have l: "locals.ok_seq codeSize 0 (di_locals di)"
    using assms by (auto simp: debug_valid_def debug_names_ok_def locals_ok_seq local_wf_def list_all_iff)
  have u: "upvalues.ok_seq 0 (di_upvalues di)"
    using assms by (auto simp: debug_valid_def debug_names_ok_def upvalues_ok_seq upvalue_wf_def list_all_iff)
  have b: "length (di_locals di) \<le> unat maxLocals" "length (di_upvalues di) \<le> unat maxUpvalues"
    using v by (simp_all add: maxLocals_def maxUpvalues_def)
  show ?thesis
    using stmts.seq_roundtrip [OF s] locals.seq_roundtrip [OF l] upvalues.seq_roundtrip [OF u] v b
    by (simp add: debug_deserialize_def debug_serialize_def read_count_good foldl_const)
qed

lemma debug_extend:
  assumes "debug_deserialize codeSize (good_stream p) = Inr (di, s)"
  shows "\<exists>r. s = good_stream r \<and>
    (\<forall>q. debug_deserialize codeSize (good_stream (p @ q)) = Inr (di, good_stream (r @ q)))"
proof -
  obtain n1 s1 where n1: "read_count (codeSize + 16) Malformed_Stmt_Count (good_stream p) = Inr (n1, s1)"
    using assms by (auto simp: debug_reader)
  obtain p1 where p1: "s1 = good_stream p1" and q1: "\<And>q. read_count (codeSize + 16) Malformed_Stmt_Count
      (good_stream (p @ q)) = Inr (n1, good_stream (p1 @ q))"
    using read_count_extend [OF n1] by blast
  obtain es prev s2 where es: "read_n n1 (read_stmt codeSize) (0, s1) = Inr (es, (prev, s2))"
    using assms by (auto simp: debug_reader n1)
  obtain p2 where p2: "s2 = good_stream p2" and q2: "\<And>q. read_n n1 (read_stmt codeSize)
      (0, good_stream (p1 @ q)) = Inr (es, (prev, good_stream (p2 @ q)))"
    using stmts.seq_extend [OF es [unfolded p1]] by auto
  obtain n2 s3 where n2: "read_count maxLocals Malformed_Local_Count s2 = Inr (n2, s3)"
    using assms by (auto simp: debug_reader n1 es)
  obtain p3 where p3: "s3 = good_stream p3" and q3: "\<And>q. read_count maxLocals Malformed_Local_Count
      (good_stream (p2 @ q)) = Inr (n2, good_stream (p3 @ q))"
    using read_count_extend [OF n2 [unfolded p2]] by blast
  obtain ls s4 where ls: "read_n n2 (read_local codeSize) s3 = Inr (ls, s4)"
    using assms by (auto simp: debug_reader n1 es n2)
  obtain p4 where p4: "s4 = good_stream p4" and q4: "\<And>q. read_n n2 (read_local codeSize)
      (good_stream (p3 @ q)) = Inr (ls, good_stream (p4 @ q))"
    using locals.seq_extend [OF ls [unfolded p3]] by auto
  obtain n3 s5 where n3: "read_count maxUpvalues Malformed_Upvalue_Count s4 = Inr (n3, s5)"
    using assms by (auto simp: debug_reader n1 es n2 ls)
  obtain p5 where p5: "s5 = good_stream p5" and q5: "\<And>q. read_count maxUpvalues Malformed_Upvalue_Count
      (good_stream (p4 @ q)) = Inr (n3, good_stream (p5 @ q))"
    using read_count_extend [OF n3 [unfolded p4]] by blast
  obtain us where us: "read_n n3 read_upvalue s5 = Inr (us, s)"
    and di: "di = \<lparr>di_stmts = es, di_locals = ls, di_upvalues = us\<rparr>"
    using assms by (auto simp: debug_reader n1 es n2 ls n3)
  obtain p6 where p6: "s = good_stream p6" and q6: "\<And>q. read_n n3 read_upvalue
      (good_stream (p5 @ q)) = Inr (us, good_stream (p6 @ q))"
    using upvalues.seq_extend [OF us [unfolded p5]] by auto
  show ?thesis
    by (intro exI [of _ p6]) (simp add: p6 di debug_deserialize_def q1 q2 q3 q4 q5 q6)
qed


lemma upper_bound_loop_count:
  assumes "sorted (map st_offset es)" "lo + len \<le> length es"
    and "\<forall>i < lo. st_offset (es ! i) \<le> off"
    and "\<forall>i. lo + len \<le> i \<longrightarrow> i < length es \<longrightarrow> off < st_offset (es ! i)"
  shows "upper_bound_loop es off lo len \<le> length es
    \<and> (\<forall>i < length es. i < upper_bound_loop es off lo len \<longleftrightarrow> st_offset (es ! i) \<le> off)"
  using assms
proof (induction es off lo len rule: upper_bound_loop.induct)
  case (1 es off first)
  then show ?case by (auto simp: not_le not_less)
next
  case (2 es off lo len)
  let ?half = "Suc len div 2" and ?mid = "lo + Suc len div 2"
  have mono: "st_offset (es ! i) \<le> st_offset (es ! j)" if "i \<le> j" "j < length es" for i j
    using sorted_nth_mono [OF "2.prems"(1), of i j] that by simp
  have mid: "?mid < length es" using "2.prems"(2) by simp
  show ?case
  proof (cases "off < st_offset (es ! ?mid)")
    case True
    have "\<forall>i. ?mid \<le> i \<longrightarrow> i < length es \<longrightarrow> off < st_offset (es ! i)"
      using True mono by (meson less_le_trans)
    with "2.IH"(1) [OF refl refl True] "2.prems" True show ?thesis by (simp add: Let_def)
  next
    case False
    have "\<forall>i < ?mid + 1. st_offset (es ! i) \<le> off"
      using False order_trans [OF mono [OF _ mid]] by (simp add: less_Suc_eq_le not_less)
    moreover have "?mid + 1 + (len - ?half) = lo + Suc len" by simp
    ultimately show ?thesis
      using "2.IH"(2) [OF refl refl False] "2.prems" False by (simp add: Let_def)
  qed
qed


lemma read_n_stmts_valid:
  "read_n n (read_stmt codeSize) (prev, s) = Inr (es, (prev', s')) \<Longrightarrow> stmts.ok_seq codeSize prev es"
proof (induction n arbitrary: prev s es)
  case (Suc n)
  then obtain e s1 fs where e: "read_stmt codeSize (prev, s) = Inr (e, s1)"
    and fs: "read_n n (read_stmt codeSize) s1 = Inr (fs, (prev', s'))" "es = e # fs"
    by (auto simp: seq_then_eq_Inr)
  from e obtain s4 where "s1 = (st_offset e, s4)" "stmt_ok codeSize prev e"
    by (auto simp: read_stmt_Inr)
  with Suc.IH fs show ?case by auto
qed simp

section \<open>Properties\<close>

text \<open>
  C31. The debug metadata of a chunk survives serialization: reading back what was written gives
  the same statement, local and upvalue tables and leaves the bytes that follow, for tables within
  the compiler's limits whose names are well-formed and at most 64 KB.
\<close>

theorem debug_info_roundtrip:
  assumes "debug_valid codeSize di" "debug_names_ok di"
  shows "debug_deserialize codeSize (good_stream (debug_serialize di @ rest)) = Inr (di, good_stream rest)"
  using assms by (rule debug_roundtrip_good)

definition sample_debug :: debug_info where
  "sample_debug =
     \<lparr>di_stmts = [\<lparr>st_offset = 0, st_line = 1, st_column = 0, st_kind = 1\<rparr>,
                  \<lparr>st_offset = 4, st_line = 2, st_column = 2, st_kind = 0\<rparr>],
      di_locals = [\<lparr>lv_name = [0x78], lv_slot = 1, lv_startOffset = 2, lv_endOffset = 9, lv_flags = 5,
                    lv_typeName = []\<rparr>],
      di_upvalues = [\<lparr>uv_name = [0xe9], uv_index = 0, uv_isLocal = 1\<rparr>]\<rparr>"

lemma sample_debug_valid: "debug_valid 10 sample_debug" "debug_names_ok sample_debug"
  by (simp_all add: debug_valid_def debug_names_ok_def sample_debug_def stmt_ok_def local_ok_def
      upvalue_ok_def name_ok_def maxLocals_def maxUpvalues_def FunctionEntry_def knownLocalFlags_def
      DebugLocalParam_def DebugLocalCaptured_def DebugLocalConst_def DebugLocalTypeConst_def
      DebugLocalSynthetic_def encode_code_point_def high_surrogate_def low_surrogate_def)

theorem debug_info_roundtrip_witness:
  "debug_deserialize 10 (good_stream (debug_serialize sample_debug @ [42]))
     = Inr (sample_debug, good_stream [42])"
  by (rule debug_info_roundtrip [OF sample_debug_valid])

text \<open>
  C32. Whatever the input bytes, tables the reader accepts are within bounds: statement offsets
  ascend and stay inside the code, live ranges are ordered and inside the code, slots, upvalue
  indices and flags are legal, counts are limited, and the stream has not failed.
\<close>

theorem debug_input_validated:
  assumes "debug_deserialize codeSize s = Inr (di, s')"
  shows "debug_valid codeSize di"
proof -
  obtain n1 s1 es prev s2 n2 s3 ls s4 n3 s5 us where
    r: "read_count (codeSize + 16) Malformed_Stmt_Count s = Inr (n1, s1)"
      "read_n n1 (read_stmt codeSize) (0, s1) = Inr (es, (prev, s2))"
      "read_count maxLocals Malformed_Local_Count s2 = Inr (n2, s3)"
      "read_n n2 (read_local codeSize) s3 = Inr (ls, s4)"
      "read_count maxUpvalues Malformed_Upvalue_Count s4 = Inr (n3, s5)"
      "read_n n3 read_upvalue s5 = Inr (us, s')"
    and di: "di = \<lparr>di_stmts = es, di_locals = ls, di_upvalues = us\<rparr>"
    using assms by (auto simp: debug_reader)
  have l: "list_all (local_ok codeSize) ls"
    by (rule read_n_all [OF _ r(4)]) (auto simp add: read_local_Inr)
  have u: "list_all upvalue_ok us"
    by (rule read_n_all [OF _ r(6)]) (auto simp add: read_upvalue_Inr)
  have e: "list_all (stmt_ok codeSize 0) es \<and> sorted (map st_offset es)"
    using read_n_stmts_valid [OF r(2)] by (simp add: stmts_ok_seq)
  have "length es = n1" "length ls = n2" "length us = n3"
    using r(2,4,6) by (auto dest: read_n_length)
  moreover have "n1 \<le> unat (codeSize + 16)" "n2 \<le> unat maxLocals" "n3 \<le> unat maxUpvalues"
    using r(1,3,5) by (auto dest: read_count_Inr)
  ultimately show ?thesis
    using l u e by (simp add: debug_valid_def di maxLocals_def maxUpvalues_def)
qed

theorem debug_input_validated_witness: "debug_valid 10 sample_debug"
  by (rule debug_input_validated [OF debug_roundtrip_good [OF sample_debug_valid, of "[]"]])

text \<open>
  C33. Truncation never goes unnoticed: every proper prefix of a serialized table is rejected.
\<close>

theorem debug_truncation_detected:
  assumes "debug_valid codeSize di" "debug_names_ok di"
    and "debug_serialize di = p @ q" "q \<noteq> []"
  shows "\<exists>e. debug_deserialize codeSize (good_stream p) = Inl e"
proof (cases "debug_deserialize codeSize (good_stream p)")
  case (Inl e)
  then show ?thesis by blast
next
  case (Inr a)
  obtain d s where a: "a = (d, s)" by (cases a)
  from debug_extend [OF Inr [unfolded a]] obtain r where
    "debug_deserialize codeSize (good_stream (p @ q)) = Inr (d, good_stream (r @ q))" by blast
  then show ?thesis
    using debug_roundtrip_good [OF assms(1,2), of "[]"] assms(3,4) by simp
qed

theorem debug_truncation_detected_witness:
  "\<exists>e. debug_deserialize 10 (good_stream (take 20 (debug_serialize sample_debug))) = Inl e"
proof (rule debug_truncation_detected [OF sample_debug_valid])
  show "debug_serialize sample_debug
      = take 20 (debug_serialize sample_debug) @ drop 20 (debug_serialize sample_debug)" by simp
  show "drop 20 (debug_serialize sample_debug) \<noteq> []"
    by (simp add: debug_serialize_def sample_debug_def write_stmt_def write_u32_def write_u8_def)
qed

text \<open>
  On tables in code order, statement lookup by bisection returns the last statement at or
  before the code offset, and \<open>-1\<close> exactly when every statement starts after it.
\<close>

theorem debugLocateStatement_last:
  assumes "sorted (map st_offset (di_stmts di))"
  shows "-1 \<le> debugLocateStatement di off \<and> debugLocateStatement di off < int (length (di_stmts di))
    \<and> (\<forall>i < length (di_stmts di).
         (int i \<le> debugLocateStatement di off) = (st_offset (di_stmts di ! i) \<le> off))"
  using upper_bound_loop_count [of "di_stmts di" 0 "length (di_stmts di)" off] assms
  by (auto simp: debugLocateStatement_def Let_def)

theorem debugLocateStatement_last_witness: "debugLocateStatement sample_debug 7 = 1"
proof -
  have s: "sorted (map st_offset (di_stmts sample_debug))"
    using sample_debug_valid by (simp add: debug_valid_def)
  note last = debugLocateStatement_last [OF s, of 7]
  have len: "length (di_stmts sample_debug) = 2" and e: "st_offset (di_stmts sample_debug ! 1) = 4"
    by (simp_all add: sample_debug_def)
  have "int 1 \<le> debugLocateStatement sample_debug 7" "debugLocateStatement sample_debug 7 < 2"
    using last conjunct2 [OF conjunct2 [OF last], rule_format, of 1] e by (simp_all add: len)
  then show ?thesis by simp
qed

end
