(* ===== verification/Chunk_Code.thy ===== *)
theory Chunk_Code
  imports Call_Spec Debug_Info Value_Codec
begin

text \<open>
  \<open>Chunk\<close> of \<open>compiler/Chunk.h\<close> and \<open>compiler/Chunk.cpp\<close>: bytecode with its constant pool and its
  sparse line table, the disassembler, and the serialized form used by module caches and compute
  payloads.  An opcode is its enumerator's number; the table \<open>opcode_table\<close> lists, in enumerator
  order, the mnemonic and operand format the disassembler gives each.  A constant is a data value of
  \<open>Value_Codec\<close> or a function, of which only the upvalue count is kept.  The printed text is modelled
  as the list of decoded operands.
\<close>

section \<open>Data\<close>

record line_entry =
  le_offset :: nat
  le_line :: int
  le_column :: int

datatype chunk_const = Const_Value rvalue | Const_Function nat

record chunk =
  packageName :: ustring
  moduleName :: ustring
  sourceName :: ustring
  code :: "byte list"
  constants :: "chunk_const list"
  lineTable :: "line_entry list"
  debugInfo :: "debug_info option"

definition new_chunk :: "ustring \<Rightarrow> ustring \<Rightarrow> ustring \<Rightarrow> chunk" where
  "new_chunk pkg mdl src =
     \<lparr>packageName = pkg, moduleName = mdl, sourceName = src, code = [], constants = [],
      lineTable = [], debugInfo = None\<rparr>"

datatype chunk_error =
  Out_Of_Range
| Max_Constants_Exceeded
| Bad_Call_Spec call_error
| Not_A_Function_Constant
| Bad_Value value_error
| Bad_Debug_Info debug_error
| Truncated_Before_Tier
| Unknown_Tier byte
| Indeterminate_Field

section \<open>Opcodes\<close>

datatype op_format =
  F_simple | F_byte | F_arg | F_arg2 | F_constant | F_constant_index | F_arg_index
| F_jump | F_jump_back | F_call | F_invoke | F_invoke_overload | F_closure | F_assert

definition opcode_table :: "(string \<times> op_format) list" where
  "opcode_table =
     [(''NOP'', F_simple), (''CONSTANT'', F_constant), (''CONST_NIL'', F_simple),
      (''CONST_TRUE'', F_simple), (''CONST_FALSE'', F_simple), (''CONST_INT0'', F_simple),
      (''CONST_INT1'', F_simple), (''EQUAL'', F_simple), (''NOT_EQUAL'', F_simple),
      (''IS'', F_simple), (''IN'', F_simple), (''GREATER'', F_simple), (''LESS'', F_simple),
      (''GREATER_EQUAL'', F_simple), (''LESS_EQUAL'', F_simple), (''ADD'', F_simple),
      (''SUBTRACT'', F_simple), (''MULTIPLY'', F_simple), (''DIVIDE'', F_simple),
      (''MODULO'', F_simple), (''NEGATE'', F_simple), (''AND'', F_simple), (''OR'', F_simple),
      (''BIT_AND'', F_simple), (''BIT_OR'', F_simple), (''BIT_XOR'', F_simple),
      (''BIT_NOT'', F_simple), (''POP'', F_simple), (''POPN'', F_byte),
      (''STMT_ACTION'', F_simple), (''DUP'', F_simple), (''DUP_BELOW'', F_simple),
      (''SWAP'', F_simple), (''JUMP_IF_FALSE'', F_jump), (''JUMP_IF_TRUE'', F_jump),
      (''JUMP'', F_jump), (''LOOP'', F_jump_back), (''CALL'', F_call), (''REMOTE_CALL'', F_call),
      (''INDEX'', F_byte), (''SET_INDEX'', F_byte), (''INVOKE'', F_invoke),
      (''CLOSURE'', F_closure), (''CLOSE_UPVALUE'', F_simple), (''RETURN'', F_simple),
      (''RETURN_STORE'', F_simple), (''OBJECT_TYPE'', F_constant), (''ACTOR_TYPE'', F_constant),
      (''INTERFACE_TYPE'', F_constant), (''ENUMERATION_TYPE'', F_constant),
      (''EVENT_TYPE'', F_constant), (''PROPERTY'', F_constant), (''METHOD'', F_constant),
      (''ENUM_LABEL'', F_constant), (''EVENT_PAYLOAD'', F_constant),
      (''EVENT_EXTEND'', F_simple), (''EXTEND'', F_simple), (''IMPLEMENTS'', F_simple),
      (''DEFINE_MODULE_VAR'', F_constant), (''DEFINE_MODULE_CONST'', F_constant),
      (''GET_MODULE_VAR'', F_constant), (''GET_MODULE_VAR_SIGNAL'', F_constant),
      (''SET_MODULE_VAR'', F_constant), (''SET_NEW_MODULE_VAR'', F_constant),
      (''IMPORT_MODULE_VARS'', F_simple), (''GET_UPVALUE'', F_arg), (''SET_UPVALUE'', F_arg),
      (''GET_LOCAL'', F_arg), (''SET_LOCAL'', F_arg), (''GET_PROP_SIGNAL'', F_constant),
      (''SET_PROP'', F_constant), (''GET_PROP'', F_constant), (''SET_PROP_CHECK'', F_constant),
      (''GET_PROP_CHECK'', F_constant), (''GET_SUPER'', F_constant), (''NEWRANGE'', F_byte),
      (''NEWLIST'', F_byte), (''NEWDICT'', F_byte), (''NEWVECTOR'', F_byte),
      (''NEWMATRIX'', F_byte), (''IF_DICT_TO_KEYS'', F_simple), (''IF_DICT_TO_ITEMS'', F_simple),
      (''TO_TYPE'', F_byte), (''TO_TYPE_STRICT'', F_byte), (''TO_TYPE_SPEC'', F_simple),
      (''TO_TYPE_SPEC_STRICT'', F_simple), (''EVENT_ON'', F_byte), (''EVENT_OFF'', F_simple),
      (''SETUP_EXCEPT'', F_jump), (''END_EXCEPT'', F_simple), (''THROW'', F_simple),
      (''COPY_INTO'', F_simple), (''SET_PROP_ACCESSOR'', F_constant), (''MAKE_CONST'', F_simple),
      (''MOVE_LOCAL'', F_arg), (''MOVE_MODULE_VAR'', F_constant), (''MOVE_PROP'', F_constant),
      (''NESTED_TYPE'', F_constant), (''DEFINE_MODULE_OVERLOAD'', F_constant),
      (''GET_OVERLOAD_AT'', F_constant_index), (''DEFINE_LOCAL_OVERLOAD'', F_arg),
      (''GET_LOCAL_OVERLOAD_AT'', F_arg_index), (''INVOKE_OVERLOAD_AT'', F_invoke_overload),
      (''POP_TO_COUNT'', F_arg2), (''TO_STRING_PART'', F_simple), (''CONCAT'', F_byte),
      (''CHECK_RETURN_LIST'', F_byte), (''CHECK_DECL_LIST'', F_byte),
      (''AND_SHORT_CIRCUIT'', F_jump), (''OR_SHORT_CIRCUIT'', F_jump),
      (''ASSERT_FAIL'', F_assert), (''IMPORT_MODULE'', F_constant)]"

abbreviation (input) OpNop :: nat where "OpNop \<equiv> 0"
abbreviation (input) OpConstant :: nat where "OpConstant \<equiv> 1"
abbreviation (input) OpConstNil :: nat where "OpConstNil \<equiv> 2"
abbreviation (input) OpPop :: nat where "OpPop \<equiv> 27"
abbreviation (input) OpLoop :: nat where "OpLoop \<equiv> 36"
abbreviation (input) OpCall :: nat where "OpCall \<equiv> 37"
abbreviation (input) OpRemoteCall :: nat where "OpRemoteCall \<equiv> 38"
abbreviation (input) OpInvoke :: nat where "OpInvoke \<equiv> 41"
abbreviation (input) OpClosure :: nat where "OpClosure \<equiv> 42"
abbreviation (input) OpCloseUpvalue :: nat where "OpCloseUpvalue \<equiv> 43"
abbreviation (input) OpReturn :: nat where "OpReturn \<equiv> 44"
abbreviation (input) OpGetLocal :: nat where "OpGetLocal \<equiv> 67"
abbreviation (input) OpInvokeOverloadAt :: nat where "OpInvokeOverloadAt \<equiv> 102"
abbreviation (input) OpPopToCount :: nat where "OpPopToCount \<equiv> 103"

definition DoubleByteArg :: byte where "DoubleByteArg = 0x80"
definition asByte :: "nat \<Rightarrow> byte" where "asByte op = word_of_nat op"

section \<open>Writing\<close>

definition chunk_write :: "byte \<Rightarrow> int \<Rightarrow> int \<Rightarrow> chunk \<Rightarrow> chunk" where
  "chunk_write b line column c =
     (let c1 = c\<lparr>code := code c @ [b]\<rparr> in
      if lineTable c1 = [] \<or> le_line (last (lineTable c1)) \<noteq> line
         \<or> le_column (last (lineTable c1)) \<noteq> column
      then c1\<lparr>lineTable := lineTable c1
                @ [\<lparr>le_offset = length (code c1) - 1, le_line = line, le_column = column\<rparr>]\<rparr>
      else c1)"

definition addConstant :: "chunk_const \<Rightarrow> chunk \<Rightarrow> nat \<times> chunk" where
  "addConstant v c = (let c1 = c\<lparr>constants := constants c @ [v]\<rparr> in (length (constants c1) - 1, c1))"

definition writeConsant :: "chunk_const \<Rightarrow> int \<Rightarrow> int \<Rightarrow> chunk \<Rightarrow> chunk_error + chunk" where
  "writeConsant v line column c =
     (case addConstant v c of (k, c1) \<Rightarrow>
       if k > 255 then Inl Max_Constants_Exceeded
       else Inr (chunk_write (word_of_nat k) line column
                  (chunk_write (asByte OpConstant) line column c1)))"

definition lastByte :: "chunk \<Rightarrow> byte" where
  "lastByte c = (if code c = [] then asByte OpNop else last (code c))"

fun line_scan :: "line_entry list \<Rightarrow> nat \<Rightarrow> line_entry \<Rightarrow> line_entry" where
  "line_scan [] offset entry = entry"
| "line_scan (e # es) offset entry =
     (if le_offset e > offset then entry else line_scan es offset e)"

definition line_entry_at :: "chunk \<Rightarrow> nat \<Rightarrow> line_entry" where
  "line_entry_at c offset =
     line_scan (lineTable c) offset
       \<lparr>le_offset = 0, le_line = le_line (hd (lineTable c)), le_column = le_column (hd (lineTable c))\<rparr>"

definition getLine :: "chunk \<Rightarrow> nat \<Rightarrow> int" where
  "getLine c offset = (if lineTable c = [] then -1 else le_line (line_entry_at c offset))"

definition getColumn :: "chunk \<Rightarrow> nat \<Rightarrow> int" where
  "getColumn c offset = (if lineTable c = [] then -1 else le_column (line_entry_at c offset))"

section \<open>Disassembling\<close>

text \<open>What is printed for one instruction (mnemonic and operands) and the offset that follows.\<close>

record disasm =
  d_name :: string
  d_operands :: "int list"
  d_next :: nat

definition code_at :: "chunk \<Rightarrow> nat \<Rightarrow> chunk_error + nat" where
  "code_at c i = (if i < length (code c) then Inr (unat (code c ! i)) else Inl Out_Of_Range)"

definition constant_at :: "chunk \<Rightarrow> nat \<Rightarrow> chunk_error + chunk_const" where
  "constant_at c i = (if i < length (constants c) then Inr (constants c ! i) else Inl Out_Of_Range)"

text \<open>A one- or two-byte argument at \<open>cur\<close>, the more significant byte first.\<close>

definition read_arg :: "chunk \<Rightarrow> nat \<Rightarrow> bool \<Rightarrow> chunk_error + (nat \<times> nat)" where
  "read_arg c cur doubleByteArg =
     (if doubleByteArg then
        seq_then (code_at c cur) (\<lambda>hi. seq_then (code_at c (cur + 1)) (\<lambda>lo.
          Inr (hi * 256 + lo, cur + 2)))
      else seq_then (code_at c cur) (\<lambda>a. Inr (a, cur + 1)))"

definition printed :: "string \<Rightarrow> int list \<Rightarrow> nat \<Rightarrow> disasm" where
  "printed name operands nxt = \<lparr>d_name = name, d_operands = operands, d_next = nxt\<rparr>"

definition simpleInstruction :: "string \<Rightarrow> chunk \<Rightarrow> nat \<Rightarrow> chunk_error + disasm" where
  "simpleInstruction name c offset = Inr (printed name [] (offset + 1))"

definition byteInstruction :: "string \<Rightarrow> chunk \<Rightarrow> nat \<Rightarrow> chunk_error + disasm" where
  "byteInstruction name c offset =
     seq_then (code_at c (offset + 1)) (\<lambda>arg. Inr (printed name [int arg] (offset + 2)))"

definition argInstruction :: "string \<Rightarrow> chunk \<Rightarrow> nat \<Rightarrow> bool \<Rightarrow> chunk_error + disasm" where
  "argInstruction name c offset doubleByteArg =
     seq_then (read_arg c (offset + 1) doubleByteArg) (\<lambda>(arg, cur). Inr (printed name [int arg] cur))"

definition jumpInstruction :: "string \<Rightarrow> int \<Rightarrow> chunk \<Rightarrow> nat \<Rightarrow> chunk_error + disasm" where
  "jumpInstruction name sign c offset =
     seq_then (read_arg c (offset + 1) True) (\<lambda>(arg, cur).
       Inr (printed name [int arg, int offset + 3 + sign * int arg] (offset + 3)))"

definition constantInstruction :: "string \<Rightarrow> chunk \<Rightarrow> nat \<Rightarrow> bool \<Rightarrow> chunk_error + disasm" where
  "constantInstruction name c offset doubleByteArg =
     seq_then (read_arg c (offset + 1) doubleByteArg) (\<lambda>(k, cur).
       seq_then (constant_at c k) (\<lambda>v. Inr (printed name [int k] cur)))"

definition invokeInstruction :: "string \<Rightarrow> chunk \<Rightarrow> nat \<Rightarrow> chunk_error + disasm" where
  "invokeInstruction name c offset =
     seq_then (code_at c (offset + 1)) (\<lambda>k. seq_then (code_at c (offset + 2)) (\<lambda>argCount.
       seq_then (constant_at c k) (\<lambda>v.
         Inr (printed name [int argCount, int k] (offset + 3)))))"

definition constantPlusIndexInstruction :: "string \<Rightarrow> chunk \<Rightarrow> nat \<Rightarrow> bool \<Rightarrow> chunk_error + disasm" where
  "constantPlusIndexInstruction name c offset doubleByteArg =
     seq_then (read_arg c (offset + 1) doubleByteArg) (\<lambda>(k, cur).
     seq_then (read_arg c cur True) (\<lambda>(index, cur2).
     seq_then (constant_at c k) (\<lambda>v. Inr (printed name [int index, int k] cur2))))"

definition argPlusIndexInstruction :: "string \<Rightarrow> chunk \<Rightarrow> nat \<Rightarrow> bool \<Rightarrow> chunk_error + disasm" where
  "argPlusIndexInstruction name c offset doubleByteArg =
     seq_then (read_arg c (offset + 1) doubleByteArg) (\<lambda>(arg, cur).
     seq_then (read_arg c cur True) (\<lambda>(index, cur2). Inr (printed name [int index, int arg] cur2)))"

definition invokeOverloadAtInstruction :: "string \<Rightarrow> chunk \<Rightarrow> nat \<Rightarrow> bool \<Rightarrow> chunk_error + disasm" where
  "invokeOverloadAtInstruction name c offset doubleByteArg =
     seq_then (read_arg c (offset + 1) doubleByteArg) (\<lambda>(k, cur).
     seq_then (read_arg c cur True) (\<lambda>(index, cur2).
     seq_then (code_at c cur2) (\<lambda>argCount.
     seq_then (constant_at c k) (\<lambda>v.
       Inr (printed name [int index, int argCount, int k] (cur2 + 1))))))"

text \<open>The \<open>CALL\<close> and \<open>REMOTE_CALL\<close> cases: the length is that of the re-encoded call specification.\<close>

definition callInstruction :: "string \<Rightarrow> chunk \<Rightarrow> nat \<Rightarrow> chunk_error + disasm" where
  "callInstruction name c offset =
     seq_then (byteInstruction name c offset) (\<lambda>d.
       case callspec_decode (drop (offset + 1) (code c)) of
         Inl e \<Rightarrow> Inl (Bad_Call_Spec e)
       | Inr (cs, rest) \<Rightarrow>
           (case callspec_toBytes cs of
              Inl e \<Rightarrow> Inl (Bad_Call_Spec e)
            | Inr bytes \<Rightarrow> Inr (d\<lparr>d_next := offset + 1 + length bytes\<rparr>)))"

fun upvalue_pairs :: "chunk \<Rightarrow> nat \<Rightarrow> nat \<Rightarrow> chunk_error + (int list \<times> nat)" where
  "upvalue_pairs c offset 0 = Inr ([], offset)"
| "upvalue_pairs c offset (Suc n) =
     seq_then (code_at c offset) (\<lambda>isLocal. seq_then (code_at c (offset + 1)) (\<lambda>index.
     seq_then (upvalue_pairs c (offset + 2) n) (\<lambda>(ps, nxt). Inr (int isLocal # int index # ps, nxt))))"

definition closureInstruction :: "string \<Rightarrow> chunk \<Rightarrow> nat \<Rightarrow> bool \<Rightarrow> chunk_error + disasm" where
  "closureInstruction name c offset doubleByteArg =
     seq_then (read_arg c (offset + 1) doubleByteArg) (\<lambda>(k, cur).
     seq_then (constant_at c k) (\<lambda>v.
       case v of
         Const_Value x \<Rightarrow> Inl Not_A_Function_Constant
       | Const_Function upvalueCount \<Rightarrow>
           seq_then (upvalue_pairs c cur upvalueCount) (\<lambda>(ps, nxt).
             Inr (printed name (int k # ps) nxt))))"

definition assertFailInstruction :: "string \<Rightarrow> chunk \<Rightarrow> nat \<Rightarrow> chunk_error + disasm" where
  "assertFailInstruction name c offset =
     seq_then (code_at c (offset + 1)) (\<lambda>flags. seq_then (read_arg c (offset + 2) True) (\<lambda>(k, cur).
     seq_then (constant_at c k) (\<lambda>v.
       Inr (printed name [int k, int flags] (offset + 4)))))"

definition instruction_of :: "op_format \<Rightarrow> string \<Rightarrow> chunk \<Rightarrow> nat \<Rightarrow> bool \<Rightarrow> chunk_error + disasm" where
  "instruction_of f name c offset dbl =
     (case f of
        F_simple \<Rightarrow> simpleInstruction name c offset
      | F_byte \<Rightarrow> byteInstruction name c offset
      | F_arg \<Rightarrow> argInstruction name c offset dbl
      | F_arg2 \<Rightarrow> argInstruction name c offset True
      | F_constant \<Rightarrow> constantInstruction name c offset dbl
      | F_constant_index \<Rightarrow> constantPlusIndexInstruction name c offset dbl
      | F_arg_index \<Rightarrow> argPlusIndexInstruction name c offset dbl
      | F_jump \<Rightarrow> jumpInstruction name 1 c offset
      | F_jump_back \<Rightarrow> jumpInstruction name (-1) c offset
      | F_call \<Rightarrow> callInstruction name c offset
      | F_invoke \<Rightarrow> invokeInstruction name c offset
      | F_invoke_overload \<Rightarrow> invokeOverloadAtInstruction name c offset dbl
      | F_closure \<Rightarrow> closureInstruction name c offset dbl
      | F_assert \<Rightarrow> assertFailInstruction name c offset)"

definition disassembleInstruction :: "chunk \<Rightarrow> nat \<Rightarrow> chunk_error + disasm" where
  "disassembleInstruction c offset =
     (if offset \<ge> length (code c) then Inr (printed [] [] offset)
      else (let b = code c ! offset; dbl = (b AND DoubleByteArg \<noteq> 0);
                instruction = unat (if dbl then b AND NOT DoubleByteArg else b) in
        if instruction < length opcode_table then
          (case opcode_table ! instruction of (name, f) \<Rightarrow> instruction_of f name c offset dbl)
        else Inr (printed ''Unknown opcode'' [int instruction] (offset + 1))))"

lemma read_arg_next: "read_arg c cur dbl = Inr (a, nxt) \<Longrightarrow> cur < nxt"
  by (auto simp: read_arg_def seq_then_eq_Inr split: if_splits)

lemma upvalue_pairs_next: "upvalue_pairs c offset n = Inr (ps, nxt) \<Longrightarrow> offset \<le> nxt"
  by (induction c offset n arbitrary: ps rule: upvalue_pairs.induct) (fastforce simp: seq_then_eq_Inr)+

lemmas instruction_defs =
  simpleInstruction_def byteInstruction_def argInstruction_def jumpInstruction_def
  constantInstruction_def invokeInstruction_def constantPlusIndexInstruction_def
  argPlusIndexInstruction_def invokeOverloadAtInstruction_def assertFailInstruction_def

lemma closureInstruction_next:
  assumes "closureInstruction name c offset dbl = Inr d"
  shows "offset < d_next d"
proof -
  obtain k cur v where r: "read_arg c (offset + 1) dbl = Inr (k, cur)" and v: "constant_at c k = Inr v"
    using assms by (auto simp: closureInstruction_def seq_then_eq_Inr simp del: One_nat_def)
  obtain n ps nxt where "upvalue_pairs c cur n = Inr (ps, nxt)" "d_next d = nxt"
    using assms by (cases v) (auto simp: closureInstruction_def r v seq_then_eq_Inr printed_def simp del: One_nat_def)
  then show ?thesis using read_arg_next [OF r] upvalue_pairs_next by fastforce
qed

lemma callInstruction_next:
  assumes "callInstruction name c offset = Inr d"
  shows "offset < d_next d"
proof -
  obtain cs rest where cs: "callspec_decode (drop (offset + 1) (code c)) = Inr (cs, rest)"
    using assms by (cases "callspec_decode (drop (offset + 1) (code c))")
      (auto simp: callInstruction_def seq_then_eq_Inr simp del: One_nat_def)
  obtain bs where "callspec_toBytes cs = Inr bs"
    using assms by (cases "callspec_toBytes cs") (auto simp: callInstruction_def cs seq_then_eq_Inr simp del: One_nat_def)
  then show ?thesis using assms by (auto simp: callInstruction_def cs seq_then_eq_Inr simp del: One_nat_def)
qed

lemma instruction_next:
  assumes "instruction_of f name c offset dbl = Inr d"
  shows "offset < d_next d"
proof (cases "f \<in> {F_call, F_closure}")
  case True
  then show ?thesis
    using assms closureInstruction_next callInstruction_next by (auto simp: instruction_of_def)
next
  case False
  then show ?thesis
    using assms
    by (cases f) (auto simp: instruction_of_def instruction_defs seq_then_eq_Inr printed_def dest!: read_arg_next)
qed

lemma disassembleInstruction_next:
  "disassembleInstruction c offset = Inr d \<Longrightarrow> offset < length (code c) \<Longrightarrow> offset < d_next d"
  by (auto simp: disassembleInstruction_def Let_def printed_def split: if_splits prod.splits
      dest: instruction_next)

function disassemble_from :: "chunk \<Rightarrow> nat \<Rightarrow> chunk_error + disasm list" where
  "disassemble_from c offset =
     (if offset < length (code c) then
        seq_then (disassembleInstruction c offset) (\<lambda>d.
          seq_then (disassemble_from c (d_next d)) (\<lambda>ds. Inr (d # ds)))
      else Inr [])"
  by pat_completeness auto
termination
  by (relation "measure (\<lambda>(c, offset). length (code c) - offset)")
    (auto dest: disassembleInstruction_next)

declare disassemble_from.simps [simp del]

definition disassemble :: "chunk \<Rightarrow> chunk_error + disasm list" where
  "disassemble c = disassemble_from c 0"

section \<open>Serialized form\<close>

definition lift_err :: "('e \<Rightarrow> 'f) \<Rightarrow> 'e + 'a \<Rightarrow> 'f + 'a" where
  "lift_err f r = (case r of Inl e \<Rightarrow> Inl (f e) | Inr a \<Rightarrow> Inr a)"

definition write_us :: "ustring \<Rightarrow> byte list" where
  "write_us us = (let s = encodeUTF8 us; len = length s mod 2 ^ 32 in le_bytes 4 len @ take len s)"

definition write_const :: "chunk_const \<Rightarrow> chunk_error + byte list" where
  "write_const k =
     (case k of Const_Value v \<Rightarrow> lift_err Bad_Value (write_value v)
      | Const_Function n \<Rightarrow> Inl (Bad_Value (Outside_Model 24)))"

definition write_line :: "line_entry \<Rightarrow> byte list" where
  "write_line e = le_bytes 4 (le_offset e mod 2 ^ 32)
     @ write_u32 (word_of_int (le_line e)) @ write_u32 (word_of_int (le_column e))"

definition write_debug :: "debug_info option \<Rightarrow> byte list" where
  "write_debug di = (case di of None \<Rightarrow> le_bytes 1 0 | Some d \<Rightarrow> le_bytes 1 1 @ debug_serialize d)"

definition chunk_serialize :: "chunk \<Rightarrow> chunk_error + byte list" where
  "chunk_serialize c =
     (let codeSize = length (code c) mod 2 ^ 32 in
      seq_then (collect (map write_const (constants c))) (\<lambda>ks.
        Inr (write_us (packageName c) @ write_us (moduleName c) @ write_us (sourceName c)
          @ le_bytes 4 codeSize @ take codeSize (code c)
          @ le_bytes 4 (length (constants c) mod 2 ^ 32) @ concat ks
          @ le_bytes 4 (length (lineTable c) mod 2 ^ 32) @ concat (map write_line (lineTable c))
          @ write_debug (debugInfo c))))"

text \<open>
  The length fields are uninitialised variables, so a stream that ends inside one is
  \<open>Indeterminate_Field\<close>.  The first argument bounds the nesting of constants.
\<close>

definition chunk_field :: "nat \<Rightarrow> istream \<Rightarrow> chunk_error + (nat \<times> istream)" where
  "chunk_field n s = lift_err (\<lambda>_. Indeterminate_Field) (read_field n s)"

definition read_us :: "istream \<Rightarrow> chunk_error + (ustring \<times> istream)" where
  "read_us s = seq_then (chunk_field 4 s) (\<lambda>(len, s1).
     case read_buffer len s1 of (bs, s2) \<Rightarrow> Inr (decodeUTF8 bs, s2))"

definition read_const :: "nat \<Rightarrow> istream \<Rightarrow> chunk_error + (chunk_const \<times> istream)" where
  "read_const n s = seq_then (lift_err Bad_Value (read_value n s)) (\<lambda>(v, s1). Inr (Const_Value v, s1))"

definition read_line :: "istream \<Rightarrow> chunk_error + (line_entry \<times> istream)" where
  "read_line s =
     seq_then (chunk_field 4 s) (\<lambda>(off, s1). seq_then (chunk_field 4 s1) (\<lambda>(line, s2).
     seq_then (chunk_field 4 s2) (\<lambda>(col, s3).
       Inr (\<lparr>le_offset = off, le_line = sint (word_of_nat line :: u32),
             le_column = sint (word_of_nat col :: u32)\<rparr>, s3))))"

definition read_debug :: "nat \<Rightarrow> istream \<Rightarrow> chunk_error + (debug_info option \<times> istream)" where
  "read_debug codeSize s =
     (case read_le 1 s of (debugTier, s1) \<Rightarrow>
      if failbit s1 then Inl Truncated_Before_Tier
      else if debugTier > 1 then Inl (Unknown_Tier (word_of_nat debugTier))
      else if debugTier = 1 then
        seq_then (lift_err Bad_Debug_Info (debug_deserialize (word_of_nat codeSize) s1)) (\<lambda>(di, s2).
          Inr (Some di, s2))
      else Inr (None, s1))"

definition chunk_deserialize :: "nat \<Rightarrow> istream \<Rightarrow> chunk_error + (chunk \<times> istream)" where
  "chunk_deserialize n s =
     seq_then (read_us s) (\<lambda>(pkg, s1). seq_then (read_us s1) (\<lambda>(mdl, s2).
     seq_then (read_us s2) (\<lambda>(src, s3).
     seq_then (chunk_field 4 s3) (\<lambda>(codeSize, s4).
     case read_buffer codeSize s4 of (bytes, s5) \<Rightarrow>
     seq_then (chunk_field 4 s5) (\<lambda>(constCount, s6).
     seq_then (read_n constCount (read_const n) s6) (\<lambda>(ks, s7).
     seq_then (chunk_field 4 s7) (\<lambda>(lineCount, s8).
     seq_then (read_n lineCount read_line s8) (\<lambda>(lt, s9).
     seq_then (read_debug codeSize s9) (\<lambda>(di, s10).
       Inr (\<lparr>packageName = pkg, moduleName = mdl, sourceName = src, code = bytes, constants = ks,
             lineTable = lt, debugInfo = di\<rparr>, s10))))))))))"

section \<open>Lemmas on the line table\<close>

lemma line_scan_append: "le_offset e > i \<Longrightarrow> line_scan (es @ [e]) i d = line_scan es i d"
  by (induction es i d rule: line_scan.induct) auto

lemma line_scan_last:
  "list_all (\<lambda>e. le_offset e \<le> i) es \<Longrightarrow> line_scan es i d = (if es = [] then d else last es)"
  by (induction es i d rule: line_scan.induct) auto

text \<open>\<open>lines_exact c ws\<close>: the code of \<open>c\<close> is the bytes written, and the table gives each its position.\<close>

definition lines_exact :: "chunk \<Rightarrow> (byte \<times> int \<times> int) list \<Rightarrow> bool" where
  "lines_exact c ws \<longleftrightarrow>
     code c = map fst ws \<and> list_all (\<lambda>e. le_offset e < length ws) (lineTable c)
     \<and> (lineTable c = [] \<longleftrightarrow> ws = [])
     \<and> (\<forall>i < length ws. \<forall>d. le_line (line_scan (lineTable c) i d) = fst (snd (ws ! i))
          \<and> le_column (line_scan (lineTable c) i d) = snd (snd (ws ! i)))"

lemma chunk_write_exact:
  assumes "lines_exact c ws"
  shows "lines_exact (chunk_write b line column c) (ws @ [(b, line, column)])"
proof (cases "lineTable c = [] \<or> le_line (last (lineTable c)) \<noteq> line \<or> le_column (last (lineTable c)) \<noteq> column")
  case True
  have off: "list_all (\<lambda>e. le_offset e \<le> length ws) (lineTable c)"
    using assms by (auto simp: lines_exact_def list_all_iff)
  have at_end: "line_scan (lineTable c @ [e]) (length ws) d = e" if "le_offset e = length ws" for e d
    using line_scan_last [of "length ws" "lineTable c @ [e]"] off that by simp
  show ?thesis
    using assms True
    by (auto simp: lines_exact_def chunk_write_def nth_append line_scan_append at_end list_all_iff less_Suc_eq)
next
  case False
  have off: "list_all (\<lambda>e. le_offset e \<le> length ws) (lineTable c)"
    using assms by (auto simp: lines_exact_def list_all_iff)
  show ?thesis
    using assms False line_scan_last [OF off]
    by (auto simp: lines_exact_def chunk_write_def nth_append list_all_iff less_Suc_eq)
qed

section \<open>Lemmas on the serialized form\<close>

lemma lift_err_simps [simp]: "lift_err f (Inl e) = Inl (f e)" "lift_err f (Inr a) = Inr a"
  by (simp_all add: lift_err_def)

lemma lift_err_Inr: "lift_err f r = Inr a \<longleftrightarrow> r = Inr a"
  by (cases r) simp_all

lemma chunk_field_good:
  "v < 256 ^ n \<Longrightarrow> chunk_field n (good_stream (le_bytes n v @ rest)) = Inr (v, good_stream rest)"
  by (simp add: chunk_field_def read_field_good)

definition us_ok :: "ustring \<Rightarrow> bool" where
  "us_ok us \<longleftrightarrow> paired us \<and> length (encodeUTF8 us) < 2 ^ 32"

lemma read_us_good:
  assumes "us_ok us"
  shows "read_us (good_stream (write_us us @ rest)) = Inr (us, good_stream rest)"
proof -
  let ?s = "encodeUTF8 us"
  have l: "length ?s < 256 ^ 4" "length ?s mod 2 ^ 32 = length ?s" and p: "paired us"
    using assms by (simp_all add: us_ok_def)
  then show ?thesis
    unfolding read_us_def write_us_def Let_def
    by (simp only: append_assoc chunk_field_good seq_then_simps prod.case take_all order_refl
        read_buffer_good decode_encode_replace replace_unpaired_id)
qed

definition const_ok :: "nat \<Rightarrow> chunk_const \<Rightarrow> bool" where
  "const_ok n k \<longleftrightarrow> (case k of Const_Value v \<Rightarrow> wf_value v \<and> depth v < n | Const_Function m \<Rightarrow> False)"

definition repack_const :: "chunk_const \<Rightarrow> chunk_const" where
  "repack_const k = (case k of Const_Value v \<Rightarrow> Const_Value (repack v) | Const_Function m \<Rightarrow> k)"

definition unpacked_const :: "chunk_const \<Rightarrow> chunk_const" where
  "unpacked_const k = (case k of Const_Value v \<Rightarrow> Const_Value (unpacked v) | Const_Function m \<Rightarrow> k)"

lemma unpacked_consts:
  "list_all (const_ok n) ks \<Longrightarrow> map unpacked_const (map repack_const ks) = map unpacked_const ks"
  by (auto simp: list_all_iff const_ok_def unpacked_const_def repack_const_def unpacked_repack split: chunk_const.splits)

lemma read_consts_good:
  assumes "list_all (const_ok n) ks"
  shows "\<exists>bss. collect (map write_const ks) = Inr bss \<and> (\<forall>rest.
    read_n (length ks) (read_const n) (good_stream (concat bss @ rest)) = Inr (map repack_const ks, good_stream rest))"
  using assms
proof (induction ks)
  case Nil
  then show ?case by simp
next
  case (Cons k ks)
  then obtain v where k: "k = Const_Value v" and v: "wf_value v" "depth v < n"
    by (auto simp: const_ok_def split: chunk_const.splits)
  obtain bs where bs: "write_value v = Inr bs"
    "\<And>rest. read_value n (good_stream (bs @ rest)) = Inr (repack v, good_stream rest)"
    using value_roundtrip [OF v(1)] v(2) by (auto simp: decodes_def)
  from Cons obtain bss where bss: "collect (map write_const ks) = Inr bss"
    "\<And>rest. read_n (length ks) (read_const n) (good_stream (concat bss @ rest)) = Inr (map repack_const ks, good_stream rest)"
    by auto
  have "write_const k = Inr bs" "repack_const k = Const_Value (repack v)"
    "\<And>rest. read_const n (good_stream (bs @ rest)) = Inr (Const_Value (repack v), good_stream rest)"
    by (simp_all add: k write_const_def read_const_def repack_const_def bs)
  then show ?case by (intro exI [of _ "bs # bss"]) (simp add: bss)
qed

definition int32_ok :: "int \<Rightarrow> bool" where
  "int32_ok i \<longleftrightarrow> - (2 ^ 31) \<le> i \<and> i < 2 ^ 31"

definition line_ok :: "line_entry \<Rightarrow> bool" where
  "line_ok e \<longleftrightarrow> le_offset e < 2 ^ 32 \<and> int32_ok (le_line e) \<and> int32_ok (le_column e)"

lemma int32_back: "int32_ok i \<Longrightarrow> sint (word_of_int i :: u32) = i"
  by (simp add: int32_ok_def sint_sbintrunc' signed_take_bit_int_eq_self)

interpretation line_entries: framed "\<lambda>_::nat. good_stream" "\<lambda>_. line_ok" "\<lambda>c _. c" write_line read_line
proof
  fix c :: nat and e rest
  assume ok: "line_ok e"
  have f: "chunk_field 4 (good_stream (le_bytes 4 (unat (w :: u32)) @ r)) = Inr (unat w, good_stream r)" for w r
    by (rule chunk_field_good [OF unat_bounds(3)])
  have o: "le_offset e < 256 ^ 4" "le_offset e mod 2 ^ 32 = le_offset e" using ok by (simp_all add: line_ok_def)
  show "read_line (good_stream (write_line e @ rest)) = Inr (e, good_stream rest)"
    using ok unfolding read_line_def write_line_def write_u32_def line_ok_def
    by (simp only: append_assoc o f chunk_field_good seq_then_simps prod.case word_back int32_back) simp
qed

lemma lines_ok_seq: "line_entries.ok_seq c lt \<longleftrightarrow> list_all line_ok lt"
  by (induction lt arbitrary: c) auto

definition debug_ok :: "u32 \<Rightarrow> debug_info option \<Rightarrow> bool" where
  "debug_ok codeSize di \<longleftrightarrow> (case di of None \<Rightarrow> True | Some d \<Rightarrow> debug_valid codeSize d \<and> debug_names_ok d)"

lemma read_debug_good:
  assumes "debug_ok (word_of_nat codeSize) di"
  shows "read_debug codeSize (good_stream (write_debug di @ rest)) = Inr (di, good_stream rest)"
proof -
  have f: "read_le 1 (good_stream (le_bytes 1 0 @ r)) = (0, good_stream r)"
    "read_le 1 (good_stream (le_bytes 1 1 @ r)) = (1, good_stream r)" for r
    by (rule read_le_good, simp)+
  show ?thesis
  proof (cases di)
    case None
    then show ?thesis unfolding read_debug_def write_debug_def by (simp only: option.case f prod.case) simp
  next
    case (Some d)
    then have d: "debug_valid (word_of_nat codeSize) d" "debug_names_ok d" using assms by (simp_all add: debug_ok_def)
    show ?thesis
      unfolding read_debug_def write_debug_def Some
      by (simp only: option.case append_assoc f prod.case) (simp add: debug_roundtrip_good [OF d])
  qed
qed

definition chunk_ok :: "nat \<Rightarrow> chunk \<Rightarrow> bool" where
  "chunk_ok n c \<longleftrightarrow>
     us_ok (packageName c) \<and> us_ok (moduleName c) \<and> us_ok (sourceName c)
     \<and> length (code c) < 2 ^ 32 \<and> length (constants c) < 2 ^ 32 \<and> length (lineTable c) < 2 ^ 32
     \<and> list_all (const_ok n) (constants c) \<and> list_all line_ok (lineTable c)
     \<and> debug_ok (word_of_nat (length (code c))) (debugInfo c)"

lemma chunk_good:
  assumes ok: "chunk_ok n c"
  shows "\<exists>bs. chunk_serialize c = Inr bs \<and> (\<forall>rest. chunk_deserialize n (good_stream (bs @ rest))
     = Inr (c\<lparr>constants := map repack_const (constants c)\<rparr>, good_stream rest))"
proof -
  obtain ks where ks: "collect (map write_const (constants c)) = Inr ks"
    "\<And>rest. read_n (length (constants c)) (read_const n) (good_stream (concat ks @ rest))
       = Inr (map repack_const (constants c), good_stream rest)"
    using ok read_consts_good [of n "constants c"] by (auto simp: chunk_ok_def)
  have lt: "read_n (length (lineTable c)) read_line (good_stream (concat (map write_line (lineTable c)) @ r))
      = Inr (lineTable c, good_stream r)" for r
    using ok line_entries.seq_roundtrip [of 0 "lineTable c"] by (simp add: lines_ok_seq chunk_ok_def)
  have l: "length (code c) < 256 ^ 4" "length (constants c) < 256 ^ 4" "length (lineTable c) < 256 ^ 4"
    and m: "length (code c) mod 2 ^ 32 = length (code c)" "length (constants c) mod 2 ^ 32 = length (constants c)"
      "length (lineTable c) mod 2 ^ 32 = length (lineTable c)"
    using ok by (simp_all add: chunk_ok_def)
  have us: "us_ok (packageName c)" "us_ok (moduleName c)" "us_ok (sourceName c)"
    and d: "debug_ok (word_of_nat (length (code c))) (debugInfo c)" using ok by (simp_all add: chunk_ok_def)
  let ?bs = "write_us (packageName c) @ write_us (moduleName c) @ write_us (sourceName c)
          @ le_bytes 4 (length (code c)) @ code c @ le_bytes 4 (length (constants c)) @ concat ks
          @ le_bytes 4 (length (lineTable c)) @ concat (map write_line (lineTable c)) @ write_debug (debugInfo c)"
  have "chunk_serialize c = Inr ?bs" by (simp only: chunk_serialize_def Let_def ks m seq_then_simps take_all order_refl)
  moreover have "chunk_deserialize n (good_stream (?bs @ rest))
     = Inr (c\<lparr>constants := map repack_const (constants c)\<rparr>, good_stream rest)" for rest
    unfolding chunk_deserialize_def
    by (simp only: append_assoc read_us_good us seq_then_simps prod.case chunk_field_good l read_buffer_good
        ks lt read_debug_good d) simp
  ultimately show ?thesis by blast
qed

section \<open>Instruction encoding\<close>

text \<open>
  The operand layouts of the instruction set, as the compiler lays them down: an argument up to
  255 takes one byte after the opcode, a larger one sets \<open>DoubleByteArg\<close> and takes two.
\<close>

datatype operands =
  No_Operand
| Byte_Operand byte
| Arg_Operand nat
| U16_Operand nat
| Index_Operand nat nat
| Call_Operand call_spec
| Invoke_Operand nat nat byte
| Closure_Operand nat "(byte \<times> byte) list"
| Assert_Operand byte nat

definition u16_bytes :: "nat \<Rightarrow> byte list" where
  "u16_bytes a = [word_of_nat (a div 256), word_of_nat (a mod 256)]"

definition op_arg :: "nat \<Rightarrow> nat \<Rightarrow> byte list" where
  "op_arg op a = (if a \<le> 255 then [asByte op, word_of_nat a] else (asByte op OR DoubleByteArg) # u16_bytes a)"

definition pair_bytes :: "(byte \<times> byte) list \<Rightarrow> byte list" where
  "pair_bytes ups = concat (map (\<lambda>(l, i). [l, i]) ups)"

fun encode :: "nat \<Rightarrow> operands \<Rightarrow> byte list" where
  "encode op No_Operand = [asByte op]"
| "encode op (Byte_Operand b) = [asByte op, b]"
| "encode op (Arg_Operand a) = op_arg op a"
| "encode op (U16_Operand a) = asByte op # u16_bytes a"
| "encode op (Index_Operand a i) = op_arg op a @ u16_bytes i"
| "encode op (Call_Operand cs) = asByte op # (case callspec_toBytes cs of Inl e \<Rightarrow> [] | Inr bs \<Rightarrow> bs)"
| "encode op (Invoke_Operand a i n) = op_arg op a @ u16_bytes i @ [n]"
| "encode op (Closure_Operand a ups) = op_arg op a @ pair_bytes ups"
| "encode op (Assert_Operand flags a) = asByte op # flags # u16_bytes a"

text \<open>\<open>fits c f x\<close>: the operands suit the format, their constants exist and their sizes fit.\<close>

definition is_constant :: "chunk \<Rightarrow> nat \<Rightarrow> bool" where
  "is_constant c a \<longleftrightarrow> a < length (constants c) \<and> a < 65536"

fun fits :: "chunk \<Rightarrow> op_format \<Rightarrow> operands \<Rightarrow> bool" where
  "fits c f No_Operand = (f = F_simple)"
| "fits c f (Byte_Operand b) = (f = F_byte)"
| "fits c f (Arg_Operand a) = (f = F_arg \<and> a < 65536 \<or> f = F_constant \<and> is_constant c a)"
| "fits c f (U16_Operand a) = (f \<in> {F_arg2, F_jump, F_jump_back} \<and> a < 65536)"
| "fits c f (Index_Operand a i) =
     ((f = F_constant_index \<and> is_constant c a \<or> f = F_arg_index \<and> a < 65536) \<and> i < 65536)"
| "fits c f (Call_Operand cs) = (f = F_call \<and> wf_callspec cs)"
| "fits c f (Invoke_Operand a i n) = (f = F_invoke_overload \<and> is_constant c a \<and> i < 65536)"
| "fits c f (Closure_Operand a ups) =
     (f = F_closure \<and> is_constant c a \<and> constants c ! a = Const_Function (length ups))"
| "fits c f (Assert_Operand flags a) = (f = F_assert \<and> is_constant c a)"

text \<open>The operands the disassembler prints for an instruction at \<open>offset\<close>.\<close>

fun shown :: "op_format \<Rightarrow> nat \<Rightarrow> operands \<Rightarrow> int list" where
  "shown f offset No_Operand = []"
| "shown f offset (Byte_Operand b) = [uint b]"
| "shown f offset (Arg_Operand a) = [int a]"
| "shown f offset (U16_Operand a) =
     (if f = F_arg2 then [int a]
      else [int a, if f = F_jump then int offset + 3 + int a else int offset + 3 - int a])"
| "shown f offset (Index_Operand a i) = [int i, int a]"
| "shown f offset (Call_Operand cs) = [uint (first_byte cs)]"
| "shown f offset (Invoke_Operand a i n) = [int i, uint n, int a]"
| "shown f offset (Closure_Operand a ups) = int a # concat (map (\<lambda>(l, i). [uint l, uint i]) ups)"
| "shown f offset (Assert_Operand flags a) = [int a, uint flags]"

lemma u16_bytes_back:
  assumes "a < 65536"
  shows "unat (word_of_nat (a div 256) :: byte) * 256 + unat (word_of_nat (a mod 256) :: byte) = a"
  using assms by (simp add: unat_of_nat less_mult_imp_div_less)

lemma code_at_cons:
  assumes "drop offset (code c) = b # rest"
  shows "code_at c offset = Inr (unat b)" "drop (Suc offset) (code c) = rest"
proof -
  have len: "offset < length (code c)" using assms by (metis drop_all list.distinct(1) not_le)
  then show "code_at c offset = Inr (unat b)" using assms Cons_nth_drop_Suc [OF len] by (simp add: code_at_def)
  show "drop (Suc offset) (code c) = rest" using assms Cons_nth_drop_Suc [OF len] by simp
qed

lemma drop_append: "drop offset xs = ys @ rest \<Longrightarrow> drop (offset + length ys) xs = rest"
  by (metis add.commute append_eq_conv_conj drop_drop)

lemma opcode_byte:
  assumes "op < 128"
  shows "asByte op AND DoubleByteArg = 0" "(asByte op OR DoubleByteArg) AND DoubleByteArg \<noteq> 0"
    "(asByte op OR DoubleByteArg) AND NOT DoubleByteArg = asByte op" "unat (asByte op) = op"
proof -
  have k: "op \<le> 127" using assms by simp
  have bits: "bit DoubleByteArg n \<longleftrightarrow> n = 7" for n using flag_mask_bits(1) [of n] by (simp only: DoubleByteArg_def)
  show "asByte op AND DoubleByteArg = 0" "(asByte op OR DoubleByteArg) AND DoubleByteArg \<noteq> 0"
    using count_byte(5,6) [OF k] by (simp_all add: DoubleByteArg_def asByte_def or.commute)
  then have "\<not> bit (asByte op) 7" using bits by (metis bit_0_eq bit_and_iff bot_apply bot_bool_def)
  then show "(asByte op OR DoubleByteArg) AND NOT DoubleByteArg = asByte op"
    by (intro bit_word_eqI) (auto simp: bit_simps bits)
  show "unat (asByte op) = op" using assms by (simp add: asByte_def unat_of_nat)
qed

lemma read_arg_u16:
  assumes "drop cur (code c) = u16_bytes a @ rest" "a < 65536"
  shows "read_arg c cur True = Inr (a, cur + 2)"
proof -
  have d: "drop cur (code c) = word_of_nat (a div 256) # word_of_nat (a mod 256) # rest"
    using assms(1) by (simp add: u16_bytes_def)
  show ?thesis
    using code_at_cons [OF d] code_at_cons [OF code_at_cons(2) [OF d]] u16_bytes_back [OF assms(2)]
    by (simp add: read_arg_def)
qed

lemma read_arg_op:
  assumes d: "drop offset (code c) = op_arg op a @ rest" and a: "a < 65536"
  shows "read_arg c (Suc offset) (255 < a) = Inr (a, offset + length (op_arg op a))"
proof (cases "255 < a")
  case True
  then have "drop offset (code c) = (asByte op OR DoubleByteArg) # u16_bytes a @ rest"
    using d by (simp add: op_arg_def)
  then show ?thesis
    using True read_arg_u16 [OF code_at_cons(2) a] by (simp add: op_arg_def u16_bytes_def)
next
  case False
  then have d2: "drop offset (code c) = asByte op # word_of_nat a # rest"
    using d by (simp add: op_arg_def)
  show ?thesis
    using False code_at_cons(1) [OF code_at_cons(2) [OF d2]] by (simp add: read_arg_def op_arg_def unat_of_nat)
qed

lemma upvalue_pairs_good:
  assumes "drop cur (code c) = pair_bytes ups @ rest"
  shows "upvalue_pairs c cur (length ups)
     = Inr (concat (map (\<lambda>(l, i). [uint l, uint i]) ups), cur + length (pair_bytes ups))"
  using assms
proof (induction ups arbitrary: cur)
  case Nil
  then show ?case by (simp add: pair_bytes_def)
next
  case (Cons u ups)
  obtain l i where u: "u = (l, i)" by (cases u)
  have d: "drop cur (code c) = l # i # pair_bytes ups @ rest"
    using Cons.prems by (simp add: pair_bytes_def u)
  note 1 = code_at_cons [OF d] and 2 = code_at_cons [OF code_at_cons(2) [OF d]]
  show ?case using Cons.IH [OF 2(2)] 1 2 by (simp add: u pair_bytes_def)
qed

lemma op_arg_head:
  assumes "op < 128"
  shows "hd (op_arg op a) AND DoubleByteArg \<noteq> 0 \<longleftrightarrow> 255 < a"
    "hd (op_arg op a @ r) AND DoubleByteArg \<noteq> 0 \<longleftrightarrow> 255 < a"
  using opcode_byte [OF assms] by (auto simp: op_arg_def)

lemma call_shown:
  assumes d: "drop offset (code c) = encode op (Call_Operand cs) @ rest" and wf: "wf_callspec cs"
  shows "callInstruction name c offset
      = Inr (printed name [uint (first_byte cs)] (offset + length (encode op (Call_Operand cs))))"
proof -
  have e: "encode op (Call_Operand cs) = asByte op # first_byte cs # concat (map arg_bytes (args cs))"
    by (simp add: callspec_good(1) [OF wf])
  note 1 = code_at_cons [OF d [unfolded e append_Cons]]
  note 2 = code_at_cons [OF 1(2)]
  show ?thesis
    using 1(2) 2(1) callspec_good(1) [OF wf] callspec_good(2) [OF wf, of rest]
    by (simp add: callInstruction_def byteInstruction_def printed_def e del: encode.simps)
qed

lemma disassemble_format:
  assumes f: "fits c f x" and d: "drop offset (code c) = encode op x @ rest" and op: "op < 128"
  shows "instruction_of f name c offset (hd (encode op x) AND DoubleByteArg \<noteq> 0)
     = Inr (printed name (shown f offset x) (offset + length (encode op x)))"
proof (cases x)
  case No_Operand
  then show ?thesis using f by (simp add: instruction_of_def simpleInstruction_def)
next
  case (Byte_Operand b)
  then show ?thesis
    using f code_at_cons(1) [OF code_at_cons(2), of offset c] d
    by (simp add: instruction_of_def byteInstruction_def)
next
  case (Arg_Operand a)
  then have d: "drop offset (code c) = op_arg op a @ rest" using d by simp
  show ?thesis
    using f op_arg_head(1) [OF op, of a] read_arg_op [OF d] Arg_Operand
    by (auto simp: instruction_of_def argInstruction_def constantInstruction_def is_constant_def constant_at_def)
next
  case (U16_Operand a)
  then have d: "drop (Suc offset) (code c) = u16_bytes a @ rest" using d by (auto dest: code_at_cons(2))
  show ?thesis
    using f read_arg_u16 [OF d] U16_Operand
    by (auto simp: instruction_of_def argInstruction_def jumpInstruction_def u16_bytes_def numeral_3_eq_3)
next
  case (Index_Operand a i)
  then have d: "drop offset (code c) = op_arg op a @ u16_bytes i @ rest" using d by simp
  show ?thesis
    using f op_arg_head [OF op, of a] read_arg_op [OF d] read_arg_u16 [OF drop_append [OF d]] Index_Operand
    by (auto simp: instruction_of_def constantPlusIndexInstruction_def argPlusIndexInstruction_def
        is_constant_def constant_at_def u16_bytes_def)
next
  case (Call_Operand cs)
  then show ?thesis
    using f call_shown [of offset c op cs rest name] d by (simp add: instruction_of_def)
next
  case (Invoke_Operand a i n)
  then have d: "drop offset (code c) = op_arg op a @ u16_bytes i @ n # rest" using d by simp
  have "drop (offset + length (op_arg op a) + 2) (code c) = n # rest"
    using drop_append [OF drop_append [OF d]] by (simp add: u16_bytes_def)
  then show ?thesis
    using f op_arg_head [OF op, of a] read_arg_op [OF d] read_arg_u16 [OF drop_append [OF d]] Invoke_Operand
      code_at_cons(1) [of "offset + length (op_arg op a) + 2" c n rest]
    by (simp add: instruction_of_def invokeOverloadAtInstruction_def is_constant_def constant_at_def u16_bytes_def)
next
  case (Closure_Operand a ups)
  then have d: "drop offset (code c) = op_arg op a @ pair_bytes ups @ rest" using d by simp
  show ?thesis
    using f op_arg_head [OF op, of a] read_arg_op [OF d] upvalue_pairs_good [OF drop_append [OF d]] Closure_Operand
    by (simp add: instruction_of_def closureInstruction_def is_constant_def constant_at_def add.assoc)
next
  case (Assert_Operand flags a)
  then have d: "drop offset (code c) = asByte op # flags # u16_bytes a @ rest" using d by simp
  note 2 = code_at_cons [OF code_at_cons(2) [OF d]]
  have n: "offset + 4 = Suc (Suc (Suc (Suc offset)))" by simp
  show ?thesis
    using f 2(1) read_arg_u16 [OF 2(2)] Assert_Operand
    by (simp add: instruction_of_def assertFailInstruction_def is_constant_def constant_at_def u16_bytes_def n)
qed

lemma opcode_table_length: "length opcode_table = 112"
  by (simp add: opcode_table_def)

lemma encode_head:
  "\<exists>b r. encode op x = b # r \<and> (b = asByte op \<or> b = asByte op OR DoubleByteArg)"
  by (cases x) (auto simp: op_arg_def)

lemma disassemble_one:
  assumes op: "op < length opcode_table" and f: "fits c (snd (opcode_table ! op)) x"
    and d: "drop offset (code c) = encode op x @ rest"
  shows "disassembleInstruction c offset = Inr (printed (fst (opcode_table ! op))
     (shown (snd (opcode_table ! op)) offset x) (offset + length (encode op x)))"
proof -
  have 1: "op < 128" using op by (simp add: opcode_table_length)
  obtain b r where e: "encode op x = b # r" and b: "b = asByte op \<or> b = asByte op OR DoubleByteArg"
    using encode_head by blast
  have len: "offset < length (code c)" using d e by (metis drop_all append_Cons list.distinct(1) not_le)
  have at: "code c ! offset = b" using d e Cons_nth_drop_Suc [OF len] by simp
  have "unat (if b AND DoubleByteArg \<noteq> 0 then b AND NOT DoubleByteArg else b) = op"
    using b opcode_byte [OF 1] by auto
  then show ?thesis
    using disassemble_format [OF f d 1, of "fst (opcode_table ! op)"] len op
    by (cases "opcode_table ! op") (simp add: disassembleInstruction_def Let_def at e not_le)
qed

type_synonym instruction = "nat \<times> operands"

definition well_encoded :: "chunk \<Rightarrow> instruction list \<Rightarrow> bool" where
  "well_encoded c is \<longleftrightarrow>
     list_all (\<lambda>(op, x). op < length opcode_table \<and> fits c (snd (opcode_table ! op)) x) is"

fun listing :: "nat \<Rightarrow> instruction list \<Rightarrow> disasm list" where
  "listing offset [] = []"
| "listing offset ((op, x) # is) =
     printed (fst (opcode_table ! op)) (shown (snd (opcode_table ! op)) offset x) (offset + length (encode op x))
     # listing (offset + length (encode op x)) is"

definition encode_all :: "instruction list \<Rightarrow> byte list" where
  "encode_all is = concat (map (\<lambda>(op, x). encode op x) is)"

lemma disassemble_all:
  assumes "well_encoded c is" "drop offset (code c) = encode_all is" "offset \<le> length (code c)"
  shows "disassemble_from c offset = Inr (listing offset is)"
  using assms
proof (induction "is" arbitrary: offset)
  case Nil
  then show ?case by (simp add: encode_all_def disassemble_from.simps)
next
  case (Cons i "is")
  obtain op x where i: "i = (op, x)" by (cases i)
  have d: "drop offset (code c) = encode op x @ encode_all is" and ok: "op < length opcode_table"
    "fits c (snd (opcode_table ! op)) x" "well_encoded c is"
    using Cons.prems by (simp_all add: encode_all_def i well_encoded_def)
  have len: "offset < length (code c)"
    using d encode_head [of op x] by (metis drop_all append_Cons list.distinct(1) not_le)
  have "length (drop offset (code c)) = length (encode op x) + length (encode_all is)" by (simp add: d)
  then have "offset + length (encode op x) \<le> length (code c)" using len by simp
  from Cons.IH [OF ok(3) drop_append [OF d] this] show ?case
    using len by (simp add: disassemble_from.simps [of c offset] disassemble_one [OF ok(1,2) d] printed_def i)
qed

section \<open>Properties\<close>

definition write_all :: "(byte \<times> int \<times> int) list \<Rightarrow> chunk \<Rightarrow> chunk" where
  "write_all ws c = fold (\<lambda>(b, line, column). chunk_write b line column) ws c"

lemma write_all_exact: "lines_exact c vs \<Longrightarrow> lines_exact (write_all ws c) (vs @ ws)"
proof (induction ws arbitrary: c vs)
  case (Cons w ws)
  obtain b l k where w: "w = (b, l, k)" by (cases w)
  show ?case
    using Cons.IH [OF chunk_write_exact [OF Cons.prems, of b l k]] by (simp add: w write_all_def)
qed (simp add: write_all_def)

text \<open>
  C40. After any sequence of writes into a fresh chunk the code is the bytes written, and the sparse
  line table answers, for every offset, the line and the column its byte was written with.
\<close>

theorem line_table_exact:
  assumes "i < length ws" "c = write_all ws (new_chunk pkg mdl src)"
  shows "code c = map fst ws \<and> getLine c i = fst (snd (ws ! i)) \<and> getColumn c i = snd (snd (ws ! i))"
proof -
  have "lines_exact (new_chunk pkg mdl src) []" by (simp add: lines_exact_def new_chunk_def)
  then have e: "lines_exact c ws" using write_all_exact [of _ "[]" ws] assms(2) by simp
  then have "lineTable c \<noteq> []" using assms by (auto simp: lines_exact_def)
  with e assms(1) show ?thesis by (auto simp: lines_exact_def getLine_def getColumn_def line_entry_at_def)
qed

theorem line_table_exact_witness:
  "getLine (write_all [(1, 3, 0), (7, 3, 0), (44, 4, 2)] (new_chunk [] [] [])) 1 = 3"
  using line_table_exact [of 1 "[(1, 3, 0), (7, 3, 0), (44, 4, 2)]" _ "[]" "[]" "[]"] by simp

text \<open>
  C38. A chunk whose constants are values (strings, numbers, lists, ranges and other immediates, none of
  them a function) serializes without error when its lengths, its positions and the nesting of its
  constants are within the format's bounds.  Without a serialization context, deserializing the
  bytes returns the same names, code, line table and debug metadata and leaves the bytes that
  follow.  A constant comes back with each list of bytes in the packed representation, which holds
  the same elements: unpacked, the constants are the same.
\<close>

theorem chunk_roundtrip:
  assumes "chunk_ok n c"
  shows "\<exists>bs. chunk_serialize c = Inr bs \<and> chunk_deserialize n (good_stream (bs @ rest))
     = Inr (c\<lparr>constants := map repack_const (constants c)\<rparr>, good_stream rest)
     \<and> map unpacked_const (map repack_const (constants c)) = map unpacked_const (constants c)"
  using chunk_good [OF assms] unpacked_consts [of n "constants c"] assms by (auto simp: chunk_ok_def simp del: map_map map_eq_conv)

definition sample_chunk :: chunk where
  "sample_chunk = (write_all [(1, 3, 0), (0, 3, 0), (44, 4, 2)] (new_chunk [0x70] [0x6d] [0x73]))
     \<lparr>constants := [Const_Value (Str [0x68, 0x69])], debugInfo := Some \<lparr>di_stmts = [], di_locals = [], di_upvalues = []\<rparr>\<rparr>"

lemma sample_chunk_ok: "chunk_ok 1 sample_chunk" "map repack_const (constants sample_chunk) = constants sample_chunk"
  by (simp_all add: chunk_ok_def sample_chunk_def write_all_def chunk_write_def new_chunk_def us_ok_def
      const_ok_def line_ok_def int32_ok_def debug_ok_def debug_valid_def debug_names_ok_def
      high_surrogate_def low_surrogate_def encode_code_point_def repack_const_def)

theorem chunk_roundtrip_witness:
  "\<exists>bs. chunk_serialize sample_chunk = Inr bs \<and> chunk_deserialize 1 (good_stream (bs @ [9]))
     = Inr (sample_chunk\<lparr>constants := constants sample_chunk\<rparr>, good_stream [9])"
  using chunk_roundtrip [OF sample_chunk_ok(1), of "[9]"] unfolding sample_chunk_ok(2) by blast



text \<open>
  The listing of a method invocation is out of step: the compiler emits the method name with a
  one- or two-byte constant index and then a call specification of any length, but the disassembler
  always advances three bytes, into the middle of the instruction.
\<close>

theorem invoke_listing_out_of_step:
  assumes "drop offset (code c) = op_arg OpInvoke a @ bs @ rest" "callspec_toBytes cs = Inr bs"
    and "wf_callspec cs" "255 < a \<or> args cs \<noteq> []" "disassembleInstruction c offset = Inr d"
  shows "d_next d < offset + length (op_arg OpInvoke a @ bs)"
proof -
  let ?b = "hd (op_arg OpInvoke a)"
  have b: "?b = asByte OpInvoke \<or> ?b = asByte OpInvoke OR DoubleByteArg" by (simp add: op_arg_def)
  obtain r where d: "drop offset (code c) = ?b # r" using assms(1) by (cases "a \<le> 255") (simp_all add: op_arg_def)
  have len: "offset < length (code c)" using d by (metis drop_all list.distinct(1) not_le)
  have at: "code c ! offset = ?b" using d Cons_nth_drop_Suc [OF len] by simp
  have u: "unat (if ?b AND DoubleByteArg \<noteq> 0 then ?b AND NOT DoubleByteArg else ?b) = OpInvoke"
    using b opcode_byte [of OpInvoke] by auto
  have t: "opcode_table ! OpInvoke = (''INVOKE'', F_invoke)" by (simp add: opcode_table_def)
  have "instruction_of F_invoke ''INVOKE'' c offset (?b AND DoubleByteArg \<noteq> 0) = Inr d"
    using assms(5) len unfolding disassembleInstruction_def Let_def at u t by (simp add: opcode_table_length)
  then have "d_next d = offset + 3"
    by (auto simp: instruction_of_def invokeInstruction_def seq_then_eq_Inr printed_def)
  moreover have "bs = first_byte cs # concat (map arg_bytes (args cs))"
    using assms(2) callspec_good(1) [OF assms(3)] by simp
  moreover have "length (arg_bytes x) > 0" for x by (simp add: arg_bytes_def Let_def)
  ultimately show ?thesis
    using assms(4) by (cases "args cs") (auto simp: op_arg_def u16_bytes_def)
qed

theorem invoke_listing_out_of_step_witness:
  "\<exists>d. disassembleInstruction (sample_chunk\<lparr>code := [41, 0, 0x81, 0x80, 97]\<rparr>) 0 = Inr d \<and> d_next d < 5"
proof -
  let ?c = "sample_chunk\<lparr>code := [41, 0, 0x81, 0x80, 97]\<rparr>"
  let ?cs = "\<lparr>argCount = 1, allPositional = False, args = [\<lparr>positional = False, paramNameHash = 0x8061\<rparr>]\<rparr>"
  have d: "disassembleInstruction ?c 0 = Inr (printed ''INVOKE'' [129, 0] 3)"
    by (simp add: disassembleInstruction_def Let_def DoubleByteArg_def opcode_table_def instruction_of_def
        invokeInstruction_def code_at_def constant_at_def sample_chunk_def)
  have "d_next (printed ''INVOKE'' [129, 0] 3) < 0 + length (op_arg OpInvoke 0 @ [0x81, 0x80, 97])"
    by (rule invoke_listing_out_of_step [where c = ?c and rest = "[]" and cs = ?cs])
      (simp_all add: d op_arg_def asByte_def callspec_toBytes_def arg_bytes_def wf_callspec_def wf_arg_spec_def)
  then show ?thesis by (simp add: d op_arg_def)
qed

end
