(* ===== verification/Code_Emitter.thy ===== *)
theory Code_Emitter
  imports Chunk_Code
begin

text \<open>
  The code emission part of \<open>compiler/RoxalCompiler.{h,cpp}\<close>: bytes and operands, jumps with
  backpatching, constants, block scopes with their locals, upvalue resolution along the chain of
  enclosing functions, and the debug metadata recorded on the way.  The chunk being written is a
  field of the function scope (\<open>currentChunk()\<close> is the chunk of the innermost function); the current
  AST node is its position.  The release build is modelled: it emits no \<open>Nop\<close> markers.
\<close>

section \<open>State\<close>

type_synonym pos = "int \<times> int"

record local_slot =
  l_name :: ustring
  l_depth :: int
  isCaptured :: bool
  isConst :: bool
  isTypeConst :: bool
  isParam :: bool
  l_typeName :: ustring
  debugStartOffset :: u32

record upvalue_ref =
  up_index :: byte
  up_isLocal :: bool
  up_name :: ustring

text \<open>
  \<open>FunctionScope\<close> with the parts of its function that emission uses: \<open>upvalueCount\<close>, the chunk, and
  the display names of the declared parameter types.
\<close>

record func_scope =
  initializer :: bool
  locals :: "local_slot list"
  upvalues :: "upvalue_ref list"
  upvalueCount :: nat
  scopeDepth :: int
  constBindings :: "(ustring \<rightharpoonup> rvalue) list"
  pendingLocals :: "(ustring \<rightharpoonup> nat) list"
  blockPath :: "nat list"
  nextBlockId :: nat
  identConsts :: "nat list"
  paramTypes :: "ustring option list"
  fchunk :: chunk

datatype compile_error =
  Loop_Too_Long
| Conditional_Too_Long
| Too_Many_Locals_For_Jump
| Too_Many_Constants
| Too_Many_Local_Variables
| Too_Many_Closure_Variables
| Already_Declared
| Not_A_String_Constant
| Used_Before_Declaration nat
| Assign_To_Constant
| Assign_To_Parameter
| Const_To_Mutable
| Undeclared_In_Strict
| Not_Constant
| Bad_Variant_Access
| Break_Outside_Loop
| Continue_Outside_Loop
| Value_From_Initializer
| Value_From_Proc
| Too_Many_Elements
| Too_Many_Parameters
| Duplicate_Label
| Undefined_Label
| Jump_Into_Scope
| Jump_Crosses_Guard
| Jump_Skips_Declaration
| Write_Outside_Code

definition new_local :: "ustring \<Rightarrow> int \<Rightarrow> ustring \<Rightarrow> local_slot" where
  "new_local name d typeName =
     \<lparr>l_name = name, l_depth = d, isCaptured = False, isConst = False, isTypeConst = False,
      isParam = False, l_typeName = typeName, debugStartOffset = 0\<rparr>"

definition new_func_scope :: "bool \<Rightarrow> ustring \<Rightarrow> ustring option list \<Rightarrow> chunk \<Rightarrow> func_scope" where
  "new_func_scope ini localName types c =
     \<lparr>initializer = ini, locals = [new_local localName 0 []], upvalues = [], upvalueCount = 0,
      scopeDepth = 0, constBindings = [Map.empty], pendingLocals = [Map.empty], blockPath = [],
      nextBlockId = 0, identConsts = [], paramTypes = types, fchunk = c\<rparr>"

section \<open>Emission\<close>

definition emitByte :: "pos \<Rightarrow> byte \<Rightarrow> chunk \<Rightarrow> chunk" where
  "emitByte p b c = chunk_write b (fst p) (snd p) c"

definition emitOp :: "pos \<Rightarrow> nat \<Rightarrow> chunk \<Rightarrow> chunk" where
  "emitOp p op c = chunk_write (asByte op) (fst p) (snd p) c"

definition emitBytes :: "pos \<Rightarrow> byte \<Rightarrow> byte \<Rightarrow> chunk \<Rightarrow> chunk" where
  "emitBytes p b1 b2 c = chunk_write b2 (fst p) (snd p) (chunk_write b1 (fst p) (snd p) c)"

definition emitBytes3 :: "pos \<Rightarrow> byte \<Rightarrow> byte \<Rightarrow> byte \<Rightarrow> chunk \<Rightarrow> chunk" where
  "emitBytes3 p b1 b2 b3 c =
     chunk_write b3 (fst p) (snd p) (chunk_write b2 (fst p) (snd p) (chunk_write b1 (fst p) (snd p) c))"

definition high_byte :: "u16 \<Rightarrow> byte" where "high_byte v = ucast (drop_bit 8 v)"
definition low_byte :: "u16 \<Rightarrow> byte" where "low_byte v = ucast (v AND 0xff)"

definition emitOpArgsBytes :: "pos \<Rightarrow> nat \<Rightarrow> u16 \<Rightarrow> chunk \<Rightarrow> chunk" where
  "emitOpArgsBytes p op arg c =
     (if arg \<le> 255 then emitBytes p (asByte op) (ucast arg) c
      else emitBytes3 p (asByte op OR DoubleByteArg) (high_byte arg) (low_byte arg) c)"

definition emitOpArgsBytesPlusIndex :: "pos \<Rightarrow> nat \<Rightarrow> u16 \<Rightarrow> u16 \<Rightarrow> chunk \<Rightarrow> chunk" where
  "emitOpArgsBytesPlusIndex p op arg index c =
     emitByte p (low_byte index) (emitByte p (high_byte index) (emitOpArgsBytes p op arg c))"

definition emitLoop :: "pos \<Rightarrow> nat \<Rightarrow> chunk \<Rightarrow> compile_error + chunk" where
  "emitLoop p loopStart c =
     (let c1 = emitOp p OpLoop c; offset = length (code c1) + 2 - loopStart in
      if length (code c1) + 2 < loopStart \<or> offset > 65535 then Inl Loop_Too_Long
      else Inr (emitByte p (low_byte (word_of_nat offset))
                 (emitByte p (high_byte (word_of_nat offset)) c1)))"

definition emitJump :: "pos \<Rightarrow> nat \<Rightarrow> chunk \<Rightarrow> nat \<times> chunk" where
  "emitJump p instruction c =
     (let c1 = emitByte p 0xff (emitByte p 0xff (emitOp p instruction c)) in (length (code c1) - 2, c1))"

definition emitPopToCount :: "pos \<Rightarrow> int \<Rightarrow> chunk \<Rightarrow> compile_error + (nat \<times> chunk)" where
  "emitPopToCount p count c =
     (let c1 = emitOp p OpPopToCount c in
      if count < 0 then
        (let c2 = emitByte p 0xff (emitByte p 0xff c1) in Inr (length (code c2) - 2, c2))
      else if count > 65535 then Inl Too_Many_Locals_For_Jump
      else (let c2 = emitByte p (low_byte (word_of_int count)) (emitByte p (high_byte (word_of_int count)) c1)
            in Inr (length (code c2) - 2, c2)))"

definition patchU16At :: "nat \<Rightarrow> u16 \<Rightarrow> chunk \<Rightarrow> chunk" where
  "patchU16At at v c = c\<lparr>code := (code c)[at := high_byte v, at + 1 := low_byte v]\<rparr>"

definition patchJump :: "nat \<Rightarrow> chunk \<Rightarrow> compile_error + chunk" where
  "patchJump at c =
     (let jumpDist = (length (code c) - at) - 2 in
      if length (code c) < at + 2 then Inl Write_Outside_Code
      else if jumpDist > 65535 then Inl Conditional_Too_Long
      else Inr (patchU16At at (word_of_nat jumpDist) c))"

definition emitReturn :: "pos \<Rightarrow> func_scope \<Rightarrow> func_scope" where
  "emitReturn p fs =
     fs\<lparr>fchunk := emitOp p OpReturn
        (if initializer fs then emitBytes p (asByte OpGetLocal) 0 (fchunk fs)
         else emitOp p OpConstNil (fchunk fs))\<rparr>"

definition makeConstant :: "chunk_const \<Rightarrow> chunk \<Rightarrow> compile_error + (u16 \<times> chunk)" where
  "makeConstant v c =
     (case addConstant v c of (k, c1) \<Rightarrow>
       if k \<ge> 65535 then Inl Too_Many_Constants else Inr (word_of_nat k, c1))"

definition emitConstant :: "pos \<Rightarrow> chunk_const \<Rightarrow> chunk \<Rightarrow> compile_error + chunk" where
  "emitConstant p v c = seq_then (makeConstant v c) (\<lambda>(k, c1). Inr (emitOpArgsBytes p OpConstant k c1))"

fun ident_search :: "chunk_const list \<Rightarrow> nat list \<Rightarrow> ustring \<Rightarrow> compile_error + nat option" where
  "ident_search ks [] ident = Inr None"
| "ident_search ks (i # is) ident =
     (if i < length ks then
        (case ks ! i of
           Const_Value (Str s) \<Rightarrow> if s = ident then Inr (Some i) else ident_search ks is ident
         | _ \<Rightarrow> Inl Not_A_String_Constant)
      else Inl Not_A_String_Constant)"

definition identifierConstant :: "ustring \<Rightarrow> func_scope \<Rightarrow> compile_error + (u16 \<times> func_scope)" where
  "identifierConstant ident fs =
     seq_then (ident_search (constants (fchunk fs)) (identConsts fs) ident) (\<lambda>found.
       case found of
         Some i \<Rightarrow> Inr (word_of_nat i, fs)
       | None \<Rightarrow> seq_then (makeConstant (Const_Value (Str ident)) (fchunk fs)) (\<lambda>(k, c1).
           Inr (k, fs\<lparr>fchunk := c1, identConsts := identConsts fs @ [unat k]\<rparr>)))"

section \<open>Debug metadata\<close>

definition no_debug :: debug_info where
  "no_debug = \<lparr>di_stmts = [], di_locals = [], di_upvalues = []\<rparr>"

definition with_debug :: "(debug_info \<Rightarrow> debug_info) \<Rightarrow> chunk \<Rightarrow> chunk" where
  "with_debug f c =
     c\<lparr>debugInfo := Some (f (case debugInfo c of None \<Rightarrow> no_debug | Some di \<Rightarrow> di))\<rparr>"

definition code_size :: "chunk \<Rightarrow> u32" where "code_size c = word_of_nat (length (code c))"

definition markStmtStart :: "bool \<Rightarrow> pos \<Rightarrow> chunk \<Rightarrow> chunk" where
  "markStmtStart enabled p c =
     (if \<not> enabled then c
      else with_debug (\<lambda>di.
        if di_stmts di \<noteq> [] \<and> st_offset (last (di_stmts di)) = code_size c \<and> st_kind (last (di_stmts di)) = 0
        then di
        else di\<lparr>di_stmts := di_stmts di @
               [\<lparr>st_offset = code_size c, st_line = word_of_int (fst p), st_column = word_of_int (snd p),
                 st_kind = 0\<rparr>]\<rparr>) c)"

definition recordFunctionEntryStmt :: "bool \<Rightarrow> pos \<Rightarrow> chunk \<Rightarrow> chunk" where
  "recordFunctionEntryStmt enabled p c =
     (if \<not> enabled then c
      else with_debug (\<lambda>di. di\<lparr>di_stmts := di_stmts di @
        [\<lparr>st_offset = 0, st_line = word_of_int (fst p), st_column = word_of_int (snd p),
          st_kind = FunctionEntry\<rparr>]\<rparr>) c)"

definition local_flags :: "local_slot \<Rightarrow> byte" where
  "local_flags l =
     (if isParam l then DebugLocalParam else 0) OR (if isCaptured l then DebugLocalCaptured else 0)
     OR (if isConst l then DebugLocalConst else 0) OR (if isTypeConst l then DebugLocalTypeConst else 0)
     OR (if startsWith (l_name l) [0x5f, 0x5f] then DebugLocalSynthetic else 0)"

definition display_type :: "func_scope \<Rightarrow> local_slot \<Rightarrow> nat \<Rightarrow> ustring" where
  "display_type fs l slot =
     (if isParam l \<and> l_typeName l = [] \<and> slot \<ge> 1 \<and> slot - 1 < length (paramTypes fs)
      then (case paramTypes fs ! (slot - 1) of None \<Rightarrow> [] | Some t \<Rightarrow> t) else l_typeName l)"

definition recordLocalDebug :: "bool \<Rightarrow> local_slot \<Rightarrow> nat \<Rightarrow> func_scope \<Rightarrow> func_scope" where
  "recordLocalDebug enabled l slot fs =
     (if \<not> enabled \<or> l_name l = [] then fs
      else fs\<lparr>fchunk := with_debug (\<lambda>di. di\<lparr>di_locals := di_locals di @
        [\<lparr>lv_name = l_name l, lv_slot = word_of_nat slot, lv_startOffset = debugStartOffset l,
          lv_endOffset = code_size (fchunk fs), lv_flags = local_flags l,
          lv_typeName = display_type fs l slot\<rparr>]\<rparr>) (fchunk fs)\<rparr>)"

definition flushFuncDebugInfo :: "bool \<Rightarrow> func_scope \<Rightarrow> func_scope" where
  "flushFuncDebugInfo enabled fs =
     (if \<not> enabled then fs
      else (let fs1 = fold (\<lambda>(i, l). recordLocalDebug enabled l i)
                   (zip [0..<length (locals fs)] (locals fs)) fs in
        if upvalues fs = [] then fs1
        else fs1\<lparr>fchunk := with_debug (\<lambda>di. di\<lparr>di_upvalues := di_upvalues di @
          map (\<lambda>(i, u). \<lparr>uv_name = up_name u, uv_index = word_of_nat i,
              uv_isLocal = (if up_isLocal u then 1 else 0)\<rparr>)
            (zip [0..<length (upvalues fs)] (upvalues fs))\<rparr>) (fchunk fs1)\<rparr>))"

section \<open>Block scopes and locals\<close>

definition enterLocalScope :: "func_scope \<Rightarrow> func_scope" where
  "enterLocalScope fs =
     fs\<lparr>scopeDepth := scopeDepth fs + 1, constBindings := constBindings fs @ [Map.empty],
        blockPath := blockPath fs @ [nextBlockId fs], nextBlockId := nextBlockId fs + 1,
        pendingLocals := pendingLocals fs @ [Map.empty]\<rparr>"

definition pop_op :: "local_slot \<Rightarrow> nat" where
  "pop_op l = (if isCaptured l then OpCloseUpvalue else OpPop)"

text \<open>The loop of \<open>exitLocalScope\<close>, which ends at the first local not deeper than the scope.\<close>

function pop_locals :: "bool \<Rightarrow> pos \<Rightarrow> func_scope \<Rightarrow> func_scope" where
  "pop_locals enabled p fs =
     (if locals fs \<noteq> [] \<and> l_depth (last (locals fs)) > scopeDepth fs then
        (let l = last (locals fs);
             fs1 = recordLocalDebug enabled l (length (locals fs) - 1) fs in
         pop_locals enabled p
           (fs1\<lparr>fchunk := emitOp p (pop_op l) (fchunk fs1), locals := butlast (locals fs)\<rparr>))
      else fs)"
  by pat_completeness auto
termination by (relation "measure (\<lambda>(enabled, p, fs). length (locals fs))") auto

declare pop_locals.simps [simp del]

definition exitLocalScope :: "bool \<Rightarrow> pos \<Rightarrow> func_scope \<Rightarrow> func_scope" where
  "exitLocalScope enabled p fs =
     (let fs1 = pop_locals enabled p (fs\<lparr>scopeDepth := scopeDepth fs - 1\<rparr>) in
      fs1\<lparr>constBindings := butlast (constBindings fs1), pendingLocals := butlast (pendingLocals fs1),
          blockPath := butlast (blockPath fs1)\<rparr>)"

text \<open>\<open>break\<close>, \<open>continue\<close> and \<open>jump\<close> emit the pops without leaving the scope.\<close>

definition emitPopsForLoopExit :: "pos \<Rightarrow> int \<Rightarrow> func_scope \<Rightarrow> func_scope" where
  "emitPopsForLoopExit p targetDepth fs =
     fs\<lparr>fchunk := fold (\<lambda>l. emitOp p (pop_op l))
          (takeWhile (\<lambda>l. l_depth l > targetDepth) (rev (locals fs))) (fchunk fs)\<rparr>"

definition addLocal :: "ustring \<Rightarrow> ustring \<Rightarrow> func_scope \<Rightarrow> compile_error + func_scope" where
  "addLocal name typeName fs =
     (if length (locals fs) = 255 then Inl Too_Many_Local_Variables
      else Inr (fs\<lparr>locals := locals fs @ [new_local name (-1) typeName]\<rparr>))"

text \<open>\<open>declareVariable\<close> in a block (\<open>scopeDepth > 0\<close>); a depth-0 variable belongs to the module.\<close>

definition declared_here :: "ustring \<Rightarrow> func_scope \<Rightarrow> bool" where
  "declared_here name fs \<longleftrightarrow>
     list_ex (\<lambda>l. l_name l = name)
       (takeWhile (\<lambda>l. \<not> (l_depth l \<noteq> -1 \<and> l_depth l < scopeDepth fs)) (rev (locals fs)))"

definition constExistsInCurrentScope :: "ustring \<Rightarrow> func_scope \<Rightarrow> bool" where
  "constExistsInCurrentScope name fs \<longleftrightarrow>
     constBindings fs \<noteq> [] \<and> last (constBindings fs) name \<noteq> None"

definition clearPendingDeclaration :: "ustring \<Rightarrow> func_scope \<Rightarrow> func_scope" where
  "clearPendingDeclaration name fs =
     (if pendingLocals fs = [] then fs
      else fs\<lparr>pendingLocals := butlast (pendingLocals fs) @ [(last (pendingLocals fs))(name := None)]\<rparr>)"

definition declareLocal :: "ustring \<Rightarrow> ustring \<Rightarrow> func_scope \<Rightarrow> compile_error + func_scope" where
  "declareLocal name typeName fs =
     (let fs1 = clearPendingDeclaration name fs in
      if constExistsInCurrentScope name fs1 \<or> declared_here name fs1 then Inl Already_Declared
      else addLocal name typeName fs1)"

definition defineVariable :: "pos \<Rightarrow> u16 \<Rightarrow> bool \<Rightarrow> func_scope \<Rightarrow> func_scope" where
  "defineVariable p moduleVar isConstVar fs =
     (if scopeDepth fs > 0 then
        fs\<lparr>locals := butlast (locals fs) @
             [(last (locals fs))\<lparr>l_depth := scopeDepth fs, debugStartOffset := code_size (fchunk fs)\<rparr>]\<rparr>
      else fs\<lparr>fchunk := emitOpArgsBytes p (if isConstVar then 59 else 58) moduleVar (fchunk fs)\<rparr>)"

text \<open>\<open>pendingDeclaration\<close>: the line of a later declaration in an enclosing block of the function.\<close>

definition declaredDepth :: "ustring \<Rightarrow> local_slot list \<Rightarrow> int" where
  "declaredDepth name ls =
     (case find (\<lambda>l. l_name l = name \<and> l_depth l \<noteq> -1) (rev ls) of None \<Rightarrow> -1 | Some l \<Rightarrow> l_depth l)"

fun pending_search :: "(ustring \<rightharpoonup> nat) list \<Rightarrow> nat \<Rightarrow> ustring \<Rightarrow> int \<Rightarrow> nat option" where
  "pending_search ps 0 name declared = None"
| "pending_search ps (Suc d) name declared =
     (case (ps ! d) name of
        None \<Rightarrow> pending_search ps d name declared
      | Some line \<Rightarrow> if declared \<ge> int d then None else Some line)"

definition pendingDeclaration :: "ustring \<Rightarrow> func_scope \<Rightarrow> nat option" where
  "pendingDeclaration name fs =
     pending_search (pendingLocals fs) (length (pendingLocals fs)) name (declaredDepth name (locals fs))"

section \<open>Name resolution\<close>

fun local_scan :: "local_slot list \<Rightarrow> nat \<Rightarrow> ustring \<Rightarrow> int" where
  "local_scan ls 0 name = -1"
| "local_scan ls (Suc i) name =
     (if l_name (ls ! i) = name then
        (if l_depth (ls ! i) = -1 then local_scan ls i name else int i)
      else local_scan ls i name)"

definition resolveLocal :: "func_scope \<Rightarrow> ustring \<Rightarrow> int" where
  "resolveLocal fs name = local_scan (locals fs) (length (locals fs)) name"

fun upvalue_search :: "upvalue_ref list \<Rightarrow> nat \<Rightarrow> byte \<Rightarrow> bool \<Rightarrow> nat option" where
  "upvalue_search [] i index isLocal = None"
| "upvalue_search (u # us) i index isLocal =
     (if up_index u = index \<and> up_isLocal u = isLocal then Some i
      else upvalue_search us (Suc i) index isLocal)"

definition addUpvalue ::
  "func_scope \<Rightarrow> byte \<Rightarrow> bool \<Rightarrow> ustring \<Rightarrow> compile_error + (int \<times> func_scope)" where
  "addUpvalue fs index isLocal name =
     (case upvalue_search (take (upvalueCount fs) (upvalues fs)) 0 index isLocal of
        Some i \<Rightarrow> Inr (int i, fs)
      | None \<Rightarrow>
          if upvalueCount fs = 255 then Inl Too_Many_Closure_Variables
          else Inr (int (upvalueCount fs),
             fs\<lparr>upvalues := upvalues fs @ [\<lparr>up_index = index, up_isLocal = isLocal, up_name = name\<rparr>],
                upvalueCount := upvalueCount fs + 1\<rparr>))"

text \<open>\<open>resolveUpvalue\<close> over the enclosing function scopes, the innermost first.\<close>

definition capture :: "nat \<Rightarrow> func_scope \<Rightarrow> func_scope" where
  "capture i fs = fs\<lparr>locals := (locals fs)[i := (locals fs ! i)\<lparr>isCaptured := True\<rparr>]\<rparr>"

fun resolveUpvalue :: "ustring \<Rightarrow> func_scope list \<Rightarrow> compile_error + (int \<times> func_scope list)" where
  "resolveUpvalue name [] = Inr (-1, [])"
| "resolveUpvalue name [fs] = Inr (-1, [fs])"
| "resolveUpvalue name (fs # encl # outer) =
     (let loc = resolveLocal encl name in
      if loc \<noteq> -1 then
        seq_then (addUpvalue fs (word_of_int loc) True name) (\<lambda>(i, fs1).
          Inr (i, fs1 # capture (nat loc) encl # outer))
      else seq_then (resolveUpvalue name (encl # outer)) (\<lambda>(up, scopes).
        if up \<noteq> -1 then
          seq_then (addUpvalue fs (word_of_int up) False name) (\<lambda>(i, fs1). Inr (i, fs1 # scopes))
        else Inr (-1, fs # scopes)))"

section \<open>Lemmas on emission\<close>

lemma code_chunk_write [simp]: "code (chunk_write b line column c) = code c @ [b]"
  by (simp add: chunk_write_def Let_def)

lemma code_emit [simp]:
  "code (emitByte p b c) = code c @ [b]" "code (emitOp p op c) = code c @ [asByte op]"
  "code (emitBytes p b1 b2 c) = code c @ [b1, b2]" "code (emitBytes3 p b1 b2 b3 c) = code c @ [b1, b2, b3]"
  by (simp_all add: emitByte_def emitOp_def emitBytes_def emitBytes3_def)

lemma debugInfo_chunk_write [simp]: "debugInfo (chunk_write b line column c) = debugInfo c"
  by (simp add: chunk_write_def Let_def)

lemma debugInfo_emit [simp]: "debugInfo (emitByte p b c) = debugInfo c" "debugInfo (emitOp p op c) = debugInfo c"
  by (simp_all add: emitByte_def emitOp_def)

lemma u16_split:
  "[high_byte v, low_byte v] = u16_bytes (unat v)"
proof -
  have m: "(0xff :: u16) = mask 8" by (simp add: mask_eq_exp_minus_1)
  have v: "unat v < 65536" using unsigned_less [of v, where ?'a = nat] by simp
  have "unat (high_byte v) = unat v div 256"
    using v unfolding high_byte_def unsigned_ucast_eq unsigned_drop_bit_eq
    by (simp add: take_bit_eq_mod drop_bit_eq_div less_mult_imp_div_less)
  moreover have "unat (low_byte v) = unat v mod 256"
    unfolding low_byte_def m take_bit_eq_mask [symmetric] unsigned_ucast_eq unsigned_take_bit_eq
    by (simp add: take_bit_eq_mod)
  ultimately show ?thesis
    using v by (simp add: u16_bytes_def word_unat_eq_iff unat_of_nat less_mult_imp_div_less)
qed

lemma u16_split_nat: "a < 65536 \<Longrightarrow> [high_byte (word_of_nat a), low_byte (word_of_nat a)] = u16_bytes a"
  using u16_split [of "word_of_nat a"] by (simp add: unat_of_nat)

lemma code_emitOpArgsBytes [simp]: "code (emitOpArgsBytes p op arg c) = code c @ op_arg op (unat arg)"
proof -
  have "arg \<le> 255 \<longleftrightarrow> unat arg \<le> 255" by (simp add: word_le_nat_alt)
  moreover have "ucast arg = (word_of_nat (unat arg) :: byte)" by simp
  ultimately show ?thesis using u16_split [of arg] by (auto simp: emitOpArgsBytes_def op_arg_def)
qed

lemma emitJump_code:
  "emitJump p op c = (at, c1) \<Longrightarrow> code c1 = code c @ [asByte op, 0xff, 0xff] \<and> at = length (code c) + 1"
  by (auto simp: emitJump_def Let_def)

lemma patchU16At_code:
  "code c = pre @ [x, y] @ rest \<Longrightarrow> code (patchU16At (length pre) v c) = pre @ u16_bytes (unat v) @ rest"
  using u16_split [of v] by (simp add: patchU16At_def list_update_append)

section \<open>Lemmas on scopes\<close>

lemma local_scan_bound: "local_scan ls n name < int n \<and> - 1 \<le> local_scan ls n name"
  by (induction n) auto

lemma local_scan_hit:
  "local_scan ls n name = int i \<Longrightarrow> i < n \<and> l_name (ls ! i) = name \<and> l_depth (ls ! i) \<noteq> -1"
  by (induction n) (auto split: if_splits)

lemma upvalue_search_hit:
  "upvalue_search us n ix b = Some i \<Longrightarrow>
     n \<le> i \<and> i < n + length us \<and> up_index (us ! (i - n)) = ix \<and> up_isLocal (us ! (i - n)) = b"
  by (induction us n ix b rule: upvalue_search.induct) (auto simp: nth_Cons' split: if_splits)

definition scope_ok :: "func_scope \<Rightarrow> bool" where
  "scope_ok fs \<longleftrightarrow> length (locals fs) \<le> 255 \<and> upvalueCount fs = length (upvalues fs) \<and> upvalueCount fs \<le> 255"

lemma addUpvalue_ok:
  assumes ok: "scope_ok fs" and r: "addUpvalue fs ix b name = Inr (i, fs1)"
  shows "scope_ok fs1 \<and> locals fs1 = locals fs \<and> 0 \<le> i \<and> nat i < upvalueCount fs1 \<and> i < 255
    \<and> up_index (upvalues fs1 ! nat i) = ix \<and> up_isLocal (upvalues fs1 ! nat i) = b
    \<and> take (upvalueCount fs) (upvalues fs1) = upvalues fs"
proof (cases "upvalue_search (take (upvalueCount fs) (upvalues fs)) 0 ix b")
  case None
  then show ?thesis using ok r by (auto simp: addUpvalue_def scope_ok_def nth_append split: if_splits)
next
  case (Some k)
  then show ?thesis
    using ok r upvalue_search_hit [OF Some] by (auto simp: addUpvalue_def scope_ok_def)
qed

text \<open>Where the upvalue \<open>i\<close> of the innermost scope leads: the level of a scope and a local slot in it.\<close>

fun upvalue_target :: "func_scope list \<Rightarrow> nat \<Rightarrow> nat \<times> nat" where
  "upvalue_target [] i = (0, i)"
| "upvalue_target (fs # outer) i =
     (let u = upvalues fs ! i in
      if up_isLocal u then (1, unat (up_index u))
      else (case upvalue_target outer (unat (up_index u)) of (k, slot) \<Rightarrow> (Suc k, slot)))"

definition binds_at :: "func_scope list \<Rightarrow> ustring \<Rightarrow> nat \<Rightarrow> nat \<Rightarrow> bool" where
  "binds_at scopes name k slot \<longleftrightarrow>
     1 \<le> k \<and> k < length scopes \<and> resolveLocal (scopes ! k) name = int slot
     \<and> (\<forall>j. 1 \<le> j \<and> j < k \<longrightarrow> resolveLocal (scopes ! j) name = -1)"

lemma binds_at_Suc:
  assumes "binds_at (encl # outer) name k slot" "resolveLocal encl name = -1"
  shows "binds_at (fs # encl # outer) name (Suc k) slot"
proof -
  have "resolveLocal ((fs # encl # outer) ! j) name = -1" if "1 \<le> j" "j < Suc k" for j
  proof (cases j)
    case (Suc i)
    then show ?thesis using that assms by (cases "i = 0") (auto simp: binds_at_def)
  qed (use that in simp)
  with assms(1) show ?thesis by (auto simp: binds_at_def)
qed

lemma upvalue_byte: "n < 256 \<Longrightarrow> unat (word_of_nat n :: byte) = n"
  by (simp add: unat_of_nat)

lemma resolveUpvalue_good:
  assumes "list_all scope_ok scopes" "resolveUpvalue name scopes = Inr (i, scopes')"
  shows "list_all scope_ok scopes' \<and>
    (if i = -1 then scopes' = scopes \<and> (\<forall>k. 1 \<le> k \<and> k < length scopes \<longrightarrow> resolveLocal (scopes ! k) name = -1)
     else 0 \<le> i \<and> i < 255 \<and> nat i < upvalueCount (hd scopes')
       \<and> (\<exists>k slot. upvalue_target scopes' (nat i) = (k, slot) \<and> binds_at scopes name k slot
            \<and> isCaptured (locals (scopes' ! k) ! slot)))"
  using assms
proof (induction name scopes arbitrary: i scopes' rule: resolveUpvalue.induct)
  case (3 name fs encl outer)
  have ok: "scope_ok fs" "scope_ok encl" "list_all scope_ok outer" using "3.prems"(1) by simp_all
  let ?loc = "resolveLocal encl name"
  have b: "-1 \<le> ?loc" "?loc < 255"
    using local_scan_bound [of "locals encl" "length (locals encl)" name] ok(2)
    by (simp_all add: resolveLocal_def scope_ok_def)
  show ?case
  proof (cases "?loc = -1")
    case False
    then obtain fs1 where u: "addUpvalue fs (word_of_int ?loc) True name = Inr (i, fs1)"
      and s: "scopes' = fs1 # capture (nat ?loc) encl # outer"
      using "3.prems"(2) by (auto simp: seq_then_eq_Inr Let_def)
    obtain slot where slot: "?loc = int slot" using False b by (cases ?loc) auto
    have "slot < length (locals encl)" "slot < 255"
      using local_scan_bound [of "locals encl" "length (locals encl)" name] slot b by (simp_all add: resolveLocal_def)
    moreover have "word_of_int ?loc = (word_of_nat slot :: byte)" by (simp add: slot)
    moreover have "scope_ok (capture (nat ?loc) encl)" using ok(2) by (simp add: capture_def scope_ok_def)
    ultimately show ?thesis
      using addUpvalue_ok [OF ok(1) u] ok(3) slot
      by (auto simp: s Let_def upvalue_byte binds_at_def capture_def)
  next
    case True
    then obtain up scopes1 where r: "resolveUpvalue name (encl # outer) = Inr (up, scopes1)"
      and cont: "(if up \<noteq> -1 then seq_then (addUpvalue fs (word_of_int up) False name) (\<lambda>(i, fs1). Inr (i, fs1 # scopes1))
        else Inr (-1, fs # scopes1)) = Inr (i, scopes')"
      using "3.prems"(2) by (auto simp: seq_then_eq_Inr Let_def)
    have "\<not> ?loc \<noteq> -1" "list_all scope_ok (encl # outer)" using True ok by simp_all
    note ih = "3.IH" [OF refl this r]
    show ?thesis
    proof (cases "up = -1")
      case True
      then have "i = -1" "scopes' = fs # scopes1" using cont by simp_all
      moreover have "resolveLocal ((fs # encl # outer) ! k) name = -1" if "1 \<le> k" "k < length (fs # encl # outer)" for k
      proof (cases k)
        case (Suc j)
        then show ?thesis using that True ih \<open>?loc = -1\<close> by (cases "j = 0") auto
      qed (use that in simp)
      ultimately show ?thesis using True ih ok by simp
    next
      case False
      then obtain fs1 where u: "addUpvalue fs (word_of_int up) False name = Inr (i, fs1)" and s: "scopes' = fs1 # scopes1"
        using cont by (auto simp: seq_then_eq_Inr)
      obtain n where n: "up = int n" using False ih by (cases up) auto
      obtain k slot where t: "upvalue_target scopes1 n = (k, slot)" and bind: "binds_at (encl # outer) name k slot"
        and cap: "isCaptured (locals (scopes1 ! k) ! slot)" using ih False n by auto
      have "binds_at (fs # encl # outer) name (Suc k) slot"
        using bind True by (rule binds_at_Suc)
      then show ?thesis
        using addUpvalue_ok [OF ok(1) u] ih False n t cap by (auto simp: s Let_def upvalue_byte)
    qed
  qed
qed auto

section \<open>Lemmas on leaving scopes\<close>

definition debug_locals :: "chunk \<Rightarrow> local_var list" where
  "debug_locals c = (case debugInfo c of None \<Rightarrow> [] | Some di \<Rightarrow> di_locals di)"

definition debug_stmts :: "chunk \<Rightarrow> stmt_entry list" where
  "debug_stmts c = (case debugInfo c of None \<Rightarrow> [] | Some di \<Rightarrow> di_stmts di)"

lemma debug_lists_emit [simp]:
  "debug_locals (emitOp p op c) = debug_locals c" "debug_stmts (emitOp p op c) = debug_stmts c"
  by (simp_all add: debug_locals_def debug_stmts_def)

lemma recordLocalDebug_chunk:
  "\<exists>c. recordLocalDebug enabled l slot fs = fs\<lparr>fchunk := c\<rparr> \<and> code c = code (fchunk fs)
     \<and> constants c = constants (fchunk fs) \<and> debug_stmts c = debug_stmts (fchunk fs)
     \<and> length (debug_locals c) = length (debug_locals (fchunk fs)) + (if enabled \<and> l_name l \<noteq> [] then 1 else 0)"
proof (cases "enabled \<and> l_name l \<noteq> []")
  case True
  then show ?thesis
    by (intro exI [of _ "fchunk (recordLocalDebug enabled l slot fs)"])
      (auto simp: recordLocalDebug_def with_debug_def debug_locals_def debug_stmts_def no_debug_def split: option.splits)
next
  case False
  then show ?thesis by (intro exI [of _ "fchunk fs"]) (auto simp: recordLocalDebug_def)
qed

lemma constants_emitOp [simp]: "constants (emitOp p op c) = constants c"
  by (simp add: emitOp_def chunk_write_def Let_def)

lemma pop_locals_good:
  assumes "locals fs = keep @ gone" "list_all (\<lambda>l. l_depth l > scopeDepth fs) gone"
    and "keep = [] \<or> l_depth (last keep) \<le> scopeDepth fs"
  shows "\<exists>c. pop_locals enabled p fs = fs\<lparr>locals := keep, fchunk := c\<rparr>
    \<and> code c = code (fchunk fs) @ map (asByte \<circ> pop_op) (rev gone) \<and> constants c = constants (fchunk fs)
    \<and> debug_stmts c = debug_stmts (fchunk fs)
    \<and> length (debug_locals c) = length (debug_locals (fchunk fs))
        + (if enabled then length (filter (\<lambda>l. l_name l \<noteq> []) gone) else 0)"
  using assms
proof (induction gone arbitrary: fs rule: rev_induct)
  case Nil
  then show ?case
    by (intro exI [of _ "fchunk fs"]) (auto simp: pop_locals.simps [of enabled p fs])
next
  case (snoc l gone)
  obtain c where c: "recordLocalDebug enabled l (length (locals fs) - 1) fs = fs\<lparr>fchunk := c\<rparr>"
    "code c = code (fchunk fs)" "constants c = constants (fchunk fs)" "debug_stmts c = debug_stmts (fchunk fs)"
    "length (debug_locals c) = length (debug_locals (fchunk fs)) + (if enabled \<and> l_name l \<noteq> [] then 1 else 0)"
    using recordLocalDebug_chunk by metis
  let ?fs = "fs\<lparr>fchunk := emitOp p (pop_op l) c, locals := keep @ gone\<rparr>"
  have l: "locals fs \<noteq> []" "last (locals fs) = l" "butlast (locals fs) = keep @ gone" "l_depth l > scopeDepth fs"
    using snoc.prems by (simp_all add: butlast_append)
  have step: "pop_locals enabled p fs = pop_locals enabled p ?fs"
    unfolding pop_locals.simps [of enabled p fs] Let_def l(2,3) c(1) using l by simp
  have "\<exists>c'. pop_locals enabled p ?fs = ?fs\<lparr>locals := keep, fchunk := c'\<rparr>
    \<and> code c' = code (fchunk ?fs) @ map (asByte \<circ> pop_op) (rev gone) \<and> constants c' = constants (fchunk ?fs)
    \<and> debug_stmts c' = debug_stmts (fchunk ?fs)
    \<and> length (debug_locals c') = length (debug_locals (fchunk ?fs))
        + (if enabled then length (filter (\<lambda>l. l_name l \<noteq> []) gone) else 0)"
    by (rule snoc.IH) (use snoc.prems in auto)
  then show ?case unfolding step using c by auto
qed

lemma fold_emitOp_code: "code (fold (\<lambda>l. emitOp p (pop_op l)) ls c) = code c @ map (asByte \<circ> pop_op) ls"
  by (induction ls arbitrary: c) auto

section \<open>Sibling blocks\<close>

text \<open>The compiler's calls for a block \<open>var name = nil\<close> and for \<open>n\<close> such blocks in a row.\<close>

definition sibling_block :: "bool \<Rightarrow> pos \<Rightarrow> ustring \<Rightarrow> func_scope \<Rightarrow> compile_error + func_scope" where
  "sibling_block enabled p name fs =
     seq_then (declareLocal name [] (enterLocalScope fs)) (\<lambda>fs1.
       Inr (exitLocalScope enabled p
         (defineVariable p 0 False (fs1\<lparr>fchunk := emitOp p OpConstNil (fchunk fs1)\<rparr>))))"

fun sibling_blocks :: "nat \<Rightarrow> bool \<Rightarrow> pos \<Rightarrow> ustring \<Rightarrow> func_scope \<Rightarrow> compile_error + func_scope" where
  "sibling_blocks 0 enabled p name fs = Inr fs"
| "sibling_blocks (Suc n) enabled p name fs =
     seq_then (sibling_block enabled p name fs) (sibling_blocks n enabled p name)"

definition outer_only :: "nat \<Rightarrow> func_scope \<Rightarrow> bool" where
  "outer_only n fs \<longleftrightarrow> locals fs = [new_local [] 0 []] \<and> scopeDepth fs = 0 \<and> constBindings fs = [Map.empty]
     \<and> pendingLocals fs = [Map.empty] \<and> length (debug_locals (fchunk fs)) = n \<and> debug_stmts (fchunk fs) = []"

lemma sibling_block_good:
  assumes "outer_only n fs" "name \<noteq> []"
  shows "\<exists>fs'. sibling_block True p name fs = Inr fs' \<and> outer_only (Suc n) fs'"
proof -
  let ?fs1 = "(enterLocalScope fs)\<lparr>locals := [new_local [] 0 [], new_local name (-1) []]\<rparr>"
  have d: "declareLocal name [] (enterLocalScope fs) = Inr ?fs1"
    using assms
    by (simp add: declareLocal_def Let_def enterLocalScope_def clearPendingDeclaration_def outer_only_def
        constExistsInCurrentScope_def declared_here_def addLocal_def new_local_def)
  let ?l = "(new_local name (-1) [])\<lparr>l_depth := 1, debugStartOffset := code_size (emitOp p OpConstNil (fchunk fs))\<rparr>"
  let ?fs2 = "defineVariable p 0 False (?fs1\<lparr>fchunk := emitOp p OpConstNil (fchunk ?fs1)\<rparr>)"
  let ?fs3 = "?fs2\<lparr>scopeDepth := scopeDepth ?fs2 - 1\<rparr>"
  have l: "locals ?fs3 = [new_local [] 0 []] @ [?l]" "scopeDepth ?fs3 = 0"
    "constBindings ?fs3 = [Map.empty, Map.empty]" "pendingLocals ?fs3 = [Map.empty, Map.empty]"
    "debug_stmts (fchunk ?fs3) = []" "length (debug_locals (fchunk ?fs3)) = n"
    using assms by (simp_all add: outer_only_def enterLocalScope_def defineVariable_def)
  obtain c where c: "pop_locals True p ?fs3 = ?fs3\<lparr>locals := [new_local [] 0 []], fchunk := c\<rparr>"
    "debug_stmts c = debug_stmts (fchunk ?fs3)" "length (debug_locals c) = length (debug_locals (fchunk ?fs3)) + 1"
    using pop_locals_good [OF l(1), of True p] assms(2) l(2) by (auto simp: new_local_def)
  have "outer_only (Suc n) (exitLocalScope True p ?fs2)"
    unfolding exitLocalScope_def c(1) Let_def outer_only_def using l c(2,3) by simp
  with d show ?thesis by (simp add: sibling_block_def)
qed

lemma sibling_blocks_good:
  "outer_only n fs \<Longrightarrow> name \<noteq> [] \<Longrightarrow>
     \<exists>fs'. sibling_blocks k True p name fs = Inr fs' \<and> outer_only (n + k) fs'"
proof (induction k arbitrary: n fs)
  case (Suc k)
  obtain fs1 where "sibling_block True p name fs = Inr fs1" "outer_only (Suc n) fs1"
    using sibling_block_good [OF Suc.prems] by blast
  with Suc.IH [of "Suc n" fs1] Suc.prems(2) show ?case by simp
qed simp

section \<open>Properties\<close>

text \<open>
  C35. Jumps land where the compiler meant.  Patching a forward jump after any body of up to 65535
  bytes gives the jump instruction whose operand is the length of the body, so its target, the end
  of the instruction plus the operand, is the end of the code; a longer body is an error.  The operand
  of a backward jump is the distance \<open>d\<close> from the loop start to the end of the instruction, which the
  machine goes back from there; a distance above 65535 is an error and emits no jump.
\<close>

theorem jumps_land:
  assumes "emitJump p op c = (at, c1)" "code c2 = code c1 @ body"
  shows "(if length body \<le> 65535
      then \<exists>c3. patchJump at c2 = Inr c3 \<and> code c3 = code c @ encode op (U16_Operand (length body)) @ body
        \<and> length (code c) + 3 + length body = length (code c3)
      else patchJump at c2 = Inl Conditional_Too_Long)
    \<and> (loopStart \<le> length (code c2) \<longrightarrow>
       (let d = length (code c2) + 3 - loopStart in
        if d \<le> 65535 then \<exists>c3. emitLoop p loopStart c2 = Inr c3 \<and> code c3 = code c2 @ encode OpLoop (U16_Operand d)
          \<and> length (code c3) - d = loopStart
        else emitLoop p loopStart c2 = Inl Loop_Too_Long))"
proof (rule conjI)
  have c1: "code c1 = code c @ [asByte op, 0xff, 0xff]" and at: "at = length (code c) + 1"
    using emitJump_code [OF assms(1)] by simp_all
  have c2: "code c2 = (code c @ [asByte op]) @ [0xff, 0xff] @ body" using assms(2) c1 by simp
  have dist: "length (code c2) - at - 2 = length body" using c2 at by simp
  have "code (patchU16At (length (code c @ [asByte op])) v c2) = (code c @ [asByte op]) @ u16_bytes (unat v) @ body" for v
    by (rule patchU16At_code [OF c2])
  then have p: "code (patchU16At at v c2) = (code c @ [asByte op]) @ u16_bytes (unat v) @ body" for v by (simp add: at)
  have "unat (word_of_nat (length body) :: u16) = length body" if "length body \<le> 65535"
    using that by (simp add: unat_of_nat)
  then show "if length body \<le> 65535
      then \<exists>c3. patchJump at c2 = Inr c3 \<and> code c3 = code c @ encode op (U16_Operand (length body)) @ body
        \<and> length (code c) + 3 + length body = length (code c3)
      else patchJump at c2 = Inl Conditional_Too_Long"
    unfolding patchJump_def Let_def dist using p [of "word_of_nat (length body)"] c2 at by (simp add: u16_bytes_def)
next
  show "loopStart \<le> length (code c2) \<longrightarrow>
       (let d = length (code c2) + 3 - loopStart in
        if d \<le> 65535 then \<exists>c3. emitLoop p loopStart c2 = Inr c3 \<and> code c3 = code c2 @ encode OpLoop (U16_Operand d)
          \<and> length (code c3) - d = loopStart
        else emitLoop p loopStart c2 = Inl Loop_Too_Long)"
  proof
    assume le: "loopStart \<le> length (code c2)"
    obtain n where n: "n = length (code c2) + 3 - loopStart" by simp
    have d: "length (code (emitOp p OpLoop c2)) + 2 - loopStart = n" "\<not> length (code (emitOp p OpLoop c2)) + 2 < loopStart"
      using le n by simp_all
    have l: "length (code c2) + 3 - n = loopStart" using le n by simp
    show "let d = length (code c2) + 3 - loopStart in
        if d \<le> 65535 then \<exists>c3. emitLoop p loopStart c2 = Inr c3 \<and> code c3 = code c2 @ encode OpLoop (U16_Operand d)
          \<and> length (code c3) - d = loopStart
        else emitLoop p loopStart c2 = Inl Loop_Too_Long"
      using u16_split_nat [of n] d(2) l unfolding emitLoop_def Let_def d(1) n [symmetric]
      by (cases "n > 65535") (auto simp: u16_bytes_def)
  qed
qed

theorem jumps_land_witness:
  "(\<exists>c3. patchJump 1 (emitOp (1, 0) OpPop (snd (emitJump (1, 0) 35 (new_chunk [] [] [])))) = Inr c3
     \<and> code c3 = [35, 0, 1, 27])
   \<and> (\<exists>c3. emitLoop (1, 0) 1 (emitOp (1, 0) OpPop (snd (emitJump (1, 0) 35 (new_chunk [] [] [])))) = Inr c3
     \<and> drop 4 (code c3) = encode OpLoop (U16_Operand 6))"
proof -
  have j: "emitJump (1, 0) 35 (new_chunk [] [] []) = (1, snd (emitJump (1, 0) 35 (new_chunk [] [] [])))"
    by (simp add: emitJump_def Let_def new_chunk_def)
  have b: "code (emitOp (1, 0) OpPop (snd (emitJump (1, 0) 35 (new_chunk [] [] []))))
      = code (snd (emitJump (1, 0) 35 (new_chunk [] [] []))) @ [asByte OpPop]" by simp
  have c: "code (snd (emitJump (1, 0) 35 (new_chunk [] [] []))) = [35, 0xff, 0xff]"
    using emitJump_code [OF j] by (simp add: new_chunk_def asByte_def)
  show ?thesis
    using jumps_land [OF j b, where loopStart = 1] c
    by (simp add: new_chunk_def asByte_def u16_bytes_def Let_def) (elim conjE exE, auto)
qed

text \<open>
  C36. Leaving a block restores the scope: when the block added the locals \<open>gone\<close>, leaving it drops
  exactly these, restores the depth and the three block stacks, and emits one instruction for each,
  innermost first, \<open>CLOSE_UPVALUE\<close> for the captured ones and \<open>POP\<close> for the others; the pops a
  \<open>break\<close> or \<open>continue\<close> emits at that point are the same bytes.
\<close>

theorem block_exit_balanced:
  assumes "fs1 = enterLocalScope fs" "locals fs2 = locals fs @ gone" "scopeDepth fs2 = scopeDepth fs1"
    and "list_all (\<lambda>l. l_depth l \<ge> scopeDepth fs1) gone" "list_all (\<lambda>l. l_depth l \<le> scopeDepth fs) (locals fs)"
    and "constBindings fs2 = constBindings fs @ [m]" "pendingLocals fs2 = pendingLocals fs @ [q]"
    and "blockPath fs2 = blockPath fs @ [b]"
  shows "locals (exitLocalScope enabled p fs2) = locals fs
    \<and> scopeDepth (exitLocalScope enabled p fs2) = scopeDepth fs
    \<and> constBindings (exitLocalScope enabled p fs2) = constBindings fs
    \<and> pendingLocals (exitLocalScope enabled p fs2) = pendingLocals fs
    \<and> blockPath (exitLocalScope enabled p fs2) = blockPath fs
    \<and> code (fchunk (exitLocalScope enabled p fs2)) = code (fchunk fs2)
        @ map (\<lambda>l. asByte (if isCaptured l then OpCloseUpvalue else OpPop)) (rev gone)
    \<and> code (fchunk (emitPopsForLoopExit p (scopeDepth fs) fs2)) = code (fchunk (exitLocalScope enabled p fs2))"
proof -
  let ?fs = "fs2\<lparr>scopeDepth := scopeDepth fs2 - 1\<rparr>"
  have d: "scopeDepth fs2 - 1 = scopeDepth fs" using assms(1,3) by (simp add: enterLocalScope_def)
  have gone: "list_all (\<lambda>l. l_depth l > scopeDepth ?fs) gone"
    using assms(1,4) d by (auto simp: enterLocalScope_def list_all_iff)
  have keep: "locals fs = [] \<or> l_depth (last (locals fs)) \<le> scopeDepth ?fs"
    using assms(5) d by (cases "locals fs = []") (simp_all add: list_all_iff)
  obtain c where c: "pop_locals enabled p ?fs = ?fs\<lparr>locals := locals fs, fchunk := c\<rparr>"
    "code c = code (fchunk ?fs) @ map (asByte \<circ> pop_op) (rev gone)"
    using pop_locals_good [of ?fs "locals fs" gone enabled p] gone keep assms(2) by auto
  have t: "takeWhile (\<lambda>l. l_depth l > scopeDepth fs) (rev (locals fs2)) = rev gone"
  proof -
    have "takeWhile (\<lambda>l. l_depth l > scopeDepth fs) (rev (locals fs)) = []"
      using assms(5) by (cases "rev (locals fs)") (auto simp: list_all_iff)
    moreover have "\<forall>l \<in> set (rev gone). l_depth l > scopeDepth fs"
      using gone d by (auto simp: list_all_iff)
    ultimately show ?thesis by (simp add: assms(2) takeWhile_append)
  qed
  have e: "exitLocalScope enabled p fs2 = ?fs\<lparr>locals := locals fs, fchunk := c, constBindings := constBindings fs,
      pendingLocals := pendingLocals fs, blockPath := blockPath fs\<rparr>"
    unfolding exitLocalScope_def c(1) Let_def using assms(6-8) by simp
  show ?thesis
    unfolding e emitPopsForLoopExit_def t using c(2) d fold_emitOp_code [of p "rev gone" "fchunk fs2"]
    by (simp add: pop_op_def comp_def)
qed

definition block_sample :: func_scope where
  "block_sample = (enterLocalScope (new_func_scope False [] [] (new_chunk [] [] [])))
     \<lparr>locals := [new_local [] 0 [], new_local [97] 1 [], (new_local [98] 1 [])\<lparr>isCaptured := True\<rparr>]\<rparr>"

theorem block_exit_balanced_witness:
  "code (fchunk (exitLocalScope False (1, 0) block_sample)) = [43, 27]"
proof -
  let ?fs = "new_func_scope False [] [] (new_chunk [] [] [])"
  have "code (fchunk (exitLocalScope False (1, 0) block_sample)) = code (fchunk block_sample)
        @ map (\<lambda>l. asByte (if isCaptured l then OpCloseUpvalue else OpPop))
          (rev [new_local [97] 1 [], (new_local [98] 1 [])\<lparr>isCaptured := True\<rparr>])"
    using block_exit_balanced [of "enterLocalScope ?fs" ?fs block_sample
        "[new_local [97] 1 [], (new_local [98] 1 [])\<lparr>isCaptured := True\<rparr>]" Map.empty Map.empty 0 False "(1, 0)"]
    by (simp add: block_sample_def enterLocalScope_def new_func_scope_def new_local_def)
  then show ?thesis
    by (simp add: block_sample_def enterLocalScope_def new_func_scope_def new_chunk_def new_local_def asByte_def)
qed

text \<open>
  C34. Upvalue resolution is correct along the chain of enclosing functions: if it returns an index,
  following the upvalues from it leads to the nearest enclosing function that has an initialized
  local of that name, to the slot its own resolution gives, and that local is marked captured; it
  returns \<open>-1\<close>, changing nothing, exactly when no enclosing function has one.
\<close>

theorem upvalue_resolution:
  assumes "list_all scope_ok scopes" "resolveUpvalue name scopes = Inr (i, scopes')"
  shows "if i = -1 then scopes' = scopes \<and> (\<forall>k. 1 \<le> k \<and> k < length scopes \<longrightarrow> resolveLocal (scopes ! k) name = -1)
     else \<exists>k slot. upvalue_target scopes' (nat i) = (k, slot) \<and> binds_at scopes name k slot
       \<and> isCaptured (locals (scopes' ! k) ! slot) \<and> list_all scope_ok scopes' \<and> nat i < upvalueCount (hd scopes')"
  using resolveUpvalue_good [OF assms] by auto

definition chain_sample :: "func_scope list" where
  "chain_sample = (let f = new_func_scope False [] [] (new_chunk [] [] []) in
     [f, f, f\<lparr>locals := [new_local [] 0 [], new_local [97] 1 []]\<rparr>])"

theorem upvalue_resolution_witness:
  "\<exists>scopes'. resolveUpvalue [97] chain_sample = Inr (0, scopes') \<and> upvalue_target scopes' 0 = (2, 1)"
proof -
  let ?s = "case resolveUpvalue [97] chain_sample of Inr (i, s) \<Rightarrow> s | Inl e \<Rightarrow> []"
  have r: "resolveUpvalue [97] chain_sample = Inr (0, ?s)"
    by (simp add: chain_sample_def resolveLocal_def new_func_scope_def new_local_def addUpvalue_def Let_def)
  have ok: "list_all scope_ok chain_sample"
    by (simp add: chain_sample_def scope_ok_def new_func_scope_def Let_def)
  obtain k slot where k: "upvalue_target ?s 0 = (k, slot)" "binds_at chain_sample [97] k slot"
    using upvalue_resolution [OF ok r] by auto
  have loc: "resolveLocal (chain_sample ! 1) [97] = -1" "resolveLocal (chain_sample ! 2) [97] = 1" "length chain_sample = 3"
    by (simp_all add: chain_sample_def resolveLocal_def new_func_scope_def new_local_def Let_def)
  have "k = 2"
  proof (cases "k = 1")
    case False
    then show ?thesis using k(2) loc(3) by (auto simp: binds_at_def)
  qed (use k(2) loc(1) in \<open>simp add: binds_at_def\<close>)
  then show ?thesis using k r loc(2) by (auto simp: binds_at_def)
qed

text \<open>
  C37. A function with more than 512 sibling block locals compiles, though never more than two
  locals are alive, but its own debug metadata is rejected by \<open>DebugInfo::deserialize\<close>: the records
  of closed blocks accumulate, and the reader's bound of 512 assumes one record per live local.
\<close>

theorem sibling_locals_reject_own_cache:
  assumes "512 < n" "n < 2 ^ 32" "name \<noteq> []"
  shows "\<exists>fs di. sibling_blocks n True p name (new_func_scope False [] [] (new_chunk pkg mdl src)) = Inr fs
    \<and> debugInfo (fchunk fs) = Some di \<and> length (locals fs) = 1
    \<and> debug_deserialize codeSize (good_stream (debug_serialize di @ rest)) = Inl Malformed_Local_Count"
proof -
  have "outer_only 0 (new_func_scope False [] [] (new_chunk pkg mdl src))"
    by (simp add: outer_only_def new_func_scope_def debug_locals_def debug_stmts_def new_chunk_def)
  from sibling_blocks_good [OF this assms(3), of n p] obtain fs where
    fs: "sibling_blocks n True p name (new_func_scope False [] [] (new_chunk pkg mdl src)) = Inr fs"
    and o: "outer_only n fs" by auto
  obtain di where di: "debugInfo (fchunk fs) = Some di" "length (di_locals di) = n" "di_stmts di = []"
    using o assms(1) by (cases "debugInfo (fchunk fs)") (auto simp: outer_only_def debug_locals_def debug_stmts_def)
  have u: "unat (word_of_nat n :: u32) = n" using assms(2) by (simp add: unat_of_nat)
  have big: "(word_of_nat n :: u32) > maxLocals"
    using assms(1) u by (simp add: word_less_nat_alt maxLocals_def)
  have "read_count (codeSize + 16) Malformed_Stmt_Count (good_stream (debug_serialize di @ rest))
      = Inr (0, good_stream (write_u32 (word_of_nat n) @ concat (map write_local (di_locals di))
          @ write_u32 (word_of_nat (length (di_upvalues di))) @ concat (map write_upvalue (di_upvalues di)) @ rest))"
    using read_count_good [of 0 "codeSize + 16"] by (simp add: debug_serialize_def di)
  then have "debug_deserialize codeSize (good_stream (debug_serialize di @ rest)) = Inl Malformed_Local_Count"
    using big by (simp add: debug_deserialize_def read_count_def read_word_good)
  with fs di o show ?thesis by (auto simp: outer_only_def)
qed

theorem sibling_locals_reject_own_cache_witness:
  "\<exists>fs di. sibling_blocks 513 True (1, 0) [97] (new_func_scope False [] [] (new_chunk [] [] [])) = Inr fs
    \<and> debugInfo (fchunk fs) = Some di \<and> length (locals fs) = 1
    \<and> debug_deserialize 100 (good_stream (debug_serialize di @ [])) = Inl Malformed_Local_Count"
  by (rule sibling_locals_reject_own_cache) simp_all

end
