(* ===== verification/Overload.thy ===== *)
theory Overload
  imports Value_Box
begin

text \<open>
  \<open>compiler/OverloadResolver.{h,cpp}\<close>: ranking of an argument against a parameter, scoring of a
  candidate, selection among the candidates at compile time and at run time, the static type the
  runtime derives from a value, and the signature check for overriding methods.  Type trees are
  finite; a candidate set has fewer than 65536 members.
\<close>

section \<open>Data\<close>

datatype arg_rank =
  Exact | Subtype | Strict_Implicit_Conv | Untyped | Non_Strict_Implicit_Conv
| User_Defined_Implicit_Conv | Variadic_Absorb | Incompatible

fun rank_value :: "arg_rank \<Rightarrow> nat" where
  "rank_value Exact = 0"
| "rank_value Subtype = 1"
| "rank_value Strict_Implicit_Conv = 2"
| "rank_value Untyped = 3"
| "rank_value Non_Strict_Implicit_Conv = 4"
| "rank_value User_Defined_Implicit_Conv = 5"
| "rank_value Variadic_Absorb = 6"
| "rank_value Incompatible = 255"

record arg_info =
  ai_type :: "rtype option"
  isNamed :: bool
  nameHash :: u32

record candidate =
  c_funcType :: "rtype option"
  c_target :: nat
  isMethod :: bool

record score =
  feasible :: bool
  totalRank :: nat
  defaultsActivated :: nat

datatype resolve_result =
  Resolved_Unique nat
| Ambiguous "nat list"
| No_Match
| Needs_Runtime nat "nat list"

section \<open>Conversions between object types\<close>

definition ascii :: "string \<Rightarrow> ustring" where
  "ascii s = map (\<lambda>c. word_of_nat (of_char c)) s"

definition ImplicitModifier :: byte where "ImplicitModifier = 1"

definition hasModifier :: "byte \<Rightarrow> byte \<Rightarrow> bool" where
  "hasModifier m flag \<longleftrightarrow> m AND flag \<noteq> 0"

text \<open>The test \<open>hasImplicitMethod\<close> makes of one method.\<close>

definition method_matches :: "ustring \<Rightarrow> bool \<Rightarrow> ustring \<Rightarrow> builtin \<Rightarrow> method_info \<Rightarrow> bool" where
  "method_matches methodName checkArity1Init expName expBuiltin mi =
     (if mi_name mi \<noteq> methodName then False
      else if \<not> hasModifier (mi_modifiers mi) ImplicitModifier then False
      else (case mi_funcType mi of
          None \<Rightarrow> False
        | Some f \<Rightarrow>
            if checkArity1Init then
              (case ft_params f of
                 [Some p] \<Rightarrow>
                   (case pt_type p of
                      Some (Some t) \<Rightarrow>
                        if rt_builtin t \<noteq> expBuiltin then False
                        else if expName \<noteq> [] \<and>
                          (case rt_obj t of None \<Rightarrow> True | Some ob \<Rightarrow> ot_name ob \<noteq> expName) then False
                        else True
                    | _ \<Rightarrow> False)
               | _ \<Rightarrow> False)
            else True))"

fun hasImplicitMethod :: "object_type \<Rightarrow> ustring \<Rightarrow> bool \<Rightarrow> ustring \<Rightarrow> builtin \<Rightarrow> bool" where
  "hasImplicitMethod (ObjectType nm ext impl methods) methodName ar expName expBuiltin =
     (if list_ex (method_matches methodName ar expName expBuiltin) methods then True
      else (case ext of
          Some (Some (RType b cst fn (Some parent))) \<Rightarrow>
            hasImplicitMethod parent methodName ar expName expBuiltin
        | _ \<Rightarrow> False))"

definition is_object :: "rtype \<Rightarrow> bool" where
  "is_object t \<longleftrightarrow> rt_builtin t = BObject \<or> rt_builtin t = BActor"

definition userDefinedImplicitConvFeasible :: "rtype option \<Rightarrow> rtype option \<Rightarrow> bool" where
  "userDefinedImplicitConvFeasible srcType dstType =
     (case (srcType, dstType) of
        (Some src, Some dst) \<Rightarrow>
          if is_object src \<and> rt_obj src = None \<or> is_object dst \<and> rt_obj dst = None then True
          else
            (case rt_obj src of
               Some so \<Rightarrow> is_object src \<and> hasImplicitMethod so
                  (ascii ''operator->'' @
                     (case rt_obj dst of
                        Some d \<Rightarrow> if is_object dst then ot_name d
                          else ascii (builtinTypeToString ! builtin_index (rt_builtin dst))
                      | None \<Rightarrow> ascii (builtinTypeToString ! builtin_index (rt_builtin dst))))
                  False [] BNil
             | None \<Rightarrow> False)
            \<or> (case rt_obj dst of
                 Some d \<Rightarrow> is_object dst \<and> hasImplicitMethod d (ascii ''init'') True
                    (case rt_obj src of Some so \<Rightarrow> if is_object src then ot_name so else [] | None \<Rightarrow> [])
                    (rt_builtin src)
               | None \<Rightarrow> False)
      | _ \<Rightarrow> True)"

fun objectTypeChainContains :: "object_type \<Rightarrow> ustring \<Rightarrow> bool" where
  "objectTypeChainContains (ObjectType nm ext impl methods) targetName =
     (nm = targetName
      \<or> (case ext of
           Some (Some (RType b cst fn (Some parent))) \<Rightarrow> objectTypeChainContains parent targetName
         | _ \<Rightarrow> False)
      \<or> list_ex (\<lambda>iface. case iface of
           Some (RType b cst fn (Some ob)) \<Rightarrow> objectTypeChainContains ob targetName
         | _ \<Rightarrow> False) impl)"

section \<open>Ranking and scoring\<close>

definition classify_object :: "rtype \<Rightarrow> rtype \<Rightarrow> object_type \<Rightarrow> object_type \<Rightarrow> arg_rank" where
  "classify_object paramT argT paramObj argObj =
     (if ot_name argObj = ot_name paramObj then Exact
      else if objectTypeChainContains argObj (ot_name paramObj) then Subtype
      else if userDefinedImplicitConvFeasible (Some argT) (Some paramT) then User_Defined_Implicit_Conv
      else Incompatible)"

definition classify_builtin :: "rtype \<Rightarrow> rtype \<Rightarrow> bool \<Rightarrow> arg_rank" where
  "classify_builtin paramT argT strictMode =
     (let pb = rt_builtin paramT; ab = rt_builtin argT in
      if pb = ab then Exact
      else if convertibleTo ab pb True then Strict_Implicit_Conv
      else if convertibleTo ab pb False \<and> \<not> strictMode then Non_Strict_Implicit_Conv
      else if (pb = BObject \<or> pb = BActor) \<and> userDefinedImplicitConvFeasible (Some argT) (Some paramT)
        then User_Defined_Implicit_Conv
      else Incompatible)"

definition classifyArg :: "param_type \<Rightarrow> rtype option \<Rightarrow> bool \<Rightarrow> bool \<Rightarrow> arg_rank" where
  "classifyArg param argType strictMode absorbed =
     (if absorbed then Variadic_Absorb
      else (case pt_type param of
          Some (Some paramT) \<Rightarrow>
            (case argType of
               None \<Rightarrow> Exact
             | Some argT \<Rightarrow>
                 (case (rt_obj paramT, rt_obj argT) of
                    (Some po, Some ao) \<Rightarrow>
                      if is_object paramT \<and> is_object argT then classify_object paramT argT po ao
                      else classify_builtin paramT argT strictMode
                  | _ \<Rightarrow> classify_builtin paramT argT strictMode))
        | _ \<Rightarrow> Untyped))"

text \<open>The counting loop, left at the variadic parameter; \<open>i\<close> is the index of the next one.\<close>

record param_counts =
  regularCount :: nat
  requiredCount :: nat
  variadicAt :: "nat option"

fun count_params :: "param_type option list \<Rightarrow> nat \<Rightarrow> param_counts \<Rightarrow> param_counts" where
  "count_params [] i k = k"
| "count_params (None # ps) i k =
     count_params ps (Suc i) (k\<lparr>regularCount := regularCount k + 1, requiredCount := requiredCount k + 1\<rparr>)"
| "count_params (Some p # ps) i k =
     (if pt_variadic p then k\<lparr>variadicAt := Some i\<rparr>
      else count_params ps (Suc i)
        (k\<lparr>regularCount := regularCount k + 1,
           requiredCount := requiredCount k + (if pt_hasDefault p then 0 else 1)\<rparr>))"

definition arg_rank_at :: "param_type option list \<Rightarrow> nat option \<Rightarrow> nat \<Rightarrow> rtype option \<Rightarrow> bool \<Rightarrow> arg_rank" where
  "arg_rank_at params vat i argType strictMode =
     (if (case vat of None \<Rightarrow> False | Some v \<Rightarrow> v \<le> i) then Variadic_Absorb
      else if i \<ge> length params then Incompatible
      else (case params ! i of None \<Rightarrow> Incompatible | Some p \<Rightarrow> classifyArg p argType strictMode False))"

fun rank_args :: "param_type option list \<Rightarrow> nat option \<Rightarrow> bool \<Rightarrow> nat \<Rightarrow> arg_info list \<Rightarrow> score \<Rightarrow> score" where
  "rank_args params vat strictMode i [] s = s"
| "rank_args params vat strictMode i (a # as) s =
     (let rank = arg_rank_at params vat i (ai_type a) strictMode in
      if rank = Incompatible then s\<lparr>feasible := False\<rparr>
      else rank_args params vat strictMode (Suc i) as (s\<lparr>totalRank := totalRank s + rank_value rank\<rparr>))"

definition defaulted :: "param_type option list \<Rightarrow> nat \<Rightarrow> nat" where
  "defaulted params argCount =
     length (filter (\<lambda>p. case p of None \<Rightarrow> False | Some q \<Rightarrow> pt_hasDefault q) (drop argCount params))"

definition no_score :: score where
  "no_score = \<lparr>feasible = False, totalRank = 0, defaultsActivated = 0\<rparr>"

definition scoreOne :: "candidate \<Rightarrow> arg_info list \<Rightarrow> bool \<Rightarrow> score" where
  "scoreOne cand as strictMode =
     (case c_funcType cand of
        Some (RType b cst (Some fn) ob) \<Rightarrow>
          (let params = ft_params fn;
               k = count_params params 0 \<lparr>regularCount = 0, requiredCount = 0, variadicAt = None\<rparr>;
               n = length as in
           if n < requiredCount k \<or> variadicAt k = None \<and> n > regularCount k then no_score
           else (let s = rank_args params (variadicAt k) strictMode 0 as (no_score\<lparr>feasible := True\<rparr>) in
             if feasible s \<and> variadicAt k = None then s\<lparr>defaultsActivated := defaulted params n\<rparr> else s))
      | _ \<Rightarrow> no_score)"

section \<open>Selection\<close>

definition isBetter :: "score \<Rightarrow> score \<Rightarrow> bool" where
  "isBetter a b =
     (if feasible a \<noteq> feasible b then feasible a \<and> \<not> feasible b
      else if totalRank a \<noteq> totalRank b then totalRank a < totalRank b
      else if defaultsActivated a \<noteq> defaultsActivated b then defaultsActivated a < defaultsActivated b
      else False)"

definition best_step :: "score list \<Rightarrow> nat \<Rightarrow> nat option \<Rightarrow> nat option" where
  "best_step ss i best =
     (if \<not> feasible (ss ! i) then best
      else (case best of
          None \<Rightarrow> Some i
        | Some j \<Rightarrow> if isBetter (ss ! i) (ss ! j) then Some i else best))"

definition best_index :: "score list \<Rightarrow> nat option" where
  "best_index ss = fold (best_step ss) [0..<length ss] None"

definition tied_indices :: "score list \<Rightarrow> nat \<Rightarrow> nat list" where
  "tied_indices ss best =
     filter (\<lambda>i. feasible (ss ! i) \<and> (i = best \<or> \<not> isBetter (ss ! best) (ss ! i))) [0..<length ss]"

definition resolve :: "candidate list \<Rightarrow> arg_info list \<Rightarrow> bool \<Rightarrow> bool \<Rightarrow> resolve_result" where
  "resolve candidates as staticAttempt strictMode =
     (if candidates = [] then No_Match
      else
        let anyUnknownArg = staticAttempt \<and> list_ex (\<lambda>a. ai_type a = None) as;
            ss = map (\<lambda>c. scoreOne c as strictMode) candidates in
        case best_index ss of
          None \<Rightarrow> No_Match
        | Some best \<Rightarrow>
            let tied = tied_indices ss best in
            if length tied > 1 then
              (if staticAttempt \<and> anyUnknownArg then Needs_Runtime 0 tied else Ambiguous tied)
            else if staticAttempt \<and> anyUnknownArg \<and> length (filter feasible ss) > 1
              then Needs_Runtime best []
            else Resolved_Unique best)"

section \<open>Static types of runtime values\<close>

text \<open>A runtime value as the resolver sees it: an immediate word, or an object of some kind.\<close>

datatype obj_kind =
  Ob_String | Ob_Range | Ob_List | Ob_Dict | Ob_Vector | Ob_Matrix | Ob_Tensor | Ob_Orient | Ob_Signal
| Ob_Instance "ustring option"
| Ob_Actor "ustring option"
| Ob_Other

datatype runtime_value = Rv_Imm u64 | Rv_Obj obj_kind

definition plain_type :: "builtin \<Rightarrow> rtype" where
  "plain_type b = RType b False None None"

definition named_type :: "builtin \<Rightarrow> ustring option \<Rightarrow> rtype" where
  "named_type b nm =
     RType b False None (Some (ObjectType (case nm of None \<Rightarrow> [] | Some n \<Rightarrow> n) None [] []))"

fun obj_runtime_type :: "obj_kind \<Rightarrow> rtype option" where
  "obj_runtime_type Ob_String = Some (plain_type BString)"
| "obj_runtime_type Ob_Range = Some (plain_type BRange)"
| "obj_runtime_type Ob_List = Some (plain_type BList)"
| "obj_runtime_type Ob_Dict = Some (plain_type BDict)"
| "obj_runtime_type Ob_Vector = Some (plain_type BVector)"
| "obj_runtime_type Ob_Matrix = Some (plain_type BMatrix)"
| "obj_runtime_type Ob_Tensor = Some (plain_type BTensor)"
| "obj_runtime_type Ob_Orient = Some (plain_type BOrient)"
| "obj_runtime_type Ob_Signal = Some (plain_type BSignal)"
| "obj_runtime_type (Ob_Instance nm) = Some (named_type BObject nm)"
| "obj_runtime_type (Ob_Actor nm) = Some (named_type BActor nm)"
| "obj_runtime_type Ob_Other = None"

definition valueRuntimeType :: "runtime_value \<Rightarrow> rtype option" where
  "valueRuntimeType v =
     (case v of
        Rv_Imm w \<Rightarrow>
          if isNil w then Some (plain_type BNil)
          else if isBool w then Some (plain_type BBool)
          else if isByte w then Some (plain_type BByte)
          else if isInt w then Some (plain_type BInt)
          else if isReal w then Some (plain_type BReal)
          else None
      | Rv_Obj k \<Rightarrow> obj_runtime_type k)"

section \<open>Overriding\<close>

definition paramTypeEqualsForOverride :: "param_type option \<Rightarrow> param_type option \<Rightarrow> bool" where
  "paramTypeEqualsForOverride a b =
     (case (a, b) of
        (None, None) \<Rightarrow> True
      | (Some p, Some q) \<Rightarrow>
          (case (pt_type p, pt_type q) of
             (None, None) \<Rightarrow> True
           | (Some (Some s), Some (Some t)) \<Rightarrow>
               if rt_builtin s \<noteq> rt_builtin t then False
               else if is_object s \<and>
                  (case (rt_obj s, rt_obj t) of
                     (None, None) \<Rightarrow> False
                   | (Some x, Some y) \<Rightarrow> ot_name x \<noteq> ot_name y
                   | _ \<Rightarrow> True) then False
               else pt_variadic p = pt_variadic q
           | _ \<Rightarrow> False)
      | _ \<Rightarrow> False)"

definition returnTypeCovariant :: "rtype option list \<Rightarrow> rtype option list \<Rightarrow> bool" where
  "returnTypeCovariant ab con =
     (if ab = [] \<and> con = [] then True
      else if length ab \<noteq> length con then False
      else list_all2 (\<lambda>a c. case (a, c) of (Some s, Some t) \<Rightarrow> rt_builtin s = rt_builtin t | _ \<Rightarrow> False) ab con)"

definition signatureCompatibleForOverride :: "rtype option \<Rightarrow> rtype option \<Rightarrow> bool" where
  "signatureCompatibleForOverride abstract concrete =
     (case (abstract, concrete) of
        (Some a, Some c) \<Rightarrow>
          (case (rt_func a, rt_func c) of
             (Some af, Some cf) \<Rightarrow>
               if length (ft_params af) \<noteq> length (ft_params cf) then False
               else if \<not> list_all2 paramTypeEqualsForOverride (ft_params af) (ft_params cf) then False
               else returnTypeCovariant (ft_returnTypes af) (ft_returnTypes cf)
           | _ \<Rightarrow> False)
      | _ \<Rightarrow> False)"

section \<open>Lemmas on selection\<close>

text \<open>Among feasible scores \<open>isBetter\<close> is the lexicographic order of rank and defaults.\<close>

definition score_less :: "score \<Rightarrow> score \<Rightarrow> bool" where
  "score_less a b \<longleftrightarrow> totalRank a < totalRank b
     \<or> totalRank a = totalRank b \<and> defaultsActivated a < defaultsActivated b"

lemma isBetter_feasible: "feasible a \<Longrightarrow> feasible b \<Longrightarrow> isBetter a b \<longleftrightarrow> score_less a b"
  by (auto simp: isBetter_def score_less_def)

lemma score_less_order:
  "\<not> score_less a a" "score_less a b \<Longrightarrow> \<not> score_less b c \<Longrightarrow> \<not> score_less c a \<or> score_less c b"
  "score_less a b \<Longrightarrow> \<not> score_less c b \<Longrightarrow> \<not> score_less c a"
  "\<not> score_less b a \<Longrightarrow> \<not> score_less c b \<Longrightarrow> \<not> score_less c a"
  by (auto simp: score_less_def)

lemma isBetter_infeasible: "\<not> feasible a \<Longrightarrow> feasible b \<Longrightarrow> \<not> isBetter a b"
  by (simp add: isBetter_def)

definition is_best :: "score list \<Rightarrow> nat \<Rightarrow> nat \<Rightarrow> bool" where
  "is_best ss k j \<longleftrightarrow> j < k \<and> feasible (ss ! j)
     \<and> (\<forall>i < k. feasible (ss ! i) \<longrightarrow> \<not> isBetter (ss ! i) (ss ! j))"

lemma best_fold:
  "case fold (best_step ss) [0..<k] None of
     None \<Rightarrow> \<forall>i < k. \<not> feasible (ss ! i) | Some j \<Rightarrow> is_best ss k j"
proof (induction k)
  case 0
  then show ?case by simp
next
  case (Suc k)
  have step: "fold (best_step ss) [0..<Suc k] None = best_step ss k (fold (best_step ss) [0..<k] None)"
    by simp
  show ?case
  proof (cases "fold (best_step ss) [0..<k] None")
    case None
    then show ?thesis
      using Suc unfolding step None by (auto simp: best_step_def is_best_def less_Suc_eq isBetter_def)
  next
    case (Some j)
    then have j: "j < k" "feasible (ss ! j)" "\<And>i. i < k \<Longrightarrow> feasible (ss ! i) \<Longrightarrow> \<not> score_less (ss ! i) (ss ! j)"
      using Suc isBetter_feasible by (auto simp: is_best_def)
    show ?thesis
    proof (cases "feasible (ss ! k) \<and> isBetter (ss ! k) (ss ! j)")
      case True
      then have "score_less (ss ! k) (ss ! j)" using j isBetter_feasible by blast
      then have "\<not> score_less (ss ! i) (ss ! k)" if "i < Suc k" "feasible (ss ! i)" for i
        using that j(3) score_less_order(1,3) by (metis less_antisym)
      then show ?thesis
        unfolding step Some using True isBetter_feasible by (auto simp: best_step_def is_best_def)
    next
      case False
      then show ?thesis
        unfolding step Some using j isBetter_feasible by (auto simp: best_step_def is_best_def less_Suc_eq)
    qed
  qed
qed

lemma best_index_None: "best_index ss = None \<longleftrightarrow> (\<forall>s \<in> set ss. \<not> feasible s)"
proof (cases "best_index ss")
  case None
  then show ?thesis
    using best_fold [where ss = ss and k = "length ss"] by (auto simp: best_index_def in_set_conv_nth)
next
  case (Some j)
  then have "j < length ss" "feasible (ss ! j)"
    using best_fold [where ss = ss and k = "length ss"] by (simp_all add: best_index_def is_best_def)
  then show ?thesis using Some nth_mem by fastforce
qed

lemma best_index_Some: "best_index ss = Some j \<Longrightarrow> is_best ss (length ss) j"
  using best_fold [where ss = ss and k = "length ss"] by (simp add: best_index_def)

lemma tied_iff:
  assumes "is_best ss (length ss) j"
  shows "i \<in> set (tied_indices ss j) \<longleftrightarrow> is_best ss (length ss) i"
proof (cases "i < length ss \<and> feasible (ss ! i)")
  case True
  note i = conjunct2 [OF True]
  have j: "feasible (ss ! j)" and min: "\<And>k. k < length ss \<Longrightarrow> feasible (ss ! k) \<Longrightarrow> \<not> score_less (ss ! k) (ss ! j)"
    using assms isBetter_feasible by (auto simp: is_best_def)
  have "is_best ss (length ss) i \<longleftrightarrow> (\<forall>k < length ss. feasible (ss ! k) \<longrightarrow> \<not> score_less (ss ! k) (ss ! i))"
    using True isBetter_feasible by (auto simp: is_best_def)
  also have "\<dots> \<longleftrightarrow> \<not> score_less (ss ! j) (ss ! i)"
    using assms min score_less_order(4) unfolding is_best_def by blast
  also have "\<dots> \<longleftrightarrow> \<not> isBetter (ss ! j) (ss ! i)" using isBetter_feasible [OF j i] by simp
  finally have "is_best ss (length ss) i \<longleftrightarrow> \<not> isBetter (ss ! j) (ss ! i)" .
  then show ?thesis using True by (auto simp: tied_indices_def isBetter_def)
next
  case False
  then show ?thesis by (auto simp: tied_indices_def is_best_def)
qed

lemma tied_unique:
  assumes "is_best ss (length ss) j"
  shows "length (tied_indices ss j) > 1 \<longleftrightarrow> (\<exists>i. i \<noteq> j \<and> is_best ss (length ss) i)"
proof -
  have d: "distinct (tied_indices ss j)" by (simp add: tied_indices_def)
  have j: "j \<in> set (tied_indices ss j)" using tied_iff [OF assms] assms by blast
  have "length (tied_indices ss j) > 1 \<longleftrightarrow> card (set (tied_indices ss j)) > 1"
    using distinct_card [OF d] by simp
  also have "\<dots> \<longleftrightarrow> (\<exists>i. i \<noteq> j \<and> i \<in> set (tied_indices ss j))"
  proof
    assume "card (set (tied_indices ss j)) > 1"
    then have "card (set (tied_indices ss j) - {j}) > 0" using j by simp
    then show "\<exists>i. i \<noteq> j \<and> i \<in> set (tied_indices ss j)" by (auto simp: card_gt_0_iff)
  next
    assume "\<exists>i. i \<noteq> j \<and> i \<in> set (tied_indices ss j)"
    then obtain i where "i \<noteq> j" "{i, j} \<subseteq> set (tied_indices ss j)" using j by blast
    then have "card {i, j} \<le> card (set (tied_indices ss j))" "card {i, j} = 2"
      using card_mono [of "set (tied_indices ss j)" "{i, j}"] by simp_all
    then show "card (set (tied_indices ss j)) > 1" by simp
  qed
  finally show ?thesis using tied_iff [OF assms] by blast
qed

section \<open>Lemmas on unknown arguments\<close>

text \<open>\<open>refines as bs\<close>: the arguments \<open>bs\<close> are \<open>as\<close> with unknown types filled in.\<close>

definition refines :: "arg_info list \<Rightarrow> arg_info list \<Rightarrow> bool" where
  "refines as bs \<longleftrightarrow> list_all2 (\<lambda>a b. ai_type a = None \<or> ai_type a = ai_type b) as bs"

lemma rank_args_infeasible: "\<not> feasible s \<Longrightarrow> \<not> feasible (rank_args ps v sm i as s)"
  by (induction as arbitrary: i s) (auto simp: Let_def)

lemma arg_rank_unknown: "arg_rank_at ps v i t sm \<noteq> Incompatible \<Longrightarrow> arg_rank_at ps v i None sm \<noteq> Incompatible"
  by (auto simp: arg_rank_at_def classifyArg_def split: option.splits if_splits)

lemma rank_args_refines:
  "refines as bs \<Longrightarrow> feasible s = feasible t \<Longrightarrow> feasible (rank_args ps v sm i bs t)
     \<Longrightarrow> feasible (rank_args ps v sm i as s)"
  unfolding refines_def
proof (induction as bs arbitrary: i s t rule: list_all2_induct)
  case Nil
  then show ?case by simp
next
  case (Cons a as b bs)
  have b: "arg_rank_at ps v i (ai_type b) sm \<noteq> Incompatible"
    using Cons.prems(2) by (auto simp: Let_def)
  then have a: "arg_rank_at ps v i (ai_type a) sm \<noteq> Incompatible"
    using Cons.hyps(1) arg_rank_unknown by metis
  let ?t = "t\<lparr>totalRank := totalRank t + rank_value (arg_rank_at ps v i (ai_type b) sm)\<rparr>"
  have "feasible (rank_args ps v sm (Suc i) bs ?t)" using Cons.prems(2) b by (simp add: Let_def)
  moreover have "feasible (s\<lparr>totalRank := n\<rparr>) = feasible ?t" for n using Cons.prems(1) by simp
  ultimately have "feasible (rank_args ps v sm (Suc i) as (s\<lparr>totalRank := n\<rparr>))" for n
    using Cons.IH by blast
  then show ?case using a by (simp add: Let_def)
qed

lemma scoreOne_refines:
  assumes "refines as bs" "feasible (scoreOne c bs sm)"
  shows "feasible (scoreOne c as sm)"
proof -
  have l: "length as = length bs" using assms(1) by (simp add: refines_def list_all2_lengthD)
  obtain b cst fn ob where c: "c_funcType c = Some (RType b cst (Some fn) ob)"
    using assms(2) by (auto simp: scoreOne_def no_score_def split: option.splits rtype.splits)
  obtain k where k: "count_params (ft_params fn) 0 \<lparr>regularCount = 0, requiredCount = 0, variadicAt = None\<rparr> = k"
    by simp
  have "feasible (rank_args (ft_params fn) (variadicAt k) sm 0 bs (no_score\<lparr>feasible := True\<rparr>))"
    and n: "\<not> (length bs < requiredCount k \<or> variadicAt k = None \<and> length bs > regularCount k)"
    using assms(2) by (auto simp: scoreOne_def c Let_def no_score_def k split: if_splits)
  with rank_args_refines [OF assms(1)]
  have "feasible (rank_args (ft_params fn) (variadicAt k) sm 0 as (no_score\<lparr>feasible := True\<rparr>))" by blast
  with n l show ?thesis by (cases "variadicAt k") (simp_all add: scoreOne_def c Let_def k)
qed

lemma rank_args_same:
  "map ai_type as = map ai_type bs \<Longrightarrow> rank_args ps v sm i as s = rank_args ps v sm i bs s"
proof (induction as arbitrary: bs i s)
  case (Cons a as)
  then obtain b bs' where b: "bs = b # bs'" "ai_type a = ai_type b" "map ai_type as = map ai_type bs'"
    by (cases bs) auto
  show ?case by (simp add: b Cons.IH [OF b(3)] Let_def)
qed simp

lemma scoreOne_same: "map ai_type as = map ai_type bs \<Longrightarrow> scoreOne c as sm = scoreOne c bs sm"
  using rank_args_same [of as bs] map_eq_imp_length_eq [of ai_type as ai_type bs]
  by (auto simp: scoreOne_def Let_def split: option.splits rtype.splits)

lemma refines_known: "refines as bs \<Longrightarrow> \<forall>a \<in> set as. ai_type a \<noteq> None \<Longrightarrow> map ai_type as = map ai_type bs"
  unfolding refines_def by (induction as bs rule: list_all2_induct) auto

lemma resolve_known:
  assumes "\<forall>a \<in> set as. ai_type a \<noteq> None"
  shows "resolve cs as st sm = resolve cs as False sm"
proof -
  have "\<not> list_ex (\<lambda>a. ai_type a = None) as" using assms by (auto simp: list_ex_iff)
  then show ?thesis by (simp add: resolve_def Let_def split: option.split)
qed

lemma resolve_unique_feasible:
  assumes "resolve cs as st sm = Resolved_Unique i"
  shows "is_best (map (\<lambda>c. scoreOne c as sm) cs) (length cs) i"
    and "st \<Longrightarrow> a \<in> set as \<Longrightarrow> ai_type a = None \<Longrightarrow>
      length (filter feasible (map (\<lambda>c. scoreOne c as sm) cs)) \<le> 1"
    and "\<not> length (tied_indices (map (\<lambda>c. scoreOne c as sm) cs) i) > 1"
  using assms best_index_Some [of "map (\<lambda>c. scoreOne c as sm) cs" i]
  by (auto simp: resolve_def Let_def list_ex_iff simp del: filter_map split: option.splits if_splits)

lemma resolve_unique_beats:
  assumes "resolve cs as st sm = Resolved_Unique i" "j < length cs" "j \<noteq> i" "feasible (scoreOne (cs ! j) as sm)"
  shows "isBetter (scoreOne (cs ! i) as sm) (scoreOne (cs ! j) as sm)"
proof (rule ccontr)
  let ?ss = "map (\<lambda>c. scoreOne c as sm) cs"
  note u = resolve_unique_feasible [OF assms(1)]
  have b: "is_best ?ss (length ?ss) i" using u(1) by simp
  then have i: "i < length cs" by (simp add: is_best_def)
  assume "\<not> isBetter (scoreOne (cs ! i) as sm) (scoreOne (cs ! j) as sm)"
  with assms i have "j \<in> set (tied_indices ?ss i)" by (simp add: tied_indices_def)
  with tied_iff [OF b] tied_unique [OF b] u(3) assms(3) show False by blast
qed

lemma resolve_beats_unique:
  assumes "i < length cs" "feasible (scoreOne (cs ! i) as sm)"
    and "\<And>j. j < length cs \<Longrightarrow> j \<noteq> i \<Longrightarrow> feasible (scoreOne (cs ! j) as sm) \<Longrightarrow>
      isBetter (scoreOne (cs ! i) as sm) (scoreOne (cs ! j) as sm)"
  shows "resolve cs as False sm = Resolved_Unique i"
proof -
  let ?ss = "map (\<lambda>c. scoreOne c as sm) cs"
  have only: "j = i" if "is_best ?ss (length ?ss) j" for j
  proof (rule ccontr)
    assume "j \<noteq> i"
    then have "isBetter (scoreOne (cs ! i) as sm) (scoreOne (cs ! j) as sm)"
      using that assms(3) [of j] by (auto simp: is_best_def)
    then show False using that assms(1,2) by (auto simp: is_best_def)
  qed
  have "best_index ?ss \<noteq> None" using assms(1,2) by (auto simp: best_index_None)
  then obtain j where j: "best_index ?ss = Some j" by blast
  note b = best_index_Some [OF j]
  have "\<not> length (tied_indices ?ss j) > 1" using tied_unique [OF b] only [OF b] only by auto
  then show ?thesis using j only [OF b] assms(1) by (auto simp: resolve_def Let_def)
qed

lemma single_feasible:
  assumes "length (filter P xs) \<le> 1" "i < length xs" "j < length xs" "P (xs ! i)" "P (xs ! j)"
  shows "i = j"
proof (rule ccontr)
  assume "i \<noteq> j"
  then have "card {i, j} = 2" by simp
  moreover have "{i, j} \<subseteq> {k. k < length xs \<and> P (xs ! k)}" using assms by auto
  then have "card {i, j} \<le> length (filter P xs)"
    unfolding length_filter_conv_card by (rule card_mono [rotated]) simp
  ultimately show False using assms(1) by simp
qed

section \<open>Lemmas on the types of values\<close>

text \<open>
  The arguments of the run-time dispatch, and what a static type says of the value: its builtin type,
  when it is no class or actor type.
\<close>

definition typed_arg :: "rtype option \<Rightarrow> arg_info" where
  "typed_arg t = \<lparr>ai_type = t, isNamed = False, nameHash = 0\<rparr>"

lemma ai_type_typed_arg [simp]: "ai_type (typed_arg t) = t"
  by (simp add: typed_arg_def)

definition runtime_args :: "runtime_value list \<Rightarrow> arg_info list" where
  "runtime_args vs = map (\<lambda>v. typed_arg (valueRuntimeType v)) vs"

definition has_static_type :: "arg_info \<Rightarrow> runtime_value \<Rightarrow> bool" where
  "has_static_type a v \<longleftrightarrow>
     (case ai_type a of
        None \<Rightarrow> True
      | Some t \<Rightarrow> rt_obj t = None \<and> valueRuntimeType v = Some (plain_type (rt_builtin t)))"

lemma userDefined_plain:
  "rt_obj t = None \<Longrightarrow> userDefinedImplicitConvFeasible (Some (plain_type (rt_builtin t))) (Some p)
     = userDefinedImplicitConvFeasible (Some t) (Some p)"
  unfolding userDefinedImplicitConvFeasible_def prod.case option.case is_object_def plain_type_def rtype.sel
  by (cases "rt_obj p") simp_all

lemma classify_builtin_plain:
  assumes "rt_obj t = None"
  shows "classify_builtin p (plain_type (rt_builtin t)) sm = classify_builtin p t sm"
proof -
  have "rt_builtin (plain_type (rt_builtin t)) = rt_builtin t" by (simp add: plain_type_def)
  then show ?thesis unfolding classify_builtin_def Let_def userDefined_plain [OF assms] by simp
qed

lemma classifyArg_plain:
  "rt_obj t = None \<Longrightarrow> classifyArg q (Some (plain_type (rt_builtin t))) sm ab = classifyArg q (Some t) sm ab"
  using classify_builtin_plain [of t] by (simp add: classifyArg_def split: option.split) (simp add: plain_type_def)

lemma rank_args_types:
  assumes "list_all2 (\<lambda>a b. \<forall>q ab. classifyArg q (ai_type a) sm ab = classifyArg q (ai_type b) sm ab) as bs"
  shows "rank_args ps v sm i as s = rank_args ps v sm i bs s"
  using assms
proof (induction as bs arbitrary: i s rule: list_all2_induct)
  case (Cons a as b bs)
  then have "arg_rank_at ps v i (ai_type a) sm = arg_rank_at ps v i (ai_type b) sm"
    by (simp add: arg_rank_at_def split: option.split)
  then show ?case using Cons.IH by (simp add: Let_def)
qed simp

lemma scoreOne_types:
  assumes "list_all2 (\<lambda>a b. \<forall>q ab. classifyArg q (ai_type a) sm ab = classifyArg q (ai_type b) sm ab) as bs"
  shows "scoreOne c as sm = scoreOne c bs sm"
  using rank_args_types [OF assms] list_all2_lengthD [OF assms]
  by (auto simp: scoreOne_def Let_def split: option.splits rtype.splits)

text \<open>A candidate that is feasible in strict mode has the same score in non-strict mode.\<close>

lemma convertible_to_object: "convertibleTo a BObject False = convertibleTo a BObject True"
  "convertibleTo a BActor False = convertibleTo a BActor True"
  by (cases a; simp add: convertibleTo_def strictTab_def nonStrictTab_def)+

lemma classify_builtin_strict:
  "classify_builtin p t True \<noteq> Incompatible \<Longrightarrow> classify_builtin p t False = classify_builtin p t True"
  by (auto simp: classify_builtin_def Let_def convertible_to_object split: if_splits)

lemma classifyArg_strict:
  "classifyArg q t True ab \<noteq> Incompatible \<Longrightarrow> classifyArg q t False ab = classifyArg q t True ab"
  using classify_builtin_strict by (auto simp: classifyArg_def split: option.splits if_splits)

lemma rank_args_strict:
  "feasible (rank_args ps v True i as s) \<Longrightarrow> rank_args ps v False i as s = rank_args ps v True i as s"
proof (induction as arbitrary: i s)
  case (Cons a as)
  have r: "arg_rank_at ps v i (ai_type a) True \<noteq> Incompatible"
    using Cons.prems by (auto simp: Let_def split: if_splits)
  then have "arg_rank_at ps v i (ai_type a) False = arg_rank_at ps v i (ai_type a) True"
    using classifyArg_strict by (auto simp: arg_rank_at_def split: option.splits if_splits)
  then show ?case using Cons r by (simp add: Let_def)
qed simp

lemma scoreOne_strict:
  assumes "feasible (scoreOne c as True)"
  shows "scoreOne c as sm = scoreOne c as True"
proof (cases sm)
  case False
  obtain b cst fn ob where c: "c_funcType c = Some (RType b cst (Some fn) ob)"
    using assms by (auto simp: scoreOne_def no_score_def split: option.splits rtype.splits)
  show ?thesis
    using assms rank_args_strict [of "ft_params fn" _ 0 as] False
    by (auto simp: scoreOne_def c Let_def no_score_def split: if_splits)
qed simp

text \<open>The static arguments with the unknown types filled in from the values.\<close>

definition filled :: "arg_info list \<Rightarrow> runtime_value list \<Rightarrow> arg_info list" where
  "filled as vs = map2 (\<lambda>a v. case ai_type a of None \<Rightarrow> typed_arg (valueRuntimeType v) | Some t \<Rightarrow> a) as vs"

lemma filled_refines: "length as = length vs \<Longrightarrow> refines as (filled as vs)"
  by (auto simp: refines_def filled_def list_all2_conv_all_nth split: option.split)

lemma filled_runtime:
  assumes "list_all2 has_static_type as vs"
  shows "scoreOne c (filled as vs) sm = scoreOne c (runtime_args vs) sm"
  by (rule scoreOne_types)
    (use assms classifyArg_plain in \<open>auto simp: filled_def runtime_args_def list_all2_conv_all_nth has_static_type_def split: option.split option.splits\<close>)

section \<open>Properties\<close>

text \<open>
  C21. Overload selection is optimal.  A unique result is a feasible candidate strictly better than
  every other feasible one; an ambiguous result lists at least two candidates, each of them
  feasible and none worse than any other candidate; no match means no candidate is feasible; and
  the decision is deferred to run time only for a static attempt with an argument of unknown type.
\<close>

theorem resolve_optimal:
  assumes "r = resolve cs as st sm"
  shows "case r of
      No_Match \<Rightarrow> \<forall>c \<in> set cs. \<not> feasible (scoreOne c as sm)
    | Resolved_Unique i \<Rightarrow> i < length cs \<and> feasible (scoreOne (cs ! i) as sm)
        \<and> (\<forall>j < length cs. j \<noteq> i \<and> feasible (scoreOne (cs ! j) as sm)
             \<longrightarrow> isBetter (scoreOne (cs ! i) as sm) (scoreOne (cs ! j) as sm))
    | Ambiguous tied \<Rightarrow> length tied > 1 \<and> distinct tied
        \<and> (\<forall>i \<in> set tied. i < length cs \<and> feasible (scoreOne (cs ! i) as sm)
             \<and> (\<forall>j < length cs. \<not> isBetter (scoreOne (cs ! j) as sm) (scoreOne (cs ! i) as sm)))
    | Needs_Runtime i tied \<Rightarrow> st \<and> (\<exists>a \<in> set as. ai_type a = None)"
proof -
  let ?ss = "map (\<lambda>c. scoreOne c as sm) cs"
  show ?thesis
  proof (cases r)
    case No_Match
    then show ?thesis
      using assms best_index_None [of ?ss] by (auto simp: resolve_def Let_def split: option.splits if_splits)
  next
    case (Resolved_Unique i)
    note u = resolve_unique_feasible [OF assms [symmetric, unfolded Resolved_Unique]]
    have b: "is_best ?ss (length ?ss) i" using u(1) by simp
    then show ?thesis
      using resolve_unique_beats [OF assms [symmetric, unfolded Resolved_Unique]] Resolved_Unique by (auto simp: is_best_def)
  next
    case (Ambiguous tied)
    then obtain best where best: "best_index ?ss = Some best" and t: "tied = tied_indices ?ss best" "length tied > 1"
      using assms by (auto simp: resolve_def Let_def split: option.splits if_splits)
    note b = best_index_Some [OF best]
    have "i < length cs \<and> feasible (?ss ! i) \<and> (\<forall>j < length cs. \<not> isBetter (?ss ! j) (?ss ! i))"
      if "i \<in> set tied" for i
    proof -
      have i: "is_best ?ss (length ?ss) i" using that tied_iff [OF b] t by simp
      then show ?thesis using isBetter_infeasible [of _ "?ss ! i"] by (auto simp: is_best_def)
    qed
    then have "\<forall>i \<in> set tied. i < length cs \<and> feasible (scoreOne (cs ! i) as sm)
             \<and> (\<forall>j < length cs. \<not> isBetter (scoreOne (cs ! j) as sm) (scoreOne (cs ! i) as sm))"
      by (metis nth_map)
    then show ?thesis using Ambiguous t by (simp add: tied_indices_def)
  next
    case (Needs_Runtime i tied)
    then show ?thesis
      using assms by (auto simp: resolve_def Let_def list_ex_iff split: option.splits if_splits)
  qed
qed

definition untyped_param :: "ustring \<Rightarrow> param_type" where
  "untyped_param n = ParamType n 0 None False False"

definition typed_param :: "ustring \<Rightarrow> rtype \<Rightarrow> param_type" where
  "typed_param n t = ParamType n 0 (Some (Some t)) False False"

definition func_candidate :: "param_type list \<Rightarrow> candidate" where
  "func_candidate ps = \<lparr>c_funcType = Some (RType BFunc False (Some (FuncType False (map Some ps) [])) None),
     c_target = 0, isMethod = False\<rparr>"

lemmas score_eval = scoreOne_def func_candidate_def typed_arg_def untyped_param_def typed_param_def
  Let_def no_score_def arg_rank_at_def classifyArg_def classify_builtin_def plain_type_def
  convertibleTo_def strictTab_def nonStrictTab_def nth_numeral_Cons is_object_def defaulted_def

lemma ranking_scores:
  "scoreOne (func_candidate [typed_param [120] (plain_type BInt)]) [typed_arg (Some (plain_type BInt))] True
     = \<lparr>feasible = True, totalRank = 0, defaultsActivated = 0\<rparr>"
  "scoreOne (func_candidate [untyped_param [120]]) [typed_arg (Some (plain_type BInt))] True
     = \<lparr>feasible = True, totalRank = 3, defaultsActivated = 0\<rparr>"
  by (simp_all add: score_eval)

theorem resolve_optimal_witness:
  "isBetter \<lparr>feasible = True, totalRank = 0, defaultsActivated = 0\<rparr> \<lparr>feasible = True, totalRank = 3, defaultsActivated = 0\<rparr>"
proof -
  let ?cs = "[func_candidate [typed_param [120] (plain_type BInt)], func_candidate [untyped_param [120]]]"
  let ?as = "[typed_arg (Some (plain_type BInt))]"
  have "Resolved_Unique 0 = resolve ?cs ?as False True"
    by (simp add: resolve_def Let_def ranking_scores best_index_def best_step_def tied_indices_def isBetter_def)
  from resolve_optimal [OF this] show ?thesis by (simp add: ranking_scores All_less_Suc)
qed

text \<open>
  C23. Static against run-time dispatch.  The compiler resolves a call in the mode of the caller, the
  machine in strict mode by the types it derives from the argument values.  When the compiler resolves a
  call uniquely to candidate \<open>i\<close>, dispatching the same call on the values at run time gives \<open>i\<close>, or finds no
  match because of an argument whose type the compiler did not know, or the caller is non-strict and \<open>i\<close>
  is no candidate at all in strict mode; for a strict caller that knows all types it gives \<open>i\<close>.  The static
  types the compiler knows are those of the values, as \<open>valueRuntimeType\<close> reports them, and no class or
  actor types, whose super types and methods a value does not show.
\<close>

theorem static_resolution_stable:
  assumes "resolve cs as True sm = Resolved_Unique i" "list_all2 has_static_type as vs"
  shows "resolve cs (runtime_args vs) False True = Resolved_Unique i
    \<or> (\<exists>a \<in> set as. ai_type a = None) \<and> resolve cs (runtime_args vs) False True = No_Match
    \<or> \<not> sm \<and> \<not> feasible (scoreOne (cs ! i) (runtime_args vs) True)"
proof -
  let ?s = "\<lambda>j. scoreOne (cs ! j) as sm" and ?t = "\<lambda>j. scoreOne (cs ! j) (runtime_args vs) True"
  note u = resolve_unique_feasible [OF assms(1)]
  have i: "i < length cs" "feasible (?s i)" using u(1) by (auto simp: is_best_def)
  have ref: "refines as (filled as vs)" by (rule filled_refines) (rule list_all2_lengthD [OF assms(2)])
  have fill: "scoreOne (cs ! j) (filled as vs) sm = ?t j" if "feasible (?t j)" for j
    using scoreOne_strict [of "cs ! j" "filled as vs" sm] that filled_runtime [OF assms(2)] by simp
  show ?thesis
  proof (cases "\<exists>a \<in> set as. ai_type a = None")
    case True
    then obtain a where a: "a \<in> set as" "ai_type a = None" by blast
    have only: "j = i" if "j < length cs" "feasible (?t j)" for j
      using single_feasible [OF u(2) [OF TrueI a], of j i] that i scoreOne_refines [OF ref, of "cs ! j" sm] fill [OF that(2)] by simp
    show ?thesis
    proof (cases "feasible (?t i)")
      case t: True
      have "resolve cs (runtime_args vs) False True = Resolved_Unique i"
        by (rule resolve_beats_unique [OF i(1) t]) (use only in blast)
      then show ?thesis ..
    next
      case False
      then have "\<forall>c \<in> set cs. \<not> feasible (scoreOne c (runtime_args vs) True)"
        using only by (auto simp: in_set_conv_nth)
      then have "best_index (map (\<lambda>c. scoreOne c (runtime_args vs) True) cs) = None" by (simp add: best_index_None)
      then have "resolve cs (runtime_args vs) False True = No_Match" by (simp add: resolve_def Let_def)
      then show ?thesis using True by blast
    qed
  next
    case False
    then have m: "map ai_type as = map ai_type (filled as vs)" using refines_known [OF ref] by auto
    have same: "?t j = ?s j" if "feasible (?t j)" for j
      using fill [OF that] scoreOne_same [OF m] by simp
    show ?thesis
    proof (cases "feasible (?t i)")
      case t: True
      have "resolve cs (runtime_args vs) False True = Resolved_Unique i"
      proof (rule resolve_beats_unique [OF i(1) t])
        fix j assume j: "j < length cs" "j \<noteq> i" "feasible (?t j)"
        have "feasible (?s j)" using same [OF j(3)] j(3) by simp
        then show "isBetter (?t i) (?t j)"
          using resolve_unique_beats [OF assms(1) j(1,2)] unfolding same [OF j(3)] same [OF t] by simp
      qed
      then show ?thesis ..
    next
      case f: False
      have "\<not> sm" using f i(2) scoreOne_same [OF m] filled_runtime [OF assms(2), of "cs ! i" True] by (cases sm) simp_all
      then show ?thesis using f by blast
    qed
  qed
qed

lemma unknown_scores:
  "scoreOne (func_candidate [typed_param [120] (plain_type BInt)]) [typed_arg None] True
     = \<lparr>feasible = True, totalRank = 0, defaultsActivated = 0\<rparr>"
  "scoreOne (func_candidate []) [typed_arg None] True = no_score"
  "scoreOne (func_candidate []) [typed_arg (Some (plain_type BInt))] True = no_score"
  by (simp_all add: score_eval)

theorem static_resolution_stable_witness:
  "resolve [func_candidate [typed_param [120] (plain_type BInt)], func_candidate []]
     (runtime_args [Rv_Imm (int32Val 7)]) False True = Resolved_Unique 0"
proof -
  let ?cs = "[func_candidate [typed_param [120] (plain_type BInt)], func_candidate []]"
  have r: "resolve ?cs [typed_arg None] True True = Resolved_Unique 0"
    by (simp add: resolve_def Let_def unknown_scores best_index_def best_step_def tied_indices_def isBetter_def no_score_def)
  have v: "runtime_args [Rv_Imm (int32Val 7)] = [typed_arg (Some (plain_type BInt))]"
  proof -
    have h: "header (int32Val 7) = 0x1fff6" using int32Val_box(1) [of 7] by (simp add: kind_headers)
    have "isBool (int32Val 7) \<Longrightarrow> header (int32Val 7) = 0x1fff2 \<or> header (int32Val 7) = 0x1fff3"
      by (auto simp: bool_header header_def push_bit_eq_mult)
    then show ?thesis
      using h nil_header [of "int32Val 7"] by (auto simp: runtime_args_def valueRuntimeType_def kind_headers)
  qed
  have f: "list_all2 has_static_type [typed_arg None] [Rv_Imm (int32Val 7)]" by (simp add: has_static_type_def)
  have "resolve ?cs (runtime_args [Rv_Imm (int32Val 7)]) False True \<noteq> No_Match"
    unfolding v
    by (simp add: resolve_def Let_def unknown_scores ranking_scores best_index_def best_step_def tied_indices_def isBetter_def no_score_def)
  then show ?thesis using static_resolution_stable [OF r f] by blast
qed

definition derived_from :: "ustring \<Rightarrow> ustring \<Rightarrow> rtype" where
  "derived_from d a = RType BObject False None (Some (ObjectType d
     (Some (Some (RType BObject False None (Some (ObjectType a None [] []))))) [] []))"

definition dispatch_candidates :: "ustring \<Rightarrow> candidate list" where
  "dispatch_candidates a =
     [func_candidate [typed_param [120] (named_type BObject (Some a))], func_candidate [typed_param [120] (plain_type BInt)]]"

lemma dispatch_scores:
  assumes "a \<noteq> d"
  shows "scoreOne (dispatch_candidates a ! 0) [typed_arg (Some (derived_from d a))] True
      = \<lparr>feasible = True, totalRank = 1, defaultsActivated = 0\<rparr>"
    and "scoreOne (dispatch_candidates a ! 1) [typed_arg (Some (derived_from d a))] True
      = \<lparr>feasible = True, totalRank = 2, defaultsActivated = 0\<rparr>"
    and "\<not> feasible (scoreOne (dispatch_candidates a ! 0) [typed_arg (valueRuntimeType (Rv_Obj (Ob_Instance (Some d))))] True)"
    and "scoreOne (dispatch_candidates a ! 1) [typed_arg (valueRuntimeType (Rv_Obj (Ob_Instance (Some d))))] True
      = \<lparr>feasible = True, totalRank = 2, defaultsActivated = 0\<rparr>"
  using assms
  by (simp_all add: score_eval dispatch_candidates_def derived_from_def named_type_def valueRuntimeType_def
      classify_object_def userDefinedImplicitConvFeasible_def)

text \<open>
  C25. The type the runtime derives for an instance carries only its own class name, so run-time
  dispatch does not see inheritance: a call \<open>f(d)\<close> with \<open>d\<close> of a class derived from \<open>a\<close>, and
  overloads for \<open>a\<close> and for \<open>int\<close>, is statically resolved to the first and at run time to the
  second, the object-to-number conversion ranking as a strict one.
\<close>

theorem runtime_dispatch_loses_inheritance:
  assumes "a \<noteq> d"
  shows "resolve (dispatch_candidates a) [typed_arg (Some (derived_from d a))] True True = Resolved_Unique 0
    \<and> resolve (dispatch_candidates a) [typed_arg (valueRuntimeType (Rv_Obj (Ob_Instance (Some d))))] False True
      = Resolved_Unique 1"
proof -
  obtain c0 c1 where c: "dispatch_candidates a = [c0, c1]" by (simp add: dispatch_candidates_def)
  then have s: "scoreOne c0 [typed_arg (Some (derived_from d a))] True = \<lparr>feasible = True, totalRank = 1, defaultsActivated = 0\<rparr>"
    "scoreOne c1 [typed_arg (Some (derived_from d a))] True = \<lparr>feasible = True, totalRank = 2, defaultsActivated = 0\<rparr>"
    "\<not> feasible (scoreOne c0 [typed_arg (valueRuntimeType (Rv_Obj (Ob_Instance (Some d))))] True)"
    "scoreOne c1 [typed_arg (valueRuntimeType (Rv_Obj (Ob_Instance (Some d))))] True
      = \<lparr>feasible = True, totalRank = 2, defaultsActivated = 0\<rparr>"
    using dispatch_scores [OF assms] by simp_all
  show ?thesis
    by (simp add: c resolve_def Let_def s best_index_def best_step_def tied_indices_def isBetter_def)
qed

theorem runtime_dispatch_loses_inheritance_witness:
  "resolve (dispatch_candidates [97]) [typed_arg (valueRuntimeType (Rv_Obj (Ob_Instance (Some [100]))))] False True
     = Resolved_Unique 1"
  by (rule conjunct2 [OF runtime_dispatch_loses_inheritance]) simp

text \<open>
  The override check ignores the variadic marker of an untyped parameter: two parameters
  without a declared type are taken to agree whatever their markers, so a method with a plain
  untyped parameter is accepted as implementing one that is variadic there.
\<close>

theorem override_ignores_untyped_variadic:
  assumes "pt_type p = None" "pt_type q = None"
  shows "paramTypeEqualsForOverride (Some p) (Some q)
    \<and> signatureCompatibleForOverride (Some (RType BFunc False (Some (FuncType False [Some p] [])) None))
        (Some (RType BFunc False (Some (FuncType False [Some q] [])) None))"
  using assms by (simp add: paramTypeEqualsForOverride_def signatureCompatibleForOverride_def returnTypeCovariant_def)

theorem override_ignores_untyped_variadic_witness:
  "paramTypeEqualsForOverride (Some (ParamType [97] 0 None False True)) (Some (ParamType [97] 0 None False False))"
  by (rule conjunct1 [OF override_ignores_untyped_variadic]) simp_all

end
