(* ===== verification/Indent_Lexer.thy ===== *)
theory Indent_Lexer
  imports Roxal_Prelude
begin

text \<open>
  \<open>compiler/RoxalIndentationLexer.{h,cpp}\<close>: the layer between the generated lexer and the parser
  that inserts INDENT, DEDENT and NEWLINE tokens, joins lines inside brackets and follows the suites
  of multi-line function literals.  The generated lexer is the input of the model: its tokens in
  order, each with the characters that follow it in the source, then its end-of-file token, which
  it returns for ever.  Undefined behaviour (the top of an empty stack, popping an empty queue) is
  \<open>None\<close>.
\<close>

section \<open>Tokens\<close>

datatype token_type =
  NEWLINE | INDENT | DEDENT | EOF_TOKEN | OPEN_PAREN | OPEN_BRACK | OPEN_BRACE
| CLOSE_PAREN | CLOSE_BRACK | CLOSE_BRACE | COLON | FUNC | PROC | IDENTIFIER | THIS
| Other nat

record token =
  t_type :: token_type
  t_start :: int
  t_stop :: int
  t_text :: string
  t_line :: int
  t_column :: int

text \<open>
  A token of the generated lexer, with the lexer's state after it: its text (\<open>getText\<close>), the
  characters ahead, the line and the column.
\<close>

record raw_token =
  r_token :: token
  r_text :: string
  r_ahead :: "int list"
  r_line :: int
  r_column :: int

definition LA :: "raw_token \<Rightarrow> nat \<Rightarrow> int" where
  "LA r i = (if i - 1 < length (r_ahead r) then r_ahead r ! (i - 1) else -1)"

section \<open>State\<close>

record opener =
  o_type :: token_type
  isCallContext :: bool

datatype lambda_state = L_NONE | SAW_FUNC | IN_PARAMS | AFTER_PARAMS

record lambda_suite =
  baseIndentLevel :: int
  openedAtStart :: int

text \<open>Stacks have their top first.  \<open>lastAppendedTokenType\<close> is not set by the constructor.\<close>

record lexer =
  indentLengths :: "int list"
  pendingTokens :: "token list"
  lastAppendedTokenType :: token_type
  opened :: int
  openers :: "opener list"
  lambdaState :: lambda_state
  funcParenOpenedLevel :: int
  lambdaSuites :: "lambda_suite list"
  wasSpaceIndentation :: bool
  wasTabIndentation :: bool
  warnings :: "string list"
  errors :: "(int \<times> int) list"
  atCharIndex0 :: bool
  firstChar :: int
  lx_input :: "raw_token list"
  lx_eof :: raw_token

definition new_lexer :: "token_type \<Rightarrow> int \<Rightarrow> raw_token list \<Rightarrow> raw_token \<Rightarrow> lexer" where
  "new_lexer uninit c0 toks eof =
     \<lparr>indentLengths = [0], pendingTokens = [], lastAppendedTokenType = uninit, opened = 0,
      openers = [], lambdaState = L_NONE, funcParenOpenedLevel = 0, lambdaSuites = [],
      wasSpaceIndentation = False, wasTabIndentation = False, warnings = [], errors = [],
      atCharIndex0 = True, firstChar = c0, lx_input = toks, lx_eof = eof\<rparr>"

section \<open>Inserting tokens\<close>

definition push_token :: "token \<Rightarrow> lexer \<Rightarrow> lexer" where
  "push_token t st = st\<lparr>pendingTokens := pendingTokens st @ [t]\<rparr>"

definition insertToken_at :: "int \<Rightarrow> int \<Rightarrow> string \<Rightarrow> token_type \<Rightarrow> int \<Rightarrow> int \<Rightarrow> lexer \<Rightarrow> lexer" where
  "insertToken_at startIndex stopIndex txt ty line col =
     push_token \<lparr>t_type = ty, t_start = startIndex, t_stop = stopIndex, t_text = txt, t_line = line, t_column = col\<rparr>"

definition insertToken :: "raw_token \<Rightarrow> string \<Rightarrow> token_type \<Rightarrow> lexer \<Rightarrow> lexer" where
  "insertToken r txt ty =
     (let startIndex = t_start (r_token r) + int (length (r_text r)) in
      insertToken_at startIndex (startIndex - 1) txt ty (r_line r) (r_column r))"

definition insertLeadingTokens :: "bool \<Rightarrow> token_type \<Rightarrow> int \<Rightarrow> lexer \<Rightarrow> lexer" where
  "insertLeadingTokens atVeryFirst ty startIndex st =
     (if atVeryFirst \<and> ty \<notin> {NEWLINE, EOF_TOKEN} then
        (let st1 = insertToken_at 0 (startIndex - 1) ''NEWLINE'' NEWLINE 1 0 st;
             st2 = insertToken_at startIndex (startIndex - 1) ''INDENT'' INDENT 1 startIndex st1 in
         st2\<lparr>indentLengths := startIndex # indentLengths st2\<rparr>)
      else st)"

section \<open>Indentation\<close>

fun indent_loop :: "string \<Rightarrow> int \<Rightarrow> bool \<Rightarrow> bool \<Rightarrow> int \<times> bool \<times> bool" where
  "indent_loop [] count sp tb = (count, sp, tb)"
| "indent_loop (ch # cs) count sp tb =
     (if ch = CHR 0x20 then indent_loop cs (count + 1) True tb
      else if ch = CHR 0x09 then indent_loop cs (count + (8 - count mod 8)) sp True
      else indent_loop cs count sp tb)"

definition getIndentationLength :: "string \<Rightarrow> lexer \<Rightarrow> int \<times> lexer" where
  "getIndentationLength txt st =
     (case indent_loop txt 0 (wasSpaceIndentation st) (wasTabIndentation st) of
        (count, sp, tb) \<Rightarrow> (count, st\<lparr>wasSpaceIndentation := sp, wasTabIndentation := tb\<rparr>))"

text \<open>The \<open>do .. while\<close> over the indentation stack; the list is the stack before the first pop.\<close>

fun dedent_loop :: "raw_token \<Rightarrow> int \<Rightarrow> int list \<Rightarrow> lexer \<Rightarrow> lexer option" where
  "dedent_loop r cur (p # prev # rest) st =
     (let st1 = insertToken r ''DEDENT'' DEDENT (st\<lparr>indentLengths := prev # rest\<rparr>);
          st2 = (if cur \<le> prev then st1 else st1\<lparr>errors := errors st1 @ [(r_line r, r_column r)]\<rparr>) in
      if cur < prev then dedent_loop r cur (prev # rest) st2 else Some st2)"
| "dedent_loop r cur _ st = None"

definition insertIndentDedentTokens :: "raw_token \<Rightarrow> lexer \<Rightarrow> lexer option" where
  "insertIndentDedentTokens r st =
     (case getIndentationLength (r_text r) st of (cur, st1) \<Rightarrow>
       (case indentLengths st1 of
          [] \<Rightarrow> None
        | prev # rest \<Rightarrow>
            if cur > prev then
              (let st2 = insertToken r ''INDENT'' INDENT st1 in
               Some (st2\<lparr>indentLengths := cur # indentLengths st2\<rparr>))
            else if cur < prev then dedent_loop r cur (prev # rest) st1
            else Some st1))"

definition insertTrailingTokens :: "raw_token \<Rightarrow> lexer \<Rightarrow> lexer" where
  "insertTrailingTokens r st =
     (let st1 = (if lastAppendedTokenType st \<notin> {NEWLINE, DEDENT} then insertToken r ''NEWLINE'' NEWLINE st else st);
          st2 = fold (\<lambda>_. insertToken r ''DEDENT'' DEDENT) [0..<length (indentLengths st1) - 1] st1 in
      st2\<lparr>indentLengths := []\<rparr>)"

definition checkSpaceAndTabIndentation :: "lexer \<Rightarrow> lexer" where
  "checkSpaceAndTabIndentation st =
     (if wasSpaceIndentation st \<and> wasTabIndentation st
      then st\<lparr>warnings := warnings st @ [''Mixture of space and tab were used for indentation.'']\<rparr> else st)"

section \<open>Handling one token\<close>

definition prev_type :: "lexer \<Rightarrow> token_type" where
  "prev_type st =
     (if pendingTokens st \<noteq> [] then t_type (last (pendingTokens st)) else lastAppendedTokenType st)"

definition callable_before :: "token_type \<Rightarrow> bool" where
  "callable_before ty \<longleftrightarrow> ty \<in> {IDENTIFIER, CLOSE_PAREN, CLOSE_BRACK, THIS}"

definition open_bracket :: "token_type \<Rightarrow> bool \<Rightarrow> token \<Rightarrow> lexer \<Rightarrow> lexer" where
  "open_bracket ty isCall t st =
     push_token t (st\<lparr>opened := opened st + 1, openers := \<lparr>o_type = ty, isCallContext = isCall\<rparr> # openers st\<rparr>)"

definition pop_ended_suites :: "lexer \<Rightarrow> lexer" where
  "pop_ended_suites st =
     st\<lparr>lambdaSuites := dropWhile (\<lambda>s. opened st < openedAtStart s) (lambdaSuites st)\<rparr>"

definition close_bracket :: "bool \<Rightarrow> token \<Rightarrow> lexer \<Rightarrow> lexer" where
  "close_bracket paren t st =
     (let st1 = st\<lparr>opened := opened st - 1, openers := tl (openers st)\<rparr>;
          st2 = (if paren \<and> lambdaState st1 = IN_PARAMS \<and> opened st1 = funcParenOpenedLevel st1
                 then st1\<lparr>lambdaState := AFTER_PARAMS\<rparr> else st1) in
      push_token t (pop_ended_suites st2))"

text \<open>The next line is blank or a comment line.\<close>

definition blank_ahead :: "raw_token \<Rightarrow> bool" where
  "blank_ahead r \<longleftrightarrow> LA r 1 \<in> {13, 10, 12, 35} \<or> LA r 1 = 47 \<and> LA r 2 = 47"

datatype newline_action = Nl_Skip | Nl_Push | Nl_Emit

definition push_unless_blank :: "raw_token \<Rightarrow> newline_action" where
  "push_unless_blank r = (if blank_ahead r then Nl_Skip else Nl_Push)"

text \<open>What happens to a NEWLINE, with the state after a one-line function literal has been closed.\<close>

definition newline_context :: "raw_token \<Rightarrow> lexer \<Rightarrow> newline_action \<times> lexer" where
  "newline_context r st =
     (if opened st > 0 then
        (case lambdaSuites st of
           s # suites \<Rightarrow>
             if opened st - openedAtStart s > 0 then
               (if openers st \<noteq> [] \<and> isCallContext (hd (openers st)) then (push_unless_blank r, st) else (Nl_Skip, st))
             else if prev_type st \<noteq> COLON \<and> hd (indentLengths st) \<le> baseIndentLevel s then
               (let st1 = st\<lparr>lambdaSuites := suites\<rparr> in
                if openers st1 \<noteq> [] then
                  (if isCallContext (hd (openers st1)) then (push_unless_blank r, st1) else (Nl_Skip, st1))
                else (Nl_Emit, st1))
             else (Nl_Emit, st)
         | [] \<Rightarrow>
             (case openers st of
                ob # obs \<Rightarrow>
                  if o_type ob = OPEN_BRACK then (if isCallContext ob then Nl_Skip else Nl_Push, st)
                  else if o_type ob = OPEN_PAREN then (if isCallContext ob then push_unless_blank r else Nl_Skip, st)
                  else (push_unless_blank r, st)
              | [] \<Rightarrow> (Nl_Skip, st)))
      else (Nl_Emit, st))"

definition next_visible :: "raw_token \<Rightarrow> int" where
  "next_visible r = (case dropWhile (\<lambda>c. c = 32 \<or> c = 9) (r_ahead r) of [] \<Rightarrow> -1 | c # _ \<Rightarrow> c)"

definition emit_newline :: "raw_token \<Rightarrow> lexer \<Rightarrow> lexer option" where
  "emit_newline r st =
     (case insertIndentDedentTokens r (push_token (r_token r) st) of
        None \<Rightarrow> None
      | Some st1 \<Rightarrow>
          (case indentLengths st1 of
             [] \<Rightarrow> None
           | level # _ \<Rightarrow>
               (let suites = dropWhile (\<lambda>s. level \<le> baseIndentLevel s) (lambdaSuites st1);
                    ended = length suites < length (lambdaSuites st1);
                    st2 = st1\<lparr>lambdaSuites := suites\<rparr> in
                if ended \<and> openers st2 \<noteq> [] \<and> isCallContext (hd (openers st2))
                   \<and> next_visible r \<notin> {44, 41, 93, 125, 10, 13}
                then Some (insertToken r ''NEWLINE'' NEWLINE st2) else Some st2)))"

text \<open>The loop body for one token: the new state, and whether the token was dropped (\<open>continue\<close>).\<close>

definition lex_newline :: "raw_token \<Rightarrow> lexer \<Rightarrow> (lexer \<times> bool) option" where
  "lex_newline r st =
     (case newline_context r (st\<lparr>lambdaState := L_NONE\<rparr>) of (action, st1) \<Rightarrow>
       (case action of
          Nl_Skip \<Rightarrow> Some (st1, True)
        | Nl_Push \<Rightarrow> Some (push_token (r_token r) st1, False)
        | Nl_Emit \<Rightarrow>
            if blank_ahead r then Some (st1, True)
            else map_option (\<lambda>st2. (st2, False)) (emit_newline r st1)))"

definition lex_colon :: "token \<Rightarrow> lexer \<Rightarrow> lexer option" where
  "lex_colon t st =
     (if lambdaState st = AFTER_PARAMS then
        (case indentLengths st of
           [] \<Rightarrow> None
         | level # _ \<Rightarrow> Some (push_token t
             (st\<lparr>lambdaSuites := \<lparr>baseIndentLevel = level, openedAtStart = opened st\<rparr> # lambdaSuites st,
                 lambdaState := L_NONE\<rparr>)))
      else Some (push_token t st))"

definition lex_eof :: "raw_token \<Rightarrow> lexer \<Rightarrow> lexer" where
  "lex_eof r st =
     (if indentLengths st \<noteq> [] then push_token (r_token r) (checkSpaceAndTabIndentation (insertTrailingTokens r st))
      else st)"

definition lex_token :: "bool \<Rightarrow> token_type \<Rightarrow> raw_token \<Rightarrow> lexer \<Rightarrow> (lexer \<times> bool) option" where
  "lex_token atVeryFirst ty r st0 =
     (let t = r_token r;
          st1 = insertLeadingTokens atVeryFirst ty (t_start t) st0;
          st = (if ty = FUNC \<or> ty = PROC then st1\<lparr>lambdaState := SAW_FUNC\<rparr> else st1);
          kept = map_option (\<lambda>s. (s, False)) in
      case ty of
        OPEN_PAREN \<Rightarrow>
          (let st2 = (if lambdaState st = SAW_FUNC
                      then st\<lparr>funcParenOpenedLevel := opened st, lambdaState := IN_PARAMS\<rparr> else st) in
           kept (Some (open_bracket OPEN_PAREN (callable_before (prev_type st2)) t st2)))
      | OPEN_BRACK \<Rightarrow> kept (Some (open_bracket OPEN_BRACK (callable_before (prev_type st)) t st))
      | OPEN_BRACE \<Rightarrow> kept (Some (open_bracket OPEN_BRACE False t st))
      | CLOSE_PAREN \<Rightarrow> kept (Some (close_bracket True t st))
      | CLOSE_BRACK \<Rightarrow> kept (Some (close_bracket False t st))
      | CLOSE_BRACE \<Rightarrow> kept (Some (close_bracket False t st))
      | COLON \<Rightarrow> kept (lex_colon t st)
      | NEWLINE \<Rightarrow> lex_newline r st
      | EOF_TOKEN \<Rightarrow> kept (Some (lex_eof r st))
      | FUNC \<Rightarrow> kept (Some (push_token t st))
      | PROC \<Rightarrow> kept (Some (push_token t st))
      | _ \<Rightarrow> kept (Some (push_token t (if lambdaState st = SAW_FUNC then st\<lparr>lambdaState := L_NONE\<rparr> else st))))"

section \<open>nextToken\<close>

fun fetch_loop :: "bool \<Rightarrow> raw_token list \<Rightarrow> lexer \<Rightarrow> lexer option" where
  "fetch_loop atVeryFirst [] st = map_option fst (lex_token atVeryFirst EOF_TOKEN (lx_eof st) st)"
| "fetch_loop atVeryFirst (r # rs) st =
     (case lex_token atVeryFirst (t_type (r_token r)) r (st\<lparr>lx_input := rs, atCharIndex0 := False\<rparr>) of
        None \<Rightarrow> None
      | Some (st1, True) \<Rightarrow> fetch_loop atVeryFirst rs st1
      | Some (st1, False) \<Rightarrow> Some st1)"

definition nextToken :: "lexer \<Rightarrow> (token \<times> lexer) option" where
  "nextToken st =
     (case fetch_loop (atCharIndex0 st \<and> firstChar st \<in> {32, 9}) (lx_input st) st of
        None \<Rightarrow> None
      | Some st1 \<Rightarrow>
          (case pendingTokens st1 of
             [] \<Rightarrow> None
           | t # ts \<Rightarrow> Some (t, st1\<lparr>lastAppendedTokenType := t_type t, pendingTokens := ts\<rparr>)))"

text \<open>The token stream the parser reads: \<open>nextToken\<close> until it returns the end-of-file token.\<close>

lemma insertToken_fields [simp]:
  "lx_input (insertToken_at a b x ty l c st) = lx_input st"
  "indentLengths (insertToken_at a b x ty l c st) = indentLengths st"
  "lx_input (insertToken r x ty st) = lx_input st"
  "indentLengths (insertToken r x ty st) = indentLengths st"
  "lx_input (push_token t st) = lx_input st"
  "indentLengths (push_token t st) = indentLengths st"
  "pendingTokens (push_token t st) = pendingTokens st @ [t]"
  "lx_eof (push_token t st) = lx_eof st"
  "lx_eof (insertToken_at a b x ty l c st) = lx_eof st"
  "lx_eof (insertToken r x ty st) = lx_eof st"
  by (simp_all add: insertToken_at_def insertToken_def push_token_def Let_def)

lemma getIndentationLength_fields:
  assumes "getIndentationLength x st = (n, st1)"
  shows "lx_input st1 = lx_input st \<and> indentLengths st1 = indentLengths st
    \<and> pendingTokens st1 = pendingTokens st \<and> lx_eof st1 = lx_eof st"
  using assms by (auto simp: getIndentationLength_def split: prod.splits)

lemma dedent_loop_input:
  "dedent_loop r cur ls st = Some st1 \<Longrightarrow> lx_input st1 = lx_input st \<and> lx_eof st1 = lx_eof st"
  by (induction r cur ls st rule: dedent_loop.induct) (auto simp: Let_def split: if_splits)

lemma indent_dedent_input:
  "insertIndentDedentTokens r st = Some st1 \<Longrightarrow> lx_input st1 = lx_input st \<and> lx_eof st1 = lx_eof st"
  by (auto simp: insertIndentDedentTokens_def Let_def split: prod.splits list.splits if_splits
      dest!: dedent_loop_input getIndentationLength_fields)

lemma newline_context_fields:
  assumes "newline_context r st = (a, st1)"
  shows "lx_input st1 = lx_input st \<and> lx_eof st1 = lx_eof st \<and> indentLengths st1 = indentLengths st
    \<and> pendingTokens st1 = pendingTokens st"
  using assms by (auto simp: newline_context_def Let_def split: if_splits list.splits)

lemma emit_newline_input:
  "emit_newline r st = Some st1 \<Longrightarrow> lx_input st1 = lx_input st \<and> lx_eof st1 = lx_eof st"
  by (auto simp: emit_newline_def Let_def split: option.splits list.splits if_splits dest!: indent_dedent_input)

lemma bracket_fields [simp]:
  "lx_input (open_bracket ty b t st) = lx_input st"
  "lx_input (close_bracket p t st) = lx_input st"
  "lx_eof (open_bracket ty b t st) = lx_eof st"
  "lx_eof (close_bracket p t st) = lx_eof st"
  "indentLengths (open_bracket ty b t st) = indentLengths st"
  "indentLengths (close_bracket p t st) = indentLengths st"
  "pendingTokens (open_bracket ty b t st) = pendingTokens st @ [t]"
  "pendingTokens (close_bracket p t st) = pendingTokens st @ [t]"
  by (simp_all add: open_bracket_def close_bracket_def pop_ended_suites_def Let_def)

lemma leading_fields [simp]:
  "lx_input (insertLeadingTokens b ty i st) = lx_input st"
  "lx_eof (insertLeadingTokens b ty i st) = lx_eof st"
  "insertLeadingTokens b EOF_TOKEN i st = st"
  "insertLeadingTokens b NEWLINE i st = st"
  by (simp_all add: insertLeadingTokens_def Let_def)

lemma lex_newline_input:
  "lex_newline r st = Some (st1, c) \<Longrightarrow> lx_input st1 = lx_input st \<and> lx_eof st1 = lx_eof st"
  by (auto simp: lex_newline_def split: prod.splits newline_action.splits if_splits
      dest!: newline_context_fields emit_newline_input)

lemma lex_colon_input:
  "lex_colon t st = Some st1 \<Longrightarrow> lx_input st1 = lx_input st \<and> lx_eof st1 = lx_eof st"
  by (auto simp: lex_colon_def split: if_splits list.splits)

lemma insertDedents_fields:
  "lx_input (fold (\<lambda>_. insertToken r x ty) xs st) = lx_input st
   \<and> lx_eof (fold (\<lambda>_. insertToken r x ty) xs st) = lx_eof st
   \<and> indentLengths (fold (\<lambda>_. insertToken r x ty) xs st) = indentLengths st"
  by (induction xs arbitrary: st) simp_all

lemma lex_eof_input:
  "lx_input (lex_eof r st) = lx_input st" "lx_eof (lex_eof r st) = lx_eof st" "indentLengths (lex_eof r st) = []"
  by (simp_all add: lex_eof_def insertTrailingTokens_def checkSpaceAndTabIndentation_def insertDedents_fields Let_def)

lemma lex_token_input:
  "lex_token b ty r st = Some (st1, c) \<Longrightarrow> lx_input st1 = lx_input st \<and> lx_eof st1 = lx_eof st"
  by (auto simp: lex_token_def Let_def lex_eof_input split: token_type.splits if_splits
      dest!: lex_newline_input lex_colon_input)

lemma lex_token_eof: "lex_token b EOF_TOKEN r st = Some (lex_eof r st, False)"
  by (simp add: lex_token_def)

lemma fetch_loop_input:
  "fetch_loop b rs st = Some st1 \<Longrightarrow> rs \<noteq> [] \<Longrightarrow> length (lx_input st1) < length rs"
proof (induction b rs st rule: fetch_loop.induct)
  case (2 b r rs st)
  obtain st2 c where l: "lex_token b (t_type (r_token r)) r (st\<lparr>lx_input := rs, atCharIndex0 := False\<rparr>) = Some (st2, c)"
    using 2(2) by (auto split: option.splits)
  have i: "lx_input st2 = rs" using lex_token_input [OF l] by simp
  show ?case
  proof (cases c)
    case True
    then have f: "fetch_loop b rs st2 = Some st1" using 2(2) l by simp
    show ?thesis
    proof (cases rs)
      case Nil
      then have "st1 = lex_eof (lx_eof st2) st2" using f by (simp add: lex_token_eof)
      then show ?thesis using i Nil by (simp add: lex_eof_input)
    next
      case (Cons r' rs')
      then have "length (lx_input st1) < length rs" using 2(1) [OF l] True f by auto
      then show ?thesis by simp
    qed
  next
    case False
    then have "st1 = st2" using 2(2) l by simp
    then show ?thesis using i by simp
  qed
qed simp

lemma nextToken_measure:
  assumes "nextToken st = Some (t, st1)"
  shows "(st1, st) \<in> measures [\<lambda>s. length (lx_input s), \<lambda>s. if indentLengths s = [] then 0 else 1,
    \<lambda>s. length (pendingTokens s)]"
proof -
  obtain b st2 ts where f: "fetch_loop b (lx_input st) st = Some st2" and p: "pendingTokens st2 = t # ts"
    and st1: "st1 = st2\<lparr>lastAppendedTokenType := t_type t, pendingTokens := ts\<rparr>"
    using assms by (auto simp: nextToken_def split: option.splits list.splits)
  show ?thesis
  proof (cases "lx_input st = []")
    case False
    then have "length (lx_input st2) < length (lx_input st)" using fetch_loop_input [OF f] by simp
    then show ?thesis by (simp add: st1)
  next
    case True
    then have s2: "st2 = lex_eof (lx_eof st) st" using f by (simp add: lex_token_eof)
    show ?thesis
    proof (cases "indentLengths st = []")
      case True
      then have "st2 = st" using s2 by (simp add: lex_eof_def)
      then show ?thesis using p True \<open>lx_input st = []\<close> by (simp add: st1)
    next
      case False
      then show ?thesis using s2 True by (simp add: st1 lex_eof_input)
    qed
  qed
qed

function lex_all :: "lexer \<Rightarrow> token list option" where
  "lex_all st =
     (case nextToken st of
        None \<Rightarrow> None
      | Some (t, st1) \<Rightarrow> if t_type t = EOF_TOKEN then Some [t] else map_option ((#) t) (lex_all st1))"
  by pat_completeness auto

termination lex_all
proof (relation "measures [\<lambda>s. length (lx_input s), \<lambda>s. if indentLengths s = [] then 0 else 1, \<lambda>s. length (pendingTokens s)]", goal_cases)
  case (2 st a t st1)
  then show ?case using nextToken_measure [of st t st1] by simp
qed simp

declare lex_all.simps [simp del]

section \<open>Balanced indentation\<close>

text \<open>The indentation depth after reading some tokens; \<open>None\<close> when a DEDENT has no INDENT to match.\<close>

fun indent_depth :: "nat \<Rightarrow> token list \<Rightarrow> nat option" where
  "indent_depth d [] = Some d"
| "indent_depth d (t # ts) =
     (if t_type t = INDENT then indent_depth (d + 1) ts
      else if t_type t = DEDENT then (if d = 0 then None else indent_depth (d - 1) ts)
      else indent_depth d ts)"

lemma indent_depth_append:
  "indent_depth d (xs @ ys) = Option.bind (indent_depth d xs) (\<lambda>e. indent_depth e ys)"
  by (induction d xs rule: indent_depth.induct) simp_all

definition layout :: "token_type set" where
  "layout = {NEWLINE, INDENT, DEDENT}"

definition visible :: "token list \<Rightarrow> token list" where
  "visible ts = filter (\<lambda>t. t_type t \<notin> layout) ts"

lemma visible_simps [simp]:
  "visible [] = []" "visible (xs @ ys) = visible xs @ visible ys"
  "visible (t # ts) = (if t_type t \<in> layout then visible ts else t # visible ts)"
  by (simp_all add: visible_def)

lemma in_layout [simp]: "NEWLINE \<in> layout" "INDENT \<in> layout" "DEDENT \<in> layout"
  by (simp_all add: layout_def)

text \<open>The invariant: what has been returned and what is queued indent as deep as the stack says.\<close>

definition lx_ok :: "token list \<Rightarrow> token list \<Rightarrow> lexer \<Rightarrow> bool" where
  "lx_ok ret vis st \<longleftrightarrow>
     indentLengths st \<noteq> [] \<and> last (indentLengths st) = 0
     \<and> indent_depth 0 (ret @ pendingTokens st) = Some (length (indentLengths st) - 1)
     \<and> (\<forall>t \<in> set (pendingTokens st). t_type t \<noteq> EOF_TOKEN)
     \<and> visible (ret @ pendingTokens st) = vis"

lemma lx_ok_cong:
  "lx_ok ret vis st \<Longrightarrow> indentLengths st1 = indentLengths st \<Longrightarrow> pendingTokens st1 = pendingTokens st
    \<Longrightarrow> lx_ok ret vis st1"
  by (simp add: lx_ok_def)

lemma lx_ok_push:
  assumes "lx_ok ret vis st" "indentLengths st1 = indentLengths st" "pendingTokens st1 = pendingTokens st @ [t]"
    "t_type t \<notin> {INDENT, DEDENT, EOF_TOKEN}"
  shows "lx_ok ret (vis @ visible [t]) st1"
  using assms by (auto simp: lx_ok_def indent_depth_append)

lemma insertToken_pending:
  "\<exists>t. pendingTokens (insertToken r x ty st) = pendingTokens st @ [t] \<and> t_type t = ty"
  "\<exists>t. pendingTokens (insertToken_at a b x ty l c st) = pendingTokens st @ [t] \<and> t_type t = ty"
  by (simp_all add: insertToken_def insertToken_at_def push_token_def Let_def)

lemma lx_ok_newline:
  "lx_ok ret vis st \<Longrightarrow> lx_ok ret vis (insertToken r x NEWLINE st)"
  using lx_ok_push [of ret vis st "insertToken r x NEWLINE st"] insertToken_pending(1) [of r x NEWLINE st] by force

lemma lx_ok_indent:
  assumes "lx_ok ret vis st" "indentLengths st1 = n # indentLengths st"
    "pendingTokens st1 = pendingTokens st @ [t]" "t_type t = INDENT"
  shows "lx_ok ret vis st1"
  using assms by (cases "indentLengths st") (auto simp: lx_ok_def indent_depth_append bind_eq_Some_conv)

lemma lx_ok_dedent:
  assumes "lx_ok ret vis st" "indentLengths st = p # q # rest" "indentLengths st1 = q # rest"
    "pendingTokens st1 = pendingTokens st @ [t]" "t_type t = DEDENT"
  shows "lx_ok ret vis st1"
  using assms indent_depth_append [of 0 "ret @ pendingTokens st" "[t]"] by (auto simp: lx_ok_def)

lemma indent_loop_ge: "0 \<le> count \<Longrightarrow> indent_loop cs count sp tb = (n, a, b) \<Longrightarrow> count \<le> n"
proof (induction cs count sp tb rule: indent_loop.induct)
  case (2 ch cs count sp tb)
  have "0 \<le> 8 - count mod 8" using pos_mod_bound [of 8 count] by simp
  then show ?case using 2 by (auto split: if_splits)
qed simp

lemma dedent_loop_ok:
  assumes "lx_ok ret vis st" "indentLengths st = ls" "0 \<le> cur" "cur < hd ls"
  shows "\<exists>st1. dedent_loop r cur ls st = Some st1 \<and> lx_ok ret vis st1 \<and> pendingTokens st1 \<noteq> []"
  using assms
proof (induction r cur ls st rule: dedent_loop.induct)
  case (1 r cur p q rest st)
  obtain st1 where st1: "st1 = insertToken r ''DEDENT'' DEDENT (st\<lparr>indentLengths := q # rest\<rparr>)" by simp
  obtain st2 where st2: "st2 = (if cur \<le> q then st1 else st1\<lparr>errors := errors st1 @ [(r_line r, r_column r)]\<rparr>)"
    by simp
  obtain t where t: "pendingTokens st1 = pendingTokens st @ [t]" "t_type t = DEDENT"
    using insertToken_pending(1) [of r "''DEDENT''" DEDENT "st\<lparr>indentLengths := q # rest\<rparr>"] by (auto simp: st1)
  have f: "indentLengths st2 = q # rest" "pendingTokens st2 = pendingTokens st @ [t]"
    using t by (simp_all add: st1 st2)
  have ok: "lx_ok ret vis st2" by (rule lx_ok_dedent [OF 1(2,3) f]) (rule t(2))
  show ?case
  proof (cases "cur < q")
    case True
    then have "\<exists>st3. dedent_loop r cur (q # rest) st2 = Some st3 \<and> lx_ok ret vis st3 \<and> pendingTokens st3 \<noteq> []"
      using 1(1) [OF st1 st2 True ok f(1) 1(4)] by simp
    then show ?thesis using True unfolding dedent_loop.simps Let_def st1 [symmetric] st2 [symmetric] by simp
  next
    case False
    then show ?thesis using ok f unfolding dedent_loop.simps Let_def st1 [symmetric] st2 [symmetric] by simp
  qed
qed (auto simp: lx_ok_def)

lemma indent_dedent_ok:
  assumes "lx_ok ret vis st" "pendingTokens st \<noteq> []"
  shows "\<exists>st1. insertIndentDedentTokens r st = Some st1 \<and> lx_ok ret vis st1 \<and> pendingTokens st1 \<noteq> []"
proof -
  obtain cur st1 where g: "getIndentationLength (r_text r) st = (cur, st1)" by fastforce
  have cur: "0 \<le> cur" using g indent_loop_ge [of 0] by (auto simp: getIndentationLength_def split: prod.splits)
  have ok: "lx_ok ret vis st1" "pendingTokens st1 \<noteq> []"
    using lx_ok_cong [OF assms(1)] getIndentationLength_fields [OF g] assms(2) by simp_all
  obtain prev rest where l: "indentLengths st1 = prev # rest"
    using ok(1) by (cases "indentLengths st1") (auto simp: lx_ok_def)
  consider "cur > prev" | "cur < prev" | "cur = prev" by linarith
  then show ?thesis
  proof cases
    case 1
    obtain t where t: "pendingTokens (insertToken r ''INDENT'' INDENT st1) = pendingTokens st1 @ [t]" "t_type t = INDENT"
      using insertToken_pending(1) by blast
    have "lx_ok ret vis ((insertToken r ''INDENT'' INDENT st1)\<lparr>indentLengths := cur # prev # rest\<rparr>)"
      by (rule lx_ok_indent [OF ok(1), where t = t and n = cur]) (simp_all add: l t)
    then show ?thesis using 1 t by (simp add: insertIndentDedentTokens_def g l Let_def)
  next
    case 2
    then show ?thesis
      using dedent_loop_ok [OF ok(1) l cur, of r] by (simp add: insertIndentDedentTokens_def g l)
  next
    case 3
    then show ?thesis using ok by (simp add: insertIndentDedentTokens_def g l)
  qed
qed

lemma emit_newline_ok:
  assumes "lx_ok ret vis st" "t_type (r_token r) = NEWLINE"
  shows "\<exists>st1. emit_newline r st = Some st1 \<and> lx_ok ret vis st1 \<and> pendingTokens st1 \<noteq> []"
proof -
  have "lx_ok ret vis (push_token (r_token r) st)"
    using lx_ok_push [OF assms(1), of "push_token (r_token r) st" "r_token r"] assms(2) by simp
  then obtain st1 where st1: "insertIndentDedentTokens r (push_token (r_token r) st) = Some st1" "lx_ok ret vis st1"
    "pendingTokens st1 \<noteq> []"
    using indent_dedent_ok [of ret vis "push_token (r_token r) st" r] by auto
  obtain lev rest where l: "indentLengths st1 = lev # rest"
    using st1(2) by (cases "indentLengths st1") (auto simp: lx_ok_def)
  have ok: "lx_ok ret vis (st1\<lparr>lambdaSuites := x\<rparr>)" for x by (rule lx_ok_cong [OF st1(2)]) simp_all
  have p: "pendingTokens (insertToken r y NEWLINE (st1\<lparr>lambdaSuites := x\<rparr>)) \<noteq> []" for x y
    by (simp add: insertToken_def insertToken_at_def push_token_def Let_def)
  show ?thesis using ok st1(3) lx_ok_newline [OF ok] p by (simp add: emit_newline_def st1(1) l Let_def)
qed

lemma lex_newline_ok:
  assumes "lx_ok ret vis st" "t_type (r_token r) = NEWLINE"
  shows "\<exists>st1 c. lex_newline r st = Some (st1, c) \<and> lx_ok ret vis st1 \<and> (\<not> c \<longrightarrow> pendingTokens st1 \<noteq> [])"
proof -
  obtain a st1 where n: "newline_context r (st\<lparr>lambdaState := L_NONE\<rparr>) = (a, st1)" by fastforce
  have ok: "lx_ok ret vis st1" using lx_ok_cong [OF assms(1)] newline_context_fields [OF n] by simp
  have p: "lx_ok ret vis (push_token (r_token r) st1)"
    using lx_ok_push [OF ok, of "push_token (r_token r) st1" "r_token r"] assms(2) by simp
  show ?thesis
    using emit_newline_ok [OF ok assms(2)] ok p by (cases a) (auto simp: lex_newline_def n)
qed

lemma leading_ok:
  assumes "lx_ok ret vis st"
  shows "lx_ok ret vis (insertLeadingTokens b ty i st)"
proof -
  obtain st1 where st1: "st1 = insertToken_at 0 (i - 1) ''NEWLINE'' NEWLINE 1 0 st" by simp
  obtain t1 t2 where t: "pendingTokens st1 = pendingTokens st @ [t1]" "t_type t1 = NEWLINE"
    "pendingTokens (insertToken_at i (i - 1) ''INDENT'' INDENT 1 i st1) = pendingTokens st1 @ [t2]" "t_type t2 = INDENT"
    using insertToken_pending(2) st1 by metis
  have "lx_ok ret vis st1" using lx_ok_push [OF assms, of st1 t1] t by (simp add: st1)
  then have "lx_ok ret vis ((insertToken_at i (i - 1) ''INDENT'' INDENT 1 i st1)\<lparr>indentLengths := i # indentLengths st1\<rparr>)"
    by (rule lx_ok_indent [where t = t2 and n = i]) (simp_all add: t)
  then show ?thesis using assms by (simp add: insertLeadingTokens_def Let_def st1)
qed

lemma lex_colon_ok:
  assumes "lx_ok ret vis st"
  shows "\<exists>st1. lex_colon t st = Some st1 \<and> indentLengths st1 = indentLengths st \<and> pendingTokens st1 = pendingTokens st @ [t]"
  using assms by (auto simp: lex_colon_def lx_ok_def split: list.splits)

definition source_token :: "raw_token \<Rightarrow> bool" where
  "source_token r \<longleftrightarrow> t_type (r_token r) \<notin> {INDENT, DEDENT, EOF_TOKEN}"

lemma lex_token_other:
  assumes "ty \<notin> {NEWLINE, EOF_TOKEN}" "st1 = insertLeadingTokens b ty (t_start (r_token r)) st" "lx_ok ret vis st1"
  shows "\<exists>st2. lex_token b ty r st = Some (st2, False) \<and> indentLengths st2 = indentLengths st1
    \<and> pendingTokens st2 = pendingTokens st1 @ [r_token r]"
proof (cases "ty = COLON")
  case True
  then show ?thesis using lex_colon_ok [OF assms(3), of "r_token r"]
    unfolding lex_token_def Let_def assms(2) [symmetric] by auto
next
  case False
  then show ?thesis using assms(1) unfolding lex_token_def Let_def assms(2) [symmetric] by (cases ty) simp_all
qed

lemma lex_token_ok:
  assumes ok: "lx_ok ret vis st" and r: "source_token r"
  shows "\<exists>st1 c. lex_token b (t_type (r_token r)) r st = Some (st1, c)
    \<and> lx_ok ret (vis @ visible [r_token r]) st1 \<and> (\<not> c \<longrightarrow> pendingTokens st1 \<noteq> [])"
proof (cases "t_type (r_token r) = NEWLINE")
  case True
  then show ?thesis using lex_newline_ok [OF ok True] by (simp add: lex_token_def)
next
  case False
  obtain st1 where st1: "st1 = insertLeadingTokens b (t_type (r_token r)) (t_start (r_token r)) st" by simp
  have ok1: "lx_ok ret vis st1" using leading_ok [OF ok] by (simp add: st1)
  obtain st2 where "lex_token b (t_type (r_token r)) r st = Some (st2, False)" "indentLengths st2 = indentLengths st1"
    "pendingTokens st2 = pendingTokens st1 @ [r_token r]"
    using lex_token_other [OF _ st1 ok1] False r by (auto simp: source_token_def)
  then show ?thesis using lx_ok_push [OF ok1, of st2 "r_token r"] r by (auto simp: source_token_def)
qed

section \<open>The whole stream\<close>

text \<open>After the end-of-file token has been queued.\<close>

definition lx_done :: "token list \<Rightarrow> token list \<Rightarrow> lexer \<Rightarrow> bool" where
  "lx_done ret vis st \<longleftrightarrow>
     indentLengths st = [] \<and> lx_input st = [] \<and> indent_depth 0 (ret @ pendingTokens st) = Some 0
     \<and> visible (ret @ pendingTokens st) = vis
     \<and> (\<exists>ts e. pendingTokens st = ts @ [e] \<and> t_type e = EOF_TOKEN \<and> (\<forall>t \<in> set ts. t_type t \<noteq> EOF_TOKEN))"

lemma insertDedents:
  assumes "indent_depth 0 (ret @ pendingTokens st) = Some d" "length xs \<le> d"
    "\<forall>t \<in> set (pendingTokens st). t_type t \<noteq> EOF_TOKEN"
  shows "let st1 = fold (\<lambda>_. insertToken r x DEDENT) xs st in
    indent_depth 0 (ret @ pendingTokens st1) = Some (d - length xs)
    \<and> visible (pendingTokens st1) = visible (pendingTokens st)
    \<and> (\<forall>t \<in> set (pendingTokens st1). t_type t \<noteq> EOF_TOKEN)"
  using assms
proof (induction xs arbitrary: st d)
  case (Cons a xs)
  obtain t where t: "pendingTokens (insertToken r x DEDENT st) = pendingTokens st @ [t]" "t_type t = DEDENT"
    using insertToken_pending(1) by blast
  have "indent_depth 0 (ret @ pendingTokens (insertToken r x DEDENT st)) = Some (d - 1)"
    using indent_depth_append [of 0 "ret @ pendingTokens st" "[t]"] Cons(2,3) t by simp
  from Cons(1) [OF this] show ?case using Cons(3,4) t by (auto simp: Let_def)
qed simp

lemma lex_eof_ok:
  assumes ok: "lx_ok ret vis st" and e: "t_type (r_token r) = EOF_TOKEN" and i: "lx_input st = []"
  shows "lx_done ret (vis @ [r_token r]) (lex_eof r st)"
proof -
  obtain st1 where st1: "st1 = (if lastAppendedTokenType st \<notin> {NEWLINE, DEDENT}
      then insertToken r ''NEWLINE'' NEWLINE st else st)" by simp
  have ok1: "lx_ok ret vis st1" using ok lx_ok_newline [OF ok] by (simp add: st1)
  have i1: "lx_input st1 = []" using i by (simp add: st1)
  obtain st2 where st2: "st2 = fold (\<lambda>_. insertToken r ''DEDENT'' DEDENT) [0..<length (indentLengths st1) - 1] st1"
    by simp
  have d: "indent_depth 0 (ret @ pendingTokens st2) = Some 0" "visible (pendingTokens st2) = visible (pendingTokens st1)"
    "\<forall>t \<in> set (pendingTokens st2). t_type t \<noteq> EOF_TOKEN"
    using insertDedents [of ret st1 "length (indentLengths st1) - 1" "[0..<length (indentLengths st1) - 1]" r "''DEDENT''"] ok1
    by (simp_all add: lx_ok_def st2 Let_def)
  have tr: "insertTrailingTokens r st = st2\<lparr>indentLengths := []\<rparr>"
    unfolding insertTrailingTokens_def Let_def st1 [symmetric] st2 [symmetric] by (rule refl)
  have "pendingTokens (lex_eof r st) = pendingTokens st2 @ [r_token r]"
    using ok by (simp add: lex_eof_def checkSpaceAndTabIndentation_def lx_ok_def tr)
  moreover have "indent_depth 0 ((ret @ pendingTokens st2) @ [r_token r]) = Some 0"
    using indent_depth_append [of 0 "ret @ pendingTokens st2" "[r_token r]"] d(1) e by simp
  ultimately show ?thesis
    using d ok1 e i by (auto simp: lx_done_def lx_ok_def lex_eof_input layout_def)
qed

lemma fetch_loop_ok:
  assumes "lx_ok ret vis st" "\<forall>r \<in> set rs. source_token r" "lx_input st = rs" "t_type (r_token (lx_eof st)) = EOF_TOKEN"
  shows "\<exists>st1 vis1. fetch_loop b rs st = Some st1 \<and> lx_eof st1 = lx_eof st \<and>
    vis @ visible (map r_token rs) = vis1 @ visible (map r_token (lx_input st1)) \<and>
    (lx_done ret (vis1 @ [r_token (lx_eof st)]) st1
      \<or> lx_ok ret vis1 st1 \<and> pendingTokens st1 \<noteq> [] \<and> set (lx_input st1) \<subseteq> set rs)"
  using assms
proof (induction b rs st arbitrary: vis rule: fetch_loop.induct)
  case (1 b st)
  then show ?case using lex_eof_ok [OF 1(1) 1(4)] by (auto simp: lex_token_eof lex_eof_input)
next
  case (2 b r rs st)
  obtain st0 where st0: "st0 = st\<lparr>lx_input := rs, atCharIndex0 := False\<rparr>" by simp
  have "lx_ok ret vis st0" by (rule lx_ok_cong [OF 2(2)]) (simp_all add: st0)
  then obtain st1 c where l: "lex_token b (t_type (r_token r)) r st0 = Some (st1, c)"
    and ok: "lx_ok ret (vis @ visible [r_token r]) st1" and p: "\<not> c \<Longrightarrow> pendingTokens st1 \<noteq> []"
    using lex_token_ok 2(3) by fastforce
  have i: "lx_input st1 = rs" "lx_eof st1 = lx_eof st" using lex_token_input [OF l] by (simp_all add: st0)
  show ?case
  proof (cases c)
    case True
    have "\<exists>st2 vis1. fetch_loop b rs st1 = Some st2 \<and> lx_eof st2 = lx_eof st1 \<and>
      (vis @ visible [r_token r]) @ visible (map r_token rs) = vis1 @ visible (map r_token (lx_input st2)) \<and>
      (lx_done ret (vis1 @ [r_token (lx_eof st1)]) st2
        \<or> lx_ok ret vis1 st2 \<and> pendingTokens st2 \<noteq> [] \<and> set (lx_input st2) \<subseteq> set rs)"
      by (rule 2(1) [OF l [unfolded st0] refl eqTrueI [OF True] ok _ i(1)]) (use 2(3,5) i(2) in simp_all)
    then show ?thesis using l True i by (auto simp: st0 split: if_splits)
  next
    case False
    then show ?thesis using l ok p i by (auto simp: st0)
  qed
qed

lemma nextToken_ok:
  assumes "lx_ok ret vis st" "\<forall>r \<in> set (lx_input st). source_token r" "t_type (r_token (lx_eof st)) = EOF_TOKEN"
  shows "\<exists>t st1 vis1. nextToken st = Some (t, st1) \<and> lx_eof st1 = lx_eof st \<and>
    vis @ visible (map r_token (lx_input st)) = vis1 @ visible (map r_token (lx_input st1)) \<and>
    (t_type t \<noteq> EOF_TOKEN \<and> lx_ok (ret @ [t]) vis1 st1 \<and> (\<forall>r \<in> set (lx_input st1). source_token r)
     \<or> t_type t \<noteq> EOF_TOKEN \<and> lx_done (ret @ [t]) (vis1 @ [r_token (lx_eof st)]) st1
     \<or> t_type t = EOF_TOKEN \<and> indent_depth 0 (ret @ [t]) = Some 0 \<and> lx_input st1 = []
        \<and> visible (ret @ [t]) = vis1 @ [r_token (lx_eof st)])"
proof -
  obtain st1 vis1 where f: "fetch_loop (atCharIndex0 st \<and> firstChar st \<in> {32, 9}) (lx_input st) st = Some st1"
    "lx_eof st1 = lx_eof st" "vis @ visible (map r_token (lx_input st)) = vis1 @ visible (map r_token (lx_input st1))"
    and c: "lx_done ret (vis1 @ [r_token (lx_eof st)]) st1
      \<or> lx_ok ret vis1 st1 \<and> pendingTokens st1 \<noteq> [] \<and> set (lx_input st1) \<subseteq> set (lx_input st)"
    using fetch_loop_ok [OF assms(1,2) refl assms(3)] by metis
  obtain t ts where p: "pendingTokens st1 = t # ts"
    using c by (cases "pendingTokens st1") (auto simp: lx_done_def)
  have n: "nextToken st = Some (t, st1\<lparr>lastAppendedTokenType := t_type t, pendingTokens := ts\<rparr>)"
    using f(1) by (simp add: nextToken_def p del: insert_iff)
  from c show ?thesis
  proof
    assume d: "lx_done ret (vis1 @ [r_token (lx_eof st)]) st1"
    show ?thesis
    proof (cases "ts = []")
      case True
      then show ?thesis using d n f p by (auto simp: lx_done_def)
    next
      case False
      then obtain ts' e where ts: "ts = ts' @ [e]" by (metis rev_exhaust)
      then show ?thesis using d n f p by (auto simp: lx_done_def Cons_eq_append_conv)
    qed
  next
    assume d: "lx_ok ret vis1 st1 \<and> pendingTokens st1 \<noteq> [] \<and> set (lx_input st1) \<subseteq> set (lx_input st)"
    then show ?thesis using n f p assms(2) by (auto simp: lx_ok_def)
  qed
qed

lemma lex_all_done:
  assumes "lx_done ret vis st"
  shows "\<exists>out. lex_all st = Some out \<and> out \<noteq> [] \<and> t_type (last out) = EOF_TOKEN
    \<and> (\<forall>t \<in> set (butlast out). t_type t \<noteq> EOF_TOKEN)
    \<and> indent_depth 0 (ret @ out) = Some 0 \<and> visible (ret @ out) = vis"
proof -
  obtain ts e where p: "pendingTokens st = ts @ [e]" "t_type e = EOF_TOKEN" "\<forall>t \<in> set ts. t_type t \<noteq> EOF_TOKEN"
    and d: "indent_depth 0 (ret @ ts @ [e]) = Some 0" "visible (ret @ ts @ [e]) = vis"
    "indentLengths st = []" "lx_input st = []"
    using assms by (auto simp: lx_done_def)
  have "lex_all st = Some (ts @ [e])" using p d(3,4)
  proof (induction ts arbitrary: st)
    case Nil
    then show ?case by (simp add: lex_all.simps nextToken_def lex_token_eof lex_eof_def)
  next
    case (Cons t ts)
    let ?st = "st\<lparr>lastAppendedTokenType := t_type t, pendingTokens := ts @ [e]\<rparr>"
    have "nextToken st = Some (t, ?st)" using Cons by (simp add: nextToken_def lex_token_eof lex_eof_def)
    then show ?case using Cons(1) [of ?st] Cons(2-) by (simp add: lex_all.simps [of st])
  qed
  then show ?thesis using p d by auto
qed

lemma lex_all_ok:
  assumes "lx_ok ret vis st" "\<forall>r \<in> set (lx_input st). source_token r" "t_type (r_token (lx_eof st)) = EOF_TOKEN"
  shows "\<exists>out. lex_all st = Some out \<and> out \<noteq> [] \<and> t_type (last out) = EOF_TOKEN
    \<and> (\<forall>t \<in> set (butlast out). t_type t \<noteq> EOF_TOKEN) \<and> indent_depth 0 (ret @ out) = Some 0
    \<and> visible (ret @ out) = vis @ visible (map r_token (lx_input st)) @ [r_token (lx_eof st)]"
  using assms
proof (induction st arbitrary: ret vis rule: lex_all.induct)
  case (1 st)
  obtain t st1 vis1 where n: "nextToken st = Some (t, st1)" and e: "lx_eof st1 = lx_eof st"
    and v: "vis @ visible (map r_token (lx_input st)) = vis1 @ visible (map r_token (lx_input st1))"
    and c: "t_type t \<noteq> EOF_TOKEN \<and> lx_ok (ret @ [t]) vis1 st1 \<and> (\<forall>r \<in> set (lx_input st1). source_token r)
     \<or> t_type t \<noteq> EOF_TOKEN \<and> lx_done (ret @ [t]) (vis1 @ [r_token (lx_eof st)]) st1
     \<or> t_type t = EOF_TOKEN \<and> indent_depth 0 (ret @ [t]) = Some 0 \<and> lx_input st1 = []
        \<and> visible (ret @ [t]) = vis1 @ [r_token (lx_eof st)]"
    using nextToken_ok [OF 1(2-4)] by (elim exE conjE) (rule that)
  have step: "lex_all st = (if t_type t = EOF_TOKEN then Some [t] else map_option ((#) t) (lex_all st1))"
    by (simp add: lex_all.simps [of st] n)
  have v': "vis @ visible (map r_token (lx_input st)) @ [x] = vis1 @ visible (map r_token (lx_input st1)) @ [x]" for x
    using v by (metis append.assoc)
  from c consider (a) "t_type t \<noteq> EOF_TOKEN" "lx_ok (ret @ [t]) vis1 st1" "\<forall>r \<in> set (lx_input st1). source_token r"
    | (b) "t_type t \<noteq> EOF_TOKEN" "lx_done (ret @ [t]) (vis1 @ [r_token (lx_eof st)]) st1"
    | (c) "t_type t = EOF_TOKEN" "indent_depth 0 (ret @ [t]) = Some 0" "lx_input st1 = []"
        "visible (ret @ [t]) = vis1 @ [r_token (lx_eof st)]" by blast
  then show ?case
  proof cases
    case a
    from 1(1) [OF n refl a(1) a(2,3)] 1(4) e
    obtain out where out: "lex_all st1 = Some out" "out \<noteq> []" "t_type (last out) = EOF_TOKEN"
      "\<forall>t \<in> set (butlast out). t_type t \<noteq> EOF_TOKEN" "indent_depth 0 ((ret @ [t]) @ out) = Some 0"
      "visible ((ret @ [t]) @ out) = vis1 @ visible (map r_token (lx_input st1)) @ [r_token (lx_eof st)]" by auto
    show ?thesis
      by (rule exI [of _ "t # out"]) (use out a(1) v' step in auto)
  next
    case b
    obtain out where out: "lex_all st1 = Some out" "out \<noteq> []" "t_type (last out) = EOF_TOKEN"
      "\<forall>t \<in> set (butlast out). t_type t \<noteq> EOF_TOKEN" "indent_depth 0 ((ret @ [t]) @ out) = Some 0"
      "visible ((ret @ [t]) @ out) = vis1 @ [r_token (lx_eof st)]"
      using lex_all_done [OF b(2)] by auto
    have i: "lx_input st1 = []" using b(2) by (simp add: lx_done_def)
    show ?thesis
      by (rule exI [of _ "t # out"]) (use out b(1) v' step i in auto)
  next
    case c
    then show ?thesis using step v' by (auto simp: layout_def)
  qed
qed

lemma new_lexer_ok: "lx_ok [] [] (new_lexer u c toks eof)"
  by (simp add: lx_ok_def new_lexer_def)

section \<open>Properties\<close>

text \<open>
  The token stream always ends: on every source the layer returns, after finitely many calls, a
  stream whose only end-of-file token is its last one, without popping an empty stack or queue on
  the way; and the stream is balanced, no DEDENT being without its INDENT nor the other way round.
\<close>

theorem lexing_ends_balanced:
  assumes "\<forall>r \<in> set toks. source_token r" "t_type (r_token eof) = EOF_TOKEN"
  shows "\<exists>out. lex_all (new_lexer u c toks eof) = Some out \<and> out \<noteq> [] \<and> t_type (last out) = EOF_TOKEN
    \<and> (\<forall>t \<in> set (butlast out). t_type t \<noteq> EOF_TOKEN) \<and> indent_depth 0 out = Some 0"
  using lex_all_ok [OF new_lexer_ok, of u c toks eof] assms by (auto simp: new_lexer_def)

text \<open>
  No token of the program is lost, repeated or moved: without the layout tokens (NEWLINE, INDENT
  and DEDENT) the stream is the one the generated lexer produces.
\<close>

theorem program_tokens_kept:
  assumes "\<forall>r \<in> set toks. source_token r" "t_type (r_token eof) = EOF_TOKEN"
  shows "map_option visible (lex_all (new_lexer u c toks eof))
    = Some (visible (map r_token toks) @ [r_token eof])"
  using lex_all_ok [OF new_lexer_ok, of u c toks eof] assms by (auto simp: new_lexer_def)

definition word_token :: "int \<Rightarrow> raw_token" where
  "word_token i = \<lparr>r_token = \<lparr>t_type = IDENTIFIER, t_start = i, t_stop = i, t_text = ''a'', t_line = 1, t_column = i\<rparr>,
     r_text = ''a'', r_ahead = [10], r_line = 1, r_column = i + 1\<rparr>"

definition layout_token :: "token_type \<Rightarrow> string \<Rightarrow> int \<Rightarrow> raw_token" where
  "layout_token ty x i = \<lparr>r_token = \<lparr>t_type = ty, t_start = i, t_stop = i, t_text = x, t_line = 1, t_column = i\<rparr>,
     r_text = x, r_ahead = (if ty = EOF_TOKEN then [] else [97]), r_line = 1, r_column = i + 1\<rparr>"

lemma lexing_ends_balanced_witness:
  "\<exists>out. lex_all (new_lexer NEWLINE 97 [word_token 0, layout_token COLON '':'' 1, layout_token NEWLINE [CHR 0x0A, CHR 0x20] 2,
       word_token 4] (layout_token EOF_TOKEN [] 5)) = Some out
     \<and> out \<noteq> [] \<and> t_type (last out) = EOF_TOKEN
     \<and> (\<forall>t \<in> set (butlast out). t_type t \<noteq> EOF_TOKEN) \<and> indent_depth 0 out = Some 0"
  by (rule lexing_ends_balanced) (simp_all add: source_token_def word_token_def layout_token_def)

lemma program_tokens_kept_witness:
  "map_option visible (lex_all (new_lexer NEWLINE 97 [word_token 0, layout_token NEWLINE [CHR 0x0A, CHR 0x20] 1, word_token 3]
     (layout_token EOF_TOKEN [] 4))) = Some [r_token (word_token 0), r_token (word_token 3), r_token (layout_token EOF_TOKEN [] 4)]"
  using program_tokens_kept [of "[word_token 0, layout_token NEWLINE [CHR 0x0A, CHR 0x20] 1, word_token 3]" "layout_token EOF_TOKEN [] 4" NEWLINE 97]
  by (simp add: source_token_def word_token_def layout_token_def layout_def)

lemmas lex_eval = lex_all.simps nextToken_def lex_token_def lex_newline_def newline_context_def emit_newline_def
  insertIndentDedentTokens_def getIndentationLength_def lex_colon_def lex_eof_def insertTrailingTokens_def
  checkSpaceAndTabIndentation_def insertToken_def insertToken_at_def push_token_def new_lexer_def
  insertLeadingTokens_def blank_ahead_def LA_def Let_def

text \<open>
  The NEWLINE that ends the last statement of a file without a final line break is decided from
  the last token returned, not from the last one queued.  After an INDENT or a DEDENT the queue lags
  behind, so the last statement of \<open>a:\n b\n c\<close> and of \<open>a:\n b\nc\<close> gets none, though the one of a file
  of one statement does.
\<close>

theorem final_newline_lost:
  "map_option (map t_type) (lex_all (new_lexer u 97 [word_token 0] (layout_token EOF_TOKEN [] 1)))
     = Some [IDENTIFIER, NEWLINE, EOF_TOKEN]
   \<and> map_option (map t_type) (lex_all (new_lexer u 97
      [word_token 0, layout_token COLON '':'' 1, layout_token NEWLINE [CHR 0x0A, CHR 0x20] 2, word_token 4,
       layout_token NEWLINE [CHR 0x0A, CHR 0x20] 5, word_token 7] (layout_token EOF_TOKEN [] 8)))
     = Some [IDENTIFIER, COLON, NEWLINE, INDENT, IDENTIFIER, NEWLINE, IDENTIFIER, DEDENT, EOF_TOKEN]
   \<and> map_option (map t_type) (lex_all (new_lexer u 97
      [word_token 0, layout_token COLON '':'' 1, layout_token NEWLINE [CHR 0x0A, CHR 0x20] 2, word_token 4,
       layout_token NEWLINE [CHR 0x0A] 5, word_token 6] (layout_token EOF_TOKEN [] 7)))
     = Some [IDENTIFIER, COLON, NEWLINE, INDENT, IDENTIFIER, NEWLINE, DEDENT, IDENTIFIER, EOF_TOKEN]"
  by (simp add: lex_eval word_token_def layout_token_def)

end
