(* ===== verification/Ieee_Double.thy ===== *)
theory Ieee_Double
  imports Value_Box "HOL-Library.Code_Target_Numeral"
begin

text \<open>
  The C++ \<open>double\<close> of the sources as its IEEE 754 bit pattern.  Every finite double is an integer
  multiple of \<open>2 ^ -1074\<close>, so its value is the integer \<open>dscaled\<close>; the arithmetic computes exactly on
  these and rounds to nearest, ties to even.  NaN results are the default quiet NaN, as the sources
  never look at a payload.
\<close>

type_synonym double = u64

section \<open>Values\<close>

definition d_bits :: "double \<Rightarrow> nat" where "d_bits x = unat x mod 2 ^ 63"
definition d_neg :: "double \<Rightarrow> bool" where "d_neg x \<longleftrightarrow> unat x \<ge> 2 ^ 63"
definition d_inf_bits :: nat where "d_inf_bits = 2047 * 2 ^ 52"
definition d_nan :: "double \<Rightarrow> bool" where "d_nan x \<longleftrightarrow> d_bits x > d_inf_bits"
definition d_inf :: "double \<Rightarrow> bool" where "d_inf x \<longleftrightarrow> d_bits x = d_inf_bits"

definition mag_scaled :: "nat \<Rightarrow> nat" where
  "mag_scaled b =
     (let e = b div 2 ^ 52; f = b mod 2 ^ 52 in if e = 0 then f else (2 ^ 52 + f) * 2 ^ (e - 1))"

definition dscaled :: "double \<Rightarrow> int" where
  "dscaled x = (if d_neg x then - int (mag_scaled (d_bits x)) else int (mag_scaled (d_bits x)))"

definition unit :: nat where "unit = 2 ^ 1074"

section \<open>Rounding\<close>

fun bit_length :: "nat \<Rightarrow> nat" where
  "bit_length n = (if n = 0 then 0 else Suc (bit_length (n div 2)))"

declare bit_length.simps [simp del]

definition round_half_even :: "nat \<Rightarrow> nat \<Rightarrow> nat" where
  "round_half_even n d =
     (let q = n div d; r = n mod d in if 2 * r > d \<or> 2 * r = d \<and> odd q then q + 1 else q)"

text \<open>The bits of the double nearest to \<open>n / d\<close> units.\<close>

definition round_bits :: "nat \<Rightarrow> nat \<Rightarrow> nat" where
  "round_bits n d =
     (let k = bit_length (n div d) - 53 in min d_inf_bits (k * 2 ^ 52 + round_half_even n (d * 2 ^ k)))"

definition with_sign :: "bool \<Rightarrow> nat \<Rightarrow> double" where
  "with_sign s b = word_of_nat (if s then 2 ^ 63 + b else b)"

definition dnan :: double where "dnan = with_sign False (d_inf_bits + 2 ^ 51)"

definition round_signed :: "bool \<Rightarrow> nat \<Rightarrow> nat \<Rightarrow> double" where
  "round_signed s n d = with_sign s (round_bits n d)"

section \<open>Operations\<close>

definition double_of_int :: "int \<Rightarrow> double" where
  "double_of_int i = round_signed (i < 0) (nat \<bar>i\<bar> * unit) 1"

text \<open>\<open>static_cast\<close> to an integer truncates; outside \<open>lo .. hi\<close> it is undefined.\<close>

definition double_to_int :: "int \<Rightarrow> int \<Rightarrow> double \<Rightarrow> int option" where
  "double_to_int lo hi x =
     (let m = nat \<bar>dscaled x\<bar> div unit; i = (if d_neg x then - int m else int m) in
      if d_nan x \<or> d_inf x \<or> i < lo \<or> i > hi then None else Some i)"

definition dneg :: "double \<Rightarrow> double" where "dneg x = word_of_nat ((unat x + 2 ^ 63) mod 2 ^ 64)"

definition dadd :: "double \<Rightarrow> double \<Rightarrow> double" where
  "dadd x y =
     (if d_nan x \<or> d_nan y then dnan
      else if d_inf x then (if d_inf y \<and> d_neg x \<noteq> d_neg y then dnan else x)
      else if d_inf y then y
      else let s = dscaled x + dscaled y in
           if s = 0 then with_sign (d_neg x \<and> d_neg y) 0 else round_signed (s < 0) (nat \<bar>s\<bar>) 1)"

definition dsub :: "double \<Rightarrow> double \<Rightarrow> double" where "dsub x y = dadd x (dneg y)"

definition dmul :: "double \<Rightarrow> double \<Rightarrow> double" where
  "dmul x y =
     (let s = (d_neg x \<noteq> d_neg y) in
      if d_nan x \<or> d_nan y then dnan
      else if d_inf x \<or> d_inf y then
        (if dscaled x = 0 \<or> dscaled y = 0 then dnan else with_sign s d_inf_bits)
      else round_signed s (nat \<bar>dscaled x\<bar> * nat \<bar>dscaled y\<bar>) unit)"

definition ddiv :: "double \<Rightarrow> double \<Rightarrow> double" where
  "ddiv x y =
     (let s = (d_neg x \<noteq> d_neg y) in
      if d_nan x \<or> d_nan y then dnan
      else if d_inf x then (if d_inf y then dnan else with_sign s d_inf_bits)
      else if d_inf y then with_sign s 0
      else if dscaled y = 0 then (if dscaled x = 0 then dnan else with_sign s d_inf_bits)
      else round_signed s (nat \<bar>dscaled x\<bar> * unit) (nat \<bar>dscaled y\<bar>))"

definition dlt :: "double \<Rightarrow> double \<Rightarrow> bool" where
  "dlt x y \<longleftrightarrow> \<not> d_nan x \<and> \<not> d_nan y \<and> dscaled x < dscaled y"
definition dle :: "double \<Rightarrow> double \<Rightarrow> bool" where
  "dle x y \<longleftrightarrow> \<not> d_nan x \<and> \<not> d_nan y \<and> dscaled x \<le> dscaled y"
definition deq :: "double \<Rightarrow> double \<Rightarrow> bool" where
  "deq x y \<longleftrightarrow> \<not> d_nan x \<and> \<not> d_nan y \<and> dscaled x = dscaled y"

section \<open>Exact conversions\<close>

lemma bit_length_le: "n < 2 ^ k \<Longrightarrow> bit_length n \<le> k"
proof (induction n arbitrary: k rule: bit_length.induct)
  case (1 n)
  show ?case
  proof (cases "n = 0")
    case False
    then obtain j where k: "k = Suc j" using 1(2) by (cases k) auto
    then have "n div 2 < 2 ^ j" using 1(2) by (simp add: less_mult_imp_div_less mult.commute)
    then show ?thesis using 1(1) [of j] False by (simp add: bit_length.simps [of n] k)
  qed (simp add: bit_length.simps)
qed

lemma bit_length_bounds:
  assumes "n > 0"
  shows "2 ^ (bit_length n - 1) \<le> n \<and> n < 2 ^ bit_length n"
  using assms
proof (induction n rule: bit_length.induct)
  case (1 n)
  show ?case
  proof (cases "n div 2 = 0")
    case True
    then have "n = 1" using 1(2) by auto
    then show ?thesis by (simp add: bit_length.simps)
  next
    case False
    then have "2 ^ (bit_length (n div 2) - 1) \<le> n div 2 \<and> n div 2 < 2 ^ bit_length (n div 2)"
      using 1 by auto
    moreover have "bit_length (n div 2) > 0" using False by (simp add: bit_length.simps [of "n div 2"])
    then have "(2::nat) ^ bit_length (n div 2) = 2 * 2 ^ (bit_length (n div 2) - 1)"
      by (cases "bit_length (n div 2)") auto
    ultimately show ?thesis using 1(2) by (simp add: bit_length.simps [of n]) linarith
  qed
qed

lemma bit_length_shift:
  assumes "n > 0" shows "bit_length (n * 2 ^ j) = bit_length n + j"
  using assms by (induction j) (simp_all add: bit_length.simps [of "n * _"] bit_length.simps [of "_ * n"] field_simps)

lemma mag_scaled_bits:
  assumes "q < 2 ^ 53" "k = 0 \<or> 2 ^ 52 \<le> q"
  shows "mag_scaled (k * 2 ^ 52 + q) = q * 2 ^ k"
proof (cases "q < 2 ^ 52")
  case True
  then show ?thesis using assms by (simp add: mag_scaled_def)
next
  case False
  then obtain f where q: "q = 2 ^ 52 + f" using le_Suc_ex [of "2 ^ 52" q] by auto
  have f: "f < 2 ^ 52" using assms(1) by (simp add: q)
  have "(k * 2 ^ 52 + q) div 2 ^ 52 = k + 1" "(k * 2 ^ 52 + q) mod 2 ^ 52 = f"
    using f by (simp_all add: q)
  then show ?thesis by (simp add: mag_scaled_def q)
qed

text \<open>A value with at most 53 significant bits is not changed by rounding.\<close>

lemma round_bits_exact:
  assumes "n = q * 2 ^ k" "q < 2 ^ 53" "n < 2 ^ 2098" "k = bit_length n - 53"
  shows "mag_scaled (round_bits n 1) = n \<and> round_bits n 1 < d_inf_bits"
proof (cases "n = 0")
  case True
  then show ?thesis by (simp add: round_bits_def round_half_even_def mag_scaled_def d_inf_bits_def bit_length.simps)
next
  case False
  have len: "bit_length n \<le> 2098" by (rule bit_length_le [OF assms(3)])
  have k: "k \<le> 2045" using len assms(4) by simp
  have big: "k = 0 \<or> 2 ^ 52 \<le> q"
  proof (cases "k = 0")
    case False
    then have "bit_length n = k + 53" using assms(4) by simp
    then have "2 ^ (k + 52) \<le> n" using bit_length_bounds [of n] \<open>n \<noteq> 0\<close> by (simp add: add.commute)
    then have "2 ^ (k + 52) \<le> q * 2 ^ k" by (simp only: assms(1))
    then have "2 ^ 52 * 2 ^ k \<le> q * 2 ^ k" by (simp only: power_add mult.commute)
    then show ?thesis by simp
  qed simp
  have r: "round_half_even n (1 * 2 ^ k) = q" by (simp add: round_half_even_def assms(1))
  have "k * 2 ^ 52 + q < d_inf_bits" using k assms(2) by (simp add: d_inf_bits_def)
  then have b: "round_bits n 1 = k * 2 ^ 52 + q" using r assms(4) by (simp add: round_bits_def)
  show ?thesis unfolding b using mag_scaled_bits [OF assms(2) big] assms(1) \<open>k * 2 ^ 52 + q < d_inf_bits\<close> by simp
qed

lemma unat_with_sign: "b \<le> d_inf_bits \<Longrightarrow> unat (with_sign s b) = (if s then 2 ^ 63 + b else b)"
  by (simp add: with_sign_def unat_of_nat d_inf_bits_def)

lemma d_bits_with_sign: "b \<le> d_inf_bits \<Longrightarrow> d_bits (with_sign s b) = b"
  by (simp add: d_bits_def unat_with_sign d_inf_bits_def)

lemma d_neg_with_sign: "b \<le> d_inf_bits \<Longrightarrow> d_neg (with_sign s b) = s"
  by (simp add: d_neg_def unat_with_sign d_inf_bits_def)

lemma dscaled_with_sign:
  "b \<le> d_inf_bits \<Longrightarrow> dscaled (with_sign s b) = (if s then - int (mag_scaled b) else int (mag_scaled b))"
  by (simp add: dscaled_def d_bits_with_sign d_neg_with_sign)

lemma round_bits_le: "round_bits n d \<le> d_inf_bits"
  by (simp add: round_bits_def Let_def)

lemma round_not_nan: "\<not> d_nan (round_signed s n d)"
  using round_bits_le [of n d] by (simp add: d_nan_def round_signed_def d_bits_with_sign)

lemma double_of_int_exact:
  assumes "\<bar>i\<bar> \<le> 2 ^ 53"
  shows "dscaled (double_of_int i) = i * int unit \<and> \<not> d_nan (double_of_int i) \<and> \<not> d_inf (double_of_int i)"
proof -
  obtain m where m: "m = nat \<bar>i\<bar>" by simp
  have m53: "m \<le> 2 ^ 53" using assms m by simp
  obtain n where n: "n = m * unit" by simp
  obtain k where k: "k = bit_length n - 53" by simp
  have "\<exists>q. n = q * 2 ^ k \<and> q < 2 ^ 53"
  proof (cases "m = 0 \<or> m = 2 ^ 53")
    case True
    then show ?thesis
    proof
      assume "m = 2 ^ 53"
      then have n': "n = 1 * 2 ^ (53 + 1074)" by (simp only: n unit_def power_add mult_1)
      have "bit_length (1 * 2 ^ (53 + 1074)) = bit_length 1 + (53 + 1074)" by (rule bit_length_shift) simp
      moreover have "bit_length 1 = 1" by (simp add: bit_length.simps)
      ultimately have k': "k = 1075" unfolding k n' by presburger
      have "n = 2 ^ 52 * 2 ^ k" unfolding n' k' power_add [symmetric] mult_1 by simp
      then show ?thesis by (intro exI [of _ "2 ^ 52"]) simp
    next
      assume "m = 0"
      then show ?thesis by (intro exI [of _ 0]) (simp add: n)
    qed
  next
    case False
    then have "m < 2 ^ 53" "m > 0" using m53 by simp_all
    then have len: "bit_length m \<le> 53" "bit_length n = bit_length m + 1074"
      using bit_length_le [of m 53] bit_length_shift [of m 1074] unfolding n unit_def by simp_all
    then have k': "k + (53 - bit_length m) = 1074" by (simp add: k)
    have "unit = 2 ^ (53 - bit_length m) * 2 ^ k" unfolding unit_def power_add [symmetric] using k' by (simp only: add.commute)
    then have "n = (m * 2 ^ (53 - bit_length m)) * 2 ^ k" by (simp add: n)
    moreover have "m * 2 ^ (53 - bit_length m) < 2 ^ bit_length m * 2 ^ (53 - bit_length m)"
      using bit_length_bounds [OF \<open>m > 0\<close>] by simp
    then have "m * 2 ^ (53 - bit_length m) < 2 ^ 53" using len(1) by (simp add: power_add [symmetric])
    ultimately show ?thesis by blast
  qed
  then obtain q where q: "n = q * 2 ^ k" "q < 2 ^ 53" by auto
  have "n < 2 ^ 2098"
  proof -
    have "n \<le> 2 ^ 53 * 2 ^ 1074" unfolding n unit_def using m53 by (rule mult_right_mono) simp
    also have "\<dots> = 2 ^ 1127" by (simp only: power_add [symmetric]) simp
    also have "\<dots> < 2 ^ 2098" by (rule power_strict_increasing) simp_all
    finally show ?thesis .
  qed
  from round_bits_exact [OF q this k] have r: "mag_scaled (round_bits n 1) = n" "round_bits n 1 < d_inf_bits" by auto
  have d: "double_of_int i = with_sign (i < 0) (round_bits n 1)" by (simp add: double_of_int_def round_signed_def m n)
  have "int n = \<bar>i\<bar> * int unit" by (simp add: n m)
  then show ?thesis using r
    by (auto simp: d dscaled_with_sign d_nan_def d_inf_def d_bits_with_sign abs_if)
qed

lemma dscaled_zero: "dscaled 0 = 0"
  by (simp add: dscaled_def d_neg_def d_bits_def mag_scaled_def)

lemma d_nan_zero: "\<not> d_nan 0"
  by (simp add: d_nan_def d_bits_def d_inf_bits_def)

text \<open>Rounding does not lose a whole unit.\<close>

lemma round_bits_pos:
  assumes "n > 0" shows "mag_scaled (round_bits n 1) > 0"
proof -
  obtain k where k: "k = bit_length n - 53" by simp
  have q: "round_half_even n (2 ^ k) \<ge> n div 2 ^ k" by (simp add: round_half_even_def Let_def)
  have "n div 2 ^ k > 0"
  proof (cases "k = 0")
    case False
    then have "2 ^ k \<le> (2::nat) ^ (bit_length n - 1)" using k by (intro power_increasing) simp_all
    also have "\<dots> \<le> n" using bit_length_bounds [OF assms] by simp
    finally show ?thesis by (simp add: div_greater_zero_iff)
  qed (use assms in simp)
  then have "round_bits n 1 > 0" using q by (simp add: round_bits_def k [symmetric] d_inf_bits_def)
  then show ?thesis
  proof (cases "round_bits n 1 div 2 ^ 52 = 0")
    case True
    then show ?thesis using \<open>round_bits n 1 > 0\<close> unfolding mag_scaled_def Let_def by (simp add: div_eq_0_iff)
  next
    case False
    then show ?thesis unfolding mag_scaled_def Let_def by simp
  qed
qed

lemma round_half_even_scale:
  assumes "c > 0" shows "round_half_even (m * c) (d * c) = round_half_even m d"
  using assms by (simp add: round_half_even_def Let_def mult.assoc [symmetric])

text \<open>A large int is rounded to its 53 leading bits.\<close>

lemma round_bits_int:
  assumes "bit_length m \<ge> 53"
  shows "round_bits (m * unit) 1 =
    min d_inf_bits ((bit_length m + 1021) * 2 ^ 52 + round_half_even m (2 ^ (bit_length m - 53)))"
proof -
  have "m > 0" using assms by (cases m) (simp_all add: bit_length.simps)
  then have l: "bit_length (m * unit) = bit_length m + 1074" unfolding unit_def by (rule bit_length_shift)
  obtain j where j: "bit_length m = j + 53" using assms by (metis le_add_diff_inverse2)
  have "round_half_even (m * unit) (2 ^ j * unit) = round_half_even m (2 ^ j)"
    by (rule round_half_even_scale) (simp add: unit_def)
  moreover have "2 ^ (j + 1074) = 2 ^ j * unit" unfolding unit_def by (simp only: power_add)
  ultimately show ?thesis by (simp add: round_bits_def Let_def l j add.commute)
qed

end
