(* ===== verification/Scalar_Ops.thy ===== *)
theory Scalar_Ops
  imports Ieee_Double "HOL-Library.Signed_Division"
begin

text \<open>
  The operators of \<open>compiler/Value.cpp\<close> on scalar operands: conversions between the scalar types,
  arithmetic, bitwise operators, comparison and equality, with the fast paths the interpreter puts
  ahead of them.  An int is held inline when it fits 32 bits and in a heap object otherwise, as
  \<open>Value::intVal\<close> decides, so \<open>isInt\<close> (which reads the tag of the word) differs from the int type.
  A C++ exception is \<open>Throws\<close>, undefined behaviour is \<open>Undef\<close>.
\<close>

type_synonym i64 = "64 word"

section \<open>Values and outcomes\<close>

datatype scalar =
  SNil | SBool bool | SByte byte | SInt i64 | SReal double | SEnum u16 u16 | SType value_type

datatype op_error = Invalid_Argument | Overflow_Error | Zero_Division | Runtime_Error

datatype 'a outcome = Done 'a | Throws op_error | Undef

definition out_then :: "'a outcome \<Rightarrow> ('a \<Rightarrow> 'b outcome) \<Rightarrow> 'b outcome" where
  "out_then r f = (case r of Done a \<Rightarrow> f a | Throws e \<Rightarrow> Throws e | Undef \<Rightarrow> Undef)"

lemma out_then_simps [simp]:
  "out_then (Done a) f = f a" "out_then (Throws e) f = Throws e" "out_then Undef f = Undef"
  by (simp_all add: out_then_def)

lemma out_then_Done: "out_then r f = Done b \<longleftrightarrow> (\<exists>a. r = Done a \<and> f a = Done b)"
  by (cases r) simp_all

fun scalar_type :: "scalar \<Rightarrow> value_type" where
  "scalar_type SNil = VNil"
| "scalar_type (SBool b) = VBool"
| "scalar_type (SByte b) = VByte"
| "scalar_type (SInt i) = VInt"
| "scalar_type (SReal d) = VReal"
| "scalar_type (SEnum l t) = VEnum"
| "scalar_type (SType t) = VType"

definition isNumber :: "scalar \<Rightarrow> bool" where
  "isNumber v \<longleftrightarrow> (let t = scalar_type v in t = VInt \<or> t = VReal \<or> t = VByte)"

definition isInlineInt :: "scalar \<Rightarrow> bool" where
  "isInlineInt v \<longleftrightarrow> (case v of SInt i \<Rightarrow> fitsInInt32 (sint i) | _ \<Rightarrow> False)"

section \<open>Conversions\<close>

definition asBool :: "bool \<Rightarrow> scalar \<Rightarrow> bool outcome" where
  "asBool strict v =
     (case v of
        SNil \<Rightarrow> Throws Invalid_Argument
      | SBool b \<Rightarrow> Done b
      | SByte b \<Rightarrow> if strict then Throws Invalid_Argument else Done (b \<noteq> 0)
      | SInt i \<Rightarrow> if strict then Throws Invalid_Argument else Done (i \<noteq> 0)
      | SReal d \<Rightarrow> if strict then Throws Invalid_Argument else Done (\<not> deq d 0)
      | _ \<Rightarrow> Done False)"

definition asByteVal :: "bool \<Rightarrow> scalar \<Rightarrow> byte outcome" where
  "asByteVal strict v =
     (case v of
        SNil \<Rightarrow> Throws Invalid_Argument
      | SByte b \<Rightarrow> Done b
      | SInt i \<Rightarrow> if strict then Throws Invalid_Argument else Done (ucast i)
      | SReal d \<Rightarrow>
          if strict then Throws Invalid_Argument
          else (case double_to_int (- (2 ^ 31)) (2 ^ 31 - 1) d of None \<Rightarrow> Undef | Some i \<Rightarrow> Done (word_of_int i))
      | SBool b \<Rightarrow> Done (if b then 1 else 0)
      | _ \<Rightarrow> if strict then Throws Invalid_Argument else Done 0)"

definition asInt :: "bool \<Rightarrow> scalar \<Rightarrow> i64 outcome" where
  "asInt strict v =
     (case v of
        SNil \<Rightarrow> Throws Invalid_Argument
      | SEnum l t \<Rightarrow> Done (scast l)
      | SByte b \<Rightarrow> Done (ucast b)
      | SInt i \<Rightarrow> Done i
      | SReal d \<Rightarrow>
          if strict then Throws Invalid_Argument
          else (case double_to_int (- (2 ^ 63)) (2 ^ 63 - 1) d of None \<Rightarrow> Undef | Some i \<Rightarrow> Done (word_of_int i))
      | SBool b \<Rightarrow> Done (if b then 1 else 0)
      | SType t \<Rightarrow> if strict then Throws Invalid_Argument else Done 0)"

definition asReal :: "bool \<Rightarrow> scalar \<Rightarrow> double outcome" where
  "asReal strict v =
     (case v of
        SNil \<Rightarrow> Throws Invalid_Argument
      | SReal d \<Rightarrow> Done d
      | SInt i \<Rightarrow> Done (double_of_int (sint i))
      | SByte b \<Rightarrow> Done (double_of_int (uint b))
      | SBool b \<Rightarrow> Done (if b then double_of_int 1 else 0)
      | _ \<Rightarrow> if strict then Throws Invalid_Argument else Done 0)"

definition isFalsey :: "scalar \<Rightarrow> bool" where "isFalsey v \<longleftrightarrow> v = SNil \<or> v = SBool False"
definition isTruthy :: "scalar \<Rightarrow> bool" where "isTruthy v \<longleftrightarrow> v = SBool True"

definition map_out :: "('a \<Rightarrow> 'b) \<Rightarrow> 'a outcome \<Rightarrow> 'b outcome" where
  "map_out f r = out_then r (\<lambda>a. Done (f a))"

text \<open>
  \<open>toType\<close> of a scalar to one of the types with a scalar conversion; strings and ranges, which it
  builds as objects, are not targets here.
\<close>

datatype target = To_Bool | To_Byte | To_Int | To_Real

fun target_type :: "target \<Rightarrow> value_type" where
  "target_type To_Bool = VBool"
| "target_type To_Byte = VByte"
| "target_type To_Int = VInt"
| "target_type To_Real = VReal"

definition toType :: "target \<Rightarrow> scalar \<Rightarrow> bool \<Rightarrow> scalar outcome" where
  "toType t v strict =
     (if v = SNil then (if isNilAcceptableTargetType (target_type t) then Done v else Throws Invalid_Argument)
      else if scalar_type v = target_type t then Done v
      else (case t of
          To_Bool \<Rightarrow> map_out SBool (asBool strict v)
        | To_Byte \<Rightarrow> map_out SByte (asByteVal strict v)
        | To_Real \<Rightarrow> map_out SReal (asReal strict v)
        | To_Int \<Rightarrow> map_out SInt (asInt strict v)))"

section \<open>Arithmetic\<close>

definition binaryOpType :: "value_type \<Rightarrow> value_type \<Rightarrow> value_type" where
  "binaryOpType lt rt =
     (if lt = VBool \<and> rt = VBool then VBool
      else if lt = VDecimal \<or> rt = VDecimal then VDecimal
      else if lt = VReal \<or> rt = VReal then VReal
      else VInt)"

text \<open>\<open>__builtin_add_overflow\<close> and its kin: the exact result when it fits 64 bits.\<close>

definition fits64 :: "int \<Rightarrow> bool" where "fits64 i \<longleftrightarrow> - (2 ^ 63) \<le> i \<and> i < 2 ^ 63"

definition checked :: "int \<Rightarrow> scalar outcome" where
  "checked i = (if fits64 i then Done (SInt (word_of_int i)) else Throws Overflow_Error)"

definition negate :: "scalar \<Rightarrow> scalar outcome" where
  "negate v =
     (case v of
        SBool b \<Rightarrow> Done (SBool (\<not> b))
      | SReal d \<Rightarrow> Done (SReal (dneg d))
      | _ \<Rightarrow>
          if isInlineInt v \<or> scalar_type v = VByte then out_then (asInt True v) (\<lambda>i. checked (0 - sint i))
          else Throws Invalid_Argument)"

text \<open>The arm of the result type; the arm for byte cannot be reached, as two bytes give an int.\<close>

definition by_result_type ::
  "(int \<Rightarrow> int \<Rightarrow> 'a outcome) \<Rightarrow> (double \<Rightarrow> double \<Rightarrow> 'a) \<Rightarrow> 'a outcome \<Rightarrow> scalar \<Rightarrow> scalar \<Rightarrow> 'a outcome" where
  "by_result_type fi fr dflt l r =
     (case binaryOpType (scalar_type l) (scalar_type r) of
        VInt \<Rightarrow> out_then (asInt True l) (\<lambda>x. out_then (asInt True r) (\<lambda>y. fi (sint x) (sint y)))
      | VReal \<Rightarrow> out_then (asReal True l) (\<lambda>x. out_then (asReal True r) (\<lambda>y. Done (fr x y)))
      | _ \<Rightarrow> dflt)"

definition need_numbers :: "scalar \<Rightarrow> scalar \<Rightarrow> 'a outcome \<Rightarrow> 'a outcome" where
  "need_numbers l r k = (if \<not> isNumber l \<or> \<not> isNumber r then Throws Invalid_Argument else k)"

definition add :: "scalar \<Rightarrow> scalar \<Rightarrow> scalar outcome" where
  "add l r =
     (if isNumber l \<and> isNumber r
      then by_result_type (\<lambda>x y. checked (x + y)) (\<lambda>x y. SReal (dadd x y)) (Throws Invalid_Argument) l r
      else Throws Invalid_Argument)"

definition subtract :: "scalar \<Rightarrow> scalar \<Rightarrow> scalar outcome" where
  "subtract l r = need_numbers l r
     (by_result_type (\<lambda>x y. checked (x - y)) (\<lambda>x y. SReal (dsub x y)) (Done SNil) l r)"

definition multiply :: "scalar \<Rightarrow> scalar \<Rightarrow> scalar outcome" where
  "multiply l r = need_numbers l r
     (by_result_type (\<lambda>x y. checked (x * y)) (\<lambda>x y. SReal (dmul x y)) (Done SNil) l r)"

definition int_div :: "int \<Rightarrow> int \<Rightarrow> scalar outcome" where
  "int_div x y =
     (if x = - (2 ^ 63) \<and> y = -1 then Throws Overflow_Error else Done (SInt (word_of_int (x sdiv y))))"

definition divide :: "scalar \<Rightarrow> scalar \<Rightarrow> scalar outcome" where
  "divide l r = need_numbers l r
     (out_then (toType To_Real r False) (\<lambda>v. out_then (asReal True v) (\<lambda>d.
        if deq d 0 then Throws Zero_Division
        else by_result_type int_div (\<lambda>x y. SReal (ddiv x y)) (Done SNil) l r)))"

text \<open>C++ \<open>%\<close> on \<open>int64_t\<close>: undefined when the quotient is not representable.\<close>

definition int_rem :: "int \<Rightarrow> int \<Rightarrow> scalar outcome" where
  "int_rem x y = (if x = - (2 ^ 63) \<and> y = -1 then Undef else Done (SInt (word_of_int (x smod y))))"

definition integral :: "scalar \<Rightarrow> bool" where
  "integral v \<longleftrightarrow> isNumber v \<or> scalar_type v = VBool"

definition as_int :: "scalar \<Rightarrow> int outcome" where
  "as_int v = out_then (toType To_Int v False) (\<lambda>w. map_out sint (asInt True w))"

definition modulo_op :: "scalar \<Rightarrow> scalar \<Rightarrow> scalar outcome" where
  "modulo_op l r =
     (if \<not> integral l \<or> \<not> integral r then Throws Invalid_Argument
      else out_then (as_int l) (\<lambda>x. out_then (as_int r) (\<lambda>y.
        if y = 0 then Throws Zero_Division else int_rem x y)))"

section \<open>Bitwise operators\<close>

definition bit_operand :: "scalar \<Rightarrow> bool" where
  "bit_operand v \<longleftrightarrow> scalar_type v \<in> {VBool, VByte, VInt}"

definition bitwise ::
  "(bool \<Rightarrow> bool \<Rightarrow> bool) \<Rightarrow> (byte \<Rightarrow> byte \<Rightarrow> byte) \<Rightarrow> (i64 \<Rightarrow> i64 \<Rightarrow> i64) \<Rightarrow> scalar \<Rightarrow> scalar \<Rightarrow> scalar outcome" where
  "bitwise fb fy fi l r =
     (if bit_operand l \<and> bit_operand r then
        (case (l, r) of
           (SBool a, SBool b) \<Rightarrow> Done (SBool (fb a b))
         | (SByte a, SByte b) \<Rightarrow> Done (SByte (fy a b))
         | _ \<Rightarrow> out_then (as_int l) (\<lambda>x. out_then (as_int r) (\<lambda>y.
             Done (SInt (fi (word_of_int x) (word_of_int y))))))
      else Throws Invalid_Argument)"

definition band :: "scalar \<Rightarrow> scalar \<Rightarrow> scalar outcome" where "band = bitwise (\<and>) (AND) (AND)"
definition bor :: "scalar \<Rightarrow> scalar \<Rightarrow> scalar outcome" where "bor = bitwise (\<or>) (OR) (OR)"
definition bxor :: "scalar \<Rightarrow> scalar \<Rightarrow> scalar outcome" where "bxor = bitwise (\<noteq>) (XOR) (XOR)"

definition bnot :: "scalar \<Rightarrow> scalar outcome" where
  "bnot v =
     (case v of
        SBool b \<Rightarrow> Done (SBool (\<not> b))
      | SByte b \<Rightarrow> Done (SByte (NOT b))
      | SInt i \<Rightarrow> Done (SInt (NOT i))
      | _ \<Rightarrow> Throws Invalid_Argument)"

definition land :: "scalar \<Rightarrow> scalar \<Rightarrow> scalar outcome" where
  "land l r = (case (l, r) of (SBool a, SBool b) \<Rightarrow> Done (SBool (a \<and> b)) | _ \<Rightarrow> Throws Invalid_Argument)"
definition lor :: "scalar \<Rightarrow> scalar \<Rightarrow> scalar outcome" where
  "lor l r = (case (l, r) of (SBool a, SBool b) \<Rightarrow> Done (SBool (a \<or> b)) | _ \<Rightarrow> Throws Invalid_Argument)"

section \<open>Comparison and equality\<close>

text \<open>Operands of a comparison: scalars, strings, and objects compared by identity.\<close>

datatype operand = Sc scalar | Str ustring | Ref nat

definition compare_op ::
  "(int \<Rightarrow> int \<Rightarrow> bool) \<Rightarrow> (double \<Rightarrow> double \<Rightarrow> bool) \<Rightarrow> (ustring \<Rightarrow> ustring \<Rightarrow> bool) \<Rightarrow> operand \<Rightarrow> operand \<Rightarrow> bool outcome" where
  "compare_op ci cr cs l r =
     (case (l, r) of
        (Sc a, Sc b) \<Rightarrow>
          if isNumber a \<and> isNumber b then by_result_type (\<lambda>x y. Done (ci x y)) cr (Done False) a b
          else Throws Invalid_Argument
      | (Str a, Str b) \<Rightarrow> Done (cs a b)
      | _ \<Rightarrow> Throws Invalid_Argument)"

definition str_greater :: "ustring \<Rightarrow> ustring \<Rightarrow> bool" where
  "str_greater a b = (if ustring_hashCode a = ustring_hashCode b then False else compareCodePointOrder a b > 0)"
definition str_less :: "ustring \<Rightarrow> ustring \<Rightarrow> bool" where
  "str_less a b = (if ustring_hashCode a = ustring_hashCode b then False else compareCodePointOrder a b < 0)"

definition greater :: "operand \<Rightarrow> operand \<Rightarrow> bool outcome" where
  "greater = compare_op (>) (\<lambda>x y. dlt y x) str_greater"
definition less :: "operand \<Rightarrow> operand \<Rightarrow> bool outcome" where
  "less = compare_op (<) dlt str_less"
definition greaterEqual :: "operand \<Rightarrow> operand \<Rightarrow> bool outcome" where
  "greaterEqual = compare_op (\<ge>) (\<lambda>x y. dle y x) (\<lambda>a b. compareCodePointOrder a b \<ge> 0)"
definition lessEqual :: "operand \<Rightarrow> operand \<Rightarrow> bool outcome" where
  "lessEqual = compare_op (\<le>) dle (\<lambda>a b. compareCodePointOrder a b \<le> 0)"

definition equals :: "operand \<Rightarrow> operand \<Rightarrow> bool" where
  "equals l r =
     (case (l, r) of
        (Sc a, Sc b) \<Rightarrow>
          (if a = SNil then b = SNil
           else if b = SNil then a = SNil
           else (case (a, b) of
               (SBool x, _) \<Rightarrow> b = SBool x
             | (SInt x, SInt y) \<Rightarrow> x = y
             | (SReal x, SReal y) \<Rightarrow> deq x y
             | (SType x, _) \<Rightarrow> b = SType x
             | (SEnum x t, _) \<Rightarrow> b = SEnum x t
             | _ \<Rightarrow>
                 if isNumber a \<and> isNumber b
                 then by_result_type (\<lambda>x y. Done (x = y)) deq (Throws Runtime_Error) a b = Done True
                 else False))
      | (Str a, Str b) \<Rightarrow> a = b
      | (Ref a, Ref b) \<Rightarrow> a = b
      | _ \<Rightarrow> False)"

section \<open>Lemmas\<close>

lemmas conv_defs = toType_def asBool_def asByteVal_def asInt_def asReal_def map_out_def
lemmas op_defs = add_def subtract_def multiply_def divide_def modulo_op_def need_numbers_def by_result_type_def
  binaryOpType_def isNumber_def integral_def as_int_def conv_defs

lemma sint_bounds: "- (2 ^ 63) \<le> sint (x :: i64)" "sint (x :: i64) < 2 ^ 63"
  using sint_greater_eq [of x] sint_less [of x] by simp_all

lemma fits64_sint [simp]: "fits64 (sint (x :: i64))"
  using sint_bounds [of x] by (simp add: fits64_def)

lemma sint_of_fits64: "fits64 i \<Longrightarrow> sint (word_of_int i :: i64) = i"
  by (simp add: fits64_def sint_sbintrunc' signed_take_bit_int_eq_self)

text \<open>The int operators: exact, or an overflow error exactly when the result does not fit.\<close>

definition exact_or_overflow :: "scalar outcome \<Rightarrow> int \<Rightarrow> bool" where
  "exact_or_overflow r i \<longleftrightarrow>
     (\<exists>w. r = Done (SInt w) \<and> sint w = i) \<or> r = Throws Overflow_Error \<and> \<not> fits64 i"

lemma checked_exact: "exact_or_overflow (checked i) i"
  by (simp add: exact_or_overflow_def checked_def sint_of_fits64)

lemma deq_zero_int: "deq (double_of_int i) 0 \<longleftrightarrow> i = 0"
proof
  assume e: "deq (double_of_int i) 0"
  show "i = 0"
  proof (rule ccontr)
    assume "i \<noteq> 0"
    obtain n where n: "n = nat \<bar>i\<bar> * unit" by simp
    have "n \<noteq> 0" using \<open>i \<noteq> 0\<close> by (simp add: n unit_def)
    have "mag_scaled (round_bits n 1) > 0" by (rule round_bits_pos) (use \<open>n \<noteq> 0\<close> in simp)
    then show False using e
      by (simp add: deq_def double_of_int_def round_signed_def n [symmetric] dscaled_with_sign round_bits_le dscaled_zero split: if_splits)
  qed
next
  assume "i = 0"
  then show "deq (double_of_int i) 0"
    using double_of_int_exact [of 0] by (simp add: deq_def dscaled_zero d_nan_zero)
qed

lemma sdiv_fits:
  assumes "b \<noteq> 0" "\<not> (sint (x :: i64) = - (2 ^ 63) \<and> b = -1)"
  shows "fits64 (sint x sdiv b)"
proof -
  have r: "- \<bar>sint x\<bar> \<le> sint x sdiv b" "sint x sdiv b \<le> \<bar>sint x\<bar>" using sdiv_int_range [of "sint x" b] by simp_all
  have "sint x sdiv b \<noteq> 2 ^ 63"
  proof
    assume e: "sint x sdiv b = 2 ^ 63"
    then have m: "sint x = - (2 ^ 63)" using r(2) sint_bounds [of x] by (simp add: abs_if split: if_splits)
    then have "sint x sdiv b = - sint x" using e by simp
    then have "b = -1" using m int_sdiv_negated_is_minus1 [of "sint x" b] by simp
    then show False using m assms(2) by simp
  qed
  then show ?thesis using r sint_bounds [of x] by (simp add: fits64_def abs_if split: if_splits)
qed

lemma smod_fits: "b \<noteq> 0 \<Longrightarrow> fits64 b \<Longrightarrow> fits64 (a smod b)"
  using smod_int_range [of b a] by (auto simp: fits64_def)

lemma divide_int:
  "divide (SInt x) (SInt y) =
     (if sint y = 0 then Throws Zero_Division else int_div (sint x) (sint y))"
  by (simp add: op_defs deq_zero_int)

lemma modulo_int:
  "modulo_op (SInt x) (SInt y) =
     (if sint y = 0 then Throws Zero_Division else int_rem (sint x) (sint y))"
  by (simp add: op_defs)

lemma divide_exact: "sint y \<noteq> 0 \<Longrightarrow> exact_or_overflow (divide (SInt x) (SInt y)) (sint x sdiv sint y)"
  using sdiv_fits [of "sint y" x]
  by (auto simp: divide_int int_div_def exact_or_overflow_def sint_of_fits64 fits64_def)

lemma neg_one_sint: "sint (y :: i64) = -1 \<longleftrightarrow> y = -1"
  by (metis signed_minus_1 signed_word_eqI)

section \<open>Properties\<close>

text \<open>
  C8. Integer arithmetic never wraps: on 64-bit ints each of the operators gives the exact result
  (for division the one truncated towards zero) or raises an overflow error, and the latter exactly
  when the result does not fit; a zero divisor is its own error.
\<close>

theorem int_arithmetic_exact:
  "exact_or_overflow (add (SInt x) (SInt y)) (sint x + sint y)
   \<and> exact_or_overflow (subtract (SInt x) (SInt y)) (sint x - sint y)
   \<and> exact_or_overflow (multiply (SInt x) (SInt y)) (sint x * sint y)
   \<and> (if sint y = 0 then divide (SInt x) (SInt y) = Throws Zero_Division
      else exact_or_overflow (divide (SInt x) (SInt y)) (sint x sdiv sint y))"
  using checked_exact divide_exact [of y x] by (simp add: divide_int) (simp add: op_defs)

text \<open>
  C17. Division and remainder of ints fit together: dividend = quotient * divisor + remainder, the
  remainder smaller than the divisor and signed like the dividend.  The one exception is the most
  negative int by -1, where division raises an overflow error and the remainder is undefined
  behaviour, its guard having been left out.
\<close>

theorem remainder_matches_division:
  assumes "sint y \<noteq> 0"
  shows "(modulo_op (SInt x) (SInt y) = Undef \<longleftrightarrow> sint x = - (2 ^ 63) \<and> sint y = -1)
    \<and> (divide (SInt x) (SInt y) = Throws Overflow_Error \<longleftrightarrow> sint x = - (2 ^ 63) \<and> sint y = -1)
    \<and> (\<not> (sint x = - (2 ^ 63) \<and> sint y = -1) \<longrightarrow>
        (\<exists>q r. divide (SInt x) (SInt y) = Done (SInt q) \<and> modulo_op (SInt x) (SInt y) = Done (SInt r)
          \<and> sint x = sint q * sint y + sint r \<and> \<bar>sint r\<bar> < \<bar>sint y\<bar> \<and> (sint r = 0 \<or> sgn (sint r) = sgn (sint x))))"
proof -
  have p: "0 \<le> k mod \<bar>sint y\<bar>" for k using assms by simp
  have "sint x smod sint y = 0 \<or> sgn (sint x smod sint y) = sgn (sint x)"
    using p [of "sint x"] p [of "- sint x"]
    by (auto simp: signed_modulo_int_def sgn_mult sgn_if split: if_splits)
  moreover have "sint x = sint x sdiv sint y * sint y + sint x smod sint y" by (simp add: sdiv_mult_smod_eq)
  moreover have "\<bar>sint x smod sint y\<bar> < \<bar>sint y\<bar>" using smod_int_range [of "sint y" "sint x"] assms by auto
  ultimately show ?thesis
    using assms sdiv_fits [OF assms, of x] smod_fits [OF assms, of "sint x"]
    by (simp add: divide_int modulo_int int_div_def int_rem_def sint_of_fits64)
qed

theorem remainder_matches_division_witness:
  "modulo_op (SInt (word_of_int (- (2 ^ 63)))) (SInt (-1)) = Undef
   \<and> divide (SInt (-7)) (SInt 2) = Done (SInt (-3)) \<and> modulo_op (SInt (-7)) (SInt 2) = Done (SInt (-1))"
proof -
  have "modulo_op (SInt (word_of_int (- (2 ^ 63)))) (SInt (-1)) = Undef"
    using remainder_matches_division [of "-1" "word_of_int (- (2 ^ 63))"] by (simp add: sint_of_fits64 fits64_def)
  moreover have "divide (SInt (-7)) (SInt 2) = Done (SInt (-3))" "modulo_op (SInt (-7)) (SInt 2) = Done (SInt (-1))"
    by (simp_all add: divide_int modulo_int int_div_def int_rem_def)
  ultimately show ?thesis by simp
qed

text \<open>
  Negation fails on large ints: its test of the operand reads the tag of the word, so for an int
  outside 32 bits, which is held in an object, it raises \<open>Operand must be a number\<close>, although
  subtracting it from zero gives the result.
\<close>

theorem negate_rejects_large_ints:
  "(fitsInInt32 (sint i) \<longrightarrow> negate (SInt i) = Done (SInt (- i)))
   \<and> (\<not> fitsInInt32 (sint i) \<longrightarrow> negate (SInt i) = Throws Invalid_Argument
        \<and> (sint i \<noteq> - (2 ^ 63) \<longrightarrow> subtract (SInt 0) (SInt i) = Done (SInt (- i))))"
proof -
  have w: "word_of_int (- sint i) = - i" by (simp add: wi_hom_neg)
  have "sint i \<noteq> - (2 ^ 63) \<Longrightarrow> fits64 (- sint i)" using sint_bounds [of i] by (auto simp: fits64_def)
  moreover have "fitsInInt32 (sint i) \<Longrightarrow> fits64 (- sint i)" by (simp add: fits64_def fitsInInt32_def)
  ultimately show ?thesis
    by (simp add: negate_def isInlineInt_def asInt_def checked_def w op_defs)
qed

theorem negate_rejects_large_ints_witness:
  "negate (SInt 3000000000) = Throws Invalid_Argument \<and> negate (SInt 3) = Done (SInt (- 3))"
  using negate_rejects_large_ints [of 3000000000] negate_rejects_large_ints [of 3] by (simp add: fitsInInt32_def)

text \<open>
  C18. A conversion of a scalar to bool, byte, int or real returns a value of that type, and raises an
  error exactly where the conversion table forbids the pair of types in that mode, with one exception:
  an enum or type value is converted although the table forbids it, to bool in both modes and to byte,
  int or real in the non-strict one, and gives false or zero.  A conversion is undefined only for a
  real that is outside the range of a byte or an int, in non-strict mode.
\<close>

theorem conversions_typed_and_tabled:
  "(toType t v strict = Done w \<longrightarrow> scalar_type w = target_type t)
    \<and> ((\<exists>e. toType t v strict = Throws e) \<longleftrightarrow>
         \<not> value_convertibleTo (scalar_type v) (target_type t) strict
         \<and> \<not> (scalar_type v \<in> {VEnum, VType} \<and> (t = To_Bool \<or> \<not> strict)))
    \<and> (\<not> value_convertibleTo (scalar_type v) (target_type t) strict
         \<and> scalar_type v \<in> {VEnum, VType} \<and> (t = To_Bool \<or> \<not> strict) \<longrightarrow>
         toType t v strict = Done (case t of To_Bool \<Rightarrow> SBool False | To_Byte \<Rightarrow> SByte 0 | To_Int \<Rightarrow> SInt 0 | To_Real \<Rightarrow> SReal 0))
    \<and> (toType t v strict = Undef \<longrightarrow> \<not> strict \<and> scalar_type v = VReal \<and> t \<in> {To_Byte, To_Int})"
  by (cases v; cases t; cases strict)
    (auto simp: conv_defs value_convertibleTo_def convertibleTo_def nonStrictTab_def strictTab_def split: option.splits)

theorem conversions_typed_and_tabled_witness:
  "(\<exists>e. toType To_Byte (SInt 300) True = Throws e) \<and> toType To_Byte (SInt 300) False = Done (SByte 44)
   \<and> toType To_Real (SEnum 3 1) False = Done (SReal 0) \<and> \<not> value_convertibleTo VEnum VReal False"
  using conversions_typed_and_tabled [of To_Byte "SInt 300" True "SByte 44"]
    conversions_typed_and_tabled [of To_Real "SEnum 3 1" False "SReal 0"]
  by (simp add: value_convertibleTo_def convertibleTo_def strictTab_def nonStrictTab_def conv_defs)

text \<open>
  An int of at most 53 bits survives the conversion to real and back.
\<close>

theorem int_real_roundtrip:
  assumes "\<bar>sint i\<bar> \<le> 2 ^ 53"
  shows "out_then (toType To_Real (SInt i) strict) (\<lambda>v. toType To_Int v False) = Done (SInt i)"
proof -
  have d: "dscaled (double_of_int (sint i)) = sint i * int unit" "\<not> d_nan (double_of_int (sint i))"
    "\<not> d_inf (double_of_int (sint i))" using double_of_int_exact [OF assms] by simp_all
  have u: "unit > 0" by (simp add: unit_def)
  then have m: "nat \<bar>sint i * int unit\<bar> div unit = nat \<bar>sint i\<bar>"
    by (simp add: abs_mult nat_mult_distrib)
  have s: "sint i \<noteq> 0 \<Longrightarrow> d_neg (double_of_int (sint i)) \<longleftrightarrow> sint i < 0"
    by (simp add: double_of_int_def round_signed_def d_neg_with_sign round_bits_le)
  have "(if d_neg (double_of_int (sint i)) then - int (nat \<bar>sint i\<bar>) else int (nat \<bar>sint i\<bar>)) = sint i"
    using s by (cases "sint i = 0") auto
  then have "double_to_int (- (2 ^ 63)) (2 ^ 63 - 1) (double_of_int (sint i)) = Some (sint i)"
    using d sint_bounds [of i] by (simp add: double_to_int_def m Let_def)
  then show ?thesis by (simp add: conv_defs)
qed

theorem int_real_roundtrip_witness:
  "out_then (toType To_Real (SInt 9007199254740991) True) (\<lambda>v. toType To_Int v False) = Done (SInt 9007199254740991)"
  by (rule int_real_roundtrip) simp

definition is_nan :: "scalar \<Rightarrow> bool" where
  "is_nan v \<longleftrightarrow> (case v of SReal d \<Rightarrow> d_nan d | _ \<Rightarrow> False)"

lemma i64_eq: "(x :: i64) = y \<longleftrightarrow> sint x = sint y"
  by (auto intro: signed_word_eqI)

lemma double_of_int_not_nan [simp]: "\<not> d_nan (double_of_int i)"
  by (simp add: double_of_int_def round_not_nan)

text \<open>
  C19. Numbers are totally ordered by the comparison operators: of two numbers, whatever their types
  and neither of them NaN, exactly one of less, equal and greater holds, and \<open><=\<close> and \<open>>=\<close> are
  their unions.
\<close>

theorem numbers_totally_ordered:
  assumes "isNumber a" "isNumber b" "\<not> is_nan a" "\<not> is_nan b"
  shows "\<exists>lt eq gt. less (Sc a) (Sc b) = Done lt \<and> equals (Sc a) (Sc b) = eq \<and> greater (Sc a) (Sc b) = Done gt
    \<and> (lt \<and> \<not> eq \<and> \<not> gt \<or> \<not> lt \<and> eq \<and> \<not> gt \<or> \<not> lt \<and> \<not> eq \<and> gt)
    \<and> lessEqual (Sc a) (Sc b) = Done (lt \<or> eq) \<and> greaterEqual (Sc a) (Sc b) = Done (gt \<or> eq)"
  using assms
  by (cases a; cases b)
    (auto simp: isNumber_def is_nan_def less_def greater_def lessEqual_def greaterEqual_def equals_def compare_op_def
      by_result_type_def binaryOpType_def asInt_def asReal_def dlt_def dle_def deq_def i64_eq)

theorem numbers_totally_ordered_witness:
  "\<exists>lt eq gt. less (Sc (SInt 5)) (Sc (SByte 7)) = Done lt \<and> equals (Sc (SInt 5)) (Sc (SByte 7)) = eq
    \<and> greater (Sc (SInt 5)) (Sc (SByte 7)) = Done gt
    \<and> (lt \<and> \<not> eq \<and> \<not> gt \<or> \<not> lt \<and> eq \<and> \<not> gt \<or> \<not> lt \<and> \<not> eq \<and> gt)
    \<and> lessEqual (Sc (SInt 5)) (Sc (SByte 7)) = Done (lt \<or> eq) \<and> greaterEqual (Sc (SInt 5)) (Sc (SByte 7)) = Done (gt \<or> eq)"
  by (rule numbers_totally_ordered) (simp_all add: isNumber_def is_nan_def)

text \<open>
  String comparison relies on the hash: two different strings with one 32-bit hash are neither
  less, nor greater, nor equal, though one of \<open><=\<close> and \<open>>=\<close> holds.  Such pairs are easy to meet,
  as the hash is linear with factor 37: \<open>az\<close> and \<open>bU\<close>.
\<close>

theorem colliding_strings_unordered:
  assumes "ustring_hashCode a = ustring_hashCode b" "a \<noteq> b"
  shows "less (Str a) (Str b) = Done False \<and> greater (Str a) (Str b) = Done False \<and> \<not> equals (Str a) (Str b)
    \<and> (lessEqual (Str a) (Str b) = Done True \<or> greaterEqual (Str a) (Str b) = Done True)"
  using assms
  by (auto simp: less_def greater_def lessEqual_def greaterEqual_def compare_op_def str_less_def str_greater_def equals_def)

theorem colliding_strings_unordered_witness:
  "less (Str [97, 122]) (Str [98, 85]) = Done False \<and> greater (Str [97, 122]) (Str [98, 85]) = Done False
   \<and> \<not> equals (Str [97, 122]) (Str [98, 85])"
  using colliding_strings_unordered [of "[97, 122]" "[98, 85]"] by (simp add: ustring_hashCode_def)

text \<open>
  Equality of numbers is not transitive: an int and a real are compared as doubles, so the int
  after \<open>2 ^ 53\<close> equals the real \<open>2 ^ 53\<close>, which equals the int \<open>2 ^ 53\<close>.
\<close>

lemma double_of_int_2_53: "double_of_int (2 ^ 53 + 1) = double_of_int (2 ^ 53)"
proof -
  have l: "bit_length (2 ^ 53 + 1) = 54" "bit_length (2 ^ 53) = 54" by (simp_all add: bit_length.simps)
  have "round_bits ((2 ^ 53 + 1) * unit) 1 = round_bits (2 ^ 53 * unit) 1"
    using round_bits_int [of "2 ^ 53 + 1"] round_bits_int [of "2 ^ 53"] unfolding l
    by (simp add: round_half_even_def)
  moreover have "nat \<bar>(2::int) ^ 53 + 1\<bar> = 2 ^ 53 + 1" "nat \<bar>(2::int) ^ 53\<bar> = 2 ^ 53" by simp_all
  ultimately show ?thesis unfolding double_of_int_def round_signed_def by simp
qed

theorem equality_not_transitive:
  assumes "sint i = 2 ^ 53" "sint j = 2 ^ 53 + 1"
  shows "equals (Sc (SInt j)) (Sc (SReal (double_of_int (2 ^ 53))))
    \<and> equals (Sc (SReal (double_of_int (2 ^ 53)))) (Sc (SInt i)) \<and> \<not> equals (Sc (SInt j)) (Sc (SInt i))
    \<and> less (Sc (SInt i)) (Sc (SInt j)) = Done True"
proof -
  have "deq (double_of_int (2 ^ 53)) (double_of_int (2 ^ 53))" by (simp add: deq_def)
  moreover have "i \<noteq> j" using assms by auto
  ultimately show ?thesis using assms double_of_int_2_53
    by (simp add: equals_def isNumber_def by_result_type_def binaryOpType_def asReal_def asInt_def less_def compare_op_def)
qed

theorem equality_not_transitive_witness:
  "equals (Sc (SInt 9007199254740993)) (Sc (SReal (double_of_int (2 ^ 53))))
   \<and> equals (Sc (SReal (double_of_int (2 ^ 53)))) (Sc (SInt 9007199254740992))
   \<and> \<not> equals (Sc (SInt 9007199254740993)) (Sc (SInt 9007199254740992))"
  using equality_not_transitive [of 9007199254740992 9007199254740993] by simp

end
