(* ===== verification/Variables_Map.thy ===== *)
theory Variables_Map
  imports Scalar_Ops
begin

text \<open>
  \<open>VariablesMap\<close> of \<open>compiler/Value.h\<close>, the variables of a module and the globals behind them, with
  \<open>MonitoredValue\<close> (\<open>compiler/Value.cpp\<close>) and the instructions of \<open>compiler/VM.cpp\<close> that define, read
  and assign module variables.  Variables are keyed by the 32-bit hash of their name.  The hash table
  is an association list, whose order stands for its iteration order; \<open>cloneIfValueSemantics\<close> is the
  identity on the values of the model (scalars, strings and objects of reference semantics).
\<close>

section \<open>Monitored values\<close>

datatype observer = No_Observer | Full_Signal | Change_Notifier

record monitored =
  m_value :: operand
  m_signal :: observer

text \<open>Strings and objects have reference semantics; equal strings are one interned object.\<close>

fun referenceSemantics :: "operand \<Rightarrow> bool" where
  "referenceSemantics (Sc s) = False"
| "referenceSemantics (Str s) = True"
| "referenceSemantics (Ref r) = True"

text \<open>\<open>assign\<close>: whether the value changed, the new state and the value its observers are told.\<close>

definition assign :: "operand \<Rightarrow> monitored \<Rightarrow> bool \<times> monitored \<times> operand option" where
  "assign newValue m =
     (let same = (if referenceSemantics (m_value m) \<and> referenceSemantics newValue
                  then m_value m = newValue else equals (m_value m) newValue) in
      if same then (False, m, None)
      else (True, m\<lparr>m_value := newValue\<rparr>, if m_signal m = No_Observer then None else Some newValue))"

definition ensureSignal_m :: "monitored \<Rightarrow> monitored" where
  "ensureSignal_m m = m\<lparr>m_signal := Full_Signal\<rparr>"

section \<open>The map\<close>

type_synonym vars_map = "(u32 \<times> ustring \<times> monitored) list"

record variables =
  vm_vars :: vars_map
  vm_globals :: vars_map

definition new_monitored :: "operand \<Rightarrow> monitored" where
  "new_monitored v = \<lparr>m_value = v, m_signal = No_Observer\<rparr>"

definition vm_clear :: "variables \<Rightarrow> variables" where "vm_clear vs = vs\<lparr>vm_vars := []\<rparr>"
definition vm_clearGlobals :: "variables \<Rightarrow> variables" where "vm_clearGlobals vs = vs\<lparr>vm_globals := []\<rparr>"

definition vm_existsGlobal :: "u32 \<Rightarrow> variables \<Rightarrow> bool" where
  "vm_existsGlobal h vs \<longleftrightarrow> map_of (vm_globals vs) h \<noteq> None"
definition vm_isModuleVar :: "u32 \<Rightarrow> variables \<Rightarrow> bool" where
  "vm_isModuleVar h vs \<longleftrightarrow> map_of (vm_vars vs) h \<noteq> None"
definition vm_exists :: "u32 \<Rightarrow> variables \<Rightarrow> bool" where
  "vm_exists h vs \<longleftrightarrow> (if map_of (vm_vars vs) h \<noteq> None then True else map_of (vm_globals vs) h \<noteq> None)"

definition vm_load :: "u32 \<Rightarrow> variables \<Rightarrow> operand option" where
  "vm_load h vs =
     (case map_of (vm_vars vs) h of
        Some (n, m) \<Rightarrow> Some (m_value m)
      | None \<Rightarrow> (case map_of (vm_globals vs) h of Some (n, m) \<Rightarrow> Some (m_value m) | None \<Rightarrow> None))"

definition put :: "u32 \<Rightarrow> ustring \<Rightarrow> monitored \<Rightarrow> vars_map \<Rightarrow> vars_map" where
  "put h name m = AList.update h (name, m)"

definition vm_store :: "u32 \<Rightarrow> ustring \<Rightarrow> operand \<Rightarrow> bool \<Rightarrow> variables \<Rightarrow> bool \<times> variables" where
  "vm_store h name v overwrite vs =
     (case map_of (vm_vars vs) h of
        Some (n, m) \<Rightarrow>
          if \<not> overwrite then (False, vs)
          else (True, vs\<lparr>vm_vars := put h name (fst (snd (assign v m))) (vm_vars vs)\<rparr>)
      | None \<Rightarrow> (True, vs\<lparr>vm_vars := put h name (new_monitored v) (vm_vars vs)\<rparr>))"

definition vm_storeIfExists :: "u32 \<Rightarrow> operand \<Rightarrow> variables \<Rightarrow> bool \<times> variables" where
  "vm_storeIfExists h v vs =
     (case map_of (vm_vars vs) h of
        None \<Rightarrow> (False, vs)
      | Some (n, m) \<Rightarrow> (True, vs\<lparr>vm_vars := put h n (fst (snd (assign v m))) (vm_vars vs)\<rparr>))"

definition vm_storeGlobal :: "ustring \<Rightarrow> operand \<Rightarrow> variables \<Rightarrow> variables" where
  "vm_storeGlobal name v vs =
     (let h = ustring_hashCode name in
      case map_of (vm_globals vs) h of
        Some (n, m) \<Rightarrow> vs\<lparr>vm_globals := put h name (fst (snd (assign v m))) (vm_globals vs)\<rparr>
      | None \<Rightarrow> vs\<lparr>vm_globals := put h name (new_monitored v) (vm_globals vs)\<rparr>)"

text \<open>\<open>ensureSignal\<close>: whether there is such a variable.\<close>

definition vm_ensureSignal :: "u32 \<Rightarrow> ustring \<Rightarrow> variables \<Rightarrow> bool \<times> variables" where
  "vm_ensureSignal h name vs =
     (case map_of (vm_vars vs) h of
        Some (n, m) \<Rightarrow>
          (True, vs\<lparr>vm_vars := put h (if n = [] then name else n) (ensureSignal_m m) (vm_vars vs)\<rparr>)
      | None \<Rightarrow> (case map_of (vm_globals vs) h of
          Some (n, m) \<Rightarrow>
            (True, vs\<lparr>vm_globals := put h (if n = [] then name else n) (ensureSignal_m m) (vm_globals vs)\<rparr>)
        | None \<Rightarrow> (False, vs)))"

definition vm_snapshot :: "variables \<Rightarrow> (ustring \<times> operand) list" where
  "vm_snapshot vs = map (\<lambda>(h, n, m). (n, m_value m)) (vm_vars vs)"

definition vm_snapshotGlobals :: "variables \<Rightarrow> (ustring \<times> operand) list" where
  "vm_snapshotGlobals vs = map (\<lambda>(h, n, m). (n, m_value m)) (vm_globals vs)"

fun snapshot_loop :: "vars_map \<Rightarrow> nat \<Rightarrow> nat \<Rightarrow> nat \<Rightarrow> (ustring \<times> operand) list \<Rightarrow> (ustring \<times> operand) list" where
  "snapshot_loop [] i start count copy = copy"
| "snapshot_loop ((h, n, m) # es) i start count copy =
     (if i < start then snapshot_loop es (i + 1) start count copy
      else if length copy \<ge> count then copy
      else snapshot_loop es (i + 1) start count (copy @ [(n, m_value m)]))"

definition vm_snapshotRange :: "nat \<Rightarrow> nat \<Rightarrow> variables \<Rightarrow> (ustring \<times> operand) list" where
  "vm_snapshotRange start count vs =
     (if start \<ge> length (vm_vars vs) then [] else snapshot_loop (vm_vars vs) 0 start count [])"

definition vm_variableNames :: "variables \<Rightarrow> ustring list" where
  "vm_variableNames vs = map (\<lambda>(h, n, m). n) (vm_vars vs)"

section \<open>Module variable instructions\<close>

record module =
  mod_vars :: variables
  mod_constVars :: "u32 list"
  mod_importedVars :: "u32 list"
  mod_inDataflowBody :: bool

datatype var_error = Undefined_Variable | Modify_From_Dataflow | Assign_To_Constant

text \<open>An instruction pops from and pushes to the operand stack, its top first.\<close>

type_synonym vm_step = "operand list \<times> module"

definition op_DefineModuleConst :: "ustring \<Rightarrow> operand \<Rightarrow> operand list \<Rightarrow> module \<Rightarrow> vm_step" where
  "op_DefineModuleConst name v stk md =
     (let h = ustring_hashCode name in
      (stk, md\<lparr>mod_constVars := List.insert h (mod_constVars md),
               mod_importedVars := filter (\<lambda>k. k \<noteq> h) (mod_importedVars md),
               mod_vars := snd (vm_store h name v False (mod_vars md))\<rparr>))"

definition op_DefineModuleVar :: "ustring \<Rightarrow> operand \<Rightarrow> operand list \<Rightarrow> module \<Rightarrow> vm_step" where
  "op_DefineModuleVar name v stk md =
     (let h = ustring_hashCode name in
      (stk, md\<lparr>mod_importedVars := filter (\<lambda>k. k \<noteq> h) (mod_importedVars md),
               mod_vars := snd (vm_store h name v False (mod_vars md))\<rparr>))"

text \<open>A read in the body of a dataflow function pushes a const reference to an object.\<close>

definition op_GetModuleVar :: "ustring \<Rightarrow> module \<Rightarrow> var_error + (operand \<times> bool)" where
  "op_GetModuleVar name md =
     (case vm_load (ustring_hashCode name) (mod_vars md) of
        Some v \<Rightarrow> Inr (v, mod_inDataflowBody md)
      | None \<Rightarrow> Inl Undefined_Variable)"

definition op_MoveModuleVar :: "ustring \<Rightarrow> operand list \<Rightarrow> module \<Rightarrow> var_error + vm_step" where
  "op_MoveModuleVar name stk md =
     (if mod_inDataflowBody md then Inl Modify_From_Dataflow
      else (case vm_load (ustring_hashCode name) (mod_vars md) of
          None \<Rightarrow> Inl Undefined_Variable
        | Some v \<Rightarrow> Inr (v # stk, md\<lparr>mod_vars := snd (vm_storeIfExists (ustring_hashCode name) (Sc SNil) (mod_vars md))\<rparr>)))"

definition op_SetModuleVar :: "ustring \<Rightarrow> operand \<Rightarrow> module \<Rightarrow> var_error + module" where
  "op_SetModuleVar name top_value md =
     (let h = ustring_hashCode name in
      if mod_inDataflowBody md then Inl Modify_From_Dataflow
      else if h \<in> set (mod_constVars md) then Inl Assign_To_Constant
      else (case vm_storeIfExists h top_value (mod_vars md) of
          (stored, vs) \<Rightarrow> if \<not> stored then Inl Undefined_Variable else Inr (md\<lparr>mod_vars := vs\<rparr>)))"

definition op_SetNewModuleVar :: "ustring \<Rightarrow> operand \<Rightarrow> module \<Rightarrow> var_error + module" where
  "op_SetNewModuleVar name top_value md =
     (let h = ustring_hashCode name in
      if mod_inDataflowBody md then Inl Modify_From_Dataflow
      else if h \<in> set (mod_constVars md) then Inl Assign_To_Constant
      else Inr (md\<lparr>mod_vars := snd (vm_store h name top_value True (mod_vars md))\<rparr>))"

section \<open>Lemmas\<close>

lemma put_lookup: "map_of (put h n m t) k = (if k = h then Some (n, m) else map_of t k)"
  by (simp add: put_def update_conv')

lemma update_same: "map_of t k = Some v \<Longrightarrow> AList.update k v t = t"
  by (induction t) (auto split: if_splits)

definition kept :: "operand \<Rightarrow> operand \<Rightarrow> operand" where
  "kept w v = (if referenceSemantics w \<and> referenceSemantics v then v else if equals w v then w else v)"

lemma assign_value: "m_value (fst (snd (assign v m))) = kept (m_value m) v"
  by (auto simp: assign_def kept_def Let_def)

text \<open>The module's variables by name, among the names \<open>N\<close>.\<close>

definition by_name :: "ustring set \<Rightarrow> vars_map \<Rightarrow> ustring \<rightharpoonup> operand" where
  "by_name N t n = (if n \<in> N then map_option (\<lambda>(n', m). m_value m) (map_of t (ustring_hashCode n)) else None)"

lemma by_name_put:
  assumes "inj_on ustring_hashCode N" "n \<in> N"
  shows "by_name N (put (ustring_hashCode n) n' m t) = (by_name N t)(n \<mapsto> m_value m)"
  using assms by (auto simp: by_name_def put_lookup fun_eq_iff dest: inj_onD)

section \<open>Properties\<close>

text \<open>
  C20. As long as no two names in use have one hash, the table implements a map from names: a
  definition adds the variable unless it exists, an assignment changes the variable of that name
  only, to the value assigned or one equal to it, a load finds the module's variable first and the
  global behind it otherwise.
\<close>

theorem variables_refine_names:
  assumes inj: "inj_on ustring_hashCode N" and n: "n \<in> N"
  shows "by_name N (vm_vars (snd (vm_store (ustring_hashCode n) n v False vs)))
      = (if by_name N (vm_vars vs) n = None then (by_name N (vm_vars vs))(n \<mapsto> v) else by_name N (vm_vars vs))
    \<and> by_name N (vm_vars (snd (vm_store (ustring_hashCode n) n v True vs)))
      = (by_name N (vm_vars vs))(n \<mapsto> (case by_name N (vm_vars vs) n of None \<Rightarrow> v | Some w \<Rightarrow> kept w v))
    \<and> (let (stored, vs') = vm_storeIfExists (ustring_hashCode n) v vs in
        stored = (by_name N (vm_vars vs) n \<noteq> None)
        \<and> by_name N (vm_vars vs') = (case by_name N (vm_vars vs) n of
            None \<Rightarrow> by_name N (vm_vars vs) | Some w \<Rightarrow> (by_name N (vm_vars vs))(n \<mapsto> kept w v)))
    \<and> vm_load (ustring_hashCode n) vs
      = (case by_name N (vm_vars vs) n of Some w \<Rightarrow> Some w | None \<Rightarrow> by_name N (vm_globals vs) n)
    \<and> (vm_exists (ustring_hashCode n) vs \<longleftrightarrow> vm_load (ustring_hashCode n) vs \<noteq> None)"
proof (cases "map_of (vm_vars vs) (ustring_hashCode n)")
  case None
  then have "by_name N (vm_vars vs) n = None" by (simp add: by_name_def)
  then show ?thesis using None n by_name_put [OF inj n]
    by (auto simp: vm_store_def vm_storeIfExists_def vm_load_def vm_exists_def new_monitored_def by_name_def [of N "vm_globals vs"]
        split: option.splits)
next
  case (Some e)
  obtain n' m where e: "e = (n', m)" by fastforce
  have "by_name N (vm_vars vs) n = Some (m_value m)" using Some e n by (simp add: by_name_def)
  then show ?thesis using Some e n by_name_put [OF inj n]
    by (simp add: vm_store_def vm_storeIfExists_def vm_load_def vm_exists_def assign_value)
qed

theorem variables_refine_names_witness:
  "vm_load (ustring_hashCode [98]) \<lparr>vm_vars = [(ustring_hashCode [98], [98], new_monitored (Str [1]))], vm_globals = []\<rparr>
     = Some (Str [1])"
proof -
  obtain vs where vs: "vs = \<lparr>vm_vars = [(ustring_hashCode [98], [98], new_monitored (Str [1]))], vm_globals = []\<rparr>" by simp
  have "vm_load (ustring_hashCode [98]) vs
      = (case by_name {[97], [98]} (vm_vars vs) [98] of Some w \<Rightarrow> Some w | None \<Rightarrow> by_name {[97], [98]} (vm_globals vs) [98])"
    using variables_refine_names [of "{[97], [98]}" "[98]" "Sc SNil" vs] by (simp add: ustring_hashCode_def)
  then show ?thesis by (simp add: vs by_name_def new_monitored_def)
qed

text \<open>
  An assignment of a number equal to the one a module variable holds stores nothing, although
  the types differ: the variable keeps the int when the equal real is assigned, and what is computed
  from it afterwards is integer arithmetic.
\<close>

theorem equal_number_not_stored:
  assumes v: "map_of (vm_vars (mod_vars md)) (ustring_hashCode name) = Some (name', m)" "m_value m = Sc (SInt i)"
    and eq: "deq (double_of_int (sint i)) d"
    and w: "\<not> mod_inDataflowBody md" "ustring_hashCode name \<notin> set (mod_constVars md)"
  shows "op_SetModuleVar name (Sc (SReal d)) md = Inr md
    \<and> op_GetModuleVar name md = Inr (Sc (SInt i), False)"
proof -
  have "equals (Sc (SInt i)) (Sc (SReal d))"
    using eq by (simp add: equals_def isNumber_def by_result_type_def binaryOpType_def asReal_def)
  then have "fst (snd (assign (Sc (SReal d)) m)) = m" by (simp add: assign_def v(2))
  then have "vm_storeIfExists (ustring_hashCode name) (Sc (SReal d)) (mod_vars md) = (True, mod_vars md)"
    using v(1) by (simp add: vm_storeIfExists_def put_def update_same)
  then show ?thesis using v w by (simp add: op_SetModuleVar_def op_GetModuleVar_def vm_load_def)
qed

definition one_var :: "ustring \<Rightarrow> operand \<Rightarrow> module" where
  "one_var name v = snd (op_DefineModuleVar name v []
     \<lparr>mod_vars = \<lparr>vm_vars = [], vm_globals = []\<rparr>, mod_constVars = [], mod_importedVars = [], mod_inDataflowBody = False\<rparr>)"

theorem equal_number_not_stored_witness:
  "op_SetModuleVar [120] (Sc (SReal (double_of_int 1))) (one_var [120] (Sc (SInt 1))) = Inr (one_var [120] (Sc (SInt 1)))
   \<and> divide (SInt 1) (SInt 2) = Done (SInt 0)
   \<and> divide (SReal (double_of_int 1)) (SInt 2) = Done (SReal (ddiv (double_of_int 1) (double_of_int 2)))"
proof -
  have "deq (double_of_int 1) (double_of_int 1)" by (simp add: deq_def)
  then have "op_SetModuleVar [120] (Sc (SReal (double_of_int 1))) (one_var [120] (Sc (SInt 1))) = Inr (one_var [120] (Sc (SInt 1)))"
    using equal_number_not_stored [of "one_var [120] (Sc (SInt 1))" "[120]" "[120]" "new_monitored (Sc (SInt 1))" 1 "double_of_int 1"]
    by (simp add: one_var_def op_DefineModuleVar_def vm_store_def put_def new_monitored_def)
  moreover have "divide (SReal (double_of_int 1)) (SInt 2) = Done (SReal (ddiv (double_of_int 1) (double_of_int 2)))"
    by (simp add: op_defs deq_zero_int)
  ultimately show ?thesis by (simp add: divide_int int_div_def signed_divide_int_def)
qed

text \<open>
  Two module variables whose names have one hash are one variable: the definition of the second
  is dropped without an error, reading it gives the first one's value, and assigning it changes the
  first.
\<close>

theorem colliding_names_share_variable:
  assumes h: "ustring_hashCode a = ustring_hashCode b"
    and fresh: "map_of (vm_vars (mod_vars md)) (ustring_hashCode a) = None"
    and w: "\<not> mod_inDataflowBody md" "ustring_hashCode a \<notin> set (mod_constVars md)"
  shows "let md1 = snd (op_DefineModuleVar a v stk md); md2 = snd (op_DefineModuleVar b v2 stk md1) in
    op_GetModuleVar b md2 = Inr (v, False)
    \<and> (\<forall>md3. op_SetModuleVar b v3 md2 = Inr md3 \<longrightarrow> op_GetModuleVar a md3 = Inr (kept v v3, False))
    \<and> (\<exists>md3. op_SetModuleVar b v3 md2 = Inr md3)"
  using fresh w h
  by (simp add: op_DefineModuleVar_def op_GetModuleVar_def op_SetModuleVar_def vm_store_def vm_load_def put_lookup
      new_monitored_def vm_storeIfExists_def assign_value Let_def)

theorem colliding_names_share_variable_witness:
  "op_GetModuleVar [98, 85] (snd (op_DefineModuleVar [98, 85] (Str [2]) [] (one_var [97, 122] (Str [1])))) = Inr (Str [1], False)"
  using colliding_names_share_variable [of "[97, 122]" "[98, 85]"
      "\<lparr>mod_vars = \<lparr>vm_vars = [], vm_globals = []\<rparr>, mod_constVars = [], mod_importedVars = [], mod_inDataflowBody = False\<rparr>"
      "Str [1]" "[]" "Str [2]" "Str [3]"]
  by (simp add: ustring_hashCode_def one_var_def Let_def)

end
