(* ===== verification/Call_Setup.thy ===== *)
theory Call_Setup
  imports Call_Spec
begin

text \<open>
  How \<open>VM::call\<close> and the frame start in \<open>VM::execute\<close> (\<open>compiler/VM.cpp\<close>) bring the arguments of a
  call into the parameter slots of the callee: the extra arguments of a variadic function are
  collected into a list, place-holders are pushed for parameters left to their defaults, the default
  functions run, their results replace the place-holders, and the arguments are put into parameter
  order.  The model is about the stack above the callee, its bottom first; \<open>mklist\<close> makes a list
  value and \<open>nilv\<close> is nil.  Running the default function of parameter \<open>i\<close> gives \<open>dflt i\<close>.  Reading
  outside the popped arguments, undefined in C++, is \<open>None\<close>.
\<close>

section \<open>VM::call\<close>

datatype call_fail = Match_Failed call_error | Too_Many_Passed

record 'v frame_args =
  fa_args :: "'v list"
  fa_reorder :: "int list"
  fa_defaults :: "nat list"

definition variadic_at :: "param_type option list \<Rightarrow> nat \<Rightarrow> bool" where
  "variadic_at ps i \<longleftrightarrow> (case ps ! i of Some q \<Rightarrow> pt_variadic q | None \<Rightarrow> False)"

text \<open>The loop over \<open>reorderArgs\<close>: new positions, arguments, parameters to default, argument count.\<close>

fun fill_missing ::
  "'v \<Rightarrow> ('v list \<Rightarrow> 'v) \<Rightarrow> 'v \<Rightarrow> param_type option list \<Rightarrow> int list \<Rightarrow> nat \<Rightarrow> 'v list \<Rightarrow> nat
   \<Rightarrow> int list \<times> 'v list \<times> nat list \<times> nat" where
  "fill_missing nilv mklist vlist ps [] i stk argc = ([], stk, [], argc)"
| "fill_missing nilv mklist vlist ps (p # poss) i stk argc =
     (if p = -1 then
        (if variadic_at ps i then
           (case fill_missing nilv mklist vlist ps poss (Suc i) (stk @ [mklist []]) (argc + 1) of
              (r, a, d, c) \<Rightarrow> (int8 argc # r, a, d, c))
         else
           (case fill_missing nilv mklist vlist ps poss (Suc i) (stk @ [nilv]) (argc + 1) of
              (r, a, d, c) \<Rightarrow> (int8 argc # r, a, i # d, c)))
      else if p = -2 then
        (case fill_missing nilv mklist vlist ps poss (Suc i) (stk @ [vlist]) (argc + 1) of
           (r, a, d, c) \<Rightarrow> (int8 argc # r, a, d, c))
      else
        (case fill_missing nilv mklist vlist ps poss (Suc i) stk argc of
           (r, a, d, c) \<Rightarrow> (p # r, a, d, c)))"

definition in_order :: "int list \<Rightarrow> bool" where
  "in_order r \<longleftrightarrow> r = map int [0..<length r]"

text \<open>\<open>arity\<close> is the number of parameters without the variadic one, as the compiler sets it.\<close>

definition call_setup ::
  "'v \<Rightarrow> ('v list \<Rightarrow> 'v) \<Rightarrow> call_spec \<Rightarrow> rtype \<Rightarrow> nat \<Rightarrow> 'v list \<Rightarrow> call_fail + 'v frame_args" where
  "call_setup nilv mklist cs calleeType arity as =
     (let f = rt_func calleeType;
          hv = (case f of None \<Rightarrow> False | Some g \<Rightarrow> hasVariadic g);
          ps = (case f of None \<Rightarrow> [] | Some g \<Rightarrow> ft_params g);
          argc = unat (argCount cs) in
      if \<not> hv \<and> allPositional cs \<and> argc = arity
      then Inr \<lparr>fa_args = as, fa_reorder = [], fa_defaults = []\<rparr>
      else (case paramPositions cs calleeType True of
          Inl e \<Rightarrow> Inl (Match_Failed e)
        | Inr poss \<Rightarrow>
            (let assigned = length (filter (\<lambda>p. p \<ge> 0) (take arity poss));
                 collect = hv \<and> argc > assigned;
                 n = argc - assigned;
                 vlist = (if collect then mklist (drop (length as - n) as) else nilv);
                 as1 = (if collect then take (length as - n) as else as);
                 argc1 = (if collect then assigned else argc) in
             if argc1 < arity \<or> hv then
               (case fill_missing nilv mklist vlist ps poss 0 as1 argc1 of
                  (r, a, d, c) \<Rightarrow> Inr \<lparr>fa_args = a, fa_reorder = (if in_order r then [] else r), fa_defaults = d\<rparr>)
             else if argc1 > arity then Inl Too_Many_Passed
             else Inr \<lparr>fa_args = as1, fa_reorder = poss, fa_defaults = []\<rparr>)))"

section \<open>The start of the frame\<close>

text \<open>\<open>tailArgValues\<close>: the results of the default functions, written behind the given arguments.\<close>

fun assign_tail :: "nat \<Rightarrow> 'v list \<Rightarrow> 'v list \<Rightarrow> 'v list" where
  "assign_tail k [] stk = stk"
| "assign_tail k (v # vs) stk = assign_tail (k + 1) vs (stk[k := v])"

definition reorder_args :: "int list \<Rightarrow> 'v list \<Rightarrow> 'v list option" where
  "reorder_args r stk =
     (if r = [] then Some stk
      else (let n = length r; popped = drop (length stk - n) stk in
        if n > length stk \<or> (\<exists>p \<in> set r. p < 0 \<or> p \<ge> int n) then None
        else Some (take (length stk - n) stk @ map (\<lambda>p. popped ! nat p) r)))"

definition frame_start :: "(nat \<Rightarrow> 'v) \<Rightarrow> nat \<Rightarrow> 'v frame_args \<Rightarrow> 'v list option" where
  "frame_start dflt arity fa =
     (let tail = map dflt (fa_defaults fa) in
      reorder_args (fa_reorder fa) (assign_tail (arity - length tail) tail (fa_args fa)))"

definition bind_args ::
  "'v \<Rightarrow> ('v list \<Rightarrow> 'v) \<Rightarrow> (nat \<Rightarrow> 'v) \<Rightarrow> call_spec \<Rightarrow> rtype \<Rightarrow> nat \<Rightarrow> 'v list \<Rightarrow> call_fail + 'v list option" where
  "bind_args nilv mklist dflt cs calleeType arity as =
     (case call_setup nilv mklist cs calleeType arity as of
        Inl e \<Rightarrow> Inl e
      | Inr fa \<Rightarrow> Inr (frame_start dflt arity fa))"

section \<open>Lemmas\<close>

fun number :: "int list \<Rightarrow> nat \<Rightarrow> int list" where
  "number [] c = []"
| "number (p # ps) c = (if p < 0 then int c # number ps (c + 1) else p # number ps c)"

definition missing :: "int list \<Rightarrow> nat \<Rightarrow> nat list" where
  "missing poss i = map fst (filter (\<lambda>(j, p). p < 0) (zip [i..<i + length poss] poss))"

lemma upt_length_Cons: "[i..<i + length (p # ps)] = i # [Suc i..<Suc i + length ps]"
  by (simp add: upt_conv_Cons del: upt_Suc)

lemma missing_simps [simp]:
  "missing [] i = []"
  "missing (p # poss) i = (if p < 0 then i # missing poss (Suc i) else missing poss (Suc i))"
  unfolding missing_def upt_length_Cons by simp_all

lemma length_missing: "length (missing poss i) = length (filter (\<lambda>p. p < 0) poss)"
  by (induction poss arbitrary: i) simp_all

lemma fill_missing_append:
  "fill_missing nilv mklist vl ps (xs @ ys) i stk argc =
     (case fill_missing nilv mklist vl ps xs i stk argc of (r, a, d, c) \<Rightarrow>
      case fill_missing nilv mklist vl ps ys (i + length xs) a c of (r', a', d', c') \<Rightarrow> (r @ r', a', d @ d', c'))"
  by (induction xs arbitrary: i stk argc) (auto split: prod.splits)

lemma fill_missing_regular:
  assumes "\<forall>j < length poss. \<not> variadic_at ps (i + j)" "\<forall>p \<in> set poss. p \<ge> -1"
    "argc + length (filter (\<lambda>p. p < 0) poss) \<le> 128"
  shows "fill_missing nilv mklist vl ps poss i stk argc =
    (number poss argc, stk @ replicate (length (filter (\<lambda>p. p < 0) poss)) nilv, missing poss i,
     argc + length (filter (\<lambda>p. p < 0) poss))"
  using assms
proof (induction poss arbitrary: i stk argc)
  case (Cons p poss)
  have v: "\<not> variadic_at ps i" using Cons(2) by force
  have w: "\<forall>j < length poss. \<not> variadic_at ps (Suc i + j)" using Cons(2) by force
  have "p \<ge> -1" using Cons(3) by simp
  then show ?case using Cons.IH [OF w] Cons(3,4) v by (auto split: prod.splits simp: not_le)
qed simp

lemma assign_tail_length [simp]: "length (assign_tail k vs stk) = length stk"
  by (induction k vs stk rule: assign_tail.induct) simp_all

lemma assign_tail_replicate:
  "assign_tail (length xs) vs (xs @ replicate (length vs) n @ ys) = xs @ vs @ ys"
proof (induction vs arbitrary: xs)
  case (Cons v vs)
  have "assign_tail (length (xs @ [v])) vs ((xs @ [v]) @ replicate (length vs) n @ ys) = (xs @ [v]) @ vs @ ys"
    by (rule Cons)
  then show ?case by (simp add: list_update_append)
qed simp

text \<open>The slot values: a given argument or the default, in the order of the parameters.\<close>

definition slot_value :: "(nat \<Rightarrow> 'v) \<Rightarrow> 'v list \<Rightarrow> nat \<Rightarrow> int \<Rightarrow> 'v" where
  "slot_value dflt as i p = (if p < 0 then dflt i else as ! nat p)"

lemma number_values:
  assumes "length base = c" "\<forall>p \<in> set poss. p < 0 \<or> p < int c"
  shows "map (\<lambda>p. (base @ map dflt (missing poss i) @ rest) ! nat p) (number poss c)
    = map (\<lambda>(j, p). slot_value dflt base j p) (zip [i..<i + length poss] poss)"
  using assms
proof (induction poss arbitrary: base c i)
  case (Cons p poss)
  show ?case
  proof (cases "p < 0")
    case True
    have "\<forall>q \<in> set poss. q < 0 \<or> q < int (c + 1)" using Cons(3) by auto
    from Cons(1) [OF _ this, of "base @ [dflt i]" "Suc i"]
    have "map (\<lambda>q. (base @ dflt i # map dflt (missing poss (Suc i)) @ rest) ! nat q) (number poss (c + 1))
      = map (\<lambda>(j, q). slot_value dflt (base @ [dflt i]) j q) (zip [Suc i..<Suc i + length poss] poss)"
      using Cons(2) by simp
    moreover have "slot_value dflt (base @ [dflt i]) j q = slot_value dflt base j q" if "q \<in> set poss" for j q
      using Cons(2,3) that by (auto simp: slot_value_def nth_append)
    then have "map (\<lambda>(j, q). slot_value dflt (base @ [dflt i]) j q) (zip [Suc i..<Suc i + length poss] poss)
      = map (\<lambda>(j, q). slot_value dflt base j q) (zip [Suc i..<Suc i + length poss] poss)"
      by (intro map_cong) (auto dest: set_zip_rightD)
    ultimately show ?thesis using True Cons(2) unfolding upt_length_Cons by (simp add: slot_value_def nth_append)
  next
    case False
    then have "map (\<lambda>q. (base @ map dflt (missing poss (Suc i)) @ rest) ! nat q) (number poss c)
      = map (\<lambda>(j, q). slot_value dflt base j q) (zip [Suc i..<Suc i + length poss] poss)"
      using Cons(1) [OF Cons(2), of "Suc i"] Cons(3) by simp
    then show ?thesis using False Cons(2,3) unfolding upt_length_Cons by (auto simp: slot_value_def nth_append)
  qed
qed simp

lemma number_range:
  assumes "\<forall>p \<in> set poss. p < 0 \<or> p < int c" "q \<in> set (number poss c)"
  shows "0 \<le> q \<and> q < int (c + length (filter (\<lambda>p. p < 0) poss))"
  using assms
proof (induction poss arbitrary: c)
  case (Cons p poss)
  show ?case
  proof (cases "p < 0")
    case True
    have "\<forall>q \<in> set poss. q < 0 \<or> q < int (c + 1)" using Cons(2) by auto
    then show ?thesis using Cons(1) [of "c + 1"] Cons(3) True by auto
  next
    case False
    then show ?thesis using Cons(1) [of c] Cons(2,3) by force
  qed
qed simp

lemma length_number [simp]: "length (number poss c) = length poss"
  by (induction poss arbitrary: c) simp_all

text \<open>The positions assign each of the first \<open>m\<close> arguments to exactly one regular parameter.\<close>

definition assigns :: "int list \<Rightarrow> nat \<Rightarrow> bool" where
  "assigns poss m \<longleftrightarrow>
     (\<forall>p \<in> set poss. p = -1 \<or> 0 \<le> p \<and> p < int m) \<and> length (filter (\<lambda>p. p \<ge> 0) poss) = m"

lemma assigns_split:
  assumes "assigns poss m"
  shows "length (filter (\<lambda>p. p < 0) poss) = length poss - m" "m \<le> length poss"
    "\<forall>p \<in> set poss. p \<ge> -1" "\<forall>p \<in> set poss. p < 0 \<or> p < int m"
proof -
  have "length poss = length (filter (\<lambda>p. p \<ge> 0) poss) + length (filter (\<lambda>p. \<not> p \<ge> 0) poss)"
    by (rule sum_length_filter_compl [symmetric])
  moreover have "filter (\<lambda>p. \<not> p \<ge> 0) poss = filter (\<lambda>p. p < 0) poss" by (rule filter_cong) auto
  ultimately show "length (filter (\<lambda>p. p < 0) poss) = length poss - m" "m \<le> length poss"
    using assms by (auto simp: assigns_def)
  show "\<forall>p \<in> set poss. p \<ge> -1" "\<forall>p \<in> set poss. p < 0 \<or> p < int m" using assms by (auto simp: assigns_def)
qed

text \<open>
  The filling of the missing parameters, the tail assignment and the reordering, together: \<open>rest\<close>
  holds the value of the variadic parameter, if there is one.
\<close>

lemma fill_and_reorder:
  assumes a: "assigns poss (length base)" and v: "\<forall>j < length poss. \<not> variadic_at ps j"
    and len: "length poss \<le> 126"
    and last: "restp = [] \<and> rest = [] \<or>
      (restp = [-1] \<and> variadic_at ps (length poss) \<and> rest = [mklist []] \<or> restp = [-2] \<and> rest = [vl])"
  shows "\<exists>r stk d. fill_missing nilv mklist vl ps (poss @ restp) 0 base (length base) = (r, stk, d, length stk)
    \<and> frame_start dflt (length poss) \<lparr>fa_args = stk, fa_reorder = (if in_order r then [] else r), fa_defaults = d\<rparr>
      = Some (map (\<lambda>(j, p). slot_value dflt base j p) (zip [0..<length poss] poss) @ rest)"
proof -
  note sp = assigns_split [OF a]
  obtain k where k: "k = length (filter (\<lambda>p. p < 0) poss)" by simp
  have bk: "length base + k = length poss" using sp k by simp
  have f: "fill_missing nilv mklist vl ps poss 0 base (length base)
    = (number poss (length base), base @ replicate k nilv, missing poss 0, length base + k)"
    using fill_missing_regular [of poss ps 0 "length base" nilv mklist vl base] v sp(3) bk len k by simp
  obtain r where r: "r = number poss (length base) @ (if rest = [] then [] else [int (length poss)])" by simp
  have g: "fill_missing nilv mklist vl ps (poss @ restp) 0 base (length base)
    = (r, base @ replicate k nilv @ rest, missing poss 0, length (base @ replicate k nilv @ rest))"
    using last bk len by (auto simp: fill_missing_append f r)
  have lm: "length (missing poss 0) = k" by (simp add: length_missing k)
  have lb: "length poss - k = length base" using bk by linarith
  have tail: "assign_tail (length poss - length (map dflt (missing poss 0))) (map dflt (missing poss 0)) (base @ replicate k nilv @ rest)
    = base @ map dflt (missing poss 0) @ rest"
    using assign_tail_replicate [of base "map dflt (missing poss 0)" nilv rest] by (simp add: lm lb)
  obtain full where full: "full = base @ map dflt (missing poss 0) @ rest" by simp
  have tf: "assign_tail (length poss - length (map dflt (missing poss 0))) (map dflt (missing poss 0)) (base @ replicate k nilv @ rest) = full"
    using tail by (simp only: full)
  have lf: "length full = length r" using bk last by (auto simp: full r lm)
  have vals: "map (\<lambda>p. full ! nat p) r = map (\<lambda>(j, p). slot_value dflt base j p) (zip [0..<length poss] poss) @ rest"
  proof -
    have "map (\<lambda>p. full ! nat p) (number poss (length base)) = map (\<lambda>(j, p). slot_value dflt base j p) (zip [0..<length poss] poss)"
      using number_values [of base "length base" poss dflt 0 rest] sp(4) by (simp add: full)
    moreover have "full ! length poss = rest ! 0" if "rest \<noteq> []"
      using that by (simp add: full nth_append lm flip: bk)
    ultimately show ?thesis using last by (auto simp: r)
  qed
  have "\<forall>p \<in> set (number poss (length base)). 0 \<le> p \<and> p < int (length poss)"
    using number_range [OF sp(4)] bk by (simp flip: k)
  then have rng: "\<forall>p \<in> set r. 0 \<le> p \<and> p < int (length r)" by (auto simp: r)
  have "frame_start dflt (length poss) \<lparr>fa_args = base @ replicate k nilv @ rest,
      fa_reorder = (if in_order r then [] else r), fa_defaults = missing poss 0\<rparr> = Some (map (\<lambda>p. full ! nat p) r)"
  proof (cases "in_order r \<or> r = []")
    case True
    then have io: "r = map int [0..<length full]" using lf by (auto simp: in_order_def)
    have "map (\<lambda>p. full ! nat p) (map int [0..<length full]) = full" by (simp add: comp_def map_nth)
    then have "map (\<lambda>p. full ! nat p) r = full" by (simp only: io)
    then show ?thesis using True tf by (auto simp: frame_start_def reorder_args_def Let_def)
  next
    case False
    have "\<not> (\<exists>p \<in> set r. p < 0 \<or> p \<ge> int (length r))" using rng by auto
    moreover have "length base + (k + length rest) = length r" using bk last by (auto simp: r)
    ultimately show ?thesis using False tf lf by (simp add: frame_start_def reorder_args_def Let_def)
  qed
  then show ?thesis using g vals by auto
qed

lemma variadic_at_last:
  "hasVariadic g \<Longrightarrow> ft_params g \<noteq> [] \<and> variadic_at (ft_params g) (length (ft_params g) - 1)"
  by (auto simp: hasVariadic_def variadic_at_def last_conv_nth split: option.splits)

lemma bind_args_matched:
  assumes p: "paramPositions cs (RType BFunc c (Some g) ob) True = Inr (poss @ restp)"
    and r: "regularParamCount g = length poss" and len: "length poss \<le> 126"
    and v: "\<forall>j < length poss. \<not> variadic_at (ft_params g) j"
    and as: "length as = unat (argCount cs)" "assigns poss m" "m \<le> length as"
    and restp: "if hasVariadic g then restp = [if length as > m then -2 else -1] else restp = [] \<and> m = length as"
    and fast: "allPositional cs \<and> \<not> hasVariadic g \<and> length as = length poss \<Longrightarrow> poss = map int [0..<length poss]"
  shows "bind_args nilv mklist dflt cs (RType BFunc c (Some g) ob) (length poss) as =
    Inr (Some (map (\<lambda>(j, p). slot_value dflt as j p) (zip [0..<length poss] poss)
      @ (if hasVariadic g then [mklist (drop m as)] else [])))"
proof (cases "\<not> hasVariadic g \<and> allPositional cs \<and> length as = length poss")
  case True
  then have pi: "poss = map int [0..<length poss]" using fast by simp
  have "poss ! i = int i" if "i < length poss" for i
    using arg_cong [OF pi, of "\<lambda>l. l ! i"] that by simp
  then have "map (\<lambda>(j, p). slot_value dflt as j p) (zip [0..<length poss] poss) = as"
    using True by (intro nth_equalityI) (auto simp: slot_value_def)
  then show ?thesis using True as by (simp add: bind_args_def call_setup_def Let_def frame_start_def reorder_args_def)
next
  case False
  obtain hv where hv: "hv = hasVariadic g" by simp
  have take_len: "length (take m as) = m" using as(3) by simp
  note sp = assigns_split [OF as(2)]
  have assigned: "length (filter (\<lambda>p. p \<ge> 0) (take (length poss) (poss @ restp))) = m" using as(2) by (simp add: assigns_def)
  obtain rest where rest: "rest = (if hv then [mklist (drop m as)] else [])" by simp
  obtain vl where vl: "vl = (if hv \<and> length as > m then mklist (drop m as) else nilv)" by simp
  have cond: "restp = [] \<and> rest = [] \<or>
      (restp = [-1] \<and> variadic_at (ft_params g) (length poss) \<and> rest = [mklist []] \<or> restp = [-2] \<and> rest = [vl])"
    using restp variadic_at_last [of g] r by (auto simp: rest vl hv regularParamCount_def)
  have base: "assigns poss (length (take m as))" using as(2) take_len by simp
  from fill_and_reorder [where mklist = mklist and vl = vl and nilv = nilv and dflt = dflt and rest = rest, OF base v len cond]
  obtain rr stk d where fm: "fill_missing nilv mklist vl (ft_params g) (poss @ restp) 0 (take m as) m = (rr, stk, d, length stk)"
    and fs: "frame_start dflt (length poss) \<lparr>fa_args = stk, fa_reorder = (if in_order rr then [] else rr), fa_defaults = d\<rparr>
      = Some (map (\<lambda>(j, p). slot_value dflt (take m as) j p) (zip [0..<length poss] poss) @ rest)"
    unfolding take_len by blast
  have slots: "map (\<lambda>(j, p). slot_value dflt (take m as) j p) (zip [0..<length poss] poss)
      = map (\<lambda>(j, p). slot_value dflt as j p) (zip [0..<length poss] poss)"
    using sp(4) by (intro map_cong) (auto simp: slot_value_def dest!: set_zip_rightD)
  have as1: "(if hv \<and> m < length as then take (length as - (length as - m)) as else as) = take m as"
    "(if hv \<and> m < length as then m else length as) = m"
    using as(3) restp hv by (auto split: if_splits)
  have vl': "(if hv \<and> m < length as then mklist (drop (length as - (length as - m)) as) else nilv) = vl"
    using as(3) by (simp add: vl)
  have call: "call_setup nilv mklist cs (RType BFunc c (Some g) ob) (length poss) as =
    (if m < length poss \<or> hv then Inr \<lparr>fa_args = stk, fa_reorder = (if in_order rr then [] else rr), fa_defaults = d\<rparr>
     else Inr \<lparr>fa_args = take m as, fa_reorder = poss @ restp, fa_defaults = []\<rparr>)"
  proof -
    have argc: "unat (argCount cs) = length as" using as(1) by simp
    have slow: "\<not> (\<not> hv \<and> allPositional cs \<and> length as = length poss)" using False hv by simp
    have "call_setup nilv mklist cs (RType BFunc c (Some g) ob) (length poss) as =
      (if m < length poss \<or> hv then
         (case fill_missing nilv mklist vl (ft_params g) (poss @ restp) 0 (take m as) m of
            (r, a, d, c) \<Rightarrow> Inr \<lparr>fa_args = a, fa_reorder = (if in_order r then [] else r), fa_defaults = d\<rparr>)
       else if m > length poss then Inl Too_Many_Passed
       else Inr \<lparr>fa_args = take m as, fa_reorder = poss @ restp, fa_defaults = []\<rparr>)"
      unfolding call_setup_def Let_def rtype.sel option.case hv [symmetric] argc if_not_P [OF slow] p sum.case assigned as1 vl'
      by (rule refl)
    then show ?thesis unfolding fm prod.case using sp(2) by simp
  qed
  show ?thesis
  proof (cases "m < length poss \<or> hv")
    case True
    then show ?thesis using call fs slots by (simp add: bind_args_def rest hv)
  next
    case f: False
    then have m: "m = length poss" "restp = []" "m = length as" using sp(2) restp by (auto simp: hv)
    have neg: "\<forall>p \<in> set poss. 0 \<le> p \<and> p < int (length poss)"
    proof
      fix p assume "p \<in> set poss"
      moreover have "filter (\<lambda>p. p < 0) poss = []" using sp(1) m by simp
      ultimately show "0 \<le> p \<and> p < int (length poss)" using sp(4) m by (auto simp: filter_empty_conv)
    qed
    have "map (\<lambda>(j, p). slot_value dflt as j p) (zip [0..<length poss] poss) = map (\<lambda>p. as ! nat p) poss"
    proof (intro nth_equalityI)
      fix i assume "i < length (map (\<lambda>(j, p). slot_value dflt as j p) (zip [0..<length poss] poss))"
      then have i: "i < length poss" by simp
      then have "0 \<le> poss ! i" using neg nth_mem by blast
      then show "map (\<lambda>(j, p). slot_value dflt as j p) (zip [0..<length poss] poss) ! i = map (\<lambda>p. as ! nat p) poss ! i"
        using i by (simp add: slot_value_def)
    qed simp
    then show ?thesis
      using call f m neg by (auto simp: bind_args_def frame_start_def reorder_args_def Let_def hv)
  qed
qed

lemma variadic_only_last:
  "\<not> hasVariadic f \<Longrightarrow> regularParamCount f = length (ft_params f)"
  "hasVariadic f \<Longrightarrow> length (ft_params f) = Suc (regularParamCount f)"
  by (auto simp: regularParamCount_def hasVariadic_def)

text \<open>Only the last parameter is variadic, as the grammar requires.\<close>

definition variadic_last :: "func_type \<Rightarrow> bool" where
  "variadic_last f \<longleftrightarrow> (\<forall>j < regularParamCount f. \<not> variadic_at (ft_params f) j)"

lemma positional_positions:
  assumes "positions_allPositional n f True = Inr poss" "n \<le> 127"
  obtains m restp where "poss = (map int [0..<m] @ replicate (regularParamCount f - m) (-1)) @ restp"
    "m = min n (regularParamCount f)"
    "if hasVariadic f then restp = [if n > m then -2 else -1] else restp = [] \<and> m = n"
proof -
  have i: "map int8 [0..<min n r] = map int [0..<min n r]" for r using assms(2) by (intro map_cong) auto
  show ?thesis
    using assms
    by (intro that [of "min n (regularParamCount f)" "if hasVariadic f then [if n > regularParamCount f then -2 else -1] else []"])
      (auto simp: positions_allPositional_def Let_def finish_positions_Inr i min_def split: if_splits)
qed

text \<open>A positional call that passes every regular parameter is placed as it stands.\<close>

lemma fill_missing_filled:
  "\<forall>p \<in> set poss. 0 \<le> p \<Longrightarrow> fill_missing nilv mklist vl ps poss i stk argc = (poss, stk, [], argc)"
  by (induction poss arbitrary: i) auto

lemma check_required_filled:
  "\<forall>p \<in> set poss. 0 \<le> p \<Longrightarrow> q = -1 \<longrightarrow> variadic_at ps (length poss) \<Longrightarrow> check_required ps (poss @ [q]) i = None"
proof (induction poss arbitrary: ps i)
  case Nil
  then show ?case by (cases ps) (auto simp: variadic_at_def split: option.splits)
next
  case (Cons p poss)
  then show ?case by (cases ps) (auto simp: variadic_at_def)
qed

lemma in_order_upto [simp]: "in_order (map int [0..<n])"
  by (simp add: in_order_def)

lemma call_setup_positional:
  assumes "allPositional cs" "length as = unat (argCount cs)" "length as \<le> 127" "regularParamCount g \<le> 126" "variadic_last g"
    and "if hasVariadic g then regularParamCount g \<le> length as else regularParamCount g = length as"
  shows "call_setup nilv mklist cs (RType BFunc c (Some g) ob) (regularParamCount g) as =
    Inr \<lparr>fa_args = take (regularParamCount g) as @ (if hasVariadic g then [mklist (drop (regularParamCount g) as)] else []),
      fa_reorder = [], fa_defaults = []\<rparr>"
proof (cases "hasVariadic g")
  case True
  let ?n = "regularParamCount g"
  have n: "?n \<le> length as" using assms(6) True by simp
  have v: "variadic_at (ft_params g) ?n"
    using variadic_at_last [OF True] variadic_only_last(2) [OF True] by simp
  obtain q where q: "q = (if length as > ?n then -2 else - 1 :: int)" by simp
  have i: "map int8 [0..<?n] = map int [0..<?n]" using n assms(3) by (intro map_cong) auto
  have p: "paramPositions cs (RType BFunc c (Some g) ob) True = Inr (map int [0..<?n] @ [q])"
    using assms(1) True n check_required_filled [of "map int [0..<?n]" q "ft_params g" 0] v
    by (cases "length as = ?n")
      (simp_all add: paramPositions_def positions_allPositional_def finish_positions_def i q min_absorb2 del: map_eq_conv flip: assms(2))
  have f: "length (filter (\<lambda>p. p \<ge> 0) (map int [0..<?n])) = ?n" by simp
  have i8: "int8 ?n = int ?n" using assms(4) by simp
  have up: "in_order (map int [0..<?n] @ [int ?n])" using in_order_upto [of "Suc ?n"] by simp
  have fill: "fill_missing nilv mklist vl (ft_params g) (map int [0..<?n] @ [q]) 0 stk ?n
      = (map int [0..<?n] @ [int ?n], stk @ [if q = -1 then mklist [] else vl], [], Suc ?n)" for vl stk
    using v i8 by (simp add: fill_missing_append fill_missing_filled q)
  show ?thesis
  proof (cases "length as = ?n")
    case True
    then show ?thesis using \<open>hasVariadic g\<close> assms(2) fill [of nilv as] up
      by (simp add: call_setup_def p Let_def f q del: fill_missing.simps)
  next
    case False
    then have l: "length as > ?n" using n by simp
    have d: "length as - (length as - ?n) = ?n" using l by simp
    show ?thesis using l \<open>hasVariadic g\<close> assms(2) fill up d
      by (simp add: call_setup_def p Let_def f q del: fill_missing.simps)
  qed
qed (use assms in \<open>simp add: call_setup_def Let_def\<close>)

lemma named_positions_assign:
  assumes n: "named_pass ps as 0 (replicate (length ps) (-1)) = Inr poss" and a: "list_all (\<lambda>a. \<not> positional a) as"
    and d: "distinct (param_targets ps as)" and len: "length as \<le> 127"
  shows "length poss = length ps" "assigns poss (length as)"
    "\<And>i. i < length ps \<Longrightarrow> int i \<notin> set (param_targets ps as) \<Longrightarrow> poss ! i = -1"
    "\<And>k. k < length as \<Longrightarrow> 0 \<le> param_targets ps as ! k \<and> nat (param_targets ps as ! k) < length ps
        \<and> poss ! nat (param_targets ps as ! k) = int k"
proof -
  let ?ts = "param_targets ps as"
  have e: "length poss = length ps \<and> pos_entries (length as) poss"
    using named_pass_entries [OF n, of "length as"] len by (simp add: pos_entries_def)
  then show lp: "length poss = length ps" ..
  note t = named_pass_targets [OF n a]
  show miss: "poss ! i = -1" if "i < length ps" "int i \<notin> set ?ts" for i
    using t that by simp
  show hit: "0 \<le> ?ts ! k \<and> nat (?ts ! k) < length ps \<and> poss ! nat (?ts ! k) = int k" if "k < length as" for k
  proof -
    have "0 \<le> ?ts ! k" using t that by (simp add: list_all_length)
    moreover from this have "nat (?ts ! k) < length ps" using paramIndex_bound [of ps 0] that by simp
    moreover have "poss ! nat (?ts ! k) = int (0 + k)" using named_pass_hits [OF n a d] len that by simp
    ultimately show ?thesis by simp
  qed
  have "{i. i < length poss \<and> 0 \<le> poss ! i} = nat ` set ?ts"
  proof
    show "{i. i < length poss \<and> 0 \<le> poss ! i} \<subseteq> nat ` set ?ts"
      using miss lp by (force intro!: image_eqI [of _ nat "int _"])
    show "nat ` set ?ts \<subseteq> {i. i < length poss \<and> 0 \<le> poss ! i}"
      using hit lp by (auto simp: set_conv_nth image_iff)
  qed
  moreover have "card (nat ` set ?ts) = card (set ?ts)"
    using t by (intro card_image inj_onI) (auto simp: list_all_iff eq_nat_nat_iff)
  ultimately have "length (filter (\<lambda>p. 0 \<le> p) poss) = length as"
    using distinct_card [OF d] by (simp add: length_filter_conv_card)
  then show "assigns poss (length as)" using e by (auto simp: assigns_def pos_entries_def in_set_conv_nth)
qed

section \<open>Properties\<close>

lemma positional_binding:
  assumes "paramPositions cs (RType BFunc c (Some f) ob) True = Inr poss" "allPositional cs"
    and "length stk = unat (argCount cs)" "length stk \<le> 127" "regularParamCount f \<le> 126" "variadic_last f"
  shows "bind_args nilv mklist dflt cs (RType BFunc c (Some f) ob) (regularParamCount f) stk =
    Inr (Some (map (\<lambda>i. if i < length stk then stk ! i else dflt i) [0..<regularParamCount f]
      @ (if hasVariadic f then [mklist (drop (regularParamCount f) stk)] else [])))"
proof -
  have "positions_allPositional (length stk) f True = Inr poss" using assms(1-3) by (simp add: paramPositions_def)
  then obtain m restp where poss: "poss = (map int [0..<m] @ replicate (regularParamCount f - m) (-1)) @ restp"
    and m: "m = min (length stk) (regularParamCount f)"
    and restp: "if hasVariadic f then restp = [if length stk > m then -2 else -1] else restp = [] \<and> m = length stk"
    using positional_positions assms(4) by blast
  obtain ps where ps: "ps = map int [0..<m] @ replicate (regularParamCount f - m) (-1)" by simp
  have lps: "regularParamCount f = length ps" using m by (simp add: ps)
  have "assigns ps m" by (auto simp: assigns_def ps)
  have b: "bind_args nilv mklist dflt cs (RType BFunc c (Some f) ob) (length ps) stk =
    Inr (Some (map (\<lambda>(j, p). slot_value dflt stk j p) (zip [0..<length ps] ps)
      @ (if hasVariadic f then [mklist (drop m stk)] else [])))"
  proof (rule bind_args_matched [OF _ lps _ _ assms(3) \<open>assigns ps m\<close> _ restp])
    show "paramPositions cs (RType BFunc c (Some f) ob) True = Inr (ps @ restp)" using assms(1) poss ps by simp
    show "length ps \<le> 126" "m \<le> length stk" using assms(5) lps m by simp_all
    show "\<forall>j<length ps. \<not> variadic_at (ft_params f) j" using assms(6) lps by (simp add: variadic_last_def)
    show "ps = map int [0..<length ps]" if "allPositional cs \<and> \<not> hasVariadic f \<and> length stk = length ps"
    proof -
      have "m = regularParamCount f" using that m lps by simp
      then have "ps = map int [0..<regularParamCount f]" using ps by simp
      then show ?thesis by simp
    qed
  qed
  have "map (\<lambda>(j, p). slot_value dflt stk j p) (zip [0..<length ps] ps)
    = map (\<lambda>i. if i < length stk then stk ! i else dflt i) [0..<length ps]"
  proof (intro nth_equalityI)
    fix i assume "i < length (map (\<lambda>(j, p). slot_value dflt stk j p) (zip [0..<length ps] ps))"
    then have i: "i < length ps" by simp
    have "ps ! i = (if i < length stk then int i else -1)" using i lps m unfolding ps by (auto simp: nth_append)
    then show "map (\<lambda>(j, p). slot_value dflt stk j p) (zip [0..<length ps] ps) ! i
      = map (\<lambda>i. if i < length stk then stk ! i else dflt i) [0..<length ps] ! i"
      using i by (simp add: slot_value_def)
  qed simp
  moreover have "drop m stk = drop (length ps) stk" using m lps by (auto simp: min_def)
  ultimately show ?thesis using b lps by simp
qed

text \<open>
  C22. A positional call brings its arguments to the callee as written: slot \<open>i\<close> of the frame holds
  argument \<open>i\<close>, or the default of parameter \<open>i\<close> when the call does not reach it, and the variadic
  parameter, if there is one, holds the list of the arguments after the regular ones.  This composes
  the matching, the collection of extra arguments, the place-holders of the defaults, their
  results and the final reordering, and covers the fast path that skips all of them.
\<close>

theorem positional_call_binds:
  assumes "paramPositions cs (RType BFunc c (Some f) ob) True = Inr poss" "allPositional cs"
    and "length stk = unat (argCount cs)" "length stk \<le> 127" "regularParamCount f \<le> 126" "variadic_last f"
  shows "bind_args nilv mklist dflt cs (RType BFunc c (Some f) ob) (regularParamCount f) stk =
    Inr (Some (map (\<lambda>i. if i < length stk then stk ! i else dflt i) [0..<regularParamCount f]
      @ (if hasVariadic f then [mklist (drop (regularParamCount f) stk)] else [])))"
  by (rule positional_binding [OF assms])

lemma targets_bind:
  assumes "paramPositions cs (RType BFunc c (Some f) ob) True = Inr poss"
    and "\<not> allPositional cs" "list_all (\<lambda>a. \<not> positional a) (args cs)"
    and "distinct (param_targets (ft_params f) (args cs))"
    and "length (args cs) = unat (argCount cs)" "length stk = unat (argCount cs)" "unat (argCount cs) \<le> 127"
    and "\<not> hasVariadic f" "variadic_last f" "length (ft_params f) \<le> 126"
  shows "\<exists>slots. bind_args nilv mklist dflt cs (RType BFunc c (Some f) ob) (length (ft_params f)) stk = Inr (Some slots)
    \<and> length slots = length (ft_params f)
    \<and> (\<forall>k < length stk. slots ! nat (param_targets (ft_params f) (args cs) ! k) = stk ! k)
    \<and> (\<forall>i < length slots. int i \<notin> set (param_targets (ft_params f) (args cs)) \<longrightarrow> slots ! i = dflt i)"
proof -
  have "named_pass (ft_params f) (args cs) 0 (replicate (length (ft_params f)) (-1)) = Inr poss"
    using assms(1-3,8)
    by (auto simp: paramPositions_def positions_named_def Let_def seq_then_eq_Inr finish_positions_Inr positional_pass_named)
  note n = named_positions_assign [OF this assms(3,4)]
  have len: "length (args cs) \<le> 127" "length (args cs) = length stk" using assms(5-7) by simp_all
  obtain slots where sl: "slots = map (\<lambda>(j, p). slot_value dflt stk j p) (zip [0..<length poss] poss)" by simp
  have "bind_args nilv mklist dflt cs (RType BFunc c (Some f) ob) (length poss) stk =
    Inr (Some (map (\<lambda>(j, p). slot_value dflt stk j p) (zip [0..<length poss] poss)
      @ (if hasVariadic f then [mklist (drop (length stk) stk)] else [])))"
  proof (rule bind_args_matched [where restp = "[]"])
    show "paramPositions cs (RType BFunc c (Some f) ob) True = Inr (poss @ [])" using assms(1) by simp
    show "regularParamCount f = length poss" using n(1) [OF len(1)] assms(8) by (simp add: variadic_only_last)
    show "\<forall>j<length poss. \<not> variadic_at (ft_params f) j"
      using assms(8,9) n(1) [OF len(1)] by (simp add: variadic_last_def variadic_only_last)
    show "assigns poss (length stk)" using n(2) [OF len(1)] len(2) by simp
  qed (use assms n(1) [OF len(1)] in auto)
  then have b: "bind_args nilv mklist dflt cs (RType BFunc c (Some f) ob) (length (ft_params f)) stk = Inr (Some slots)"
    using assms(8) n(1) [OF len(1)] sl by simp
  have l: "length slots = length (ft_params f)" using n(1) [OF len(1)] sl by simp
  have slot: "slots ! i = slot_value dflt stk i (poss ! i)" if "i < length (ft_params f)" for i
    using that n(1) [OF len(1)] sl by simp
  have "slots ! nat (param_targets (ft_params f) (args cs) ! k) = stk ! k" if k: "k < length stk" for k
    using n(4) [OF len(1), of k] k len(2) slot by (simp add: slot_value_def)
  moreover have "slots ! i = dflt i" if "i < length slots" "int i \<notin> set (param_targets (ft_params f) (args cs))" for i
    using n(3) [OF len(1), of i] that l slot by (simp add: slot_value_def)
  ultimately show ?thesis using b l by blast
qed

text \<open>The 15 hash bits of a call decide the parameter: with distinct bits it is the one of that name.\<close>

lemma low_15: "w AND 0x7fff = take_bit 15 (w :: 'a :: len word)"
  by (simp add: take_bit_eq_mask mask_eq_exp_minus_1)

lemma low_bits_inj: "(ucast (a AND 0x7fff) :: u16) = ucast (b AND 0x7fff) \<longleftrightarrow> a AND 0x7fff = b AND 0x7fff" for a b :: u32
proof
  assume e: "(ucast (a AND 0x7fff) :: u16) = ucast (b AND 0x7fff)"
  show "a AND 0x7fff = b AND 0x7fff"
  proof (rule bit_eqI)
    fix i
    show "bit (a AND 0x7fff) i \<longleftrightarrow> bit (b AND 0x7fff) i"
      using arg_cong [OF e, of "\<lambda>w. bit w i"] unfolding low_15 by (cases "i < 15") (auto simp: bit_simps)
  qed
qed simp

lemma built_hash:
  assumes "n \<noteq> []"
  shows "paramNameHash (build_arg_spec hash n) AND 0x7fff = ucast (hash n AND 0x7fff)"
proof -
  have p: "(0x8000 :: u16) = push_bit 15 1" by simp
  have "(0x8000 OR ucast (w AND 0x7fff)) AND 0x7fff = (ucast (w AND 0x7fff) :: u16)" for w :: u32
    unfolding low_15 p by (rule bit_eqI) (auto simp: bit_simps)
  then show ?thesis using assms by (simp add: build_arg_spec_def)
qed

lemma paramIndex_named:
  assumes "\<forall>p \<in> set ps. \<not> pt_variadic p \<and> pt_hash p = hash (pt_name p)" "distinct (map pt_name ps)"
    and "inj_on (\<lambda>n. hash n AND 0x7fff) (pt_name ` set ps)" "j < length ps" "i + length ps \<le> 127" "pt_name (ps ! j) \<noteq> []"
  shows "paramIndex (map Some ps) i (paramNameHash (build_arg_spec hash (pt_name (ps ! j)))) = int (i + j)"
  using assms
proof (induction ps arbitrary: i j)
  case (Cons p ps)
  have b: "paramNameHash (build_arg_spec hash (pt_name ((p # ps) ! j))) AND 0x7fff = ucast (hash (pt_name ((p # ps) ! j)) AND 0x7fff)"
    by (rule built_hash [OF Cons.prems(6)])
  show ?case
  proof (cases j)
    case 0
    then show ?thesis using Cons.prems(1,5) b by simp
  next
    case (Suc k)
    then have k: "k < length ps" using Cons.prems(4) by simp
    then have ne: "pt_name p \<noteq> pt_name (ps ! k)" using Cons.prems(2) by auto
    have "hash (pt_name p) AND 0x7fff \<noteq> hash (pt_name (ps ! k)) AND 0x7fff"
    proof
      assume "hash (pt_name p) AND 0x7fff = hash (pt_name (ps ! k)) AND 0x7fff"
      then have "pt_name p = pt_name (ps ! k)" by (rule inj_onD [OF Cons.prems(3)]) (use k in auto)
      then show False using ne by simp
    qed
    then have "paramIndex (map Some (p # ps)) i (paramNameHash (build_arg_spec hash (pt_name (ps ! k))))
        = paramIndex (map Some ps) (Suc i) (paramNameHash (build_arg_spec hash (pt_name (ps ! k))))"
      using Cons.prems(1) b Suc by (simp add: low_bits_inj)
    moreover have "inj_on (\<lambda>n. hash n AND 0x7fff) (pt_name ` set ps)"
      by (rule inj_on_subset [OF Cons.prems(3)]) auto
    ultimately show ?thesis
      using Cons.IH [of k "Suc i"] Cons.prems(1,2,5,6) k Suc by simp
  qed
qed simp

lemma named_pass_total:
  assumes "list_all (\<lambda>a. \<not> positional a) as" "list_all (\<lambda>t. 0 \<le> t) (param_targets ps as)"
  shows "\<exists>poss. named_pass ps as ai poss0 = Inr poss"
  using assms by (induction as arbitrary: ai poss0) (auto simp: Let_def)

lemma check_required_met:
  assumes "\<And>j. j < length ps \<Longrightarrow> j < length poss \<Longrightarrow> poss ! j = -1 \<Longrightarrow> pt_hasDefault (ps ! j)"
  shows "check_required (map Some ps) poss i = None"
  using assms
proof (induction ps arbitrary: poss i)
  case (Cons p ps)
  show ?case
  proof (cases poss)
    case (Cons q qs)
    have "check_required (map Some ps) qs (Suc i) = None"
      by (rule Cons.IH) (use Cons.prems [of "Suc _"] Cons in auto)
    then show ?thesis using Cons.prems [of 0] Cons by auto
  qed simp
qed simp

text \<open>
  C24. In a call that names all its arguments, none twice, each name a parameter of the function, and
  that leaves out only parameters with a default, the slot of every parameter holds the argument
  given under the parameter's name, or its default where the call does not name it, whatever the
  order of the call.  The call carries 15 bits of the hash of a name; the parameters' names must
  differ in these bits.  The function has no variadic parameter and at most 126 parameters.
\<close>

theorem named_call_binds:
  assumes "buildCallSpec hash names = Inr cs" "names \<noteq> []" "[] \<notin> set names" "distinct names"
    and "ft_params f = map Some ps" "\<forall>p \<in> set ps. \<not> pt_variadic p \<and> pt_hash p = hash (pt_name p)"
    and "distinct (map pt_name ps)" "inj_on (\<lambda>n. hash n AND 0x7fff) (pt_name ` set ps)" "set names \<subseteq> pt_name ` set ps"
    and "\<forall>p \<in> set ps. pt_hasDefault p \<or> pt_name p \<in> set names" "length stk = length names" "length ps \<le> 126"
  shows "\<exists>slots. bind_args nilv mklist dflt cs (RType BFunc c (Some f) ob) (length ps) stk = Inr (Some slots)
    \<and> length slots = length ps
    \<and> (\<forall>i < length ps. slots ! i = (case map_of (zip names stk) (pt_name (ps ! i)) of Some v \<Rightarrow> v | None \<Rightarrow> dflt i))"
proof -
  have ne: "\<not> list_all (\<lambda>n. n = []) names" using assms(2,3) by (cases names) auto
  have l: "length names \<le> 127" using assms(1) by (simp add: buildCallSpec_def split: if_splits)
  have "cs = \<lparr>argCount = word_of_nat (length names), allPositional = False, args = map (build_arg_spec hash) names\<rparr>"
    using assms(1) ne l by (simp add: buildCallSpec_def)
  then have cs: "\<not> allPositional cs" "args cs = map (build_arg_spec hash) names" "unat (argCount cs) = length names"
    using l by (simp_all add: unat_of_nat)
  have np: "list_all (\<lambda>a. \<not> positional a) (args cs)"
    using assms(3) by (auto simp: cs(2) list_all_iff build_arg_spec_def)
  have target: "paramIndex (ft_params f) 0 (paramNameHash (build_arg_spec hash (pt_name (ps ! j)))) = int j"
    if "j < length ps" "pt_name (ps ! j) \<in> set names" for j
    using paramIndex_named [OF assms(6-8) that(1), of 0] that(2) assms(3,5,12) by force
  have "\<forall>n \<in> set names. \<exists>j. j < length ps \<and> pt_name (ps ! j) = n"
  proof
    fix n assume "n \<in> set names"
    then obtain p where "p \<in> set ps" "n = pt_name p" using assms(9) by auto
    then show "\<exists>j. j < length ps \<and> pt_name (ps ! j) = n" by (auto simp: in_set_conv_nth)
  qed
  then obtain at where at: "\<And>n. n \<in> set names \<Longrightarrow> at n < length ps \<and> pt_name (ps ! at n) = n"
    using bchoice [of "set names" "\<lambda>n j. j < length ps \<and> pt_name (ps ! j) = n"] by blast
  have at_name: "at (pt_name (ps ! j)) = j" if "j < length ps" "pt_name (ps ! j) \<in> set names" for j
    using at [OF that(2)] that(1) nth_eq_iff_index_eq [OF assms(7), of "at (pt_name (ps ! j))" j] by simp
  have "paramIndex (ft_params f) 0 (paramNameHash (build_arg_spec hash n)) = int (at n)" if "n \<in> set names" for n
    using target [of "at n"] at [OF that] that by simp
  then have ts: "param_targets (ft_params f) (args cs) = map (\<lambda>n. int (at n)) names"
    by (simp add: cs(2))
  have tk: "param_targets (ft_params f) (args cs) ! k = int j"
    if "k < length names" "names ! k = pt_name (ps ! j)" "j < length ps" for k j
    unfolding ts using at_name [OF that(3)] nth_mem [OF that(1)] that(1,2) by simp
  have d: "distinct (param_targets (ft_params f) (args cs))"
    unfolding ts distinct_map
  proof (intro conjI assms(4) inj_onI)
    fix m n assume mn: "m \<in> set names" "n \<in> set names" "int (at m) = int (at n)"
    then have e: "at m = at n" by simp
    show "m = n" using conjunct2 [OF at [OF mn(1)]] conjunct2 [OF at [OF mn(2)]] unfolding e by simp
  qed
  have "list_all (\<lambda>t. 0 \<le> t) (param_targets (ft_params f) (args cs))" by (simp only: ts) (simp add: list_all_iff)
  from named_pass_total [OF np this, of 0 "replicate (length (ft_params f)) (-1)"]
  obtain poss where poss: "named_pass (ft_params f) (args cs) 0 (replicate (length (ft_params f)) (-1)) = Inr poss" ..
  have len: "length (args cs) \<le> 127" using cs(2) l by simp
  note n = named_positions_assign [OF poss np d len]
  have nv: "\<not> hasVariadic f" "variadic_last f"
    using assms(5,6) last_in_set [of ps]
    by (auto simp: hasVariadic_def variadic_last_def regularParamCount_def variadic_at_def last_map split: if_splits)
  have "check_required (ft_params f) poss 0 = None"
    unfolding assms(5)
  proof (rule check_required_met)
    fix j assume j: "j < length ps" "poss ! j = -1"
    have "pt_name (ps ! j) \<notin> set names"
    proof
      assume "pt_name (ps ! j) \<in> set names"
      then obtain k where k: "k < length names" "names ! k = pt_name (ps ! j)" by (auto simp: in_set_conv_nth)
      have "k < length (args cs)" using k(1) cs(2) by simp
      then have "poss ! j = int k" using n(4) [of k] unfolding tk [OF k j(1)] by simp
      then show False using j(2) by simp
    qed
    then show "pt_hasDefault (ps ! j)" using assms(10) j(1) by auto
  qed
  then have pp: "paramPositions cs (RType BFunc c (Some f) ob) True = Inr poss"
    using poss cs(1) nv(1) positional_pass_named [OF np]
    by (simp add: paramPositions_def positions_named_def finish_positions_def Let_def)
  have lf: "length (ft_params f) = length ps" by (simp add: assms(5))
  obtain slots where sl: "bind_args nilv mklist dflt cs (RType BFunc c (Some f) ob) (length ps) stk = Inr (Some slots)"
    "length slots = length ps" "\<forall>k < length stk. slots ! nat (param_targets (ft_params f) (args cs) ! k) = stk ! k"
    "\<forall>i < length slots. int i \<notin> set (param_targets (ft_params f) (args cs)) \<longrightarrow> slots ! i = dflt i"
    using targets_bind [OF pp cs(1) np d _ _ _ nv, of stk nilv mklist dflt] cs(2,3) l assms(11,12) lf by auto
  have "slots ! i = (case map_of (zip names stk) (pt_name (ps ! i)) of Some v \<Rightarrow> v | None \<Rightarrow> dflt i)" if i: "i < length ps" for i
  proof (cases "pt_name (ps ! i) \<in> set names")
    case True
    then obtain k where k: "k < length names" "names ! k = pt_name (ps ! i)" by (auto simp: in_set_conv_nth)
    have "map_of (zip names stk) (names ! k) = Some (stk ! k)"
      using k(1) assms(4,11) by (simp add: map_of_zip_nth)
    moreover have "slots ! i = stk ! k" using sl(3) k(1) assms(11) tk [OF k i] by force
    ultimately show ?thesis by (simp add: k(2))
  next
    case False
    have "int i \<notin> set (param_targets (ft_params f) (args cs))" using at False by (auto simp: ts)
    moreover have "map_of (zip names stk) (pt_name (ps ! i)) = None" using False assms(11) by simp
    ultimately show ?thesis using sl(2,4) i by simp
  qed
  then show ?thesis using sl(1,2) by blast
qed

text \<open>
  A call that gives the first of two parameters both by position and by name, the second having a
  default, passes all checks of \<open>VM::call\<close>: the argument count equals the arity, so the missing
  parameter is not filled in, and starting the frame reads the popped arguments at position \<open>-1\<close>.
\<close>

theorem parameter_given_twice_reads_outside:
  assumes "pt_variadic p = False" "pt_variadic q = False" "pt_hasDefault q"
    and "h AND 0x7fff = ucast (pt_hash p AND 0x7fff)"
  shows "bind_args nilv mklist dflt
      \<lparr>argCount = 2, allPositional = False,
        args = [\<lparr>positional = True, paramNameHash = 0\<rparr>, \<lparr>positional = False, paramNameHash = h\<rparr>]\<rparr>
      (RType BFunc c (Some (FuncType pr [Some p, Some q] rts)) ob) 2 [x, y] = Inr None"
proof -
  have "paramPositions \<lparr>argCount = 2, allPositional = False,
        args = [\<lparr>positional = True, paramNameHash = 0\<rparr>, \<lparr>positional = False, paramNameHash = h\<rparr>]\<rparr>
      (RType BFunc c (Some (FuncType pr [Some p, Some q] rts)) ob) True = Inr [0, -1]"
    using assms
    by (simp add: paramPositions_def positions_named_def hasVariadic_def regularParamCount_def finish_positions_def Let_def
        numeral_2_eq_2)
  then show ?thesis
    using assms by (simp add: bind_args_def call_setup_def hasVariadic_def frame_start_def reorder_args_def Let_def)
qed

theorem parameter_given_twice_reads_outside_witness:
  "bind_args (0 :: int) (\<lambda>_. 9) (\<lambda>_. 5)
      \<lparr>argCount = 2, allPositional = False,
        args = [\<lparr>positional = True, paramNameHash = 0\<rparr>, \<lparr>positional = False, paramNameHash = 0x8061\<rparr>]\<rparr>
      (RType BFunc False (Some (FuncType False [Some (ParamType [97] 97 None False False),
        Some (ParamType [98] 98 None True False)] [])) None) 2 [1, 2] = Inr None"
  by (rule parameter_given_twice_reads_outside) simp_all

text \<open>
  An argument named after the extra arguments of a variadic call is lost: the last arguments on the
  stack are taken for the variadic ones, whatever the matching said.  For \<open>f(a, ...rest)\<close> called as
  \<open>f(x, y, a=z)\<close> the position of \<open>a\<close> is 2 but only one argument is left on the stack, so
  starting the frame reads outside the arguments.
\<close>

theorem named_after_extra_arguments_reads_outside:
  assumes "pt_variadic p = False" "pt_variadic q"
    and "h AND 0x7fff = ucast (pt_hash p AND 0x7fff)"
  shows "bind_args nilv mklist dflt
      \<lparr>argCount = 3, allPositional = False,
        args = [\<lparr>positional = True, paramNameHash = 0\<rparr>, \<lparr>positional = True, paramNameHash = 0\<rparr>,
          \<lparr>positional = False, paramNameHash = h\<rparr>]\<rparr>
      (RType BFunc c (Some (FuncType pr [Some p, Some q] rts)) ob) 1 [x, y, z] = Inr None"
proof -
  have "paramPositions \<lparr>argCount = 3, allPositional = False,
        args = [\<lparr>positional = True, paramNameHash = 0\<rparr>, \<lparr>positional = True, paramNameHash = 0\<rparr>,
          \<lparr>positional = False, paramNameHash = h\<rparr>]\<rparr>
      (RType BFunc c (Some (FuncType pr [Some p, Some q] rts)) ob) True = Inr [2, -2]"
    using assms
    by (simp add: paramPositions_def positions_named_def hasVariadic_def regularParamCount_def finish_positions_def Let_def
        numeral_2_eq_2)
  then show ?thesis
    using assms by (simp add: bind_args_def call_setup_def hasVariadic_def frame_start_def reorder_args_def Let_def in_order_def)
qed

theorem named_after_extra_arguments_reads_outside_witness:
  "bind_args (0 :: int) (\<lambda>_. 9) (\<lambda>_. 5)
      \<lparr>argCount = 3, allPositional = False,
        args = [\<lparr>positional = True, paramNameHash = 0\<rparr>, \<lparr>positional = True, paramNameHash = 0\<rparr>,
          \<lparr>positional = False, paramNameHash = 0x8061\<rparr>]\<rparr>
      (RType BFunc False (Some (FuncType False [Some (ParamType [97] 97 None False False),
        Some (ParamType [98] 98 None False True)] [])) None) 1 [7, 8, 1] = Inr None"
  by (rule named_after_extra_arguments_reads_outside) simp_all

theorem positional_call_binds_witness:
  "bind_args (0 :: int) sum_list (\<lambda>i. 50 + int i) \<lparr>argCount = 1, allPositional = True, args = []\<rparr>
     (RType BFunc False (Some (FuncType False [Some (ParamType [97] 97 None False False),
        Some (ParamType [98] 98 None True False), Some (ParamType [99] 99 None False True)] [])) None) 2 [7]
   = Inr (Some [7, 51, 0])"
proof -
  let ?f = "FuncType False [Some (ParamType [97] 97 None False False),
        Some (ParamType [98] 98 None True False), Some (ParamType [99] 99 None False True)] []"
  let ?cs = "\<lparr>argCount = 1, allPositional = True, args = []\<rparr>"
  have p: "paramPositions ?cs (RType BFunc False (Some ?f) None) True = Inr [0, -1, -1]"
    by (simp add: paramPositions_def positions_allPositional_def regularParamCount_def hasVariadic_def finish_positions_def Let_def)
  have "regularParamCount ?f = 2" "variadic_last ?f"
    by (auto simp: regularParamCount_def hasVariadic_def variadic_last_def variadic_at_def nth_Cons split: nat.splits)
  then show ?thesis
    using positional_call_binds [OF p, of "[7]" 0 sum_list "\<lambda>i. 50 + int i"] by (simp add: hasVariadic_def upt_rec)
qed

theorem named_call_binds_witness:
  "\<exists>slots. bind_args (0 :: int) sum_list (\<lambda>i. 50 + int i)
      \<lparr>argCount = 1, allPositional = False, args = [\<lparr>positional = False, paramNameHash = 0x8062\<rparr>]\<rparr>
      (RType BFunc False (Some (FuncType False [Some (ParamType [97] 97 None True False),
        Some (ParamType [98] 98 None False False)] [])) None) 2 [7] = Inr (Some slots)
    \<and> length slots = 2 \<and> slots ! 1 = 7 \<and> slots ! 0 = 50"
proof -
  let ?ps = "[ParamType [97] 97 None True False, ParamType [98] 98 None False False]"
  let ?f = "FuncType False (map Some ?ps) []"
  let ?cs = "\<lparr>argCount = 1, allPositional = False, args = [\<lparr>positional = False, paramNameHash = 0x8062\<rparr>]\<rparr>"
  have b: "buildCallSpec ustring_hashCode [[98]] = Inr ?cs"
    by (simp add: buildCallSpec_def build_arg_spec_def ustring_hashCode_def)
  have h: "ustring_hashCode [97] = 97" "ustring_hashCode [98] = 98" by (simp_all add: ustring_hashCode_def)
  have "\<exists>slots. bind_args (0 :: int) sum_list (\<lambda>i. 50 + int i) ?cs (RType BFunc False (Some ?f) None) (length ?ps) [7] = Inr (Some slots)
    \<and> length slots = length ?ps
    \<and> (\<forall>i < length ?ps. slots ! i = (case map_of (zip [[98]] [7]) (pt_name (?ps ! i)) of Some v \<Rightarrow> v | None \<Rightarrow> 50 + int i))"
    by (rule named_call_binds [OF b]) (simp_all add: h)
  then show ?thesis by (auto simp: less_Suc_eq numeral_2_eq_2)
qed

end
