(* ===== verification/Vm_State.thy ===== *)
theory Vm_State
  imports Call_Setup Variables_Map
begin

text \<open>
  The state of one thread of the virtual machine and the operations its instructions share: the value
  stack (\<open>compiler/Thread.h\<close>), the call frames (\<open>compiler/Chunk.h\<close>, \<open>compiler/Thread.cpp\<close>), and, in
  \<open>compiler/VM.cpp\<close>, the captured variables with their open list, the return from a frame and the
  unwinding to an exception handler.  The stack is the fixed buffer of the source with its top index,
  so a popped slot keeps its word unless it held an object.  A pointer into the stack is an index.
  All functions belong to one module, \<open>modl\<close>.  Events, continuations, futures, signals and the debugger do not occur in the state.
\<close>

section \<open>Objects\<close>

type_synonym addr = nat

datatype upvalue_location = On_Stack nat | Own_Copy

record fn =
  fn_code :: "byte list"
  fn_constants :: "operand list"
  fn_arity :: nat
  fn_upvalueCount :: nat
  fn_strict :: bool
  fn_type :: "rtype option"
  fn_paramDefaultFunc :: "(u32 \<times> addr) list"

datatype obj =
  O_Function fn
| O_Closure addr "addr list"
| O_Upvalue upvalue_location operand
| O_Exception operand
| O_List "operand list"

definition obj_at :: "obj list \<Rightarrow> addr \<Rightarrow> obj option" where
  "obj_at h a = (if a < length h then Some (h ! a) else None)"

section \<open>Frames and threads\<close>

record handler =
  h_ip :: nat
  h_stackDepth :: nat
  h_frameDepth :: nat

record frame =
  fr_closure :: addr
  ip :: nat
  slots :: nat
  parent :: "nat option"
  fr_strict :: bool
  callerStrict :: bool
  tailArgValues :: "operand list"
  reorderArgs :: "int list"
  exceptionHandlers :: "handler list"
  unwindOnReturn :: bool

text \<open>
  \<open>frames\<close> and \<open>exceptionHandlers\<close> have the back of the C++ vector first; \<open>parent\<close> is an index from
  the other end.  \<open>openUpvalues\<close> is the list of the source.
\<close>

record thread =
  stack :: "operand list"
  stackTop :: nat
  frames :: "frame list"
  openUpvalues :: "addr list"
  heap :: "obj list"
  frameStart :: bool
  modl :: module

datatype stop =
  Finished operand
| Value_Stack_Overflow
| Call_Stack_Overflow
| Runtime_Failure op_error
| Call_Failure call_fail
| Variable_Failure var_error
| Captured_In_Default
| Not_Callable
| Uncaught operand
| Undefined
| Outside_Model

section \<open>The value stack\<close>

definition is_obj :: "operand \<Rightarrow> bool" where
  "is_obj v \<longleftrightarrow> (case v of Sc (SInt i) \<Rightarrow> \<not> fitsInInt32 (sint i) | Sc _ \<Rightarrow> False | _ \<Rightarrow> True)"

definition push :: "operand \<Rightarrow> thread \<Rightarrow> stop + thread" where
  "push v t =
     (if stackTop t = length (stack t) then Inl Value_Stack_Overflow
      else Inr (t\<lparr>stack := (stack t)[stackTop t := v], stackTop := stackTop t + 1\<rparr>))"

definition pop :: "thread \<Rightarrow> stop + (operand \<times> thread)" where
  "pop t =
     (if stackTop t = 0 then Inl Undefined
      else let i = stackTop t - 1; v = stack t ! i in
        Inr (v, t\<lparr>stack := (if is_obj v then (stack t)[i := Sc SNil] else stack t), stackTop := i\<rparr>))"

fun popN :: "nat \<Rightarrow> thread \<Rightarrow> stop + thread" where
  "popN 0 t = Inr t"
| "popN (Suc n) t = seq_then (pop t) (\<lambda>(_, t1). popN n t1)"

definition popToDepth :: "nat \<Rightarrow> thread \<Rightarrow> stop + thread" where
  "popToDepth d t = popN (stackTop t - d) t"

definition peek :: "nat \<Rightarrow> thread \<Rightarrow> stop + operand" where
  "peek d t = (if d < stackTop t then Inr (stack t ! (stackTop t - 1 - d)) else Inl Undefined)"

definition poke :: "nat \<Rightarrow> operand \<Rightarrow> thread \<Rightarrow> stop + thread" where
  "poke d v t =
     (if d < stackTop t then Inr (t\<lparr>stack := (stack t)[stackTop t - 1 - d := v]\<rparr>) else Inl Undefined)"

text \<open>Access through a pointer into the buffer.\<close>

definition slot_read :: "nat \<Rightarrow> thread \<Rightarrow> stop + operand" where
  "slot_read i t = (if i < length (stack t) then Inr (stack t ! i) else Inl Undefined)"

definition slot_write :: "nat \<Rightarrow> operand \<Rightarrow> thread \<Rightarrow> stop + thread" where
  "slot_write i v t =
     (if i < length (stack t) then Inr (t\<lparr>stack := (stack t)[i := v]\<rparr>) else Inl Undefined)"

section \<open>Captured variables\<close>

definition upvalue_slot :: "obj list \<Rightarrow> addr \<Rightarrow> nat option" where
  "upvalue_slot h a = (case obj_at h a of Some (O_Upvalue (On_Stack i) c) \<Rightarrow> Some i | _ \<Rightarrow> None)"

text \<open>The search of \<open>captureUpvalue\<close>: upvalues above the slot, and those from there on.\<close>

fun split_open :: "obj list \<Rightarrow> nat \<Rightarrow> addr list \<Rightarrow> addr list \<times> addr list" where
  "split_open h i [] = ([], [])"
| "split_open h i (a # as) =
     (case upvalue_slot h a of
        Some j \<Rightarrow> if j > i then (case split_open h i as of (xs, ys) \<Rightarrow> (a # xs, ys)) else ([], a # as)
      | None \<Rightarrow> ([], a # as))"

definition captureUpvalue :: "nat \<Rightarrow> thread \<Rightarrow> stop + (addr \<times> thread)" where
  "captureUpvalue i t =
     (if i \<ge> length (stack t) then Inl Undefined
      else (case split_open (heap t) i (openUpvalues t) of (xs, ys) \<Rightarrow>
        if ys \<noteq> [] \<and> upvalue_slot (heap t) (hd ys) = Some i then Inr (hd ys, t)
        else (let a = length (heap t) in
          Inr (a, t\<lparr>heap := heap t @ [O_Upvalue (On_Stack i) (Sc SNil)], openUpvalues := xs @ a # ys\<rparr>))))"

fun close_from :: "operand list \<Rightarrow> nat \<Rightarrow> addr list \<Rightarrow> obj list \<Rightarrow> addr list \<times> obj list" where
  "close_from stk l [] h = ([], h)"
| "close_from stk l (a # as) h =
     (case upvalue_slot h a of
        Some j \<Rightarrow> if j \<ge> l then close_from stk l as (h[a := O_Upvalue Own_Copy (stk ! j)]) else (a # as, h)
      | None \<Rightarrow> (a # as, h))"

definition closeUpvalues :: "nat \<Rightarrow> thread \<Rightarrow> thread" where
  "closeUpvalues l t =
     (case close_from (stack t) l (openUpvalues t) (heap t) of (as, h) \<Rightarrow> t\<lparr>openUpvalues := as, heap := h\<rparr>)"

text \<open>\<open>*upvalue->location\<close>.\<close>

definition upvalue_get :: "addr \<Rightarrow> thread \<Rightarrow> stop + operand" where
  "upvalue_get a t =
     (case obj_at (heap t) a of
        Some (O_Upvalue (On_Stack i) c) \<Rightarrow> slot_read i t
      | Some (O_Upvalue Own_Copy c) \<Rightarrow> Inr c
      | _ \<Rightarrow> Inl Undefined)"

definition upvalue_set :: "addr \<Rightarrow> operand \<Rightarrow> thread \<Rightarrow> stop + thread" where
  "upvalue_set a v t =
     (case obj_at (heap t) a of
        Some (O_Upvalue (On_Stack i) c) \<Rightarrow> slot_write i v t
      | Some (O_Upvalue Own_Copy c) \<Rightarrow> Inr (t\<lparr>heap := (heap t)[a := O_Upvalue Own_Copy v]\<rparr>)
      | _ \<Rightarrow> Inl Undefined)"

section \<open>Leaving a frame\<close>

definition pushFrame :: "frame \<Rightarrow> thread \<Rightarrow> thread" where
  "pushFrame f t =
     t\<lparr>frames := f\<lparr>parent := (if frames t = [] then None else Some (length (frames t) - 1))\<rparr> # frames t\<rparr>"

definition popFrame :: "thread \<Rightarrow> thread" where
  "popFrame t = t\<lparr>frames := tl (frames t)\<rparr>"

definition opReturn :: "thread \<Rightarrow> stop + (operand \<times> thread)" where
  "opReturn t =
     (case frames t of
        [] \<Rightarrow> Inl Undefined
      | f # _ \<Rightarrow> seq_then (pop t) (\<lambda>(result, t1).
          let t2 = popFrame (closeUpvalues (slots f) t1) in
          if frames t2 \<noteq> [] \<or> unwindOnReturn f
          then seq_then (popN (stackTop t2 - slots f) t2) (\<lambda>t3. Inr (result, t3))
          else Inr (result, t2)))"

definition unwindFrame :: "thread \<Rightarrow> stop + thread" where
  "unwindFrame t =
     (case frames t of
        [] \<Rightarrow> Inl Undefined
      | f # _ \<Rightarrow> (let t1 = closeUpvalues (slots f) t in
          if stackTop t1 < slots f then Inl Undefined
          else seq_then (popN (stackTop t1 - slots f) t1) (\<lambda>t2. Inr (popFrame t2))))"

section \<open>Exceptions\<close>

definition alloc :: "obj \<Rightarrow> thread \<Rightarrow> addr \<times> thread" where
  "alloc x t = (length (heap t), t\<lparr>heap := heap t @ [x]\<rparr>)"

definition isException :: "operand \<Rightarrow> thread \<Rightarrow> bool" where
  "isException v t \<longleftrightarrow>
     (case v of Ref a \<Rightarrow> (case obj_at (heap t) a of Some (O_Exception m) \<Rightarrow> True | _ \<Rightarrow> False) | _ \<Rightarrow> False)"

definition as_exception :: "operand \<Rightarrow> thread \<Rightarrow> operand \<times> thread" where
  "as_exception v t =
     (if isException v t then (v, t) else (case alloc (O_Exception v) t of (a, t1) \<Rightarrow> (Ref a, t1)))"

fun unwindN :: "nat \<Rightarrow> thread \<Rightarrow> stop + thread" where
  "unwindN 0 t = Inr t"
| "unwindN (Suc n) t = seq_then (unwindFrame t) (unwindN n)"

text \<open>The frame that catches, once its handler is the last one of the vector.\<close>

definition enter_handler :: "operand \<Rightarrow> thread \<Rightarrow> stop + thread" where
  "enter_handler exc t =
     (case frames t of
        f # fs \<Rightarrow> (case exceptionHandlers f of
            h # hs \<Rightarrow>
              seq_then (unwindN (length (frames t) - h_frameDepth h)
                  (t\<lparr>frames := f\<lparr>exceptionHandlers := hs\<rparr> # fs\<rparr>)) (\<lambda>t1.
                case frames t1 of
                  [] \<Rightarrow> Inl Undefined
                | g # gs \<Rightarrow> seq_then (popToDepth (h_stackDepth h) (t1\<lparr>frames := g\<lparr>ip := h_ip h\<rparr> # gs\<rparr>)) (push exc))
          | [] \<Rightarrow> Inl Undefined)
      | [] \<Rightarrow> Inl Undefined)"

fun unwind_loop :: "nat \<Rightarrow> operand \<Rightarrow> thread \<Rightarrow> stop + thread" where
  "unwind_loop fuel exc t =
     (case frames t of
        [] \<Rightarrow> Inl (Uncaught exc)
      | f # fs \<Rightarrow>
          if exceptionHandlers f \<noteq> [] then enter_handler exc t
          else if unwindOnReturn f then seq_then (unwindFrame t) (\<lambda>_. Inl (Uncaught exc))
          else (case fuel of 0 \<Rightarrow> Inl Undefined | Suc n \<Rightarrow> seq_then (unwindFrame t) (unwind_loop n exc)))"

definition unwindToExceptionHandler :: "operand \<Rightarrow> thread \<Rightarrow> stop + thread" where
  "unwindToExceptionHandler v t =
     (case as_exception v t of (exc, t1) \<Rightarrow> unwind_loop (length (frames t1)) exc t1)"

section \<open>Well-formed threads\<close>

definition uslot :: "obj list \<Rightarrow> addr \<Rightarrow> nat" where
  "uslot h a = (case upvalue_slot h a of Some i \<Rightarrow> i | None \<Rightarrow> 0)"

text \<open>
  The open list is in strictly decreasing stack order, holds the upvalues that are open and no
  others, and they lie within the buffer.
\<close>

definition wf_open :: "obj list \<Rightarrow> nat \<Rightarrow> addr list \<Rightarrow> bool" where
  "wf_open h n as \<longleftrightarrow>
     sorted_wrt (\<lambda>a b. uslot h a > uslot h b) as
     \<and> (\<forall>a \<in> set as. \<exists>i < n. upvalue_slot h a = Some i)"

definition wf_thread :: "thread \<Rightarrow> bool" where
  "wf_thread t \<longleftrightarrow> stackTop t \<le> length (stack t) \<and> (\<forall>f \<in> set (frames t). slots f \<le> length (stack t))
     \<and> wf_open (heap t) (length (stack t)) (openUpvalues t)
     \<and> (\<forall>a i. upvalue_slot (heap t) a = Some i \<longrightarrow> a \<in> set (openUpvalues t))"

lemma upvalue_slot_append:
  "upvalue_slot (h @ [x]) a = (if a = length h then upvalue_slot [x] 0 else upvalue_slot h a)"
  by (auto simp: upvalue_slot_def obj_at_def nth_append)

lemma upvalue_slot_new [simp]:
  "upvalue_slot [O_Upvalue (On_Stack i) c] 0 = Some i" "upvalue_slot [O_Upvalue Own_Copy c] 0 = None"
  "upvalue_slot [O_Exception m] 0 = None" "upvalue_slot [O_Function f] 0 = None"
  "upvalue_slot [O_Closure k us] 0 = None" "upvalue_slot [O_List vs] 0 = None"
  by (simp_all add: upvalue_slot_def obj_at_def)

lemma upvalue_slot_bound: "upvalue_slot h a = Some i \<Longrightarrow> a < length h"
  by (auto simp: upvalue_slot_def obj_at_def split: if_splits)

lemma upvalue_slot_close:
  "upvalue_slot (h[a := O_Upvalue Own_Copy v]) b = (if a = b then None else upvalue_slot h b)"
  by (auto simp: upvalue_slot_def obj_at_def nth_list_update)

lemma wf_open_Cons:
  "wf_open h n (a # as) \<longleftrightarrow> (\<exists>i < n. upvalue_slot h a = Some i \<and> (\<forall>b \<in> set as. uslot h b < i)) \<and> wf_open h n as"
  by (auto simp: wf_open_def uslot_def split: option.splits)

lemma wf_open_cong:
  assumes "\<And>a. a \<in> set as \<Longrightarrow> upvalue_slot h' a = upvalue_slot h a"
  shows "wf_open h' n as = wf_open h n as"
  using assms by (induction as) (auto simp: wf_open_Cons uslot_def wf_open_def)

lemma wf_open_append:
  "wf_open h n (xs @ ys) \<longleftrightarrow> wf_open h n xs \<and> wf_open h n ys \<and> (\<forall>x \<in> set xs. \<forall>y \<in> set ys. uslot h y < uslot h x)"
  by (auto simp: wf_open_def sorted_wrt_append)

lemma split_open_spec:
  assumes "wf_open h n as" "split_open h i as = (xs, ys)"
  shows "as = xs @ ys" "\<forall>x \<in> set xs. i < uslot h x" "\<forall>y \<in> set ys. uslot h y \<le> i"
    "ys \<noteq> [] \<Longrightarrow> upvalue_slot h (hd ys) \<noteq> Some i \<Longrightarrow> \<forall>y \<in> set ys. uslot h y < i"
proof -
  have "as = xs @ ys \<and> (\<forall>x \<in> set xs. i < uslot h x) \<and> (\<forall>y \<in> set ys. uslot h y \<le> i)
    \<and> (ys \<noteq> [] \<longrightarrow> upvalue_slot h (hd ys) \<noteq> Some i \<longrightarrow> (\<forall>y \<in> set ys. uslot h y < i))"
    using assms
  proof (induction as arbitrary: xs)
    case (Cons a as)
    then obtain j where j: "upvalue_slot h a = Some j" "\<forall>b \<in> set as. uslot h b < j" "wf_open h n as"
      by (auto simp: wf_open_Cons)
    have u: "uslot h a = j" using j(1) by (simp add: uslot_def)
    show ?case
    proof (cases "j > i")
      case True
      then show ?thesis using Cons j(1,3) u by (auto split: prod.splits)
    next
      case False
      have le: "\<forall>b \<in> set as. uslot h b < i" using j(2) False by (auto simp: not_less intro: order_less_le_trans)
      have "xs = []" "ys = a # as" using Cons(3) False j(1) by simp_all
      then show ?thesis using False j(1) u le by (auto simp: le_less)
    qed
  qed simp
  then show "as = xs @ ys" "\<forall>x \<in> set xs. i < uslot h x" "\<forall>y \<in> set ys. uslot h y \<le> i"
    "ys \<noteq> [] \<Longrightarrow> upvalue_slot h (hd ys) \<noteq> Some i \<Longrightarrow> \<forall>y \<in> set ys. uslot h y < i" by blast+
qed

lemma captureUpvalue_spec:
  assumes "wf_thread t" "captureUpvalue i t = Inr (a, t')"
  shows "wf_thread t'" "upvalue_slot (heap t') a = Some i" "captureUpvalue i t' = Inr (a, t')"
    "t' = t\<lparr>heap := heap t', openUpvalues := openUpvalues t'\<rparr>" "i < length (stack t)"
    "\<And>b. b < length (heap t) \<Longrightarrow> obj_at (heap t') b = obj_at (heap t) b"
proof -
  obtain xs ys where sp: "split_open (heap t) i (openUpvalues t) = (xs, ys)" by (cases "split_open (heap t) i (openUpvalues t)")
  have wf: "wf_open (heap t) (length (stack t)) (openUpvalues t)" using assms(1) by (simp add: wf_thread_def)
  note s = split_open_spec [OF wf sp]
  have "wf_thread t' \<and> upvalue_slot (heap t') a = Some i \<and> captureUpvalue i t' = Inr (a, t')
    \<and> t' = t\<lparr>heap := heap t', openUpvalues := openUpvalues t'\<rparr> \<and> i < length (stack t)
    \<and> (\<forall>b < length (heap t). obj_at (heap t') b = obj_at (heap t) b)"
  proof (cases "ys \<noteq> [] \<and> upvalue_slot (heap t) (hd ys) = Some i")
    case True
    then have "t' = t" "a = hd ys" "i < length (stack t)" using assms(2) by (auto simp: captureUpvalue_def sp split: if_splits)
    then show ?thesis using True assms by simp
  next
    case False
    obtain n where n: "n = length (heap t)" by simp
    have i: "i < length (stack t)" and a: "a = n"
      and t': "t' = t\<lparr>heap := heap t @ [O_Upvalue (On_Stack i) (Sc SNil)], openUpvalues := xs @ n # ys\<rparr>"
      using assms(2) False by (auto simp: captureUpvalue_def sp Let_def n split: if_splits)
    let ?h = "heap t @ [O_Upvalue (On_Stack i) (Sc SNil)]"
    have ne: "\<forall>b \<in> set (xs @ ys). b < n"
      using wf s(1) by (auto simp: wf_open_def n dest: upvalue_slot_bound)
    have us: "upvalue_slot ?h b = upvalue_slot (heap t) b" if "b < n" for b
      using that by (simp add: upvalue_slot_append n)
    have un: "upvalue_slot ?h n = Some i" by (simp add: upvalue_slot_append n)
    have ys_less: "\<forall>y \<in> set ys. uslot (heap t) y < i" using s(4) False by (cases "ys = []") auto
    have ul: "uslot ?h b = uslot (heap t) b" if "b \<in> set (xs @ ys)" for b
      using that ne us by (simp add: uslot_def)
    have wfx: "wf_open ?h (length (stack t)) (xs @ ys)"
      using wf s(1) wf_open_cong [of "xs @ ys" ?h "heap t"] us ne by simp
    have "wf_open ?h (length (stack t)) (xs @ n # ys)"
      using wfx ys_less s(2) ul un i by (auto simp: wf_open_append wf_open_Cons uslot_def)
    moreover have "\<forall>b j. upvalue_slot ?h b = Some j \<longrightarrow> b \<in> set (xs @ n # ys)"
      using assms(1) s(1) by (auto simp: wf_thread_def upvalue_slot_append n split: if_splits)
    ultimately have wf': "wf_thread t'" using assms(1) by (simp add: wf_thread_def t')
    have "split_open ?h i (xs @ n # ys) = (xs, n # ys)"
    proof -
      have "\<forall>x \<in> set xs. \<exists>j > i. upvalue_slot ?h x = Some j"
      proof
        fix x assume x: "x \<in> set xs"
        then obtain j where j: "upvalue_slot ?h x = Some j" using wfx by (auto simp: wf_open_def)
        then have "uslot (heap t) x = j" using x ul [of x] by (simp add: uslot_def)
        then show "\<exists>j > i. upvalue_slot ?h x = Some j" using j s(2) x by auto
      qed
      then show ?thesis
      proof (induction xs)
        case Nil
        then show ?case using un by simp
      next
        case (Cons x xs)
        then obtain j where "j > i" "upvalue_slot ?h x = Some j" by auto
        then show ?case using Cons by simp
      qed
    qed
    then have "captureUpvalue i t' = Inr (a, t')" using i by (simp add: captureUpvalue_def t' un a)
    moreover have "\<forall>b < length (heap t). obj_at ?h b = obj_at (heap t) b" by (simp add: obj_at_def nth_append)
    ultimately show ?thesis using wf' un i by (simp add: t' a)
  qed
  then show "wf_thread t'" "upvalue_slot (heap t') a = Some i" "captureUpvalue i t' = Inr (a, t')"
    "t' = t\<lparr>heap := heap t', openUpvalues := openUpvalues t'\<rparr>" "i < length (stack t)"
    "\<And>b. b < length (heap t) \<Longrightarrow> obj_at (heap t') b = obj_at (heap t) b" by simp_all
qed

lemma close_from_spec:
  assumes "wf_open h n as" "close_from stk l as h = (bs, h')" "distinct as"
  shows "\<exists>cs. as = cs @ bs \<and> (\<forall>c \<in> set cs. l \<le> uslot h c) \<and> (\<forall>b \<in> set bs. uslot h b < l) \<and> length h' = length h
    \<and> (\<forall>c. h' ! c = (if c \<in> set cs then O_Upvalue Own_Copy (stk ! uslot h c) else h ! c))"
  using assms
proof (induction as arbitrary: h)
  case (Cons a as)
  obtain j where j: "upvalue_slot h a = Some j" "j < n" "\<forall>b \<in> set as. uslot h b < j" "wf_open h n as"
    using Cons(2) by (auto simp: wf_open_Cons)
  have u: "uslot h a = j" using j(1) by (simp add: uslot_def)
  have ab: "a < length h" using j(1) by (rule upvalue_slot_bound)
  show ?case
  proof (cases "j \<ge> l")
    case True
    let ?h = "h[a := O_Upvalue Own_Copy (stk ! j)]"
    have na: "a \<notin> set as" using Cons(4) by simp
    have same: "upvalue_slot ?h b = upvalue_slot h b" "uslot ?h b = uslot h b" if "b \<noteq> a" for b
      using that by (simp_all add: upvalue_slot_close uslot_def)
    have "wf_open ?h n as" using j(4) wf_open_cong [of as ?h h n] same na by metis
    from Cons(1) [OF this] Cons(3,4) obtain cs where cs: "as = cs @ bs" "\<forall>c \<in> set cs. l \<le> uslot ?h c"
      "\<forall>b \<in> set bs. uslot ?h b < l" "length h' = length ?h"
      "\<forall>c. h' ! c = (if c \<in> set cs then O_Upvalue Own_Copy (stk ! uslot ?h c) else ?h ! c)"
      using j(1) True by auto
    have ne: "c \<noteq> a" if "c \<in> set (cs @ bs)" for c using that na cs(1) by auto
    show ?thesis
    proof (intro exI conjI)
      show "a # as = (a # cs) @ bs" using cs(1) by simp
      show "\<forall>c \<in> set (a # cs). l \<le> uslot h c" using cs(2) same(2) ne u True by auto
      show "\<forall>b \<in> set bs. uslot h b < l" using cs(3) same(2) ne by auto
      show "length h' = length h" using cs(4) by simp
      show "\<forall>c. h' ! c = (if c \<in> set (a # cs) then O_Upvalue Own_Copy (stk ! uslot h c) else h ! c)"
        using cs(5) same(2) ne ab u by auto
    qed
  next
    case False
    have "\<forall>b \<in> set as. uslot h b < l" using j(3) False by (auto simp: not_le intro: less_trans)
    then show ?thesis using False Cons(3) j(1) u by (intro exI [of _ "[]"]) auto
  qed
qed simp

lemma wf_open_distinct: "wf_open h n as \<Longrightarrow> distinct as"
  by (induction as) (auto simp: wf_open_Cons uslot_def split: option.splits)

text \<open>Closing changes where captured variables live, not what they hold.\<close>

lemma closeUpvalues_spec:
  assumes "wf_thread t"
  shows "wf_thread (closeUpvalues l t)"
    "\<And>a. upvalue_slot (heap (closeUpvalues l t)) a = (case upvalue_slot (heap t) a of Some i \<Rightarrow> if i < l then Some i else None | None \<Rightarrow> None)"
    "\<And>a. upvalue_get a (closeUpvalues l t) = upvalue_get a t"
    "\<And>a. upvalue_slot (heap t) a = None \<Longrightarrow> obj_at (heap (closeUpvalues l t)) a = obj_at (heap t) a"
    "closeUpvalues l t = t\<lparr>heap := heap (closeUpvalues l t), openUpvalues := openUpvalues (closeUpvalues l t)\<rparr>"
    "length (heap (closeUpvalues l t)) = length (heap t)"
proof -
  obtain bs h where cf: "close_from (stack t) l (openUpvalues t) (heap t) = (bs, h)"
    by (cases "close_from (stack t) l (openUpvalues t) (heap t)")
  have wf: "wf_open (heap t) (length (stack t)) (openUpvalues t)"
    and all: "\<And>a i. upvalue_slot (heap t) a = Some i \<Longrightarrow> a \<in> set (openUpvalues t)"
    using assms by (auto simp: wf_thread_def)
  obtain cs where cs: "openUpvalues t = cs @ bs" "\<forall>c \<in> set cs. l \<le> uslot (heap t) c" "\<forall>b \<in> set bs. uslot (heap t) b < l"
    "length h = length (heap t)" "\<And>c. h ! c = (if c \<in> set cs then O_Upvalue Own_Copy (stack t ! uslot (heap t) c) else heap t ! c)"
    using close_from_spec [OF wf cf wf_open_distinct [OF wf]] by blast
  have e: "closeUpvalues l t = t\<lparr>openUpvalues := bs, heap := h\<rparr>" by (simp add: closeUpvalues_def cf)
  have opn: "\<exists>i < length (stack t). upvalue_slot (heap t) a = Some i" if "a \<in> set cs \<or> a \<in> set bs" for a
    using wf cs(1) that by (auto simp: wf_open_def)
  have low: "a \<in> set bs \<longleftrightarrow> uslot (heap t) a < l" if "upvalue_slot (heap t) a = Some i" for a i
    using all [OF that] cs(1-3) by (auto simp: not_le [symmetric])
  have slot: "upvalue_slot h a = (if a \<in> set cs then None else upvalue_slot (heap t) a)" for a
    by (auto simp: upvalue_slot_def obj_at_def cs(4,5))
  have sl: "upvalue_slot h a = (case upvalue_slot (heap t) a of Some i \<Rightarrow> if i < l then Some i else None | None \<Rightarrow> None)" for a
  proof (cases "upvalue_slot (heap t) a")
    case (Some i)
    then have "uslot (heap t) a = i" by (simp add: uslot_def)
    then show ?thesis using Some slot [of a] all [OF Some] cs(1-3) by auto
  qed (use slot [of a] in simp)
  then show "\<And>a. upvalue_slot (heap (closeUpvalues l t)) a = (case upvalue_slot (heap t) a of Some i \<Rightarrow> if i < l then Some i else None | None \<Rightarrow> None)"
    by (simp add: e)
  show "closeUpvalues l t = t\<lparr>heap := heap (closeUpvalues l t), openUpvalues := openUpvalues (closeUpvalues l t)\<rparr>" by (simp add: e)
  show "length (heap (closeUpvalues l t)) = length (heap t)" by (simp add: e cs(4))
  have disj: "a \<notin> set cs" if "a \<in> set bs" for a
    using that cs(2,3) by (auto simp: not_le [symmetric])
  have "wf_open h (length (stack t)) bs"
  proof -
    have "wf_open (heap t) (length (stack t)) bs" using wf cs(1) by (simp add: wf_open_append)
    moreover have "upvalue_slot h a = upvalue_slot (heap t) a" if "a \<in> set bs" for a using that slot disj by simp
    ultimately show ?thesis using wf_open_cong [of bs h "heap t"] by blast
  qed
  moreover have "a \<in> set bs" if "upvalue_slot h a = Some i" for a i
    using that slot [of a] all [of a] cs(1) by (auto split: if_splits)
  ultimately show "wf_thread (closeUpvalues l t)" using assms by (simp add: e wf_thread_def)
  show "upvalue_get a (closeUpvalues l t) = upvalue_get a t" for a
  proof (cases "a \<in> set cs")
    case True
    then obtain i where i: "upvalue_slot (heap t) a = Some i" "i < length (stack t)" using opn by blast
    then obtain c where "obj_at (heap t) a = Some (O_Upvalue (On_Stack i) c)"
      by (auto simp: upvalue_slot_def split: option.splits obj.splits upvalue_location.splits)
    moreover have "uslot (heap t) a = i" using i by (simp add: uslot_def)
    moreover have "a < length (heap t)" using i by (blast dest: upvalue_slot_bound)
    ultimately show ?thesis using True i(2) by (simp add: upvalue_get_def slot_read_def e obj_at_def cs(4,5))
  next
    case False
    then have "obj_at h a = obj_at (heap t) a" by (simp add: obj_at_def cs(4,5))
    then show ?thesis by (simp add: upvalue_get_def slot_read_def e split: option.splits obj.splits upvalue_location.splits)
  qed
  show "obj_at (heap (closeUpvalues l t)) a = obj_at (heap t) a" if "upvalue_slot (heap t) a = None" for a
    using opn [of a] that by (auto simp: e obj_at_def cs(4,5))
qed

lemma closeUpvalues_fields [simp]:
  "stack (closeUpvalues l t) = stack t" "stackTop (closeUpvalues l t) = stackTop t"
  "frames (closeUpvalues l t) = frames t" "frameStart (closeUpvalues l t) = frameStart t"
  by (simp_all add: closeUpvalues_def split: prod.splits)

lemma popFrame_fields [simp]:
  "stack (popFrame t) = stack t" "stackTop (popFrame t) = stackTop t" "frames (popFrame t) = tl (frames t)"
  "heap (popFrame t) = heap t" "openUpvalues (popFrame t) = openUpvalues t" "frameStart (popFrame t) = frameStart t"
  by (simp_all add: popFrame_def)

section \<open>What the operations keep\<close>

lemma wf_thread_heap:
  assumes "wf_thread t" "upvalue_slot [x] 0 = None"
  shows "wf_thread (t\<lparr>heap := heap t @ [x]\<rparr>)"
proof -
  have "upvalue_slot (heap t @ [x]) a = upvalue_slot (heap t) a" if "a \<noteq> length (heap t)" for a
    using that by (simp add: upvalue_slot_append)
  moreover have "a \<noteq> length (heap t)" if "a \<in> set (openUpvalues t)" for a
    using that assms(1) by (auto simp: wf_thread_def wf_open_def dest!: bspec upvalue_slot_bound)
  ultimately have "wf_open (heap t @ [x]) n (openUpvalues t) = wf_open (heap t) n (openUpvalues t)" for n
    using wf_open_cong by metis
  then show ?thesis using assms by (auto simp: wf_thread_def upvalue_slot_append split: if_splits)
qed

lemma push_wf [inv_intros]: "push v t = Inr t' \<Longrightarrow> wf_thread t \<Longrightarrow> wf_thread t'"
  by (auto simp: push_def wf_thread_def split: if_splits)

lemma pop_wf [inv_intros]: "pop t = Inr (v, t') \<Longrightarrow> wf_thread t \<Longrightarrow> wf_thread t'"
  by (auto simp: pop_def wf_thread_def Let_def split: if_splits)

lemma popN_wf [inv_intros]: "popN n t = Inr t' \<Longrightarrow> wf_thread t \<Longrightarrow> wf_thread t'"
  by (induction n arbitrary: t) (auto simp: seq_then_eq_Inr dest: pop_wf)

lemma popToDepth_wf [inv_intros]: "popToDepth d t = Inr t' \<Longrightarrow> wf_thread t \<Longrightarrow> wf_thread t'"
  by (auto simp: popToDepth_def dest: popN_wf)

lemma poke_wf [inv_intros]: "poke d v t = Inr t' \<Longrightarrow> wf_thread t \<Longrightarrow> wf_thread t'"
  by (auto simp: poke_def wf_thread_def split: if_splits)

lemma slot_write_wf [inv_intros]: "slot_write i v t = Inr t' \<Longrightarrow> wf_thread t \<Longrightarrow> wf_thread t'"
  by (auto simp: slot_write_def wf_thread_def split: if_splits)

lemma captureUpvalue_wf [inv_intros]: "captureUpvalue i t = Inr (a, t') \<Longrightarrow> wf_thread t \<Longrightarrow> wf_thread t'"
  by (rule captureUpvalue_spec(1))

lemma alloc_wf [inv_intros]: "alloc x t = (a, t') \<Longrightarrow> upvalue_slot [x] 0 = None \<Longrightarrow> wf_thread t \<Longrightarrow> wf_thread t'"
  by (auto simp: alloc_def intro: wf_thread_heap)

lemma popFrame_wf [inv_intros]: "wf_thread t \<Longrightarrow> wf_thread (popFrame t)"
  by (cases "frames t") (auto simp: popFrame_def wf_thread_def)

lemma wf_frames:
  "wf_thread t \<Longrightarrow> (\<And>g. g \<in> set fs \<Longrightarrow> slots g \<le> length (stack t)) \<Longrightarrow> wf_thread (t\<lparr>frames := fs\<rparr>)"
  by (auto simp: wf_thread_def)

lemma pushFrame_wf [inv_intros]: "slots f \<le> length (stack t) \<Longrightarrow> wf_thread t \<Longrightarrow> wf_thread (pushFrame f t)"
  by (auto simp: pushFrame_def wf_thread_def)

lemma update_frame_wf [inv_intros]:
  "wf_thread t \<Longrightarrow> frames t = f # fs \<Longrightarrow> slots g = slots f \<Longrightarrow> wf_thread (t\<lparr>frames := g # fs\<rparr>)"
  by (auto simp: wf_thread_def)

lemma upvalue_set_wf [inv_intros]:
  assumes "upvalue_set a v t = Inr t'" "wf_thread t"
  shows "wf_thread t'"
proof (cases "upvalue_slot (heap t) a")
  case (Some i)
  then show ?thesis using assms slot_write_wf
    by (auto simp: upvalue_set_def upvalue_slot_def split: option.splits obj.splits upvalue_location.splits)
next
  case None
  then have t': "t' = t\<lparr>heap := (heap t)[a := O_Upvalue Own_Copy v]\<rparr>"
    using assms(1) by (auto simp: upvalue_set_def upvalue_slot_def split: option.splits obj.splits upvalue_location.splits)
  have us: "upvalue_slot ((heap t)[a := O_Upvalue Own_Copy v]) b = upvalue_slot (heap t) b" for b
    using None by (auto simp: upvalue_slot_close)
  have "wf_open ((heap t)[a := O_Upvalue Own_Copy v]) n (openUpvalues t) = wf_open (heap t) n (openUpvalues t)" for n
    using wf_open_cong us by metis
  then show ?thesis using assms(2) us by (simp add: t' wf_thread_def)
qed

lemma opReturn_wf [inv_intros]:
  assumes "opReturn t = Inr (v, t')" "wf_thread t"
  shows "wf_thread t'"
  using assms closeUpvalues_spec(1)
  by (fastforce simp: opReturn_def seq_then_eq_Inr Let_def split: list.splits if_splits prod.splits
      dest: pop_wf popN_wf intro: popFrame_wf)

lemma unwindFrame_wf [inv_intros]:
  assumes "unwindFrame t = Inr t'" "wf_thread t"
  shows "wf_thread t'"
proof (cases "frames t")
  case (Cons f fs)
  then obtain t1 where "popN (stackTop (closeUpvalues (slots f) t) - slots f) (closeUpvalues (slots f) t) = Inr t1" "t' = popFrame t1"
    using assms(1) by (auto simp: unwindFrame_def seq_then_eq_Inr Let_def split: if_splits)
  then show ?thesis using assms(2) closeUpvalues_spec(1) popN_wf popFrame_wf by metis
qed (use assms in \<open>simp add: unwindFrame_def\<close>)

lemma unwindN_wf [inv_intros]: "unwindN n t = Inr t' \<Longrightarrow> wf_thread t \<Longrightarrow> wf_thread t'"
  by (induction n arbitrary: t) (auto simp: seq_then_eq_Inr dest: unwindFrame_wf)

lemma enter_handler_Inr:
  assumes "enter_handler exc t = Inr t'"
  obtains f fs h hs t1 g gs t2 where "frames t = f # fs" "exceptionHandlers f = h # hs"
    "unwindN (length (frames t) - h_frameDepth h) (t\<lparr>frames := f\<lparr>exceptionHandlers := hs\<rparr> # fs\<rparr>) = Inr t1"
    "frames t1 = g # gs" "popToDepth (h_stackDepth h) (t1\<lparr>frames := g\<lparr>ip := h_ip h\<rparr> # gs\<rparr>) = Inr t2" "push exc t2 = Inr t'"
proof (cases "frames t")
  case (Cons f fs)
  show ?thesis
  proof (cases "exceptionHandlers f")
    case hs: (Cons h hs)
    obtain t1 where u: "unwindN (length (frames t) - h_frameDepth h) (t\<lparr>frames := f\<lparr>exceptionHandlers := hs\<rparr> # fs\<rparr>) = Inr t1"
      and r: "(case frames t1 of [] \<Rightarrow> Inl Undefined
        | g # gs \<Rightarrow> seq_then (popToDepth (h_stackDepth h) (t1\<lparr>frames := g\<lparr>ip := h_ip h\<rparr> # gs\<rparr>)) (push exc)) = Inr t'"
      using assms unfolding enter_handler_def Cons hs list.case seq_then_eq_Inr by blast
    from r show ?thesis using that [OF Cons hs u] by (cases "frames t1") (auto simp: seq_then_eq_Inr)
  qed (use assms Cons in \<open>simp add: enter_handler_def\<close>)
qed (use assms in \<open>simp add: enter_handler_def\<close>)

lemma enter_handler_wf [inv_intros]:
  assumes "enter_handler exc t = Inr t'" "wf_thread t"
  shows "wf_thread t'"
  using assms(1)
proof (cases rule: enter_handler_Inr)
  case (1 f fs h hs t1 g gs t2)
  have "wf_thread (t\<lparr>frames := f\<lparr>exceptionHandlers := hs\<rparr> # fs\<rparr>)"
    by (rule update_frame_wf [OF assms(2) 1(1)]) simp
  then have "wf_thread t1" using 1(3) unwindN_wf by blast
  then have "wf_thread (t1\<lparr>frames := g\<lparr>ip := h_ip h\<rparr> # gs\<rparr>)" by (rule update_frame_wf [OF _ 1(4)]) simp
  then show ?thesis using 1(5,6) popToDepth_wf push_wf by blast
qed

lemmas unwind_loop_simps = unwind_loop.simps
declare unwind_loop.simps [simp del]

lemma unwind_loop_Inr:
  assumes "unwind_loop n exc t = Inr t'"
  obtains "frames t \<noteq> []" "exceptionHandlers (hd (frames t)) \<noteq> []" "enter_handler exc t = Inr t'"
  | m t1 where "n = Suc m" "exceptionHandlers (hd (frames t)) = []" "unwindFrame t = Inr t1" "unwind_loop m exc t1 = Inr t'"
proof (cases "frames t")
  case Nil
  then show ?thesis using assms by (simp add: unwind_loop_simps)
next
  case (Cons f fs)
  have e: "(if exceptionHandlers f \<noteq> [] then enter_handler exc t
    else if unwindOnReturn f then seq_then (unwindFrame t) (\<lambda>_. Inl (Uncaught exc))
    else (case n of 0 \<Rightarrow> Inl Undefined | Suc n \<Rightarrow> seq_then (unwindFrame t) (unwind_loop n exc))) = Inr t'"
    using assms unfolding unwind_loop_simps [of n] Cons list.case .
  show ?thesis
  proof (cases "exceptionHandlers f = []")
    case True
    then show ?thesis using e that(2) Cons by (auto simp: seq_then_eq_Inr split: if_splits nat.splits)
  next
    case False
    then show ?thesis using e that(1) Cons by simp
  qed
qed

lemma unwind_loop_wf [inv_intros]: "unwind_loop n exc t = Inr t' \<Longrightarrow> wf_thread t \<Longrightarrow> wf_thread t'"
proof (induction n arbitrary: t)
  case 0
  from 0(1) show ?case by (cases rule: unwind_loop_Inr) (use 0(2) enter_handler_wf in auto)
next
  case (Suc n)
  from Suc(2) show ?case by (cases rule: unwind_loop_Inr) (use Suc enter_handler_wf unwindFrame_wf in blast)+
qed

lemma unwindToExceptionHandler_wf [inv_intros]:
  assumes "unwindToExceptionHandler v t = Inr t'" "wf_thread t"
  shows "wf_thread t'"
proof -
  obtain exc t1 where e: "as_exception v t = (exc, t1)" "unwind_loop (length (frames t1)) exc t1 = Inr t'"
    using assms(1) by (auto simp: unwindToExceptionHandler_def split: prod.splits)
  then have "wf_thread t1" using assms(2) wf_thread_heap [of t "O_Exception v"] by (auto simp: as_exception_def alloc_def split: if_splits)
  then show ?thesis using e(2) unwind_loop_wf by blast
qed

section \<open>What pops and unwinding leave\<close>

lemma pop_spec:
  assumes "pop t = Inr (v, t')"
  shows "stackTop t = Suc (stackTop t')" "v = stack t ! stackTop t'"
    "t' = t\<lparr>stack := stack t', stackTop := stackTop t'\<rparr>" "length (stack t') = length (stack t)"
    "\<And>i. i \<noteq> stackTop t' \<Longrightarrow> stack t' ! i = stack t ! i" "\<not> is_obj v \<Longrightarrow> stack t' = stack t"
  using assms by (auto simp: pop_def Let_def split: if_splits)

lemma pop_fields:
  assumes "pop t = Inr (v, t')"
  shows "frames t' = frames t" "heap t' = heap t" "openUpvalues t' = openUpvalues t" "frameStart t' = frameStart t" "modl t' = modl t"
  using assms by (auto simp: pop_def Let_def split: if_splits)

lemma popN_fields:
  assumes "popN n t = Inr t'"
  shows "frames t' = frames t" "heap t' = heap t" "openUpvalues t' = openUpvalues t" "frameStart t' = frameStart t" "modl t' = modl t"
proof -
  have "frames t' = frames t \<and> heap t' = heap t \<and> openUpvalues t' = openUpvalues t \<and> frameStart t' = frameStart t \<and> modl t' = modl t"
    using assms
  proof (induction n arbitrary: t)
    case (Suc n)
    then obtain v t1 where p: "pop t = Inr (v, t1)" "popN n t1 = Inr t'" by (auto simp: seq_then_eq_Inr)
    then show ?case using Suc(1) [OF p(2)] pop_fields [OF p(1)] by simp
  qed simp
  then show "frames t' = frames t" "heap t' = heap t" "openUpvalues t' = openUpvalues t" "frameStart t' = frameStart t" "modl t' = modl t" by auto
qed

lemma popN_spec:
  assumes "popN n t = Inr t'"
  shows "stackTop t = stackTop t' + n" "t' = t\<lparr>stack := stack t', stackTop := stackTop t'\<rparr>"
    "length (stack t') = length (stack t)" "\<And>i. i < stackTop t' \<Longrightarrow> stack t' ! i = stack t ! i"
proof -
  have "stackTop t = stackTop t' + n \<and> t' = t\<lparr>stack := stack t', stackTop := stackTop t'\<rparr>
    \<and> length (stack t') = length (stack t) \<and> (\<forall>i < stackTop t'. stack t' ! i = stack t ! i)"
    using assms
  proof (induction n arbitrary: t)
    case (Suc n)
    then obtain v t1 where p: "pop t = Inr (v, t1)" "popN n t1 = Inr t'" by (auto simp: seq_then_eq_Inr)
    note q = pop_spec [OF p(1)]
    have "frames t' = frames t \<and> openUpvalues t' = openUpvalues t \<and> heap t' = heap t \<and> frameStart t' = frameStart t \<and> modl t' = modl t"
      using pop_fields [OF p(1)] popN_fields [OF p(2)] by simp
    then have "t' = t\<lparr>stack := stack t', stackTop := stackTop t'\<rparr>" by (cases t, cases t') simp
    then show ?case using Suc(1) [OF p(2)] q(1,4,5) by auto
  qed simp
  then show "stackTop t = stackTop t' + n" "t' = t\<lparr>stack := stack t', stackTop := stackTop t'\<rparr>"
    "length (stack t') = length (stack t)" "\<And>i. i < stackTop t' \<Longrightarrow> stack t' ! i = stack t ! i" by blast+
qed

lemma upvalue_get_cong:
  assumes "heap t' = heap t" "length (stack t') = length (stack t)"
    "\<And>i. upvalue_slot (heap t) a = Some i \<Longrightarrow> stack t' ! i = stack t ! i"
  shows "upvalue_get a t' = upvalue_get a t"
  using assms by (auto simp: upvalue_get_def slot_read_def upvalue_slot_def split: option.splits obj.splits upvalue_location.splits)

lemma unwindFrame_spec:
  assumes "wf_thread t" "frames t = f # fs" "slots f \<le> stackTop t"
  shows "\<exists>t'. unwindFrame t = Inr t' \<and> frames t' = fs \<and> stackTop t' = slots f \<and> length (stack t') = length (stack t)
    \<and> (\<forall>i < slots f. stack t' ! i = stack t ! i) \<and> (\<forall>a. upvalue_get a t' = upvalue_get a t) \<and> length (heap t') = length (heap t)
    \<and> (\<forall>a. upvalue_slot (heap t) a = None \<longrightarrow> obj_at (heap t') a = obj_at (heap t) a)
    \<and> (\<forall>a i. upvalue_slot (heap t') a = Some i \<longleftrightarrow> upvalue_slot (heap t) a = Some i \<and> i < slots f)"
proof -
  obtain t1 where t1: "t1 = closeUpvalues (slots f) t" by simp
  note c = closeUpvalues_spec [OF assms(1), where l = "slots f", folded t1]
  have eq: "stackTop t1 = stackTop t" "stack t1 = stack t" "frames t1 = frames t" by (simp_all add: t1)
  have "popN n t0 \<noteq> Inl e" if "n \<le> stackTop t0" for n t0 e
    using that by (induction n arbitrary: t0) (auto simp: pop_def Let_def)
  then obtain t2 where p: "popN (stackTop t - slots f) t1 = Inr t2" using eq(1) by (metis diff_le_self sum.exhaust)
  note q = popN_spec [OF p]
  have e2: "heap t2 = heap t1" "frames t2 = frames t" using popN_fields [OF p] eq(3) by simp_all
  have top: "stackTop t2 = slots f" using q(1) eq(1) assms(3) by simp
  have slot: "upvalue_slot (heap t1) a = Some i \<longleftrightarrow> upvalue_slot (heap t) a = Some i \<and> i < slots f" for a i
    using c(2) [of a] by (auto split: option.splits if_splits)
  have get: "upvalue_get a t2 = upvalue_get a t" for a
  proof -
    have "upvalue_get a t2 = upvalue_get a t1"
      using slot q(4) top by (intro upvalue_get_cong) (auto simp: e2 q(3))
    then show ?thesis using c(3) by simp
  qed
  have g2: "upvalue_get a (popFrame t2) = upvalue_get a t" for a
    using upvalue_get_cong [of "popFrame t2" t2 a] get by (simp add: popFrame_def)
  have "unwindFrame t = Inr (popFrame t2)" using assms(2,3) eq p by (simp add: unwindFrame_def t1 [symmetric] Let_def)
  then show ?thesis using e2 top q(3,4) eq(2) assms(2) slot g2 c(4,6) by (auto simp: popFrame_def)
qed

section \<open>Properties\<close>

text \<open>
  C26. A captured local is one cell: capturing it again gives the same upvalue, capturing another slot
  gives another, a store to the slot is read through the upvalue and a store through the upvalue is
  read in the slot.  Nothing the thread had captured before changes.
\<close>

theorem captured_local_shared:
  assumes "wf_thread t" "captureUpvalue i t = Inr (a, t1)"
  shows "captureUpvalue i t1 = Inr (a, t1)
    \<and> (\<forall>j b t2. captureUpvalue j t1 = Inr (b, t2) \<longrightarrow> (b = a) = (j = i))
    \<and> (\<forall>v t2. slot_write i v t1 = Inr t2 \<longrightarrow> upvalue_get a t2 = Inr v)
    \<and> (\<forall>v t2. upvalue_set a v t1 = Inr t2 \<longrightarrow> slot_read i t2 = Inr v)
    \<and> (\<forall>b < length (heap t). upvalue_get b t1 = upvalue_get b t)"
proof -
  note c = captureUpvalue_spec [OF assms]
  obtain d where d: "obj_at (heap t1) a = Some (O_Upvalue (On_Stack i) d)"
    using c(2) by (auto simp: upvalue_slot_def split: option.splits obj.splits upvalue_location.splits)
  have st: "stack t1 = stack t" using c(4) by (metis thread.select_convs(1) thread.surjective thread.update_convs(4,5))
  have other: "(b = a) = (j = i)" if "captureUpvalue j t1 = Inr (b, t2)" for j b t2
  proof
    assume "b = a"
    have "upvalue_slot (heap t2) b = Some j" by (rule captureUpvalue_spec(2) [OF c(1) that])
    moreover have "a < length (heap t1)" using c(2) by (rule upvalue_slot_bound)
    then have "obj_at (heap t2) a = obj_at (heap t1) a" using captureUpvalue_spec(6) [OF c(1) that] by blast
    then have "upvalue_slot (heap t2) a = upvalue_slot (heap t1) a" by (simp add: upvalue_slot_def)
    ultimately show "j = i" using \<open>b = a\<close> c(2) by simp
  next
    assume "j = i"
    then show "b = a" using that c(3) by simp
  qed
  have w: "upvalue_get a t2 = Inr v" if "slot_write i v t1 = Inr t2" for v t2
    using that d by (auto simp: slot_write_def upvalue_get_def slot_read_def split: if_splits)
  have r: "slot_read i t2 = Inr v" if "upvalue_set a v t1 = Inr t2" for v t2
    using that d by (auto simp: upvalue_set_def slot_write_def slot_read_def split: if_splits)
  have g: "upvalue_get b t1 = upvalue_get b t" if "b < length (heap t)" for b
    using c(6) [OF that] by (simp add: upvalue_get_def slot_read_def st split: option.split obj.split upvalue_location.split)
  show ?thesis using c(3) other w r g by blast
qed

text \<open>
  C3. Returning from a function leaves the caller's stack as it was with the result on top of it.  Every
  captured variable reads the same value as before, those of the function that returned from their own
  copies, with one exception: a variable captured at the very slot the result is popped from, which a
  caught exception can leave behind, reads nil from then on when the result is an object.
\<close>

theorem return_keeps_captured:
  assumes "wf_thread t" "frames t = f # fs" "fs \<noteq> []" "slots f < stackTop t"
    and "opReturn t = Inr (r, t1)" "push r t1 = Inr t2"
  shows "r = stack t ! (stackTop t - 1) \<and> frames t2 = fs \<and> stackTop t2 = slots f + 1
    \<and> take (slots f + 1) (stack t2) = take (slots f) (stack t) @ [r]
    \<and> (\<forall>a. upvalue_get a t2 = (if upvalue_slot (heap t) a = Some (stackTop t - 1) \<and> is_obj r then Inr (Sc SNil) else upvalue_get a t))
    \<and> (\<forall>a i. upvalue_slot (heap t2) a = Some i \<longrightarrow> i < slots f)"
proof -
  obtain p where p: "pop t = Inr (r, p)"
    and n: "popN (stackTop (popFrame (closeUpvalues (slots f) p)) - slots f) (popFrame (closeUpvalues (slots f) p)) = Inr t1"
  proof -
    obtain p where "pop t = Inr (r, p)" "frames p = frames t"
      using assms(2,5) pop_fields(1) by (fastforce simp: opReturn_def seq_then_eq_Inr Let_def split: if_splits)
    then show ?thesis using that assms(2,3,5) by (auto simp: opReturn_def seq_then_eq_Inr Let_def)
  qed
  note q = pop_spec [OF p]
  have pf: "frames p = frames t" "heap p = heap t" using pop_fields [OF p] by simp_all
  have wp: "wf_thread p" using p assms(1) pop_wf by blast
  have gp: "upvalue_get a p = (if upvalue_slot (heap t) a = Some (stackTop t - 1) \<and> is_obj r then Inr (Sc SNil) else upvalue_get a t)" for a
  proof (cases "upvalue_slot (heap t) a = Some (stackTop t - 1) \<and> is_obj r")
    case True
    then have "stackTop t - 1 < length (stack t)" "stackTop t > 0" using assms(1,4) by (auto simp: wf_thread_def)
    then have "slot_read (stackTop t - 1) p = Inr (Sc SNil)" using p True by (auto simp: pop_def slot_read_def Let_def split: if_splits)
    then show ?thesis using True pf(2) by (auto simp: upvalue_get_def upvalue_slot_def split: option.splits obj.splits upvalue_location.splits)
  next
    case False
    have "upvalue_get a p = upvalue_get a t"
    proof (rule upvalue_get_cong)
      fix i assume "upvalue_slot (heap t) a = Some i"
      then show "stack p ! i = stack t ! i" using q(5,6) False \<open>upvalue_slot (heap t) a = Some i\<close> by (cases "i = stackTop p") (simp_all add: q(1))
    qed (use pf q(4) in auto)
    then show ?thesis unfolding if_not_P [OF False] .
  qed
  have "unwindFrame p = Inr (t1\<lparr>frames := fs\<rparr>)"
  proof -
    have c: "\<not> stackTop (closeUpvalues (slots f) p) < slots f"
      using assms(4) q(1) by simp
    have swap: "popN k (popFrame u) = (case popN k u of Inl e \<Rightarrow> Inl e | Inr w \<Rightarrow> Inr (popFrame w))" for k u
    proof (induction k arbitrary: u)
      case (Suc k)
      have "pop (popFrame u) = (case pop u of Inl e \<Rightarrow> Inl e | Inr (v, w) \<Rightarrow> Inr (v, popFrame w))"
        by (simp add: pop_def popFrame_def Let_def)
      then show ?case using Suc by (auto simp: seq_then_def split: sum.splits prod.splits)
    qed simp
    obtain w where w: "popN (stackTop (closeUpvalues (slots f) p) - slots f) (closeUpvalues (slots f) p) = Inr w" "t1 = popFrame w"
      using n unfolding swap by (auto simp: popFrame_def split: sum.splits)
    have "frames w = f # fs" using popN_fields [OF w(1)] pf(1) assms(2) by simp
    then show ?thesis using w c pf assms(2) by (simp add: unwindFrame_def Let_def popFrame_def)
  qed
  then obtain t1' where u: "t1' = t1\<lparr>frames := fs\<rparr>" "frames t1' = fs" "stackTop t1' = slots f" "length (stack t1') = length (stack p)"
    "\<forall>i < slots f. stack t1' ! i = stack p ! i" "\<forall>a. upvalue_get a t1' = upvalue_get a p"
    "\<forall>a i. upvalue_slot (heap t1') a = Some i \<longleftrightarrow> upvalue_slot (heap p) a = Some i \<and> i < slots f"
    using unwindFrame_spec [OF wp, of f fs] pf assms(2,4) q(1) by auto
  have ft: "frames t1 = fs" using popN_fields [OF n] pf(1) assms(2) by simp
  then have t1: "t1' = t1" using u(1) by simp
  have sl: "slots f < length (stack t)" using assms(1,4) by (auto simp: wf_thread_def)
  have t2: "t2 = t1\<lparr>stack := (stack t1)[slots f := r], stackTop := slots f + 1\<rparr>"
    using assms(6) u(3) t1 by (auto simp: push_def split: if_splits)
  have ne: "slots f \<noteq> i" if "upvalue_slot (heap t1) a = Some i" for a i
    using u(7) that by (auto simp: t1)
  have "upvalue_get a t2 = upvalue_get a t1" for a
  proof (rule upvalue_get_cong)
    fix i assume "upvalue_slot (heap t1) a = Some i"
    then show "stack t2 ! i = stack t1 ! i" using ne by (simp add: t2)
  qed (simp_all add: t2)
  moreover have "take (slots f + 1) (stack t2) = take (slots f) (stack t) @ [r]"
  proof (rule nth_equalityI)
    show "length (take (slots f + 1) (stack t2)) = length (take (slots f) (stack t) @ [r])"
      using sl u(4) q(4) by (simp add: t2 t1)
    fix i assume "i < length (take (slots f + 1) (stack t2))"
    then have "i < slots f + 1" by simp
    then show "take (slots f + 1) (stack t2) ! i = (take (slots f) (stack t) @ [r]) ! i"
      using sl u(4,5) q(1,4,5) assms(4) by (auto simp: t2 t1 nth_append less_Suc_eq)
  qed
  ultimately show ?thesis using u ft gp q(1,2) by (auto simp: t2 t1)
qed

text \<open>
  The frames \<open>us\<close> above the one that catches lie one above the other on the stack, hold no handler
  and were not entered by native code.
\<close>

fun unwindable :: "nat \<Rightarrow> frame list \<Rightarrow> nat \<Rightarrow> bool" where
  "unwindable n [] d \<longleftrightarrow> d \<le> n"
| "unwindable n (u # us) d \<longleftrightarrow>
     slots u \<le> n \<and> exceptionHandlers u = [] \<and> \<not> unwindOnReturn u \<and> unwindable (slots u) us d"

text \<open>The stack slots whose captured variables those frames close.\<close>

definition closed_by :: "frame list \<Rightarrow> nat \<Rightarrow> bool" where
  "closed_by us i \<longleftrightarrow> us \<noteq> [] \<and> slots (last us) \<le> i"

lemma unwind_loop_finds:
  assumes "wf_thread t" "frames t = us @ g # gs" "unwindable (stackTop t) us d" "exceptionHandlers g = h # hs"
    "h_frameDepth h = length (g # gs)" "h_stackDepth h = d" "d < length (stack t)" "length us \<le> n"
  shows "\<exists>t'. unwind_loop n exc t = Inr t' \<and> frames t' = g\<lparr>exceptionHandlers := hs, ip := h_ip h\<rparr> # gs
    \<and> stackTop t' = d + 1 \<and> stack t' ! d = exc \<and> (\<forall>i < d. stack t' ! i = stack t ! i) \<and> length (stack t') = length (stack t)
    \<and> (\<forall>a. upvalue_slot (heap t) a = None \<longrightarrow> obj_at (heap t') a = obj_at (heap t) a)
    \<and> (\<forall>a. (case upvalue_slot (heap t) a of Some i \<Rightarrow> i < d \<or> closed_by us i | None \<Rightarrow> True)
         \<longrightarrow> upvalue_get a t' = upvalue_get a t)
    \<and> (\<forall>a i. upvalue_slot (heap t) a = Some i \<and> \<not> closed_by us i \<longrightarrow> upvalue_slot (heap t') a = Some i)"
  using assms
proof (induction us arbitrary: t n)
  case Nil
  obtain t0 where t0: "t0 = t\<lparr>frames := g\<lparr>exceptionHandlers := hs\<rparr> # gs\<rparr>" by simp
  obtain t1 where t1: "t1 = t\<lparr>frames := g\<lparr>exceptionHandlers := hs, ip := h_ip h\<rparr> # gs\<rparr>" by simp
  have d: "d \<le> stackTop t" using Nil(3) by simp
  have "popN k u \<noteq> Inl e" if "k \<le> stackTop u" for k u e
    using that by (induction k arbitrary: u) (auto simp: pop_def Let_def)
  then obtain t2 where p: "popN (stackTop t1 - d) t1 = Inr t2" by (metis diff_le_self sum.exhaust)
  note q = popN_spec [OF p] and qf = popN_fields [OF p]
  have top: "stackTop t2 = d" using q(1) d by (simp add: t1)
  obtain t3 where t3: "t3 = t2\<lparr>stack := (stack t2)[d := exc], stackTop := d + 1\<rparr>" by simp
  have ps: "push exc t2 = Inr t3" using top q(3) Nil(7) by (simp add: push_def t1 t3)
  have "enter_handler exc t = Inr t3"
    using Nil(2,4-6) p ps by (simp add: enter_handler_def popToDepth_def t1)
  then have loop: "unwind_loop n exc t = Inr t3" using Nil(2,4) by (simp add: unwind_loop_simps)
  have get: "upvalue_get a t3 = upvalue_get a t"
    if k: "case upvalue_slot (heap t) a of Some i \<Rightarrow> i < d \<or> closed_by [] i | None \<Rightarrow> True" for a
  proof (rule upvalue_get_cong)
    fix i assume i: "upvalue_slot (heap t) a = Some i"
    then have "i < d" using k by (simp add: closed_by_def)
    then show "stack t3 ! i = stack t ! i" using q(4) top by (simp add: t3 t1)
  qed (use qf q(3) in \<open>auto simp: t3 t1\<close>)
  show ?case using loop qf top q(3,4) get Nil(7) by (intro exI [of _ t3]) (auto simp: t3 t1)
next
  case (Cons u us)
  have "slots u \<le> stackTop t" using Cons(4) by simp
  from unwindFrame_spec [OF Cons(2) _ this, of "us @ g # gs"] obtain t1 where
    u: "unwindFrame t = Inr t1" "frames t1 = us @ g # gs" "stackTop t1 = slots u" "length (stack t1) = length (stack t)"
      "\<forall>i < slots u. stack t1 ! i = stack t ! i" "\<forall>a. upvalue_get a t1 = upvalue_get a t" "length (heap t1) = length (heap t)"
      "\<forall>a. upvalue_slot (heap t) a = None \<longrightarrow> obj_at (heap t1) a = obj_at (heap t) a"
      "\<forall>a i. upvalue_slot (heap t1) a = Some i \<longleftrightarrow> upvalue_slot (heap t) a = Some i \<and> i < slots u"
    using Cons(3) by auto
  have w1: "wf_thread t1" using u(1) Cons(2) unwindFrame_wf by blast
  obtain m where n: "n = Suc m" using Cons(9) by (cases n) auto
  have loop: "unwind_loop n exc t = unwind_loop m exc t1"
    using Cons(3,4) u(1) by (simp add: unwind_loop_simps [of "Suc m"] n)
  have cb: "closed_by (u # us) i \<longleftrightarrow> closed_by us i \<or> slots u \<le> i" for i
  proof -
    have "slots (last vs) \<le> k" if "unwindable k vs d" "vs \<noteq> []" for k vs
      using that by (induction vs arbitrary: k) fastforce+
    then have "us \<noteq> [] \<Longrightarrow> slots (last us) \<le> slots u" using Cons(4) by simp
    then show ?thesis by (auto simp: closed_by_def)
  qed
  from Cons(1) [OF w1 u(2), of m] Cons(4-9) u(3,4) n obtain t' where
    t': "unwind_loop m exc t1 = Inr t'" "frames t' = g\<lparr>exceptionHandlers := hs, ip := h_ip h\<rparr> # gs" "stackTop t' = d + 1"
      "stack t' ! d = exc" "\<forall>i < d. stack t' ! i = stack t1 ! i" "length (stack t') = length (stack t1)"
      "\<forall>a. upvalue_slot (heap t1) a = None \<longrightarrow> obj_at (heap t') a = obj_at (heap t1) a"
      "\<forall>a. (case upvalue_slot (heap t1) a of Some i \<Rightarrow> i < d \<or> closed_by us i | None \<Rightarrow> True) \<longrightarrow> upvalue_get a t' = upvalue_get a t1"
      "\<forall>a i. upvalue_slot (heap t1) a = Some i \<and> \<not> closed_by us i \<longrightarrow> upvalue_slot (heap t') a = Some i"
    by auto
  have d: "d \<le> slots u"
  proof -
    have "d \<le> k" if "unwindable k vs d" for k vs using that by (induction vs arbitrary: k) fastforce+
    then show ?thesis using Cons(4) by auto
  qed
  have keep: "upvalue_slot (heap t1) a = Some i" if "upvalue_slot (heap t) a = Some i" "i < slots u" for a i
    using u(9) that by blast
  have none: "upvalue_slot (heap t1) a = None" if "upvalue_slot (heap t) a = None" for a
    using u(8) that by (simp add: upvalue_slot_def)
  have get: "upvalue_get a t' = upvalue_get a t"
    if k: "case upvalue_slot (heap t) a of Some i \<Rightarrow> i < d \<or> closed_by (u # us) i | None \<Rightarrow> True" for a
  proof -
    have "case upvalue_slot (heap t1) a of Some i \<Rightarrow> i < d \<or> closed_by us i | None \<Rightarrow> True"
    proof (cases "upvalue_slot (heap t1) a")
      case (Some i)
      then have "upvalue_slot (heap t) a = Some i" "i < slots u" using u(9) by blast+
      then show ?thesis using Some k cb by simp
    qed simp
    then show ?thesis using t'(8) u(6) by simp
  qed
  show ?case
    using loop t' u(4,5) d get none keep cb u(8) by (intro exI [of _ t']) auto
qed

text \<open>
  C4. A raised exception reaches the innermost frame with a handler, whichever frames lie above it: that
  frame continues at the handler's instruction with its next handler exposed, the stack is cut to the
  depth at which the handler was set up with the exception on top, and below that nothing changed.
  Captured variables below the cut, and those of the frames that were left, read as before.
\<close>

theorem exception_reaches_handler:
  assumes "wf_thread t" "isException exc t" "frames t = us @ g # gs" "unwindable (stackTop t) us d"
    and "exceptionHandlers g = h # hs" "h_frameDepth h = length (g # gs)" "h_stackDepth h = d" "d < length (stack t)"
  shows "\<exists>t'. unwindToExceptionHandler exc t = Inr t'
    \<and> frames t' = g\<lparr>exceptionHandlers := hs, ip := h_ip h\<rparr> # gs
    \<and> take (stackTop t') (stack t') = take d (stack t) @ [exc]
    \<and> (\<forall>a. (case upvalue_slot (heap t) a of Some i \<Rightarrow> i < d \<or> closed_by us i | None \<Rightarrow> True)
         \<longrightarrow> upvalue_get a t' = upvalue_get a t)"
proof -
  have "length us \<le> length (frames t)" using assms(3) by simp
  from unwind_loop_finds [OF assms(1,3-8) this] obtain t' where
    t': "unwind_loop (length (frames t)) exc t = Inr t'" "frames t' = g\<lparr>exceptionHandlers := hs, ip := h_ip h\<rparr> # gs"
    "stackTop t' = d + 1" "stack t' ! d = exc" "\<forall>i < d. stack t' ! i = stack t ! i" "length (stack t') = length (stack t)"
    "\<forall>a. (case upvalue_slot (heap t) a of Some i \<Rightarrow> i < d \<or> closed_by us i | None \<Rightarrow> True) \<longrightarrow> upvalue_get a t' = upvalue_get a t"
    by blast
  have "take (stackTop t') (stack t') = take d (stack t) @ [exc]"
    using t'(3-6) assms(8) by (intro nth_equalityI) (auto simp: nth_append less_Suc_eq)
  then show ?thesis using t' assms(2) by (auto simp: unwindToExceptionHandler_def as_exception_def)
qed

text \<open>
  An exception caught in the frame that raised it does not close the variables captured above the
  cut: the one captured in the first slot of the guarded region is left open there and reads the
  exception object from then on.
\<close>

theorem caught_exception_overwrites_captured:
  assumes "wf_thread t" "isException exc t" "frames t = g # gs" "exceptionHandlers g = h # hs"
    and "h_frameDepth h = length (frames t)" "h_stackDepth h < stackTop t"
    and "upvalue_slot (heap t) a = Some (h_stackDepth h)"
  shows "\<exists>t'. unwindToExceptionHandler exc t = Inr t' \<and> upvalue_slot (heap t') a = Some (h_stackDepth h)
    \<and> upvalue_get a t' = Inr exc"
proof -
  obtain d where d: "h_stackDepth h = d" by simp
  have dl: "d < length (stack t)" using assms(1,6) d by (simp add: wf_thread_def)
  have "unwindable (stackTop t) [] d" using assms(6) d by simp
  from unwind_loop_finds [OF assms(1) _ this assms(4) _ d dl, of gs "length (frames t)" exc] obtain t' where
    t': "unwind_loop (length (frames t)) exc t = Inr t'" "stack t' ! d = exc" "length (stack t') = length (stack t)"
    "\<forall>a i. upvalue_slot (heap t) a = Some i \<and> \<not> closed_by [] i \<longrightarrow> upvalue_slot (heap t') a = Some i"
    using assms(3,5) by auto
  have slot: "upvalue_slot (heap t') a = Some d" using t'(4) assms(7) d by (simp add: closed_by_def)
  moreover have "upvalue_get a t' = Inr exc"
    using slot t'(2,3) dl
    by (auto simp: upvalue_slot_def upvalue_get_def slot_read_def split: option.splits obj.splits upvalue_location.splits)
  ultimately show ?thesis using t'(1) assms(2) d by (auto simp: unwindToExceptionHandler_def as_exception_def)
qed

text \<open>A small thread: two frames, one variable of each captured, an exception object on the heap.\<close>

definition sample_frame :: "nat \<Rightarrow> handler list \<Rightarrow> frame" where
  "sample_frame s hs = \<lparr>fr_closure = 1, ip = 0, slots = s, parent = None, fr_strict = False, callerStrict = False,
     tailArgValues = [], reorderArgs = [], exceptionHandlers = hs, unwindOnReturn = False\<rparr>"

definition sample_thread :: "nat \<Rightarrow> thread" where
  "sample_thread s = \<lparr>stack = map (\<lambda>i. Sc (SInt (word_of_nat i))) [0..<8], stackTop = 6,
     frames = [sample_frame 3 [], sample_frame 0 [\<lparr>h_ip = 9, h_stackDepth = 2, h_frameDepth = 1\<rparr>]],
     openUpvalues = [2, 1], heap = [O_Exception (Sc SNil), O_Upvalue (On_Stack s) (Sc SNil), O_Upvalue (On_Stack 4) (Sc SNil)],
     frameStart = False, modl = \<lparr>mod_vars = \<lparr>vm_vars = [], vm_globals = []\<rparr>, mod_constVars = [], mod_importedVars = [],
       mod_inDataflowBody = False\<rparr>\<rparr>"

lemma sample_slots:
  "upvalue_slot (heap (sample_thread s)) a = (if a = 1 then Some s else if a = 2 then Some 4 else None)"
  by (auto simp: sample_thread_def upvalue_slot_def obj_at_def nth_Cons split: nat.splits)

lemma sample_wf: "s < 4 \<Longrightarrow> wf_thread (sample_thread s)"
  using sample_slots [of s]
  by (auto simp: wf_thread_def wf_open_def uslot_def) (auto simp: sample_thread_def sample_frame_def split: if_splits)

theorem captured_local_shared_witness:
  "\<exists>a t1. captureUpvalue 5 (sample_thread 1) = Inr (a, t1) \<and> captureUpvalue 5 t1 = Inr (a, t1)"
proof -
  have "\<exists>t1. captureUpvalue 5 (sample_thread 1) = Inr (3, t1)"
    using sample_slots [of 1 2] by (simp add: captureUpvalue_def sample_thread_def Let_def)
  then obtain t1 where c: "captureUpvalue 5 (sample_thread 1) = Inr (3, t1)" by blast
  have w: "wf_thread (sample_thread 1)" by (rule sample_wf) simp
  show ?thesis using captured_local_shared [OF w c] c by blast
qed

theorem return_keeps_captured_witness:
  "\<exists>t2. stackTop t2 = 4 \<and> upvalue_get 2 t2 = Inr (Sc (SInt 4)) \<and> upvalue_get 1 t2 = Inr (Sc (SInt 1))"
proof -
  let ?t = "sample_thread 1"
  have w: "wf_thread ?t" by (rule sample_wf) simp
  have f: "frames ?t = sample_frame 3 [] # [sample_frame 0 [\<lparr>h_ip = 9, h_stackDepth = 2, h_frameDepth = 1\<rparr>]]"
    by (simp add: sample_thread_def)
  have "\<exists>r t1. opReturn ?t = Inr (r, t1) \<and> stackTop t1 = 3 \<and> length (stack t1) = 8"
    by (simp add: opReturn_def sample_thread_def sample_frame_def pop_def is_obj_def fitsInInt32_def closeUpvalues_def
        upvalue_slot_def obj_at_def popFrame_def Let_def numeral_3_eq_3 numeral_2_eq_2)
  then obtain r t1 where o: "opReturn ?t = Inr (r, t1)" "stackTop t1 = 3" "length (stack t1) = 8" by blast
  then obtain t2 where p: "push r t1 = Inr t2" by (simp add: push_def)
  have g: "upvalue_get 2 ?t = Inr (Sc (SInt 4))" "upvalue_get 1 ?t = Inr (Sc (SInt 1))"
    by (simp_all add: upvalue_get_def sample_thread_def obj_at_def slot_read_def)
  have s: "slots (sample_frame 3 []) < stackTop ?t" "\<forall>a. upvalue_slot (heap ?t) a \<noteq> Some (stackTop ?t - 1)"
    using sample_slots [of 1] by (auto simp: sample_thread_def sample_frame_def)
  from return_keeps_captured [OF w f _ s(1) o(1) p] g s(2) show ?thesis
    by (intro exI [of _ t2]) (simp add: sample_frame_def)
qed

theorem exception_reaches_handler_witness:
  "\<exists>t'. unwindToExceptionHandler (Ref 0) (sample_thread 1) = Inr t' \<and> upvalue_get 2 t' = Inr (Sc (SInt 4))
     \<and> upvalue_get 1 t' = Inr (Sc (SInt 1))"
proof -
  let ?t = "sample_thread 1"
  let ?h = "\<lparr>h_ip = 9, h_stackDepth = 2, h_frameDepth = 1\<rparr>"
  have w: "wf_thread ?t" by (rule sample_wf) simp
  have f: "frames ?t = [sample_frame 3 []] @ sample_frame 0 [?h] # []" by (simp add: sample_thread_def)
  have e: "isException (Ref 0) ?t" by (simp add: isException_def sample_thread_def obj_at_def)
  have u: "unwindable (stackTop ?t) [sample_frame 3 []] 2" by (simp add: sample_thread_def sample_frame_def)
  have g: "upvalue_get 2 ?t = Inr (Sc (SInt 4))" "upvalue_get 1 ?t = Inr (Sc (SInt 1))"
    by (simp_all add: upvalue_get_def sample_thread_def obj_at_def slot_read_def)
  have "2 < length (stack ?t)" by (simp add: sample_thread_def)
  then show ?thesis
    using exception_reaches_handler [OF w e f u, of ?h "[]"] g sample_slots [of 1]
    by (fastforce simp: sample_frame_def closed_by_def)
qed

theorem caught_exception_overwrites_captured_witness:
  "\<exists>t'. unwindToExceptionHandler (Ref 0)
       ((sample_thread 2)\<lparr>frames := [sample_frame 0 [\<lparr>h_ip = 9, h_stackDepth = 2, h_frameDepth = 1\<rparr>]]\<rparr>) = Inr t'
     \<and> upvalue_get 1 t' = Inr (Ref 0)"
proof -
  let ?h = "\<lparr>h_ip = 9, h_stackDepth = 2, h_frameDepth = 1\<rparr>"
  let ?t = "(sample_thread 2)\<lparr>frames := [sample_frame 0 [?h]]\<rparr>"
  have w: "wf_thread ?t"
  proof (rule wf_frames)
    show "wf_thread (sample_thread 2)" by (rule sample_wf) simp
  qed (simp add: sample_frame_def)
  have e: "isException (Ref 0) ?t" by (simp add: isException_def sample_thread_def obj_at_def)
  have "upvalue_slot (heap ?t) 1 = Some (h_stackDepth ?h)" using sample_slots [of 2 1] by simp
  moreover have "frames ?t = [sample_frame 0 [?h]]" "exceptionHandlers (sample_frame 0 [?h]) = [?h]"
    "h_frameDepth ?h = length (frames ?t)" "h_stackDepth ?h < stackTop ?t"
    by (simp_all add: sample_frame_def sample_thread_def)
  ultimately show ?thesis using caught_exception_overwrites_captured [OF w e, of "sample_frame 0 [?h]" "[]" ?h "[]" 1] by blast
qed

end
