(* ===== verification/Vm_Step.thy ===== *)
theory Vm_Step
  imports Vm_State Chunk_Code
begin

text \<open>
  The instruction loop of \<open>VM::execute\<close> in \<open>compiler/VM.cpp\<close>: fetching and decoding, and the
  instructions on constants, the stack, locals, captured variables, module variables, operators,
  jumps, closures, calls of closures, returns and exceptions, for one thread whose values are
  scalars, strings and the objects of \<open>Vm_State\<close>.  \<open>step\<close> runs one turn of the loop: the start of a
  frame if one is due, then one instruction.  An instruction outside this set, or an operand of it
  outside these values, is \<open>Outside_Model\<close>.  The condition that ends the loop is that of the
  outermost \<open>execute\<close>.
\<close>

section \<open>Reading the code\<close>

definition current_code :: "thread \<Rightarrow> byte list" where
  "current_code t =
     (case frames t of
        [] \<Rightarrow> []
      | f # fs \<Rightarrow> (case obj_at (heap t) (fr_closure f) of
            Some (O_Closure a us) \<Rightarrow> (case obj_at (heap t) a of Some (O_Function fn) \<Rightarrow> fn_code fn | _ \<Rightarrow> [])
          | _ \<Rightarrow> []))"

definition current_fn :: "thread \<Rightarrow> stop + fn" where
  "current_fn t =
     (case frames t of
        [] \<Rightarrow> Inl Undefined
      | f # fs \<Rightarrow> (case obj_at (heap t) (fr_closure f) of
            Some (O_Closure a us) \<Rightarrow> (case obj_at (heap t) a of Some (O_Function fn) \<Rightarrow> Inr fn | _ \<Rightarrow> Inl Undefined)
          | _ \<Rightarrow> Inl Undefined))"

definition with_frame :: "(frame \<Rightarrow> frame) \<Rightarrow> thread \<Rightarrow> stop + thread" where
  "with_frame g t =
     (case frames t of [] \<Rightarrow> Inl Undefined | f # fs \<Rightarrow> Inr (t\<lparr>frames := g f # fs\<rparr>))"

definition frame_of :: "thread \<Rightarrow> stop + frame" where
  "frame_of t = (case frames t of [] \<Rightarrow> Inl Undefined | f # fs \<Rightarrow> Inr f)"

definition set_ip :: "nat \<Rightarrow> thread \<Rightarrow> stop + thread" where
  "set_ip i = with_frame (\<lambda>f. f\<lparr>ip := i\<rparr>)"

definition readByte :: "thread \<Rightarrow> stop + (byte \<times> thread)" where
  "readByte t = seq_then (frame_of t) (\<lambda>f. seq_then (current_fn t) (\<lambda>fn.
     if ip f < length (fn_code fn)
     then seq_then (set_ip (ip f + 1) t) (\<lambda>t1. Inr (fn_code fn ! ip f, t1))
     else Inl Undefined))"

definition readShort :: "thread \<Rightarrow> stop + (nat \<times> thread)" where
  "readShort t = seq_then (readByte t) (\<lambda>(hi, t1). seq_then (readByte t1) (\<lambda>(lo, t2).
     Inr (unat hi * 256 + unat lo, t2)))"

text \<open>One or two operand bytes, as the \<open>DoubleByteArg\<close> bit of the opcode says.\<close>

definition readArg :: "bool \<Rightarrow> thread \<Rightarrow> stop + (nat \<times> thread)" where
  "readArg dbl t = (if dbl then readShort t else seq_then (readByte t) (\<lambda>(b, t1). Inr (unat b, t1)))"

definition readConstant :: "bool \<Rightarrow> thread \<Rightarrow> stop + (operand \<times> thread)" where
  "readConstant dbl t = seq_then (readArg dbl t) (\<lambda>(i, t1). seq_then (current_fn t1) (\<lambda>fn.
     if i < length (fn_constants fn) then Inr (fn_constants fn ! i, t1) else Inl Undefined))"

definition readString :: "bool \<Rightarrow> thread \<Rightarrow> stop + (ustring \<times> thread)" where
  "readString dbl t = seq_then (readConstant dbl t) (\<lambda>(v, t1).
     case v of operand.Str s \<Rightarrow> Inr (s, t1) | _ \<Rightarrow> Inl Undefined)"

type_synonym instruction = "thread \<Rightarrow> stop + thread"

section \<open>Constants and the stack\<close>

definition op_Constant :: "bool \<Rightarrow> instruction" where
  "op_Constant dbl t = seq_then (readConstant dbl t) (\<lambda>(v, t1). push v t1)"

definition op_push :: "operand \<Rightarrow> instruction" where "op_push v = push v"

definition op_Pop :: instruction where "op_Pop t = seq_then (pop t) (\<lambda>(v, t1). Inr t1)"

definition op_PopN :: instruction where
  "op_PopN t = seq_then (readByte t) (\<lambda>(count, t1). popN (unat count) t1)"

definition op_PopToCount :: instruction where
  "op_PopToCount t = seq_then (readShort t) (\<lambda>(keep, t1). seq_then (frame_of t1) (\<lambda>f.
     let t2 = closeUpvalues (slots f + keep) t1 in popN (stackTop t2 - (slots f + keep)) t2))"

definition op_Dup :: instruction where "op_Dup t = seq_then (peek 0 t) (\<lambda>v. push v t)"
definition op_DupBelow :: instruction where "op_DupBelow t = seq_then (peek 1 t) (\<lambda>v. push v t)"

definition op_Swap :: instruction where
  "op_Swap t = seq_then (peek 0 t) (\<lambda>a. seq_then (peek 1 t) (\<lambda>b.
     seq_then (poke 0 b t) (\<lambda>t1. poke 1 a t1)))"

section \<open>Jumps\<close>

definition jump_by :: "nat \<Rightarrow> instruction" where
  "jump_by d t = seq_then (frame_of t) (\<lambda>f. set_ip (ip f + d) t)"

definition op_jump_when :: "(scalar \<Rightarrow> bool) \<Rightarrow> instruction" where
  "op_jump_when c t = seq_then (readShort t) (\<lambda>(d, t1). seq_then (peek 0 t1) (\<lambda>v.
     if (case v of Sc s \<Rightarrow> c s | _ \<Rightarrow> False) then jump_by d t1 else Inr t1))"

definition op_JumpIfFalse :: instruction where "op_JumpIfFalse = op_jump_when isFalsey"
definition op_JumpIfTrue :: instruction where "op_JumpIfTrue = op_jump_when isTruthy"
definition op_AndShortCircuit :: instruction where "op_AndShortCircuit = op_jump_when isFalsey"
definition op_OrShortCircuit :: instruction where "op_OrShortCircuit = op_jump_when isTruthy"

definition op_combine :: instruction where
  "op_combine t = seq_then (pop t) (\<lambda>(r, t1). seq_then (pop t1) (\<lambda>(_, t2). push r t2))"

definition op_Jump :: instruction where
  "op_Jump t = seq_then (readShort t) (\<lambda>(d, t1). jump_by d t1)"

definition op_Loop :: instruction where
  "op_Loop t = seq_then (readShort t) (\<lambda>(d, t1). seq_then (frame_of t1) (\<lambda>f.
     if d \<le> ip f then set_ip (ip f - d) t1 else Inl Undefined))"

section \<open>Variables\<close>

definition op_GetLocal :: "bool \<Rightarrow> instruction" where
  "op_GetLocal dbl t = seq_then (readArg dbl t) (\<lambda>(slot, t1). seq_then (frame_of t1) (\<lambda>f.
     seq_then (slot_read (slots f + slot) t1) (\<lambda>v. push v t1)))"

definition op_MoveLocal :: "bool \<Rightarrow> instruction" where
  "op_MoveLocal dbl t = seq_then (readArg dbl t) (\<lambda>(slot, t1). seq_then (frame_of t1) (\<lambda>f.
     seq_then (slot_read (slots f + slot) t1) (\<lambda>v. seq_then (push v t1) (slot_write (slots f + slot) (Sc SNil)))))"

definition op_SetLocal :: "bool \<Rightarrow> instruction" where
  "op_SetLocal dbl t = seq_then (readArg dbl t) (\<lambda>(slot, t1). seq_then (frame_of t1) (\<lambda>f.
     seq_then (peek 0 t1) (\<lambda>v. slot_write (slots f + slot) v t1)))"

definition frame_upvalue :: "nat \<Rightarrow> thread \<Rightarrow> stop + addr" where
  "frame_upvalue i t = seq_then (frame_of t) (\<lambda>f.
     case obj_at (heap t) (fr_closure f) of
       Some (O_Closure a us) \<Rightarrow> if i < length us then Inr (us ! i) else Inl Undefined
     | _ \<Rightarrow> Inl Undefined)"

definition op_GetUpvalue :: "bool \<Rightarrow> instruction" where
  "op_GetUpvalue dbl t = seq_then (readArg dbl t) (\<lambda>(slot, t1). seq_then (frame_upvalue slot t1) (\<lambda>a.
     seq_then (upvalue_get a t1) (\<lambda>v. push v t1)))"

definition op_SetUpvalue :: "bool \<Rightarrow> instruction" where
  "op_SetUpvalue dbl t = seq_then (readArg dbl t) (\<lambda>(slot, t1). seq_then (frame_upvalue slot t1) (\<lambda>a.
     seq_then (peek 0 t1) (\<lambda>v. upvalue_set a v t1)))"

definition in_module :: "(var_error + 'a) \<Rightarrow> ('a \<Rightarrow> stop + thread) \<Rightarrow> stop + thread" where
  "in_module r k = (case r of Inl e \<Rightarrow> Inl (Variable_Failure e) | Inr x \<Rightarrow> k x)"

definition x_DefineModuleConst :: "bool \<Rightarrow> instruction" where
  "x_DefineModuleConst dbl t = seq_then (readString dbl t) (\<lambda>(name, t1). seq_then (pop t1) (\<lambda>(v, t2).
     Inr (t2\<lparr>modl := snd (op_DefineModuleConst name v [] (modl t2))\<rparr>)))"

definition x_DefineModuleVar :: "bool \<Rightarrow> instruction" where
  "x_DefineModuleVar dbl t = seq_then (readString dbl t) (\<lambda>(name, t1). seq_then (pop t1) (\<lambda>(v, t2).
     Inr (t2\<lparr>modl := snd (op_DefineModuleVar name v [] (modl t2))\<rparr>)))"

definition x_GetModuleVar :: "bool \<Rightarrow> instruction" where
  "x_GetModuleVar dbl t = seq_then (readString dbl t) (\<lambda>(name, t1).
     in_module (op_GetModuleVar name (modl t1)) (\<lambda>(v, isConstRef).
       if isConstRef \<and> is_obj v then Inl stop.Outside_Model else push v t1))"

definition x_MoveModuleVar :: "bool \<Rightarrow> instruction" where
  "x_MoveModuleVar dbl t = seq_then (readString dbl t) (\<lambda>(name, t1).
     in_module (op_MoveModuleVar name [] (modl t1)) (\<lambda>(vs, md). seq_then (push (hd vs) t1) (\<lambda>t2. Inr (t2\<lparr>modl := md\<rparr>))))"

definition x_SetModuleVar :: "bool \<Rightarrow> instruction" where
  "x_SetModuleVar dbl t = seq_then (readString dbl t) (\<lambda>(name, t1). seq_then (peek 0 t1) (\<lambda>v.
     in_module (op_SetModuleVar name v (modl t1)) (\<lambda>md. Inr (t1\<lparr>modl := md\<rparr>))))"

definition x_SetNewModuleVar :: "bool \<Rightarrow> instruction" where
  "x_SetNewModuleVar dbl t = seq_then (readString dbl t) (\<lambda>(name, t1). seq_then (peek 0 t1) (\<lambda>v.
     in_module (op_SetNewModuleVar name v (modl t1)) (\<lambda>md. Inr (t1\<lparr>modl := md\<rparr>))))"

section \<open>Operators\<close>

definition checked_out :: "scalar outcome \<Rightarrow> (operand \<Rightarrow> stop + thread) \<Rightarrow> stop + thread" where
  "checked_out r k =
     (case r of Done s \<Rightarrow> k (Sc s) | Throws e \<Rightarrow> Inl (Runtime_Failure e) | Undef \<Rightarrow> Inl Undefined)"

text \<open>
  Operators on objects other than strings are outside the model; a string is rejected where a number
  is needed.
\<close>

definition is_ref :: "operand \<Rightarrow> bool" where "is_ref v \<longleftrightarrow> (case v of Ref a \<Rightarrow> True | _ \<Rightarrow> False)"

definition on_scalars :: "(scalar \<Rightarrow> scalar \<Rightarrow> scalar outcome) \<Rightarrow> operand \<Rightarrow> operand \<Rightarrow> scalar outcome" where
  "on_scalars f l r = (case (l, r) of (Sc a, Sc b) \<Rightarrow> f a b | _ \<Rightarrow> Throws Invalid_Argument)"

definition binaryOp :: "(operand \<Rightarrow> operand \<Rightarrow> scalar outcome) \<Rightarrow> instruction" where
  "binaryOp op t = seq_then (pop t) (\<lambda>(rhs, t1). seq_then (pop t1) (\<lambda>(lhs, t2).
     if is_ref lhs \<or> is_ref rhs then Inl stop.Outside_Model
     else checked_out (op lhs rhs) (\<lambda>v. push v t2)))"

text \<open>\<open>handleZeroDivision\<close>: the operands are popped, and an exception is raised instead of an error.\<close>

definition zero_division_message :: operand where
  "zero_division_message = operand.Str (ustring_of ''Divide by 0'')"

definition binaryOp_div :: "(operand \<Rightarrow> operand \<Rightarrow> scalar outcome) \<Rightarrow> instruction" where
  "binaryOp_div op t = seq_then (pop t) (\<lambda>(rhs, t1). seq_then (pop t1) (\<lambda>(lhs, t2).
     if is_ref lhs \<or> is_ref rhs then Inl stop.Outside_Model
     else if op lhs rhs = Throws Zero_Division
     then (case alloc (O_Exception zero_division_message) t2 of (a, t3) \<Rightarrow> unwindToExceptionHandler (Ref a) t3)
     else checked_out (op lhs rhs) (\<lambda>v. push v t2)))"

definition is_real :: "scalar \<Rightarrow> bool" where "is_real v \<longleftrightarrow> scalar_type v = VReal"

definition unchecked_int :: "scalar \<Rightarrow> int" where
  "unchecked_int v = (case v of SInt i \<Rightarrow> sint i | _ \<Rightarrow> 0)"

definition fast_real :: "scalar \<Rightarrow> double" where
  "fast_real v = (case v of SReal d \<Rightarrow> d | _ \<Rightarrow> double_of_int (unchecked_int v))"

text \<open>
  The fast path ahead of an operator: two inline ints, or an inline int or real with another.  The
  result overwrites the left operand and the right one is popped.
\<close>

definition fast_path :: "(int \<Rightarrow> int \<Rightarrow> scalar) \<Rightarrow> (double \<Rightarrow> double \<Rightarrow> scalar) \<Rightarrow> scalar \<Rightarrow> scalar \<Rightarrow> scalar option" where
  "fast_path fi fr l r =
     (if isInlineInt l \<and> isInlineInt r then Some (fi (unchecked_int l) (unchecked_int r))
      else if (isInlineInt l \<or> is_real l) \<and> (isInlineInt r \<or> is_real r) then Some (fr (fast_real l) (fast_real r))
      else None)"

definition with_fast ::
  "(int \<Rightarrow> int \<Rightarrow> scalar) \<Rightarrow> (double \<Rightarrow> double \<Rightarrow> scalar) \<Rightarrow> instruction \<Rightarrow> instruction" where
  "with_fast fi fr general t = seq_then (peek 1 t) (\<lambda>l. seq_then (peek 0 t) (\<lambda>r.
     case (l, r) of
       (Sc a, Sc b) \<Rightarrow> (case fast_path fi fr a b of
            Some v \<Rightarrow> seq_then (poke 1 (Sc v) t) op_Pop
          | None \<Rightarrow> general t)
     | _ \<Rightarrow> general t))"

definition fast_arith :: "(int \<Rightarrow> int \<Rightarrow> int) \<Rightarrow> (double \<Rightarrow> double \<Rightarrow> double) \<Rightarrow> instruction \<Rightarrow> instruction" where
  "fast_arith fi fr = with_fast (\<lambda>x y. SInt (word_of_int (fi x y))) (\<lambda>x y. SReal (fr x y))"

definition fast_compare :: "(int \<Rightarrow> int \<Rightarrow> bool) \<Rightarrow> (double \<Rightarrow> double \<Rightarrow> bool) \<Rightarrow> instruction \<Rightarrow> instruction" where
  "fast_compare fi fr = with_fast (\<lambda>x y. SBool (fi x y)) (\<lambda>x y. SBool (fr x y))"

text \<open>With a string on the left, \<open>Add\<close> concatenates; other right operands than strings are outside.\<close>

definition add_general :: instruction where
  "add_general t = seq_then (peek 1 t) (\<lambda>l. case l of
       operand.Str s \<Rightarrow> seq_then (peek 0 t) (\<lambda>r. case r of
           operand.Str u \<Rightarrow> seq_then (popN 2 t) (push (operand.Str (s @ u)))
         | _ \<Rightarrow> Inl stop.Outside_Model)
     | _ \<Rightarrow> binaryOp (on_scalars add) t)"

definition op_Add :: instruction where "op_Add = fast_arith (+) dadd add_general"
definition op_Subtract :: instruction where "op_Subtract = fast_arith (-) dsub (binaryOp (on_scalars subtract))"
definition op_Multiply :: instruction where "op_Multiply = fast_arith (*) dmul (binaryOp (on_scalars multiply))"
definition op_Divide :: instruction where "op_Divide = binaryOp_div (on_scalars divide)"
definition op_Modulo :: instruction where "op_Modulo = binaryOp_div (on_scalars modulo_op)"

definition compare_out :: "bool outcome \<Rightarrow> scalar outcome" where "compare_out r = map_out SBool r"

definition op_Equal :: instruction where
  "op_Equal = fast_compare (=) deq (binaryOp (\<lambda>l r. Done (SBool (equals l r))))"
definition op_NotEqual :: instruction where
  "op_NotEqual = fast_compare (\<noteq>) (\<lambda>x y. \<not> deq x y) (binaryOp (\<lambda>l r. Done (SBool (\<not> equals l r))))"
definition op_Greater :: instruction where
  "op_Greater = fast_compare (>) (\<lambda>x y. dlt y x) (binaryOp (\<lambda>l r. compare_out (greater l r)))"
definition op_Less :: instruction where
  "op_Less = fast_compare (<) dlt (binaryOp (\<lambda>l r. compare_out (less l r)))"
definition op_GreaterEqual :: instruction where
  "op_GreaterEqual = fast_compare (\<ge>) (\<lambda>x y. dle y x) (binaryOp (\<lambda>l r. compare_out (greaterEqual l r)))"
definition op_LessEqual :: instruction where
  "op_LessEqual = fast_compare (\<le>) dle (binaryOp (\<lambda>l r. compare_out (lessEqual l r)))"

definition op_unary :: "(scalar \<Rightarrow> scalar outcome) \<Rightarrow> instruction" where
  "op_unary f t = seq_then (pop t) (\<lambda>(v, t1).
     if is_ref v then Inl stop.Outside_Model
     else checked_out (case v of Sc s \<Rightarrow> f s | _ \<Rightarrow> Throws Invalid_Argument) (\<lambda>w. push w t1))"

section \<open>Closures and calls\<close>

fun capture_list :: "nat \<Rightarrow> thread \<Rightarrow> stop + (addr list \<times> thread)" where
  "capture_list 0 t = Inr ([], t)"
| "capture_list (Suc n) t =
     seq_then (readByte t) (\<lambda>(isLocal, t1). seq_then (readByte t1) (\<lambda>(index, t2).
     seq_then (frame_of t2) (\<lambda>f.
     seq_then (if isLocal \<noteq> 0 then captureUpvalue (slots f + unat index) t2
        else seq_then (frame_upvalue (unat index) t2) (\<lambda>a. Inr (a, t2))) (\<lambda>(a, t3).
     seq_then (capture_list n t3) (\<lambda>(as, t4). Inr (a # as, t4))))))"

definition function_at :: "operand \<Rightarrow> thread \<Rightarrow> stop + (addr \<times> fn)" where
  "function_at v t =
     (case v of Ref a \<Rightarrow> (case obj_at (heap t) a of Some (O_Function fn) \<Rightarrow> Inr (a, fn) | _ \<Rightarrow> Inl Undefined)
      | _ \<Rightarrow> Inl Undefined)"

definition op_Closure :: "bool \<Rightarrow> instruction" where
  "op_Closure dbl t = seq_then (readConstant dbl t) (\<lambda>(v, t1).
     seq_then (function_at v t1) (\<lambda>(fa, fn).
     case alloc (O_Closure fa []) t1 of (c, t2) \<Rightarrow>
     seq_then (push (Ref c) t2) (\<lambda>t3.
     seq_then (capture_list (fn_upvalueCount fn) t3) (\<lambda>(us, t4).
       Inr (t4\<lparr>heap := (heap t4)[c := O_Closure fa us]\<rparr>)))))"

definition op_CloseUpvalue :: instruction where
  "op_CloseUpvalue t =
     (if stackTop t = 0 then Inl Undefined else op_Pop (closeUpvalues (stackTop t - 1) t))"

text \<open>\<open>VM::call\<close>: lists made for a variadic parameter are allocated when the arguments are placed.\<close>

fun push_args :: "(operand + operand list) list \<Rightarrow> thread \<Rightarrow> stop + thread" where
  "push_args [] t = Inr t"
| "push_args (Inl v # as) t = seq_then (push v t) (push_args as)"
| "push_args (Inr vs # as) t =
     (case alloc (O_List vs) t of (a, t1) \<Rightarrow> seq_then (push (Ref a) t1) (push_args as))"

definition given :: "operand + operand list \<Rightarrow> operand" where
  "given v = (case v of Inl w \<Rightarrow> w | Inr ws \<Rightarrow> Sc SNil)"

definition new_frame :: "addr \<Rightarrow> fn \<Rightarrow> nat \<Rightarrow> int list \<Rightarrow> thread \<Rightarrow> frame" where
  "new_frame c fn sl reorder t =
     \<lparr>fr_closure = c, ip = 0, slots = sl, parent = None, fr_strict = fn_strict fn,
      callerStrict = (case frames t of [] \<Rightarrow> False | f # fs \<Rightarrow> fr_strict f),
      tailArgValues = [], reorderArgs = reorder, exceptionHandlers = [], unwindOnReturn = False\<rparr>"

text \<open>The closure of a default function, and the frame the nested call makes for it.\<close>

definition default_closure :: "fn \<Rightarrow> nat \<Rightarrow> thread \<Rightarrow> stop + (addr \<times> fn \<times> thread)" where
  "default_closure fn i t =
     (case fn_type fn of None \<Rightarrow> Inl Undefined | Some ty \<Rightarrow>
       (case rt_func ty of None \<Rightarrow> Inl Undefined | Some g \<Rightarrow>
         (case ft_params g ! i of None \<Rightarrow> Inl Undefined | Some p \<Rightarrow>
           (case map_of (fn_paramDefaultFunc fn) (pt_hash p) of None \<Rightarrow> Inl Undefined | Some fa \<Rightarrow>
             (case obj_at (heap t) fa of
                Some (O_Function d) \<Rightarrow>
                  if fn_upvalueCount d > 0 then Inl Captured_In_Default
                  else (case alloc (O_Closure fa []) t of (c, t1) \<Rightarrow> Inr (c, d, t1))
              | _ \<Rightarrow> Inl Undefined)))))"

fun default_closures :: "fn \<Rightarrow> nat list \<Rightarrow> thread \<Rightarrow> stop + ((addr \<times> fn) list \<times> thread)" where
  "default_closures fn [] t = Inr ([], t)"
| "default_closures fn (i # is) t =
     seq_then (default_closure fn i t) (\<lambda>(c, d, t1).
     seq_then (default_closures fn is t1) (\<lambda>(cs, t2). Inr ((c, d) # cs, t2)))"

text \<open>The default frames are pushed in reverse, so that the first parameter's runs first.\<close>

fun push_defaults :: "bool \<Rightarrow> nat \<Rightarrow> (addr \<times> fn) list \<Rightarrow> thread \<Rightarrow> stop + thread" where
  "push_defaults cstrict p [] t = Inr t"
| "push_defaults cstrict p ((c, d) # cs) t =
     seq_then (push_defaults cstrict p cs t) (\<lambda>t1.
     seq_then (push (Ref c) t1) (\<lambda>t2.
       (case pushFrame ((new_frame c d (stackTop t2 - 1) [] t2)\<lparr>callerStrict := cstrict\<rparr>) t2 of t3 \<Rightarrow>
         seq_then (with_frame (\<lambda>f. f\<lparr>parent := Some p\<rparr>) t3) (\<lambda>t4. Inr (t4\<lparr>frameStart := True\<rparr>)))))"

definition call_closure :: "nat \<Rightarrow> addr \<Rightarrow> fn \<Rightarrow> call_spec \<Rightarrow> instruction" where
  "call_closure callFrameLimit c fn cs t =
     (case fn_type fn of
        None \<Rightarrow> Inl Undefined
      | Some calleeType \<Rightarrow>
          (let argc = unat (argCount cs); given_args = take argc (drop (stackTop t - argc) (stack t)) in
           case call_setup (Inl (Sc SNil)) (\<lambda>vs. Inr (map given vs)) cs calleeType (fn_arity fn) (map Inl given_args) of
             Inl e \<Rightarrow> Inl (Call_Failure e)
           | Inr fa \<Rightarrow>
               seq_then (popN argc t) (\<lambda>t1.
               seq_then (push_args (fa_args fa) t1) (\<lambda>t2.
               seq_then (default_closures fn (fa_defaults fa) t2) (\<lambda>(ds, t3).
                 if length (frames t3) > callFrameLimit then Inl Call_Stack_Overflow
                 else (let f = new_frame c fn (stackTop t3 - length (fa_args fa) - 1) (fa_reorder fa) t3;
                           t4 = (pushFrame f t3)\<lparr>frameStart := True\<rparr> in
                   seq_then (push_defaults (callerStrict f) (length (frames t4) - 1) ds t4) (\<lambda>t5.
                     if ds \<noteq> [] \<and> length (frames t5) > callFrameLimit then Inl Call_Stack_Overflow
                     else Inr t5)))))))"

definition op_Call :: "nat \<Rightarrow> instruction" where
  "op_Call callFrameLimit t = seq_then (frame_of t) (\<lambda>f. seq_then (current_fn t) (\<lambda>fn.
     case callspec_decode (drop (ip f) (fn_code fn)) of
       Inl e \<Rightarrow> Inl Undefined
     | Inr (cs, rest) \<Rightarrow>
         seq_then (set_ip (length (fn_code fn) - length rest) t) (\<lambda>t1.
         seq_then (peek (unat (argCount cs)) t1) (\<lambda>callee.
           case callee of
             Ref c \<Rightarrow> (case obj_at (heap t1) c of
                 Some (O_Closure fa us) \<Rightarrow> (case obj_at (heap t1) fa of
                     Some (O_Function g) \<Rightarrow> call_closure callFrameLimit c g cs t1
                   | _ \<Rightarrow> Inl Undefined)
               | _ \<Rightarrow> Inl stop.Outside_Model)
           | _ \<Rightarrow> Inl stop.Outside_Model))))"

section \<open>Returning\<close>

definition resume_frame :: instruction where
  "resume_frame t =
     (case frames t of
        [] \<Rightarrow> Inl Undefined
      | f # fs \<Rightarrow> Inr (if ip f = 0 then t\<lparr>frameStart := True\<rparr> else t))"

definition op_Return :: instruction where
  "op_Return t = seq_then (opReturn t) (\<lambda>(result, t1). seq_then (push result t1) (\<lambda>t2.
     if frames t2 = [] then seq_then (pop t2) (\<lambda>(returnVal, t3). Inl (Finished returnVal))
     else resume_frame t2))"

text \<open>The frame with index \<open>p\<close> from the outermost one gets one more result.\<close>

definition push_tail :: "nat \<Rightarrow> operand \<Rightarrow> instruction" where
  "push_tail p v t =
     (if p < length (frames t) then
        (let i = length (frames t) - 1 - p; g = frames t ! i in
         Inr (t\<lparr>frames := (frames t)[i := g\<lparr>tailArgValues := tailArgValues g @ [v]\<rparr>]\<rparr>))
      else Inl Undefined)"

definition op_ReturnStore :: instruction where
  "op_ReturnStore t = seq_then (frame_of t) (\<lambda>f. seq_then (opReturn t) (\<lambda>(result, t1).
     if frames t1 = [] then Inl (Finished result)
     else (case parent f of
         None \<Rightarrow> Inl Undefined
       | Some p \<Rightarrow> seq_then (push_tail p result t1) resume_frame)))"

section \<open>Starting a frame\<close>

fun write_tail :: "nat \<Rightarrow> operand list \<Rightarrow> instruction" where
  "write_tail i [] t = Inr t"
| "write_tail i (v # vs) t = seq_then (slot_write i v t) (write_tail (i + 1) vs)"

text \<open>The popped values, bottom first.\<close>

fun pop_list :: "nat \<Rightarrow> thread \<Rightarrow> stop + (operand list \<times> thread)" where
  "pop_list 0 t = Inr ([], t)"
| "pop_list (Suc n) t = seq_then (pop t) (\<lambda>(v, t1). seq_then (pop_list n t1) (\<lambda>(vs, t2). Inr (vs @ [v], t2)))"

fun push_list :: "operand list \<Rightarrow> instruction" where
  "push_list [] t = Inr t"
| "push_list (v # vs) t = seq_then (push v t) (push_list vs)"

definition x_reorder :: "int list \<Rightarrow> instruction" where
  "x_reorder reorder t =
     (if reorder = [] then Inr t
      else seq_then (pop_list (length reorder) t) (\<lambda>(args, t1).
        if \<exists>p \<in> set reorder. p < 0 \<or> p \<ge> int (length reorder) then Inl Undefined
        else push_list (map (\<lambda>p. args ! nat p) reorder) t1))"

text \<open>The conversion of an argument to a scalar parameter type; other declared types are outside.\<close>

definition param_target :: "param_type option \<Rightarrow> target option option" where
  "param_target p =
     (case p of
        None \<Rightarrow> None
      | Some q \<Rightarrow> (case pt_type q of
          None \<Rightarrow> None
        | Some ty \<Rightarrow>
            if pt_variadic q then None
            else Some (case ty of
                None \<Rightarrow> None
              | Some u \<Rightarrow> (case rt_builtin u of
                  BBool \<Rightarrow> Some To_Bool | BByte \<Rightarrow> Some To_Byte | BInt \<Rightarrow> Some To_Int | BReal \<Rightarrow> Some To_Real | _ \<Rightarrow> None))))"

definition convert_slot :: "nat \<Rightarrow> target \<Rightarrow> bool \<Rightarrow> instruction" where
  "convert_slot i tgt strictCtx t = seq_then (slot_read i t) (\<lambda>v.
     case v of
       Sc s \<Rightarrow>
         if scalar_type s = target_type tgt then Inr t
         else (case toType tgt s strictCtx of
             Done w \<Rightarrow> slot_write i (Sc w) t
           | Throws e \<Rightarrow> Inl (Runtime_Failure e)
           | Undef \<Rightarrow> Inl Undefined)
     | _ \<Rightarrow> Inl stop.Outside_Model)"

fun convert_params :: "nat \<Rightarrow> param_type option list \<Rightarrow> bool \<Rightarrow> instruction" where
  "convert_params i [] strictCtx t = Inr t"
| "convert_params i (p # ps) strictCtx t =
     (case param_target p of
        None \<Rightarrow> convert_params (i + 1) ps strictCtx t
      | Some None \<Rightarrow> Inl stop.Outside_Model
      | Some (Some tgt) \<Rightarrow> seq_then (convert_slot i tgt strictCtx t) (convert_params (i + 1) ps strictCtx))"

definition start_frame :: instruction where
  "start_frame t = seq_then (frame_of t) (\<lambda>f. seq_then (current_fn t) (\<lambda>fn.
     let n = length (tailArgValues f) in
     if n > fn_arity fn then Inl Undefined
     else seq_then (write_tail (slots f + 1 + (fn_arity fn - n)) (tailArgValues f) t) (\<lambda>t1.
       seq_then (x_reorder (reorderArgs f) t1) (\<lambda>t2.
       seq_then (with_frame (\<lambda>g. g\<lparr>tailArgValues := [], reorderArgs := []\<rparr>) t2) (\<lambda>t3.
       (case fn_type fn of
          None \<Rightarrow> Inr t3
        | Some ty \<Rightarrow> (case rt_func ty of
            None \<Rightarrow> Inr t3
          | Some g \<Rightarrow> convert_params (slots f + 1) (ft_params g) (callerStrict f) t3)))))))"

section \<open>Exceptions, lists and the switch\<close>

definition op_SetupExcept :: instruction where
  "op_SetupExcept t = seq_then (readShort t) (\<lambda>(off, t1).
     with_frame (\<lambda>f. f\<lparr>exceptionHandlers :=
       \<lparr>h_ip = ip f + off, h_stackDepth = stackTop t1, h_frameDepth = length (frames t1)\<rparr> # exceptionHandlers f\<rparr>) t1)"

definition op_EndExcept :: instruction where
  "op_EndExcept = with_frame (\<lambda>f. f\<lparr>exceptionHandlers := tl (exceptionHandlers f)\<rparr>)"

definition op_Throw :: instruction where
  "op_Throw t = seq_then (pop t) (\<lambda>(exc, t1). unwindToExceptionHandler exc t1)"

text \<open>
  A value that is no object or actor instance has no statement action and is discarded.  The heap of the
  model has no instance, so the session that the code opens at this instruction ends within it, and the
  stack of sessions is left out.
\<close>

definition op_StmtAction :: instruction where "op_StmtAction = op_Pop"

definition op_NewList :: instruction where
  "op_NewList t = seq_then (readByte t) (\<lambda>(n, t1). seq_then (pop_list (unat n) t1) (\<lambda>(vs, t2).
     case alloc (O_List vs) t2 of (a, t3) \<Rightarrow> push (Ref a) t3))"

definition string_of :: "operand \<Rightarrow> ustring option" where
  "string_of v = (case v of operand.Str s \<Rightarrow> Some s | _ \<Rightarrow> None)"

definition op_ToStringPart :: instruction where
  "op_ToStringPart t = seq_then (peek 0 t) (\<lambda>v. if string_of v = None then Inl stop.Outside_Model else Inr t)"

definition op_Concat :: instruction where
  "op_Concat t = seq_then (readByte t) (\<lambda>(n, t1). seq_then (pop_list (unat n) t1) (\<lambda>(vs, t2).
     if \<exists>v \<in> set vs. string_of v = None then Inl Undefined
     else push (operand.Str (concat (map (\<lambda>v. the (string_of v)) vs))) t2))"

definition op_CheckList :: instruction where
  "op_CheckList t = seq_then (readByte t) (\<lambda>(expected, t1). seq_then (peek 0 t1) (\<lambda>v.
     case v of
       Ref a \<Rightarrow> (case obj_at (heap t1) a of
           Some (O_List vs) \<Rightarrow> if length vs = unat expected then Inr t1 else Inl (Runtime_Failure Runtime_Error)
         | _ \<Rightarrow> Inl (Runtime_Failure Runtime_Error))
     | _ \<Rightarrow> Inl (Runtime_Failure Runtime_Error)))"

text \<open>The instructions by opcode number; \<open>dbl\<close> is the \<open>DoubleByteArg\<close> flag.\<close>

definition instructions :: "nat \<Rightarrow> bool \<Rightarrow> (nat \<times> instruction) list" where
  "instructions callFrameLimit dbl =
     [(0, Inr), (1, op_Constant dbl), (2, op_push (Sc SNil)), (3, op_push (Sc (SBool True))),
      (4, op_push (Sc (SBool False))), (5, op_push (Sc (SInt 0))), (6, op_push (Sc (SInt 1))),
      (7, op_Equal), (8, op_NotEqual), (11, op_Greater), (12, op_Less), (13, op_GreaterEqual), (14, op_LessEqual),
      (15, op_Add), (16, op_Subtract), (17, op_Multiply), (18, op_Divide), (19, op_Modulo),
      (20, op_unary negate), (21, op_combine), (22, op_combine),
      (23, binaryOp (on_scalars band)), (24, binaryOp (on_scalars bor)), (25, binaryOp (on_scalars bxor)),
      (26, op_unary bnot), (27, op_Pop), (28, op_PopN), (29, op_StmtAction),
      (30, op_Dup), (31, op_DupBelow), (32, op_Swap),
      (33, op_JumpIfFalse), (34, op_JumpIfTrue), (35, op_Jump), (36, op_Loop), (37, op_Call callFrameLimit),
      (42, op_Closure dbl), (43, op_CloseUpvalue), (44, op_Return), (45, op_ReturnStore),
      (58, x_DefineModuleVar dbl), (59, x_DefineModuleConst dbl), (60, x_GetModuleVar dbl),
      (62, x_SetModuleVar dbl), (63, x_SetNewModuleVar dbl),
      (65, op_GetUpvalue dbl), (66, op_SetUpvalue dbl), (67, op_GetLocal dbl), (68, op_SetLocal dbl),
      (76, op_NewList), (88, op_SetupExcept), (89, op_EndExcept), (90, op_Throw),
      (94, op_MoveLocal dbl), (95, x_MoveModuleVar dbl), (103, op_PopToCount),
      (104, op_ToStringPart), (105, op_Concat), (106, op_CheckList), (107, op_CheckList),
      (108, op_AndShortCircuit), (109, op_OrShortCircuit)]"

definition execute_instruction :: "nat \<Rightarrow> instruction" where
  "execute_instruction callFrameLimit t = seq_then (readByte t) (\<lambda>(instructionByte, t1).
     let dbl = instructionByte AND DoubleByteArg \<noteq> 0; op = unat (instructionByte AND NOT DoubleByteArg) in
     case map_of (instructions callFrameLimit dbl) op of
       None \<Rightarrow> Inl stop.Outside_Model
     | Some h \<Rightarrow> h (t1\<lparr>frameStart := False\<rparr>))"

definition turn :: "nat \<Rightarrow> instruction" where
  "turn callFrameLimit t =
     seq_then (if frameStart t then start_frame t else Inr t) (execute_instruction callFrameLimit)"

inductive step :: "nat \<Rightarrow> thread \<Rightarrow> thread \<Rightarrow> bool" for callFrameLimit where
  turn: "turn callFrameLimit t = Inr t' \<Longrightarrow> step callFrameLimit t t'"

inductive_simps step_iff: "step callFrameLimit t t'"

section \<open>Every instruction keeps the thread well-formed\<close>

lemma with_frame_wf [inv_intros]:
  "with_frame g t = Inr t' \<Longrightarrow> (\<And>f. slots (g f) = slots f) \<Longrightarrow> wf_thread t \<Longrightarrow> wf_thread t'"
  by (auto simp: with_frame_def split: list.splits intro: update_frame_wf)

lemma set_ip_wf [inv_intros]: "set_ip i t = Inr t' \<Longrightarrow> wf_thread t \<Longrightarrow> wf_thread t'"
  by (auto simp: set_ip_def dest: with_frame_wf)

lemma readByte_wf [inv_intros]: "readByte t = Inr (b, t') \<Longrightarrow> wf_thread t \<Longrightarrow> wf_thread t'"
  by (auto simp: readByte_def seq_then_eq_Inr split: if_splits dest: set_ip_wf)

lemma readShort_wf [inv_intros]: "readShort t = Inr (n, t') \<Longrightarrow> wf_thread t \<Longrightarrow> wf_thread t'"
  by (auto simp: readShort_def seq_then_eq_Inr dest!: readByte_wf)

lemma readArg_wf [inv_intros]: "readArg dbl t = Inr (n, t') \<Longrightarrow> wf_thread t \<Longrightarrow> wf_thread t'"
  by (auto simp: readArg_def seq_then_eq_Inr split: if_splits dest: readByte_wf readShort_wf)

lemma readConstant_wf [inv_intros]: "readConstant dbl t = Inr (v, t') \<Longrightarrow> wf_thread t \<Longrightarrow> wf_thread t'"
  by (auto simp: readConstant_def seq_then_eq_Inr split: if_splits dest: readArg_wf)

lemma readString_Inr: "readString dbl t = Inr (s, t') \<longleftrightarrow> readConstant dbl t = Inr (operand.Str s, t')"
  by (auto simp: readString_def seq_then_def split: sum.splits operand.splits)

lemma readString_wf [inv_intros]: "readString dbl t = Inr (s, t') \<Longrightarrow> wf_thread t \<Longrightarrow> wf_thread t'"
  by (auto simp: readString_Inr dest: readConstant_wf)

lemma modl_wf [simp]: "wf_thread (t\<lparr>modl := md\<rparr>) = wf_thread t"
  by (simp add: wf_thread_def)

lemma frameStart_wf [simp]: "wf_thread (t\<lparr>frameStart := b\<rparr>) = wf_thread t"
  by (simp add: wf_thread_def)

definition keeps :: "instruction \<Rightarrow> bool" where
  "keeps h \<longleftrightarrow> (\<forall>t t'. h t = Inr t' \<longrightarrow> wf_thread t \<longrightarrow> wf_thread t')"

lemma keepsI: "(\<And>t t'. h t = Inr t' \<Longrightarrow> wf_thread t \<Longrightarrow> wf_thread t') \<Longrightarrow> keeps h"
  by (simp add: keeps_def)

lemma keepsD: "keeps h \<Longrightarrow> h t = Inr t' \<Longrightarrow> wf_thread t \<Longrightarrow> wf_thread t'"
  by (simp add: keeps_def)

lemma keeps_Inr: "keeps Inr" by (rule keepsI) simp

lemma keeps_push: "keeps (op_push v)" by (rule keepsI) (simp add: op_push_def push_wf)

lemma keeps_Constant: "keeps (op_Constant dbl)"
  by (rule keepsI) (auto simp: op_Constant_def seq_then_eq_Inr dest: inv_intros)

lemma keeps_Pop: "keeps op_Pop"
  by (rule keepsI) (auto simp: op_Pop_def seq_then_eq_Inr dest: inv_intros)

lemma keeps_PopN: "keeps op_PopN"
  by (rule keepsI) (auto simp: op_PopN_def seq_then_eq_Inr dest: inv_intros)

lemma keeps_PopToCount: "keeps op_PopToCount"
proof (rule keepsI)
  fix t t' assume a: "op_PopToCount t = Inr t'" "wf_thread t"
  then obtain keep t1 f where r: "readShort t = Inr (keep, t1)" "frame_of t1 = Inr f"
    "popN (stackTop (closeUpvalues (slots f + keep) t1) - (slots f + keep)) (closeUpvalues (slots f + keep) t1) = Inr t'"
    by (auto simp: op_PopToCount_def seq_then_eq_Inr Let_def)
  then show "wf_thread t'" using a(2) closeUpvalues_spec(1) readShort_wf popN_wf by blast
qed

lemma keeps_Dup: "keeps op_Dup" by (rule keepsI) (auto simp: op_Dup_def seq_then_eq_Inr dest: inv_intros)
lemma keeps_DupBelow: "keeps op_DupBelow" by (rule keepsI) (auto simp: op_DupBelow_def seq_then_eq_Inr dest: inv_intros)
lemma keeps_Swap: "keeps op_Swap" by (rule keepsI) (auto simp: op_Swap_def seq_then_eq_Inr dest: inv_intros)

lemma jump_by_wf [inv_intros]: "jump_by d t = Inr t' \<Longrightarrow> wf_thread t \<Longrightarrow> wf_thread t'"
  by (auto simp: jump_by_def seq_then_eq_Inr dest: inv_intros)

lemma keeps_jump_when: "keeps (op_jump_when c)"
  by (rule keepsI) (auto simp: op_jump_when_def seq_then_eq_Inr split: if_splits operand.splits dest: inv_intros)

lemma keeps_combine: "keeps op_combine"
  by (rule keepsI) (auto simp: op_combine_def seq_then_eq_Inr dest!: pop_wf dest: push_wf)

lemma keeps_Jump: "keeps op_Jump" by (rule keepsI) (auto simp: op_Jump_def seq_then_eq_Inr dest: inv_intros)
lemma keeps_Loop: "keeps op_Loop"
  by (rule keepsI) (auto simp: op_Loop_def seq_then_eq_Inr split: if_splits dest: inv_intros)

lemma keeps_GetLocal: "keeps (op_GetLocal dbl)"
  by (rule keepsI) (auto simp: op_GetLocal_def seq_then_eq_Inr dest: inv_intros)
lemma keeps_MoveLocal: "keeps (op_MoveLocal dbl)"
  by (rule keepsI) (auto simp: op_MoveLocal_def seq_then_eq_Inr dest!: readArg_wf dest: push_wf slot_write_wf)
lemma keeps_SetLocal: "keeps (op_SetLocal dbl)"
  by (rule keepsI) (auto simp: op_SetLocal_def seq_then_eq_Inr dest: inv_intros)
lemma keeps_GetUpvalue: "keeps (op_GetUpvalue dbl)"
  by (rule keepsI) (auto simp: op_GetUpvalue_def seq_then_eq_Inr dest: inv_intros)
lemma keeps_SetUpvalue: "keeps (op_SetUpvalue dbl)"
  by (rule keepsI) (auto simp: op_SetUpvalue_def seq_then_eq_Inr dest: inv_intros)

lemma in_module_Inr: "in_module r k = Inr t' \<longleftrightarrow> (\<exists>x. r = Inr x \<and> k x = Inr t')"
  by (auto simp: in_module_def split: sum.splits)

lemma keeps_DefineModuleConst: "keeps (x_DefineModuleConst dbl)"
  by (rule keepsI) (auto simp: x_DefineModuleConst_def seq_then_eq_Inr dest!: readString_wf dest: pop_wf)
lemma keeps_DefineModuleVar: "keeps (x_DefineModuleVar dbl)"
  by (rule keepsI) (auto simp: x_DefineModuleVar_def seq_then_eq_Inr dest!: readString_wf dest: pop_wf)
lemma keeps_GetModuleVar: "keeps (x_GetModuleVar dbl)"
  by (rule keepsI) (auto simp: x_GetModuleVar_def seq_then_eq_Inr in_module_Inr split: if_splits dest: inv_intros)
lemma keeps_MoveModuleVar: "keeps (x_MoveModuleVar dbl)"
  by (rule keepsI) (auto simp: x_MoveModuleVar_def seq_then_eq_Inr in_module_Inr dest!: readString_wf dest: push_wf)
lemma keeps_SetModuleVar: "keeps (x_SetModuleVar dbl)"
  by (rule keepsI) (auto simp: x_SetModuleVar_def seq_then_eq_Inr in_module_Inr dest: inv_intros)
lemma keeps_SetNewModuleVar: "keeps (x_SetNewModuleVar dbl)"
  by (rule keepsI) (auto simp: x_SetNewModuleVar_def seq_then_eq_Inr in_module_Inr dest: inv_intros)

lemma checked_out_Inr: "checked_out r k = Inr t' \<longleftrightarrow> (\<exists>s. r = Done s \<and> k (Sc s) = Inr t')"
  by (auto simp: checked_out_def split: outcome.splits)

lemma keeps_binaryOp: "keeps (binaryOp op)"
  by (rule keepsI) (auto simp: binaryOp_def seq_then_eq_Inr checked_out_Inr split: if_splits dest!: pop_wf dest: push_wf)

lemma keeps_binaryOp_div: "keeps (binaryOp_div op)"
proof (rule keepsI)
  fix t t' assume a: "binaryOp_div op t = Inr t'" "wf_thread t"
  then obtain rhs t1 lhs t2 where p: "pop t = Inr (rhs, t1)" "pop t1 = Inr (lhs, t2)"
    and r: "(if is_ref lhs \<or> is_ref rhs then Inl stop.Outside_Model
      else if op lhs rhs = Throws Zero_Division
      then (case alloc (O_Exception zero_division_message) t2 of (a, t3) \<Rightarrow> unwindToExceptionHandler (Ref a) t3)
      else checked_out (op lhs rhs) (\<lambda>v. push v t2)) = Inr t'"
    by (auto simp: binaryOp_div_def seq_then_eq_Inr)
  have w: "wf_thread t2" using p a(2) pop_wf by blast
  show "wf_thread t'"
  proof (cases "op lhs rhs = Throws Zero_Division")
    case True
    obtain x t3 where "alloc (O_Exception zero_division_message) t2 = (x, t3)" by (cases "alloc (O_Exception zero_division_message) t2")
    then show ?thesis using r True w alloc_wf [of _ t2 x t3] unwindToExceptionHandler_wf by (auto split: if_splits)
  next
    case False
    then show ?thesis using r w push_wf by (auto simp: checked_out_Inr split: if_splits)
  qed
qed

lemma keeps_with_fast:
  assumes "keeps general"
  shows "keeps (with_fast fi fr general)"
proof (rule keepsI)
  fix t t' assume a: "with_fast fi fr general t = Inr t'" "wf_thread t"
  then obtain l r where "(case (l, r) of
       (Sc a, Sc b) \<Rightarrow> (case fast_path fi fr a b of
            Some v \<Rightarrow> seq_then (poke 1 (Sc v) t) op_Pop
          | None \<Rightarrow> general t)
     | _ \<Rightarrow> general t) = Inr t'" by (auto simp: with_fast_def seq_then_eq_Inr)
  then show "wf_thread t'"
    using keepsD [OF assms _ a(2)] a(2) poke_wf keepsD [OF keeps_Pop]
    by (fastforce simp: seq_then_eq_Inr split: operand.splits option.splits)
qed

lemma keeps_add_general: "keeps add_general"
proof (rule keepsI)
  fix t t' assume a: "add_general t = Inr t'" "wf_thread t"
  then obtain l where l: "(case l of
       operand.Str s \<Rightarrow> seq_then (peek 0 t) (\<lambda>r. case r of
           operand.Str u \<Rightarrow> seq_then (popN 2 t) (push (operand.Str (s @ u)))
         | _ \<Rightarrow> Inl stop.Outside_Model)
     | _ \<Rightarrow> binaryOp (on_scalars add) t) = Inr t'" by (auto simp: add_general_def seq_then_eq_Inr)
  show "wf_thread t'"
  proof (cases l)
    case (Str s)
    then obtain r where "(case r of operand.Str u \<Rightarrow> seq_then (popN 2 t) (push (operand.Str (s @ u))) | _ \<Rightarrow> Inl stop.Outside_Model) = Inr t'"
      using l by (auto simp: seq_then_eq_Inr)
    then show ?thesis using a(2) popN_wf push_wf by (cases r) (auto simp: seq_then_eq_Inr)
  qed (use l keepsD [OF keeps_binaryOp _ a(2)] in auto)
qed

lemma keeps_unary: "keeps (op_unary f)"
  by (rule keepsI) (auto simp: op_unary_def seq_then_eq_Inr checked_out_Inr split: if_splits dest!: pop_wf dest: push_wf)

lemma capture_list_wf [inv_intros]: "capture_list n t = Inr (us, t') \<Longrightarrow> wf_thread t \<Longrightarrow> wf_thread t'"
proof (induction n arbitrary: t us)
  case (Suc n)
  then obtain b1 t1 b2 t2 f a t3 as where c: "readByte t = Inr (b1, t1)" "readByte t1 = Inr (b2, t2)" "frame_of t2 = Inr f"
    "(if b1 \<noteq> 0 then captureUpvalue (slots f + unat b2) t2
      else seq_then (frame_upvalue (unat b2) t2) (\<lambda>a. Inr (a, t2))) = Inr (a, t3)" "capture_list n t3 = Inr (as, t')"
    by (auto simp: seq_then_eq_Inr)
  have "wf_thread t2" using c(1,2) Suc(3) readByte_wf by blast
  then have "wf_thread t3" using c(4) captureUpvalue_wf by (auto simp: seq_then_eq_Inr split: if_splits)
  then show ?case using Suc(1) c(5) by blast
qed simp

lemma upvalue_slot_overwrite:
  assumes "upvalue_slot h a = None" "upvalue_slot [x] 0 = None"
  shows "upvalue_slot (h[a := x]) b = upvalue_slot h b"
  using assms by (cases "a = b") (auto simp: upvalue_slot_def obj_at_def nth_list_update)

lemma overwrite_wf:
  assumes "wf_thread t" "upvalue_slot (heap t) a = None" "upvalue_slot [x] 0 = None"
  shows "wf_thread (t\<lparr>heap := (heap t)[a := x]\<rparr>)"
proof -
  note us = upvalue_slot_overwrite [OF assms(2,3)]
  have "wf_open ((heap t)[a := x]) n (openUpvalues t) = wf_open (heap t) n (openUpvalues t)" for n
    using wf_open_cong us by metis
  then show ?thesis using assms(1) us by (simp add: wf_thread_def)
qed

lemma readByte_fields:
  assumes "readByte t = Inr (b, t')"
  shows "stack t' = stack t" "stackTop t' = stackTop t" "heap t' = heap t" "openUpvalues t' = openUpvalues t"
    "modl t' = modl t" "frameStart t' = frameStart t" "length (frames t') = length (frames t)"
  using assms by (auto simp: readByte_def set_ip_def with_frame_def frame_of_def seq_then_eq_Inr split: if_splits list.splits)

lemma frame_upvalue_pure: "seq_then (frame_upvalue i t) (\<lambda>a. Inr (a, t)) = Inr (a, t') \<Longrightarrow> t' = t"
  by (auto simp: seq_then_eq_Inr)

lemma capture_list_heap:
  assumes "capture_list n t = Inr (us, t')" "wf_thread t" "c < length (heap t)"
  shows "c < length (heap t') \<and> obj_at (heap t') c = obj_at (heap t) c"
  using assms
proof (induction n arbitrary: t us)
  case (Suc n)
  then obtain b1 t1 b2 t2 f a t3 as where c: "readByte t = Inr (b1, t1)" "readByte t1 = Inr (b2, t2)" "frame_of t2 = Inr f"
    "(if b1 \<noteq> 0 then captureUpvalue (slots f + unat b2) t2
      else seq_then (frame_upvalue (unat b2) t2) (\<lambda>a. Inr (a, t2))) = Inr (a, t3)" "capture_list n t3 = Inr (as, t')"
    by (auto simp: seq_then_eq_Inr)
  have w: "wf_thread t2" using c(1,2) Suc(3) readByte_wf by blast
  have h: "heap t2 = heap t" using readByte_fields(3) c(1,2) by metis
  have "wf_thread t3 \<and> c < length (heap t3) \<and> obj_at (heap t3) c = obj_at (heap t2) c"
  proof (cases "b1 \<noteq> 0")
    case True
    note s = captureUpvalue_spec [OF w, of "slots f + unat b2" a t3]
    have e: "captureUpvalue (slots f + unat b2) t2 = Inr (a, t3)" using c(4) True by simp
    have "obj_at (heap t3) c = obj_at (heap t2) c" using s(6) [OF e] Suc(4) h by simp
    moreover have "c < length (heap t3)" using calculation Suc(4) h by (auto simp: obj_at_def split: if_splits)
    ultimately show ?thesis using s(1) [OF e] by simp
  next
    case False
    then have "t3 = t2" using c(4) frame_upvalue_pure by auto
    then show ?thesis using w Suc(4) h by simp
  qed
  then show ?case using Suc(1) [OF c(5)] h by simp
qed simp

lemma keeps_Closure: "keeps (op_Closure dbl)"
proof (rule keepsI)
  fix t t' assume a: "op_Closure dbl t = Inr t'" "wf_thread t"
  obtain v t1 fa fn where r: "readConstant dbl t = Inr (v, t1)" "function_at v t1 = Inr (fa, fn)"
    using a(1) by (auto simp: op_Closure_def seq_then_eq_Inr)
  obtain c t2 where al: "alloc (O_Closure fa []) t1 = (c, t2)" by (cases "alloc (O_Closure fa []) t1")
  obtain t3 us t4 where p: "push (Ref c) t2 = Inr t3" "capture_list (fn_upvalueCount fn) t3 = Inr (us, t4)"
    "t' = t4\<lparr>heap := (heap t4)[c := O_Closure fa us]\<rparr>"
    using a(1) r al by (auto simp: op_Closure_def seq_then_eq_Inr)
  have "wf_thread t1" using r(1) a(2) readConstant_wf by blast
  then have w3: "wf_thread t3" using al p(1) alloc_wf [OF al] push_wf by simp
  have h: "heap t3 = heap t1 @ [O_Closure fa []]" "c = length (heap t1)"
    using al p(1) by (auto simp: alloc_def push_def split: if_splits)
  then have "c < length (heap t3)" "obj_at (heap t3) c = Some (O_Closure fa [])" by (simp_all add: obj_at_def)
  then have "obj_at (heap t4) c = Some (O_Closure fa [])"
    using capture_list_heap [OF p(2) w3, of c] by simp
  then have "upvalue_slot (heap t4) c = None" by (simp add: upvalue_slot_def)
  moreover have "wf_thread t4" using p(2) w3 capture_list_wf by blast
  ultimately show "wf_thread t'" using overwrite_wf by (simp add: p(3))
qed

lemma keeps_CloseUpvalue: "keeps op_CloseUpvalue"
  by (rule keepsI) (auto simp: op_CloseUpvalue_def split: if_splits intro: keepsD [OF keeps_Pop] closeUpvalues_spec(1))

lemma push_args_wf [inv_intros]: "push_args as t = Inr t' \<Longrightarrow> wf_thread t \<Longrightarrow> wf_thread t'"
proof (induction as t rule: push_args.induct)
  case (3 vs as t)
  obtain a t1 where al: "alloc (O_List vs) t = (a, t1)" by (cases "alloc (O_List vs) t")
  then have "wf_thread t1" using 3(3) alloc_wf [OF al] by simp
  then show ?case using 3(1,2) al push_wf by (auto simp: seq_then_eq_Inr)
qed (auto simp: seq_then_eq_Inr dest: push_wf)

lemma default_closure_wf [inv_intros]:
  assumes "default_closure fn i t = Inr (c, d, t')" "wf_thread t"
  shows "wf_thread t'"
proof -
  obtain fa where "alloc (O_Closure fa []) t = (c, t')"
    using assms(1) by (auto simp: default_closure_def split: option.splits obj.splits if_splits prod.splits)
  then show ?thesis using assms(2) alloc_wf by fastforce
qed

lemma default_closures_wf [inv_intros]: "default_closures fn is t = Inr (cs, t') \<Longrightarrow> wf_thread t \<Longrightarrow> wf_thread t'"
  by (induction "is" arbitrary: t cs) (auto simp: seq_then_eq_Inr dest: default_closure_wf)

lemma push_defaults_wf [inv_intros]: "push_defaults cst p cs t = Inr t' \<Longrightarrow> wf_thread t \<Longrightarrow> wf_thread t'"
proof (induction cst p cs t arbitrary: t' rule: push_defaults.induct)
  case (2 cst p c d cs t)
  obtain t1 t2 t4 where s: "push_defaults cst p cs t = Inr t1" "push (Ref c) t1 = Inr t2"
    "with_frame (\<lambda>f. f\<lparr>parent := Some p\<rparr>) (pushFrame ((new_frame c d (stackTop t2 - 1) [] t2)\<lparr>callerStrict := cst\<rparr>) t2) = Inr t4"
    "t' = t4\<lparr>frameStart := True\<rparr>"
    using 2(2) by (auto simp: seq_then_eq_Inr)
  have w2: "wf_thread t2" using 2(1) [OF s(1)] 2(3) s(2) push_wf by blast
  then have "wf_thread (pushFrame ((new_frame c d (stackTop t2 - 1) [] t2)\<lparr>callerStrict := cst\<rparr>) t2)"
    by (intro pushFrame_wf) (auto simp: new_frame_def wf_thread_def)
  then have "wf_thread t4" using s(3) with_frame_wf [of "\<lambda>f. f\<lparr>parent := Some p\<rparr>"] by simp
  then show ?case by (simp add: s(4))
qed simp

lemma call_closure_Inr:
  assumes "call_closure L c fn cs t = Inr t'"
  obtains ty fa t1 t2 ds t3 f where "fn_type fn = Some ty"
    "call_setup (Inl (Sc SNil)) (\<lambda>vs. Inr (map given vs)) cs ty (fn_arity fn)
       (map Inl (take (unat (argCount cs)) (drop (stackTop t - unat (argCount cs)) (stack t)))) = Inr fa"
    "popN (unat (argCount cs)) t = Inr t1" "push_args (fa_args fa) t1 = Inr t2"
    "default_closures fn (fa_defaults fa) t2 = Inr (ds, t3)" "length (frames t3) \<le> L"
    "f = new_frame c fn (stackTop t3 - length (fa_args fa) - 1) (fa_reorder fa) t3"
    "push_defaults (callerStrict f) (length (frames t3)) ds ((pushFrame f t3)\<lparr>frameStart := True\<rparr>) = Inr t'"
    "ds \<noteq> [] \<longrightarrow> length (frames t') \<le> L"
proof (cases "fn_type fn")
  case (Some ty)
  show ?thesis
  proof (cases "call_setup (Inl (Sc SNil)) (\<lambda>vs. Inr (map given vs)) cs ty (fn_arity fn)
       (map Inl (take (unat (argCount cs)) (drop (stackTop t - unat (argCount cs)) (stack t))))")
    case (Inr fa)
    show ?thesis
      using assms unfolding call_closure_def Some option.case Let_def Inr sum.case
      by (auto simp: seq_then_eq_Inr Inr pushFrame_def split: if_splits intro!: that [OF Some Inr])
  qed (use assms Some in \<open>simp add: call_closure_def Let_def\<close>)
qed (use assms in \<open>simp add: call_closure_def\<close>)

lemma call_closure_wf [inv_intros]:
  assumes "call_closure L c fn cs t = Inr t'" "wf_thread t"
  shows "wf_thread t'"
  using assms(1)
proof (cases rule: call_closure_Inr)
  case (1 ty fa t1 t2 ds t3 f)
  have "wf_thread t3" using 1(3-5) assms(2) popN_wf push_args_wf default_closures_wf by blast
  then have "wf_thread (pushFrame f t3)"
    using 1(7) by (intro pushFrame_wf) (auto simp: new_frame_def wf_thread_def)
  then have "wf_thread ((pushFrame f t3)\<lparr>frameStart := True\<rparr>)" by simp
  then show ?thesis using 1(8) push_defaults_wf by blast
qed

lemma op_Call_Inr:
  assumes "op_Call L t = Inr t'"
  obtains f fn cs rest t1 c fa us g where "frame_of t = Inr f" "current_fn t = Inr fn"
    "callspec_decode (drop (ip f) (fn_code fn)) = Inr (cs, rest)" "set_ip (length (fn_code fn) - length rest) t = Inr t1"
    "peek (unat (argCount cs)) t1 = Inr (Ref c)" "obj_at (heap t1) c = Some (O_Closure fa us)"
    "obj_at (heap t1) fa = Some (O_Function g)" "call_closure L c g cs t1 = Inr t'"
proof -
  obtain f fn where f: "frame_of t = Inr f" "current_fn t = Inr fn" using assms by (auto simp: op_Call_def seq_then_eq_Inr)
  obtain cs rest where d: "callspec_decode (drop (ip f) (fn_code fn)) = Inr (cs, rest)"
    using assms f by (cases "callspec_decode (drop (ip f) (fn_code fn))") (auto simp: op_Call_def)
  obtain t1 callee where t1: "set_ip (length (fn_code fn) - length rest) t = Inr t1" "peek (unat (argCount cs)) t1 = Inr callee"
    using assms f d by (auto simp: op_Call_def seq_then_eq_Inr)
  obtain c where c: "callee = Ref c" using assms f d t1 by (cases callee) (auto simp: op_Call_def)
  obtain fa us where o: "obj_at (heap t1) c = Some (O_Closure fa us)"
    using assms f d t1 c by (auto simp: op_Call_def split: option.splits obj.splits)
  obtain g where "obj_at (heap t1) fa = Some (O_Function g)"
    using assms f d t1 c o by (auto simp: op_Call_def split: option.splits obj.splits)
  then show ?thesis using that f d t1 c o assms by (simp add: op_Call_def)
qed

lemma keeps_Call: "keeps (op_Call L)"
proof (rule keepsI)
  fix t t' assume a: "op_Call L t = Inr t'" and w: "wf_thread t"
  from a show "wf_thread t'"
  proof (cases rule: op_Call_Inr)
    case (1 f fn cs rest t1 c fa us g)
    show ?thesis by (rule call_closure_wf [OF 1(8) set_ip_wf [OF 1(4) w]])
  qed
qed

lemma resume_frame_wf [inv_intros]: "resume_frame t = Inr t' \<Longrightarrow> wf_thread t \<Longrightarrow> wf_thread t'"
  by (auto simp: resume_frame_def split: list.splits if_splits)

lemma keeps_Return: "keeps op_Return"
proof (rule keepsI)
  fix t t' assume a: "op_Return t = Inr t'" "wf_thread t"
  then obtain r t1 t2 where "opReturn t = Inr (r, t1)" "push r t1 = Inr t2" "resume_frame t2 = Inr t'"
    by (auto simp: op_Return_def seq_then_eq_Inr split: if_splits)
  then show "wf_thread t'" using a(2) opReturn_wf push_wf resume_frame_wf by blast
qed

lemma push_tail_wf [inv_intros]:
  assumes "push_tail p v t = Inr t'" "wf_thread t"
  shows "wf_thread t'"
proof -
  obtain i where i: "i < length (frames t)"
    "t' = t\<lparr>frames := (frames t)[i := (frames t ! i)\<lparr>tailArgValues := tailArgValues (frames t ! i) @ [v]\<rparr>]\<rparr>"
    using assms(1) by (intro that [of "length (frames t) - 1 - p"]) (auto simp: push_tail_def Let_def split: if_splits)
  have "slots g \<le> length (stack t)"
    if "g \<in> set ((frames t)[i := (frames t ! i)\<lparr>tailArgValues := tailArgValues (frames t ! i) @ [v]\<rparr>])" for g
  proof -
    have "slots (frames t ! i) \<le> length (stack t)" using assms(2) i(1) by (simp add: wf_thread_def)
    then show ?thesis using that assms(2) by (auto simp: wf_thread_def dest!: subsetD [OF set_update_subset_insert])
  qed
  then show ?thesis using wf_frames [OF assms(2)] by (simp add: i(2))
qed

lemma keeps_ReturnStore: "keeps op_ReturnStore"
proof (rule keepsI)
  fix t t' assume a: "op_ReturnStore t = Inr t'" "wf_thread t"
  then obtain f r t1 p t2 where "opReturn t = Inr (r, t1)" "push_tail p r t1 = Inr t2" "resume_frame t2 = Inr t'"
    by (auto simp: op_ReturnStore_def seq_then_eq_Inr split: if_splits option.splits)
  then show "wf_thread t'" using a(2) opReturn_wf push_tail_wf resume_frame_wf by blast
qed

lemma write_tail_wf [inv_intros]: "write_tail i vs t = Inr t' \<Longrightarrow> wf_thread t \<Longrightarrow> wf_thread t'"
  by (induction i vs t rule: write_tail.induct) (auto simp: seq_then_eq_Inr dest: slot_write_wf)

lemma pop_list_wf [inv_intros]: "pop_list n t = Inr (vs, t') \<Longrightarrow> wf_thread t \<Longrightarrow> wf_thread t'"
  by (induction n arbitrary: t vs) (auto simp: seq_then_eq_Inr dest: pop_wf)

lemma push_list_wf [inv_intros]: "push_list vs t = Inr t' \<Longrightarrow> wf_thread t \<Longrightarrow> wf_thread t'"
  by (induction vs t rule: push_list.induct) (auto simp: seq_then_eq_Inr dest: push_wf)

lemma x_reorder_wf [inv_intros]: "x_reorder r t = Inr t' \<Longrightarrow> wf_thread t \<Longrightarrow> wf_thread t'"
  by (auto simp: x_reorder_def seq_then_eq_Inr split: if_splits dest: pop_list_wf push_list_wf)

lemma convert_slot_wf [inv_intros]: "convert_slot i tgt st t = Inr t' \<Longrightarrow> wf_thread t \<Longrightarrow> wf_thread t'"
  by (auto simp: convert_slot_def seq_then_def split: sum.splits operand.splits if_splits outcome.splits dest: slot_write_wf)

lemma convert_params_wf [inv_intros]: "convert_params i ps st t = Inr t' \<Longrightarrow> wf_thread t \<Longrightarrow> wf_thread t'"
  by (induction i ps st t rule: convert_params.induct)
    (auto simp: seq_then_eq_Inr split: option.splits dest: convert_slot_wf)

lemma start_frame_Inr:
  assumes "start_frame t = Inr t'"
  obtains f fn t1 t2 t3 where "frame_of t = Inr f" "current_fn t = Inr fn" "length (tailArgValues f) \<le> fn_arity fn"
    "write_tail (slots f + 1 + (fn_arity fn - length (tailArgValues f))) (tailArgValues f) t = Inr t1"
    "x_reorder (reorderArgs f) t1 = Inr t2"
    "with_frame (\<lambda>g. g\<lparr>tailArgValues := [], reorderArgs := []\<rparr>) t2 = Inr t3"
    "(case fn_type fn of None \<Rightarrow> Inr t3 | Some ty \<Rightarrow> (case rt_func ty of None \<Rightarrow> Inr t3
        | Some g \<Rightarrow> convert_params (slots f + 1) (ft_params g) (callerStrict f) t3)) = Inr t'"
  using assms unfolding start_frame_def Let_def by (auto simp: seq_then_eq_Inr split: if_splits intro: that)

lemma keeps_start_frame: "keeps start_frame"
proof (rule keepsI)
  fix t t' assume a: "start_frame t = Inr t'" and w: "wf_thread t"
  from a show "wf_thread t'"
  proof (cases rule: start_frame_Inr)
    case (1 f fn t1 t2 t3)
    have "wf_thread t3"
      by (rule with_frame_wf [OF 1(6) _ x_reorder_wf [OF 1(5) write_tail_wf [OF 1(4) w]]]) simp
    then show ?thesis using 1(7) convert_params_wf by (auto split: option.splits)
  qed
qed

lemma keeps_SetupExcept: "keeps op_SetupExcept"
proof (rule keepsI)
  fix t t' assume a: "op_SetupExcept t = Inr t'" "wf_thread t"
  then obtain off t1 where r: "readShort t = Inr (off, t1)"
    "with_frame (\<lambda>f. f\<lparr>exceptionHandlers :=
       \<lparr>h_ip = ip f + off, h_stackDepth = stackTop t1, h_frameDepth = length (frames t1)\<rparr> # exceptionHandlers f\<rparr>) t1 = Inr t'"
    by (auto simp: op_SetupExcept_def seq_then_eq_Inr)
  show "wf_thread t'" by (rule with_frame_wf [OF r(2) _ readShort_wf [OF r(1) a(2)]]) simp
qed

lemma keeps_EndExcept: "keeps op_EndExcept"
  by (rule keepsI) (auto simp: op_EndExcept_def intro: with_frame_wf)

lemma keeps_Throw: "keeps op_Throw"
  by (rule keepsI) (auto simp: op_Throw_def seq_then_eq_Inr dest!: pop_wf dest: unwindToExceptionHandler_wf)

lemma keeps_NewList: "keeps op_NewList"
proof (rule keepsI)
  fix t t' assume a: "op_NewList t = Inr t'" "wf_thread t"
  then obtain n t1 vs t2 where r: "readByte t = Inr (n, t1)" "pop_list (unat n) t1 = Inr (vs, t2)"
    "push (Ref (length (heap t2))) (t2\<lparr>heap := heap t2 @ [O_List vs]\<rparr>) = Inr t'"
    by (auto simp: op_NewList_def seq_then_eq_Inr alloc_def)
  have "wf_thread t2" using r(1,2) a(2) readByte_wf pop_list_wf by blast
  then show "wf_thread t'" using r(3) push_wf wf_thread_heap by simp
qed

lemma keeps_ToStringPart: "keeps op_ToStringPart"
  by (rule keepsI) (auto simp: op_ToStringPart_def seq_then_eq_Inr split: if_splits)

lemma keeps_Concat: "keeps op_Concat"
  by (rule keepsI) (auto simp: op_Concat_def seq_then_eq_Inr split: if_splits dest!: readByte_wf pop_list_wf dest: push_wf)

lemma keeps_CheckList: "keeps op_CheckList"
  by (rule keepsI) (auto simp: op_CheckList_def seq_then_def split: sum.splits prod.splits operand.splits option.splits obj.splits if_splits dest: readByte_wf)

lemmas keeps_all = keeps_Inr keeps_push keeps_Constant keeps_Pop keeps_PopN keeps_PopToCount keeps_Dup keeps_DupBelow keeps_Swap
  keeps_jump_when keeps_combine keeps_Jump keeps_Loop keeps_GetLocal keeps_MoveLocal keeps_SetLocal keeps_GetUpvalue keeps_SetUpvalue
  keeps_DefineModuleConst keeps_DefineModuleVar keeps_GetModuleVar keeps_MoveModuleVar keeps_SetModuleVar keeps_SetNewModuleVar
  keeps_binaryOp keeps_binaryOp_div keeps_with_fast keeps_add_general keeps_unary keeps_Closure keeps_CloseUpvalue keeps_Call
  keeps_Return keeps_ReturnStore keeps_SetupExcept keeps_EndExcept keeps_Throw keeps_NewList keeps_ToStringPart keeps_Concat keeps_CheckList

lemmas instruction_families = op_JumpIfFalse_def op_JumpIfTrue_def op_AndShortCircuit_def op_OrShortCircuit_def op_StmtAction_def
  op_Equal_def op_NotEqual_def op_Greater_def op_Less_def op_GreaterEqual_def op_LessEqual_def
  op_Add_def op_Subtract_def op_Multiply_def op_Divide_def op_Modulo_def fast_arith_def fast_compare_def

lemma instructions_keep: "list_all (\<lambda>(n, h). keeps h) (instructions L dbl)"
  unfolding instructions_def by (simp add: keeps_all instruction_families)

lemma keeps_turn: "keeps (turn L)"
proof (rule keepsI)
  fix t t' assume a: "turn L t = Inr t'" "wf_thread t"
  then obtain t1 where t1: "(if frameStart t then start_frame t else Inr t) = Inr t1" "execute_instruction L t1 = Inr t'"
    by (auto simp: turn_def seq_then_eq_Inr)
  have w1: "wf_thread t1" using t1(1) a(2) keepsD [OF keeps_start_frame] by (auto split: if_splits)
  obtain b t2 where b: "readByte t1 = Inr (b, t2)"
    "(case map_of (instructions L (b AND DoubleByteArg \<noteq> 0)) (unat (b AND NOT DoubleByteArg)) of
        None \<Rightarrow> Inl stop.Outside_Model | Some h \<Rightarrow> h (t2\<lparr>frameStart := False\<rparr>)) = Inr t'"
    using t1(2) by (auto simp: execute_instruction_def seq_then_eq_Inr Let_def)
  then obtain h where h: "map_of (instructions L (b AND DoubleByteArg \<noteq> 0)) (unat (b AND NOT DoubleByteArg)) = Some h"
    "h (t2\<lparr>frameStart := False\<rparr>) = Inr t'" by (auto split: option.splits)
  have "keeps h" using instructions_keep [of L "b AND DoubleByteArg \<noteq> 0"] map_of_SomeD [OF h(1)] by (auto simp: list_all_iff)
  then show "wf_thread t'" using h(2) keepsD b(1) w1 readByte_wf by (metis frameStart_wf)
qed

definition fresh_thread :: "thread \<Rightarrow> bool" where
  "fresh_thread t \<longleftrightarrow> openUpvalues t = [] \<and> (\<forall>a. upvalue_slot (heap t) a = None)
     \<and> stackTop t \<le> length (stack t) \<and> (\<forall>f \<in> set (frames t). slots f \<le> length (stack t))"

interpretation vm: machine fresh_thread "step L" wf_thread
proof unfold_locales
  show "wf_thread t" if "fresh_thread t" for t
    using that by (simp add: fresh_thread_def wf_thread_def wf_open_def)
  show "wf_thread t'" if "wf_thread t" "step L t t'" for t t'
    using that keepsD [OF keeps_turn] by (simp add: step_iff)
qed

section \<open>Fast paths\<close>

lemma inline_int: "isInlineInt v \<Longrightarrow> \<exists>i. v = SInt i \<and> - (2 ^ 31) \<le> sint i \<and> sint i < 2 ^ 31"
  by (auto simp: isInlineInt_def fitsInInt32_def split: scalar.splits)

lemma real_scalar: "is_real v \<Longrightarrow> \<exists>d. v = SReal d"
  by (cases v) (auto simp: is_real_def)

lemma mult_fits: "- (2 ^ 31) \<le> (x :: int) \<Longrightarrow> x < 2 ^ 31 \<Longrightarrow> - (2 ^ 31) \<le> y \<Longrightarrow> y < 2 ^ 31 \<Longrightarrow> fits64 (x * y)"
proof -
  assume a: "- (2 ^ 31) \<le> x" "x < 2 ^ 31" "- (2 ^ 31) \<le> y" "y < 2 ^ 31"
  have "\<bar>x * y\<bar> \<le> 2 ^ 31 * 2 ^ 31" unfolding abs_mult using a by (intro mult_mono) auto
  then show ?thesis by (simp add: fits64_def abs_le_iff)
qed

lemma fast_path_cases:
  assumes "fast_path fi fr l r = Some v"
  obtains x y where "l = SInt x" "r = SInt y" "- (2 ^ 31) \<le> sint x" "sint x < 2 ^ 31" "- (2 ^ 31) \<le> sint y" "sint y < 2 ^ 31"
      "v = fi (sint x) (sint y)"
  | "isNumber l" "isNumber r" "binaryOpType (scalar_type l) (scalar_type r) = VReal"
    "asReal True l = Done (fast_real l)" "asReal True r = Done (fast_real r)" "v = fr (fast_real l) (fast_real r)"
    "is_real l \<or> is_real r"
proof (cases "isInlineInt l \<and> isInlineInt r")
  case True
  then show ?thesis using assms inline_int [of l] inline_int [of r] that(1) by (auto simp: fast_path_def unchecked_int_def)
next
  case False
  then have h: "isInlineInt l \<or> is_real l" "isInlineInt r \<or> is_real r" "v = fr (fast_real l) (fast_real r)"
    using assms by (auto simp: fast_path_def split: if_splits)
  have l: "(\<exists>x. l = SInt x) \<or> (\<exists>d. l = SReal d)" "(\<exists>x. r = SInt x) \<or> (\<exists>d. r = SReal d)"
    using h(1,2) inline_int real_scalar by blast+
  have rr: "is_real l \<or> is_real r" using False h by auto
  show ?thesis
    by (rule that(2)) (use l rr h(3) in \<open>auto simp: isNumber_def Let_def binaryOpType_def is_real_def asReal_def fast_real_def unchecked_int_def\<close>)
qed

lemma fast_add: "fast_path (\<lambda>x y. SInt (word_of_int (x + y))) (\<lambda>x y. SReal (dadd x y)) l r = Some v \<Longrightarrow> add l r = Done v"
proof (erule fast_path_cases)
  fix x y assume "l = SInt x" "r = SInt y" "- (2 ^ 31) \<le> sint x" "sint x < 2 ^ 31" "- (2 ^ 31) \<le> sint y" "sint y < 2 ^ 31"
    "v = SInt (word_of_int (sint x + sint y))"
  then show ?thesis by (simp add: add_def isNumber_def by_result_type_def binaryOpType_def asInt_def checked_def fits64_def)
qed (simp add: add_def by_result_type_def)

lemma fast_subtract: "fast_path (\<lambda>x y. SInt (word_of_int (x - y))) (\<lambda>x y. SReal (dsub x y)) l r = Some v \<Longrightarrow> subtract l r = Done v"
proof (erule fast_path_cases)
  fix x y assume "l = SInt x" "r = SInt y" "- (2 ^ 31) \<le> sint x" "sint x < 2 ^ 31" "- (2 ^ 31) \<le> sint y" "sint y < 2 ^ 31"
    "v = SInt (word_of_int (sint x - sint y))"
  then show ?thesis by (simp add: subtract_def need_numbers_def isNumber_def by_result_type_def binaryOpType_def asInt_def checked_def fits64_def)
qed (simp add: subtract_def need_numbers_def by_result_type_def)

lemma fast_multiply: "fast_path (\<lambda>x y. SInt (word_of_int (x * y))) (\<lambda>x y. SReal (dmul x y)) l r = Some v \<Longrightarrow> multiply l r = Done v"
proof (erule fast_path_cases)
  fix x y assume a: "l = SInt x" "r = SInt y" "- (2 ^ 31) \<le> sint x" "sint x < 2 ^ 31" "- (2 ^ 31) \<le> sint y" "sint y < 2 ^ 31"
    "v = SInt (word_of_int (sint x * sint y))"
  then have "fits64 (sint x * sint y)" by (intro mult_fits)
  then show ?thesis using a by (simp add: multiply_def need_numbers_def isNumber_def by_result_type_def binaryOpType_def asInt_def checked_def)
qed (simp add: multiply_def need_numbers_def by_result_type_def)

lemma fast_comparison:
  assumes "fast_path (\<lambda>x y. SBool (fi x y)) (\<lambda>x y. SBool (fr x y)) l r = Some v"
  shows "compare_out (compare_op fi fr fs (Sc l) (Sc r)) = Done v"
  using assms
proof (cases rule: fast_path_cases)
  case (1 x y)
  then show ?thesis by (simp add: compare_out_def compare_op_def isNumber_def by_result_type_def binaryOpType_def asInt_def map_out_def)
qed (simp add: compare_out_def compare_op_def by_result_type_def map_out_def)

lemma fast_equal:
  assumes "fast_path (\<lambda>x y. SBool (x = y)) (\<lambda>x y. SBool (deq x y)) l r = Some v"
  shows "v = SBool (equals (Sc l) (Sc r))"
  using assms
proof (cases rule: fast_path_cases)
  case (1 x y)
  then show ?thesis by (auto simp: equals_def dest: signed_word_eqI)
next
  case 2
  have "l \<noteq> SNil" "r \<noteq> SNil" "\<not> (\<exists>x y. l = SInt x \<and> r = SInt y)" using 2(1,2,7) by (auto simp: isNumber_def is_real_def)
  then show ?thesis using 2 by (cases l; cases r) (auto simp: equals_def isNumber_def by_result_type_def fast_real_def asReal_def unchecked_int_def)
qed

lemma fast_path_not:
  assumes "fast_path (\<lambda>x y. SBool (\<not> f x y)) (\<lambda>x y. SBool (\<not> g x y)) a b = Some v"
  shows "\<exists>c. fast_path (\<lambda>x y. SBool (f x y)) (\<lambda>x y. SBool (g x y)) a b = Some (SBool c) \<and> v = SBool (\<not> c)"
proof (cases "isInlineInt a \<and> isInlineInt b")
  case True
  then show ?thesis using assms by (auto simp: fast_path_def)
next
  case False
  then have "(isInlineInt a \<or> is_real a) \<and> (isInlineInt b \<or> is_real b)" "v = SBool (\<not> g (fast_real a) (fast_real b))"
    using assms by (auto simp: fast_path_def split: if_splits)
  then show ?thesis using False by (auto simp: fast_path_def)
qed

lemma with_fast_general:
  assumes "stackTop t \<le> length (stack t)" and "\<And>a b v. fast_path fi fr a b = Some v \<Longrightarrow> op (Sc a) (Sc b) = Done v"
  shows "with_fast fi fr (binaryOp op) t = binaryOp op t"
proof (cases "stackTop t < 2")
  case True
  then consider "stackTop t = 0" | "stackTop t = 1" by linarith
  then show ?thesis by cases (simp_all add: with_fast_def peek_def binaryOp_def pop_def Let_def)
next
  case False
  obtain n where n: "stackTop t = Suc (Suc n)" using False by (metis add_2_eq_Suc le_add_diff_inverse not_less)
  have len: "Suc n < length (stack t)" using assms(1) n by simp
  show ?thesis
  proof (cases "\<exists>a b v. stack t ! n = Sc a \<and> stack t ! Suc n = Sc b \<and> fast_path fi fr a b = Some v")
    case True
    then obtain a b v where v: "stack t ! n = Sc a" "stack t ! Suc n = Sc b" "fast_path fi fr a b = Some v" by blast
    have o: "op (Sc a) (Sc b) = Done v" by (rule assms(2) [OF v(3)])
    have "is_ref (Sc x) = False" for x by (simp add: is_ref_def)
    then show ?thesis using n len v o
      by (auto simp: with_fast_def peek_def poke_def op_Pop_def binaryOp_def pop_def push_def checked_out_def list_update_swap Let_def)
  next
    case False
    then show ?thesis using n
      by (auto simp: with_fast_def peek_def split: operand.split option.split)
  qed
qed

lemma add_fast_general:
  assumes "stackTop t \<le> length (stack t)"
  shows "op_Add t = add_general t"
proof (cases "\<exists>a b. peek 1 t = Inr (Sc a) \<and> peek 0 t = Inr (Sc b)")
  case True
  then obtain a b where ab: "peek 1 t = Inr (Sc a)" "peek 0 t = Inr (Sc b)" by blast
  have "op_Add t = with_fast (\<lambda>x y. SInt (word_of_int (x + y))) (\<lambda>x y. SReal (dadd x y)) (binaryOp (on_scalars add)) t"
    using ab by (auto simp: op_Add_def fast_arith_def with_fast_def add_general_def split: option.split)
  also have "\<dots> = binaryOp (on_scalars add) t"
    by (rule with_fast_general [OF assms]) (simp add: on_scalars_def fast_add)
  also have "\<dots> = add_general t" using ab by (simp add: add_general_def)
  finally show ?thesis .
next
  case False
  have "peek 0 t \<noteq> Inl e" if "peek 1 t = Inr x" for e x using that by (auto simp: peek_def split: if_splits)
  then show ?thesis using False
    by (auto simp: op_Add_def fast_arith_def with_fast_def add_general_def seq_then_def split: sum.split operand.split)
qed

section \<open>Starting a frame and binding its arguments\<close>

lemma write_tail_stack:
  "i + length vs \<le> length (stack t) \<Longrightarrow>
     write_tail i vs t = Inr (t\<lparr>stack := take i (stack t) @ vs @ drop (i + length vs) (stack t)\<rparr>)"
proof (induction vs arbitrary: i t)
  case (Cons v vs)
  then show ?case
    by (simp add: slot_write_def upd_conv_take_nth_drop min_def add.commute)
qed simp

lemma assign_tail_list:
  "k + length vs \<le> length xs \<Longrightarrow> assign_tail k vs xs = take k xs @ vs @ drop (k + length vs) xs"
proof (induction k vs xs rule: assign_tail.induct)
  case (2 k v vs stk)
  then show ?case by (simp add: upd_conv_take_nth_drop min_def add.commute)
qed simp

lemma pop_list_spec:
  assumes "n \<le> stackTop t" "stackTop t \<le> length (stack t)"
  shows "\<exists>t'. pop_list n t = Inr (take n (drop (stackTop t - n) (stack t)), t') \<and> stackTop t' = stackTop t - n
    \<and> length (stack t') = length (stack t) \<and> take (stackTop t - n) (stack t') = take (stackTop t - n) (stack t)
    \<and> frames t' = frames t \<and> heap t' = heap t"
  using assms
proof (induction n arbitrary: t)
  case (Suc n)
  obtain k where k: "stackTop t = Suc k" using Suc(2) by (cases "stackTop t") auto
  obtain t1 where t1: "t1 = t\<lparr>stack := (if is_obj (stack t ! k) then (stack t)[k := Sc SNil] else stack t), stackTop := k\<rparr>" by simp
  have p: "pop t = Inr (stack t ! k, t1)" using k by (simp add: pop_def Let_def t1)
  have pre: "n \<le> stackTop t1" "stackTop t1 \<le> length (stack t1)" using Suc(2,3) k by (auto simp: t1)
  from Suc(1) [OF this] obtain t2 where t2: "pop_list n t1 = Inr (take n (drop (k - n) (stack t1)), t2)"
    "stackTop t2 = k - n" "length (stack t2) = length (stack t1)" "take (k - n) (stack t2) = take (k - n) (stack t1)"
    "frames t2 = frames t1" "heap t2 = heap t1" by (auto simp: t1)
  have kl: "k < length (stack t)" "n \<le> k" using Suc(2,3) k by auto
  have "take n (drop (k - n) (stack t1)) @ [stack t ! k] = take (Suc n) (drop (k - n) (stack t))"
    using kl by (auto simp: t1 take_Suc_conv_app_nth drop_update_swap take_drop)
  moreover have "take (k - n) (stack t1) = take (k - n) (stack t)" using kl by (auto simp: t1)
  ultimately show ?case using p t2 k by (auto simp: t1)
qed simp

lemma push_list_spec:
  assumes "stackTop t + length vs \<le> length (stack t)"
  shows "\<exists>t'. push_list vs t = Inr t' \<and> stackTop t' = stackTop t + length vs \<and> length (stack t') = length (stack t)
    \<and> take (stackTop t + length vs) (stack t') = take (stackTop t) (stack t) @ vs \<and> frames t' = frames t \<and> heap t' = heap t"
  using assms
proof (induction vs arbitrary: t)
  case (Cons v vs)
  obtain t1 where t1: "t1 = t\<lparr>stack := (stack t)[stackTop t := v], stackTop := stackTop t + 1\<rparr>" by simp
  have p: "push v t = Inr t1" using Cons(2) by (simp add: push_def t1)
  have "stackTop t1 + length vs \<le> length (stack t1)" using Cons(2) by (simp add: t1)
  from Cons(1) [OF this] obtain t2 where t2: "push_list vs t1 = Inr t2" "stackTop t2 = stackTop t1 + length vs"
    "length (stack t2) = length (stack t1)" "take (stackTop t1 + length vs) (stack t2) = take (stackTop t1) (stack t1) @ vs"
    "frames t2 = frames t1" "heap t2 = heap t1" by auto
  have "take (stackTop t1) (stack t1) = take (stackTop t) (stack t) @ [v]"
    using Cons(2) by (simp add: t1 take_Suc_conv_app_nth)
  then show ?case using p t2 by (auto simp: t1)
qed simp

lemma current_fn_frames: "frames t = f # fs \<Longrightarrow> frames t' = g # gs \<Longrightarrow> fr_closure g = fr_closure f \<Longrightarrow> heap t' = heap t \<Longrightarrow>
    current_fn t' = current_fn t"
  by (simp add: current_fn_def split: option.split obj.split)

lemma start_frame_places:
  assumes f: "frames t = f # fs" "current_fn t = Inr fn" and st: "stackTop t = slots f + 1 + length stk" "stackTop t \<le> length (stack t)"
    "take (length stk) (drop (slots f + 1) (stack t)) = stk"
    and n: "length (tailArgValues f) \<le> fn_arity fn" "tailArgValues f = [] \<or> fn_arity fn \<le> length stk"
    and r: "reorder_args (reorderArgs f) (assign_tail (fn_arity fn - length (tailArgValues f)) (tailArgValues f) stk) = Some ys"
  shows "\<exists>t'. start_frame t = (case fn_type fn of None \<Rightarrow> Inr t' | Some ty \<Rightarrow> (case rt_func ty of None \<Rightarrow> Inr t'
        | Some g \<Rightarrow> convert_params (slots f + 1) (ft_params g) (callerStrict f) t')) \<and> stackTop t' = stackTop t \<and> length (stack t') = length (stack t)
    \<and> take (stackTop t) (stack t') = take (slots f + 1) (stack t) @ ys
    \<and> frames t' = f\<lparr>tailArgValues := [], reorderArgs := []\<rparr> # fs \<and> heap t' = heap t"
proof -
  obtain vs where vs: "vs = tailArgValues f" by simp
  obtain b where b: "b = slots f + 1" by simp
  obtain k where k: "k = fn_arity fn - length vs" by simp
  have kn: "k + length vs = fn_arity fn" using n(1) by (simp add: k vs)
  obtain stk1 where stk1: "stk1 = take k stk @ vs @ drop (k + length vs) stk" by simp
  have n2: "vs = [] \<or> k + length vs \<le> length stk" using n(2) kn by (simp add: vs)
  have as: "assign_tail k vs stk = stk1" using assign_tail_list [of k vs stk] n2 by (auto simp: stk1)
  have l1: "length stk1 = length stk" using n2 by (auto simp: stk1)
  obtain pre post where S: "stack t = pre @ stk @ post" "length pre = b"
  proof (rule that [of "take b (stack t)" "drop (b + length stk) (stack t)"])
    show "stack t = take b (stack t) @ stk @ drop (b + length stk) (stack t)"
      using st(3) b by (metis append_take_drop_id add.commute drop_drop)
    show "length (take b (stack t)) = b" using st(1,2) b by simp
  qed
  obtain t1 where t1: "t1 = t\<lparr>stack := pre @ stk1 @ post\<rparr>" by simp
  have w: "write_tail (b + k) vs t = Inr t1"
    using write_tail_stack [of "b + k" vs t] S n2 by (auto simp: t1 stk1 add.assoc)
  have tk: "take b (stack t) = pre" using S by simp
  have top: "stackTop t = b + length stk" using st(1) b by simp
  obtain t2 where t2: "x_reorder (reorderArgs f) t1 = Inr t2" "stackTop t2 = stackTop t" "length (stack t2) = length (stack t)"
    "take (stackTop t) (stack t2) = pre @ ys" "frames t2 = frames t" "heap t2 = heap t"
  proof (cases "reorderArgs f = []")
    case True
    have "ys = stk1" using r True as by (simp add: reorder_args_def k vs)
    then show ?thesis using that [of t1] True top S(1,2) l1 by (simp add: x_reorder_def t1)
  next
    case False
    obtain m where m: "m = length (reorderArgs f)" by simp
    have ok: "m \<le> length stk1" "\<not> (\<exists>p \<in> set (reorderArgs f). p < 0 \<or> p \<ge> int m)"
      and ys: "ys = take (length stk1 - m) stk1 @ map (\<lambda>p. drop (length stk1 - m) stk1 ! nat p) (reorderArgs f)"
      using r False as by (auto simp: reorder_args_def Let_def k vs m split: if_splits)
    have pre1: "m \<le> stackTop t1" "stackTop t1 \<le> length (stack t1)" using ok(1) top S l1 by (simp_all add: t1)
    from pop_list_spec [OF this] obtain t0 where t0: "pop_list m t1 = Inr (take m (drop (stackTop t1 - m) (stack t1)), t0)"
      "stackTop t0 = stackTop t1 - m" "length (stack t0) = length (stack t1)"
      "take (stackTop t1 - m) (stack t0) = take (stackTop t1 - m) (stack t1)" "frames t0 = frames t1" "heap t0 = heap t1" by blast
    have args: "take m (drop (stackTop t1 - m) (stack t1)) = drop (length stk1 - m) stk1"
      using ok(1) top S(2) l1 by (simp add: t1)
    obtain new where new: "new = map (\<lambda>p. drop (length stk1 - m) stk1 ! nat p) (reorderArgs f)" by simp
    have "stackTop t0 + length new \<le> length (stack t0)" using pre1 t0(2,3) by (simp add: new m)
    from push_list_spec [OF this] obtain t2 where p: "push_list new t0 = Inr t2" "stackTop t2 = stackTop t0 + length new"
      "length (stack t2) = length (stack t0)" "take (stackTop t0 + length new) (stack t2) = take (stackTop t0) (stack t0) @ new"
      "frames t2 = frames t0" "heap t2 = heap t0" by blast
    have len: "stackTop t0 + length new = stackTop t" using t0(2) pre1(1) by (simp add: t1 new m)
    have "x_reorder (reorderArgs f) t1 = Inr t2"
      using False ok(2) t0(1) p(1) by (simp add: x_reorder_def args del: nth_drop flip: m new)
    moreover have "take (stackTop t0) (stack t0) = pre @ take (length stk1 - m) stk1"
      using t0(2,4) top S(2) l1 ok(1) by (simp add: t1)
    moreover have "ys = take (length stk1 - m) stk1 @ new" by (simp only: ys new)
    ultimately show ?thesis using that [of t2] p len t0(3,5,6) l1 S(1) by (simp add: t1)
  qed
  obtain t3 where t3: "t3 = t2\<lparr>frames := f\<lparr>tailArgValues := [], reorderArgs := []\<rparr> # fs\<rparr>" by simp
  have wf: "with_frame (\<lambda>g. g\<lparr>tailArgValues := [], reorderArgs := []\<rparr>) t2 = Inr t3"
    using t2(5) f(1) by (simp add: with_frame_def t3)
  have "start_frame t = (case fn_type fn of None \<Rightarrow> Inr t3 | Some ty \<Rightarrow> (case rt_func ty of None \<Rightarrow> Inr t3
        | Some g \<Rightarrow> convert_params (slots f + 1) (ft_params g) (callerStrict f) t3))"
    using f w t2(1) wf n(1) by (simp add: start_frame_def frame_of_def Let_def vs b k not_less)
  then show ?thesis using t2 tk b by (intro exI [of _ t3]) (simp add: t3)
qed

text \<open>The conversion of the arguments to the declared types, as a function on lists.\<close>

definition arg_value :: "bool \<Rightarrow> param_type option \<Rightarrow> operand \<Rightarrow> stop + operand" where
  "arg_value strictCtx p v =
     (case param_target p of
        None \<Rightarrow> Inr v
      | Some None \<Rightarrow> Inl stop.Outside_Model
      | Some (Some tgt) \<Rightarrow> (case v of
          Sc s \<Rightarrow>
            if scalar_type s = target_type tgt then Inr v
            else (case toType tgt s strictCtx of
                Done w \<Rightarrow> Inr (Sc w)
              | Throws e \<Rightarrow> Inl (Runtime_Failure e)
              | Undef \<Rightarrow> Inl Undefined)
        | _ \<Rightarrow> Inl stop.Outside_Model))"

fun arg_values :: "bool \<Rightarrow> param_type option list \<Rightarrow> operand list \<Rightarrow> stop + operand list" where
  "arg_values strictCtx (p # ps) (v # vs) =
     seq_then (arg_value strictCtx p v) (\<lambda>w. seq_then (arg_values strictCtx ps vs) (\<lambda>ws. Inr (w # ws)))"
| "arg_values strictCtx ps vs = Inr []"

lemma convert_slot_value:
  assumes "param_target p = Some (Some tgt)" "stack t = pre @ v # post" "length pre = i"
  shows "convert_slot i tgt s t = seq_then (arg_value s p v) (\<lambda>w. Inr (t\<lparr>stack := pre @ w # post\<rparr>))"
  using assms by (auto simp: convert_slot_def arg_value_def slot_read_def slot_write_def nth_append seq_then_def
      split: operand.split outcome.split)

lemma convert_params_values:
  assumes "stack t = pre @ vs @ post" "length pre = i" "length vs = length ps"
  shows "convert_params i ps s t = seq_then (arg_values s ps vs) (\<lambda>ws. Inr (t\<lparr>stack := pre @ ws @ post\<rparr>))"
  using assms
proof (induction ps arbitrary: i pre vs t)
  case (Cons p ps)
  obtain v vs' where v: "vs = v # vs'" using Cons(4) by (cases vs) auto
  have IH: "convert_params (i + 1) ps s (t\<lparr>stack := pre @ w # vs' @ post\<rparr>)
      = seq_then (arg_values s ps vs') (\<lambda>ws. Inr (t\<lparr>stack := pre @ w # ws @ post\<rparr>))" for w
    using Cons(1) [of "t\<lparr>stack := pre @ w # vs' @ post\<rparr>" "pre @ [w]" vs' "i + 1"] Cons(3,4) by (simp add: v)
  have same: "t\<lparr>stack := pre @ v # vs' @ post\<rparr> = t" using Cons(2) by (simp add: v)
  consider (keep) "param_target p = None" | (out) "param_target p = Some None"
    | (conv) tgt where "param_target p = Some (Some tgt)" by (cases "param_target p") auto
  then show ?case
  proof cases
    case keep
    then show ?thesis using IH [of v] by (simp add: v same arg_value_def seq_then_def split: sum.split)
  next
    case out
    then show ?thesis by (simp add: v arg_value_def seq_then_def)
  next
    case conv
    have "convert_slot i tgt s t = seq_then (arg_value s p v) (\<lambda>w. Inr (t\<lparr>stack := pre @ w # vs' @ post\<rparr>))"
      using convert_slot_value [OF conv _ Cons(3)] Cons(2) by (simp add: v)
    then show ?thesis using IH conv by (auto simp: v seq_then_def split: sum.split)
  qed
qed simp

lemma convert_params_append:
  "convert_params i (ps @ qs) s t = seq_then (convert_params i ps s t) (convert_params (i + length ps) qs s)"
  by (induction ps arbitrary: i t) (auto simp: seq_then_def split: option.split sum.split)

lemma variadic_target: "variadic_at ps i \<Longrightarrow> param_target (ps ! i) = None"
  by (auto simp: variadic_at_def param_target_def split: option.splits)

text \<open>Only the parameters before the variadic one are converted.\<close>

lemma convert_params_regular:
  "convert_params i (ft_params g) s t = convert_params i (take (regularParamCount g) (ft_params g)) s t"
proof (cases "hasVariadic g")
  case True
  note v = variadic_at_last [OF True]
  have "ft_params g = take (regularParamCount g) (ft_params g) @ [ft_params g ! regularParamCount g]"
    using v variadic_only_last(2) [OF True] by (metis lessI order_refl take_Suc_conv_app_nth take_all)
  moreover have "param_target (ft_params g ! regularParamCount g) = None"
    using v variadic_only_last(2) [OF True] by (intro variadic_target) simp
  ultimately show ?thesis
    using convert_params_append [of i "take (regularParamCount g) (ft_params g)" "[ft_params g ! regularParamCount g]" s t]
    by (simp add: seq_then_def split: sum.splits)
qed (simp add: variadic_only_last)

text \<open>A placed argument: the value itself, or a list object, from address \<open>n\<close> on, holding the extra arguments.\<close>

definition placed :: "nat \<Rightarrow> obj list \<Rightarrow> operand + operand list \<Rightarrow> operand \<Rightarrow> bool" where
  "placed n h x v \<longleftrightarrow>
     (case x of Inl w \<Rightarrow> v = w | Inr ws \<Rightarrow> (\<exists>a. v = Ref a \<and> n \<le> a \<and> obj_at h a = Some (O_List ws)))"

lemma placed_extend: "placed n h x v \<Longrightarrow> placed n (h @ k) x v"
  by (auto simp: placed_def obj_at_def nth_append split: sum.splits if_splits)

lemma push_args_spec:
  assumes "stackTop t + length as \<le> length (stack t)" "n \<le> length (heap t)"
  shows "\<exists>t' vs k. push_args as t = Inr t' \<and> stackTop t' = stackTop t + length as \<and> length (stack t') = length (stack t)
    \<and> take (stackTop t + length as) (stack t') = take (stackTop t) (stack t) @ vs \<and> heap t' = heap t @ k
    \<and> list_all2 (placed n (heap t')) as vs \<and> frames t' = frames t"
  using assms
proof (induction as arbitrary: t)
  case (Cons x as)
  obtain v h where v: "(case x of Inl w \<Rightarrow> (w, []) | Inr ws \<Rightarrow> (Ref (length (heap t)), [O_List ws])) = (v, h)"
    by (cases "(case x of Inl w \<Rightarrow> (w, []) | Inr ws \<Rightarrow> (Ref (length (heap t)), [O_List ws]))")
  obtain t1 where t1: "t1 = t\<lparr>heap := heap t @ h, stack := (stack t)[stackTop t := v], stackTop := stackTop t + 1\<rparr>" by simp
  have step: "push_args (x # as) t = push_args as t1"
  proof (cases x)
    case (Inl w)
    then have "v = w" "h = []" using v by simp_all
    then show ?thesis using Cons(2) Inl by (simp add: push_def t1)
  next
    case (Inr ws)
    then have "v = Ref (length (heap t))" "h = [O_List ws]" using v by simp_all
    then show ?thesis using Cons(2) Inr by (simp add: push_def alloc_def t1)
  qed
  have "stackTop t1 + length as \<le> length (stack t1)" "n \<le> length (heap t1)" using Cons(2,3) by (simp_all add: t1)
  from Cons(1) [OF this] obtain t2 vs k where t2: "push_args as t1 = Inr t2" "stackTop t2 = stackTop t1 + length as"
    "length (stack t2) = length (stack t1)" "take (stackTop t1 + length as) (stack t2) = take (stackTop t1) (stack t1) @ vs"
    "heap t2 = heap t1 @ k" "list_all2 (placed n (heap t2)) as vs" "frames t2 = frames t1" by blast
  have ht: "heap t1 = heap t @ h" by (simp add: t1)
  have "placed n (heap t1) x v"
  proof (cases x)
    case (Inl w)
    then show ?thesis using v by (simp add: placed_def)
  next
    case (Inr ws)
    then have "v = Ref (length (heap t))" "h = [O_List ws]" using v by simp_all
    then show ?thesis using Inr ht Cons(3) by (simp add: placed_def obj_at_def)
  qed
  then have "placed n (heap t2) x v" unfolding t2(5) by (rule placed_extend)
  moreover have "take (stackTop t1) (stack t1) = take (stackTop t) (stack t) @ [v]"
    using Cons(2) by (simp add: t1 take_Suc_conv_app_nth)
  moreover have "heap t1 = heap t @ h" "stackTop t1 = Suc (stackTop t)" "length (stack t1) = length (stack t)"
    "frames t1 = frames t" by (simp_all add: t1)
  ultimately show ?case
    using t2 step by (intro exI [of _ t2] exI [of _ "v # vs"] exI [of _ "h @ k"]) simp
qed simp

lemma reorder_args_rel:
  assumes "list_all2 P xs xs'" "reorder_args r xs = Some ys"
  shows "\<exists>ys'. reorder_args r xs' = Some ys' \<and> list_all2 P ys ys'"
proof (cases "r = []")
  case False
  have len: "length xs' = length xs" using assms(1) by (simp add: list_all2_lengthD)
  have ok: "length r \<le> length xs" "\<forall>p \<in> set r. 0 \<le> p \<and> p < int (length r)"
    and ys: "ys = take (length xs - length r) xs @ map (\<lambda>p. drop (length xs - length r) xs ! nat p) r"
    using assms(2) False by (auto simp: reorder_args_def Let_def split: if_splits)
  have "list_all2 P (map (\<lambda>p. drop (length xs - length r) xs ! nat p) r) (map (\<lambda>p. drop (length xs - length r) xs' ! nat p) r)"
  proof (rule list_all2_all_nthI)
    fix i assume i: "i < length (map (\<lambda>p. drop (length xs - length r) xs ! nat p) r)"
    then have "0 \<le> r ! i" "r ! i < int (length r)" using ok(2) by (auto dest: nth_mem)
    then have "length xs - length r + nat (r ! i) < length xs" using ok(1) by linarith
    then show "P (map (\<lambda>p. drop (length xs - length r) xs ! nat p) r ! i) (map (\<lambda>p. drop (length xs - length r) xs' ! nat p) r ! i)"
      using i ok(1) len assms(1) by (simp add: list_all2_conv_all_nth)
  qed simp
  then have "list_all2 P ys (take (length xs - length r) xs' @ map (\<lambda>p. drop (length xs - length r) xs' ! nat p) r)"
    unfolding ys by (intro list_all2_appendI list_all2_takeI assms(1))
  then show ?thesis using False ok len by (auto simp: reorder_args_def Let_def not_less not_le)
qed (use assms in \<open>simp add: reorder_args_def\<close>)

lemma popN_total:
  assumes "n \<le> stackTop t"
  shows "\<exists>t'. popN n t = Inr t'"
proof -
  have "popN n t \<noteq> Inl e" for e
    using assms by (induction n arbitrary: t) (auto simp: pop_def Let_def)
  then show ?thesis by (cases "popN n t") auto
qed

lemma arg_values_length:
  "arg_values s ps vs = Inr ws \<Longrightarrow> length vs = length ps \<Longrightarrow> length ws = length vs"
  by (induction s ps vs arbitrary: ws rule: arg_values.induct) (auto simp: seq_then_eq_Inr)

lemma call_closure_starts:
  assumes "wf_thread t" "obj_at (heap t) c = Some (O_Closure fa us)" "obj_at (heap t) fa = Some (O_Function fn)"
    and "fn_type fn = Some ty" "rt_func ty = Some g"
    and "argc = unat (argCount cs)" "argc < stackTop t" "length (frames t) \<le> callFrameLimit"
    and "call_setup (Inl (Sc SNil)) (\<lambda>vs. Inr (map given vs)) cs ty (fn_arity fn)
      (map Inl (take argc (drop (stackTop t - argc) (stack t)))) = Inr placement"
    and "fa_defaults placement = []" "frame_start dflt (fn_arity fn) placement = Some ys"
    and "stackTop t - argc + length (fa_args placement) \<le> length (stack t)"
  shows "\<exists>t1 t2 f vs. call_closure callFrameLimit c fn cs t = Inr t1
    \<and> start_frame t1 = convert_params (stackTop t - argc) (ft_params g) (case frames t of [] \<Rightarrow> False | f # fs \<Rightarrow> fr_strict f) t2
    \<and> frames t2 = f # frames t \<and> slots f = stackTop t - argc - 1 \<and> ip f = 0 \<and> fr_closure f = c
    \<and> take (stackTop t2) (stack t2) = take (stackTop t - argc) (stack t) @ vs \<and> list_all2 (placed (length (heap t)) (heap t2)) ys vs
    \<and> take (length (heap t)) (heap t2) = heap t \<and> stackTop t2 \<le> length (stack t2)"
proof -
  obtain t1 where p: "popN argc t = Inr t1" using popN_total [of argc t] assms(7) by auto
  note ps = popN_spec [OF p] and pf = popN_fields [OF p]
  have top1: "stackTop t1 = stackTop t - argc" using ps(1) by simp
  have "stackTop t1 + length (fa_args placement) \<le> length (stack t1)" "length (heap t) \<le> length (heap t1)"
    using assms(12) ps(1,3) pf(2) by simp_all
  from push_args_spec [OF this] obtain t2 vs k where t2: "push_args (fa_args placement) t1 = Inr t2"
    "stackTop t2 = stackTop t1 + length (fa_args placement)" "length (stack t2) = length (stack t1)"
    "take (stackTop t1 + length (fa_args placement)) (stack t2) = take (stackTop t1) (stack t1) @ vs"
    "heap t2 = heap t1 @ k" "list_all2 (placed (length (heap t)) (heap t2)) (fa_args placement) vs" "frames t2 = frames t1" by blast
  have lv: "length vs = length (fa_args placement)" using t2(6) by (simp add: list_all2_lengthD)
  obtain f where f: "f = (new_frame c fn (stackTop t2 - length (fa_args placement) - 1) (fa_reorder placement) t2)"  by simp
  obtain f' where f': "f' = f\<lparr>parent := (if frames t = [] then None else Some (length (frames t) - 1))\<rparr>" by simp
  obtain t3 where t3: "t3 = (pushFrame f t2)\<lparr>frameStart := True\<rparr>" by simp
  have call: "call_closure callFrameLimit c fn cs t = Inr t3"
    using assms(4,6,8-10) p t2(1,7) pf(1) by (simp add: call_closure_def Let_def t3 f)
  have fr: "frames t3 = f' # frames t" using t2(7) pf(1) by (simp add: t3 pushFrame_def f')
  have h3: "heap t3 = heap t @ k" "stack t3 = stack t2" "stackTop t3 = stackTop t2" using t2(5) pf(2) by (simp_all add: t3 pushFrame_def)
  have ext: "obj_at (heap t @ k) a = Some x" if "obj_at (heap t) a = Some x" for a x
    using that by (auto simp: obj_at_def nth_append split: if_splits)
  have cf: "current_fn t3 = Inr fn"
    using ext [OF assms(2)] ext [OF assms(3)] by (simp add: current_fn_def fr h3 f' f new_frame_def)
  have sl: "slots f' = stackTop t - argc - 1" "slots f' + 1 = stackTop t1"
    using t2(2) top1 assms(7) by (simp_all add: f' f new_frame_def)
  have tl: "tailArgValues f' = []" "reorderArgs f' = fa_reorder placement" by (simp_all add: f' f new_frame_def)
  have "reorder_args (fa_reorder placement) (fa_args placement) = Some ys"
    using assms(10,11) by (simp add: frame_start_def Let_def)
  from reorder_args_rel [OF t2(6) this] obtain ws where ws: "reorder_args (fa_reorder placement) vs = Some ws"
    "list_all2 (placed (length (heap t)) (heap t2)) ys ws" by blast
  have "\<exists>t4. start_frame t3 = (case fn_type fn of None \<Rightarrow> Inr t4 | Some ty \<Rightarrow> (case rt_func ty of None \<Rightarrow> Inr t4
        | Some g \<Rightarrow> convert_params (slots f' + 1) (ft_params g) (callerStrict f') t4)) \<and> stackTop t4 = stackTop t3 \<and> length (stack t4) = length (stack t3)
    \<and> take (stackTop t3) (stack t4) = take (slots f' + 1) (stack t3) @ ws
    \<and> frames t4 = f'\<lparr>tailArgValues := [], reorderArgs := []\<rparr> # frames t \<and> heap t4 = heap t3"
  proof (rule start_frame_places [OF fr cf])
    show "stackTop t3 = slots f' + 1 + length vs" using h3 t2(2) sl lv by simp
    show "stackTop t3 \<le> length (stack t3)" using h3 t2(2,3) assms(12) ps(3) top1 by simp
    have "take (length vs) (drop (stackTop t1) (stack t2)) = drop (stackTop t1) (take (stackTop t1 + length vs) (stack t2))"
      by (simp add: take_drop add.commute)
    also have "\<dots> = vs" using t2(4) lv assms(1) ps(1,3) by (simp add: wf_thread_def)
    finally show "take (length vs) (drop (slots f' + 1) (stack t3)) = vs" using h3 sl by simp
    show "reorder_args (reorderArgs f') (assign_tail (fn_arity fn - length (tailArgValues f')) (tailArgValues f') vs) = Some ws"
      using ws(1) tl by simp
  qed (use tl in simp_all)
  then obtain t4 where t4: "start_frame t3 = convert_params (slots f' + 1) (ft_params g) (callerStrict f') t4" "stackTop t4 = stackTop t3" "take (stackTop t3) (stack t4) = take (slots f' + 1) (stack t3) @ ws"
    "frames t4 = f'\<lparr>tailArgValues := [], reorderArgs := []\<rparr> # frames t" "heap t4 = heap t3"
    "length (stack t4) = length (stack t3)" using assms(4,5) by auto
  have "take (stackTop t1) (stack t2) = take (stackTop t - argc) (stack t)"
  proof -
    have "take (stackTop t1) (stack t2) = take (stackTop t1) (take (stackTop t1 + length (fa_args placement)) (stack t2))" by simp
    also have "\<dots> = take (stackTop t1) (stack t1)" unfolding t2(4) using assms(1) ps(1,3) by (simp add: wf_thread_def)
    also have "\<dots> = take (stackTop t1) (stack t)" using ps(3,4) by (intro nth_equalityI) auto
    finally show ?thesis by (simp add: top1)
  qed
  then have "take (stackTop t4) (stack t4) = take (stackTop t - argc) (stack t) @ ws" using t4(2,3) h3 sl(2) by simp
  moreover have "callerStrict f' = (case frames t of [] \<Rightarrow> False | f # fs \<Rightarrow> fr_strict f)"
    using t2(7) pf(1) by (simp add: f' f new_frame_def split: list.split)
  moreover have "stackTop t4 \<le> length (stack t4)" using t4(2,6) h3 t2(2,3) assms(12) ps(3) top1 by simp
  moreover have "slots f' + 1 = stackTop t - argc" using sl(2) top1 by simp
  ultimately show ?thesis
    using call t4(1,4,5) sl(1) ws(2) h3(1) t2(5) pf(2)
    by (intro exI [of _ t3] exI [of _ t4] exI [of _ "f'\<lparr>tailArgValues := [], reorderArgs := []\<rparr>"] exI [of _ ws])
      (simp add: f' f new_frame_def)
qed

section \<open>Properties\<close>

text \<open>
  C2. In every state the machine can reach, whatever the bytecode, the open captured variables are in
  strictly decreasing stack order, no slot is captured twice, the list holds exactly the upvalues
  that still point into the stack, and those and the stack top stay within the buffer.
\<close>

theorem open_upvalues_ordered:
  assumes "reach_from fresh_thread (step callFrameLimit) t"
  shows "sorted_wrt (\<lambda>a b. uslot (heap t) a > uslot (heap t) b) (openUpvalues t)
    \<and> (\<forall>a. a \<in> set (openUpvalues t) \<longleftrightarrow> upvalue_slot (heap t) a \<noteq> None)
    \<and> (\<forall>a b i. upvalue_slot (heap t) a = Some i \<and> upvalue_slot (heap t) b = Some i \<longrightarrow> a = b)
    \<and> (\<forall>a i. upvalue_slot (heap t) a = Some i \<longrightarrow> i < length (stack t)) \<and> stackTop t \<le> length (stack t)"
proof -
  have w: "wf_thread t" using assms by (rule vm.reachable_inv)
  then have s: "sorted_wrt (\<lambda>a b. uslot (heap t) a > uslot (heap t) b) (openUpvalues t)"
    and m: "\<And>a i. upvalue_slot (heap t) a = Some i \<Longrightarrow> a \<in> set (openUpvalues t)"
    and b: "\<And>a. a \<in> set (openUpvalues t) \<Longrightarrow> \<exists>i < length (stack t). upvalue_slot (heap t) a = Some i"
    and top: "stackTop t \<le> length (stack t)"
    by (auto simp: wf_thread_def wf_open_def)
  have inj: "a = b" if u: "upvalue_slot (heap t) a = Some i" "upvalue_slot (heap t) b = Some i" for a b i
  proof -
    obtain x where "x < length (openUpvalues t)" "openUpvalues t ! x = a" using m [OF u(1)] by (auto simp: in_set_conv_nth)
    moreover obtain y where "y < length (openUpvalues t)" "openUpvalues t ! y = b" using m [OF u(2)] by (auto simp: in_set_conv_nth)
    moreover have "uslot (heap t) a = uslot (heap t) b" using u by (simp add: uslot_def)
    ultimately show ?thesis using s by (metis less_irrefl nat_neq_iff sorted_wrt_nth_less)
  qed
  have mem: "a \<in> set (openUpvalues t) \<longleftrightarrow> upvalue_slot (heap t) a \<noteq> None" for a using m b by fastforce
  have bound: "i < length (stack t)" if "upvalue_slot (heap t) a = Some i" for a i using b [OF m [OF that]] that by simp
  show ?thesis by (intro conjI allI impI s mem top) (use inj bound in blast)+
qed

lemma fast_paths:
  assumes "stackTop t \<le> length (stack t)"
  shows "op_Add t = add_general t \<and> op_Subtract t = binaryOp (on_scalars subtract) t
    \<and> op_Multiply t = binaryOp (on_scalars multiply) t
    \<and> op_Equal t = binaryOp (\<lambda>l r. Done (SBool (equals l r))) t
    \<and> op_NotEqual t = binaryOp (\<lambda>l r. Done (SBool (\<not> equals l r))) t
    \<and> op_Greater t = binaryOp (\<lambda>l r. compare_out (greater l r)) t
    \<and> op_Less t = binaryOp (\<lambda>l r. compare_out (less l r)) t
    \<and> op_GreaterEqual t = binaryOp (\<lambda>l r. compare_out (greaterEqual l r)) t
    \<and> op_LessEqual t = binaryOp (\<lambda>l r. compare_out (lessEqual l r)) t"
proof -
  note g = with_fast_general [OF assms]
  have ne: "Done (SBool (\<not> equals (Sc a) (Sc b))) = Done v"
    if h: "fast_path (\<lambda>x y. SBool (x \<noteq> y)) (\<lambda>x y. SBool (\<not> deq x y)) a b = Some v" for a b v
  proof -
    obtain c where "fast_path (\<lambda>x y. SBool (x = y)) (\<lambda>x y. SBool (deq x y)) a b = Some (SBool c)" "v = SBool (\<not> c)"
      using fast_path_not [OF h] by blast
    then show ?thesis by (auto dest!: fast_equal)
  qed
  have "op_Subtract t = binaryOp (on_scalars subtract) t" unfolding op_Subtract_def fast_arith_def
    by (rule g) (simp add: on_scalars_def fast_subtract)
  moreover have "op_Multiply t = binaryOp (on_scalars multiply) t" unfolding op_Multiply_def fast_arith_def
    by (rule g) (simp add: on_scalars_def fast_multiply)
  moreover have "op_Equal t = binaryOp (\<lambda>l r. Done (SBool (equals l r))) t" unfolding op_Equal_def fast_compare_def
    by (rule g) (auto dest!: fast_equal)
  moreover have "op_NotEqual t = binaryOp (\<lambda>l r. Done (SBool (\<not> equals l r))) t" unfolding op_NotEqual_def fast_compare_def
    by (rule g) (rule ne)
  moreover have "op_Greater t = binaryOp (\<lambda>l r. compare_out (greater l r)) t" unfolding op_Greater_def fast_compare_def greater_def
    by (rule g) (rule fast_comparison)
  moreover have "op_Less t = binaryOp (\<lambda>l r. compare_out (less l r)) t" unfolding op_Less_def fast_compare_def less_def
    by (rule g) (rule fast_comparison)
  moreover have "op_GreaterEqual t = binaryOp (\<lambda>l r. compare_out (greaterEqual l r)) t" unfolding op_GreaterEqual_def fast_compare_def greaterEqual_def
    by (rule g) (rule fast_comparison)
  moreover have "op_LessEqual t = binaryOp (\<lambda>l r. compare_out (lessEqual l r)) t" unfolding op_LessEqual_def fast_compare_def lessEqual_def
    by (rule g) (rule fast_comparison)
  ultimately show ?thesis using add_fast_general [OF assms] by blast
qed

text \<open>
  C6. The fast paths of the interpreter change nothing: on well-formed threads each of the nine operators
  behaves, also in what it leaves in the stack buffer, as its general path alone, so an int result
  that leaves 32 bits is boxed and mixed operands become reals in the same way.
\<close>

theorem fast_paths_agree:
  assumes "wf_thread t"
  shows "op_Add t = add_general t \<and> op_Subtract t = binaryOp (on_scalars subtract) t
    \<and> op_Multiply t = binaryOp (on_scalars multiply) t
    \<and> op_Equal t = binaryOp (\<lambda>l r. Done (SBool (equals l r))) t
    \<and> op_NotEqual t = binaryOp (\<lambda>l r. Done (SBool (\<not> equals l r))) t
    \<and> op_Greater t = binaryOp (\<lambda>l r. compare_out (greater l r)) t
    \<and> op_Less t = binaryOp (\<lambda>l r. compare_out (less l r)) t
    \<and> op_GreaterEqual t = binaryOp (\<lambda>l r. compare_out (greaterEqual l r)) t
    \<and> op_LessEqual t = binaryOp (\<lambda>l r. compare_out (lessEqual l r)) t"
  by (rule fast_paths) (use assms in \<open>simp add: wf_thread_def\<close>)

text \<open>
  C5. A positional call that passes every parameter.  The call succeeds and makes one new frame above
  the caller's stack, whose part below the callee stays as it was.  Starting the frame converts the
  arguments of parameters with a declared \<open>bool\<close>, \<open>byte\<close>, \<open>int\<close> or \<open>real\<close> type, in the mode of the
  caller, and puts them into the slots in parameter order; the arguments beyond the regular
  parameters of a variadic function are, unconverted, the elements of one fresh list.  The first
  conversion that fails ends the start with its error.  A call that leaves a parameter to its default
  is not covered here, and an argument for a parameter of another declared type is outside the model.
\<close>

theorem call_refines_binding:
  assumes "wf_thread t" "obj_at (heap t) c = Some (O_Closure fa us)" "obj_at (heap t) fa = Some (O_Function fn)"
    and "fn_type fn = Some (RType BFunc cst (Some g) ob)" "fn_arity fn = regularParamCount g" "variadic_last g"
    and "allPositional cs" "argc = unat (argCount cs)" "argc \<le> 127" "regularParamCount g \<le> 126"
    and "if hasVariadic g then regularParamCount g \<le> argc else regularParamCount g = argc"
    and "argc < stackTop t" "stackTop t < length (stack t)" "length (frames t) \<le> callFrameLimit"
    and "given_args = take argc (drop (stackTop t - argc) (stack t))"
  shows "\<exists>t1. call_closure callFrameLimit c fn cs t = Inr t1
    \<and> (case arg_values (case frames t of [] \<Rightarrow> False | f # fs \<Rightarrow> fr_strict f)
          (take (regularParamCount g) (ft_params g)) (take (regularParamCount g) given_args) of
        Inl e \<Rightarrow> start_frame t1 = Inl e
      | Inr ws \<Rightarrow> (\<exists>t2 f rest. start_frame t1 = Inr t2 \<and> frames t2 = f # frames t
          \<and> slots f = stackTop t - argc - 1 \<and> ip f = 0 \<and> fr_closure f = c
          \<and> take (stackTop t2) (stack t2) = take (stackTop t - argc) (stack t) @ ws @ rest
          \<and> (if hasVariadic g then \<exists>a. rest = [Ref a] \<and> length (heap t) \<le> a
               \<and> obj_at (heap t2) a = Some (O_List (drop (regularParamCount g) given_args)) else rest = [])
          \<and> take (length (heap t)) (heap t2) = heap t))"
proof -
  let ?s = "case frames t of [] \<Rightarrow> False | f # fs \<Rightarrow> fr_strict f"
  let ?n = "regularParamCount g"
  let ?fa = "map Inl (take ?n given_args) @ (if hasVariadic g then [Inr (drop ?n given_args)] else [])"
  have len: "length given_args = argc" using assms(1,12,13,15) by simp
  have place: "call_setup (Inl (Sc SNil)) (\<lambda>vs. Inr (map given vs)) cs (RType BFunc cst (Some g) ob) (fn_arity fn)
      (map Inl given_args) = Inr \<lparr>fa_args = ?fa, fa_reorder = [], fa_defaults = []\<rparr>"
    unfolding assms(5) by (subst call_setup_positional) (use assms(6-11) len in \<open>auto simp: take_map drop_map given_def comp_def\<close>)
  have fs: "frame_start (\<lambda>_. Inl (Sc SNil)) (fn_arity fn) \<lparr>fa_args = ?fa, fa_reorder = [], fa_defaults = []\<rparr> = Some ?fa"
    by (simp add: frame_start_def reorder_args_def)
  have room: "stackTop t - argc + length ?fa \<le> length (stack t)" using assms(11-13) len by (auto split: if_splits)
  note starts = call_closure_starts [OF assms(1-4) _ assms(8,12,14), of g "\<lparr>fa_args = ?fa, fa_reorder = [], fa_defaults = []\<rparr>"
      "\<lambda>_. Inl (Sc SNil)" ?fa]
  obtain t1 t2 f vs where r: "call_closure callFrameLimit c fn cs t = Inr t1"
    "start_frame t1 = convert_params (stackTop t - argc) (ft_params g) ?s t2"
    "frames t2 = f # frames t" "slots f = stackTop t - argc - 1" "ip f = 0" "fr_closure f = c"
    "take (stackTop t2) (stack t2) = take (stackTop t - argc) (stack t) @ vs" "list_all2 (placed (length (heap t)) (heap t2)) ?fa vs"
    "take (length (heap t)) (heap t2) = heap t" "stackTop t2 \<le> length (stack t2)"
    using starts place fs room by (auto simp: assms(15))
  obtain xs rest where vs: "vs = xs @ rest" "list_all2 (placed (length (heap t)) (heap t2)) (map Inl (take ?n given_args)) xs"
    "list_all2 (placed (length (heap t)) (heap t2)) (if hasVariadic g then [Inr (drop ?n given_args)] else []) rest"
    using r(8) by (auto simp: list_all2_append1)
  have xs: "xs = take ?n given_args"
    using vs(2) by (intro nth_equalityI) (auto simp: list_all2_map1 placed_def list_all2_conv_all_nth min_def split: if_splits)
  have ps: "length (take ?n (ft_params g)) = ?n" using variadic_only_last [of g] by (cases "hasVariadic g") simp_all
  have lx: "length xs = length (take ?n (ft_params g))" using xs ps len assms(11) by (auto split: if_splits)
  obtain pre where pre: "pre = take (stackTop t - argc) (stack t)" by simp
  have lp: "length pre = stackTop t - argc" using assms(12,13) by (simp add: pre)
  obtain post where post: "stack t2 = pre @ xs @ rest @ post" using r(7) vs(1) pre by (metis append_take_drop_id append_assoc)
  have top: "stackTop t2 = length pre + length vs"
    using arg_cong [OF r(7), of length] r(10) pre lp by simp
  have conv: "start_frame t1 = seq_then (arg_values ?s (take ?n (ft_params g)) xs) (\<lambda>ws. Inr (t2\<lparr>stack := pre @ ws @ rest @ post\<rparr>))"
    unfolding r(2) convert_params_regular [of _ g] by (rule convert_params_values [OF post lp lx])
  show ?thesis
  proof (cases "arg_values ?s (take ?n (ft_params g)) xs")
    case (Inl e)
    then show ?thesis using r(1) conv by (simp flip: xs)
  next
    case (Inr ws)
    have "length ws = length xs" using arg_values_length [OF Inr lx] .
    then have "take (stackTop t2) (pre @ ws @ rest @ post) = pre @ ws @ rest" by (simp add: top vs(1))
    moreover have "if hasVariadic g then \<exists>a. rest = [Ref a] \<and> length (heap t) \<le> a
        \<and> obj_at (heap t2) a = Some (O_List (drop ?n given_args)) else rest = []"
      using vs(3) by (auto simp: list_all2_Cons1 placed_def)
    ultimately show ?thesis using r(1,3-6,9) conv Inr pre by (simp flip: xs)
  qed
qed

text \<open>A program of two instructions that captures its first local in a closure.\<close>

definition capture_program :: thread where
  "capture_program = \<lparr>stack = Ref 1 # replicate 7 (Sc SNil), stackTop = 1,
     frames = [\<lparr>fr_closure = 1, ip = 0, slots = 0, parent = None, fr_strict = False, callerStrict = False,
       tailArgValues = [], reorderArgs = [], exceptionHandlers = [], unwindOnReturn = False\<rparr>],
     openUpvalues = [],
     heap = [O_Function \<lparr>fn_code = [6, 42, 0, 1, 1], fn_constants = [Ref 2], fn_arity = 0, fn_upvalueCount = 0,
         fn_strict = False, fn_type = None, fn_paramDefaultFunc = []\<rparr>,
       O_Closure 0 [],
       O_Function \<lparr>fn_code = [44], fn_constants = [], fn_arity = 0, fn_upvalueCount = 1,
         fn_strict = False, fn_type = None, fn_paramDefaultFunc = []\<rparr>],
     frameStart = False, modl = modl (sample_thread 0)\<rparr>"

lemmas run_simps = turn_def execute_instruction_def readByte_def frame_of_def current_fn_def obj_at_def set_ip_def with_frame_def
  DoubleByteArg_def instructions_def op_push_def push_def op_Closure_def readConstant_def readArg_def function_at_def alloc_def
  captureUpvalue_def frame_upvalue_def upvalue_slot_def

lemma capture_program_runs:
  "\<exists>t1 t2. turn 8 capture_program = Inr t1 \<and> turn 8 t1 = Inr t2 \<and> openUpvalues t2 = [4]"
  by (simp add: capture_program_def run_simps)

lemma capture_program_fresh: "fresh_thread capture_program"
  by (auto simp: fresh_thread_def capture_program_def upvalue_slot_def obj_at_def nth_Cons split: option.splits nat.splits)

theorem open_upvalues_ordered_witness:
  "\<exists>t. reach_from fresh_thread (step 8) t \<and> openUpvalues t = [4] \<and> upvalue_slot (heap t) 4 \<noteq> None
     \<and> stackTop t \<le> length (stack t)"
proof -
  obtain t1 t2 where t: "turn 8 capture_program = Inr t1" "turn 8 t1 = Inr t2" "openUpvalues t2 = [4]"
    using capture_program_runs by blast
  have "reach_from fresh_thread (step 8) capture_program" by (rule reach_init) (rule capture_program_fresh)
  then have "reach_from fresh_thread (step 8) t1" by (rule reach_step) (rule step.turn [OF t(1)])
  then have r: "reach_from fresh_thread (step 8) t2" by (rule reach_step) (rule step.turn [OF t(2)])
  show ?thesis using open_upvalues_ordered [OF r] r t(3) by (intro exI [of _ t2]) auto
qed

theorem fast_paths_agree_witness:
  "op_Multiply ((sample_thread 1)\<lparr>stackTop := 7\<rparr>) = binaryOp (on_scalars multiply) ((sample_thread 1)\<lparr>stackTop := 7\<rparr>)
   \<and> (\<exists>t. op_Multiply ((sample_thread 1)\<lparr>stackTop := 7\<rparr>) = Inr t \<and> stackTop t = 6 \<and> stack t ! 5 = Sc (SInt 30))"
proof -
  have "wf_thread ((sample_thread 1)\<lparr>stackTop := 7\<rparr>)"
    using sample_wf [of 1] by (simp add: wf_thread_def) (simp add: sample_thread_def)
  moreover have "\<exists>t. op_Multiply ((sample_thread 1)\<lparr>stackTop := 7\<rparr>) = Inr t \<and> stackTop t = 6 \<and> stack t ! 5 = Sc (SInt 30)"
    by (simp add: op_Multiply_def fast_arith_def with_fast_def peek_def poke_def op_Pop_def pop_def sample_thread_def
        fast_path_def isInlineInt_def fitsInInt32_def unchecked_int_def Let_def is_obj_def upt_rec)
  ultimately show ?thesis using fast_paths_agree by blast
qed

text \<open>A thread about to call \<open>f(true, 8, 9)\<close> for \<open>f(a: int, ...rest)\<close>.\<close>

definition variadic_fn :: fn where
  "variadic_fn = \<lparr>fn_code = [44], fn_constants = [], fn_arity = 1, fn_upvalueCount = 0, fn_strict = False,
     fn_type = Some (RType BFunc False (Some (FuncType False
       [Some (ParamType [97] 97 (Some (Some (RType BInt False None None))) False False),
        Some (ParamType [98] 98 None False True)] [])) None),
     fn_paramDefaultFunc = []\<rparr>"

definition call_thread :: thread where
  "call_thread = \<lparr>stack = [Ref 1, Ref 1, Sc (SBool True), Sc (SInt 8), Sc (SInt 9), Sc SNil, Sc SNil, Sc SNil], stackTop = 5,
     frames = [], openUpvalues = [], heap = [O_Function variadic_fn, O_Closure 0 []], frameStart = False,
     modl = modl (sample_thread 0)\<rparr>"

theorem call_refines_binding_witness:
  "\<exists>t1 t2 a. call_closure 8 1 variadic_fn \<lparr>argCount = 3, allPositional = True, args = []\<rparr> call_thread = Inr t1
     \<and> start_frame t1 = Inr t2 \<and> take (stackTop t2) (stack t2) = [Ref 1, Ref 1, Sc (SInt 1), Ref a]
     \<and> obj_at (heap t2) a = Some (O_List [Sc (SInt 8), Sc (SInt 9)])"
proof -
  let ?cs = "\<lparr>argCount = 3, allPositional = True, args = []\<rparr>"
  let ?int = "Some (ParamType [97] 97 (Some (Some (RType BInt False None None))) False False)"
  let ?g = "FuncType False [?int, Some (ParamType [98] 98 None False True)] []"
  have w: "wf_thread call_thread"
    by (auto simp: wf_thread_def call_thread_def wf_open_def upvalue_slot_def obj_at_def nth_Cons split: option.splits nat.splits if_splits)
  have o: "obj_at (heap call_thread) 1 = Some (O_Closure 0 [])" "obj_at (heap call_thread) 0 = Some (O_Function variadic_fn)"
    by (simp_all add: call_thread_def obj_at_def)
  have ty: "fn_type variadic_fn = Some (RType BFunc False (Some ?g) None)" by (simp add: variadic_fn_def)
  have n: "hasVariadic ?g" "regularParamCount ?g = 1" "fn_arity variadic_fn = regularParamCount ?g"
    by (simp_all add: hasVariadic_def regularParamCount_def variadic_fn_def)
  have v: "variadic_last ?g" by (simp add: variadic_last_def n(2) variadic_at_def)
  have vs: "arg_values False [?int] [Sc (SBool True)] = Inr [Sc (SInt 1)]"
    by (simp add: arg_value_def param_target_def seq_then_def conv_defs)
  show ?thesis
    using call_refines_binding [OF w o ty n(3) v, of ?cs 3 8 "[Sc (SBool True), Sc (SInt 8), Sc (SInt 9)]"] n(1,2) vs
    by (force simp: call_thread_def)
qed

end
