(* ===== verification/Ast_Compile.thy ===== *)
theory Ast_Compile
  imports Code_Emitter Ieee_Double
begin

text \<open>
  The visitors of \<open>compiler/RoxalCompiler.cpp\<close> over the part of the AST (\<open>core/AST.h\<close>) that has no
  declared types: literals, variables, operators, assignments to variables, string interpolation,
  lists, variable, constant and function declarations, blocks, \<open>if\<close>, \<open>while\<close>, \<open>break\<close>, \<open>continue\<close>,
  \<open>label\<close>, \<open>jump\<close> and \<open>return\<close>.  A visitor is a \<open>pass\<close>, a function on the compiler's state that may
  fail; one that visits children takes their passes as arguments, and \<open>visit_expr\<close> and \<open>visit_stmt\<close>
  are the double dispatch.  A node carries its source position.  Names resolve as outside any type
  declaration and any \<open>with\<close>.  The compiler is not in REPL mode, and constants are not suffixed.
\<close>

section \<open>Abstract syntax\<close>

datatype num_lit = N_Int32 u32 | N_Int64 "64 word" | N_Real double

datatype unary_op = U_Negate | U_Not | U_BitNot

datatype binary_op =
  B_Add | B_Subtract | B_Multiply | B_Divide | B_Modulo | B_And | B_Or | B_BitAnd | B_BitOr | B_BitXor
| B_Equal | B_NotEqual | B_Is | B_In | B_NotIn | B_LessThan | B_GreaterThan | B_LessOrEqual | B_GreaterOrEqual

datatype expr =
  E_Nil pos
| E_Bool pos bool
| E_Num pos num_lit
| E_Str pos ustring
| E_Variable pos ustring
| E_Unary pos unary_op expr
| E_Binary pos binary_op expr expr
| E_Assign pos ustring expr
| E_Interp pos "(ustring + expr) list"
| E_List pos "expr list"

datatype stmt =
  S_VarDecl pos ustring "expr option"
| S_ConstDecl pos ustring expr
| S_FuncDecl pos ustring pos bool "(pos \<times> ustring) list" pos "stmt list"
| S_Expr pos expr
| S_If pos expr pos "stmt list" "(pos \<times> stmt list) option"
| S_While pos expr pos "stmt list"
| S_Break pos
| S_Continue pos
| S_Return pos "expr option"
| S_Label pos ustring
| S_Jump pos ustring

fun stmt_pos :: "stmt \<Rightarrow> pos" where
  "stmt_pos (S_VarDecl p _ _) = p"
| "stmt_pos (S_ConstDecl p _ _) = p"
| "stmt_pos (S_FuncDecl p _ _ _ _ _ _) = p"
| "stmt_pos (S_Expr p _) = p"
| "stmt_pos (S_If p _ _ _ _) = p"
| "stmt_pos (S_While p _ _ _) = p"
| "stmt_pos (S_Break p) = p"
| "stmt_pos (S_Continue p) = p"
| "stmt_pos (S_Return p _) = p"
| "stmt_pos (S_Label p _) = p"
| "stmt_pos (S_Jump p _) = p"

section \<open>Opcodes\<close>

abbreviation (input) OpConstTrue :: nat where "OpConstTrue \<equiv> 3"
abbreviation (input) OpConstFalse :: nat where "OpConstFalse \<equiv> 4"
abbreviation (input) OpIs :: nat where "OpIs \<equiv> 9"
abbreviation (input) OpIn :: nat where "OpIn \<equiv> 10"
abbreviation (input) OpNegate :: nat where "OpNegate \<equiv> 20"
abbreviation (input) OpAnd :: nat where "OpAnd \<equiv> 21"
abbreviation (input) OpOr :: nat where "OpOr \<equiv> 22"
abbreviation (input) OpBitNot :: nat where "OpBitNot \<equiv> 26"
abbreviation (input) OpStmtAction :: nat where "OpStmtAction \<equiv> 29"
abbreviation (input) OpJumpIfFalse :: nat where "OpJumpIfFalse \<equiv> 33"
abbreviation (input) OpJump :: nat where "OpJump \<equiv> 35"
abbreviation (input) OpGetModuleVar :: nat where "OpGetModuleVar \<equiv> 60"
abbreviation (input) OpSetModuleVar :: nat where "OpSetModuleVar \<equiv> 62"
abbreviation (input) OpSetNewModuleVar :: nat where "OpSetNewModuleVar \<equiv> 63"
abbreviation (input) OpGetUpvalue :: nat where "OpGetUpvalue \<equiv> 65"
abbreviation (input) OpSetUpvalue :: nat where "OpSetUpvalue \<equiv> 66"
abbreviation (input) OpSetLocal :: nat where "OpSetLocal \<equiv> 68"
abbreviation (input) OpNewList :: nat where "OpNewList \<equiv> 76"
abbreviation (input) OpMakeConst :: nat where "OpMakeConst \<equiv> 93"
abbreviation (input) OpToStringPart :: nat where "OpToStringPart \<equiv> 104"
abbreviation (input) OpConcat :: nat where "OpConcat \<equiv> 105"
abbreviation (input) OpAndShortCircuit :: nat where "OpAndShortCircuit \<equiv> 108"
abbreviation (input) OpOrShortCircuit :: nat where "OpOrShortCircuit \<equiv> 109"

section \<open>The state of the compiler\<close>

record loop_context =
  bodyScopeDepth :: int
  whileLoopStart :: nat
  breakOffsets :: "nat list"

record label_info =
  lb_name :: ustring
  lb_offset :: nat
  lb_liveLocalCount :: nat
  lb_scopeDepth :: int
  lb_blockPath :: "nat list"
  lb_guardDepth :: int

record pending_jump =
  pj_name :: ustring
  pj_popArgOffset :: nat
  pj_jumpArgOffset :: nat
  pj_liveLocalDepths :: "int list"
  pj_blockPath :: "nat list"
  pj_guardDepth :: int

text \<open>
  \<open>func\<close> is the innermost function scope and \<open>enclosing\<close> the others from there outward, of which only
  emission, locals and upvalues matter; the fields up to \<open>pendingJumps\<close> belong to the innermost
  function.  \<open>loopStack\<close> has its innermost loop first and belongs to the compiler.  \<open>compiled\<close> collects
  the finished functions.
\<close>

record compiler =
  func :: func_scope
  enclosing :: "func_scope list"
  inModuleFunction :: bool
  isProc :: bool
  strict :: bool
  guardDepth :: int
  labels :: "label_info list"
  pendingJumps :: "pending_jump list"
  loopStack :: "loop_context list"
  moduleVarLines :: "ustring \<rightharpoonup> int"
  moduleConstLines :: "ustring \<rightharpoonup> int"
  constVars :: "u32 list"
  compiled :: "func_scope list"

type_synonym pass = "compiler \<Rightarrow> compile_error + compiler"

definition then_do :: "pass \<Rightarrow> pass \<Rightarrow> pass" where "then_do f g cs = seq_then (f cs) g"

fun run_all :: "pass list \<Rightarrow> pass" where
  "run_all [] cs = Inr cs"
| "run_all (f # fs) cs = seq_then (f cs) (run_all fs)"

definition on_func :: "(func_scope \<Rightarrow> func_scope) \<Rightarrow> compiler \<Rightarrow> compiler" where
  "on_func f cs = cs\<lparr>func := f (func cs)\<rparr>"

definition currentChunk :: "compiler \<Rightarrow> chunk" where "currentChunk cs = fchunk (func cs)"

definition on_chunk :: "(chunk \<Rightarrow> chunk) \<Rightarrow> compiler \<Rightarrow> compiler" where
  "on_chunk f = on_func (\<lambda>fs. fs\<lparr>fchunk := f (fchunk fs)\<rparr>)"

definition try_chunk :: "(chunk \<Rightarrow> compile_error + chunk) \<Rightarrow> pass" where
  "try_chunk f cs = seq_then (f (currentChunk cs)) (\<lambda>c. Inr (on_chunk (\<lambda>_. c) cs))"

definition emit_op :: "pos \<Rightarrow> nat \<Rightarrow> compiler \<Rightarrow> compiler" where
  "emit_op p op = on_chunk (emitOp p op)"

definition emit_op_byte :: "pos \<Rightarrow> nat \<Rightarrow> byte \<Rightarrow> compiler \<Rightarrow> compiler" where
  "emit_op_byte p op b = on_chunk (emitBytes p (asByte op) b)"

definition emit_op_arg :: "pos \<Rightarrow> nat \<Rightarrow> u16 \<Rightarrow> compiler \<Rightarrow> compiler" where
  "emit_op_arg p op arg = on_chunk (emitOpArgsBytes p op arg)"

definition emit_jump :: "pos \<Rightarrow> nat \<Rightarrow> compiler \<Rightarrow> nat \<times> compiler" where
  "emit_jump p op cs =
     (case emitJump p op (currentChunk cs) of (at, c) \<Rightarrow> (at, on_chunk (\<lambda>_. c) cs))"

definition patch_jump :: "nat \<Rightarrow> pass" where "patch_jump at = try_chunk (patchJump at)"

definition emit_loop :: "pos \<Rightarrow> nat \<Rightarrow> pass" where "emit_loop p start = try_chunk (emitLoop p start)"

definition emit_constant :: "pos \<Rightarrow> rvalue \<Rightarrow> pass" where
  "emit_constant p v = try_chunk (emitConstant p (Const_Value v))"

definition identifier_constant :: "ustring \<Rightarrow> compiler \<Rightarrow> compile_error + (u16 \<times> compiler)" where
  "identifier_constant name cs =
     seq_then (identifierConstant name (func cs)) (\<lambda>(k, fs). Inr (k, cs\<lparr>func := fs\<rparr>))"

section \<open>Scopes\<close>

definition enter_local_scope :: "compiler \<Rightarrow> compiler" where
  "enter_local_scope = on_func enterLocalScope"

definition exit_local_scope :: "bool \<Rightarrow> pos \<Rightarrow> compiler \<Rightarrow> compiler" where
  "exit_local_scope dbg p = on_func (exitLocalScope dbg p)"

definition at_module_scope :: "compiler \<Rightarrow> bool" where
  "at_module_scope cs \<longleftrightarrow> scopeDepth (func cs) = 0"

text \<open>\<open>scanBlockDeclarations\<close>: the first declaration of a name is the one reserved.\<close>

definition scanBlockDeclarations :: "stmt list \<Rightarrow> func_scope \<Rightarrow> func_scope" where
  "scanBlockDeclarations ss fs =
     (if pendingLocals fs = [] then fs
      else fs\<lparr>pendingLocals := butlast (pendingLocals fs) @
             [fold (\<lambda>s m. case s of
                 S_VarDecl p name e \<Rightarrow> (if m name = None then m(name \<mapsto> nat (fst p)) else m)
               | S_ConstDecl p name e \<Rightarrow> (if m name = None then m(name \<mapsto> nat (fst p)) else m)
               | _ \<Rightarrow> m) ss (last (pendingLocals fs))]\<rparr>)"

definition update_last_local :: "(local_slot \<Rightarrow> local_slot) \<Rightarrow> compiler \<Rightarrow> compiler" where
  "update_last_local g = on_func (\<lambda>fs. fs\<lparr>locals := butlast (locals fs) @ [g (last (locals fs))]\<rparr>)"

text \<open>The module-scope part that \<open>declareVariable\<close> and the constant declarations share.\<close>

definition declared_in_module :: "ustring \<Rightarrow> compiler \<Rightarrow> bool" where
  "declared_in_module name cs \<longleftrightarrow> moduleVarLines cs name \<noteq> None \<or> moduleConstLines cs name \<noteq> None"

definition declareVariable :: "pos \<Rightarrow> ustring \<Rightarrow> pass" where
  "declareVariable p name cs =
     (if at_module_scope cs then
        (let cs1 = on_func (clearPendingDeclaration name) cs in
         if declared_in_module name cs1 then Inl Already_Declared
         else Inr (cs1\<lparr>moduleVarLines := (moduleVarLines cs1)(name \<mapsto> fst p)\<rparr>))
      else seq_then (declareLocal name [] (func cs)) (\<lambda>fs. Inr (cs\<lparr>func := fs\<rparr>)))"

definition declare_module_const :: "pos \<Rightarrow> ustring \<Rightarrow> pass" where
  "declare_module_const p name cs =
     (if declared_in_module name cs then Inl Already_Declared
      else Inr (cs\<lparr>constVars := ustring_hashCode name # constVars cs,
                   moduleConstLines := (moduleConstLines cs)(name \<mapsto> fst p),
                   moduleVarLines := (moduleVarLines cs)(name \<mapsto> fst p)\<rparr>))"

definition bind_const :: "ustring \<Rightarrow> rvalue \<Rightarrow> func_scope \<Rightarrow> compile_error + func_scope" where
  "bind_const name v fs =
     (if last (constBindings fs) name \<noteq> None then Inl Already_Declared
      else Inr (fs\<lparr>constBindings := butlast (constBindings fs) @ [(last (constBindings fs))(name \<mapsto> v)]\<rparr>))"

definition declareConstant :: "pos \<Rightarrow> ustring \<Rightarrow> rvalue \<Rightarrow> pass" where
  "declareConstant p name v cs =
     (let cs1 = on_func (clearPendingDeclaration name) cs in
      seq_then
        (if at_module_scope cs1 then declare_module_const p name cs1
         else if constExistsInCurrentScope name (func cs1) \<or> declared_here name (func cs1) then Inl Already_Declared
         else Inr cs1)
        (\<lambda>cs2. seq_then (bind_const name v (func cs2)) (\<lambda>fs. Inr (cs2\<lparr>func := fs\<rparr>))))"

definition define_variable :: "pos \<Rightarrow> u16 \<Rightarrow> bool \<Rightarrow> compiler \<Rightarrow> compiler" where
  "define_variable p moduleVar isConstVar = on_func (defineVariable p moduleVar isConstVar)"

section \<open>What a name means\<close>

text \<open>
  A rank is a function scope, by the number of scopes around it, and a block depth in it.
\<close>

type_synonym lexical_rank = "(nat \<times> int) option"

fun innerThan :: "lexical_rank \<Rightarrow> lexical_rank \<Rightarrow> bool" where
  "innerThan None o2 = False"
| "innerThan (Some r) None = True"
| "innerThan (Some (i, d)) (Some (j, e)) = (if i \<noteq> j then i > j else d > e)"

datatype candidate = Cand_Local nat | Cand_Upvalue | Cand_ModuleVar

definition local_rank :: "func_scope \<Rightarrow> nat \<Rightarrow> nat \<Rightarrow> lexical_rank" where
  "local_rank fs outer i = Some (outer, l_depth (locals fs ! i))"

fun enclosing_local :: "ustring \<Rightarrow> func_scope list \<Rightarrow> lexical_rank" where
  "enclosing_local name [] = None"
| "enclosing_local name (fs # outer) =
     (let i = resolveLocal fs name in
      if i \<noteq> -1 then local_rank fs (length outer) (nat i) else enclosing_local name outer)"

definition findBinding :: "ustring \<Rightarrow> compiler \<Rightarrow> candidate \<times> lexical_rank" where
  "findBinding name cs =
     (let i = resolveLocal (func cs) name in
      if i \<noteq> -1 then (Cand_Local (nat i), local_rank (func cs) (length (enclosing cs)) (nat i))
      else if enclosing_local name (enclosing cs) \<noteq> None then (Cand_Upvalue, enclosing_local name (enclosing cs))
      else (Cand_ModuleVar, None))"

fun const_scan :: "(ustring \<rightharpoonup> rvalue) list \<Rightarrow> nat \<Rightarrow> ustring \<Rightarrow> (rvalue \<times> int) option" where
  "const_scan ms 0 name = None"
| "const_scan ms (Suc d) name =
     (case (ms ! d) name of Some v \<Rightarrow> Some (v, int d) | None \<Rightarrow> const_scan ms d name)"

fun lookupConstBinding :: "ustring \<Rightarrow> func_scope list \<Rightarrow> (rvalue \<times> nat \<times> int) option" where
  "lookupConstBinding name [] = None"
| "lookupConstBinding name (fs # outer) =
     (case const_scan (constBindings fs) (length (constBindings fs)) name of
        Some (v, d) \<Rightarrow> Some (v, length outer, d)
      | None \<Rightarrow> lookupConstBinding name outer)"

definition visibleConstBinding :: "ustring \<Rightarrow> lexical_rank \<Rightarrow> compiler \<Rightarrow> rvalue option" where
  "visibleConstBinding name shadowRank cs =
     (case lookupConstBinding name (func cs # enclosing cs) of
        None \<Rightarrow> None
      | Some (v, r) \<Rightarrow> if innerThan (Some r) shadowRank then Some v else None)"

text \<open>The three kinds of candidate of \<open>namedVariable\<close>, after its checks.\<close>

definition named_local :: "pos \<Rightarrow> nat \<Rightarrow> bool \<Rightarrow> pass" where
  "named_local p i assign cs =
     (let l = locals (func cs) ! i in
      if assign \<and> isConst l then Inl Assign_To_Constant
      else if assign \<and> isParam l then Inl Assign_To_Parameter
      else Inr (emit_op_arg p (if assign then OpSetLocal else OpGetLocal) (word_of_nat i) cs))"

definition named_upvalue :: "pos \<Rightarrow> ustring \<Rightarrow> bool \<Rightarrow> pass" where
  "named_upvalue p name assign cs =
     seq_then (resolveUpvalue name (func cs # enclosing cs)) (\<lambda>(i, scopes).
       Inr (emit_op_arg p (if assign then OpSetUpvalue else OpGetUpvalue) (word_of_int i)
              (cs\<lparr>func := hd scopes, enclosing := tl scopes\<rparr>)))"

definition named_module_var :: "pos \<Rightarrow> ustring \<Rightarrow> bool \<Rightarrow> pass" where
  "named_module_var p name assign cs =
     seq_then (identifier_constant name cs) (\<lambda>(arg, cs1).
       let known = moduleVarLines cs1 name \<noteq> None; new = inModuleFunction cs1 \<and> \<not> known in
       if assign \<and> new \<and> strict cs1 then Inl Undeclared_In_Strict
       else let cs2 = (if assign \<and> new
                       then cs1\<lparr>moduleVarLines := (moduleVarLines cs1)(name \<mapsto> fst p)\<rparr> else cs1) in
         Inr (emit_op_arg p
           (if assign then (if new then OpSetNewModuleVar else OpSetModuleVar) else OpGetModuleVar) arg cs2))"

definition namedVariable :: "pos \<Rightarrow> ustring \<Rightarrow> bool \<Rightarrow> pass" where
  "namedVariable p name assign cs =
     (case pendingDeclaration name (func cs) of
        Some line \<Rightarrow> Inl (Used_Before_Declaration line)
      | None \<Rightarrow> (case findBinding name cs of (cand, rank) \<Rightarrow>
          (case visibleConstBinding name rank cs of
             Some v \<Rightarrow> if assign then Inl Assign_To_Constant else emit_constant p v cs
           | None \<Rightarrow> (case cand of
               Cand_Local i \<Rightarrow> named_local p i assign cs
             | Cand_Upvalue \<Rightarrow> named_upvalue p name assign cs
             | Cand_ModuleVar \<Rightarrow> named_module_var p name assign cs))))"

section \<open>Expressions\<close>

text \<open>\<open>intVal\<close> boxes an integer of more than 32 bits; \<open>alloc\<close> is the allocation.\<close>

definition num_value :: "(int \<Rightarrow> u64) \<Rightarrow> num_lit \<Rightarrow> rvalue" where
  "num_value alloc n =
     (case n of N_Int32 i \<Rightarrow> Imm (intVal alloc (sint i)) | N_Int64 i \<Rightarrow> Imm (intVal alloc (sint i)) | N_Real d \<Rightarrow> Imm (realVal d))"

definition visit_Num :: "(int \<Rightarrow> u64) \<Rightarrow> pos \<Rightarrow> num_lit \<Rightarrow> pass" where
  "visit_Num alloc p n = emit_constant p (num_value alloc n)"

definition visit_Str :: "pos \<Rightarrow> ustring \<Rightarrow> pass" where
  "visit_Str p s = emit_constant p (Str s)"

definition visit_Bool :: "pos \<Rightarrow> bool \<Rightarrow> pass" where
  "visit_Bool p b cs = Inr (emit_op p (if b then OpConstTrue else OpConstFalse) cs)"

definition visit_Nil :: "pos \<Rightarrow> pass" where
  "visit_Nil p cs = Inr (emit_op p OpConstNil cs)"

definition unary_opcode :: "unary_op \<Rightarrow> nat" where
  "unary_opcode op = (case op of U_Negate \<Rightarrow> OpNegate | U_Not \<Rightarrow> OpNegate | U_BitNot \<Rightarrow> OpBitNot)"

definition visit_UnaryOp :: "pos \<Rightarrow> unary_op \<Rightarrow> pass \<Rightarrow> pass" where
  "visit_UnaryOp p op arg = then_do arg (\<lambda>cs. Inr (emit_op p (unary_opcode op) cs))"

text \<open>The opcodes after both operands; \<open>and\<close> and \<open>or\<close> do not reach this table.\<close>

definition binary_opcodes :: "binary_op \<Rightarrow> nat list" where
  "binary_opcodes op =
     (case op of
        B_Add \<Rightarrow> [15] | B_Subtract \<Rightarrow> [16] | B_Multiply \<Rightarrow> [17] | B_Divide \<Rightarrow> [18] | B_Modulo \<Rightarrow> [19]
      | B_BitAnd \<Rightarrow> [23] | B_BitOr \<Rightarrow> [24] | B_BitXor \<Rightarrow> [25] | B_Equal \<Rightarrow> [7] | B_NotEqual \<Rightarrow> [8]
      | B_Is \<Rightarrow> [OpIs] | B_In \<Rightarrow> [OpIn] | B_NotIn \<Rightarrow> [OpIn, OpNegate]
      | B_LessThan \<Rightarrow> [12] | B_GreaterThan \<Rightarrow> [11] | B_LessOrEqual \<Rightarrow> [14] | B_GreaterOrEqual \<Rightarrow> [13]
      | _ \<Rightarrow> [])"

definition short_circuit :: "pos \<Rightarrow> nat \<Rightarrow> nat \<Rightarrow> pass \<Rightarrow> pass \<Rightarrow> pass" where
  "short_circuit p jump_op op lhs rhs = then_do lhs (\<lambda>cs.
     case emit_jump p jump_op cs of (jumpToEnd, cs1) \<Rightarrow>
       seq_then (rhs cs1) (\<lambda>cs2. patch_jump jumpToEnd (emit_op p op cs2)))"

text \<open>\<open>x is not nil\<close> parses as \<open>x is (not nil)\<close>; \<open>not_nil\<close> is the position of that literal.\<close>

definition not_nil :: "expr \<Rightarrow> pos option" where
  "not_nil e = (case e of E_Unary q op a \<Rightarrow> (case (op, a) of (U_Not, E_Nil q') \<Rightarrow> Some q' | _ \<Rightarrow> None) | _ \<Rightarrow> None)"

definition visit_BinaryOp :: "pos \<Rightarrow> binary_op \<Rightarrow> pos option \<Rightarrow> pass \<Rightarrow> pass \<Rightarrow> pass" where
  "visit_BinaryOp p op notNil lhs rhs =
     (if op = B_Or then short_circuit p OpOrShortCircuit OpOr lhs rhs
      else if op = B_And then short_circuit p OpAndShortCircuit OpAnd lhs rhs
      else if op = B_Is \<and> notNil \<noteq> None then
        then_do lhs (then_do (visit_Nil (the notNil)) (\<lambda>cs. Inr (emit_op p OpNegate (emit_op p OpIs cs))))
      else then_do lhs (then_do rhs (\<lambda>cs. Inr (fold (emit_op p) (binary_opcodes op) cs))))"

text \<open>A const may not be assigned to a mutable variable; compile-time constants are copied.\<close>

definition source_is_const :: "ustring \<Rightarrow> compiler \<Rightarrow> bool" where
  "source_is_const name cs =
     (let i = resolveLocal (func cs) name in
      if i \<ge> 0 then isConst (locals (func cs) ! nat i)
      else moduleConstLines cs name \<noteq> None \<and> lookupConstBinding name (func cs # enclosing cs) = None)"

definition target_is_const :: "ustring \<Rightarrow> compiler \<Rightarrow> bool" where
  "target_is_const name cs =
     (let i = resolveLocal (func cs) name; l = locals (func cs) ! nat i in i \<ge> 0 \<and> (isConst l \<or> isTypeConst l))"

definition source_name :: "expr \<Rightarrow> ustring option" where
  "source_name e = (case e of E_Variable q name \<Rightarrow> Some name | _ \<Rightarrow> None)"

definition visit_Assignment :: "pos \<Rightarrow> ustring \<Rightarrow> ustring option \<Rightarrow> pass \<Rightarrow> pass" where
  "visit_Assignment p name source rhs cs =
     (if (case source of Some s \<Rightarrow> \<not> target_is_const name cs \<and> source_is_const s cs | None \<Rightarrow> False)
      then Inl Const_To_Mutable
      else seq_then (rhs cs) (namedVariable p name True))"

text \<open>\<open>StrInterp\<close>: a part, then a fold of the pieces whenever 255 strings are on the stack.\<close>

definition interp_part :: "pos \<Rightarrow> ustring + pass \<Rightarrow> nat \<times> compiler \<Rightarrow> compile_error + (nat \<times> compiler)" where
  "interp_part p part = (\<lambda>(onStack, cs).
     seq_then (case part of
         Inl text \<Rightarrow> emit_constant p (Str text) cs
       | Inr e \<Rightarrow> seq_then (e cs) (\<lambda>cs1. Inr (emit_op p OpToStringPart cs1)))
     (\<lambda>cs2. if onStack + 1 = 255 then Inr (1, emit_op_byte p OpConcat 255 cs2) else Inr (onStack + 1, cs2)))"

fun interp_parts :: "pos \<Rightarrow> (ustring + pass) list \<Rightarrow> nat \<times> compiler \<Rightarrow> compile_error + (nat \<times> compiler)" where
  "interp_parts p [] st = Inr st"
| "interp_parts p (part # parts) st = seq_then (interp_part p part st) (interp_parts p parts)"

definition visit_StrInterp :: "pos \<Rightarrow> (ustring + pass) list \<Rightarrow> pass" where
  "visit_StrInterp p parts cs =
     seq_then (interp_parts p parts (0, cs)) (\<lambda>(onStack, cs1).
       if parts = [] then emit_constant p (Str []) cs1
       else if onStack > 1 then Inr (emit_op_byte p OpConcat (word_of_nat onStack) cs1) else Inr cs1)"

definition visit_List :: "pos \<Rightarrow> pass list \<Rightarrow> pass" where
  "visit_List p elements = then_do (run_all elements) (\<lambda>cs.
     if length elements > 255 then Inl Too_Many_Elements
     else Inr (emit_op_byte p OpNewList (word_of_nat (length elements)) cs))"

primrec visit_expr :: "(int \<Rightarrow> u64) \<Rightarrow> expr \<Rightarrow> pass" where
  "visit_expr alloc (E_Nil p) = visit_Nil p"
| "visit_expr alloc (E_Bool p b) = visit_Bool p b"
| "visit_expr alloc (E_Num p n) = visit_Num alloc p n"
| "visit_expr alloc (E_Str p s) = visit_Str p s"
| "visit_expr alloc (E_Variable p name) = namedVariable p name False"
| "visit_expr alloc (E_Unary p op e) = visit_UnaryOp p op (visit_expr alloc e)"
| "visit_expr alloc (E_Binary p op l r) =
     visit_BinaryOp p op (not_nil r) (visit_expr alloc l) (visit_expr alloc r)"
| "visit_expr alloc (E_Assign p name e) = visit_Assignment p name (source_name e) (visit_expr alloc e)"
| "visit_expr alloc (E_Interp p parts) = visit_StrInterp p (map (map_sum id (visit_expr alloc)) parts)"
| "visit_expr alloc (E_List p es) = visit_List p (map (visit_expr alloc) es)"

section \<open>Compile-time constants\<close>

definition const_unary :: "(int \<Rightarrow> u64) \<Rightarrow> unary_op \<Rightarrow> rvalue \<Rightarrow> compile_error + rvalue" where
  "const_unary alloc op v =
     (case v of
        Imm w \<Rightarrow> (case op of
            U_Negate \<Rightarrow> if isReal w then Inr (Imm (realVal (dneg w)))
              else if isInt w then Inr (Imm (intVal alloc (- asIntUnchecked w))) else Inl Not_Constant
          | U_Not \<Rightarrow> if isBool w then Inr (Imm (boolVal (\<not> asBool_word w))) else Inl Not_Constant
          | U_BitNot \<Rightarrow> if isInt w then Inr (Imm (intVal alloc (- asIntUnchecked w - 1))) else Inl Not_Constant)
      | _ \<Rightarrow> Inl Not_Constant)"

text \<open>
  \<open>evaluateConstExpression\<close>: \<open>std::get<int32_t>\<close> of a literal that holds an \<open>int64_t\<close> is not a
  \<open>std::logic_error\<close>, so it does not lead to the run-time path.
\<close>

fun evaluateConstExpression :: "(int \<Rightarrow> u64) \<Rightarrow> expr \<Rightarrow> compiler \<Rightarrow> compile_error + rvalue" where
  "evaluateConstExpression alloc (E_Nil p) cs = Inr (Imm nilVal)"
| "evaluateConstExpression alloc (E_Bool p b) cs = Inr (Imm (boolVal b))"
| "evaluateConstExpression alloc (E_Num p n) cs =
     (case n of
        N_Real d \<Rightarrow> Inr (Imm (realVal d))
      | N_Int32 i \<Rightarrow> Inr (Imm (intVal alloc (sint i)))
      | N_Int64 i \<Rightarrow> Inl Bad_Variant_Access)"
| "evaluateConstExpression alloc (E_Unary p op e) cs =
     seq_then (evaluateConstExpression alloc e cs) (const_unary alloc op)"
| "evaluateConstExpression alloc (E_Variable p name) cs =
     (case visibleConstBinding name (snd (findBinding name cs)) cs of Some v \<Rightarrow> Inr v | None \<Rightarrow> Inl Not_Constant)"
| "evaluateConstExpression alloc e cs = Inl Not_Constant"

section \<open>Declarations\<close>

definition module_slot :: "ustring \<Rightarrow> compiler \<Rightarrow> compile_error + (u16 \<times> compiler)" where
  "module_slot name cs = (if at_module_scope cs then identifier_constant name cs else Inr (0, cs))"

definition visit_VarDecl :: "pos \<Rightarrow> ustring \<Rightarrow> (ustring option \<times> pass) option \<Rightarrow> pass" where
  "visit_VarDecl p name init =
     then_do (declareVariable p name) (\<lambda>cs. seq_then (module_slot name cs) (\<lambda>(var, cs1).
       seq_then
         (case init of
            None \<Rightarrow> visit_Nil p cs1
          | Some (source, e) \<Rightarrow>
              if (case source of Some s \<Rightarrow> source_is_const s cs1 | None \<Rightarrow> False) then Inl Const_To_Mutable else e cs1)
         (\<lambda>cs2. Inr (define_variable p var False cs2))))"

definition visit_const_folded :: "pos \<Rightarrow> ustring \<Rightarrow> rvalue \<Rightarrow> pass" where
  "visit_const_folded p name v =
     then_do (declareConstant p name v) (\<lambda>cs.
       if at_module_scope cs then
         seq_then (identifier_constant name cs) (\<lambda>(var, cs1).
           seq_then (emit_constant p v cs1) (\<lambda>cs2. Inr (define_variable p var True cs2)))
       else Inr cs)"

definition visit_const_runtime :: "pos \<Rightarrow> ustring \<Rightarrow> pass \<Rightarrow> pass" where
  "visit_const_runtime p name init cs =
     seq_then
       (if at_module_scope cs then seq_then (declare_module_const p name cs) (identifier_constant name)
        else seq_then (declareVariable p name cs) (\<lambda>cs1. Inr (0, update_last_local (\<lambda>l. l\<lparr>isConst := True\<rparr>) cs1)))
       (\<lambda>(var, cs1). seq_then (init cs1) (\<lambda>cs2.
          Inr (define_variable p var (at_module_scope cs2) (emit_op p OpMakeConst cs2))))"

definition visit_ConstDecl :: "(int \<Rightarrow> u64) \<Rightarrow> pos \<Rightarrow> ustring \<Rightarrow> expr \<Rightarrow> pass \<Rightarrow> pass" where
  "visit_ConstDecl alloc p name e init cs =
     (case evaluateConstExpression alloc e cs of
        Inr v \<Rightarrow> visit_const_folded p name v cs
      | Inl err \<Rightarrow> if err = Bad_Variant_Access then Inl err else visit_const_runtime p name init cs)"

section \<open>Statements\<close>

definition is_assignment :: "expr \<Rightarrow> bool" where
  "is_assignment e = (case e of E_Assign p name rhs \<Rightarrow> True | _ \<Rightarrow> False)"

definition visit_ExpressionStatement :: "pos \<Rightarrow> bool \<Rightarrow> pass \<Rightarrow> pass" where
  "visit_ExpressionStatement p isAssignment e =
     then_do e (\<lambda>cs. Inr (emit_op p (if isAssignment then OpPop else OpStmtAction) cs))"

definition mark_stmt_start :: "bool \<Rightarrow> pos \<Rightarrow> compiler \<Rightarrow> compiler" where
  "mark_stmt_start dbg p = on_chunk (markStmtStart dbg p)"

definition visit_Suite :: "bool \<Rightarrow> pos \<Rightarrow> stmt list \<Rightarrow> pass list \<Rightarrow> pass" where
  "visit_Suite dbg p ss children cs =
     seq_then
       (run_all (map2 (\<lambda>s f cs1. f (mark_stmt_start dbg (stmt_pos s) cs1)) ss children)
         (on_func (scanBlockDeclarations ss) (enter_local_scope cs)))
       (\<lambda>cs1. Inr (exit_local_scope dbg p cs1))"

definition in_own_scope :: "bool \<Rightarrow> pos \<Rightarrow> pass \<Rightarrow> pass" where
  "in_own_scope dbg p suite cs =
     seq_then (suite (enter_local_scope cs)) (\<lambda>cs1. Inr (exit_local_scope dbg p cs1))"

definition visit_IfStatement :: "bool \<Rightarrow> pos \<Rightarrow> pass \<Rightarrow> pass \<Rightarrow> pass option \<Rightarrow> pass" where
  "visit_IfStatement dbg p cond suite elseSuite =
     then_do cond (\<lambda>cs. case emit_jump p OpJumpIfFalse cs of (jumpOverIf, cs1) \<Rightarrow>
       seq_then (in_own_scope dbg p suite (emit_op p OpPop cs1)) (\<lambda>cs2.
         case emit_jump p OpJump cs2 of (jumpOverElse, cs3) \<Rightarrow>
           seq_then (patch_jump jumpOverIf cs3) (\<lambda>cs4.
             seq_then (case elseSuite of
                 None \<Rightarrow> Inr (emit_op p OpPop cs4)
               | Some e \<Rightarrow> in_own_scope dbg p e (emit_op p OpPop cs4))
               (patch_jump jumpOverElse))))"

definition push_loop :: "nat \<Rightarrow> compiler \<Rightarrow> compiler" where
  "push_loop start cs =
     cs\<lparr>loopStack := \<lparr>bodyScopeDepth = scopeDepth (func cs), whileLoopStart = start, breakOffsets = []\<rparr> # loopStack cs\<rparr>"

definition visit_WhileStatement :: "pos \<Rightarrow> pass \<Rightarrow> pass \<Rightarrow> pass" where
  "visit_WhileStatement p condition body cs0 =
     (let loopStart = length (code (currentChunk cs0)) in
      seq_then (condition cs0) (\<lambda>cs. case emit_jump p OpJumpIfFalse cs of (jumpToExit, cs1) \<Rightarrow>
        seq_then (body (push_loop loopStart (emit_op p OpPop cs1))) (\<lambda>cs2.
          seq_then (emit_loop p loopStart cs2) (\<lambda>cs3.
            seq_then (patch_jump jumpToExit cs3) (\<lambda>cs4.
              seq_then (run_all (map patch_jump (breakOffsets (hd (loopStack cs4)))) (emit_op p OpPop cs4)) (\<lambda>cs5.
                Inr (cs5\<lparr>loopStack := tl (loopStack cs5)\<rparr>)))))))"

definition visit_BreakStatement :: "pos \<Rightarrow> pass" where
  "visit_BreakStatement p cs =
     (case loopStack cs of
        [] \<Rightarrow> Inl Break_Outside_Loop
      | ctx # outer \<Rightarrow>
          (case emit_jump p OpJump (on_func (emitPopsForLoopExit p (bodyScopeDepth ctx)) cs) of (off, cs1) \<Rightarrow>
             Inr (cs1\<lparr>loopStack := ctx\<lparr>breakOffsets := breakOffsets ctx @ [off]\<rparr> # outer\<rparr>)))"

definition visit_ContinueStatement :: "pos \<Rightarrow> pass" where
  "visit_ContinueStatement p cs =
     (case loopStack cs of
        [] \<Rightarrow> Inl Continue_Outside_Loop
      | ctx # outer \<Rightarrow>
          emit_loop p (whileLoopStart ctx) (on_func (emitPopsForLoopExit p (bodyScopeDepth ctx)) cs))"

definition emit_return :: "pos \<Rightarrow> compiler \<Rightarrow> compiler" where
  "emit_return p = on_func (emitReturn p)"

definition visit_ReturnStatement :: "pos \<Rightarrow> pass option \<Rightarrow> pass" where
  "visit_ReturnStatement p e cs =
     (case e of
        None \<Rightarrow> Inr (emit_return p cs)
      | Some f \<Rightarrow> seq_then (f cs) (\<lambda>cs1.
          if initializer (func cs1) then Inl Value_From_Initializer
          else if isProc cs1 then Inl Value_From_Proc
          else Inr (emit_op p OpReturn cs1)))"

text \<open>Labels and jumps.\<close>

definition label_here :: "ustring \<Rightarrow> compiler \<Rightarrow> label_info" where
  "label_here name cs =
     \<lparr>lb_name = name, lb_offset = length (code (currentChunk cs)), lb_liveLocalCount = length (locals (func cs)),
      lb_scopeDepth = scopeDepth (func cs), lb_blockPath = blockPath (func cs), lb_guardDepth = guardDepth cs\<rparr>"

definition encloses :: "nat list \<Rightarrow> nat list \<Rightarrow> bool" where
  "encloses outer inner \<longleftrightarrow> length outer \<le> length inner \<and> take (length outer) inner = outer"

definition resolve_pending :: "label_info \<Rightarrow> pending_jump \<Rightarrow> pass" where
  "resolve_pending label pj cs =
     (if \<not> encloses (lb_blockPath label) (pj_blockPath pj) then Inl Jump_Into_Scope
      else if lb_guardDepth label \<noteq> pj_guardDepth pj then Inl Jump_Crosses_Guard
      else if length (filter (\<lambda>d. d \<le> lb_scopeDepth label) (pj_liveLocalDepths pj)) \<noteq> lb_liveLocalCount label
      then Inl Jump_Skips_Declaration
      else patch_jump (pj_jumpArgOffset pj)
             (on_chunk (patchU16At (pj_popArgOffset pj) (word_of_nat (lb_liveLocalCount label))) cs))"

definition resolveLabel :: "label_info \<Rightarrow> pass" where
  "resolveLabel label cs =
     seq_then (run_all (map (resolve_pending label) (filter (\<lambda>pj. pj_name pj = lb_name label) (pendingJumps cs))) cs)
       (\<lambda>cs1. Inr (cs1\<lparr>pendingJumps := filter (\<lambda>pj. pj_name pj \<noteq> lb_name label) (pendingJumps cs1)\<rparr>))"

definition visit_LabelStatement :: "ustring \<Rightarrow> pass" where
  "visit_LabelStatement name cs =
     (if \<exists>l \<in> set (labels cs). lb_name l = name then Inl Duplicate_Label
      else resolveLabel (label_here name cs) (cs\<lparr>labels := labels cs @ [label_here name cs]\<rparr>))"

definition checkUnresolvedJumps :: "pass" where
  "checkUnresolvedJumps cs = (if pendingJumps cs \<noteq> [] then Inl Undefined_Label else Inr cs)"

definition emit_pop_to_count :: "pos \<Rightarrow> int \<Rightarrow> compiler \<Rightarrow> compile_error + (nat \<times> compiler)" where
  "emit_pop_to_count p n cs =
     seq_then (emitPopToCount p n (currentChunk cs)) (\<lambda>(at, c). Inr (at, on_chunk (\<lambda>_. c) cs))"

definition jump_back :: "pos \<Rightarrow> label_info \<Rightarrow> pass" where
  "jump_back p target cs =
     (if \<not> encloses (lb_blockPath target) (blockPath (func cs)) then Inl Jump_Into_Scope
      else if lb_guardDepth target \<noteq> guardDepth cs then Inl Jump_Crosses_Guard
      else seq_then (emit_pop_to_count p (int (lb_liveLocalCount target)) cs) (\<lambda>(_, cs1).
        emit_loop p (lb_offset target) cs1))"

definition jump_ahead :: "pos \<Rightarrow> ustring \<Rightarrow> pass" where
  "jump_ahead p name cs =
     seq_then (emit_pop_to_count p (-1) cs) (\<lambda>(popAt, cs1). case emit_jump p OpJump cs1 of (jumpAt, cs2) \<Rightarrow>
       Inr (cs2\<lparr>pendingJumps := pendingJumps cs2 @
         [\<lparr>pj_name = name, pj_popArgOffset = popAt, pj_jumpArgOffset = jumpAt,
           pj_liveLocalDepths = map l_depth (locals (func cs2)), pj_blockPath = blockPath (func cs2),
           pj_guardDepth = guardDepth cs2\<rparr>]\<rparr>))"

definition visit_JumpStatement :: "pos \<Rightarrow> ustring \<Rightarrow> pass" where
  "visit_JumpStatement p name cs =
     (case find (\<lambda>l. lb_name l = name) (labels cs) of
        Some target \<Rightarrow> jump_back p target cs
      | None \<Rightarrow> jump_ahead p name cs)"

section \<open>Functions\<close>

text \<open>A parameter without default value; its name also becomes a constant of the function.\<close>

definition mark_param :: "ustring \<Rightarrow> func_scope \<Rightarrow> func_scope" where
  "mark_param name fs =
     (let i = resolveLocal fs name in
      if i \<ge> 0 then fs\<lparr>locals := (locals fs)[nat i := (locals fs ! nat i)\<lparr>isParam := True\<rparr>]\<rparr> else fs)"

definition visit_Parameter :: "pos \<Rightarrow> ustring \<Rightarrow> pass" where
  "visit_Parameter p name =
     then_do (declareVariable p name) (\<lambda>cs. seq_then (identifier_constant name cs) (\<lambda>(var, cs1).
       Inr (on_func (mark_param name) (define_variable p var False cs1))))"

definition enter_func_scope :: "bool \<Rightarrow> pos \<Rightarrow> bool \<Rightarrow> nat \<Rightarrow> compiler \<Rightarrow> compiler" where
  "enter_func_scope dbg p prc nparams cs =
     (let c = currentChunk cs;
          fs = new_func_scope False [] (replicate nparams None) (new_chunk (packageName c) (moduleName c) (sourceName c)) in
      on_chunk (recordFunctionEntryStmt dbg p)
        (cs\<lparr>func := fs, enclosing := func cs # enclosing cs, inModuleFunction := False, isProc := prc,
            strict := True, guardDepth := 0, labels := [], pendingJumps := []\<rparr>))"

text \<open>\<open>exitFuncScope\<close>; \<open>saved\<close> has the fields of the surrounding function.\<close>

definition exit_func_scope :: "bool \<Rightarrow> compiler \<Rightarrow> compiler \<Rightarrow> compile_error + compiler" where
  "exit_func_scope dbg saved cs =
     seq_then (checkUnresolvedJumps cs) (\<lambda>cs1.
       Inr (cs1\<lparr>func := hd (enclosing cs1), enclosing := tl (enclosing cs1),
                inModuleFunction := inModuleFunction saved, isProc := isProc saved, strict := strict saved,
                guardDepth := guardDepth saved, labels := labels saved, pendingJumps := pendingJumps saved,
                compiled := compiled cs1 @ [flushFuncDebugInfo dbg (func cs1)]\<rparr>))"

definition lastByte :: "chunk \<Rightarrow> byte" where
  "lastByte c = (if code c = [] then asByte OpNop else last (code c))"

definition close_function :: "pos \<Rightarrow> compiler \<Rightarrow> compiler" where
  "close_function p cs = (if lastByte (currentChunk cs) \<noteq> asByte OpReturn then emit_return p cs else cs)"

definition emit_closure :: "pos \<Rightarrow> func_scope \<Rightarrow> pass" where
  "emit_closure p fs cs =
     seq_then (makeConstant (Const_Function (upvalueCount fs)) (currentChunk cs)) (\<lambda>(k, c).
       Inr (on_chunk (fold (\<lambda>u c. emitByte p (up_index u) (emitByte p (if up_isLocal u then 1 else 0) c))
              (take (upvalueCount fs) (upvalues fs)))
            (emit_op_arg p OpClosure k (on_chunk (\<lambda>_. c) cs))))"

definition visit_Function :: "bool \<Rightarrow> pos \<Rightarrow> bool \<Rightarrow> (pos \<times> ustring) list \<Rightarrow> pass \<Rightarrow> pass" where
  "visit_Function dbg p prc params body cs =
     (if length params > 255 then Inl Too_Many_Parameters
      else seq_then
        (then_do (run_all (map (\<lambda>(q, name). visit_Parameter q name) params)) body
          (enter_local_scope (enter_func_scope dbg p prc (length params) cs)))
        (\<lambda>cs1. let cs2 = close_function p cs1 in
           seq_then (exit_func_scope dbg cs cs2) (emit_closure p (func cs2))))"

text \<open>A function that is not overloaded in its scope.\<close>

definition visit_FuncDecl :: "pos \<Rightarrow> ustring \<Rightarrow> pass \<Rightarrow> pass" where
  "visit_FuncDecl p name function =
     then_do (declareVariable p name) (\<lambda>cs. seq_then (module_slot name cs) (\<lambda>(var, cs1).
       seq_then
         (function (if at_module_scope cs1 then cs1
                    else update_last_local (\<lambda>l. l\<lparr>l_depth := scopeDepth (func cs1)\<rparr>) cs1))
         (\<lambda>cs2. Inr (define_variable p var False cs2))))"

section \<open>Dispatch\<close>

fun visit_stmt :: "bool \<Rightarrow> (int \<Rightarrow> u64) \<Rightarrow> stmt \<Rightarrow> pass" where
  "visit_stmt dbg alloc (S_VarDecl p name init) =
     visit_VarDecl p name (map_option (\<lambda>e. (source_name e, visit_expr alloc e)) init)"
| "visit_stmt dbg alloc (S_ConstDecl p name e) = visit_ConstDecl alloc p name e (visit_expr alloc e)"
| "visit_stmt dbg alloc (S_FuncDecl p name fp prc params q ss) =
     visit_FuncDecl p name (visit_Function dbg fp prc params (visit_Suite dbg q ss (map (visit_stmt dbg alloc) ss)))"
| "visit_stmt dbg alloc (S_Expr p e) = visit_ExpressionStatement p (is_assignment e) (visit_expr alloc e)"
| "visit_stmt dbg alloc (S_If p c q ss elseSuite) =
     visit_IfStatement dbg p (visit_expr alloc c) (visit_Suite dbg q ss (map (visit_stmt dbg alloc) ss))
       (case elseSuite of None \<Rightarrow> None
        | Some (q', ss') \<Rightarrow> Some (visit_Suite dbg q' ss' (map (visit_stmt dbg alloc) ss')))"
| "visit_stmt dbg alloc (S_While p c q ss) =
     visit_WhileStatement p (visit_expr alloc c) (visit_Suite dbg q ss (map (visit_stmt dbg alloc) ss))"
| "visit_stmt dbg alloc (S_Break p) = visit_BreakStatement p"
| "visit_stmt dbg alloc (S_Continue p) = visit_ContinueStatement p"
| "visit_stmt dbg alloc (S_Return p e) = visit_ReturnStatement p (map_option (visit_expr alloc) e)"
| "visit_stmt dbg alloc (S_Label p name) = visit_LabelStatement name"
| "visit_stmt dbg alloc (S_Jump p name) = visit_JumpStatement p name"

definition visit_suite :: "bool \<Rightarrow> (int \<Rightarrow> u64) \<Rightarrow> pos \<Rightarrow> stmt list \<Rightarrow> pass" where
  "visit_suite dbg alloc q ss = visit_Suite dbg q ss (map (visit_stmt dbg alloc) ss)"

definition enter_module_scope :: "ustring \<Rightarrow> ustring \<Rightarrow> ustring \<Rightarrow> bool \<Rightarrow> compiler" where
  "enter_module_scope pkg mdl src strictContext =
     \<lparr>func = new_func_scope False [] [] (new_chunk pkg mdl src), enclosing = [], inModuleFunction = True,
      isProc = False, strict = strictContext, guardDepth = 0, labels = [], pendingJumps = [], loopStack = [],
      moduleVarLines = Map.empty, moduleConstLines = Map.empty, constVars = [], compiled = []\<rparr>"

text \<open>A file without annotations, imports and type declarations.\<close>

definition visit_File :: "bool \<Rightarrow> (int \<Rightarrow> u64) \<Rightarrow> pos \<Rightarrow> stmt list \<Rightarrow> pass" where
  "visit_File dbg alloc p ss cs =
     seq_then (run_all (map (\<lambda>s cs1. visit_stmt dbg alloc s (mark_stmt_start dbg (stmt_pos s) cs1)) ss)
                (on_chunk (recordFunctionEntryStmt dbg p) cs))
       (\<lambda>cs1. checkUnresolvedJumps (emit_return p cs1))"

definition compile_file :: "bool \<Rightarrow> (int \<Rightarrow> u64) \<Rightarrow> ustring \<Rightarrow> ustring \<Rightarrow> ustring \<Rightarrow> pos \<Rightarrow> stmt list \<Rightarrow> compile_error + compiler" where
  "compile_file dbg alloc pkg mdl src p ss = visit_File dbg alloc p ss (enter_module_scope pkg mdl src False)"

end
