(* ===== verification/Code_Runs.thy ===== *)
theory Code_Runs
  imports Vm_Step Ast_Compile
begin

text \<open>
  How a stretch of bytecode runs in the top frame of a thread.  A configuration is the code position,
  the frame's part of the value stack, the module and the heap; \<open>conf\<close> says that a thread is in it,
  \<open>goes\<close> that every thread in one configuration reaches the other by turns of the instruction loop
  (\<open>Vm_Step\<close>), and \<open>stops\<close> that it reaches a turn that ends with the given result.  There is one lemma
  per instruction the compiler of \<open>Ast_Compile\<close> emits.
\<close>

section \<open>Configurations\<close>

text \<open>
  What stays: the function running, the frame but for its instruction pointer, the frames below, the
  open captured variables, the stack below the frame and the size of the stack.
\<close>

record run_context =
  cx_fn :: fn
  cx_frame :: frame
  cx_rest :: "frame list"
  cx_ups :: "addr list"
  cx_lower :: "operand list"
  cx_limit :: nat

type_synonym config = "operand list \<times> module \<times> obj list"

definition runs_fn :: "run_context \<Rightarrow> obj list \<Rightarrow> bool" where
  "runs_fn K hp \<longleftrightarrow> (\<exists>a us. obj_at hp (fr_closure (cx_frame K)) = Some (O_Closure a us)
     \<and> obj_at hp a = Some (O_Function (cx_fn K)))"

definition conf :: "run_context \<Rightarrow> nat \<Rightarrow> config \<Rightarrow> thread \<Rightarrow> bool" where
  "conf K pc s t \<longleftrightarrow>
     (case s of (vals, md, hp) \<Rightarrow>
       frames t = (cx_frame K)\<lparr>ip := pc\<rparr> # cx_rest K \<and> openUpvalues t = cx_ups K \<and> \<not> frameStart t
       \<and> modl t = md \<and> heap t = hp \<and> runs_fn K hp \<and> slots (cx_frame K) = length (cx_lower K)
       \<and> length (stack t) = cx_limit K \<and> stackTop t \<le> cx_limit K
       \<and> take (stackTop t) (stack t) = cx_lower K @ vals)"

lemma runs_fn_append: "runs_fn K hp \<Longrightarrow> runs_fn K (hp @ k)"
  by (auto simp: runs_fn_def obj_at_def nth_append split: if_splits)

lemma conf_top: "conf K pc (vals, md, hp) t \<Longrightarrow> stackTop t = length (cx_lower K) + length vals"
proof -
  assume c: "conf K pc (vals, md, hp) t"
  then have "length (take (stackTop t) (stack t)) = length (cx_lower K @ vals)" by (simp add: conf_def)
  then show ?thesis using c by (simp add: conf_def)
qed

lemma conf_nth: "conf K pc (vals, md, hp) t \<Longrightarrow> i < length vals \<Longrightarrow> stack t ! (length (cx_lower K) + i) = vals ! i"
proof -
  assume c: "conf K pc (vals, md, hp) t" and i: "i < length vals"
  have "stack t ! (length (cx_lower K) + i) = take (stackTop t) (stack t) ! (length (cx_lower K) + i)"
    using conf_top [OF c] i by simp
  also have "\<dots> = (cx_lower K @ vals) ! (length (cx_lower K) + i)" using c by (simp add: conf_def)
  finally show ?thesis by simp
qed

lemma conf_push:
  assumes c: "conf K pc (vals, md, hp) t" and r: "length (cx_lower K) + length vals < cx_limit K"
  shows "\<exists>t'. push v t = Inr t' \<and> conf K pc (vals @ [v], md, hp) t'"
proof -
  have top: "stackTop t < length (stack t)" using conf_top [OF c] c r by (simp add: conf_def)
  then show ?thesis using c r conf_top [OF c]
    by (auto simp: push_def conf_def take_Suc_conv_app_nth)
qed

lemma conf_pop:
  assumes c: "conf K pc (vals @ [v], md, hp) t"
  shows "\<exists>t'. pop t = Inr (v, t') \<and> conf K pc (vals, md, hp) t'"
proof -
  have top: "stackTop t = Suc (length (cx_lower K) + length vals)" using conf_top [OF c] by simp
  have v: "stack t ! (length (cx_lower K) + length vals) = v" using conf_nth [OF c, of "length vals"] by simp
  have "take (length (cx_lower K) + length vals) (stack t) = take (length (cx_lower K) + length vals) (take (stackTop t) (stack t))"
    using top by simp
  also have "\<dots> = cx_lower K @ vals" using c unfolding conf_def by simp
  finally show ?thesis using c top v by (auto simp: pop_def conf_def Let_def)
qed

lemma conf_peek:
  assumes c: "conf K pc (vals, md, hp) t" and d: "d < length vals"
  shows "peek d t = Inr (vals ! (length vals - 1 - d))"
proof -
  have "stackTop t - 1 - d = length (cx_lower K) + (length vals - 1 - d)" using conf_top [OF c] d by simp
  then show ?thesis using conf_nth [OF c, of "length vals - 1 - d"] conf_top [OF c] d by (simp add: peek_def)
qed

lemma conf_slot_read:
  assumes c: "conf K pc (vals, md, hp) t" and i: "i < length vals"
  shows "slot_read (length (cx_lower K) + i) t = Inr (vals ! i)"
  using conf_nth [OF c i] conf_top [OF c] c i by (auto simp: slot_read_def conf_def)

lemma conf_slot_write:
  assumes c: "conf K pc (vals, md, hp) t" and i: "i < length vals"
  shows "\<exists>t'. slot_write (length (cx_lower K) + i) v t = Inr t' \<and> conf K pc (vals[i := v], md, hp) t'"
proof -
  have l: "length (cx_lower K) + i < stackTop t" using conf_top [OF c] i by simp
  have "take (stackTop t) ((stack t)[length (cx_lower K) + i := v]) = (cx_lower K @ vals)[length (cx_lower K) + i := v]"
    using c by (simp add: conf_def take_update_swap)
  then show ?thesis using c l by (auto simp: slot_write_def conf_def list_update_append)
qed

lemma conf_ip:
  assumes "conf K pc s t"
  shows "\<exists>t'. set_ip pc' t = Inr t' \<and> conf K pc' s t'"
  using assms by (cases s) (auto simp: set_ip_def with_frame_def conf_def runs_fn_def)

lemma conf_frame: "conf K pc s t \<Longrightarrow> frame_of t = Inr ((cx_frame K)\<lparr>ip := pc\<rparr>)"
  by (cases s) (auto simp: frame_of_def conf_def)

lemma conf_slots: "conf K pc s t \<Longrightarrow> slots (cx_frame K) = length (cx_lower K)"
  by (cases s) (auto simp: conf_def)

lemma conf_fn: "conf K pc s t \<Longrightarrow> current_fn t = Inr (cx_fn K)"
  by (cases s) (auto simp: current_fn_def conf_def runs_fn_def)

section \<open>Code in place\<close>

definition code_at :: "run_context \<Rightarrow> nat \<Rightarrow> byte list \<Rightarrow> bool" where
  "code_at K pc bs \<longleftrightarrow> pc + length bs \<le> length (fn_code (cx_fn K))
     \<and> (\<forall>i < length bs. fn_code (cx_fn K) ! (pc + i) = bs ! i)"

lemma code_at_Nil: "code_at K pc [] \<longleftrightarrow> pc \<le> length (fn_code (cx_fn K))"
  by (simp add: code_at_def)

lemma code_at_append: "code_at K pc (xs @ ys) \<longleftrightarrow> code_at K pc xs \<and> code_at K (pc + length xs) ys"
proof
  assume c: "code_at K pc (xs @ ys)"
  have "fn_code (cx_fn K) ! (pc + i) = xs ! i" if "i < length xs" for i
    using c that by (auto simp: code_at_def nth_append)
  moreover have "fn_code (cx_fn K) ! (pc + length xs + i) = ys ! i" if "i < length ys" for i
    using c that unfolding code_at_def by (auto simp: nth_append add.assoc dest!: spec [of _ "length xs + i"])
  ultimately show "code_at K pc xs \<and> code_at K (pc + length xs) ys" using c by (auto simp: code_at_def)
next
  assume c: "code_at K pc xs \<and> code_at K (pc + length xs) ys"
  have "fn_code (cx_fn K) ! (pc + i) = (xs @ ys) ! i" if i: "i < length xs + length ys" for i
  proof (cases "i < length xs")
    case True
    then show ?thesis using c by (simp add: code_at_def nth_append)
  next
    case False
    then have "fn_code (cx_fn K) ! (pc + length xs + (i - length xs)) = ys ! (i - length xs)"
      using c i unfolding code_at_def by (metis add_diff_inverse_nat nat_add_left_cancel_less)
    then show ?thesis using False by (simp add: nth_append)
  qed
  then show "code_at K pc (xs @ ys)" using c by (auto simp: code_at_def)
qed

lemma code_at_Cons: "code_at K pc (b # bs) \<longleftrightarrow> code_at K pc [b] \<and> code_at K (Suc pc) bs"
  using code_at_append [of K pc "[b]" bs] by simp

lemma conf_readByte:
  assumes "conf K pc s t" "code_at K pc [b]"
  shows "\<exists>t'. readByte t = Inr (b, t') \<and> conf K (Suc pc) s t'"
  using assms conf_ip [OF assms(1), of "Suc pc"] conf_frame [OF assms(1)] conf_fn [OF assms(1)]
  by (auto simp: readByte_def code_at_def)

lemma conf_readShort:
  assumes "conf K pc s t" "code_at K pc [hi, lo]"
  shows "\<exists>t'. readShort t = Inr (unat hi * 256 + unat lo, t') \<and> conf K (pc + 2) s t'"
proof -
  have c: "code_at K pc [hi]" "code_at K (Suc pc) [lo]" using assms(2) code_at_Cons by blast+
  obtain t1 where t1: "readByte t = Inr (hi, t1)" "conf K (Suc pc) s t1" using conf_readByte [OF assms(1) c(1)] by blast
  obtain t2 where "readByte t1 = Inr (lo, t2)" "conf K (Suc (Suc pc)) s t2" using conf_readByte [OF t1(2) c(2)] by blast
  then show ?thesis using t1 by (auto simp: readShort_def)
qed

lemma opcode_bits:
  assumes "op < 128"
  shows "asByte op AND DoubleByteArg = 0" "unat (asByte op AND NOT DoubleByteArg) = op"
    "(asByte op OR DoubleByteArg) AND DoubleByteArg \<noteq> 0" "unat ((asByte op OR DoubleByteArg) AND NOT DoubleByteArg) = op"
proof -
  have d: "bit DoubleByteArg n \<longleftrightarrow> n = 7" for n
  proof -
    have "DoubleByteArg = push_bit 7 1" by (simp add: DoubleByteArg_def push_bit_eq_mult)
    then have "bit DoubleByteArg n \<longleftrightarrow> bit (push_bit 7 (1 :: byte)) n" by (rule arg_cong)
    also have "\<dots> \<longleftrightarrow> n = 7" by (simp only: bit_push_bit_iff bit_1_iff) auto
    finally show ?thesis .
  qed
  have "\<not> bit op 7" using assms by (simp add: bit_iff_odd)
  then have b: "\<not> bit (asByte op) 7" by (simp add: asByte_def bit_simps)
  have u: "unat (asByte op) = op" using assms by (simp add: asByte_def unat_of_nat)
  have n: "asByte op AND NOT DoubleByteArg = asByte op"
    using b by (auto intro!: bit_eqI simp: bit_simps d)
  then show "unat (asByte op AND NOT DoubleByteArg) = op" using u by simp
  show "asByte op AND DoubleByteArg = 0" using b by (auto intro!: bit_eqI simp: bit_simps d)
  have "bit ((asByte op OR DoubleByteArg) AND DoubleByteArg) 7" by (simp add: bit_simps d)
  then show "(asByte op OR DoubleByteArg) AND DoubleByteArg \<noteq> 0" by auto
  have "(asByte op OR DoubleByteArg) AND NOT DoubleByteArg = asByte op AND NOT DoubleByteArg"
    by (auto intro!: bit_eqI simp: bit_simps)
  then show "unat ((asByte op OR DoubleByteArg) AND NOT DoubleByteArg) = op" using n u by simp
qed

section \<open>Running\<close>

definition goes :: "nat \<Rightarrow> run_context \<Rightarrow> nat \<Rightarrow> config \<Rightarrow> nat \<Rightarrow> config \<Rightarrow> bool" where
  "goes L K pc s pc' s' \<longleftrightarrow> (\<forall>t. conf K pc s t \<longrightarrow> (\<exists>t'. (step L)\<^sup>*\<^sup>* t t' \<and> conf K pc' s' t'))"

definition stops :: "nat \<Rightarrow> run_context \<Rightarrow> nat \<Rightarrow> config \<Rightarrow> stop \<Rightarrow> bool" where
  "stops L K pc s e \<longleftrightarrow> (\<forall>t. conf K pc s t \<longrightarrow> (\<exists>t'. (step L)\<^sup>*\<^sup>* t t' \<and> turn L t' = Inl e))"

text \<open>A turn hands a division by zero to \<open>unwindToExceptionHandler\<close>, the exception being the newest object.\<close>

definition raises :: "nat \<Rightarrow> run_context \<Rightarrow> nat \<Rightarrow> config \<Rightarrow> module \<Rightarrow> obj list \<Rightarrow> bool" where
  "raises L K pc s md hp \<longleftrightarrow> (\<forall>t. conf K pc s t \<longrightarrow> (\<exists>t' t'' pc' vals. (step L)\<^sup>*\<^sup>* t t'
     \<and> turn L t' = unwindToExceptionHandler (Ref (length hp)) t''
     \<and> conf K pc' (vals, md, hp @ [O_Exception zero_division_message]) t''))"

lemma goes_refl: "goes L K pc s pc s" by (auto simp: goes_def)

lemma goes_trans [trans]: "goes L K p1 s1 p2 s2 \<Longrightarrow> goes L K p2 s2 p3 s3 \<Longrightarrow> goes L K p1 s1 p3 s3"
  unfolding goes_def by (meson rtranclp_trans)

lemma goes_stops: "goes L K p1 s1 p2 s2 \<Longrightarrow> stops L K p2 s2 e \<Longrightarrow> stops L K p1 s1 e"
  unfolding goes_def stops_def by (meson rtranclp_trans)

lemma goes_raises: "goes L K p1 s1 p2 s2 \<Longrightarrow> raises L K p2 s2 md hp \<Longrightarrow> raises L K p1 s1 md hp"
  unfolding goes_def raises_def by (meson rtranclp_trans)

text \<open>One turn: \<open>dbl\<close> says whether the opcode byte carries the flag of a two-byte operand.\<close>

definition op_byte :: "bool \<Rightarrow> nat \<Rightarrow> byte" where
  "op_byte dbl op = (if dbl then asByte op OR DoubleByteArg else asByte op)"

lemma turn_fetch:
  assumes "conf K pc s t" "code_at K pc [op_byte dbl op]" "op < 128" "map_of (instructions L dbl) op = Some h"
  shows "\<exists>t1. turn L t = h t1 \<and> conf K (Suc pc) s t1"
proof -
  obtain t1 where t1: "readByte t = Inr (op_byte dbl op, t1)" "conf K (Suc pc) s t1"
    using conf_readByte [OF assms(1,2)] by blast
  have f: "\<not> frameStart t" "t1\<lparr>frameStart := False\<rparr> = t1"
    using assms(1) t1(2) by (cases s; simp add: conf_def)+
  have "turn L t = h t1"
    using f t1(1) assms(3,4) opcode_bits [OF assms(3)] by (cases dbl) (simp_all add: turn_def execute_instruction_def op_byte_def Let_def)
  then show ?thesis using t1(2) by blast
qed

lemma goes_turn:
  assumes "code_at K pc [op_byte dbl op]" "op < 128" "map_of (instructions L dbl) op = Some h"
    and "\<And>t. conf K (Suc pc) s t \<Longrightarrow> \<exists>t'. h t = Inr t' \<and> conf K pc' s' t'"
  shows "goes L K pc s pc' s'"
  unfolding goes_def
proof (intro allI impI)
  fix t assume c: "conf K pc s t"
  obtain t1 where t1: "turn L t = h t1" "conf K (Suc pc) s t1" using turn_fetch [OF c assms(1-3)] by blast
  obtain t' where "h t1 = Inr t'" "conf K pc' s' t'" using assms(4) [OF t1(2)] by blast
  then show "\<exists>t'. (step L)\<^sup>*\<^sup>* t t' \<and> conf K pc' s' t'" using t1(1) by (metis r_into_rtranclp step.turn)
qed

lemma stops_turn:
  assumes "code_at K pc [op_byte dbl op]" "op < 128" "map_of (instructions L dbl) op = Some h"
    and "\<And>t. conf K (Suc pc) s t \<Longrightarrow> h t = Inl e"
  shows "stops L K pc s e"
  using turn_fetch [OF _ assms(1-3)] assms(4) unfolding stops_def by (metis rtranclp.rtrancl_refl)

lemma raises_turn:
  assumes "code_at K pc [op_byte dbl op]" "op < 128" "map_of (instructions L dbl) op = Some h"
    and "\<And>t. conf K (Suc pc) s t \<Longrightarrow> \<exists>t''. h t = unwindToExceptionHandler (Ref (length hp)) t''
       \<and> conf K pc' (vals, md, hp @ [O_Exception zero_division_message]) t''"
  shows "raises L K pc s md hp"
  unfolding raises_def
proof (intro allI impI)
  fix t assume c: "conf K pc s t"
  obtain t1 where t1: "turn L t = h t1" "conf K (Suc pc) s t1" using turn_fetch [OF c assms(1-3)] by blast
  obtain t'' where "h t1 = unwindToExceptionHandler (Ref (length hp)) t''"
    "conf K pc' (vals, md, hp @ [O_Exception zero_division_message]) t''" using assms(4) [OF t1(2)] by blast
  then show "\<exists>t' t'' pc' vals. (step L)\<^sup>*\<^sup>* t t' \<and> turn L t' = unwindToExceptionHandler (Ref (length hp)) t''
     \<and> conf K pc' (vals, md, hp @ [O_Exception zero_division_message]) t''" using t1(1) by (metis rtranclp.rtrancl_refl)
qed

text \<open>Operands of one or two bytes as \<open>emitOpArgsBytes\<close> writes them.\<close>

lemma op_arg_at:
  assumes "code_at K pc (op_arg op a)" "a < 65536"
  obtains dbl bs where "code_at K pc [op_byte dbl op]" "code_at K (Suc pc) bs" "length (op_arg op a) = Suc (length bs)"
    "\<And>s t. conf K (Suc pc) s t \<Longrightarrow> \<exists>t'. readArg dbl t = Inr (a, t') \<and> conf K (pc + length (op_arg op a)) s t'"
proof (cases "a \<le> 255")
  case True
  then have o: "op_arg op a = [op_byte False op, word_of_nat a]" by (simp add: op_arg_def op_byte_def)
  then have c: "code_at K pc [op_byte False op]" "code_at K (Suc pc) [word_of_nat a]" using assms(1) code_at_Cons by metis+
  have "unat (word_of_nat a :: byte) = a" using True by (simp add: unat_of_nat)
  then have "\<exists>t'. readArg False t = Inr (a, t') \<and> conf K (pc + length (op_arg op a)) s t'" if "conf K (Suc pc) s t" for s t
    using conf_readByte [OF that c(2)] by (auto simp: o readArg_def)
  then show ?thesis by (intro that [OF c]) (simp_all add: o)
next
  case False
  obtain hi lo :: byte where h: "u16_bytes a = [hi, lo]" "unat hi * 256 + unat lo = a"
    using assms(2) False by (simp add: u16_bytes_def unat_of_nat)
  then have o: "op_arg op a = op_byte True op # [hi, lo]" using False by (simp add: op_arg_def op_byte_def)
  then have c: "code_at K pc [op_byte True op]" "code_at K (Suc pc) [hi, lo]" using assms(1) code_at_Cons by metis+
  have "\<exists>t'. readArg True t = Inr (a, t') \<and> conf K (pc + length (op_arg op a)) s t'" if "conf K (Suc pc) s t" for s t
    using conf_readShort [OF that c(2)] h(2) by (simp add: o readArg_def)
  then show ?thesis by (intro that [OF c]) (simp_all add: o)
qed

end
