(* ===== verification/Source_Semantics.thy ===== *)
theory Source_Semantics
  imports Vm_Step Ast_Compile
begin

text \<open>
  What a program means, independently of its compilation: a big-step evaluator over the AST of
  \<open>Ast_Compile\<close> with variables looked up by name.  The operators on values are those of the machine
  (\<open>Scalar_Ops\<close>), module variables those of \<open>Variables_Map\<close>; there are no code positions, slots, jumps
  or constants.  It is about the body of a function: a name is a variable of the function or of the
  module.  Calls, nested functions, constants, labels and jumps have no rule here.
\<close>

section \<open>Stores and values\<close>

text \<open>\<open>s_vars\<close> has the variables in scope, the innermost last.\<close>

record store =
  s_vars :: "(ustring \<times> operand) list"
  s_mod :: module
  s_heap :: "obj list"

text \<open>\<open>Raised\<close>: a division by zero, which programs can catch.\<close>

datatype fault = Stopped stop | Raised store

definition fails :: "stop + 'a \<Rightarrow> fault + 'a" where
  "fails r = (case r of Inl e \<Rightarrow> Inl (Stopped e) | Inr x \<Rightarrow> Inr x)"

lemma fails_simps [simp]: "fails (Inl e) = Inl (Stopped e)" "fails (Inr x) = Inr x"
  by (simp_all add: fails_def)

definition var_get :: "ustring \<Rightarrow> store \<Rightarrow> stop + operand" where
  "var_get name st =
     (case map_of (rev (s_vars st)) name of
        Some v \<Rightarrow> Inr v
      | None \<Rightarrow> (case op_GetModuleVar name (s_mod st) of
            Inl e \<Rightarrow> Inl (Variable_Failure e)
          | Inr (v, inDataflow) \<Rightarrow> if inDataflow \<and> is_obj v then Inl stop.Outside_Model else Inr v))"

definition var_set :: "ustring \<Rightarrow> operand \<Rightarrow> store \<Rightarrow> stop + store" where
  "var_set name v st =
     (if name \<in> fst ` set (s_vars st) then Inr (st\<lparr>s_vars := rev (AList.update name v (rev (s_vars st)))\<rparr>)
      else (case op_SetModuleVar name v (s_mod st) of
            Inl e \<Rightarrow> Inl (Variable_Failure e)
          | Inr md \<Rightarrow> Inr (st\<lparr>s_mod := md\<rparr>)))"

definition num_operand :: "num_lit \<Rightarrow> operand" where
  "num_operand n = Sc (case n of N_Int32 i \<Rightarrow> SInt (scast i) | N_Int64 i \<Rightarrow> SInt i | N_Real d \<Rightarrow> SReal d)"

definition outcome_value :: "scalar outcome \<Rightarrow> stop + operand" where
  "outcome_value r = (case r of Done s \<Rightarrow> Inr (Sc s) | Throws e \<Rightarrow> Inl (Runtime_Failure e) | Undef \<Rightarrow> Inl Undefined)"

definition unary_value :: "unary_op \<Rightarrow> operand \<Rightarrow> stop + operand" where
  "unary_value op v =
     (if is_ref v then Inl stop.Outside_Model
      else outcome_value (case v of
        Sc s \<Rightarrow> (case op of U_BitNot \<Rightarrow> bnot s | _ \<Rightarrow> negate s)
      | _ \<Rightarrow> Throws Invalid_Argument))"

definition binary_fun :: "binary_op \<Rightarrow> (operand \<Rightarrow> operand \<Rightarrow> scalar outcome) option" where
  "binary_fun op =
     (case op of
        B_Add \<Rightarrow> Some (on_scalars add) | B_Subtract \<Rightarrow> Some (on_scalars subtract)
      | B_Multiply \<Rightarrow> Some (on_scalars multiply) | B_Divide \<Rightarrow> Some (on_scalars divide)
      | B_Modulo \<Rightarrow> Some (on_scalars modulo_op) | B_BitAnd \<Rightarrow> Some (on_scalars band)
      | B_BitOr \<Rightarrow> Some (on_scalars bor) | B_BitXor \<Rightarrow> Some (on_scalars bxor)
      | B_Equal \<Rightarrow> Some (\<lambda>l r. Done (SBool (equals l r))) | B_NotEqual \<Rightarrow> Some (\<lambda>l r. Done (SBool (\<not> equals l r)))
      | B_LessThan \<Rightarrow> Some (\<lambda>l r. compare_out (less l r)) | B_GreaterThan \<Rightarrow> Some (\<lambda>l r. compare_out (greater l r))
      | B_LessOrEqual \<Rightarrow> Some (\<lambda>l r. compare_out (lessEqual l r))
      | B_GreaterOrEqual \<Rightarrow> Some (\<lambda>l r. compare_out (greaterEqual l r))
      | _ \<Rightarrow> None)"

definition binary_value :: "binary_op \<Rightarrow> operand \<Rightarrow> operand \<Rightarrow> stop + operand" where
  "binary_value op l r =
     (case (op, l, r) of
        (B_Add, operand.Str s, operand.Str u) \<Rightarrow> Inr (operand.Str (s @ u))
      | (B_Add, operand.Str s, _) \<Rightarrow> Inl stop.Outside_Model
      | _ \<Rightarrow> (case binary_fun op of
            None \<Rightarrow> Inl stop.Outside_Model
          | Some f \<Rightarrow> if is_ref l \<or> is_ref r then Inl stop.Outside_Model else outcome_value (f l r)))"

definition divides_by_zero :: "binary_op \<Rightarrow> operand \<Rightarrow> operand \<Rightarrow> bool" where
  "divides_by_zero op l r \<longleftrightarrow> (op = B_Divide \<or> op = B_Modulo) \<and> \<not> is_ref l \<and> \<not> is_ref r
     \<and> binary_value op l r = Inl (Runtime_Failure Zero_Division)"

section \<open>Expressions\<close>

text \<open>What a conditional jump takes as false, and \<open>or\<close> as true: only scalars are tested.\<close>

definition falsey :: "operand \<Rightarrow> bool" where "falsey v = (case v of Sc s \<Rightarrow> isFalsey s | _ \<Rightarrow> False)"
definition truthy :: "operand \<Rightarrow> bool" where "truthy v = (case v of Sc s \<Rightarrow> isTruthy s | _ \<Rightarrow> False)"

type_synonym evaluation = "store \<Rightarrow> fault + (operand \<times> store)"

definition eval_binary :: "binary_op \<Rightarrow> bool \<Rightarrow> evaluation \<Rightarrow> evaluation \<Rightarrow> evaluation" where
  "eval_binary op notNil lhs rhs st =
     seq_then (lhs st) (\<lambda>(l, st1).
       if op = B_Or then (if truthy l then Inr (l, st1) else rhs st1)
       else if op = B_And then (if falsey l then Inr (l, st1) else rhs st1)
       else if op = B_Is \<and> notNil then Inl (Stopped stop.Outside_Model)
       else seq_then (rhs st1) (\<lambda>(r, st2).
         if divides_by_zero op l r then Inl (Raised st2)
         else seq_then (fails (binary_value op l r)) (\<lambda>v. Inr (v, st2))))"

fun eval_all :: "evaluation list \<Rightarrow> store \<Rightarrow> fault + (operand list \<times> store)" where
  "eval_all [] st = Inr ([], st)"
| "eval_all (f # fs) st = seq_then (f st) (\<lambda>(v, st1). seq_then (eval_all fs st1) (\<lambda>(vs, st2). Inr (v # vs, st2)))"

text \<open>A piece of an interpolated string; conversions to strings are outside the model.\<close>

definition eval_piece :: "ustring + evaluation \<Rightarrow> evaluation" where
  "eval_piece part st =
     (case part of
        Inl text \<Rightarrow> Inr (operand.Str text, st)
      | Inr f \<Rightarrow> seq_then (f st) (\<lambda>(v, st1).
          if string_of v = None then Inl (Stopped stop.Outside_Model) else Inr (v, st1)))"

definition join_strings :: "operand list \<Rightarrow> operand" where
  "join_strings vs = operand.Str (concat (map (\<lambda>v. the (string_of v)) vs))"

primrec eval :: "expr \<Rightarrow> evaluation" where
  "eval (E_Nil p) = (\<lambda>st. Inr (Sc SNil, st))"
| "eval (E_Bool p b) = (\<lambda>st. Inr (Sc (SBool b), st))"
| "eval (E_Num p n) = (\<lambda>st. Inr (num_operand n, st))"
| "eval (E_Str p s) = (\<lambda>st. Inr (operand.Str s, st))"
| "eval (E_Variable p name) = (\<lambda>st. seq_then (fails (var_get name st)) (\<lambda>v. Inr (v, st)))"
| "eval (E_Unary p op e) = (\<lambda>st. seq_then (eval e st) (\<lambda>(v, st1).
     seq_then (fails (unary_value op v)) (\<lambda>w. Inr (w, st1))))"
| "eval (E_Binary p op l r) = eval_binary op (not_nil r \<noteq> None) (eval l) (eval r)"
| "eval (E_Assign p name e) = (\<lambda>st. seq_then (eval e st) (\<lambda>(v, st1).
     seq_then (fails (var_set name v st1)) (\<lambda>st2. Inr (v, st2))))"
| "eval (E_Interp p parts) = (\<lambda>st. seq_then (eval_all (map eval_piece (map (map_sum id eval) parts)) st)
     (\<lambda>(vs, st1). Inr (join_strings vs, st1)))"
| "eval (E_List p es) = (\<lambda>st. seq_then (eval_all (map eval es) st)
     (\<lambda>(vs, st1). Inr (Ref (length (s_heap st1)), st1\<lparr>s_heap := s_heap st1 @ [O_List vs]\<rparr>)))"

section \<open>Statements\<close>

datatype flow = F_Normal | F_Break | F_Continue | F_Return operand

type_synonym outcome_of = "(fault + (flow \<times> store)) option"

definition with_value :: "fault + (operand \<times> store) \<Rightarrow> (operand \<Rightarrow> store \<Rightarrow> outcome_of) \<Rightarrow> outcome_of" where
  "with_value r k = (case r of Inl f \<Rightarrow> Some (Inl f) | Inr (v, st) \<Rightarrow> k v st)"

lemma with_value_cong [fundef_cong]:
  assumes "r = r'" "\<And>v st. r' = Inr (v, st) \<Longrightarrow> k v st = k' v st"
  shows "with_value r k = with_value r' k'"
  using assms by (auto simp: with_value_def split: sum.split)

fun exec_all :: "(store \<Rightarrow> outcome_of) list \<Rightarrow> store \<Rightarrow> outcome_of" where
  "exec_all [] st = Some (Inr (F_Normal, st))"
| "exec_all (f # fs) st =
     (case f st of Some (Inr (F_Normal, st1)) \<Rightarrow> exec_all fs st1 | r \<Rightarrow> r)"

text \<open>A block forgets the variables it declared.\<close>

definition leave_block :: "nat \<Rightarrow> outcome_of \<Rightarrow> outcome_of" where
  "leave_block n r =
     (case r of Some (Inr (fl, st)) \<Rightarrow> Some (Inr (fl, st\<lparr>s_vars := take n (s_vars st)\<rparr>)) | _ \<Rightarrow> r)"

definition exec_block :: "(store \<Rightarrow> outcome_of) list \<Rightarrow> store \<Rightarrow> outcome_of" where
  "exec_block fs st = leave_block (length (s_vars st)) (exec_all fs st)"

text \<open>
  The fuel bounds the iterations of each loop in progress; \<open>None\<close> is running out of it.
\<close>

lemma stmt_size_member: "s \<in> set ss \<Longrightarrow> size (s :: stmt) \<le> size_list size ss"
  by (rule size_list_estimation') auto

function exec :: "nat \<Rightarrow> stmt \<Rightarrow> store \<Rightarrow> outcome_of" where
  "exec n (S_VarDecl p name init) st =
     with_value (case init of None \<Rightarrow> Inr (Sc SNil, st) | Some e \<Rightarrow> eval e st) (\<lambda>v st1.
       Some (Inr (F_Normal, st1\<lparr>s_vars := s_vars st1 @ [(name, v)]\<rparr>)))"
| "exec n (S_Expr p e) st = with_value (eval e st) (\<lambda>v st1. Some (Inr (F_Normal, st1)))"
| "exec n (S_If p c q ss elseSuite) st = with_value (eval c st) (\<lambda>v st1.
     if \<not> falsey v then exec_block (map (exec n) ss) st1
     else (case elseSuite of
         None \<Rightarrow> Some (Inr (F_Normal, st1))
       | Some (q', ss') \<Rightarrow> exec_block (map (exec n) ss') st1))"
| "exec 0 (S_While p c q ss) st = None"
| "exec (Suc n) (S_While p c q ss) st = with_value (eval c st) (\<lambda>v st1.
     if falsey v then Some (Inr (F_Normal, st1))
     else (case exec_block (map (exec (Suc n)) ss) st1 of
         Some (Inr (F_Normal, st2)) \<Rightarrow> exec n (S_While p c q ss) st2
       | Some (Inr (F_Continue, st2)) \<Rightarrow> exec n (S_While p c q ss) st2
       | Some (Inr (F_Break, st2)) \<Rightarrow> Some (Inr (F_Normal, st2))
       | r \<Rightarrow> r))"
| "exec n (S_Break p) st = Some (Inr (F_Break, st))"
| "exec n (S_Continue p) st = Some (Inr (F_Continue, st))"
| "exec n (S_Return p init) st =
     with_value (case init of None \<Rightarrow> Inr (Sc SNil, st) | Some e \<Rightarrow> eval e st) (\<lambda>v st1.
       Some (Inr (F_Return v, st1)))"
| "exec n (S_ConstDecl p name e) st = Some (Inl (Stopped stop.Outside_Model))"
| "exec n (S_FuncDecl p name fp prc params q ss) st = Some (Inl (Stopped stop.Outside_Model))"
| "exec n (S_Label p name) st = Some (Inl (Stopped stop.Outside_Model))"
| "exec n (S_Jump p name) st = Some (Inl (Stopped stop.Outside_Model))"
  by pat_completeness auto
termination by (relation "measures [\<lambda>(n, s, st). n, \<lambda>(n, s, st). size s]") (auto dest!: stmt_size_member)

definition exec_suite :: "nat \<Rightarrow> stmt list \<Rightarrow> store \<Rightarrow> outcome_of" where
  "exec_suite n ss = exec_block (map (exec n) ss)"

end
