(* ===== verification/Code_Effects.thy ===== *)
theory Code_Effects
  imports Code_Runs Source_Semantics
begin

text \<open>
  The effect of each instruction the compiler emits for a program of \<open>Source_Semantics\<close>, as a lemma on
  \<open>goes\<close>, \<open>stops\<close> and \<open>raises\<close> of \<open>Code_Runs\<close>, in terms of the operations of the evaluator.
\<close>

section \<open>Pushing and popping\<close>

definition room :: "run_context \<Rightarrow> operand list \<Rightarrow> nat \<Rightarrow> bool" where
  "room K vals n \<longleftrightarrow> length (cx_lower K) + length vals + n \<le> cx_limit K"

lemma room_mono: "room K vals n \<Longrightarrow> m \<le> n \<Longrightarrow> room K vals m" by (simp add: room_def)
lemma room_snoc: "room K vals (Suc n) \<Longrightarrow> room K (vals @ [v]) n" by (simp add: room_def)

lemma op_byte_False: "op_byte False op = asByte op" by (simp add: op_byte_def)

lemmas plain_turn = goes_turn [where dbl = False, unfolded op_byte_False]
lemmas plain_stop = stops_turn [where dbl = False, unfolded op_byte_False]
lemmas plain_raise = raises_turn [where dbl = False, unfolded op_byte_False]

lemma goes_push:
  assumes "code_at K pc [asByte op]" "room K vals 1"
    and "op = 2 \<and> v = Sc SNil \<or> op = 3 \<and> v = Sc (SBool True) \<or> op = 4 \<and> v = Sc (SBool False)"
  shows "goes L K pc (vals, md, hp) (Suc pc) (vals @ [v], md, hp)"
  by (rule plain_turn [OF assms(1), where h = "op_push v"])
    (use assms in \<open>auto simp: instructions_def op_push_def room_def intro: conf_push\<close>)

lemma goes_Pop:
  assumes "code_at K pc [asByte op]" "op = 27 \<or> op = 29"
  shows "goes L K pc (vals @ [v], md, hp) (Suc pc) (vals, md, hp)"
proof (rule plain_turn [OF assms(1), where h = op_Pop])
  show "op < 128" "map_of (instructions L False) op = Some op_Pop"
    using assms(2) by (auto simp: instructions_def op_StmtAction_def)
next
  fix t assume c: "conf K (Suc pc) (vals @ [v], md, hp) t"
  show "\<exists>t'. op_Pop t = Inr t' \<and> conf K (Suc pc) (vals, md, hp) t'"
    using conf_pop [OF c] by (auto simp: op_Pop_def)
qed

text \<open>Several pops in a row.\<close>

lemma goes_pops:
  assumes "code_at K pc (replicate (length ws) (asByte 27))"
  shows "goes L K pc (vals @ ws, md, hp) (pc + length ws) (vals, md, hp)"
  using assms
proof (induction ws arbitrary: pc rule: rev_induct)
  case Nil
  then show ?case by (simp add: goes_refl)
next
  case (snoc w ws)
  have c: "code_at K pc [asByte 27]" "code_at K (Suc pc) (replicate (length ws) (asByte 27))"
    using snoc.prems code_at_Cons [of K pc "asByte 27" "replicate (length ws) (asByte 27)"] by simp_all
  have "goes L K pc ((vals @ ws) @ [w], md, hp) (Suc pc) (vals @ ws, md, hp)" by (rule goes_Pop [OF c(1)]) simp
  also have "goes L K (Suc pc) (vals @ ws, md, hp) (Suc pc + length ws) (vals, md, hp)" by (rule snoc.IH [OF c(2)])
  finally show ?case by simp
qed

section \<open>Constants and variables\<close>

text \<open>A turn of an instruction with an operand of one or two bytes.\<close>

lemma goes_arg:
  assumes "code_at K pc (op_arg op a)" "a < 65536" "op < 128" "\<And>dbl. map_of (instructions L dbl) op = Some (h dbl)"
    and "\<And>dbl t t1. conf K (Suc pc) s t \<Longrightarrow> readArg dbl t = Inr (a, t1) \<Longrightarrow> conf K (pc + length (op_arg op a)) s t1
      \<Longrightarrow> \<exists>t'. h dbl t = Inr t' \<and> conf K (pc + length (op_arg op a)) s' t'"
  shows "goes L K pc s (pc + length (op_arg op a)) s'"
proof (rule op_arg_at [OF assms(1,2)])
  fix dbl bs
  assume o: "code_at K pc [op_byte dbl op]"
    and r: "\<And>s t. conf K (Suc pc) s t \<Longrightarrow> \<exists>t'. readArg dbl t = Inr (a, t') \<and> conf K (pc + length (op_arg op a)) s t'"
  show ?thesis by (rule goes_turn [OF o assms(3,4)]) (use r assms(5) in blast)
qed

lemma stops_arg:
  assumes "code_at K pc (op_arg op a)" "a < 65536" "op < 128" "\<And>dbl. map_of (instructions L dbl) op = Some (h dbl)"
    and "\<And>dbl t t1. conf K (Suc pc) s t \<Longrightarrow> readArg dbl t = Inr (a, t1) \<Longrightarrow> conf K (pc + length (op_arg op a)) s t1
      \<Longrightarrow> h dbl t = Inl e"
  shows "stops L K pc s e"
proof (rule op_arg_at [OF assms(1,2)])
  fix dbl bs
  assume o: "code_at K pc [op_byte dbl op]"
    and r: "\<And>s t. conf K (Suc pc) s t \<Longrightarrow> \<exists>t'. readArg dbl t = Inr (a, t') \<and> conf K (pc + length (op_arg op a)) s t'"
  show ?thesis by (rule stops_turn [OF o assms(3,4)]) (use r assms(5) in blast)
qed

definition constant_is :: "run_context \<Rightarrow> nat \<Rightarrow> operand \<Rightarrow> bool" where
  "constant_is K k v \<longleftrightarrow> k < length (fn_constants (cx_fn K)) \<and> fn_constants (cx_fn K) ! k = v"

lemma readConstant_is:
  "readArg dbl t = Inr (k, t1) \<Longrightarrow> conf K pc s t1 \<Longrightarrow> constant_is K k v \<Longrightarrow> readConstant dbl t = Inr (v, t1)"
  by (simp add: readConstant_def constant_is_def conf_fn)

lemma readString_is:
  "readArg dbl t = Inr (k, t1) \<Longrightarrow> conf K pc s t1 \<Longrightarrow> constant_is K k (operand.Str x) \<Longrightarrow> readString dbl t = Inr (x, t1)"
  by (simp add: readString_def readConstant_is)

lemma goes_Constant:
  assumes "code_at K pc (op_arg 1 k)" "k < 65536" "constant_is K k v" "room K vals 1"
  shows "goes L K pc (vals, md, hp) (pc + length (op_arg 1 k)) (vals @ [v], md, hp)"
  by (rule goes_arg [OF assms(1,2), where h = op_Constant])
    (use assms(3,4) in \<open>auto simp: instructions_def op_Constant_def room_def readConstant_is intro: conf_push\<close>)

lemma goes_GetLocal:
  assumes "code_at K pc (op_arg 67 i)" "i < 65536" "i < length vals" "room K vals 1"
  shows "goes L K pc (vals, md, hp) (pc + length (op_arg 67 i)) (vals @ [vals ! i], md, hp)"
  by (rule goes_arg [OF assms(1,2), where h = op_GetLocal])
    (use assms(3,4) in \<open>auto simp: instructions_def op_GetLocal_def room_def conf_frame conf_slots conf_slot_read intro: conf_push\<close>)

lemma goes_SetLocal:
  assumes "code_at K pc (op_arg 68 i)" "i < 65536" "i < length vals" "vals = ws @ [v]"
  shows "goes L K pc (vals, md, hp) (pc + length (op_arg 68 i)) (vals[i := v], md, hp)"
  by (rule goes_arg [OF assms(1,2), where h = op_SetLocal])
    (use assms(3,4) conf_slot_write in \<open>auto simp: instructions_def op_SetLocal_def conf_frame conf_slots conf_peek\<close>)

lemma conf_mod: "conf K pc (vals, md, hp) t \<Longrightarrow> modl t = md \<and> conf K pc (vals, md', hp) (t\<lparr>modl := md'\<rparr>)"
  by (simp add: conf_def)

definition module_value :: "ustring \<Rightarrow> module \<Rightarrow> stop + operand" where
  "module_value name md =
     (case op_GetModuleVar name md of
        Inl e \<Rightarrow> Inl (Variable_Failure e)
      | Inr (v, inDataflow) \<Rightarrow> if inDataflow \<and> is_obj v then Inl stop.Outside_Model else Inr v)"

lemma x_GetModuleVar_value:
  assumes "conf K (Suc pc) s t" "readArg dbl t = Inr (k, t1)" "conf K pc' (vals, md, hp) t1" "constant_is K k (operand.Str x)"
  shows "x_GetModuleVar dbl t = seq_then (module_value x md) (\<lambda>v. push v t1)"
  using readString_is [OF assms(2,3,4)] conf_mod [OF assms(3)]
  by (auto simp: x_GetModuleVar_def module_value_def in_module_def split: sum.split)

lemma goes_GetModuleVar:
  assumes "code_at K pc (op_arg 60 k)" "k < 65536" "constant_is K k (operand.Str x)" "module_value x md = Inr v" "room K vals 1"
  shows "goes L K pc (vals, md, hp) (pc + length (op_arg 60 k)) (vals @ [v], md, hp)"
  by (rule goes_arg [OF assms(1,2), where h = x_GetModuleVar])
    (use assms(3,4,5) in \<open>auto simp: instructions_def room_def x_GetModuleVar_value intro: conf_push\<close>)

lemma stops_GetModuleVar:
  assumes "code_at K pc (op_arg 60 k)" "k < 65536" "constant_is K k (operand.Str x)" "module_value x md = Inl e"
  shows "stops L K pc (vals, md, hp) e"
  by (rule stops_arg [OF assms(1,2), where h = x_GetModuleVar])
    (use assms(3,4) in \<open>auto simp: instructions_def x_GetModuleVar_value\<close>)

lemma x_SetModuleVar_value:
  assumes "readArg dbl t = Inr (k, t1)" "conf K pc (vals @ [v], md, hp) t1" "constant_is K k (operand.Str x)"
  shows "x_SetModuleVar dbl t = in_module (op_SetModuleVar x v md) (\<lambda>md'. Inr (t1\<lparr>modl := md'\<rparr>))"
  using readString_is [OF assms] conf_mod [OF assms(2)] conf_peek [OF assms(2), of 0] by (simp add: x_SetModuleVar_def)

lemma goes_SetModuleVar:
  assumes "code_at K pc (op_arg 62 k)" "k < 65536" "constant_is K k (operand.Str x)" "op_SetModuleVar x v md = Inr md'"
  shows "goes L K pc (vals @ [v], md, hp) (pc + length (op_arg 62 k)) (vals @ [v], md', hp)"
  by (rule goes_arg [OF assms(1,2), where h = x_SetModuleVar])
    (use assms(3,4) conf_mod in \<open>auto simp: instructions_def in_module_def x_SetModuleVar_value\<close>)

lemma stops_SetModuleVar:
  assumes "code_at K pc (op_arg 62 k)" "k < 65536" "constant_is K k (operand.Str x)" "op_SetModuleVar x v md = Inl e"
  shows "stops L K pc (vals @ [v], md, hp) (Variable_Failure e)"
  by (rule stops_arg [OF assms(1,2), where h = x_SetModuleVar])
    (use assms(3,4) in \<open>auto simp: instructions_def in_module_def x_SetModuleVar_value\<close>)

section \<open>Operators\<close>

lemma checked_out_value: "checked_out r (\<lambda>v. push v t) = seq_then (outcome_value r) (\<lambda>v. push v t)"
  by (simp add: checked_out_def outcome_value_def split: outcome.split)

lemma conf_pop2:
  assumes "conf K pc (vals @ [l, r], md, hp) t"
  obtains t1 t2 where "pop t = Inr (r, t1)" "pop t1 = Inr (l, t2)" "conf K pc (vals, md, hp) t2"
proof -
  obtain t1 where t1: "pop t = Inr (r, t1)" "conf K pc (vals @ [l], md, hp) t1"
    using conf_pop [of K pc "vals @ [l]" r md hp t] assms by auto
  obtain t2 where "pop t1 = Inr (l, t2)" "conf K pc (vals, md, hp) t2" using conf_pop [OF t1(2)] by blast
  then show ?thesis using that t1(1) by blast
qed

text \<open>What the handler of a binary operator does, given the state with both operands popped.\<close>

definition binary_handler :: "binary_op \<Rightarrow> instruction \<Rightarrow> bool" where
  "binary_handler op h \<longleftrightarrow> (\<forall>K pc vals l r md hp t. conf K pc (vals @ [l, r], md, hp) t \<longrightarrow>
     (\<exists>t2. conf K pc (vals, md, hp) t2 \<and>
       h t = (if divides_by_zero op l r
              then unwindToExceptionHandler (Ref (length hp)) (t2\<lparr>heap := hp @ [O_Exception zero_division_message]\<rparr>)
              else seq_then (binary_value op l r) (\<lambda>v. push v t2))))"

lemma binary_handlerI:
  assumes "\<And>K pc vals l r md hp t t1 t2. \<lbrakk>conf K pc (vals @ [l, r], md, hp) t; pop t = Inr (r, t1); pop t1 = Inr (l, t2);
      conf K pc (vals, md, hp) t2\<rbrakk> \<Longrightarrow> h t = (if divides_by_zero op l r
              then unwindToExceptionHandler (Ref (length hp)) (t2\<lparr>heap := hp @ [O_Exception zero_division_message]\<rparr>)
              else seq_then (binary_value op l r) (\<lambda>v. push v t2))"
  shows "binary_handler op h"
  unfolding binary_handler_def
proof (intro allI impI)
  fix K pc vals l r md hp t assume c: "conf K pc (vals @ [l, r], md, hp) t"
  obtain t1 t2 where "pop t = Inr (r, t1)" "pop t1 = Inr (l, t2)" "conf K pc (vals, md, hp) t2" by (rule conf_pop2 [OF c])
  then show "\<exists>t2. conf K pc (vals, md, hp) t2 \<and> h t = (if divides_by_zero op l r
              then unwindToExceptionHandler (Ref (length hp)) (t2\<lparr>heap := hp @ [O_Exception zero_division_message]\<rparr>)
              else seq_then (binary_value op l r) (\<lambda>v. push v t2))"
    using assms [OF c] by blast
qed

definition plain_binary :: "binary_op \<Rightarrow> bool" where
  "plain_binary op \<longleftrightarrow> binary_fun op \<noteq> None \<and> op \<notin> {B_Add, B_Divide, B_Modulo}"

lemma binary_value_plain:
  "op \<noteq> B_Add \<Longrightarrow> binary_fun op = Some f \<Longrightarrow>
     binary_value op l r = (if is_ref l \<or> is_ref r then Inl stop.Outside_Model else outcome_value (f l r))"
  by (cases op) (simp_all add: binary_value_def)

lemma handler_binaryOp:
  assumes "op \<notin> {B_Add, B_Divide, B_Modulo}" "binary_fun op = Some f"
    and h: "\<And>t. stackTop t \<le> length (stack t) \<Longrightarrow> h t = binaryOp f t"
  shows "binary_handler op h"
proof (rule binary_handlerI)
  fix K pc vals l r md hp t t1 t2
  assume c: "conf K pc (vals @ [l, r], md, hp) t" and p: "pop t = Inr (r, t1)" "pop t1 = Inr (l, t2)"
  have "stackTop t \<le> length (stack t)" using c by (simp add: conf_def)
  then have "h t = binaryOp f t" by (rule h)
  also have "\<dots> = seq_then (binary_value op l r) (\<lambda>v. push v t2)"
    using p assms(1) by (simp add: binaryOp_def checked_out_value binary_value_plain [OF _ assms(2)])
  finally show "h t = (if divides_by_zero op l r
              then unwindToExceptionHandler (Ref (length hp)) (t2\<lparr>heap := hp @ [O_Exception zero_division_message]\<rparr>)
              else seq_then (binary_value op l r) (\<lambda>v. push v t2))"
    using assms(1) by (simp add: divides_by_zero_def)
qed

lemma handler_division:
  assumes "op = B_Divide \<or> op = B_Modulo" "binary_fun op = Some f"
  shows "binary_handler op (binaryOp_div f)"
proof (rule binary_handlerI)
  fix K pc vals l r md hp t t1 t2
  assume p: "pop t = Inr (r, t1)" "pop t1 = Inr (l, t2)" and c: "conf K pc (vals, md, hp) t2"
  have v: "binary_value op l r = (if is_ref l \<or> is_ref r then Inl stop.Outside_Model else outcome_value (f l r))"
    using assms by (intro binary_value_plain) auto
  have "heap t2 = hp" using c by (simp add: conf_def)
  moreover have "f l r = Throws Zero_Division \<longleftrightarrow> outcome_value (f l r) = Inl (Runtime_Failure Zero_Division)"
    by (simp add: outcome_value_def split: outcome.split)
  ultimately show "binaryOp_div f t = (if divides_by_zero op l r
              then unwindToExceptionHandler (Ref (length hp)) (t2\<lparr>heap := hp @ [O_Exception zero_division_message]\<rparr>)
              else seq_then (binary_value op l r) (\<lambda>v. push v t2))"
    using p assms(1) by (auto simp: binaryOp_div_def checked_out_value v divides_by_zero_def alloc_def)
qed

lemma handler_Add: "binary_handler B_Add op_Add"
proof (rule binary_handlerI)
  fix K pc vals l r md hp t t1 t2
  assume c: "conf K pc (vals @ [l, r], md, hp) t" and p: "pop t = Inr (r, t1)" "pop t1 = Inr (l, t2)"
  have "stackTop t \<le> length (stack t)" using c by (simp add: conf_def)
  then have "op_Add t = add_general t" by (rule add_fast_general)
  also have "\<dots> = seq_then (binary_value B_Add l r) (\<lambda>v. push v t2)"
  proof (cases "\<exists>s. l = operand.Str s")
    case True
    have "peek 1 t = Inr l" "peek 0 t = Inr r" using conf_peek [OF c, of 1] conf_peek [OF c, of 0] by (simp_all add: nth_append)
    moreover have "popN 2 t = Inr t2" using p by (simp add: numeral_2_eq_2)
    ultimately show ?thesis using True by (auto simp: add_general_def binary_value_def split: operand.split)
  next
    case False
    then have "binary_value B_Add l r = (if is_ref l \<or> is_ref r then Inl stop.Outside_Model else outcome_value (on_scalars add l r))"
      by (cases l) (simp_all add: binary_value_def binary_fun_def)
    moreover have "peek 1 t = Inr l" using conf_peek [OF c, of 1] by (simp add: nth_append)
    ultimately show ?thesis using False p by (cases l) (simp_all add: add_general_def binaryOp_def checked_out_value)
  qed
  finally show "op_Add t = (if divides_by_zero B_Add l r
              then unwindToExceptionHandler (Ref (length hp)) (t2\<lparr>heap := hp @ [O_Exception zero_division_message]\<rparr>)
              else seq_then (binary_value B_Add l r) (\<lambda>v. push v t2))"
    by (simp add: divides_by_zero_def)
qed

lemma binary_instruction:
  assumes "binary_fun op \<noteq> None"
  obtains n h where "binary_opcodes op = [n]" "n < 128" "map_of (instructions L False) n = Some h" "binary_handler op h"
proof -
  note f = fast_paths
  have "\<exists>n h. binary_opcodes op = [n] \<and> n < 128 \<and> map_of (instructions L False) n = Some h \<and> binary_handler op h"
  proof (cases op)
    case B_Add
    then show ?thesis using handler_Add by (simp add: binary_opcodes_def instructions_def)
  next
    case B_Divide
    then show ?thesis using handler_division [of B_Divide] by (simp add: binary_opcodes_def instructions_def op_Divide_def binary_fun_def)
  next
    case B_Modulo
    then show ?thesis using handler_division [of B_Modulo] by (simp add: binary_opcodes_def instructions_def op_Modulo_def binary_fun_def)
  qed (use assms f in \<open>simp_all add: binary_opcodes_def instructions_def binary_fun_def handler_binaryOp\<close>)
  then show ?thesis using that by blast
qed

lemma binary_effect:
  assumes "binary_fun op \<noteq> None" "code_at K pc (map asByte (binary_opcodes op))" "room K vals 1"
  shows "binary_value op l r = Inr v \<Longrightarrow> goes L K pc (vals @ [l, r], md, hp) (Suc pc) (vals @ [v], md, hp)"
    and "binary_value op l r = Inl e \<Longrightarrow> \<not> divides_by_zero op l r \<Longrightarrow> stops L K pc (vals @ [l, r], md, hp) e"
    and "divides_by_zero op l r \<Longrightarrow> raises L K pc (vals @ [l, r], md, hp) md hp"
    and "length (binary_opcodes op) = 1"
proof -
  obtain n h where n: "binary_opcodes op = [n]" "n < 128" "map_of (instructions L False) n = Some h" "binary_handler op h"
    by (rule binary_instruction [OF assms(1)])
  have c: "code_at K pc [asByte n]" using assms(2) n(1) by simp
  note h = n(4) [unfolded binary_handler_def, rule_format]
  show "length (binary_opcodes op) = 1" using n(1) by simp
  show "goes L K pc (vals @ [l, r], md, hp) (Suc pc) (vals @ [v], md, hp)" if v: "binary_value op l r = Inr v"
  proof (rule plain_turn [OF c n(2,3)])
    fix t assume "conf K (Suc pc) (vals @ [l, r], md, hp) t"
    then obtain t2 where t2: "conf K (Suc pc) (vals, md, hp) t2" "h t = push v t2"
      using h v by (fastforce simp: divides_by_zero_def)
    then show "\<exists>t'. h t = Inr t' \<and> conf K (Suc pc) (vals @ [v], md, hp) t'"
      using conf_push [OF t2(1)] assms(3) by (simp add: room_def)
  qed
  show "stops L K pc (vals @ [l, r], md, hp) e" if "binary_value op l r = Inl e" "\<not> divides_by_zero op l r"
    by (rule plain_stop [OF c n(2,3)]) (use h that in fastforce)
  show "raises L K pc (vals @ [l, r], md, hp) md hp" if d: "divides_by_zero op l r"
  proof (rule plain_raise [OF c n(2,3)])
    fix t assume "conf K (Suc pc) (vals @ [l, r], md, hp) t"
    then obtain t2 where t2: "conf K (Suc pc) (vals, md, hp) t2"
      "h t = unwindToExceptionHandler (Ref (length hp)) (t2\<lparr>heap := hp @ [O_Exception zero_division_message]\<rparr>)"
      using h d by fastforce
    then show "\<exists>t''. h t = unwindToExceptionHandler (Ref (length hp)) t''
       \<and> conf K (Suc pc) (vals, md, hp @ [O_Exception zero_division_message]) t''"
      using runs_fn_append by (auto simp: conf_def)
  qed
qed

lemma stops_unknown:
  assumes "code_at K pc [asByte op]" "op < 128" "map_of (instructions L False) op = None"
  shows "stops L K pc s stop.Outside_Model"
  unfolding stops_def
proof (intro allI impI)
  fix t assume c: "conf K pc s t"
  obtain t1 where t1: "readByte t = Inr (asByte op, t1)" "conf K (Suc pc) s t1"
    using conf_readByte [OF c assms(1)] by blast
  have "\<not> frameStart t" using c by (cases s) (simp add: conf_def)
  then have "turn L t = Inl stop.Outside_Model"
    using t1(1) assms(3) opcode_bits [OF assms(2)] by (simp add: turn_def execute_instruction_def Let_def)
  then show "\<exists>t'. (step L)\<^sup>*\<^sup>* t t' \<and> turn L t' = Inl stop.Outside_Model" by blast
qed

lemma unary_handler:
  assumes "conf K pc (vals @ [v], md, hp) t" "f = (case op of U_BitNot \<Rightarrow> bnot | _ \<Rightarrow> negate)"
  obtains t1 where "conf K pc (vals, md, hp) t1" "op_unary f t = seq_then (unary_value op v) (\<lambda>w. push w t1)"
proof -
  obtain t1 where t1: "pop t = Inr (v, t1)" "conf K pc (vals, md, hp) t1" using conf_pop [OF assms(1)] by blast
  have "op_unary f t = seq_then (unary_value op v) (\<lambda>w. push w t1)"
    using t1(1) assms(2) by (simp add: op_unary_def unary_value_def checked_out_value split: unary_op.split operand.split)
  then show ?thesis using that t1(2) by blast
qed

lemma unary_effect:
  assumes "code_at K pc [asByte (unary_opcode op)]" "room K vals 1"
  shows "unary_value op v = Inr w \<Longrightarrow> goes L K pc (vals @ [v], md, hp) (Suc pc) (vals @ [w], md, hp)"
    and "unary_value op v = Inl e \<Longrightarrow> stops L K pc (vals @ [v], md, hp) e"
proof -
  obtain f where f: "f = (case op of U_BitNot \<Rightarrow> bnot | _ \<Rightarrow> negate)" by simp
  have n: "unary_opcode op < 128" "map_of (instructions L False) (unary_opcode op) = Some (op_unary f)"
    using f by (cases op; simp add: unary_opcode_def instructions_def)+
  show "goes L K pc (vals @ [v], md, hp) (Suc pc) (vals @ [w], md, hp)" if "unary_value op v = Inr w"
  proof (rule plain_turn [OF assms(1) n])
    fix t assume c: "conf K (Suc pc) (vals @ [v], md, hp) t"
    obtain t1 where "conf K (Suc pc) (vals, md, hp) t1" "op_unary f t = seq_then (unary_value op v) (\<lambda>w. push w t1)"
      by (rule unary_handler [OF c f])
    then have t1: "conf K (Suc pc) (vals, md, hp) t1" "op_unary f t = push w t1" using that by simp_all
    then show "\<exists>t'. op_unary f t = Inr t' \<and> conf K (Suc pc) (vals @ [w], md, hp) t'"
      using conf_push [OF t1(1)] assms(2) by (simp add: room_def)
  qed
  show "stops L K pc (vals @ [v], md, hp) e" if "unary_value op v = Inl e"
  proof (rule plain_stop [OF assms(1) n])
    fix t assume c: "conf K (Suc pc) (vals @ [v], md, hp) t"
    obtain t1 where "op_unary f t = seq_then (unary_value op v) (\<lambda>w. push w t1)" by (rule unary_handler [OF c f])
    then show "op_unary f t = Inl e" using that by simp
  qed
qed

section \<open>Jumps\<close>

lemma u16_at:
  assumes "code_at K pc (asByte op # u16_bytes d)" "d < 65536"
  shows "code_at K pc [asByte op]"
    and "conf K (Suc pc) s t \<Longrightarrow> \<exists>t'. readShort t = Inr (d, t') \<and> conf K (pc + 3) s t'"
proof -
  have c: "code_at K pc [asByte op]" "code_at K (Suc pc) (u16_bytes d)"
    using assms(1) code_at_Cons [of K pc "asByte op" "u16_bytes d"] by simp_all
  show "code_at K pc [asByte op]" by (rule c(1))
  obtain hi lo :: byte where h: "u16_bytes d = [hi, lo]" "unat hi * 256 + unat lo = d"
    using assms(2) by (simp add: u16_bytes_def unat_of_nat)
  show "\<exists>t'. readShort t = Inr (d, t') \<and> conf K (pc + 3) s t'" if "conf K (Suc pc) s t"
    using conf_readShort [OF that, of hi lo] c(2) h by (simp add: numeral_3_eq_3)
qed

lemma conf_jump: "conf K pc s t \<Longrightarrow> \<exists>t'. jump_by d t = Inr t' \<and> conf K (pc + d) s t'"
  using conf_ip [of K pc s t "pc + d"] by (simp add: jump_by_def conf_frame)

lemma goes_Jump:
  assumes "code_at K pc (asByte 35 # u16_bytes d)" "d < 65536"
  shows "goes L K pc s (pc + 3 + d) s"
proof (rule plain_turn [OF u16_at(1) [OF assms], where h = op_Jump])
  fix t assume c: "conf K (Suc pc) s t"
  obtain t1 where t1: "readShort t = Inr (d, t1)" "conf K (pc + 3) s t1" using u16_at(2) [OF assms c] by blast
  then show "\<exists>t'. op_Jump t = Inr t' \<and> conf K (pc + 3 + d) s t'"
    using conf_jump [OF t1(2), of d] by (simp add: op_Jump_def)
qed (simp_all add: instructions_def)

lemma goes_Loop:
  assumes "code_at K pc (asByte 36 # u16_bytes d)" "d < 65536" "d \<le> pc + 3"
  shows "goes L K pc s (pc + 3 - d) s"
proof (rule plain_turn [OF u16_at(1) [OF assms(1,2)], where h = op_Loop])
  fix t assume c: "conf K (Suc pc) s t"
  obtain t1 where t1: "readShort t = Inr (d, t1)" "conf K (pc + 3) s t1" using u16_at(2) [OF assms(1,2) c] by blast
  then show "\<exists>t'. op_Loop t = Inr t' \<and> conf K (pc + 3 - d) s t'"
    using conf_ip [OF t1(2), of "pc + 3 - d"] assms(3) conf_frame [OF t1(2)] by (simp add: op_Loop_def)
qed (simp_all add: instructions_def)

lemma goes_jump_when:
  assumes "code_at K pc (asByte op # u16_bytes d)" "d < 65536" "op < 128"
    and "map_of (instructions L False) op = Some (op_jump_when c)"
  shows "goes L K pc (vals @ [v], md, hp)
    (if (case v of Sc s \<Rightarrow> c s | _ \<Rightarrow> False) then pc + 3 + d else pc + 3) (vals @ [v], md, hp)"
proof (rule plain_turn [OF u16_at(1) [OF assms(1,2)] assms(3,4)])
  fix t assume k: "conf K (Suc pc) (vals @ [v], md, hp) t"
  obtain t1 where t1: "readShort t = Inr (d, t1)" "conf K (pc + 3) (vals @ [v], md, hp) t1"
    using u16_at(2) [OF assms(1,2) k] by blast
  have "peek 0 t1 = Inr v" using conf_peek [OF t1(2), of 0] by simp
  then show "\<exists>t'. op_jump_when c t = Inr t' \<and> conf K
      (if (case v of Sc s \<Rightarrow> c s | _ \<Rightarrow> False) then pc + 3 + d else pc + 3) (vals @ [v], md, hp) t'"
    using t1 conf_jump [OF t1(2), of d] by (auto simp: op_jump_when_def)
qed

lemma goes_JumpIfFalse:
  assumes "code_at K pc (asByte op # u16_bytes d)" "d < 65536" "op = 33 \<or> op = 108"
  shows "goes L K pc (vals @ [v], md, hp) (if falsey v then pc + 3 + d else pc + 3) (vals @ [v], md, hp)"
  unfolding falsey_def
  by (rule goes_jump_when [OF assms(1,2)]) (use assms(3) in \<open>auto simp: instructions_def op_JumpIfFalse_def op_AndShortCircuit_def\<close>)

lemma goes_OrShortCircuit:
  assumes "code_at K pc (asByte 109 # u16_bytes d)" "d < 65536"
  shows "goes L K pc (vals @ [v], md, hp) (if truthy v then pc + 3 + d else pc + 3) (vals @ [v], md, hp)"
  unfolding truthy_def
  by (rule goes_jump_when [OF assms(1,2)]) (simp_all add: instructions_def op_OrShortCircuit_def)

lemma goes_combine:
  assumes "code_at K pc [asByte op]" "op = 21 \<or> op = 22" "room K vals 1"
  shows "goes L K pc (vals @ [l, r], md, hp) (Suc pc) (vals @ [r], md, hp)"
proof (rule plain_turn [OF assms(1), where h = op_combine])
  fix t assume c: "conf K (Suc pc) (vals @ [l, r], md, hp) t"
  obtain t1 t2 where t: "pop t = Inr (r, t1)" "pop t1 = Inr (l, t2)" "conf K (Suc pc) (vals, md, hp) t2" by (rule conf_pop2 [OF c])
  then show "\<exists>t'. op_combine t = Inr t' \<and> conf K (Suc pc) (vals @ [r], md, hp) t'"
    using conf_push [OF t(3), of r] assms(3) by (simp add: op_combine_def room_def)
qed (use assms(2) in \<open>auto simp: instructions_def\<close>)

section \<open>Lists and strings\<close>

lemma conf_pop_list:
  "conf K pc (vals @ ws, md, hp) t \<Longrightarrow> \<exists>t'. pop_list (length ws) t = Inr (ws, t') \<and> conf K pc (vals, md, hp) t'"
proof (induction ws arbitrary: t rule: rev_induct)
  case Nil
  then show ?case by simp
next
  case (snoc w ws)
  obtain t1 where t1: "pop t = Inr (w, t1)" "conf K pc (vals @ ws, md, hp) t1"
    using conf_pop [of K pc "vals @ ws" w md hp t] snoc.prems by auto
  obtain t2 where "pop_list (length ws) t1 = Inr (ws, t2)" "conf K pc (vals, md, hp) t2" using snoc.IH [OF t1(2)] by blast
  then show ?case using t1(1) by simp
qed

lemma byte_operand_at:
  assumes "code_at K pc [asByte op, word_of_nat n]" "n < 256"
  shows "code_at K pc [asByte op]"
    and "conf K (Suc pc) s t \<Longrightarrow> \<exists>t'. readByte t = Inr (word_of_nat n, t') \<and> conf K (pc + 2) s t'"
  using assms(1) code_at_Cons [of K pc "asByte op" "[word_of_nat n]"] conf_readByte [of K "Suc pc" s t "word_of_nat n"]
  by simp_all

lemma goes_NewList:
  assumes "code_at K pc [asByte 76, word_of_nat (length ws)]" "length ws < 256" "room K vals 1"
  shows "goes L K pc (vals @ ws, md, hp) (pc + 2) (vals @ [Ref (length hp)], md, hp @ [O_List ws])"
proof (rule plain_turn [OF byte_operand_at(1) [OF assms(1,2)], where h = op_NewList])
  fix t assume c: "conf K (Suc pc) (vals @ ws, md, hp) t"
  obtain t1 where t1: "readByte t = Inr (word_of_nat (length ws), t1)" "conf K (pc + 2) (vals @ ws, md, hp) t1"
    using byte_operand_at(2) [OF assms(1,2) c] by blast
  obtain t2 where t2: "pop_list (length ws) t1 = Inr (ws, t2)" "conf K (pc + 2) (vals, md, hp) t2"
    using conf_pop_list [OF t1(2)] by blast
  have t3: "conf K (pc + 2) (vals, md, hp @ [O_List ws]) (t2\<lparr>heap := hp @ [O_List ws]\<rparr>)"
    using t2(2) runs_fn_append by (auto simp: conf_def)
  have "heap t2 = hp" using t2(2) by (simp add: conf_def)
  moreover have "unat (word_of_nat (length ws) :: byte) = length ws" using assms(2) by (simp add: unat_of_nat)
  ultimately show "\<exists>t'. op_NewList t = Inr t' \<and> conf K (pc + 2) (vals @ [Ref (length hp)], md, hp @ [O_List ws]) t'"
    using t1(1) t2(1) conf_push [OF t3, of "Ref (length hp)"] assms(3) by (simp add: op_NewList_def alloc_def room_def)
qed (simp_all add: instructions_def)

lemma goes_Concat:
  assumes "code_at K pc [asByte 105, word_of_nat (length ws)]" "length ws < 256" "room K vals 1"
    and "\<forall>w \<in> set ws. string_of w \<noteq> None"
  shows "goes L K pc (vals @ ws, md, hp) (pc + 2) (vals @ [join_strings ws], md, hp)"
proof (rule plain_turn [OF byte_operand_at(1) [OF assms(1,2)], where h = op_Concat])
  fix t assume c: "conf K (Suc pc) (vals @ ws, md, hp) t"
  obtain t1 where t1: "readByte t = Inr (word_of_nat (length ws), t1)" "conf K (pc + 2) (vals @ ws, md, hp) t1"
    using byte_operand_at(2) [OF assms(1,2) c] by blast
  obtain t2 where t2: "pop_list (length ws) t1 = Inr (ws, t2)" "conf K (pc + 2) (vals, md, hp) t2"
    using conf_pop_list [OF t1(2)] by blast
  have "unat (word_of_nat (length ws) :: byte) = length ws" using assms(2) by (simp add: unat_of_nat)
  then show "\<exists>t'. op_Concat t = Inr t' \<and> conf K (pc + 2) (vals @ [join_strings ws], md, hp) t'"
    using t1(1) t2(1) conf_push [OF t2(2), of "join_strings ws"] assms(3,4) by (simp add: op_Concat_def room_def join_strings_def)
qed (simp_all add: instructions_def)

lemma ToStringPart_effect:
  assumes "code_at K pc [asByte 104]"
  shows "string_of v \<noteq> None \<Longrightarrow> goes L K pc (vals @ [v], md, hp) (Suc pc) (vals @ [v], md, hp)"
    and "string_of v = None \<Longrightarrow> stops L K pc (vals @ [v], md, hp) stop.Outside_Model"
proof -
  have p: "peek 0 t = Inr v" if "conf K q (vals @ [v], md, hp) t" for t q using conf_peek [OF that, of 0] by simp
  show "goes L K pc (vals @ [v], md, hp) (Suc pc) (vals @ [v], md, hp)" if "string_of v \<noteq> None"
    by (rule plain_turn [OF assms, where h = op_ToStringPart]) (use p that in \<open>simp_all add: instructions_def op_ToStringPart_def\<close>)
  show "stops L K pc (vals @ [v], md, hp) stop.Outside_Model" if "string_of v = None"
    by (rule plain_stop [OF assms, where h = op_ToStringPart]) (use p that in \<open>simp_all add: instructions_def op_ToStringPart_def\<close>)
qed

end
