(* ===== verification/Compile_Emits.thy ===== *)
theory Compile_Emits
  imports Code_Effects
begin

text \<open>
  What a visitor of \<open>Ast_Compile\<close> that only writes code and constants changes in the state of the
  compiler, and what the constants it adds are at run time.
\<close>

section \<open>What emission changes\<close>

definition code_len :: "compiler \<Rightarrow> nat" where "code_len cs = length (code (currentChunk cs))"

definition idents_ok :: "func_scope \<Rightarrow> bool" where
  "idents_ok fs \<longleftrightarrow> (\<forall>i \<in> set (identConsts fs). i < 65536)"

definition emits :: "compiler \<Rightarrow> byte list \<Rightarrow> compiler \<Rightarrow> bool" where
  "emits cs bs cs' \<longleftrightarrow> (\<exists>c ids ks. cs' = cs\<lparr>func := (func cs)\<lparr>fchunk := c, identConsts := ids\<rparr>\<rparr>
     \<and> code c = code (currentChunk cs) @ bs \<and> constants c = constants (currentChunk cs) @ ks
     \<and> (idents_ok (func cs) \<longrightarrow> idents_ok (func cs')))"

lemma emits_trans: "emits cs1 xs cs2 \<Longrightarrow> emits cs2 ys cs3 \<Longrightarrow> emits cs1 (xs @ ys) cs3"
proof -
  assume e: "emits cs1 xs cs2" "emits cs2 ys cs3"
  obtain c1 ids1 ks1 where a: "cs2 = cs1\<lparr>func := (func cs1)\<lparr>fchunk := c1, identConsts := ids1\<rparr>\<rparr>"
    "code c1 = code (currentChunk cs1) @ xs" "constants c1 = constants (currentChunk cs1) @ ks1"
    "idents_ok (func cs1) \<longrightarrow> idents_ok (func cs2)" using e(1) unfolding emits_def by blast
  obtain c2 ids2 ks2 where b: "cs3 = cs2\<lparr>func := (func cs2)\<lparr>fchunk := c2, identConsts := ids2\<rparr>\<rparr>"
    "code c2 = code (currentChunk cs2) @ ys" "constants c2 = constants (currentChunk cs2) @ ks2"
    "idents_ok (func cs2) \<longrightarrow> idents_ok (func cs3)" using e(2) unfolding emits_def by blast
  have "cs3 = cs1\<lparr>func := (func cs1)\<lparr>fchunk := c2, identConsts := ids2\<rparr>\<rparr>" "currentChunk cs2 = c1"
    using a(1) b(1) by (simp_all add: currentChunk_def)
  then show ?thesis unfolding emits_def
    by (intro exI [of _ c2] exI [of _ ids2] exI [of _ "ks1 @ ks2"]) (use a(2-4) b(2-4) in simp)
qed

lemma emits_refl: "emits cs [] cs"
  unfolding emits_def by (intro exI [of _ "currentChunk cs"] exI [of _ "identConsts (func cs)"] exI [of _ "[]"])
    (simp add: currentChunk_def)

lemma emits_len: "emits cs bs cs' \<Longrightarrow> code_len cs' = code_len cs + length bs"
  by (auto simp: emits_def code_len_def currentChunk_def)

text \<open>The fields of the state that no expression touches.\<close>

lemma emits_fields:
  assumes "emits cs bs cs'"
  shows "locals (func cs') = locals (func cs)" "constBindings (func cs') = constBindings (func cs)"
    "pendingLocals (func cs') = pendingLocals (func cs)" "scopeDepth (func cs') = scopeDepth (func cs)"
    "initializer (func cs') = initializer (func cs)" "enclosing cs' = enclosing cs"
    "inModuleFunction cs' = inModuleFunction cs" "loopStack cs' = loopStack cs" "isProc cs' = isProc cs"
    "pendingJumps cs' = pendingJumps cs" "blockPath (func cs') = blockPath (func cs)"
  using assms by (auto simp: emits_def)

lemma emits_idents: "emits cs bs cs' \<Longrightarrow> idents_ok (func cs) \<Longrightarrow> idents_ok (func cs')"
  by (auto simp: emits_def)

lemma emits_chunk:
  assumes "code (f (currentChunk cs)) = code (currentChunk cs) @ bs" "constants (f (currentChunk cs)) = constants (currentChunk cs) @ ks"
  shows "emits cs bs (on_chunk f cs)"
  using assms by (auto simp: emits_def on_chunk_def on_func_def currentChunk_def idents_ok_def
      intro!: exI [of _ "f (fchunk (func cs))"] exI [of _ "identConsts (func cs)"])

lemma constants_emit [simp]:
  "constants (chunk_write b line column c) = constants c" "constants (emitOp p op c) = constants c"
  "constants (emitBytes p b1 b2 c) = constants c" "constants (emitBytes3 p b1 b2 b3 c) = constants c"
  "constants (emitByte p b c) = constants c" "constants (emitOpArgsBytes p op arg c) = constants c"
  by (simp_all add: chunk_write_def emitOp_def emitBytes_def emitBytes3_def emitByte_def emitOpArgsBytes_def Let_def)

lemma emits_op: "emits cs [asByte op] (emit_op p op cs)"
  unfolding emit_op_def by (rule emits_chunk [where ks = "[]"]) simp_all

lemma emits_op_byte: "emits cs [asByte op, b] (emit_op_byte p op b cs)"
  unfolding emit_op_byte_def by (rule emits_chunk [where ks = "[]"]) simp_all

lemma emits_op_arg: "emits cs (op_arg op (unat arg)) (emit_op_arg p op arg cs)"
  unfolding emit_op_arg_def by (rule emits_chunk [where ks = "[]"]) simp_all

lemma emits_ops: "emits cs (map asByte ops) (fold (emit_op p) ops cs)"
proof (induction ops arbitrary: cs)
  case Nil
  then show ?case by (simp add: emits_refl)
next
  case (Cons op ops)
  show ?case using emits_trans [OF emits_op Cons.IH] by simp
qed

lemma emits_jump:
  "emit_jump p op cs = (at, cs1) \<Longrightarrow> emits cs [asByte op, 0xff, 0xff] cs1 \<and> at = code_len cs + 1"
proof -
  assume e: "emit_jump p op cs = (at, cs1)"
  then obtain c where c: "emitJump p op (currentChunk cs) = (at, c)" "cs1 = on_chunk (\<lambda>_. c) cs"
    by (auto simp: emit_jump_def split: prod.splits)
  have "constants c = constants (currentChunk cs)" using c(1) by (auto simp: emitJump_def Let_def)
  then have "emits cs [asByte op, 0xff, 0xff] (on_chunk (\<lambda>_. c) cs)"
    using emitJump_code [OF c(1)] by (intro emits_chunk [where ks = "[]"]) simp_all
  then show ?thesis using emitJump_code [OF c(1)] c(2) by (simp add: code_len_def)
qed

lemma patchJump_code:
  assumes "patchJump at c = Inr c'" "code c = pre @ [x, y] @ rest" "at = length pre"
  shows "code c' = pre @ u16_bytes (length rest) @ rest \<and> length rest < 65536 \<and> c' = c\<lparr>code := code c'\<rparr>"
proof -
  have d: "length (code c) - at - 2 = length rest" using assms(2,3) by simp
  have l: "length rest \<le> 65535" and c': "c' = patchU16At at (word_of_nat (length rest)) c"
    using assms(1) unfolding patchJump_def Let_def d by (auto split: if_splits)
  have "code c' = pre @ u16_bytes (unat (word_of_nat (length rest) :: u16)) @ rest"
    unfolding c' assms(3) by (rule patchU16At_code [OF assms(2)])
  then show ?thesis using l c' by (simp add: unat_of_nat patchU16At_def)
qed

lemma emits_overwrite:
  assumes e: "emits cs as cs1" and c: "code c = code (currentChunk cs) @ bs" "constants c = constants (currentChunk cs1)"
  shows "emits cs bs (on_chunk (\<lambda>_. c) cs1)"
proof -
  obtain c1 ids ks where a: "cs1 = cs\<lparr>func := (func cs)\<lparr>fchunk := c1, identConsts := ids\<rparr>\<rparr>"
    "constants c1 = constants (currentChunk cs) @ ks" "idents_ok (func cs) \<longrightarrow> idents_ok (func cs1)"
    using e unfolding emits_def by blast
  have "on_chunk (\<lambda>_. c) cs1 = cs\<lparr>func := (func cs)\<lparr>fchunk := c, identConsts := ids\<rparr>\<rparr>" "currentChunk cs1 = c1"
    using a(1) by (simp_all add: on_chunk_def on_func_def currentChunk_def)
  moreover have "idents_ok (func (on_chunk (\<lambda>_. c) cs1)) = idents_ok (func cs1)"
    by (simp add: idents_ok_def on_chunk_def on_func_def)
  ultimately show ?thesis unfolding emits_def
    by (intro exI [of _ c] exI [of _ ids] exI [of _ ks]) (use a(2-3) c in simp)
qed

text \<open>A forward jump is patched over the code emitted since.\<close>

lemma emits_patch:
  assumes "emits cs (xs @ [b, 0xff, 0xff] @ bs) cs1" "patch_jump (code_len cs + length xs + 1) cs1 = Inr cs2"
  shows "emits cs (xs @ [b] @ u16_bytes (length bs) @ bs) cs2 \<and> length bs < 65536"
proof -
  obtain c where c: "patchJump (code_len cs + length xs + 1) (currentChunk cs1) = Inr c" "cs2 = on_chunk (\<lambda>_. c) cs1"
    using assms(2) by (auto simp: patch_jump_def try_chunk_def seq_then_eq_Inr)
  have cd: "code (currentChunk cs1) = (code (currentChunk cs) @ xs @ [b]) @ [0xff, 0xff] @ bs"
    using assms(1) by (auto simp: emits_def currentChunk_def)
  have a: "code_len cs + length xs + 1 = length (code (currentChunk cs) @ xs @ [b])" by (simp add: code_len_def)
  note pj = patchJump_code [OF c(1) cd a]
  have p: "code c = (code (currentChunk cs) @ xs @ [b]) @ u16_bytes (length bs) @ bs" "length bs < 65536"
    using pj by blast+
  have p3: "c = (currentChunk cs1)\<lparr>code := code c\<rparr>" using pj by blast
  have "constants c = constants (currentChunk cs1)" by (subst p3) simp
  then have "emits cs (xs @ [b] @ u16_bytes (length bs) @ bs) cs2"
    unfolding c(2) by (intro emits_overwrite [OF assms(1)]) (use p(1) in simp_all)
  then show ?thesis using p(2) by simp
qed

section \<open>Constants\<close>

definition scalar_of_word :: "u64 \<Rightarrow> scalar" where
  "scalar_of_word w =
     (if isNil w then SNil else if isBool w then SBool (asBool_word w)
      else if isInt w then SInt (word_of_int (asIntUnchecked w)) else SReal w)"

text \<open>The constant table of the running function is that of the chunk, and may go on beyond it.\<close>

definition loaded :: "run_context \<Rightarrow> compiler \<Rightarrow> bool" where
  "loaded K cs \<longleftrightarrow> (\<forall>i < length (constants (currentChunk cs)).
     case constants (currentChunk cs) ! i of
       Const_Value (Imm w) \<Rightarrow> constant_is K i (Sc (scalar_of_word w))
     | Const_Value (Str s) \<Rightarrow> constant_is K i (operand.Str s)
     | _ \<Rightarrow> True)"

lemma loaded_mono: "emits cs bs cs' \<Longrightarrow> loaded K cs' \<Longrightarrow> loaded K cs"
proof -
  assume e: "emits cs bs cs'" and l: "loaded K cs'"
  obtain ks where k: "constants (currentChunk cs') = constants (currentChunk cs) @ ks"
    using e by (auto simp: emits_def currentChunk_def)
  show ?thesis unfolding loaded_def
  proof (intro allI impI)
    fix i assume i: "i < length (constants (currentChunk cs))"
    then have "constants (currentChunk cs') ! i = constants (currentChunk cs) ! i" "i < length (constants (currentChunk cs'))"
      using k by (simp_all add: nth_append)
    then show "case constants (currentChunk cs) ! i of
       Const_Value (Imm w) \<Rightarrow> constant_is K i (Sc (scalar_of_word w))
     | Const_Value (Str s) \<Rightarrow> constant_is K i (operand.Str s)
     | _ \<Rightarrow> True" using l unfolding loaded_def by metis
  qed
qed

lemma makeConstant_spec:
  "makeConstant v c = Inr (k, c') \<Longrightarrow> constants c' = constants c @ [v] \<and> code c' = code c \<and> unat k = length (constants c)"
  by (auto simp: makeConstant_def addConstant_def Let_def unat_of_nat split: if_splits)

lemma emits_constant:
  assumes "emit_constant p v cs = Inr cs'"
  obtains k where "k < 65536" "emits cs (op_arg 1 k) cs'" "k < length (constants (currentChunk cs'))"
    "constants (currentChunk cs') ! k = Const_Value v"
proof -
  obtain k c1 where m: "makeConstant (Const_Value v) (currentChunk cs) = Inr (k, c1)"
    "cs' = on_chunk (\<lambda>_. emitOpArgsBytes p OpConstant k c1) cs"
    using assms by (auto simp: emit_constant_def try_chunk_def emitConstant_def seq_then_eq_Inr)
  note s = makeConstant_spec [OF m(1)]
  have "emits cs (op_arg 1 (unat k)) cs'" unfolding m(2) by (rule emits_chunk) (use s in simp_all)
  moreover have "unat k < 65536" using unsigned_less [of k, where ?'a = nat] by simp
  ultimately show ?thesis using s m(2)
    by (intro that [of "unat k"]) (simp_all add: on_chunk_def on_func_def currentChunk_def nth_append)
qed

lemma ident_search_hit:
  "ident_search ks is x = Inr (Some i) \<Longrightarrow> i \<in> set is \<and> i < length ks \<and> ks ! i = Const_Value (Str x)"
  by (induction ks "is" x rule: ident_search.induct) (auto split: if_splits chunk_const.splits rvalue.splits)

lemma emits_identifier:
  assumes "identifier_constant x cs = Inr (k, cs')" "idents_ok (func cs)"
  shows "emits cs [] cs'" "unat k < length (constants (currentChunk cs'))"
    "constants (currentChunk cs') ! unat k = Const_Value (Str x)"
proof -
  obtain fs where f: "identifierConstant x (func cs) = Inr (k, fs)" "cs' = cs\<lparr>func := fs\<rparr>"
    using assms(1) by (auto simp: identifier_constant_def seq_then_eq_Inr)
  obtain found where s: "ident_search (constants (fchunk (func cs))) (identConsts (func cs)) x = Inr found"
    using f(1) by (auto simp: identifierConstant_def seq_then_eq_Inr)
  have "emits cs [] cs' \<and> unat k < length (constants (currentChunk cs'))
    \<and> constants (currentChunk cs') ! unat k = Const_Value (Str x)"
  proof (cases found)
    case (Some i)
    have h: "i \<in> set (identConsts (func cs))" "i < length (constants (fchunk (func cs)))"
      "constants (fchunk (func cs)) ! i = Const_Value (Str x)" using ident_search_hit [of _ _ x i] s Some by blast+
    have "k = word_of_nat i" "fs = func cs" using f(1) s Some by (auto simp: identifierConstant_def)
    moreover have "unat (word_of_nat i :: u16) = i" using h(1) assms(2) by (auto simp: idents_ok_def unat_of_nat)
    ultimately show ?thesis using h f(2) emits_refl [of cs] by (simp add: currentChunk_def)
  next
    case None
    obtain c1 where m: "makeConstant (Const_Value (Str x)) (fchunk (func cs)) = Inr (k, c1)"
      "fs = (func cs)\<lparr>fchunk := c1, identConsts := identConsts (func cs) @ [unat k]\<rparr>"
      using f(1) s None by (auto simp: identifierConstant_def seq_then_eq_Inr)
    have k: "unat k < 65536" using unsigned_less [of k, where ?'a = nat] by simp
    show ?thesis using makeConstant_spec [OF m(1)] m(2) f(2) k
      by (auto simp: emits_def currentChunk_def idents_ok_def nth_append)
  qed
  then show "emits cs [] cs'" "unat k < length (constants (currentChunk cs'))"
    "constants (currentChunk cs') ! unat k = Const_Value (Str x)" by blast+
qed

end
