(* ===== verification/Compile_Exprs.thy ===== *)
theory Compile_Exprs
  imports Compile_Emits
begin

text \<open>
  Compiled expressions compute what the evaluator of \<open>Source_Semantics\<close> says: the locals of the
  compiler are the variables of the store, slot by slot, and every visitor of an expression emits code
  that leaves the value on top of the stack, or stops or raises as the evaluator does.
\<close>

section \<open>Locals and variables\<close>

text \<open>
  \<open>names\<close> are the initialized locals of a function, outermost first; what follows them is declared but
  not yet initialized.  No enclosing function has a compile-time constant, or a local a name could
  refer to.
\<close>

definition fresh :: "local_slot \<Rightarrow> bool" where "fresh l \<longleftrightarrow> l_depth l = -1"

definition plain :: "ustring list \<Rightarrow> compiler \<Rightarrow> bool" where
  "plain names cs \<longleftrightarrow>
     (\<exists>ls fl. locals (func cs) = ls @ fl \<and> map l_name ls = names \<and> (\<forall>l \<in> set ls. \<not> fresh l) \<and> (\<forall>l \<in> set fl. fresh l))
     \<and> length names \<le> 255 \<and> (\<forall>x. lookupConstBinding x (func cs # enclosing cs) = None)
     \<and> (\<forall>x. x \<notin> set names \<longrightarrow> enclosing_local x (enclosing cs) = None)
     \<and> \<not> inModuleFunction cs \<and> idents_ok (func cs)"

lemma plain_emits: "emits cs bs cs' \<Longrightarrow> plain names cs \<Longrightarrow> plain names cs'"
proof -
  assume e: "emits cs bs cs'" and p: "plain names cs"
  have "lookupConstBinding x (func cs' # enclosing cs') = lookupConstBinding x (func cs # enclosing cs)" for x
    by (simp add: emits_fields [OF e])
  then show ?thesis using p emits_fields [OF e] emits_idents [OF e] by (simp add: plain_def)
qed

lemma local_scan_append: "n \<le> length ls \<Longrightarrow> local_scan (ls @ fl) n x = local_scan ls n x"
  by (induction n) (simp_all add: nth_append)

lemma local_scan_fresh:
  "\<forall>l \<in> set fl. fresh l \<Longrightarrow> local_scan (ls @ fl) (length ls + length fl) x = local_scan ls (length ls) x"
proof (induction fl rule: rev_induct)
  case Nil
  then show ?case by simp
next
  case (snoc l fl)
  have "local_scan ((ls @ fl) @ [l]) (length ls + length fl) x = local_scan (ls @ fl) (length ls + length fl) x"
    by (rule local_scan_append) simp
  then show ?case using snoc by (simp add: nth_append fresh_def)
qed

text \<open>The slot a name resolves to has the innermost variable of that name.\<close>

lemma local_scan_vars:
  "map l_name ls = map fst vars \<Longrightarrow> \<forall>l \<in> set ls. \<not> fresh l \<Longrightarrow>
     (case map_of (rev vars) x of
        None \<Rightarrow> local_scan ls (length ls) x = -1
      | Some v \<Rightarrow> (\<exists>i < length vars. local_scan ls (length ls) x = int i \<and> map snd vars ! i = v
          \<and> (\<forall>w. rev (AList.update x w (rev vars)) = vars[i := (x, w)])))"
proof (induction vars arbitrary: ls rule: rev_induct)
  case Nil
  then show ?case by simp
next
  case (snoc yv vars)
  obtain y v where y: "yv = (y, v)" by (cases yv)
  obtain l ks where l: "ls = ks @ [l]" "map l_name ks = map fst vars" "l_name l = y"
    using snoc.prems(1) y by (cases ls rule: rev_cases) auto
  have "local_scan (ks @ [l]) (length ks) x = local_scan ks (length ks) x" by (rule local_scan_append) simp
  then have scan: "local_scan ls (length ls) x = (if y = x then int (length ks) else local_scan ks (length ks) x)"
    using snoc.prems(2) l by (simp add: fresh_def)
  have len: "length ks = length vars" using l(2) by (metis length_map)
  show ?case
  proof (cases "y = x")
    case True
    then show ?thesis using scan len y by (auto simp: nth_append intro!: exI [of _ "length vars"])
  next
    case False
    have "case map_of (rev vars) x of
        None \<Rightarrow> local_scan ks (length ks) x = -1
      | Some v \<Rightarrow> (\<exists>i < length vars. local_scan ks (length ks) x = int i \<and> map snd vars ! i = v
          \<and> (\<forall>w. rev (AList.update x w (rev vars)) = vars[i := (x, w)]))"
      by (rule snoc.IH [OF l(2)]) (use snoc.prems(2) l(1) in simp)
    then show ?thesis using False scan y
      by (cases "map_of (rev vars) x") (auto simp: nth_append list_update_append)
  qed
qed

lemma plain_resolve:
  assumes "plain names cs" "map fst vars = names"
  shows "case map_of (rev vars) x of
        None \<Rightarrow> resolveLocal (func cs) x = -1
      | Some v \<Rightarrow> (\<exists>i < length vars. resolveLocal (func cs) x = int i \<and> map snd vars ! i = v
          \<and> (\<forall>w. rev (AList.update x w (rev vars)) = vars[i := (x, w)]))"
proof -
  obtain ls fl where l: "locals (func cs) = ls @ fl" "map l_name ls = names" "\<forall>l \<in> set ls. \<not> fresh l" "\<forall>l \<in> set fl. fresh l"
    using assms(1) by (auto simp: plain_def)
  have "resolveLocal (func cs) x = local_scan ls (length ls) x"
    using local_scan_fresh [OF l(4)] by (simp add: resolveLocal_def l(1))
  then show ?thesis by (simp only:) (rule local_scan_vars, use l(2,3) assms(2) in simp_all)
qed

section \<open>Reaching a result\<close>

definition config_of :: "store \<Rightarrow> operand list \<Rightarrow> config" where
  "config_of st temps = (map snd (s_vars st) @ temps, s_mod st, s_heap st)"

text \<open>From a configuration, the code reaches what an evaluation returned; \<open>g\<close> says how its value lies on the stack.\<close>

definition reaches ::
  "nat \<Rightarrow> run_context \<Rightarrow> nat \<Rightarrow> config \<Rightarrow> ustring list \<Rightarrow> ('a \<Rightarrow> operand list) \<Rightarrow> nat \<Rightarrow> fault + ('a \<times> store) \<Rightarrow> bool" where
  "reaches L K pc s names g pc' r \<longleftrightarrow>
     (case r of
        Inr (v, st) \<Rightarrow> map fst (s_vars st) = names \<and> goes L K pc s pc' (config_of st (g v))
      | Inl (Stopped e) \<Rightarrow> stops L K pc s e
      | Inl (Raised st) \<Rightarrow> raises L K pc s (s_mod st) (s_heap st))"

lemma reaches_goes:
  "goes L K p1 s1 p2 s2 \<Longrightarrow> reaches L K p2 s2 names g p3 r \<Longrightarrow> reaches L K p1 s1 names g p3 r"
  by (auto simp: reaches_def split: sum.split fault.split intro: goes_trans goes_stops goes_raises)

lemma reaches_bind:
  assumes "reaches L K p1 s names g p2 r"
    and "\<And>v st. r = Inr (v, st) \<Longrightarrow> map fst (s_vars st) = names \<Longrightarrow> reaches L K p2 (config_of st (g v)) names h p3 (k (v, st))"
  shows "reaches L K p1 s names h p3 (seq_then r k)"
proof (cases r)
  case (Inl f)
  then show ?thesis using assms(1) by (simp add: reaches_def split: fault.split)
next
  case (Inr a)
  obtain v st where a: "r = Inr (v, st)" using Inr by (cases a) auto
  then have "goes L K p1 s p2 (config_of st (g v))" "map fst (s_vars st) = names" using assms(1) by (auto simp: reaches_def)
  then show ?thesis using assms(2) [OF a] a by (auto intro: reaches_goes)
qed

lemma reaches_fails:
  assumes "\<And>e. r = Inl e \<Longrightarrow> stops L K p1 s e"
    and "\<And>v. r = Inr v \<Longrightarrow> reaches L K p1 s names g p2 (k v)"
  shows "reaches L K p1 s names g p2 (seq_then (fails r) k)"
  using assms by (cases r) (simp_all add: reaches_def)

definition space :: "run_context \<Rightarrow> ustring list \<Rightarrow> operand list \<Rightarrow> nat \<Rightarrow> bool" where
  "space K names temps d \<longleftrightarrow> length (cx_lower K) + length names + length temps + d \<le> cx_limit K"

lemma space_room: "space K names temps d \<Longrightarrow> map fst (s_vars st) = names \<Longrightarrow> n \<le> d \<Longrightarrow> room K (map snd (s_vars st) @ temps) n"
  by (auto simp: space_def room_def)

lemma space_snoc: "space K names temps (Suc d) \<Longrightarrow> space K names (temps @ [v]) d" by (simp add: space_def)
lemma space_mono: "space K names temps d \<Longrightarrow> n \<le> d \<Longrightarrow> space K names temps n" by (simp add: space_def)

text \<open>
  A pass emits code that does the evaluation \<open>k\<close> in place, with \<open>d\<close> free stack slots above \<open>temps\<close>:
  \<open>pre\<close> lies on the stack before, \<open>post\<close> after it.
\<close>

definition does ::
  "ustring list \<Rightarrow> nat \<Rightarrow> byte list \<Rightarrow> compiler \<Rightarrow> nat \<Rightarrow> ('a \<Rightarrow> bool) \<Rightarrow> ('a \<Rightarrow> operand list) \<Rightarrow> ('b \<Rightarrow> operand list)
     \<Rightarrow> ('a \<times> store \<Rightarrow> fault + ('b \<times> store)) \<Rightarrow> bool" where
  "does names pc bs cs' d P pre post k \<longleftrightarrow>
     (\<forall>L K st temps x. code_at K pc bs \<longrightarrow> loaded K cs' \<longrightarrow> map fst (s_vars st) = names \<longrightarrow> space K names temps d \<longrightarrow> P x \<longrightarrow>
        reaches L K pc (config_of st (temps @ pre x)) names (\<lambda>y. temps @ post y) (pc + length bs) (k (x, st)))"

lemma doesI:
  assumes "\<And>L K st temps x. \<lbrakk>code_at K pc bs; loaded K cs'; map fst (s_vars st) = names; space K names temps d; P x\<rbrakk> \<Longrightarrow>
        reaches L K pc (config_of st (temps @ pre x)) names (\<lambda>y. temps @ post y) (pc + length bs) (k (x, st))"
  shows "does names pc bs cs' d P pre post k"
  unfolding does_def by (intro allI impI) (rule assms)

lemma doesD:
  assumes "does names pc bs cs' d P pre post k" "code_at K pc bs" "loaded K cs'" "map fst (s_vars st) = names" "space K names temps d" "P x"
  shows "reaches L K pc (config_of st (temps @ pre x)) names (\<lambda>y. temps @ post y) (pc + length bs) (k (x, st))"
  using assms(1) unfolding does_def using assms(2-6) by blast

definition follows ::
  "ustring list \<Rightarrow> pass \<Rightarrow> nat \<Rightarrow> ('a \<Rightarrow> bool) \<Rightarrow> ('a \<Rightarrow> operand list) \<Rightarrow> ('b \<Rightarrow> operand list) \<Rightarrow> ('a \<times> store \<Rightarrow> fault + ('b \<times> store)) \<Rightarrow> bool" where
  "follows names f d P pre post k \<longleftrightarrow> (\<forall>cs cs'. plain names cs \<longrightarrow> f cs = Inr cs' \<longrightarrow>
     (\<exists>bs. emits cs bs cs' \<and> does names (code_len cs) bs cs' d P pre post k))"

lemma followsI:
  assumes "\<And>cs cs'. plain names cs \<Longrightarrow> f cs = Inr cs' \<Longrightarrow> \<exists>bs. emits cs bs cs' \<and> does names (code_len cs) bs cs' d P pre post k"
  shows "follows names f d P pre post k"
  unfolding follows_def by (intro allI impI) (rule assms)

lemma followsD:
  assumes "follows names f d P pre post k" "plain names cs" "f cs = Inr cs'"
  obtains bs where "emits cs bs cs'" "plain names cs'" "code_len cs' = code_len cs + length bs"
    "does names (code_len cs) bs cs' d P pre post k"
  using assms plain_emits emits_len unfolding follows_def by blast

lemma does_mono: "does names pc bs cs' d P pre post k \<Longrightarrow> d \<le> e \<Longrightarrow> does names pc bs cs' e P pre post k"
  using doesD [of names pc bs cs' d P pre post k] space_mono by (intro doesI) blast

lemma follows_mono: "follows names f d P pre post k \<Longrightarrow> d \<le> e \<Longrightarrow> follows names f e P pre post k"
  unfolding follows_def using does_mono by blast

lemma does_then:
  assumes "does names pc xs cs1 d P pre mid k1" "does names (pc + length xs) ys cs2 d Q mid post k2" "emits cs1 ys cs2"
    and "\<And>x st y st'. P x \<Longrightarrow> k1 (x, st) = Inr (y, st') \<Longrightarrow> Q y"
  shows "does names pc (xs @ ys) cs2 d P pre post (\<lambda>x. seq_then (k1 x) k2)"
proof (rule doesI)
  fix L K and st :: store and temps x
  assume c: "code_at K pc (xs @ ys)" "loaded K cs2" "map fst (s_vars st) = names" "space K names temps d" "P x"
  show "reaches L K pc (config_of st (temps @ pre x)) names (\<lambda>y. temps @ post y) (pc + length (xs @ ys)) (seq_then (k1 (x, st)) k2)"
  proof (rule reaches_bind)
    have a: "code_at K pc xs" "code_at K (pc + length xs) ys" using c(1) by (simp_all add: code_at_append)
    show "reaches L K pc (config_of st (temps @ pre x)) names (\<lambda>y. temps @ mid y) (pc + length xs) (k1 (x, st))"
      by (rule doesD [OF assms(1) a(1) loaded_mono [OF assms(3) c(2)] c(3-5)])
    show "reaches L K (pc + length xs) (config_of st' (temps @ mid y)) names (\<lambda>y. temps @ post y) (pc + length (xs @ ys)) (k2 (y, st'))"
      if "k1 (x, st) = Inr (y, st')" "map fst (s_vars st') = names" for y st'
      using doesD [OF assms(2) a(2) c(2) that(2) c(4) assms(4) [OF c(5) that(1)]] by (simp add: add.assoc)
  qed
qed

lemma follows_then:
  assumes f: "follows names f d P pre mid k1" and g: "follows names g d Q mid post k2"
    and q: "\<And>x st y st'. P x \<Longrightarrow> k1 (x, st) = Inr (y, st') \<Longrightarrow> Q y"
  shows "follows names (then_do f g) d P pre post (\<lambda>x. seq_then (k1 x) k2)"
proof (rule followsI)
  fix cs cs2 assume pl: "plain names cs" and fg: "then_do f g cs = Inr cs2"
  obtain cs1 where r: "f cs = Inr cs1" "g cs1 = Inr cs2" using fg by (auto simp: then_do_def seq_then_eq_Inr)
  obtain xs where xs: "emits cs xs cs1" "plain names cs1" "code_len cs1 = code_len cs + length xs"
    "does names (code_len cs) xs cs1 d P pre mid k1" by (rule followsD [OF f pl r(1)])
  obtain ys where ys: "emits cs1 ys cs2" "does names (code_len cs1) ys cs2 d Q mid post k2" by (rule followsD [OF g xs(2) r(2)])
  have "does names (code_len cs) (xs @ ys) cs2 d P pre post (\<lambda>x. seq_then (k1 x) k2)"
    by (rule does_then [OF xs(4) ys(2) [unfolded xs(3)] ys(1)]) (rule q)
  then show "\<exists>bs. emits cs bs cs2 \<and> does names (code_len cs) bs cs2 d P pre post (\<lambda>x. seq_then (k1 x) k2)"
    using emits_trans [OF xs(1) ys(1)] by blast
qed

text \<open>An expression: it pushes its value.\<close>

definition good :: "ustring list \<Rightarrow> pass \<Rightarrow> nat \<Rightarrow> evaluation \<Rightarrow> bool" where
  "good names f d ev \<longleftrightarrow> follows names f d (\<lambda>_. True) (\<lambda>_ :: unit. []) (\<lambda>v. [v]) (\<lambda>x. ev (snd x))"

lemma goodI:
  assumes "\<And>cs cs'. plain names cs \<Longrightarrow> f cs = Inr cs' \<Longrightarrow> \<exists>bs. emits cs bs cs' \<and>
     (\<forall>L K st temps. code_at K (code_len cs) bs \<longrightarrow> loaded K cs' \<longrightarrow> map fst (s_vars st) = names \<longrightarrow> space K names temps d \<longrightarrow>
        reaches L K (code_len cs) (config_of st temps) names (\<lambda>v. temps @ [v]) (code_len cs + length bs) (ev st))"
  shows "good names f d ev"
  unfolding good_def
proof (rule followsI)
  fix cs cs' assume "plain names cs" "f cs = Inr cs'"
  then obtain bs where b: "emits cs bs cs'"
     "\<forall>L K st temps. code_at K (code_len cs) bs \<longrightarrow> loaded K cs' \<longrightarrow> map fst (s_vars st) = names \<longrightarrow> space K names temps d \<longrightarrow>
        reaches L K (code_len cs) (config_of st temps) names (\<lambda>v. temps @ [v]) (code_len cs + length bs) (ev st)"
    using assms by blast
  have "does names (code_len cs) bs cs' d (\<lambda>_. True) (\<lambda>_ :: unit. []) (\<lambda>v. [v]) (\<lambda>x. ev (snd x))"
    by (rule doesI) (use b(2) in simp)
  with b(1) show "\<exists>bs. emits cs bs cs' \<and> does names (code_len cs) bs cs' d (\<lambda>_. True) (\<lambda>_ :: unit. []) (\<lambda>v. [v]) (\<lambda>x. ev (snd x))" by blast
qed

lemma good_mono: "good names f d ev \<Longrightarrow> d \<le> e \<Longrightarrow> good names f e ev"
  unfolding good_def by (rule follows_mono)

text \<open>The same above other values, and with the result seen otherwise.\<close>

lemma follows_frame:
  assumes "follows names f d (\<lambda>_. True) (\<lambda>_ :: unit. []) post k" "\<And>x. P x \<Longrightarrow> length (pre x) \<le> n"
  shows "follows names f (n + d) P pre (\<lambda>(x, y). pre x @ post y) (\<lambda>(x, st). seq_then (k ((), st)) (\<lambda>(y, st1). Inr ((x, y), st1)))"
proof (rule followsI)
  fix cs cs' assume "plain names cs" "f cs = Inr cs'"
  then obtain bs where b: "emits cs bs cs'" "does names (code_len cs) bs cs' d (\<lambda>_. True) (\<lambda>_ :: unit. []) post k"
    using followsD [OF assms(1)] by blast
  have "does names (code_len cs) bs cs' (n + d) P pre (\<lambda>(x, y). pre x @ post y) (\<lambda>(x, st). seq_then (k ((), st)) (\<lambda>(y, st1). Inr ((x, y), st1)))"
  proof (rule doesI)
    fix L K and st :: store and temps x
    assume c: "code_at K (code_len cs) bs" "loaded K cs'" "map fst (s_vars st) = names" "space K names temps (n + d)" "P x"
    have "space K names (temps @ pre x) d" using c(4) assms(2) [OF c(5)] by (simp add: space_def)
    then have "reaches L K (code_len cs) (config_of st ((temps @ pre x) @ [])) names (\<lambda>y. (temps @ pre x) @ post y) (code_len cs + length bs) (k ((), st))"
      by (rule doesD [OF b(2) c(1-3)]) simp
    then have r: "reaches L K (code_len cs) (config_of st (temps @ pre x)) names (\<lambda>y. (temps @ pre x) @ post y) (code_len cs + length bs) (k ((), st))" by simp
    have "reaches L K (code_len cs) (config_of st (temps @ pre x)) names (\<lambda>y. temps @ (case y of (x, y) \<Rightarrow> pre x @ post y)) (code_len cs + length bs)
        (seq_then (k ((), st)) (\<lambda>(y, st1). Inr ((x, y), st1)))"
      by (rule reaches_bind [OF r]) (simp add: reaches_def goes_refl)
    then show "reaches L K (code_len cs) (config_of st (temps @ pre x)) names (\<lambda>y. temps @ (case y of (x, y) \<Rightarrow> pre x @ post y)) (code_len cs + length bs)
        (case (x, st) of (x, st) \<Rightarrow> seq_then (k ((), st)) (\<lambda>(y, st1). Inr ((x, y), st1)))" by simp
  qed
  with b(1) show "\<exists>bs. emits cs bs cs' \<and> does names (code_len cs) bs cs' (n + d) P pre (\<lambda>(x, y). pre x @ post y)
      (\<lambda>(x, st). seq_then (k ((), st)) (\<lambda>(y, st1). Inr ((x, y), st1)))" by blast
qed

lemma good_above:
  assumes "good names f d ev" "\<And>x. P x \<Longrightarrow> length (pre x) \<le> n"
  shows "follows names f (n + d) P pre (\<lambda>(x, v). pre x @ [v]) (\<lambda>(x, st). seq_then (ev st) (\<lambda>(v, st1). Inr ((x, v), st1)))"
  using follows_frame [OF assms(1) [unfolded good_def], of P pre n] assms(2) by simp

lemma follows_map:
  assumes "follows names f d P pre post' k" "\<And>y. post' y = post (h y)"
  shows "follows names f d P pre post (\<lambda>x. seq_then (k x) (\<lambda>(y, st). Inr (h y, st)))"
proof (rule followsI)
  fix cs cs' assume "plain names cs" "f cs = Inr cs'"
  then obtain bs where b: "emits cs bs cs'" "does names (code_len cs) bs cs' d P pre post' k"
    using followsD [OF assms(1)] by blast
  have "does names (code_len cs) bs cs' d P pre post (\<lambda>x. seq_then (k x) (\<lambda>(y, st). Inr (h y, st)))"
  proof (rule doesI)
    fix L K and st :: store and temps x
    assume c: "code_at K (code_len cs) bs" "loaded K cs'" "map fst (s_vars st) = names" "space K names temps d" "P x"
    show "reaches L K (code_len cs) (config_of st (temps @ pre x)) names (\<lambda>y. temps @ post y) (code_len cs + length bs)
        (seq_then (k (x, st)) (\<lambda>(y, st). Inr (h y, st)))"
      by (rule reaches_bind [OF doesD [OF b(2) c]]) (simp add: reaches_def goes_refl assms(2))
  qed
  with b(1) show "\<exists>bs. emits cs bs cs' \<and> does names (code_len cs) bs cs' d P pre post (\<lambda>x. seq_then (k x) (\<lambda>(y, st). Inr (h y, st)))" by blast
qed

section \<open>Literals\<close>

lemma good_push:
  assumes "\<And>cs cs'. f cs = Inr cs' \<Longrightarrow> \<exists>bs. emits cs bs cs' \<and> (\<forall>L K vals md hp.
     code_at K (code_len cs) bs \<longrightarrow> loaded K cs' \<longrightarrow> room K vals 1 \<longrightarrow>
     goes L K (code_len cs) (vals, md, hp) (code_len cs + length bs) (vals @ [v], md, hp))"
  shows "good names f 1 (\<lambda>st. Inr (v, st))"
proof (rule goodI)
  fix cs cs' assume "f cs = Inr cs'"
  then obtain bs where b: "emits cs bs cs'" "\<forall>L K vals md hp.
     code_at K (code_len cs) bs \<longrightarrow> loaded K cs' \<longrightarrow> room K vals 1 \<longrightarrow>
     goes L K (code_len cs) (vals, md, hp) (code_len cs + length bs) (vals @ [v], md, hp)" using assms by blast
  have "reaches L K (code_len cs) (config_of st temps) names (\<lambda>v. temps @ [v]) (code_len cs + length bs) (Inr (v, st))"
    if "code_at K (code_len cs) bs" "loaded K cs'" "map fst (s_vars st) = names" "space K names temps 1" for L K st temps
    using b(2) [rule_format, OF that(1,2) space_room [OF that(4,3) order_refl], where L = L and md = "s_mod st" and hp = "s_heap st"] that(3)
    by (simp add: reaches_def config_of_def)
  then show "\<exists>bs. emits cs bs cs' \<and>
     (\<forall>L K st temps. code_at K (code_len cs) bs \<longrightarrow> loaded K cs' \<longrightarrow> map fst (s_vars st) = names \<longrightarrow> space K names temps 1 \<longrightarrow>
        reaches L K (code_len cs) (config_of st temps) names (\<lambda>v. temps @ [v]) (code_len cs + length bs) (Inr (v, st)))"
    using b(1) by blast
qed

lemma good_push_op:
  assumes "op = 2 \<and> v = Sc SNil \<or> op = 3 \<and> v = Sc (SBool True) \<or> op = 4 \<and> v = Sc (SBool False)"
  shows "good names (\<lambda>cs. Inr (emit_op p op cs)) 1 (\<lambda>st. Inr (v, st))"
proof (rule good_push)
  fix cs cs' assume "Inr (emit_op p op cs) = (Inr cs' :: compile_error + compiler)"
  then have e: "emits cs [asByte op] cs'" using emits_op [of cs op p] by simp
  show "\<exists>bs. emits cs bs cs' \<and> (\<forall>L K vals md hp.
     code_at K (code_len cs) bs \<longrightarrow> loaded K cs' \<longrightarrow> room K vals 1 \<longrightarrow>
     goes L K (code_len cs) (vals, md, hp) (code_len cs + length bs) (vals @ [v], md, hp))"
    by (rule exI [of _ "[asByte op]"]) (use e goes_push assms in simp)
qed

lemma good_Nil: "good names (visit_Nil p) 1 (\<lambda>st. Inr (Sc SNil, st))"
  using good_push_op [of 2 "Sc SNil" names p] by (simp add: visit_Nil_def [abs_def])

lemma good_Bool: "good names (visit_Bool p b) 1 (\<lambda>st. Inr (Sc (SBool b), st))"
  using good_push_op [of "if b then 3 else 4" "Sc (SBool b)" names p] by (cases b) (simp_all add: visit_Bool_def [abs_def])

text \<open>The value a constant is at run time.\<close>

fun const_operand :: "rvalue \<Rightarrow> operand" where
  "const_operand (Imm w) = Sc (scalar_of_word w)"
| "const_operand (rvalue.Str s) = operand.Str s"
| "const_operand _ = Sc SNil"

lemma good_constant:
  assumes "(\<exists>w. v = Imm w) \<or> (\<exists>s. v = rvalue.Str s)"
  shows "good names (emit_constant p v) 1 (\<lambda>st. Inr (const_operand v, st))"
proof (rule good_push)
  fix cs cs' assume c: "emit_constant p v cs = Inr cs'"
  obtain k where k: "k < 65536" "emits cs (op_arg 1 k) cs'" "k < length (constants (currentChunk cs'))"
    "constants (currentChunk cs') ! k = Const_Value v" by (rule emits_constant [OF c])
  have l: "constant_is K k (const_operand v)" if "loaded K cs'" for K
    using that k(3,4) assms unfolding loaded_def by fastforce
  have "goes L K (code_len cs) (vals, md, hp) (code_len cs + length (op_arg 1 k)) (vals @ [const_operand v], md, hp)"
    if "code_at K (code_len cs) (op_arg 1 k)" "loaded K cs'" "room K vals 1" for L K vals md hp
    by (rule goes_Constant [OF that(1) k(1) l [OF that(2)] that(3)])
  then show "\<exists>bs. emits cs bs cs' \<and> (\<forall>L K vals md hp.
     code_at K (code_len cs) bs \<longrightarrow> loaded K cs' \<longrightarrow> room K vals 1 \<longrightarrow>
     goes L K (code_len cs) (vals, md, hp) (code_len cs + length bs) (vals @ [const_operand v], md, hp))"
    using k(2) by blast
qed

lemma good_Str: "good names (visit_Str p s) 1 (\<lambda>st. Inr (operand.Str s, st))"
  using good_constant [of "rvalue.Str s" names p] by (simp add: visit_Str_def [abs_def])

text \<open>A number literal that a word can hold: other integers are objects of the heap.\<close>

definition num_ok :: "num_lit \<Rightarrow> bool" where
  "num_ok n = (case n of N_Int32 i \<Rightarrow> True | N_Int64 i \<Rightarrow> fitsInInt32 (sint i) | N_Real d \<Rightarrow> isReal d)"

lemma scalar_of_int: "fitsInInt32 i \<Longrightarrow> scalar_of_word (intVal al i) = SInt (word_of_int i)"
proof -
  assume i: "fitsInInt32 i"
  have v: "intVal al i = int32Val (word_of_int i)" using i by (simp add: intVal_def)
  have b: "isInt (intVal al i)" unfolding v by (rule int32Val_box)
  have "sint (word_of_int i :: u32) = i"
    using i by (subst sint_sbintrunc') (simp add: fitsInInt32_def signed_take_bit_int_eq_self)
  then have a: "asIntUnchecked (intVal al i) = i" unfolding v by (simp add: int32Val_box(2))
  have "\<not> isNil (intVal al i)" using b nil_header [of "intVal al i"] by (auto simp: kind_headers)
  moreover have "\<not> isBool (intVal al i)" using b by (auto simp: bool_header header_def push_bit_eq_mult kind_headers)
  ultimately show ?thesis using a b by (simp add: scalar_of_word_def)
qed

lemma scalar_of_real: "isReal d \<Longrightarrow> scalar_of_word d = SReal d"
proof -
  assume r: "isReal d"
  have "\<not> isNil d" using r nil_header [of d] by (auto simp: real_header)
  moreover have "\<not> isBool d" using r by (auto simp: bool_header header_def push_bit_eq_mult real_header)
  moreover have "\<not> isInt d" using r by (auto simp: kind_headers real_header)
  ultimately show ?thesis by (simp add: scalar_of_word_def)
qed

lemma num_operand_const: "num_ok n \<Longrightarrow> const_operand (num_value al n) = num_operand n"
proof (cases n)
  case (N_Int32 i)
  have "- (2 ^ 31) \<le> sint i" "sint i < 2 ^ 31" using sint_ge [of i] sint_lt [of i] by simp_all
  then have "fitsInInt32 (sint i)" by (simp add: fitsInInt32_def)
  then show ?thesis using N_Int32 by (simp add: num_value_def num_operand_def scalar_of_int)
next
  case (N_Int64 i)
  assume "num_ok n"
  then show ?thesis using N_Int64 by (simp add: num_value_def num_operand_def num_ok_def scalar_of_int)
next
  case (N_Real d)
  assume "num_ok n"
  then show ?thesis using N_Real by (simp add: num_value_def num_operand_def num_ok_def realVal_def scalar_of_real)
qed

lemma good_Num: "num_ok n \<Longrightarrow> good names (visit_Num al p n) 1 (\<lambda>st. Inr (num_operand n, st))"
proof -
  assume n: "num_ok n"
  have "\<exists>w. num_value al n = Imm w" by (cases n) (simp_all add: num_value_def)
  then show ?thesis using good_constant [of "num_value al n" names p] num_operand_const [OF n, of al]
    by (simp add: visit_Num_def [abs_def])
qed

section \<open>Variables\<close>

lemma findBinding_plain:
  assumes "plain names cs" "map fst vars = names"
  shows "(\<exists>i v. findBinding x cs = (Cand_Local i, local_rank (func cs) (length (enclosing cs)) i) \<and> i < length vars
      \<and> map_of (rev vars) x = Some v \<and> map snd vars ! i = v \<and> (\<forall>w. rev (AList.update x w (rev vars)) = vars[i := (x, w)]))
    \<or> (findBinding x cs = (Cand_ModuleVar, None) \<and> map_of (rev vars) x = None)"
proof (cases "map_of (rev vars) x")
  case None
  then have "x \<notin> fst ` set vars" by (simp add: map_of_eq_None_iff)
  then have "x \<notin> set names" using assms(2) by auto
  then have "enclosing_local x (enclosing cs) = None" using assms(1) by (simp add: plain_def)
  then show ?thesis using plain_resolve [OF assms, of x] None by (simp add: findBinding_def Let_def)
next
  case (Some v)
  then obtain i where "i < length vars" "resolveLocal (func cs) x = int i" "map snd vars ! i = v"
    "\<forall>w. rev (AList.update x w (rev vars)) = vars[i := (x, w)]" using plain_resolve [OF assms, of x] by auto
  then show ?thesis using Some by (auto simp: findBinding_def Let_def)
qed

lemma visible_plain: "plain names cs \<Longrightarrow> visibleConstBinding x r cs = None"
  by (simp add: visibleConstBinding_def plain_def)

text \<open>A name is a slot, the same for every store, or a variable of the module.\<close>

lemma name_cases:
  assumes "plain names cs"
  obtains (Slot) i where "i < length names" "findBinding x cs = (Cand_Local i, local_rank (func cs) (length (enclosing cs)) i)"
    "\<And>vars :: (ustring \<times> operand) list. map fst vars = names \<Longrightarrow> map_of (rev vars) x = Some (map snd vars ! i)"
    "\<And>(vars :: (ustring \<times> operand) list) w. map fst vars = names \<Longrightarrow> rev (AList.update x w (rev vars)) = vars[i := (x, w)]"
    "names ! i = x"
  | (Module) "findBinding x cs = (Cand_ModuleVar, None)" "x \<notin> set names"
proof -
  obtain vars0 where v0: "vars0 = map (\<lambda>n. (n, Sc SNil)) names" by simp
  then have m0: "map fst vars0 = names" by (simp add: comp_def)
  from findBinding_plain [OF assms m0, of x] show ?thesis
  proof (elim disjE exE conjE)
    fix i v assume b: "findBinding x cs = (Cand_Local i, local_rank (func cs) (length (enclosing cs)) i)"
      and i: "i < length vars0" and u: "\<forall>w. rev (AList.update x w (rev vars0)) = vars0[i := (x, w)]"
      and mo: "map_of (rev vars0) x = Some v"
    have s: "map_of (rev vars) x = Some (map snd vars ! i) \<and> (\<forall>w. rev (AList.update x w (rev vars)) = vars[i := (x, w)])"
      if "map fst vars = names" for vars
      using findBinding_plain [OF assms that, of x] b by auto
    have "map fst (rev (AList.update x (Sc SNil) (rev vars0))) = names[i := x]"
      using u m0 by (simp add: map_update)
    moreover have "map fst (rev (AList.update x (Sc SNil) (rev vars0))) = names"
    proof -
      have "x \<in> fst ` set (rev vars0)" using mo by (metis domI dom_map_of_conv_image_fst)
      then have "map fst (AList.update x (Sc SNil) (rev vars0)) = map fst (rev vars0)" by (simp add: update_keys)
      then show ?thesis using m0 by (simp add: rev_map [symmetric])
    qed
    ultimately have n: "names ! i = x" using i m0 by (metis length_map nth_list_update_eq)
    have "i < length names" using i m0 by (metis length_map)
    then show ?thesis by (rule Slot) (use b s n in auto)
  next
    assume b: "findBinding x cs = (Cand_ModuleVar, None)" "map_of (rev vars0) x = None"
    then have "x \<notin> set names" using m0 by (auto simp: map_of_eq_None_iff)
    with b(1) show ?thesis by (rule Module)
  qed
qed

lemma named_plain:
  assumes "plain names cs" "namedVariable p x a cs = Inr cs'"
  shows "(case fst (findBinding x cs) of Cand_Local i \<Rightarrow> named_local p i a cs
     | Cand_Upvalue \<Rightarrow> named_upvalue p x a cs | Cand_ModuleVar \<Rightarrow> named_module_var p x a cs) = Inr cs'"
  using assms by (auto simp: namedVariable_def visible_plain split: option.splits prod.splits)

lemma not_a_variable: "map fst vars = names \<Longrightarrow> x \<notin> set names \<Longrightarrow> map_of (rev vars) x = None"
  by (metis map_of_eq_None_iff set_map set_rev)

text \<open>Reading or assigning a variable of the module: the instruction and its name.\<close>

lemma emits_module_var:
  assumes "plain names cs" "named_module_var p x a cs = Inr cs'"
  obtains k where "k < 65536" "emits cs (op_arg (if a then 62 else 60) k) cs'"
    "\<And>K. loaded K cs' \<Longrightarrow> constant_is K k (operand.Str x)"
proof -
  have i: "\<not> inModuleFunction cs" "idents_ok (func cs)" using assms(1) by (simp_all add: plain_def)
  obtain k cs1 where k: "identifier_constant x cs = Inr (k, cs1)"
    "cs' = emit_op_arg p (if a then 62 else 60) k cs1"
    using assms(2) i(1) unfolding named_module_var_def seq_then_eq_Inr
    by (auto simp: identifier_constant_def seq_then_eq_Inr Let_def split: if_splits)
  note e = emits_identifier [OF k(1) i(2)]
  have e2: "emits cs1 (op_arg (if a then 62 else 60) (unat k)) cs'" unfolding k(2) by (rule emits_op_arg)
  have k3: "constant_is K (unat k) (operand.Str x)" if "loaded K cs'" for K
    using loaded_mono [OF e2 that] e(2,3) unfolding loaded_def by fastforce
  have "unat k < 65536" using unsigned_less [of k, where ?'a = nat] by simp
  then show ?thesis by (rule that) (use emits_trans [OF e(1) e2] k3 in simp_all)
qed

lemma good_variable: "good names (namedVariable p x False) 1 (\<lambda>st. seq_then (fails (var_get x st)) (\<lambda>v. Inr (v, st)))"
proof (rule goodI)
  fix cs cs' assume pl: "plain names cs" and nv: "namedVariable p x False cs = Inr cs'"
  note nv' = named_plain [OF pl nv]
  show "\<exists>bs. emits cs bs cs' \<and>
     (\<forall>L K st temps. code_at K (code_len cs) bs \<longrightarrow> loaded K cs' \<longrightarrow> map fst (s_vars st) = names \<longrightarrow> space K names temps 1 \<longrightarrow>
        reaches L K (code_len cs) (config_of st temps) names (\<lambda>v. temps @ [v]) (code_len cs + length bs)
          (seq_then (fails (var_get x st)) (\<lambda>v. Inr (v, st))))"
  proof (cases rule: name_cases [OF pl, where x = x])
    case (1 i)
    have l: "length names \<le> 255" using pl by (simp add: plain_def)
    then have i: "unat (word_of_nat i :: u16) = i" "i < 65536" using 1(1) by (simp_all add: unat_of_nat)
    have e: "emits cs (op_arg 67 i) cs'"
      using nv' 1(2) i(1) emits_op_arg [of cs 67 "word_of_nat i" p] by (simp add: named_local_def)
    have "reaches L K (code_len cs) (config_of st temps) names (\<lambda>v. temps @ [v]) (code_len cs + length (op_arg 67 i))
          (seq_then (fails (var_get x st)) (\<lambda>v. Inr (v, st)))"
      if c: "code_at K (code_len cs) (op_arg 67 i)" and st: "map fst (s_vars st) = names" and sp: "space K names temps 1" for L K st temps
    proof -
      have len: "length (map snd (s_vars st)) = length names" using st by (metis length_map)
      have "var_get x st = Inr (map snd (s_vars st) ! i)" using 1(3) [OF st] by (simp add: var_get_def)
      moreover have "(map snd (s_vars st) @ temps) ! i = map snd (s_vars st) ! i" "i < length (map snd (s_vars st) @ temps)"
        using len 1(1) by (simp_all add: nth_append)
      ultimately show ?thesis
        using goes_GetLocal [OF c i(2), of "map snd (s_vars st) @ temps" L "s_mod st" "s_heap st"] space_room [OF sp st, of 1] st
        by (simp add: reaches_def config_of_def)
    qed
    with e show ?thesis by blast
  next
    case 2
    obtain k where k: "k < 65536" "emits cs (op_arg 60 k) cs'" "\<And>K. loaded K cs' \<Longrightarrow> constant_is K k (operand.Str x)"
      by (rule emits_module_var [OF pl, of p x False cs']) (use nv' 2(1) in simp_all)
    have "reaches L K (code_len cs) (config_of st temps) names (\<lambda>v. temps @ [v]) (code_len cs + length (op_arg 60 k))
          (seq_then (fails (var_get x st)) (\<lambda>v. Inr (v, st)))"
      if c: "code_at K (code_len cs) (op_arg 60 k)" "loaded K cs'" and st: "map fst (s_vars st) = names" and sp: "space K names temps 1" for L K st temps
    proof -
      have "map_of (rev (s_vars st)) x = None" by (rule not_a_variable [OF st 2(2)])
      then have g: "var_get x st = module_value x (s_mod st)" by (simp add: var_get_def module_value_def)
      show ?thesis unfolding g
      proof (rule reaches_fails)
        show "stops L K (code_len cs) (config_of st temps) e" if "module_value x (s_mod st) = Inl e" for e
          unfolding config_of_def by (rule stops_GetModuleVar [OF c(1) k(1) k(3) [OF c(2)] that])
        show "reaches L K (code_len cs) (config_of st temps) names (\<lambda>v. temps @ [v]) (code_len cs + length (op_arg 60 k)) (Inr (v, st))"
          if "module_value x (s_mod st) = Inr v" for v
          using goes_GetModuleVar [OF c(1) k(1) k(3) [OF c(2)] that space_room [OF sp st order_refl]] st
          by (simp add: reaches_def config_of_def)
      qed
    qed
    with k(2) show ?thesis by blast
  qed
qed

text \<open>Assigning the value on top of the stack, which stays there.\<close>

lemma assign_variable:
  "follows names (namedVariable p x True) d (\<lambda>_. True) (\<lambda>v. [v]) (\<lambda>v. [v])
     (\<lambda>(v, st). seq_then (fails (var_set x v st)) (\<lambda>st2. Inr (v, st2)))"
proof (rule followsI)
  fix cs cs' assume pl: "plain names cs" and nv: "namedVariable p x True cs = Inr cs'"
  note nv' = named_plain [OF pl nv]
  have "\<exists>bs. emits cs bs cs' \<and>
     (\<forall>L K st temps v. code_at K (code_len cs) bs \<longrightarrow> loaded K cs' \<longrightarrow> map fst (s_vars st) = names \<longrightarrow>
        reaches L K (code_len cs) (config_of st (temps @ [v])) names (\<lambda>u. temps @ [u]) (code_len cs + length bs)
          (seq_then (fails (var_set x v st)) (\<lambda>st2. Inr (v, st2))))"
  proof (cases rule: name_cases [OF pl, where x = x])
    case (1 i)
    have l: "length names \<le> 255" using pl by (simp add: plain_def)
    then have i: "unat (word_of_nat i :: u16) = i" "i < 65536" using 1(1) by (simp_all add: unat_of_nat)
    have e: "emits cs (op_arg 68 i) cs'"
      using nv' 1(2) i(1) emits_op_arg [of cs 68 "word_of_nat i" p] by (auto simp: named_local_def Let_def split: if_splits)
    have "reaches L K (code_len cs) (config_of st (temps @ [v])) names (\<lambda>u. temps @ [u]) (code_len cs + length (op_arg 68 i))
          (seq_then (fails (var_set x v st)) (\<lambda>st2. Inr (v, st2)))"
      if c: "code_at K (code_len cs) (op_arg 68 i)" and st: "map fst (s_vars st) = names" for L K st temps v
    proof -
      have len: "i < length (map snd (s_vars st))" using st 1(1) by (metis length_map)
      have "x \<in> fst ` set (s_vars st)" using 1(1,5) st by (metis nth_mem set_map)
      then have "var_set x v st = Inr (st\<lparr>s_vars := (s_vars st)[i := (x, v)]\<rparr>)" using 1(4) [OF st] by (simp add: var_set_def)
      moreover have "map fst ((s_vars st)[i := (x, v)]) = names" using st 1(5) by (simp add: map_update list_update_same_conv 1(1))
      moreover have "((map snd (s_vars st) @ temps) @ [v])[i := v] = map snd ((s_vars st)[i := (x, v)]) @ temps @ [v]"
        using len by (simp add: list_update_append map_update)
      ultimately show ?thesis
        using goes_SetLocal [where L = L and md = "s_mod st" and hp = "s_heap st" and ws = "map snd (s_vars st) @ temps" and v = v, OF c i(2) _ refl] len
        by (simp add: reaches_def config_of_def)
    qed
    with e show ?thesis by blast
  next
    case 2
    obtain k where k: "k < 65536" "emits cs (op_arg 62 k) cs'" "\<And>K. loaded K cs' \<Longrightarrow> constant_is K k (operand.Str x)"
      by (rule emits_module_var [OF pl, of p x True cs']) (use nv' 2(1) in simp_all)
    have "reaches L K (code_len cs) (config_of st (temps @ [v])) names (\<lambda>u. temps @ [u]) (code_len cs + length (op_arg 62 k))
          (seq_then (fails (var_set x v st)) (\<lambda>st2. Inr (v, st2)))"
      if c: "code_at K (code_len cs) (op_arg 62 k)" "loaded K cs'" and st: "map fst (s_vars st) = names" for L K st temps v
    proof -
      have n: "x \<notin> fst ` set (s_vars st)" using 2(2) st by (metis set_map)
      have sp: "stops L K (code_len cs) (config_of st (temps @ [v])) (Variable_Failure e)" if "op_SetModuleVar x v (s_mod st) = Inl e" for e
        using stops_SetModuleVar [OF c(1) k(1) k(3) [OF c(2)] that, of L "map snd (s_vars st) @ temps" "s_heap st"] by (simp add: config_of_def)
      have go: "goes L K (code_len cs) (config_of st (temps @ [v])) (code_len cs + length (op_arg 62 k)) (config_of (st\<lparr>s_mod := md\<rparr>) (temps @ [v]))"
        if "op_SetModuleVar x v (s_mod st) = Inr md" for md
        using goes_SetModuleVar [OF c(1) k(1) k(3) [OF c(2)] that, of L "map snd (s_vars st) @ temps" "s_heap st"] by (simp add: config_of_def)
      show ?thesis using n sp go st by (cases "op_SetModuleVar x v (s_mod st)") (simp_all add: var_set_def reaches_def)
    qed
    with k(2) show ?thesis by blast
  qed
  then obtain bs where b: "emits cs bs cs'"
     "\<forall>L K st temps v. code_at K (code_len cs) bs \<longrightarrow> loaded K cs' \<longrightarrow> map fst (s_vars st) = names \<longrightarrow>
        reaches L K (code_len cs) (config_of st (temps @ [v])) names (\<lambda>u. temps @ [u]) (code_len cs + length bs)
          (seq_then (fails (var_set x v st)) (\<lambda>st2. Inr (v, st2)))" by blast
  have "does names (code_len cs) bs cs' d (\<lambda>_. True) (\<lambda>v. [v]) (\<lambda>v. [v]) (\<lambda>(v, st). seq_then (fails (var_set x v st)) (\<lambda>st2. Inr (v, st2)))"
    by (rule doesI) (use b(2) in simp)
  with b(1) show "\<exists>bs. emits cs bs cs' \<and> does names (code_len cs) bs cs' d (\<lambda>_. True) (\<lambda>v. [v]) (\<lambda>v. [v])
      (\<lambda>(v, st). seq_then (fails (var_set x v st)) (\<lambda>st2. Inr (v, st2)))" by blast
qed

section \<open>Operators\<close>

lemma good_then:
  assumes f: "good names f d1 ev" and g: "follows names g d2 (\<lambda>_. True) (\<lambda>v. [v]) (\<lambda>v. [v]) k" and d: "d1 \<le> d" "d2 \<le> d"
  shows "good names (then_do f g) d (\<lambda>st. seq_then (ev st) k)"
  using follows_then [OF follows_mono [OF f [unfolded good_def] d(1)] follows_mono [OF g d(2)] TrueI] by (simp add: good_def)

lemma good_Assignment:
  assumes "good names f d ev"
  shows "good names (visit_Assignment p x source f) d
    (\<lambda>st. seq_then (ev st) (\<lambda>(v, st1). seq_then (fails (var_set x v st1)) (\<lambda>st2. Inr (v, st2))))"
proof -
  have g: "good names (then_do f (namedVariable p x True)) d
    (\<lambda>st. seq_then (ev st) (\<lambda>(v, st1). seq_then (fails (var_set x v st1)) (\<lambda>st2. Inr (v, st2))))"
    by (rule good_then [OF assms assign_variable order_refl order_refl])
  have "visit_Assignment p x source f cs = Inr cs' \<Longrightarrow> then_do f (namedVariable p x True) cs = Inr cs'" for cs cs'
    by (auto simp: visit_Assignment_def then_do_def split: if_splits)
  then show ?thesis using g unfolding good_def follows_def by blast
qed

text \<open>A pass that emits fixed bytes.\<close>

lemma follows_bytes:
  assumes "\<And>cs cs'. f cs = Inr cs' \<Longrightarrow> emits cs bs cs'"
    and "\<And>L K pc (st :: store) temps x. code_at K pc bs \<Longrightarrow> map fst (s_vars st) = names \<Longrightarrow> space K names temps d \<Longrightarrow> P x \<Longrightarrow>
        reaches L K pc (config_of st (temps @ pre x)) names (\<lambda>y. temps @ post y) (pc + length bs) (k (x, st))"
  shows "follows names f d P pre post k"
proof (rule followsI)
  fix cs cs' assume "f cs = Inr cs'"
  then have "emits cs bs cs'" by (rule assms(1))
  moreover have "does names (code_len cs) bs cs' d P pre post k" by (rule doesI) (rule assms(2))
  ultimately show "\<exists>bs. emits cs bs cs' \<and> does names (code_len cs) bs cs' d P pre post k" by blast
qed

lemma follows_unary:
  "follows names (\<lambda>cs. Inr (emit_op p (unary_opcode op) cs)) 1 (\<lambda>_. True) (\<lambda>v. [v]) (\<lambda>v. [v])
     (\<lambda>(v, st). seq_then (fails (unary_value op v)) (\<lambda>w. Inr (w, st)))"
proof (rule follows_bytes)
  show "emits cs [asByte (unary_opcode op)] cs'" if "Inr (emit_op p (unary_opcode op) cs) = (Inr cs' :: compile_error + compiler)" for cs cs'
    using that emits_op [of cs "unary_opcode op" p] by simp
next
  fix L K pc and st :: store and temps v
  assume c: "code_at K pc [asByte (unary_opcode op)]" and st: "map fst (s_vars st) = names" and sp: "space K names temps 1"
  have r: "room K (map snd (s_vars st) @ temps) 1" by (rule space_room [OF sp st]) simp
  note u = unary_effect [OF c r]
  have "reaches L K pc (config_of st (temps @ [v])) names (\<lambda>u. temps @ [u]) (Suc pc)
      (seq_then (fails (unary_value op v)) (\<lambda>w. Inr (w, st)))"
  proof (rule reaches_fails)
    show "stops L K pc (config_of st (temps @ [v])) e" if "unary_value op v = Inl e" for e
      using u(2) [OF that] by (simp add: config_of_def)
    show "reaches L K pc (config_of st (temps @ [v])) names (\<lambda>u. temps @ [u]) (Suc pc) (Inr (w, st))"
      if "unary_value op v = Inr w" for w
      using u(1) [OF that] st by (simp add: config_of_def reaches_def)
  qed
  then show "reaches L K pc (config_of st (temps @ [v])) names (\<lambda>u. temps @ [u]) (pc + length [asByte (unary_opcode op)])
      (case (v, st) of (v, st) \<Rightarrow> seq_then (fails (unary_value op v)) (\<lambda>w. Inr (w, st)))" by simp
qed

lemma good_UnaryOp:
  assumes "good names f d ev"
  shows "good names (visit_UnaryOp p op f) (max d 1)
    (\<lambda>st. seq_then (ev st) (\<lambda>(v, st1). seq_then (fails (unary_value op v)) (\<lambda>w. Inr (w, st1))))"
  unfolding visit_UnaryOp_def by (rule good_then [OF assms follows_unary]) simp_all

text \<open>Binary operators, on both operands.\<close>

definition binary_step :: "binary_op \<Rightarrow> (operand \<times> operand) \<times> store \<Rightarrow> fault + (operand \<times> store)" where
  "binary_step op = (\<lambda>((l, r), st).
     if divides_by_zero op l r then Inl (Raised st) else seq_then (fails (binary_value op l r)) (\<lambda>v. Inr (v, st)))"

lemma no_operator:
  assumes "binary_fun op = None" "op \<noteq> B_And" "op \<noteq> B_Or"
  obtains n ns where "binary_opcodes op = n # ns" "n < 128" "map_of (instructions L False) n = None"
    "\<forall>l r. binary_value op l r = Inl stop.Outside_Model"
proof -
  have "op = B_Is \<or> op = B_In \<or> op = B_NotIn" using assms by (cases op) (simp_all add: binary_fun_def)
  then have "\<exists>n ns. binary_opcodes op = n # ns \<and> n < 128 \<and> map_of (instructions L False) n = None
      \<and> (\<forall>l r. binary_value op l r = Inl stop.Outside_Model)"
    by (elim disjE) (simp_all add: binary_opcodes_def instructions_def binary_value_def binary_fun_def)
  then show ?thesis using that by blast
qed

lemma follows_binary:
  assumes "op \<noteq> B_And" "op \<noteq> B_Or"
  shows "follows names (\<lambda>cs. Inr (fold (emit_op p) (binary_opcodes op) cs)) 1 (\<lambda>_. True) (\<lambda>(l, r). [l] @ [r]) (\<lambda>v. [v]) (binary_step op)"
proof (rule follows_bytes)
  show "emits cs (map asByte (binary_opcodes op)) cs'"
    if "Inr (fold (emit_op p) (binary_opcodes op) cs) = (Inr cs' :: compile_error + compiler)" for cs cs'
    using that emits_ops [of cs "binary_opcodes op" p] by simp
next
  fix L K pc and st :: store and temps and x :: "operand \<times> operand"
  assume c: "code_at K pc (map asByte (binary_opcodes op))" and st: "map fst (s_vars st) = names" and sp: "space K names temps 1"
  obtain l r where x: "x = (l, r)" by (cases x)
  have rm: "room K (map snd (s_vars st) @ temps) 1" by (rule space_room [OF sp st]) simp
  have "reaches L K pc (config_of st (temps @ [l, r])) names (\<lambda>v. temps @ [v]) (pc + length (binary_opcodes op)) (binary_step op ((l, r), st))"
  proof (cases "binary_fun op = None")
    case True
    obtain n ns where n: "binary_opcodes op = n # ns" "n < 128" "map_of (instructions L False) n = None"
      "\<forall>l r. binary_value op l r = Inl stop.Outside_Model" by (rule no_operator [OF True assms, of L])
    have "code_at K pc ([asByte n] @ map asByte ns)" using c n(1) by simp
    then have "code_at K pc [asByte n]" unfolding code_at_append ..
    then show ?thesis using stops_unknown [OF _ n(2,3)] n(4) by (simp add: binary_step_def divides_by_zero_def reaches_def)
  next
    case False
    note b = binary_effect [OF False c rm]
    show ?thesis
    proof (cases "divides_by_zero op l r")
      case True
      then show ?thesis using b(3) by (simp add: binary_step_def reaches_def config_of_def)
    next
      case nz: False
      show ?thesis
      proof (cases "binary_value op l r")
        case (Inl e)
        then show ?thesis using b(2) nz by (simp add: binary_step_def reaches_def config_of_def)
      next
        case (Inr v)
        then show ?thesis using b(1,4) nz st by (simp add: binary_step_def reaches_def config_of_def)
      qed
    qed
  qed
  then show "reaches L K pc (config_of st (temps @ (case x of (l, r) \<Rightarrow> [l] @ [r]))) names (\<lambda>y. temps @ [y])
      (pc + length (map asByte (binary_opcodes op))) (binary_step op (x, st))" by (simp add: x)
qed

lemma good_plain_binary:
  assumes l: "good names f d1 evl" and r: "good names g d2 evr" and op: "op \<noteq> B_And" "op \<noteq> B_Or" "\<not> (op = B_Is \<and> nn \<noteq> None)"
  shows "good names (visit_BinaryOp p op nn f g) (max (max d1 1) (1 + d2)) (eval_binary op (nn \<noteq> None) evl evr)"
proof -
  have "follows names (then_do g (\<lambda>cs. Inr (fold (emit_op p) (binary_opcodes op) cs))) (1 + d2) (\<lambda>_. True) (\<lambda>v. [v]) (\<lambda>v. [v])
      (\<lambda>x. seq_then ((\<lambda>(x, st). seq_then (evr st) (\<lambda>(v, st1). Inr ((x, v), st1))) x) (binary_step op))"
    by (rule follows_then [OF good_above [OF r]])
      (use follows_mono [OF follows_binary [OF op(1,2)], of "1 + d2"] in simp_all)
  then have "good names (then_do f (then_do g (\<lambda>cs. Inr (fold (emit_op p) (binary_opcodes op) cs)))) (max (max d1 1) (1 + d2))
      (\<lambda>st. seq_then (evl st) (\<lambda>x. seq_then ((\<lambda>(x, st). seq_then (evr st) (\<lambda>(v, st1). Inr ((x, v), st1))) x) (binary_step op)))"
    by (rule good_then [OF l]) simp_all
  moreover have "(\<lambda>st. seq_then (evl st) (\<lambda>x. seq_then ((\<lambda>(x, st). seq_then (evr st) (\<lambda>(v, st1). Inr ((x, v), st1))) x) (binary_step op)))
      = eval_binary op (nn \<noteq> None) evl evr"
    using op by (auto simp: eval_binary_def binary_step_def seq_then_def fun_eq_iff split: sum.split)
  moreover have "visit_BinaryOp p op nn f g = then_do f (then_do g (\<lambda>cs. Inr (fold (emit_op p) (binary_opcodes op) cs)))"
    using op by (auto simp: visit_BinaryOp_def)
  ultimately show ?thesis by simp
qed

lemma stops_is: "follows names (\<lambda>cs. Inr (emit_op p OpNegate (emit_op p OpIs cs))) 0 P pre post (\<lambda>x. Inl (Stopped stop.Outside_Model))"
proof (rule follows_bytes)
  show "emits cs [asByte OpIs, asByte OpNegate] cs'"
    if "Inr (emit_op p OpNegate (emit_op p OpIs cs)) = (Inr cs' :: compile_error + compiler)" for cs cs'
    using that emits_trans [OF emits_op [of cs OpIs p] emits_op [of _ OpNegate p]] by simp
next
  fix L K pc and st :: store and temps x
  assume "code_at K pc [asByte OpIs, asByte OpNegate]"
  then have "code_at K pc [asByte OpIs]" using code_at_Cons [of K pc "asByte OpIs" "[asByte OpNegate]"] by simp
  then have "stops L K pc (config_of st (temps @ pre x)) stop.Outside_Model"
    by (rule stops_unknown) (simp_all add: instructions_def)
  then show "reaches L K pc (config_of st (temps @ pre x)) names (\<lambda>y. temps @ post y)
      (pc + length [asByte OpIs, asByte OpNegate]) (Inl (Stopped stop.Outside_Model))" by (simp add: reaches_def)
qed

lemma good_is_not_nil:
  assumes "good names f d1 evl"
  shows "good names (visit_BinaryOp p B_Is (Some q) f g) (max d1 2) (eval_binary B_Is True evl evr)"
proof -
  have "follows names (then_do (visit_Nil q) (\<lambda>cs. Inr (emit_op p OpNegate (emit_op p OpIs cs)))) (1 + 1) (\<lambda>_. True) (\<lambda>v. [v]) (\<lambda>v. [v])
      (\<lambda>x. seq_then ((\<lambda>(x, st). seq_then (Inr (Sc SNil, st)) (\<lambda>(v, st1). Inr ((x, v), st1))) x) (\<lambda>x. Inl (Stopped stop.Outside_Model)))"
    by (rule follows_then [OF good_above [OF good_Nil]]) (simp, rule follows_mono [OF stops_is], simp)
  then have "good names (then_do f (then_do (visit_Nil q) (\<lambda>cs. Inr (emit_op p OpNegate (emit_op p OpIs cs))))) (max d1 2)
      (\<lambda>st. seq_then (evl st) (\<lambda>x. seq_then ((\<lambda>(x, st). seq_then (Inr (Sc SNil, st)) (\<lambda>(v, st1). Inr ((x, v), st1))) x) (\<lambda>x. Inl (Stopped stop.Outside_Model))))"
    by (rule good_then [OF assms]) simp_all
  moreover have "(\<lambda>st. seq_then (evl st) (\<lambda>x. seq_then ((\<lambda>(x, st). seq_then (Inr (Sc SNil, st)) (\<lambda>(v, st1). Inr ((x, v), st1))) x) (\<lambda>x. Inl (Stopped stop.Outside_Model))))
      = eval_binary B_Is True evl evr"
    by (auto simp: eval_binary_def seq_then_def fun_eq_iff split: sum.split)
  ultimately show ?thesis by (simp add: visit_BinaryOp_def)
qed

section \<open>Short circuits\<close>

lemma loaded_same: "constants (currentChunk cs') = constants (currentChunk cs) \<Longrightarrow> loaded K cs' = loaded K cs"
  by (simp add: loaded_def)

lemma patch_jump_constants: "patch_jump at cs = Inr cs' \<Longrightarrow> constants (currentChunk cs') = constants (currentChunk cs)"
  by (auto simp: patch_jump_def try_chunk_def seq_then_eq_Inr patchJump_def Let_def patchU16At_def on_chunk_def on_func_def
      currentChunk_def split: if_splits)

lemma u16_length [simp]: "length (u16_bytes d) = 2" by (simp add: u16_bytes_def)

text \<open>The test of the left operand: \<open>jumps\<close> says when it skips the right one.\<close>

definition tests :: "nat \<Rightarrow> nat \<Rightarrow> (operand \<Rightarrow> bool) \<Rightarrow> bool" where
  "tests jop op jumps \<longleftrightarrow> jop = 108 \<and> op = 21 \<and> jumps = falsey \<or> jop = 109 \<and> op = 22 \<and> jumps = truthy"

lemma goes_test:
  assumes "tests jop op jumps" "code_at K pc (asByte jop # u16_bytes d)" "d < 65536"
  shows "goes L K pc (vals @ [v], md, hp) (if jumps v then pc + 3 + d else pc + 3) (vals @ [v], md, hp)"
  using assms goes_JumpIfFalse [of K pc jop d L vals v md hp] goes_OrShortCircuit [of K pc d L vals v md hp] by (auto simp: tests_def)

text \<open>The two ends of a short circuit around the code \<open>ys\<close> of the right operand.\<close>

lemma short_circuit_runs:
  assumes t: "tests jop op jumps" and len: "length (ys @ [asByte op]) < 65536"
    and r: "does names (pc + 3) ys cs2 d (\<lambda>_. True) (\<lambda>_ :: unit. []) (\<lambda>v. [v]) (\<lambda>x. evr (snd x))" and l: "\<And>K. loaded K cs4 \<Longrightarrow> loaded K cs2"
  shows "does names pc ([asByte jop] @ u16_bytes (length (ys @ [asByte op])) @ ys @ [asByte op]) cs4 (1 + d) (\<lambda>_. True) (\<lambda>v. [v]) (\<lambda>v. [v])
    (\<lambda>(l, st). if jumps l then Inr (l, st) else evr st)"
proof (rule doesI)
  fix L K and st :: store and temps and lv :: operand
  let ?n = "length (ys @ [asByte op])"
  assume c: "code_at K pc ([asByte jop] @ u16_bytes ?n @ ys @ [asByte op])" and ld: "loaded K cs4"
    and st: "map fst (s_vars st) = names" and sp: "space K names temps (1 + d)"
  have "code_at K pc ((asByte jop # u16_bytes ?n) @ ys @ [asByte op])" using c by simp
  then have a: "code_at K pc (asByte jop # u16_bytes ?n)" "code_at K (pc + 3) ys" "code_at K (pc + 3 + length ys) [asByte op]"
    unfolding code_at_append by (simp_all add: numeral_3_eq_3)
  have g: "goes L K pc (config_of st (temps @ [lv])) (if jumps lv then pc + 3 + ?n else pc + 3) (config_of st (temps @ [lv]))"
    using goes_test [OF t a(1) len, of L "map snd (s_vars st) @ temps" lv "s_mod st" "s_heap st"] by (simp add: config_of_def)
  have "reaches L K (pc + 3) (config_of st ((temps @ [lv]) @ [])) names (\<lambda>v. (temps @ [lv]) @ [v]) (pc + 3 + length ys) (evr (snd ((), st)))"
    by (rule doesD [OF r a(2) l [OF ld] st]) (use sp in \<open>simp_all add: space_def\<close>)
  then have r2: "reaches L K (pc + 3) (config_of st (temps @ [lv])) names (\<lambda>v. (temps @ [lv]) @ [v]) (pc + 3 + length ys) (evr st)" by simp
  have "reaches L K (pc + 3 + length ys) (config_of st' ((temps @ [lv]) @ [v])) names (\<lambda>v. temps @ [v]) (pc + 3 + ?n) (Inr (v, st'))"
    if "map fst (s_vars st') = names" for v st'
  proof -
    have "room K (map snd (s_vars st') @ temps) 1" by (rule space_room [OF sp that]) simp
    moreover have "op = 21 \<or> op = 22" using t by (auto simp: tests_def)
    ultimately show ?thesis
      using goes_combine [OF a(3), of "map snd (s_vars st') @ temps" L lv v "s_mod st'" "s_heap st'"] that by (simp add: reaches_def config_of_def)
  qed
  then have "reaches L K (pc + 3) (config_of st (temps @ [lv])) names (\<lambda>v. temps @ [v]) (pc + 3 + ?n) (seq_then (evr st) (\<lambda>(v, st'). Inr (v, st')))"
    by (intro reaches_bind [OF r2]) simp
  moreover have "seq_then (evr st) (\<lambda>(v, st'). Inr (v, st')) = evr st" by (simp add: seq_then_def split: sum.split)
  ultimately have "reaches L K (pc + 3) (config_of st (temps @ [lv])) names (\<lambda>v. temps @ [v]) (pc + 3 + ?n) (evr st)" by simp
  then have "reaches L K pc (config_of st (temps @ [lv])) names (\<lambda>v. temps @ [v]) (pc + 3 + ?n) (if jumps lv then Inr (lv, st) else evr st)"
    using reaches_goes [OF g] g st by (cases "jumps lv") (simp_all add: reaches_def [of _ _ _ _ _ _ _ "Inr (lv, st)"])
  then show "reaches L K pc (config_of st (temps @ [lv])) names (\<lambda>v. temps @ [v])
      (pc + length ([asByte jop] @ u16_bytes ?n @ ys @ [asByte op])) (case (lv, st) of (l, st) \<Rightarrow> if jumps l then Inr (l, st) else evr st)"
    by (simp add: numeral_3_eq_3)
qed

lemma good_short_circuit:
  assumes f: "good names f d1 evl" and g: "good names g d2 evr" and t: "tests jop op jumps"
  shows "good names (short_circuit p jop op f g) (max (max d1 1) (1 + d2))
    (\<lambda>st. seq_then (evl st) (\<lambda>(l, st). if jumps l then Inr (l, st) else evr st))"
  unfolding short_circuit_def
proof (rule good_then [OF f])
  show "follows names (\<lambda>cs. case emit_jump p jop cs of (jumpToEnd, cs1) \<Rightarrow> seq_then (g cs1) (\<lambda>cs2. patch_jump jumpToEnd (emit_op p op cs2)))
      (1 + d2) (\<lambda>_. True) (\<lambda>v. [v]) (\<lambda>v. [v]) (\<lambda>(l, st). if jumps l then Inr (l, st) else evr st)"
  proof (rule followsI)
    fix cs cs4 assume pl: "plain names cs"
      and e: "(case emit_jump p jop cs of (jumpToEnd, cs1) \<Rightarrow> seq_then (g cs1) (\<lambda>cs2. patch_jump jumpToEnd (emit_op p op cs2))) = Inr cs4"
    obtain at cs1 where j: "emit_jump p jop cs = (at, cs1)" by (cases "emit_jump p jop cs") auto
    obtain cs2 where r: "g cs1 = Inr cs2" "patch_jump at (emit_op p op cs2) = Inr cs4" using e by (auto simp: j seq_then_eq_Inr)
    have j2: "emits cs [asByte jop, 0xff, 0xff] cs1" "at = code_len cs + length ([] :: byte list) + 1" using emits_jump [OF j] by simp_all
    obtain ys where ys: "emits cs1 ys cs2" "does names (code_len cs1) ys cs2 d2 (\<lambda>_. True) (\<lambda>_ :: unit. []) (\<lambda>v. [v]) (\<lambda>x. evr (snd x))"
      by (rule followsD [OF g [unfolded good_def] plain_emits [OF j2(1) pl] r(1)])
    have e3: "emits cs2 [asByte op] (emit_op p op cs2)" by (rule emits_op)
    have "emits cs ([] @ [asByte jop, 0xff, 0xff] @ ys @ [asByte op]) (emit_op p op cs2)"
      using emits_trans [OF emits_trans [OF j2(1) ys(1)] e3] by simp
    note p = emits_patch [OF this r(2) [unfolded j2(2)]]
    have "loaded K cs2" if "loaded K cs4" for K
      using that loaded_same [OF patch_jump_constants [OF r(2)], of K] loaded_mono [OF e3] by blast
    then have "does names (code_len cs) ([asByte jop] @ u16_bytes (length (ys @ [asByte op])) @ ys @ [asByte op]) cs4 (1 + d2) (\<lambda>_. True) (\<lambda>v. [v]) (\<lambda>v. [v])
        (\<lambda>(l, st). if jumps l then Inr (l, st) else evr st)"
      using p ys(2) emits_len [OF j2(1)] by (intro short_circuit_runs [OF t, where ?cs2.0 = cs2]) (simp_all add: numeral_3_eq_3)
    then show "\<exists>bs. emits cs bs cs4 \<and> does names (code_len cs) bs cs4 (1 + d2) (\<lambda>_. True) (\<lambda>v. [v]) (\<lambda>v. [v])
        (\<lambda>(l, st). if jumps l then Inr (l, st) else evr st)" using p by auto
  qed
qed simp_all

lemma good_BinaryOp:
  assumes l: "good names f d1 evl" and r: "good names g d2 evr"
  shows "good names (visit_BinaryOp p op nn f g) (max (max d1 1) (1 + max d2 1)) (eval_binary op (nn \<noteq> None) evl evr)"
proof -
  have r': "good names g (max d2 1) evr" by (rule good_mono [OF r]) simp
  consider (a) "op = B_And" | (o) "op = B_Or" | (n) q where "op = B_Is" "nn = Some q" | (p) "op \<noteq> B_And" "op \<noteq> B_Or" "\<not> (op = B_Is \<and> nn \<noteq> None)"
    by auto
  then show ?thesis
  proof cases
    case a
    have "(\<lambda>st. seq_then (evl st) (\<lambda>(l, st). if falsey l then Inr (l, st) else evr st)) = eval_binary op (nn \<noteq> None) evl evr"
      by (simp add: a eval_binary_def fun_eq_iff)
    then show ?thesis using good_short_circuit [OF l r', of 108 21 falsey p] a by (simp add: visit_BinaryOp_def tests_def)
  next
    case o
    have "(\<lambda>st. seq_then (evl st) (\<lambda>(l, st). if truthy l then Inr (l, st) else evr st)) = eval_binary op (nn \<noteq> None) evl evr"
      by (simp add: o eval_binary_def fun_eq_iff)
    then show ?thesis using good_short_circuit [OF l r', of 109 22 truthy p] o by (simp add: visit_BinaryOp_def tests_def)
  next
    case n
    have "max d1 2 \<le> max (max d1 1) (1 + max d2 1)" by (simp add: max_def)
    then show ?thesis using good_mono [OF good_is_not_nil [OF l, of p q g evr]] n by simp
  next
    case p
    show ?thesis by (rule good_plain_binary [OF l r' p])
  qed
qed

section \<open>Lists\<close>

text \<open>Stack slots for values pushed one after the other, where \<open>ds\<close> are those of each.\<close>

primrec slots_for :: "nat list \<Rightarrow> nat" where
  "slots_for [] = 1"
| "slots_for (d # ds) = max d (1 + slots_for ds)"

lemma follows_run_all:
  assumes "\<forall>e \<in> set es. good names (f e) (d e) (ev e)"
  shows "follows names (run_all (map f es)) (slots_for (map d es)) (\<lambda>_. True) (\<lambda>_ :: unit. []) (\<lambda>vs. vs)
    (\<lambda>x. eval_all (map ev es) (snd x))"
  using assms
proof (induction es)
  case Nil
  show ?case
  proof (rule follows_bytes)
    show "emits cs [] cs'" if "run_all (map f []) cs = Inr cs'" for cs cs' using that emits_refl by simp
  qed (simp add: reaches_def goes_refl)
next
  case (Cons e es)
  let ?k = "\<lambda>(v, st). seq_then (eval_all (map ev es) (snd ((), st))) (\<lambda>(vs, st1). Inr ((v, vs), st1))"
  have a: "follows names (f e) (slots_for (map d (e # es))) (\<lambda>_. True) (\<lambda>_ :: unit. []) (\<lambda>v. [v]) (\<lambda>x. ev e (snd x))"
    by (rule follows_mono [of _ _ "d e"]) (use Cons.prems in \<open>simp_all add: good_def\<close>)
  have "follows names (run_all (map f es)) (1 + slots_for (map d es)) (\<lambda>_. True) (\<lambda>v. [v]) (\<lambda>(v, vs). [v] @ vs) ?k"
    by (rule follows_frame [OF Cons.IH]) (use Cons.prems in simp_all)
  then have b: "follows names (run_all (map f es)) (slots_for (map d (e # es))) (\<lambda>_. True) (\<lambda>v. [v]) (\<lambda>(v, vs). [v] @ vs) ?k"
    by (rule follows_mono) simp
  have "follows names (then_do (f e) (run_all (map f es))) (slots_for (map d (e # es))) (\<lambda>_. True) (\<lambda>_ :: unit. []) (\<lambda>vs. vs)
      (\<lambda>x. seq_then (seq_then (ev e (snd x)) ?k) (\<lambda>(y, st). Inr ((\<lambda>(v, vs). v # vs) y, st)))"
    by (rule follows_map [OF follows_then [OF a b TrueI]]) auto
  moreover have "(\<lambda>x. seq_then (seq_then (ev e (snd x)) ?k) (\<lambda>(y, st). Inr ((\<lambda>(v, vs). v # vs) y, st)))
      = (\<lambda>x :: unit \<times> store. eval_all (map ev (e # es)) (snd x))"
    by (auto simp: seq_then_def fun_eq_iff split: sum.split)
  moreover have "then_do (f e) (run_all (map f es)) = run_all (map f (e # es))" by (simp add: then_do_def fun_eq_iff)
  ultimately show ?case by (simp only:)
qed

lemma eval_all_length: "eval_all fs st = Inr (vs, st') \<Longrightarrow> length vs = length fs"
  by (induction fs arbitrary: st vs) (auto simp: seq_then_eq_Inr)

lemma follows_NewList:
  "follows names (\<lambda>cs. if n > 255 then Inl Too_Many_Elements else Inr (emit_op_byte p OpNewList (word_of_nat n) cs)) 1
     (\<lambda>vs. length vs = n) (\<lambda>vs. vs) (\<lambda>v. [v])
     (\<lambda>(vs, st). Inr (Ref (length (s_heap st)), st\<lparr>s_heap := s_heap st @ [O_List vs]\<rparr>))"
proof (cases "n > 255")
  case True
  then show ?thesis by (simp add: follows_def)
next
  case False
  show ?thesis
  proof (rule follows_bytes)
    show "emits cs [asByte OpNewList, word_of_nat n] cs'"
      if "(if n > 255 then Inl Too_Many_Elements else Inr (emit_op_byte p OpNewList (word_of_nat n) cs)) = Inr cs'" for cs cs'
      using that False emits_op_byte [of cs OpNewList "word_of_nat n" p] by simp
  next
    fix L K pc and st :: store and temps and vs :: "operand list"
    assume c: "code_at K pc [asByte OpNewList, word_of_nat n]" and st: "map fst (s_vars st) = names"
      and sp: "space K names temps 1" and l: "length vs = n"
    have "room K (map snd (s_vars st) @ temps) 1" by (rule space_room [OF sp st]) simp
    then show "reaches L K pc (config_of st (temps @ vs)) names (\<lambda>v. temps @ [v]) (pc + length [asByte OpNewList, word_of_nat n])
        (case (vs, st) of (vs, st) \<Rightarrow> Inr (Ref (length (s_heap st)), st\<lparr>s_heap := s_heap st @ [O_List vs]\<rparr>))"
      using goes_NewList [of K pc vs "map snd (s_vars st) @ temps" L "s_mod st" "s_heap st"] c l False st
      by (simp add: reaches_def config_of_def)
  qed
qed

lemma slots_for_pos: "1 \<le> slots_for ds"
  by (cases ds) (simp_all add: le_max_iff_disj)

lemma good_List:
  assumes "\<forall>e \<in> set es. good names (f e) (d e) (ev e)"
  shows "good names (visit_List p (map f es)) (slots_for (map d es))
    (\<lambda>st. seq_then (eval_all (map ev es) st) (\<lambda>(vs, st1). Inr (Ref (length (s_heap st1)), st1\<lparr>s_heap := s_heap st1 @ [O_List vs]\<rparr>)))"
  unfolding good_def visit_List_def length_map
  by (rule follows_then [OF follows_run_all [OF assms] follows_mono [OF follows_NewList slots_for_pos]])
    (use eval_all_length in fastforce)

section \<open>Interpolated strings\<close>

definition strings :: "operand list \<Rightarrow> bool" where "strings vs \<longleftrightarrow> (\<forall>v \<in> set vs. string_of v \<noteq> None)"

text \<open>What is on the stack after the pieces \<open>vs\<close>, \<open>ws\<close> before: 255 strings are folded into one.\<close>

fun pile :: "operand list \<Rightarrow> operand list \<Rightarrow> operand list" where
  "pile ws [] = ws"
| "pile ws (v # vs) = (if length ws + 1 = 255 then pile [join_strings (ws @ [v])] vs else pile (ws @ [v]) vs)"

fun pile_size :: "nat \<Rightarrow> nat \<Rightarrow> nat" where
  "pile_size k 0 = k"
| "pile_size k (Suc n) = (if k + 1 = 255 then pile_size 1 n else pile_size (k + 1) n)"

lemma join_strings_simps: "string_of (join_strings vs) = Some (concat (map (\<lambda>v. the (string_of v)) vs))"
  by (simp add: join_strings_def string_of_def)

lemma pile_join: "strings ws \<Longrightarrow> strings vs \<Longrightarrow> strings (pile ws vs) \<and> join_strings (pile ws vs) = join_strings (ws @ vs)"
  by (induction ws vs rule: pile.induct) (auto simp: strings_def join_strings_simps join_strings_def string_of_def)

lemma pile_length: "length (pile ws vs) = pile_size (length ws) (length vs)"
  by (induction ws vs rule: pile.induct) auto

lemma pile_size_small: "k < 255 \<Longrightarrow> pile_size k n < 255"
  by (induction k n rule: pile_size.induct) auto

lemma pile_size_pos: "0 < k \<or> 0 < n \<Longrightarrow> 0 < pile_size k n"
  by (induction k n rule: pile_size.induct) auto

text \<open>The visitor of a part: its code, then the fold; the count of strings on the stack is static.\<close>

definition piece_pass :: "pos \<Rightarrow> ustring + pass \<Rightarrow> pass" where
  "piece_pass p part = (case part of Inl text \<Rightarrow> emit_constant p (rvalue.Str text)
     | Inr e \<Rightarrow> then_do e (\<lambda>cs. Inr (emit_op p OpToStringPart cs)))"

definition fold_pass :: "pos \<Rightarrow> nat \<Rightarrow> pass" where
  "fold_pass p k cs = Inr (if k + 1 = 255 then emit_op_byte p OpConcat 255 cs else cs)"

fun parts_pass :: "pos \<Rightarrow> nat \<Rightarrow> (ustring + pass) list \<Rightarrow> pass" where
  "parts_pass p k [] = Inr"
| "parts_pass p k (part # parts) = then_do (then_do (piece_pass p part) (fold_pass p k)) (parts_pass p (pile_size k 1) parts)"

lemma interp_part_pass:
  "interp_part p part (k, cs) = seq_then (then_do (piece_pass p part) (fold_pass p k) cs) (\<lambda>cs1. Inr (pile_size k 1, cs1))"
  by (cases part) (auto simp: interp_part_def piece_pass_def fold_pass_def then_do_def seq_then_def split: sum.split)

lemma interp_parts_pass:
  "interp_parts p parts (k, cs) = seq_then (parts_pass p k parts cs) (\<lambda>cs1. Inr (pile_size k (length parts), cs1))"
proof (induction parts arbitrary: k cs)
  case Nil
  then show ?case by simp
next
  case (Cons part parts)
  then show ?case by (simp add: interp_part_pass then_do_def seq_then_def split: sum.split)
qed

lemma follows_ToStringPart:
  "follows names (\<lambda>cs. Inr (emit_op p OpToStringPart cs)) 0 (\<lambda>_. True) (\<lambda>v. [v]) (\<lambda>v. [v])
     (\<lambda>(v, st). if string_of v = None then Inl (Stopped stop.Outside_Model) else Inr (v, st))"
proof (rule follows_bytes)
  show "emits cs [asByte OpToStringPart] cs'"
    if "Inr (emit_op p OpToStringPart cs) = (Inr cs' :: compile_error + compiler)" for cs cs'
    using that emits_op [of cs OpToStringPart p] by simp
next
  fix L K pc and st :: store and temps and v :: operand
  assume c: "code_at K pc [asByte OpToStringPart]" and st: "map fst (s_vars st) = names"
  show "reaches L K pc (config_of st (temps @ [v])) names (\<lambda>v. temps @ [v]) (pc + length [asByte OpToStringPart])
      (case (v, st) of (v, st) \<Rightarrow> if string_of v = None then Inl (Stopped stop.Outside_Model) else Inr (v, st))"
    using ToStringPart_effect [OF c, of v L "map snd (s_vars st) @ temps" "s_mod st" "s_heap st"] st
    by (simp add: reaches_def config_of_def)
qed

lemma good_piece:
  assumes "\<And>e. part = Inr e \<Longrightarrow> good names (f e) d (ev e)" "1 \<le> d"
  shows "good names (piece_pass p (map_sum id f part)) d (eval_piece (map_sum id ev part))"
proof (cases part)
  case (Inl s)
  have "good names (emit_constant p (rvalue.Str s)) d (\<lambda>st. Inr (const_operand (rvalue.Str s), st))"
    by (rule good_mono [OF good_constant assms(2)]) simp
  then show ?thesis using Inl by (simp add: piece_pass_def eval_piece_def [abs_def])
next
  case (Inr e)
  have "good names (then_do (f e) (\<lambda>cs. Inr (emit_op p OpToStringPart cs))) d
      (\<lambda>st. seq_then (ev e st) (\<lambda>(v, st). if string_of v = None then Inl (Stopped stop.Outside_Model) else Inr (v, st)))"
    by (rule good_then [OF assms(1) [OF Inr] follows_ToStringPart]) simp_all
  then show ?thesis using Inr by (simp add: piece_pass_def eval_piece_def [abs_def])
qed

lemma eval_piece_string: "eval_piece part st = Inr (v, st') \<Longrightarrow> string_of v \<noteq> None"
  by (auto simp: eval_piece_def string_of_def seq_then_eq_Inr split: sum.splits if_splits)

lemma concat_at:
  assumes "code_at K pc [asByte OpConcat, word_of_nat (length ws)]" "length ws < 256" "strings ws"
    and "map fst (s_vars st) = names" "space K names temps 1"
  shows "goes L K pc (config_of st (temps @ ws)) (pc + 2) (config_of st (temps @ [join_strings ws]))"
  using goes_Concat [OF assms(1,2), of "map snd (s_vars st) @ temps" L "s_mod st" "s_heap st"] space_room [OF assms(5,4), of 1] assms(3)
  by (simp add: strings_def config_of_def)

lemma follows_fold:
  "follows names (fold_pass p k) 1 (\<lambda>(ws, v). strings (ws @ [v]) \<and> length ws = k) (\<lambda>(ws, v). ws @ [v]) (\<lambda>ws. ws)
     (\<lambda>((ws, v), st). Inr (pile ws [v], st))"
proof (cases "k + 1 = 255")
  case True
  show ?thesis
  proof (rule follows_bytes)
    show "emits cs [asByte OpConcat, 255] cs'" if "fold_pass p k cs = Inr cs'" for cs cs'
      using that True emits_op_byte [of cs OpConcat 255 p] by (simp add: fold_pass_def)
  next
    fix L K pc and st :: store and temps and x :: "operand list \<times> operand"
    assume c: "code_at K pc [asByte OpConcat, 255]" and st: "map fst (s_vars st) = names" and sp: "space K names temps 1"
      and P: "case x of (ws, v) \<Rightarrow> strings (ws @ [v]) \<and> length ws = k"
    obtain ws v where x: "x = (ws, v)" by (cases x)
    have l: "length (ws @ [v]) = 255" using P x True by simp
    have "goes L K pc (config_of st (temps @ ws @ [v])) (pc + 2) (config_of st (temps @ [join_strings (ws @ [v])]))"
      by (rule concat_at) (use c l P x st sp in \<open>simp_all del: length_append\<close>)
    then show "reaches L K pc (config_of st (temps @ (case x of (ws, v) \<Rightarrow> ws @ [v]))) names (\<lambda>ws. temps @ ws) (pc + length [asByte OpConcat, 255])
        ((\<lambda>((ws, v), st). Inr (pile ws [v], st)) (x, st))" using l st x by (simp add: reaches_def)
  qed
next
  case False
  show ?thesis
  proof (rule follows_bytes)
    show "emits cs [] cs'" if "fold_pass p k cs = Inr cs'" for cs cs' using that False emits_refl by (simp add: fold_pass_def)
  next
    fix L K pc and st :: store and temps and x :: "operand list \<times> operand"
    assume st: "map fst (s_vars st) = names" and P: "case x of (ws, v) \<Rightarrow> strings (ws @ [v]) \<and> length ws = k"
    then show "reaches L K pc (config_of st (temps @ (case x of (ws, v) \<Rightarrow> ws @ [v]))) names (\<lambda>ws. temps @ ws) (pc + length [])
        ((\<lambda>((ws, v), st). Inr (pile ws [v], st)) (x, st))" using False by (cases x) (simp add: reaches_def goes_refl)
  qed
qed

lemma pile_Cons: "pile ws (v # vs) = pile (pile ws [v]) vs" by simp

definition piled :: "nat \<Rightarrow> operand list \<Rightarrow> bool" where "piled k ws \<longleftrightarrow> strings ws \<and> length ws = k"

lemma piled_step: "piled k ws \<Longrightarrow> string_of v \<noteq> None \<Longrightarrow> piled (pile_size k 1) (pile ws [v])"
  using pile_join [of ws "[v]"] pile_length [of ws "[v]"] by (simp add: piled_def strings_def)

lemma follows_part:
  assumes "good names (piece_pass p part) d ev" "\<And>st v st'. ev st = Inr (v, st') \<Longrightarrow> string_of v \<noteq> None" "1 \<le> d"
  shows "follows names (then_do (piece_pass p part) (fold_pass p k)) (k + d) (piled k) (\<lambda>ws. ws) (\<lambda>ws. ws)
    (\<lambda>(ws, st). seq_then (ev st) (\<lambda>(v, st1). Inr (pile ws [v], st1)))"
proof -
  have a: "follows names (piece_pass p part) (k + d) (piled k) (\<lambda>ws. ws) (\<lambda>(ws, v). ws @ [v])
      (\<lambda>(ws, st). seq_then (ev st) (\<lambda>(v, st1). Inr ((ws, v), st1)))"
    by (rule good_above [OF assms(1)]) (simp add: piled_def)
  have b: "follows names (fold_pass p k) (k + d) (\<lambda>(ws, v). strings (ws @ [v]) \<and> length ws = k) (\<lambda>(ws, v). ws @ [v]) (\<lambda>ws. ws)
      (\<lambda>((ws, v), st). Inr (pile ws [v], st))"
    by (rule follows_mono [OF follows_fold]) (use assms(3) in simp)
  have "follows names (then_do (piece_pass p part) (fold_pass p k)) (k + d) (piled k) (\<lambda>ws. ws) (\<lambda>ws. ws)
      (\<lambda>x. seq_then ((\<lambda>(ws, st). seq_then (ev st) (\<lambda>(v, st1). Inr ((ws, v), st1))) x) (\<lambda>((ws, v), st). Inr (pile ws [v], st)))"
    by (rule follows_then [OF a b]) (use assms(2) in \<open>auto simp: seq_then_eq_Inr piled_def strings_def\<close>)
  moreover have "(\<lambda>x. seq_then ((\<lambda>(ws, st). seq_then (ev st) (\<lambda>(v, st1). Inr ((ws, v), st1))) x) (\<lambda>((ws, v), st). Inr (pile ws [v], st)))
      = (\<lambda>(ws, st). seq_then (ev st) (\<lambda>(v, st1). Inr (pile ws [v], st1)))"
    by (auto simp: seq_then_def fun_eq_iff split: sum.split)
  ultimately show ?thesis by simp
qed

lemma follows_parts:
  assumes "\<forall>part \<in> set parts. good names (piece_pass p (f part)) (d part) (ev part) \<and> 1 \<le> d part
     \<and> (\<forall>st v st'. ev part st = Inr (v, st') \<longrightarrow> string_of v \<noteq> None)"
  shows "follows names (parts_pass p k (map f parts)) (k + slots_for (map d parts)) (piled k) (\<lambda>ws. ws) (\<lambda>ws. ws)
    (\<lambda>(ws, st). seq_then (eval_all (map ev parts) st) (\<lambda>(vs, st1). Inr (pile ws vs, st1)))"
  using assms
proof (induction parts arbitrary: k)
  case Nil
  show ?case
    by (rule follows_bytes [where bs = "[]"]) (auto simp: reaches_def goes_refl emits_refl)
next
  case (Cons part parts)
  have g: "good names (piece_pass p (f part)) (d part) (ev part)" "1 \<le> d part"
    "\<And>st v st'. ev part st = Inr (v, st') \<Longrightarrow> string_of v \<noteq> None" using Cons.prems by auto
  have le: "k + d part \<le> k + slots_for (map d (part # parts))"
    "pile_size k 1 + slots_for (map d parts) \<le> k + slots_for (map d (part # parts))" by auto
  have ih: "follows names (parts_pass p (pile_size k 1) (map f parts)) (pile_size k 1 + slots_for (map d parts)) (piled (pile_size k 1))
      (\<lambda>ws. ws) (\<lambda>ws. ws) (\<lambda>(ws, st). seq_then (eval_all (map ev parts) st) (\<lambda>(vs, st1). Inr (pile ws vs, st1)))"
    by (rule Cons.IH) (use Cons.prems in simp)
  have "follows names (parts_pass p k (map f (part # parts))) (k + slots_for (map d (part # parts))) (piled k) (\<lambda>ws. ws) (\<lambda>ws. ws)
      (\<lambda>x. seq_then ((\<lambda>(ws, st). seq_then (ev part st) (\<lambda>(v, st1). Inr (pile ws [v], st1))) x)
         (\<lambda>(ws, st). seq_then (eval_all (map ev parts) st) (\<lambda>(vs, st1). Inr (pile ws vs, st1))))"
    unfolding list.map parts_pass.simps
    by (rule follows_then [OF follows_mono [OF follows_part [OF g(1,3,2)] le(1) [unfolded list.map]] follows_mono [OF ih le(2) [unfolded list.map]]])
      (use g(3) piled_step in \<open>auto simp: seq_then_eq_Inr simp del: pile.simps pile_size.simps\<close>)
  moreover have "(\<lambda>x. seq_then ((\<lambda>(ws, st). seq_then (ev part st) (\<lambda>(v, st1). Inr (pile ws [v], st1))) x)
         (\<lambda>(ws, st). seq_then (eval_all (map ev parts) st) (\<lambda>(vs, st1). Inr (pile ws vs, st1))))
      = (\<lambda>(ws, st). seq_then (eval_all (map ev (part # parts)) st) (\<lambda>(vs, st1). Inr (pile ws vs, st1)))"
    unfolding pile_Cons [symmetric]
    by (auto simp: seq_then_def fun_eq_iff simp del: pile.simps(2) split: sum.split)
      (simp only: pile_Cons [symmetric])+
  ultimately show ?case by (simp only:)
qed

lemma join_single: "string_of w \<noteq> None \<Longrightarrow> join_strings [w] = w"
  by (cases w) (auto simp: join_strings_def string_of_def)

lemma follows_join:
  assumes "0 < n" "n < 255"
  shows "follows names (\<lambda>cs. if n > 1 then Inr (emit_op_byte p OpConcat (word_of_nat n) cs) else Inr cs) 1 (piled n) (\<lambda>ws. ws) (\<lambda>v. [v])
     (\<lambda>(ws, st). Inr (join_strings ws, st))"
proof (cases "n > 1")
  case True
  show ?thesis
  proof (rule follows_bytes)
    show "emits cs [asByte OpConcat, word_of_nat n] cs'"
      if "(if n > 1 then Inr (emit_op_byte p OpConcat (word_of_nat n) cs) else Inr cs) = (Inr cs' :: compile_error + compiler)" for cs cs'
      using that True emits_op_byte [of cs OpConcat "word_of_nat n" p] by simp
  next
    fix L K pc and st :: store and temps and ws
    assume c: "code_at K pc [asByte OpConcat, word_of_nat n]" and st: "map fst (s_vars st) = names" and sp: "space K names temps 1"
      and P: "piled n ws"
    have "goes L K pc (config_of st (temps @ ws)) (pc + 2) (config_of st (temps @ [join_strings ws]))"
      by (rule concat_at) (use c P st sp assms in \<open>simp_all add: piled_def\<close>)
    then show "reaches L K pc (config_of st (temps @ ws)) names (\<lambda>v. temps @ [v]) (pc + length [asByte OpConcat, word_of_nat n])
        (case (ws, st) of (ws, st) \<Rightarrow> Inr (join_strings ws, st))" using st by (simp add: reaches_def)
  qed
next
  case False
  show ?thesis
  proof (rule follows_bytes)
    show "emits cs [] cs'"
      if "(if n > 1 then Inr (emit_op_byte p OpConcat (word_of_nat n) cs) else Inr cs) = (Inr cs' :: compile_error + compiler)" for cs cs'
      using that False emits_refl by simp
  next
    fix L K pc and st :: store and temps and ws
    assume st: "map fst (s_vars st) = names" and P: "piled n ws"
    then obtain w where "ws = [w]" "string_of w \<noteq> None"
      using False assms(1) by (cases ws) (auto simp: piled_def strings_def)
    then show "reaches L K pc (config_of st (temps @ ws)) names (\<lambda>v. temps @ [v]) (pc + length [])
        (case (ws, st) of (ws, st) \<Rightarrow> Inr (join_strings ws, st))" using st by (simp add: reaches_def goes_refl join_single)
  qed
qed

lemma eval_all_strings:
  "(\<And>part st v st'. part \<in> set fs \<Longrightarrow> part st = Inr (v, st') \<Longrightarrow> string_of v \<noteq> None) \<Longrightarrow>
     eval_all fs st = Inr (vs, st') \<Longrightarrow> strings vs"
proof (induction fs arbitrary: st vs)
  case (Cons f fs)
  then show ?case by (fastforce simp: strings_def seq_then_eq_Inr)
qed (simp add: strings_def)

lemma good_StrInterp:
  assumes "\<forall>part \<in> set parts. good names (piece_pass p (f part)) (d part) (ev part) \<and> 1 \<le> d part
     \<and> (\<forall>st v st'. ev part st = Inr (v, st') \<longrightarrow> string_of v \<noteq> None)"
  shows "good names (visit_StrInterp p (map f parts)) (slots_for (map d parts))
    (\<lambda>st. seq_then (eval_all (map ev parts) st) (\<lambda>(vs, st1). Inr (join_strings vs, st1)))"
proof (cases "parts = []")
  case True
  have "visit_StrInterp p [] = emit_constant p (rvalue.Str [])" by (simp add: visit_StrInterp_def fun_eq_iff)
  moreover have "good names (emit_constant p (rvalue.Str [])) 1 (\<lambda>st. Inr (const_operand (rvalue.Str []), st))"
    by (rule good_constant) simp
  ultimately show ?thesis using True by (simp add: join_strings_def)
next
  case False
  let ?n = "pile_size 0 (length parts)"
  let ?fin = "\<lambda>cs. if ?n > 1 then Inr (emit_op_byte p OpConcat (word_of_nat ?n) cs) else Inr cs"
  have n: "0 < ?n" "?n < 255" using False pile_size_pos [of 0 "length parts"] pile_size_small [of 0 "length parts"] by simp_all
  have v: "visit_StrInterp p (map f parts) = then_do (parts_pass p 0 (map f parts)) ?fin"
    using False by (auto simp: visit_StrInterp_def interp_parts_pass then_do_def seq_then_def fun_eq_iff split: sum.split)
  have sv: "strings vs" if "eval_all (map ev parts) st = Inr (vs, st')" for st vs st'
  proof (rule eval_all_strings [OF _ that])
    fix g st v st' assume "g \<in> set (map ev parts)" and r: "g st = Inr (v, st')"
    then obtain x where "x \<in> set parts" "g = ev x" by auto
    then show "string_of v \<noteq> None" using assms r by blast
  qed
  have a: "follows names (parts_pass p 0 (map f parts)) (slots_for (map d parts)) (piled 0) (\<lambda>ws. ws) (\<lambda>ws. ws)
    (\<lambda>(ws, st). seq_then (eval_all (map ev parts) st) (\<lambda>(vs, st1). Inr (pile ws vs, st1)))"
    using follows_parts [OF assms, of 0] by simp
  have "follows names (then_do (parts_pass p 0 (map f parts)) ?fin) (slots_for (map d parts)) (piled 0) (\<lambda>ws. ws) (\<lambda>v. [v])
      (\<lambda>x. seq_then ((\<lambda>(ws, st). seq_then (eval_all (map ev parts) st) (\<lambda>(vs, st1). Inr (pile ws vs, st1))) x) (\<lambda>(ws, st). Inr (join_strings ws, st)))"
  proof (rule follows_then [OF a follows_mono [OF follows_join [OF n] slots_for_pos]])
    fix ws st y st'
    assume P: "piled 0 ws" and r: "(case (ws, st) of (ws, st) \<Rightarrow> seq_then (eval_all (map ev parts) st) (\<lambda>(vs, st1). Inr (pile ws vs, st1))) = Inr (y, st')"
    obtain vs where vs: "eval_all (map ev parts) st = Inr (vs, st')" "y = pile ws vs" using r by (auto simp: seq_then_eq_Inr)
    show "piled ?n y"
      using pile_join [of ws vs] pile_length [of ws vs] P sv [OF vs(1)] eval_all_length [OF vs(1)] vs(2) by (simp add: piled_def strings_def)
  qed
  then have "follows names (visit_StrInterp p (map f parts)) (slots_for (map d parts)) (\<lambda>_. True) (\<lambda>_ :: unit. []) (\<lambda>v. [v])
      (\<lambda>x. seq_then (eval_all (map ev parts) (snd x)) (\<lambda>(vs, st1). Inr (join_strings vs, st1)))"
    unfolding v follows_def
  proof (elim all_forward imp_forward ex_forward conj_forward)
    fix cs cs' bs
    assume dz: "does names (code_len cs) bs cs' (slots_for (map d parts)) (piled 0) (\<lambda>ws. ws) (\<lambda>v. [v])
      (\<lambda>x. seq_then ((\<lambda>(ws, st). seq_then (eval_all (map ev parts) st) (\<lambda>(vs, st1). Inr (pile ws vs, st1))) x) (\<lambda>(ws, st). Inr (join_strings ws, st)))"
    show "does names (code_len cs) bs cs' (slots_for (map d parts)) (\<lambda>_. True) (\<lambda>_ :: unit. []) (\<lambda>v. [v])
      (\<lambda>x. seq_then (eval_all (map ev parts) (snd x)) (\<lambda>(vs, st1). Inr (join_strings vs, st1)))"
    proof (rule doesI)
      fix L K and st :: store and temps and x :: unit
      assume c: "code_at K (code_len cs) bs" "loaded K cs'" "map fst (s_vars st) = names" "space K names temps (slots_for (map d parts))"
      have j: "join_strings (pile [] vs) = join_strings vs" if "eval_all (map ev parts) st = Inr (vs, st')" for vs st'
        using pile_join [of "[]" vs] sv [OF that] by (simp add: strings_def)
      have "seq_then (seq_then (eval_all (map ev parts) st) (\<lambda>(vs, st1). Inr (pile [] vs, st1))) (\<lambda>(ws, st). Inr (join_strings ws, st))
          = seq_then (eval_all (map ev parts) st) (\<lambda>(vs, st1). Inr (join_strings vs, st1))"
        using j by (auto simp: seq_then_def split: sum.split)
      then show "reaches L K (code_len cs) (config_of st (temps @ [])) names (\<lambda>v. temps @ [v]) (code_len cs + length bs)
          (seq_then (eval_all (map ev parts) (snd (x, st))) (\<lambda>(vs, st1). Inr (join_strings vs, st1)))"
        using doesD [OF dz c, of "[]" L] by (simp add: piled_def strings_def)
    qed
  qed
  then show ?thesis by (simp add: good_def)
qed

section \<open>All expressions\<close>

text \<open>Literals that fit a word, everywhere.\<close>

primrec expr_ok :: "expr \<Rightarrow> bool" where
  "expr_ok (E_Nil p) = True"
| "expr_ok (E_Bool p b) = True"
| "expr_ok (E_Num p n) = num_ok n"
| "expr_ok (E_Str p s) = True"
| "expr_ok (E_Variable p x) = True"
| "expr_ok (E_Unary p op e) = expr_ok e"
| "expr_ok (E_Binary p op l r) = (expr_ok l \<and> expr_ok r)"
| "expr_ok (E_Assign p x e) = expr_ok e"
| "expr_ok (E_Interp p parts) = list_all (case_sum (\<lambda>s. True) id) (map (map_sum id expr_ok) parts)"
| "expr_ok (E_List p es) = list_all id (map expr_ok es)"

text \<open>Stack slots that evaluation needs.\<close>

primrec need :: "expr \<Rightarrow> nat" where
  "need (E_Nil p) = 1"
| "need (E_Bool p b) = 1"
| "need (E_Num p n) = 1"
| "need (E_Str p s) = 1"
| "need (E_Variable p x) = 1"
| "need (E_Unary p op e) = max (need e) 1"
| "need (E_Binary p op l r) = max (max (need l) 1) (1 + max (need r) 1)"
| "need (E_Assign p x e) = need e"
| "need (E_Interp p parts) = slots_for (map (case_sum (\<lambda>s. 1) (max 1)) (map (map_sum id need) parts))"
| "need (E_List p es) = slots_for (map need es)"

lemma good_expr: "expr_ok e \<Longrightarrow> good names (visit_expr al e) (need e) (eval e)"
proof (induction e)
  case (E_Interp p parts)
  let ?d = "\<lambda>part. case_sum (\<lambda>s. 1) (max 1) (map_sum id need part)"
  have "\<forall>part \<in> set parts. good names (piece_pass p (map_sum id (visit_expr al) part)) (?d part) (eval_piece (map_sum id eval part))
     \<and> 1 \<le> ?d part \<and> (\<forall>st v st'. eval_piece (map_sum id eval part) st = Inr (v, st') \<longrightarrow> string_of v \<noteq> None)"
  proof (intro ballI conjI allI impI)
    fix part assume part: "part \<in> set parts"
    show "1 \<le> ?d part" by (cases part) simp_all
    then show "good names (piece_pass p (map_sum id (visit_expr al) part)) (?d part) (eval_piece (map_sum id eval part))"
    proof (rule good_piece [rotated])
      fix e assume e: "part = Inr e"
      have "expr_ok e" using E_Interp.prems part e by (auto simp: list_all_iff)
      then have "good names (visit_expr al e) (need e) (eval e)" using E_Interp.IH part e by (metis setr.intros)
      then show "good names (visit_expr al e) (?d part) (eval e)" by (rule good_mono) (simp add: e)
    qed
  next
    fix part st v st' assume "eval_piece (map_sum id eval part) st = Inr (v, st')"
    then show "string_of v \<noteq> None" by (rule eval_piece_string)
  qed
  from good_StrInterp [OF this] show ?case by (simp add: comp_def del: One_nat_def)
next
  case (E_List p es)
  have "\<forall>e \<in> set es. good names (visit_expr al e) (need e) (eval e)" using E_List by (auto simp: list_all_iff)
  from good_List [OF this] show ?case by simp
next
  case (E_Binary p op l r)
  then show ?case using good_BinaryOp [of names "visit_expr al l" "need l" "eval l" "visit_expr al r" "need r" "eval r" p op "not_nil r"] by simp
qed (simp_all del: One_nat_def add: good_Nil good_Bool good_Num good_Str good_variable good_UnaryOp good_Assignment)

end
