(* ===== verification/Compile_Holes.thy ===== *)
theory Compile_Holes
  imports Compile_Exprs
begin

text \<open>
  The relation between a statement and its code.  The code a statement emits inside a loop has holes,
  the operands of the jumps of its \<open>break\<close> statements, that the loop fills when it ends; a statement is
  therefore related to code with the holes filled, for every place a \<open>break\<close> may lead to.
\<close>

section \<open>Code with holes\<close>

datatype item = Raw byte | Hole

primrec isize :: "item list \<Rightarrow> nat" where
  "isize [] = 0"
| "isize (i # is) = (case i of Raw b \<Rightarrow> 1 | Hole \<Rightarrow> 2) + isize is"

text \<open>The bytes emitted, the positions of the holes, and the bytes once breaks lead to \<open>bt\<close>.\<close>

primrec raw :: "item list \<Rightarrow> byte list" where
  "raw [] = []"
| "raw (i # is) = (case i of Raw b \<Rightarrow> [b] | Hole \<Rightarrow> [0xff, 0xff]) @ raw is"

primrec holes :: "nat \<Rightarrow> item list \<Rightarrow> nat list" where
  "holes pc [] = []"
| "holes pc (i # is) = (case i of Raw b \<Rightarrow> holes (pc + 1) is | Hole \<Rightarrow> pc # holes (pc + 2) is)"

primrec filled :: "nat \<Rightarrow> nat \<Rightarrow> item list \<Rightarrow> byte list" where
  "filled bt pc [] = []"
| "filled bt pc (i # is) = (case i of Raw b \<Rightarrow> b # filled bt (pc + 1) is | Hole \<Rightarrow> u16_bytes (bt - (pc + 2)) @ filled bt (pc + 2) is)"

definition fits :: "nat \<Rightarrow> nat list \<Rightarrow> bool" where
  "fits bt hs \<longleftrightarrow> (\<forall>h \<in> set hs. h + 2 \<le> bt \<and> bt - (h + 2) < 65536)"

abbreviation (input) raws :: "byte list \<Rightarrow> item list" where "raws bs \<equiv> map Raw bs"

lemma isize_append [simp]: "isize (xs @ ys) = isize xs + isize ys" by (induction xs) simp_all
lemma raw_append [simp]: "raw (xs @ ys) = raw xs @ raw ys" by (induction xs) simp_all
lemma holes_append [simp]: "holes pc (xs @ ys) = holes pc xs @ holes (pc + isize xs) ys"
  by (induction xs arbitrary: pc) (simp_all split: item.split add: add.assoc)
lemma filled_append [simp]: "filled bt pc (xs @ ys) = filled bt pc xs @ filled bt (pc + isize xs) ys"
  by (induction xs arbitrary: pc) (simp_all split: item.split add: add.assoc)
lemma fits_append [simp]: "fits bt (xs @ ys) \<longleftrightarrow> fits bt xs \<and> fits bt ys" by (auto simp: fits_def)

lemma raws_simps [simp]: "isize (raws bs) = length bs" "raw (raws bs) = bs" "holes pc (raws bs) = []" "filled bt pc (raws bs) = bs"
  by (induction bs arbitrary: pc) simp_all

lemma raws_replicate [simp]: "isize (replicate k (Raw b)) = k" "raw (replicate k (Raw b)) = replicate k b"
  "holes pc (replicate k (Raw b)) = []" "filled bt pc (replicate k (Raw b)) = replicate k b"
  using raws_simps [where bs = "replicate k b"] by simp_all

lemma length_raw [simp]: "length (raw is) = isize is" by (induction "is") (simp_all split: item.split)
lemma length_filled [simp]: "length (filled bt pc is) = isize is" by (induction "is" arbitrary: pc) (simp_all split: item.split)
lemma fits_Nil [simp]: "fits bt []" by (simp add: fits_def)

lemma code_only: "c' = c\<lparr>code := x\<rparr> \<Longrightarrow> constants c' = constants c" by simp

text \<open>Patching all holes at the end of the code fills them.\<close>

lemma patch_holes:
  assumes "run_all (map patch_jump (holes (length pre) is)) cs = Inr cs'" "code (currentChunk cs) = pre @ raw is @ rest"
    and "bt = length pre + isize is + length rest"
  shows "\<exists>c. cs' = on_chunk (\<lambda>_. c) cs \<and> code c = pre @ filled bt (length pre) is @ rest
    \<and> constants c = constants (currentChunk cs) \<and> fits bt (holes (length pre) is)"
  using assms
proof (induction "is" arbitrary: pre cs)
  case Nil
  then show ?case by (intro exI [of _ "currentChunk cs"]) (simp add: on_chunk_def on_func_def currentChunk_def)
next
  case (Cons i "is")
  show ?case
  proof (cases i)
    case (Raw b)
    have "run_all (map patch_jump (holes (length (pre @ [b])) is)) cs = Inr cs'" "code (currentChunk cs) = (pre @ [b]) @ raw is @ rest"
      "bt = length (pre @ [b]) + isize is + length rest"
      using Cons.prems Raw by simp_all
    from Cons.IH [OF this] show ?thesis using Raw by simp
  next
    case Hole
    obtain cs1 where r: "patch_jump (length pre) cs = Inr cs1" "run_all (map patch_jump (holes (length pre + 2) is)) cs1 = Inr cs'"
      using Cons.prems(1) Hole by (auto simp: seq_then_eq_Inr)
    obtain c1 where c1: "patchJump (length pre) (currentChunk cs) = Inr c1" "cs1 = on_chunk (\<lambda>_. c1) cs"
      using r(1) by (auto simp: patch_jump_def try_chunk_def seq_then_eq_Inr)
    have cd: "code (currentChunk cs) = pre @ [0xff, 0xff] @ (raw is @ rest)" using Cons.prems(2) Hole by simp
    note pj = patchJump_code [OF c1(1) cd refl]
    have bt: "bt - (length pre + 2) = length (raw is @ rest)" "length pre + 2 \<le> bt" using Cons.prems(3) Hole by simp_all
    have k: "constants c1 = constants (currentChunk cs)"
    proof -
      have "c1 = (currentChunk cs)\<lparr>code := code c1\<rparr>" using pj by blast
      then show ?thesis by (rule code_only)
    qed
    let ?pre = "pre @ u16_bytes (bt - (length pre + 2))"
    have c1': "currentChunk cs1 = c1" using c1(2) by (simp add: currentChunk_def on_chunk_def on_func_def)
    have "run_all (map patch_jump (holes (length ?pre) is)) cs1 = Inr cs'" "code (currentChunk cs1) = ?pre @ raw is @ rest"
      "bt = length ?pre + isize is + length rest"
      using r(2) pj bt c1' Cons.prems(3) Hole by simp_all
    from Cons.IH [OF this] obtain c where "cs' = on_chunk (\<lambda>_. c) cs1" "code c = ?pre @ filled bt (length ?pre) is @ rest"
      "constants c = constants (currentChunk cs1)" "fits bt (holes (length ?pre) is)" by blast
    moreover have "on_chunk (\<lambda>_. c) cs1 = on_chunk (\<lambda>_. c) cs" using c1(2) by (simp add: on_chunk_def on_func_def)
    moreover have "length (raw is @ rest) < 65536" using pj by blast
    ultimately show ?thesis using Hole bt k c1' by (intro exI [of _ c]) (simp add: fits_def)
  qed
qed

section \<open>What a statement changes\<close>

definition plain_slot :: "int \<Rightarrow> local_slot \<Rightarrow> bool" where
  "plain_slot d l \<longleftrightarrow> l_depth l = d \<and> \<not> isCaptured l"

text \<open>
  The function gains code, constants and the locals \<open>new\<close>, initialized at its present depth, and the
  innermost loop the positions of the holes.
\<close>

definition same_frame :: "compiler \<Rightarrow> compiler \<Rightarrow> bool" where
  "same_frame cs cs' \<longleftrightarrow> scopeDepth (func cs') = scopeDepth (func cs) \<and> constBindings (func cs') = constBindings (func cs)
     \<and> initializer (func cs') = initializer (func cs) \<and> enclosing cs' = enclosing cs \<and> inModuleFunction cs' = inModuleFunction cs
     \<and> (idents_ok (func cs) \<longrightarrow> idents_ok (func cs')) \<and> compiled cs' = compiled cs"

definition add_breaks :: "nat list \<Rightarrow> loop_context list \<Rightarrow> loop_context list" where
  "add_breaks hs ls = (case ls of [] \<Rightarrow> [] | c # cs \<Rightarrow> c\<lparr>breakOffsets := breakOffsets c @ hs\<rparr> # cs)"

definition grows :: "compiler \<Rightarrow> item list \<Rightarrow> local_slot list \<Rightarrow> compiler \<Rightarrow> bool" where
  "grows cs is new cs' \<longleftrightarrow> same_frame cs cs'
     \<and> code (currentChunk cs') = code (currentChunk cs) @ raw is
     \<and> (\<exists>ks. constants (currentChunk cs') = constants (currentChunk cs) @ ks)
     \<and> locals (func cs') = locals (func cs) @ new \<and> (\<forall>l \<in> set new. plain_slot (scopeDepth (func cs)) l)
     \<and> length (locals (func cs')) \<le> 255
     \<and> loopStack cs' = add_breaks (holes (code_len cs) is) (loopStack cs) \<and> (loopStack cs = [] \<longrightarrow> holes (code_len cs) is = [])"

lemma add_breaks_append: "add_breaks ys (add_breaks xs ls) = add_breaks (xs @ ys) ls"
  by (simp add: add_breaks_def split: list.split)

lemma add_breaks_Nil [simp]: "add_breaks [] ls = ls" by (simp add: add_breaks_def split: list.split)

lemma same_frame_trans: "same_frame cs1 cs2 \<Longrightarrow> same_frame cs2 cs3 \<Longrightarrow> same_frame cs1 cs3" by (simp add: same_frame_def)

lemma grows_len: "grows cs is new cs' \<Longrightarrow> code_len cs' = code_len cs + isize is" by (simp add: grows_def code_len_def)

lemma grows_trans:
  assumes "grows cs1 xs new1 cs2" "grows cs2 ys new2 cs3"
  shows "grows cs1 (xs @ ys) (new1 @ new2) cs3"
proof -
  have d: "scopeDepth (func cs2) = scopeDepth (func cs1)" using assms(1) by (simp add: grows_def same_frame_def)
  have l: "code_len cs2 = code_len cs1 + isize xs" by (rule grows_len [OF assms(1)])
  have e: "loopStack cs2 = [] \<longleftrightarrow> loopStack cs1 = []" using assms(1) by (simp add: grows_def add_breaks_def split: list.splits)
  show ?thesis using assms same_frame_trans [of cs1 cs2 cs3] l d e unfolding grows_def
    by (auto simp: add_breaks_append)
qed

lemma emits_grows: "emits cs bs cs' \<Longrightarrow> length (locals (func cs)) \<le> 255 \<Longrightarrow> grows cs (raws bs) [] cs'"
  by (auto simp: emits_def grows_def same_frame_def currentChunk_def)

lemma grows_refl: "length (locals (func cs)) \<le> 255 \<Longrightarrow> grows cs [] [] cs" by (simp add: grows_def same_frame_def)

lemma loaded_prefix: "constants (currentChunk cs') = constants (currentChunk cs) @ ks \<Longrightarrow> loaded K cs' \<Longrightarrow> loaded K cs"
proof -
  assume k: "constants (currentChunk cs') = constants (currentChunk cs) @ ks" and l: "loaded K cs'"
  show "loaded K cs" unfolding loaded_def
  proof (intro allI impI)
    fix i assume i: "i < length (constants (currentChunk cs))"
    then have "constants (currentChunk cs') ! i = constants (currentChunk cs) ! i" "i < length (constants (currentChunk cs'))"
      using k by (simp_all add: nth_append)
    then show "case constants (currentChunk cs) ! i of
       Const_Value (Imm w) \<Rightarrow> constant_is K i (Sc (scalar_of_word w))
     | Const_Value (rvalue.Str s) \<Rightarrow> constant_is K i (operand.Str s)
     | _ \<Rightarrow> True" using l unfolding loaded_def by metis
  qed
qed

lemma grows_loaded: "grows cs is new cs' \<Longrightarrow> loaded K cs' \<Longrightarrow> loaded K cs"
  using loaded_prefix by (auto simp: grows_def)

text \<open>Code written over, the holes where they were.\<close>

lemma grows_overwrite:
  assumes "grows cs is new cs1" "code c = code (currentChunk cs) @ raw js" "constants c = constants (currentChunk cs1)"
    and "holes (code_len cs) js = holes (code_len cs) is"
  shows "grows cs js new (on_chunk (\<lambda>_. c) cs1)"
  using assms by (auto simp: grows_def same_frame_def on_chunk_def on_func_def currentChunk_def idents_ok_def)

lemma grows_patch:
  assumes "grows cs (xs @ raws [b, 0xff, 0xff] @ ys) new cs1" "patch_jump (code_len cs + isize xs + 1) cs1 = Inr cs2"
  shows "grows cs (xs @ raws ([b] @ u16_bytes (isize ys)) @ ys) new cs2 \<and> isize ys < 65536"
proof -
  obtain c where c: "patchJump (code_len cs + isize xs + 1) (currentChunk cs1) = Inr c" "cs2 = on_chunk (\<lambda>_. c) cs1"
    using assms(2) by (auto simp: patch_jump_def try_chunk_def seq_then_eq_Inr)
  have cd: "code (currentChunk cs1) = (code (currentChunk cs) @ raw xs @ [b]) @ [0xff, 0xff] @ raw ys"
    using assms(1) by (simp add: grows_def)
  have a: "code_len cs + isize xs + 1 = length (code (currentChunk cs) @ raw xs @ [b])" by (simp add: code_len_def)
  note pj = patchJump_code [OF c(1) cd a]
  have p: "code c = code (currentChunk cs) @ raw (xs @ raws ([b] @ u16_bytes (isize ys)) @ ys)" "isize ys < 65536"
    using pj by simp_all
  have "c = (currentChunk cs1)\<lparr>code := code c\<rparr>" using pj by blast
  then have "constants c = constants (currentChunk cs1)" by (rule code_only)
  then have "grows cs (xs @ raws ([b] @ u16_bytes (isize ys)) @ ys) new cs2"
    unfolding c(2) by (intro grows_overwrite [OF assms(1) p(1)]) simp_all
  then show ?thesis using p(2) by simp
qed

section \<open>The compiler between statements\<close>

text \<open>The loop around a statement: its variables and the position its \<open>continue\<close> leads to.\<close>

type_synonym loop_place = "(ustring list \<times> nat) option"

definition in_loop :: "loop_place \<Rightarrow> compiler \<Rightarrow> bool" where
  "in_loop lp cs \<longleftrightarrow>
     (case lp of
        None \<Rightarrow> loopStack cs = []
      | Some (lnames, start) \<Rightarrow> (\<exists>c r keep gone. loopStack cs = c # r \<and> whileLoopStart c = start \<and> start \<le> code_len cs
          \<and> bodyScopeDepth c < scopeDepth (func cs) \<and> locals (func cs) = keep @ gone \<and> map l_name keep = lnames
          \<and> (\<forall>l \<in> set keep. l_depth l \<le> bodyScopeDepth c) \<and> (\<forall>l \<in> set gone. l_depth l > bodyScopeDepth c \<and> \<not> isCaptured l)))"

lemma in_loopI:
  assumes "loopStack cs = c # r" "whileLoopStart c = start" "start \<le> code_len cs"
    "bodyScopeDepth c < scopeDepth (func cs)" "locals (func cs) = keep @ gone" "map l_name keep = lnames"
    "\<forall>l \<in> set keep. l_depth l \<le> bodyScopeDepth c" "\<forall>l \<in> set gone. l_depth l > bodyScopeDepth c \<and> \<not> isCaptured l"
  shows "in_loop (Some (lnames, start)) cs"
  unfolding in_loop_def using assms by auto

definition ready :: "ustring list \<Rightarrow> loop_place \<Rightarrow> compiler \<Rightarrow> bool" where
  "ready names lp cs \<longleftrightarrow> plain names cs \<and> map l_name (locals (func cs)) = names
     \<and> (\<forall>l \<in> set (locals (func cs)). 0 \<le> l_depth l \<and> l_depth l \<le> scopeDepth (func cs))
     \<and> 0 < scopeDepth (func cs) \<and> \<not> initializer (func cs) \<and> in_loop lp cs"

lemma plain_locals:
  assumes "locals (func cs) = ls @ fl" "map l_name ls = names" "\<forall>l \<in> set ls. \<not> fresh l" "\<forall>l \<in> set fl. fresh l" "length names \<le> 255"
    and "\<And>x. lookupConstBinding x (func cs # enclosing cs) = None" "\<And>x. x \<notin> set names \<Longrightarrow> enclosing_local x (enclosing cs) = None"
    and "\<not> inModuleFunction cs" "idents_ok (func cs)"
  shows "plain names cs"
  unfolding plain_def using assms by blast

lemma plainI:
  assumes "\<forall>l \<in> set (locals (func cs)). 0 \<le> l_depth l" "map l_name (locals (func cs)) = names" "length names \<le> 255"
    and "\<And>x. lookupConstBinding x (func cs # enclosing cs) = None" "\<And>x. x \<notin> set names \<Longrightarrow> enclosing_local x (enclosing cs) = None"
    and "\<not> inModuleFunction cs" "idents_ok (func cs)"
  shows "plain names cs"
proof -
  have "\<forall>l \<in> set (locals (func cs)). \<not> fresh l" using assms(1) by (auto simp: fresh_def)
  then show ?thesis by (intro plain_locals [of cs "locals (func cs)" "[]"]) (use assms in simp_all)
qed

lemma ready_length: "ready names lp cs \<Longrightarrow> length (locals (func cs)) \<le> 255"
  by (metis length_map plain_def ready_def)

lemma lookup_frame:
  "constBindings (func cs') = constBindings (func cs) \<Longrightarrow> enclosing cs' = enclosing cs \<Longrightarrow>
     lookupConstBinding x (func cs' # enclosing cs') = lookupConstBinding x (func cs # enclosing cs)"
  by simp

lemma in_loop_grows:
  assumes "in_loop lp cs" "grows cs is new cs'"
  shows "in_loop lp cs'"
proof (cases lp)
  case None
  then show ?thesis using assms by (simp add: in_loop_def grows_def add_breaks_def)
next
  case (Some l)
  obtain lnames start where l: "lp = Some (lnames, start)" using Some by (cases l) auto
  obtain c r keep gone where c: "loopStack cs = c # r" "whileLoopStart c = start" "start \<le> code_len cs"
    "bodyScopeDepth c < scopeDepth (func cs)" "locals (func cs) = keep @ gone" "map l_name keep = lnames"
    "\<forall>l \<in> set keep. l_depth l \<le> bodyScopeDepth c" "\<forall>l \<in> set gone. l_depth l > bodyScopeDepth c \<and> \<not> isCaptured l"
    using assms(1) l by (auto simp: in_loop_def)
  let ?c = "c\<lparr>breakOffsets := breakOffsets c @ holes (code_len cs) is\<rparr>"
  have g: "loopStack cs' = ?c # r" "locals (func cs') = keep @ (gone @ new)" "scopeDepth (func cs') = scopeDepth (func cs)"
    using assms(2) c(1,5) by (simp_all add: grows_def add_breaks_def same_frame_def)
  have "\<forall>l \<in> set (gone @ new). l_depth l > bodyScopeDepth c \<and> \<not> isCaptured l"
    using c(4,8) assms(2) by (auto simp: grows_def plain_slot_def)
  then show ?thesis unfolding l
    using c grows_len [OF assms(2)] by (intro in_loopI [OF g(1) _ _ _ g(2)]) (simp_all add: g(3))
qed

lemma ready_grows:
  assumes "ready names lp cs" "grows cs is new cs'"
  shows "ready (names @ map l_name new) lp cs'"
proof -
  have p: "plain names cs" "map l_name (locals (func cs)) = names"
    "\<forall>l \<in> set (locals (func cs)). 0 \<le> l_depth l \<and> l_depth l \<le> scopeDepth (func cs)" "0 < scopeDepth (func cs)"
    "\<not> initializer (func cs)" "in_loop lp cs" using assms(1) by (simp_all add: ready_def)
  have g: "same_frame cs cs'" "locals (func cs') = locals (func cs) @ new" "\<forall>l \<in> set new. plain_slot (scopeDepth (func cs)) l"
    "length (locals (func cs')) \<le> 255" using assms(2) unfolding grows_def by blast+
  note f = g(1) [unfolded same_frame_def]
  have n: "map l_name (locals (func cs')) = names @ map l_name new" using p(2) g(2) by simp
  have d: "\<forall>l \<in> set (locals (func cs')). 0 \<le> l_depth l \<and> l_depth l \<le> scopeDepth (func cs')"
    using p(3,4) g(2,3) f by (auto simp: plain_slot_def)
  have "plain (names @ map l_name new) cs'"
  proof (rule plainI [OF _ n])
    show "lookupConstBinding x (func cs' # enclosing cs') = None" for x
      using p(1) lookup_frame [of cs' cs x] f by (simp add: plain_def)
    show "length (names @ map l_name new) \<le> 255" using g(4) n by (metis length_map)
  qed (use d p(1) f in \<open>auto simp: plain_def\<close>)
  then show ?thesis using n d p(4,5) f in_loop_grows [OF p(6) assms(2)] by (simp add: ready_def)
qed

section \<open>What running a statement does\<close>

definition cut :: "nat \<Rightarrow> store \<Rightarrow> store" where "cut m st = st\<lparr>s_vars := take m (s_vars st)\<rparr>"

text \<open>Leaving for a place of the loop, with the loop's variables only.\<close>

definition leaves :: "nat \<Rightarrow> run_context \<Rightarrow> nat \<Rightarrow> config \<Rightarrow> ustring list \<Rightarrow> nat \<Rightarrow> store \<Rightarrow> bool" where
  "leaves L K pc s lnames target st \<longleftrightarrow>
     map fst (s_vars (cut (length lnames) st)) = lnames \<and> goes L K pc s target (config_of (cut (length lnames) st) [])"

definition at_return :: "nat \<Rightarrow> run_context \<Rightarrow> nat \<Rightarrow> config \<Rightarrow> operand \<Rightarrow> store \<Rightarrow> bool" where
  "at_return L K pc s v st \<longleftrightarrow> (\<exists>q vals. goes L K pc s q (vals @ [v], s_mod st, s_heap st) \<and> code_at K q [asByte OpReturn])"

definition flows_to ::
  "nat \<Rightarrow> run_context \<Rightarrow> nat \<Rightarrow> config \<Rightarrow> nat \<Rightarrow> ustring list \<Rightarrow> loop_place \<Rightarrow> nat \<Rightarrow> outcome_of \<Rightarrow> bool" where
  "flows_to L K pc s pc' names lp bt r \<longleftrightarrow>
     (case r of
        None \<Rightarrow> True
      | Some (Inl (Stopped e)) \<Rightarrow> stops L K pc s e
      | Some (Inl (Raised st)) \<Rightarrow> raises L K pc s (s_mod st) (s_heap st)
      | Some (Inr (F_Normal, st)) \<Rightarrow> map fst (s_vars st) = names \<and> goes L K pc s pc' (config_of st [])
      | Some (Inr (F_Break, st)) \<Rightarrow> (\<exists>lnames start. lp = Some (lnames, start) \<and> leaves L K pc s lnames bt st)
      | Some (Inr (F_Continue, st)) \<Rightarrow> (\<exists>lnames start. lp = Some (lnames, start) \<and> leaves L K pc s lnames start st)
      | Some (Inr (F_Return v, st)) \<Rightarrow> at_return L K pc s v st)"

lemma flows_to_goes:
  "goes L K p1 s1 p2 s2 \<Longrightarrow> flows_to L K p2 s2 p3 names lp bt r \<Longrightarrow> flows_to L K p1 s1 p3 names lp bt r"
  unfolding flows_to_def
  by (auto simp: leaves_def at_return_def split: option.splits sum.splits fault.splits prod.splits flow.splits
      intro: goes_trans goes_stops goes_raises)

text \<open>First a value, then a statement that uses it.\<close>

lemma flows_to_value:
  assumes "reaches L K p1 s names g p2 r"
    and "\<And>v st. r = Inr (v, st) \<Longrightarrow> map fst (s_vars st) = names \<Longrightarrow> flows_to L K p2 (config_of st (g v)) p3 names' lp bt (k v st)"
  shows "flows_to L K p1 s p3 names' lp bt (with_value r k)"
proof (cases r)
  case (Inl f)
  then show ?thesis using assms(1) by (cases f) (simp_all add: flows_to_def with_value_def reaches_def)
next
  case (Inr a)
  obtain v st where a: "r = Inr (v, st)" using Inr by (cases a) auto
  then have "goes L K p1 s p2 (config_of st (g v))" "map fst (s_vars st) = names" using assms(1) by (auto simp: reaches_def)
  then show ?thesis using assms(2) [OF a] a by (auto simp: with_value_def intro: flows_to_goes)
qed

text \<open>
  What a visitor of statements emits, from a state with the variables \<open>names\<close> in a loop \<open>lp\<close>: the code
  \<open>is\<close> and the variables \<open>vs\<close>.  The evaluation may depend on the fuel.
\<close>

definition runs_as ::
  "ustring list \<Rightarrow> ustring list \<Rightarrow> loop_place \<Rightarrow> nat \<Rightarrow> item list \<Rightarrow> compiler \<Rightarrow> nat \<Rightarrow> (nat \<Rightarrow> store \<Rightarrow> outcome_of) \<Rightarrow> bool" where
  "runs_as names vs lp pc is cs' d ev \<longleftrightarrow>
     (\<forall>n L K bt st. code_at K pc (filled bt pc is) \<longrightarrow> fits bt (holes pc is) \<longrightarrow> loaded K cs' \<longrightarrow> map fst (s_vars st) = names
        \<longrightarrow> space K names [] d \<longrightarrow> flows_to L K pc (config_of st []) (pc + isize is) (names @ vs) lp bt (ev n st))"

lemma runs_asI:
  assumes "\<And>n L K bt st. \<lbrakk>code_at K pc (filled bt pc is); fits bt (holes pc is); loaded K cs'; map fst (s_vars st) = names; space K names [] d\<rbrakk>
     \<Longrightarrow> flows_to L K pc (config_of st []) (pc + isize is) (names @ vs) lp bt (ev n st)"
  shows "runs_as names vs lp pc is cs' d ev"
  unfolding runs_as_def by (intro allI impI) (rule assms)

lemma runs_asD:
  assumes "runs_as names vs lp pc is cs' d ev" "code_at K pc (filled bt pc is)" "fits bt (holes pc is)" "loaded K cs'"
    "map fst (s_vars st) = names" "space K names [] d"
  shows "flows_to L K pc (config_of st []) (pc + isize is) (names @ vs) lp bt (ev n st)"
  using assms(1) unfolding runs_as_def using assms(2-6) by blast

definition fine :: "ustring list \<Rightarrow> ustring list \<Rightarrow> loop_place \<Rightarrow> pass \<Rightarrow> nat \<Rightarrow> (nat \<Rightarrow> store \<Rightarrow> outcome_of) \<Rightarrow> bool" where
  "fine names vs lp f d ev \<longleftrightarrow> (\<forall>cs cs'. ready names lp cs \<longrightarrow> f cs = Inr cs' \<longrightarrow>
     (\<exists>is new. grows cs is new cs' \<and> map l_name new = vs \<and> runs_as names vs lp (code_len cs) is cs' d ev))"

lemma fineI:
  assumes "\<And>cs cs'. ready names lp cs \<Longrightarrow> f cs = Inr cs' \<Longrightarrow>
     \<exists>is new. grows cs is new cs' \<and> map l_name new = vs \<and> runs_as names vs lp (code_len cs) is cs' d ev"
  shows "fine names vs lp f d ev"
  unfolding fine_def by (intro allI impI) (rule assms)

lemma fineD:
  assumes "fine names vs lp f d ev" "ready names lp cs" "f cs = Inr cs'"
  obtains "is" new where "grows cs is new cs'" "map l_name new = vs" "ready (names @ vs) lp cs'" "code_len cs' = code_len cs + isize is"
    "runs_as names vs lp (code_len cs) is cs' d ev"
proof -
  obtain "is" new where i: "grows cs is new cs'" "map l_name new = vs" "runs_as names vs lp (code_len cs) is cs' d ev"
    using assms unfolding fine_def by blast
  show ?thesis by (rule that [OF i(1,2) _ grows_len [OF i(1)] i(3)]) (use ready_grows [OF assms(2) i(1)] i(2) in simp)
qed

end
