(* ===== verification/Compile_Stmts.thy ===== *)
theory Compile_Stmts
  imports Compile_Holes
begin

text \<open>
  Compiled statements do what the evaluator of \<open>Source_Semantics\<close> says: declarations, assignments,
  blocks with their scopes, conditionals, loops with \<open>break\<close> and \<open>continue\<close>, and returns.
\<close>

section \<open>Simple statements\<close>

lemma ready_plain: "ready names lp cs \<Longrightarrow> plain names cs" by (simp add: ready_def)

lemma grows_mark: "ready names lp cs \<Longrightarrow> grows cs [] [] (mark_stmt_start dbg p cs)"
  using ready_length [of names lp cs]
  by (auto simp: grows_def same_frame_def mark_stmt_start_def on_chunk_def on_func_def currentChunk_def markStmtStart_def
      with_debug_def idents_ok_def)

lemma fine_marked: "fine names vs lp f d ev \<Longrightarrow> fine names vs lp (\<lambda>cs. f (mark_stmt_start dbg p cs)) d ev"
proof (rule fineI)
  fix cs cs' assume f: "fine names vs lp f d ev" and r: "ready names lp cs" and e: "f (mark_stmt_start dbg p cs) = Inr cs'"
  note g = grows_mark [OF r, of dbg p]
  have r': "ready names lp (mark_stmt_start dbg p cs)" using ready_grows [OF r g] by simp
  obtain "is" new where i: "grows (mark_stmt_start dbg p cs) is new cs'" "map l_name new = vs"
    "runs_as names vs lp (code_len (mark_stmt_start dbg p cs)) is cs' d ev" by (rule fineD [OF f r' e])
  then show "\<exists>is new. grows cs is new cs' \<and> map l_name new = vs \<and> runs_as names vs lp (code_len cs) is cs' d ev"
    using grows_trans [OF g i(1)] grows_len [OF g] by auto
qed

text \<open>A value and a few instructions that use it up.\<close>

lemma fine_value:
  assumes f: "good names f d ev" and g: "\<And>cs cs'. ready names lp cs \<Longrightarrow> g cs = Inr cs' \<Longrightarrow> emits cs ys cs'"
    and k: "\<And>L K pc bt st v. code_at K pc ys \<Longrightarrow> map fst (s_vars st) = names \<Longrightarrow> space K names [] d \<Longrightarrow>
       flows_to L K pc (config_of st [v]) (pc + length ys) names lp bt (k v st)"
  shows "fine names [] lp (then_do f g) d (\<lambda>n st. with_value (ev st) k)"
proof (rule fineI)
  fix cs cs2 assume r: "ready names lp cs" and fg: "then_do f g cs = Inr cs2"
  obtain cs1 where c: "f cs = Inr cs1" "g cs1 = Inr cs2" using fg by (auto simp: then_do_def seq_then_eq_Inr)
  obtain xs where xs: "emits cs xs cs1" "code_len cs1 = code_len cs + length xs"
    "does names (code_len cs) xs cs1 d (\<lambda>_. True) (\<lambda>_ :: unit. []) (\<lambda>v. [v]) (\<lambda>x. ev (snd x))"
    by (rule followsD [OF f [unfolded good_def] ready_plain [OF r] c(1)])
  have r1: "ready names lp cs1" using ready_grows [OF r emits_grows [OF xs(1) ready_length [OF r]]] by simp
  have ys: "emits cs1 ys cs2" by (rule g [OF r1 c(2)])
  have "runs_as names [] lp (code_len cs) (raws (xs @ ys)) cs2 d (\<lambda>n st. with_value (ev st) k)"
  proof (rule runs_asI)
    fix n L K bt and st :: store
    assume a: "code_at K (code_len cs) (filled bt (code_len cs) (raws (xs @ ys)))" "loaded K cs2" "map fst (s_vars st) = names" "space K names [] d"
    have b: "code_at K (code_len cs) xs" "code_at K (code_len cs + length xs) ys" using a(1) unfolding raws_simps code_at_append by simp_all
    have "reaches L K (code_len cs) (config_of st ([] @ [])) names (\<lambda>v. [] @ [v]) (code_len cs + length xs) (ev (snd ((), st)))"
      by (rule doesD [OF xs(3) b(1) loaded_mono [OF ys a(2)] a(3,4)]) simp
    then have v: "reaches L K (code_len cs) (config_of st []) names (\<lambda>v. [v]) (code_len cs + length xs) (ev st)" by simp
    show "flows_to L K (code_len cs) (config_of st []) (code_len cs + isize (raws (xs @ ys))) (names @ []) lp bt (with_value (ev st) k)"
      by (rule flows_to_value [OF v]) (use k [OF b(2) _ a(4)] in \<open>simp add: add.assoc\<close>)
  qed
  then show "\<exists>is new. grows cs is new cs2 \<and> map l_name new = [] \<and> runs_as names [] lp (code_len cs) is cs2 d (\<lambda>n st. with_value (ev st) k)"
    using emits_grows [OF emits_trans [OF xs(1) ys] ready_length [OF r]] by (intro exI [of _ "raws (xs @ ys)"] exI [of _ "[]"]) simp
qed

lemma flows_Pop:
  assumes "code_at K pc [asByte op]" "op = 27 \<or> op = 29" "map fst (s_vars st) = names"
  shows "flows_to L K pc (config_of st [v]) (Suc pc) names lp bt (Some (Inr (F_Normal, st)))"
  using goes_Pop [OF assms(1,2)] assms(3) by (simp add: flows_to_def config_of_def)

lemma fine_Expr:
  assumes "good names f d ev"
  shows "fine names [] lp (visit_ExpressionStatement p b f) d (\<lambda>n st. with_value (ev st) (\<lambda>v st1. Some (Inr (F_Normal, st1))))"
  unfolding visit_ExpressionStatement_def
proof (rule fine_value [OF assms])
  show "emits cs [asByte (if b then 27 else 29)] cs'"
    if "Inr (emit_op p (if b then 27 else 29) cs) = (Inr cs' :: compile_error + compiler)" for cs cs'
    using that emits_op [of cs "if b then 27 else 29" p] by simp
qed (use flows_Pop in simp)

lemma emits_return: "\<not> initializer (func cs) \<Longrightarrow> emits cs [asByte 2, asByte OpReturn] (emit_return p cs)"
proof -
  assume "\<not> initializer (func cs)"
  then have "emit_return p cs = emit_op p OpReturn (emit_op p 2 cs)"
    by (simp add: emit_return_def emit_op_def on_chunk_def on_func_def emitReturn_def)
  then show ?thesis using emits_trans [OF emits_op [of cs 2 p] emits_op [of _ OpReturn p]] by simp
qed

lemma flows_Return:
  assumes "code_at K pc [asByte OpReturn]"
  shows "flows_to L K pc (config_of st [v]) pc' names lp bt (Some (Inr (F_Return v, st)))"
  using assms by (auto simp: flows_to_def at_return_def config_of_def intro!: exI [of _ pc] exI [of _ "map snd (s_vars st)"] goes_refl)

lemma fine_Return_value:
  assumes "good names f d ev"
  shows "fine names [] lp (visit_ReturnStatement p (Some f)) d (\<lambda>n st. with_value (ev st) (\<lambda>v st1. Some (Inr (F_Return v, st1))))"
proof -
  let ?g = "\<lambda>cs1. if initializer (func cs1) then Inl Value_From_Initializer
          else if isProc cs1 then Inl Value_From_Proc else Inr (emit_op p OpReturn cs1)"
  have "fine names [] lp (then_do f ?g) d (\<lambda>n st. with_value (ev st) (\<lambda>v st1. Some (Inr (F_Return v, st1))))"
  proof (rule fine_value [OF assms])
    show "emits cs [asByte OpReturn] cs'" if "?g cs = Inr cs'" for cs cs'
      using that emits_op [of cs OpReturn p] by (auto split: if_splits)
  qed (rule flows_Return)
  moreover have "visit_ReturnStatement p (Some f) = then_do f ?g" by (simp add: visit_ReturnStatement_def then_do_def fun_eq_iff)
  ultimately show ?thesis by simp
qed

lemma flows_return_nil:
  assumes "code_at K pc [asByte 2, asByte OpReturn]" "map fst (s_vars st) = names" "space K names [] 1"
  shows "flows_to L K pc (config_of st []) pc' names' lp bt (Some (Inr (F_Return (Sc SNil), st)))"
proof -
  have c: "code_at K pc [asByte 2]" "code_at K (Suc pc) [asByte OpReturn]" using assms(1) code_at_Cons [of K pc "asByte 2" "[asByte OpReturn]"] by simp_all
  have "room K (map snd (s_vars st) @ []) 1" by (rule space_room [OF assms(3,2)]) simp
  then have "goes L K pc (config_of st []) (Suc pc) (config_of st [Sc SNil])"
    using goes_push [OF c(1)] by (simp add: config_of_def)
  then show ?thesis by (rule flows_to_goes) (rule flows_Return [OF c(2)])
qed

lemma fine_Return_nil:
  "fine names [] lp (visit_ReturnStatement p None) 1 (\<lambda>n st. with_value (Inr (Sc SNil, st)) (\<lambda>v st1. Some (Inr (F_Return v, st1))))"
proof (rule fineI)
  fix cs cs' assume r: "ready names lp cs" and e: "visit_ReturnStatement p None cs = Inr cs'"
  have em: "emits cs [asByte 2, asByte OpReturn] cs'" using e emits_return [of cs p] r by (simp add: visit_ReturnStatement_def ready_def)
  have "runs_as names [] lp (code_len cs) (raws [asByte 2, asByte OpReturn]) cs' 1
      (\<lambda>n st. with_value (Inr (Sc SNil, st)) (\<lambda>v st1. Some (Inr (F_Return v, st1))))"
    by (rule runs_asI) (simp add: with_value_def flows_return_nil)
  then show "\<exists>is new. grows cs is new cs' \<and> map l_name new = [] \<and> runs_as names [] lp (code_len cs) is cs' 1
      (\<lambda>n st. with_value (Inr (Sc SNil, st)) (\<lambda>v st1. Some (Inr (F_Return v, st1))))"
    using emits_grows [OF em ready_length [OF r]] by (intro exI [of _ "raws [asByte 2, asByte OpReturn]"] exI [of _ "[]"]) simp
qed

section \<open>Variable declarations\<close>

lemma declared_local:
  assumes "ready names lp cs" "declareVariable p x cs = Inr cs1"
  shows "plain names cs1" "locals (func cs1) = locals (func cs) @ [new_local x (-1) []]" "code_len cs1 = code_len cs"
    "same_frame cs cs1" "currentChunk cs1 = currentChunk cs" "loopStack cs1 = loopStack cs" "length (locals (func cs)) < 255"
proof -
  have d: "0 < scopeDepth (func cs)" and pl: "plain names cs" and n: "map l_name (locals (func cs)) = names"
    and dp: "\<forall>l \<in> set (locals (func cs)). 0 \<le> l_depth l" and ln: "length (locals (func cs)) \<le> 255"
    using assms(1) ready_length [OF assms(1)] by (auto simp: ready_def)
  obtain fs where fs: "declareLocal x [] (func cs) = Inr fs" "cs1 = cs\<lparr>func := fs\<rparr>"
    using assms(2) d by (auto simp: declareVariable_def at_module_scope_def seq_then_eq_Inr)
  let ?c = "clearPendingDeclaration x (func cs)"
  have a: "addLocal x [] ?c = Inr fs" using fs(1) by (auto simp: declareLocal_def Let_def split: if_splits)
  have c: "locals ?c = locals (func cs)" "fchunk ?c = fchunk (func cs)" "scopeDepth ?c = scopeDepth (func cs)"
    "constBindings ?c = constBindings (func cs)" "initializer ?c = initializer (func cs)" "identConsts ?c = identConsts (func cs)"
    by (simp_all add: clearPendingDeclaration_def)
  have f: "fs = ?c\<lparr>locals := locals (func cs) @ [new_local x (-1) []]\<rparr>" and l: "length (locals (func cs)) \<noteq> 255"
    using a c(1) by (auto simp: addLocal_def split: if_splits)
  show l1: "locals (func cs1) = locals (func cs) @ [new_local x (-1) []]" using f fs(2) by simp
  show "length (locals (func cs)) < 255" using l ln by simp
  show "currentChunk cs1 = currentChunk cs" "code_len cs1 = code_len cs" "loopStack cs1 = loopStack cs"
    using f fs(2) c by (simp_all add: currentChunk_def code_len_def)
  show sf: "same_frame cs cs1" using f fs(2) c by (simp add: same_frame_def idents_ok_def)
  have fr: "\<forall>l \<in> set (locals (func cs)). \<not> fresh l" "\<forall>l \<in> set [new_local x (-1) []]. fresh l"
    using dp by (auto simp: fresh_def new_local_def)
  show "plain names cs1"
  proof (rule plain_locals [OF l1 n fr])
    show "lookupConstBinding y (func cs1 # enclosing cs1) = None" for y
      using pl lookup_frame [of cs1 cs y] sf by (simp add: plain_def same_frame_def)
  qed (use pl sf in \<open>simp_all add: plain_def same_frame_def\<close>)
qed

lemma defined_local:
  assumes "ready names lp cs" "locals (func cs3) = locals (func cs) @ [l]" "l_name l = x" "\<not> isCaptured l" "scopeDepth (func cs3) = scopeDepth (func cs)"
  obtains l' where "define_variable p m b cs3 = cs3\<lparr>func := (func cs3)\<lparr>locals := locals (func cs) @ [l']\<rparr>\<rparr>" "l_name l' = x"
    "plain_slot (scopeDepth (func cs)) l'"
proof -
  have "0 < scopeDepth (func cs3)" using assms(1,5) by (simp add: ready_def)
  then show ?thesis
    using assms(2-5)
    by (intro that [of "l\<lparr>l_depth := scopeDepth (func cs3), debugStartOffset := code_size (fchunk (func cs3))\<rparr>"])
      (simp_all add: define_variable_def on_func_def defineVariable_def plain_slot_def)
qed

text \<open>The value of the initializer stays on the stack as the variable.\<close>

lemma fine_VarDecl:
  assumes f: "good names f d ev" and g: "\<And>cs cs'. init_pass cs = Inr cs' \<Longrightarrow> f cs = Inr cs'"
    and v: "\<And>cs. visit_VarDecl p x init cs = then_do (declareVariable p x) (\<lambda>cs. seq_then (module_slot x cs) (\<lambda>(var, cs1).
       seq_then (init_pass cs1) (\<lambda>cs2. Inr (define_variable p var False cs2)))) cs"
  shows "fine names [x] lp (visit_VarDecl p x init) d (\<lambda>n st. with_value (ev st) (\<lambda>v st1.
     Some (Inr (F_Normal, st1\<lparr>s_vars := s_vars st1 @ [(x, v)]\<rparr>))))"
proof (rule fineI)
  fix cs cs' assume r: "ready names lp cs" and e: "visit_VarDecl p x init cs = Inr cs'"
  obtain cs1 where c1: "declareVariable p x cs = Inr cs1"
    "seq_then (module_slot x cs1) (\<lambda>(var, cs1). seq_then (init_pass cs1) (\<lambda>cs2. Inr (define_variable p var False cs2))) = Inr cs'"
    using e unfolding v then_do_def seq_then_eq_Inr by blast
  note d1 = declared_local [OF r c1(1)]
  have sd: "scopeDepth (func cs1) = scopeDepth (func cs)" "scopeDepth (func cs) \<noteq> 0" using d1(4) r by (simp_all add: same_frame_def ready_def)
  obtain cs2 where c2: "init_pass cs1 = Inr cs2" "cs' = define_variable p 0 False cs2"
    using c1(2) sd by (auto simp: module_slot_def at_module_scope_def seq_then_eq_Inr)
  obtain bs where b: "emits cs1 bs cs2" "does names (code_len cs1) bs cs2 d (\<lambda>_. True) (\<lambda>_ :: unit. []) (\<lambda>v. [v]) (\<lambda>x. ev (snd x))"
    by (rule followsD [OF f [unfolded good_def] d1(1) g [OF c2(1)]])
  note ef = emits_fields [OF b(1)]
  have l2: "locals (func cs2) = locals (func cs) @ [new_local x (-1) []]" "scopeDepth (func cs2) = scopeDepth (func cs)"
    using ef d1(2) sd(1) by simp_all
  obtain l' where dv: "define_variable p 0 False cs2 = cs2\<lparr>func := (func cs2)\<lparr>locals := locals (func cs) @ [l']\<rparr>\<rparr>"
    and l2': "l_name l' = x" "plain_slot (scopeDepth (func cs)) l'"
    by (rule defined_local [OF r l2(1) _ _ l2(2), of x p 0 False]) (simp_all add: new_local_def)
  note l' = c2(2) [unfolded dv] l2'
  have gr: "grows cs (raws bs) [l'] cs'"
  proof -
    have "same_frame cs1 cs2" using b(1) by (auto simp: emits_def same_frame_def currentChunk_def)
    then have "same_frame cs cs2" by (rule same_frame_trans [OF d1(4)])
    then have "same_frame cs cs'" using l'(1) by (simp add: same_frame_def idents_ok_def)
    moreover have "code (currentChunk cs') = code (currentChunk cs) @ bs" "\<exists>ks. constants (currentChunk cs') = constants (currentChunk cs) @ ks"
      using b(1) d1(5) l'(1) by (auto simp: emits_def currentChunk_def)
    ultimately show ?thesis using l' d1(6,7) ef(8) by (simp add: grows_def)
  qed
  have "runs_as names [x] lp (code_len cs) (raws bs) cs' d (\<lambda>n st. with_value (ev st) (\<lambda>v st1.
     Some (Inr (F_Normal, st1\<lparr>s_vars := s_vars st1 @ [(x, v)]\<rparr>))))"
  proof (rule runs_asI)
    fix n L K bt and st :: store
    assume a: "code_at K (code_len cs) (filled bt (code_len cs) (raws bs))" "loaded K cs'" "map fst (s_vars st) = names" "space K names [] d"
    have ld: "loaded K cs2" using a(2) l'(1) by (simp add: loaded_def currentChunk_def)
    have c: "code_at K (code_len cs1) bs" using a(1) d1(3) by simp
    have "reaches L K (code_len cs1) (config_of st ([] @ [])) names (\<lambda>v. [] @ [v]) (code_len cs1 + length bs) (ev (snd ((), st)))"
      by (rule doesD [OF b(2) c ld a(3,4)]) simp
    then have vl: "reaches L K (code_len cs) (config_of st []) names (\<lambda>v. [v]) (code_len cs + length bs) (ev st)" by (simp add: d1(3))
    show "flows_to L K (code_len cs) (config_of st []) (code_len cs + isize (raws bs)) (names @ [x]) lp bt
        (with_value (ev st) (\<lambda>v st1. Some (Inr (F_Normal, st1\<lparr>s_vars := s_vars st1 @ [(x, v)]\<rparr>))))"
      by (rule flows_to_value [OF vl]) (simp add: flows_to_def goes_refl config_of_def)
  qed
  with gr show "\<exists>is new. grows cs is new cs' \<and> map l_name new = [x] \<and> runs_as names [x] lp (code_len cs) is cs' d
      (\<lambda>n st. with_value (ev st) (\<lambda>v st1. Some (Inr (F_Normal, st1\<lparr>s_vars := s_vars st1 @ [(x, v)]\<rparr>))))"
    using l'(2) by (intro exI [of _ "raws bs"] exI [of _ "[l']"]) simp
qed

section \<open>Leaving a loop\<close>

text \<open>The pops at a \<open>break\<close> or \<open>continue\<close> drop the variables declared in the loop.\<close>

lemma loop_pops:
  assumes r: "ready names (Some (lnames, start)) cs" and c: "loopStack cs = c # r"
  obtains k where "emits cs (replicate k (asByte 27)) (on_func (emitPopsForLoopExit p (bodyScopeDepth c)) cs)"
    "length names = length lnames + k" "take (length lnames) names = lnames" "whileLoopStart c = start" "start \<le> code_len cs"
proof -
  obtain keep gone where k: "whileLoopStart c = start" "start \<le> code_len cs" "locals (func cs) = keep @ gone" "map l_name keep = lnames"
    "\<forall>l \<in> set keep. l_depth l \<le> bodyScopeDepth c" "\<forall>l \<in> set gone. l_depth l > bodyScopeDepth c \<and> \<not> isCaptured l"
    using r c by (auto simp: ready_def in_loop_def)
  have n: "names = lnames @ map l_name gone" using r k(3,4) by (auto simp: ready_def)
  have "takeWhile (\<lambda>l. l_depth l > bodyScopeDepth c) (rev keep) = []"
    using k(5) by (cases "keep = []") (simp_all add: takeWhile_eq_Nil_iff hd_rev not_less)
  then have t: "takeWhile (\<lambda>l. l_depth l > bodyScopeDepth c) (rev (locals (func cs))) = rev gone"
    using k(6) by (simp add: k(3) takeWhile_append)
  have m: "map (asByte \<circ> pop_op) (rev gone) = replicate (length gone) (asByte 27)"
  proof -
    have "map (asByte \<circ> pop_op) (rev gone) = map (\<lambda>_. asByte 27) (rev gone)" using k(6) by (auto simp: pop_op_def)
    then show ?thesis by (simp add: map_replicate_const)
  qed
  have fc: "constants (fold (\<lambda>l. emitOp p (pop_op l)) ls ch) = constants ch" for ls ch by (induction ls arbitrary: ch) simp_all
  have "emits cs (map (asByte \<circ> pop_op) (rev gone)) (on_chunk (fold (\<lambda>l. emitOp p (pop_op l)) (rev gone)) cs)"
    by (rule emits_chunk [where ks = "[]"]) (simp_all add: fold_emitOp_code fc)
  moreover have "on_func (emitPopsForLoopExit p (bodyScopeDepth c)) cs = on_chunk (fold (\<lambda>l. emitOp p (pop_op l)) (rev gone)) cs"
    by (simp add: emitPopsForLoopExit_def on_func_def on_chunk_def t)
  ultimately show ?thesis using m n k(1,2) k(4) by (intro that [of "length gone"]) (auto simp: )
qed

text \<open>After the pops the stack has the loop's variables only.\<close>

lemma goes_loop_pops:
  assumes "code_at K pc (replicate k (asByte 27))" "map fst (s_vars st) = names" "length names = m + k"
  shows "goes L K pc (config_of st []) (pc + k) (config_of (cut m st) [])"
proof -
  have l: "length (map snd (s_vars st)) = m + k" using assms(2,3) by (metis length_map)
  have "goes L K pc (take m (map snd (s_vars st)) @ drop m (map snd (s_vars st)), s_mod st, s_heap st)
      (pc + length (drop m (map snd (s_vars st)))) (take m (map snd (s_vars st)), s_mod st, s_heap st)"
    by (rule goes_pops) (use assms(1) l in simp)
  then show ?thesis using l unfolding append_take_drop_id by (simp add: config_of_def cut_def take_map)
qed

lemma cut_names: "map fst (s_vars st) = names \<Longrightarrow> take m names = lnames \<Longrightarrow> map fst (s_vars (cut m st)) = lnames"
  by (simp add: cut_def take_map [symmetric])

lemma hole_jump:
  assumes "code_at K pc (asByte op # u16_bytes (bt - (pc + 3)))" "op = 35" "pc + 3 \<le> bt" "bt - (pc + 3) < 65536"
  shows "goes L K pc s bt s"
  using goes_Jump [of K pc "bt - (pc + 3)" L s] assms by simp

text \<open>A statement that leaves the loop: it pops, and its last jump leads to the target.\<close>

lemma leaves_loop:
  assumes "code_at K pc (replicate k (asByte 27))" "map fst (s_vars st) = names" "length names = length lnames + k"
    and "take (length lnames) names = lnames"
    and "goes L K (pc + k) (config_of (cut (length lnames) st) []) target (config_of (cut (length lnames) st) [])"
  shows "leaves L K pc (config_of st []) lnames target st"
  unfolding leaves_def using goes_trans [OF goes_loop_pops [OF assms(1-3)] assms(5)] cut_names [OF assms(2,4)] by simp

lemma fine_Break: "fine names [] lp (visit_BreakStatement p) d (\<lambda>n st. Some (Inr (F_Break, st)))"
proof (rule fineI)
  fix cs cs' assume r: "ready names lp cs" and e: "visit_BreakStatement p cs = Inr cs'"
  obtain c rest where c: "loopStack cs = c # rest" using e by (cases "loopStack cs") (simp_all add: visit_BreakStatement_def)
  obtain lnames start where lp: "lp = Some (lnames, start)" using r c by (cases lp) (auto simp: ready_def in_loop_def)
  let ?ps = "on_func (emitPopsForLoopExit p (bodyScopeDepth c)) cs"
  obtain k where k: "emits cs (replicate k (asByte 27)) ?ps" "length names = length lnames + k" "take (length lnames) names = lnames"
    by (rule loop_pops [OF r [unfolded lp] c, where p = p])
  obtain off cs1 where j: "emit_jump p 35 ?ps = (off, cs1)" by (cases "emit_jump p 35 ?ps") auto
  have j2: "emits ?ps [asByte 35, 0xff, 0xff] cs1" "off = code_len ?ps + 1" using emits_jump [OF j] by simp_all
  have c': "cs' = cs1\<lparr>loopStack := c\<lparr>breakOffsets := breakOffsets c @ [off]\<rparr> # rest\<rparr>" using e c j by (simp add: visit_BreakStatement_def)
  let ?is = "raws (replicate k (asByte 27) @ [asByte 35]) @ [Hole]"
  have off: "off = code_len cs + k + 1" using j2(2) emits_len [OF k(1)] by simp
  have g: "grows cs (raws (replicate k (asByte 27) @ [asByte 35, 0xff, 0xff])) [] cs1"
    using emits_grows [OF emits_trans [OF k(1) j2(1)] ready_length [OF r]] by simp
  have "grows cs ?is [] cs'"
  proof -
    have "same_frame cs cs'" using g c' by (simp add: grows_def same_frame_def)
    moreover have "code (currentChunk cs') = code (currentChunk cs) @ raw ?is" using g c' by (simp add: grows_def currentChunk_def)
    moreover have "\<exists>ks. constants (currentChunk cs') = constants (currentChunk cs) @ ks" using g c' by (simp add: grows_def currentChunk_def)
    moreover have "locals (func cs') = locals (func cs) @ []" "length (locals (func cs')) \<le> 255" using g c' ready_length [OF r] by (simp_all add: grows_def)
    ultimately show ?thesis using c c' off by (simp add: grows_def add_breaks_def)
  qed
  moreover have "runs_as names [] lp (code_len cs) ?is cs' d (\<lambda>n st. Some (Inr (F_Break, st)))"
  proof (rule runs_asI)
    fix n L K bt and st :: store
    assume a: "code_at K (code_len cs) (filled bt (code_len cs) ?is)" "fits bt (holes (code_len cs) ?is)" "map fst (s_vars st) = names"
    let ?pc = "code_len cs + k"
    have "code_at K (code_len cs) (replicate k (asByte 27) @ asByte 35 # u16_bytes (bt - (?pc + 3)))"
      using a(1) by (simp add: numeral_3_eq_3)
    then have c: "code_at K (code_len cs) (replicate k (asByte 27))" "code_at K ?pc (asByte 35 # u16_bytes (bt - (?pc + 3)))"
      unfolding code_at_append by simp_all
    have "?pc + 3 \<le> bt" "bt - (?pc + 3) < 65536" using a(2) by (simp_all add: fits_def numeral_3_eq_3)
    then have "leaves L K (code_len cs) (config_of st []) lnames bt st"
      by (intro leaves_loop [OF c(1) a(3) k(2,3)] hole_jump [OF c(2)]) simp_all
    then show "flows_to L K (code_len cs) (config_of st []) (code_len cs + isize ?is) (names @ []) lp bt (Some (Inr (F_Break, st)))"
      by (simp add: flows_to_def lp)
  qed
  ultimately show "\<exists>is new. grows cs is new cs' \<and> map l_name new = [] \<and> runs_as names [] lp (code_len cs) is cs' d (\<lambda>n st. Some (Inr (F_Break, st)))"
    by (intro exI [of _ ?is] exI [of _ "[]"]) simp
qed

lemma emits_loop:
  assumes "emit_loop p start cs = Inr cs'" "start \<le> code_len cs"
  shows "emits cs (asByte 36 # u16_bytes (code_len cs + 3 - start)) cs' \<and> code_len cs + 3 - start < 65536"
proof -
  obtain c where c: "emitLoop p start (currentChunk cs) = Inr c" "cs' = on_chunk (\<lambda>_. c) cs"
    using assms(1) by (auto simp: emit_loop_def try_chunk_def seq_then_eq_Inr)
  obtain n where n: "n = code_len cs + 3 - start" by simp
  have d: "length (code (emitOp p OpLoop (currentChunk cs))) + 2 - start = n" using n assms(2) by (simp add: code_len_def)
  have l: "n < 65536" and e: "c = emitByte p (low_byte (word_of_nat n)) (emitByte p (high_byte (word_of_nat n)) (emitOp p OpLoop (currentChunk cs)))"
    using c(1) unfolding emitLoop_def Let_def d by (auto split: if_splits)
  have "emits cs (asByte 36 # u16_bytes n) (on_chunk (\<lambda>_. c) cs)"
    by (rule emits_chunk [where ks = "[]"]) (use u16_split_nat [OF l] in \<open>simp_all add: e\<close>)
  then show ?thesis using l n c(2) by simp
qed

lemma goes_back:
  assumes "code_at K pc (asByte 36 # u16_bytes (pc + 3 - start))" "pc + 3 - start < 65536" "start \<le> pc"
  shows "goes L K pc s start s"
  using goes_Loop [OF assms(1,2), of L s] assms(3) by simp

lemma fine_Continue: "fine names [] lp (visit_ContinueStatement p) d (\<lambda>n st. Some (Inr (F_Continue, st)))"
proof (rule fineI)
  fix cs cs' assume r: "ready names lp cs" and e: "visit_ContinueStatement p cs = Inr cs'"
  obtain c rest where c: "loopStack cs = c # rest" using e by (cases "loopStack cs") (simp_all add: visit_ContinueStatement_def)
  obtain lnames start where lp: "lp = Some (lnames, start)" using r c by (cases lp) (auto simp: ready_def in_loop_def)
  let ?ps = "on_func (emitPopsForLoopExit p (bodyScopeDepth c)) cs"
  obtain k where k: "emits cs (replicate k (asByte 27)) ?ps" "length names = length lnames + k" "take (length lnames) names = lnames"
    "whileLoopStart c = start" "start \<le> code_len cs" by (rule loop_pops [OF r [unfolded lp] c, where p = p])
  let ?pc = "code_len cs + k"
  have pc: "code_len ?ps = ?pc" using emits_len [OF k(1)] by simp
  have "emit_loop p start ?ps = Inr cs'" using e c k(4) by (simp add: visit_ContinueStatement_def)
  then have j: "emits ?ps (asByte 36 # u16_bytes (?pc + 3 - start)) cs'" "?pc + 3 - start < 65536"
    using emits_loop [of p start ?ps cs'] k(5) unfolding pc by simp_all
  let ?bs = "replicate k (asByte 27) @ asByte 36 # u16_bytes (?pc + 3 - start)"
  have g: "grows cs (raws ?bs) [] cs'" by (rule emits_grows [OF emits_trans [OF k(1) j(1)] ready_length [OF r]])
  moreover have "runs_as names [] lp (code_len cs) (raws ?bs) cs' d (\<lambda>n st. Some (Inr (F_Continue, st)))"
  proof (rule runs_asI)
    fix n L K bt and st :: store
    assume a: "code_at K (code_len cs) (filled bt (code_len cs) (raws ?bs))" "map fst (s_vars st) = names"
    have c: "code_at K (code_len cs) (replicate k (asByte 27))" "code_at K ?pc (asByte 36 # u16_bytes (?pc + 3 - start))"
      using a(1) unfolding raws_simps code_at_append by simp_all
    have "leaves L K (code_len cs) (config_of st []) lnames start st"
      by (intro leaves_loop [OF c(1) a(2) k(2,3)] goes_back [OF c(2) j(2)]) (use k(5) in simp)
    then show "flows_to L K (code_len cs) (config_of st []) (code_len cs + isize (raws ?bs)) (names @ []) lp bt (Some (Inr (F_Continue, st)))"
      by (simp add: flows_to_def lp)
  qed
  ultimately show "\<exists>is new. grows cs is new cs' \<and> map l_name new = [] \<and> runs_as names [] lp (code_len cs) is cs' d (\<lambda>n st. Some (Inr (F_Continue, st)))"
    by (intro exI [of _ "raws ?bs"] exI [of _ "[]"]) simp
qed

section \<open>Sequences and blocks\<close>

definition and_then :: "(nat \<Rightarrow> store \<Rightarrow> outcome_of) \<Rightarrow> (nat \<Rightarrow> store \<Rightarrow> outcome_of) \<Rightarrow> nat \<Rightarrow> store \<Rightarrow> outcome_of" where
  "and_then ev1 ev2 n st = (case ev1 n st of Some (Inr (F_Normal, st1)) \<Rightarrow> ev2 n st1 | r \<Rightarrow> r)"

lemma flows_to_and_then:
  assumes "flows_to L K p1 s p2 names1 lp bt (ev1 n st)"
    and "\<And>st1. ev1 n st = Some (Inr (F_Normal, st1)) \<Longrightarrow> map fst (s_vars st1) = names1 \<Longrightarrow> flows_to L K p2 (config_of st1 []) p3 names2 lp bt (ev2 n st1)"
  shows "flows_to L K p1 s p3 names2 lp bt (and_then ev1 ev2 n st)"
proof (cases "\<exists>st1. ev1 n st = Some (Inr (F_Normal, st1))")
  case True
  then obtain st1 where e: "ev1 n st = Some (Inr (F_Normal, st1))" by blast
  then have "map fst (s_vars st1) = names1" "goes L K p1 s p2 (config_of st1 [])" using assms(1) by (simp_all add: flows_to_def)
  then show ?thesis using assms(2) [OF e] e by (auto simp: and_then_def intro: flows_to_goes)
next
  case False
  then have "and_then ev1 ev2 n st = ev1 n st"
    by (auto simp: and_then_def split: option.split sum.split prod.split flow.split)
  moreover have "flows_to L K p1 s p3 names2 lp bt (ev1 n st)"
    using assms(1) False by (auto simp: flows_to_def split: option.splits sum.splits fault.splits prod.splits flow.splits)
  ultimately show ?thesis by simp
qed

lemma fine_then:
  assumes f: "fine names vs1 lp f d1 ev1" and g: "fine (names @ vs1) vs2 lp g d2 ev2" and d: "d1 \<le> d" "length vs1 + d2 \<le> d"
  shows "fine names (vs1 @ vs2) lp (then_do f g) d (and_then ev1 ev2)"
proof (rule fineI)
  fix cs cs2 assume r: "ready names lp cs" and fg: "then_do f g cs = Inr cs2"
  obtain cs1 where c: "f cs = Inr cs1" "g cs1 = Inr cs2" using fg by (auto simp: then_do_def seq_then_eq_Inr)
  obtain xs new1 where x: "grows cs xs new1 cs1" "map l_name new1 = vs1" "ready (names @ vs1) lp cs1" "code_len cs1 = code_len cs + isize xs"
    "runs_as names vs1 lp (code_len cs) xs cs1 d1 ev1" by (rule fineD [OF f r c(1)])
  obtain ys new2 where y: "grows cs1 ys new2 cs2" "map l_name new2 = vs2" "runs_as (names @ vs1) vs2 lp (code_len cs1) ys cs2 d2 ev2"
    by (rule fineD [OF g x(3) c(2)])
  have "runs_as names (vs1 @ vs2) lp (code_len cs) (xs @ ys) cs2 d (and_then ev1 ev2)"
  proof (rule runs_asI)
    fix n L K bt and st :: store
    assume a: "code_at K (code_len cs) (filled bt (code_len cs) (xs @ ys))" "fits bt (holes (code_len cs) (xs @ ys))" "loaded K cs2"
      "map fst (s_vars st) = names" "space K names [] d"
    have c1: "code_at K (code_len cs) (filled bt (code_len cs) xs)" "code_at K (code_len cs1) (filled bt (code_len cs1) ys)"
      using a(1) x(4) by (simp_all add: code_at_append)
    have h: "fits bt (holes (code_len cs) xs)" "fits bt (holes (code_len cs1) ys)" using a(2) x(4) by simp_all
    have sp: "space K names [] d1" "space K (names @ vs1) [] d2" using a(5) d by (simp_all add: space_def)
    show "flows_to L K (code_len cs) (config_of st []) (code_len cs + isize (xs @ ys)) (names @ vs1 @ vs2) lp bt (and_then ev1 ev2 n st)"
    proof (rule flows_to_and_then)
      show "flows_to L K (code_len cs) (config_of st []) (code_len cs + isize xs) (names @ vs1) lp bt (ev1 n st)"
        by (rule runs_asD [OF x(5) c1(1) h(1) grows_loaded [OF y(1) a(3)] a(4) sp(1)])
      show "flows_to L K (code_len cs + isize xs) (config_of st1 []) (code_len cs + isize (xs @ ys)) (names @ vs1 @ vs2) lp bt (ev2 n st1)"
        if "map fst (s_vars st1) = names @ vs1" for st1
        using runs_asD [OF y(3) c1(2) h(2) a(3) that sp(2), of L n] x(4) by (simp add: add.assoc)
    qed
  qed
  then show "\<exists>is new. grows cs is new cs2 \<and> map l_name new = vs1 @ vs2 \<and> runs_as names (vs1 @ vs2) lp (code_len cs) is cs2 d (and_then ev1 ev2)"
    using grows_trans [OF x(1) y(1)] x(2) y(2) by (intro exI [of _ "xs @ ys"] exI [of _ "new1 @ new2"]) simp
qed

text \<open>Stack slots for statements in a row, where each may leave variables.\<close>

primrec block_need :: "(nat \<times> nat) list \<Rightarrow> nat" where
  "block_need [] = 0"
| "block_need (x # xs) = max (fst x) (snd x + block_need xs)"

lemma fine_run_all:
  assumes "\<forall>s \<in> set ss. \<forall>names. fine names (decl s) lp (f s) (d s) (ev s)"
  shows "fine names (concat (map decl ss)) lp (run_all (map f ss)) (block_need (map (\<lambda>s. (d s, length (decl s))) ss))
    (\<lambda>n. exec_all (map (\<lambda>s. ev s n) ss))"
  using assms
proof (induction ss arbitrary: names)
  case Nil
  show ?case
  proof (rule fineI)
    fix cs cs' assume r: "ready names lp cs" and e: "run_all (map f []) cs = Inr cs'"
    have "runs_as names (concat (map decl [])) lp (code_len cs) [] cs' (block_need (map (\<lambda>s. (d s, length (decl s))) []))
       (\<lambda>n. exec_all (map (\<lambda>s. ev s n) []))"
      by (rule runs_asI) (simp add: flows_to_def goes_refl)
    then show "\<exists>is new. grows cs is new cs' \<and> map l_name new = concat (map decl []) \<and>
       runs_as names (concat (map decl [])) lp (code_len cs) is cs' (block_need (map (\<lambda>s. (d s, length (decl s))) []))
       (\<lambda>n. exec_all (map (\<lambda>s. ev s n) []))"
      using grows_refl [OF ready_length [OF r]] e by (intro exI [of _ "[]"] exI [of _ "[]"]) simp
  qed
next
  case (Cons s ss)
  have "fine names (decl s @ concat (map decl ss)) lp (then_do (f s) (run_all (map f ss))) (block_need (map (\<lambda>s. (d s, length (decl s))) (s # ss)))
    (and_then (ev s) (\<lambda>n. exec_all (map (\<lambda>s. ev s n) ss)))"
    by (rule fine_then [where ?d1.0 = "d s" and ?d2.0 = "block_need (map (\<lambda>s. (d s, length (decl s))) ss)"])
      (use Cons in simp_all)
  moreover have "and_then (ev s) (\<lambda>n. exec_all (map (\<lambda>s. ev s n) ss)) = (\<lambda>n. exec_all (map (\<lambda>s. ev s n) (s # ss)))"
    by (auto simp: and_then_def fun_eq_iff split: option.split sum.split prod.split flow.split)
  moreover have "then_do (f s) (run_all (map f ss)) = run_all (map f (s # ss))" by (simp add: then_do_def fun_eq_iff)
  ultimately show ?case by (simp only: list.map concat.simps)
qed

lemma const_scan_append: "k \<le> length ms \<Longrightarrow> const_scan (ms @ ns) k x = const_scan ms k x"
  by (induction k) (simp_all add: nth_append split: option.split)

definition opened :: "compiler \<Rightarrow> compiler \<Rightarrow> bool" where
  "opened cs cs1 \<longleftrightarrow> (\<exists>q b i. cs1 = cs\<lparr>func := (func cs)\<lparr>scopeDepth := scopeDepth (func cs) + 1,
     constBindings := constBindings (func cs) @ [Map.empty], blockPath := b, nextBlockId := i, pendingLocals := q\<rparr>\<rparr>)"

lemma opened_enter: "opened cs (enter_local_scope cs)" "opened cs (on_func (scanBlockDeclarations ss) (enter_local_scope cs))"
  by (auto simp: opened_def enter_local_scope_def on_func_def enterLocalScope_def scanBlockDeclarations_def)

lemma opened_lookup:
  assumes "opened cs cs1"
  shows "lookupConstBinding x (func cs1 # enclosing cs1) = lookupConstBinding x (func cs # enclosing cs)"
proof -
  have "enclosing cs1 = enclosing cs" "constBindings (func cs1) = constBindings (func cs) @ [Map.empty]"
    using assms by (auto simp: opened_def)
  then show ?thesis by (simp add: const_scan_append)
qed

lemma opened_ready:
  assumes "ready names lp cs" "opened cs cs1"
  shows "ready names lp cs1" "code_len cs1 = code_len cs" "currentChunk cs1 = currentChunk cs"
proof -
  obtain q b i where c: "cs1 = cs\<lparr>func := (func cs)\<lparr>scopeDepth := scopeDepth (func cs) + 1,
     constBindings := constBindings (func cs) @ [Map.empty], blockPath := b, nextBlockId := i, pendingLocals := q\<rparr>\<rparr>"
    using assms(2) by (auto simp: opened_def)
  have f: "locals (func cs1) = locals (func cs)" "scopeDepth (func cs1) = scopeDepth (func cs) + 1" "enclosing cs1 = enclosing cs"
    "inModuleFunction cs1 = inModuleFunction cs" "idents_ok (func cs1) = idents_ok (func cs)" "initializer (func cs1) = initializer (func cs)"
    "loopStack cs1 = loopStack cs" by (simp_all add: c idents_ok_def)
  show l: "code_len cs1 = code_len cs" "currentChunk cs1 = currentChunk cs" by (simp_all add: c code_len_def currentChunk_def)
  have "plain names cs1" using assms(1) opened_lookup [OF assms(2)] f by (simp add: ready_def plain_def)
  moreover have "in_loop lp cs1"
  proof (cases lp)
    case None
    then show ?thesis using assms(1) f by (simp add: ready_def in_loop_def)
  next
    case (Some a)
    then show ?thesis using assms(1) f l by (fastforce simp: ready_def in_loop_def)
  qed
  ultimately show "ready names lp cs1" using assms(1) f by (auto simp: ready_def)
qed

text \<open>
  A state in which a scope can be entered: between statements, and, at the depth of a loop itself,
  before the body of the loop.
\<close>

definition enterable :: "ustring list \<Rightarrow> loop_place \<Rightarrow> compiler \<Rightarrow> bool" where
  "enterable names lp cs \<longleftrightarrow> (\<forall>cs1. opened cs cs1 \<longrightarrow> ready names lp cs1) \<and> (\<forall>l \<in> set (locals (func cs)). l_depth l \<le> scopeDepth (func cs))"

lemma ready_enterable: "ready names lp cs \<Longrightarrow> enterable names lp cs"
  unfolding enterable_def by (rule conjI, intro allI impI, erule (1) opened_ready(1), simp add: ready_def)

lemma opened_same: "opened cs cs1 \<Longrightarrow> code_len cs1 = code_len cs \<and> locals (func cs1) = locals (func cs)"
  by (auto simp: opened_def code_len_def currentChunk_def)

text \<open>Leaving the scope pops what was declared in it.\<close>

lemma closed:
  assumes "enterable names lp cs" "opened cs cs0" "grows cs0 is new cs1"
  shows "grows cs (is @ raws (replicate (length new) (asByte 27))) [] (exit_local_scope dbg p cs1)"
    and "constants (currentChunk (exit_local_scope dbg p cs1)) = constants (currentChunk cs1)"
proof -
  obtain q b i where c0: "cs0 = cs\<lparr>func := (func cs)\<lparr>scopeDepth := scopeDepth (func cs) + 1,
     constBindings := constBindings (func cs) @ [Map.empty], blockPath := b, nextBlockId := i, pendingLocals := q\<rparr>\<rparr>"
    using assms(2) by (auto simp: opened_def)
  have g: "same_frame cs0 cs1" "locals (func cs1) = locals (func cs0) @ new" "\<forall>l \<in> set new. plain_slot (scopeDepth (func cs0)) l"
    "code (currentChunk cs1) = code (currentChunk cs0) @ raw is" "\<exists>ks. constants (currentChunk cs1) = constants (currentChunk cs0) @ ks"
    "loopStack cs1 = add_breaks (holes (code_len cs0) is) (loopStack cs0)" "loopStack cs0 = [] \<longrightarrow> holes (code_len cs0) is = []"
    using assms(3) unfolding grows_def by blast+
  let ?fs = "(func cs1)\<lparr>scopeDepth := scopeDepth (func cs1) - 1\<rparr>"
  have sd: "scopeDepth (func cs0) = scopeDepth (func cs) + 1" "scopeDepth (func cs1) = scopeDepth (func cs) + 1"
    using g(1) by (simp_all add: c0 same_frame_def)
  have l: "locals ?fs = locals (func cs) @ new" using g(2) by (simp add: c0)
  have gone: "list_all (\<lambda>l. l_depth l > scopeDepth ?fs) new" using g(3) sd by (auto simp: list_all_iff plain_slot_def)
  have keep: "locals (func cs) = [] \<or> l_depth (last (locals (func cs))) \<le> scopeDepth ?fs"
    using assms(1) sd by (cases "locals (func cs) = []") (simp_all add: enterable_def)
  have len: "length (locals (func cs)) \<le> 255"
  proof -
    have "ready names lp cs0" using assms(1,2) unfolding enterable_def by blast
    then show ?thesis using ready_length [of names lp cs0] opened_same [OF assms(2)] by simp
  qed
  obtain c where c: "pop_locals dbg p ?fs = ?fs\<lparr>locals := locals (func cs), fchunk := c\<rparr>"
    "code c = code (fchunk ?fs) @ map (asByte \<circ> pop_op) (rev new)" "constants c = constants (fchunk ?fs)"
    using pop_locals_good [OF l gone keep, of dbg p] by blast
  have m: "map (asByte \<circ> pop_op) (rev new) = replicate (length new) (asByte 27)"
  proof -
    have "map (asByte \<circ> pop_op) (rev new) = map (\<lambda>_. asByte 27) (rev new)" using g(3) by (auto simp: pop_op_def plain_slot_def)
    then show ?thesis by (simp add: map_replicate_const)
  qed
  have x: "exit_local_scope dbg p cs1 = cs1\<lparr>func := (?fs\<lparr>locals := locals (func cs), fchunk := c\<rparr>)
      \<lparr>constBindings := butlast (constBindings (func cs1)), pendingLocals := butlast (pendingLocals (func cs1)),
       blockPath := butlast (blockPath (func cs1))\<rparr>\<rparr>"
    unfolding exit_local_scope_def on_func_def exitLocalScope_def Let_def c(1) by simp
  have "constBindings (func cs1) = constBindings (func cs) @ [Map.empty]" using g(1) by (simp add: same_frame_def c0)
  then have "same_frame cs (exit_local_scope dbg p cs1)"
    using g(1) sd by (simp add: x same_frame_def c0 idents_ok_def)
  moreover have cl: "code_len cs0 = code_len cs" by (simp add: c0 code_len_def currentChunk_def)
  ultimately show "grows cs (is @ raws (replicate (length new) (asByte 27))) [] (exit_local_scope dbg p cs1)"
    using g(4-7) c(2,3) m len by (simp add: grows_def x c0 currentChunk_def)
  show "constants (currentChunk (exit_local_scope dbg p cs1)) = constants (currentChunk cs1)"
    using c(3) by (simp add: x currentChunk_def)
qed

lemma ready_loop: "ready names (Some (lnames, start)) cs \<Longrightarrow> take (length lnames) names = lnames"
  by (auto simp: ready_def in_loop_def)

lemma cut_cut: "m \<le> k \<Longrightarrow> cut m (cut k st) = cut m st" by (simp add: cut_def min_def)

lemma flows_to_leave:
  assumes f: "flows_to L K p1 s p2 (names @ vs) lp bt r" and c: "code_at K p2 (replicate (length vs) (asByte 27))"
    and l: "\<And>lnames start. lp = Some (lnames, start) \<Longrightarrow> length lnames \<le> length names"
  shows "flows_to L K p1 s (p2 + length vs) names lp bt (leave_block (length names) r)"
proof -
  have n: "flows_to L K p1 s (p2 + length vs) names lp bt (Some (Inr (F_Normal, cut (length names) st)))"
    if "r = Some (Inr (F_Normal, st))" for st
  proof -
    have st: "map fst (s_vars st) = names @ vs" "goes L K p1 s p2 (config_of st [])" using f that by (simp_all add: flows_to_def)
    have "goes L K p2 (config_of st []) (p2 + length vs) (config_of (cut (length names) st) [])"
      by (rule goes_loop_pops [OF c st(1)]) simp
    then show ?thesis using goes_trans [OF st(2)] cut_names [OF st(1), of "length names" names] by (simp add: flows_to_def)
  qed
  have b: "leaves L K p1 s lnames t (cut (length names) st)" if "leaves L K p1 s lnames t st" "lp = Some (lnames, start)" for lnames t st start
    using that l [OF that(2)] by (simp add: leaves_def cut_cut)
  have lv: "leave_block (length names) (Some (Inr (fl, st))) = Some (Inr (fl, cut (length names) st))" for fl st
    by (simp add: leave_block_def cut_def)
  have sm: "s_mod (cut m st) = s_mod st" "s_heap (cut m st) = s_heap st" for m st by (simp_all add: cut_def)
  consider "r = None" | (i) x where "r = Some (Inl x)" | (o) fl st where "r = Some (Inr (fl, st))"
    by (metis option.exhaust sum.exhaust surj_pair)
  then show ?thesis
  proof cases
    case 1
    then show ?thesis by (simp add: leave_block_def flows_to_def)
  next
    case i
    then show ?thesis using f by (cases x) (simp_all add: leave_block_def flows_to_def)
  next
    case o
    show ?thesis
    proof (cases fl)
      case F_Normal
      then show ?thesis using n [of st] o by (simp add: lv)
    next
      case (F_Return v)
      then show ?thesis using f o by (simp add: lv flows_to_def at_return_def sm)
    qed (use f b o lv in \<open>auto simp: flows_to_def\<close>)
  qed
qed

definition blocky :: "ustring list \<Rightarrow> loop_place \<Rightarrow> pass \<Rightarrow> nat \<Rightarrow> (nat \<Rightarrow> store \<Rightarrow> outcome_of) \<Rightarrow> bool" where
  "blocky names lp f d ev \<longleftrightarrow> (\<forall>cs cs'. enterable names lp cs \<longrightarrow> f cs = Inr cs' \<longrightarrow>
     (\<exists>is. grows cs is [] cs' \<and> runs_as names [] lp (code_len cs) is cs' d ev))"

lemma blocky_fine: "blocky names lp f d ev \<Longrightarrow> fine names [] lp f d ev"
  unfolding blocky_def by (rule fineI) (use ready_enterable in \<open>metis list.simps(8)\<close>)

lemma blocky_scope:
  assumes f: "fine names vs lp f d ev" and h: "\<And>cs. opened cs (h cs)"
  shows "blocky names lp (\<lambda>cs. seq_then (f (h cs)) (\<lambda>cs1. Inr (exit_local_scope dbg p cs1))) d
    (\<lambda>n st. leave_block (length (s_vars st)) (ev n st))"
  unfolding blocky_def
proof (intro allI impI)
  fix cs cs2 assume r: "enterable names lp cs" and e: "seq_then (f (h cs)) (\<lambda>cs1. Inr (exit_local_scope dbg p cs1)) = Inr cs2"
  obtain cs1 where c: "f (h cs) = Inr cs1" "cs2 = exit_local_scope dbg p cs1" using e by (auto simp: seq_then_eq_Inr)
  have o: "ready names lp (h cs)" "code_len (h cs) = code_len cs" using r h opened_same [OF h [of cs]] unfolding enterable_def by blast+
  obtain "is" new where i: "grows (h cs) is new cs1" "map l_name new = vs" "runs_as names vs lp (code_len (h cs)) is cs1 d ev"
    by (rule fineD [OF f o(1) c(1)])
  note cl = closed [OF r h i(1), of dbg p, folded c(2)]
  have len: "length new = length vs" using i(2) by (metis length_map)
  have "runs_as names [] lp (code_len cs) (is @ raws (replicate (length new) (asByte 27))) cs2 d (\<lambda>n st. leave_block (length (s_vars st)) (ev n st))"
  proof (rule runs_asI)
    fix n L K bt and st :: store
    assume a: "code_at K (code_len cs) (filled bt (code_len cs) (is @ raws (replicate (length new) (asByte 27))))"
      "fits bt (holes (code_len cs) (is @ raws (replicate (length new) (asByte 27))))" "loaded K cs2" "map fst (s_vars st) = names" "space K names [] d"
    have k: "code_at K (code_len (h cs)) (filled bt (code_len (h cs)) is)" "code_at K (code_len cs + isize is) (replicate (length vs) (asByte 27))"
      using a(1) o(2) len by (simp_all add: code_at_append)
    have ld: "loaded K cs1" using a(3) loaded_same [OF cl(2), of K] by simp
    have "flows_to L K (code_len (h cs)) (config_of st []) (code_len (h cs) + isize is) (names @ vs) lp bt (ev n st)"
      by (rule runs_asD [OF i(3) k(1) _ ld a(4,5)]) (use a(2) o(2) in simp)
    then have "flows_to L K (code_len cs) (config_of st []) (code_len cs + isize is) (names @ vs) lp bt (ev n st)" by (simp add: o(2))
    then have "flows_to L K (code_len cs) (config_of st []) (code_len cs + isize is + length vs) names lp bt (leave_block (length names) (ev n st))"
    proof (rule flows_to_leave [OF _ k(2)])
      fix lnames start assume "lp = Some (lnames, start)"
      then have "take (length lnames) names = lnames" using ready_loop o(1) by blast
      then show "length lnames \<le> length names" by (metis length_take min.cobounded1)
    qed
    moreover have "length (s_vars st) = length names" using a(4) by (metis length_map)
    ultimately show "flows_to L K (code_len cs) (config_of st []) (code_len cs + isize (is @ raws (replicate (length new) (asByte 27)))) (names @ []) lp bt
        (leave_block (length (s_vars st)) (ev n st))" using len by (simp add: add.assoc)
  qed
  with cl(1) show "\<exists>is. grows cs is [] cs2 \<and> runs_as names [] lp (code_len cs) is cs2 d (\<lambda>n st. leave_block (length (s_vars st)) (ev n st))" by blast
qed

lemma blocky_Suite:
  assumes "\<forall>s \<in> set ss. \<forall>names. fine names (decl s) lp (f s) (d s) (ev s)"
  shows "blocky names lp (visit_Suite dbg p ss (map f ss)) (block_need (map (\<lambda>s. (d s, length (decl s))) ss))
    (\<lambda>n. exec_block (map (\<lambda>s. ev s n) ss))"
proof -
  let ?f = "\<lambda>s cs. f s (mark_stmt_start dbg (stmt_pos s) cs)"
  have "\<forall>s \<in> set ss. \<forall>names. fine names (decl s) lp (?f s) (d s) (ev s)" using assms fine_marked by blast
  note a = fine_run_all [OF this, of names]
  have m: "map2 (\<lambda>s f cs1. f (mark_stmt_start dbg (stmt_pos s) cs1)) ss (map f ss) = map ?f ss" by (induction ss) simp_all
  have "visit_Suite dbg p ss (map f ss) = (\<lambda>cs. seq_then (run_all (map ?f ss) (on_func (scanBlockDeclarations ss) (enter_local_scope cs)))
      (\<lambda>cs1. Inr (exit_local_scope dbg p cs1)))" by (simp only: visit_Suite_def [abs_def] m)
  moreover have "(\<lambda>n. exec_block (map (\<lambda>s. ev s n) ss)) = (\<lambda>n st. leave_block (length (s_vars st)) (exec_all (map (\<lambda>s. ev s n) ss) st))"
    by (simp add: exec_block_def fun_eq_iff)
  ultimately show ?thesis using blocky_scope [OF a opened_enter(2)] by simp
qed

lemma leave_leave: "leave_block n (leave_block n r) = leave_block n r"
  by (simp add: leave_block_def split: option.split sum.split prod.split)

lemma fine_in_own_scope:
  assumes "fine names [] lp f d (\<lambda>n. exec_block (fs n))"
  shows "fine names [] lp (in_own_scope dbg p f) d (\<lambda>n. exec_block (fs n))"
proof -
  have "(\<lambda>n st. leave_block (length (s_vars st)) (exec_block (fs n) st)) = (\<lambda>n. exec_block (fs n))"
    by (simp add: exec_block_def fun_eq_iff leave_leave)
  moreover have "in_own_scope dbg p f = (\<lambda>cs. seq_then (f (enter_local_scope cs)) (\<lambda>cs1. Inr (exit_local_scope dbg p cs1)))"
    by (simp add: in_own_scope_def fun_eq_iff)
  ultimately show ?thesis using blocky_fine [OF blocky_scope [OF assms opened_enter(1), of dbg p]] by simp
qed

section \<open>Conditionals\<close>

lemma flows_to_jump:
  assumes "flows_to L K p1 s p2 names lp bt r" "\<And>s. goes L K p2 s p3 s"
  shows "flows_to L K p1 s p3 names lp bt r"
proof -
  have "flows_to L K p1 s p3 names lp bt (and_then (\<lambda>n st. r) (\<lambda>n st1. Some (Inr (F_Normal, st1))) 0 undefined)"
    by (rule flows_to_and_then [OF assms(1)]) (simp add: flows_to_def assms(2))
  moreover have "and_then (\<lambda>n st. r) (\<lambda>n st1. Some (Inr (F_Normal, st1))) 0 undefined = r"
    by (auto simp: and_then_def split: option.split sum.split prod.split flow.split)
  ultimately show ?thesis by simp
qed

lemma emit_jump_grows:
  assumes "ready names lp cs" "emit_jump p op cs = (at, cs1)"
  shows "grows cs (raws [asByte op, 0xff, 0xff]) [] cs1" "ready names lp cs1" "at = code_len cs + 1"
  using emits_jump [OF assms(2)] emits_grows [of cs "[asByte op, 0xff, 0xff]" cs1] ready_length [OF assms(1)]
    ready_grows [OF assms(1), of "raws [asByte op, 0xff, 0xff]" "[]" cs1] by simp_all

lemma emit_op_grows:
  assumes "ready names lp cs"
  shows "grows cs (raws [asByte op]) [] (emit_op p op cs)" "ready names lp (emit_op p op cs)"
  using emits_grows [OF emits_op [of cs op p] ready_length [OF assms]]
    ready_grows [OF assms, of "raws [asByte op]" "[]" "emit_op p op cs"] by simp_all

text \<open>The two branches and their jumps, in place.\<close>

definition if_items :: "item list \<Rightarrow> item list \<Rightarrow> item list" where
  "if_items ts es = raws ([asByte 33] @ u16_bytes (isize ts + 4)) @ raws [asByte 27] @ ts
     @ raws ([asByte 35] @ u16_bytes (isize es + 1)) @ raws [asByte 27] @ es"

lemma if_runs:
  assumes t: "runs_as names [] lp (pc + 4) ts cst d1 ev1" and e: "runs_as names [] lp (pc + isize ts + 8) es cse d2 ev2"
    and ld: "loaded K cst" "loaded K cse" and small: "isize ts + 4 < 65536" "isize es + 1 < 65536"
    and c: "code_at K pc (filled bt pc (if_items ts es))" and h: "fits bt (holes pc (if_items ts es))"
    and st: "map fst (s_vars st) = names" and sp: "space K names [] d1" "space K names [] d2"
  shows "flows_to L K pc (config_of st [v]) (pc + isize (if_items ts es)) names lp bt (if \<not> falsey v then ev1 n st else ev2 n st)"
proof -
  let ?pe = "pc + isize ts + 7"
  have "code_at K pc ((asByte 33 # u16_bytes (isize ts + 4)) @ [asByte 27] @ filled bt (pc + 4) ts
      @ (asByte 35 # u16_bytes (isize es + 1)) @ [asByte 27] @ filled bt (?pe + 1) es)"
    using c by (simp add: if_items_def algebra_simps eval_nat_numeral)
  then have k: "code_at K pc (asByte 33 # u16_bytes (isize ts + 4))" "code_at K (pc + 3) [asByte 27]"
    "code_at K (pc + 4) (filled bt (pc + 4) ts)" "code_at K (pc + 4 + isize ts) (asByte 35 # u16_bytes (isize es + 1))"
    "code_at K ?pe [asByte 27]" "code_at K (?pe + 1) (filled bt (?pe + 1) es)"
    unfolding code_at_append by (simp_all add: algebra_simps eval_nat_numeral)
  have "pc + isize ts + 8 = ?pe + 1" by simp
  note e' = e [unfolded this]
  have hs: "fits bt (holes (pc + 4) ts)" "fits bt (holes (?pe + 1) es)"
    using h by (simp_all add: if_items_def algebra_simps eval_nat_numeral)
  have j: "goes L K pc (config_of st [v]) (if falsey v then ?pe else pc + 3) (config_of st [v])"
    using goes_JumpIfFalse [OF k(1) small(1), of L "map snd (s_vars st)" v "s_mod st" "s_heap st"]
    by (cases "falsey v") (simp_all add: config_of_def algebra_simps eval_nat_numeral)
  have pop: "goes L K q (config_of st [v]) (q + 1) (config_of st [])" if "code_at K q [asByte 27]" for q
    using goes_Pop [OF that] by (simp add: config_of_def)
  show ?thesis
  proof (cases "falsey v")
    case True
    have "flows_to L K (?pe + 1) (config_of st []) (?pe + 1 + isize es) (names @ []) lp bt (ev2 n st)"
      by (rule runs_asD [OF e' k(6) hs(2) ld(2) st sp(2)])
    then have "flows_to L K pc (config_of st [v]) (?pe + 1 + isize es) names lp bt (ev2 n st)"
      using flows_to_goes [OF goes_trans [OF j [simplified True if_True] pop [OF k(5)]]] by simp
    then show ?thesis using True by (simp add: if_items_def algebra_simps eval_nat_numeral)
  next
    case False
    have "flows_to L K (pc + 4) (config_of st []) (pc + 4 + isize ts) (names @ []) lp bt (ev1 n st)"
      by (rule runs_asD [OF t k(3) hs(1) ld(1) st sp(1)])
    then have a: "flows_to L K pc (config_of st [v]) (pc + 4 + isize ts) names lp bt (ev1 n st)"
      using flows_to_goes [OF goes_trans [OF j [simplified False if_False] pop [OF k(2)]]] by (simp add: eval_nat_numeral)
    have "flows_to L K pc (config_of st [v]) (pc + 4 + isize ts + 3 + (isize es + 1)) names lp bt (ev1 n st)"
      by (rule flows_to_jump [OF a goes_Jump [OF k(4) small(2)]])
    then show ?thesis using False by (simp add: if_items_def algebra_simps eval_nat_numeral)
  qed
qed

text \<open>The visitor, for a branch and another that may be missing.\<close>

definition if_pass :: "pos \<Rightarrow> pass \<Rightarrow> pass \<Rightarrow> pass" where
  "if_pass p thn els cs = (case emit_jump p 33 cs of (jumpOverIf, cs1) \<Rightarrow>
     seq_then (thn (emit_op p 27 cs1)) (\<lambda>cs2. case emit_jump p 35 cs2 of (jumpOverElse, cs3) \<Rightarrow>
       seq_then (patch_jump jumpOverIf cs3) (\<lambda>cs4. seq_then (els (emit_op p 27 cs4)) (patch_jump jumpOverElse))))"

lemma visit_If_pass:
  "visit_IfStatement dbg p c thn els = then_do c (if_pass p (in_own_scope dbg p thn) (case els of None \<Rightarrow> Inr | Some e \<Rightarrow> in_own_scope dbg p e))"
  by (cases els) (simp_all add: visit_IfStatement_def if_pass_def [abs_def])

lemma if_emits:
  assumes thn: "fine names [] lp thn d1 ev1" and els: "fine names [] lp els d2 ev2" and r: "ready names lp cs" and e: "if_pass p thn els cs = Inr cs6"
  obtains ts es cst cse where "grows cs (if_items ts es) [] cs6" "runs_as names [] lp (code_len cs + 4) ts cst d1 ev1"
    "runs_as names [] lp (code_len cs + isize ts + 8) es cse d2 ev2" "isize ts + 4 < 65536" "isize es + 1 < 65536"
    "\<forall>K. loaded K cs6 \<longrightarrow> loaded K cst \<and> loaded K cse"
proof -
  obtain a1 cs1 where j1: "emit_jump p 33 cs = (a1, cs1)" by (cases "emit_jump p 33 cs") auto
  note g1 = emit_jump_grows [OF r j1]
  note gA = emit_op_grows [OF g1(2), where op = 27 and p = p]
  obtain cs2 where t: "thn (emit_op p 27 cs1) = Inr cs2"
    "(case emit_jump p 35 cs2 of (jumpOverElse, cs3) \<Rightarrow> seq_then (patch_jump a1 cs3) (\<lambda>cs4. seq_then (els (emit_op p 27 cs4)) (patch_jump jumpOverElse))) = Inr cs6"
    using e by (auto simp: if_pass_def j1 seq_then_eq_Inr)
  obtain ts nt where ts: "grows (emit_op p 27 cs1) ts nt cs2" "map l_name nt = []" "ready (names @ []) lp cs2"
    "code_len cs2 = code_len (emit_op p 27 cs1) + isize ts" "runs_as names [] lp (code_len (emit_op p 27 cs1)) ts cs2 d1 ev1"
    by (rule fineD [OF thn gA(2) t(1)])
  have l: "code_len (emit_op p 27 cs1) = code_len cs + 4" "code_len cs2 = code_len cs + isize ts + 4"
    using grows_len [OF g1(1)] grows_len [OF gA(1)] ts(4) by simp_all
  have r2: "ready names lp cs2" using ts(3) by simp
  obtain a2 cs3 where j2: "emit_jump p 35 cs2 = (a2, cs3)" by (cases "emit_jump p 35 cs2") auto
  note g3 = emit_jump_grows [OF r2 j2]
  obtain cs4 cs5 where q: "patch_jump a1 cs3 = Inr cs4" "els (emit_op p 27 cs4) = Inr cs5" "patch_jump a2 cs5 = Inr cs6"
    using t(2) by (auto simp: j2 seq_then_eq_Inr)
  have "grows cs (((raws [asByte 33, 0xff, 0xff] @ raws [asByte 27]) @ ts) @ raws [asByte 35, 0xff, 0xff]) ((([] @ []) @ nt) @ []) cs3"
    by (rule grows_trans [OF grows_trans [OF grows_trans [OF g1(1) gA(1)] ts(1)] g3(1)])
  then have "grows cs ([] @ raws [asByte 33, 0xff, 0xff] @ (raws [asByte 27] @ ts @ raws [asByte 35, 0xff, 0xff])) [] cs3"
    using ts(2) by simp
  note gp = grows_patch [OF this, of cs4]
  have z: "isize (raws [asByte 27] @ ts @ raws [asByte 35, 0xff, 0xff]) = isize ts + 4" by simp
  from gp q(1) g1(3)
  have p1: "grows cs (raws ([asByte 33] @ u16_bytes (isize ts + 4)) @ raws [asByte 27] @ ts @ raws [asByte 35, 0xff, 0xff]) [] cs4"
    "isize ts + 4 < 65536" unfolding z by simp_all
  have r4: "ready names lp cs4" using ready_grows [OF r p1(1)] by simp
  note gE = emit_op_grows [OF r4, where op = 27 and p = p]
  have l4: "code_len (emit_op p 27 cs4) = code_len cs + isize ts + 8" using grows_len [OF p1(1)] grows_len [OF gE(1)] by simp
  obtain es ne where es: "grows (emit_op p 27 cs4) es ne cs5" "map l_name ne = []" "runs_as names [] lp (code_len (emit_op p 27 cs4)) es cs5 d2 ev2"
    by (rule fineD [OF els gE(2) q(2)])
  let ?xs = "raws ([asByte 33] @ u16_bytes (isize ts + 4)) @ raws [asByte 27] @ ts"
  have "grows cs (((?xs @ raws [asByte 35, 0xff, 0xff]) @ raws [asByte 27]) @ es) (([] @ []) @ ne) cs5"
    using grows_trans [OF grows_trans [OF p1(1) gE(1)] es(1)] by simp
  then have "grows cs (?xs @ raws [asByte 35, 0xff, 0xff] @ (raws [asByte 27] @ es)) [] cs5" using es(2) by simp
  note gq = grows_patch [OF this, of cs6]
  have a2: "code_len cs + isize ?xs + 1 = a2" using g3(3) l(2) by simp
  have p2: "grows cs (if_items ts es) [] cs6" "isize es + 1 < 65536"
    using gq [unfolded a2, OF q(3)] by (simp_all add: if_items_def)
  have ld: "loaded K cs2 \<and> loaded K cs5" if "loaded K cs6" for K
  proof -
    have l5: "loaded K cs5" using that loaded_same [OF patch_jump_constants [OF q(3)], of K] by simp
    then have "loaded K cs3" using grows_loaded [OF gE(1)] grows_loaded [OF es(1)] loaded_same [OF patch_jump_constants [OF q(1)], of K] by blast
    then show ?thesis using l5 grows_loaded [OF g3(1)] by blast
  qed
  show ?thesis by (rule that [OF p2(1) ts(5) [unfolded l(1)] es(3) [unfolded l4] p1(2) p2(2)]) (use ld in blast)
qed

lemma fine_If:
  assumes c: "good names f d0 ev" and thn: "fine names [] lp thn d1 ev1" and els: "fine names [] lp els d2 ev2"
    and d: "d0 \<le> d" "d1 \<le> d" "d2 \<le> d"
  shows "fine names [] lp (then_do f (if_pass p thn els)) d (\<lambda>n st. with_value (ev st) (\<lambda>v st1. if \<not> falsey v then ev1 n st1 else ev2 n st1))"
proof (rule fineI)
  fix cs cs6 assume r: "ready names lp cs" and fg: "then_do f (if_pass p thn els) cs = Inr cs6"
  obtain cs0 where e: "f cs = Inr cs0" "if_pass p thn els cs0 = Inr cs6" using fg by (auto simp: then_do_def seq_then_eq_Inr)
  obtain xs where xs: "emits cs xs cs0" "code_len cs0 = code_len cs + length xs"
    "does names (code_len cs) xs cs0 d0 (\<lambda>_. True) (\<lambda>_ :: unit. []) (\<lambda>v. [v]) (\<lambda>x. ev (snd x))"
    by (rule followsD [OF c [unfolded good_def] ready_plain [OF r] e(1)])
  have g0: "grows cs (raws xs) [] cs0" by (rule emits_grows [OF xs(1) ready_length [OF r]])
  have r0: "ready names lp cs0" using ready_grows [OF r g0] by simp
  obtain ts es cst cse where i: "grows cs0 (if_items ts es) [] cs6" "runs_as names [] lp (code_len cs0 + 4) ts cst d1 ev1"
    "runs_as names [] lp (code_len cs0 + isize ts + 8) es cse d2 ev2" "isize ts + 4 < 65536" "isize es + 1 < 65536"
    "\<forall>K. loaded K cs6 \<longrightarrow> loaded K cst \<and> loaded K cse" by (rule if_emits [OF thn els r0 e(2)])
  have "runs_as names [] lp (code_len cs) (raws xs @ if_items ts es) cs6 d (\<lambda>n st. with_value (ev st) (\<lambda>v st1. if \<not> falsey v then ev1 n st1 else ev2 n st1))"
  proof (rule runs_asI)
    fix n L K bt and st :: store
    assume a: "code_at K (code_len cs) (filled bt (code_len cs) (raws xs @ if_items ts es))" "fits bt (holes (code_len cs) (raws xs @ if_items ts es))"
      "loaded K cs6" "map fst (s_vars st) = names" "space K names [] d"
    have k: "code_at K (code_len cs) xs" "code_at K (code_len cs0) (filled bt (code_len cs0) (if_items ts es))"
      using a(1) xs(2) by (simp_all add: code_at_append)
    have h: "fits bt (holes (code_len cs0) (if_items ts es))" using a(2) xs(2) by simp
    have sp: "space K names [] d0" "space K names [] d1" "space K names [] d2" using a(5) d by (simp_all add: space_def)
    have "reaches L K (code_len cs) (config_of st ([] @ [])) names (\<lambda>v. [] @ [v]) (code_len cs + length xs) (ev (snd ((), st)))"
      by (rule doesD [OF xs(3) k(1) grows_loaded [OF i(1) a(3)] a(4) sp(1)]) simp
    then have v: "reaches L K (code_len cs) (config_of st []) names (\<lambda>v. [v]) (code_len cs0) (ev st)" by (simp add: xs(2))
    show "flows_to L K (code_len cs) (config_of st []) (code_len cs + isize (raws xs @ if_items ts es)) (names @ []) lp bt
        (with_value (ev st) (\<lambda>v st1. if \<not> falsey v then ev1 n st1 else ev2 n st1))"
    proof (rule flows_to_value [OF v])
      fix w and st1 :: store assume "map fst (s_vars st1) = names"
      then show "flows_to L K (code_len cs0) (config_of st1 [w]) (code_len cs + isize (raws xs @ if_items ts es)) (names @ []) lp bt
          (if \<not> falsey w then ev1 n st1 else ev2 n st1)"
        using if_runs [OF i(2,3) _ _ i(4,5) k(2) h _ sp(2,3), where L = L and st = st1 and v = w and n = n] i(6) [rule_format, OF a(3)] xs(2) by (simp add: add.assoc)
    qed
  qed
  then show "\<exists>is new. grows cs is new cs6 \<and> map l_name new = [] \<and> runs_as names [] lp (code_len cs) is cs6 d
      (\<lambda>n st. with_value (ev st) (\<lambda>v st1. if \<not> falsey v then ev1 n st1 else ev2 n st1))"
    using grows_trans [OF g0 i(1)] by (intro exI [of _ "raws xs @ if_items ts es"] exI [of _ "[]"]) simp
qed

section \<open>Loops\<close>

text \<open>What a loop changes, but for the stack of loops, which it restores.\<close>

definition extends :: "compiler \<Rightarrow> byte list \<Rightarrow> compiler \<Rightarrow> bool" where
  "extends cs bs cs' \<longleftrightarrow> same_frame cs cs' \<and> code (currentChunk cs') = code (currentChunk cs) @ bs
     \<and> (\<exists>ks. constants (currentChunk cs') = constants (currentChunk cs) @ ks) \<and> locals (func cs') = locals (func cs)"

lemma extends_trans: "extends cs1 xs cs2 \<Longrightarrow> extends cs2 ys cs3 \<Longrightarrow> extends cs1 (xs @ ys) cs3"
  unfolding extends_def using same_frame_trans [of cs1 cs2 cs3] by auto

lemma extends_emits: "emits cs bs cs' \<Longrightarrow> extends cs bs cs'"
  by (auto simp: emits_def extends_def same_frame_def currentChunk_def)

lemma extends_grows: "grows cs is [] cs' \<Longrightarrow> extends cs (raw is) cs'" by (simp add: grows_def extends_def)

lemma extends_loops: "extends cs [] (cs\<lparr>loopStack := l\<rparr>)" "extends cs bs cs' \<Longrightarrow> extends cs bs (cs'\<lparr>loopStack := l\<rparr>)"
  by (simp_all add: extends_def same_frame_def currentChunk_def)

lemma extends_overwrite:
  "extends cs as cs1 \<Longrightarrow> code c = code (currentChunk cs) @ bs \<Longrightarrow> constants c = constants (currentChunk cs1) \<Longrightarrow>
     extends cs bs (on_chunk (\<lambda>_. c) cs1)"
  by (auto simp: extends_def same_frame_def on_chunk_def on_func_def currentChunk_def idents_ok_def)

lemma extends_len: "extends cs bs cs' \<Longrightarrow> code_len cs' = code_len cs + length bs" by (simp add: extends_def code_len_def)

lemma extends_loaded: "extends cs bs cs' \<Longrightarrow> loaded K cs' \<Longrightarrow> loaded K cs" using loaded_prefix by (auto simp: extends_def)

lemma grows_extends:
  "extends cs bs cs' \<Longrightarrow> loopStack cs' = loopStack cs \<Longrightarrow> length (locals (func cs)) \<le> 255 \<Longrightarrow> grows cs (raws bs) [] cs'"
  by (simp add: extends_def grows_def)

lemma extends_patch:
  assumes "extends cs (xs @ [b, 0xff, 0xff] @ ys) cs1" "patch_jump (code_len cs + length xs + 1) cs1 = Inr cs2"
  shows "extends cs (xs @ [b] @ u16_bytes (length ys) @ ys) cs2 \<and> length ys < 65536 \<and> loopStack cs2 = loopStack cs1"
proof -
  obtain c where c: "patchJump (code_len cs + length xs + 1) (currentChunk cs1) = Inr c" "cs2 = on_chunk (\<lambda>_. c) cs1"
    using assms(2) by (auto simp: patch_jump_def try_chunk_def seq_then_eq_Inr)
  have cd: "code (currentChunk cs1) = (code (currentChunk cs) @ xs @ [b]) @ [0xff, 0xff] @ ys" using assms(1) by (simp add: extends_def)
  have a: "code_len cs + length xs + 1 = length (code (currentChunk cs) @ xs @ [b])" by (simp add: code_len_def)
  note pj = patchJump_code [OF c(1) cd a]
  have "c = (currentChunk cs1)\<lparr>code := code c\<rparr>" using pj by blast
  then have "constants c = constants (currentChunk cs1)" by (rule code_only)
  then have "extends cs (xs @ [b] @ u16_bytes (length ys) @ ys) cs2"
    unfolding c(2) by (intro extends_overwrite [OF assms(1)]) (use pj in simp_all)
  then show ?thesis using pj c(2) by (simp add: on_chunk_def on_func_def)
qed

lemma push_loop_enterable:
  assumes "ready names lp cs" "start \<le> code_len cs"
  shows "enterable names (Some (names, start)) (push_loop start cs)"
proof -
  have f: "func (push_loop start cs) = func cs" "enclosing (push_loop start cs) = enclosing cs" "inModuleFunction (push_loop start cs) = inModuleFunction cs"
    by (simp_all add: push_loop_def)
  have p: "plain names (push_loop start cs)" using assms(1) f by (simp add: ready_def plain_def)
  have "ready names (Some (names, start)) cs1" if o: "opened (push_loop start cs) cs1" for cs1
  proof -
    obtain q b i where c: "cs1 = (push_loop start cs)\<lparr>func := (func (push_loop start cs))\<lparr>scopeDepth := scopeDepth (func (push_loop start cs)) + 1,
     constBindings := constBindings (func (push_loop start cs)) @ [Map.empty], blockPath := b, nextBlockId := i, pendingLocals := q\<rparr>\<rparr>"
      using o by (auto simp: opened_def)
    let ?c = "\<lparr>bodyScopeDepth = scopeDepth (func cs), whileLoopStart = start, breakOffsets = []\<rparr>"
    have g: "locals (func cs1) = locals (func cs)" "scopeDepth (func cs1) = scopeDepth (func cs) + 1" "enclosing cs1 = enclosing cs"
      "inModuleFunction cs1 = inModuleFunction cs" "idents_ok (func cs1) = idents_ok (func cs)" "initializer (func cs1) = initializer (func cs)"
      "loopStack cs1 = ?c # loopStack cs" "code_len cs1 = code_len cs"
      by (simp_all add: c f idents_ok_def) (simp_all add: push_loop_def code_len_def currentChunk_def)
    have "in_loop (Some (names, start)) cs1"
      by (rule in_loopI [where keep = "locals (func cs)" and gone = "[]", OF g(7)]) (use assms g in \<open>simp_all add: ready_def\<close>)
    moreover have "plain names cs1" using p opened_lookup [OF o] g f by (simp add: plain_def)
    ultimately show ?thesis using assms(1) g by (auto simp: ready_def)
  qed
  then show ?thesis using assms(1) f by (simp add: enterable_def ready_def)
qed

text \<open>The bytes of a loop around the condition \<open>xs\<close> and the body \<open>is\<close>, which begins at \<open>pb\<close>.\<close>

definition loop_back :: "byte list \<Rightarrow> item list \<Rightarrow> nat" where
  "loop_back xs is = length xs + isize is + 7"

definition loop_bytes :: "nat \<Rightarrow> byte list \<Rightarrow> item list \<Rightarrow> byte list" where
  "loop_bytes pb xs is = xs @ [asByte 33] @ u16_bytes (isize is + 4) @ [asByte 27]
     @ filled (pb + isize is + 4) pb is @ [asByte 36] @ u16_bytes (loop_back xs is) @ [asByte 27]"

lemma while_emits:
  assumes c: "good names f d1 ev" and b: "\<And>start. blocky names (Some (names, start)) g d2 evb"
    and r: "ready names lp cs" and e: "visit_WhileStatement p f g cs = Inr cs'"
  obtains xs "is" csc csb where "grows cs (raws (loop_bytes (code_len cs + length xs + 4) xs is)) [] cs'"
    "does names (code_len cs) xs csc d1 (\<lambda>_. True) (\<lambda>_ :: unit. []) (\<lambda>v. [v]) (\<lambda>x. ev (snd x))"
    "runs_as names [] (Some (names, code_len cs)) (code_len cs + length xs + 4) is csb d2 evb"
    "fits (code_len cs + length xs + 4 + isize is + 4) (holes (code_len cs + length xs + 4) is)"
    "isize is + 4 < 65536" "loop_back xs is < 65536" "\<forall>K. loaded K cs' \<longrightarrow> loaded K csc \<and> loaded K csb"
proof -
  have e': "seq_then (f cs) (\<lambda>cs0. case emit_jump p 33 cs0 of (jumpToExit, cs1) \<Rightarrow>
        seq_then (g (push_loop (code_len cs) (emit_op p 27 cs1))) (\<lambda>cs2.
          seq_then (emit_loop p (code_len cs) cs2) (\<lambda>cs3.
            seq_then (patch_jump jumpToExit cs3) (\<lambda>cs4.
              seq_then (run_all (map patch_jump (breakOffsets (hd (loopStack cs4)))) (emit_op p 27 cs4)) (\<lambda>cs5.
                Inr (cs5\<lparr>loopStack := tl (loopStack cs5)\<rparr>)))))) = Inr cs'"
    using e unfolding visit_WhileStatement_def Let_def code_len_def .
  obtain cs0 where c0: "f cs = Inr cs0" using e' by (auto simp: seq_then_eq_Inr)
  obtain xs where xs: "emits cs xs cs0" "code_len cs0 = code_len cs + length xs"
    "does names (code_len cs) xs cs0 d1 (\<lambda>_. True) (\<lambda>_ :: unit. []) (\<lambda>v. [v]) (\<lambda>x. ev (snd x))"
    by (rule followsD [OF c [unfolded good_def] ready_plain [OF r] c0])
  have r0: "ready names lp cs0" using ready_grows [OF r emits_grows [OF xs(1) ready_length [OF r]]] by simp
  obtain a1 cs1 where j1: "emit_jump p 33 cs0 = (a1, cs1)" by (cases "emit_jump p 33 cs0") auto
  note g1 = emit_jump_grows [OF r0 j1]
  note gA = emit_op_grows [OF g1(2), where op = 27 and p = p]
  let ?A = "emit_op p 27 cs1"
  let ?B = "push_loop (code_len cs) ?A"
  obtain cs2 cs3 cs4 cs5 where q: "g ?B = Inr cs2" "emit_loop p (code_len cs) cs2 = Inr cs3" "patch_jump a1 cs3 = Inr cs4"
    "run_all (map patch_jump (breakOffsets (hd (loopStack cs4)))) (emit_op p 27 cs4) = Inr cs5" "cs' = cs5\<lparr>loopStack := tl (loopStack cs5)\<rparr>"
    using e' by (auto simp: c0 j1 seq_then_eq_Inr)
  let ?pb = "code_len cs + length xs + 4"
  have lA: "code_len ?A = ?pb" "code_len ?B = ?pb"
    using grows_len [OF g1(1)] grows_len [OF gA(1)] xs(2) by (simp_all add: push_loop_def code_len_def currentChunk_def)
  have eB: "enterable names (Some (names, code_len cs)) ?B" by (rule push_loop_enterable [OF gA(2)]) (simp add: lA)
  obtain "is" where "grows ?B is [] cs2" "runs_as names [] (Some (names, code_len cs)) (code_len ?B) is cs2 d2 evb"
    using b [of "code_len cs"] eB q(1) unfolding blocky_def by blast
  note i = this [unfolded lA(2)]
  have st0: "loopStack ?A = loopStack cs" using xs(1) g1(1) gA(1) emits_fields(8) [OF xs(1)] by (simp add: grows_def)
  have st2: "loopStack cs2 = \<lparr>bodyScopeDepth = scopeDepth (func ?A), whileLoopStart = code_len cs, breakOffsets = holes ?pb is\<rparr> # loopStack cs"
  proof -
    have "loopStack cs2 = add_breaks (holes (code_len ?B) is) (loopStack ?B)" using i(1) unfolding grows_def by blast
    then show ?thesis unfolding lA(2) by (simp add: push_loop_def add_breaks_def st0)
  qed
  have x2: "extends cs (xs @ [asByte 33, 0xff, 0xff] @ [asByte 27] @ raw is) cs2"
  proof -
    have "extends cs (xs @ raw (raws [asByte 33, 0xff, 0xff]) @ raw (raws [asByte 27])) ?A"
      by (rule extends_trans [OF extends_emits [OF xs(1)] extends_trans [OF extends_grows [OF g1(1)] extends_grows [OF gA(1)]]])
    from extends_trans [OF extends_loops(2) [OF this] extends_grows [OF i(1) [unfolded push_loop_def]]]
    show ?thesis by simp
  qed
  have l2: "code_len cs2 = ?pb + isize is" using extends_len [OF x2] by simp
  have bk: "?pb + isize is + 3 - code_len cs = loop_back xs is" by (simp add: loop_back_def)
  have el: "emits cs2 (asByte 36 # u16_bytes (loop_back xs is)) cs3" "loop_back xs is < 65536"
    using emits_loop [OF q(2)] unfolding l2 bk by simp_all
  have x3: "extends cs (xs @ [asByte 33, 0xff, 0xff] @ ([asByte 27] @ raw is @ asByte 36 # u16_bytes (loop_back xs is))) cs3"
    using extends_trans [OF x2 extends_emits [OF el(1)]] by simp
  have a1: "code_len cs + length xs + 1 = a1" using g1(3) xs(2) by simp
  have z: "length ([asByte 27] @ raw is @ asByte 36 # u16_bytes (loop_back xs is)) = isize is + 4" by simp
  have x4: "extends cs (xs @ [asByte 33] @ u16_bytes (isize is + 4) @ [asByte 27] @ raw is @ asByte 36 # u16_bytes (loop_back xs is)) cs4"
    "isize is + 4 < 65536" "loopStack cs4 = loopStack cs3"
    using extends_patch [OF x3 q(3) [folded a1]] unfolding z by simp_all
  let ?F = "emit_op p 27 cs4"
  let ?pre = "code (currentChunk cs) @ xs @ [asByte 33] @ u16_bytes (isize is + 4) @ [asByte 27]"
  let ?rest = "asByte 36 # u16_bytes (loop_back xs is) @ [asByte 27]"
  have x5: "extends cs (xs @ [asByte 33] @ u16_bytes (isize is + 4) @ [asByte 27] @ raw is @ ?rest) ?F"
    using extends_trans [OF x4(1) extends_emits [OF emits_op [of cs4 27 p]]] by simp
  have st4: "loopStack cs4 = loopStack cs2" using x4(3) emits_fields(8) [OF el(1)] by simp
  have stF: "loopStack ?F = loopStack cs2" using st4 emits_fields(8) [OF emits_op [of cs4 27 p]] by simp
  have pre: "length ?pre = ?pb" by (simp add: code_len_def)
  have "run_all (map patch_jump (holes (length ?pre) is)) ?F = Inr cs5" using q(4) by (simp only: pre st4 st2) simp
  moreover have "code (currentChunk ?F) = ?pre @ raw is @ ?rest" using x5 by (simp add: extends_def)
  moreover have "?pb + isize is + 4 = length ?pre + isize is + length ?rest" unfolding pre by simp
  ultimately obtain ch where ch: "cs5 = on_chunk (\<lambda>_. ch) ?F" "code ch = ?pre @ filled (?pb + isize is + 4) (length ?pre) is @ ?rest"
    "constants ch = constants (currentChunk ?F)" "fits (?pb + isize is + 4) (holes (length ?pre) is)" using patch_holes by blast
  have "extends cs (loop_bytes ?pb xs is) cs5"
    unfolding ch(1) by (rule extends_overwrite [OF x5 _ ch(3)]) (use ch(2) [unfolded pre] in \<open>simp add: loop_bytes_def\<close>)
  then have "extends cs (loop_bytes ?pb xs is) cs'" unfolding q(5) by (rule extends_loops(2))
  moreover have "loopStack cs' = loopStack cs" using q(5) ch(1) stF st2 by (simp add: on_chunk_def on_func_def)
  ultimately have gr: "grows cs (raws (loop_bytes ?pb xs is)) [] cs'" using ready_length [OF r] by (intro grows_extends)
  have ld: "loaded K cs0 \<and> loaded K cs2" if "loaded K cs'" for K
  proof -
    have "constants (currentChunk cs') = constants (currentChunk ?F)" using q(5) ch(1,3) by (simp add: on_chunk_def on_func_def currentChunk_def)
    then have "loaded K ?F" using that loaded_same [of cs' ?F K] by simp
    then have "loaded K cs3" using loaded_mono [OF emits_op [of cs4 27 p]] loaded_same [OF patch_jump_constants [OF q(3)], of K] by blast
    then have l2: "loaded K cs2" by (rule loaded_mono [OF el(1)])
    then have "loaded K ?A" using grows_loaded [OF i(1)] by (simp add: loaded_def currentChunk_def push_loop_def)
    then show ?thesis using l2 grows_loaded [OF gA(1)] grows_loaded [OF g1(1)] by blast
  qed
  show ?thesis by (rule that [OF gr xs(3) i(2) ch(4) [unfolded pre] x4(2) el(2)]) (use ld in blast)
qed

text \<open>The evaluation of a loop, for any condition and body.\<close>

primrec loop_of :: "evaluation \<Rightarrow> (nat \<Rightarrow> store \<Rightarrow> outcome_of) \<Rightarrow> nat \<Rightarrow> store \<Rightarrow> outcome_of" where
  "loop_of evc evb 0 st = None"
| "loop_of evc evb (Suc n) st = with_value (evc st) (\<lambda>v st1.
     if falsey v then Some (Inr (F_Normal, st1))
     else (case evb (Suc n) st1 of
         Some (Inr (F_Normal, st2)) \<Rightarrow> loop_of evc evb n st2
       | Some (Inr (F_Continue, st2)) \<Rightarrow> loop_of evc evb n st2
       | Some (Inr (F_Break, st2)) \<Rightarrow> Some (Inr (F_Normal, st2))
       | r \<Rightarrow> r))"

definition keeps_scope :: "(nat \<Rightarrow> store \<Rightarrow> outcome_of) \<Rightarrow> bool" where
  "keeps_scope ev \<longleftrightarrow> (\<forall>n st fl st2. ev n st = Some (Inr (fl, st2)) \<longrightarrow> cut (length (s_vars st)) st2 = st2)"

lemma keeps_scope_block: "keeps_scope (\<lambda>n. exec_block (fs n))"
  unfolding keeps_scope_def
proof (intro allI impI)
  fix n st fl st2 assume "exec_block (fs n) st = Some (Inr (fl, st2))"
  then obtain st1 where "st2 = cut (length (s_vars st)) st1"
    by (auto simp: exec_block_def leave_block_def cut_def split: option.splits sum.splits)
  then show "cut (length (s_vars st)) st2 = st2" by (simp add: cut_cut)
qed

text \<open>Going on with what is left of the loop after its body.\<close>

lemma flows_to_body:
  assumes f: "flows_to L K p1 s p2 names (Some (names, start)) brk r" and k: "\<And>fl st. r = Some (Inr (fl, st)) \<Longrightarrow> cut (length names) st = st"
    and bk: "\<And>s. goes L K p2 s start s" and exit: "brk = pe"
    and again: "\<And>st. map fst (s_vars st) = names \<Longrightarrow> flows_to L K start (config_of st []) pe names lp bt (next_round st)"
  shows "flows_to L K p1 s pe names lp bt (case r of
         Some (Inr (F_Normal, st2)) \<Rightarrow> next_round st2
       | Some (Inr (F_Continue, st2)) \<Rightarrow> next_round st2
       | Some (Inr (F_Break, st2)) \<Rightarrow> Some (Inr (F_Normal, st2))
       | r \<Rightarrow> r)"
proof -
  consider "r = None" | (i) x where "r = Some (Inl x)" | (o) fl st where "r = Some (Inr (fl, st))"
    by (metis option.exhaust sum.exhaust surj_pair)
  then show ?thesis
  proof cases
    case 1
    then show ?thesis by (simp add: flows_to_def)
  next
    case i
    then show ?thesis using f by (cases x) (simp_all add: flows_to_def)
  next
    case o
    note c = k [OF o]
    show ?thesis
    proof (cases fl)
      case F_Normal
      then have "map fst (s_vars st) = names" "goes L K p1 s p2 (config_of st [])" using f o by (simp_all add: flows_to_def)
      then show ?thesis using flows_to_goes [OF goes_trans [OF _ bk] again] F_Normal o by simp
    next
      case F_Break
      then have "leaves L K p1 s names brk st" using f o by (simp add: flows_to_def)
      then show ?thesis using F_Break o c exit by (simp add: flows_to_def leaves_def)
    next
      case F_Continue
      then have "leaves L K p1 s names start st" using f o by (simp add: flows_to_def)
      then have "map fst (s_vars st) = names" "goes L K p1 s start (config_of st [])" using c by (simp_all add: leaves_def)
      then show ?thesis using flows_to_goes [OF _ again] F_Continue o by simp
    next
      case (F_Return v)
      then show ?thesis using f o by (simp add: flows_to_def)
    qed
  qed
qed

lemma while_runs:
  fixes xs :: "byte list"
  assumes c: "does names pc xs csc d1 (\<lambda>_. True) (\<lambda>_ :: unit. []) (\<lambda>v. [v]) (\<lambda>x. evc (snd x))"
    and b: "runs_as names [] (Some (names, pc)) (pc + length xs + 4) is csb d2 evb"
    and h: "fits (pc + length xs + 4 + isize is + 4) (holes (pc + length xs + 4) is)"
    and small: "isize is + 4 < 65536" "loop_back xs is < 65536" and ld: "loaded K csc" "loaded K csb"
    and k: "code_at K pc (loop_bytes (pc + length xs + 4) xs is)" and sp: "space K names [] d1" "space K names [] d2"
    and ks: "keeps_scope evb"
  shows "map fst (s_vars st) = names \<Longrightarrow>
    flows_to L K pc (config_of st []) (pc + length (loop_bytes (pc + length xs + 4) xs is)) names lp bt (loop_of evc evb n st)"
proof (induction n arbitrary: st)
  case 0
  then show ?case by (simp add: flows_to_def)
next
  case (Suc n)
  let ?pb = "pc + length xs + 4"
  let ?pe = "?pb + isize is + 4"
  have pe: "pc + length (loop_bytes ?pb xs is) = ?pe" by (simp add: loop_bytes_def)
  have "code_at K pc (xs @ (asByte 33 # u16_bytes (isize is + 4)) @ [asByte 27] @ filled ?pe ?pb is
      @ (asByte 36 # u16_bytes (loop_back xs is)) @ [asByte 27])"
    using k by (simp add: loop_bytes_def)
  then have a: "code_at K pc xs" "code_at K (pc + length xs) (asByte 33 # u16_bytes (isize is + 4))" "code_at K (pc + length xs + 3) [asByte 27]"
    "code_at K ?pb (filled ?pe ?pb is)" "code_at K (?pb + isize is) (asByte 36 # u16_bytes (loop_back xs is))" "code_at K (?pb + isize is + 3) [asByte 27]"
    unfolding code_at_append by (simp_all add: eval_nat_numeral)
  have "reaches L K pc (config_of st ([] @ [])) names (\<lambda>v. [] @ [v]) (pc + length xs) (evc (snd ((), st)))"
    by (rule doesD [OF c a(1) ld(1) Suc.prems sp(1)]) simp
  then have v: "reaches L K pc (config_of st []) names (\<lambda>v. [v]) (pc + length xs) (evc st)" by simp
  have bk: "goes L K (?pb + isize is) s pc s" for s
  proof -
    have "?pb + isize is + 3 - pc = loop_back xs is" by (simp add: loop_back_def)
    then show ?thesis using goes_back [of K "?pb + isize is" pc L s] a(5) small(2) by simp
  qed
  show ?case unfolding pe loop_of.simps
  proof (rule flows_to_value [OF v])
    fix w and st1 :: store assume st1: "map fst (s_vars st1) = names"
    have j: "goes L K (pc + length xs) (config_of st1 [w]) (if falsey w then pc + length xs + 3 + (isize is + 4) else pc + length xs + 3) (config_of st1 [w])"
      using goes_JumpIfFalse [OF a(2) small(1), of L "map snd (s_vars st1)" w "s_mod st1" "s_heap st1"] by (simp add: config_of_def)
    have pop: "goes L K q (config_of st1 [w]) (q + 1) (config_of st1 [])" if "code_at K q [asByte 27]" for q
      using goes_Pop [OF that] by (simp add: config_of_def)
    show "flows_to L K (pc + length xs) (config_of st1 [w]) ?pe names lp bt
      (if falsey w then Some (Inr (F_Normal, st1))
       else (case evb (Suc n) st1 of
         Some (Inr (F_Normal, st2)) \<Rightarrow> loop_of evc evb n st2
       | Some (Inr (F_Continue, st2)) \<Rightarrow> loop_of evc evb n st2
       | Some (Inr (F_Break, st2)) \<Rightarrow> Some (Inr (F_Normal, st2))
       | r \<Rightarrow> r))"
    proof (cases "falsey w")
      case True
      have "goes L K (pc + length xs) (config_of st1 [w]) (?pb + isize is + 3) (config_of st1 [w])" using j True by (simp add: algebra_simps)
      then have "goes L K (pc + length xs) (config_of st1 [w]) ?pe (config_of st1 [])"
        using goes_trans [OF _ pop [OF a(6)]] by simp
      then show ?thesis using True st1 by (simp add: flows_to_def)
    next
      case False
      have g: "goes L K (pc + length xs) (config_of st1 [w]) ?pb (config_of st1 [])"
        using goes_trans [OF j [simplified False if_False] pop [OF a(3)]] by (simp add: eval_nat_numeral)
      have "flows_to L K ?pb (config_of st1 []) (?pb + isize is) (names @ []) (Some (names, pc)) ?pe (evb (Suc n) st1)"
        by (rule runs_asD [OF b a(4) h ld(2) st1 sp(2)])
      then have f: "flows_to L K (pc + length xs) (config_of st1 [w]) (?pb + isize is) names (Some (names, pc)) ?pe (evb (Suc n) st1)"
        using flows_to_goes [OF g] by simp
      have len: "length (s_vars st1) = length names" using st1 by (metis length_map)
      show ?thesis unfolding if_not_P [OF False]
      proof (rule flows_to_body [OF f _ bk refl])
        show "cut (length names) st2 = st2" if "evb (Suc n) st1 = Some (Inr (fl, st2))" for fl st2
          using ks that len unfolding keeps_scope_def by metis
        show "flows_to L K pc (config_of st2 []) ?pe names lp bt (loop_of evc evb n st2)" if "map fst (s_vars st2) = names" for st2
          using Suc.IH [OF that] unfolding pe .
      qed
    qed
  qed
qed

lemma fine_While:
  assumes c: "good names f d1 evc" and b: "\<And>start. blocky names (Some (names, start)) g d2 evb" and ks: "keeps_scope evb"
    and d: "d1 \<le> d" "d2 \<le> d"
  shows "fine names [] lp (visit_WhileStatement p f g) d (loop_of evc evb)"
proof (rule fineI)
  fix cs cs' assume r: "ready names lp cs" and e: "visit_WhileStatement p f g cs = Inr cs'"
  obtain xs "is" csc csb where i: "grows cs (raws (loop_bytes (code_len cs + length xs + 4) xs is)) [] cs'"
    "does names (code_len cs) xs csc d1 (\<lambda>_. True) (\<lambda>_ :: unit. []) (\<lambda>v. [v]) (\<lambda>x. evc (snd x))"
    "runs_as names [] (Some (names, code_len cs)) (code_len cs + length xs + 4) is csb d2 evb"
    "fits (code_len cs + length xs + 4 + isize is + 4) (holes (code_len cs + length xs + 4) is)"
    "isize is + 4 < 65536" "loop_back xs is < 65536" "\<forall>K. loaded K cs' \<longrightarrow> loaded K csc \<and> loaded K csb"
    by (rule while_emits [OF c b r e])
  let ?W = "loop_bytes (code_len cs + length xs + 4) xs is"
  have "runs_as names [] lp (code_len cs) (raws ?W) cs' d (loop_of evc evb)"
  proof (rule runs_asI)
    fix n L K bt and st :: store
    assume a: "code_at K (code_len cs) (filled bt (code_len cs) (raws ?W))" "loaded K cs'" "map fst (s_vars st) = names" "space K names [] d"
    have sp: "space K names [] d1" "space K names [] d2" using a(4) d by (simp_all add: space_def)
    have ld: "loaded K csc" "loaded K csb" using i(7) a(2) by blast+
    have k: "code_at K (code_len cs) ?W" using a(1) by simp
    show "flows_to L K (code_len cs) (config_of st []) (code_len cs + isize (raws ?W)) (names @ []) lp bt (loop_of evc evb n st)"
      using while_runs [OF i(2-6) ld k sp ks a(3), of L lp bt n] by simp
  qed
  with i(1) show "\<exists>is new. grows cs is new cs' \<and> map l_name new = [] \<and> runs_as names [] lp (code_len cs) is cs' d (loop_of evc evb)"
    by (intro exI [of _ "raws ?W"] exI [of _ "[]"]) simp
qed

section \<open>All statements\<close>

text \<open>
  The statements related here: without constant and function declarations, labels and jumps, and with
  literals that fit a word.
\<close>

fun core_stmt :: "stmt \<Rightarrow> bool" where
  "core_stmt (S_VarDecl p x init) = (case init of None \<Rightarrow> True | Some e \<Rightarrow> expr_ok e)"
| "core_stmt (S_Expr p e) = expr_ok e"
| "core_stmt (S_If p c q ss els) = (expr_ok c \<and> (\<forall>s \<in> set ss. core_stmt s)
     \<and> (case els of None \<Rightarrow> True | Some (q', ss') \<Rightarrow> \<forall>s \<in> set ss'. core_stmt s))"
| "core_stmt (S_While p c q ss) = (expr_ok c \<and> (\<forall>s \<in> set ss. core_stmt s))"
| "core_stmt (S_Break p) = True"
| "core_stmt (S_Continue p) = True"
| "core_stmt (S_Return p init) = (case init of None \<Rightarrow> True | Some e \<Rightarrow> expr_ok e)"
| "core_stmt _ = False"

definition decls :: "stmt \<Rightarrow> ustring list" where
  "decls s = (case s of S_VarDecl p x init \<Rightarrow> [x] | _ \<Rightarrow> [])"

fun stmt_need :: "stmt \<Rightarrow> nat" where
  "stmt_need (S_VarDecl p x init) = (case init of None \<Rightarrow> 1 | Some e \<Rightarrow> need e)"
| "stmt_need (S_Expr p e) = need e"
| "stmt_need (S_If p c q ss els) = max (need c) (max (block_need (map (\<lambda>s. (stmt_need s, length (decls s))) ss))
     (case els of None \<Rightarrow> 0 | Some (q', ss') \<Rightarrow> block_need (map (\<lambda>s. (stmt_need s, length (decls s))) ss')))"
| "stmt_need (S_While p c q ss) = max (need c) (block_need (map (\<lambda>s. (stmt_need s, length (decls s))) ss))"
| "stmt_need (S_Return p init) = (case init of None \<Rightarrow> 1 | Some e \<Rightarrow> need e)"
| "stmt_need _ = 0"

lemma exec_While: "exec n (S_While p c q ss) = loop_of (eval c) (\<lambda>n. exec_block (map (exec n) ss)) n"
proof (induction n)
  case 0
  then show ?case by (simp add: fun_eq_iff)
next
  case (Suc n)
  show ?case unfolding fun_eq_iff exec.simps loop_of.simps Suc by simp
qed

lemma fine_VarDecl_stmt:
  assumes "case init of None \<Rightarrow> True | Some e \<Rightarrow> expr_ok e"
  shows "fine names [x] lp (visit_stmt dbg al (S_VarDecl p x init)) (stmt_need (S_VarDecl p x init)) (\<lambda>n. exec n (S_VarDecl p x init))"
proof (cases init)
  case None
  have "fine names [x] lp (visit_VarDecl p x None) 1 (\<lambda>n st. with_value (Inr (Sc SNil, st)) (\<lambda>v st1.
     Some (Inr (F_Normal, st1\<lparr>s_vars := s_vars st1 @ [(x, v)]\<rparr>))))"
    by (rule fine_VarDecl [OF good_Nil, where init_pass = "visit_Nil p"]) (simp_all add: visit_VarDecl_def)
  moreover have "exec n (S_VarDecl p x None) = (\<lambda>st. with_value (Inr (Sc SNil, st)) (\<lambda>v st1.
     Some (Inr (F_Normal, st1\<lparr>s_vars := s_vars st1 @ [(x, v)]\<rparr>))))" for n by (simp add: fun_eq_iff)
  ultimately show ?thesis by (simp only: None visit_stmt.simps option.map stmt_need.simps option.case)
next
  case (Some e)
  let ?f = "\<lambda>cs1. if (case source_name e of Some s \<Rightarrow> source_is_const s cs1 | None \<Rightarrow> False) then Inl Const_To_Mutable else visit_expr al e cs1"
  have "good names (visit_expr al e) (need e) (eval e)" by (rule good_expr) (use assms Some in simp)
  then have "fine names [x] lp (visit_VarDecl p x (Some (source_name e, visit_expr al e))) (need e) (\<lambda>n st. with_value (eval e st) (\<lambda>v st1.
     Some (Inr (F_Normal, st1\<lparr>s_vars := s_vars st1 @ [(x, v)]\<rparr>))))"
    by (rule fine_VarDecl [where init_pass = ?f]) (simp_all add: visit_VarDecl_def split: if_splits)
  moreover have "exec n (S_VarDecl p x (Some e)) = (\<lambda>st. with_value (eval e st) (\<lambda>v st1.
     Some (Inr (F_Normal, st1\<lparr>s_vars := s_vars st1 @ [(x, v)]\<rparr>))))" for n by (simp add: fun_eq_iff)
  ultimately show ?thesis by (simp only: Some visit_stmt.simps option.map stmt_need.simps option.case)
qed

lemma fine_If_stmt:
  assumes c: "expr_ok c" and t: "\<And>names lp. blocky names lp (visit_Suite dbg q ss (map (visit_stmt dbg al) ss)) d1 (\<lambda>n. exec_block (map (exec n) ss))"
    and e: "\<And>q' ss' names lp. els = Some (q', ss') \<Longrightarrow> blocky names lp (visit_Suite dbg q' ss' (map (visit_stmt dbg al) ss')) d2 (\<lambda>n. exec_block (map (exec n) ss'))"
    and d: "need c \<le> d" "d1 \<le> d" "els = None \<or> d2 \<le> d"
  shows "fine names [] lp (visit_stmt dbg al (S_If p c q ss els)) d (\<lambda>n. exec n (S_If p c q ss els))"
proof -
  have g: "good names (visit_expr al c) (need c) (eval c)" by (rule good_expr [OF c])
  have t': "fine names [] lp (in_own_scope dbg p (visit_Suite dbg q ss (map (visit_stmt dbg al) ss))) d1 (\<lambda>n. exec_block (map (exec n) ss))"
    by (rule fine_in_own_scope [OF blocky_fine [OF t]])
  show ?thesis
  proof (cases els)
    case None
    have n: "fine names [] lp Inr 0 (\<lambda>n st. Some (Inr (F_Normal, st)))"
    proof (rule fineI)
      fix cs cs' :: compiler assume r: "ready names lp cs" and e: "Inr cs = (Inr cs' :: compile_error + compiler)"
      have "runs_as names [] lp (code_len cs) [] cs' 0 (\<lambda>n st. Some (Inr (F_Normal, st)))"
        by (rule runs_asI) (simp add: flows_to_def goes_refl)
      then show "\<exists>is new. grows cs is new cs' \<and> map l_name new = [] \<and> runs_as names [] lp (code_len cs) is cs' 0 (\<lambda>n st. Some (Inr (F_Normal, st)))"
        using grows_refl [OF ready_length [OF r]] e by (intro exI [of _ "[]"]) simp
    qed
    have x: "exec n (S_If p c q ss None) = (\<lambda>st. with_value (eval c st) (\<lambda>v st1. if \<not> falsey v then exec_block (map (exec n) ss) st1 else Some (Inr (F_Normal, st1))))" for n
      unfolding fun_eq_iff exec.simps option.case by simp
    show ?thesis unfolding None x visit_stmt.simps visit_If_pass option.case
      by (rule fine_If [OF g t' n d(1,2)]) simp
  next
    case (Some a)
    obtain q' ss' where s: "els = Some (q', ss')" using Some by (cases a) auto
    have e': "fine names [] lp (in_own_scope dbg p (visit_Suite dbg q' ss' (map (visit_stmt dbg al) ss'))) d2 (\<lambda>n. exec_block (map (exec n) ss'))"
      by (rule fine_in_own_scope [OF blocky_fine [OF e [OF s]]])
    have x: "exec n (S_If p c q ss (Some (q', ss'))) = (\<lambda>st. with_value (eval c st) (\<lambda>v st1. if \<not> falsey v then exec_block (map (exec n) ss) st1 else exec_block (map (exec n) ss') st1))" for n
      unfolding fun_eq_iff exec.simps option.case prod.case by simp
    show ?thesis unfolding s x visit_stmt.simps visit_If_pass option.case prod.case
      by (rule fine_If [OF g t' e' d(1,2)]) (use d(3) s in simp)
  qed
qed

lemma fine_stmt: "core_stmt s \<Longrightarrow> fine names (decls s) lp (visit_stmt dbg al s) (stmt_need s) (\<lambda>n. exec n s)"
proof (induction s arbitrary: names lp rule: core_stmt.induct)
  case (1 p x init)
  show ?case unfolding decls_def stmt.case by (rule fine_VarDecl_stmt) (use 1 in simp)
next
  case (2 p e)
  have x: "exec n (S_Expr p e) = (\<lambda>st. with_value (eval e st) (\<lambda>v st1. Some (Inr (F_Normal, st1))))" for n by (simp add: fun_eq_iff)
  show ?case unfolding decls_def stmt.case x visit_stmt.simps stmt_need.simps by (rule fine_Expr [OF good_expr]) (use 2 in simp)
next
  case (3 p c q ss els)
  have t: "blocky names lp (visit_Suite dbg q ss (map (visit_stmt dbg al) ss)) (block_need (map (\<lambda>s. (stmt_need s, length (decls s))) ss))
     (\<lambda>n. exec_block (map (exec n) ss))" for names lp
    by (rule blocky_Suite) (use 3 in simp)
  show ?case unfolding decls_def stmt.case
  proof (rule fine_If_stmt [OF _ t])
    show "blocky names lp (visit_Suite dbg q' ss' (map (visit_stmt dbg al) ss'))
        (case els of None \<Rightarrow> 0 | Some (q', ss') \<Rightarrow> block_need (map (\<lambda>s. (stmt_need s, length (decls s))) ss')) (\<lambda>n. exec_block (map (exec n) ss'))"
      if "els = Some (q', ss')" for q' ss' names lp
      unfolding that option.case prod.case by (rule blocky_Suite) (use 3 that in simp)
  qed (use 3 in \<open>simp_all add: le_max_iff_disj\<close>)
next
  case (4 p c q ss)
  have b: "blocky names (Some (names, start)) (visit_Suite dbg q ss (map (visit_stmt dbg al) ss)) (block_need (map (\<lambda>s. (stmt_need s, length (decls s))) ss))
     (\<lambda>n. exec_block (map (exec n) ss))" for start
    by (rule blocky_Suite) (use 4 in simp)
  have x: "(\<lambda>n. exec n (S_While p c q ss)) = loop_of (eval c) (\<lambda>n. exec_block (map (exec n) ss))" by (simp add: exec_While fun_eq_iff)
  show ?case unfolding x visit_stmt.simps decls_def stmt.case
    by (rule fine_While [OF good_expr b keeps_scope_block]) (use 4 in simp_all)
next
  case (5 p)
  have x: "exec n (S_Break p) = (\<lambda>st. Some (Inr (F_Break, st)))" for n by (simp add: fun_eq_iff)
  show ?case unfolding decls_def stmt.case x visit_stmt.simps by (rule fine_Break)
next
  case (6 p)
  have x: "exec n (S_Continue p) = (\<lambda>st. Some (Inr (F_Continue, st)))" for n by (simp add: fun_eq_iff)
  show ?case unfolding decls_def stmt.case x visit_stmt.simps by (rule fine_Continue)
next
  case (7 p init)
  show ?case
  proof (cases init)
    case None
    have x: "exec n (S_Return p None) = (\<lambda>st. with_value (Inr (Sc SNil, st)) (\<lambda>v st1. Some (Inr (F_Return v, st1))))" for n
      by (simp add: fun_eq_iff)
    show ?thesis unfolding decls_def stmt.case None x visit_stmt.simps stmt_need.simps option.map option.case by (rule fine_Return_nil)
  next
    case (Some e)
    have x: "exec n (S_Return p (Some e)) = (\<lambda>st. with_value (eval e st) (\<lambda>v st1. Some (Inr (F_Return v, st1))))" for n
      by (simp add: fun_eq_iff)
    show ?thesis unfolding decls_def stmt.case Some x visit_stmt.simps stmt_need.simps option.map option.case
      by (rule fine_Return_value [OF good_expr]) (use 7 Some in simp)
  qed
qed simp_all

end
