(* ===== verification/Compile_Functions.thy ===== *)
theory Compile_Functions
  imports Compile_Stmts
begin

text \<open>
  Compiled functions do what the evaluator of \<open>Source_Semantics\<close> says of their bodies: the state of the
  compiler on entering a function, its parameters, the end of its code, and programs compiled and run.
\<close>

section \<open>Functions\<close>

lemma blocky_suite:
  assumes "\<forall>s \<in> set ss. core_stmt s"
  shows "blocky names lp (visit_suite dbg al q ss) (block_need (map (\<lambda>s. (stmt_need s, length (decls s))) ss)) (\<lambda>n. exec_suite n ss)"
  unfolding visit_suite_def exec_suite_def by (rule blocky_Suite) (use assms fine_stmt in blast)

text \<open>
  A function declared at the top of a file, where only names of the module are around it, and not
  inside a loop.
\<close>

definition at_top :: "compiler \<Rightarrow> bool" where
  "at_top cs \<longleftrightarrow> enclosing cs = [] \<and> (\<forall>l \<in> set (locals (func cs)). l_name l = [])
     \<and> (\<forall>m \<in> set (constBindings (func cs)). m = Map.empty) \<and> loopStack cs = []"

lemma const_scan_empty: "k \<le> length ms \<Longrightarrow> \<forall>m \<in> set ms. m = Map.empty \<Longrightarrow> const_scan ms k x = None"
proof (induction k)
  case (Suc k)
  then have "ms ! k = Map.empty" using nth_mem [of k ms] by simp
  then have "(ms ! k) x = None" by simp
  then show ?case using Suc by simp
qed simp

lemma local_scan_unnamed: "n \<le> length ls \<Longrightarrow> \<forall>l \<in> set ls. l_name l = [] \<Longrightarrow> x \<noteq> [] \<Longrightarrow> local_scan ls n x = -1"
  by (induction n) simp_all

lemma enter_function_ready:
  assumes "at_top cs"
  shows "ready [[]] None (enter_local_scope (enter_func_scope dbg p prc n cs))" (is "ready _ _ ?cs")
    and "code (currentChunk (enter_local_scope (enter_func_scope dbg p prc n cs))) = []"
proof -
  have f: "locals (func ?cs) = [new_local [] 0 []]" "scopeDepth (func ?cs) = 1" "constBindings (func ?cs) = [Map.empty, Map.empty]"
    "initializer (func ?cs) = False" "identConsts (func ?cs) = []" "enclosing ?cs = [func cs]" "inModuleFunction ?cs = False" "loopStack ?cs = []"
    using assms by (simp_all add: at_top_def enter_local_scope_def enter_func_scope_def on_func_def on_chunk_def enterLocalScope_def new_func_scope_def Let_def)
  show "code (currentChunk ?cs) = []"
    by (simp add: enter_local_scope_def enter_func_scope_def on_func_def on_chunk_def enterLocalScope_def new_func_scope_def Let_def
        currentChunk_def recordFunctionEntryStmt_def with_debug_def new_chunk_def)
  have "plain [[]] ?cs"
  proof (rule plainI)
    show "lookupConstBinding x (func ?cs # enclosing ?cs) = None" for x
      using assms const_scan_empty [of "length (constBindings (func cs))" "constBindings (func cs)" x]
      by (simp add: f at_top_def)
    show "enclosing_local x (enclosing ?cs) = None" if "x \<notin> set [[]]" for x
      using that assms local_scan_unnamed [of "length (locals (func cs))" "locals (func cs)" x]
      by (simp add: f at_top_def resolveLocal_def)
  qed (simp_all add: f new_local_def idents_ok_def)
  then show "ready [[]] None ?cs" by (simp add: ready_def f new_local_def in_loop_def)
qed

lemma param_ready:
  assumes r: "ready names None cs" and e: "visit_Parameter p x cs = Inr cs'"
  shows "ready (names @ [x]) None cs' \<and> code (currentChunk cs') = code (currentChunk cs)"
proof -
  obtain cs1 var cs2 where c: "declareVariable p x cs = Inr cs1" "identifier_constant x cs1 = Inr (var, cs2)"
    "cs' = on_func (mark_param x) (define_variable p var False cs2)"
    using e by (auto simp: visit_Parameter_def then_do_def seq_then_eq_Inr)
  note d = declared_local [OF r c(1)]
  have em: "emits cs1 [] cs2" by (rule emits_identifier(1) [OF c(2)]) (use d(1) in \<open>simp add: plain_def\<close>)
  note ef = emits_fields [OF em]
  have sd: "scopeDepth (func cs2) = scopeDepth (func cs)" using ef d(4) by (simp add: same_frame_def)
  have l2: "locals (func cs2) = locals (func cs) @ [new_local x (-1) []]" using ef d(2) by simp
  obtain l' where l': "define_variable p var False cs2 = cs2\<lparr>func := (func cs2)\<lparr>locals := locals (func cs) @ [l']\<rparr>\<rparr>"
    "l_name l' = x" "plain_slot (scopeDepth (func cs)) l'"
    by (rule defined_local [OF r l2 _ _ sd, of x p var False]) (simp_all add: new_local_def)
  have pos: "0 < scopeDepth (func cs)" using r by (simp add: ready_def)
  let ?fs = "(func cs2)\<lparr>locals := locals (func cs) @ [l']\<rparr>"
  have "resolveLocal ?fs x = int (length (locals (func cs)))" using l'(2,3) pos by (simp add: resolveLocal_def nth_append plain_slot_def)
  then have m: "mark_param x ?fs = ?fs\<lparr>locals := locals (func cs) @ [l'\<lparr>isParam := True\<rparr>]\<rparr>"
    by (simp add: mark_param_def Let_def nth_append list_update_append)
  have c': "cs' = cs2\<lparr>func := (func cs2)\<lparr>locals := locals (func cs) @ [l'\<lparr>isParam := True\<rparr>]\<rparr>\<rparr>"
    unfolding c(3) l'(1) on_func_def using m by simp
  have cd: "code (currentChunk cs') = code (currentChunk cs)" using em d(5) by (auto simp: c' emits_def currentChunk_def)
  have "grows cs [] [l'\<lparr>isParam := True\<rparr>] cs'"
  proof -
    have "same_frame cs1 cs2" using em by (auto simp: emits_def same_frame_def currentChunk_def)
    then have "same_frame cs cs2" by (rule same_frame_trans [OF d(4)])
    then have "same_frame cs cs'" by (simp add: c' same_frame_def idents_ok_def)
    moreover have "\<exists>ks. constants (currentChunk cs') = constants (currentChunk cs) @ ks" using em d(5) by (auto simp: c' emits_def currentChunk_def)
    ultimately show ?thesis using l' d(6,7) ef(8) cd by (simp add: grows_def c' plain_slot_def currentChunk_def)
  qed
  from ready_grows [OF r this] l'(2) cd show ?thesis by simp
qed

lemma params_ready:
  "ready names None cs \<Longrightarrow> run_all (map (\<lambda>(q, name). visit_Parameter q name) params) cs = Inr cs' \<Longrightarrow>
     ready (names @ map snd params) None cs' \<and> code (currentChunk cs') = code (currentChunk cs)"
proof (induction params arbitrary: names cs)
  case Nil
  then show ?case by simp
next
  case (Cons a params)
  obtain q x where a: "a = (q, x)" by (cases a)
  obtain cs1 where c: "visit_Parameter q x cs = Inr cs1" "run_all (map (\<lambda>(q, name). visit_Parameter q name) params) cs1 = Inr cs'"
    using Cons.prems(2) a by (auto simp: seq_then_eq_Inr)
  note r = param_ready [OF Cons.prems(1) c(1)]
  show ?case using Cons.IH [of "names @ [x]" cs1] r c(2) a by simp
qed

lemma filled_no_holes: "holes pc is = [] \<Longrightarrow> filled bt pc is = raw is"
  by (induction "is" arbitrary: pc) (simp_all split: item.splits)

text \<open>The constants of a chunk, at run time.\<close>

definition holds_constants :: "run_context \<Rightarrow> chunk_const list \<Rightarrow> bool" where
  "holds_constants K ks \<longleftrightarrow> (\<forall>i < length ks.
     case ks ! i of
       Const_Value (Imm w) \<Rightarrow> constant_is K i (Sc (scalar_of_word w))
     | Const_Value (rvalue.Str s) \<Rightarrow> constant_is K i (operand.Str s)
     | _ \<Rightarrow> True)"

lemma loaded_constants: "loaded K cs = holds_constants K (constants (currentChunk cs))"
  by (simp add: loaded_def holds_constants_def)

lemma flush_chunk: "code (fchunk (flushFuncDebugInfo dbg fs)) = code (fchunk fs) \<and> constants (fchunk (flushFuncDebugInfo dbg fs)) = constants (fchunk fs)"
proof -
  have r: "code (fchunk (recordLocalDebug b l i fs)) = code (fchunk fs) \<and> constants (fchunk (recordLocalDebug b l i fs)) = constants (fchunk fs)" for b l i fs
    by (simp add: recordLocalDebug_def with_debug_def)
  have "code (fchunk (fold (\<lambda>(i, l). recordLocalDebug b l i) xs fs)) = code (fchunk fs)
     \<and> constants (fchunk (fold (\<lambda>(i, l). recordLocalDebug b l i) xs fs)) = constants (fchunk fs)" for b xs fs
    by (induction xs arbitrary: fs) (auto simp: r)
  then show ?thesis by (simp add: flushFuncDebugInfo_def Let_def with_debug_def)
qed

text \<open>The state in which the body of a function is compiled and its code not yet closed.\<close>

definition compile_body :: "bool \<Rightarrow> pos \<Rightarrow> bool \<Rightarrow> (pos \<times> ustring) list \<Rightarrow> pass \<Rightarrow> pass" where
  "compile_body dbg p prc params body cs =
     then_do (run_all (map (\<lambda>(q, name). visit_Parameter q name) params)) body
       (enter_local_scope (enter_func_scope dbg p prc (length params) cs))"

lemma visit_Function_body:
  assumes "visit_Function dbg p prc params body cs = Inr cs'"
  obtains csb where "compile_body dbg p prc params body cs = Inr csb"
  using assms by (auto simp: visit_Function_def compile_body_def seq_then_eq_Inr split: if_splits)

lemma function_emits:
  assumes f: "visit_Function dbg p prc params body cs = Inr cs'" and t: "at_top cs"
    and b: "blocky ([] # map snd params) None body d ev"
    and cb: "compile_body dbg p prc params body cs = Inr csb"
  obtains "is" where "runs_as ([] # map snd params) [] None 0 is csb d ev" "holes 0 is = []" "code (currentChunk csb) = raw is"
    "code (fchunk (last (compiled cs'))) = (if lastByte (currentChunk csb) = asByte OpReturn then raw is else raw is @ [asByte 2, asByte OpReturn])"
    "\<forall>K. holds_constants K (constants (fchunk (last (compiled cs')))) \<longrightarrow> loaded K csb"
proof -
  let ?cs1 = "enter_local_scope (enter_func_scope dbg p prc (length params) cs)"
  obtain cs2 where c: "run_all (map (\<lambda>(q, name). visit_Parameter q name) params) ?cs1 = Inr cs2" "body cs2 = Inr csb"
    using cb by (auto simp: compile_body_def then_do_def seq_then_eq_Inr)
  have e: "seq_then (exit_func_scope dbg cs (close_function p csb)) (emit_closure p (func (close_function p csb))) = Inr cs'"
    using f cb by (auto simp: visit_Function_def compile_body_def Let_def split: if_splits)
  note r1 = enter_function_ready [OF t, of dbg p prc "length params"]
  have r2: "ready ([] # map snd params) None cs2" "code (currentChunk cs2) = []"
    using params_ready [OF r1(1) c(1)] r1(2) by simp_all
  have l0: "code_len cs2 = 0" using r2(2) by (simp add: code_len_def)
  obtain "is" where i: "grows cs2 is [] csb" "runs_as ([] # map snd params) [] None 0 is csb d ev"
    using b ready_enterable [OF r2(1)] c(2) unfolding blocky_def l0 [symmetric] by blast
  have "loopStack cs2 = []" using r2(1) by (simp add: ready_def in_loop_def)
  then have h: "holes 0 is = []" using i(1) l0 by (simp add: grows_def)
  have cd: "code (currentChunk csb) = raw is" using i(1) r2(2) by (simp add: grows_def)
  have ni: "\<not> initializer (func csb)" using i(1) r2(1) by (simp add: grows_def same_frame_def ready_def)
  let ?cs4 = "close_function p csb"
  obtain cs5 where x: "exit_func_scope dbg cs ?cs4 = Inr cs5" "emit_closure p (func ?cs4) cs5 = Inr cs'" using e by (auto simp: seq_then_eq_Inr)
  have "compiled cs5 = compiled ?cs4 @ [flushFuncDebugInfo dbg (func ?cs4)]"
    using x(1) by (auto simp: exit_func_scope_def checkUnresolvedJumps_def split: if_splits)
  moreover have "compiled cs' = compiled cs5"
    using x(2) by (auto simp: emit_closure_def seq_then_eq_Inr emit_op_arg_def on_chunk_def on_func_def)
  ultimately have la: "last (compiled cs') = flushFuncDebugInfo dbg (func ?cs4)" by simp
  have cl: "code (currentChunk ?cs4) = (if lastByte (currentChunk csb) = asByte OpReturn then raw is else raw is @ [asByte 2, asByte OpReturn])
      \<and> (\<forall>K. loaded K ?cs4 \<longrightarrow> loaded K csb)"
  proof (cases "lastByte (currentChunk csb) = asByte OpReturn")
    case True
    then show ?thesis using cd by (auto simp: close_function_def)
  next
    case False
    have em: "emits csb [asByte 2, asByte OpReturn] (emit_return p csb)" by (rule emits_return [OF ni])
    then have "code (currentChunk (emit_return p csb)) = raw is @ [asByte 2, asByte OpReturn]" using cd by (auto simp: emits_def currentChunk_def)
    then show ?thesis using False loaded_mono [OF em] by (auto simp: close_function_def)
  qed
  show ?thesis
  proof (rule that [OF i(2) h cd])
    show "code (fchunk (last (compiled cs'))) = (if lastByte (currentChunk csb) = asByte OpReturn then raw is else raw is @ [asByte 2, asByte OpReturn])"
      using cl flush_chunk [of dbg "func ?cs4"] by (simp add: la currentChunk_def)
    show "\<forall>K. holds_constants K (constants (fchunk (last (compiled cs')))) \<longrightarrow> loaded K csb"
      using cl flush_chunk [of dbg "func ?cs4"] by (simp add: la loaded_constants currentChunk_def)
  qed
qed

text \<open>A turn at the end of the code reads the opcode outside it.\<close>

lemma stops_at_end:
  assumes "length (fn_code (cx_fn K)) \<le> pc"
  shows "stops L K pc s Undefined"
proof -
  have "turn L t = Inl Undefined" if c: "conf K pc s t" for t
  proof -
    have "\<not> frameStart t" using c by (cases s) (auto simp: conf_def)
    moreover have "readByte t = Inl Undefined" using conf_frame [OF c] conf_fn [OF c] assms by (simp add: readByte_def)
    ultimately show ?thesis by (simp add: turn_def execute_instruction_def)
  qed
  then show ?thesis unfolding stops_def by blast
qed

text \<open>Stack slots of a body, and of the \<open>nil\<close> of an implicit return.\<close>

definition body_need :: "stmt list \<Rightarrow> nat" where
  "body_need ss = max 1 (block_need (map (\<lambda>s. (stmt_need s, length (decls s))) ss))"

lemma function_runs:
  assumes f: "visit_Function dbg p prc params (visit_suite dbg al q ss) cs = Inr cs'" and t: "at_top cs" and ok: "\<forall>s \<in> set ss. core_stmt s"
    and cb: "compile_body dbg p prc params (visit_suite dbg al q ss) cs = Inr csb"
    and K: "fn_code (cx_fn K) = code (fchunk (last (compiled cs')))" "holds_constants K (constants (fchunk (last (compiled cs'))))"
    and st: "map fst (s_vars st) = [] # map snd params" and sp: "space K ([] # map snd params) [] (body_need ss)"
  shows "case exec_suite n ss st of
      None \<Rightarrow> True
    | Some (Inl (Stopped e)) \<Rightarrow> stops L K 0 (config_of st []) e
    | Some (Inl (Raised st1)) \<Rightarrow> raises L K 0 (config_of st []) (s_mod st1) (s_heap st1)
    | Some (Inr (F_Return v, st1)) \<Rightarrow> at_return L K 0 (config_of st []) v st1
    | Some (Inr (F_Normal, st1)) \<Rightarrow>
        if lastByte (currentChunk csb) = asByte OpReturn then stops L K 0 (config_of st []) Undefined
        else at_return L K 0 (config_of st []) (Sc SNil) st1
    | Some (Inr (_, st1)) \<Rightarrow> False"
proof -
  let ?ns = "[] # map snd params"
  have b: "blocky ?ns None (visit_suite dbg al q ss) (block_need (map (\<lambda>s. (stmt_need s, length (decls s))) ss)) (\<lambda>n. exec_suite n ss)"
    by (rule blocky_suite [OF ok])
  obtain "is" where i: "runs_as ?ns [] None 0 is csb (block_need (map (\<lambda>s. (stmt_need s, length (decls s))) ss)) (\<lambda>n. exec_suite n ss)" "holes 0 is = []"
    "code (fchunk (last (compiled cs'))) = (if lastByte (currentChunk csb) = asByte OpReturn then raw is else raw is @ [asByte 2, asByte OpReturn])"
    "\<forall>K. holds_constants K (constants (fchunk (last (compiled cs')))) \<longrightarrow> loaded K csb" by (rule function_emits [OF f t b cb])
  have code: "fn_code (cx_fn K) = (if lastByte (currentChunk csb) = asByte OpReturn then raw is else raw is @ [asByte 2, asByte OpReturn])"
    using K(1) i(3) by simp
  have c: "code_at K 0 (raw is)" unfolding code_at_def code by (auto simp: nth_append)
  have sp': "space K ?ns [] (block_need (map (\<lambda>s. (stmt_need s, length (decls s))) ss))" "space K ?ns [] 1"
    using sp by (auto simp: space_def body_need_def)
  have r: "flows_to L K 0 (config_of st []) (0 + isize is) (?ns @ []) None 0 (exec_suite n ss st)"
    by (rule runs_asD [OF i(1)]) (use c i(2,4) K(2) st sp'(1) in \<open>simp_all add: filled_no_holes\<close>)
  have fin: "if lastByte (currentChunk csb) = asByte OpReturn then stops L K 0 (config_of st []) Undefined
        else at_return L K 0 (config_of st []) (Sc SNil) st1"
    if g: "goes L K 0 (config_of st []) (isize is) (config_of st1 [])" and n: "map fst (s_vars st1) = ?ns" for st1
  proof (cases "lastByte (currentChunk csb) = asByte OpReturn")
    case True
    then have "isize is = length (fn_code (cx_fn K))" by (simp add: code)
    then show ?thesis using goes_stops [OF g [unfolded \<open>isize is = _\<close>] stops_at_end [OF order_refl]] True by simp
  next
    case False
    then have "code_at K (isize is) [asByte 2, asByte OpReturn]" unfolding code_at_def by (auto simp: code nth_append)
    then have "flows_to L K (isize is) (config_of st1 []) 0 [] None 0 (Some (Inr (F_Return (Sc SNil), st1)))"
      by (rule flows_return_nil [OF _ n sp'(2)])
    from flows_to_goes [OF g this] show ?thesis using False by (simp add: flows_to_def)
  qed
  show ?thesis using r fin by (auto simp: flows_to_def split: option.splits sum.splits fault.splits prod.splits flow.splits)
qed

section \<open>Running the compiler on a program\<close>

text \<open>
  The equations of the visitors, to compile a concrete program by rewriting.  The continuations of
  \<open>seq_then\<close> are left alone until their argument is known, and the line table is not computed.
\<close>

lemma seq_weak: "f = f' \<Longrightarrow> seq_then f k = seq_then f' k" by simp
lemma then_do_weak: "f = f' \<Longrightarrow> then_do f g = then_do f' g" by simp
lemma map_sum_weak: "x = x' \<Longrightarrow> map_sum f g x = map_sum f g x'" by simp
lemma case_prod_weak: "p = p' \<Longrightarrow> case_prod f p = case_prod f p'" by simp
lemma Let_weak: "p = p' \<Longrightarrow> Let p f = Let p' f" by simp

lemmas weak_congs = seq_weak then_do_weak map_sum_weak case_prod_weak Let_weak

definition lines_after :: "nat \<Rightarrow> int \<Rightarrow> int \<Rightarrow> line_entry list \<Rightarrow> line_entry list" where
  "lines_after n line column ls =
     (if ls = [] \<or> le_line (last ls) \<noteq> line \<or> le_column (last ls) \<noteq> column
      then ls @ [\<lparr>le_offset = n, le_line = line, le_column = column\<rparr>] else ls)"

lemma chunk_write_lines:
  "chunk_write b line column c = c\<lparr>code := code c @ [b], lineTable := lines_after (length (code c)) line column (lineTable c)\<rparr>"
  by (simp add: chunk_write_def lines_after_def)

lemmas pass_defs =
  then_do_def on_func_def currentChunk_def on_chunk_def try_chunk_def emit_op_def emit_op_byte_def emit_op_arg_def emit_jump_def
  patch_jump_def emit_loop_def emit_constant_def identifier_constant_def enter_local_scope_def exit_local_scope_def at_module_scope_def
  scanBlockDeclarations_def update_last_local_def declared_in_module_def declareVariable_def define_variable_def local_rank_def
  findBinding_def visibleConstBinding_def named_local_def named_module_var_def namedVariable_def num_value_def visit_Num_def visit_Str_def
  visit_Bool_def visit_Nil_def visit_UnaryOp_def binary_opcodes_def short_circuit_def not_nil_def visit_BinaryOp_def source_is_const_def
  target_is_const_def source_name_def visit_Assignment_def module_slot_def visit_VarDecl_def is_assignment_def visit_ExpressionStatement_def
  mark_stmt_start_def visit_Suite_def in_own_scope_def visit_IfStatement_def push_loop_def visit_WhileStatement_def visit_BreakStatement_def
  visit_ContinueStatement_def emit_return_def visit_ReturnStatement_def mark_param_def visit_Parameter_def enter_func_scope_def exit_func_scope_def
  checkUnresolvedJumps_def lastByte_def close_function_def emit_closure_def visit_Function_def visit_FuncDecl_def visit_suite_def
  enter_module_scope_def compile_body_def

lemmas emission_defs =
  new_local_def new_func_scope_def new_chunk_def emitByte_def emitOp_def emitBytes_def emitBytes3_def emitOpArgsBytes_def emitLoop_def emitJump_def
  patchU16At_def patchJump_def emitReturn_def makeConstant_def emitConstant_def identifierConstant_def markStmtStart_def
  recordFunctionEntryStmt_def recordLocalDebug_def flushFuncDebugInfo_def enterLocalScope_def pop_op_def pop_locals.simps exitLocalScope_def
  emitPopsForLoopExit_def addLocal_def declared_here_def constExistsInCurrentScope_def clearPendingDeclaration_def declareLocal_def defineVariable_def
  declaredDepth_def pendingDeclaration_def resolveLocal_def chunk_write_lines addConstant_def asByte_def high_byte_def low_byte_def Let_def

text \<open>The code and the constants of the function compiled last, of a function in an empty module.\<close>

definition function_code :: "(pos \<times> ustring) list \<Rightarrow> stmt list \<Rightarrow> compile_error + byte list \<times> chunk_const list" where
  "function_code params ss =
     map_sum id (\<lambda>cs. (code (fchunk (last (compiled cs))), constants (fchunk (last (compiled cs)))))
       (visit_Function False (1, 0) False params (visit_suite False (\<lambda>_. 0) (2, 4) ss) (enter_module_scope [] [] [] False))"

lemma function_code_compiled:
  assumes "function_code params ss = Inr (bs, ks)"
  obtains cs where "visit_Function False (1, 0) False params (visit_suite False (\<lambda>_. 0) (2, 4) ss) (enter_module_scope [] [] [] False) = Inr cs"
    "code (fchunk (last (compiled cs))) = bs" "constants (fchunk (last (compiled cs))) = ks"
  using assms unfolding function_code_def by (auto simp: map_sum_def split: sum.splits)

lemma module_at_top: "at_top (enter_module_scope pkg mdl src b)"
  by (simp add: at_top_def enter_module_scope_def new_func_scope_def new_local_def)

text \<open>A context that runs a function, object 0 of the heap, with its closure, object 1, in the lowest slot.\<close>

definition sample_fn :: "byte list \<Rightarrow> operand list \<Rightarrow> fn" where
  "sample_fn bs ks =
     \<lparr>fn_code = bs, fn_constants = ks, fn_arity = 1, fn_upvalueCount = 0, fn_strict = True, fn_type = None, fn_paramDefaultFunc = []\<rparr>"

definition sample_run :: "byte list \<Rightarrow> operand list \<Rightarrow> run_context" where
  "sample_run bs ks =
     \<lparr>cx_fn = sample_fn bs ks,
      cx_frame = \<lparr>fr_closure = 1, ip = 0, slots = 0, parent = None, fr_strict = True, callerStrict = True,
                  tailArgValues = [], reorderArgs = [], exceptionHandlers = [], unwindOnReturn = False\<rparr>,
      cx_rest = [], cx_ups = [], cx_lower = [], cx_limit = 16\<rparr>"

definition sample_store :: "byte list \<Rightarrow> operand list \<Rightarrow> (ustring \<times> operand) list \<Rightarrow> store" where
  "sample_store bs ks vs =
     \<lparr>s_vars = ([], Ref 1) # vs, s_mod = \<lparr>mod_vars = \<lparr>vm_vars = [], vm_globals = []\<rparr>, mod_constVars = [], mod_importedVars = [], mod_inDataflowBody = False\<rparr>,
      s_heap = [O_Function (sample_fn bs ks), O_Closure 0 []]\<rparr>"

definition sample_start :: "byte list \<Rightarrow> operand list \<Rightarrow> (ustring \<times> operand) list \<Rightarrow> thread" where
  "sample_start bs ks vs =
     \<lparr>stack = Ref 1 # map snd vs @ replicate (15 - length vs) (Sc SNil), stackTop = 1 + length vs,
      frames = [cx_frame (sample_run bs ks)], openUpvalues = [], heap = s_heap (sample_store bs ks vs),
      frameStart = False, modl = s_mod (sample_store bs ks vs)\<rparr>"

lemma sample_conf:
  assumes "length vs \<le> 15"
  shows "conf (sample_run bs ks) 0 (config_of (sample_store bs ks vs) []) (sample_start bs ks vs)"
  using assms by (simp add: conf_def config_of_def sample_run_def sample_store_def sample_start_def runs_fn_def obj_at_def)

text \<open>Two functions: one counts up to its argument, the other returns in its \<open>else\<close> branch only.\<close>

definition sample_n :: ustring where "sample_n = [110]"
definition sample_x :: ustring where "sample_x = [120]"

definition count_body :: "stmt list" where
  "count_body =
     [S_VarDecl (2, 4) sample_n (Some (E_Num (2, 12) (N_Int32 0))),
      S_While (3, 4) (E_Binary (3, 10) B_LessThan (E_Variable (3, 10) sample_n) (E_Variable (3, 14) sample_x)) (4, 8)
        [S_Expr (4, 8) (E_Assign (4, 8) sample_n (E_Binary (4, 12) B_Add (E_Variable (4, 12) sample_n) (E_Num (4, 16) (N_Int32 1))))],
      S_Return (5, 4) (Some (E_Variable (5, 11) sample_n))]"

definition half_body :: "stmt list" where
  "half_body =
     [S_If (2, 4) (E_Variable (2, 7) sample_x) (3, 8) [S_Expr (3, 8) (E_Variable (3, 8) sample_x)] (Some ((5, 8), [S_Return (5, 8) None]))]"

definition count_bytes :: "byte list" where
  "count_bytes = [1, 1, 67, 2, 67, 1, 12, 33, 0, 12, 27, 67, 2, 1, 2, 15, 68, 2, 27, 36, 0, 20, 27, 67, 2, 44, 27, 2, 44]"

definition half_bytes :: "byte list" where
  "half_bytes = [67, 1, 33, 0, 7, 27, 67, 1, 29, 35, 0, 3, 27, 2, 44]"

lemma count_code:
  "function_code [((1, 7), sample_x)] count_body
     = Inr (count_bytes, [Const_Value (rvalue.Str sample_x), Const_Value (Imm (intVal (\<lambda>_. 0) 0)), Const_Value (Imm (intVal (\<lambda>_. 0) 1))])"
  by (simp add: function_code_def count_body_def count_bytes_def sample_n_def sample_x_def pass_defs emission_defs cong: weak_congs)

lemma half_code: "function_code [((1, 7), sample_x)] half_body = Inr (half_bytes, [Const_Value (rvalue.Str sample_x)])"
  by (simp add: function_code_def half_body_def half_bytes_def sample_n_def sample_x_def pass_defs emission_defs cong: weak_congs)

lemma int_values:
  "binary_value B_LessThan (Sc (SInt a)) (Sc (SInt b)) = Inr (Sc (SBool (sint a < sint b)))"
  "fits64 (sint a + sint b) \<Longrightarrow> binary_value B_Add (Sc (SInt a)) (Sc (SInt b)) = Inr (Sc (SInt (a + b)))"
  by (simp_all add: binary_value_def binary_fun_def is_ref_def outcome_value_def less_def compare_op_def by_result_type_def
      isNumber_def asInt_def binaryOpType_def compare_out_def on_scalars_def add_def checked_def map_out_def)

lemma count_runs:
  "exec_suite 3 count_body (sample_store bs ks [(sample_x, Sc (SInt 2))]) = Some (Inr (F_Return (Sc (SInt 2)), sample_store bs ks [(sample_x, Sc (SInt 2))]))"
  by (simp add: numeral_3_eq_3 exec_suite_def exec_block_def count_body_def leave_block_def with_value_def var_get_def var_set_def sample_store_def
      sample_x_def sample_n_def eval_binary_def divides_by_zero_def falsey_def num_operand_def int_values fits64_def isFalsey_def asBool_def)

lemma half_runs:
  "\<not> falsey v \<Longrightarrow> exec_suite 0 half_body (sample_store bs ks [(sample_x, v)]) = Some (Inr (F_Normal, sample_store bs ks [(sample_x, v)]))"
  by (simp add: exec_suite_def exec_block_def half_body_def leave_block_def with_value_def var_get_def sample_store_def sample_x_def)

lemma sample_constants:
  "holds_constants (sample_run bs [operand.Str sample_x, Sc (SInt 0), Sc (SInt 1)])
     [Const_Value (rvalue.Str sample_x), Const_Value (Imm (intVal (\<lambda>_. 0) 0)), Const_Value (Imm (intVal (\<lambda>_. 0) 1))]"
  "holds_constants (sample_run bs [operand.Str sample_x]) [Const_Value (rvalue.Str sample_x)]"
proof -
  have "scalar_of_word (intVal (\<lambda>_. 0) 0) = SInt 0" "scalar_of_word (intVal (\<lambda>_. 0) 1) = SInt 1"
    by (simp_all add: scalar_of_int fitsInInt32_def)
  then show "holds_constants (sample_run bs [operand.Str sample_x, Sc (SInt 0), Sc (SInt 1)])
     [Const_Value (rvalue.Str sample_x), Const_Value (Imm (intVal (\<lambda>_. 0) 0)), Const_Value (Imm (intVal (\<lambda>_. 0) 1))]"
    by (auto simp: holds_constants_def constant_is_def sample_run_def sample_fn_def less_Suc_eq numeral_3_eq_3)
  show "holds_constants (sample_run bs [operand.Str sample_x]) [Const_Value (rvalue.Str sample_x)]"
    by (simp add: holds_constants_def constant_is_def sample_run_def sample_fn_def)
qed

lemma sample_core: "\<forall>s \<in> set count_body. core_stmt s" "\<forall>s \<in> set half_body. core_stmt s"
  by (simp_all add: count_body_def half_body_def not_nil_def num_ok_def)

lemma sample_need: "body_need count_body \<le> 8" "body_need half_body \<le> 8"
  by (simp_all add: body_need_def count_body_def half_body_def decls_def)

text \<open>A loop whose body declares a function that leaves the loop.\<close>

definition break_program :: "stmt list" where
  "break_program =
     [S_While (1, 0) (E_Bool (1, 6) True) (2, 4) [S_FuncDecl (2, 4) sample_n (2, 4) False [] (3, 8) [S_Break (3, 8)]]]"

definition program_codes :: "stmt list \<Rightarrow> compile_error + byte list list \<times> byte list" where
  "program_codes ss =
     map_sum id (\<lambda>cs. (map (\<lambda>fs. code (fchunk fs)) (compiled cs), code (currentChunk cs)))
       (compile_file False (\<lambda>_. 0) [] [] [] (1, 0) ss)"

section \<open>Properties\<close>

text \<open>
  C1. A compiled function does what its body means.  Let a function without type annotations, at the top
  of a module, compile, its body using the constructs of \<open>core_stmt\<close>.  Run its code on any thread whose
  frame holds the closure and the arguments and whose stack has room for \<open>body_need\<close> more values.  If the
  evaluator of \<open>Source_Semantics\<close> returns a value, the machine comes to a RETURN with that value on top
  and the same module and heap; if the evaluator meets an error, so does the machine; if it divides by
  zero, the machine hands the exception to the unwinder with the same module and heap.  If the body ends
  without \<open>return\<close>, the machine returns nil, except where the last byte of the body's code is that of a
  RETURN: then no return was added, and the machine reads beyond the code.  The witness runs a
  counting loop of 29 bytes from its first instruction to its result.
\<close>

theorem compiled_function_correct:
  assumes "visit_Function dbg p prc params (visit_suite dbg al q ss) cs = Inr cs'" "at_top cs" "\<forall>s \<in> set ss. core_stmt s"
    and "fn_code (cx_fn K) = code (fchunk (last (compiled cs')))" "holds_constants K (constants (fchunk (last (compiled cs'))))"
    and "map fst (s_vars st) = [] # map snd params" "space K ([] # map snd params) [] (body_need ss)"
  shows "\<exists>csb. compile_body dbg p prc params (visit_suite dbg al q ss) cs = Inr csb
     \<and> (case exec_suite n ss st of
          None \<Rightarrow> True
        | Some (Inl (Stopped e)) \<Rightarrow> stops L K 0 (config_of st []) e
        | Some (Inl (Raised st1)) \<Rightarrow> raises L K 0 (config_of st []) (s_mod st1) (s_heap st1)
        | Some (Inr (F_Return v, st1)) \<Rightarrow> at_return L K 0 (config_of st []) v st1
        | Some (Inr (F_Normal, st1)) \<Rightarrow>
            if lastByte (currentChunk csb) = asByte OpReturn then stops L K 0 (config_of st []) Undefined
            else at_return L K 0 (config_of st []) (Sc SNil) st1
        | Some (Inr (_, st1)) \<Rightarrow> False)"
proof -
  obtain csb where b: "compile_body dbg p prc params (visit_suite dbg al q ss) cs = Inr csb" by (rule visit_Function_body [OF assms(1)])
  show ?thesis by (intro exI conjI) (rule b, rule function_runs [OF assms(1-3) b assms(4-7)])
qed

theorem compiled_function_correct_witness:
  "\<exists>cs' (K :: run_context) t t' vals.
     visit_Function False (1, 0) False [((1, 7), sample_x)] (visit_suite False (\<lambda>_. 0) (2, 4) count_body) (enter_module_scope [] [] [] False) = Inr cs'
     \<and> fn_code (cx_fn K) = code (fchunk (last (compiled cs'))) \<and> length (fn_code (cx_fn K)) = 29
     \<and> stack t = [Ref 1, Sc (SInt 2)] @ replicate 14 (Sc SNil) \<and> (step 8)\<^sup>*\<^sup>* t t'
     \<and> take (stackTop t') (stack t') = vals @ [Sc (SInt 2)] \<and> fn_code (cx_fn K) ! ip (hd (frames t')) = asByte OpReturn"
proof -
  let ?ks = "[operand.Str sample_x, Sc (SInt 0), Sc (SInt 1)]"
  let ?K = "sample_run count_bytes ?ks" and ?vs = "[(sample_x, Sc (SInt 2))]"
  let ?st = "sample_store count_bytes ?ks ?vs"
  obtain cs' where c: "visit_Function False (1, 0) False [((1, 7), sample_x)] (visit_suite False (\<lambda>_. 0) (2, 4) count_body) (enter_module_scope [] [] [] False) = Inr cs'"
    "code (fchunk (last (compiled cs'))) = count_bytes"
    "constants (fchunk (last (compiled cs'))) = [Const_Value (rvalue.Str sample_x), Const_Value (Imm (intVal (\<lambda>_. 0) 0)), Const_Value (Imm (intVal (\<lambda>_. 0) 1))]"
    by (rule function_code_compiled [OF count_code])
  have K: "fn_code (cx_fn ?K) = code (fchunk (last (compiled cs')))" by (simp add: c(2) sample_run_def sample_fn_def)
  have sp: "space ?K ([] # map snd [((1 :: int, 7 :: int), sample_x)]) [] (body_need count_body)"
    using sample_need(1) by (simp add: space_def sample_run_def)
  have st: "map fst (s_vars ?st) = [[], sample_x]" by (simp add: sample_store_def)
  have "at_return 8 ?K 0 (config_of ?st []) (Sc (SInt 2)) ?st"
    using compiled_function_correct [OF c(1) module_at_top sample_core(1) K _ _ sp, where st = ?st and n = 3 and L = 8]
    by (simp add: c(3) sample_constants(1) count_runs st)
  then obtain q vals where g: "goes 8 ?K 0 (config_of ?st []) q (vals @ [Sc (SInt 2)], s_mod ?st, s_heap ?st)" "code_at ?K q [asByte OpReturn]"
    unfolding at_return_def by blast
  obtain t' where t: "(step 8)\<^sup>*\<^sup>* (sample_start count_bytes ?ks ?vs) t'" "conf ?K q (vals @ [Sc (SInt 2)], s_mod ?st, s_heap ?st) t'"
    using g(1) sample_conf [of ?vs count_bytes ?ks] unfolding goes_def by force
  have "cx_lower ?K = []" by (simp add: sample_run_def)
  then have e: "take (stackTop t') (stack t') = vals @ [Sc (SInt 2)]" "fn_code (cx_fn ?K) ! ip (hd (frames t')) = asByte OpReturn"
    using t(2) g(2) by (simp_all add: conf_def code_at_def)
  have "length (fn_code (cx_fn ?K)) = 29" "stack (sample_start count_bytes ?ks ?vs) = [Ref 1, Sc (SInt 2)] @ replicate 14 (Sc SNil)"
    by (simp_all add: sample_run_def sample_fn_def sample_start_def count_bytes_def)
  then show ?thesis
    by (intro exI [of _ cs'] exI [of _ ?K] exI [of _ "sample_start count_bytes ?ks ?vs"] exI [of _ t'] exI [of _ vals] conjI c(1) K t(1) e)
qed

text \<open>
  C11. The end of a function is taken to be reached only through its last instruction: a function whose body
  is an \<open>if\<close> with a \<open>return\<close> in the \<open>else\<close> branch only gets no final return, so for every argument that is
  not false its code runs past its end.
\<close>

theorem missing_return_leaves_code:
  assumes "\<not> falsey v"
  shows "function_code [((1, 7), sample_x)] half_body = Inr (half_bytes, [Const_Value (rvalue.Str sample_x)])
     \<and> conf (sample_run half_bytes [operand.Str sample_x]) 0 (config_of (sample_store half_bytes [operand.Str sample_x] [(sample_x, v)]) [])
         (sample_start half_bytes [operand.Str sample_x] [(sample_x, v)])
     \<and> exec_suite 0 half_body (sample_store half_bytes [operand.Str sample_x] [(sample_x, v)])
         = Some (Inr (F_Normal, sample_store half_bytes [operand.Str sample_x] [(sample_x, v)]))
     \<and> (\<exists>t. (step L)\<^sup>*\<^sup>* (sample_start half_bytes [operand.Str sample_x] [(sample_x, v)]) t \<and> turn L t = Inl Undefined)"
proof -
  let ?K = "sample_run half_bytes [operand.Str sample_x]"
  let ?st = "sample_store half_bytes [operand.Str sample_x] [(sample_x, v)]"
  obtain cs' where c: "visit_Function False (1, 0) False [((1, 7), sample_x)] (visit_suite False (\<lambda>_. 0) (2, 4) half_body) (enter_module_scope [] [] [] False) = Inr cs'"
    "code (fchunk (last (compiled cs'))) = half_bytes" "constants (fchunk (last (compiled cs'))) = [Const_Value (rvalue.Str sample_x)]"
    by (rule function_code_compiled [OF half_code])
  obtain csb where b: "compile_body False (1, 0) False [((1, 7), sample_x)] (visit_suite False (\<lambda>_. 0) (2, 4) half_body) (enter_module_scope [] [] [] False) = Inr csb"
    by (rule visit_Function_body [OF c(1)])
  have K: "fn_code (cx_fn ?K) = code (fchunk (last (compiled cs')))" by (simp add: c(2) sample_run_def sample_fn_def)
  have "map_sum id (\<lambda>cs. lastByte (currentChunk cs)) (compile_body False (1, 0) False [((1, 7), sample_x)] (visit_suite False (\<lambda>_. 0) (2, 4) half_body) (enter_module_scope [] [] [] False)) = Inr 44"
    by (simp add: half_body_def sample_x_def pass_defs emission_defs cong: weak_congs)
  then have l: "lastByte (currentChunk csb) = asByte OpReturn" by (simp add: b asByte_def)
  have sp: "space ?K ([] # map snd [((1 :: int, 7 :: int), sample_x)]) [] (body_need half_body)"
    using sample_need(2) by (simp add: space_def sample_run_def)
  have st: "map fst (s_vars ?st) = [[], sample_x]" by (simp add: sample_store_def)
  have r: "exec_suite 0 half_body ?st = Some (Inr (F_Normal, ?st))" by (rule half_runs [OF assms])
  have "stops L ?K 0 (config_of ?st []) Undefined"
    using function_runs [OF c(1) module_at_top sample_core(2) b K _ _ sp, where st = ?st and n = 0 and L = L]
    by (simp add: c(3) sample_constants(2) st r l)
  moreover have s: "conf ?K 0 (config_of ?st []) (sample_start half_bytes [operand.Str sample_x] [(sample_x, v)])" by (rule sample_conf) simp
  ultimately show ?thesis using half_code r unfolding stops_def by blast
qed

theorem missing_return_leaves_code_witness:
  "\<exists>t. (step 8)\<^sup>*\<^sup>* (sample_start half_bytes [operand.Str sample_x] [(sample_x, Sc (SBool True))]) t \<and> turn 8 t = Inl Undefined"
proof -
  have "\<not> falsey (Sc (SBool True))" by (simp add: falsey_def isFalsey_def asBool_def)
  from missing_return_leaves_code [OF this, of 8] show ?thesis by blast
qed

text \<open>
  C14. The stack of loops is not saved at a function: a \<open>break\<close> in a function declared inside a loop is
  accepted.  The function keeps the unpatched jump and runs out of its code, and the end of the loop
  patches the code around the function at that offset, where the first two bytes of the JUMP_IF_FALSE of
  the loop's condition are overwritten.
\<close>

theorem break_crosses_functions:
  assumes "fn_code (cx_fn K) = [35, 255, 255, 2, 44]"
  shows "program_codes break_program = Inr ([[35, 255, 255, 2, 44]], [3, 0, 9, 7, 27, 42, 0, 27, 36, 0, 11, 27, 2, 44])
     \<and> stops L K 0 s Undefined"
proof (rule conjI)
  show "program_codes break_program = Inr ([[35, 255, 255, 2, 44]], [3, 0, 9, 7, 27, 42, 0, 27, 36, 0, 11, 27, 2, 44])"
    by (simp add: program_codes_def break_program_def compile_file_def visit_File_def sample_n_def pass_defs emission_defs cong: weak_congs)
  have "u16_bytes 65535 = [255, 255]" by (simp add: u16_bytes_def)
  then have "code_at K 0 (asByte 35 # u16_bytes 65535)"
    using assms by (auto simp: code_at_def less_Suc_eq asByte_def)
  then have "goes L K 0 s (0 + 3 + 65535) s" by (rule goes_Jump) simp
  moreover have "stops L K (0 + 3 + 65535) s Undefined" by (rule stops_at_end) (simp add: assms)
  ultimately show "stops L K 0 s Undefined" by (rule goes_stops)
qed

theorem break_crosses_functions_witness:
  "\<exists>t. (step 8)\<^sup>*\<^sup>* (sample_start [35, 255, 255, 2, 44] [] []) t \<and> turn 8 t = Inl Undefined"
proof -
  let ?bs = "[35, 255, 255, 2, 44] :: byte list"
  have "fn_code (cx_fn (sample_run ?bs [])) = ?bs" by (simp add: sample_run_def sample_fn_def)
  from break_crosses_functions [OF this, of 8] show ?thesis
    using sample_conf [of "[]" ?bs "[]"] unfolding stops_def by auto
qed

text \<open>
  C7. Compiling a block of statements of \<open>core_stmt\<close> leaves the compiler as it was but for the code and the
  constants it appends: the locals, the scope depth, the bindings of constants, the enclosing functions,
  the compiled functions and the loops, which only gain \<open>break\<close> jumps to patch.
\<close>

theorem block_keeps_scopes:
  assumes "visit_suite dbg al q ss cs = Inr cs'" "ready names lp cs" "\<forall>s \<in> set ss. core_stmt s"
  shows "locals (func cs') = locals (func cs) \<and> scopeDepth (func cs') = scopeDepth (func cs)
     \<and> constBindings (func cs') = constBindings (func cs) \<and> enclosing cs' = enclosing cs \<and> compiled cs' = compiled cs
     \<and> map bodyScopeDepth (loopStack cs') = map bodyScopeDepth (loopStack cs)
     \<and> map whileLoopStart (loopStack cs') = map whileLoopStart (loopStack cs)
     \<and> take (code_len cs) (code (currentChunk cs')) = code (currentChunk cs)"
proof -
  obtain "is" where "grows cs is [] cs'"
    using blocky_suite [OF assms(3)] ready_enterable [OF assms(2)] assms(1) unfolding blocky_def by blast
  then show ?thesis
    by (auto simp: grows_def same_frame_def add_breaks_def code_len_def split: list.split)
qed

theorem block_keeps_scopes_witness:
  "\<exists>cs cs'. visit_suite False (\<lambda>_. 0) (2, 4) count_body cs = Inr cs' \<and> length (locals (func cs)) = 2 \<and> locals (func cs') = locals (func cs)"
proof -
  obtain c where "visit_Function False (1, 0) False [((1, 7), sample_x)] (visit_suite False (\<lambda>_. 0) (2, 4) count_body) (enter_module_scope [] [] [] False) = Inr c"
    by (rule function_code_compiled [OF count_code])
  then obtain cs cs' where c: "run_all (map (\<lambda>(q, name). visit_Parameter q name) [((1, 7), sample_x)])
      (enter_local_scope (enter_func_scope False (1, 0) False 1 (enter_module_scope [] [] [] False))) = Inr cs"
    "visit_suite False (\<lambda>_. 0) (2, 4) count_body cs = Inr cs'"
    by (auto simp: visit_Function_def then_do_def seq_then_eq_Inr split: if_splits)
  have r: "ready [[], sample_x] None cs" using params_ready [OF enter_function_ready(1) [OF module_at_top] c(1)] by simp
  then have "map l_name (locals (func cs)) = [[], sample_x]" by (simp add: ready_def)
  then have "length (locals (func cs)) = 2" using length_map [of l_name "locals (func cs)"] by simp
  then show ?thesis using block_keeps_scopes [OF c(2) r sample_core(1)] c(2) by blast
qed

end
