(* ===== verification/Signal_History.thy ===== *)
theory Signal_History
  imports Scalar_Ops
begin

text \<open>
  One signal of the dataflow network (\<open>dataflow/Signal.{h,cpp}\<close>): its rate and the bounded history of
  timestamped samples it keeps.  Times are microseconds, \<open>int64\<close> in \<open>TimePoint\<close> and \<open>TimeDuration\<close> and
  unbounded here: sums and multiples of times beyond \<open>2 ^ 63\<close> microseconds, some 292000 years, would
  overflow in the code and do not in the model.  \<open>std::map<TimePoint, Value>\<close> is a list of
  samples in ascending order of time; a sample is the value of an operand, so the snapshot taken when
  a value is stored is the value itself.  Weak pointers that have expired are \<open>None\<close>.
\<close>

type_synonym time = int
type_synonym samples = "(time \<times> operand) list"

datatype df_error =
    Not_Whole_Microseconds | Not_Positive | Undefined_Conversion | Empty_History
  | Index_Positive | Event_Index | Not_Available | Chain_Too_Deep | Null_Signal
  | Cyclic_Dependency | Not_Terminating | Wrong_Arity
  | Wired_To_Itself | Frequency_Mismatch | Already_Driven | Delay_Of_Itself | Zero_Delay_Cycle

section \<open>The ordered map of samples\<close>

fun map_put :: "time \<Rightarrow> operand \<Rightarrow> samples \<Rightarrow> samples" where
  "map_put t v [] = [(t, v)]"
| "map_put t v ((u, w) # h) =
     (if t < u then (t, v) # (u, w) # h else if t = u then (t, v) # h else (u, w) # map_put t v h)"

text \<open>The entry before \<open>upper_bound(t)\<close>, and the one before \<open>lower_bound(t)\<close>.\<close>

definition last_upto :: "samples \<Rightarrow> time \<Rightarrow> operand option" where
  "last_upto h t = (case filter (\<lambda>e. fst e \<le> t) h of [] \<Rightarrow> None | xs \<Rightarrow> Some (snd (last xs)))"

definition lastValueBefore :: "samples \<Rightarrow> time \<Rightarrow> operand option" where
  "lastValueBefore h t =
     (case filter (\<lambda>e. fst e < t) h of
        [] \<Rightarrow> (case h of [] \<Rightarrow> None | e # _ \<Rightarrow> Some (snd e))
      | xs \<Rightarrow> Some (snd (last xs)))"

definition valueAt :: "samples \<Rightarrow> time \<Rightarrow> operand option" where
  "valueAt h t = (case map_of h t of Some v \<Rightarrow> Some v | None \<Rightarrow> last_upto h t)"

definition lastValue :: "samples \<Rightarrow> df_error + operand" where
  "lastValue h = (if h = [] then Inl Empty_History else Inr (snd (last h)))"

definition latestSampleTime :: "samples \<Rightarrow> time" where
  "latestSampleTime h = (if h = [] then 0 else fst (last h))"

section \<open>The rate of a signal\<close>

text \<open>\<open>std::round\<close> and \<open>std::fabs\<close>.\<close>

definition dround :: "double \<Rightarrow> double" where
  "dround x =
     (if d_nan x \<or> d_inf x then x
      else (let m = nat \<bar>dscaled x\<bar> in with_sign (d_neg x) (d_bits (double_of_int (int ((m + unit div 2) div unit))))))"

definition dfabs :: "double \<Rightarrow> double" where
  "dfabs x = with_sign False (d_bits x)"

definition d_one :: double where "d_one = double_of_int 1"
definition d_million :: double where "d_million = double_of_int 1000000"
definition d_tolerance :: double where "d_tolerance = ddiv d_one (double_of_int 1000000000)"

definition i64_of_double :: "double \<Rightarrow> int option" where
  "i64_of_double x = double_to_int (- (2 ^ 63)) (2 ^ 63 - 1) x"

definition period_of_frequency :: "double \<Rightarrow> df_error + time" where
  "period_of_frequency f =
     (let us = ddiv d_million f; r = dround us in
      if dlt us d_one \<or> dlt d_tolerance (dfabs (dsub us r)) then Inl Not_Whole_Microseconds
      else (case i64_of_double r of None \<Rightarrow> Inl Undefined_Conversion | Some p \<Rightarrow> Inr p))"

record signal =
  frequency :: double
  period :: time
  eventDriven :: bool
  isSource :: bool
  isClock :: bool
  running :: bool
  tickPending :: bool
  clockCount :: u64
  history :: samples
  maxHistory :: nat
  isDerived :: bool
  baseSignal :: "nat option"
  baseIndex :: int
  dependents :: "nat list"
  background :: bool
  inBackground :: bool
  suppressInitial :: bool

definition plain_signal :: "double \<Rightarrow> time \<Rightarrow> bool \<Rightarrow> operand \<Rightarrow> signal" where
  "plain_signal f p ev v =
     \<lparr>frequency = f, period = p, eventDriven = ev, isSource = False, isClock = False, running = False,
      tickPending = False, clockCount = 0, history = [(0, v)], maxHistory = 2, isDerived = False,
      baseSignal = None, baseIndex = 0, dependents = [], background = False, inBackground = False,
      suppressInitial = False\<rparr>"

definition new_signal :: "double \<Rightarrow> operand \<Rightarrow> df_error + signal" where
  "new_signal f v =
     (if dle f 0 then Inr (plain_signal 0 0 True v)
      else seq_then (period_of_frequency f) (\<lambda>p. Inr (plain_signal f p False v)))"

definition newClockSignal :: "double \<Rightarrow> df_error + signal" where
  "newClockSignal f =
     seq_then (new_signal f (Sc (SInt 0))) (\<lambda>s. Inr (s\<lparr>isClock := True, isSource := True, clockCount := 0\<rparr>))"

definition newSignal :: "double \<Rightarrow> operand \<Rightarrow> df_error + signal" where
  "newSignal f v = seq_then (new_signal f v) (\<lambda>s. Inr (s\<lparr>isClock := False, isSource := False\<rparr>))"

definition newSourceSignal :: "double \<Rightarrow> operand \<Rightarrow> bool \<Rightarrow> df_error + signal" where
  "newSourceSignal f v bg =
     seq_then (new_signal f v) (\<lambda>s. Inr (s\<lparr>isClock := False, isSource := True, background := bg\<rparr>))"

definition setFrequency :: "double \<Rightarrow> signal \<Rightarrow> df_error + signal" where
  "setFrequency f s =
     (if dle f 0 then Inl Not_Positive
      else seq_then (period_of_frequency f) (\<lambda>p. Inr (s\<lparr>eventDriven := False, frequency := f, period := p\<rparr>)))"

section \<open>Reading and writing samples\<close>

definition valueIfAvailableAt :: "signal \<Rightarrow> time \<Rightarrow> operand option" where
  "valueIfAvailableAt s t =
     (let h = history s in
      case map_of h t of
        Some v \<Rightarrow> Some v
      | None \<Rightarrow>
          if isSource s \<and> \<not> isClock s \<and> h \<noteq> [] \<and> t \<ge> fst (hd h) then last_upto h t else None)"

definition valueAtIndex :: "signal \<Rightarrow> int \<Rightarrow> time option \<Rightarrow> df_error + operand" where
  "valueAtIndex s i ref =
     (if i > 0 then Inl Index_Positive
      else if history s = [] then Inl Empty_History
      else if eventDriven s then (if i = 0 then lastValue (history s) else Inl Event_Index)
      else
        (let r = (case ref of Some u \<Rightarrow> u | None \<Rightarrow> fst (last (history s))); t = r - period s * - i in
         if t < fst (hd (history s)) then Inr (snd (hd (history s)))
         else (case valueAt (history s) t of Some v \<Rightarrow> Inr v | None \<Rightarrow> Inl Not_Available)))"

text \<open>
  The part of \<open>setValueAt\<close> under the lock: whether the value changed is judged against the last sample
  before \<open>t\<close>, a sample newer than all others displaces the oldest once the history is full.
\<close>

definition store_sample :: "time \<Rightarrow> operand \<Rightarrow> signal \<Rightarrow> df_error + (bool \<times> signal)" where
  "store_sample t v s =
     (case lastValueBefore (history s) t of
        None \<Rightarrow> Inl Empty_History
      | Some p \<Rightarrow>
          (let changed = \<not> equals p v;
               h = (if t > fst (last (history s)) \<and> length (history s) \<ge> maxHistory s
                    then tl (history s) else history s)
           in Inr (changed \<and> \<not> suppressInitial s,
                   s\<lparr>history := map_put t v h, suppressInitial := suppressInitial s \<and> \<not> changed\<rparr>)))"

definition clock_tick_value :: "signal \<Rightarrow> df_error + (operand \<times> signal)" where
  "clock_tick_value s =
     (if running s \<or> tickPending s then
        Inr (Sc (SInt (scast (ucast (clockCount s + 1) :: 32 word))),
             s\<lparr>clockCount := clockCount s + 1, tickPending := False\<rparr>)
      else seq_then (lastValue (history s)) (\<lambda>v. Inr (v, s)))"

definition indexedSignal :: "nat \<Rightarrow> int \<Rightarrow> signal \<Rightarrow> df_error + (signal \<times> signal) option" where
  "indexedSignal a i s =
     (if i > 0 then Inl Index_Positive
      else if i = 0 then Inr None
      else if eventDriven s then Inl Event_Index
      else
        (let v = (case valueAtIndex s i (Some (latestSampleTime (history s))) of Inr w \<Rightarrow> w | Inl _ \<Rightarrow> Sc SNil);
             depth = max (maxHistory s) (nat (- i + 1)) in
         seq_then (new_signal (frequency s) v) (\<lambda>d.
           Inr (Some (d\<lparr>isDerived := True, baseSignal := Some a, baseIndex := i, eventDriven := False,
                        maxHistory := depth\<rparr>,
                      s\<lparr>maxHistory := depth\<rparr>)))))"

section \<open>The history as a map\<close>

abbreviation ascending :: "samples \<Rightarrow> bool" where
  "ascending h \<equiv> sorted_wrt (<) (map fst h)"

lemma map_put_keys [simp]: "fst ` set (map_put t v h) = insert t (fst ` set h)"
  by (induction t v h rule: map_put.induct) auto

lemma map_put_not_Nil [simp]: "map_put t v h \<noteq> []"
  by (induction t v h rule: map_put.induct) auto

lemma map_put_ascending: "ascending h \<Longrightarrow> ascending (map_put t v h)"
proof (induction t v h rule: map_put.induct)
  case (2 t v u w h)
  have "\<forall>x \<in> fst ` set (map_put t v h). u < x" if "u < t"
    using 2(2) that by (simp add: image_iff)
  then show ?case using 2 by (auto simp: image_iff)
qed simp

lemma map_of_map_put: "ascending h \<Longrightarrow> map_of (map_put t v h) = (map_of h)(t \<mapsto> v)"
  by (induction t v h rule: map_put.induct) (auto simp: fun_eq_iff)

lemma map_put_last: "\<forall>e \<in> set h. fst e < t \<Longrightarrow> map_put t v h = h @ [(t, v)]"
  by (induction t v h rule: map_put.induct) auto

lemma map_put_length:
  "ascending h \<Longrightarrow> length (map_put t v h) = (if t \<in> fst ` set h then length h else Suc (length h))"
  by (induction t v h rule: map_put.induct) (auto simp: image_iff)

lemma ascending_last: "ascending h \<Longrightarrow> e \<in> set h \<Longrightarrow> fst e \<le> fst (last h)"
proof (induction h)
  case (Cons a h)
  then show ?case using last_in_set [of h] by (cases "h = []") (auto simp: image_iff less_imp_le)
qed simp

lemma ascending_tl: "ascending h \<Longrightarrow> ascending (tl h)"
  by (cases h) auto

lemma lastValueBefore_Some: "h \<noteq> [] \<Longrightarrow> \<exists>v. lastValueBefore h t = Some v"
  by (auto simp: lastValueBefore_def split: list.split)

text \<open>The last sample up to a time is the one with the greatest time not after it.\<close>

lemma last_upto_spec:
  assumes "ascending h"
  shows "last_upto h t = Some v \<longleftrightarrow>
    (\<exists>u. (u, v) \<in> set h \<and> u \<le> t \<and> (\<forall>e \<in> set h. fst e \<le> t \<longrightarrow> fst e \<le> u))"
proof -
  obtain xs where xs: "xs = filter (\<lambda>e. fst e \<le> t) h" by simp
  have a: "ascending xs" using assms sorted_wrt_filter [of "\<lambda>a b. fst a < fst b" h] by (simp add: xs sorted_wrt_map)
  have d: "distinct (map fst h)" using assms by (simp add: strict_sorted_iff)
  show ?thesis
  proof (cases "xs = []")
    case True
    then show ?thesis by (auto simp: last_upto_def xs [symmetric]) (auto simp: xs filter_empty_conv)
  next
    case False
    then have l: "last xs \<in> set h" "fst (last xs) \<le> t" using last_in_set [OF False] by (auto simp: xs)
    have m: "fst e \<le> fst (last xs)" if "e \<in> set h" "fst e \<le> t" for e
      using ascending_last [OF a, of e] that by (simp add: xs)
    have "last_upto h t = Some (snd (last xs))" using False by (cases xs) (simp_all add: last_upto_def xs [symmetric])
    moreover have "v = snd (last xs)" if "(u, v) \<in> set h" "u \<le> t" "\<forall>e \<in> set h. fst e \<le> t \<longrightarrow> fst e \<le> u" for u
    proof -
      have "u = fst (last xs)" using m [OF that(1)] that(2,3) l by (metis fst_conv order_antisym)
      then show ?thesis using d l(1) that(1) by (metis eq_key_imp_eq_value prod.collapse)
    qed
    ultimately show ?thesis using l m by (metis option.inject prod.collapse)
  qed
qed

lemma last_upto_mono_last:
  assumes "ascending h" "h \<noteq> []" "fst (last h) \<le> t"
  shows "last_upto h t = Some (snd (last h))"
  unfolding last_upto_spec [OF assms(1)] using assms ascending_last [OF assms(1)] last_in_set [OF assms(2)]
  by (metis prod.collapse)

section \<open>Writing\<close>

text \<open>What every operation keeps: the samples are in order and there is one at least.\<close>

definition wf_signal :: "signal \<Rightarrow> bool" where
  "wf_signal s \<longleftrightarrow> ascending (history s) \<and> history s \<noteq> []"

lemma plain_signal_wf [simp]: "wf_signal (plain_signal f p ev v)"
  by (simp add: wf_signal_def plain_signal_def)

lemma new_signal_wf [inv_intros]: "new_signal f v = Inr s \<Longrightarrow> wf_signal s"
  by (auto simp: new_signal_def seq_then_eq_Inr split: if_splits)

lemma store_sample_Inr:
  assumes "wf_signal s"
  shows "\<exists>b s'. store_sample t v s = Inr (b, s')"
  using lastValueBefore_Some [of "history s" t] assms by (auto simp: wf_signal_def store_sample_def Let_def)

lemma store_sample_wf [inv_intros]:
  assumes "wf_signal s" "store_sample t v s = Inr (b, s')"
  shows "wf_signal s'"
  using assms by (auto simp: wf_signal_def store_sample_def Let_def map_put_ascending ascending_tl split: option.splits)

lemma store_sample_history:
  assumes "store_sample t v s = Inr (b, s')"
  shows "history s' = map_put t v (if t > fst (last (history s)) \<and> length (history s) \<ge> maxHistory s
                                   then tl (history s) else history s)"
    and "signal.truncate s' = signal.truncate (s\<lparr>history := history s', suppressInitial := suppressInitial s'\<rparr>)"
  using assms by (auto simp: store_sample_def Let_def signal.defs split: option.splits)

lemma store_sample_fields:
  assumes "store_sample t v s = Inr (b, s')"
  shows "period s' = period s" "eventDriven s' = eventDriven s" "isSource s' = isSource s" "isClock s' = isClock s"
    "dependents s' = dependents s" "baseIndex s' = baseIndex s" "isDerived s' = isDerived s"
    "baseSignal s' = baseSignal s" "maxHistory s' = maxHistory s" "frequency s' = frequency s"
    "running s' = running s" "tickPending s' = tickPending s" "clockCount s' = clockCount s"
    "background s' = background s" "inBackground s' = inBackground s"
  using assms by (auto simp: store_sample_def Let_def split: option.splits)

lemma in_tl: "x \<in> set (tl h) \<Longrightarrow> x \<in> set h"
  by (cases h) auto

lemma newest_found:
  assumes "wf_signal s" "store_sample t v s = Inr (b, s')"
  shows "map_of (history s') t = Some v"
  unfolding store_sample_history(1) [OF assms(2)] using assms(1)
  by (simp add: map_of_map_put ascending_tl wf_signal_def)

lemma newest_latest:
  assumes "wf_signal s" "store_sample t v s = Inr (b, s')" "fst (last (history s)) \<le> t"
  shows "last (history s') = (t, v)"
proof -
  obtain h where h: "h = (if t > fst (last (history s)) \<and> length (history s) \<ge> maxHistory s
                          then tl (history s) else history s)" by simp
  have a: "ascending h" using assms(1) by (simp add: h wf_signal_def ascending_tl)
  have e: "fst e \<le> t" if "e \<in> set h" for e
    using that assms(3) ascending_last [of "history s" e] in_tl [of e "history s"] assms(1)
    by (fastforce simp: h wf_signal_def split: if_splits)
  have s': "history s' = map_put t v h" unfolding h by (rule store_sample_history(1) [OF assms(2)])
  have a': "ascending (history s')" unfolding s' by (rule map_put_ascending [OF a])
  have "(t, v) \<in> set (history s')" using newest_found [OF assms(1,2)] by (rule map_of_SomeD)
  then have "t \<le> fst (last (history s'))" using ascending_last [OF a'] by fastforce
  moreover have l: "last (history s') \<in> set (history s')" by (simp add: s')
  then have "fst (last (history s')) \<in> fst ` set (history s')" by (rule imageI)
  then have "fst (last (history s')) \<in> insert t (fst ` set h)" unfolding s' map_put_keys .
  then have "fst (last (history s')) \<le> t" using e by auto
  ultimately have "fst (last (history s')) = t" by simp
  then have "map_of (history s') t = Some (snd (last (history s')))"
    using l a' by (metis map_of_eq_Some_iff prod.collapse strict_sorted_iff)
  then show ?thesis using newest_found [OF assms(1,2)] \<open>fst (last (history s')) = t\<close> by (metis option.inject prod.collapse)
qed

text \<open>A write past the newest sample never grows a full history.\<close>

lemma history_bounded:
  assumes "wf_signal s" "store_sample t v s = Inr (b, s')" "fst (last (history s)) \<le> t" "maxHistory s > 0"
  shows "length (history s') \<le> max (length (history s)) (maxHistory s)"
proof -
  have a: "ascending (history s)" and n: "history s \<noteq> []" using assms(1) by (simp_all add: wf_signal_def)
  show ?thesis
  proof (cases "t = fst (last (history s))")
    case True
    then have "t \<in> fst ` set (history s)" using last_in_set [OF n] by auto
    then show ?thesis using True by (simp add: store_sample_history(1) [OF assms(2)] map_put_length a)
  next
    case False
    then have t: "t > fst (last (history s))" using assms(3) by simp
    have "length (map_put t v h) \<le> Suc (length h)" if "ascending h" for h using that by (simp add: map_put_length)
    from this [OF a] this [OF ascending_tl [OF a]] show ?thesis using t n assms(4)
      by (cases "length (history s) \<ge> maxHistory s") (auto simp: store_sample_history(1) [OF assms(2)])
  qed
qed

section \<open>A delay line\<close>

text \<open>The writes of a producer on the signal's own grid.\<close>

fun write_series :: "time \<Rightarrow> operand list \<Rightarrow> signal \<Rightarrow> df_error + signal" where
  "write_series t [] s = Inr s"
| "write_series t (v # vs) s = seq_then (store_sample t v s) (\<lambda>(b, s'). write_series (t + period s) vs s')"

definition grid :: "time \<Rightarrow> time \<Rightarrow> operand list \<Rightarrow> samples" where
  "grid t p vs = map (\<lambda>i. (t + int i * p, vs ! i)) [0..<length vs]"

lemma grid_Nil [simp]: "grid t p [] = []"
  by (simp add: grid_def)

lemma length_grid [simp]: "length (grid t p vs) = length vs"
  by (simp add: grid_def)

lemma nth_grid [simp]: "i < length vs \<Longrightarrow> grid t p vs ! i = (t + int i * p, vs ! i)"
  by (simp add: grid_def)

lemma grid_snoc: "grid t p (vs @ [v]) = grid t p vs @ [(t + int (length vs) * p, v)]"
  by (rule nth_equalityI) (auto simp: nth_append less_Suc_eq)

lemma grid_tl: "vs \<noteq> [] \<Longrightarrow> tl (grid t p vs) = grid (t + p) p (tl vs)"
  by (rule nth_equalityI) (auto simp: nth_tl algebra_simps)

lemma grid_ascending: "p > 0 \<Longrightarrow> ascending (grid t p vs)"
  by (auto simp: sorted_wrt_iff_nth_less)

text \<open>The history after regular writes: the newest \<open>maxHistory\<close> of all samples.\<close>

definition newest :: "nat \<Rightarrow> 'a list \<Rightarrow> 'a list" where
  "newest m xs = drop (length xs - m) xs"

lemma newest_snoc:
  "m > 0 \<Longrightarrow> newest m (xs @ [x]) = (if length (newest m xs) \<ge> m then tl (newest m xs) else newest m xs) @ [x]"
  by (auto simp: newest_def drop_Suc tl_drop Suc_diff_le not_le)

lemma write_series_history:
  assumes "p > 0" "period s = p" "maxHistory s = m" "m > 0"
    and "history s = newest m (grid t0 p ws)" "ws \<noteq> []"
  shows "\<exists>s'. write_series (t0 + int (length ws) * p) vs s = Inr s'
    \<and> history s' = newest m (grid t0 p (ws @ vs)) \<and> period s' = p \<and> maxHistory s' = m
    \<and> eventDriven s' = eventDriven s"
  using assms
proof (induction vs arbitrary: s ws)
  case (Cons v vs)
  obtain h where h: "h = history s" by simp
  have len: "length h > 0" "length h \<le> length ws" using Cons.prems by (auto simp: h newest_def min_def)
  have wf: "wf_signal s"
    using len grid_ascending [OF Cons.prems(1), of t0 ws] Cons.prems(5) unfolding wf_signal_def
    by (simp add: h newest_def drop_map [symmetric] sorted_wrt_drop)
  obtain b s1 where s1: "store_sample (t0 + int (length ws) * p) v s = Inr (b, s1)"
    using store_sample_Inr [OF wf] by blast
  have nth: "h ! i = grid t0 p ws ! (length ws - length h + i)" if "i < length h" for i
    using that Cons.prems(5) by (simp add: h newest_def)
  have lt: "fst e < t0 + int (length ws) * p" if eh: "e \<in> set h" for e
  proof -
    obtain i where i: "i < length h" "e = h ! i" using eh by (auto simp: in_set_conv_nth)
    have "length ws - length h + i < length ws" using i(1) len(2) by simp
    then have "e = (t0 + int (length ws - length h + i) * p, ws ! (length ws - length h + i))"
      unfolding i(2) nth [OF i(1)] by (rule nth_grid)
    then show ?thesis
      using mult_strict_right_mono [OF _ Cons.prems(1), of "int (length ws - length h + i)" "int (length ws)"]
        \<open>length ws - length h + i < length ws\<close> by simp
  qed
  have "last h \<in> set h" using len(1) by simp
  then have "fst (last h) < t0 + int (length ws) * p" by (rule lt)
  then have "history s1 = map_put (t0 + int (length ws) * p) v (if length h \<ge> m then tl h else h)"
    using store_sample_history(1) [OF s1] Cons.prems(3) by (simp add: h)
  also have "\<dots> = (if length h \<ge> m then tl h else h) @ [(t0 + int (length ws) * p, v)]"
    by (rule map_put_last) (use lt in \<open>auto dest: in_tl\<close>)
  also have "\<dots> = newest m (grid t0 p (ws @ [v]))"
    unfolding grid_snoc newest_snoc [OF Cons.prems(4)] Cons.prems(5) [symmetric] h ..
  finally have "history s1 = newest m (grid t0 p (ws @ [v]))" .
  moreover have nx: "t0 + int (length (ws @ [v])) * p = t0 + int (length ws) * p + p" by (simp add: distrib_right)
  ultimately have "\<exists>s'. write_series (t0 + int (length ws) * p + p) vs s1 = Inr s'
    \<and> history s' = newest m (grid t0 p ((ws @ [v]) @ vs)) \<and> period s' = p \<and> maxHistory s' = m
    \<and> eventDriven s' = eventDriven s1"
    using Cons.IH [of s1 "ws @ [v]"] store_sample_fields [OF s1] Cons.prems by (simp only: nx) simp
  then show ?case using store_sample_fields [OF s1] Cons.prems(2) by (simp add: s1)
qed simp

lemma map_of_grid: "p > 0 \<Longrightarrow> i < length vs \<Longrightarrow> k \<le> i \<Longrightarrow> map_of (drop k (grid t p vs)) (t + int i * p) = Some (vs ! i)"
proof -
  assume a: "p > 0" "i < length vs" "k \<le> i"
  have d: "distinct (map fst (drop k (grid t p vs)))"
    using grid_ascending [OF a(1), of t vs] by (simp add: strict_sorted_iff drop_map [symmetric])
  have "drop k (grid t p vs) ! (i - k) = (t + int i * p, vs ! i)" using a by simp
  then have "(t + int i * p, vs ! i) \<in> set (drop k (grid t p vs))"
    using a by (metis diff_less_mono length_drop length_grid nth_mem)
  then show ?thesis using d by simp
qed

lemma delay_read:
  assumes "p > 0" "m > 0" "period s = p" "\<not> eventDriven s" "history s = newest m (grid t0 p ws)" "ws \<noteq> []" "i < m"
  shows "valueAtIndex s (- int i) None = Inr (if i < length ws then ws ! (length ws - 1 - i) else hd ws)"
proof -
  obtain k where k: "k = length ws - m" by simp
  have h: "history s = drop k (grid t0 p ws)" using assms(5) by (simp add: newest_def k)
  have kl: "k < length ws" using assms(2,6) by (simp add: k)
  have ne: "history s \<noteq> []" using kl by (simp add: h)
  have l: "fst (last (history s)) = t0 + int (length ws - 1) * p"
  proof -
    have "last (history s) = grid t0 p ws ! (length ws - 1)"
      using kl assms(6) by (simp add: h last_conv_nth)
    then show ?thesis using assms(6) by simp
  qed
  have hh: "hd (history s) = (t0 + int k * p, ws ! k)" using kl by (simp add: h hd_drop_conv_nth)
  show ?thesis
  proof (cases "i < length ws")
    case True
    obtain j where j: "j = length ws - 1 - i" by simp
    have kj: "k \<le> j" "j < length ws" using True assms(7) by (simp_all add: j k)
    have t: "fst (last (history s)) - period s * int i = t0 + int j * p"
      unfolding l assms(3) using True by (simp add: j of_nat_diff algebra_simps)
    have "\<not> t0 + int j * p < t0 + int k * p" using kj(1) assms(1) by simp
    moreover have "map_of (history s) (t0 + int j * p) = Some (ws ! j)"
      unfolding h by (rule map_of_grid [OF assms(1) kj(2,1)])
    ultimately have "valueAtIndex s (- int i) None = Inr (ws ! j)" using ne assms(4)
      by (simp add: valueAtIndex_def t hh valueAt_def Let_def)
    then show ?thesis using True by (simp add: j)
  next
    case False
    then have k0: "k = 0" using assms(7) by (simp add: k)
    have "int (length ws - 1) < int i" using False assms(6) by (cases ws) simp_all
    then have "t0 + int (length ws - 1) * p - p * int i < t0" using assms(1) by (simp add: mult.commute)
    then show ?thesis using False ne assms(3,4,6)
      by (simp add: valueAtIndex_def l hh k0 Let_def hd_conv_nth)
  qed
qed

lemma delay_line_lemma:
  assumes "p > 0" "period s = p" "\<not> eventDriven s" "maxHistory s > 0" "history s = [(t0, v0)]"
  shows "\<exists>s'. write_series (t0 + p) vs s = Inr s' \<and> length (history s') = min (maxHistory s) (Suc (length vs))
    \<and> (\<forall>i < maxHistory s. valueAtIndex s' (- int i) None
          = Inr (if i \<le> length vs then (v0 # vs) ! (length vs - i) else v0))"
proof -
  have h: "history s = newest (maxHistory s) (grid t0 p [v0])"
    using assms(4,5) by (simp add: newest_def grid_def)
  from write_series_history [OF assms(1,2) refl assms(4) h, of vs]
  obtain s' where s': "write_series (t0 + p) vs s = Inr s'" "history s' = newest (maxHistory s) (grid t0 p (v0 # vs))"
    "period s' = p" "eventDriven s' = eventDriven s" by auto
  have "\<not> eventDriven s'" using s'(4) assms(3) by simp
  from delay_read [OF assms(1,4) s'(3) this s'(2)]
  have "\<forall>i < maxHistory s. valueAtIndex s' (- int i) None
          = Inr (if i \<le> length vs then (v0 # vs) ! (length vs - i) else v0)" by (simp add: less_Suc_eq_le)
  moreover have "length (history s') = min (maxHistory s) (Suc (length vs))"
    unfolding s'(2) newest_def by (simp add: min_def)
  ultimately show ?thesis using s'(1) by blast
qed

section \<open>Properties\<close>

lemma dround_whole:
  assumes "\<not> d_nan x" "\<not> d_inf x" "\<not> d_neg x" "dscaled x \<ge> int unit" "i64_of_double (dround x) = Some p"
  shows "p \<ge> 1"
proof -
  obtain m where m: "m = (nat \<bar>dscaled x\<bar> + unit div 2) div unit" by simp
  have u: "unit > 0" by (simp add: unit_def)
  have "unit \<le> nat \<bar>dscaled x\<bar>" using assms(4) by linarith
  then have "unit div unit \<le> m" unfolding m by (intro div_le_mono) simp
  then have m1: "m \<ge> 1" using u by simp
  have r: "dround x = with_sign False (d_bits (double_of_int (int m)))"
    using assms(1,2,3) by (simp add: dround_def m)
  have di: "double_of_int (int m) = with_sign False (round_bits (m * unit) 1)"
    by (simp add: double_of_int_def round_signed_def)
  have dr: "dround x = with_sign False (round_bits (m * unit) 1)"
    unfolding r di by (simp add: d_bits_with_sign round_bits_le)
  have big: "mag_scaled (round_bits (m * unit) 1) \<ge> unit \<or> round_bits (m * unit) 1 = d_inf_bits"
  proof (cases "m \<le> 2 ^ 53")
    case True
    then have "dscaled (double_of_int (int m)) = int m * int unit" using double_of_int_exact [of "int m"] by simp
    then have "mag_scaled (round_bits (m * unit) 1) = m * unit"
      unfolding di by (simp add: dscaled_with_sign round_bits_le) (metis of_nat_eq_iff of_nat_mult)
    then show ?thesis using m1 by simp
  next
    case False
    have "bit_length m \<ge> 53"
    proof (rule ccontr)
      assume "\<not> bit_length m \<ge> 53"
      then have "m < 2 ^ bit_length m" "(2::nat) ^ bit_length m \<le> 2 ^ 53"
        using bit_length_bounds [of m] m1 power_increasing [of "bit_length m" 53 "2::nat"] by simp_all
      then show False using False by simp
    qed
    then have b: "round_bits (m * unit) 1 = min d_inf_bits ((bit_length m + 1021) * 2 ^ 52 + round_half_even m (2 ^ (bit_length m - 53)))"
      by (rule round_bits_int)
    obtain c where c: "c = round_bits (m * unit) 1" by simp
    have "c = d_inf_bits \<or> c \<ge> 1074 * 2 ^ 52"
      using \<open>bit_length m \<ge> 53\<close> unfolding c b by (auto simp: min_def intro: trans_le_add1)
    moreover have "mag_scaled c \<ge> unit" if "c \<ge> 1074 * 2 ^ 52"
    proof -
      have e: "c div 2 ^ 52 \<ge> 1074" using div_le_mono [OF that, of "2 ^ 52"] by simp
      have "unit \<le> 2 ^ 52 * 2 ^ (c div 2 ^ 52 - 1)"
      proof -
        have "unit \<le> 2 ^ (52 + (c div 2 ^ 52 - 1))" unfolding unit_def using e by (intro power_increasing) simp_all
        then show ?thesis by (simp only: power_add)
      qed
      also have "\<dots> \<le> (2 ^ 52 + c mod 2 ^ 52) * 2 ^ (c div 2 ^ 52 - 1)" by simp
      also have "\<dots> = mag_scaled c" using e by (simp add: mag_scaled_def Let_def)
      finally show ?thesis .
    qed
    ultimately show ?thesis unfolding c by blast
  qed
  have fin: "round_bits (m * unit) 1 \<noteq> d_inf_bits"
  proof
    assume "round_bits (m * unit) 1 = d_inf_bits"
    then have "d_inf (dround x)" by (simp add: dr d_inf_def d_bits_with_sign)
    then show False using assms(5) by (simp add: i64_of_double_def double_to_int_def)
  qed
  have "dscaled (dround x) = int (mag_scaled (round_bits (m * unit) 1))" "\<not> d_neg (dround x)"
    by (simp_all add: dr dscaled_with_sign d_neg_with_sign round_bits_le)
  then have "p = int (mag_scaled (round_bits (m * unit) 1) div unit)"
    using assms(5) by (auto simp: i64_of_double_def double_to_int_def Let_def split: if_splits)
  moreover have "mag_scaled (round_bits (m * unit) 1) div unit \<ge> 1"
    using big fin div_le_mono [of unit "mag_scaled (round_bits (m * unit) 1)" unit] u by simp
  ultimately show ?thesis by simp
qed

lemma period_positive:
  assumes "period_of_frequency f = Inr p" shows "p \<ge> 1"
proof -
  obtain x where x: "x = ddiv d_million f" by simp
  have a: "\<not> dlt x d_one" "i64_of_double (dround x) = Some p"
    using assms by (auto simp: period_of_frequency_def x Let_def split: if_splits option.splits)
  have one: "dscaled d_one = int unit" "\<not> d_nan d_one" using double_of_int_exact [of 1] by (simp_all add: d_one_def)
  have ni: "\<not> d_nan x" "\<not> d_inf x"
    using a(2) by (auto simp: dround_def i64_of_double_def double_to_int_def)
  then have s: "dscaled x \<ge> int unit" using a(1) one by (simp add: dlt_def)
  have "\<not> d_neg x"
  proof
    assume "d_neg x"
    then have "dscaled x \<le> 0" by (simp add: dscaled_def)
    moreover have "int unit > 0" by (simp add: unit_def)
    ultimately show False using s by linarith
  qed
  from dround_whole [OF ni this s a(2)] show ?thesis .
qed

text \<open>
  An accepted frequency gives a period of at least one microsecond; a signal has no period exactly
  when it is event-driven.
\<close>

theorem signal_periods_positive:
  "new_signal f v = Inr s \<Longrightarrow> (if eventDriven s then period s = 0 else period s \<ge> 1)"
  using period_positive by (auto simp: new_signal_def plain_signal_def seq_then_eq_Inr split: if_splits)

theorem signal_periods_positive_witness:
  "\<exists>s. new_signal (double_of_int 0) (Sc SNil) = Inr s \<and> (if eventDriven s then period s = 0 else period s \<ge> 1)"
proof -
  have z: "dle (double_of_int 0) 0"
    using double_of_int_exact [of 0] by (simp add: dle_def dscaled_zero d_nan_zero)
  then have s: "new_signal (double_of_int 0) (Sc SNil) = Inr (plain_signal 0 0 True (Sc SNil))"
    by (simp add: new_signal_def)
  show ?thesis using signal_periods_positive [OF s] s by blast
qed

text \<open>
  C28. A signal written on its own grid is a delay line: the history keeps the newest samples up to its
  bound, and the value \<open>i\<close> periods ago is the one written \<open>i\<close> writes ago, the initial value before
  the first write.
\<close>

theorem delay_line_exact:
  assumes "p > 0" "period s = p" "\<not> eventDriven s" "maxHistory s > 0" "history s = [(t0, v0)]"
  shows "\<exists>s'. write_series (t0 + p) vs s = Inr s' \<and> length (history s') = min (maxHistory s) (Suc (length vs))
    \<and> (\<forall>i < maxHistory s. valueAtIndex s' (- int i) None
          = Inr (if i \<le> length vs then (v0 # vs) ! (length vs - i) else v0))"
  by (rule delay_line_lemma [OF assms])

theorem delay_line_exact_witness:
  "\<exists>s'. write_series 100 [Sc (SInt 1), Sc (SInt 2), Sc (SInt 3)] (plain_signal 0 100 False (Sc (SInt 0))) = Inr s'
     \<and> valueAtIndex s' (-1) None = Inr (Sc (SInt 2))"
proof -
  obtain s where s: "s = plain_signal 0 100 False (Sc (SInt 0))" by simp
  have f: "period s = 100" "\<not> eventDriven s" "maxHistory s = 2" "history s = [(0, Sc (SInt 0))]"
    by (simp_all add: s plain_signal_def)
  from delay_line_exact [of 100 s 0 "Sc (SInt 0)" "[Sc (SInt 1), Sc (SInt 2), Sc (SInt 3)]"] f
  obtain s' where s': "write_series 100 [Sc (SInt 1), Sc (SInt 2), Sc (SInt 3)] s = Inr s'"
    "\<forall>i < 2. valueAtIndex s' (- int i) None
          = Inr (if i \<le> 3 then [Sc (SInt 0), Sc (SInt 1), Sc (SInt 2), Sc (SInt 3)] ! (3 - i) else Sc (SInt 0))" by auto
  have "valueAtIndex s' (- int 1) None = Inr (Sc (SInt 2))"
    using s'(2) [rule_format, of 1] by (simp add: numeral_2_eq_2 numeral_3_eq_3)
  then show ?thesis using s'(1) unfolding s by simp
qed

text \<open>
  C30. A signal whose producer also runs between its own periods keeps too few samples: two writes inside
  the last period displace the sample a period ago, and the delayed read gives a newer one.
\<close>

theorem off_grid_writes_shorten_delay:
  assumes "t - p < a" "a < b" "b < t" "maxHistory s = 2" "period s = p" "\<not> eventDriven s"
    and "history s = [(u, w), (t - p, x)]" "u < t - p"
  shows "\<exists>s1 s2 c d. store_sample a y s = Inr (c, s1) \<and> store_sample b z s1 = Inr (d, s2)
    \<and> valueAtIndex s (-1) (Some t) = Inr x \<and> valueAtIndex s2 (-1) (Some t) = Inr y"
  using assms
  by (auto simp: store_sample_def lastValueBefore_def Let_def valueAtIndex_def valueAt_def)

theorem off_grid_writes_shorten_delay_witness:
  "\<exists>s s1 s2 c d. store_sample 960 (Sc (SInt 8)) s = Inr (c, s1) \<and> store_sample 990 (Sc (SInt 9)) s1 = Inr (d, s2)
    \<and> valueAtIndex s (-1) (Some 1000) = Inr (Sc (SInt 7)) \<and> valueAtIndex s2 (-1) (Some 1000) = Inr (Sc (SInt 8))"
proof -
  obtain s where s: "s = (plain_signal 0 100 False (Sc SNil))\<lparr>history := [(880, Sc SNil), (900, Sc (SInt 7))]\<rparr>" by simp
  show ?thesis
    using off_grid_writes_shorten_delay [of 1000 100 960 990 s 880 "Sc SNil" "Sc (SInt 7)" "Sc (SInt 8)" "Sc (SInt 9)"]
    by (simp add: s plain_signal_def) blast
qed

end
