(* ===== verification/Dataflow_Graph.thy ===== *)
theory Dataflow_Graph
  imports Signal_History
begin

text \<open>
  The network of the dataflow engine (\<open>dataflow/DataflowEngine.{h,cpp}\<close>, \<open>dataflow/FuncNode.h\<close>): signals
  and function nodes, and the data a rebuild derives from them: consumers, islands, periods and
  execution orders.  A pointer is the index of an object in \<open>sigs\<close> or \<open>nodes\<close>, which is also its
  address in the order of the maps keyed by pointers; an index past the end is the null pointer.  The
  map from names to nodes is a list in the order of the names.
\<close>

section \<open>The network\<close>

record port =
  in_signal :: nat
  in_index :: int
  in_default :: "operand option"
  in_available :: time

text \<open>
  The body of a node is a parameter: the outputs it returns for its arguments, \<open>None\<close> when it fails.
  \<open>n_native\<close> tells a native body, which fails by throwing, from a closure.
\<close>

record fnode =
  n_inputs :: "port list"
  n_outputs :: "nat list"
  n_params :: "string list"
  n_consts :: "(string \<times> operand) list"
  n_native :: bool
  n_body :: "operand list \<Rightarrow> operand list option"
  n_period :: time
  n_prevIn :: "operand list"
  n_prevOut :: "operand list"
  n_failed :: bool

record island =
  is_signals :: "nat list"
  is_funcs :: "nat list"
  is_orders :: "(time \<times> nat list) list"
  is_tickPeriod :: time
  is_background :: bool
  is_nextDue :: time

record engine =
  sigs :: "signal list"
  nodes :: "fnode list"
  signals :: "nat list"
  funcs :: "(string \<times> nat) list"
  consumers :: "nat \<Rightarrow> nat list"
  islands :: "island list"
  tickPeriod :: time
  runStart :: time
  tickNumber :: nat
  tickStart :: time
  networkModified :: bool
  notified :: "(nat \<times> time \<times> operand) list"
  pendingEvents :: "(nat \<times> time) list"

definition empty_engine :: engine where
  "empty_engine = \<lparr>sigs = [], nodes = [], signals = [], funcs = [], consumers = (\<lambda>_. []), islands = [],
     tickPeriod = 0, runStart = 0, tickNumber = 0, tickStart = 0, networkModified = False,
     notified = [], pendingEvents = []\<rparr>"

definition set_sig :: "nat \<Rightarrow> signal \<Rightarrow> engine \<Rightarrow> engine" where
  "set_sig i s e = e\<lparr>sigs := (sigs e)[i := s]\<rparr>"

definition set_node :: "nat \<Rightarrow> fnode \<Rightarrow> engine \<Rightarrow> engine" where
  "set_node i n e = e\<lparr>nodes := (nodes e)[i := n]\<rparr>"

definition valid_sig :: "engine \<Rightarrow> nat \<Rightarrow> bool" where
  "valid_sig e i \<longleftrightarrow> i < length (sigs e)"

definition addSignal :: "signal \<Rightarrow> engine \<Rightarrow> nat \<times> engine" where
  "addSignal s e =
     (length (sigs e), e\<lparr>sigs := sigs e @ [s], signals := signals e @ [length (sigs e)], networkModified := True\<rparr>)"

fun put_name :: "string \<Rightarrow> nat \<Rightarrow> (string \<times> nat) list \<Rightarrow> (string \<times> nat) list" where
  "put_name x f [] = [(x, f)]"
| "put_name x f ((y, g) # fs) =
     (if map of_char x = (map of_char y :: nat list) then (x, f) # fs
      else if ord_class.lexordp (map of_char x) (map of_char y :: nat list) then (x, f) # (y, g) # fs
      else (y, g) # put_name x f fs)"

definition addFunc :: "string \<Rightarrow> fnode \<Rightarrow> engine \<Rightarrow> nat \<times> engine" where
  "addFunc x n e =
     (length (nodes e),
      e\<lparr>nodes := nodes e @ [n], funcs := put_name x (length (nodes e)) (funcs e), networkModified := True\<rparr>)"

definition func_list :: "engine \<Rightarrow> nat list" where
  "func_list e = map snd (funcs e)"

section \<open>Consumers and periods\<close>

definition in_signals :: "fnode \<Rightarrow> nat list" where
  "in_signals n = map in_signal (n_inputs n)"

definition add_consumer :: "nat \<Rightarrow> port \<Rightarrow> engine \<Rightarrow> engine" where
  "add_consumer f p e =
     (let i = in_signal p; s = sigs e ! i in
      set_sig i (s\<lparr>maxHistory := max (maxHistory s) (nat (- in_index p + 1))\<rparr>)
        (e\<lparr>consumers := (consumers e)(i := consumers e i @ [f])\<rparr>))"

definition buildSignalConsumers :: "engine \<Rightarrow> engine" where
  "buildSignalConsumers e =
     fold (\<lambda>f e. fold (add_consumer f) (n_inputs (nodes e ! f)) e) (func_list e) (e\<lparr>consumers := \<lambda>_. []\<rparr>)"

definition longestDividingPeriod :: "time list \<Rightarrow> time" where
  "longestDividingPeriod ps = (case ps of [] \<Rightarrow> 0 | p # _ \<Rightarrow> fold (\<lambda>q g. gcd g q) ps p)"

definition period_set :: "time list \<Rightarrow> time list" where
  "period_set ps = sort (remdups ps)"

definition node_period :: "engine \<Rightarrow> fnode \<Rightarrow> time" where
  "node_period e n =
     longestDividingPeriod (period_set (filter (\<lambda>p. p > 0) (map (\<lambda>i. period (sigs e ! i)) (in_signals n))))"

definition precomputeFuncPeriods :: "engine \<Rightarrow> engine" where
  "precomputeFuncPeriods e =
     fold (\<lambda>f e. set_node f ((nodes e ! f)\<lparr>n_period := node_period e (nodes e ! f)\<rparr>) e) (func_list e) e"

section \<open>Islands\<close>

definition producers :: "engine \<Rightarrow> nat \<Rightarrow> nat list" where
  "producers e s = filter (\<lambda>f. s \<in> set (n_outputs (nodes e ! f))) (func_list e)"

record walk =
  seenS :: "nat list"
  seenF :: "nat list"
  foundS :: "nat list"
  foundF :: "nat list"

definition new_sigs :: "engine \<Rightarrow> nat list \<Rightarrow> nat list \<Rightarrow> nat list" where
  "new_sigs e seen xs = filter (\<lambda>s. s < length (sigs e) \<and> s \<notin> set seen) xs"

definition new_funs :: "engine \<Rightarrow> nat list \<Rightarrow> nat list \<Rightarrow> nat list" where
  "new_funs e seen xs = filter (\<lambda>f. f < length (nodes e) \<and> f \<notin> set seen) xs"

definition linked_sigs :: "engine \<Rightarrow> nat \<Rightarrow> nat list" where
  "linked_sigs e s =
     (if isDerived (sigs e ! s) then (case baseSignal (sigs e ! s) of Some b \<Rightarrow> [b] | None \<Rightarrow> []) else [])
     @ dependents (sigs e ! s)"

definition node_sigs :: "engine \<Rightarrow> nat \<Rightarrow> nat list" where
  "node_sigs e f = in_signals (nodes e ! f) @ n_outputs (nodes e ! f)"

definition unseen :: "nat \<Rightarrow> nat list \<Rightarrow> nat" where
  "unseen n xs = card ({..<n} - set xs)"

lemma unseen_Cons: "x < n \<Longrightarrow> x \<notin> set xs \<Longrightarrow> unseen n (x # xs) < unseen n xs"
  unfolding unseen_def by (rule psubset_card_mono) auto

function processQueues :: "engine \<Rightarrow> nat list \<Rightarrow> nat list \<Rightarrow> walk \<Rightarrow> walk" where
  "processQueues e (s # sq) fq w =
     (if s \<ge> length (sigs e) \<or> s \<in> set (seenS w) then processQueues e sq fq w
      else (let w1 = w\<lparr>seenS := s # seenS w, foundS := foundS w @ [s]\<rparr> in
        processQueues e (sq @ new_sigs e (seenS w1) (linked_sigs e s))
          (fq @ new_funs e (seenF w1) (consumers e s @ producers e s)) w1))"
| "processQueues e [] (f # fq) w =
     (if f \<ge> length (nodes e) \<or> f \<in> set (seenF w) then processQueues e [] fq w
      else (let w1 = w\<lparr>seenF := f # seenF w, foundF := foundF w @ [f]\<rparr> in
        processQueues e (new_sigs e (seenS w1) (node_sigs e f)) fq w1))"
| "processQueues e [] [] w = w"
  by pat_completeness auto

termination
  by (relation "measures [\<lambda>(e, sq, fq, w). unseen (length (sigs e)) (seenS w) + unseen (length (nodes e)) (seenF w),
       \<lambda>(e, sq, fq, w). length sq + length fq]") (auto simp: unseen_Cons)

definition blank_island :: "nat list \<Rightarrow> nat list \<Rightarrow> island" where
  "blank_island ss fs = \<lparr>is_signals = ss, is_funcs = fs, is_orders = [], is_tickPeriod = 0,
     is_background = False, is_nextDue = 0\<rparr>"

definition island_from :: "engine \<Rightarrow> nat list \<Rightarrow> nat list \<Rightarrow> nat list \<times> nat list \<times> island list
    \<Rightarrow> nat list \<times> nat list \<times> island list" where
  "island_from e sq fq st =
     (case st of (ss, fs, is) \<Rightarrow>
        (let w = processQueues e sq fq \<lparr>seenS = ss, seenF = fs, foundS = [], foundF = []\<rparr> in
         (seenS w, seenF w,
          if foundS w \<noteq> [] \<or> foundF w \<noteq> [] then is @ [blank_island (foundS w) (foundF w)] else is)))"

definition computeNetworkIslands :: "engine \<Rightarrow> engine" where
  "computeNetworkIslands e =
     (let st1 = fold (\<lambda>s st. if s \<in> set (fst st) then st else island_from e [s] [] st) (signals e) ([], [], []);
          st2 = fold (\<lambda>f st. if f \<in> set (fst (snd st)) then st else island_from e [] [f] st) (func_list e) st1
      in e\<lparr>islands := snd (snd st2)\<rparr>)"

section \<open>Execution orders\<close>

type_synonym dep_graph = "(nat \<times> nat list) list"

fun zeroDelaySource :: "nat \<Rightarrow> engine \<Rightarrow> nat \<Rightarrow> nat option" where
  "zeroDelaySource 0 e s = None"
| "zeroDelaySource (Suc k) e s =
     (if s < length (sigs e) \<and> isDerived (sigs e ! s) \<and> baseIndex (sigs e ! s) = 0 then
        (case baseSignal (sigs e ! s) of None \<Rightarrow> Some s | Some b \<Rightarrow> zeroDelaySource k e b)
      else Some s)"

text \<open>The depth-first search, with the marks of \<open>tempMark\<close> and \<open>permMark\<close>; \<open>None\<close> is the end of the fuel.\<close>

record dfs =
  temp :: "nat list"
  perm :: "nat list"
  sorted_funcs :: "nat list"

definition dep_of :: "dep_graph \<Rightarrow> nat \<Rightarrow> nat list" where
  "dep_of g n = (case map_of g n of Some ms \<Rightarrow> ms | None \<Rightarrow> [])"

fun visit_deps :: "(nat \<Rightarrow> dfs \<Rightarrow> (bool \<times> dfs) option) \<Rightarrow> nat list \<Rightarrow> dfs \<Rightarrow> (bool \<times> dfs) option" where
  "visit_deps v [] d = Some (True, d)"
| "visit_deps v (m # ms) d =
     (case v m d of None \<Rightarrow> None | Some (ok, d1) \<Rightarrow> if ok then visit_deps v ms d1 else Some (False, d1))"

fun visit :: "nat \<Rightarrow> dep_graph \<Rightarrow> nat \<Rightarrow> dfs \<Rightarrow> (bool \<times> dfs) option" where
  "visit 0 g n d = None"
| "visit (Suc k) g n d =
     (if n \<in> set (perm d) then Some (True, d)
      else if n \<in> set (temp d) then Some (False, d)
      else (case visit_deps (visit k g) (dep_of g n) (d\<lparr>temp := n # temp d\<rparr>) of
          None \<Rightarrow> None
        | Some (ok, d1) \<Rightarrow>
            if ok then Some (True, d1\<lparr>temp := removeAll n (temp d1), perm := n # perm d1,
                                      sorted_funcs := sorted_funcs d1 @ [n]\<rparr>)
            else Some (False, d1)))"

fun visit_roots :: "nat \<Rightarrow> dep_graph \<Rightarrow> nat list \<Rightarrow> dfs \<Rightarrow> (bool \<times> dfs) option" where
  "visit_roots k g [] d = Some (True, d)"
| "visit_roots k g (n # ns) d =
     (if n \<in> set (perm d) then visit_roots k g ns d
      else (case visit k g n d of
          None \<Rightarrow> None
        | Some (ok, d1) \<Rightarrow> if ok then visit_roots k g ns d1 else Some (False, d1)))"

definition topologicalSort :: "dep_graph \<Rightarrow> (bool \<times> nat list) option" where
  "topologicalSort g =
     (case visit_roots (length g + 1) g (map fst g) \<lparr>temp = [], perm = [], sorted_funcs = []\<rparr> of
        None \<Rightarrow> None
      | Some (ok, d) \<Rightarrow> Some (ok, sorted_funcs d))"

definition address_order :: "nat list \<Rightarrow> nat list" where
  "address_order xs = sort (remdups xs)"

definition group_graph :: "engine \<Rightarrow> nat list \<Rightarrow> dep_graph" where
  "group_graph e fs =
     map (\<lambda>f. (f, address_order (filter (\<lambda>p. p \<noteq> f \<and>
        (\<exists>i \<in> set (n_inputs (nodes e ! f)).
           in_index i = 0 \<and> (\<exists>s. zeroDelaySource (length (sigs e) + 1) e (in_signal i) = Some s
                               \<and> s \<in> set (n_outputs (nodes e ! p))))) fs)))
       (address_order fs)"

definition period_groups :: "engine \<Rightarrow> nat list \<Rightarrow> (time \<times> nat list) list" where
  "period_groups e fs =
     map (\<lambda>p. (p, filter (\<lambda>f. n_period (nodes e ! f) = p) fs)) (period_set (map (\<lambda>f. n_period (nodes e ! f)) fs))"

fun order_groups :: "engine \<Rightarrow> (time \<times> nat list) list \<Rightarrow> df_error + (time \<times> nat list) list" where
  "order_groups e [] = Inr []"
| "order_groups e ((p, fs) # gs) =
     (case topologicalSort (group_graph e fs) of
        Some (True, xs) \<Rightarrow> seq_then (order_groups e gs) (\<lambda>os. Inr ((p, xs) # os))
      | _ \<Rightarrow> Inl Cyclic_Dependency)"

definition precomputeExecutionOrders :: "engine \<Rightarrow> island \<Rightarrow> df_error + island" where
  "precomputeExecutionOrders e is =
     seq_then (order_groups e (period_groups e (is_funcs is))) (\<lambda>os. Inr (is\<lparr>is_orders := os\<rparr>))"

section \<open>The rebuild\<close>

definition signal_periods :: "engine \<Rightarrow> nat list \<Rightarrow> time list" where
  "signal_periods e ss = filter (\<lambda>p. p \<noteq> 0) (map (\<lambda>s. period (sigs e ! s)) ss)"

fun finish_islands :: "engine \<Rightarrow> island list \<Rightarrow> df_error + (island list \<times> time list \<times> engine)" where
  "finish_islands e [] = Inr ([], [], e)"
| "finish_islands e (is # iss) =
     (let bg = list_ex (\<lambda>s. background (sigs e ! s)) (is_signals is);
          e1 = fold (\<lambda>s e. set_sig s ((sigs e ! s)\<lparr>inBackground := bg\<rparr>) e) (is_signals is) e;
          ps = signal_periods e1 (is_signals is) in
      seq_then (precomputeExecutionOrders e1 (is\<lparr>is_background := bg, is_nextDue := 0,
                  is_tickPeriod := longestDividingPeriod (period_set ps)\<rparr>)) (\<lambda>is1.
      seq_then (finish_islands e1 iss) (\<lambda>(rest, qs, e2).
        Inr (is1 # rest, (if bg then [] else ps) @ qs, e2))))"

definition buildNetworkCacheData :: "engine \<Rightarrow> df_error + engine" where
  "buildNetworkCacheData e =
     (let e1 = precomputeFuncPeriods (computeNetworkIslands (buildSignalConsumers e)) in
      seq_then (finish_islands e1 (islands e1)) (\<lambda>(iss, qs, e2).
        Inr (e2\<lparr>islands := iss, tickPeriod := longestDividingPeriod (period_set qs), tickNumber := 0,
                runStart := 0, networkModified := False\<rparr>)))"

end
