(* ===== verification/Dataflow_Sort.thy ===== *)
theory Dataflow_Sort
  imports Dataflow_Graph
begin

text \<open>
  Correctness of the network's rebuild: the depth-first sort of a period group, the grid period as a
  common divisor, and the islands as the connected parts of the network.
\<close>

section \<open>The sort\<close>

definition edges :: "dep_graph \<Rightarrow> (nat \<times> nat) set" where
  "edges g = {(n, m). n \<in> fst ` set g \<and> m \<in> set (dep_of g n)}"

definition closed_graph :: "dep_graph \<Rightarrow> bool" where
  "closed_graph g \<longleftrightarrow> distinct (map fst g) \<and> (\<forall>n \<in> fst ` set g. set (dep_of g n) \<subseteq> fst ` set g)"

text \<open>A list, newest first, in which every node comes after the nodes it depends on.\<close>

fun topo :: "dep_graph \<Rightarrow> nat list \<Rightarrow> bool" where
  "topo g [] \<longleftrightarrow> True"
| "topo g (n # ns) \<longleftrightarrow> n \<notin> set ns \<and> set (dep_of g n) \<subseteq> set ns \<and> topo g ns"

lemma topo_distinct: "topo g ns \<Longrightarrow> distinct ns"
  by (induction ns) auto

definition wf_dfs :: "dep_graph \<Rightarrow> dfs \<Rightarrow> bool" where
  "wf_dfs g d \<longleftrightarrow> sorted_funcs d = rev (perm d) \<and> topo g (perm d) \<and> set (perm d) \<subseteq> fst ` set g
     \<and> set (temp d) \<subseteq> fst ` set g \<and> set (temp d) \<inter> set (perm d) = {}"

definition done_from :: "dfs \<Rightarrow> dfs \<Rightarrow> bool" where
  "done_from d d1 \<longleftrightarrow> temp d1 = temp d \<and> set (perm d) \<subseteq> set (perm d1)"

lemma done_from_trans: "done_from a b \<Longrightarrow> done_from b c \<Longrightarrow> done_from a c"
  by (auto simp: done_from_def)

definition visited :: "dep_graph \<Rightarrow> dfs \<Rightarrow> nat set \<Rightarrow> (bool \<times> dfs) option \<Rightarrow> bool" where
  "visited g d M r =
     (case r of
        None \<Rightarrow> False
      | Some (ok, d1) \<Rightarrow>
          if ok then wf_dfs g d1 \<and> done_from d d1 \<and> M \<subseteq> set (perm d1) else \<not> acyclic (edges g))"

lemma visited_step:
  assumes "visited g d M r"
    and "\<And>d1. r = Some (True, d1) \<Longrightarrow> wf_dfs g d1 \<Longrightarrow> temp d1 = temp d \<Longrightarrow> visited g d1 N (f d1)"
  shows "visited g d (M \<union> N)
    (case r of None \<Rightarrow> None | Some (ok, d1) \<Rightarrow> if ok then f d1 else Some (False, d1))"
proof (cases r)
  case (Some a)
  obtain ok d1 where a: "r = Some (ok, d1)" using Some by (cases a) simp
  show ?thesis
  proof (cases ok)
    case True
    then have d1: "wf_dfs g d1" "done_from d d1" "M \<subseteq> set (perm d1)" using assms(1) by (simp_all add: visited_def a)
    then have "visited g d1 N (f d1)" using assms(2) [of d1] True by (simp add: a done_from_def)
    then show ?thesis using True d1 by (auto simp: a visited_def done_from_def split: option.splits if_splits)
  next
    case False
    then show ?thesis using assms(1) by (simp add: a visited_def)
  qed
qed (use assms(1) in \<open>simp add: visited_def\<close>)

lemma visit_deps_lemma:
  assumes "\<And>m d. m \<in> set ms \<Longrightarrow> wf_dfs g d \<Longrightarrow> temp d = ts \<Longrightarrow> visited g d {m} (v m d)"
    and "wf_dfs g d" "temp d = ts"
  shows "visited g d (set ms) (visit_deps v ms d)"
  using assms
proof (induction ms arbitrary: d)
  case Nil
  then show ?case by (simp add: visited_def done_from_def)
next
  case (Cons m ms)
  have "visited g d ({m} \<union> set ms)
    (case v m d of None \<Rightarrow> None | Some (ok, d1) \<Rightarrow> if ok then visit_deps v ms d1 else Some (False, d1))"
    by (rule visited_step) (use Cons in simp_all)
  then show ?case by simp
qed

lemma visit_lemma:
  assumes "closed_graph g" "n \<in> fst ` set g" "wf_dfs g d" "\<forall>t \<in> set (temp d). (t, n) \<in> (edges g)\<^sup>+"
    and "k > card (fst ` set g - set (temp d))"
  shows "visited g d {n} (visit k g n d)"
  using assms
proof (induction k arbitrary: n d)
  case (Suc k)
  consider (perm) "n \<in> set (perm d)" | (temp) "n \<notin> set (perm d)" "n \<in> set (temp d)"
    | (new) "n \<notin> set (perm d)" "n \<notin> set (temp d)" by blast
  then show ?case
  proof cases
    case new
    obtain d0 where d0: "d0 = d\<lparr>temp := n # temp d\<rparr>" by simp
    have w0: "wf_dfs g d0" using Suc.prems(2,3) new by (auto simp: wf_dfs_def d0)
    have dep: "m \<in> fst ` set g" "(n, m) \<in> edges g" if "m \<in> set (dep_of g n)" for m
      using that Suc.prems(1,2) by (auto simp: closed_graph_def edges_def)
    have path: "\<forall>t \<in> set (temp d0). (t, m) \<in> (edges g)\<^sup>+" if "m \<in> set (dep_of g n)" for m
      using Suc.prems(4) dep(2) [OF that] by (auto simp: d0 intro: trancl_into_trancl)
    have "card (fst ` set g - set (n # temp d)) < card (fst ` set g - set (temp d))"
      by (rule psubset_card_mono) (use Suc.prems(2) new(2) in auto)
    then have card: "k > card (fst ` set g - set (temp d0))" using Suc.prems(5) by (simp add: d0)
    have "visited g d0 (set (dep_of g n)) (visit_deps (visit k g) (dep_of g n) d0)"
    proof (rule visit_deps_lemma [OF _ w0 refl])
      fix m d1 assume "m \<in> set (dep_of g n)" "wf_dfs g d1" "temp d1 = temp d0"
      then show "visited g d1 {m} (visit k g m d1)"
        using Suc.IH [OF Suc.prems(1) dep(1), of m d1] path [of m] card by simp
    qed
    then obtain ok d1 where d1: "visit_deps (visit k g) (dep_of g n) d0 = Some (ok, d1)"
      "if ok then wf_dfs g d1 \<and> done_from d0 d1 \<and> set (dep_of g n) \<subseteq> set (perm d1) else \<not> acyclic (edges g)"
      by (auto simp: visited_def split: option.splits)
    show ?thesis
    proof (cases ok)
      case True
      then have w: "wf_dfs g d1" "temp d1 = n # temp d" "set (perm d) \<subseteq> set (perm d1)" "set (dep_of g n) \<subseteq> set (perm d1)"
        using d1(2) by (auto simp: done_from_def d0)
      have "n \<notin> set (perm d1)" using w(1,2) by (auto simp: wf_dfs_def)
      moreover have "removeAll n (temp d) = temp d" using new(2) by (rule removeAll_id)
      ultimately show ?thesis using True new d1(1) w Suc.prems(2,3)
        by (auto simp: visited_def d0 [symmetric] wf_dfs_def done_from_def)
    next
      case False
      then show ?thesis using new d1 by (simp add: visited_def d0 [symmetric])
    qed
  next
    case temp
    then have "(n, n) \<in> (edges g)\<^sup>+" using Suc.prems(4) by blast
    then show ?thesis using temp by (auto simp: visited_def acyclic_def)
  qed (use Suc.prems(3) in \<open>auto simp: visited_def done_from_def\<close>)
qed simp

lemma topo_acyclic:
  assumes "topo g ns" "fst ` set g = set ns"
  shows "acyclic (edges g)"
proof -
  have "(x, y) \<in> (edges g)\<^sup>+ \<Longrightarrow> \<exists>as bs. ns = as @ x # bs \<and> y \<in> set bs" for x y
  proof (induction rule: trancl_induct)
    case (base y)
    then have x: "x \<in> set ns" "y \<in> set (dep_of g x)" using assms(2) by (auto simp: edges_def)
    then obtain as bs where s: "ns = as @ x # bs" by (metis split_list)
    have "topo g (as @ x # bs) \<Longrightarrow> topo g (x # bs)" for as by (induction as) auto
    then show ?case using assms(1) x(2) s by auto
  next
    case (step y z)
    then obtain as bs where s: "ns = as @ x # bs" "y \<in> set bs" by auto
    then obtain cs ds where t: "bs = cs @ y # ds" by (metis split_list)
    have "topo g (as @ y # bs) \<Longrightarrow> topo g (y # bs)" for as bs by (induction as) auto
    then have "topo g (y # ds)" using assms(1) s(1) t by (metis append.assoc append_Cons)
    then have "z \<in> set ds" using step(2) by (auto simp: edges_def)
    moreover have "ns = as @ x # (cs @ y # ds)" using s(1) t by simp
    ultimately show ?case by (intro exI [of _ as] exI [of _ "cs @ y # ds"]) simp
  qed
  then have "(x, x) \<notin> (edges g)\<^sup>+" for x using topo_distinct [OF assms(1)] by fastforce
  then show ?thesis by (simp add: acyclic_def)
qed

lemma visit_roots_lemma:
  assumes "closed_graph g" "set ns \<subseteq> fst ` set g" "wf_dfs g d" "temp d = []" "k > card (fst ` set g)"
  shows "visited g d (set ns) (visit_roots k g ns d)"
  using assms
proof (induction ns arbitrary: d)
  case Nil
  then show ?case by (simp add: visited_def done_from_def)
next
  case (Cons n ns)
  show ?case
  proof (cases "n \<in> set (perm d)")
    case True
    then show ?thesis using Cons.IH [of d] Cons.prems
      by (auto simp: visited_def done_from_def split: option.splits if_splits)
  next
    case False
    have "visited g d ({n} \<union> set ns)
      (case visit k g n d of None \<Rightarrow> None | Some (ok, d1) \<Rightarrow> if ok then visit_roots k g ns d1 else Some (False, d1))"
      by (rule visited_step [OF visit_lemma]) (use Cons in simp_all)
    then show ?thesis using False by simp
  qed
qed

lemma topologicalSort_lemma:
  assumes "closed_graph g"
  shows "\<exists>ok xs. topologicalSort g = Some (ok, xs) \<and> (ok \<longleftrightarrow> acyclic (edges g))
    \<and> (ok \<longrightarrow> set xs = fst ` set g \<and> topo g (rev xs))"
proof -
  obtain d where d: "d = \<lparr>temp = [], perm = [], sorted_funcs = []\<rparr>" by simp
  have w: "wf_dfs g d" by (simp add: wf_dfs_def d)
  have "card (fst ` set g) < length g + 1" using card_image_le [of "set g" fst] card_length [of g] by simp
  with visit_roots_lemma [OF assms _ w, of "map fst g" "length g + 1"]
  obtain ok d1 where d1: "visit_roots (length g + 1) g (map fst g) d = Some (ok, d1)"
    "if ok then wf_dfs g d1 \<and> set (map fst g) \<subseteq> set (perm d1) else \<not> acyclic (edges g)"
    by (auto simp: d visited_def split: option.splits if_splits)
  then have t: "topologicalSort g = Some (ok, sorted_funcs d1)" by (simp add: topologicalSort_def d [symmetric])
  show ?thesis
  proof (cases ok)
    case True
    then have "wf_dfs g d1" "set (map fst g) \<subseteq> set (perm d1)" using d1(2) by simp_all
    then have p: "sorted_funcs d1 = rev (perm d1)" "topo g (perm d1)" "fst ` set g = set (perm d1)"
      by (auto simp: wf_dfs_def)
    have "acyclic (edges g)" by (rule topo_acyclic [OF p(2,3)])
    then show ?thesis using t True p by (intro exI [of _ ok] exI [of _ "sorted_funcs d1"]) simp
  next
    case False
    then show ?thesis using t d1(2) by (intro exI [of _ ok] exI [of _ "sorted_funcs d1"]) simp
  qed
qed

section \<open>Islands\<close>

text \<open>Two objects of the network that are linked: a wire or a delay with its base, a node with its ports.\<close>

definition has_port :: "engine \<Rightarrow> nat \<Rightarrow> nat \<Rightarrow> bool" where
  "has_port e f s \<longleftrightarrow> f \<in> set (func_list e) \<and> f < length (nodes e) \<and> s < length (sigs e) \<and> s \<in> set (node_sigs e f)"

definition link :: "engine \<Rightarrow> ((nat + nat) \<times> (nat + nat)) set" where
  "link e = {(Inl s, Inl t) | s t. s < length (sigs e) \<and> t < length (sigs e) \<and> t \<in> set (linked_sigs e s)}
     \<union> {(Inl s, Inr f) | s f. has_port e f s} \<union> {(Inr f, Inl s) | s f. has_port e f s}"

definition consumers_built :: "engine \<Rightarrow> bool" where
  "consumers_built e \<longleftrightarrow>
     (\<forall>s. set (consumers e s) = {f \<in> set (func_list e). s \<in> set (in_signals (nodes e ! f))})"

lemma neighbours:
  assumes "consumers_built e" "s < length (sigs e)" "f < length (nodes e)"
  shows "f \<in> set (consumers e s @ producers e s) \<longleftrightarrow> has_port e f s"
  using assms by (auto simp: consumers_built_def producers_def has_port_def node_sigs_def)

lemma in_new_sigs [simp]: "t \<in> set (new_sigs e seen xs) \<longleftrightarrow> t < length (sigs e) \<and> t \<notin> set seen \<and> t \<in> set xs"
  by (auto simp: new_sigs_def)

lemma in_new_funs [simp]: "f \<in> set (new_funs e seen xs) \<longleftrightarrow> f < length (nodes e) \<and> f \<notin> set seen \<and> f \<in> set xs"
  by (auto simp: new_funs_def)

definition walked :: "engine \<Rightarrow> nat list \<Rightarrow> nat list \<Rightarrow> walk \<Rightarrow> nat list \<Rightarrow> nat list \<Rightarrow> walk \<Rightarrow> bool" where
  "walked e sq fq w nS nF w' \<longleftrightarrow>
     foundS w' = foundS w @ nS \<and> foundF w' = foundF w @ nF
     \<and> set (seenS w') = set (seenS w) \<union> set nS \<and> set (seenF w') = set (seenF w) \<union> set nF
     \<and> set nS \<inter> set (seenS w) = {} \<and> set nF \<inter> set (seenF w) = {} \<and> distinct nS \<and> distinct nF
     \<and> set nS \<subseteq> {..<length (sigs e)} \<and> set nF \<subseteq> {..<length (nodes e)} \<inter> set (func_list e)
     \<and> set sq \<inter> {..<length (sigs e)} \<subseteq> set (seenS w') \<and> set fq \<inter> {..<length (nodes e)} \<subseteq> set (seenF w')
     \<and> (\<forall>x y. x \<in> Inl ` set nS \<union> Inr ` set nF \<longrightarrow> (x, y) \<in> link e \<longrightarrow> y \<in> Inl ` set (seenS w') \<union> Inr ` set (seenF w'))
     \<and> (\<forall>x \<in> Inl ` set nS \<union> Inr ` set nF. \<exists>y \<in> Inl ` set sq \<union> Inr ` set fq. (y, x) \<in> (link e)\<^sup>*)"

lemma walked_reach:
  assumes "walked e sq fq w nS nF w'" "x \<in> Inl ` set nS \<union> Inr ` set nF"
  obtains y where "y \<in> Inl ` set sq \<union> Inr ` set fq" "(y, x) \<in> (link e)\<^sup>*"
proof -
  have "\<forall>x \<in> Inl ` set nS \<union> Inr ` set nF. \<exists>y \<in> Inl ` set sq \<union> Inr ` set fq. (y, x) \<in> (link e)\<^sup>*"
    using assms(1) unfolding walked_def by (elim conjE)
  with assms(2) show ?thesis using that by blast
qed

lemma walked_link:
  assumes "walked e sq fq w nS nF w'" "x \<in> Inl ` set nS \<union> Inr ` set nF" "(x, y) \<in> link e"
  shows "y \<in> Inl ` set (seenS w') \<union> Inr ` set (seenF w')"
proof -
  have "\<forall>x y. x \<in> Inl ` set nS \<union> Inr ` set nF \<longrightarrow> (x, y) \<in> link e \<longrightarrow> y \<in> Inl ` set (seenS w') \<union> Inr ` set (seenF w')"
    using assms(1) unfolding walked_def by (elim conjE)
  with assms(2,3) show ?thesis by blast
qed

lemma link_Inl:
  "(Inl s, y) \<in> link e \<longleftrightarrow>
     (\<exists>t. y = Inl t \<and> s < length (sigs e) \<and> t < length (sigs e) \<and> t \<in> set (linked_sigs e s)) \<or> (\<exists>f. y = Inr f \<and> has_port e f s)"
  by (auto simp: link_def)

lemma link_Inr: "(Inr f, y) \<in> link e \<longleftrightarrow> (\<exists>s. y = Inl s \<and> has_port e f s)"
  by (auto simp: link_def)

lemma walked_signal:
  assumes b: "consumers_built e" and s: "s < length (sigs e)" "s \<notin> set (seenS w)"
    and "walked e (sq @ new_sigs e (s # seenS w) (linked_sigs e s))
          (fq @ new_funs e (seenF w) (consumers e s @ producers e s))
          (w\<lparr>seenS := s # seenS w, foundS := foundS w @ [s]\<rparr>) nS nF w'"
  shows "walked e (s # sq) fq w (s # nS) nF w'"
proof -
  note a = assms(4) [unfolded walked_def]
  have lk: "y \<in> Inl ` set (seenS w') \<union> Inr ` set (seenF w')" if "(Inl s, y) \<in> link e" for y
    using that a unfolding link_Inl
  proof (elim disjE exE conjE)
    fix t assume t: "y = Inl t" "t < length (sigs e)" "t \<in> set (linked_sigs e s)"
    have "t \<in> set (s # seenS w) \<or> t \<in> set (new_sigs e (s # seenS w) (linked_sigs e s))"
      using t by auto
    then have "t \<in> set (seenS w')" using a t(2) by auto
    then show ?thesis by (simp add: t(1))
  next
    fix f assume f: "y = Inr f" "has_port e f s"
    then have v: "f < length (nodes e)" "f \<in> set (consumers e s @ producers e s)"
      using neighbours [OF b s(1), of f] by (simp_all add: has_port_def)
    then have "f \<in> set (seenF w) \<or> f \<in> set (new_funs e (seenF w) (consumers e s @ producers e s))"
      by auto
    then have "f \<in> set (seenF w')" using a v(1) by auto
    then show ?thesis by (simp add: f(1))
  qed
  have first: "(Inl s, y) \<in> (link e)\<^sup>*"
    if "y \<in> Inl ` set (new_sigs e (s # seenS w) (linked_sigs e s)) \<union> Inr ` set (new_funs e (seenF w) (consumers e s @ producers e s))" for y
  proof (rule r_into_rtrancl)
    show "(Inl s, y) \<in> link e" using that s(1) neighbours [OF b s(1)]
      unfolding link_Inl by (auto simp del: set_append)
  qed
  have reach: "\<exists>y \<in> Inl ` set (s # sq) \<union> Inr ` set fq. (y, x) \<in> (link e)\<^sup>*" if x: "x \<in> Inl ` set nS \<union> Inr ` set nF" for x
  proof -
    obtain y where y: "y \<in> Inl ` set (sq @ new_sigs e (s # seenS w) (linked_sigs e s))
      \<union> Inr ` set (fq @ new_funs e (seenF w) (consumers e s @ producers e s))" "(y, x) \<in> (link e)\<^sup>*"
      using walked_reach [OF assms(4) x] by blast
    consider "y \<in> Inl ` set sq \<union> Inr ` set fq"
      | "y \<in> Inl ` set (new_sigs e (s # seenS w) (linked_sigs e s)) \<union> Inr ` set (new_funs e (seenF w) (consumers e s @ producers e s))"
      using y(1) by auto
    then show ?thesis
    proof cases
      case 2
      then show ?thesis using rtrancl_trans [OF first y(2)] by auto
    qed (use y(2) in auto)
  qed
  have "\<exists>y \<in> Inl ` set (s # sq) \<union> Inr ` set fq. (y, Inl s) \<in> (link e)\<^sup>*" by auto
  then have R: "\<forall>x \<in> Inl ` set (s # nS) \<union> Inr ` set nF. \<exists>y \<in> Inl ` set (s # sq) \<union> Inr ` set fq. (y, x) \<in> (link e)\<^sup>*"
    using reach by auto
  have L: "y \<in> Inl ` set (seenS w') \<union> Inr ` set (seenF w')" if "x \<in> Inl ` set (s # nS) \<union> Inr ` set nF" "(x, y) \<in> link e" for x y
  proof (cases "x = Inl s")
    case False
    then have "x \<in> Inl ` set nS \<union> Inr ` set nF" using that(1) by auto
    from walked_link [OF assms(4) this that(2)] show ?thesis .
  qed (use that(2) lk in simp)
  show ?thesis unfolding walked_def using a s R L by auto
qed

lemma walked_func:
  assumes f: "f < length (nodes e)" "f \<notin> set (seenF w)" "f \<in> set (func_list e)"
    and "walked e (new_sigs e (seenS w) (node_sigs e f)) fq (w\<lparr>seenF := f # seenF w, foundF := foundF w @ [f]\<rparr>) nS nF w'"
  shows "walked e [] (f # fq) w nS (f # nF) w'"
proof -
  note a = assms(4) [unfolded walked_def]
  have lk: "y \<in> Inl ` set (seenS w') \<union> Inr ` set (seenF w')" if "(Inr f, y) \<in> link e" for y
    using that a unfolding link_Inr
  proof (elim exE conjE)
    fix s assume s: "y = Inl s" "has_port e f s"
    then have "s \<in> set (seenS w) \<or> s \<in> set (new_sigs e (seenS w) (node_sigs e f))"
      by (auto simp: has_port_def)
    then have "s \<in> set (seenS w')" using a s(2) by (auto simp: has_port_def)
    then show ?thesis by (simp add: s(1))
  qed
  have first: "(Inr f, y) \<in> (link e)\<^sup>*" if "y \<in> Inl ` set (new_sigs e (seenS w) (node_sigs e f))" for y
    by (rule r_into_rtrancl) (use that f in \<open>auto simp: link_Inr has_port_def\<close>)
  have reach: "\<exists>y \<in> Inl ` set [] \<union> Inr ` set (f # fq). (y, x) \<in> (link e)\<^sup>*" if x: "x \<in> Inl ` set nS \<union> Inr ` set nF" for x
  proof -
    obtain y where y: "y \<in> Inl ` set (new_sigs e (seenS w) (node_sigs e f)) \<union> Inr ` set fq" "(y, x) \<in> (link e)\<^sup>*"
      using walked_reach [OF assms(4) x] by blast
    then show ?thesis using rtrancl_trans [OF first y(2)] by auto
  qed
  then have R: "\<forall>x \<in> Inl ` set nS \<union> Inr ` set (f # nF). \<exists>y \<in> Inl ` set [] \<union> Inr ` set (f # fq). (y, x) \<in> (link e)\<^sup>*"
    by auto
  have L: "y \<in> Inl ` set (seenS w') \<union> Inr ` set (seenF w')" if "x \<in> Inl ` set nS \<union> Inr ` set (f # nF)" "(x, y) \<in> link e" for x y
  proof (cases "x = Inr f")
    case False
    then have "x \<in> Inl ` set nS \<union> Inr ` set nF" using that(1) by auto
    from walked_link [OF assms(4) this that(2)] show ?thesis .
  qed (use that(2) lk in simp)
  show ?thesis unfolding walked_def using a f R L by auto
qed

lemma walked_more:
  assumes "walked e sq fq w nS nF w'" "set sq \<subseteq> set sq'" "set fq \<subseteq> set fq'"
    and "set sq' \<inter> {..<length (sigs e)} \<subseteq> set (seenS w')" "set fq' \<inter> {..<length (nodes e)} \<subseteq> set (seenF w')"
  shows "walked e sq' fq' w nS nF w'"
proof -
  have "Inl ` set sq \<union> Inr ` set fq \<subseteq> Inl ` set sq' \<union> Inr ` set fq'" using assms(2,3) by blast
  then have "\<forall>x \<in> Inl ` set nS \<union> Inr ` set nF. \<exists>y \<in> Inl ` set sq' \<union> Inr ` set fq'. (y, x) \<in> (link e)\<^sup>*"
    using assms(1) unfolding walked_def by (meson subsetD)
  then show ?thesis using assms(1,4,5) unfolding walked_def by (elim conjE, intro conjI) assumption+
qed

lemma walked_skip_signal:
  assumes "walked e sq fq w nS nF w'" "s \<ge> length (sigs e) \<or> s \<in> set (seenS w)"
  shows "walked e (s # sq) fq w nS nF w'"
  by (rule walked_more [OF assms(1)]) (use assms in \<open>auto simp: walked_def\<close>)

lemma walked_skip_func:
  assumes "walked e sq fq w nS nF w'" "f \<ge> length (nodes e) \<or> f \<in> set (seenF w)"
  shows "walked e sq (f # fq) w nS nF w'"
  by (rule walked_more [OF assms(1)]) (use assms in \<open>auto simp: walked_def\<close>)

lemma processQueues_walked:
  assumes "consumers_built e" "set fq \<subseteq> set (func_list e)"
  shows "\<exists>nS nF. walked e sq fq w nS nF (processQueues e sq fq w)"
  using assms
proof (induction e sq fq w rule: processQueues.induct)
  case (1 e s sq fq w)
  show ?case
  proof (cases "s \<ge> length (sigs e) \<or> s \<in> set (seenS w)")
    case True
    then have "processQueues e (s # sq) fq w = processQueues e sq fq w" by auto
    then show ?thesis using 1(1) [OF True 1(3,4)] walked_skip_signal True by metis
  next
    case False
    have "set (new_funs e (seenF w) (consumers e s @ producers e s)) \<subseteq> set (func_list e)"
      using 1(3) by (auto simp: new_funs_def consumers_built_def producers_def)
    then have "\<exists>nS nF. walked e (sq @ new_sigs e (s # seenS w) (linked_sigs e s))
          (fq @ new_funs e (seenF w) (consumers e s @ producers e s))
          (w\<lparr>seenS := s # seenS w, foundS := foundS w @ [s]\<rparr>) nS nF (processQueues e (s # sq) fq w)"
      using 1(2) [OF False refl 1(3)] 1(4) False by (simp add: Let_def)
    then show ?thesis using walked_signal [OF 1(3), of s w sq fq] False by (metis not_le)
  qed
next
  case (2 e f fq w)
  show ?case
  proof (cases "f \<ge> length (nodes e) \<or> f \<in> set (seenF w)")
    case True
    then have "processQueues e [] (f # fq) w = processQueues e [] fq w" by auto
    moreover have "\<exists>nS nF. walked e [] fq w nS nF (processQueues e [] fq w)" using 2(1) [OF True 2(3)] 2(4) by simp
    ultimately show ?thesis using walked_skip_func True by metis
  next
    case False
    then have "\<exists>nS nF. walked e (new_sigs e (seenS w) (node_sigs e f)) fq
        (w\<lparr>seenF := f # seenF w, foundF := foundF w @ [f]\<rparr>) nS nF (processQueues e [] (f # fq) w)"
      using 2(2) [OF False refl 2(3)] 2(4) by (simp add: Let_def)
    then show ?thesis using walked_func [of f e w fq] False 2(4) by (metis list.set_intros(1) not_le subsetD)
  qed
next
  case (3 e w)
  show ?case by (intro exI [of _ "[]"]) (simp add: walked_def)
qed

text \<open>The islands found so far: complete connected parts, apart from each other.\<close>

definition members :: "island \<Rightarrow> (nat + nat) set" where
  "members i = Inl ` set (is_signals i) \<union> Inr ` set (is_funcs i)"

definition parts :: "engine \<Rightarrow> nat list \<times> nat list \<times> island list \<Rightarrow> bool" where
  "parts e st \<longleftrightarrow> (case st of (ss, fs, is) \<Rightarrow>
     distinct (concat (map is_signals is)) \<and> distinct (concat (map is_funcs is))
     \<and> set (concat (map is_signals is)) = set ss \<and> set (concat (map is_funcs is)) = set fs
     \<and> set ss \<subseteq> {..<length (sigs e)} \<and> set fs \<subseteq> {..<length (nodes e)} \<inter> set (func_list e)
     \<and> (\<forall>i \<in> set is. \<forall>x \<in> members i. members i = (link e)\<^sup>* `` {x}))"

lemma sym_rtrancl_link: "sym (link e) \<Longrightarrow> (x, y) \<in> (link e)\<^sup>* \<Longrightarrow> (y, x) \<in> (link e)\<^sup>*"
  by (metis sym_rtrancl symD)

lemma closed_rtrancl: "(x, y) \<in> r\<^sup>* \<Longrightarrow> x \<in> A \<Longrightarrow> (\<And>a b. a \<in> A \<Longrightarrow> (a, b) \<in> r \<Longrightarrow> b \<in> A) \<Longrightarrow> y \<in> A"
  by (induction rule: rtrancl_induct) auto

lemma island_from_parts:
  assumes b: "consumers_built e" and sy: "sym (link e)" and p: "parts e (ss, fs, is)"
    and seed: "(sq, fq) = ([s], []) \<and> s < length (sigs e) \<or> (sq, fq) = ([], [f]) \<and> f < length (nodes e) \<and> f \<in> set (func_list e)"
    and r: "island_from e sq fq (ss, fs, is) = (ss', fs', is')"
  shows "parts e (ss', fs', is') \<and> set ss \<union> set sq \<subseteq> set ss' \<and> set fs \<union> set fq \<subseteq> set fs'"
proof -
  obtain w where w: "w = \<lparr>seenS = ss, seenF = fs, foundS = [], foundF = []\<rparr>" by simp
  have fq: "set fq \<subseteq> set (func_list e)" using seed by auto
  obtain w' where w': "w' = processQueues e sq fq w" by simp
  obtain nS nF where wk: "walked e sq fq w nS nF w'" using processQueues_walked [OF b fq] unfolding w' by blast
  note a = wk [unfolded walked_def]
  obtain c where c: "c = (case sq of x # _ \<Rightarrow> Inl x | [] \<Rightarrow> Inr f)" by simp
  have seeds: "Inl ` set sq \<union> Inr ` set fq = {c}" using seed by (auto simp: c)
  have new: "set ss' = set ss \<union> set nS" "set fs' = set fs \<union> set nF"
    and is': "is' = (if nS \<noteq> [] \<or> nF \<noteq> [] then is @ [blank_island nS nF] else is)"
    using r a by (auto simp: island_from_def w [symmetric] w' [symmetric] Let_def) (auto simp: w)
  note P = p [unfolded parts_def, simplified]
  obtain N where N: "N = Inl ` set nS \<union> Inr ` set nF" by simp
  obtain D where D: "D = Inl ` set ss \<union> Inr ` set fs" by simp
  have Dm: "x \<in> D \<longleftrightarrow> (\<exists>i \<in> set is. x \<in> members i)" for x using P unfolding D members_def by fastforce
  have disj: "N \<inter> D = {}" using a by (auto simp: N D w)
  have step: "y \<in> N" if "x \<in> N" "(x, y) \<in> link e" for x y
  proof -
    have "y \<in> Inl ` set (seenS w') \<union> Inr ` set (seenF w')" using walked_link [OF wk _ that(2)] that(1) unfolding N by blast
    then have "y \<in> N \<union> D" using a by (auto simp: N D w)
    moreover have "y \<notin> D"
    proof
      assume "y \<in> D"
      then obtain i where i: "i \<in> set is" "y \<in> members i" using Dm by blast
      have "(y, x) \<in> link e" using sy that(2) by (rule symD)
      then have "x \<in> members i" using P i by blast
      then show False using Dm i(1) disj that(1) by blast
    qed
    ultimately show ?thesis by simp
  qed
  have reach: "(c, x) \<in> (link e)\<^sup>*" if "x \<in> N" for x using walked_reach [OF wk, of x] that seeds by (metis N singletonD)
  have part: "N = (link e)\<^sup>* `` {x}" if x: "x \<in> N" for x
  proof
    show "N \<subseteq> (link e)\<^sup>* `` {x}"
    proof
      fix y assume "y \<in> N"
      have "(x, c) \<in> (link e)\<^sup>*" using sym_rtrancl_link [OF sy reach [OF x]] .
      then show "y \<in> (link e)\<^sup>* `` {x}" using reach [OF \<open>y \<in> N\<close>] by auto
    qed
    show "(link e)\<^sup>* `` {x} \<subseteq> N" using closed_rtrancl [of x _ "link e" N] x step by blast
  qed
  have "members (blank_island nS nF) = N" by (simp add: members_def blank_island_def N)
  then have "\<forall>i \<in> set is'. \<forall>x \<in> members i. members i = (link e)\<^sup>* `` {x}" using P part is' by auto
  moreover have "distinct (concat (map is_signals is'))" "distinct (concat (map is_funcs is'))"
    "set (concat (map is_signals is')) = set ss'" "set (concat (map is_funcs is')) = set fs'"
    using P a by (auto simp: is' new w blank_island_def)
  ultimately have "parts e (ss', fs', is')" using P a by (auto simp: parts_def new)
  moreover have "set sq \<subseteq> set ss'" "set fq \<subseteq> set fs'" using a seed by (auto simp: new w)
  ultimately show ?thesis by (auto simp: new)
qed

lemma fold_signals_parts:
  assumes "consumers_built e" "sym (link e)" "set xs \<subseteq> {..<length (sigs e)}" "parts e st"
  shows "parts e (fold (\<lambda>s st. if s \<in> set (fst st) then st else island_from e [s] [] st) xs st)
    \<and> set (fst st) \<union> set xs \<subseteq> set (fst (fold (\<lambda>s st. if s \<in> set (fst st) then st else island_from e [s] [] st) xs st))"
  using assms(3,4)
proof (induction xs arbitrary: st)
  case (Cons x xs)
  obtain st1 where st1: "st1 = (if x \<in> set (fst st) then st else island_from e [x] [] st)" by simp
  have "parts e st1 \<and> set (fst st) \<union> {x} \<subseteq> set (fst st1)"
  proof (cases "x \<in> set (fst st)")
    case False
    obtain ss fs isl ss' fs' isl' where e: "st = (ss, fs, isl)" "island_from e [x] [] (ss, fs, isl) = (ss', fs', isl')"
      using prod_cases3 by metis
    from island_from_parts [OF assms(1,2) _ _ e(2), of x] Cons.prems e(1)
    show ?thesis using False by (simp add: st1 e)
  qed (use Cons.prems in \<open>auto simp: st1\<close>)
  with Cons.IH [of st1] Cons.prems(1) show ?case by (auto simp: st1 [symmetric])
qed simp

lemma fold_funcs_parts:
  assumes "consumers_built e" "sym (link e)" "set xs \<subseteq> {..<length (nodes e)} \<inter> set (func_list e)" "parts e st"
  shows "parts e (fold (\<lambda>f st. if f \<in> set (fst (snd st)) then st else island_from e [] [f] st) xs st)
    \<and> set (fst st) \<subseteq> set (fst (fold (\<lambda>f st. if f \<in> set (fst (snd st)) then st else island_from e [] [f] st) xs st))
    \<and> set (fst (snd st)) \<union> set xs \<subseteq> set (fst (snd (fold (\<lambda>f st. if f \<in> set (fst (snd st)) then st else island_from e [] [f] st) xs st)))"
  using assms(3,4)
proof (induction xs arbitrary: st)
  case (Cons x xs)
  obtain st1 where st1: "st1 = (if x \<in> set (fst (snd st)) then st else island_from e [] [x] st)" by simp
  have "parts e st1 \<and> set (fst st) \<subseteq> set (fst st1) \<and> set (fst (snd st)) \<union> {x} \<subseteq> set (fst (snd st1))"
  proof (cases "x \<in> set (fst (snd st))")
    case False
    obtain ss fs isl ss' fs' isl' where e: "st = (ss, fs, isl)" "island_from e [] [x] (ss, fs, isl) = (ss', fs', isl')"
      using prod_cases3 by metis
    from island_from_parts [OF assms(1,2) _ _ e(2), of _ x] Cons.prems e(1)
    show ?thesis using False by (simp add: st1 e)
  qed (use Cons.prems in \<open>auto simp: st1\<close>)
  with Cons.IH [of st1] Cons.prems(1) show ?case by (auto simp: st1 [symmetric])
qed simp

definition registered_valid :: "engine \<Rightarrow> bool" where
  "registered_valid e \<longleftrightarrow> set (signals e) \<subseteq> {..<length (sigs e)} \<and> set (func_list e) \<subseteq> {..<length (nodes e)}"

lemma computeNetworkIslands_lemma:
  assumes "consumers_built e" "sym (link e)" "registered_valid e"
  shows "distinct (concat (map is_signals (islands (computeNetworkIslands e))))
    \<and> distinct (concat (map is_funcs (islands (computeNetworkIslands e))))
    \<and> set (signals e) \<subseteq> set (concat (map is_signals (islands (computeNetworkIslands e))))
    \<and> set (concat (map is_signals (islands (computeNetworkIslands e)))) \<subseteq> {..<length (sigs e)}
    \<and> set (concat (map is_funcs (islands (computeNetworkIslands e)))) = set (func_list e)
    \<and> (\<forall>i \<in> set (islands (computeNetworkIslands e)). \<forall>x \<in> members i. members i = (link e)\<^sup>* `` {x})"
proof -
  have p0: "parts e ([], [], [])" by (simp add: parts_def)
  obtain st1 where st1: "st1 = fold (\<lambda>s st. if s \<in> set (fst st) then st else island_from e [s] [] st) (signals e) ([], [], [])"
    by simp
  have p1: "parts e st1" "set (signals e) \<subseteq> set (fst st1)"
    using fold_signals_parts [OF assms(1,2) _ p0, of "signals e"] assms(3) by (simp_all add: registered_valid_def st1)
  obtain st2 where st2: "st2 = fold (\<lambda>f st. if f \<in> set (fst (snd st)) then st else island_from e [] [f] st) (func_list e) st1"
    by simp
  have p2: "parts e st2" "set (fst st1) \<subseteq> set (fst st2)" "set (func_list e) \<subseteq> set (fst (snd st2))"
    using fold_funcs_parts [OF assms(1,2) _ p1(1), of "func_list e"] assms(3) by (simp_all add: registered_valid_def st2)
  obtain ss fs isl where s: "st2 = (ss, fs, isl)" by (cases st2)
  have "islands (computeNetworkIslands e) = isl"
    using s by (simp add: computeNetworkIslands_def st1 [symmetric] st2 [symmetric] Let_def)
  moreover have "set fs = set (func_list e)" using p2 by (auto simp: s parts_def)
  ultimately show ?thesis using p1(2) p2 by (auto simp: s parts_def)
qed

section \<open>Consumers\<close>

lemma add_consumer_fields [simp]:
  "nodes (add_consumer f p e) = nodes e" "funcs (add_consumer f p e) = funcs e" "signals (add_consumer f p e) = signals e"
  "length (sigs (add_consumer f p e)) = length (sigs e)"
  "consumers (add_consumer f p e) = (consumers e)(in_signal p := consumers e (in_signal p) @ [f])"
  by (simp_all add: add_consumer_def set_sig_def Let_def)

lemma update_field:
  assumes "\<And>s. F (g s) = F s" shows "F (xs[j := g (xs ! j)] ! i) = F (xs ! i)"
  using assms by (cases "j < length xs"; cases "i = j") (simp_all add: not_less list_update_beyond)

lemma add_consumer_field:
  assumes "\<And>s m. F (maxHistory_update (\<lambda>_. m) s) = F s"
  shows "F (sigs (add_consumer f p e) ! i) = F (sigs e ! i)"
  unfolding add_consumer_def set_sig_def Let_def by (simp add: update_field assms)

lemmas add_consumer_signal = add_consumer_field [where F = period, simplified] add_consumer_field [where F = isDerived, simplified]
  add_consumer_field [where F = baseSignal, simplified] add_consumer_field [where F = baseIndex, simplified]
  add_consumer_field [where F = dependents, simplified]

definition same_links :: "engine \<Rightarrow> engine \<Rightarrow> bool" where
  "same_links e e' \<longleftrightarrow> nodes e' = nodes e \<and> funcs e' = funcs e \<and> signals e' = signals e
     \<and> length (sigs e') = length (sigs e)
     \<and> (\<forall>i. period (sigs e' ! i) = period (sigs e ! i) \<and> isDerived (sigs e' ! i) = isDerived (sigs e ! i)
          \<and> baseSignal (sigs e' ! i) = baseSignal (sigs e ! i) \<and> baseIndex (sigs e' ! i) = baseIndex (sigs e ! i)
          \<and> dependents (sigs e' ! i) = dependents (sigs e ! i))"

lemma same_links_refl: "same_links e e"
  by (simp add: same_links_def)

lemma same_links_link:
  assumes "same_links e e'" shows "link e' = link e"
proof -
  have "linked_sigs e' s = linked_sigs e s" for s using assms by (simp add: same_links_def linked_sigs_def)
  moreover have "has_port e' f s = has_port e f s" for f s
    using assms by (simp add: same_links_def has_port_def func_list_def node_sigs_def)
  moreover have "length (sigs e') = length (sigs e)" using assms by (simp add: same_links_def)
  ultimately show ?thesis unfolding link_def by (simp only:)
qed

lemma add_consumers:
  "same_links e (fold (add_consumer f) ps e) \<and>
   set (consumers (fold (add_consumer f) ps e) s) = set (consumers e s) \<union> (if s \<in> in_signal ` set ps then {f} else {})"
proof (induction ps arbitrary: e)
  case (Cons p ps)
  have "same_links e (add_consumer f p e)" by (simp add: same_links_def add_consumer_signal)
  moreover have "set (consumers (add_consumer f p e) s) = set (consumers e s) \<union> (if s = in_signal p then {f} else {})" by simp
  ultimately show ?case using Cons.IH [of "add_consumer f p e"] by (simp add: same_links_def image_iff)
qed (simp add: same_links_def)

lemma buildSignalConsumers_lemma:
  "same_links e (buildSignalConsumers e) \<and> consumers_built (buildSignalConsumers e)"
proof -
  have "same_links e (fold (\<lambda>f e. fold (add_consumer f) (n_inputs (nodes e ! f)) e) fs e) \<and>
    (\<forall>s. set (consumers (fold (\<lambda>f e. fold (add_consumer f) (n_inputs (nodes e ! f)) e) fs e) s)
       = set (consumers e s) \<union> {f \<in> set fs. s \<in> set (in_signals (nodes e ! f))})" for fs e
  proof (induction fs arbitrary: e)
    case (Cons f fs)
    obtain e1 where e1: "e1 = fold (add_consumer f) (n_inputs (nodes e ! f)) e" by simp
    have "same_links e e1" "set (consumers e1 s) = set (consumers e s) \<union> (if s \<in> set (in_signals (nodes e ! f)) then {f} else {})" for s
      using add_consumers [of e f "n_inputs (nodes e ! f)" s] by (simp_all add: e1 in_signals_def)
    then show ?case using Cons.IH [of e1] by (auto simp: e1 [symmetric] same_links_def)
  qed (simp add: same_links_refl)
  from this [of "e\<lparr>consumers := \<lambda>_. []\<rparr>" "func_list e"] show ?thesis
    by (auto simp: buildSignalConsumers_def consumers_built_def same_links_def func_list_def)
qed

end
