(* ===== verification/Dataflow_Tick.thy ===== *)
theory Dataflow_Tick
  imports Dataflow_Graph
begin

text \<open>
  Samples moving through the network (\<open>dataflow/Signal.cpp\<close>, \<open>dataflow/FuncNode.cpp\<close>,
  \<open>dataflow/DataflowEngine.cpp\<close>): writing a signal and the wires behind it, executing a node, one
  evaluation of an island, the periodic tick, and updates of event-driven signals.  Bodies run to
  completion: bodies that suspend or return futures are outside.
\<close>

section \<open>Writing a signal\<close>

fun fold_ok :: "('a \<Rightarrow> 's \<Rightarrow> 'e + 's) \<Rightarrow> 'a list \<Rightarrow> 's \<Rightarrow> 'e + 's" where
  "fold_ok f [] s = Inr s"
| "fold_ok f (x # xs) s = seq_then (f x s) (fold_ok f xs)"

definition mark_available :: "nat \<Rightarrow> time \<Rightarrow> fnode \<Rightarrow> fnode" where
  "mark_available s t n = n\<lparr>n_inputs := map (\<lambda>p. if in_signal p = s then p\<lparr>in_available := t\<rparr> else p) (n_inputs n)\<rparr>"

definition updateAvailability :: "nat \<Rightarrow> time \<Rightarrow> engine \<Rightarrow> engine" where
  "updateAvailability s t e = fold (\<lambda>f e. set_node f (mark_available s t (nodes e ! f)) e) (consumers e s) e"

text \<open>
  \<open>publishSample\<close>: the change is announced, the wires of the signal are written, then an event-driven
  source asks for the evaluation of its island.
\<close>

definition publishSample ::
  "(nat \<Rightarrow> engine \<Rightarrow> df_error + engine) \<Rightarrow> time \<Rightarrow> operand \<Rightarrow> bool \<Rightarrow> nat \<Rightarrow> engine \<Rightarrow> df_error + engine" where
  "publishSample write t v changed i e =
     (let s = sigs e ! i;
          e1 = (if changed then e\<lparr>notified := notified e @ [(i, t, v)]\<rparr> else e) in
      seq_then (fold_ok (\<lambda>d e.
          if d \<ge> length (sigs e) \<or> baseIndex (sigs e ! d) \<noteq> 0 then Inr e
          else seq_then (write d e) (\<lambda>e. Inr (if eventDriven s then e else updateAvailability d t e)))
        (dependents s) e1) (\<lambda>e2.
      if eventDriven s then
        (let e3 = updateAvailability i t e2 in
         Inr (if isSource s \<and> \<not> isDerived s then e3\<lparr>pendingEvents := pendingEvents e3 @ [(i, t)]\<rparr> else e3))
      else Inr e2))"

fun setValueAt :: "nat \<Rightarrow> time \<Rightarrow> operand \<Rightarrow> nat \<Rightarrow> engine \<Rightarrow> df_error + engine" where
  "setValueAt 0 t v i e = Inl Chain_Too_Deep"
| "setValueAt (Suc k) t v i e =
     (if i \<ge> length (sigs e) then Inl Null_Signal
      else seq_then (store_sample t v (sigs e ! i)) (\<lambda>(changed, s).
        publishSample (setValueAt k t v) t v changed i (set_sig i s e)))"

text \<open>A chain of wires is never longer than the number of signals.\<close>

definition write_signal :: "time \<Rightarrow> operand \<Rightarrow> nat \<Rightarrow> engine \<Rightarrow> df_error + engine" where
  "write_signal t v i e = setValueAt (length (sigs e)) t v i e"

definition set_signal :: "time \<Rightarrow> operand \<Rightarrow> nat \<Rightarrow> engine \<Rightarrow> df_error + engine" where
  "set_signal now v i e =
     (if eventDriven (sigs e ! i) then write_signal now v i e
      else (let t = tickStart e + period (sigs e ! i) in
        seq_then (write_signal t v i e) (\<lambda>e1. Inr (updateAvailability i t e1))))"

definition tick_signal :: "time \<Rightarrow> nat \<Rightarrow> engine \<Rightarrow> df_error + engine" where
  "tick_signal t i e =
     (if isClock (sigs e ! i) then
        seq_then (clock_tick_value (sigs e ! i)) (\<lambda>(v, s). write_signal t v i (set_sig i s e))
      else Inr e)"

section \<open>Executing a node\<close>

definition is_nil :: "operand \<Rightarrow> bool" where
  "is_nil v \<longleftrightarrow> v = Sc SNil"

definition port_time :: "engine \<Rightarrow> time \<Rightarrow> port \<Rightarrow> time" where
  "port_time e t p = t - period (sigs e ! in_signal p) * - in_index p"

definition port_available :: "engine \<Rightarrow> time \<Rightarrow> port \<Rightarrow> bool" where
  "port_available e t p =
     (let h = history (sigs e ! in_signal p); a = min (port_time e t p) (latestSampleTime h) in
      in_default p \<noteq> None
      \<or> in_available p \<ge> a \<and> (case valueAt h a of Some v \<Rightarrow> \<not> is_nil v | None \<Rightarrow> False))"

definition inputsAvailableAt :: "nat \<Rightarrow> time \<Rightarrow> engine \<Rightarrow> bool" where
  "inputsAvailableAt f t e = list_all (port_available e t) (n_inputs (nodes e ! f))"

definition or_default :: "port \<Rightarrow> df_error + operand" where
  "or_default p = (case in_default p of Some d \<Rightarrow> Inr d | None \<Rightarrow> Inl Not_Available)"

definition port_value :: "engine \<Rightarrow> time \<Rightarrow> port \<Rightarrow> df_error + operand" where
  "port_value e t p =
     (let s = sigs e ! in_signal p; u = port_time e t p; fallback = min u (latestSampleTime (history s)) in
      case valueIfAvailableAt s u of
        Some v \<Rightarrow>
          if \<not> is_nil v then Inr v
          else (case in_default p of
              Some d \<Rightarrow> Inr d
            | None \<Rightarrow> (case valueAt (history s) fallback of Some w \<Rightarrow> Inr w | None \<Rightarrow> Inl Not_Available))
      | None \<Rightarrow>
          if fallback < 0 \<and> in_default p = None then Inl Not_Available
          else (case valueAt (history s) fallback of
              Some w \<Rightarrow> if \<not> is_nil w then Inr w else or_default p
            | None \<Rightarrow> or_default p))"

fun map_ok :: "('a \<Rightarrow> 'e + 'b) \<Rightarrow> 'a list \<Rightarrow> 'e + 'b list" where
  "map_ok f [] = Inr []"
| "map_ok f (x # xs) = seq_then (f x) (\<lambda>y. seq_then (map_ok f xs) (\<lambda>ys. Inr (y # ys)))"

definition gather :: "nat \<Rightarrow> time \<Rightarrow> engine \<Rightarrow> df_error + operand list" where
  "gather f t e = map_ok (port_value e t) (n_inputs (nodes e ! f))"

text \<open>The arguments by parameter, with the trailing parameters that nothing supplies left out.\<close>

fun assemble :: "(string \<times> operand) list \<Rightarrow> string list \<Rightarrow> operand list \<Rightarrow> operand option list" where
  "assemble cs [] vs = []"
| "assemble cs (x # xs) vs =
     (case map_of cs x of
        Some c \<Rightarrow> Some c # assemble cs xs vs
      | None \<Rightarrow> (case vs of v # vs' \<Rightarrow> Some v # assemble cs xs vs' | [] \<Rightarrow> None # assemble cs xs []))"

definition assembleArgs :: "fnode \<Rightarrow> operand list \<Rightarrow> operand list" where
  "assembleArgs n vs =
     map (\<lambda>a. case a of Some v \<Rightarrow> v | None \<Rightarrow> Sc SNil)
       (rev (dropWhile (\<lambda>a. a = None) (rev (assemble (n_consts n) (n_params n) vs))))"

definition same_values :: "operand list \<Rightarrow> operand list \<Rightarrow> bool" where
  "same_values = list_all2 equals"

datatype exec_result = Not_Executed | Completed | Body_Error | Threw df_error

text \<open>
  The outputs are written in turn; a write that throws leaves the ones before it written.  (A write
  throws before it stores, its wires are written after it.)
\<close>

fun fold_keep :: "('a \<Rightarrow> 's \<Rightarrow> 'e + 's) \<Rightarrow> 'a list \<Rightarrow> 's \<Rightarrow> 'e option \<times> 's" where
  "fold_keep f [] s = (None, s)"
| "fold_keep f (x # xs) s = (case f x s of Inl er \<Rightarrow> (Some er, s) | Inr s1 \<Rightarrow> fold_keep f xs s1)"

text \<open>\<open>finishEvaluation\<close>; the execution callbacks, which observe the values only, are left out.\<close>

definition finishEvaluation :: "time \<Rightarrow> nat \<Rightarrow> operand list \<Rightarrow> operand list \<Rightarrow> engine \<Rightarrow> exec_result \<times> engine" where
  "finishEvaluation t f ins outs e =
     (let n = nodes e ! f in
      if length outs \<noteq> length (n_outputs n) then (Threw Wrong_Arity, e)
      else (let e1 = set_node f (n\<lparr>n_prevOut := outs, n_prevIn := ins\<rparr>) e in
        case fold_keep (\<lambda>(s, v). write_signal t v s) (zip (n_outputs n) outs) e1 of
          (Some er, e2) \<Rightarrow> (Threw er, e2)
        | (None, e2) \<Rightarrow> (Completed, set_node f ((nodes e2 ! f)\<lparr>n_failed := False\<rparr>) e2)))"

lemma fold_keep_ok: "fold_ok f xs s = Inr s' \<Longrightarrow> fold_keep f xs s = (None, s')"
  by (induction xs arbitrary: s) (auto simp: seq_then_def split: sum.splits)

definition conditionallyExecute :: "time \<Rightarrow> nat \<Rightarrow> engine \<Rightarrow> exec_result \<times> engine" where
  "conditionallyExecute t f e =
     (let n = nodes e ! f in
      case gather f t e of
        Inl er \<Rightarrow> (Threw er, e)
      | Inr ins \<Rightarrow>
          if same_values (n_prevIn n) ins then (Not_Executed, set_node f (n\<lparr>n_prevIn := ins\<rparr>) e)
          else (case n_body n (assembleArgs n ins) of
              None \<Rightarrow> (if n_native n then Threw Not_Available else Body_Error, e)
            | Some outs \<Rightarrow> finishEvaluation t f ins outs e))"

section \<open>Evaluating an island\<close>

datatype step = Skipped | Executed | Stopped

definition visit_node :: "time \<Rightarrow> nat \<Rightarrow> engine \<Rightarrow> step \<times> engine" where
  "visit_node t f e =
     (if \<not> inputsAvailableAt f t e then (Skipped, e)
      else (case conditionallyExecute t f e of
          (Threw er, e1) \<Rightarrow>
            if n_failed (nodes e1 ! f) then (Skipped, e1)
            else (Stopped, set_node f ((nodes e1 ! f)\<lparr>n_failed := True\<rparr>) e1)
        | (Completed, e1) \<Rightarrow> (Executed, fold (\<lambda>s. updateAvailability s t) (n_outputs (nodes e1 ! f)) e1)
        | (Body_Error, e1) \<Rightarrow> (Stopped, e1)
        | (Not_Executed, e1) \<Rightarrow> (Skipped, e1)))"

text \<open>One pass in execution order: whether it was stopped, the nodes executed, the engine.\<close>

fun pass :: "time \<Rightarrow> nat list \<Rightarrow> engine \<Rightarrow> bool \<times> nat \<times> engine" where
  "pass t [] e = (False, 0, e)"
| "pass t (f # fs) e =
     (case visit_node t f e of
        (Stopped, e1) \<Rightarrow> (True, 0, e1)
      | (Executed, e1) \<Rightarrow> (case pass t fs e1 of (b, n, e2) \<Rightarrow> (b, Suc n, e2))
      | (Skipped, e1) \<Rightarrow> pass t fs e1)"

datatype tick_result = Complete | Tick_Error

fun passes :: "nat \<Rightarrow> time \<Rightarrow> nat list \<Rightarrow> engine \<Rightarrow> df_error + (tick_result \<times> engine)" where
  "passes k t fs e =
     (case pass t fs e of (stopped, n, e1) \<Rightarrow>
        if stopped then Inr (Tick_Error, e1)
        else (case k of
            0 \<Rightarrow> Inl Not_Terminating
          | Suc j \<Rightarrow> if n = 0 then Inr (Complete, e1) else passes j t fs e1))"

declare passes.simps [simp del]

definition delayed_value :: "signal \<Rightarrow> int \<Rightarrow> time \<Rightarrow> operand" where
  "delayed_value src idx t =
     (case (if period src = 0 \<and> idx \<noteq> 0 then lastValue (history src) else valueAtIndex src idx (Some t)) of
        Inr v \<Rightarrow> v
      | Inl _ \<Rightarrow> Sc SNil)"

definition refreshDerivedSignals :: "island \<Rightarrow> time \<Rightarrow> engine \<Rightarrow> df_error + engine" where
  "refreshDerivedSignals is t =
     fold_ok (\<lambda>i e.
       let s = sigs e ! i in
       if \<not> isDerived s \<or> baseIndex s = 0 then Inr e
       else (case baseSignal s of
           None \<Rightarrow> Inr e
         | Some b \<Rightarrow> seq_then (write_signal t (delayed_value (sigs e ! b) (baseIndex s) t) i e)
                      (\<lambda>e1. Inr (updateAvailability i t e1)))) (is_signals is)"

definition execution_order :: "island \<Rightarrow> nat list" where
  "execution_order is = concat (map snd (is_orders is))"

definition evaluateIsland :: "island \<Rightarrow> time \<Rightarrow> engine \<Rightarrow> df_error + (tick_result \<times> engine)" where
  "evaluateIsland is t e =
     seq_then (refreshDerivedSignals is t e) (\<lambda>e1.
       if is_funcs is = [] then Inr (Complete, e1)
       else passes (length (is_funcs is) * 100) t (execution_order is) e1)"

definition resolveEvaluationTime :: "island \<Rightarrow> time \<Rightarrow> engine \<Rightarrow> time" where
  "resolveEvaluationTime is candidate e =
     (case filter (\<lambda>h. h \<noteq> []) (map (\<lambda>s. history (sigs e ! s)) (is_signals is)) of
        [] \<Rightarrow> candidate
      | hs \<Rightarrow> max candidate (Max (set (map (\<lambda>h. fst (hd h)) hs))))"

section \<open>The tick\<close>

definition evaluateNetwork :: "time \<Rightarrow> engine \<Rightarrow> df_error + engine" where
  "evaluateNetwork t e =
     fold_ok (\<lambda>is e. if is_tickPeriod is = 0 then Inr e
        else seq_then (evaluateIsland is (resolveEvaluationTime is t e) e) (\<lambda>(r, e1). Inr e1)) (islands e) e"

definition tick_due :: "signal \<Rightarrow> time \<Rightarrow> bool" where
  "tick_due s t \<longleftrightarrow> isSource s \<and> period s \<noteq> 0 \<and> \<not> inBackground s \<and> t mod period s = 0"

definition tick_sources :: "time \<Rightarrow> engine \<Rightarrow> df_error + engine" where
  "tick_sources t e =
     fold_ok (\<lambda>i e. if tick_due (sigs e ! i) t
        then seq_then (tick_signal t i e) (\<lambda>e1. Inr (updateAvailability i t e1)) else Inr e) (signals e) e"

text \<open>
  The start of a run is put on a boundary of the tick period, which is recomputed from the frequency
  in floating point.
\<close>

definition d_half3 :: double where "d_half3 = ddiv (double_of_int 3) (double_of_int 2)"

definition boundary_period :: "time \<Rightarrow> int option" where
  "boundary_period p = i64_of_double (ddiv d_million (ddiv d_million (double_of_int p)))"

definition nextPeriodOnPeriodBoundary :: "time \<Rightarrow> time \<Rightarrow> df_error + time" where
  "nextPeriodOnPeriodBoundary now p =
     (case boundary_period p of
        None \<Rightarrow> Inl Undefined_Conversion
      | Some q \<Rightarrow>
          (case i64_of_double (dmul d_half3 (double_of_int q)) of
             None \<Rightarrow> Inl Undefined_Conversion
           | Some h \<Rightarrow> if q = 0 then Inl Undefined_Conversion else Inr (now + h - (now + h) mod q)))"

definition tick_time :: "engine \<Rightarrow> time" where
  "tick_time e = runStart e + tickPeriod e * int (tickNumber e)"

text \<open>
  \<open>tick\<close> without the overrun check at its end: when the work of a tick took longer than its period, the
  code emits a warning, or, in the \<open>Strict\<close> execution scheme, throws before the tick is counted.  The
  model has no clock running during a tick; its ticks are those that do not overrun in that scheme.
  The tick callbacks are left out.
\<close>

definition tick :: "time \<Rightarrow> engine \<Rightarrow> df_error + engine" where
  "tick now e =
     seq_then (if networkModified e then buildNetworkCacheData e else Inr e) (\<lambda>e0.
     if tickPeriod e0 = 0 then Inr e0
     else seq_then (if runStart e0 = 0 then nextPeriodOnPeriodBoundary now (tickPeriod e0) else Inr (runStart e0)) (\<lambda>r.
       let e1 = e0\<lparr>runStart := r\<rparr>; t = tick_time e1 in
       seq_then (tick_sources t (e1\<lparr>tickStart := t\<rparr>)) (\<lambda>e2.
       seq_then (evaluateNetwork t e2) (\<lambda>e3. Inr (e3\<lparr>tickNumber := tickNumber e3 + 1\<rparr>)))))"

section \<open>Event-driven signals\<close>

definition evaluate_event :: "nat \<times> time \<Rightarrow> engine \<Rightarrow> df_error + engine" where
  "evaluate_event = (\<lambda>(i, t) e.
     seq_then (if networkModified e then buildNetworkCacheData e else Inr e) (\<lambda>e1.
       case find (\<lambda>is. i \<in> set (is_signals is)) (islands e1) of
         None \<Rightarrow> Inr e1
       | Some is \<Rightarrow> seq_then (evaluateIsland is t e1) (\<lambda>(r, e2). Inr e2)))"

text \<open>
  \<open>processEventDrivenSignalUpdate\<close> where it may evaluate: the updates that an evaluation causes are
  queued and drained after it, at most 100000 of them.  While it runs, \<open>pendingEvents\<close> is the queue.
\<close>

fun event_chain :: "nat \<Rightarrow> nat \<times> time \<Rightarrow> engine \<Rightarrow> df_error + engine" where
  "event_chain k u e =
     seq_then (evaluate_event u e) (\<lambda>e1.
       case pendingEvents e1 of
         [] \<Rightarrow> Inr e1
       | w # ws \<Rightarrow> (case k of
             0 \<Rightarrow> Inl Not_Terminating
           | Suc j \<Rightarrow> event_chain j w (e1\<lparr>pendingEvents := ws\<rparr>)))"

declare event_chain.simps [simp del]

definition processEventDrivenSignalUpdate :: "nat \<times> time \<Rightarrow> engine \<Rightarrow> df_error + engine" where
  "processEventDrivenSignalUpdate = event_chain 100000"

text \<open>The newest time of each signal, in the order of first appearance.\<close>

fun coalesce :: "(nat \<times> time) list \<Rightarrow> (nat \<times> time) list \<Rightarrow> (nat \<times> time) list" where
  "coalesce acc [] = acc"
| "coalesce acc ((i, t) # us) =
     coalesce (if i \<in> fst ` set acc then map (\<lambda>(j, u). (j, if j = i \<and> t > u then t else u)) acc else acc @ [(i, t)]) us"

definition processPendingEventUpdates :: "engine \<Rightarrow> df_error + engine" where
  "processPendingEventUpdates e = fold_ok processEventDrivenSignalUpdate (coalesce [] (pendingEvents e)) (e\<lparr>pendingEvents := []\<rparr>)"

section \<open>Background islands\<close>

fun next_due :: "nat \<Rightarrow> time \<Rightarrow> time \<Rightarrow> time \<Rightarrow> time" where
  "next_due 0 now p due = due + p"
| "next_due (Suc k) now p due = (if due + p \<le> now then next_due k now p (due + p) else due + p)"

definition tick_background :: "time \<Rightarrow> nat \<Rightarrow> engine \<Rightarrow> df_error + engine" where
  "tick_background t i e =
     (let s = sigs e ! i in
      if isSource s \<and> period s \<noteq> 0 \<and> t mod period s = 0
      then seq_then (tick_signal t i e) (\<lambda>e1. Inr (updateAvailability i t e1)) else Inr e)"

text \<open>The islands that are due, with their time, and the schedules moved on past the current time.\<close>

fun collect_due :: "time \<Rightarrow> nat \<Rightarrow> engine \<Rightarrow> df_error + ((island \<times> time) list \<times> engine)" where
  "collect_due now 0 e = Inr ([], e)"
| "collect_due now (Suc k) e =
     (let j = length (islands e) - Suc k; is = islands e ! j in
      if \<not> is_background is \<or> is_tickPeriod is = 0 then collect_due now k e
      else seq_then (if is_nextDue is = 0 then nextPeriodOnPeriodBoundary now (is_tickPeriod is) else Inr (is_nextDue is)) (\<lambda>due.
        if now < due then collect_due now k (e\<lparr>islands := (islands e)[j := is\<lparr>is_nextDue := due\<rparr>]\<rparr>)
        else seq_then (fold_ok (tick_background due) (is_signals is) e) (\<lambda>e1.
          let is1 = is\<lparr>is_nextDue := next_due (nat (now - due)) now (is_tickPeriod is) due\<rparr> in
          seq_then (collect_due now k (e1\<lparr>islands := (islands e1)[j := is1]\<rparr>)) (\<lambda>(ds, e2).
            Inr ((is1, due) # ds, e2)))))"

definition serviceBackgroundIslands :: "time \<Rightarrow> engine \<Rightarrow> df_error + engine" where
  "serviceBackgroundIslands now e =
     (if \<not> list_ex is_background (islands e) then Inr e
      else seq_then (if networkModified e then buildNetworkCacheData e else Inr e) (\<lambda>e0.
        seq_then (collect_due now (length (islands e0)) e0) (\<lambda>(ds, e1).
          fold_ok (\<lambda>(is, t) e. seq_then (evaluateIsland is (resolveEvaluationTime is t e) e) (\<lambda>(r, e2). Inr e2)) ds e1)))"

section \<open>Wires and delays\<close>

definition initializeNode :: "nat \<Rightarrow> engine \<Rightarrow> df_error + engine" where
  "initializeNode f e =
     seq_then (if networkModified e then buildNetworkCacheData e else Inr e) (\<lambda>e0.
     let ins = in_signals (nodes e0 ! f);
         t = fold (\<lambda>s t. max t (latestSampleTime (history (sigs e0 ! s)))) ins 0;
         e1 = fold (\<lambda>s e. updateAvailability s (latestSampleTime (history (sigs e ! s))) e) ins e0 in
     if \<not> inputsAvailableAt f t e1 then Inr e1
     else (case conditionallyExecute t f e1 of
         (Threw er, e2) \<Rightarrow> Inl er
       | (_, e2) \<Rightarrow> Inr (fold (\<lambda>s. updateAvailability s t) (n_outputs (nodes e2 ! f)) e2)))"

function reaches :: "engine \<Rightarrow> nat list \<Rightarrow> nat list \<Rightarrow> nat list \<Rightarrow> bool" where
  "reaches e targets [] seen = False"
| "reaches e targets (s # q) seen =
     (if s \<ge> length (sigs e) \<or> s \<in> set seen then reaches e targets q seen
      else if s \<in> set targets then True
      else reaches e targets
        (q @ (if isDerived (sigs e ! s) \<and> baseIndex (sigs e ! s) = 0
              then (case baseSignal (sigs e ! s) of Some b \<Rightarrow> [b] | None \<Rightarrow> []) else [])
           @ concat (map (\<lambda>f. map in_signal (filter (\<lambda>p. in_index p = 0) (n_inputs (nodes e ! f)))) (producers e s)))
        (s # seen))"
  by pat_completeness auto

termination
  by (relation "measures [\<lambda>(e, ts, q, seen). unseen (length (sigs e)) seen, \<lambda>(e, ts, q, seen). length q]")
    (auto simp: unseen_Cons)

definition zeroDelayUpstreamReaches :: "engine \<Rightarrow> nat \<Rightarrow> nat list \<Rightarrow> bool" where
  "zeroDelayUpstreamReaches e from targets = reaches e targets [from] []"

definition deriveFrom :: "nat \<Rightarrow> nat \<Rightarrow> int \<Rightarrow> engine \<Rightarrow> engine" where
  "deriveFrom l b idx e =
     (let e1 = set_sig l ((sigs e ! l)\<lparr>isSource := False, isClock := False, running := False, tickPending := False,
                 isDerived := True, baseSignal := Some b, baseIndex := idx, eventDriven := eventDriven (sigs e ! b)\<rparr>) e;
          deepen = (\<lambda>i e. set_sig i ((sigs e ! i)\<lparr>maxHistory := max (maxHistory (sigs e ! i)) (nat (- idx + 1))\<rparr>) e);
          e2 = (if idx < 0 then deepen b (deepen l e1) else e1) in
      set_sig b ((sigs e2 ! b)\<lparr>dependents := dependents (sigs e2 ! b) @ [l]\<rparr>) e2)"

definition wire_base :: "engine \<Rightarrow> nat \<Rightarrow> nat \<times> int" where
  "wire_base e r =
     (if isDerived (sigs e ! r) then
        (case baseSignal (sigs e ! r) of Some b \<Rightarrow> (b, baseIndex (sigs e ! r)) | None \<Rightarrow> (r, 0))
      else (r, 0))"

definition copyInto :: "nat \<Rightarrow> nat \<Rightarrow> engine \<Rightarrow> df_error + engine" where
  "copyInto l r e =
     (if l \<ge> length (sigs e) \<or> r \<ge> length (sigs e) then Inl Null_Signal
      else if l = r then Inl Wired_To_Itself
      else if \<not> deq (frequency (sigs e ! l)) (frequency (sigs e ! r)) then Inl Frequency_Mismatch
      else if \<not> isSource (sigs e ! l) then Inl Already_Driven
      else (case wire_base e r of (b, idx) \<Rightarrow>
        if b = l then Inl Delay_Of_Itself
        else if idx = 0 \<and> zeroDelayUpstreamReaches e b
                  (l # filter (\<lambda>d. baseIndex (sigs e ! d) = 0) (dependents (sigs e ! l))) then Inl Zero_Delay_Cycle
        else
          (let rh = history (sigs e ! r); e1 = deriveFrom l b idx e in
           seq_then
             (if list_ex (\<lambda>x. \<not> is_nil (snd x)) rh then
                seq_then (lastValue (history (sigs e1 ! l))) (\<lambda>before.
                  publishSample (setValueAt (length (sigs e)) (fst (last rh)) (snd (last rh))) (fst (last rh)) (snd (last rh))
                    (\<not> equals before (snd (last rh))) l
                    (set_sig l ((sigs e1 ! l)\<lparr>history := rh\<rparr>) e1))
              else Inr e1)
             (\<lambda>e2. Inr (e2\<lparr>networkModified := True\<rparr>)))))"

definition indexed_signal :: "nat \<Rightarrow> int \<Rightarrow> engine \<Rightarrow> df_error + (nat \<times> engine)" where
  "indexed_signal i idx e =
     seq_then (indexedSignal i idx (sigs e ! i)) (\<lambda>r.
       case r of
         None \<Rightarrow> Inr (i, e)
       | Some (d, s) \<Rightarrow>
           Inr (addSignal d (set_sig i (s\<lparr>dependents := dependents s @ [length (sigs e)]\<rparr>) e)))"

end
