(* ===== verification/Dataflow_Settle.thy ===== *)
theory Dataflow_Settle
  imports Dataflow_Tick
begin

text \<open>
  Evaluating an island settles it: when the zero-delay dependences of its nodes have no cycle, the
  repeated passes come to an end within the engine's limit, and then every node whose inputs are
  available has outputs that its body computes from the inputs of that moment.
\<close>

section \<open>Repeated passes\<close>

locale settling =
  fixes visit :: "'n \<Rightarrow> 's \<Rightarrow> bool \<times> 's"
    and inv :: "'s \<Rightarrow> bool"
    and settled :: "'s \<Rightarrow> 'n \<Rightarrow> bool"
    and lev :: "'n \<Rightarrow> nat"
    and members :: "'n set"
  assumes quiet: "inv s \<Longrightarrow> n \<in> members \<Longrightarrow> settled s n \<Longrightarrow> visit n s = (b, s') \<Longrightarrow>
      \<not> b \<and> inv s' \<and> (\<forall>m \<in> members. settled s m \<longrightarrow> settled s' m)"
    and active: "inv s \<Longrightarrow> n \<in> members \<Longrightarrow> \<not> settled s n \<Longrightarrow> visit n s = (b, s') \<Longrightarrow>
      b \<and> inv s' \<and> settled s' n \<and> (\<forall>m \<in> members. lev m \<le> lev n \<longrightarrow> settled s m \<longrightarrow> settled s' m)"
begin

lemma idle: "inv s \<Longrightarrow> n \<in> members \<Longrightarrow> visit n s = (False, s') \<Longrightarrow> settled s n"
  using active by blast


fun run :: "'n list \<Rightarrow> 's \<Rightarrow> nat \<times> 's" where
  "run [] s = (0, s)"
| "run (n # ns) s = (case visit n s of (b, s1) \<Rightarrow> case run ns s1 of (k, s2) \<Rightarrow> ((if b then Suc k else k), s2))"

lemma run_inv [inv_intros]: "inv s \<Longrightarrow> set ns \<subseteq> members \<Longrightarrow> run ns s = (k, s') \<Longrightarrow> inv s'"
proof (induction ns arbitrary: s k)
  case (Cons n ns)
  obtain b s1 where v: "visit n s = (b, s1)" by (cases "visit n s")
  obtain j where r: "run ns s1 = (j, s')" using Cons.prems(3) v by (auto split: prod.splits)
  have "inv s1" using quiet [OF Cons.prems(1) _ _ v] active [OF Cons.prems(1) _ _ v] Cons.prems(2) by (cases "settled s n") auto
  then show ?case using Cons.IH [OF _ _ r] Cons.prems(2) by simp
qed simp

text \<open>What is settled below a level stays so, and a pass settles the level itself.\<close>

lemma visit_keeps:
  assumes "inv s" "n \<in> members" "visit n s = (b, s')" "\<forall>m \<in> members. lev m < k \<longrightarrow> settled s m"
  shows "(\<forall>m \<in> members. lev m \<le> k \<longrightarrow> settled s m \<longrightarrow> settled s' m) \<and> (lev n \<le> k \<longrightarrow> settled s' n)"
proof (cases "settled s n")
  case True
  then show ?thesis using quiet [OF assms(1,2) True assms(3)] assms(2) by blast
next
  case False
  then have "k \<le> lev n" using assms(2,4) not_le by blast
  then show ?thesis using active [OF assms(1,2) False assms(3)] by (meson order_trans)
qed

lemma run_levels:
  assumes "inv s" "set ns \<subseteq> members" "run ns s = (j, s')" "\<forall>m \<in> members. lev m < k \<longrightarrow> settled s m"
  shows "(\<forall>m \<in> members. lev m \<le> k \<longrightarrow> settled s m \<longrightarrow> settled s' m) \<and> (\<forall>m \<in> set ns. lev m \<le> k \<longrightarrow> settled s' m)"
  using assms
proof (induction ns arbitrary: s j)
  case (Cons n ns)
  obtain b s1 where v: "visit n s = (b, s1)" by (cases "visit n s")
  obtain i where r: "run ns s1 = (i, s')" using Cons.prems(3) v by (auto split: prod.splits)
  have n: "n \<in> members" "set ns \<subseteq> members" using Cons.prems(2) by simp_all
  have i1: "inv s1" using quiet [OF Cons.prems(1) n(1) _ v] active [OF Cons.prems(1) n(1) _ v] by (cases "settled s n") auto
  note keep = visit_keeps [OF Cons.prems(1) n(1) v Cons.prems(4)]
  have below: "\<forall>m \<in> members. lev m < k \<longrightarrow> settled s1 m" using keep Cons.prems(4) by auto
  note IH = Cons.IH [OF i1 n(2) r below]
  show ?case
  proof (intro conjI ballI impI)
    fix m assume m: "m \<in> members" "lev m \<le> k" "settled s m"
    then have "settled s1 m" using keep by blast
    then show "settled s' m" using IH m(1,2) by blast
  next
    fix m assume m: "m \<in> set (n # ns)" "lev m \<le> k"
    show "settled s' m"
    proof (cases "m \<in> set ns")
      case True
      then show ?thesis using IH m(2) by blast
    next
      case False
      then have "m = n" using m(1) by simp
      then have "settled s1 m" using keep m(2) by blast
      then show ?thesis using IH m(2) n(1) \<open>m = n\<close> by blast
    qed
  qed
qed simp

lemma run_quiet:
  assumes "inv s" "set ns \<subseteq> members" "\<forall>m \<in> members. settled s m" "run ns s = (j, s')"
  shows "j = 0 \<and> inv s' \<and> (\<forall>m \<in> members. settled s' m)"
  using assms
proof (induction ns arbitrary: s j)
  case (Cons n ns)
  obtain b s1 where v: "visit n s = (b, s1)" by (cases "visit n s")
  obtain i where r: "run ns s1 = (i, s')" "j = (if b then Suc i else i)" using Cons.prems(4) v by (auto split: prod.splits)
  have "\<not> b \<and> inv s1 \<and> (\<forall>m \<in> members. settled s1 m)"
    using quiet [OF Cons.prems(1) _ _ v] Cons.prems(2,3) by auto
  then show ?case using Cons.IH [OF _ _ _ r(1)] Cons.prems(2) r(2) by simp
qed simp

text \<open>An empty pass means that everything visited was settled.\<close>

lemma run_zero:
  assumes "inv s" "set ns \<subseteq> members" "run ns s = (0, s')"
  shows "\<forall>m \<in> set ns. settled s' m"
  using assms
proof (induction ns arbitrary: s)
  case (Cons n ns)
  obtain b s1 where v: "visit n s = (b, s1)" by (cases "visit n s")
  obtain i where r: "run ns s1 = (i, s')" "0 = (if b then Suc i else i)" using Cons.prems(3) v by (auto split: prod.splits)
  then have b: "\<not> b" "i = 0" by (simp_all split: if_splits)
  have n: "n \<in> members" using Cons.prems(2) by simp
  have s: "settled s n" using idle [OF Cons.prems(1) n] v b(1) by simp
  have q: "inv s1 \<and> (\<forall>m \<in> members. settled s m \<longrightarrow> settled s1 m)" using quiet [OF Cons.prems(1) n s v] by simp
  have "settled t m \<longrightarrow> settled s' m" if "inv t" "run xs t = (0, s')" "set xs \<subseteq> members" "m \<in> members" for t xs m
    using that(1-3)
  proof (induction xs arbitrary: t)
    case (Cons x xs)
    obtain c t1 where w: "visit x t = (c, t1)" by (cases "visit x t")
    obtain l where l: "run xs t1 = (l, s')" "0 = (if c then Suc l else l)" using Cons.prems(2) w by (auto split: prod.splits)
    then have c: "\<not> c" "l = 0" by (simp_all split: if_splits)
    have x: "x \<in> members" using Cons.prems(3) by simp
    have sx: "settled t x" using idle [OF Cons.prems(1) x] w c(1) by simp
    have q: "inv t1 \<and> (\<forall>m \<in> members. settled t m \<longrightarrow> settled t1 m)" using quiet [OF Cons.prems(1) x sx w] by simp
    then show ?case using Cons.IH [of t1] l(1) c(2) Cons.prems(3) that(4) by auto
  qed simp
  then have "settled s' n" using q r(1) b(2) Cons.prems(2) n s by (meson set_subset_Cons subset_trans)
  then show ?case using Cons.IH [of s1] q r(1) b(2) Cons.prems(2) by simp
qed simp

fun rounds :: "nat \<Rightarrow> 'n list \<Rightarrow> 's \<Rightarrow> 's option" where
  "rounds 0 ns s = None"
| "rounds (Suc k) ns s = (case run ns s of (j, s1) \<Rightarrow> if j = 0 then Some s1 else rounds k ns s1)"

lemma rounds_settle_from:
  assumes "inv s" "set ns = members" "\<forall>m \<in> members. lev m < l \<longrightarrow> settled s m" "\<forall>m \<in> members. lev m < N"
    and "N \<le> l + k" "k > 0"
  shows "\<exists>s'. rounds (Suc k) ns s = Some s' \<and> inv s' \<and> (\<forall>m \<in> members. settled s' m)"
  using assms(1,3,5,6)
proof (induction k arbitrary: s l)
  case (Suc k)
  obtain j s1 where r: "run ns s = (j, s1)" by (cases "run ns s")
  have i: "inv s1" by (rule run_inv [OF Suc.prems(1) _ r]) (simp add: assms(2))
  show ?case
  proof (cases "j = 0")
    case True
    have "\<forall>m \<in> set ns. settled s1 m" by (rule run_zero [OF Suc.prems(1)]) (use r True assms(2) in simp_all)
    then show ?thesis using r True i assms(2) by simp
  next
    case False
    have lv: "\<forall>m \<in> members. lev m < Suc l \<longrightarrow> settled s1 m"
      using run_levels [OF Suc.prems(1) _ r Suc.prems(2)] assms(2) by (simp add: less_Suc_eq_le)
    show ?thesis
    proof (cases "k = 0")
      case True
      then have all: "\<forall>m \<in> members. settled s1 m" using lv assms(4) Suc.prems(3) by (metis Suc_eq_plus1 less_le_trans One_nat_def)
      obtain j2 s2 where r2: "run ns s1 = (j2, s2)" by (cases "run ns s1")
      have "j2 = 0 \<and> inv s2 \<and> (\<forall>m \<in> members. settled s2 m)" by (rule run_quiet [OF i _ all r2]) (simp add: assms(2))
      then show ?thesis using r False True r2 by simp
    next
      case k: False
      from Suc.IH [OF i lv] Suc.prems(3) k show ?thesis using r False by simp
    qed
  qed
qed simp

end

section \<open>What an evaluation does not change\<close>

definition sig_shape :: "signal \<Rightarrow> signal" where
  "sig_shape s = s\<lparr>history := [], suppressInitial := False\<rparr>"

definition node_shape :: "fnode \<Rightarrow> fnode" where
  "node_shape n = n\<lparr>n_inputs := map (\<lambda>p. p\<lparr>in_available := 0\<rparr>) (n_inputs n), n_prevIn := [], n_prevOut := [],
     n_failed := False\<rparr>"

lemma sig_shape_fields:
  assumes "sig_shape s' = sig_shape s"
  shows "period s' = period s" "eventDriven s' = eventDriven s" "isSource s' = isSource s" "isClock s' = isClock s"
    "dependents s' = dependents s" "baseIndex s' = baseIndex s" "isDerived s' = isDerived s" "baseSignal s' = baseSignal s"
  using assms by (cases s; cases s'; simp add: sig_shape_def)+

lemma node_shape_fields:
  assumes "node_shape n' = node_shape n"
  shows "n_outputs n' = n_outputs n" "n_params n' = n_params n" "n_consts n' = n_consts n" "n_body n' = n_body n"
    "length (n_inputs n') = length (n_inputs n)" "map in_signal (n_inputs n') = map in_signal (n_inputs n)"
    "map in_index (n_inputs n') = map in_index (n_inputs n)" "map in_default (n_inputs n') = map in_default (n_inputs n)"
proof -
  obtain a :: "port \<Rightarrow> port" where a: "a = (\<lambda>p. p\<lparr>in_available := (0::time)\<rparr>)" by simp
  have i: "map a (n_inputs n') = map a (n_inputs n)" and r: "n_outputs n' = n_outputs n" "n_params n' = n_params n"
    "n_consts n' = n_consts n" "n_body n' = n_body n"
    using assms by (cases n; cases n'; simp add: node_shape_def a)+
  show "n_outputs n' = n_outputs n" "n_params n' = n_params n" "n_consts n' = n_consts n" "n_body n' = n_body n" by (fact r)+
  show "length (n_inputs n') = length (n_inputs n)" using i by (rule map_eq_imp_length_eq)
  have f: "map F (n_inputs n') = map F (n_inputs n)" if "\<And>p. F (a p) = F p" for F :: "port \<Rightarrow> 'x"
    using arg_cong [OF i, of "map F"] by (simp add: that comp_def)
  show "map in_signal (n_inputs n') = map in_signal (n_inputs n)" "map in_index (n_inputs n') = map in_index (n_inputs n)"
    "map in_default (n_inputs n') = map in_default (n_inputs n)" by (rule f, simp add: a)+
qed

definition same_shape :: "engine \<Rightarrow> engine \<Rightarrow> bool" where
  "same_shape e e' \<longleftrightarrow> length (sigs e') = length (sigs e) \<and> length (nodes e') = length (nodes e)
     \<and> (\<forall>i < length (sigs e). sig_shape (sigs e' ! i) = sig_shape (sigs e ! i))
     \<and> (\<forall>g < length (nodes e). node_shape (nodes e' ! g) = node_shape (nodes e ! g))
     \<and> consumers e' = consumers e \<and> signals e' = signals e \<and> funcs e' = funcs e \<and> islands e' = islands e
     \<and> tickPeriod e' = tickPeriod e \<and> runStart e' = runStart e \<and> tickNumber e' = tickNumber e
     \<and> tickStart e' = tickStart e \<and> networkModified e' = networkModified e"

lemma same_shape_refl [simp]: "same_shape e e"
  by (simp add: same_shape_def)

lemma same_shape_trans: "same_shape a b \<Longrightarrow> same_shape b c \<Longrightarrow> same_shape a c"
  by (simp add: same_shape_def)

lemma same_shape_notified [simp]: "same_shape a (b\<lparr>notified := xs\<rparr>) = same_shape a b"
  "same_shape a (b\<lparr>pendingEvents := ys\<rparr>) = same_shape a b"
  by (simp_all add: same_shape_def)

lemma nth_update: "j < length xs \<Longrightarrow> xs[i := x] ! j = (if i = j then x else xs ! j)"
  by (cases "i = j") simp_all

lemma same_shape_set_sig: "sig_shape s = sig_shape (sigs e ! i) \<Longrightarrow> same_shape e (set_sig i s e)"
  by (simp add: same_shape_def set_sig_def nth_update)

lemma same_shape_set_node: "node_shape n = node_shape (nodes e ! f) \<Longrightarrow> same_shape e (set_node f n e)"
  by (simp add: same_shape_def set_node_def nth_update)

text \<open>The signals that a write reaches through wires, and writes that come to an end.\<close>

definition pushrel :: "engine \<Rightarrow> (nat \<times> nat) set" where
  "pushrel e = {(s, d). s < length (sigs e) \<and> d < length (sigs e) \<and> d \<in> set (dependents (sigs e ! s)) \<and> baseIndex (sigs e ! d) = 0}"

definition pset :: "engine \<Rightarrow> nat \<Rightarrow> nat set" where
  "pset e s = (pushrel e)\<^sup>* `` {s}"

fun push_ok :: "nat \<Rightarrow> engine \<Rightarrow> nat \<Rightarrow> bool" where
  "push_ok 0 e s \<longleftrightarrow> False"
| "push_ok (Suc k) e s \<longleftrightarrow> s < length (sigs e) \<and> (\<forall>d. (s, d) \<in> pushrel e \<longrightarrow> push_ok k e d)"

lemma same_shape_sig:
  assumes "same_shape e e'" "i < length (sigs e)"
  shows "period (sigs e' ! i) = period (sigs e ! i)" "eventDriven (sigs e' ! i) = eventDriven (sigs e ! i)"
    "isSource (sigs e' ! i) = isSource (sigs e ! i)" "isClock (sigs e' ! i) = isClock (sigs e ! i)"
    "dependents (sigs e' ! i) = dependents (sigs e ! i)" "baseIndex (sigs e' ! i) = baseIndex (sigs e ! i)"
    "isDerived (sigs e' ! i) = isDerived (sigs e ! i)"
proof -
  have "sig_shape (sigs e' ! i) = sig_shape (sigs e ! i)" using assms by (simp add: same_shape_def)
  from sig_shape_fields [OF this] show "period (sigs e' ! i) = period (sigs e ! i)" "eventDriven (sigs e' ! i) = eventDriven (sigs e ! i)"
    "isSource (sigs e' ! i) = isSource (sigs e ! i)" "isClock (sigs e' ! i) = isClock (sigs e ! i)"
    "dependents (sigs e' ! i) = dependents (sigs e ! i)" "baseIndex (sigs e' ! i) = baseIndex (sigs e ! i)"
    "isDerived (sigs e' ! i) = isDerived (sigs e ! i)" by simp_all
qed

lemma same_shape_lengths: "same_shape e e' \<Longrightarrow> length (sigs e') = length (sigs e)" "same_shape e e' \<Longrightarrow> length (nodes e') = length (nodes e)"
  by (simp_all add: same_shape_def)

lemma pushrel_shape:
  assumes "same_shape e e'" shows "pushrel e' = pushrel e"
  unfolding pushrel_def using same_shape_sig(5,6) [OF assms] same_shape_lengths [OF assms] by auto

lemma pset_shape: "same_shape e e' \<Longrightarrow> pset e' s = pset e s"
  by (simp add: pset_def pushrel_shape)

lemma push_ok_shape: "same_shape e e' \<Longrightarrow> push_ok k e' s = push_ok k e s"
proof (induction k arbitrary: s)
  case (Suc k)
  then show ?case by (simp add: pushrel_shape) (simp add: same_shape_def)
qed simp

lemma pset_self [simp]: "s \<in> pset e s"
  by (simp add: pset_def)

lemma pset_step: "(s, d) \<in> pushrel e \<Longrightarrow> pset e d \<subseteq> pset e s"
  by (auto simp: pset_def intro: converse_rtrancl_into_rtrancl)

lemma pset_valid: "s < length (sigs e) \<Longrightarrow> j \<in> pset e s \<Longrightarrow> j < length (sigs e)"
  unfolding pset_def by (auto elim: rtranclE simp: pushrel_def)

text \<open>Evaluation touches signals of \<open>T\<close> only, and ports fed by them.\<close>

definition touched :: "nat set \<Rightarrow> engine \<Rightarrow> engine \<Rightarrow> bool" where
  "touched T e e' \<longleftrightarrow> same_shape e e'
     \<and> (\<forall>j < length (sigs e). j \<notin> T \<longrightarrow> sigs e' ! j = sigs e ! j)
     \<and> (\<forall>g < length (nodes e). n_prevIn (nodes e' ! g) = n_prevIn (nodes e ! g)
          \<and> n_prevOut (nodes e' ! g) = n_prevOut (nodes e ! g)
          \<and> ((\<forall>p \<in> set (n_inputs (nodes e ! g)). in_signal p \<notin> T) \<longrightarrow> n_inputs (nodes e' ! g) = n_inputs (nodes e ! g)))"

lemma touched_refl [simp]: "touched T e e"
  by (simp add: touched_def)

lemma in_signals_shape:
  "node_shape n' = node_shape n \<Longrightarrow> (\<forall>p \<in> set (n_inputs n'). P (in_signal p)) = (\<forall>p \<in> set (n_inputs n). P (in_signal p))"
  using node_shape_fields(6) [of n' n] by (metis (mono_tags, lifting) image_iff list.set_map)

lemma touched_trans:
  assumes "touched T a b" "touched T b c" shows "touched T a c"
proof -
  have s: "same_shape a b" "same_shape a c" using assms same_shape_trans by (auto simp: touched_def)
  have l: "length (sigs b) = length (sigs a)" "length (nodes b) = length (nodes a)" using s(1) by (auto simp: same_shape_def)
  have i: "(\<forall>p \<in> set (n_inputs (nodes b ! g)). in_signal p \<notin> T) = (\<forall>p \<in> set (n_inputs (nodes a ! g)). in_signal p \<notin> T)"
    if "g < length (nodes a)" for g
    by (rule in_signals_shape) (use s(1) that in \<open>simp add: same_shape_def\<close>)
  show ?thesis using assms s(2) l i unfolding touched_def by simp
qed

lemma touched_mono: "touched T a b \<Longrightarrow> T \<subseteq> U \<Longrightarrow> touched U a b"
  unfolding touched_def by blast

text \<open>
  Well-formed data up to a time: samples in order, none later than the time where it counts.  \<open>V\<close> is a set
  of values, each equal to itself, that the samples come from; a sample may also be nil.
\<close>

definition refl_value :: "operand \<Rightarrow> bool" where
  "refl_value v \<longleftrightarrow> equals v v"

definition stored :: "(operand \<Rightarrow> bool) \<Rightarrow> operand \<Rightarrow> bool" where
  "stored V v \<longleftrightarrow> is_nil v \<or> V v"

definition fine_signal :: "(operand \<Rightarrow> bool) \<Rightarrow> signal \<Rightarrow> bool" where
  "fine_signal V s \<longleftrightarrow> wf_signal s \<and> (\<forall>e \<in> set (history s). stored V (snd e)) \<and> fst (last (history s)) \<ge> 0"

definition fine :: "(operand \<Rightarrow> bool) \<Rightarrow> engine \<Rightarrow> bool" where
  "fine V e \<longleftrightarrow> (\<forall>s \<in> set (sigs e). fine_signal V s)"

definition wrote :: "(operand \<Rightarrow> bool) \<Rightarrow> time \<Rightarrow> operand \<Rightarrow> nat set \<Rightarrow> engine \<Rightarrow> engine \<Rightarrow> bool" where
  "wrote V t v T e e' \<longleftrightarrow> touched T e e' \<and> fine V e'
     \<and> (\<forall>j < length (sigs e). sigs e' ! j \<noteq> sigs e ! j \<longrightarrow> last (history (sigs e' ! j)) = (t, v))"

lemma wrote_refl: "fine V e \<Longrightarrow> wrote V t v T e e"
  by (simp add: wrote_def)

lemma wrote_trans:
  "wrote V t v T a b \<Longrightarrow> wrote V t v T b c \<Longrightarrow> wrote V t v T a c"
proof -
  assume a: "wrote V t v T a b" "wrote V t v T b c"
  have l: "length (sigs b) = length (sigs a)" using a(1) by (simp add: wrote_def touched_def same_shape_def)
  have "last (history (sigs c ! j)) = (t, v)" if "j < length (sigs a)" "sigs c ! j \<noteq> sigs a ! j" for j
    using a that l unfolding wrote_def by metis
  moreover have "touched T a c" using a unfolding wrote_def by (blast intro: touched_trans)
  ultimately show ?thesis using a(2) by (simp add: wrote_def)
qed

lemma wrote_mono: "wrote V t v T a b \<Longrightarrow> T \<subseteq> U \<Longrightarrow> wrote V t v U a b"
  unfolding wrote_def using touched_mono by blast

lemma map_put_set: "set (map_put t v h) \<subseteq> insert (t, v) (set h)"
  by (induction t v h rule: map_put.induct) auto

lemma store_sample_fine:
  assumes "fine_signal V s" "stored V v" "t \<ge> 0" "fst (last (history s)) \<le> t" "store_sample t v s = Inr (b, s')"
  shows "fine_signal V s' \<and> last (history s') = (t, v) \<and> sig_shape s' = sig_shape s"
proof -
  have w: "wf_signal s" using assms(1) by (simp add: fine_signal_def)
  have l: "last (history s') = (t, v)" by (rule newest_latest [OF w assms(5,4)])
  have "set (history s') \<subseteq> insert (t, v) (set (history s))"
    unfolding store_sample_history(1) [OF assms(5)]
    using map_put_set [of t v "history s"] map_put_set [of t v "tl (history s)"] in_tl [of _ "history s"]
    by (auto split: if_splits)
  then have "\<forall>e \<in> set (history s'). stored V (snd e)" using assms(1,2) by (auto simp: fine_signal_def)
  moreover have "sig_shape s' = sig_shape s"
    using assms(5) by (auto simp: store_sample_def sig_shape_def Let_def split: option.splits)
  ultimately show ?thesis using store_sample_wf [OF w assms(5)] l assms(3) by (simp add: fine_signal_def)
qed

lemma mark_available_fields [simp]:
  "n_prevIn (mark_available s t n) = n_prevIn n" "n_prevOut (mark_available s t n) = n_prevOut n"
  "node_shape (mark_available s t n) = node_shape n"
  by (simp_all add: mark_available_def node_shape_def comp_def)

lemma mark_available_other: "\<forall>p \<in> set (n_inputs n). in_signal p \<noteq> s \<Longrightarrow> n_inputs (mark_available s t n) = n_inputs n"
  by (auto simp: mark_available_def intro: map_idI)

lemma touched_mark:
  "s \<in> T \<Longrightarrow> touched T e (set_node f (mark_available s t (nodes e ! f)) e)"
proof -
  assume s: "s \<in> T"
  have "n_inputs (nodes (set_node f (mark_available s t (nodes e ! f)) e) ! g) = n_inputs (nodes e ! g)"
    if "g < length (nodes e)" "\<forall>p \<in> set (n_inputs (nodes e ! g)). in_signal p \<notin> T" for g
    using that s mark_available_other [of "nodes e ! g" s t] by (cases "f = g") (auto simp: set_node_def nth_update)
  then show ?thesis unfolding touched_def by (simp add: same_shape_set_node) (simp add: set_node_def nth_update)
qed

lemma touched_availability: "s \<in> T \<Longrightarrow> touched T e (updateAvailability s t e)"
proof -
  have "s \<in> T \<Longrightarrow> touched T e (fold (\<lambda>f e. set_node f (mark_available s t (nodes e ! f)) e) fs e)" for fs e
  proof (induction fs arbitrary: e)
    case (Cons f fs)
    then show ?case
      using touched_trans [OF touched_mark [of s T e f t] Cons.IH [of "set_node f (mark_available s t (nodes e ! f)) e"]]
      by (simp only: fold_simps comp_apply)
  qed simp
  then show "s \<in> T \<Longrightarrow> touched T e (updateAvailability s t e)" by (simp add: updateAvailability_def)
qed

lemma sigs_availability [simp]: "sigs (updateAvailability s t e) = sigs e"
proof -
  have "sigs (fold (\<lambda>f e. set_node f (mark_available s t (nodes e ! f)) e) fs e) = sigs e" for fs e
    by (induction fs arbitrary: e) (simp_all add: set_node_def)
  then show ?thesis by (simp add: updateAvailability_def)
qed

lemma wrote_availability: "wrote V t v T e e' \<Longrightarrow> s \<in> T \<Longrightarrow> wrote V t v T e (updateAvailability s u e')"
  unfolding wrote_def using touched_trans [OF _ touched_availability, of T e e' s u] by (simp add: fine_def)

section \<open>Writes\<close>

lemma wrote_events [simp]: "wrote V t v T a (b\<lparr>notified := xs\<rparr>) = wrote V t v T a b"
  "wrote V t v T a (b\<lparr>pendingEvents := ys\<rparr>) = wrote V t v T a b"
  by (simp_all add: wrote_def touched_def fine_def)

lemma wrote_shape: "wrote V t v T e e' \<Longrightarrow> same_shape e e'"
  by (simp add: wrote_def touched_def)

lemma wrote_latest:
  assumes "wrote V t v T e e'" "j < length (sigs e)" "fst (last (history (sigs e ! j))) \<le> t"
  shows "fst (last (history (sigs e' ! j))) \<le> t"
  using assms by (cases "sigs e' ! j = sigs e ! j") (auto simp: wrote_def)

lemma wrote_keeps_last:
  assumes "wrote V t v T e e'" "j < length (sigs e)" "last (history (sigs e ! j)) = (t, v)"
  shows "last (history (sigs e' ! j)) = (t, v)"
  using assms by (cases "sigs e' ! j = sigs e ! j") (auto simp: wrote_def)

lemma fine_nth: "fine V e \<Longrightarrow> i < length (sigs e) \<Longrightarrow> fine_signal V (sigs e ! i)"
  by (simp add: fine_def)

lemma fine_set_sig: "fine V e \<Longrightarrow> fine_signal V s \<Longrightarrow> fine V (set_sig i s e)"
  using set_update_subset_insert [of "sigs e" i s] by (auto simp: fine_def set_sig_def)

lemma store_wrote:
  assumes "i < length (sigs e)" "fine V e" "stored V v" "t \<ge> 0" "fst (last (history (sigs e ! i))) \<le> t"
    and "store_sample t v (sigs e ! i) = Inr (b, s)" "i \<in> T"
  shows "wrote V t v T e (set_sig i s e) \<and> last (history (sigs (set_sig i s e) ! i)) = (t, v)"
proof -
  note s = store_sample_fine [OF fine_nth [OF assms(2,1)] assms(3,4,5,6)]
  have n: "sigs (set_sig i s e) ! j = (if i = j then s else sigs e ! j)" if "j < length (sigs e)" for j
    using that by (simp add: set_sig_def nth_update)
  have "touched T e (set_sig i s e)"
    using s assms(7) n unfolding touched_def by (auto simp: same_shape_set_sig) (simp_all add: set_sig_def)
  then show ?thesis using s n assms(1) fine_set_sig [OF assms(2)] by (auto simp: wrote_def)
qed

definition push_to :: "(nat \<Rightarrow> engine \<Rightarrow> df_error + engine) \<Rightarrow> time \<Rightarrow> bool \<Rightarrow> nat \<Rightarrow> engine \<Rightarrow> df_error + engine" where
  "push_to write t ev d e =
     (if d \<ge> length (sigs e) \<or> baseIndex (sigs e ! d) \<noteq> 0 then Inr e
      else seq_then (write d e) (\<lambda>e. Inr (if ev then e else updateAvailability d t e)))"

lemma publishSample_push:
  "publishSample write t v changed i e =
     seq_then (fold_ok (push_to write t (eventDriven (sigs e ! i))) (dependents (sigs e ! i))
         (if changed then e\<lparr>notified := notified e @ [(i, t, v)]\<rparr> else e)) (\<lambda>e2.
       if eventDriven (sigs e ! i) then
         Inr (if isSource (sigs e ! i) \<and> \<not> isDerived (sigs e ! i)
              then (updateAvailability i t e2)\<lparr>pendingEvents := pendingEvents (updateAvailability i t e2) @ [(i, t)]\<rparr>
              else updateAvailability i t e2)
       else Inr e2)"
  unfolding publishSample_def push_to_def [abs_def] Let_def by (rule refl)

lemma push_all:
  assumes "\<And>d e1. (i, d) \<in> pushrel e \<Longrightarrow> wrote V t v (pset e i) e e1 \<Longrightarrow>
      \<exists>e2. write d e1 = Inr e2 \<and> wrote V t v (pset e i) e e2"
    and "i < length (sigs e)" "set ds \<subseteq> set (dependents (sigs e ! i))" "wrote V t v (pset e i) e e1"
  shows "\<exists>e2. fold_ok (push_to write t ev) ds e1 = Inr e2 \<and> wrote V t v (pset e i) e e2"
  using assms(3,4)
proof (induction ds arbitrary: e1)
  case (Cons d ds)
  note sh = wrote_shape [OF Cons.prems(2)]
  have "\<exists>e2. push_to write t ev d e1 = Inr e2 \<and> wrote V t v (pset e i) e e2"
  proof (cases "d \<ge> length (sigs e1) \<or> baseIndex (sigs e1 ! d) \<noteq> 0")
    case False
    then have d: "(i, d) \<in> pushrel e"
      using Cons.prems(1) assms(2) same_shape_sig(6) [OF sh, of d] same_shape_lengths [OF sh] by (simp add: pushrel_def)
    then obtain e2 where e2: "write d e1 = Inr e2" "wrote V t v (pset e i) e e2" using assms(1) Cons.prems(2) by blast
    have "d \<in> pset e i" using pset_step [OF d] by auto
    then show ?thesis using False e2 wrote_availability by (auto simp: push_to_def)
  qed (use Cons.prems(2) in \<open>auto simp: push_to_def\<close>)
  then show ?case using Cons.IH Cons.prems(1) by auto
qed simp

lemma publish_wrote:
  assumes "\<And>d e1. (i, d) \<in> pushrel e \<Longrightarrow> wrote V t v (pset e i) e e1 \<Longrightarrow>
      \<exists>e2. write d e1 = Inr e2 \<and> wrote V t v (pset e i) e e2"
    and "i < length (sigs e)" "wrote V t v (pset e i) e e1"
  shows "\<exists>e2. publishSample write t v c i e1 = Inr e2 \<and> wrote V t v (pset e i) e e2"
proof -
  note sh = wrote_shape [OF assms(3)]
  have d: "dependents (sigs e1 ! i) = dependents (sigs e ! i)" by (rule same_shape_sig(5) [OF sh assms(2)])
  obtain e0 where e0: "e0 = (if c then e1\<lparr>notified := notified e1 @ [(i, t, v)]\<rparr> else e1)" by simp
  have w0: "wrote V t v (pset e i) e e0" using assms(3) by (cases c) (simp_all add: e0)
  have "\<exists>e2. fold_ok (push_to write t (eventDriven (sigs e1 ! i))) (dependents (sigs e1 ! i)) e0 = Inr e2
      \<and> wrote V t v (pset e i) e e2"
    by (rule push_all [OF assms(1,2) _ w0]) (simp_all add: d)
  then obtain e2 where e2: "fold_ok (push_to write t (eventDriven (sigs e1 ! i))) (dependents (sigs e1 ! i)) e0 = Inr e2"
    "wrote V t v (pset e i) e e2" by blast
  then show ?thesis unfolding publishSample_push e0 [symmetric] using wrote_availability [OF e2(2) pset_self] by simp
qed

lemma setValueAt_wrote:
  assumes "push_ok k e i" "fine V e" "stored V v" "t \<ge> 0" "\<forall>j \<in> pset e i. fst (last (history (sigs e ! j))) \<le> t"
  shows "\<exists>e'. setValueAt k t v i e = Inr e' \<and> wrote V t v (pset e i) e e' \<and> last (history (sigs e' ! i)) = (t, v)"
  using assms
proof (induction k arbitrary: i e)
  case (Suc k)
  have i: "i < length (sigs e)" and deps: "\<And>d. (i, d) \<in> pushrel e \<Longrightarrow> push_ok k e d" using Suc.prems(1) by simp_all
  have lt: "fst (last (history (sigs e ! i))) \<le> t" using Suc.prems(5) by simp
  obtain b s where s: "store_sample t v (sigs e ! i) = Inr (b, s)"
    using store_sample_Inr [of "sigs e ! i" t v] fine_nth [OF Suc.prems(2) i] by (auto simp: fine_signal_def)
  obtain e0 where e0: "e0 = set_sig i s e" by simp
  have w0: "wrote V t v (pset e i) e e0" and l0: "last (history (sigs e0 ! i)) = (t, v)"
    using store_wrote [OF i Suc.prems(2-4) lt s pset_self] by (simp_all add: e0)
  note sh0 = wrote_shape [OF w0]
  have i0: "i < length (sigs e0)" using i same_shape_lengths [OF sh0] by simp
  have p0: "pset e0 d = pset e d" for d by (rule pset_shape [OF sh0])
  have r0: "pushrel e0 = pushrel e" by (rule pushrel_shape [OF sh0])
  have lt0: "fst (last (history (sigs e0 ! j))) \<le> t" if "j \<in> pset e i" for j
    using wrote_latest [OF w0 pset_valid [OF i that]] Suc.prems(5) that by blast
  have "\<exists>e2. publishSample (setValueAt k t v) t v b i e0 = Inr e2 \<and> wrote V t v (pset e0 i) e0 e2"
  proof (rule publish_wrote [OF _ i0])
    fix d e1 assume d: "(i, d) \<in> pushrel e0" and w: "wrote V t v (pset e0 i) e0 e1"
    note sh = wrote_shape [OF w]
    have p: "pset e1 d = pset e0 d" by (rule pset_shape [OF sh])
    have sub: "pset e0 d \<subseteq> pset e0 i" by (rule pset_step [OF d])
    have "fst (last (history (sigs e1 ! j))) \<le> t" if "j \<in> pset e0 d" for j
    proof -
      have "j \<in> pset e0 i" using that sub by blast
      then show ?thesis using wrote_latest [OF w pset_valid [OF i0]] lt0 p0 by blast
    qed
    moreover have "push_ok k e1 d" using push_ok_shape [OF sh] push_ok_shape [OF sh0] deps d r0 by simp
    moreover have "fine V e1" using w by (simp add: wrote_def)
    ultimately obtain e2 where "setValueAt k t v d e1 = Inr e2" "wrote V t v (pset e0 d) e1 e2"
      using Suc.IH [of e1 d] Suc.prems(3,4) p by auto
    then show "\<exists>e2. setValueAt k t v d e1 = Inr e2 \<and> wrote V t v (pset e0 i) e0 e2"
      using wrote_trans [OF w wrote_mono [OF _ sub]] by blast
  qed (use w0 in \<open>simp add: wrote_refl wrote_def\<close>)
  then obtain e2 where e2: "publishSample (setValueAt k t v) t v b i e0 = Inr e2" "wrote V t v (pset e0 i) e0 e2"
    by blast
  have "last (history (sigs e2 ! i)) = (t, v)" by (rule wrote_keeps_last [OF e2(2) i0 l0])
  moreover have "wrote V t v (pset e i) e e2" using wrote_trans [OF w0] e2(2) p0 by simp
  ultimately show ?case using e2(1) s i by (simp add: e0)
qed simp

section \<open>Networks that settle\<close>

text \<open>A body completes on values of \<open>V\<close> and gives one value of \<open>V\<close>, or nil, per output.\<close>

definition good_body :: "(operand \<Rightarrow> bool) \<Rightarrow> fnode \<Rightarrow> bool" where
  "good_body V n \<longleftrightarrow>
     (\<forall>ins. length ins = length (n_inputs n) \<longrightarrow> list_all V ins \<longrightarrow>
        (\<exists>outs. n_body n (assembleArgs n ins) = Some outs \<and> length outs = length (n_outputs n) \<and> list_all (stored V) outs))"

definition good_node :: "(operand \<Rightarrow> bool) \<Rightarrow> engine \<Rightarrow> nat \<Rightarrow> bool" where
  "good_node V e f \<longleftrightarrow> f < length (nodes e) \<and> n_inputs (nodes e ! f) \<noteq> [] \<and> good_body V (nodes e ! f)
     \<and> set (in_signals (nodes e ! f)) \<subseteq> {..<length (sigs e)} \<and> set (map in_index (n_inputs (nodes e ! f))) \<subseteq> {0}
     \<and> (\<forall>d. Some d \<in> set (map in_default (n_inputs (nodes e ! f))) \<longrightarrow> V d)
     \<and> (\<forall>s \<in> set (n_outputs (nodes e ! f)). s < length (sigs e) \<and> \<not> isDerived (sigs e ! s) \<and> push_ok (length (sigs e)) e s)"

definition reach_of :: "engine \<Rightarrow> nat \<Rightarrow> nat set" where
  "reach_of e f = (\<Union>s \<in> set (n_outputs (nodes e ! f)). pset e s)"

definition good_static :: "(operand \<Rightarrow> bool) \<Rightarrow> (nat \<Rightarrow> nat) \<Rightarrow> nat list \<Rightarrow> engine \<Rightarrow> bool" where
  "good_static V lev fs e \<longleftrightarrow>
     (\<forall>v. V v \<longrightarrow> refl_value v) \<and> (\<forall>f \<in> set fs. good_node V e f) \<and> distinct fs \<and> distinct (concat (map (\<lambda>f. n_outputs (nodes e ! f)) fs))
     \<and> (\<forall>f \<in> set fs. \<forall>g \<in> set fs. set (in_signals (nodes e ! g)) \<inter> reach_of e f \<noteq> {} \<longrightarrow> lev f < lev g)
     \<and> (\<forall>(s, d) \<in> pushrel e. isDerived (sigs e ! d))"

definition outputs_now :: "engine \<Rightarrow> nat \<Rightarrow> operand list" where
  "outputs_now e f = map (\<lambda>s. snd (last (history (sigs e ! s)))) (n_outputs (nodes e ! f))"

text \<open>
  The outputs of a node are those of its body on the inputs of its last execution, and the inputs seen
  since then differ from these only in ways the engine takes for equal.
\<close>

definition consistent :: "(operand \<Rightarrow> bool) \<Rightarrow> engine \<Rightarrow> nat \<Rightarrow> bool" where
  "consistent V e f \<longleftrightarrow>
     (let n = nodes e ! f in n_prevIn n = []
        \<or> length (n_prevIn n) = length (n_inputs n) \<and> list_all V (n_prevIn n)
          \<and> (\<exists>ins. same_values\<^sup>*\<^sup>* ins (n_prevIn n) \<and> n_body n (assembleArgs n ins) = Some (n_prevOut n))
          \<and> outputs_now e f = n_prevOut n)"

definition good_data :: "(operand \<Rightarrow> bool) \<Rightarrow> time \<Rightarrow> nat list \<Rightarrow> engine \<Rightarrow> bool" where
  "good_data V t fs e \<longleftrightarrow> fine V e \<and> t \<ge> 0 \<and> (\<forall>f \<in> set fs. consistent V e f)
     \<and> (\<forall>f \<in> set fs. \<forall>j \<in> reach_of e f. fst (last (history (sigs e ! j))) \<le> t)"

definition settles :: "(operand \<Rightarrow> bool) \<Rightarrow> time \<Rightarrow> (nat \<Rightarrow> nat) \<Rightarrow> nat list \<Rightarrow> engine \<Rightarrow> bool" where
  "settles V t lev fs e \<longleftrightarrow> good_static V lev fs e \<and> good_data V t fs e"

lemma assembleArgs_shape:
  assumes "node_shape n' = node_shape n" shows "assembleArgs n' vs = assembleArgs n vs"
  using node_shape_fields(2,3) [OF assms] by (simp add: assembleArgs_def)

lemma good_body_shape:
  assumes "node_shape n' = node_shape n" shows "good_body V n' = good_body V n"
  using node_shape_fields(1,4,5) [OF assms] assembleArgs_shape [OF assms] by (simp add: good_body_def)

lemma same_shape_node: "same_shape e e' \<Longrightarrow> g < length (nodes e) \<Longrightarrow> node_shape (nodes e' ! g) = node_shape (nodes e ! g)"
  by (simp add: same_shape_def)

lemma good_node_shape:
  assumes "same_shape e e'" "good_node V e f" shows "good_node V e' f"
proof -
  have f: "f < length (nodes e)" using assms(2) by (simp add: good_node_def)
  note n = same_shape_node [OF assms(1) f]
  note nf = node_shape_fields [OF n] and l = same_shape_lengths [OF assms(1)]
  have "n_inputs (nodes e' ! f) \<noteq> []" using nf(5) assms(2) by (auto simp: good_node_def)
  then show ?thesis using assms(2) nf(1,6-8) l good_body_shape [OF n] same_shape_sig(7) [OF assms(1)] push_ok_shape [OF assms(1)]
    by (simp add: good_node_def in_signals_def)
qed

lemma reach_of_shape: "same_shape e e' \<Longrightarrow> f < length (nodes e) \<Longrightarrow> reach_of e' f = reach_of e f"
  by (simp add: reach_of_def pset_shape node_shape_fields(1) [OF same_shape_node])

lemma in_signals_eq: "same_shape e e' \<Longrightarrow> f < length (nodes e) \<Longrightarrow> in_signals (nodes e' ! f) = in_signals (nodes e ! f)"
  by (simp add: in_signals_def node_shape_fields(6) [OF same_shape_node])

lemma n_outputs_eq: "same_shape e e' \<Longrightarrow> f < length (nodes e) \<Longrightarrow> n_outputs (nodes e' ! f) = n_outputs (nodes e ! f)"
  by (simp add: node_shape_fields(1) [OF same_shape_node])

lemma good_static_shape:
  assumes "same_shape e e'" "good_static V lev fs e" shows "good_static V lev fs e'"
proof -
  have v: "f < length (nodes e)" if "f \<in> set fs" for f using assms(2) that by (auto simp: good_static_def good_node_def)
  have o: "map (\<lambda>f. n_outputs (nodes e' ! f)) fs = map (\<lambda>f. n_outputs (nodes e ! f)) fs"
    by (rule map_cong) (simp_all add: n_outputs_eq [OF assms(1) v])
  have p: "isDerived (sigs e' ! d)" if "(s, d) \<in> pushrel e'" for s d
  proof -
    have r: "(s, d) \<in> pushrel e" using that by (simp add: pushrel_shape [OF assms(1)])
    then have "d < length (sigs e)" by (simp add: pushrel_def)
    then show ?thesis using r assms(2) same_shape_sig(7) [OF assms(1), of d] by (auto simp: good_static_def)
  qed
  show ?thesis unfolding good_static_def o
    using assms(2) p good_node_shape [OF assms(1)] in_signals_eq [OF assms(1) v] reach_of_shape [OF assms(1) v]
    by (auto simp: good_static_def)
qed

section \<open>Views\<close>

definition same_ports :: "engine \<Rightarrow> engine \<Rightarrow> nat \<Rightarrow> bool" where
  "same_ports e e' g \<longleftrightarrow> n_inputs (nodes e' ! g) = n_inputs (nodes e ! g)
     \<and> (\<forall>s \<in> set (in_signals (nodes e ! g)). sigs e' ! s = sigs e ! s)"

lemma map_ok_cong: "(\<And>x. x \<in> set xs \<Longrightarrow> f x = g x) \<Longrightarrow> map_ok f xs = map_ok g xs"
  by (induction xs) simp_all

lemma same_ports_view:
  assumes "same_ports e e' g"
  shows "inputsAvailableAt g t e' = inputsAvailableAt g t e" "gather g t e' = gather g t e"
proof -
  have s: "sigs e' ! in_signal p = sigs e ! in_signal p" if "p \<in> set (n_inputs (nodes e ! g))" for p
    using assms that by (simp add: same_ports_def in_signals_def)
  have n: "n_inputs (nodes e' ! g) = n_inputs (nodes e ! g)" using assms by (simp add: same_ports_def)
  show "inputsAvailableAt g t e' = inputsAvailableAt g t e" unfolding inputsAvailableAt_def n
    by (rule list.pred_cong) (simp_all add: port_available_def port_time_def s)
  show "gather g t e' = gather g t e" unfolding gather_def n
    by (rule map_ok_cong) (simp add: port_value_def port_time_def s)
qed

lemma touched_ports:
  assumes "touched T e e'" "g < length (nodes e)" "set (in_signals (nodes e ! g)) \<subseteq> {..<length (sigs e)}"
    and "set (in_signals (nodes e ! g)) \<inter> T = {}"
  shows "same_ports e e' g"
  using assms unfolding touched_def same_ports_def by (auto simp: in_signals_def disjoint_iff)

definition node_settled :: "time \<Rightarrow> engine \<Rightarrow> nat \<Rightarrow> bool" where
  "node_settled t e f \<longleftrightarrow> \<not> inputsAvailableAt f t e
     \<or> (\<exists>ins. gather f t e = Inr ins \<and> same_values (n_prevIn (nodes e ! f)) ins)"

lemma node_settled_view:
  assumes "same_ports e e' g" "n_prevIn (nodes e' ! g) = n_prevIn (nodes e ! g)"
  shows "node_settled t e' g = node_settled t e g"
  using assms(2) same_ports_view [OF assms(1), of t] by (simp add: node_settled_def)

lemma valueAt_mem: "valueAt h a = Some v \<Longrightarrow> \<exists>u. (u, v) \<in> set h"
proof (cases "map_of h a")
  case None
  assume "valueAt h a = Some v"
  then have f: "filter (\<lambda>e. fst e \<le> a) h \<noteq> []" and v: "v = snd (last (filter (\<lambda>e. fst e \<le> a) h))"
    using None by (auto simp: valueAt_def last_upto_def split: list.splits)
  from last_in_set [OF f] have "last (filter (\<lambda>e. fst e \<le> a) h) \<in> set h" by simp
  then show ?thesis unfolding v by (metis prod.collapse)
qed (auto simp: valueAt_def dest: map_of_SomeD)

text \<open>An available node can be given its inputs.\<close>

lemma port_value_ok:
  assumes "port_available e t p" "fine_signal V (sigs e ! in_signal p)" "t \<ge> 0" "in_index p = 0"
    and "\<And>d. in_default p = Some d \<Longrightarrow> V d"
  shows "\<exists>v. port_value e t p = Inr v \<and> V v"
proof -
  obtain h where h: "h = history (sigs e ! in_signal p)" by simp
  have pt: "port_time e t p = t" using assms(4) by (simp add: port_time_def)
  have m: "V v" if "valueAt h a = Some v" "\<not> is_nil v" for a v
    using valueAt_mem [OF that(1)] assms(2) that(2) by (auto simp: fine_signal_def h stored_def)
  have i: "V v" if "valueIfAvailableAt (sigs e ! in_signal p) t = Some v" "\<not> is_nil v" for v
    using that m [of t v] by (auto simp: valueIfAvailableAt_def valueAt_def h Let_def split: option.splits if_splits)
  obtain a where a: "a = min t (latestSampleTime h)" by simp
  have a0: "\<not> a < 0" using assms(2,3) by (auto simp: a h latestSampleTime_def fine_signal_def)
  show ?thesis
  proof (cases "in_default p")
    case None
    then obtain w where w: "valueAt h a = Some w" "\<not> is_nil w"
      using assms(1) by (auto simp: port_available_def Let_def pt h [symmetric] a [symmetric] split: option.splits)
    then show ?thesis using m [OF w] i a0
      by (auto simp: port_value_def Let_def pt h [symmetric] a [symmetric] None split: option.splits)
  next
    case (Some d)
    then show ?thesis using m i assms(5)
      by (auto simp: port_value_def or_default_def Let_def pt h [symmetric] a [symmetric] split: option.splits)
  qed
qed

lemma map_ok_all:
  "(\<And>x. x \<in> set xs \<Longrightarrow> \<exists>v. f x = Inr v \<and> P v) \<Longrightarrow> \<exists>vs. map_ok f xs = Inr vs \<and> list_all P vs \<and> length vs = length xs"
proof (induction xs)
  case (Cons x xs)
  obtain v where "f x = Inr v" "P v" using Cons.prems [of x] by auto
  moreover obtain vs where "map_ok f xs = Inr vs" "list_all P vs" "length vs = length xs" using Cons by auto
  ultimately show ?case by simp
qed simp

lemma gather_ok:
  assumes "inputsAvailableAt f t e" "good_node V e f" "fine V e" "t \<ge> 0"
  shows "\<exists>ins. gather f t e = Inr ins \<and> list_all V ins \<and> length ins = length (n_inputs (nodes e ! f))"
  unfolding gather_def
proof (rule map_ok_all, rule port_value_ok)
  fix p assume p: "p \<in> set (n_inputs (nodes e ! f))"
  show "port_available e t p" using assms(1) p by (simp add: inputsAvailableAt_def list_all_iff)
  have "in_signal p < length (sigs e)" using assms(2) p by (auto simp: good_node_def in_signals_def)
  then show "fine_signal V (sigs e ! in_signal p)" by (rule fine_nth [OF assms(3)])
  show "in_index p = 0" using assms(2) p by (auto simp: good_node_def)
  show "V d" if "in_default p = Some d" for d using assms(2) p that by (force simp: good_node_def)
qed (rule assms(4))

section \<open>A visit\<close>

lemma pset_derived:
  assumes "\<forall>(s, d) \<in> pushrel e. isDerived (sigs e ! d)" "j \<in> pset e s"
  shows "j = s \<or> isDerived (sigs e ! j)"
proof -
  have "(s, j) \<in> (pushrel e)\<^sup>*" using assms(2) by (simp add: pset_def)
  then show ?thesis
  proof (cases rule: rtranclE)
    case (step y)
    from bspec [OF assms(1) this(2)] show ?thesis by simp
  qed simp
qed

lemma assembleArgs_fields [simp]:
  "assembleArgs (n\<lparr>n_prevIn := x\<rparr>) vs = assembleArgs n vs" "assembleArgs (n\<lparr>n_failed := b\<rparr>) vs = assembleArgs n vs"
  "assembleArgs (n\<lparr>n_prevOut := y, n_prevIn := x\<rparr>) vs = assembleArgs n vs"
  by (simp_all add: assembleArgs_def)

lemma write_outputs:
  assumes "length ss = length vs" "distinct ss" "list_all (stored V) vs" "fine V e" "t \<ge> 0"
    and "\<forall>s \<in> set ss. s < length (sigs e) \<and> \<not> isDerived (sigs e ! s) \<and> push_ok (length (sigs e)) e s"
    and "\<forall>s \<in> set ss. \<forall>j \<in> pset e s. fst (last (history (sigs e ! j))) \<le> t"
    and "\<forall>(s, d) \<in> pushrel e. isDerived (sigs e ! d)"
  shows "\<exists>e'. fold_ok (\<lambda>(s, v). write_signal t v s) (zip ss vs) e = Inr e' \<and> touched (\<Union>s \<in> set ss. pset e s) e e' \<and> fine V e'
    \<and> (\<forall>j < length (sigs e). fst (last (history (sigs e ! j))) \<le> t \<longrightarrow> fst (last (history (sigs e' ! j))) \<le> t)
    \<and> map (\<lambda>s. snd (last (history (sigs e' ! s)))) ss = vs"
  using assms
proof (induction ss vs arbitrary: e rule: list_induct2)
  case (Cons s ss v vs)
  have s: "s < length (sigs e)" "push_ok (length (sigs e)) e s" using Cons.prems(5) by simp_all
  have rv: "stored V v" and lt: "\<forall>j \<in> pset e s. fst (last (history (sigs e ! j))) \<le> t" using Cons.prems(2,6) by simp_all
  obtain e1 where e1: "write_signal t v s e = Inr e1" "wrote V t v (pset e s) e e1" "last (history (sigs e1 ! s)) = (t, v)"
    using setValueAt_wrote [OF s(2) Cons.prems(3) rv Cons.prems(4) lt] by (auto simp: write_signal_def)
  note sh = wrote_shape [OF e1(2)] and l = same_shape_lengths [OF wrote_shape [OF e1(2)]]
  have late: "fst (last (history (sigs e1 ! j))) \<le> t" if "j < length (sigs e)" "fst (last (history (sigs e ! j))) \<le> t" for j
    by (rule wrote_latest [OF e1(2) that])
  have d1: "isDerived (sigs e1 ! j) = isDerived (sigs e ! j)" if "j < length (sigs e)" for j by (rule same_shape_sig(7) [OF sh that])
  have der: "\<forall>(s, d) \<in> pushrel e1. isDerived (sigs e1 ! d)"
    using Cons.prems(7) d1 pushrel_shape [OF sh] by (auto simp: pushrel_def)
  have "\<exists>e'. fold_ok (\<lambda>(s, v). write_signal t v s) (zip ss vs) e1 = Inr e' \<and> touched (\<Union>s \<in> set ss. pset e1 s) e1 e' \<and> fine V e'
    \<and> (\<forall>j < length (sigs e1). fst (last (history (sigs e1 ! j))) \<le> t \<longrightarrow> fst (last (history (sigs e' ! j))) \<le> t)
    \<and> map (\<lambda>s. snd (last (history (sigs e' ! s)))) ss = vs"
  proof (rule Cons.IH)
    show "\<forall>s \<in> set ss. s < length (sigs e1) \<and> \<not> isDerived (sigs e1 ! s) \<and> push_ok (length (sigs e1)) e1 s"
      using Cons.prems(5) d1 l push_ok_shape [OF sh] by simp
    show "\<forall>s \<in> set ss. \<forall>j \<in> pset e1 s. fst (last (history (sigs e1 ! j))) \<le> t"
      using Cons.prems(5,6) late pset_shape [OF sh] pset_valid by (metis list.set_intros(2))
    show "fine V e1" using e1(2) by (simp add: wrote_def)
  qed (use Cons.prems(1,2,4) der in simp_all)
  then obtain e' where e': "fold_ok (\<lambda>(s, v). write_signal t v s) (zip ss vs) e1 = Inr e'"
    "touched (\<Union>s \<in> set ss. pset e s) e1 e'" "fine V e'"
    "\<forall>j < length (sigs e1). fst (last (history (sigs e1 ! j))) \<le> t \<longrightarrow> fst (last (history (sigs e' ! j))) \<le> t"
    "map (\<lambda>s. snd (last (history (sigs e' ! s)))) ss = vs" using pset_shape [OF sh] by auto
  have "s \<notin> (\<Union>s \<in> set ss. pset e s)"
  proof
    assume "s \<in> (\<Union>s \<in> set ss. pset e s)"
    then obtain r where "r \<in> set ss" "s \<in> pset e r" by blast
    then show False using pset_derived [OF Cons.prems(7), of s r] Cons.prems(1,5) by auto
  qed
  then have "sigs e' ! s = sigs e1 ! s" using e'(2) s(1) l by (simp add: touched_def)
  then have "snd (last (history (sigs e' ! s))) = v" using e1(3) by simp
  moreover have "touched (\<Union>s \<in> set (s # ss). pset e s) e e'"
    by (rule touched_trans [OF touched_mono touched_mono [OF e'(2)]]) (use e1(2) in \<open>auto simp: wrote_def\<close>)
  ultimately show ?case using e1(1) e' late l by simp
qed (simp add: fine_def)

lemma same_values_refl: "\<forall>v. V v \<longrightarrow> refl_value v \<Longrightarrow> list_all V ins \<Longrightarrow> same_values ins ins"
  by (auto simp: same_values_def list_all2_same list_all_iff refl_value_def)

lemma quiet_visit:
  assumes "settles V t lev fs e" "f \<in> set fs" "node_settled t e f" "visit_node t f e = (st, e')"
  shows "st = Skipped \<and> settles V t lev fs e' \<and> (\<forall>g \<in> set fs. node_settled t e g \<longrightarrow> node_settled t e' g)"
proof (cases "inputsAvailableAt f t e")
  case False
  then show ?thesis using assms by (auto simp: visit_node_def)
next
  case True
  have g: "good_node V e f" "fine V e" "t \<ge> 0" "consistent V e f"
    using assms(1,2) by (auto simp: settles_def good_static_def good_data_def)
  have vr: "\<forall>v. V v \<longrightarrow> refl_value v" using assms(1) by (simp add: settles_def good_static_def)
  have fl: "f < length (nodes e)" using g(1) by (simp add: good_node_def)
  obtain ins where ins: "gather f t e = Inr ins" "same_values (n_prevIn (nodes e ! f)) ins"
    using assms(3) True by (auto simp: node_settled_def)
  have r: "list_all V ins" "length ins = length (n_inputs (nodes e ! f))"
    using gather_ok [OF True g(1-3)] ins(1) by auto
  obtain n where n: "n = nodes e ! f" by simp
  have e': "st = Skipped" "e' = set_node f (n\<lparr>n_prevIn := ins\<rparr>) e"
    using assms(4) True ins by (simp_all add: visit_node_def conditionallyExecute_def n)
  have sh: "same_shape e e'" unfolding e' by (rule same_shape_set_node) (simp add: node_shape_def n)
  have nd: "nodes e' ! g = (if f = g then n\<lparr>n_prevIn := ins\<rparr> else nodes e ! g)" if "g < length (nodes e)" for g
    using that by (simp add: e' set_node_def nth_update)
  have sg: "sigs e' = sigs e" by (simp add: e' set_node_def)
  have gl: "g < length (nodes e)" if "g \<in> set fs" for g
    using assms(1) that by (auto simp: settles_def good_static_def good_node_def)
  have ne: "n_prevIn n \<noteq> []"
    using ins(2) r(2) g(1) by (auto simp: same_values_def n good_node_def)
  obtain ins0 where c: "same_values\<^sup>*\<^sup>* ins0 (n_prevIn n)" "n_body n (assembleArgs n ins0) = Some (n_prevOut n)"
    "outputs_now e f = n_prevOut n"
    using g(4) ne by (auto simp: consistent_def n Let_def)
  have b: "same_values\<^sup>*\<^sup>* ins0 ins" using c(1) ins(2) unfolding n by (rule rtranclp.rtrancl_into_rtrancl)
  have cons: "consistent V e' g" if "g \<in> set fs" for g
  proof (cases "g = f")
    case True
    then show ?thesis using nd [OF fl] b c(2,3) r by (auto simp: consistent_def Let_def outputs_now_def sg n)
  next
    case False
    then have "consistent V e g" "nodes e' ! g = nodes e ! g" using that assms(1) nd [OF gl [OF that]]
      by (auto simp: settles_def good_data_def)
    then show ?thesis by (simp add: consistent_def outputs_now_def sg)
  qed
  have "good_data V t fs e'"
    using assms(1) cons reach_of_shape [OF sh gl] unfolding settles_def good_data_def by (auto simp: sg fine_def)
  moreover have "good_static V lev fs e'" using good_static_shape [OF sh] assms(1) by (simp add: settles_def)
  moreover have "node_settled t e' g" if "g \<in> set fs" "node_settled t e g" for g
  proof -
    have p: "same_ports e e' g" using nd [OF gl [OF that(1)]] by (simp add: same_ports_def sg n)
    show ?thesis
    proof (cases "g = f")
      case True
      have "same_values ins ins" using vr r(1) by (rule same_values_refl)
      then show ?thesis using True nd [OF fl] same_ports_view [OF p, of t] ins(1) by (auto simp: node_settled_def)
    next
      case False
      then show ?thesis using node_settled_view [OF p] nd [OF gl [OF that(1)]] that(2) by simp
    qed
  qed
  ultimately show ?thesis using e'(1) by (simp add: settles_def)
qed

lemma fold_availability:
  assumes "set ss \<subseteq> T"
  shows "touched T e (fold (\<lambda>s. updateAvailability s t) ss e) \<and> sigs (fold (\<lambda>s. updateAvailability s t) ss e) = sigs e"
  using assms
proof (induction ss arbitrary: e)
  case (Cons s ss)
  have "touched T e (updateAvailability s t e)" using touched_availability Cons.prems by simp
  with Cons.IH [of "updateAvailability s t e"] Cons.prems show ?case using touched_trans by (auto simp del: sigs_availability simp: sigs_availability)
qed simp

lemma disjoint_parts:
  "distinct (concat (map F fs)) \<Longrightarrow> distinct fs \<Longrightarrow> f \<in> set fs \<Longrightarrow> g \<in> set fs \<Longrightarrow> f \<noteq> g \<Longrightarrow> set (F f) \<inter> set (F g) = {}"
  by (induction fs) auto

lemma touched_same_ports_trans: "same_ports a b g \<Longrightarrow> same_ports b c g \<Longrightarrow> same_ports a c g"
  by (simp add: same_ports_def in_signals_def)

text \<open>
  What keeps the nodes running: they are well formed, their bodies complete on the values of \<open>V\<close>, which
  is where the stored values come from, and no output has a sample later than the evaluation.
\<close>

definition workable :: "(operand \<Rightarrow> bool) \<Rightarrow> time \<Rightarrow> nat list \<Rightarrow> engine \<Rightarrow> bool" where
  "workable V t fs e \<longleftrightarrow> fine V e \<and> t \<ge> 0 \<and> (\<forall>(s, d) \<in> pushrel e. isDerived (sigs e ! d))
     \<and> (\<forall>f \<in> set fs. good_node V e f \<and> distinct (n_outputs (nodes e ! f))
          \<and> (\<forall>j \<in> reach_of e f. fst (last (history (sigs e ! j))) \<le> t))"

lemma settles_workable: "settles V t lev fs e \<Longrightarrow> workable V t fs e"
  by (auto simp: settles_def good_static_def good_data_def workable_def distinct_concat_iff)

lemma finish_evaluation:
  assumes st: "workable V t fs e" and f: "f \<in> set fs"
    and ins: "list_all V ins" "length ins = length (n_inputs (nodes e ! f))"
    and outs: "n_body (nodes e ! f) (assembleArgs (nodes e ! f) ins) = Some outs"
      "length outs = length (n_outputs (nodes e ! f))" "list_all (stored V) outs"
    and e1: "e1 = set_node f ((nodes e ! f)\<lparr>n_prevOut := outs, n_prevIn := ins\<rparr>) e"
  shows "\<exists>e2. fold_ok (\<lambda>(s, v). write_signal t v s) (zip (n_outputs (nodes e ! f)) outs) e1 = Inr e2
    \<and> touched (reach_of e f) e1 e2 \<and> fine V e2 \<and> outputs_now e2 f = outs
    \<and> (\<forall>j < length (sigs e). fst (last (history (sigs e ! j))) \<le> t \<longrightarrow> fst (last (history (sigs e2 ! j))) \<le> t)"
proof -
  have g: "good_node V e f" "fine V e" "t \<ge> 0" "\<forall>(s, d) \<in> pushrel e. isDerived (sigs e ! d)"
    "\<forall>j \<in> reach_of e f. fst (last (history (sigs e ! j))) \<le> t"
    and d: "distinct (n_outputs (nodes e ! f))"
    using st f by (auto simp: workable_def)
  have fl: "f < length (nodes e)" using g(1) by (simp add: good_node_def)
  have sh: "same_shape e e1" unfolding e1 by (rule same_shape_set_node) (simp add: node_shape_def)
  have sg: "sigs e1 = sigs e" by (simp add: e1 set_node_def)
  obtain e2 where e2: "fold_ok (\<lambda>(s, v). write_signal t v s) (zip (n_outputs (nodes e ! f)) outs) e1 = Inr e2"
    "touched (\<Union>s \<in> set (n_outputs (nodes e ! f)). pset e1 s) e1 e2" "fine V e2"
    "\<forall>j < length (sigs e1). fst (last (history (sigs e1 ! j))) \<le> t \<longrightarrow> fst (last (history (sigs e2 ! j))) \<le> t"
    "map (\<lambda>s. snd (last (history (sigs e2 ! s)))) (n_outputs (nodes e ! f)) = outs"
    using write_outputs [of "n_outputs (nodes e ! f)" outs V e1 t] d outs g pset_shape [OF sh] push_ok_shape [OF sh] pushrel_shape [OF sh]
    by (auto simp: sg good_node_def reach_of_def fine_def)
  have "n_outputs (nodes e2 ! f) = n_outputs (nodes e ! f)"
    using n_outputs_eq [OF same_shape_trans [OF sh] fl] e2(2) by (simp add: touched_def)
  then show ?thesis using e2 pset_shape [OF sh] by (auto simp: outputs_now_def reach_of_def sg)
qed

text \<open>The visit of a node with new inputs executes it and writes what its outputs reach.\<close>

lemma executing_visit:
  assumes "workable V t fs e" "f \<in> set fs" "\<not> node_settled t e f" "visit_node t f e = (st, e')" "n = nodes e ! f"
  shows "\<exists>ins outs. st = Executed \<and> gather f t e = Inr ins \<and> list_all V ins \<and> length ins = length (n_inputs n)
    \<and> n_body n (assembleArgs n ins) = Some outs \<and> length outs = length (n_outputs n) \<and> list_all (stored V) outs
    \<and> touched (reach_of e f) (set_node f (n\<lparr>n_prevOut := outs, n_prevIn := ins\<rparr>) e) e' \<and> fine V e' \<and> outputs_now e' f = outs
    \<and> (\<forall>j < length (sigs e). fst (last (history (sigs e ! j))) \<le> t \<longrightarrow> fst (last (history (sigs e' ! j))) \<le> t)"
proof -
  have g: "good_node V e f" "fine V e" "t \<ge> 0" using assms(1,2) by (auto simp: workable_def)
  have fl: "f < length (nodes e)" using g(1) by (simp add: good_node_def)
  note n = assms(5)
  obtain T where T: "T = reach_of e f" by simp
  have av: "inputsAvailableAt f t e" using assms(3) by (simp add: node_settled_def)
  obtain ins where ins: "gather f t e = Inr ins" "list_all V ins" "length ins = length (n_inputs n)"
    using gather_ok [OF av g] n by auto
  have ns: "\<not> same_values (n_prevIn n) ins" using assms(3) av ins(1) by (simp add: node_settled_def n)
  obtain outs where outs: "n_body n (assembleArgs n ins) = Some outs" "length outs = length (n_outputs n)" "list_all (stored V) outs"
    using g(1) ins(2,3) by (auto simp: good_node_def good_body_def n)
  obtain e1 where e1: "e1 = set_node f (n\<lparr>n_prevOut := outs, n_prevIn := ins\<rparr>) e" by simp
  obtain e2 where e2: "fold_ok (\<lambda>(s, v). write_signal t v s) (zip (n_outputs n) outs) e1 = Inr e2"
    "touched T e1 e2" "fine V e2" "outputs_now e2 f = outs"
    "\<forall>j < length (sigs e). fst (last (history (sigs e ! j))) \<le> t \<longrightarrow> fst (last (history (sigs e2 ! j))) \<le> t"
    using finish_evaluation [OF assms(1,2) ins(2) _ _ _ outs(3) refl] ins(3) outs(1,2) by (auto simp: n T e1)
  obtain e3 where e3: "e3 = set_node f ((nodes e2 ! f)\<lparr>n_failed := False\<rparr>) e2" by simp
  have "finishEvaluation t f ins outs e = (Completed, e3)"
    using outs(2) fold_keep_ok [OF e2(1)] by (simp add: finishEvaluation_def Let_def n e1 e3)
  then have "conditionallyExecute t f e = (Completed, e3)"
    using ins(1) ns outs(1) by (simp add: conditionallyExecute_def Let_def n)
  then have e': "st = Executed" "e' = fold (\<lambda>s. updateAvailability s t) (n_outputs (nodes e3 ! f)) e3"
    using assms(4) av by (simp_all add: visit_node_def)
  have sh1: "same_shape e e1" unfolding e1 by (rule same_shape_set_node) (simp add: node_shape_def n)
  have l2: "length (nodes e2) = length (nodes e)" "same_shape e1 e2"
    using e2(2) same_shape_lengths [OF sh1] by (auto simp: touched_def same_shape_def)
  have "touched T e2 e3" unfolding touched_def
    using l2(1) by (auto simp: e3 same_shape_set_node node_shape_def) (auto simp: set_node_def nth_update)
  then have t13: "touched T e1 e3" using e2(2) touched_trans by blast
  have o3: "n_outputs (nodes e3 ! f) = n_outputs n"
    using n_outputs_eq [OF same_shape_trans [OF sh1] fl] t13 by (simp add: touched_def n)
  have "set (n_outputs n) \<subseteq> T" by (auto simp: T reach_of_def n)
  then have t1: "touched T e1 e'" and sg': "sigs e' = sigs e2"
    using fold_availability [of "n_outputs n" T e3 t] touched_trans [OF t13] e'(2) o3
    by (auto simp: e3 set_node_def)
  have sh: "same_shape e e'" using sh1 t1 same_shape_trans by (auto simp: touched_def)
  have "outputs_now e' f = outs" using e2(4) n_outputs_eq [OF sh fl] n_outputs_eq [OF same_shape_trans [OF sh1 l2(2)] fl]
    by (simp add: outputs_now_def sg')
  then show ?thesis using ins outs e'(1) t1 e2(3,5) by (simp add: e1 T fine_def sg')
qed

text \<open>A visit without new inputs changes the record of the inputs seen, at most.\<close>

lemma idle_visit:
  assumes "node_settled t e f" "visit_node t f e = (st, e')" "n = nodes e ! f"
  shows "st = Skipped \<and> (\<not> inputsAvailableAt f t e \<and> e' = e \<or>
    (\<exists>ins. gather f t e = Inr ins \<and> same_values (n_prevIn n) ins \<and> e' = set_node f (n\<lparr>n_prevIn := ins\<rparr>) e))"
  using assms by (auto simp: visit_node_def conditionallyExecute_def node_settled_def Let_def split: if_splits)

lemma active_visit:
  assumes "settles V t lev fs e" "f \<in> set fs" "\<not> node_settled t e f" "visit_node t f e = (st, e')"
  shows "st = Executed \<and> settles V t lev fs e' \<and> node_settled t e' f
    \<and> (\<forall>g \<in> set fs. lev g \<le> lev f \<longrightarrow> node_settled t e g \<longrightarrow> node_settled t e' g)"
proof -
  note st = assms(1) [unfolded settles_def]
  have vr: "\<forall>v. V v \<longrightarrow> refl_value v" using st by (simp add: good_static_def)
  have g: "good_node V e f" "fine V e" "t \<ge> 0" using assms(1,2) by (auto simp: settles_def good_static_def good_data_def)
  have gl: "g < length (nodes e)" "set (in_signals (nodes e ! g)) \<subseteq> {..<length (sigs e)}" if "g \<in> set fs" for g
    using st that by (auto simp: good_static_def good_node_def)
  note fl = gl(1) [OF assms(2)]
  obtain T where T: "T = reach_of e f" by simp
  obtain n where n: "n = nodes e ! f" by simp
  obtain ins outs where st': "st = Executed" and ins: "gather f t e = Inr ins" "list_all V ins" "length ins = length (n_inputs n)"
    and outs: "n_body n (assembleArgs n ins) = Some outs" "length outs = length (n_outputs n)" "list_all (stored V) outs"
    and t0: "touched T (set_node f (n\<lparr>n_prevOut := outs, n_prevIn := ins\<rparr>) e) e'" and fe: "fine V e'"
    and out': "outputs_now e' f = outs"
    and late': "\<forall>j < length (sigs e). fst (last (history (sigs e ! j))) \<le> t \<longrightarrow> fst (last (history (sigs e' ! j))) \<le> t"
    using executing_visit [OF settles_workable [OF assms(1)] assms(2-4) n] unfolding T by blast
  obtain e1 where e1: "e1 = set_node f (n\<lparr>n_prevOut := outs, n_prevIn := ins\<rparr>) e" by simp
  have t1: "touched T e1 e'" using t0 by (simp add: e1)
  have sh1: "same_shape e e1" unfolding e1 by (rule same_shape_set_node) (simp add: node_shape_def n)
  have sg1: "sigs e1 = sigs e" by (simp add: e1 set_node_def)
  have nd1: "nodes e1 ! g = (if f = g then n\<lparr>n_prevOut := outs, n_prevIn := ins\<rparr> else nodes e ! g)" if "g < length (nodes e)" for g
    using that by (simp add: e1 set_node_def nth_update)
  have sh: "same_shape e e'" using sh1 t1 same_shape_trans by (auto simp: touched_def)
  have l1: "length (nodes e1) = length (nodes e)" "length (sigs e1) = length (sigs e)" using same_shape_lengths [OF sh1] by auto
  have prev: "n_prevIn (nodes e' ! g) = n_prevIn (nodes e1 ! g)" "n_prevOut (nodes e' ! g) = n_prevOut (nodes e1 ! g)" if "g \<in> set fs" for g
    using t1 gl(1) [OF that] l1(1) by (simp_all add: touched_def)
  have fixed: "sigs e' ! j = sigs e ! j" if "j < length (sigs e)" "j \<notin> T" for j
    using t1 that l1(2) by (simp add: touched_def sg1)
  have nsh: "node_shape (nodes e' ! g) = node_shape (nodes e ! g)" if "g \<in> set fs" for g
    by (rule same_shape_node [OF sh gl(1) [OF that]])
  have ports: "same_ports e e' g" if "g \<in> set fs" "lev g \<le> lev f" for g
  proof -
    have dis: "set (in_signals (nodes e ! g)) \<inter> T = {}"
      using st assms(2) that unfolding good_static_def T by (meson not_le)
    have i1: "in_signals (nodes e1 ! g) = in_signals (nodes e ! g)" by (rule in_signals_eq [OF sh1 gl(1) [OF that(1)]])
    have "same_ports e e1 g" using nd1 [OF gl(1) [OF that(1)]] by (simp add: same_ports_def sg1 n)
    moreover have "same_ports e1 e' g"
      by (rule touched_ports [OF t1]) (use gl [OF that(1)] l1 dis i1 in simp_all)
    ultimately show ?thesis by (rule touched_same_ports_trans)
  qed
  have cons: "consistent V e' g" if "g \<in> set fs" for g
  proof (cases "g = f")
    case True
    show ?thesis
      using True out' prev [OF assms(2)] nd1 [OF fl] ins outs node_shape_fields(4,5) [OF nsh [OF assms(2)]] assembleArgs_shape [OF nsh [OF assms(2)]]
        rtranclp.rtrancl_refl [of same_values ins] by (auto simp: consistent_def Let_def n)
  next
    case False
    have c: "consistent V e g" using that st by (simp add: good_data_def)
    have "set (n_outputs (nodes e ! f)) \<inter> set (n_outputs (nodes e ! g)) = {}"
      using disjoint_parts [of "\<lambda>f. n_outputs (nodes e ! f)" fs f g] st assms(2) that False by (simp add: good_static_def)
    moreover have der: "\<forall>(s, d) \<in> pushrel e. isDerived (sigs e ! d)"
      and og: "\<forall>s \<in> set (n_outputs (nodes e ! g)). s < length (sigs e) \<and> \<not> isDerived (sigs e ! s)"
      using st that by (simp_all add: good_static_def good_node_def)
    ultimately have "s \<notin> T" if s: "s \<in> set (n_outputs (nodes e ! g))" for s
    proof -
      have "s \<notin> pset e r" if "r \<in> set (n_outputs (nodes e ! f))" for r
      proof
        assume "s \<in> pset e r"
        then have "s = r" using pset_derived [OF der] og s by blast
        then show False using s that \<open>set (n_outputs (nodes e ! f)) \<inter> set (n_outputs (nodes e ! g)) = {}\<close> by blast
      qed
      then show ?thesis by (simp add: T reach_of_def)
    qed
    then have "outputs_now e' g = outputs_now e g"
      using fixed og n_outputs_eq [OF sh gl(1) [OF that]] by (simp add: outputs_now_def)
    moreover have "n_prevIn (nodes e' ! g) = n_prevIn (nodes e ! g)" "n_prevOut (nodes e' ! g) = n_prevOut (nodes e ! g)"
      using prev [OF that] nd1 [OF gl(1) [OF that]] False by simp_all
    ultimately show ?thesis
      using c node_shape_fields(4,5) [OF nsh [OF that]] assembleArgs_shape [OF nsh [OF that]] by (simp add: consistent_def Let_def)
  qed
  have late: "fst (last (history (sigs e' ! j))) \<le> t" if "g \<in> set fs" "j \<in> reach_of e g" for g j
  proof -
    have "j < length (sigs e)"
      using that st pset_valid unfolding reach_of_def good_static_def good_node_def by blast
    then show ?thesis using late' that st by (simp add: good_data_def)
  qed
  have "good_data V t fs e'"
    using st cons late reach_of_shape [OF sh gl(1)] fe unfolding good_data_def by auto
  moreover have "good_static V lev fs e'" using good_static_shape [OF sh] st by simp
  moreover have "node_settled t e' f"
  proof -
    have "same_values ins ins" using vr ins(2) by (rule same_values_refl)
    then show ?thesis using same_ports_view [OF ports [OF assms(2) order.refl], of t] ins(1) prev [OF assms(2)] nd1 [OF fl]
      by (simp add: node_settled_def)
  qed
  moreover have "node_settled t e' g" if "g \<in> set fs" "lev g \<le> lev f" "node_settled t e g" for g
  proof (cases "g = f")
    case False
    then show ?thesis using node_settled_view [OF ports [OF that(1,2)]] prev [OF that(1)] nd1 [OF gl(1) [OF that(1)]] that(3) by simp
  qed (use \<open>node_settled t e' f\<close> in simp)
  ultimately show ?thesis using st' by (simp add: settles_def)
qed

end
