(* ===== verification/Dataflow_Island.thy ===== *)
theory Dataflow_Island
  imports Dataflow_Settle
begin

text \<open>
  The evaluation of an island as a whole: the passes of \<open>evaluateIsland\<close> are the rounds of the settling
  scheme, so they end within the engine's limit with every available node consistent with its inputs.
\<close>

definition visit_active :: "time \<Rightarrow> nat \<Rightarrow> engine \<Rightarrow> bool \<times> engine" where
  "visit_active t f e = (case visit_node t f e of (st, e') \<Rightarrow> (st = Executed, e'))"

interpretation settle: settling "visit_active t" "settles V t lev fs" "node_settled t" lev "set fs" for V t lev fs
proof
  fix s s' n b
  assume a: "settles V t lev fs s" "n \<in> set fs" "node_settled t s n" "visit_active t n s = (b, s')"
  then obtain st where "visit_node t n s = (st, s')" "b = (st = Executed)" by (auto simp: visit_active_def split: prod.splits)
  then show "\<not> b \<and> settles V t lev fs s' \<and> (\<forall>m \<in> set fs. node_settled t s m \<longrightarrow> node_settled t s' m)"
    using quiet_visit [OF a(1-3)] by blast
next
  fix s s' n b
  assume a: "settles V t lev fs s" "n \<in> set fs" "\<not> node_settled t s n" "visit_active t n s = (b, s')"
  then obtain st where "visit_node t n s = (st, s')" "b = (st = Executed)" by (auto simp: visit_active_def split: prod.splits)
  then show "b \<and> settles V t lev fs s' \<and> node_settled t s' n
      \<and> (\<forall>m \<in> set fs. lev m \<le> lev n \<longrightarrow> node_settled t s m \<longrightarrow> node_settled t s' m)"
    using active_visit [OF a(1-3)] by blast
qed

lemma pass_run:
  assumes "settles V t lev fs e" "set ns \<subseteq> set fs"
  shows "pass t ns e = (False, settle.run t ns e)"
  using assms
proof (induction ns arbitrary: e)
  case (Cons n ns)
  obtain st e1 where v: "visit_node t n e = (st, e1)" by (cases "visit_node t n e")
  have n: "n \<in> set fs" using Cons.prems(2) by simp
  have s: "settles V t lev fs e1" "st \<noteq> Stopped"
    using quiet_visit [OF Cons.prems(1) n _ v] active_visit [OF Cons.prems(1) n _ v] by (cases "node_settled t e n"; simp)+
  have "pass t ns e1 = (False, settle.run t ns e1)" using Cons.IH [OF s(1)] Cons.prems(2) by simp
  moreover have "visit_active t n e = (st = Executed, e1)" using v by (simp add: visit_active_def)
  ultimately show ?case using s(2) v by (cases st) (auto split: prod.splits)
qed simp

lemma passes_rounds:
  assumes "settles V t lev fs e" "settle.rounds t k fs e = Some e'"
  shows "passes k t fs e = Inr (Complete, e')"
  using assms
proof (induction k arbitrary: e)
  case (Suc k)
  obtain j e1 where r: "settle.run t fs e = (j, e1)" by (cases "settle.run t fs e")
  have p: "pass t fs e = (False, j, e1)" using pass_run [OF Suc.prems(1)] r by simp
  show ?case
  proof (cases "j = 0")
    case False
    have "settles V t lev fs e1" by (rule settle.run_inv [OF Suc.prems(1) _ r]) simp
    then show ?thesis using Suc.IH [of e1] Suc.prems(2) r p False by (simp add: passes.simps [of "Suc k"])
  qed (use Suc.prems(2) r p in \<open>simp add: passes.simps [of "Suc k"]\<close>)
qed simp

text \<open>Values that no other value is equal to: all but numbers.\<close>

definition exact_value :: "operand \<Rightarrow> bool" where
  "exact_value v \<longleftrightarrow> (case v of Sc s \<Rightarrow> \<not> isNumber s | _ \<Rightarrow> True)"

lemma exact_equals:
  assumes "equals w v" "exact_value v" shows "w = v"
proof (cases v)
  case (Sc y)
  then obtain x where w: "w = Sc x" using assms(1) by (cases w) (auto simp: equals_def)
  show ?thesis using assms unfolding Sc w
    by (cases x; cases y) (auto simp: equals_def exact_value_def isNumber_def split: if_splits)
qed (use assms in \<open>auto simp: equals_def split: operand.splits\<close>)

lemma exact_chain: "same_values\<^sup>*\<^sup>* ins0 ins \<Longrightarrow> list_all exact_value ins \<Longrightarrow> ins0 = ins"
proof (induction rule: converse_rtranclp_induct)
  case (step x y)
  then have "same_values x ins" "list_all exact_value ins" by simp_all
  then have "list_all2 (=) x ins"
    unfolding same_values_def by (auto simp: list_all2_conv_all_nth list_all_length intro: exact_equals)
  then show ?case by (simp add: list.rel_eq)
qed simp

lemma settled_outputs:
  assumes "settles V t lev fs e" "f \<in> set fs" "node_settled t e f" "inputsAvailableAt f t e"
  shows "\<exists>ins0 ins. gather f t e = Inr ins \<and> same_values\<^sup>*\<^sup>* ins0 ins \<and> (list_all exact_value ins \<longrightarrow> ins0 = ins)
    \<and> n_body (nodes e ! f) (assembleArgs (nodes e ! f) ins0) = Some (outputs_now e f)"
proof -
  obtain n where n: "n = nodes e ! f" by simp
  have g: "good_node V e f" "fine V e" "t \<ge> 0" "consistent V e f"
    using assms(1,2) by (auto simp: settles_def good_static_def good_data_def)
  obtain ins where ins: "gather f t e = Inr ins" "same_values (n_prevIn n) ins"
    using assms(3,4) by (auto simp: node_settled_def n)
  have l: "length ins = length (n_inputs n)" using gather_ok [OF assms(4) g(1-3)] ins(1) by (auto simp: n)
  have "n_prevIn n \<noteq> []" using ins(2) l g(1) by (auto simp: same_values_def good_node_def n)
  then obtain ins0 where c: "same_values\<^sup>*\<^sup>* ins0 (n_prevIn n)" "n_body n (assembleArgs n ins0) = Some (outputs_now e f)"
    using g(4) by (auto simp: consistent_def Let_def n)
  have "same_values\<^sup>*\<^sup>* ins0 ins" using c(1) ins(2) by (rule rtranclp.rtrancl_into_rtrancl)
  then show ?thesis using ins(1) c(2) exact_chain by (auto simp: n)
qed

lemma passes_settle:
  assumes "settles V t lev fs e" "\<forall>f \<in> set fs. lev f < length fs" "fs \<noteq> []"
  shows "\<exists>e'. passes (length fs * 100) t fs e = Inr (Complete, e') \<and> settles V t lev fs e' \<and> (\<forall>f \<in> set fs. node_settled t e' f)"
proof -
  obtain k where k: "length fs * 100 = Suc k" "length fs \<le> k" "k > 0"
    using assms(3) by (cases "length fs") (auto intro: that [of "length fs * 100 - 1"])
  obtain e' where "settle.rounds t (Suc k) fs e = Some e'" "settles V t lev fs e'" "\<forall>f \<in> set fs. node_settled t e' f"
    using settle.rounds_settle_from [OF assms(1) refl _ assms(2), of 0 k] k(2,3) by auto
  then show ?thesis using passes_rounds [OF assms(1)] k(1) by auto
qed

section \<open>Delayed wires\<close>

text \<open>
  The delayed signals that an evaluation refreshes first: each has a base, and whatever it feeds has no
  sample later than the time of the evaluation.
\<close>

definition delayed :: "engine \<Rightarrow> nat \<Rightarrow> bool" where
  "delayed e i \<longleftrightarrow> isDerived (sigs e ! i) \<and> baseIndex (sigs e ! i) \<noteq> 0"

definition delay_ready :: "time \<Rightarrow> engine \<Rightarrow> nat \<Rightarrow> bool" where
  "delay_ready t e i \<longleftrightarrow> i < length (sigs e) \<and> push_ok (length (sigs e)) e i
     \<and> (\<forall>b. baseSignal (sigs e ! i) = Some b \<longrightarrow> b < length (sigs e))
     \<and> (\<forall>j \<in> pset e i. fst (last (history (sigs e ! j))) \<le> t)"

lemma delayed_value_refl:
  assumes "fine_signal V s" shows "stored V (delayed_value s idx t)"
proof -
  have nil: "stored V (Sc SNil)" by (simp add: stored_def is_nil_def)
  have h: "stored V v" if "(u, v) \<in> set (history s)" for u v using assms that by (auto simp: fine_signal_def)
  have v: "stored V v" if "valueAt (history s) a = Some v" for v a using valueAt_mem [OF that] h by blast
  have o: "stored V (snd (hd (history s)))" if "history s \<noteq> []" using h [of _ "snd (hd (history s))"] that
    by (metis list.set_sel(1) prod.collapse)
  have l: "stored V v" if "lastValue (history s) = Inr v" for v
    using that h last_in_set [of "history s"] by (cases "last (history s)") (auto simp: lastValue_def split: if_splits list.splits)
  show ?thesis unfolding delayed_value_def valueAtIndex_def Let_def
    using nil v o l by (auto split: sum.splits option.splits if_splits)
qed

lemma wrote_settles:
  assumes "settles V t lev fs e" "wrote V t v T e e'" "\<forall>f \<in> set fs. set (n_outputs (nodes e ! f)) \<inter> T = {}"
  shows "settles V t lev fs e'"
proof -
  note sh = wrote_shape [OF assms(2)]
  have tt: "touched T e e'" and fe: "fine V e'" using assms(2) by (simp_all add: wrote_def)
  have st: "good_static V lev fs e" "good_data V t fs e" using assms(1) by (simp_all add: settles_def)
  have v: "f < length (nodes e)" "\<forall>s \<in> set (n_outputs (nodes e ! f)). s < length (sigs e)" if "f \<in> set fs" for f
    using st(1) that by (simp_all add: good_static_def good_node_def)
  have "consistent V e' f" if f: "f \<in> set fs" for f
  proof -
    have "n_prevIn (nodes e' ! f) = n_prevIn (nodes e ! f)" "n_prevOut (nodes e' ! f) = n_prevOut (nodes e ! f)"
      using tt v(1) [OF f] by (simp_all add: touched_def)
    moreover have "sigs e' ! s = sigs e ! s" if "s \<in> set (n_outputs (nodes e ! f))" for s
      using tt v(2) [OF f] assms(3) f that by (auto simp: touched_def)
    then have "outputs_now e' f = outputs_now e f" by (simp add: outputs_now_def n_outputs_eq [OF sh v(1) [OF f]])
    moreover note node_shape_fields(4,5) [OF same_shape_node [OF sh v(1) [OF f]]]
      assembleArgs_shape [OF same_shape_node [OF sh v(1) [OF f]]]
    moreover have "consistent V e f" using st(2) f by (simp add: good_data_def)
    ultimately show ?thesis by (simp add: consistent_def Let_def)
  qed
  moreover have "fst (last (history (sigs e' ! j))) \<le> t" if "f \<in> set fs" "j \<in> reach_of e' f" for f j
  proof -
    have j: "j \<in> reach_of e f" using that reach_of_shape [OF sh v(1)] by simp
    then have "j < length (sigs e)" using v(2) [OF that(1)] pset_valid by (auto simp: reach_of_def)
    then show ?thesis using wrote_latest [OF assms(2)] j that(1) st(2) by (simp add: good_data_def)
  qed
  ultimately show ?thesis using good_static_shape [OF sh st(1)] st(2) fe by (simp add: settles_def good_data_def)
qed

lemma same_shape_base: "same_shape e e' \<Longrightarrow> i < length (sigs e) \<Longrightarrow> baseSignal (sigs e' ! i) = baseSignal (sigs e ! i)"
  using sig_shape_fields(8) [of "sigs e' ! i" "sigs e ! i"] by (simp add: same_shape_def)

lemma delay_ready_wrote:
  assumes "wrote V t v T e e'" "delay_ready t e i"
  shows "delay_ready t e' i \<and> delayed e' i = delayed e i"
proof -
  note sh = wrote_shape [OF assms(1)]
  have i: "i < length (sigs e)" using assms(2) by (simp add: delay_ready_def)
  have "fst (last (history (sigs e' ! j))) \<le> t" if "j \<in> pset e i" for j
    using wrote_latest [OF assms(1) pset_valid [OF i that]] assms(2) that by (simp add: delay_ready_def)
  then show ?thesis
    using assms(2) i same_shape_lengths [OF sh] push_ok_shape [OF sh] pset_shape [OF sh] same_shape_sig(6,7) [OF sh i]
      same_shape_base [OF sh i]
    by (simp add: delay_ready_def delayed_def)
qed

definition refresh_one :: "time \<Rightarrow> nat \<Rightarrow> engine \<Rightarrow> df_error + engine" where
  "refresh_one t i e =
     (if \<not> delayed e i then Inr e
      else (case baseSignal (sigs e ! i) of
           None \<Rightarrow> Inr e
         | Some b \<Rightarrow> seq_then (write_signal t (delayed_value (sigs e ! b) (baseIndex (sigs e ! i)) t) i e)
                      (\<lambda>e1. Inr (updateAvailability i t e1))))"

lemma refresh_fold: "refreshDerivedSignals is t e = fold_ok (refresh_one t) (is_signals is) e"
  unfolding refreshDerivedSignals_def refresh_one_def [abs_def] delayed_def Let_def de_Morgan_conj not_not by (rule refl)

lemma refresh_one_settles:
  assumes "settles V t lev fs e" "delayed e i \<longrightarrow> delay_ready t e i"
  shows "\<exists>e' v T. refresh_one t i e = Inr e' \<and> wrote V t v T e e' \<and> settles V t lev fs e'"
proof (cases "delayed e i \<and> baseSignal (sigs e ! i) \<noteq> None")
  case False
  have "fine V e" using assms(1) by (simp add: settles_def good_data_def)
  then show ?thesis using False assms(1) wrote_refl by (auto simp: refresh_one_def)
next
  case True
  then obtain b where b: "baseSignal (sigs e ! i) = Some b" "delayed e i" by blast
  obtain v where v: "v = delayed_value (sigs e ! b) (baseIndex (sigs e ! i)) t" by simp
  have st: "good_static V lev fs e" "fine V e" "t \<ge> 0" using assms(1) by (simp_all add: settles_def good_data_def)
  have r: "delay_ready t e i" "b < length (sigs e)" using assms(2) b by (simp_all add: delay_ready_def)
  have rv: "stored V v" unfolding v by (rule delayed_value_refl [OF fine_nth [OF st(2) r(2)]])
  obtain e1 where e1: "write_signal t v i e = Inr e1" "wrote V t v (pset e i) e e1"
    using setValueAt_wrote [of "length (sigs e)" e i, OF _ st(2) rv st(3)] r(1) unfolding delay_ready_def write_signal_def by blast
  have w: "wrote V t v (pset e i) e (updateAvailability i t e1)" by (rule wrote_availability [OF e1(2) pset_self])
  have der: "\<forall>(s, d) \<in> pushrel e. isDerived (sigs e ! d)" using st(1) by (simp add: good_static_def)
  have "set (n_outputs (nodes e ! f)) \<inter> pset e i = {}" if "f \<in> set fs" for f
  proof -
    have "\<not> isDerived (sigs e ! s)" if "s \<in> set (n_outputs (nodes e ! f))" for s
      using st(1) \<open>f \<in> set fs\<close> that by (simp add: good_static_def good_node_def)
    then show ?thesis using pset_derived [OF der] b(2) unfolding delayed_def by blast
  qed
  then have "settles V t lev fs (updateAvailability i t e1)" using wrote_settles [OF assms(1) w] by blast
  moreover have "refresh_one t i e = Inr (updateAvailability i t e1)"
    using b e1(1) by (simp add: refresh_one_def v)
  ultimately show ?thesis using w by blast
qed

lemma refresh_settles:
  assumes "settles V t lev fs e" "\<forall>i \<in> set is. i < length (sigs e) \<and> (delayed e i \<longrightarrow> delay_ready t e i)"
  shows "\<exists>e'. fold_ok (refresh_one t) is e = Inr e' \<and> settles V t lev fs e'"
  using assms
proof (induction "is" arbitrary: e)
  case (Cons i "is")
  obtain e1 v T where e1: "refresh_one t i e = Inr e1" "wrote V t v T e e1" "settles V t lev fs e1"
    using refresh_one_settles [OF Cons.prems(1)] Cons.prems(2) by (metis list.set_intros(1))
  note sh = wrote_shape [OF e1(2)]
  have "j < length (sigs e1) \<and> (delayed e1 j \<longrightarrow> delay_ready t e1 j)" if "j \<in> set is" for j
  proof -
    have j: "j < length (sigs e)" "delayed e j \<longrightarrow> delay_ready t e j" using Cons.prems(2) that by simp_all
    have "delayed e1 j = delayed e j" using same_shape_sig(6,7) [OF sh j(1)] by (simp add: delayed_def)
    then show ?thesis using j delay_ready_wrote [OF e1(2)] same_shape_lengths [OF sh] by auto
  qed
  then show ?case using Cons.IH [OF e1(3)] e1(1) by simp
qed simp

lemma island_settles:
  assumes "settles V t lev (execution_order is) e" "\<forall>f \<in> set (execution_order is). lev f < length (is_funcs is)"
    and "length (execution_order is) = length (is_funcs is)"
    and "\<forall>i \<in> set (is_signals is). i < length (sigs e) \<and> (delayed e i \<longrightarrow> delay_ready t e i)"
  shows "\<exists>e'. evaluateIsland is t e = Inr (Complete, e')
    \<and> (\<forall>f \<in> set (execution_order is). inputsAvailableAt f t e' \<longrightarrow>
         (\<exists>ins0 ins. gather f t e' = Inr ins \<and> same_values\<^sup>*\<^sup>* ins0 ins \<and> (list_all exact_value ins \<longrightarrow> ins0 = ins)
           \<and> n_body (nodes e' ! f) (assembleArgs (nodes e' ! f) ins0) = Some (outputs_now e' f)))"
proof -
  obtain e1 where e1: "refreshDerivedSignals is t e = Inr e1" "settles V t lev (execution_order is) e1"
    using refresh_settles [OF assms(1,4)] by (auto simp: refresh_fold)
  show ?thesis
  proof (cases "is_funcs is = []")
    case True
    then show ?thesis using assms(3) e1(1) by (simp add: evaluateIsland_def)
  next
    case False
    then have "execution_order is \<noteq> []" using assms(3) by auto
    then obtain e' where e': "passes (length (is_funcs is) * 100) t (execution_order is) e1 = Inr (Complete, e')"
      "settles V t lev (execution_order is) e'" "\<forall>f \<in> set (execution_order is). node_settled t e' f"
      using passes_settle [OF e1(2)] assms(2,3) by auto
    then show ?thesis using settled_outputs [OF e'(2)] e1(1) False by (auto simp: evaluateIsland_def)
  qed
qed

section \<open>Glitch freedom\<close>

definition is_int :: "operand \<Rightarrow> bool" where
  "is_int v \<longleftrightarrow> (case v of Sc (SInt i) \<Rightarrow> True | _ \<Rightarrow> False)"

lemma is_int_iff: "is_int v \<longleftrightarrow> (\<exists>i. v = Sc (SInt i))"
  by (auto simp: is_int_def split: operand.splits scalar.splits)

definition halve_body :: "operand list \<Rightarrow> operand list option" where
  "halve_body vs = (case vs of [Sc x] \<Rightarrow> (case divide x (SInt 2) of Done y \<Rightarrow> Some [Sc y] | _ \<Rightarrow> None) | _ \<Rightarrow> None)"

lemma halve_int: "\<exists>j. halve_body [Sc (SInt i)] = Some [Sc (SInt j)]"
proof -
  have "sint (2 :: 64 word) = 2" by code_simp
  then show ?thesis by (simp add: halve_body_def divide_int int_div_def)
qed

definition halve_node :: "nat \<Rightarrow> nat \<Rightarrow> fnode" where
  "halve_node s d = \<lparr>n_inputs = [\<lparr>in_signal = s, in_index = 0, in_default = None, in_available = 5\<rparr>], n_outputs = [d],
     n_params = [''x''], n_consts = [], n_native = False, n_body = halve_body, n_period = 0, n_prevIn = [],
     n_prevOut = [], n_failed = False\<rparr>"

definition halve_twice :: engine where
  "halve_twice = (let s = plain_signal 0 0 True (Sc SNil) in empty_engine\<lparr>
     sigs := [s\<lparr>isSource := True, history := [(0, Sc SNil), (5, Sc (SInt 20))]\<rparr>, s\<lparr>dependents := [3]\<rparr>, s,
              s\<lparr>isDerived := True, baseSignal := Some 1\<rparr>],
     nodes := [halve_node 0 1, halve_node 3 2],
     signals := [0, 1, 2, 3], funcs := [(''f'', 0), (''g'', 1)],
     consumers := (\<lambda>s. if s = 0 then [0] else if s = 3 then [1] else [])\<rparr>)"

definition halve_island :: island where
  "halve_island = (blank_island [0, 1, 3, 2] [0, 1])\<lparr>is_orders := [(0, [0, 1])]\<rparr>"

lemma halve_good_body: "good_body is_int (halve_node s d)"
proof -
  have a: "assembleArgs (halve_node s d) [x] = [x]" for x by (simp add: assembleArgs_def halve_node_def)
  have f: "length (n_inputs (halve_node s d)) = 1" "n_body (halve_node s d) = halve_body" "length (n_outputs (halve_node s d)) = 1"
    by (simp_all add: halve_node_def)
  show ?thesis unfolding good_body_def f
  proof (intro allI impI)
    fix ins :: "operand list" assume "length ins = 1" "list_all is_int ins"
    then obtain i where i: "ins = [Sc (SInt i)]" by (auto simp: length_Suc_conv is_int_iff)
    obtain j where "halve_body [Sc (SInt i)] = Some [Sc (SInt j)]" using halve_int by blast
    then show "\<exists>outs. halve_body (assembleArgs (halve_node s d) ins) = Some outs \<and> length outs = 1 \<and> list_all (stored is_int) outs"
      using a i by (simp add: stored_def is_int_def)
  qed
qed

lemma rtrancl_one: "(x, j) \<in> {(a, b)}\<^sup>* \<Longrightarrow> j = x \<or> x = a \<and> j = b"
  by (induction rule: rtrancl_induct) auto

lemma halve_signals:
  "length (sigs halve_twice) = 4" "pushrel halve_twice = {(1, 3)}"
  "pset halve_twice 1 = {1, 3}" "pset halve_twice 2 = {2}" "fine is_int halve_twice"
proof -
  show "length (sigs halve_twice) = 4" by (simp add: halve_twice_def Let_def)
  show p: "pushrel halve_twice = {(1, 3)}"
    by (auto simp: pushrel_def halve_twice_def Let_def plain_signal_def less_Suc_eq numeral_eq_Suc)
  have "(1, j) \<in> {(1, 3)}\<^sup>* \<longleftrightarrow> j = 1 \<or> j = (3 :: nat)" "(2, j) \<in> {(1, 3)}\<^sup>* \<longleftrightarrow> j = (2 :: nat)" for j
    by (auto dest: rtrancl_one)
  then show "pset halve_twice 1 = {1, 3}" "pset halve_twice 2 = {2}" unfolding pset_def p by auto
  show "fine is_int halve_twice"
    by (simp add: fine_def halve_twice_def Let_def plain_signal_def fine_signal_def wf_signal_def stored_def is_nil_def is_int_def)
qed

lemma halve_settles: "settles is_int 5 (\<lambda>f. f) [0, 1] halve_twice"
proof -
  have n: "nodes halve_twice ! 0 = halve_node 0 1" "nodes halve_twice ! Suc 0 = halve_node 3 2" "length (nodes halve_twice) = 2"
    by (simp_all add: halve_twice_def Let_def)
  have r: "reach_of halve_twice 0 = {1, 3}" "reach_of halve_twice (Suc 0) = {2}"
    using halve_signals(3,4) by (simp_all add: reach_of_def n halve_node_def)
  have ok: "push_ok 4 halve_twice 1" "push_ok 4 halve_twice 2"
    by (simp_all add: eval_nat_numeral halve_signals)
  have d: "isDerived (sigs halve_twice ! 3)" "\<not> isDerived (sigs halve_twice ! 1)" "\<not> isDerived (sigs halve_twice ! 2)"
    "\<forall>j \<in> {1, 2, 3}. fst (last (history (sigs halve_twice ! j))) \<le> 5"
    by (simp_all add: halve_twice_def Let_def plain_signal_def)
  have v: "\<forall>v. is_int v \<longrightarrow> refl_value v" by (auto simp: is_int_iff refl_value_def equals_def)
  have "good_node is_int halve_twice 0" "good_node is_int halve_twice (Suc 0)"
    unfolding good_node_def n using halve_good_body ok d by (simp_all add: halve_node_def in_signals_def halve_signals)
  then show ?thesis unfolding settles_def good_static_def good_data_def
    using halve_signals d r v by (simp add: n consistent_def) (simp add: halve_node_def in_signals_def)
qed




section \<open>A value that is never equal to itself\<close>

lemma equals_nan: "d_nan d \<Longrightarrow> \<not> equals x (Sc (SReal d))"
  by (auto simp: equals_def by_result_type_def binaryOpType_def asReal_def deq_def out_then_def
      split: operand.splits scalar.splits outcome.splits)

lemma nan_differs: "d_nan d \<Longrightarrow> Sc (SReal d) \<in> set ins \<Longrightarrow> \<not> same_values prev ins"
  unfolding same_values_def using equals_nan by (metis in_set_conv_nth list_all2_conv_all_nth)

lemma workable_after:
  assumes "workable V t fs e" "same_shape e e'" "fine V e'"
    and "\<forall>j < length (sigs e). fst (last (history (sigs e ! j))) \<le> t \<longrightarrow> fst (last (history (sigs e' ! j))) \<le> t"
  shows "workable V t fs e'"
proof -
  note sh = assms(2)
  have v: "f < length (nodes e)" "\<forall>s \<in> set (n_outputs (nodes e ! f)). s < length (sigs e)" if "f \<in> set fs" for f
    using assms(1) that by (simp_all add: workable_def good_node_def)
  have "good_node V e' f \<and> distinct (n_outputs (nodes e' ! f)) \<and> (\<forall>j \<in> reach_of e' f. fst (last (history (sigs e' ! j))) \<le> t)"
    if "f \<in> set fs" for f
  proof -
    have "j < length (sigs e)" if "j \<in> reach_of e f" for j
      using v(2) [OF \<open>f \<in> set fs\<close>] that pset_valid by (auto simp: reach_of_def)
    then show ?thesis using assms(1,4) that good_node_shape [OF sh] reach_of_shape [OF sh v(1)] n_outputs_eq [OF sh v(1)]
      by (simp add: workable_def)
  qed
  moreover have "isDerived (sigs e' ! d)" if "(s, d) \<in> pushrel e'" for s d
  proof -
    have "(s, d) \<in> pushrel e" using that by (simp add: pushrel_shape [OF sh])
    then show ?thesis using assms(1) same_shape_sig(7) [OF sh, of d] by (auto simp: workable_def pushrel_def)
  qed
  ultimately show ?thesis using assms(1,3) by (auto simp: workable_def)
qed

text \<open>No visit stops a pass, or changes what a node reads that no visited node writes.\<close>

lemma workable_visit:
  assumes "workable V t fs e" "g \<in> set fs" "visit_node t g e = (st, e')"
    and "f \<in> set fs" "set (in_signals (nodes e ! f)) \<inter> reach_of e g = {}"
  shows "st \<noteq> Stopped \<and> workable V t fs e' \<and> same_shape e e' \<and> same_ports e e' f \<and> (\<not> node_settled t e g \<longrightarrow> st = Executed)"
proof -
  obtain n where n: "n = nodes e ! g" by simp
  have good: "good_node V e h" if "h \<in> set fs" for h using assms(1) that by (simp add: workable_def)
  have l: "g < length (nodes e)" "f < length (nodes e)" "set (in_signals (nodes e ! f)) \<subseteq> {..<length (sigs e)}"
    using good [OF assms(2)] good [OF assms(4)] by (simp_all add: good_node_def)
  have step: "same_shape e (set_node g (n\<lparr>n_prevOut := outs, n_prevIn := ins\<rparr>) e) \<and> same_ports e (set_node g (n\<lparr>n_prevOut := outs, n_prevIn := ins\<rparr>) e) f"
    for outs ins using l by (auto simp: same_shape_set_node node_shape_def n same_ports_def) (auto simp: set_node_def nth_update)
  show ?thesis
  proof (cases "node_settled t e g")
    case True
    obtain "st = Skipped" and e': "e' = e \<or> (\<exists>ins. e' = set_node g (n\<lparr>n_prevIn := ins\<rparr>) e)"
      using idle_visit [OF True assms(3) n] by blast
    moreover have "same_shape e (set_node g (n\<lparr>n_prevIn := ins\<rparr>) e) \<and> same_ports e (set_node g (n\<lparr>n_prevIn := ins\<rparr>) e) f" for ins
      using step [where outs = "n_prevOut n" and ins = ins] by simp
    then have "same_shape e e' \<and> same_ports e e' f" using e' by (auto simp: same_ports_def)
    moreover have "sigs e' = sigs e" using e' by (auto simp: set_node_def)
    moreover have "fine V e'" using assms(1) calculation(4) by (simp add: workable_def fine_def)
    ultimately show ?thesis using True workable_after [OF assms(1), of e'] by simp
  next
    case False
    then obtain ins outs where x: "st = Executed" "touched (reach_of e g) (set_node g (n\<lparr>n_prevOut := outs, n_prevIn := ins\<rparr>) e) e'" "fine V e'"
      "\<forall>j < length (sigs e). fst (last (history (sigs e ! j))) \<le> t \<longrightarrow> fst (last (history (sigs e' ! j))) \<le> t"
      using executing_visit [OF assms(1,2) _ assms(3) n] by blast
    obtain e1 where e1: "e1 = set_node g (n\<lparr>n_prevOut := outs, n_prevIn := ins\<rparr>) e" by simp
    have s1: "same_shape e e1" "same_ports e e1 f" using step by (simp_all add: e1)
    have "same_ports e1 e' f"
      by (rule touched_ports [OF x(2) [folded e1]])
        (use l assms(5) in_signals_eq [OF s1(1) l(2)] same_shape_lengths [OF s1(1)] in simp_all)
    then have "same_ports e e' f" by (rule touched_same_ports_trans [OF s1(2)])
    moreover have "same_shape e e'" using s1(1) x(2) same_shape_trans by (auto simp: e1 touched_def)
    ultimately show ?thesis using x(1) workable_after [OF assms(1) _ x(3,4)] by simp
  qed
qed

text \<open>A node that reads a NaN which no node of the island can overwrite.\<close>

definition reads_nan :: "time \<Rightarrow> nat list \<Rightarrow> nat \<Rightarrow> engine \<Rightarrow> bool" where
  "reads_nan t fs f e \<longleftrightarrow> f \<in> set fs \<and> (\<forall>g \<in> set fs. set (in_signals (nodes e ! f)) \<inter> reach_of e g = {})
     \<and> inputsAvailableAt f t e \<and> (\<exists>ins d. gather f t e = Inr ins \<and> Sc (SReal d) \<in> set ins \<and> d_nan d)"

lemma reads_nan_unsettled: "reads_nan t fs f e \<Longrightarrow> \<not> node_settled t e f"
  using nan_differs by (auto simp: reads_nan_def node_settled_def)

lemma nan_visit:
  assumes "workable V t fs e" "reads_nan t fs f e" "g \<in> set fs" "visit_node t g e = (st, e')"
  shows "st \<noteq> Stopped \<and> workable V t fs e' \<and> reads_nan t fs f e' \<and> (g = f \<longrightarrow> st = Executed)"
proof -
  have f: "f \<in> set fs" "set (in_signals (nodes e ! f)) \<inter> reach_of e g = {}" using assms(2,3) by (simp_all add: reads_nan_def)
  note v = workable_visit [OF assms(1,3,4) f]
  have "h < length (nodes e)" if "h \<in> set fs" for h using assms(1) that by (simp add: workable_def good_node_def)
  then have "reads_nan t fs f e'"
    using assms(2) f(1) v same_ports_view [of e e' f t] in_signals_eq [of e e' f] reach_of_shape [of e e'] by (simp add: reads_nan_def)
  then show ?thesis using v reads_nan_unsettled [OF assms(2)] by blast
qed

lemma nan_pass:
  assumes "workable V t fs e" "reads_nan t fs f e" "set gs \<subseteq> set fs"
  shows "\<exists>k e'. pass t gs e = (False, k, e') \<and> workable V t fs e' \<and> reads_nan t fs f e' \<and> (f \<in> set gs \<longrightarrow> k > 0)"
  using assms
proof (induction gs arbitrary: e)
  case (Cons g gs)
  obtain st e1 where v: "visit_node t g e = (st, e1)" by (cases "visit_node t g e")
  have g: "st \<noteq> Stopped" "workable V t fs e1" "reads_nan t fs f e1" "g = f \<longrightarrow> st = Executed"
    using nan_visit [OF Cons.prems(1,2) _ v] Cons.prems(3) by simp_all
  obtain k e2 where "pass t gs e1 = (False, k, e2)" "workable V t fs e2" "reads_nan t fs f e2" "f \<in> set gs \<longrightarrow> k > 0"
    using Cons.IH [OF g(2,3)] Cons.prems(3) by auto
  then show ?case using v g(1,4) by (cases st) auto
qed simp

lemma nan_passes: "workable V t fs e \<Longrightarrow> reads_nan t fs f e \<Longrightarrow> passes k t fs e = Inl Not_Terminating"
proof (induction k arbitrary: e)
  case 0
  then show ?case using nan_pass [OF 0 order.refl] by (auto simp: passes.simps [of 0])
next
  case (Suc k)
  obtain j e' where "pass t fs e = (False, j, e')" "workable V t fs e'" "reads_nan t fs f e'" "j > 0"
    using nan_pass [OF Suc.prems order.refl] Suc.prems(2) by (auto simp: reads_nan_def)
  then show ?case using Suc.IH by (simp add: passes.simps [of "Suc k"])
qed

text \<open>
  C29. The values have to be equal to themselves for an island to settle: one NaN makes its evaluation
  fail.  When some node \<open>f\<close> of a network as in C9, cycles or not, has its inputs available and among
  them a NaN, and no node of the island writes what \<open>f\<close> reads (a source does), then \<open>f\<close> is executed
  again in every pass, because its inputs never equal the previous ones, and \<open>evaluateIsland\<close> gives
  up with the error it reserves for cycles.  The state meant is the one after the refresh of the
  delayed wires.
\<close>

theorem nan_never_settles:
  assumes "refreshDerivedSignals is t e = Inr e1" "is_funcs is \<noteq> []" "workable V t (execution_order is) e1"
    and "f \<in> set (execution_order is)" "inputsAvailableAt f t e1"
    and "\<forall>g \<in> set (execution_order is). set (in_signals (nodes e1 ! f)) \<inter> reach_of e1 g = {}"
    and "gather f t e1 = Inr ins" "Sc (SReal d) \<in> set ins" "d_nan d"
  shows "evaluateIsland is t e = Inl Not_Terminating"
proof -
  have "reads_nan t (execution_order is) f e1" using assms(4-9) unfolding reads_nan_def by blast
  then show ?thesis using nan_passes [OF assms(3)] assms(1,2) by (simp add: evaluateIsland_def)
qed

definition copy_body :: "operand list \<Rightarrow> operand list option" where
  "copy_body vs = (case vs of [x] \<Rightarrow> Some [x] | _ \<Rightarrow> None)"

definition copy_node :: "nat \<Rightarrow> nat \<Rightarrow> fnode" where
  "copy_node s d = (halve_node s d)\<lparr>n_inputs := [\<lparr>in_signal = s, in_index = 0, in_default = None, in_available = 0\<rparr>], n_body := copy_body\<rparr>"

text \<open>A node that copies an event-driven source, which is set to a NaN.\<close>

definition quiet_nan :: operand where "quiet_nan = Sc (SReal 0x7FF8000000000000)"

definition nan_network :: "df_error + engine" where
  "nan_network = seq_then (newSourceSignal 0 (Sc SNil) False) (\<lambda>s. seq_then (newSignal 0 (Sc SNil)) (\<lambda>d.
     seq_then (buildNetworkCacheData (snd (addFunc ''f'' (copy_node 0 1) (snd (addSignal d (snd (addSignal s empty_engine)))))))
       (set_signal 5 quiet_nan 0)))"

lemma nan_built:
  "\<exists>e. nan_network = Inr e \<and> islands e = [(blank_island [0, 1] [0])\<lparr>is_orders := [(0, [0])]\<rparr>]
    \<and> sigs e = [(plain_signal 0 0 True (Sc SNil))\<lparr>isSource := True, history := [(0, Sc SNil), (5, quiet_nan)]\<rparr>, plain_signal 0 0 True (Sc SNil)]
    \<and> nodes e = [(copy_node 0 1)\<lparr>n_inputs := [\<lparr>in_signal = 0, in_index = 0, in_default = None, in_available = 5\<rparr>]\<rparr>]"
proof -
  obtain z where z: "z = plain_signal 0 0 True (Sc SNil)" by simp
  obtain e0 where e0: "e0 = snd (addFunc ''f'' (copy_node 0 1) (snd (addSignal z (snd (addSignal (z\<lparr>isSource := True\<rparr>) empty_engine)))))" by simp
  have dle: "dle 0 0" by code_simp
  have n: "newSourceSignal 0 (Sc SNil) False = Inr (z\<lparr>isSource := True\<rparr>)" "newSignal 0 (Sc SNil) = Inr z"
    by (simp_all add: newSourceSignal_def newSignal_def new_signal_def dle z plain_signal_def)
  have p: "period z = 0" "isDerived z = False" "dependents z = []" "background z = False" "maxHistory z = 2"
    "z\<lparr>inBackground := False\<rparr> = z" "z\<lparr>isSource := True, inBackground := False\<rparr> = z\<lparr>isSource := True\<rparr>" "z\<lparr>maxHistory := 2\<rparr> = z" by (simp_all add: z plain_signal_def)
  have c: "n_inputs (copy_node 0 (Suc 0)) = [\<lparr>in_signal = 0, in_index = 0, in_default = None, in_available = 0\<rparr>]"
    "n_outputs (copy_node 0 (Suc 0)) = [Suc 0]" "(copy_node 0 (Suc 0))\<lparr>n_period := 0\<rparr> = copy_node 0 (Suc 0)" "n_period (copy_node 0 (Suc 0)) = 0" by (simp_all add: copy_node_def halve_node_def)
  obtain e1 where e1: "e1 = buildSignalConsumers e0" by simp
  have f1: "sigs e1 = [z\<lparr>isSource := True\<rparr>, z]" "nodes e1 = [copy_node 0 1]" "funcs e1 = [(''f'', 0)]" "signals e1 = [0, 1]"
    "consumers e1 = (\<lambda>_. [])(0 := [0])"
    by (simp_all add: e1 e0 buildSignalConsumers_def func_list_def addSignal_def addFunc_def empty_engine_def c add_consumer_def Let_def set_sig_def p)
  have l: "linked_sigs e1 0 = []" "linked_sigs e1 (Suc 0) = []" by (simp_all add: linked_sigs_def f1 p)
  have "islands (computeNetworkIslands e1) = [blank_island [0, 1] [0]]"
    by (simp add: computeNetworkIslands_def island_from_def f1 producers_def func_list_def new_sigs_def new_funs_def Let_def l c node_sigs_def in_signals_def)
  then have e2: "computeNetworkIslands e1 = e1\<lparr>islands := [blank_island [0, 1] [0]]\<rparr>" by (simp add: computeNetworkIslands_def Let_def)
  have "\<exists>e2. buildNetworkCacheData e0 = Inr e2 \<and> sigs e2 = [z\<lparr>isSource := True\<rparr>, z] \<and> nodes e2 = [copy_node 0 (Suc 0)]
    \<and> islands e2 = [(blank_island [0, 1] [0])\<lparr>is_orders := [(0, [0])]\<rparr>] \<and> consumers e2 = (\<lambda>_. [])(0 := [0])"
    by (simp add: buildNetworkCacheData_def e1 [symmetric] e2 precomputeFuncPeriods_def func_list_def f1 Let_def blank_island_def c
        node_period_def in_signals_def p period_set_def longestDividingPeriod_def set_node_def set_sig_def signal_periods_def
        precomputeExecutionOrders_def period_groups_def group_graph_def address_order_def topologicalSort_def dep_of_def)
  then obtain e2 where b: "buildNetworkCacheData e0 = Inr e2" "sigs e2 = [z\<lparr>isSource := True\<rparr>, z]" "nodes e2 = [copy_node 0 (Suc 0)]"
    "islands e2 = [(blank_island [0, 1] [0])\<lparr>is_orders := [(0, [0])]\<rparr>]" "consumers e2 = (\<lambda>_. [])(0 := [0])" by blast
  have s: "history z = [(0, Sc SNil)]" "eventDriven z" "suppressInitial z = False"
    "z\<lparr>isSource := True, history := h, suppressInitial := False\<rparr> = z\<lparr>isSource := True, history := h\<rparr>" for h
    by (simp_all add: z plain_signal_def)
  have q: "\<not> equals (Sc SNil) quiet_nan" by (simp add: quiet_nan_def equals_def)
  have "nan_network = set_signal 5 quiet_nan 0 e2"
    using b(1) by (simp add: nan_network_def n e0 del: One_nat_def)
  then show ?thesis
    by (simp add: set_signal_def write_signal_def b s store_sample_def lastValueBefore_def p Let_def set_sig_def publishSample_def
        updateAvailability_def set_node_def mark_available_def c q z [symmetric])
      (rule exI, rule conjI, assumption, simp add: b)
qed

lemma nan_workable:
  assumes "sigs e = [(plain_signal 0 0 True (Sc SNil))\<lparr>isSource := True, history := [(0, Sc SNil), (5, quiet_nan)]\<rparr>, plain_signal 0 0 True (Sc SNil)]"
    and "nodes e = [(copy_node 0 1)\<lparr>n_inputs := [\<lparr>in_signal = 0, in_index = 0, in_default = None, in_available = 5\<rparr>]\<rparr>]"
  shows "workable (\<lambda>_. True) 5 [0] e" "reach_of e 0 = {Suc 0}"
proof -
  have p: "pushrel e = {}" by (auto simp: pushrel_def assms(1) plain_signal_def less_Suc_eq)
  then have r: "pset e s = {s}" for s by (simp add: pset_def)
  then show reach: "reach_of e 0 = {Suc 0}" by (simp add: reach_of_def assms(2) copy_node_def halve_node_def)
  have "good_body (\<lambda>_. True) (nodes e ! 0)"
    by (auto simp: good_body_def assms(2) copy_node_def halve_node_def copy_body_def assembleArgs_def length_Suc_conv stored_def)
  moreover have "push_ok (Suc (Suc 0)) e (Suc 0)" by (simp add: assms(1) p)
  ultimately have "good_node (\<lambda>_. True) e 0"
    using assms by (simp add: good_node_def copy_node_def halve_node_def in_signals_def plain_signal_def del: push_ok.simps)
  moreover have "fine (\<lambda>_. True) e"
    by (simp add: fine_def assms(1) fine_signal_def wf_signal_def plain_signal_def stored_def)
  ultimately show "workable (\<lambda>_. True) 5 [0] e"
    by (simp add: workable_def p reach) (simp add: assms plain_signal_def copy_node_def halve_node_def)
qed

theorem nan_never_settles_witness: "\<exists>e. nan_network = Inr e \<and> evaluateIsland (islands e ! 0) 5 e = Inl Not_Terminating"
proof -
  obtain e where e: "nan_network = Inr e" "islands e = [(blank_island [0, 1] [0])\<lparr>is_orders := [(0, [0])]\<rparr>]"
    "sigs e = [(plain_signal 0 0 True (Sc SNil))\<lparr>isSource := True, history := [(0, Sc SNil), (5, quiet_nan)]\<rparr>, plain_signal 0 0 True (Sc SNil)]"
    "nodes e = [(copy_node 0 1)\<lparr>n_inputs := [\<lparr>in_signal = 0, in_index = 0, in_default = None, in_available = 5\<rparr>]\<rparr>]"
    using nan_built by blast
  note w = nan_workable [OF e(3,4)]
  have i: "is_funcs (islands e ! 0) = [0]" "execution_order (islands e ! 0) = [0]" "is_signals (islands e ! 0) = [0, 1]"
    by (simp_all add: e(2) blank_island_def execution_order_def)
  have "refreshDerivedSignals (islands e ! 0) 5 e = Inr e"
    unfolding refresh_fold i(3) by (simp add: refresh_one_def delayed_def e(3) plain_signal_def)
  moreover have "inputsAvailableAt 0 5 e" "gather 0 5 e = Inr [quiet_nan]"
    by (simp_all add: inputsAvailableAt_def gather_def e(3,4) port_available_def port_value_def port_time_def Let_def
        plain_signal_def valueIfAvailableAt_def valueAt_def latestSampleTime_def is_nil_def quiet_nan_def)
  moreover have "d_nan 0x7FF8000000000000" by code_simp
  moreover have "set (in_signals (nodes e ! 0)) \<inter> reach_of e 0 = {}" by (simp add: w(2) e(4) in_signals_def)
  ultimately have "evaluateIsland (islands e ! 0) 5 e = Inl Not_Terminating"
    using w(1) by (intro nan_never_settles [where f = 0 and ins = "[quiet_nan]" and d = "0x7FF8000000000000"])
      (simp_all add: i quiet_nan_def)
  then show ?thesis using e(1) by blast
qed

end
