(* ===== verification/Dataflow_Order.thy ===== *)
theory Dataflow_Order
  imports Dataflow_Sort
begin

text \<open>
  What a rebuild of the network promises: the execution orders run producers before their zero-delay
  consumers, the islands partition the network, the grid divides every period.
\<close>

section \<open>Execution orders\<close>

definition feeds :: "engine \<Rightarrow> nat \<Rightarrow> nat \<Rightarrow> bool" where
  "feeds e p f \<longleftrightarrow> p \<noteq> f \<and> (\<exists>i \<in> set (n_inputs (nodes e ! f)). in_index i = 0
     \<and> (\<exists>s. zeroDelaySource (length (sigs e) + 1) e (in_signal i) = Some s \<and> s \<in> set (n_outputs (nodes e ! p))))"

definition needs :: "engine \<Rightarrow> nat set \<Rightarrow> (nat \<times> nat) set" where
  "needs e fs = {(f, p). f \<in> fs \<and> p \<in> fs \<and> feeds e p f}"

lemma address_order_simps [simp]: "set (address_order xs) = set xs" "distinct (address_order xs)"
  by (simp_all add: address_order_def)

lemma period_set_simps [simp]: "set (period_set ps) = set ps" "distinct (period_set ps)" "sorted (period_set ps)"
  by (simp_all add: period_set_def)

lemma map_of_graph: "f \<in> set xs \<Longrightarrow> map_of (map (\<lambda>f. (f, F f)) xs) f = Some (F f)"
  by (induction xs) auto

lemma group_graph_simps:
  "map fst (group_graph e fs) = address_order fs"
  "f \<in> set fs \<Longrightarrow> set (dep_of (group_graph e fs) f) = {p \<in> set fs. feeds e p f}"
proof -
  show "map fst (group_graph e fs) = address_order fs" by (simp add: group_graph_def comp_def)
  show "set (dep_of (group_graph e fs) f) = {p \<in> set fs. feeds e p f}" if "f \<in> set fs"
    using that unfolding dep_of_def group_graph_def by (simp add: map_of_graph feeds_def)
qed

lemma group_graph_closed: "closed_graph (group_graph e fs)"
proof -
  have "fst ` set (group_graph e fs) = set fs" by (metis group_graph_simps(1) address_order_simps(1) list.set_map)
  then show ?thesis by (auto simp: closed_graph_def group_graph_simps)
qed

lemma group_graph_edges: "edges (group_graph e fs) = needs e (set fs)"
proof -
  have "fst ` set (group_graph e fs) = set fs" by (metis group_graph_simps(1) address_order_simps(1) list.set_map)
  then show ?thesis by (auto simp: edges_def needs_def group_graph_simps)
qed

text \<open>In a list, every function comes after the functions that feed it.\<close>

definition producers_first :: "engine \<Rightarrow> nat list \<Rightarrow> bool" where
  "producers_first e xs \<longleftrightarrow> (\<forall>i < length xs. \<forall>j < length xs. feeds e (xs ! j) (xs ! i) \<longrightarrow> j < i)"

lemma topo_rev_first:
  assumes "topo g (rev xs)" "i < length xs" "x \<in> set (dep_of g (xs ! i))"
  shows "\<exists>k < i. xs ! k = x"
  using assms
proof (induction xs arbitrary: i rule: rev_induct)
  case (snoc y ys)
  show ?case
  proof (cases "i < length ys")
    case True
    then show ?thesis using snoc.IH [of i] snoc.prems by (force simp: nth_append)
  next
    case False
    then have "x \<in> set ys" using snoc.prems by (auto simp: nth_append)
    then show ?thesis using False snoc.prems(2) by (auto simp: in_set_conv_nth nth_append)
  qed
qed simp

lemma sorted_group:
  "\<exists>ok xs. topologicalSort (group_graph e fs) = Some (ok, xs) \<and> (ok \<longleftrightarrow> acyclic (needs e (set fs)))
    \<and> (ok \<longrightarrow> set xs = set fs \<and> distinct xs \<and> producers_first e xs)"
proof -
  obtain ok xs where t: "topologicalSort (group_graph e fs) = Some (ok, xs)" "ok \<longleftrightarrow> acyclic (needs e (set fs))"
    "ok \<longrightarrow> set xs = fst ` set (group_graph e fs) \<and> topo (group_graph e fs) (rev xs)"
    using topologicalSort_lemma [OF group_graph_closed, of e fs] by (auto simp: group_graph_edges)
  have g: "fst ` set (group_graph e fs) = set fs" by (metis group_graph_simps(1) address_order_simps(1) list.set_map)
  have "distinct xs \<and> producers_first e xs" if ok
  proof -
    have x: "set xs = set fs" "topo (group_graph e fs) (rev xs)" using t(3) that g by auto
    have d: "distinct xs" using topo_distinct [OF x(2)] by simp
    have "j < i" if h: "i < length xs" "j < length xs" "feeds e (xs ! j) (xs ! i)" for i j
    proof -
      have "xs ! j \<in> set (dep_of (group_graph e fs) (xs ! i))"
        using h x(1) nth_mem group_graph_simps(2) [of "xs ! i" fs e] by auto
      then obtain k where "k < i" "xs ! k = xs ! j" using topo_rev_first [OF x(2) h(1)] by blast
      then show ?thesis using d h nth_eq_iff_index_eq [OF d, of k j] by simp
    qed
    then show ?thesis using d by (simp add: producers_first_def)
  qed
  then show ?thesis using t g by auto
qed

definition ordered_groups :: "engine \<Rightarrow> (time \<times> nat list) list \<Rightarrow> (time \<times> nat list) list \<Rightarrow> bool" where
  "ordered_groups e = list_all2 (\<lambda>(p, fs) (q, xs). q = p \<and> set xs = set fs \<and> distinct xs \<and> producers_first e xs)"

lemma order_groups_lemma:
  "(\<exists>os. order_groups e gs = Inr os \<and> ordered_groups e gs os) \<and> (\<forall>(p, fs) \<in> set gs. acyclic (needs e (set fs)))
   \<or> order_groups e gs = Inl Cyclic_Dependency \<and> (\<exists>(p, fs) \<in> set gs. \<not> acyclic (needs e (set fs)))"
proof (induction gs)
  case (Cons g gs)
  obtain p fs where g: "g = (p, fs)" by (cases g)
  obtain ok xs where t: "topologicalSort (group_graph e fs) = Some (ok, xs)" "ok \<longleftrightarrow> acyclic (needs e (set fs))"
    "ok \<longrightarrow> set xs = set fs \<and> distinct xs \<and> producers_first e xs" using sorted_group by blast
  show ?case using Cons.IH t by (cases ok) (auto simp: g ordered_groups_def)
qed (simp add: ordered_groups_def)

lemma period_groups_members:
  "concat (map snd (period_groups e fs)) = concat (map (\<lambda>p. filter (\<lambda>f. n_period (nodes e ! f) = p) fs)
     (period_set (map (\<lambda>f. n_period (nodes e ! f)) fs)))"
  by (simp add: period_groups_def comp_def)

lemma ordered_groups_concat:
  assumes "ordered_groups e gs os" "distinct (map fst gs)" "\<And>p fs f. (p, fs) \<in> set gs \<Longrightarrow> f \<in> set fs \<Longrightarrow> n_period (nodes e ! f) = p"
  shows "set (concat (map snd os)) = set (concat (map snd gs)) \<and> distinct (concat (map snd os)) \<and> map fst os = map fst gs
    \<and> (\<forall>(p, xs) \<in> set os. producers_first e xs \<and> (\<forall>f \<in> set xs. n_period (nodes e ! f) = p))"
  using assms unfolding ordered_groups_def
proof (induction rule: list_all2_induct)
  case (Cons g gs o1 os)
  obtain p fs xs where g: "g = (p, fs)" "o1 = (p, xs)" "set xs = set fs" "distinct xs" "producers_first e xs"
    using Cons.hyps(1) by (cases g; cases o1) auto
  have IH: "set (concat (map snd os)) = set (concat (map snd gs)) \<and> distinct (concat (map snd os)) \<and> map fst os = map fst gs
    \<and> (\<forall>(p, xs) \<in> set os. producers_first e xs \<and> (\<forall>f \<in> set xs. n_period (nodes e ! f) = p))"
    by (rule Cons.IH) (use Cons.prems in \<open>auto simp: g\<close>)
  have pf: "n_period (nodes e ! f) = p" if "f \<in> set xs" for f using Cons.prems(2) [of p fs f] that g by simp
  have "f \<notin> set (concat (map snd gs))" if f: "f \<in> set xs" for f
  proof
    assume "f \<in> set (concat (map snd gs))"
    then obtain q ys where "(q, ys) \<in> set gs" "f \<in> set ys" by auto
    then show False using Cons.prems(1) Cons.prems(2) [of q ys f] pf [OF f] by (force simp: g(1))
  qed
  then show ?case using IH g pf by auto
qed simp

lemma execution_orders_lemma:
  assumes "distinct (is_funcs is)"
  shows "case precomputeExecutionOrders e is of
      Inl er \<Rightarrow> er = Cyclic_Dependency
        \<and> (\<exists>p. \<not> acyclic (needs e {f \<in> set (is_funcs is). n_period (nodes e ! f) = p}))
    | Inr is' \<Rightarrow> distinct (concat (map snd (is_orders is'))) \<and> set (concat (map snd (is_orders is'))) = set (is_funcs is)
        \<and> sorted_wrt (<) (map fst (is_orders is'))
        \<and> (\<forall>(p, xs) \<in> set (is_orders is'). producers_first e xs \<and> (\<forall>f \<in> set xs. n_period (nodes e ! f) = p))"
proof -
  obtain gs where gs: "gs = period_groups e (is_funcs is)" by simp
  have members: "fs = filter (\<lambda>f. n_period (nodes e ! f) = p) (is_funcs is)" if "(p, fs) \<in> set gs" for p fs
    using that by (auto simp: gs period_groups_def)
  have ps: "map fst gs = period_set (map (\<lambda>f. n_period (nodes e ! f)) (is_funcs is))"
    by (simp add: gs period_groups_def comp_def)
  have all: "set (concat (map snd gs)) = set (is_funcs is)" unfolding gs period_groups_members by auto
  show ?thesis
    using order_groups_lemma [of e gs]
  proof (elim disjE conjE exE)
    fix os assume os: "order_groups e gs = Inr os" "ordered_groups e gs os"
    have "set (concat (map snd os)) = set (concat (map snd gs)) \<and> distinct (concat (map snd os)) \<and> map fst os = map fst gs
      \<and> (\<forall>(p, xs) \<in> set os. producers_first e xs \<and> (\<forall>f \<in> set xs. n_period (nodes e ! f) = p))"
    proof (rule ordered_groups_concat [OF os(2)])
      fix p fs f assume "(p, fs) \<in> set gs" "f \<in> set fs"
      then show "n_period (nodes e ! f) = p" using members [of p fs] by auto
    qed (simp add: ps)
    moreover have "sorted_wrt (<) (map fst gs)" unfolding ps by (simp add: strict_sorted_iff)
    ultimately show ?thesis using os(1) all by (simp add: precomputeExecutionOrders_def gs)
  next
    assume c: "order_groups e gs = Inl Cyclic_Dependency" "\<exists>(p, fs) \<in> set gs. \<not> acyclic (needs e (set fs))"
    then obtain p fs where "(p, fs) \<in> set gs" "\<not> acyclic (needs e (set fs))" by blast
    moreover have "set fs = {f \<in> set (is_funcs is). n_period (nodes e ! f) = p}"
      using members [OF \<open>(p, fs) \<in> set gs\<close>] by auto
    ultimately have "\<not> acyclic (needs e {f \<in> set (is_funcs is). n_period (nodes e ! f) = p})" by simp
    then show ?thesis using c(1) by (auto simp: precomputeExecutionOrders_def gs)
  qed
qed

end
