(* ===== verification/Dataflow_Wires.thy ===== *)
theory Dataflow_Wires
  imports Dataflow_Settle Dataflow_Sort
begin

text \<open>
  The wiring of the network: which signals are derived from which, what is registered.  Samples never
  change it, and the operations that do keep both ends of every wire in agreement, which is what makes
  the islands of a rebuild a partition.
\<close>

section \<open>What evaluation leaves alone\<close>

definition wires :: "signal \<Rightarrow> bool \<times> nat option \<times> nat list \<times> bool" where
  "wires s = (isDerived s, baseSignal s, dependents s, isSource s)"

definition wiring :: "engine \<Rightarrow> (bool \<times> nat option \<times> nat list \<times> bool) list \<times> nat list \<times> (string \<times> nat) list \<times> nat" where
  "wiring e = (map wires (sigs e), signals e, funcs e, length (nodes e))"

lemma wiring_set_sig: "wires s = wires (sigs e ! i) \<Longrightarrow> wiring (set_sig i s e) = wiring e"
  by (cases "i < length (sigs e)") (simp_all add: wiring_def set_sig_def map_update list_update_same_conv list_update_beyond)

lemma wiring_node [simp]: "wiring (set_node f n e) = wiring e"
  by (simp add: wiring_def set_node_def)

lemma wiring_fields [simp]:
  "wiring (e\<lparr>notified := a\<rparr>) = wiring e" "wiring (e\<lparr>pendingEvents := b\<rparr>) = wiring e" "wiring (e\<lparr>consumers := c\<rparr>) = wiring e"
  "wiring (e\<lparr>islands := i\<rparr>) = wiring e" "wiring (e\<lparr>runStart := r\<rparr>) = wiring e" "wiring (e\<lparr>tickStart := t\<rparr>) = wiring e"
  "wiring (e\<lparr>tickNumber := n\<rparr>) = wiring e" "wiring (e\<lparr>tickPeriod := p\<rparr>) = wiring e" "wiring (e\<lparr>networkModified := m\<rparr>) = wiring e"
  by (simp_all add: wiring_def)

lemma fold_frame: "(\<And>x s. w (f x s) = w s) \<Longrightarrow> w (fold f xs s) = w s"
  by (induction xs arbitrary: s) simp_all

lemma fold_ok_frame: "(\<And>x s s'. f x s = Inr s' \<Longrightarrow> w s' = w s) \<Longrightarrow> fold_ok f xs s = Inr s' \<Longrightarrow> w s' = w s"
proof (induction xs arbitrary: s)
  case (Cons x xs)
  then obtain s1 where "f x s = Inr s1" "fold_ok f xs s1 = Inr s'" by (auto simp: seq_then_def split: sum.splits)
  then show ?case using Cons by metis
qed simp

lemma fold_keep_frame: "(\<And>x s s'. f x s = Inr s' \<Longrightarrow> w s' = w s) \<Longrightarrow> fold_keep f xs s = (b, s') \<Longrightarrow> w s' = w s"
  by (induction xs arbitrary: s) (auto split: sum.splits)

lemma wiring_availability [simp]: "wiring (updateAvailability s t e) = wiring e"
  unfolding updateAvailability_def by (rule fold_frame) simp

lemma wiring_availabilities [simp]: "wiring (fold (\<lambda>s. updateAvailability s t) ss e) = wiring e"
  by (rule fold_frame) simp

lemma store_wires: "store_sample t v s = Inr (b, s') \<Longrightarrow> wires s' = wires s"
  by (auto simp: store_sample_def wires_def Let_def split: option.splits)

lemma publish_wiring:
  assumes "\<And>d e e'. write d e = Inr e' \<Longrightarrow> wiring e' = wiring e" "publishSample write t v b i e = Inr e'"
  shows "wiring e' = wiring e"
proof -
  obtain e2 where e2: "fold_ok (push_to write t (eventDriven (sigs e ! i))) (dependents (sigs e ! i))
         (if b then e\<lparr>notified := notified e @ [(i, t, v)]\<rparr> else e) = Inr e2" and r: "wiring e' = wiring e2"
    using assms(2) unfolding publishSample_push by (auto simp: seq_then_def split: sum.splits if_splits)
  have "wiring e2 = wiring (if b then e\<lparr>notified := notified e @ [(i, t, v)]\<rparr> else e)"
    by (rule fold_ok_frame [OF _ e2]) (auto simp: push_to_def seq_then_def dest!: assms(1) split: if_splits sum.splits)
  then show ?thesis using r by (cases b) simp_all
qed

lemma setValueAt_wiring: "setValueAt k t v i e = Inr e' \<Longrightarrow> wiring e' = wiring e"
proof (induction k arbitrary: i e e')
  case (Suc k)
  obtain b s where s: "store_sample t v (sigs e ! i) = Inr (b, s)"
    "publishSample (setValueAt k t v) t v b i (set_sig i s e) = Inr e'"
    using Suc.prems by (auto simp: seq_then_def split: if_splits sum.splits)
  have "wiring e' = wiring (set_sig i s e)" by (rule publish_wiring [OF Suc.IH s(2)])
  then show ?case using wiring_set_sig [OF store_wires [OF s(1)]] by simp
qed simp

lemma write_wiring: "write_signal t v i e = Inr e' \<Longrightarrow> wiring e' = wiring e"
  unfolding write_signal_def by (rule setValueAt_wiring)

lemma set_signal_wiring: "set_signal t v i e = Inr e' \<Longrightarrow> wiring e' = wiring e"
  by (auto simp: set_signal_def Let_def seq_then_def dest: write_wiring split: if_splits sum.splits)

lemma clock_wires: "clock_tick_value s = Inr (v, s') \<Longrightarrow> wires s' = wires s"
  by (auto simp: clock_tick_value_def wires_def seq_then_def split: if_splits sum.splits)

lemma tick_signal_wiring: "tick_signal t i e = Inr e' \<Longrightarrow> wiring e' = wiring e"
  by (auto simp: tick_signal_def seq_then_def dest!: write_wiring clock_wires split: if_splits sum.splits
      intro: wiring_set_sig)

lemma finish_wiring: "finishEvaluation t f ins outs e = (r, e') \<Longrightarrow> wiring e' = wiring e"
proof -
  assume h: "finishEvaluation t f ins outs e = (r, e')"
  have "wiring e2 = wiring e1" if "fold_keep (\<lambda>(s, v). write_signal t v s) xs e1 = (b, e2)" for xs e1 b e2
    by (rule fold_keep_frame [OF _ that]) (auto dest: write_wiring)
  then show ?thesis using h by (auto simp: finishEvaluation_def Let_def split: if_splits prod.splits option.splits)
qed

lemma execute_wiring: "conditionallyExecute t f e = (r, e') \<Longrightarrow> wiring e' = wiring e"
  by (auto simp: conditionallyExecute_def Let_def dest: finish_wiring split: if_splits sum.splits option.splits)

lemma visit_node_wiring: "visit_node t f e = (r, e') \<Longrightarrow> wiring e' = wiring e"
  by (auto simp: visit_node_def dest!: execute_wiring split: if_splits prod.splits exec_result.splits)

lemma pass_wiring: "pass t fs e = (b, n, e') \<Longrightarrow> wiring e' = wiring e"
  by (induction fs arbitrary: e b n) (auto dest!: visit_node_wiring split: prod.splits step.splits)

lemma passes_wiring: "passes k t fs e = Inr (r, e') \<Longrightarrow> wiring e' = wiring e"
proof (induction k arbitrary: e)
  case 0
  then show ?case by (auto simp: passes.simps [of 0] dest: pass_wiring split: prod.splits if_splits)
next
  case (Suc k)
  then show ?case by (auto simp: passes.simps [of "Suc k"] dest: pass_wiring split: prod.splits if_splits)
qed

lemma refresh_wiring: "refreshDerivedSignals is t e = Inr e' \<Longrightarrow> wiring e' = wiring e"
  unfolding refreshDerivedSignals_def
  by (erule fold_ok_frame [rotated]) (auto simp: Let_def seq_then_def dest!: write_wiring split: if_splits sum.splits option.splits)

lemma evaluateIsland_wiring: "evaluateIsland is t e = Inr (r, e') \<Longrightarrow> wiring e' = wiring e"
  by (auto simp: evaluateIsland_def seq_then_def dest!: refresh_wiring passes_wiring split: if_splits sum.splits)

lemma evaluateNetwork_wiring: "evaluateNetwork t e = Inr e' \<Longrightarrow> wiring e' = wiring e"
  unfolding evaluateNetwork_def
  by (erule fold_ok_frame [rotated]) (auto simp: seq_then_def dest!: evaluateIsland_wiring split: if_splits sum.splits)

lemma tick_sources_wiring: "tick_sources t e = Inr e' \<Longrightarrow> wiring e' = wiring e"
  unfolding tick_sources_def
  by (erule fold_ok_frame [rotated]) (auto simp: seq_then_def dest!: tick_signal_wiring split: if_splits sum.splits)

section \<open>The rebuild\<close>

lemma add_consumer_wiring [simp]: "wiring (add_consumer f p e) = wiring e"
  unfolding add_consumer_def Let_def by (subst wiring_set_sig) (simp_all add: wires_def)

lemma buildSignalConsumers_wiring [simp]: "wiring (buildSignalConsumers e) = wiring e"
proof -
  have "wiring (fold (\<lambda>f e. fold (add_consumer f) (n_inputs (nodes e ! f)) e) fs e) = wiring e" for fs e
    by (rule fold_frame, rule fold_frame) simp
  then show ?thesis by (simp add: buildSignalConsumers_def)
qed

lemma finish_islands_wiring: "finish_islands e iss = Inr (r, qs, e') \<Longrightarrow> wiring e' = wiring e"
proof (induction iss arbitrary: e r qs)
  case (Cons i iss)
  obtain b where b: "b = list_ex (\<lambda>s. background (sigs e ! s)) (is_signals i)" by simp
  have w: "wiring (fold (\<lambda>s e. set_sig s ((sigs e ! s)\<lparr>inBackground := b\<rparr>) e) (is_signals i) e) = wiring e"
    by (rule fold_frame, rule wiring_set_sig) (simp add: wires_def)
  then show ?case using Cons
    by (auto simp: Let_def b [symmetric] seq_then_def split: sum.splits prod.splits)
qed simp

lemma build_wiring: "buildNetworkCacheData e = Inr e' \<Longrightarrow> wiring e' = wiring e"
proof -
  assume h: "buildNetworkCacheData e = Inr e'"
  obtain e1 where e1: "e1 = precomputeFuncPeriods (computeNetworkIslands (buildSignalConsumers e))" by simp
  have "wiring e1 = wiring (computeNetworkIslands (buildSignalConsumers e))"
    unfolding e1 precomputeFuncPeriods_def by (rule fold_frame) simp
  then have "wiring e1 = wiring e" by (simp add: computeNetworkIslands_def Let_def)
  then show ?thesis using h
    by (auto simp: buildNetworkCacheData_def Let_def e1 [symmetric] seq_then_def dest: finish_islands_wiring split: sum.splits prod.splits)
qed

lemma rebuilt_wiring: "(if networkModified e then buildNetworkCacheData e else Inr e) = Inr e' \<Longrightarrow> wiring e' = wiring e"
  by (auto dest: build_wiring split: if_splits)

lemma tick_wiring: "tick now e = Inr e' \<Longrightarrow> wiring e' = wiring e"
  by (auto simp: tick_def Let_def seq_then_def dest!: build_wiring tick_sources_wiring evaluateNetwork_wiring
      split: sum.splits if_splits)

lemma event_wiring: "processPendingEventUpdates e = Inr e' \<Longrightarrow> wiring e' = wiring e"
proof -
  assume h: "processPendingEventUpdates e = Inr e'"
  have one: "wiring e2 = wiring e1" if "evaluate_event u e1 = Inr e2" for u e1 e2
    using that by (auto simp: evaluate_event_def seq_then_def dest!: rebuilt_wiring evaluateIsland_wiring
        simp del: if_split_eq1 split: prod.splits sum.splits option.splits)
  have chain: "event_chain k u e1 = Inr e2 \<Longrightarrow> wiring e2 = wiring e1" for k u e1 e2
  proof (induction k arbitrary: u e1)
    case 0
    then show ?case by (auto simp: event_chain.simps [of 0] seq_then_def dest: one split: sum.splits list.splits)
  next
    case (Suc k)
    obtain e3 where e3: "evaluate_event u e1 = Inr e3"
      using Suc.prems by (auto simp: event_chain.simps [of "Suc k"] seq_then_def split: sum.splits)
    show ?case
    proof (cases "pendingEvents e3")
      case Nil
      then show ?thesis using Suc.prems e3 one [OF e3] by (simp add: event_chain.simps [of "Suc k"])
    next
      case (Cons w ws)
      then have "event_chain k w (e3\<lparr>pendingEvents := ws\<rparr>) = Inr e2" using Suc.prems e3 by (simp add: event_chain.simps [of "Suc k"])
      from Suc.IH [OF this] show ?thesis using one [OF e3] by simp
    qed
  qed
  have "wiring e' = wiring (e\<lparr>pendingEvents := []\<rparr>)"
    using h unfolding processPendingEventUpdates_def processEventDrivenSignalUpdate_def
    by (rule fold_ok_frame [rotated]) (rule chain)
  then show ?thesis by simp
qed

section \<open>The invariant\<close>

definition wire_ok :: "engine \<Rightarrow> nat \<Rightarrow> bool" where
  "wire_ok e i \<longleftrightarrow>
     (\<forall>d \<in> set (dependents (sigs e ! i)). d < length (sigs e) \<and> isDerived (sigs e ! d) \<and> baseSignal (sigs e ! d) = Some i)
     \<and> (isDerived (sigs e ! i) \<longrightarrow> (\<exists>b < length (sigs e). baseSignal (sigs e ! i) = Some b \<and> i \<in> set (dependents (sigs e ! b))))
     \<and> \<not> (isSource (sigs e ! i) \<and> isDerived (sigs e ! i))"

definition network_ok :: "engine \<Rightarrow> bool" where
  "network_ok e \<longleftrightarrow> (\<forall>i < length (sigs e). wire_ok e i) \<and> registered_valid e"

lemma wiring_nth:
  assumes "wiring e' = wiring e"
  shows "length (sigs e') = length (sigs e)" "length (nodes e') = length (nodes e)" "signals e' = signals e" "funcs e' = funcs e"
    "i < length (sigs e) \<Longrightarrow> isDerived (sigs e' ! i) = isDerived (sigs e ! i) \<and> baseSignal (sigs e' ! i) = baseSignal (sigs e ! i)
      \<and> dependents (sigs e' ! i) = dependents (sigs e ! i) \<and> isSource (sigs e' ! i) = isSource (sigs e ! i)"
proof -
  show l: "length (sigs e') = length (sigs e)" "length (nodes e') = length (nodes e)" "signals e' = signals e" "funcs e' = funcs e"
    using assms by (auto simp: wiring_def dest: map_eq_imp_length_eq)
  assume i: "i < length (sigs e)"
  have "map wires (sigs e') ! i = map wires (sigs e) ! i" using assms by (simp add: wiring_def)
  then show "isDerived (sigs e' ! i) = isDerived (sigs e ! i) \<and> baseSignal (sigs e' ! i) = baseSignal (sigs e ! i)
      \<and> dependents (sigs e' ! i) = dependents (sigs e ! i) \<and> isSource (sigs e' ! i) = isSource (sigs e ! i)"
    using i l(1) by (simp add: wires_def)
qed

lemma network_ok_wiring:
  assumes "network_ok e" "wiring e' = wiring e" shows "network_ok e'"
proof -
  note w = wiring_nth(1-4) [OF assms(2)] and f = wiring_nth(5) [OF assms(2)]
  have "wire_ok e' i" if "i < length (sigs e)" for i
  proof -
    have o: "wire_ok e i" using assms(1) that by (simp add: network_ok_def)
    then show ?thesis using f w(1) that unfolding wire_ok_def by metis
  qed
  then show ?thesis using assms(1) w by (simp add: network_ok_def registered_valid_def func_list_def)
qed

text \<open>The two operations that make wires: \<open>l\<close> becomes derived from \<open>b\<close>, in place or as a new signal.\<close>

definition wired :: "nat \<Rightarrow> nat \<Rightarrow> engine \<Rightarrow> engine \<Rightarrow> bool" where
  "wired l b e e' \<longleftrightarrow>
     (\<forall>i < length (sigs e'). isDerived (sigs e' ! i) = (i = l \<or> isDerived (sigs e ! i))
        \<and> baseSignal (sigs e' ! i) = (if i = l then Some b else baseSignal (sigs e ! i))
        \<and> set (dependents (sigs e' ! i)) = (if i = l \<and> l \<ge> length (sigs e) then {} else set (dependents (sigs e ! i))) \<union> (if i = b then {l} else {})
        \<and> isSource (sigs e' ! i) = (i \<noteq> l \<and> isSource (sigs e ! i)))"

lemma wired_ok:
  assumes ok: "\<forall>i < length (sigs e). wire_ok e i" and w: "wired l b e e'"
    and len: "length (sigs e') = length (sigs e) \<and> l < length (sigs e) \<and> isSource (sigs e ! l)
      \<or> length (sigs e') = Suc (length (sigs e)) \<and> l = length (sigs e)"
    and b: "b < length (sigs e)" "b \<noteq> l"
  shows "\<forall>i < length (sigs e'). wire_ok e' i"
proof (intro allI impI)
  fix i assume i: "i < length (sigs e')"
  have sub: "length (sigs e) \<le> length (sigs e')" "l < length (sigs e')" using len by auto
  have nd: "l < length (sigs e) \<Longrightarrow> \<not> isDerived (sigs e ! l)" using len ok by (auto simp: wire_ok_def)
  have k: "wire_ok e j" if "j < length (sigs e)" for j using ok that by blast
  note wi = w [unfolded wired_def, rule_format]
  have deps: "d < length (sigs e') \<and> isDerived (sigs e' ! d) \<and> baseSignal (sigs e' ! d) = Some i"
    if d: "d \<in> set (dependents (sigs e' ! i))" for d
  proof (cases "d = l \<and> i = b")
    case True
    then show ?thesis using wi [OF sub(2)] sub by simp
  next
    case False
    then have "i < length (sigs e)" "d \<in> set (dependents (sigs e ! i))" using d wi [OF i] len b i by (auto split: if_splits)
    then have o: "d < length (sigs e)" "isDerived (sigs e ! d)" "baseSignal (sigs e ! d) = Some i"
      using k [of i] by (simp_all add: wire_ok_def)
    then show ?thesis using wi [of d] sub nd by auto
  qed
  have base: "\<exists>c < length (sigs e'). baseSignal (sigs e' ! i) = Some c \<and> i \<in> set (dependents (sigs e' ! c))"
    if dr: "isDerived (sigs e' ! i)"
  proof (cases "i = l")
    case True
    then show ?thesis using wi [OF i] wi [of b] b sub by auto
  next
    case False
    then have il: "i < length (sigs e)" "isDerived (sigs e ! i)" using dr wi [OF i] i len by auto
    then obtain c where c: "c < length (sigs e)" "baseSignal (sigs e ! i) = Some c" "i \<in> set (dependents (sigs e ! c))"
      using k [of i] by (auto simp: wire_ok_def)
    then show ?thesis using wi [OF i] wi [of c] sub False by (intro exI [of _ c]) auto
  qed
  have "\<not> (isSource (sigs e' ! i) \<and> isDerived (sigs e' ! i))"
    using wi [OF i] k [of i] i len by (auto simp: wire_ok_def)
  then show "wire_ok e' i" using deps base by (auto simp: wire_ok_def)
qed

lemma deriveFrom_wired:
  assumes "l < length (sigs e)" "b < length (sigs e)" "l \<noteq> b"
  shows "wired l b e (deriveFrom l b idx e)" "length (sigs (deriveFrom l b idx e)) = length (sigs e)"
    "wiring (deriveFrom l b idx e) = (fst (wiring (deriveFrom l b idx e)), snd (wiring e))"
  using assms by (auto simp: wired_def deriveFrom_def set_sig_def Let_def nth_update wiring_def)

lemma registered_wiring: "snd (wiring e') = snd (wiring e) \<Longrightarrow> length (sigs e) \<le> length (sigs e') \<Longrightarrow> registered_valid e \<Longrightarrow> registered_valid e'"
  by (auto simp: wiring_def registered_valid_def func_list_def)

lemma deriveFrom_ok:
  assumes "network_ok e" "l < length (sigs e)" "b < length (sigs e)" "b \<noteq> l" "isSource (sigs e ! l)"
  shows "network_ok (deriveFrom l b idx e)"
proof -
  note d = deriveFrom_wired [OF assms(2,3) assms(4) [symmetric], of idx]
  have "registered_valid (deriveFrom l b idx e)"
    by (rule registered_wiring [of _ e]) (use d(2,3) assms(1) in \<open>simp_all add: network_ok_def prod_eq_iff\<close>)
  moreover have "\<forall>i < length (sigs (deriveFrom l b idx e)). wire_ok (deriveFrom l b idx e) i"
    by (rule wired_ok [OF _ d(1)]) (use assms d(2) in \<open>auto simp: network_ok_def\<close>)
  ultimately show ?thesis by (simp add: network_ok_def)
qed

lemma wire_base_valid:
  assumes "network_ok e" "r < length (sigs e)" "wire_base e r = (b, idx)" shows "b < length (sigs e)"
proof -
  have "wire_ok e r" using assms(1,2) by (simp add: network_ok_def)
  then show ?thesis using assms(2,3) by (auto simp: wire_base_def wire_ok_def split: if_splits)
qed

lemma copyInto_ok:
  assumes "network_ok e" "copyInto l r e = Inr e'" shows "network_ok e'"
proof -
  obtain b idx where w: "wire_base e r = (b, idx)" by (cases "wire_base e r")
  have c: "l < length (sigs e)" "r < length (sigs e)" "isSource (sigs e ! l)" "b \<noteq> l"
    using assms(2) by (auto simp: copyInto_def w split: if_splits)
  note ok = deriveFrom_ok [OF assms(1) c(1) wire_base_valid [OF assms(1) c(2) w] c(4,3), of idx]
  obtain d where d: "d = deriveFrom l b idx e" by simp
  have p: "wiring x = wiring d"
    if "publishSample (setValueAt k t v) t v c l (set_sig l ((sigs d ! l)\<lparr>history := h\<rparr>) d) = Inr x" for k t v c h x
  proof -
    have "wiring x = wiring (set_sig l ((sigs d ! l)\<lparr>history := h\<rparr>) d)" by (rule publish_wiring [OF setValueAt_wiring that])
    then show ?thesis by (simp add: wiring_set_sig wires_def)
  qed
  have "wiring e' = wiring d"
    using assms(2) unfolding copyInto_def w
    by (auto simp: Let_def seq_then_def d [symmetric] dest!: p split: if_splits sum.splits)
  then show ?thesis using network_ok_wiring [OF ok] by (simp add: d)
qed

lemma addSignal_ok:
  assumes "network_ok e" "dependents s = []" "\<not> isDerived s" shows "network_ok (snd (addSignal s e))"
proof -
  have "wire_ok (snd (addSignal s e)) i" if i: "i < Suc (length (sigs e))" for i
  proof (cases "i = length (sigs e)")
    case True
    then show ?thesis using assms(2,3) by (simp add: wire_ok_def addSignal_def nth_append)
  next
    case False
    then have il: "i < length (sigs e)" using i by simp
    then have o: "wire_ok e i" using assms(1) by (simp add: network_ok_def)
    have n: "sigs (snd (addSignal s e)) ! j = sigs e ! j" if "j < length (sigs e)" for j
      using that by (simp add: addSignal_def nth_append)
    have l: "length (sigs (snd (addSignal s e))) = Suc (length (sigs e))" by (simp add: addSignal_def)
    show ?thesis using o il unfolding wire_ok_def n [OF il] l by (metis less_SucI n)
  qed
  then show ?thesis
    using assms(1) by (auto simp: network_ok_def addSignal_def registered_valid_def func_list_def)
qed

lemma indexedSignal_wires:
  assumes "indexedSignal a i s = Inr (Some (d, s'))"
  shows "wires d = (True, Some a, [], False)" "wires s' = wires s"
  using assms by (auto simp: indexedSignal_def new_signal_def plain_signal_def wires_def Let_def seq_then_def
      split: if_splits sum.splits)

lemma indexed_signal_ok:
  assumes "network_ok e" "i < length (sigs e)" "indexed_signal i idx e = Inr (j, e')" shows "network_ok e'"
proof -
  obtain r where r: "indexedSignal i idx (sigs e ! i) = Inr r"
    using assms(3) by (auto simp: indexed_signal_def seq_then_def split: sum.splits)
  show ?thesis
  proof (cases r)
    case None
    then show ?thesis using assms r by (simp add: indexed_signal_def)
  next
    case (Some q)
    obtain d s where q: "q = (d, s)" by (cases q)
    have w: "isDerived d" "baseSignal d = Some i" "dependents d = []" "\<not> isSource d"
      "isDerived s = isDerived (sigs e ! i)" "baseSignal s = baseSignal (sigs e ! i)" "dependents s = dependents (sigs e ! i)"
      "isSource s = isSource (sigs e ! i)"
      using indexedSignal_wires [of i idx "sigs e ! i" d s] r by (auto simp: Some q wires_def)
    have e': "sigs e' = (sigs e)[i := s\<lparr>dependents := dependents s @ [length (sigs e)]\<rparr>] @ [d]"
      "signals e' = signals e @ [length (sigs e)]" "funcs e' = funcs e" "nodes e' = nodes e"
      using assms(3) r by (auto simp: indexed_signal_def Some q addSignal_def set_sig_def)
    have d: "wired (length (sigs e)) i e e'"
      using assms(2) w unfolding wired_def e'(1) by (auto simp: nth_append nth_update)
    have "\<forall>k < length (sigs e'). wire_ok e' k"
      by (rule wired_ok [OF _ d]) (use assms(1,2) e'(1) in \<open>auto simp: network_ok_def\<close>)
    then show ?thesis using assms(1) e' by (auto simp: network_ok_def registered_valid_def func_list_def)
  qed
qed

lemma put_name_range: "set (map snd (put_name x f fs)) \<subseteq> insert f (set (map snd fs))"
  by (induction x f fs rule: put_name.induct) auto

lemma addFunc_ok:
  assumes "network_ok e" shows "network_ok (snd (addFunc x n e))"
proof -
  have "set (func_list (snd (addFunc x n e))) \<subseteq> insert (length (nodes e)) (set (func_list e))"
    using put_name_range [of x "length (nodes e)" "funcs e"] by (simp add: addFunc_def func_list_def)
  moreover have "wire_ok (snd (addFunc x n e)) i = wire_ok e i" for i by (simp add: wire_ok_def addFunc_def)
  ultimately show ?thesis using assms by (auto simp: network_ok_def registered_valid_def addFunc_def)
qed

lemma in_linked_sigs:
  "t \<in> set (linked_sigs e s) \<longleftrightarrow> isDerived (sigs e ! s) \<and> baseSignal (sigs e ! s) = Some t \<or> t \<in> set (dependents (sigs e ! s))"
  by (cases "isDerived (sigs e ! s)"; cases "baseSignal (sigs e ! s)") (auto simp: linked_sigs_def)

lemma wire_unique:
  assumes "network_ok e" "s < length (sigs e)" "t < length (sigs e)" "t \<in> set (linked_sigs e s)"
  shows "s \<in> set (linked_sigs e t)"
proof -
  have "wire_ok e s" using assms(1,2) by (simp add: network_ok_def)
  then show ?thesis using assms(4) unfolding in_linked_sigs wire_ok_def by (metis option.inject)
qed

lemma network_ok_sym: "network_ok e \<Longrightarrow> sym (link e)"
  unfolding sym_def link_def using wire_unique by blast

end
