(* ===== verification/Dataflow_Network.thy ===== *)
theory Dataflow_Network
  imports Dataflow_Wires Dataflow_Order
begin

text \<open>
  The networks a program can build, as the states reachable from the empty engine by the operations of
  the dataflow layer, and what holds in all of them.
\<close>

lemma initialize_wiring: "initializeNode f e = Inr e' \<Longrightarrow> wiring e' = wiring e"
proof -
  have "wiring (fold (\<lambda>s e. updateAvailability s (latestSampleTime (history (sigs e ! s))) e) ss e1) = wiring e1" for ss e1
    by (rule fold_frame) simp
  then show "initializeNode f e = Inr e' \<Longrightarrow> wiring e' = wiring e"
    by (auto simp: initializeNode_def Let_def seq_then_def dest!: build_wiring execute_wiring
        split: sum.splits if_split_asm prod.splits exec_result.splits)
qed

lemma collect_due_wiring: "collect_due now k e = Inr (ds, e') \<Longrightarrow> wiring e' = wiring e"
proof (induction k arbitrary: e ds e')
  case (Suc k)
  have t: "wiring e2 = wiring e1" if "fold_ok (tick_background due) ss e1 = Inr e2" for due ss e1 e2
    by (rule fold_ok_frame [OF _ that])
      (auto simp: tick_background_def Let_def seq_then_def dest!: tick_signal_wiring split: if_splits sum.splits)
  show ?case using Suc.prems
    by (auto simp: Let_def seq_then_def dest!: Suc.IH t split: if_split_asm sum.splits prod.splits)
qed simp

lemma background_wiring: "serviceBackgroundIslands now e = Inr e' \<Longrightarrow> wiring e' = wiring e"
proof -
  have f: "wiring e2 = wiring e1"
    if "fold_ok (\<lambda>(is, t) e. seq_then (evaluateIsland is (resolveEvaluationTime is t e) e) (\<lambda>(r, e2). Inr e2)) ds e1 = Inr e2" for ds e1 e2
    by (rule fold_ok_frame [OF _ that]) (auto simp: seq_then_def dest!: evaluateIsland_wiring split: sum.splits)
  show "serviceBackgroundIslands now e = Inr e' \<Longrightarrow> wiring e' = wiring e"
    by (auto simp: serviceBackgroundIslands_def seq_then_def dest!: build_wiring collect_due_wiring f [unfolded seq_then_def]
        split: if_split_asm sum.splits)
qed

section \<open>Reachable networks\<close>

inductive df_step :: "engine \<Rightarrow> engine \<Rightarrow> bool" where
  clock: "newClockSignal f = Inr s \<Longrightarrow> df_step e (snd (addSignal s e))"
| plain: "newSignal f v = Inr s \<Longrightarrow> df_step e (snd (addSignal s e))"
| source: "newSourceSignal f v bg = Inr s \<Longrightarrow> df_step e (snd (addSignal s e))"
| func: "df_step e (snd (addFunc x n e))"
| wire: "copyInto l r e = Inr e' \<Longrightarrow> df_step e e'"
| delay: "i < length (sigs e) \<Longrightarrow> indexed_signal i idx e = Inr (j, e') \<Longrightarrow> df_step e e'"
| written: "set_signal now v i e = Inr e' \<Longrightarrow> df_step e e'"
| rate: "setFrequency f (sigs e ! i) = Inr s \<Longrightarrow> df_step e (set_sig i s e)"
| initialize: "initializeNode g e = Inr e' \<Longrightarrow> df_step e e'"
| rebuild: "buildNetworkCacheData e = Inr e' \<Longrightarrow> df_step e e'"
| ticked: "tick now e = Inr e' \<Longrightarrow> df_step e e'"
| events: "processPendingEventUpdates e = Inr e' \<Longrightarrow> df_step e e'"
| serviced: "serviceBackgroundIslands now e = Inr e' \<Longrightarrow> df_step e e'"

abbreviation df_reachable :: "engine \<Rightarrow> bool" where
  "df_reachable \<equiv> df_step\<^sup>*\<^sup>* empty_engine"

lemma new_signals_unwired:
  "newClockSignal f = Inr s \<Longrightarrow> dependents s = [] \<and> \<not> isDerived s"
  "newSignal f v = Inr s \<Longrightarrow> dependents s = [] \<and> \<not> isDerived s"
  "newSourceSignal f v bg = Inr s \<Longrightarrow> dependents s = [] \<and> \<not> isDerived s"
  by (auto simp: newClockSignal_def newSignal_def newSourceSignal_def new_signal_def plain_signal_def seq_then_def
      split: if_splits sum.splits)

lemma setFrequency_wires: "setFrequency f s = Inr s' \<Longrightarrow> wires s' = wires s"
  by (auto simp: setFrequency_def wires_def seq_then_def split: if_splits sum.splits)

lemma df_step_ok:
  assumes "df_step e e'" "network_ok e" shows "network_ok e'"
  using assms(1)
proof cases
  case (rate f i s)
  have "wiring e' = wiring e" unfolding rate(1) by (rule wiring_set_sig) (rule setFrequency_wires [OF rate(2)])
  then show ?thesis by (rule network_ok_wiring [OF assms(2)])
qed (auto intro: assms(2) addSignal_ok addFunc_ok copyInto_ok indexed_signal_ok network_ok_wiring [OF assms(2)]
    dest: new_signals_unwired set_signal_wiring initialize_wiring build_wiring tick_wiring event_wiring background_wiring)

lemma empty_network_ok: "network_ok empty_engine"
  by (simp add: network_ok_def empty_engine_def registered_valid_def func_list_def)

lemma reachable_ok: "df_reachable e \<Longrightarrow> network_ok e"
  by (induction rule: rtranclp_induct) (auto intro: df_step_ok empty_network_ok)

section \<open>Islands of a reachable network\<close>

lemma finish_islands_members:
  "finish_islands e iss = Inr (r, qs, e') \<Longrightarrow> map is_signals r = map is_signals iss \<and> map is_funcs r = map is_funcs iss"
proof (induction iss arbitrary: e r qs)
  case (Cons i iss)
  have p: "is_signals j = is_signals i \<and> is_funcs j = is_funcs i"
    if "precomputeExecutionOrders e1 (i\<lparr>is_background := b, is_nextDue := 0, is_tickPeriod := q\<rparr>) = Inr j" for e1 b q j
    using that by (auto simp: precomputeExecutionOrders_def seq_then_def split: sum.splits)
  show ?case using Cons.prems by (auto simp: Let_def seq_then_def dest!: p Cons.IH split: sum.splits prod.splits)
qed simp

lemma build_members:
  assumes "buildNetworkCacheData e = Inr e'"
  shows "map is_signals (islands e') = map is_signals (islands (computeNetworkIslands (buildSignalConsumers e)))
    \<and> map is_funcs (islands e') = map is_funcs (islands (computeNetworkIslands (buildSignalConsumers e)))"
proof -
  have "islands (fold (\<lambda>f e. set_node f (G f e) e) fs e1) = islands e1" for G fs e1
    by (rule fold_frame) (simp add: set_node_def)
  then have "islands (precomputeFuncPeriods e1) = islands e1" for e1 by (simp add: precomputeFuncPeriods_def)
  then show ?thesis using assms
    by (auto simp: buildNetworkCacheData_def Let_def seq_then_def dest!: finish_islands_members split: sum.splits prod.splits)
qed

lemma members_zip:
  "map members is = map (\<lambda>(ss, fs). Inl ` set ss \<union> Inr ` set fs) (zip (map is_signals is) (map is_funcs is))"
  by (induction "is") (simp_all add: members_def)

lemma map_members: "map is_signals is = map is_signals js \<Longrightarrow> map is_funcs is = map is_funcs js \<Longrightarrow> map members is = map members js"
  unfolding members_zip by simp

lemma islands_lemma:
  assumes "network_ok e" "buildNetworkCacheData e = Inr e'"
  shows "distinct (concat (map is_signals (islands e'))) \<and> distinct (concat (map is_funcs (islands e')))
    \<and> set (signals e) \<subseteq> set (concat (map is_signals (islands e')))
    \<and> set (concat (map is_funcs (islands e'))) = set (func_list e)
    \<and> (\<forall>i \<in> set (islands e'). \<forall>x \<in> members i. members i = (link e)\<^sup>* `` {x})"
proof -
  obtain e1 where e1: "e1 = buildSignalConsumers e" by simp
  have b: "same_links e e1" "consumers_built e1" using buildSignalConsumers_lemma by (simp_all add: e1)
  have l: "link e1 = link e" by (rule same_links_link [OF b(1)])
  have r: "registered_valid e1" "signals e1 = signals e" "func_list e1 = func_list e"
    using b(1) assms(1) by (simp_all add: same_links_def network_ok_def registered_valid_def func_list_def)
  note m = build_members [OF assms(2), folded e1]
  have mm: "members ` set (islands e') = members ` set (islands (computeNetworkIslands e1))"
    using map_members [of "islands e'" "islands (computeNetworkIslands e1)"] m by (metis list.set_map)
  have sy: "sym (link e1)" using network_ok_sym [OF assms(1)] by (simp add: l)
  note c = computeNetworkIslands_lemma [OF b(2) sy r(1), unfolded l r(2,3)]
  have p: "\<forall>i \<in> set (islands (computeNetworkIslands e1)). \<forall>x \<in> members i. members i = (link e)\<^sup>* `` {x}"
    using c by (elim conjE)
  have q: "distinct (concat (map is_signals (islands e')))" "distinct (concat (map is_funcs (islands e')))"
    "set (signals e) \<subseteq> set (concat (map is_signals (islands e')))" "set (concat (map is_funcs (islands e'))) = set (func_list e)"
    using c m by simp_all
  have "members i = (link e)\<^sup>* `` {x}" if h: "i \<in> set (islands e')" "x \<in> members i" for i x
  proof -
    have "members i \<in> members ` set (islands (computeNetworkIslands e1))" using h(1) mm by blast
    then obtain j where "j \<in> set (islands (computeNetworkIslands e1))" "members i = members j" by blast
    then show ?thesis using p h(2) by blast
  qed
  then show ?thesis using q by blast
qed

section \<open>The grid\<close>

lemma fold_gcd: "fold (\<lambda>q g. gcd g q) ps (g :: int) dvd g \<and> (\<forall>p \<in> set ps. fold (\<lambda>q g. gcd g q) ps g dvd p)"
proof (induction ps arbitrary: g)
  case (Cons p ps)
  have "fold (\<lambda>q g. gcd g q) ps (gcd g p) dvd gcd g p" using Cons [of "gcd g p"] by simp
  then show ?case using Cons [of "gcd g p"] by (auto intro: dvd_trans [OF _ gcd_dvd1] dvd_trans [OF _ gcd_dvd2])
qed simp

lemma fold_gcd_greatest: "d dvd (g :: int) \<Longrightarrow> (\<forall>p \<in> set ps. d dvd p) \<Longrightarrow> d dvd fold (\<lambda>q g. gcd g q) ps g"
  by (induction ps arbitrary: g) auto

lemma longestDividingPeriod_dvd: "p \<in> set ps \<Longrightarrow> longestDividingPeriod ps dvd p"
proof (cases ps)
  case (Cons q qs)
  assume p: "p \<in> set ps"
  have "longestDividingPeriod ps = fold (\<lambda>q g. gcd g q) (q # qs) q" by (simp add: Cons longestDividingPeriod_def)
  then show ?thesis using fold_gcd [of "q # qs" q] p by (simp only: Cons)
qed simp

lemma longestDividingPeriod_greatest: "\<forall>p \<in> set ps. d dvd p \<Longrightarrow> d dvd longestDividingPeriod ps"
  by (cases ps) (auto simp: longestDividingPeriod_def intro!: fold_gcd_greatest)

end
