(* ===== verification/Double_Ratio.thy ===== *)
theory Double_Ratio
  imports Ieee_Double
begin

text \<open>
  Doubles as a whole number of halves of halves: the positive double \<open>m / 2 ^ j\<close>, the quotient of two
  such numbers, and its truncation, so that concrete frequencies and periods are computed with small
  integers.
\<close>

definition dyadic :: "double \<Rightarrow> nat \<Rightarrow> nat \<Rightarrow> bool" where
  "dyadic x m j \<longleftrightarrow> j \<le> 1074 \<and> dscaled x = int (m * 2 ^ (1074 - j)) \<and> \<not> d_nan x \<and> \<not> d_inf x \<and> \<not> d_neg x"

lemma dyadicD:
  assumes "dyadic x m j"
  shows "j \<le> 1074" "dscaled x = int (m * 2 ^ (1074 - j))" "\<not> d_nan x" "\<not> d_inf x" "\<not> d_neg x"
    "nat \<bar>dscaled x\<bar> = m * 2 ^ (1074 - j)"
proof -
  show d: "j \<le> 1074" "dscaled x = int (m * 2 ^ (1074 - j))" "\<not> d_nan x" "\<not> d_inf x" "\<not> d_neg x"
    using assms by (simp_all only: dyadic_def simp_thms)
  show "nat \<bar>dscaled x\<bar> = m * 2 ^ (1074 - j)" by (simp only: d(2) abs_of_nat nat_int)
qed

lemma unit_split: "j \<le> 1074 \<Longrightarrow> unit = 2 ^ j * 2 ^ (1074 - j)"
  unfolding unit_def by (simp only: power_add [symmetric] le_add_diff_inverse)

lemma bit_length_unique:
  assumes "2 ^ b \<le> n" "n < 2 ^ Suc b" shows "bit_length n = Suc b"
proof -
  have "n > 0" using assms(1) by (metis gr0I le_zero_eq power_not_zero zero_neq_numeral)
  then have "2 ^ (bit_length n - 1) \<le> n \<and> n < 2 ^ bit_length n" by (rule bit_length_bounds)
  then have "(2::nat) ^ b < 2 ^ bit_length n" using assms(1) by linarith
  then have "b < bit_length n" by (simp add: power_strict_increasing_iff)
  moreover have "bit_length n \<le> Suc b" by (rule bit_length_le [OF assms(2)])
  ultimately show ?thesis by linarith
qed

lemma round_bits_scale: "c > 0 \<Longrightarrow> round_bits (n * c) (d * c) = round_bits n d"
proof -
  assume c: "c > 0"
  have "round_half_even (n * c) (d * c * 2 ^ k) = round_half_even n (d * 2 ^ k)" for k
    using round_half_even_scale [OF c, of n "d * 2 ^ k"] by (simp add: ac_simps)
  moreover have "n * c div (d * c) = n div d" using c by simp
  ultimately show ?thesis by (simp add: round_bits_def Let_def)
qed

lemma round_bits_ratio:
  assumes "2 ^ 52 \<le> x div y" "x div y < 2 ^ 53" "y > 0"
  shows "round_bits (x * 2 ^ k) y = min d_inf_bits (k * 2 ^ 52 + round_half_even x y)"
proof -
  have "2 ^ 52 * y \<le> x" using assms(1,3) by (metis div_le_mono mult_le_mono1 order_trans times_div_less_eq_dividend mult.commute)
  then have "2 ^ 52 * 2 ^ k * y \<le> x * 2 ^ k" by (simp add: mult.commute mult.left_commute)
  then have lo: "2 ^ (52 + k) \<le> x * 2 ^ k div y" using assms(3) by (simp add: less_eq_div_iff_mult_less_eq power_add)
  have "x < 2 ^ 53 * y" using assms(2,3) by (simp add: div_less_iff_less_mult)
  then have "x * 2 ^ k < 2 ^ 53 * 2 ^ k * y" by (simp add: mult.commute mult.left_commute)
  then have "x * 2 ^ k div y < 2 ^ (53 + k)" using assms(3) by (simp add: div_less_iff_less_mult power_add)
  then have "bit_length (x * 2 ^ k div y) = Suc (52 + k)" by (intro bit_length_unique [OF lo]) simp
  then have "bit_length (x * 2 ^ k div y) - 53 = k" by simp
  moreover have "round_half_even (x * 2 ^ k) (y * 2 ^ k) = round_half_even x y" by (rule round_half_even_scale) simp
  ultimately show ?thesis by (simp add: round_bits_def Let_def)
qed

lemma dyadic_ratio:
  assumes "2 ^ 52 \<le> x div y" "x div y < 2 ^ 53" "y > 0" "j \<le> 1074" "round_half_even x y < 2 ^ 53"
  shows "dyadic (round_signed False (x * 2 ^ (1074 - j)) y) (round_half_even x y) j"
proof -
  obtain q where q: "q = round_half_even x y" by simp
  obtain k where k: "k = 1074 - j" by simp
  have q52: "2 ^ 52 \<le> q" using assms(1) by (simp add: q round_half_even_def Let_def)
  have k1: "k \<le> 1074" by (simp add: k)
  then have "k * 2 ^ 52 \<le> 1074 * (2 ^ 52 :: nat)" by (rule mult_le_mono1)
  then have lt: "k * 2 ^ 52 + q < d_inf_bits" using assms(5) by (simp add: q [symmetric] d_inf_bits_def)
  then have b: "round_bits (x * 2 ^ k) y = k * 2 ^ 52 + q" using round_bits_ratio [OF assms(1-3), of k] by (simp add: q)
  have m: "mag_scaled (k * 2 ^ 52 + q) = q * 2 ^ k" by (rule mag_scaled_bits) (use assms(5) q52 q in simp_all)
  obtain w where w: "w = k * 2 ^ 52 + q" by simp
  have r: "round_signed False (x * 2 ^ k) y = with_sign False w" by (simp only: round_signed_def b w)
  have l: "w < d_inf_bits" "w \<le> d_inf_bits" using lt by (simp_all only: w less_imp_le)
  have "dscaled (with_sign False w) = int (q * 2 ^ k)" using dscaled_with_sign [OF l(2), of False] m by (simp only: w if_False)
  then show ?thesis unfolding dyadic_def q [symmetric] k [symmetric] r
    using l assms(4) by (simp add: d_neg_with_sign d_nan_def d_inf_def d_bits_with_sign)
qed

lemma dyadic_int:
  assumes "0 \<le> i" "i \<le> 2 ^ 53" shows "dyadic (double_of_int i) (nat i) 0"
proof -
  have b: "round_bits (nat \<bar>i\<bar> * unit) 1 \<le> d_inf_bits" by (rule round_bits_le)
  have "\<not> d_neg (double_of_int i)" using assms(1) d_neg_with_sign [OF b, of False]
    by (simp add: double_of_int_def round_signed_def)
  then show ?thesis using double_of_int_exact [of i] assms by (simp add: dyadic_def unit_def)
qed

lemma dyadic_div:
  assumes "dyadic x a 0" "dyadic y m i" "2 ^ 52 \<le> a * 2 ^ i * 2 ^ j div m" "a * 2 ^ i * 2 ^ j div m < 2 ^ 53"
    and "m > 0" "j \<le> 1074" "round_half_even (a * 2 ^ i * 2 ^ j) m < 2 ^ 53"
  shows "dyadic (ddiv x y) (round_half_even (a * 2 ^ i * 2 ^ j) m) j"
proof -
  have x: "dscaled x = int (a * unit)" "\<not> d_nan x" "\<not> d_inf x" "\<not> d_neg x"
    and y: "i \<le> 1074" "dscaled y = int (m * 2 ^ (1074 - i))" "\<not> d_nan y" "\<not> d_inf y" "\<not> d_neg y"
    using assms(1,2) by (simp_all add: dyadic_def unit_def)
  have ny: "dscaled y \<noteq> 0" using y(2) assms(5) by simp
  have nx: "nat \<bar>dscaled x\<bar> = a * unit" "nat \<bar>dscaled y\<bar> = m * 2 ^ (1074 - i)"
    by (simp_all only: x(1) y(2) abs_of_nat nat_int)
  have "a * unit * unit = (a * 2 ^ i * 2 ^ j * 2 ^ (1074 - j)) * 2 ^ (1074 - i)"
  proof -
    have "a * unit * unit = a * (2 ^ j * 2 ^ (1074 - j)) * (2 ^ i * 2 ^ (1074 - i))"
      by (simp only: unit_split [OF y(1), symmetric] unit_split [OF assms(6), symmetric])
    then show ?thesis by (simp only: ac_simps)
  qed
  then have "round_bits (a * unit * unit) (m * 2 ^ (1074 - i)) = round_bits (a * 2 ^ i * 2 ^ j * 2 ^ (1074 - j)) m"
    by (simp only: round_bits_scale zero_less_power zero_less_numeral)
  then have "ddiv x y = round_signed False (a * 2 ^ i * 2 ^ j * 2 ^ (1074 - j)) m"
    using x(2-4) y(3-5) ny by (simp add: ddiv_def Let_def nx round_signed_def)
  then show ?thesis using dyadic_ratio [OF assms(3,4,5,6,7)] by simp
qed

lemma dyadic_to_int:
  assumes "dyadic x m j" "int (m div 2 ^ j) \<le> hi" "lo \<le> 0"
  shows "double_to_int lo hi x = Some (int (m div 2 ^ j))"
proof -
  have x: "j \<le> 1074" "dscaled x = int (m * 2 ^ (1074 - j))" "\<not> d_nan x" "\<not> d_inf x" "\<not> d_neg x"
    using assms(1) by (simp_all add: dyadic_def)
  have n: "nat \<bar>dscaled x\<bar> = m * 2 ^ (1074 - j)" by (simp only: x(2) abs_of_nat nat_int)
  have "m * 2 ^ (1074 - j) div (2 ^ j * 2 ^ (1074 - j)) = m div 2 ^ j" by simp
  then have d: "nat \<bar>dscaled x\<bar> div unit = m div 2 ^ j" unfolding n unit_split [OF x(1)] .
  show ?thesis unfolding double_to_int_def Let_def d using x(3-5) assms(2,3) by simp
qed

end
