(* ===== verification/Dataflow_Grid.thy ===== *)
theory Dataflow_Grid
  imports Dataflow_Network Dataflow_Island Double_Ratio
begin

text \<open>
  What reachable networks promise to a program: wires that agree at both ends, islands that partition the
  network, a grid that every period fits, and sources that keep ticking on it.
\<close>

section \<open>Wires and islands\<close>

definition two_sources :: engine where
  "two_sources = (let s = (plain_signal 0 0 True (Sc SNil))\<lparr>isSource := True, isClock := False\<rparr> in
     snd (addSignal s (snd (addSignal s empty_engine))))"

definition wired_pair :: engine where
  "wired_pair = (deriveFrom 0 1 0 two_sources)\<lparr>networkModified := True\<rparr>"

lemma two_sources_reachable: "df_reachable two_sources"
proof -
  obtain s where s: "s = (plain_signal 0 0 True (Sc SNil))\<lparr>isSource := True, isClock := False\<rparr>" by simp
  have z: "dle 0 0" by code_simp
  have n: "newSourceSignal 0 (Sc SNil) False = Inr s"
    by (simp add: newSourceSignal_def new_signal_def s plain_signal_def z)
  have "df_step empty_engine (snd (addSignal s empty_engine))" by (rule df_step.source [OF n])
  moreover have "df_step (snd (addSignal s empty_engine)) two_sources"
    unfolding two_sources_def Let_def s [symmetric] by (rule df_step.source [OF n])
  ultimately show ?thesis by (meson rtranclp.rtrancl_into_rtrancl rtranclp.rtrancl_refl)
qed

lemma wired_pair_reachable: "df_reachable wired_pair"
proof -
  have z: "deq 0 0" by code_simp
  have s: "length (sigs two_sources) = 2" "sigs two_sources ! 0 = sigs two_sources ! 1"
    "sigs two_sources ! Suc 0 = (plain_signal 0 0 True (Sc SNil))\<lparr>isSource := True, isClock := False\<rparr>"
    "nodes two_sources = []" "funcs two_sources = []"
    by (simp_all add: two_sources_def Let_def addSignal_def empty_engine_def plain_signal_def)
  have "copyInto 0 1 two_sources = Inr wired_pair"
    by (simp add: copyInto_def s z plain_signal_def is_nil_def wire_base_def zeroDelayUpstreamReaches_def Let_def wired_pair_def
        producers_def func_list_def)
  then show ?thesis using two_sources_reachable by (meson df_step.wire rtranclp.rtrancl_into_rtrancl)
qed

text \<open>
  C13. Wires agree at both ends in every network that the operations can build: a signal that a
  wire or a delay drives is recorded among the dependents of its base and is not a source, and every
  dependent of a signal names that signal as its base; writes, ticks, rebuilds and background services
  never break this.
\<close>

theorem wires_agree:
  assumes "df_reachable e"
  shows "network_ok e"
  by (rule reachable_ok [OF assms])

theorem wires_agree_witness: "network_ok wired_pair"
  by (rule wires_agree [OF wired_pair_reachable])

text \<open>
  C10. A rebuild partitions the network into islands: no signal and no function is in two of them,
  every registered signal and function is in one, and an island holds exactly what any of its members
  is connected to through ports, wires and delays.
\<close>

theorem islands_partition:
  assumes "df_reachable e" "buildNetworkCacheData e = Inr e'"
  shows "distinct (concat (map is_signals (islands e'))) \<and> distinct (concat (map is_funcs (islands e')))
    \<and> set (signals e) \<subseteq> set (concat (map is_signals (islands e')))
    \<and> set (concat (map is_funcs (islands e'))) = set (func_list e)
    \<and> (\<forall>i \<in> set (islands e'). \<forall>x \<in> members i. members i = (link e)\<^sup>* `` {x})"
  by (rule islands_lemma [OF reachable_ok [OF assms(1)] assms(2)])

lemma wired_pair_fields:
  "sigs wired_pair = [(plain_signal 0 0 True (Sc SNil))\<lparr>isDerived := True, baseSignal := Some 1\<rparr>,
     (plain_signal 0 0 True (Sc SNil))\<lparr>isSource := True, dependents := [0]\<rparr>]"
  "nodes wired_pair = []" "funcs wired_pair = []" "signals wired_pair = [0, 1]" "consumers wired_pair = (\<lambda>_. [])"
  by (simp_all add: wired_pair_def deriveFrom_def two_sources_def Let_def addSignal_def empty_engine_def plain_signal_def set_sig_def)

lemma wired_pair_build: "\<exists>e'. buildNetworkCacheData wired_pair = Inr e'"
proof -
  obtain e0 where e0: "e0 = buildSignalConsumers wired_pair" by simp
  have f: "sigs e0 = sigs wired_pair" "nodes e0 = []" "funcs e0 = []" "signals e0 = [0, 1]" "consumers e0 = (\<lambda>_. [])"
    by (simp_all add: e0 buildSignalConsumers_def func_list_def wired_pair_fields)
  have g: "sigs (e0\<lparr>islands := x\<rparr>) = sigs wired_pair" "nodes (e0\<lparr>islands := x\<rparr>) = []" "funcs (e0\<lparr>islands := x\<rparr>) = []" for x
    using f by simp_all
  have "linked_sigs e0 0 = [1]" "linked_sigs e0 (Suc 0) = [0]" by (simp_all add: linked_sigs_def f(1) wired_pair_fields plain_signal_def)
  then have "islands (computeNetworkIslands e0) = [blank_island [0, 1] []]"
    by (simp add: computeNetworkIslands_def island_from_def f producers_def func_list_def new_sigs_def new_funs_def
        wired_pair_fields(1) Let_def)
  then have "computeNetworkIslands e0 = e0\<lparr>islands := [blank_island [0, 1] []]\<rparr>"
    by (simp add: computeNetworkIslands_def Let_def)
  then show ?thesis
    by (simp add: buildNetworkCacheData_def e0 [symmetric] precomputeFuncPeriods_def func_list_def f Let_def blank_island_def
        precomputeExecutionOrders_def period_groups_def period_set_def)
qed

theorem islands_partition_witness:
  "\<exists>e'. buildNetworkCacheData wired_pair = Inr e'
    \<and> distinct (concat (map is_signals (islands e'))) \<and> distinct (concat (map is_funcs (islands e')))
    \<and> set (signals wired_pair) \<subseteq> set (concat (map is_signals (islands e')))
    \<and> set (concat (map is_funcs (islands e'))) = set (func_list wired_pair)
    \<and> (\<forall>i \<in> set (islands e'). \<forall>x \<in> members i. members i = (link wired_pair)\<^sup>* `` {x})"
proof -
  obtain e' where "buildNetworkCacheData wired_pair = Inr e'" using wired_pair_build by blast
  then show ?thesis using islands_partition [OF wired_pair_reachable] by blast
qed

section \<open>Execution orders\<close>

text \<open>
  C12. The execution orders of an island are sound and complete: \<open>precomputeExecutionOrders\<close>
  fails exactly when functions of one period feed each other in a cycle without delay; otherwise the
  periods ascend, every function of the island is listed once, under its period, and after all the
  functions of that period that feed it without delay, through wires as well.
\<close>

theorem execution_orders_sound:
  assumes "distinct (is_funcs is)"
  shows "case precomputeExecutionOrders e is of
      Inl er \<Rightarrow> er = Cyclic_Dependency
        \<and> (\<exists>p. \<not> acyclic (needs e {f \<in> set (is_funcs is). n_period (nodes e ! f) = p}))
    | Inr is' \<Rightarrow> distinct (concat (map snd (is_orders is'))) \<and> set (concat (map snd (is_orders is'))) = set (is_funcs is)
        \<and> sorted_wrt (<) (map fst (is_orders is'))
        \<and> (\<forall>(p, xs) \<in> set (is_orders is'). producers_first e xs \<and> (\<forall>f \<in> set xs. n_period (nodes e ! f) = p))"
  by (rule execution_orders_lemma [OF assms])

theorem execution_orders_sound_witness:
  "case precomputeExecutionOrders halve_twice halve_island of
      Inl er \<Rightarrow> er = Cyclic_Dependency
        \<and> (\<exists>p. \<not> acyclic (needs halve_twice {f \<in> set (is_funcs halve_island). n_period (nodes halve_twice ! f) = p}))
    | Inr is' \<Rightarrow> distinct (concat (map snd (is_orders is')))
        \<and> set (concat (map snd (is_orders is'))) = set (is_funcs halve_island)
        \<and> sorted_wrt (<) (map fst (is_orders is'))
        \<and> (\<forall>(p, xs) \<in> set (is_orders is'). producers_first halve_twice xs
            \<and> (\<forall>f \<in> set xs. n_period (nodes halve_twice ! f) = p))"
  by (rule execution_orders_sound) (simp add: halve_island_def blank_island_def)

section \<open>The grid\<close>

lemma in_background_fold:
  "map period (sigs (fold (\<lambda>s e. set_sig s ((sigs e ! s)\<lparr>inBackground := b\<rparr>) e) ss e)) = map period (sigs e)"
proof (rule fold_frame)
  fix s e show "map period (sigs (set_sig s ((sigs e ! s)\<lparr>inBackground := b\<rparr>) e)) = map period (sigs e)"
    by (cases "s < length (sigs e)") (simp_all add: set_sig_def map_update list_update_same_conv list_update_beyond)
qed

lemma same_periods: "map period (sigs e') = map period (sigs e) \<Longrightarrow> s < length (sigs e) \<Longrightarrow> period (sigs e' ! s) = period (sigs e ! s)"
  by (metis length_map nth_map)

definition grid_ok :: "engine \<Rightarrow> island \<Rightarrow> bool" where
  "grid_ok e i \<longleftrightarrow> is_tickPeriod i = longestDividingPeriod (period_set (signal_periods e (is_signals i)))"

lemma finish_islands_grid:
  assumes "finish_islands e iss = Inr (r, qs, e')" "\<forall>i \<in> set iss. set (is_signals i) \<subseteq> {..<length (sigs e)}"
  shows "map period (sigs e') = map period (sigs e) \<and> (\<forall>i \<in> set r. grid_ok e i)
    \<and> set qs = (\<Union>i \<in> set (filter (\<lambda>i. \<not> is_background i) r). set (signal_periods e (is_signals i)))"
  using assms
proof (induction iss arbitrary: e r qs)
  case (Cons i iss)
  obtain b where b: "b = list_ex (\<lambda>s. background (sigs e ! s)) (is_signals i)" by simp
  obtain e1 where e1: "e1 = fold (\<lambda>s e. set_sig s ((sigs e ! s)\<lparr>inBackground := b\<rparr>) e) (is_signals i) e" by simp
  have m: "map period (sigs e1) = map period (sigs e)" unfolding e1 by (rule in_background_fold)
  have sp: "signal_periods e1 ss = signal_periods e ss" if "set ss \<subseteq> {..<length (sigs e)}" for ss
    using that same_periods [OF m] by (induction ss) (auto simp: signal_periods_def)
  obtain j rest qs1 where j: "precomputeExecutionOrders e1 (i\<lparr>is_background := b, is_nextDue := 0,
      is_tickPeriod := longestDividingPeriod (period_set (signal_periods e1 (is_signals i)))\<rparr>) = Inr j"
    "finish_islands e1 iss = Inr (rest, qs1, e')" "r = j # rest" "qs = (if b then [] else signal_periods e1 (is_signals i)) @ qs1"
    using Cons.prems(1) unfolding finish_islands.simps Let_def b [symmetric] e1 [symmetric]
    by (auto simp: seq_then_def split: sum.splits prod.splits)
  have jf: "is_signals j = is_signals i" "is_background j = b"
    "is_tickPeriod j = longestDividingPeriod (period_set (signal_periods e1 (is_signals i)))"
    using j(1) by (auto simp: precomputeExecutionOrders_def seq_then_def split: sum.splits)
  have l: "length (sigs e1) = length (sigs e)" using m by (metis length_map)
  have IH: "map period (sigs e') = map period (sigs e1) \<and> (\<forall>i \<in> set rest. grid_ok e1 i)
    \<and> set qs1 = (\<Union>i \<in> set (filter (\<lambda>i. \<not> is_background i) rest). set (signal_periods e1 (is_signals i)))"
    by (rule Cons.IH [OF j(2)]) (use Cons.prems(2) l in simp)
  have v: "set (is_signals k) \<subseteq> {..<length (sigs e)}" if "k \<in> set rest" for k
  proof -
    have "is_signals k \<in> set (map is_signals iss)" using finish_islands_members [OF j(2)] that by (metis image_eqI list.set_map)
    then obtain x where "x \<in> set iss" "is_signals k = is_signals x" by auto
    then show ?thesis using Cons.prems(2) by simp
  qed
  show ?case using IH m sp [OF v] sp [of "is_signals i"] jf Cons.prems(2) j(3,4) by (auto simp: grid_ok_def)
qed simp

lemma build_grid:
  assumes "network_ok e" "buildNetworkCacheData e = Inr e'"
  shows "map period (sigs e') = map period (sigs e) \<and> (\<forall>i \<in> set (islands e'). grid_ok e i)
    \<and> (\<exists>qs. tickPeriod e' = longestDividingPeriod (period_set qs)
        \<and> set qs = (\<Union>i \<in> set (filter (\<lambda>i. \<not> is_background i) (islands e')). set (signal_periods e (is_signals i))))
    \<and> networkModified e' = False \<and> tickNumber e' = 0 \<and> runStart e' = 0"
proof -
  obtain e0 where e0: "e0 = buildSignalConsumers e" by simp
  obtain e1 where e1: "e1 = precomputeFuncPeriods (computeNetworkIslands e0)" by simp
  have fr: "sigs (fold (\<lambda>f e. set_node f (G f e) e) fs e2) = sigs e2" "islands (fold (\<lambda>f e. set_node f (G f e) e) fs e2) = islands e2"
    for G fs e2 by (rule fold_frame, simp add: set_node_def)+
  have s1: "sigs e1 = sigs e0" "islands e1 = islands (computeNetworkIslands e0)"
    by (simp_all add: e1 precomputeFuncPeriods_def fr) (simp add: computeNetworkIslands_def Let_def)
  have sl: "same_links e e0" using buildSignalConsumers_lemma by (simp add: e0)
  have p1: "map period (sigs e1) = map period (sigs e)"
    by (rule nth_equalityI) (use sl in \<open>simp_all add: s1 same_links_def\<close>)
  obtain r qs e2 where f: "finish_islands e1 (islands e1) = Inr (r, qs, e2)"
    and e': "e' = e2\<lparr>islands := r, tickPeriod := longestDividingPeriod (period_set qs), tickNumber := 0, runStart := 0,
      networkModified := False\<rparr>"
    using assms(2) unfolding buildNetworkCacheData_def Let_def e0 [symmetric] e1 [symmetric]
    by (auto simp: seq_then_def split: sum.splits prod.splits)
  have l: "length (sigs e1) = length (sigs e)" using p1 by (metis length_map)
  have v: "\<forall>i \<in> set (islands e1). set (is_signals i) \<subseteq> {..<length (sigs e1)}"
  proof -
    have b: "consumers_built e0" using buildSignalConsumers_lemma by (simp add: e0)
    have sy: "sym (link e0)" using network_ok_sym [OF assms(1)] same_links_link [OF sl] by simp
    have rv: "registered_valid e0" using sl assms(1) by (simp add: same_links_def network_ok_def registered_valid_def func_list_def)
    have "set (concat (map is_signals (islands e1))) \<subseteq> {..<length (sigs e1)}"
      using computeNetworkIslands_lemma [OF b sy rv] unfolding s1 by (elim conjE)
    then show ?thesis by auto
  qed
  note g = finish_islands_grid [OF f v]
  have sp: "signal_periods e1 ss = signal_periods e ss" if "set ss \<subseteq> {..<length (sigs e)}" for ss
    using that same_periods [OF p1] by (induction ss) (auto simp: signal_periods_def)
  have v': "set (is_signals k) \<subseteq> {..<length (sigs e)}" if "k \<in> set r" for k
  proof -
    have "is_signals k \<in> set (map is_signals (islands e1))" using finish_islands_members [OF f] that by (metis image_eqI list.set_map)
    then obtain x where "x \<in> set (islands e1)" "is_signals k = is_signals x" by auto
    then show ?thesis using v l by simp
  qed
  have "(\<Union>i \<in> set (filter (\<lambda>i. \<not> is_background i) r). set (signal_periods e1 (is_signals i)))
    = (\<Union>i \<in> set (filter (\<lambda>i. \<not> is_background i) r). set (signal_periods e (is_signals i)))"
    using sp [OF v'] by (intro SUP_cong) auto
  moreover have "\<forall>i \<in> set r. grid_ok e i" using g sp [OF v'] by (simp add: grid_ok_def)
  ultimately show ?thesis using g p1 by (auto simp: e')
qed

lemma grid_lemma:
  assumes "network_ok e" "buildNetworkCacheData e = Inr e'"
  shows "(\<forall>i \<in> set (islands e'). \<forall>s \<in> set (is_signals i). is_tickPeriod i dvd period (sigs e' ! s)
      \<and> (\<not> is_background i \<longrightarrow> tickPeriod e' dvd period (sigs e' ! s)))
    \<and> (\<forall>d. (\<forall>i \<in> set (islands e'). \<not> is_background i \<longrightarrow> (\<forall>s \<in> set (is_signals i). d dvd period (sigs e' ! s)))
         \<longrightarrow> d dvd tickPeriod e')"
proof -
  obtain qs where g: "map period (sigs e') = map period (sigs e)" "\<forall>i \<in> set (islands e'). grid_ok e i"
    "tickPeriod e' = longestDividingPeriod (period_set qs)"
    "set qs = (\<Union>i \<in> set (filter (\<lambda>i. \<not> is_background i) (islands e')). set (signal_periods e (is_signals i)))"
    using build_grid [OF assms] by blast
  have v: "s < length (sigs e)" if "i \<in> set (islands e')" "s \<in> set (is_signals i)" for i s
  proof -
    obtain e0 where e0: "e0 = buildSignalConsumers e" by simp
    have sl: "same_links e e0" and b: "consumers_built e0" using buildSignalConsumers_lemma by (simp_all add: e0)
    have sy: "sym (link e0)" using network_ok_sym [OF assms(1)] same_links_link [OF sl] by simp
    have rv: "registered_valid e0" using sl assms(1) by (simp add: same_links_def network_ok_def registered_valid_def func_list_def)
    have "set (concat (map is_signals (islands (computeNetworkIslands e0)))) \<subseteq> {..<length (sigs e0)}"
      using computeNetworkIslands_lemma [OF b sy rv] by (elim conjE)
    moreover have "map is_signals (islands e') = map is_signals (islands (computeNetworkIslands e0))"
      using build_members [OF assms(2)] by (simp add: e0)
    ultimately have "set (concat (map is_signals (islands e'))) \<subseteq> {..<length (sigs e0)}" by simp
    then show ?thesis using that sl by (auto simp: same_links_def)
  qed
  have pe: "period (sigs e' ! s) = period (sigs e ! s)" if "i \<in> set (islands e')" "s \<in> set (is_signals i)" for i s
    by (rule same_periods [OF g(1) v [OF that]])
  have one: "longestDividingPeriod (period_set ps) dvd p" if "p \<noteq> 0 \<Longrightarrow> p \<in> set ps" for p ps
    using that longestDividingPeriod_dvd [of p "period_set ps"] by (cases "p = 0") simp_all
  have a: "is_tickPeriod i dvd period (sigs e' ! s)" "\<not> is_background i \<Longrightarrow> tickPeriod e' dvd period (sigs e' ! s)"
    if h: "i \<in> set (islands e')" "s \<in> set (is_signals i)" for i s
  proof -
    show "is_tickPeriod i dvd period (sigs e' ! s)"
      using g(2) h(1) one [of "period (sigs e ! s)" "signal_periods e (is_signals i)"] h(2)
      by (simp add: grid_ok_def pe [OF h] signal_periods_def)
    assume "\<not> is_background i"
    then show "tickPeriod e' dvd period (sigs e' ! s)" unfolding g(3) pe [OF h]
      by (intro one) (use h in \<open>force simp: g(4) signal_periods_def\<close>)
  qed
  have "d dvd tickPeriod e'"
    if "\<forall>i \<in> set (islands e'). \<not> is_background i \<longrightarrow> (\<forall>s \<in> set (is_signals i). d dvd period (sigs e' ! s))" for d
    unfolding g(3)
  proof (rule longestDividingPeriod_greatest, rule ballI)
    fix p assume "p \<in> set (period_set qs)"
    then obtain i s where "i \<in> set (islands e')" "\<not> is_background i" "s \<in> set (is_signals i)" "p = period (sigs e ! s)"
      by (auto simp: g(4) signal_periods_def)
    then show "d dvd p" using that pe by fastforce
  qed
  then show ?thesis using a by blast
qed

text \<open>
  C27. The tick grid fits every clocked signal: after a rebuild the tick period is the greatest
  common divisor of the periods of all signals outside background islands, and each island's own tick
  period the one of its signals, so no period is ever between two ticks.
\<close>

theorem grid_divides_periods:
  assumes "df_reachable e" "buildNetworkCacheData e = Inr e'"
  shows "(\<forall>i \<in> set (islands e'). \<forall>s \<in> set (is_signals i). is_tickPeriod i dvd period (sigs e' ! s)
      \<and> (\<not> is_background i \<longrightarrow> tickPeriod e' dvd period (sigs e' ! s)))
    \<and> (\<forall>d. (\<forall>i \<in> set (islands e'). \<not> is_background i \<longrightarrow> (\<forall>s \<in> set (is_signals i). d dvd period (sigs e' ! s)))
         \<longrightarrow> d dvd tickPeriod e')"
  by (rule grid_lemma [OF reachable_ok [OF assms(1)] assms(2)])

theorem grid_divides_periods_witness:
  "\<exists>e'. buildNetworkCacheData wired_pair = Inr e'
    \<and> (\<forall>i \<in> set (islands e'). \<forall>s \<in> set (is_signals i). is_tickPeriod i dvd period (sigs e' ! s)
      \<and> (\<not> is_background i \<longrightarrow> tickPeriod e' dvd period (sigs e' ! s)))
    \<and> (\<forall>d. (\<forall>i \<in> set (islands e'). \<not> is_background i \<longrightarrow> (\<forall>s \<in> set (is_signals i). d dvd period (sigs e' ! s)))
         \<longrightarrow> d dvd tickPeriod e')"
proof -
  obtain e' where "buildNetworkCacheData wired_pair = Inr e'" using wired_pair_build by blast
  then show ?thesis using grid_divides_periods [OF wired_pair_reachable] by blast
qed

section \<open>Ticking\<close>

lemma boundary_multiple:
  assumes "boundary_period p = Some q" "nextPeriodOnPeriodBoundary now p = Inr r" shows "q dvd r"
proof -
  obtain h where "r = now + h - (now + h) mod q"
    using assms by (auto simp: nextPeriodOnPeriodBoundary_def split: option.splits if_splits)
  then show ?thesis by (simp add: minus_mod_eq_mult_div)
qed

lemma due_within:
  fixes p q r :: int
  assumes "p > 0" "p dvd q" "q > 0" "p dvd r"
  shows "\<exists>k < nat (q div p). (r + p * int (n + k)) mod q = 0"
proof -
  obtain c m where c: "q = p * c" "r = p * m" using assms(2,4) by (elim dvdE)
  have cp: "c > 0" using assms(1,3) c(1) by (simp add: zero_less_mult_iff)
  obtain k where k: "k = nat ((- (m + int n)) mod c)" by simp
  have ki: "int k = (- (m + int n)) mod c" using cp by (simp add: k)
  have "(m + int n + int k) mod c = 0" unfolding ki by (simp add: mod_add_right_eq)
  then have "c dvd m + int n + int k" by (simp add: dvd_eq_mod_eq_0)
  then have "p * c dvd p * (m + int n + int k)" by (rule mult_dvd_mono [OF dvd_refl])
  moreover have "r + p * int (n + k) = p * (m + int n + int k)" by (simp add: c algebra_simps)
  ultimately have "(r + p * int (n + k)) mod q = 0" unfolding c(1) by (simp only: dvd_eq_mod_eq_0)
  moreover have "int k < c" using ki cp by simp
  then have "k < nat (q div p)" using assms(1) by (simp add: c(1))
  ultimately show ?thesis by (intro exI [of _ k] conjI)
qed

lemma frequency_30000: "dyadic (ddiv d_million (double_of_int 30000)) 4691249611844267 47"
proof -
  have "round_half_even (1000000 * 2 ^ 0 * 2 ^ 47) 30000 = 4691249611844267" by (simp add: round_half_even_def Let_def)
  then show ?thesis
    using dyadic_div [OF dyadic_int [of 1000000] dyadic_int [of 30000], of 47] by (simp add: d_million_def)
qed

lemma frequency_100_3: "dyadic (ddiv (double_of_int 100) (double_of_int 3)) 4691249611844267 47"
proof -
  have "round_half_even (100 * 2 ^ 0 * 2 ^ 47) 3 = 4691249611844267" by (simp add: round_half_even_def Let_def)
  then show ?thesis
    using dyadic_div [OF dyadic_int [of 100] dyadic_int [of 3], of 47] by simp
qed

lemma back_from_frequency: "dyadic f 4691249611844267 47 \<Longrightarrow> dyadic (ddiv d_million f) 8246337208319999 38"
proof -
  assume f: "dyadic f 4691249611844267 47"
  have "round_half_even (1000000 * 2 ^ 47 * 2 ^ 38) 4691249611844267 = 8246337208319999" by (simp add: round_half_even_def Let_def)
  then show ?thesis using dyadic_div [OF dyadic_int [of 1000000] f, of 38] by (simp add: d_million_def)
qed

lemma boundary_30000: "boundary_period 30000 = Some 29999"
  using dyadic_to_int [OF back_from_frequency [OF frequency_30000], of "2 ^ 63 - 1" "- (2 ^ 63)"]
  by (simp add: boundary_period_def i64_of_double_def)

lemma dneg_with_sign: "b \<le> d_inf_bits \<Longrightarrow> dneg (with_sign False b) = with_sign True b"
proof -
  assume b: "b \<le> d_inf_bits"
  then have "unat (with_sign False b) = b" using unat_with_sign [of b False] by simp
  moreover have "b + 2 ^ 63 < 2 ^ 64" using b by (simp add: d_inf_bits_def)
  ultimately show ?thesis by (simp add: dneg_def with_sign_def add.commute)
qed

text \<open>The distance of a double from a whole number that it misses by \<open>2 ^ - j\<close>.\<close>

lemma one_off:
  assumes "dyadic x m j" "1 \<le> j" "j \<le> 500" "Suc m = n * 2 ^ j" "int n \<le> 2 ^ 53"
  shows "dscaled (dfabs (dsub x (double_of_int (int n)))) = 2 ^ (1074 - j)" "\<not> d_nan (dfabs (dsub x (double_of_int (int n))))"
proof -
  obtain u where u: "u = (2 :: nat) ^ (1074 - j)" by simp
  have x: "dscaled x = int m * int u" "\<not> d_nan x" "\<not> d_inf x"
    using assms(1) by (simp_all add: dyadic_def u)
  obtain b where b: "b = round_bits (n * unit) 1" by simp
  have bl: "b \<le> d_inf_bits" unfolding b by (rule round_bits_le)
  have r: "double_of_int (int n) = with_sign False b" by (simp add: double_of_int_def round_signed_def b)
  have e: "dscaled (double_of_int (int n)) = int n * int unit" "\<not> d_nan (double_of_int (int n))" "\<not> d_inf (double_of_int (int n))"
    using double_of_int_exact [of "int n"] assms(5) by simp_all
  have g: "dneg (double_of_int (int n)) = with_sign True b" unfolding r by (rule dneg_with_sign [OF bl])
  have ng: "dscaled (with_sign True b) = - (int n * int unit)" "\<not> d_nan (with_sign True b)" "\<not> d_inf (with_sign True b)"
    using e dscaled_with_sign [OF bl] d_bits_with_sign [OF bl] unfolding r by (simp_all add: d_nan_def d_inf_def)
  have "unit = 2 ^ j * u" unfolding u by (rule unit_split) (use assms(3) in simp)
  then have "int n * int unit = (int m + 1) * int u" using assms(4) by (metis mult.assoc of_nat_Suc of_nat_mult add.commute)
  then have sum: "dscaled x + dscaled (with_sign True b) = - int u" by (simp add: x(1) ng(1) algebra_simps)
  have u0: "u > 0" by (simp add: u)
  have d: "dsub x (double_of_int (int n)) = round_signed True u 1"
    unfolding dsub_def g dadd_def Let_def sum using x(2,3) ng(2,3) u0 by simp
  have f: "dfabs (dsub x (double_of_int (int n))) = with_sign False (round_bits u 1)"
    unfolding d by (simp add: dfabs_def round_signed_def d_bits_with_sign round_bits_le)
  have l: "bit_length u = 1075 - j"
    using bit_length_unique [of "1074 - j" u] assms(3) by (simp add: u Suc_diff_le)
  have "1074 - j = 52 + (1075 - j - 53)" using assms(3) by simp
  then have q: "u = 2 ^ 52 * 2 ^ (bit_length u - 53)" unfolding l unfolding u by (metis power_add)
  have us: "u < 2 ^ 2098" unfolding u by (rule power_strict_increasing) (use assms(2) in simp_all)
  have m: "mag_scaled (round_bits u 1) = u" using round_bits_exact [OF q _ us refl] by simp
  show "dscaled (dfabs (dsub x (double_of_int (int n)))) = 2 ^ (1074 - j)"
    unfolding f using dscaled_with_sign [OF round_bits_le, of False u 1] by (simp only: m if_False) (simp add: u)
  show "\<not> d_nan (dfabs (dsub x (double_of_int (int n))))"
    unfolding f using round_not_nan [of False u 1] by (simp only: round_signed_def not_False_eq_True)
qed

lemma half3:
  assumes "2 ^ 52 \<le> 3 * n * 2 ^ m" "3 * n * 2 ^ m < 2 ^ 53" "m \<le> 500"
  shows "i64_of_double (dmul d_half3 (double_of_int (int n))) = Some (int (3 * n * 2 ^ m div 2 ^ Suc m))"
proof -
  have h: "dyadic d_half3 (3 * 2 ^ 51) 52"
    using dyadic_div [OF dyadic_int [of 3] dyadic_int [of 2], of 52] by (simp add: d_half3_def round_half_even_def Let_def)
  have "n \<le> 3 * n * 2 ^ m" by simp
  then have n53: "n \<le> 2 ^ 53" using assms(2) by linarith
  then have "int n \<le> 2 ^ 53" by (metis of_nat_le_iff of_nat_numeral of_nat_power)
  then have i: "dyadic (double_of_int (int n)) n 0" using dyadic_int [of "int n"] by simp
  obtain u where u: "u = (2 :: nat) ^ (1074 - 52)" by simp
  have nn: "nat \<bar>dscaled d_half3\<bar> = 3 * 2 ^ 51 * u" "nat \<bar>dscaled (double_of_int (int n))\<bar> = n * unit"
    using dyadicD(6) [OF h] dyadicD(6) [OF i] unfolding u unit_def diff_zero .
  have "(2 :: nat) ^ 51 * u = 2 ^ (m + (1074 - Suc m))" unfolding u power_add [symmetric] using assms(3) by simp
  then have "3 * 2 ^ 51 * u * (n * unit) = (3 * n * 2 ^ m * 2 ^ (1074 - Suc m)) * unit" by (simp add: power_add)
  moreover have "round_bits ((3 * n * 2 ^ m * 2 ^ (1074 - Suc m)) * unit) (1 * unit) = round_bits (3 * n * 2 ^ m * 2 ^ (1074 - Suc m)) 1"
    by (rule round_bits_scale) (simp add: unit_def)
  ultimately have "dmul d_half3 (double_of_int (int n)) = round_signed False (3 * n * 2 ^ m * 2 ^ (1074 - Suc m)) 1"
    using dyadicD(3-5) [OF h] dyadicD(3-5) [OF i] unfolding dmul_def Let_def nn round_signed_def by (simp only: nat_mult_1 simp_thms if_False)
  moreover have "round_half_even (3 * n * 2 ^ m) 1 = 3 * n * 2 ^ m" by (simp add: round_half_even_def Let_def)
  moreover have "dyadic (round_signed False (3 * n * 2 ^ m * 2 ^ (1074 - Suc m)) 1) (round_half_even (3 * n * 2 ^ m) 1) (Suc m)"
    by (rule dyadic_ratio) (use assms \<open>round_half_even (3 * n * 2 ^ m) 1 = _\<close> in simp_all)
  ultimately have d: "dyadic (dmul d_half3 (double_of_int (int n))) (3 * n * 2 ^ m) (Suc m)" by simp
  obtain q where q: "q = 3 * n * 2 ^ m div 2 ^ Suc m" by simp
  have "q \<le> 2 ^ 53" unfolding q using assms(2) by (meson div_le_dividend le_trans less_imp_le)
  then have "int q \<le> 2 ^ 63 - 1" by simp
  then have "int (3 * n * 2 ^ m div 2 ^ Suc m) \<le> 2 ^ 63 - 1" by (simp only: q)
  then show ?thesis unfolding i64_of_double_def by (rule dyadic_to_int [OF d]) simp
qed

lemma dround_to:
  assumes "dyadic x m j" "(m * 2 ^ (1074 - j) + unit div 2) div unit = n"
  shows "dround x = double_of_int (int n)"
proof -
  obtain b where b: "b = round_bits (n * unit) 1" by simp
  have r: "double_of_int (int n) = with_sign False b" by (simp add: double_of_int_def round_signed_def b)
  show ?thesis
    unfolding dround_def Let_def dyadicD(6) [OF assms(1)] assms(2)
    using dyadicD(3-5) [OF assms(1)] by (simp add: r d_bits_with_sign b round_bits_le)
qed

lemma d_tolerance_dyadic: "dyadic d_tolerance 4835703278458517 82"
proof -
  have "round_half_even (1 * 2 ^ 0 * 2 ^ 82) 1000000000 = 4835703278458517" by (simp add: round_half_even_def Let_def)
  then show ?thesis
    using dyadic_div [OF dyadic_int [of 1] dyadic_int [of 1000000000], of 82] by (simp add: d_tolerance_def d_one_def)
qed

lemma not_below_one:
  assumes "dyadic x m j" "2 ^ j \<le> m" shows "\<not> dlt x d_one"
proof -
  have "dscaled d_one = int unit" using double_of_int_exact [of 1] by (simp add: d_one_def)
  moreover have "2 ^ j * 2 ^ (1074 - j) \<le> m * 2 ^ (1074 - j)" using assms(2) by simp
  then have "unit \<le> m * 2 ^ (1074 - j)" unfolding unit_split [OF dyadicD(1) [OF assms(1)]] .
  ultimately show ?thesis using dyadicD(2) [OF assms(1)] by (simp only: dlt_def of_nat_less_iff) simp
qed

text \<open>A frequency whose quotient is a whole number of microseconds has that period.\<close>

lemma period_exact:
  assumes "dyadic (ddiv d_million f) (n * 2 ^ j) j" "1 \<le> n" "int n \<le> 2 ^ 53"
  shows "period_of_frequency f = Inr (int n)"
proof -
  obtain x where x: "x = ddiv d_million f" by simp
  note d = assms(1) [folded x]
  have s: "n * 2 ^ j * 2 ^ (1074 - j) = n * unit" by (simp only: mult.assoc unit_split [OF dyadicD(1) [OF d], symmetric])
  have u: "unit > 0" by (simp add: unit_def)
  have "(n * unit + unit div 2) div unit = n" using u by (simp add: div_add1_eq)
  then have r: "dround x = double_of_int (int n)" by (intro dround_to [OF d]) (simp only: s)
  have e: "dscaled (double_of_int (int n)) = int n * int unit" "\<not> d_nan (double_of_int (int n))" "\<not> d_inf (double_of_int (int n))"
    using double_of_int_exact [of "int n"] assms(3) by simp_all
  obtain b where b: "b = round_bits (n * unit) 1" by simp
  have bl: "b \<le> d_inf_bits" unfolding b by (rule round_bits_le)
  have rb: "double_of_int (int n) = with_sign False b" by (simp add: double_of_int_def round_signed_def b)
  have g: "dneg (double_of_int (int n)) = with_sign True b" unfolding rb by (rule dneg_with_sign [OF bl])
  have ng: "dscaled (with_sign True b) = - (int n * int unit)" "\<not> d_nan (with_sign True b)" "\<not> d_inf (with_sign True b)"
    using e dscaled_with_sign [OF bl] d_bits_with_sign [OF bl] unfolding rb by (simp_all add: d_nan_def d_inf_def)
  have dx: "dscaled x = int n * int unit" using dyadicD(2) [OF d] unfolding s by simp
  have "dsub x (double_of_int (int n)) = with_sign False 0"
    using dyadicD(3-5) [OF d] ng dx unfolding dsub_def g dadd_def by simp
  then have "dscaled (dfabs (dsub x (dround x))) = 0" unfolding r dfabs_def by (simp add: d_bits_with_sign dscaled_with_sign mag_scaled_def)
  moreover have "dscaled d_tolerance \<ge> 0" using dyadicD(2) [OF d_tolerance_dyadic] by (simp only: of_nat_0_le_iff)
  ultimately have t: "\<not> dlt d_tolerance (dfabs (dsub x (dround x)))" unfolding dlt_def by linarith
  have o: "\<not> dlt x d_one" by (rule not_below_one [OF d]) (use assms(2) in simp)
  have "int (n div 2 ^ 0) \<le> 2 ^ 63 - 1" using assms(3) by simp
  moreover have "dyadic (double_of_int (int n)) n 0" using dyadic_int [of "int n"] assms(3) by simp
  ultimately have "i64_of_double (dround x) = Some (int n)" unfolding r i64_of_double_def
    using dyadic_to_int [of "double_of_int (int n)" n 0 "2 ^ 63 - 1" "- (2 ^ 63)"] by simp
  then show ?thesis using t o by (simp add: period_of_frequency_def x [symmetric] Let_def)
qed

lemma period_100_3: "period_of_frequency (ddiv (double_of_int 100) (double_of_int 3)) = Inr 30000"
proof -
  obtain x where x: "x = ddiv d_million (ddiv (double_of_int 100) (double_of_int 3))" by simp
  have d: "dyadic x 8246337208319999 38" unfolding x by (rule back_from_frequency [OF frequency_100_3])
  obtain u where u: "u = (2 :: nat) ^ (1074 - 38)" by simp
  have ut: "unit = 2 ^ 38 * u" unfolding u by (rule unit_split) simp
  have u0: "u > 0" by (simp add: u)
  have h: "unit div 2 = 2 ^ 37 * u" unfolding ut by simp
  have "(8246337208319999 * u + 2 ^ 37 * u) div (2 ^ 38 * u) = (8246337208319999 + 2 ^ 37) div 2 ^ 38"
    unfolding add_mult_distrib [symmetric] using u0 by simp
  then have "(8246337208319999 * 2 ^ (1074 - 38) + unit div 2) div unit = 30000" unfolding h ut u [symmetric] by simp
  from dround_to [OF d this] have dr: "dround x = double_of_int 30000" by simp
  have t: "dscaled d_tolerance = int (4835703278458517 * 2 ^ (1074 - 82))" by (rule dyadicD(2) [OF d_tolerance_dyadic])
  have "(2 :: nat) ^ (1074 - 38) = 2 ^ 44 * 2 ^ (1074 - 82)" by (simp only: power_add [symmetric]) simp
  moreover have "(2 :: nat) ^ 44 * 2 ^ (1074 - 82) < 4835703278458517 * 2 ^ (1074 - 82)" by (rule mult_strict_right_mono) simp_all
  ultimately have "\<not> dscaled d_tolerance < 2 ^ (1074 - 38)" unfolding t by (metis of_nat_less_iff of_nat_numeral of_nat_power less_asym)
  moreover have "dscaled (dfabs (dsub x (double_of_int 30000))) = 2 ^ (1074 - 38)"
    using one_off(1) [OF d, of 30000] by simp
  ultimately have "\<not> dlt d_tolerance (dfabs (dsub x (dround x)))" by (simp only: dlt_def dr simp_thms)
  moreover have "\<not> dlt x d_one" by (rule not_below_one [OF d]) simp
  moreover have "i64_of_double (dround x) = Some 30000"
    using dyadic_to_int [OF dyadic_int [of 30000], of "2 ^ 63 - 1" "- (2 ^ 63)"] unfolding dr i64_of_double_def by simp
  ultimately show ?thesis by (simp add: period_of_frequency_def x [symmetric] Let_def)
qed

text \<open>
  C15. Every source of the grid keeps ticking: when the tick period survives its round trip
  through a floating-point frequency, then from any tick on a clocked source outside background islands
  is due again within as many ticks as its period has grid periods.
\<close>

theorem sources_keep_ticking:
  assumes "df_reachable e" "buildNetworkCacheData e = Inr e'" "i \<in> set (islands e')" "\<not> is_background i"
    and "s \<in> set (is_signals i)" "isSource (sigs e' ! s)" "\<not> inBackground (sigs e' ! s)" "period (sigs e' ! s) > 0"
    and "tickPeriod e' > 0" "boundary_period (tickPeriod e') = Some (tickPeriod e')"
    and "nextPeriodOnPeriodBoundary now (tickPeriod e') = Inr r"
  shows "\<exists>k < nat (period (sigs e' ! s) div tickPeriod e').
    tick_due (sigs e' ! s) (tick_time (e'\<lparr>runStart := r, tickNumber := n + k\<rparr>))"
proof -
  have "tickPeriod e' dvd period (sigs e' ! s)"
    using grid_lemma [OF reachable_ok [OF assms(1)] assms(2)] assms(3-5) by blast
  from due_within [OF assms(9) this assms(8) boundary_multiple [OF assms(10,11)], of n]
  obtain k where "k < nat (period (sigs e' ! s) div tickPeriod e')" "(r + tickPeriod e' * int (n + k)) mod period (sigs e' ! s) = 0"
    by (elim exE conjE)
  then show ?thesis using assms(6-8) by (intro exI [of _ k]) (simp add: tick_due_def tick_time_def)
qed

lemma khz:
  "dyadic (ddiv d_million (double_of_int 1000)) (1000 * 2 ^ 43) 43"
  "dyadic (ddiv d_million (ddiv d_million (double_of_int 1000))) (1000 * 2 ^ 43) 43"
proof -
  show f: "dyadic (ddiv d_million (double_of_int 1000)) (1000 * 2 ^ 43) 43"
    using dyadic_div [OF dyadic_int [of 1000000] dyadic_int [of 1000], of 43] by (simp add: d_million_def round_half_even_def Let_def)
  show "dyadic (ddiv d_million (ddiv d_million (double_of_int 1000))) (1000 * 2 ^ 43) 43"
    using dyadic_div [OF dyadic_int [of 1000000] f, of 43] by (simp add: d_million_def round_half_even_def Let_def)
qed

definition khz_clock :: signal where
  "khz_clock = (plain_signal (double_of_int 1000) 1000 False (Sc (SInt 0)))\<lparr>isClock := True, isSource := True\<rparr>"

definition khz_network :: engine where
  "khz_network = snd (addSignal khz_clock empty_engine)"

lemma khz_reachable: "df_reachable khz_network"
proof -
  have p: "period_of_frequency (double_of_int 1000) = Inr 1000"
    using period_exact [of "double_of_int 1000" 1000 43] khz(1) by simp
  have "\<not> dle (double_of_int 1000) 0"
    using double_of_int_exact [of 1000] by (simp add: dle_def dscaled_zero unit_def)
  then have "newClockSignal (double_of_int 1000) = Inr khz_clock"
    by (simp add: newClockSignal_def new_signal_def p khz_clock_def plain_signal_def)
  then show ?thesis unfolding khz_network_def by (intro r_into_rtranclp df_step.clock)
qed

text \<open>The rebuild of a network that is one clock.\<close>

definition clock_of :: "double \<Rightarrow> time \<Rightarrow> signal" where
  "clock_of f p = (plain_signal f p False (Sc (SInt 0)))\<lparr>isClock := True, isSource := True\<rparr>"

lemma clock_build:
  assumes "p > 0"
  shows "\<exists>e'. buildNetworkCacheData (snd (addSignal (clock_of f p) empty_engine)) = Inr e' \<and> tickPeriod e' = p \<and> sigs e' = [clock_of f p]
    \<and> islands e' = [(blank_island [0] [])\<lparr>is_tickPeriod := p\<rparr>]"
proof -
  obtain s where s: "s = clock_of f p" by simp
  obtain e0 where e0: "e0 = buildSignalConsumers (snd (addSignal s empty_engine))" by simp
  have f: "sigs e0 = [s]" "nodes e0 = []" "funcs e0 = []" "signals e0 = [0]" "consumers e0 = (\<lambda>_. [])"
    by (simp_all add: e0 buildSignalConsumers_def func_list_def addSignal_def empty_engine_def)
  have k: "period s = p" "background s = False" "s\<lparr>inBackground := False\<rparr> = s"
    by (simp_all add: s clock_of_def plain_signal_def)
  have "linked_sigs e0 0 = []" by (simp add: linked_sigs_def f(1) s clock_of_def plain_signal_def)
  then have "islands (computeNetworkIslands e0) = [blank_island [0] []]"
    by (simp add: computeNetworkIslands_def island_from_def f producers_def func_list_def new_sigs_def new_funs_def Let_def)
  then have "computeNetworkIslands e0 = e0\<lparr>islands := [blank_island [0] []]\<rparr>"
    by (simp add: computeNetworkIslands_def Let_def)
  then show ?thesis
    using assms by (simp add: s [symmetric] buildNetworkCacheData_def e0 [symmetric] precomputeFuncPeriods_def func_list_def f Let_def blank_island_def
        precomputeExecutionOrders_def period_groups_def period_set_def signal_periods_def set_sig_def k longestDividingPeriod_def)
qed

lemma khz_build:
  "\<exists>e'. buildNetworkCacheData khz_network = Inr e' \<and> tickPeriod e' = 1000 \<and> sigs e' = [khz_clock]
    \<and> islands e' = [(blank_island [0] [])\<lparr>is_tickPeriod := 1000\<rparr>]"
  using clock_build [of 1000 "double_of_int 1000"] by (simp add: khz_network_def khz_clock_def clock_of_def)

theorem sources_keep_ticking_witness:
  "\<exists>e'. buildNetworkCacheData khz_network = Inr e'
    \<and> (\<exists>k < nat (period (sigs e' ! 0) div tickPeriod e').
        tick_due (sigs e' ! 0) (tick_time (e'\<lparr>runStart := 1001000, tickNumber := 7 + k\<rparr>)))"
proof -
  obtain e' where e': "buildNetworkCacheData khz_network = Inr e'" "tickPeriod e' = 1000" "sigs e' = [khz_clock]"
    "islands e' = [(blank_island [0] [])\<lparr>is_tickPeriod := 1000\<rparr>]" using khz_build by blast
  have b: "boundary_period 1000 = Some 1000"
    using dyadic_to_int [OF khz(2), of "2 ^ 63 - 1" "- (2 ^ 63)"] by (simp add: boundary_period_def i64_of_double_def)
  have "i64_of_double (dmul d_half3 (double_of_int 1000)) = Some 1500" using half3 [of 1000 41] by simp
  then have n: "nextPeriodOnPeriodBoundary 1000000 1000 = Inr 1001000" by (simp add: nextPeriodOnPeriodBoundary_def b)
  show ?thesis
    using sources_keep_ticking [OF khz_reachable e'(1), of "(blank_island [0] [])\<lparr>is_tickPeriod := 1000\<rparr>" 0 1000000 1001000 7]
      e' b n by (simp add: blank_island_def khz_clock_def plain_signal_def)
qed

lemma clock_100_3:
  "newClockSignal (ddiv (double_of_int 100) (double_of_int 3)) = Inr (clock_of (ddiv (double_of_int 100) (double_of_int 3)) 30000)"
proof -
  have "dscaled (ddiv (double_of_int 100) (double_of_int 3)) > 0"
    unfolding dyadicD(2) [OF frequency_100_3] by (simp only: of_nat_0_less_iff) simp
  then have "\<not> dle (ddiv (double_of_int 100) (double_of_int 3)) 0" by (simp add: dle_def dscaled_zero)
  then show ?thesis by (simp add: newClockSignal_def new_signal_def period_100_3 clock_of_def plain_signal_def)
qed

lemma run_start_30000: "nextPeriodOnPeriodBoundary now 30000 = Inr (now + 44998 - (now + 44998) mod 29999)"
  by (simp add: nextPeriodOnPeriodBoundary_def boundary_30000 half3 [of 29999 36, simplified])

lemma due_only_aligned:
  assumes "tickPeriod e = p" "period s = p" "isSource s" "\<not> inBackground s" "p > 0"
  shows "tick_due s (tick_time (e\<lparr>runStart := r, tickNumber := n\<rparr>)) \<longleftrightarrow> p dvd r"
  using assms by (simp add: tick_due_def tick_time_def dvd_eq_mod_eq_0)

text \<open>
  C16. A tick period that does not survive the round trip through a floating-point frequency can stop
  its sources.  A clock of 100/3 Hz alone makes a network with the tick period 30000 us.  Whatever the
  current time, the start of the run is put on a multiple of 29999 us, half a period or more ahead,
  not of 30000 us, and the clock is due at some tick of the run, and then at every one, only if
  that start is a multiple of both numbers, which have no common factor: for one in 30000 multiples
  of 29999.
\<close>

theorem grid_can_miss_sources:
  "\<exists>s e' r. newClockSignal (ddiv (double_of_int 100) (double_of_int 3)) = Inr s
    \<and> buildNetworkCacheData (snd (addSignal s empty_engine)) = Inr e'
    \<and> tickPeriod e' = 30000 \<and> sigs e' = [s] \<and> nextPeriodOnPeriodBoundary now (tickPeriod e') = Inr r
    \<and> 29999 dvd r \<and> now + 14999 < r \<and> r \<le> now + 44998
    \<and> ((\<exists>n. tick_due s (tick_time (e'\<lparr>runStart := r, tickNumber := n\<rparr>))) \<longleftrightarrow> 29999 * 30000 dvd r)
    \<and> ((\<forall>n. tick_due s (tick_time (e'\<lparr>runStart := r, tickNumber := n\<rparr>))) \<longleftrightarrow> 29999 * 30000 dvd r)"
proof -
  obtain s where s: "s = clock_of (ddiv (double_of_int 100) (double_of_int 3)) 30000" by simp
  obtain e' where e': "buildNetworkCacheData (snd (addSignal s empty_engine)) = Inr e'" "tickPeriod e' = 30000" "sigs e' = [s]"
    using clock_build [of 30000] by (auto simp: s)
  obtain r where r: "r = now + 44998 - (now + 44998) mod 29999" by simp
  have b: "now + 14999 < r" "r \<le> now + 44998"
    unfolding r using pos_mod_bound [of 29999 "now + 44998"] pos_mod_sign [of 29999 "now + 44998"] by linarith+
  have d: "29999 dvd r" by (simp add: r minus_mod_eq_mult_div)
  have due: "tick_due s (tick_time (e'\<lparr>runStart := r, tickNumber := n\<rparr>)) \<longleftrightarrow> 30000 dvd r" for n
    by (rule due_only_aligned) (simp_all add: e'(2) s clock_of_def plain_signal_def)
  have "coprime (29999 :: int) 30000" by (simp add: coprime_iff_gcd_eq_1 gcd_non_0_int)
  then have "30000 dvd r \<longleftrightarrow> 29999 * 30000 dvd r" using d divides_mult [of 29999 r 30000] dvd_mult_right [of 29999 30000 r] by blast
  then show ?thesis using clock_100_3 e' b d due run_start_30000 [of now] by (intro exI [of _ s] exI [of _ e'] exI [of _ r]) (simp add: s r)
qed

theorem grid_can_miss_sources_witness:
  "\<exists>s e'. newClockSignal (ddiv (double_of_int 100) (double_of_int 3)) = Inr s
    \<and> buildNetworkCacheData (snd (addSignal s empty_engine)) = Inr e'
    \<and> nextPeriodOnPeriodBoundary 1000000 (tickPeriod e') = Inr 1019966
    \<and> (\<forall>n. \<not> tick_due s (tick_time (e'\<lparr>runStart := 1019966, tickNumber := n\<rparr>)))"
proof -
  obtain s e' r where x: "newClockSignal (ddiv (double_of_int 100) (double_of_int 3)) = Inr s"
    "buildNetworkCacheData (snd (addSignal s empty_engine)) = Inr e'" "tickPeriod e' = 30000"
    "nextPeriodOnPeriodBoundary 1000000 (tickPeriod e') = Inr r"
    "(\<exists>n. tick_due s (tick_time (e'\<lparr>runStart := r, tickNumber := n\<rparr>))) \<longleftrightarrow> 29999 * 30000 dvd r"
    using grid_can_miss_sources [of 1000000] by blast
  then have "r = 1019966" using run_start_30000 [of 1000000] by simp
  then show ?thesis using x by (intro exI [of _ s] exI [of _ e']) simp
qed

section \<open>Background islands\<close>

text \<open>
  A tick leaves out the sources of background islands and event-driven islands, but not the background
  islands themselves: \<open>evaluateNetwork\<close> evaluates one that has a period like any other.
\<close>

lemma tick_evaluates_background:
  assumes "islands e = [i]" "is_background i" "is_tickPeriod i \<noteq> 0"
  shows "evaluateNetwork t e = seq_then (evaluateIsland i (resolveEvaluationTime i t e) e) (\<lambda>(r, e1). Inr e1)"
  using assms by (simp add: evaluateNetwork_def)
    (cases "evaluateIsland i (resolveEvaluationTime i t e) e"; simp split: prod.splits)

end
