(* ===== verification/Spec2Isabelle.thy ===== *)
theory Spec2Isabelle
  imports Roxal_Prelude Ordered_Map Ustring Builtin_Types Value_Box Value_Codec Call_Spec Debug_Info
    Chunk_Code Code_Emitter Overload Indent_Lexer Ieee_Double Scalar_Ops Variables_Map
    Call_Setup Vm_State Vm_Step Ast_Compile
    Code_Runs Source_Semantics Code_Effects Compile_Emits Compile_Exprs Compile_Holes Compile_Stmts Compile_Functions
    Signal_History Dataflow_Graph Dataflow_Sort Dataflow_Tick Dataflow_Settle Dataflow_Island
    Dataflow_Order Dataflow_Wires Dataflow_Network Double_Ratio Dataflow_Grid
begin

text \<open>
  Roxal is a language for robot programs: a compiler from source text to bytecode, a virtual machine
  that runs the bytecode on threads and actors, and a dataflow network of signals beside it.  This
  development models the deterministic core of the three, one theory or group of theories per component; paths are relative to \<open>src/\<close>.

  \<^bold>\<open>How the parts interact.\<close>  Source text is turned into tokens by a generated lexer, wrapped by the
  indentation layer (\<open>Indent_Lexer\<close>).  The compiler walks the AST, resolves names to locals, captured
  variables and module variables, chooses overloads (\<open>Overload\<close>) by the type relation of
  \<open>Builtin_Types\<close>, and emits bytecode with jumps, operand widths, call specifications and debug
  metadata (\<open>Ast_Compile\<close>, \<open>Code_Emitter\<close>, \<open>Chunk_Code\<close>, \<open>Call_Spec\<close>, \<open>Debug_Info\<close>).  Chunks and values are written to
  module caches and compute payloads (\<open>Value_Codec\<close>).  At run time values are NaN-boxed words
  (\<open>Value_Box\<close>), combined by the operators (\<open>Scalar_Ops\<close> over \<open>Ieee_Double\<close>), kept in module variables
  (\<open>Variables_Map\<close>), and passed to functions by the argument set-up of a call (\<open>Call_Setup\<close>).  A thread
  runs the bytecode of \<open>Chunk_Code\<close> on its own stack, frames and captured variables (\<open>Vm_State\<close>); one
  turn of its loop fetches and carries out one instruction (\<open>Vm_Step\<close>), calling on all of these.
  Beside the program runs the network: signals keep bounded histories of samples (\<open>Signal_History\<close>),
  functions lifted over signals are nodes that read and write them (\<open>Dataflow_Graph\<close>), and a tick or an
  event update evaluates the island of nodes it reaches (\<open>Dataflow_Tick\<close>).  A node's body is a closure
  run by the machine; to the network it is a parameter, a function from arguments to outputs.

  \<^bold>\<open>Theories, sources and results.\<close>
  \<^item> \<open>Roxal_Prelude\<close>: bytes, byte order, \<open>std::istream\<close>, fallible sequencing, and the interfaces
    \<open>framed\<close>, \<open>framed_strict\<close> (a writer and reader that undo each other, with no proper prefix
    readable) and \<open>machine\<close> (a step relation with an inductive invariant).
  \<^item> \<open>Ordered_Map\<close> (\<open>core/ordered_map.h\<close>): the insertion-ordered dictionary; its operations keep the
    representation invariant and refine association-list update and deletion.
  \<^item> \<open>Ustring\<close> (\<open>core/ustring.h\<close>): UTF-16 strings; UTF-8 round trip, escapes, code point order equal to
    a linear order, hashing.
  \<^item> \<open>Builtin_Types\<close> (\<open>core/types.{h,cpp}\<close>, parts of \<open>compiler/Value.{h,cpp}\<close>): builtin types, implicit
    conversions, type trees, runtime type tags.
  \<^item> \<open>Value_Box\<close> (\<open>compiler/Value.{h,cpp}\<close>): the 64-bit value word; kinds exclude each other, immediates
    survive boxing.
  \<^item> \<open>Value_Codec\<close> (\<open>compiler/Value.cpp\<close>, \<open>compiler/Object.cpp\<close>): serialized values; round trip, and
    what damaged input does.
  \<^item> \<open>Call_Spec\<close> (\<open>compiler/Chunk.{h,cpp}\<close>, \<open>compiler/RoxalCompiler.cpp\<close>): the arguments of a call and
    their matching to parameters; encoding round trip, soundness of the matching.
  \<^item> \<open>Call_Setup\<close> (\<open>compiler/VM.cpp\<close>): the arguments of a call brought into the callee's slots;
    correctness of positional and of named calls, and the calls that read outside the arguments.
  \<^item> \<open>Debug_Info\<close> (\<open>compiler/debug/DebugInfo.{h,cpp}\<close>): the metadata format; round trip, validation of
    hostile input, detection of truncation.
  \<^item> \<open>Chunk_Code\<close> (\<open>compiler/Chunk.{h,cpp}\<close>): bytecode, line table, disassembler, chunk format.
  \<^item> \<open>Code_Emitter\<close> (\<open>compiler/RoxalCompiler.{h,cpp}\<close>): operands, jumps, scopes, upvalue resolution.
  \<^item> \<open>Overload\<close> (\<open>compiler/OverloadResolver.{h,cpp}\<close>): ranking and selection; the chosen candidate is
    optimal, static and runtime resolution agree where they should.
  \<^item> \<open>Indent_Lexer\<close> (\<open>compiler/RoxalIndentationLexer.{h,cpp}\<close>): the inserted tokens balance and the
    program's own tokens are kept.
  \<^item> \<open>Ieee_Double\<close>: \<open>double\<close> as its bit pattern with exact rounding arithmetic.
  \<^item> \<open>Scalar_Ops\<close> (\<open>compiler/Value.cpp\<close>): conversions, arithmetic, comparison and equality of scalars.
  \<^item> \<open>Variables_Map\<close> (\<open>compiler/Value.h\<close>, \<open>compiler/VM.cpp\<close>): module variables and their instructions.
  \<^item> \<open>Vm_State\<close> (\<open>compiler/Thread.{h,cpp}\<close>, \<open>compiler/VM.cpp\<close>): the record \<open>thread\<close> with its value stack,
    \<open>frame\<close>s, open captured variables and heap of closures and lists; capture, closing, return and
    unwinding.  A captured local and its slot are one cell, a return keeps every captured variable
    but one that an exception left pointing at the result, and an exception reaches the innermost handler at the depth it was installed at.
  \<^item> \<open>Vm_Step\<close> (\<open>VM::execute\<close>): operand reading, sixty instructions, calls with their default frames, the
    start of a frame, and the step relation of a thread.  The relation instantiates \<open>machine\<close> with the
    invariant \<open>wf_thread\<close>; a positional call of a closure without default frames starts a frame whose
    slots are the arguments, converted to the declared scalar types; the fast paths of the operators
    agree with their general paths.
  \<^item> \<open>Ast_Compile\<close> (\<open>compiler/RoxalCompiler.{h,cpp}\<close>, \<open>core/AST.h\<close>): the visitors over expressions,
    statements and functions without declared types, from a file's AST to its chunks; the record
    \<open>compiler\<close> is the compiler's state and a visitor a fallible function on it.
  \<^item> \<open>Source_Semantics\<close>: what such a program means, a big-step evaluator with variables looked up by name.
    Its fuel bounds the iterations of each loop in progress; results hold for every fuel that suffices.
  \<^item> \<open>Code_Runs\<close>, \<open>Code_Effects\<close>: stretches of bytecode run in the top frame of a thread, one lemma per
    instruction the compiler emits.  \<open>Compile_Emits\<close>: what a visitor appends to the code and constants.
  \<^item> \<open>Compile_Exprs\<close>, \<open>Compile_Holes\<close>, \<open>Compile_Stmts\<close>, \<open>Compile_Functions\<close>: the compiler is correct.  The code of
    an expression computes its value in a number of stack slots bounded by \<open>need\<close>; the code of a
    statement, with holes for the jumps of \<open>break\<close> that the loop patches, does what the evaluator says;
    a function returns what its body evaluates to.  Two programs where the compiler goes wrong are
    compiled and run.
  \<^item> \<open>Signal_History\<close> (\<open>dataflow/Signal.{h,cpp}\<close>): rate, history and delays of one signal; written on its
    grid a signal is an exact delay line, and what happens off the grid.
  \<^item> \<open>Dataflow_Graph\<close> (\<open>dataflow/DataflowEngine.{h,cpp}\<close>, \<open>dataflow/FuncNode.h\<close>): the record \<open>engine\<close>, in
    which a pointer is an index into \<open>sigs\<close> or \<open>nodes\<close>, and \<open>buildNetworkCacheData\<close>: consumers, islands,
    periods, execution orders.
  \<^item> \<open>Dataflow_Tick\<close> (\<open>dataflow/Signal.cpp\<close>, \<open>dataflow/FuncNode.cpp\<close>, \<open>dataflow/DataflowEngine.cpp\<close>): writes and
    wires, node execution, \<open>evaluateIsland\<close>, \<open>tick\<close>, event updates, background islands, \<open>copyInto\<close>.  The fuel
    of a write is the number of signals, no chain of wires being longer; an island has the engine's own
    limit of 100 passes per node, and a chain of event updates the engine's limit of 100000.
  \<^item> \<open>Dataflow_Sort\<close>, \<open>Dataflow_Order\<close>: the depth-first sort succeeds exactly on acyclic graphs, execution
    orders put producers first, the island search finds connected components.
  \<^item> \<open>Dataflow_Settle\<close>, \<open>Dataflow_Island\<close>: the locale \<open>settling\<close> of repeated passes over ranked members,
    interpreted on \<open>visit_node\<close>; evaluation ends, with every available node showing what its body computed from its inputs, or from
    inputs that the engine takes for equal to them; a NaN makes it fail.
  \<^item> \<open>Dataflow_Wires\<close>, \<open>Dataflow_Network\<close>, \<open>Dataflow_Grid\<close>: evaluation never changes the wiring, the networks
    reachable from the empty engine, and what holds in all of them; the tick grid, and when sources
    keep ticking on it.  \<open>Double_Ratio\<close>: quotients of doubles computed exactly on whole numbers.

  \<^bold>\<open>Conventions.\<close>  C++ undefined behaviour and uninitialised reads are explicit results (\<open>None\<close>, \<open>Undef\<close>,
  \<open>Indeterminate\<close>), never a convenient value.  Exceptions are values of sums.  Integers have their C++ width
  where a wrap or a narrowing is possible.  Loops are structural recursions or functions with a
  termination proof; where a reader nests to a depth, the source's own limit is the fuel.

  \<^bold>\<open>Not modelled.\<close>  The parser is generated from a grammar, and the translation of its tree to the AST
  works on the generated types.  Of the compiler's visitors those of calls, property access, \<open>for\<close>, \<open>match\<close>,
  \<open>with\<close>, \<open>try\<close>, type declarations, imports, events and annotations are left out, and the correctness of
  compiled code does not cover nested functions, constants, labels and jumps.  The instructions of the machine on properties, type declarations, containers
  other than lists, events, futures, signals and remote calls give \<open>Outside_Model\<close>, a result no theorem
  speaks about; the heap's reference counts and collector, the scheduling of threads and actors, the
  built-in modules and the bindings to other libraries, and the debugger's services
  are outside the development.  In the network, bodies that suspend or return futures, ticks driven by a
  host with a time budget, the removal of signals and functions, names, subscriptions and graph dumps
  are left out, and so are the callbacks on ticks and executions.  Times are unbounded integers where the
  code has 64-bit microseconds, so overflow of a time is not represented, and a tick takes no time:
  the overrun of a tick, which throws under the \<open>Strict\<close> scheme, does not occur.  The heap of the machine
  has no object or actor instance, so an expression statement never calls an action method.  Case
  mapping of strings goes to a host hook.  Locks are not modelled: each operation is one atomic step.
\<close>

end
